(* ===== verification/Prelude.thy ===== *)
theory Prelude
  imports Main "HOL-Library.Word" "HOL-Library.Monad_Syntax" "HOL-Library.Multiset"
begin

unbundle bit_operations_syntax

text \<open>
  Shared vocabulary of the development: the names of the C integer types the sources use,
  the reading of \<^verbatim>\<open>tor_assert\<close> as the value \<^term>\<open>None\<close> of an option, and the generic
  lemmas on words, lists and options that the component theories rely on.

  Conventions.  An operation that can reach a failing \<^verbatim>\<open>tor_assert\<close> (which aborts the
  process) returns an option, and \<^term>\<open>None\<close> is the abort; a NULL pointer that the code
  tests is an option too.  Unsigned integers are words of the width of the C type, so that
  addition, subtraction and multiplication wrap exactly as in C.  Signed \<^verbatim>\<open>int\<close> values
  are \<^typ>\<open>int\<close>: the places that use them stay in range, and where a narrowing conversion
  happens it is written out.
\<close>

section \<open>Types and collections\<close>

named_theorems unat_simps \<open>rules that move word arithmetic to natural numbers\<close>
named_theorems wf_intros \<open>introduction rules for the well-formedness predicates\<close>

type_synonym u8 = "8 word"
type_synonym u16 = "16 word"
type_synonym u32 = "32 word"
type_synonym u64 = "64 word"

text \<open>\<^verbatim>\<open>tor_assert(b)\<close>: continue when \<open>b\<close> holds, abort otherwise.\<close>

definition tor_assert :: "bool \<Rightarrow> unit option" where
  "tor_assert b = (if b then Some () else None)"

lemma tor_assert_simps [simp]:
  "tor_assert True = Some ()"
  "tor_assert False = None"
  by (simp_all add: tor_assert_def)

lemma tor_assert_eq_Some [simp]: "(tor_assert b = Some u) = b"
  by (simp add: tor_assert_def)

text \<open>The limits of the C types.\<close>

definition INT32_MAX :: int where "INT32_MAX = 2147483647"
definition INT32_MIN :: int where "INT32_MIN = - 2147483648"
definition UINT64_MAX :: u64 where "UINT64_MAX = - 1"

section \<open>Words\<close>

lemma unat_u8_less: "unat (x :: u8) < 256"
  using unsigned_less [of x, where ?'a = nat] by simp

lemma unat_u16_less: "unat (x :: u16) < 65536"
  using unsigned_less [of x, where ?'a = nat] by simp

lemma unat_u32_less: "unat (x :: u32) < 4294967296"
  using unsigned_less [of x, where ?'a = nat] by simp

lemma unat_u64_less: "unat (x :: u64) < 18446744073709551616"
  using unsigned_less [of x, where ?'a = nat] by simp

lemma unat_ucast_up:
  "LENGTH('a) \<le> LENGTH('b) \<Longrightarrow> unat (ucast (x :: 'a :: len word) :: 'b :: len word) = unat x"
proof -
  assume "LENGTH('a) \<le> LENGTH('b)"
  then have "unat x < 2 ^ LENGTH('b)"
    by (meson less_le_trans one_le_numeral power_increasing unsigned_less)
  then show ?thesis by (simp add: unsigned_ucast_eq take_bit_nat_eq_self)
qed

lemma unat_ucast_u8_u64 [simp]: "unat (ucast (x :: u8) :: u64) = unat x"
  by (simp add: unat_ucast_up)

lemma unat_ucast_u16_u64 [simp]: "unat (ucast (x :: u16) :: u64) = unat x"
  by (simp add: unat_ucast_up)

lemma unat_ucast_u32_u64 [simp]: "unat (ucast (x :: u32) :: u64) = unat x"
  by (simp add: unat_ucast_up)

lemma unat_add_nowrap [unat_simps]:
  "unat x + unat y < 2 ^ LENGTH('a) \<Longrightarrow> unat (x + y :: 'a :: len word) = unat x + unat y"
  by (simp add: unat_add_lem [THEN iffD1])

lemma unat_sub_nowrap [unat_simps]:
  "unat y \<le> unat x \<Longrightarrow> unat (x - y :: 'a :: len word) = unat x - unat y"
  by (simp add: unat_sub word_le_nat_alt)

lemma unat_mult_nowrap [unat_simps]:
  "unat x * unat y < 2 ^ LENGTH('a) \<Longrightarrow> unat (x * y :: 'a :: len word) = unat x * unat y"
  by (simp add: unat_mult_lem [THEN iffD1])

lemma unat_Suc_nowrap [unat_simps]:
  "Suc (unat x) < 2 ^ LENGTH('a) \<Longrightarrow> unat (x + 1 :: 'a :: len word) = Suc (unat x)"
  using unat_add_nowrap [of x 1] by simp

lemma unat_max_eq: "unat (max x y :: 'a :: len word) = max (unat x) (unat y)"
  by (simp add: max_def word_le_nat_alt)

lemma unat_min_eq: "unat (min x y :: 'a :: len word) = min (unat x) (unat y)"
  by (simp add: min_def word_le_nat_alt)

section \<open>Options and lists\<close>

lemma bind_eq_Some_iff: "(Option.bind m f = Some y) = (\<exists>x. m = Some x \<and> f x = Some y)"
  by (cases m) auto

lemma nth_update_map: "i < length xs \<Longrightarrow> map f (xs[i := y]) = (map f xs)[i := f y]"
  by (simp add: map_update)

lemma find_Some_iff: "find P xs = Some x \<Longrightarrow> x \<in> set xs \<and> P x"
  by (induction xs) (auto split: if_splits)

lemma find_None_notin: "find P xs = None \<Longrightarrow> x \<in> set xs \<Longrightarrow> \<not> P x"
  by (induction xs) (auto split: if_splits)

end
