(* ===== verification/NetParams.thy ===== *)
theory NetParams
  imports Prelude
begin

text \<open>
  Consensus parameters: \<^verbatim>\<open>tor_parse_long\<close> (\<^verbatim>\<open>lib/string/parse_int.c\<close>) and the parameter
  lookup of \<^verbatim>\<open>feature/nodelist/networkstatus.c\<close>.  Every tunable of congestion control and
  conflux is read through \<^verbatim>\<open>networkstatus_get_param\<close>; the locale \<open>param_source\<close> states what
  those readers rely on, and it is interpreted on the model of the real lookup.
\<close>

section \<open>Parsing a decimal number\<close>

definition c_isspace :: "char \<Rightarrow> bool" where
  "c_isspace c = (c = CHR '' '' \<or> c = CHR 0x09 \<or> c = CHR 0x0A \<or> c = CHR 0x0B \<or> c = CHR 0x0C \<or> c = CHR 0x0D)"

definition c_isdigit :: "char \<Rightarrow> bool" where
  "c_isdigit c = (CHR ''0'' = c \<or> CHR ''1'' = c \<or> CHR ''2'' = c \<or> CHR ''3'' = c \<or> CHR ''4'' = c
     \<or> CHR ''5'' = c \<or> CHR ''6'' = c \<or> CHR ''7'' = c \<or> CHR ''8'' = c \<or> CHR ''9'' = c)"

definition digit_val :: "char \<Rightarrow> int" where
  "digit_val c = of_char c - 48"

text \<open>The digits at the front of a string, read from the left.\<close>

fun read_digits :: "int \<Rightarrow> string \<Rightarrow> int \<times> string" where
  "read_digits acc [] = (acc, [])"
| "read_digits acc (c # cs) =
     (if c_isdigit c then read_digits (10 * acc + digit_val c) cs else (acc, c # cs))"

text \<open>
  \<^verbatim>\<open>strtol\<close> with base 10: leading white space, an optional sign, digits.  \<^term>\<open>None\<close> when
  nothing is converted (\<^verbatim>\<open>endptr == s\<close>).  The value is not cut off at \<^verbatim>\<open>LONG_MAX\<close>: the
  caller rejects \<^verbatim>\<open>ERANGE\<close> and every value outside its own, smaller, limits alike.
\<close>

definition strtol10 :: "string \<Rightarrow> (int \<times> string) option" where
  "strtol10 s =
     (let t = dropWhile c_isspace s;
          (neg, u) = (case t of [] \<Rightarrow> (False, [])
                      | c # cs \<Rightarrow> if c = CHR ''-'' then (True, cs)
                                  else if c = CHR ''+'' then (False, cs) else (False, t))
      in case u of [] \<Rightarrow> None
         | d # _ \<Rightarrow> if c_isdigit d
                    then (let (v, rest) = read_digits 0 u in Some (if neg then - v else v, rest))
                    else None)"

text \<open>\<^verbatim>\<open>tor_parse_long(s, 10, min, max, &ok, NULL)\<close>: \<^term>\<open>None\<close> is \<open>ok = 0\<close>.\<close>

definition tor_parse_long :: "string \<Rightarrow> int \<Rightarrow> int \<Rightarrow> int option" where
  "tor_parse_long s lo hi =
     (case strtol10 s of None \<Rightarrow> None
      | Some (r, rest) \<Rightarrow>
          if rest \<noteq> [] then None
          else if hi < lo then None
          else if r < lo \<or> r > hi then None
          else Some r)"

lemma tor_parse_long_range: "tor_parse_long s lo hi = Some v \<Longrightarrow> lo \<le> v \<and> v \<le> hi"
  by (auto simp: tor_parse_long_def split: option.splits if_splits)

section \<open>The consensus\<close>

text \<open>The part of a router status that conflux counts.\<close>

record routerstatus =
  rs_is_exit :: bool
  rs_is_bad_exit :: bool
  rs_supports_conflux :: bool

text \<open>\<^verbatim>\<open>net_params\<close> may be NULL.\<close>

record networkstatus =
  net_params :: "string list option"
  routerstatus_list :: "routerstatus list"

text \<open>The first entry \<open>name=value\<close> whose value parses as an \<^verbatim>\<open>int32\<close>.\<close>

fun find_param :: "string list \<Rightarrow> string \<Rightarrow> int option" where
  "find_param [] name = None"
| "find_param (p # ps) name =
     (if take (length name) p = name \<and> length name < length p \<and> p ! length name = CHR ''=''
      then (case tor_parse_long (drop (length name + 1) p) INT32_MIN INT32_MAX of
              Some v \<Rightarrow> Some v
            | None \<Rightarrow> find_param ps name)
      else find_param ps name)"

definition get_net_param_from_list ::
  "string list \<Rightarrow> string \<Rightarrow> int \<Rightarrow> int \<Rightarrow> int \<Rightarrow> int option" where
  "get_net_param_from_list ps name default_val min_val max_val = do {
     tor_assert (max_val > min_val);
     tor_assert (min_val \<le> default_val);
     tor_assert (max_val \<ge> default_val);
     let res = (case find_param ps name of Some v \<Rightarrow> v | None \<Rightarrow> default_val);
     let res = (if res < min_val then min_val else if res > max_val then max_val else res);
     tor_assert (res \<ge> min_val);
     tor_assert (res \<le> max_val);
     Some res
   }"

text \<open>
  \<open>latest\<close> is the result of \<^verbatim>\<open>networkstatus_get_latest_consensus()\<close>, used when the caller
  passes NULL.
\<close>

definition networkstatus_get_param ::
  "networkstatus option \<Rightarrow> networkstatus option \<Rightarrow> string \<Rightarrow> int \<Rightarrow> int \<Rightarrow> int \<Rightarrow> int option" where
  "networkstatus_get_param latest ns name default_val min_val max_val =
     (case (case ns of None \<Rightarrow> latest | Some n \<Rightarrow> Some n) of
        None \<Rightarrow> Some default_val
      | Some n \<Rightarrow>
          (case net_params n of
             None \<Rightarrow> Some default_val
           | Some ps \<Rightarrow> get_net_param_from_list ps name default_val min_val max_val))"

definition networkstatus_get_overridable_param ::
  "networkstatus option \<Rightarrow> networkstatus option \<Rightarrow> int \<Rightarrow> string \<Rightarrow> int \<Rightarrow> int \<Rightarrow> int \<Rightarrow> int option" where
  "networkstatus_get_overridable_param latest ns torrc_value name default_val min_val max_val =
     (if torrc_value \<ge> min_val \<and> torrc_value \<le> max_val then Some torrc_value
      else networkstatus_get_param latest ns name default_val min_val max_val)"

section \<open>What readers of parameters rely on\<close>

locale param_source =
  fixes get :: "string \<Rightarrow> int \<Rightarrow> int \<Rightarrow> int \<Rightarrow> int option"
  assumes get_in_range:
    "lo < hi \<Longrightarrow> lo \<le> d \<Longrightarrow> d \<le> hi \<Longrightarrow> \<exists>v. get name d lo hi = Some v \<and> lo \<le> v \<and> v \<le> hi"
begin

lemma get_ok: "lo < hi \<Longrightarrow> lo \<le> d \<Longrightarrow> d \<le> hi \<Longrightarrow> get name d lo hi = Some (the (get name d lo hi))"
  using get_in_range [of lo hi d name] by auto

lemma get_lower: "lo < hi \<Longrightarrow> lo \<le> d \<Longrightarrow> d \<le> hi \<Longrightarrow> get name d lo hi = Some v \<Longrightarrow> lo \<le> v"
  using get_in_range [of lo hi d name] by auto

lemma get_upper: "lo < hi \<Longrightarrow> lo \<le> d \<Longrightarrow> d \<le> hi \<Longrightarrow> get name d lo hi = Some v \<Longrightarrow> v \<le> hi"
  using get_in_range [of lo hi d name] by auto

lemma nat_of_get:
  "lo < hi \<Longrightarrow> lo \<le> d \<Longrightarrow> d \<le> hi \<Longrightarrow> 0 \<le> lo \<Longrightarrow> hi < 2 ^ LENGTH('w :: len) \<Longrightarrow>
   get name d lo hi = Some v \<Longrightarrow> unat (word_of_int v :: 'w word) = nat v \<and> lo \<le> v \<and> v \<le> hi"
proof -
  assume a: "lo < hi" "lo \<le> d" "d \<le> hi" "0 \<le> lo" "hi < 2 ^ LENGTH('w)" "get name d lo hi = Some v"
  then have v: "lo \<le> v" "v \<le> hi" using get_lower get_upper by blast+
  then have "take_bit LENGTH('w) v = v" using a by (simp add: take_bit_int_eq_self)
  then show ?thesis using v by (simp add: unat_eq_nat_uint unsigned_word_eqI uint_word_of_int_eq)
qed

end

lemma get_net_param_from_list_range:
  "lo < hi \<Longrightarrow> lo \<le> d \<Longrightarrow> d \<le> hi \<Longrightarrow>
   \<exists>v. get_net_param_from_list ps name d lo hi = Some v \<and> lo \<le> v \<and> v \<le> hi"
  by (auto simp: get_net_param_from_list_def Let_def split: option.splits)

interpretation np: param_source "networkstatus_get_param latest ns" for latest ns
  by unfold_locales
     (auto simp: networkstatus_get_param_def get_net_param_from_list_range split: option.splits)

interpretation npo: param_source "networkstatus_get_overridable_param latest ns torrc_value"
  for latest ns torrc_value
  by unfold_locales
     (auto simp: networkstatus_get_overridable_param_def np.get_in_range)

section \<open>Properties\<close>

lemma find_param_skip:
  "(\<forall>p\<in>set ps. take (length name) p \<noteq> name \<or> length p \<le> length name \<or> p ! length name \<noteq> CHR ''='') \<Longrightarrow>
   find_param (ps @ qs) name = find_param qs name"
  by (induction ps) auto

lemma find_param_hit:
  "find_param ((name @ ''='' @ v) # ps) name =
     (case tor_parse_long v INT32_MIN INT32_MAX of Some x \<Rightarrow> Some x | None \<Rightarrow> find_param ps name)"
  by (simp add: nth_append)

text \<open>
  A consensus parameter: the first well-formed entry for the name decides, clamped to the
  limits of the caller.  With no consensus the default is used.  The lookup never fails when the
  limits are sensible, and its result is within them.
\<close>

theorem net_param_clamped:
  assumes "lo < hi" and "lo \<le> d" and "d \<le> hi"
  shows "\<exists>v. networkstatus_get_param latest ns name d lo hi = Some v \<and> lo \<le> v \<and> v \<le> hi
    \<and> (\<forall>n ps. ns = Some n \<longrightarrow> net_params n = Some ps \<longrightarrow>
         v = max lo (min hi (case find_param ps name of Some x \<Rightarrow> x | None \<Rightarrow> d)))
    \<and> (ns = None \<longrightarrow> latest = None \<longrightarrow> v = d)"
  using assms by (auto simp: networkstatus_get_param_def get_net_param_from_list_def Let_def split: option.splits)

theorem net_param_clamped_witness:
  "networkstatus_get_param None (Some \<lparr>net_params = Some [''cfx_enabledx=1'', ''cc_alg=99''], routerstatus_list = []\<rparr>)
     ''cc_alg'' 2 0 3 = Some 3"
proof -
  let ?n = "\<lparr>net_params = Some [''cfx_enabledx=1'', ''cc_alg=99''], routerstatus_list = []\<rparr>"
  have "find_param [''cfx_enabledx=1'', ''cc_alg=99''] ''cc_alg'' = Some 99"
    by (simp add: tor_parse_long_def strtol10_def c_isspace_def c_isdigit_def digit_val_def INT32_MIN_def INT32_MAX_def)
  moreover obtain v where "networkstatus_get_param None (Some ?n) ''cc_alg'' 2 0 3 = Some v"
    "v = max 0 (min 3 (case find_param [''cfx_enabledx=1'', ''cc_alg=99''] ''cc_alg'' of Some x \<Rightarrow> x | None \<Rightarrow> 2))"
    using net_param_clamped [of 0 3 2 None "Some ?n" "''cc_alg''"] by force
  ultimately show ?thesis by simp
qed

end
