(* ===== verification/Smartlist.thy ===== *)
theory Smartlist
  imports Prelude
begin

text \<open>
  The smartlist container of \<^verbatim>\<open>lib/smartlist_core\<close> and \<^verbatim>\<open>lib/container\<close>.  A smartlist is
  the list of its used entries; capacity and allocation are not part of the model (the code
  aborts when a list would pass \<open>INT_MAX\<close> entries).  The priority-queue operations of
  \<^verbatim>\<open>smartlist.c\<close> are kept as the array algorithms they are, with the index that each item
  stores of its own position.  A C item holds that index in a field at a given offset; here
  the offset is a pair of functions \<open>get_idx\<close>/\<open>set_idx\<close> on the item.
\<close>

section \<open>Plain lists\<close>

text \<open>
  \<^verbatim>\<open>smartlist_get\<close> reads an entry of the array; unused entries are kept NULL, so reading the
  first entry of an empty list gives NULL.
\<close>

definition smartlist_get :: "'a list \<Rightarrow> nat \<Rightarrow> 'a option" where
  "smartlist_get sl idx = (if idx < length sl then Some (sl ! idx) else None)"

definition smartlist_add :: "'a list \<Rightarrow> 'a \<Rightarrow> 'a list" where
  "smartlist_add sl element = sl @ [element]"

definition smartlist_del_keeporder :: "'a list \<Rightarrow> nat \<Rightarrow> 'a list option" where
  "smartlist_del_keeporder sl idx =
     (if idx < length sl then Some (take idx sl @ drop (Suc idx) sl) else None)"

text \<open>\<^verbatim>\<open>smartlist_del\<close> moves the last element into the hole.\<close>

definition smartlist_del :: "'a list \<Rightarrow> nat \<Rightarrow> 'a list option" where
  "smartlist_del sl idx =
     (if idx < length sl then Some (take (length sl - 1) (sl[idx := last sl])) else None)"

section \<open>Heaps\<close>

definition LEFT_CHILD :: "nat \<Rightarrow> nat" where "LEFT_CHILD i = 2 * i + 1"
definition RIGHT_CHILD :: "nat \<Rightarrow> nat" where "RIGHT_CHILD i = 2 * i + 2"
definition PARENT :: "nat \<Rightarrow> nat" where "PARENT i = (i - 1) div 2"

text \<open>\<^verbatim>\<open>MAX_PARENT_IDX\<close> is \<open>(INT_MAX - 2) / 2\<close>.\<close>

definition IDX_MAY_HAVE_CHILDREN :: "nat \<Rightarrow> bool" where
  "IDX_MAY_HAVE_CHILDREN idx = (idx \<le> (2147483647 - 2) div 2)"

definition UPDATE_IDX :: "(int \<Rightarrow> 'a \<Rightarrow> 'a) \<Rightarrow> nat \<Rightarrow> 'a list \<Rightarrow> 'a list" where
  "UPDATE_IDX set_idx i sl = sl[i := set_idx (int i) (sl ! i)]"

text \<open>The exchange of two entries followed by the two index updates.\<close>

definition swap_items :: "(int \<Rightarrow> 'a \<Rightarrow> 'a) \<Rightarrow> nat \<Rightarrow> nat \<Rightarrow> 'a list \<Rightarrow> 'a list" where
  "swap_items set_idx i j sl =
     UPDATE_IDX set_idx j (UPDATE_IDX set_idx i (sl[i := sl ! j, j := sl ! i]))"

definition best_child :: "('a \<Rightarrow> 'a \<Rightarrow> int) \<Rightarrow> 'a list \<Rightarrow> nat \<Rightarrow> nat" where
  "best_child compare sl idx =
     (let left_idx = LEFT_CHILD idx;
          best_idx = (if compare (sl ! idx) (sl ! left_idx) < 0 then idx else left_idx)
      in if left_idx + 1 < length sl \<and> compare (sl ! (left_idx + 1)) (sl ! best_idx) < 0
         then left_idx + 1 else best_idx)"

lemma length_swap_items [simp]: "length (swap_items s i j sl) = length sl"
  by (simp add: swap_items_def UPDATE_IDX_def)

lemma best_child_cases:
  "best_child c sl idx = idx \<or> best_child c sl idx = 2 * idx + 1 \<or>
   best_child c sl idx = 2 * idx + 2 \<and> 2 * idx + 2 < length sl"
  by (auto simp: best_child_def LEFT_CHILD_def Let_def)

function smartlist_heapify ::
  "('a \<Rightarrow> 'a \<Rightarrow> int) \<Rightarrow> (int \<Rightarrow> 'a \<Rightarrow> 'a) \<Rightarrow> 'a list \<Rightarrow> nat \<Rightarrow> 'a list" where
  "smartlist_heapify compare set_idx sl idx =
     (if \<not> IDX_MAY_HAVE_CHILDREN idx then sl
      else if LEFT_CHILD idx \<ge> length sl then sl
      else if best_child compare sl idx = idx then sl
      else smartlist_heapify compare set_idx
             (swap_items set_idx idx (best_child compare sl idx) sl)
             (best_child compare sl idx))"
  by pat_completeness auto
termination
proof (relation "measure (\<lambda>(c, s, sl, idx). length sl - idx)", goal_cases)
  case 1
  show ?case by simp
next
  case (2 compare set_idx sl idx)
  then have "idx < best_child compare sl idx"
    using best_child_cases [of compare sl idx] by auto
  with 2 show ?case
    by (simp add: LEFT_CHILD_def)
qed

declare smartlist_heapify.simps [simp del]

text \<open>The loop of \<^verbatim>\<open>smartlist_pqueue_add\<close>, from the position of the new item upwards.\<close>

function pqueue_sift_up ::
  "('a \<Rightarrow> 'a \<Rightarrow> int) \<Rightarrow> (int \<Rightarrow> 'a \<Rightarrow> 'a) \<Rightarrow> 'a list \<Rightarrow> nat \<Rightarrow> 'a list" where
  "pqueue_sift_up compare set_idx sl idx =
     (if idx = 0 then sl
      else if compare (sl ! idx) (sl ! PARENT idx) < 0
      then pqueue_sift_up compare set_idx (swap_items set_idx (PARENT idx) idx sl) (PARENT idx)
      else sl)"
  by pat_completeness auto
termination
  by (relation "measure (\<lambda>(c, s, sl, idx). idx)") (auto simp: PARENT_def)

declare pqueue_sift_up.simps [simp del]

definition smartlist_pqueue_add ::
  "('a \<Rightarrow> 'a \<Rightarrow> int) \<Rightarrow> (int \<Rightarrow> 'a \<Rightarrow> 'a) \<Rightarrow> 'a list \<Rightarrow> 'a \<Rightarrow> 'a list" where
  "smartlist_pqueue_add compare set_idx sl item =
     (let sl1 = smartlist_add sl item;
          sl2 = UPDATE_IDX set_idx (length sl1 - 1) sl1
      in pqueue_sift_up compare set_idx sl2 (length sl2 - 1))"

text \<open>The popped item has its index set to \<open>-1\<close>; an empty heap aborts.\<close>

definition smartlist_pqueue_pop ::
  "('a \<Rightarrow> 'a \<Rightarrow> int) \<Rightarrow> (int \<Rightarrow> 'a \<Rightarrow> 'a) \<Rightarrow> 'a list \<Rightarrow> ('a \<times> 'a list) option" where
  "smartlist_pqueue_pop compare set_idx sl =
     (if sl = [] then None
      else let top = set_idx (- 1) (sl ! 0);
               n = length sl - 1
           in if n = 0 then Some (top, [])
              else Some (top,
                     smartlist_heapify compare set_idx
                       (UPDATE_IDX set_idx 0 (take n (sl[0 := sl ! n]))) 0))"

definition smartlist_pqueue_remove ::
  "('a \<Rightarrow> 'a \<Rightarrow> int) \<Rightarrow> ('a \<Rightarrow> int) \<Rightarrow> (int \<Rightarrow> 'a \<Rightarrow> 'a) \<Rightarrow> 'a list \<Rightarrow> 'a \<Rightarrow> 'a list option" where
  "smartlist_pqueue_remove compare get_idx set_idx sl item =
     (let idx = nat (get_idx item); n = length sl - 1
      in if get_idx item < 0 \<or> idx \<ge> length sl \<or> sl ! idx \<noteq> item then None
         else if idx = n then Some (take n sl)
         else Some (smartlist_heapify compare set_idx
                      (UPDATE_IDX set_idx idx (take n (sl[idx := sl ! n]))) idx))"

text \<open>\<^verbatim>\<open>smartlist_pqueue_assert_ok\<close>: every item is at the index it stores and no child
  precedes its parent.\<close>

definition smartlist_pqueue_assert_ok ::
  "('a \<Rightarrow> 'a \<Rightarrow> int) \<Rightarrow> ('a \<Rightarrow> int) \<Rightarrow> 'a list \<Rightarrow> bool" where
  "smartlist_pqueue_assert_ok compare get_idx sl =
     list_all (\<lambda>i. (i > 0 \<longrightarrow> compare (sl ! PARENT i) (sl ! i) \<le> 0) \<and> get_idx (sl ! i) = int i)
       [0..<length sl]"


section \<open>The priority-queue contract\<close>

text \<open>
  What a client of a priority queue relies on: the content as a multiset, \<open>add\<close> and \<open>pop\<close>
  on it, and that \<open>pop\<close> returns an element of least key.  \<open>strip\<close> forgets the stored index.
\<close>

locale pqueue =
  fixes add :: "'a list \<Rightarrow> 'a \<Rightarrow> 'a list"
    and pop :: "'a list \<Rightarrow> ('a \<times> 'a list) option"
    and invar :: "'a list \<Rightarrow> bool"
    and cap :: nat
    and strip :: "'a \<Rightarrow> 'b"
    and key :: "'a \<Rightarrow> 'k :: linorder"
  assumes invar_Nil: "invar []"
    and invar_add: "invar q \<Longrightarrow> invar (add q x)"
    and mset_add: "invar q \<Longrightarrow> image_mset strip (mset (add q x)) = add_mset (strip x) (image_mset strip (mset q))"
    and pop_Nil: "pop [] = None"
    and pop_Some: "invar q \<Longrightarrow> q \<noteq> [] \<Longrightarrow> \<exists>x q'. pop q = Some (x, q')"
    and invar_pop: "invar q \<Longrightarrow> length q \<le> cap \<Longrightarrow> pop q = Some (x, q') \<Longrightarrow> invar q'"
    and mset_pop: "invar q \<Longrightarrow> length q \<le> cap \<Longrightarrow> pop q = Some (x, q') \<Longrightarrow>
       image_mset strip (mset q) = add_mset (strip x) (image_mset strip (mset q'))"
    and pop_hd: "pop q = Some (x, q') \<Longrightarrow> strip x = strip (hd q)"
    and hd_least: "invar q \<Longrightarrow> y \<in> set q \<Longrightarrow> key (hd q) \<le> key y"
    and key_strip: "strip x = strip y \<Longrightarrow> key x = key y"
begin

lemma key_mem: "image_mset strip (mset q) = add_mset z (image_mset strip (mset q')) \<Longrightarrow>
  y \<in> set q' \<Longrightarrow> \<exists>y'\<in>set q. key y' = key y"
proof -
  assume eq: "image_mset strip (mset q) = add_mset z (image_mset strip (mset q'))" and y: "y \<in> set q'"
  have "strip y \<in># image_mset strip (mset q)" using y by (simp add: eq)
  then obtain y' where "y' \<in> set q" "strip y' = strip y" by auto
  then show ?thesis using key_strip by blast
qed

lemma pop_least:
  assumes "invar q" and "length q \<le> cap" and "pop q = Some (x, q')" and "y \<in> set q'"
  shows "key x \<le> key y"
proof -
  from mset_pop [OF assms(1-3)] assms(4) obtain y' where "y' \<in> set q" "key y' = key y"
    using key_mem by blast
  moreover have "key x = key (hd q)"
    using pop_hd [OF assms(3)] key_strip by blast
  ultimately show ?thesis using hd_least [OF assms(1)] by metis
qed

lemma length_pop: "invar q \<Longrightarrow> length q \<le> cap \<Longrightarrow> pop q = Some (x, q') \<Longrightarrow> length q = Suc (length q')"
  using mset_pop [of q x q'] by (metis size_add_mset size_image_mset size_mset)

lemma length_add: "invar q \<Longrightarrow> length (add q x) = Suc (length q)"
  using mset_add [of q x] by (metis size_add_mset size_image_mset size_mset)

end

section \<open>The heap algorithms meet the contract\<close>

text \<open>
  Heap order on the list of keys; sift-up and sift-down each carry the usual weakened
  order with one hole.  The contract of the element type: the comparison decides a linear
  order on keys, and storing an index changes neither key nor payload.
\<close>

definition heap_ordered :: "'k :: linorder list \<Rightarrow> bool" where
  "heap_ordered ks = (\<forall>i < length ks. 0 < i \<longrightarrow> ks ! PARENT i \<le> ks ! i)"

definition heap_hole_up :: "'k :: linorder list \<Rightarrow> nat \<Rightarrow> bool" where
  "heap_hole_up ks h =
     ((\<forall>i < length ks. 0 < i \<longrightarrow> i \<noteq> h \<longrightarrow> ks ! PARENT i \<le> ks ! i) \<and>
      (\<forall>i < length ks. 0 < i \<longrightarrow> 0 < h \<longrightarrow> PARENT i = h \<longrightarrow> ks ! PARENT h \<le> ks ! i))"

definition heap_hole_down :: "'k :: linorder list \<Rightarrow> nat \<Rightarrow> bool" where
  "heap_hole_down ks h =
     ((\<forall>i < length ks. 0 < i \<longrightarrow> PARENT i \<noteq> h \<longrightarrow> ks ! PARENT i \<le> ks ! i) \<and>
      (\<forall>i < length ks. 0 < i \<longrightarrow> 0 < h \<longrightarrow> PARENT i = h \<longrightarrow> ks ! PARENT h \<le> ks ! i))"

lemma heap_ordered_hd_least:
  assumes "heap_ordered ks" and "i < length ks"
  shows "ks ! 0 \<le> ks ! i"
  using assms(2)
proof (induction i rule: less_induct)
  case (less i)
  show ?case
  proof (cases "i = 0")
    case False
    then have p: "PARENT i < i" by (simp add: PARENT_def)
    with less have "ks ! 0 \<le> ks ! PARENT i" by simp
    also have "\<dots> \<le> ks ! i" using assms(1) less.prems False by (simp add: heap_ordered_def)
    finally show ?thesis .
  qed simp
qed

lemma PARENT_less: "0 < i \<Longrightarrow> PARENT i < i"
  by (simp add: PARENT_def)

lemma PARENT_child: "0 < i \<Longrightarrow> (PARENT i = h) = (i = 2 * h + 1 \<or> i = 2 * h + 2)"
  by (auto simp: PARENT_def)

lemma heap_hole_up_step:
  assumes h: "heap_hole_up ks h" "0 < h" "h < length ks" "ks ! h < ks ! PARENT h"
  shows "heap_hole_up (ks[PARENT h := ks ! h, h := ks ! PARENT h]) (PARENT h)"
proof -
  define p where "p = PARENT h"
  define ks' where "ks' = ks[p := ks ! h, h := ks ! p]"
  have ph: "p < h" using h(2) by (simp add: p_def PARENT_less)
  have nth: "i < length ks \<Longrightarrow> ks' ! i = (if i = h then ks ! p else if i = p then ks ! h else ks ! i)" for i
    using ph h(3) by (simp add: ks'_def nth_list_update)
  have le: "ks ! PARENT i \<le> ks ! i" if "i < length ks" "0 < i" "i \<noteq> h" for i
    using h(1) that by (simp add: heap_hole_up_def)
  have ch: "ks ! p \<le> ks ! i" if "i < length ks" "0 < i" "PARENT i = h" for i
    using h(1,2) that by (simp add: heap_hole_up_def p_def)
  have len: "length ks' = length ks" by (simp add: ks'_def)
  have lt: "ks ! h < ks ! p" using h(4) by (simp add: p_def)
  have "ks' ! PARENT i \<le> ks' ! i" if i: "i < length ks" "0 < i" "i \<noteq> p" for i
  proof -
    have pi: "PARENT i < i" using i by (simp add: PARENT_less)
    consider "i = h" | "i \<noteq> h" "PARENT i = h" | "i \<noteq> h" "PARENT i = p" | "i \<noteq> h" "PARENT i \<noteq> h" "PARENT i \<noteq> p"
      by blast
    then show ?thesis
    proof cases
      case 1 then show ?thesis using lt ph h(3) by (simp add: nth flip: p_def)
    next
      case 2 then show ?thesis using ch [OF i(1,2)] i pi by (simp add: nth)
    next
      case 3 then show ?thesis using le [OF i(1,2)] i pi ph lt by (simp add: nth)
    next
      case 4 then show ?thesis using le [OF i(1,2)] i pi by (simp add: nth)
    qed
  qed
  moreover have "ks' ! PARENT p \<le> ks' ! i" if i: "i < length ks" "0 < i" "0 < p" "PARENT i = p" for i
  proof -
    have pp: "PARENT p < p" using i by (simp add: PARENT_less)
    have a: "ks ! PARENT p \<le> ks ! p" using le [of p] i ph h(3) by simp
    have pi: "p < i" using i PARENT_less [of i] by simp
    show ?thesis
    proof (cases "i = h")
      case True then show ?thesis using a i pp ph by (simp add: nth)
    next
      case False
      then have "ks ! p \<le> ks ! i" using le [OF i(1,2)] i by simp
      then show ?thesis using a i pp ph pi False by (simp add: nth)
    qed
  qed
  ultimately show ?thesis
    unfolding heap_hole_up_def ks'_def [symmetric] p_def [symmetric] by (simp add: len)
qed

lemma heap_hole_up_done:
  "heap_hole_up ks h \<Longrightarrow> h = 0 \<or> ks ! PARENT h \<le> ks ! h \<Longrightarrow> heap_ordered ks"
  by (auto simp: heap_hole_up_def heap_ordered_def)

lemma heap_hole_down_done:
  "heap_hole_down ks h \<Longrightarrow> \<forall>i < length ks. 0 < i \<longrightarrow> PARENT i = h \<longrightarrow> ks ! h \<le> ks ! i \<Longrightarrow> heap_ordered ks"
  by (auto simp: heap_hole_down_def heap_ordered_def)

lemma heap_hole_down_step:
  assumes h: "heap_hole_down ks h" and b: "b < length ks" "0 < b" "PARENT b = h"
    and least: "\<forall>i < length ks. 0 < i \<longrightarrow> PARENT i = h \<longrightarrow> ks ! b \<le> ks ! i" and bh: "ks ! b \<le> ks ! h"
  shows "heap_hole_down (ks[h := ks ! b, b := ks ! h]) b"
proof -
  define ks' where "ks' = ks[h := ks ! b, b := ks ! h]"
  have hb: "h < b" using b PARENT_less by blast
  have nth: "i < length ks \<Longrightarrow> ks' ! i = (if i = b then ks ! h else if i = h then ks ! b else ks ! i)" for i
    using hb b by (simp add: ks'_def nth_list_update)
  have le: "ks ! PARENT i \<le> ks ! i" if "i < length ks" "0 < i" "PARENT i \<noteq> h" for i
    using h that by (simp add: heap_hole_down_def)
  have ch: "ks ! PARENT h \<le> ks ! i" if "i < length ks" "0 < i" "0 < h" "PARENT i = h" for i
    using h that by (simp add: heap_hole_down_def)
  have len: "length ks' = length ks" by (simp add: ks'_def)
  have "ks' ! PARENT i \<le> ks' ! i" if i: "i < length ks" "0 < i" "PARENT i \<noteq> b" for i
  proof -
    have pi: "PARENT i < i" using i by (simp add: PARENT_less)
    consider "i = b" | "i \<noteq> b" "PARENT i = h" | "i = h" | "i \<noteq> b" "i \<noteq> h" "PARENT i \<noteq> h" by blast
    then show ?thesis
    proof cases
      case 1 then show ?thesis using b hb bh by (simp add: nth)
    next
      case 2 then show ?thesis using least i hb b pi by (auto simp: nth)
    next
      case 3
      then have "ks ! PARENT h \<le> ks ! b" using ch [OF b(1,2) _ b(3)] i by simp
      then show ?thesis using 3 i hb b pi by (simp add: nth)
    next
      case 4 then show ?thesis using le [OF i(1,2)] i pi by (simp add: nth)
    qed
  qed
  moreover have "ks' ! PARENT b \<le> ks' ! i" if i: "i < length ks" "0 < i" "PARENT i = b" for i
  proof -
    have bi: "b < i" using i PARENT_less by blast
    have "ks ! b \<le> ks ! i" using le [OF i(1,2)] i hb by simp
    then show ?thesis using i b hb bi by (simp add: nth)
  qed
  ultimately show ?thesis
    unfolding heap_hole_down_def ks'_def [symmetric] by (simp add: len)
qed

text \<open>
  The items of an indexed heap store their position in themselves: storing it changes nothing else
  of the item.  Whatever the comparison answers, the sift loops permute the items and keep every
  stored index right.
\<close>

locale idx_elem =
  fixes get_idx :: "'a \<Rightarrow> int"
    and set_idx :: "int \<Rightarrow> 'a \<Rightarrow> 'a"
    and strip :: "'a \<Rightarrow> 'b"
  assumes get_set: "get_idx (set_idx i x) = i"
    and strip_set: "strip (set_idx i x) = strip x"
begin

lemma map_strip_UPDATE [simp]: "map strip (UPDATE_IDX set_idx i xs) = map strip xs"
proof (cases "i < length xs")
  case True
  then have "map strip xs ! i = strip (xs ! i)" by simp
  then show ?thesis by (metis UPDATE_IDX_def strip_set list_update_id map_update)
qed (simp add: UPDATE_IDX_def list_update_beyond)

lemma mset_strip_swap:
  assumes "i < length xs" "j < length xs"
  shows "image_mset strip (mset (swap_items set_idx i j xs)) = image_mset strip (mset xs)"
proof -
  have "mset (map strip (swap_items set_idx i j xs)) =
      mset ((map strip xs)[i := map strip xs ! j, j := map strip xs ! i])"
    using assms by (simp add: swap_items_def map_update)
  also have "\<dots> = mset (map strip xs)"
    by (rule mset_swap) (use assms in simp_all)
  finally show ?thesis by simp
qed

definition idx_ok :: "'a list \<Rightarrow> bool" where
  "idx_ok xs = (\<forall>i < length xs. get_idx (xs ! i) = int i)"

lemma idx_ok_swap: "idx_ok xs \<Longrightarrow> i < length xs \<Longrightarrow> j < length xs \<Longrightarrow> idx_ok (swap_items set_idx i j xs)"
  by (auto simp: idx_ok_def swap_items_def UPDATE_IDX_def nth_list_update get_set)

lemma sift_up_items:
  "h < length xs \<Longrightarrow> idx_ok xs \<Longrightarrow> idx_ok (pqueue_sift_up compare set_idx xs h) \<and>
     image_mset strip (mset (pqueue_sift_up compare set_idx xs h)) = image_mset strip (mset xs)"
proof (induction h arbitrary: xs rule: less_induct)
  case (less h)
  show ?case
  proof (cases "h = 0 \<or> \<not> compare (xs ! h) (xs ! PARENT h) < 0")
    case False
    then have "PARENT h < h" by (simp add: PARENT_less)
    then show ?thesis
      using less False by (subst (1 2) pqueue_sift_up.simps) (simp add: idx_ok_swap mset_strip_swap)
  qed (use less.prems in \<open>subst (1 2) pqueue_sift_up.simps, auto\<close>)
qed

lemma heapify_items:
  "h < length xs \<Longrightarrow> idx_ok xs \<Longrightarrow> idx_ok (smartlist_heapify compare set_idx xs h) \<and>
     image_mset strip (mset (smartlist_heapify compare set_idx xs h)) = image_mset strip (mset xs)"
proof (induction "length xs - h" arbitrary: xs h rule: less_induct)
  case less
  let ?b = "best_child compare xs h"
  show ?case
  proof (cases "IDX_MAY_HAVE_CHILDREN h \<and> 2 * h + 1 < length xs \<and> ?b \<noteq> h")
    case True
    then have b: "h < ?b" "?b < length xs" using best_child_cases [of compare xs h] by auto
    then show ?thesis
      using less.hyps [of "swap_items set_idx h ?b xs" ?b] less.prems True
      by (subst (1 2) smartlist_heapify.simps) (simp add: idx_ok_swap mset_strip_swap LEFT_CHILD_def)
  next
    case False
    then have "smartlist_heapify compare set_idx xs h = xs"
      by (auto simp: smartlist_heapify.simps [of _ _ xs h] LEFT_CHILD_def)
    then show ?thesis using less.prems by simp
  qed
qed

end

locale heap_elem = idx_elem get_idx set_idx strip
  for compare :: "'a \<Rightarrow> 'a \<Rightarrow> int"
    and get_idx :: "'a \<Rightarrow> int"
    and set_idx :: "int \<Rightarrow> 'a \<Rightarrow> 'a"
    and strip :: "'a \<Rightarrow> 'b"
    and key :: "'a \<Rightarrow> 'k :: linorder" +
  assumes compare_less: "(compare x y < 0) = (key x < key y)"
    and compare_le: "(compare x y \<le> 0) = (key x \<le> key y)"
    and strip_key: "strip x = strip y \<Longrightarrow> key x = key y"
begin

lemma key_set [simp]: "key (set_idx i x) = key x"
  by (rule strip_key) (rule strip_set)

lemma map_key_UPDATE [simp]: "map key (UPDATE_IDX set_idx i xs) = map key xs"
proof (cases "i < length xs")
  case True
  then have "map key xs ! i = key (xs ! i)" by simp
  then show ?thesis by (metis UPDATE_IDX_def key_set list_update_id map_update)
qed (simp add: UPDATE_IDX_def list_update_beyond)

lemma map_key_swap:
  "i < length xs \<Longrightarrow> j < length xs \<Longrightarrow>
   map key (swap_items set_idx i j xs) = (map key xs)[i := map key xs ! j, j := map key xs ! i]"
  by (simp add: swap_items_def map_update)

lemma sift_up_correct:
  assumes "heap_hole_up (map key xs) h" "h < length xs" "idx_ok xs"
  shows "heap_ordered (map key (pqueue_sift_up compare set_idx xs h))"
    and "idx_ok (pqueue_sift_up compare set_idx xs h)"
    and "image_mset strip (mset (pqueue_sift_up compare set_idx xs h)) = image_mset strip (mset xs)"
proof -
  have "heap_ordered (map key (pqueue_sift_up compare set_idx xs h)) \<and>
        idx_ok (pqueue_sift_up compare set_idx xs h) \<and>
        image_mset strip (mset (pqueue_sift_up compare set_idx xs h)) = image_mset strip (mset xs)"
    using assms
  proof (induction h arbitrary: xs rule: less_induct)
    case (less h)
    let ?p = "PARENT h" and ?ys = "swap_items set_idx (PARENT h) h xs"
    show ?case
    proof (cases "h = 0 \<or> \<not> compare (xs ! h) (xs ! ?p) < 0")
      case True
      then have "h = 0 \<or> map key xs ! ?p \<le> map key xs ! h"
        using less.prems PARENT_less [of h] by (cases "h = 0") (auto simp: compare_less)
      moreover have "pqueue_sift_up compare set_idx xs h = xs"
        using True by (subst pqueue_sift_up.simps) auto
      ultimately show ?thesis using less.prems heap_hole_up_done [OF less.prems(1)] by simp
    next
      case False
      then have ph: "?p < h" by (simp add: PARENT_less)
      have lt: "map key xs ! h < map key xs ! ?p"
        using False less.prems ph by (simp add: compare_less)
      have "heap_hole_up (map key ?ys) ?p"
        using heap_hole_up_step [OF less.prems(1) _ _ lt] False less.prems ph by (simp add: map_key_swap)
      moreover have "idx_ok ?ys" using less.prems ph by (simp add: idx_ok_swap)
      ultimately have "heap_ordered (map key (pqueue_sift_up compare set_idx ?ys ?p)) \<and>
        idx_ok (pqueue_sift_up compare set_idx ?ys ?p) \<and>
        image_mset strip (mset (pqueue_sift_up compare set_idx ?ys ?p)) = image_mset strip (mset ?ys)"
        using less.IH [OF ph] less.prems ph by simp
      moreover have "pqueue_sift_up compare set_idx xs h = pqueue_sift_up compare set_idx ?ys ?p"
        using False by (subst pqueue_sift_up.simps) simp
      ultimately show ?thesis using less.prems ph by (simp add: mset_strip_swap)
    qed
  qed
  then show "heap_ordered (map key (pqueue_sift_up compare set_idx xs h))"
    and "idx_ok (pqueue_sift_up compare set_idx xs h)"
    and "image_mset strip (mset (pqueue_sift_up compare set_idx xs h)) = image_mset strip (mset xs)"
    by simp_all
qed

lemma best_child_least:
  assumes "2 * h + 1 < length xs"
  shows "best_child compare xs h = h \<Longrightarrow> i = 2 * h + 1 \<or> i = 2 * h + 2 \<Longrightarrow> i < length xs \<Longrightarrow>
      key (xs ! h) \<le> key (xs ! i)"
    and "best_child compare xs h = b \<Longrightarrow> b \<noteq> h \<Longrightarrow>
      b < length xs \<and> 0 < b \<and> PARENT b = h \<and> key (xs ! b) \<le> key (xs ! h)"
    and "best_child compare xs h = b \<Longrightarrow> b \<noteq> h \<Longrightarrow> i = 2 * h + 1 \<or> i = 2 * h + 2 \<Longrightarrow>
      i < length xs \<Longrightarrow> key (xs ! b) \<le> key (xs ! i)"
  using assms
  by (auto simp: best_child_def LEFT_CHILD_def Let_def compare_less PARENT_def split: if_splits)

lemma heapify_correct:
  assumes "heap_hole_down (map key xs) h" "idx_ok xs" "length xs \<le> 2147483647" "h < length xs"
  shows "heap_ordered (map key (smartlist_heapify compare set_idx xs h))"
    and "idx_ok (smartlist_heapify compare set_idx xs h)"
    and "image_mset strip (mset (smartlist_heapify compare set_idx xs h)) = image_mset strip (mset xs)"
proof -
  have "heap_ordered (map key (smartlist_heapify compare set_idx xs h)) \<and>
        idx_ok (smartlist_heapify compare set_idx xs h) \<and>
        image_mset strip (mset (smartlist_heapify compare set_idx xs h)) = image_mset strip (mset xs)"
    using assms
  proof (induction "length xs - h" arbitrary: xs h rule: less_induct)
    case less
    let ?b = "best_child compare xs h"
    let ?ys = "swap_items set_idx h ?b xs"
    show ?case
    proof (cases "IDX_MAY_HAVE_CHILDREN h \<and> 2 * h + 1 < length xs \<and> ?b \<noteq> h")
      case False
      then have "\<forall>i < length xs. 0 < i \<longrightarrow> PARENT i = h \<longrightarrow> key (xs ! h) \<le> key (xs ! i)"
        using best_child_least(1) [of h xs] less.prems(3)
        by (auto simp: IDX_MAY_HAVE_CHILDREN_def PARENT_child)
      then have "heap_ordered (map key xs)"
        using less.prems(1,4) by (intro heap_hole_down_done [of _ h]) auto
      moreover have "smartlist_heapify compare set_idx xs h = xs"
        using False by (auto simp: smartlist_heapify.simps [of _ _ xs h] LEFT_CHILD_def)
      ultimately show ?thesis using less.prems by simp
    next
      case True
      have b: "?b < length xs" "0 < ?b" "PARENT ?b = h" "key (xs ! ?b) \<le> key (xs ! h)"
        using best_child_least(2) [of h xs] True by auto
      have hb: "h < ?b" using b PARENT_less by metis
      have "heap_hole_down (map key ?ys) ?b"
        using heap_hole_down_step [OF less.prems(1), of ?b] b hb best_child_least(3) [of h xs] True
        by (simp add: map_key_swap PARENT_child)
      moreover have "idx_ok ?ys" using less.prems b hb by (simp add: idx_ok_swap)
      ultimately have "heap_ordered (map key (smartlist_heapify compare set_idx ?ys ?b)) \<and>
        idx_ok (smartlist_heapify compare set_idx ?ys ?b) \<and>
        image_mset strip (mset (smartlist_heapify compare set_idx ?ys ?b)) = image_mset strip (mset ?ys)"
        using less.hyps [of ?ys ?b] less.prems b hb by simp
      moreover have "smartlist_heapify compare set_idx xs h = smartlist_heapify compare set_idx ?ys ?b"
        using True by (subst smartlist_heapify.simps) (simp add: LEFT_CHILD_def)
      ultimately show ?thesis using b hb less.prems by (simp add: mset_strip_swap)
    qed
  qed
  then show "heap_ordered (map key (smartlist_heapify compare set_idx xs h))"
    and "idx_ok (smartlist_heapify compare set_idx xs h)"
    and "image_mset strip (mset (smartlist_heapify compare set_idx xs h)) = image_mset strip (mset xs)"
    by simp_all
qed

definition heap_invar :: "'a list \<Rightarrow> bool" where
  "heap_invar xs = (heap_ordered (map key xs) \<and> idx_ok xs)"

lemma heap_invar_assert_ok: "heap_invar xs = smartlist_pqueue_assert_ok compare get_idx xs"
  by (auto simp: heap_invar_def heap_ordered_def idx_ok_def smartlist_pqueue_assert_ok_def
      list_all_iff compare_le PARENT_def)

lemma heap_invar_Nil: "heap_invar []"
  by (simp add: heap_invar_def heap_ordered_def idx_ok_def)

lemma pqueue_add_pre:
  fixes x :: 'a
  assumes "heap_invar xs"
  defines "ys \<equiv> UPDATE_IDX set_idx (length xs) (xs @ [x])"
  shows "heap_hole_up (map key ys) (length xs)" and "idx_ok ys"
    and "image_mset strip (mset ys) = add_mset (strip x) (image_mset strip (mset xs))"
    and "length ys = Suc (length xs)"
proof -
  have m: "map key ys = map key xs @ [key x]" by (simp add: ys_def)
  have p: "0 < i \<Longrightarrow> i < Suc (length xs) \<Longrightarrow> PARENT i < length xs" for i
    by (auto simp: PARENT_def)
  show "heap_hole_up (map key ys) (length xs)"
    using assms(1) p by (auto simp: m heap_hole_up_def heap_invar_def heap_ordered_def nth_append PARENT_def)
  show "idx_ok ys" using assms(1)
    by (auto simp: ys_def UPDATE_IDX_def heap_invar_def idx_ok_def nth_list_update nth_append get_set)
  have "mset (map strip ys) = mset (map strip xs @ [strip x])" by (simp add: ys_def)
  then show "image_mset strip (mset ys) = add_mset (strip x) (image_mset strip (mset xs))" by simp
  show "length ys = Suc (length xs)" by (simp add: ys_def UPDATE_IDX_def)
qed

lemma pqueue_add_eq:
  "smartlist_pqueue_add compare set_idx xs x =
     pqueue_sift_up compare set_idx (UPDATE_IDX set_idx (length xs) (xs @ [x])) (length xs)"
  by (simp add: smartlist_pqueue_add_def smartlist_add_def Let_def UPDATE_IDX_def)

lemma pqueue_add_invar: "heap_invar xs \<Longrightarrow> heap_invar (smartlist_pqueue_add compare set_idx xs x)"
  unfolding pqueue_add_eq heap_invar_def [of "pqueue_sift_up _ _ _ _"]
  using pqueue_add_pre [of xs x] sift_up_correct [of "UPDATE_IDX set_idx (length xs) (xs @ [x])" "length xs"]
  by simp

lemma pqueue_add_mset:
  "heap_invar xs \<Longrightarrow> image_mset strip (mset (smartlist_pqueue_add compare set_idx xs x)) =
     add_mset (strip x) (image_mset strip (mset xs))"
  unfolding pqueue_add_eq
  using pqueue_add_pre [of xs x] sift_up_correct [of "UPDATE_IDX set_idx (length xs) (xs @ [x])" "length xs"]
  by simp

lemma last_to_front:
  assumes "2 \<le> length xs"
  shows "take (length xs - 1) (xs[0 := xs ! (length xs - 1)]) = last xs # butlast (tl xs)"
proof -
  obtain y ys where xs: "xs = y # ys" "ys \<noteq> []" using assms by (cases xs; cases "tl xs") auto
  then show ?thesis by (simp add: last_conv_nth butlast_conv_take take_Cons')
qed

lemma pqueue_pop_pre:
  assumes "heap_invar xs" "2 \<le> length xs"
  defines "ys \<equiv> UPDATE_IDX set_idx 0 (take (length xs - 1) (xs[0 := xs ! (length xs - 1)]))"
  shows "heap_hole_down (map key ys) 0" and "idx_ok ys" and "length ys = length xs - 1"
    and "image_mset strip (mset xs) = add_mset (strip (hd xs)) (image_mset strip (mset ys))"
proof -
  define zs where "zs = take (length xs - 1) (xs[0 := xs ! (length xs - 1)])"
  have len: "length zs = length xs - 1" by (simp add: zs_def)
  have nth: "0 < i \<Longrightarrow> i < length xs - 1 \<Longrightarrow> zs ! i = xs ! i" for i by (simp add: zs_def)
  show "length ys = length xs - 1" by (simp add: ys_def UPDATE_IDX_def)
  have "heap_hole_down (map key zs) 0"
    using assms(1,2) by (auto simp: heap_hole_down_def heap_invar_def heap_ordered_def len nth PARENT_def)
  then show "heap_hole_down (map key ys) 0" by (simp add: ys_def zs_def)
  show "idx_ok ys" using assms(1,2) nth len
    by (auto simp: ys_def zs_def [symmetric] UPDATE_IDX_def heap_invar_def idx_ok_def nth_list_update get_set)
  obtain a bs c where xs: "xs = a # bs @ [c]"
    using assms(2) by (cases xs; cases "tl xs" rule: rev_cases) auto
  have "mset (map strip xs) = add_mset (strip (hd xs)) (mset (map strip (last xs # butlast (tl xs))))"
    by (simp add: xs)
  then show "image_mset strip (mset xs) = add_mset (strip (hd xs)) (image_mset strip (mset ys))"
    by (metis last_to_front [OF assms(2)] map_strip_UPDATE mset_map ys_def)
qed

lemma pqueue_pop_cases:
  assumes "smartlist_pqueue_pop compare set_idx xs = Some (x, xs')"
  shows "x = set_idx (- 1) (hd xs) \<and> (length xs = 1 \<and> xs' = [] \<or>
     2 \<le> length xs \<and> xs' = smartlist_heapify compare set_idx
       (UPDATE_IDX set_idx 0 (take (length xs - 1) (xs[0 := xs ! (length xs - 1)]))) 0)"
  using assms by (cases xs; cases "tl xs") (auto simp: smartlist_pqueue_pop_def Let_def split: if_splits)

lemma pqueue_pop_invar:
  assumes "heap_invar xs" "length xs \<le> 2147483647" "smartlist_pqueue_pop compare set_idx xs = Some (x, xs')"
  shows "heap_invar xs' \<and> image_mset strip (mset xs) = add_mset (strip x) (image_mset strip (mset xs'))"
  using pqueue_pop_cases [OF assms(3)]
proof (elim conjE disjE)
  assume "x = set_idx (- 1) (hd xs)" "length xs = 1" "xs' = []"
  then show ?thesis by (cases xs) (auto simp: strip_set heap_invar_Nil)
next
  let ?ys = "UPDATE_IDX set_idx 0 (take (length xs - 1) (xs[0 := xs ! (length xs - 1)]))"
  assume a: "x = set_idx (- 1) (hd xs)" "2 \<le> length xs" "xs' = smartlist_heapify compare set_idx ?ys 0"
  note pre = pqueue_pop_pre [OF assms(1) a(2)]
  have "length ?ys \<le> 2147483647" "0 < length ?ys" using assms(2) a(2) pre(3) by linarith+
  note h = heapify_correct [OF pre(1,2) this]
  show ?thesis using h pre(4) by (simp add: a heap_invar_def strip_set)
qed

lemma heap_hd_least:
  assumes "heap_invar xs" "y \<in> set xs"
  shows "key (hd xs) \<le> key y"
proof -
  obtain i where i: "i < length xs" "y = xs ! i" using assms(2) by (auto simp: in_set_conv_nth)
  then have "map key xs ! 0 \<le> map key xs ! i"
    using assms(1) by (intro heap_ordered_hd_least) (auto simp: heap_invar_def)
  moreover have "0 < length xs" using i by linarith
  ultimately show ?thesis using i by (simp add: hd_conv_nth)
qed

end

text \<open>
  The heap algorithms are a priority queue, as long as the list is not longer than an
  \<^verbatim>\<open>int\<close> can index.
\<close>

sublocale heap_elem \<subseteq> heap: pqueue "smartlist_pqueue_add compare set_idx"
  "smartlist_pqueue_pop compare set_idx" heap_invar 2147483647 strip key
proof (unfold_locales, goal_cases)
  case 1 show ?case by (rule heap_invar_Nil)
next
  case (2 q x) then show ?case by (rule pqueue_add_invar)
next
  case (3 q x) then show ?case by (rule pqueue_add_mset)
next
  case 4 show ?case by (simp add: smartlist_pqueue_pop_def)
next
  case (5 q) then show ?case by (auto simp: smartlist_pqueue_pop_def Let_def)
next
  case (6 q x q') then show ?case using pqueue_pop_invar by blast
next
  case (7 q x q') then show ?case using pqueue_pop_invar by blast
next
  case (8 q x q') then show ?case using pqueue_pop_cases [of q x q'] by (simp add: strip_set)
next
  case (9 q y) then show ?case by (rule heap_hd_least)
next
  case (10 x y) then show ?case by (rule strip_key)
qed

section \<open>What the operations do to the items, whatever the order\<close>

context idx_elem
begin

lemma idx_ok_UPDATE: "\<forall>j < length xs. j \<noteq> i \<longrightarrow> get_idx (xs ! j) = int j \<Longrightarrow> idx_ok (UPDATE_IDX set_idx i xs)"
  unfolding idx_ok_def UPDATE_IDX_def by (metis get_set length_list_update nth_list_update_eq nth_list_update_neq)

lemma mset_strip_UPDATE [simp]: "image_mset strip (mset (UPDATE_IDX set_idx i xs)) = image_mset strip (mset xs)"
  by (metis map_strip_UPDATE mset_map)

lemma add_items:
  assumes "idx_ok xs"
  shows "idx_ok (smartlist_pqueue_add compare set_idx xs x)"
    and "image_mset strip (mset (smartlist_pqueue_add compare set_idx xs x)) = add_mset (strip x) (image_mset strip (mset xs))"
proof -
  let ?ys = "UPDATE_IDX set_idx (length xs) (xs @ [x])"
  have ys: "length ?ys = Suc (length xs)" by (simp add: UPDATE_IDX_def)
  have ok: "idx_ok ?ys" by (rule idx_ok_UPDATE) (use assms in \<open>auto simp: idx_ok_def nth_append\<close>)
  have "image_mset strip (mset ?ys) = add_mset (strip x) (image_mset strip (mset xs))" by simp
  then show "idx_ok (smartlist_pqueue_add compare set_idx xs x)"
    and "image_mset strip (mset (smartlist_pqueue_add compare set_idx xs x)) = add_mset (strip x) (image_mset strip (mset xs))"
    using sift_up_items [of "length xs" ?ys compare] ys ok
    by (simp_all add: smartlist_pqueue_add_def smartlist_add_def Let_def UPDATE_IDX_def)
qed

text \<open>Moving the last item into position \<open>i\<close>, as popping and removing do.\<close>

lemma fill_hole_items:
  assumes "idx_ok xs" "i < length xs - 1"
  defines "ys \<equiv> UPDATE_IDX set_idx i (take (length xs - 1) (xs[i := xs ! (length xs - 1)]))"
  shows "idx_ok (smartlist_heapify compare set_idx ys i)"
    and "add_mset (strip (xs ! i)) (image_mset strip (mset (smartlist_heapify compare set_idx ys i))) = image_mset strip (mset xs)"
proof -
  let ?n = "length xs - 1"
  have len: "length ys = ?n" by (simp add: ys_def UPDATE_IDX_def)
  have ok: "idx_ok ys" unfolding ys_def
    by (rule idx_ok_UPDATE) (use assms(1) in \<open>auto simp: idx_ok_def nth_list_update\<close>)
  obtain as b bs z where xs: "xs = as @ b # bs @ [z]" "length as = i"
  proof -
    define D where "D = drop (Suc i) xs"
    have "D \<noteq> []" using assms(2) by (simp add: D_def)
    then have "D = butlast D @ [last D]" by simp
    moreover have "xs = take i xs @ xs ! i # D" unfolding D_def using assms(2) by (intro id_take_nth_drop) simp
    ultimately show thesis using that [of "take i xs" "xs ! i" "butlast D" "last D"] assms(2) by simp
  qed
  have "take ?n (xs[i := xs ! ?n]) = as @ z # bs" using xs by (simp add: nth_append list_update_append)
  then have "image_mset strip (mset ys) = image_mset strip (mset (as @ z # bs))" by (simp add: ys_def)
  then have "add_mset (strip (xs ! i)) (image_mset strip (mset ys)) = image_mset strip (mset xs)"
    using xs by (simp add: nth_append)
  then show "idx_ok (smartlist_heapify compare set_idx ys i)"
    and "add_mset (strip (xs ! i)) (image_mset strip (mset (smartlist_heapify compare set_idx ys i))) = image_mset strip (mset xs)"
    using heapify_items [of i ys compare] len ok assms(2) by simp_all
qed

lemma pop_items:
  assumes "idx_ok xs" "xs \<noteq> []"
  shows "\<exists>ys. smartlist_pqueue_pop compare set_idx xs = Some (set_idx (- 1) (hd xs), ys) \<and> idx_ok ys \<and>
    add_mset (strip (hd xs)) (image_mset strip (mset ys)) = image_mset strip (mset xs)"
proof (cases "length xs - 1 = 0")
  case True
  then obtain x where "xs = [x]" using assms(2) by (cases xs) auto
  then show ?thesis by (auto simp: smartlist_pqueue_pop_def idx_ok_def)
next
  case False
  then show ?thesis using fill_hole_items [OF assms(1), of 0 compare] assms(2)
    by (auto simp: smartlist_pqueue_pop_def Let_def hd_conv_nth)
qed

lemma remove_items:
  assumes "idx_ok xs" "x \<in> set xs"
  shows "\<exists>ys. smartlist_pqueue_remove compare get_idx set_idx xs x = Some ys \<and> idx_ok ys \<and>
    add_mset (strip x) (image_mset strip (mset ys)) = image_mset strip (mset xs)"
proof -
  obtain i where i: "i < length xs" "xs ! i = x" using assms(2) by (auto simp: in_set_conv_nth)
  have gi: "get_idx x = int i" using assms(1) i by (auto simp: idx_ok_def)
  show ?thesis
  proof (cases "i = length xs - 1")
    case True
    then have "xs = butlast xs @ [x]" using i assms(2) by (metis append_butlast_last_id empty_iff empty_set last_conv_nth)
    then have "mset xs = mset (butlast xs @ [x])" by (rule arg_cong)
    then have "add_mset (strip x) (image_mset strip (mset (take (length xs - 1) xs))) = image_mset strip (mset xs)"
      by (simp add: butlast_conv_take)
    moreover have "smartlist_pqueue_remove compare get_idx set_idx xs x = Some (take (length xs - 1) xs)"
      unfolding True [symmetric] using gi i by (simp add: smartlist_pqueue_remove_def Let_def True [symmetric] del: One_nat_def)
    moreover have "idx_ok (take (length xs - 1) xs)" using assms(1) by (simp add: idx_ok_def)
    ultimately show ?thesis by blast
  next
    case False
    then show ?thesis using fill_hole_items [OF assms(1), of i compare] gi i
      by (simp add: smartlist_pqueue_remove_def Let_def)
  qed
qed

end

section \<open>Removing from the middle\<close>

text \<open>
  \<^verbatim>\<open>smartlist_pqueue_remove\<close> moves the last element into the hole and only sifts it down.
  When that element is smaller than the parent of the hole, the result is not a heap: removing
  11 from the heap 1, 10, 2, 11, 12, 3, 4 leaves 4 below 10.
\<close>

theorem pqueue_remove_breaks_heap:
  "let h = [(1, 0), (10, 1), (2, 2), (11, 3), (12, 4), (3, 5), (4, 6)];
       cmp = (\<lambda>a b :: int \<times> int. fst a - fst b); set_idx = (\<lambda>i (k, _). (k, i :: int))
   in smartlist_pqueue_assert_ok cmp snd h \<and>
      map_option (smartlist_pqueue_assert_ok cmp snd) (smartlist_pqueue_remove cmp snd set_idx h (11, 3)) = Some False"
  by (simp add: smartlist_pqueue_assert_ok_def smartlist_pqueue_remove_def smartlist_heapify.simps UPDATE_IDX_def
      IDX_MAY_HAVE_CHILDREN_def LEFT_CHILD_def best_child_def PARENT_def upt_rec Let_def)

end
