(* ===== verification/CcState.thy ===== *)
theory CcState
  imports NetParams Smartlist
begin

text \<open>
  The data of congestion control (\<^verbatim>\<open>congestion_control_st.h\<close>, the cached consensus parameters
  of \<^verbatim>\<open>congestion_control_common.c\<close> and \<^verbatim>\<open>congestion_control_vegas.c\<close>) and the part of a
  circuit (\<^verbatim>\<open>circuit_st.h\<close>, \<^verbatim>\<open>crypt_path_st.h\<close>) that congestion control, SENDME accounting
  and conflux read and write.
\<close>

section \<open>Congestion control objects\<close>

datatype cc_alg_t = CC_ALG_SENDME | CC_ALG_WESTWOOD | CC_ALG_VEGAS | CC_ALG_NOLA

text \<open>The enumerator of a number between \<open>CC_ALG_MIN\<close> and \<open>CC_ALG_MAX\<close>.\<close>

definition cc_alg_of_int :: "int \<Rightarrow> cc_alg_t" where
  "cc_alg_of_int i = (if i = 0 then CC_ALG_SENDME else if i = 1 then CC_ALG_WESTWOOD
                      else if i = 2 then CC_ALG_VEGAS else CC_ALG_NOLA)"

datatype cc_path_t = CC_PATH_EXIT | CC_PATH_ONION | CC_PATH_ONION_SOS | CC_PATH_ONION_VG | CC_PATH_SBWS

record vegas_params_t =
  ss_cwnd_cap :: u32
  ss_cwnd_max :: u32
  vp_gamma :: u16
  vp_alpha :: u16
  vp_beta :: u16
  vp_delta :: u16

record congestion_control_t =
  sendme_pending_timestamps :: "u64 list"
  ewma_rtt_usec :: u64
  min_rtt_usec :: u64
  max_rtt_usec :: u64
  bdp :: u64
  cwnd :: u64
  inflight :: u64
  next_cc_event :: u16
  next_cwnd_event :: u16
  in_slow_start :: bool
  cwnd_full :: bool
  blocked_chan :: bool
  cwnd_inc_pct_ss :: u16
  cwnd_inc :: u16
  cwnd_min :: u16
  cwnd_inc_rate :: u8
  sendme_inc :: u8
  cc_alg :: cc_alg_t
  vegas_params :: vegas_params_t

text \<open>
  Unsigned 64-bit division.  A zero divisor traps, which the model reads like an abort.
\<close>

definition udiv64 :: "u64 \<Rightarrow> u64 \<Rightarrow> u64 option" where
  "udiv64 a b = (if b = 0 then None else Some (a div b))"

definition umod64 :: "u64 \<Rightarrow> u64 \<Rightarrow> u64 option" where
  "umod64 a b = (if b = 0 then None else Some (a mod b))"

text \<open>
  The products of two \<^verbatim>\<open>uint8_t\<close> values are computed in \<^verbatim>\<open>int\<close>, where they fit; the sums
  and the quotient are 64 bits wide.
\<close>

definition CWND_UPDATE_RATE :: "congestion_control_t \<Rightarrow> u64 option" where
  "CWND_UPDATE_RATE cc =
     (if in_slow_start cc then Some 1
      else let n = unat (cwnd_inc_rate cc) * unat (sendme_inc cc)
           in udiv64 (cwnd cc + of_nat (n div 2)) (of_nat n))"

definition SENDME_PER_CWND :: "congestion_control_t \<Rightarrow> u64 option" where
  "SENDME_PER_CWND cc =
     udiv64 (cwnd cc + of_nat (unat (sendme_inc cc) div 2)) (ucast (sendme_inc cc))"

definition CWND_INC_SS :: "congestion_control_t \<Rightarrow> u64" where
  "CWND_INC_SS cc = ucast (cwnd_inc_pct_ss cc) * cwnd cc div 100"

definition CWND_INC :: "congestion_control_t \<Rightarrow> u16" where
  "CWND_INC cc = cwnd_inc cc"

section \<open>Cached parameters, counters and emitted events\<close>

text \<open>
  The samples that the handlers feed to the running averages (all \<^verbatim>\<open>double\<close>) and the
  bandwidth control event are recorded in the order they are emitted; the averages
  themselves are derived data.
\<close>

datatype cc_event =
    Exit_ss_cwnd u64 | Exit_ss_bdp u64 | Exit_ss_inc u64 | Gamma_drop u64 | Delta_drop u64
  | Ss_csig_blocked u64 | Csig_blocked u64 | Csig_alpha u64 | Csig_beta u64 | Csig_delta u64
  | Ss_queue u64 | Queue u64 | Bdp u64 | Circ_bandwidth_event

record cc_globals =
  cwnd_max :: u32
  cell_queue_high :: int
  cell_queue_low :: int
  or_conn_highwater :: u32
  or_conn_lowwater :: u32
  cc_sendme_inc :: u8
  g_cc_alg :: cc_alg_t
  n_ewma_cwnd_pct :: u8
  n_ewma_max :: u8
  n_ewma_ss :: u8
  bwe_sendme_min :: u8
  rtt_reset_pct :: u8
  is_monotime_clock_broken :: bool
  num_rtt_reset :: u64
  num_clock_stalls :: u64
  cc_stats_circs_created :: u64
  cc_vegas_cwnd_full_gap :: int
  cc_vegas_cwnd_full_minpct :: int
  cc_cwnd_full_per_cwnd :: int
  vegas_above_delta :: u64
  vegas_above_ss_cwnd_max :: u64
  vegas_below_ss_inc_floor :: u64
  vegas_circ_exited_ss :: u64
  cc_events :: "cc_event list"

definition emit :: "cc_event \<Rightarrow> cc_globals \<Rightarrow> cc_globals" where
  "emit e g = g\<lparr>cc_events := cc_events g @ [e]\<rparr>"

section \<open>Circuits\<close>

text \<open>
  One hop of an origin circuit.  \<open>cp_id\<close> stands for the address of the \<^verbatim>\<open>crypt_path_t\<close>: hops
  are compared by it.
\<close>

datatype relay_crypto_kind = RCK_TOR1 | RCK_CGO

text \<open>
  Of the cryptographic state of a hop only the kind and the SENDME tag (the digest of the last
  cell originated or recognized) matter here; the ciphers that compute the tag are not modelled.
  Of the description of a relay (\<^verbatim>\<open>extend_info_t\<close>) only its identity is used.
\<close>

record relay_crypto_t =
  rc_kind :: relay_crypto_kind
  rc_tag :: "u8 list"

record extend_info_t =
  identity_digest :: "u8 list"

record crypt_path_t =
  cp_id :: nat
  cp_extend_info :: "extend_info_t option"
  pvt_crypto :: relay_crypto_t
  cp_package_window :: int
  cp_deliver_window :: int
  cp_ccontrol :: "congestion_control_t option"

datatype purpose_t = CIRCUIT_PURPOSE_CONFLUX_LINKED | CIRCUIT_PURPOSE_CONFLUX_UNLINKED
  | CIRCUIT_PURPOSE_OTHER nat

type_synonym circ_id = nat
type_synonym cfx_id = nat
type_synonym nonce = "u8 list"

text \<open>
  The circular list \<^verbatim>\<open>cpath\<close> is the list of its hops in order, so \<^verbatim>\<open>cpath->prev\<close> is the last
  hop and a NULL \<^verbatim>\<open>cpath\<close> is the empty list.  Streams are named by the address of the head of
  the stream list.
\<close>

record circuit_t =
  is_origin :: bool
  purpose :: purpose_t
  has_n_chan :: bool
  n_chan_cells_n :: int
  p_chan_cells_n :: int
  circuit_blocked_on_n_chan :: bool
  circuit_blocked_on_p_chan :: bool
  package_window :: int
  deliver_window :: int
  marked_for_close :: u16
  timestamp_dirty :: int
  c_ccontrol :: "congestion_control_t option"
  conflux :: "cfx_id option"
  conflux_pending_nonce :: "nonce option"
  cpath :: "crypt_path_t list"
  next_stream_id :: u16
  circuit_idle_timeout :: int
  unusable_for_new_conns :: bool
  p_streams :: nat
  half_streams :: nat
  n_streams :: nat
  resolving_streams :: nat
  sendme_last_digests :: "u8 list list"
  crypto :: relay_crypto_t
  used_legacy_circuit_handshake :: bool
  used_obsolete_sendme :: bool

text \<open>\<^verbatim>\<open>circ->cpath->prev\<close>, or \<^term>\<open>None\<close> when there is no path.\<close>

definition cpath_last :: "circuit_t \<Rightarrow> crypt_path_t option" where
  "cpath_last circ = (if cpath circ = [] then None else Some (last (cpath circ)))"

text \<open>The window and the congestion control object of a hop, or of the circuit itself.\<close>

definition hop_window :: "circuit_t \<Rightarrow> crypt_path_t option \<Rightarrow> int" where
  "hop_window circ hop = (case hop of None \<Rightarrow> package_window circ | Some h \<Rightarrow> cp_package_window h)"

definition hop_ccontrol :: "circuit_t \<Rightarrow> crypt_path_t option \<Rightarrow> congestion_control_t option" where
  "hop_ccontrol circ hop = (case hop of None \<Rightarrow> c_ccontrol circ | Some h \<Rightarrow> cp_ccontrol h)"

lemma udiv64_nz [simp]: "b \<noteq> 0 \<Longrightarrow> udiv64 a b = Some (a div b)"
  by (simp add: udiv64_def)

text \<open>A configuration and a circuit of an exit, used by the examples.\<close>

definition demo_globals :: cc_globals where
  "demo_globals = \<lparr>cwnd_max = 2147483647, cell_queue_high = 256, cell_queue_low = 10, or_conn_highwater = 32768,
     or_conn_lowwater = 16384, cc_sendme_inc = 31, g_cc_alg = CC_ALG_VEGAS, n_ewma_cwnd_pct = 50, n_ewma_max = 10,
     n_ewma_ss = 2, bwe_sendme_min = 5, rtt_reset_pct = 100, is_monotime_clock_broken = False, num_rtt_reset = 0,
     num_clock_stalls = 0, cc_stats_circs_created = 0, cc_vegas_cwnd_full_gap = 4, cc_vegas_cwnd_full_minpct = 25,
     cc_cwnd_full_per_cwnd = 1, vegas_above_delta = 0, vegas_above_ss_cwnd_max = 0, vegas_below_ss_inc_floor = 0,
     vegas_circ_exited_ss = 0, cc_events = []\<rparr>"

definition exit_circ :: circuit_t where
  "exit_circ = \<lparr>is_origin = False, purpose = CIRCUIT_PURPOSE_OTHER 0, has_n_chan = False, n_chan_cells_n = 0,
     p_chan_cells_n = 0, circuit_blocked_on_n_chan = False, circuit_blocked_on_p_chan = False, package_window = 1000,
     deliver_window = 1000, marked_for_close = 0, timestamp_dirty = 0, c_ccontrol = None, conflux = None,
     conflux_pending_nonce = None, cpath = [], next_stream_id = 0, circuit_idle_timeout = 0,
     unusable_for_new_conns = False, p_streams = 0, half_streams = 0, n_streams = 0, resolving_streams = 0,
     sendme_last_digests = [], crypto = \<lparr>rc_kind = RCK_TOR1, rc_tag = replicate 20 0\<rparr>,
     used_legacy_circuit_handshake = False, used_obsolete_sendme = False\<rparr>"

end
