(* ===== verification/CongestionControl.thy ===== *)
theory CongestionControl
  imports CcState
begin

text \<open>
  \<^verbatim>\<open>core/or/congestion_control_common.c\<close>: cached consensus parameters, the SENDME timestamp
  queue, package windows, and the RTT and BDP estimators that run when a SENDME arrives.
\<close>

section \<open>Averages\<close>

definition n_count_ewma :: "u64 \<Rightarrow> u64 \<Rightarrow> u64 \<Rightarrow> u64 option" where
  "n_count_ewma cur prev N =
     (if prev = 0 then Some cur else udiv64 (2 * cur + (N - 1) * prev) (N + 1))"

definition percent_max_mix :: "u64 \<Rightarrow> u64 \<Rightarrow> u8 \<Rightarrow> u64" where
  "percent_max_mix a b pct_max =
     (let mx = max a b; mn = min a b
      in if pct_max > 100 then mx
         else ucast pct_max * mx div 100 + (100 - ucast pct_max) * mn div 100)"

section \<open>Consensus parameters\<close>

definition congestion_control_new_consensus_params ::
  "networkstatus option \<Rightarrow> networkstatus option \<Rightarrow> cc_globals \<Rightarrow> cc_globals option" where
  "congestion_control_new_consensus_params latest ns g = do {
     qh \<leftarrow> networkstatus_get_param latest ns ''cellq_high'' 256 1 1000;
     ql \<leftarrow> networkstatus_get_param latest ns ''cellq_low'' 10 1 1000;
     oh \<leftarrow> networkstatus_get_param latest ns ''orconn_high'' (32 * 1024) 509 INT32_MAX;
     ol \<leftarrow> networkstatus_get_param latest ns ''orconn_low'' (16 * 1024) 509 INT32_MAX;
     cm \<leftarrow> networkstatus_get_param latest None ''cc_cwnd_max'' INT32_MAX 500 INT32_MAX;
     rr \<leftarrow> networkstatus_get_param latest None ''cc_rtt_reset_pct'' 100 0 100;
     si \<leftarrow> networkstatus_get_param latest None ''cc_sendme_inc'' 31 1 254;
     al \<leftarrow> networkstatus_get_param latest None ''cc_alg'' 2 0 3;
     let alg = cc_alg_of_int al;
     let alg = (if alg \<noteq> CC_ALG_SENDME \<and> alg \<noteq> CC_ALG_VEGAS then CC_ALG_VEGAS else alg);
     bw \<leftarrow> networkstatus_get_param latest None ''cc_bwe_min'' 5 2 20;
     ep \<leftarrow> networkstatus_get_param latest None ''cc_ewma_cwnd_pct'' 50 1 255;
     em \<leftarrow> networkstatus_get_param latest None ''cc_ewma_max'' 10 2 INT32_MAX;
     es \<leftarrow> networkstatus_get_param latest None ''cc_ewma_ss'' 2 2 INT32_MAX;
     Some (g\<lparr>cell_queue_high := qh, cell_queue_low := ql,
             or_conn_highwater := word_of_int oh, or_conn_lowwater := word_of_int ol,
             cwnd_max := word_of_int cm, rtt_reset_pct := word_of_int rr,
             cc_sendme_inc := word_of_int si, g_cc_alg := alg,
             bwe_sendme_min := word_of_int bw, n_ewma_cwnd_pct := word_of_int ep,
             n_ewma_max := word_of_int em, n_ewma_ss := word_of_int es\<rparr>)
   }"

text \<open>\<open>always\<close> is the option \<^verbatim>\<open>AlwaysCongestionControl\<close>.\<close>

definition congestion_control_enabled :: "bool \<Rightarrow> cc_globals \<Rightarrow> bool" where
  "congestion_control_enabled always g = (if always then True else g_cc_alg g \<noteq> CC_ALG_SENDME)"

definition congestion_control_validate_sendme_increment :: "cc_globals \<Rightarrow> u8 \<Rightarrow> bool" where
  "congestion_control_validate_sendme_increment g inc =
     (if inc = 0 then False
      else if int (unat inc) > int (unat (cc_sendme_inc g)) + 1
            \<or> int (unat inc) < int (unat (cc_sendme_inc g)) - 1 then False
      else True)"

section \<open>The queue of SENDME timestamps\<close>

definition enqueue_timestamp :: "u64 list \<Rightarrow> u64 \<Rightarrow> u64 list" where
  "enqueue_timestamp ts t = smartlist_add ts t"

text \<open>On an empty queue the code logs a bug and returns 0.\<close>

definition dequeue_timestamp :: "u64 list \<Rightarrow> u64 \<times> u64 list" where
  "dequeue_timestamp ts =
     (case smartlist_get ts 0 of
        None \<Rightarrow> (0, ts)
      | Some t \<Rightarrow> (t, the (smartlist_del_keeporder ts 0)))"

definition n_ewma_count :: "cc_globals \<Rightarrow> congestion_control_t \<Rightarrow> u64 option" where
  "n_ewma_count g cc = do {
     ewma_cnt \<leftarrow>
       (if in_slow_start cc then Some (ucast (n_ewma_ss g))
        else do {
          r \<leftarrow> CWND_UPDATE_RATE cc;
          Some (min (r * ucast (n_ewma_cwnd_pct g) div 100) (ucast (n_ewma_max g)))
        });
     Some (max ewma_cnt 2)
   }"

section \<open>Windows\<close>

definition congestion_control_get_package_window :: "circuit_t \<Rightarrow> crypt_path_t option \<Rightarrow> int" where
  "congestion_control_get_package_window circ hop =
     (case hop_ccontrol circ hop of
        None \<Rightarrow> hop_window circ hop
      | Some cc \<Rightarrow>
          (if inflight cc > cwnd cc then 0
           else if cwnd cc - inflight cc > 2147483647 then INT32_MAX
           else int (unat (cwnd cc - inflight cc))))"

definition sendme_get_inc_count :: "circuit_t \<Rightarrow> crypt_path_t option \<Rightarrow> int" where
  "sendme_get_inc_count circ hop =
     (case hop_ccontrol circ hop of None \<Rightarrow> 100 | Some cc \<Rightarrow> int (unat (sendme_inc cc)))"

text \<open>C's remainder truncates, but the test is against zero, where it agrees with \<open>mod\<close>.\<close>

definition circuit_sent_cell_for_sendme :: "circuit_t \<Rightarrow> crypt_path_t option \<Rightarrow> bool option" where
  "circuit_sent_cell_for_sendme circ hop =
     (case hop_ccontrol circ hop of
        Some cc \<Rightarrow>
          (if inflight cc = 0 then Some False
           else do { r \<leftarrow> umod64 (inflight cc + 1) (ucast (sendme_inc cc)); Some (r = 0) })
      | None \<Rightarrow>
          (let window = hop_window circ hop
           in if window = 1000 then Some False
              else if (window - 1) mod 100 \<noteq> 0 then Some False
              else Some True))"

definition congestion_control_note_cell_sent ::
  "u64 \<Rightarrow> congestion_control_t \<Rightarrow> circuit_t \<Rightarrow> crypt_path_t option \<Rightarrow> congestion_control_t option" where
  "congestion_control_note_cell_sent now cc circ hop = do {
     b \<leftarrow> circuit_sent_cell_for_sendme circ hop;
     let cc = cc\<lparr>inflight := inflight cc + 1\<rparr>;
     Some (if \<not> b then cc
           else cc\<lparr>sendme_pending_timestamps := enqueue_timestamp (sendme_pending_timestamps cc) now\<rparr>)
   }"

section \<open>RTT estimates\<close>

definition time_delta_should_use_heuristics :: "congestion_control_t \<Rightarrow> bool" where
  "time_delta_should_use_heuristics cc = (\<not> in_slow_start cc \<and> ewma_rtt_usec cc \<noteq> 0)"

text \<open>The result and the new value of the flag \<^verbatim>\<open>is_monotime_clock_broken\<close>.\<close>

definition time_delta_stalled_or_jumped ::
  "bool \<Rightarrow> congestion_control_t \<Rightarrow> u64 \<Rightarrow> u64 \<Rightarrow> bool \<times> bool" where
  "time_delta_stalled_or_jumped broken cc old_delta new_delta =
     (if new_delta = 0 then (True, True)
      else if \<not> time_delta_should_use_heuristics cc then (False, broken)
      else if old_delta > new_delta * 5000 then (broken, broken)
      else if new_delta > old_delta * 5000 then (True, broken)
      else (False, False))"

definition is_monotime_clock_reliable :: "cc_globals \<Rightarrow> bool" where
  "is_monotime_clock_reliable g = (\<not> is_monotime_clock_broken g)"

text \<open>The last part of the RTT update: minimum RTT from the new average.\<close>

definition update_min_rtt ::
  "cc_globals \<Rightarrow> congestion_control_t \<Rightarrow> cc_globals \<times> congestion_control_t" where
  "update_min_rtt g cc =
     (if min_rtt_usec cc = 0 then (g, cc\<lparr>min_rtt_usec := ewma_rtt_usec cc\<rparr>)
      else if cwnd cc = ucast (cwnd_min cc) \<and> \<not> in_slow_start cc
      then (g\<lparr>num_rtt_reset := num_rtt_reset g + 1\<rparr>,
            cc\<lparr>min_rtt_usec := percent_max_mix (ewma_rtt_usec cc) (min_rtt_usec cc) (rtt_reset_pct g)\<rparr>)
      else if ewma_rtt_usec cc < min_rtt_usec cc then (g, cc\<lparr>min_rtt_usec := ewma_rtt_usec cc\<rparr>)
      else (g, cc))"

definition congestion_control_update_circuit_rtt ::
  "u64 \<Rightarrow> cc_globals \<Rightarrow> congestion_control_t \<Rightarrow> (cc_globals \<times> congestion_control_t \<times> u64) option" where
  "congestion_control_update_circuit_rtt now_usec g cc = do {
     let (sent_at_timestamp, ts) = dequeue_timestamp (sendme_pending_timestamps cc);
     let cc = cc\<lparr>sendme_pending_timestamps := ts\<rparr>;
     let rtt = now_usec - sent_at_timestamp;
     let (bad, broken) = time_delta_stalled_or_jumped (is_monotime_clock_broken g) cc (ewma_rtt_usec cc) rtt;
     let g = g\<lparr>is_monotime_clock_broken := broken\<rparr>;
     if bad then Some (g\<lparr>num_clock_stalls := num_clock_stalls g + 1\<rparr>, cc, 0)
     else do {
       ewma_cnt \<leftarrow> n_ewma_count g cc;
       ewma \<leftarrow> n_count_ewma rtt (ewma_rtt_usec cc) ewma_cnt;
       let cc = cc\<lparr>ewma_rtt_usec := ewma\<rparr>;
       let cc = (if rtt > max_rtt_usec cc then cc\<lparr>max_rtt_usec := rtt\<rparr> else cc);
       let (g, cc) = update_min_rtt g cc;
       Some (g, cc, rtt)
     }
   }"

section \<open>BDP estimates\<close>

text \<open>The channel of the direction the circuit sends in: queue length and blocked flag.\<close>

definition circ_chan_q :: "circuit_t \<Rightarrow> int" where
  "circ_chan_q circ = (if is_origin circ then n_chan_cells_n circ else p_chan_cells_n circ)"

definition circ_blocked :: "circuit_t \<Rightarrow> bool" where
  "circ_blocked circ =
     (if is_origin circ then circuit_blocked_on_n_chan circ else circuit_blocked_on_p_chan circ)"

text \<open>The branch taken while no RTT has ever been measured.\<close>

definition bdp_without_rtt :: "circuit_t \<Rightarrow> congestion_control_t \<Rightarrow> congestion_control_t" where
  "bdp_without_rtt circ cc =
     (if circ_blocked circ
      then cc\<lparr>blocked_chan := True,
              bdp := (if circ_chan_q circ \<ge> sint (cwnd cc) then ucast (cwnd_min cc)
                      else max (cwnd cc - word_of_int (circ_chan_q circ)) (ucast (cwnd_min cc)))\<rparr>
      else cc\<lparr>blocked_chan := False, bdp := cwnd cc\<rparr>)"

definition congestion_control_update_circuit_bdp ::
  "congestion_control_t \<Rightarrow> circuit_t \<Rightarrow> u64 \<Rightarrow> (congestion_control_t \<times> bool) option" where
  "congestion_control_update_circuit_bdp cc circ curr_rtt_usec =
     (if ewma_rtt_usec cc = 0 then Some (bdp_without_rtt circ cc, circ_blocked circ)
      else do {
        b \<leftarrow> udiv64 (cwnd cc * min_rtt_usec cc) (ewma_rtt_usec cc);
        let cc = cc\<lparr>bdp := b\<rparr>;
        let cc = (if circ_blocked circ
                  then (if \<not> blocked_chan cc then cc\<lparr>next_cc_event := 0, blocked_chan := True\<rparr> else cc)
                  else (if blocked_chan cc then cc\<lparr>blocked_chan := False, next_cc_event := 0\<rparr> else cc));
        Some (cc, circ_blocked circ \<or> curr_rtt_usec \<noteq> 0)
      })"

definition congestion_control_update_circuit_estimates ::
  "u64 \<Rightarrow> cc_globals \<Rightarrow> congestion_control_t \<Rightarrow> circuit_t \<Rightarrow>
   (cc_globals \<times> congestion_control_t \<times> bool) option" where
  "congestion_control_update_circuit_estimates now_usec g cc circ = do {
     (g, cc, curr_rtt_usec) \<leftarrow> congestion_control_update_circuit_rtt now_usec g cc;
     (cc, updated) \<leftarrow> congestion_control_update_circuit_bdp cc circ curr_rtt_usec;
     Some (g, cc, updated)
   }"

end
