(* ===== verification/ConfluxParams.thy ===== *)
theory ConfluxParams
  imports CongestionControl
begin

text \<open>
  \<^verbatim>\<open>core/or/conflux_params.c\<close>: the cached conflux parameters, their refresh from a new consensus
  with the torrc overrides, and whether conflux may be used at all.

  Two of the cached values are ratios stored as \<^verbatim>\<open>double\<close>.  They are kept here as the integers
  they are computed from, and compared by cross-multiplication.  Both quotients are correctly
  rounded and their denominators are far below \<open>2 ^ 31\<close>, so two different quotients differ by
  much more than the rounding error and the comparison of the doubles has the same outcome.
\<close>

section \<open>Options and cached parameters\<close>

record or_options_t =
  ConfluxEnabled :: int
  ConfluxNumLegs :: int
  ConfluxNumSets :: int
  ConfluxNumLinkedSets :: int
  ConfluxSetSelection :: int
  ConfluxSetRttMax :: int
  ConfluxSetRttPct :: int
  AlwaysCongestionControl :: bool

record conflux_params_cache =
  conflux_enabled :: bool
  max_linked_set :: u8
  max_prebuilt_set :: u8
  max_unlinked_leg_retry :: u32
  num_legs_set :: u8
  max_legs_set :: u8
  low_exit_threshold :: int
  cfx_drain_pct :: u8
  cfx_send_pct :: u8
  max_ooo_queue_bytes :: u32
  exit_supported :: nat
  exit_total :: nat

text \<open>The values the cache has before any consensus is seen.\<close>

definition conflux_params_init :: conflux_params_cache where
  "conflux_params_init = \<lparr>conflux_enabled = True, max_linked_set = 10, max_prebuilt_set = 3,
     max_unlinked_leg_retry = 3, num_legs_set = 2, max_legs_set = 8, low_exit_threshold = 6000,
     cfx_drain_pct = 0, cfx_send_pct = 100, max_ooo_queue_bytes = 2147483647,
     exit_supported = 0, exit_total = 0\<rparr>"

section \<open>Exits that support conflux\<close>

fun count_exits :: "routerstatus list \<Rightarrow> nat \<times> nat" where
  "count_exits [] = (0, 0)"
| "count_exits (rs # rss) =
     (let (supported, total) = count_exits rss
      in if \<not> rs_is_exit rs \<or> rs_is_bad_exit rs then (supported, total)
         else (if rs_supports_conflux rs then Suc supported else supported, Suc total))"

definition count_exit_with_conflux_support ::
  "networkstatus option \<Rightarrow> conflux_params_cache \<Rightarrow> conflux_params_cache" where
  "count_exit_with_conflux_support ns p =
     (case ns of
        None \<Rightarrow> p
      | Some n \<Rightarrow>
          (if routerstatus_list n = [] then p
           else let (supported, total) = count_exits (routerstatus_list n)
                in if total > 0 then p\<lparr>exit_supported := supported, exit_total := total\<rparr>
                   else p\<lparr>exit_supported := 0, exit_total := 0\<rparr>))"

section \<open>Is conflux usable?\<close>

text \<open>
  A circuit is given when there is one.  An origin circuit without a path fails an assertion.
\<close>

definition conflux_is_enabled ::
  "or_options_t \<Rightarrow> cc_globals \<Rightarrow> conflux_params_cache \<Rightarrow> circuit_t option \<Rightarrow> bool option" where
  "conflux_is_enabled opts g p circ =
     (if \<not> congestion_control_enabled (AlwaysCongestionControl opts) g then Some False
      else do {
        cc_ok \<leftarrow> (case circ of
                    None \<Rightarrow> Some True
                  | Some c \<Rightarrow>
                      if is_origin c
                      then (case cpath_last c of
                              None \<Rightarrow> None
                            | Some hop \<Rightarrow> Some (cp_ccontrol hop \<noteq> None))
                      else Some (c_ccontrol c \<noteq> None));
        if \<not> cc_ok then Some False
        else if ConfluxEnabled opts \<noteq> -1 then Some (ConfluxEnabled opts \<noteq> 0)
        else Some (conflux_enabled p)
      })"

section \<open>Getters\<close>

definition conflux_params_get_max_linked_set :: "conflux_params_cache \<Rightarrow> u8" where
  "conflux_params_get_max_linked_set p = max_linked_set p"

text \<open>No exit supports conflux: 0; fewer than the threshold: 1.\<close>

definition conflux_params_get_max_prebuilt :: "conflux_params_cache \<Rightarrow> u8" where
  "conflux_params_get_max_prebuilt p =
     (if exit_supported p = 0 \<or> exit_total p = 0 then 0
      else if int (exit_supported p) * 10000 < low_exit_threshold p * int (exit_total p) then 1
      else max_prebuilt_set p)"

definition conflux_params_get_max_unlinked_leg_retry :: "conflux_params_cache \<Rightarrow> u8" where
  "conflux_params_get_max_unlinked_leg_retry p = ucast (max_unlinked_leg_retry p)"

definition conflux_params_get_num_legs_set :: "conflux_params_cache \<Rightarrow> u8" where
  "conflux_params_get_num_legs_set p = num_legs_set p"

definition conflux_params_set_num_legs :: "u8 \<Rightarrow> conflux_params_cache \<Rightarrow> conflux_params_cache" where
  "conflux_params_set_num_legs n p = (if n > 0 \<and> n \<le> 16 then p\<lparr>num_legs_set := n\<rparr> else p)"

definition conflux_params_get_set_selection :: "or_options_t \<Rightarrow> int" where
  "conflux_params_get_set_selection opts =
     (if ConfluxSetSelection opts \<ge> 0 then ConfluxSetSelection opts else 0)"

definition conflux_params_get_set_rtt_max :: "or_options_t \<Rightarrow> int" where
  "conflux_params_get_set_rtt_max opts =
     (if ConfluxSetRttMax opts > 0 then ConfluxSetRttMax opts else 0)"

definition conflux_params_get_set_rtt_pct :: "or_options_t \<Rightarrow> int" where
  "conflux_params_get_set_rtt_pct opts =
     (if ConfluxSetRttPct opts > 0 then ConfluxSetRttPct opts else 0)"

definition conflux_params_get_max_legs_set :: "conflux_params_cache \<Rightarrow> u8" where
  "conflux_params_get_max_legs_set p = max_legs_set p"

definition conflux_params_get_drain_pct :: "conflux_params_cache \<Rightarrow> u8" where
  "conflux_params_get_drain_pct p = cfx_drain_pct p"

definition conflux_params_get_send_pct :: "conflux_params_cache \<Rightarrow> u8" where
  "conflux_params_get_send_pct p = cfx_send_pct p"

definition conflux_params_get_max_oooq :: "conflux_params_cache \<Rightarrow> u32" where
  "conflux_params_get_max_oooq p = max_ooo_queue_bytes p"

section \<open>A new consensus\<close>

definition conflux_params_new_consensus ::
  "networkstatus option \<Rightarrow> networkstatus option \<Rightarrow> or_options_t \<Rightarrow> conflux_params_cache \<Rightarrow>
   conflux_params_cache option" where
  "conflux_params_new_consensus latest ns opts p = do {
     en \<leftarrow> networkstatus_get_param latest ns ''cfx_enabled'' 1 0 1;
     lt \<leftarrow> networkstatus_get_param latest ns ''cfx_low_exit_threshold'' 6000 0 10000;
     ml \<leftarrow> networkstatus_get_param latest ns ''cfx_max_linked_set'' 10 0 255;
     mp \<leftarrow> networkstatus_get_param latest ns ''cfx_max_prebuilt_set'' 3 0 255;
     mr \<leftarrow> networkstatus_get_param latest ns ''cfx_max_unlinked_leg_retry'' 3 0 255;
     nl \<leftarrow> networkstatus_get_param latest ns ''cfx_num_legs_set'' 2 0 255;
     let nl = (if ConfluxNumLegs opts > 0 then ConfluxNumLegs opts else nl);
     mx \<leftarrow> networkstatus_get_param latest ns ''cfx_max_legs_set'' 8 3 255;
     let mp = (if ConfluxNumSets opts > 0 then ConfluxNumSets opts else mp);
     let ml = (if ConfluxNumSets opts > 0 then ConfluxNumSets opts else ml);
     let ml = (if ConfluxNumLinkedSets opts > 0 then ConfluxNumLinkedSets opts else ml);
     sp \<leftarrow> networkstatus_get_param latest ns ''cfx_send_pct'' 100 0 255;
     dp \<leftarrow> networkstatus_get_param latest ns ''cfx_drain_pct'' 0 0 255;
     mo \<leftarrow> networkstatus_get_param latest ns ''cfx_max_oooq_bytes'' INT32_MAX 0 INT32_MAX;
     Some (count_exit_with_conflux_support ns
       (p\<lparr>conflux_enabled := (en \<noteq> 0), low_exit_threshold := lt, max_linked_set := word_of_int ml,
          max_prebuilt_set := word_of_int mp, max_unlinked_leg_retry := word_of_int mr,
          num_legs_set := word_of_int nl, max_legs_set := word_of_int mx, cfx_send_pct := word_of_int sp,
          cfx_drain_pct := word_of_int dp, max_ooo_queue_bytes := word_of_int mo\<rparr>))
   }"

section \<open>Properties\<close>

lemma count_exits_le: "count_exits rss = (s, t) \<Longrightarrow> s \<le> t"
  by (induction rss arbitrary: s t) (auto simp: Let_def split: prod.splits if_splits)

lemma count_frame:
  "num_legs_set (count_exit_with_conflux_support ns p) = num_legs_set p"
  "max_prebuilt_set (count_exit_with_conflux_support ns p) = max_prebuilt_set p"
  "max_linked_set (count_exit_with_conflux_support ns p) = max_linked_set p"
  "max_ooo_queue_bytes (count_exit_with_conflux_support ns p) = max_ooo_queue_bytes p"
  "max_legs_set (count_exit_with_conflux_support ns p) = max_legs_set p"
  by (auto simp: count_exit_with_conflux_support_def Let_def split: option.splits prod.splits)

lemma count_supported_le:
  "exit_supported p \<le> exit_total p \<Longrightarrow>
   exit_supported (count_exit_with_conflux_support ns p) \<le> exit_total (count_exit_with_conflux_support ns p)"
  by (auto simp: count_exit_with_conflux_support_def Let_def count_exits_le split: option.splits prod.splits)

lemma unat_of_torrc: "0 < v \<Longrightarrow> v \<le> 255 \<Longrightarrow> unat (word_of_int v :: u8) = nat v"
proof -
  assume v: "0 < v" "v \<le> 255"
  then have "take_bit 8 v = v" by (simp add: take_bit_int_eq_self)
  then show ?thesis by (simp add: unat_eq_nat_uint uint_word_of_int_eq)
qed

text \<open>
  C40: A new consensus always yields a parameter cache.  A positive torrc value in the range of
  the cache wins over the consensus for the number of legs, of prebuilt sets and of linked sets
  (where \<^verbatim>\<open>ConfluxNumLinkedSets\<close> wins over \<^verbatim>\<open>ConfluxNumSets\<close>), the limit of the out-of-order queue
  is at most \<^verbatim>\<open>INT32_MAX\<close>, a set may always grow to three legs, and no more exits are counted as
  supporting conflux than there are exits.
\<close>

theorem conflux_params_overrides:
  assumes "exit_supported p \<le> exit_total p"
  shows "\<exists>p'. conflux_params_new_consensus latest ns opts p = Some p'
    \<and> (0 < ConfluxNumLegs opts \<longrightarrow> ConfluxNumLegs opts \<le> 255 \<longrightarrow>
         unat (conflux_params_get_num_legs_set p') = nat (ConfluxNumLegs opts))
    \<and> (0 < ConfluxNumSets opts \<longrightarrow> ConfluxNumSets opts \<le> 255 \<longrightarrow> unat (max_prebuilt_set p') = nat (ConfluxNumSets opts))
    \<and> (0 < ConfluxNumLinkedSets opts \<longrightarrow> ConfluxNumLinkedSets opts \<le> 255 \<longrightarrow>
         unat (conflux_params_get_max_linked_set p') = nat (ConfluxNumLinkedSets opts))
    \<and> unat (conflux_params_get_max_oooq p') \<le> 2147483647
    \<and> 3 \<le> unat (conflux_params_get_max_legs_set p') \<and> exit_supported p' \<le> exit_total p'"
proof -
  have I: "(0 :: int) < INT32_MAX" "INT32_MAX < 2 ^ 32" by (simp_all add: INT32_MAX_def)
  note get = np.get_in_range [where latest = latest and ns = ns]
  obtain en lt where 1: "networkstatus_get_param latest ns ''cfx_enabled'' 1 0 1 = Some en"
    "networkstatus_get_param latest ns ''cfx_low_exit_threshold'' 6000 0 10000 = Some lt"
    using get [of 0 1 1] get [of 0 10000 6000] by fastforce
  obtain ml mp where 2: "networkstatus_get_param latest ns ''cfx_max_linked_set'' 10 0 255 = Some ml"
    "networkstatus_get_param latest ns ''cfx_max_prebuilt_set'' 3 0 255 = Some mp"
    using get [of 0 255 10] get [of 0 255 3] by fastforce
  obtain mr nl where 3: "networkstatus_get_param latest ns ''cfx_max_unlinked_leg_retry'' 3 0 255 = Some mr"
    "networkstatus_get_param latest ns ''cfx_num_legs_set'' 2 0 255 = Some nl"
    using get [of 0 255 3] get [of 0 255 2] by fastforce
  obtain sp dp where 4: "networkstatus_get_param latest ns ''cfx_send_pct'' 100 0 255 = Some sp"
    "networkstatus_get_param latest ns ''cfx_drain_pct'' 0 0 255 = Some dp"
    using get [of 0 255 100] get [of 0 255 0] by fastforce
  obtain mx where mx: "networkstatus_get_param latest ns ''cfx_max_legs_set'' 8 3 255 = Some mx" "3 \<le> mx" "mx \<le> 255"
    using get [of 3 255 8] by auto
  obtain mo where mo: "networkstatus_get_param latest ns ''cfx_max_oooq_bytes'' INT32_MAX 0 INT32_MAX = Some mo"
    "0 \<le> mo" "mo \<le> INT32_MAX"
    using get [of 0 INT32_MAX INT32_MAX] I by auto
  have umo: "unat (word_of_int mo :: u32) = nat mo"
    using np.nat_of_get [OF _ _ _ _ _ mo(1), where ?'w = 32] I by simp
  have umx: "unat (word_of_int mx :: u8) = nat mx" using mx by (intro unat_of_torrc) auto
  have eq: "conflux_params_new_consensus latest ns opts p = Some (count_exit_with_conflux_support ns
       (p\<lparr>conflux_enabled := (en \<noteq> 0), low_exit_threshold := lt,
          max_linked_set := word_of_int (if ConfluxNumLinkedSets opts > 0 then ConfluxNumLinkedSets opts
             else if ConfluxNumSets opts > 0 then ConfluxNumSets opts else ml),
          max_prebuilt_set := word_of_int (if ConfluxNumSets opts > 0 then ConfluxNumSets opts else mp),
          max_unlinked_leg_retry := word_of_int mr,
          num_legs_set := word_of_int (if ConfluxNumLegs opts > 0 then ConfluxNumLegs opts else nl),
          max_legs_set := word_of_int mx, cfx_send_pct := word_of_int sp,
          cfx_drain_pct := word_of_int dp, max_ooo_queue_bytes := word_of_int mo\<rparr>))"
    by (simp add: conflux_params_new_consensus_def 1 2 3 4 mx(1) mo(1) Let_def)
  have "3 \<le> nat mx" "nat mo \<le> 2147483647" using mx mo by (simp_all add: INT32_MAX_def)
  then show ?thesis unfolding eq option.inject
    using assms umo umx
    by (simp add: conflux_params_get_num_legs_set_def conflux_params_get_max_linked_set_def conflux_params_get_max_oooq_def
        conflux_params_get_max_legs_set_def count_frame count_supported_le unat_of_torrc nat_le_iff)
qed

theorem conflux_params_overrides_witness:
  "\<exists>p'. conflux_params_new_consensus None None \<lparr>ConfluxEnabled = 1, ConfluxNumLegs = 5, ConfluxNumSets = 0, ConfluxNumLinkedSets = 0,
      ConfluxSetSelection = 0, ConfluxSetRttMax = 0, ConfluxSetRttPct = 0, AlwaysCongestionControl = True\<rparr> conflux_params_init = Some p'
    \<and> unat (conflux_params_get_num_legs_set p') = 5"
  using conflux_params_overrides [of conflux_params_init None None "\<lparr>ConfluxEnabled = 1, ConfluxNumLegs = 5, ConfluxNumSets = 0,
      ConfluxNumLinkedSets = 0, ConfluxSetSelection = 0, ConfluxSetRttMax = 0, ConfluxSetRttPct = 0, AlwaysCongestionControl = True\<rparr>"]
  by (auto simp: conflux_params_init_def)

end
