(* ===== verification/Wire.thy ===== *)
theory Wire
  imports CcState
begin

text \<open>
  Byte-level encoding as the trunnel-generated codecs do it: big-endian integers written into a
  buffer of limited size, with the two error results of a codec, and what a relay message is
  once its header has been taken off.
\<close>

section \<open>Big-endian integers\<close>

fun be_encode :: "nat \<Rightarrow> nat \<Rightarrow> u8 list" where
  "be_encode 0 v = []"
| "be_encode (Suc k) v = of_nat (v div 256 ^ k) # be_encode k v"

definition be_decode :: "u8 list \<Rightarrow> nat" where
  "be_decode bs = foldl (\<lambda>acc b. acc * 256 + unat b) 0 bs"

lemma length_be_encode [simp]: "length (be_encode k v) = k"
  by (induction k) auto

lemma be_decode_Nil [simp]: "be_decode [] = 0"
  by (simp add: be_decode_def)

lemma foldl_be: "foldl (\<lambda>acc b. acc * 256 + unat b) a bs = a * 256 ^ length bs + be_decode bs"
proof (induction bs arbitrary: a)
  case (Cons b bs)
  have "be_decode (b # bs) = unat b * 256 ^ length bs + be_decode bs"
    using Cons [of "unat b"] by (simp add: be_decode_def)
  then show ?case using Cons [of "a * 256 + unat b"] by (simp add: algebra_simps)
qed simp

lemma be_decode_Cons [simp]: "be_decode (b # bs) = unat b * 256 ^ length bs + be_decode bs"
  using foldl_be [of "unat b" bs] by (simp add: be_decode_def)

lemma be_decode_encode: "be_decode (be_encode k v) = v mod 256 ^ k"
proof (induction k)
  case (Suc k)
  have "be_decode (be_encode (Suc k) v) = (v div 256 ^ k mod 256) * 256 ^ k + v mod 256 ^ k"
    using Suc by (simp add: unat_of_nat)
  also have "\<dots> = v mod 256 ^ Suc k"
    by (metis add.commute mod_mult2_eq mult.commute power_Suc2)
  finally show ?case .
qed simp

lemma be_decode_less: "be_decode bs < 256 ^ length bs"
proof (induction bs)
  case (Cons b bs)
  have "unat b * 256 ^ length bs + be_decode bs < (unat b + 1) * 256 ^ length bs"
    using Cons by simp
  also have "\<dots> \<le> 256 * 256 ^ length bs"
    using unat_u8_less [of b] by (intro mult_right_mono) auto
  finally show ?case by simp
qed simp

lemma be_u32_roundtrip: "of_nat (be_decode (be_encode 4 (unat (w :: u32)))) = w"
  using unat_u32_less [of w] by (simp add: be_decode_encode del: be_encode.simps)

lemma be_u64_roundtrip: "of_nat (be_decode (be_encode 8 (unat (w :: u64)))) = w"
  using unat_u64_less [of w] by (simp add: be_decode_encode del: be_encode.simps)

section \<open>Codecs\<close>

text \<open>An encoder fails with \<open>-1\<close> when the object is invalid and with \<open>-2\<close> when the buffer is
  too short; a parser fails with \<open>-1\<close> on a bad value and with \<open>-2\<close> on a short input.\<close>

datatype trunnel_error = Trunnel_fail | Trunnel_truncated

text \<open>\<open>CHECK_REMAINING(n)\<close>: split \<open>n\<close> bytes off the input.\<close>

definition take_bytes :: "nat \<Rightarrow> u8 list \<Rightarrow> trunnel_error + (u8 list \<times> u8 list)" where
  "take_bytes n bs = (if length bs < n then Inl Trunnel_truncated else Inr (take n bs, drop n bs))"

lemma take_bytes_append [simp]: "length xs = n \<Longrightarrow> take_bytes n (xs @ ys) = Inr (xs, ys)"
  by (auto simp: take_bytes_def)

definition sum_bind :: "'e + 'a \<Rightarrow> ('a \<Rightarrow> 'e + 'b) \<Rightarrow> 'e + 'b" where
  "sum_bind m f = (case m of Inl e \<Rightarrow> Inl e | Inr x \<Rightarrow> f x)"

lemma sum_bind_simps [simp]: "sum_bind (Inl e) f = Inl e" "sum_bind (Inr x) f = f x"
  by (simp_all add: sum_bind_def)

text \<open>
  The contract of a codec, for objects of the right shape (\<open>typed\<close>: arrays have their declared
  length): a valid object is encoded exactly when the buffer can hold it, an invalid one never,
  and what was encoded parses back to itself.
\<close>

locale codec =
  fixes typed :: "'a \<Rightarrow> bool"
    and valid :: "'a \<Rightarrow> bool"
    and encode :: "nat \<Rightarrow> 'a \<Rightarrow> trunnel_error + u8 list"
    and parse :: "u8 list \<Rightarrow> trunnel_error + 'a"
    and size :: "'a \<Rightarrow> nat"
  assumes encode_ok: "typed x \<Longrightarrow> valid x \<Longrightarrow> size x \<le> avail \<Longrightarrow>
      \<exists>bs. encode avail x = Inr bs \<and> length bs = size x"
    and encode_short: "typed x \<Longrightarrow> valid x \<Longrightarrow> avail < size x \<Longrightarrow> encode avail x = Inl Trunnel_truncated"
    and encode_invalid: "typed x \<Longrightarrow> \<not> valid x \<Longrightarrow> encode avail x = Inl Trunnel_fail"
    and parse_encode: "typed x \<Longrightarrow> encode avail x = Inr bs \<Longrightarrow> parse bs = Inr x"
begin

lemma encode_valid:
  assumes "typed x" and "encode avail x = Inr bs"
  shows "valid x \<and> size x \<le> avail \<and> length bs = size x"
proof -
  have v: "valid x" using assms encode_invalid [of x avail] by (cases "valid x") auto
  with assms have "size x \<le> avail" using encode_short [of x avail] by (cases "size x \<le> avail") auto
  with v assms show ?thesis using encode_ok [of x avail] by auto
qed

lemma encode_inj: "typed x \<Longrightarrow> typed y \<Longrightarrow> encode avail x = Inr bs \<Longrightarrow> encode avail y = Inr bs \<Longrightarrow> x = y"
  using parse_encode [of x avail bs] parse_encode [of y avail bs] by simp

end

section \<open>Relay messages\<close>

record relay_msg_t =
  rm_command :: int
  rm_length :: u16
  rm_stream_id :: u16
  rm_is_relay_early :: bool
  rm_body :: "u8 list"

text \<open>The part of the body that the length field covers.\<close>

definition msg_payload :: "relay_msg_t \<Rightarrow> u8 list" where
  "msg_payload msg = take (unat (rm_length msg)) (rm_body msg)"

section \<open>Effects on the rest of the program\<close>

text \<open>
  The circuit layer is driven through a few calls; a handler lists the calls it makes, in
  order.  \<open>Relay_send\<close> is \<^verbatim>\<open>relay_send_command_from_edge\<close> (circuit, command, payload, target
  hop), \<open>Mark_for_close\<close> and \<open>Mark_all_for_close\<close> are \<^verbatim>\<open>circuit_mark_for_close\<close> and
  \<^verbatim>\<open>conflux_mark_all_for_close\<close>, \<open>Read_valid_data\<close> is \<^verbatim>\<open>circuit_read_valid_data\<close>
  and \<open>Attach_pending\<close> is \<^verbatim>\<open>connection_ap_attach_pending\<close>.
\<close>

datatype end_circ_reason =
    END_CIRC_REASON_NONE | END_CIRC_REASON_TORPROTOCOL | END_CIRC_REASON_INTERNAL
  | END_CIRC_REASON_RESOURCELIMIT | END_CIRC_REASON_FINISHED | END_CIRC_REASON_NOPATH | END_CIRC_REASON_CHANNEL_CLOSED

datatype action =
    Relay_send circ_id int "u8 list" "nat option"
  | Mark_for_close circ_id end_circ_reason
  | Mark_all_for_close nonce bool end_circ_reason
  | Read_valid_data circ_id nat
  | Attach_pending

end
