(* ===== verification/ConfluxCell.thy ===== *)
theory ConfluxCell
  imports Wire
begin

text \<open>
  The conflux cells: the codecs of \<^verbatim>\<open>trunnel/conflux.c\<close> that \<^verbatim>\<open>core/or/conflux_cell.c\<close> uses, and
  the building, sending and parsing functions of the latter.
\<close>

section \<open>Codecs\<close>

record trn_cell_conflux_link_t =
  trn_version :: u8
  trn_payload :: "u8 list"

definition trn_cell_conflux_link_check :: "trn_cell_conflux_link_t \<Rightarrow> bool" where
  "trn_cell_conflux_link_check obj = (trn_version obj = 1)"

definition trn_cell_conflux_link_encode :: "nat \<Rightarrow> trn_cell_conflux_link_t \<Rightarrow> trunnel_error + u8 list" where
  "trn_cell_conflux_link_encode avail obj =
     (if \<not> trn_cell_conflux_link_check obj then Inl Trunnel_fail
      else if avail < 1 then Inl Trunnel_truncated
      else if avail - 1 < length (trn_payload obj) then Inl Trunnel_truncated
      else Inr (trn_version obj # trn_payload obj))"

definition trn_cell_conflux_link_parse :: "u8 list \<Rightarrow> trunnel_error + trn_cell_conflux_link_t" where
  "trn_cell_conflux_link_parse input =
     sum_bind (take_bytes 1 input) (\<lambda>(v, rest).
       if \<not> hd v = 1 then Inl Trunnel_fail
       else Inr \<lparr>trn_version = hd v, trn_payload = rest\<rparr>)"

record trn_link_payload_v1_t =
  trn_nonce :: "u8 list"
  trn_last_seqno_sent :: u64
  trn_last_seqno_recv :: u64
  trn_desired_ux :: u8

definition ux_ok :: "u8 \<Rightarrow> bool" where
  "ux_ok ux = (ux = 3 \<or> ux = 2 \<or> ux = 4 \<or> ux = 1 \<or> ux = 0)"

definition trn_link_payload_v1_encode :: "nat \<Rightarrow> trn_link_payload_v1_t \<Rightarrow> trunnel_error + u8 list" where
  "trn_link_payload_v1_encode avail obj =
     (if \<not> ux_ok (trn_desired_ux obj) then Inl Trunnel_fail
      else if avail < 32 then Inl Trunnel_truncated
      else if avail - 32 < 8 then Inl Trunnel_truncated
      else if avail - 40 < 8 then Inl Trunnel_truncated
      else if avail - 48 < 1 then Inl Trunnel_truncated
      else Inr (trn_nonce obj @ be_encode 8 (unat (trn_last_seqno_sent obj))
                @ be_encode 8 (unat (trn_last_seqno_recv obj)) @ [trn_desired_ux obj]))"

definition trn_link_payload_v1_parse :: "u8 list \<Rightarrow> trunnel_error + trn_link_payload_v1_t" where
  "trn_link_payload_v1_parse input =
     sum_bind (take_bytes 32 input) (\<lambda>(n, r1).
     sum_bind (take_bytes 8 r1) (\<lambda>(s, r2).
     sum_bind (take_bytes 8 r2) (\<lambda>(r, r3).
     sum_bind (take_bytes 1 r3) (\<lambda>(u, r4).
       if \<not> ux_ok (hd u) then Inl Trunnel_fail
       else Inr \<lparr>trn_nonce = n, trn_last_seqno_sent = of_nat (be_decode s),
                 trn_last_seqno_recv = of_nat (be_decode r), trn_desired_ux = hd u\<rparr>))))"

definition trn_cell_conflux_switch_encode :: "nat \<Rightarrow> u32 \<Rightarrow> trunnel_error + u8 list" where
  "trn_cell_conflux_switch_encode avail seqnum =
     (if avail < 4 then Inl Trunnel_truncated else Inr (be_encode 4 (unat seqnum)))"

definition trn_cell_conflux_switch_parse :: "u8 list \<Rightarrow> trunnel_error + u32" where
  "trn_cell_conflux_switch_parse input =
     sum_bind (take_bytes 4 input) (\<lambda>(s, rest). Inr (of_nat (be_decode s)))"

text \<open>The LINKED_ACK cell is a byte string, empty in the cells that are sent.\<close>

definition trn_cell_conflux_linked_ack_encode :: "nat \<Rightarrow> u8 list \<Rightarrow> trunnel_error + u8 list" where
  "trn_cell_conflux_linked_ack_encode avail payload =
     (if avail < length payload then Inl Trunnel_truncated else Inr payload)"

interpretation link_codec: codec "\<lambda>_. True" trn_cell_conflux_link_check
  trn_cell_conflux_link_encode trn_cell_conflux_link_parse "\<lambda>x. Suc (length (trn_payload x))"
  by unfold_locales
     (auto simp: trn_cell_conflux_link_encode_def trn_cell_conflux_link_parse_def
       trn_cell_conflux_link_check_def take_bytes_def split: if_splits)

interpretation payload_codec: codec "\<lambda>x. length (trn_nonce x) = 32" "\<lambda>x. ux_ok (trn_desired_ux x)"
  trn_link_payload_v1_encode trn_link_payload_v1_parse "\<lambda>_. 49"
proof (unfold_locales, goal_cases)
  case (4 x avail bs)
  then have ux: "ux_ok (trn_desired_ux x)"
    and bs: "bs = trn_nonce x @ be_encode 8 (unat (trn_last_seqno_sent x))
                @ be_encode 8 (unat (trn_last_seqno_recv x)) @ [trn_desired_ux x]"
    by (simp_all add: trn_link_payload_v1_encode_def split: if_splits del: be_encode.simps)
  show ?case using 4 ux
    by (simp add: bs trn_link_payload_v1_parse_def be_u64_roundtrip take_bytes_def [of "Suc 0"] del: be_encode.simps)
qed (auto simp: trn_link_payload_v1_encode_def simp del: be_encode.simps)

interpretation switch_codec: codec "\<lambda>_. True" "\<lambda>_. True"
  trn_cell_conflux_switch_encode trn_cell_conflux_switch_parse "\<lambda>_. 4"
proof (unfold_locales, goal_cases)
  case (4 x avail bs)
  then have "bs = be_encode 4 (unat x) @ []"
    by (simp add: trn_cell_conflux_switch_encode_def split: if_splits del: be_encode.simps)
  then show ?case
    by (simp only: trn_cell_conflux_switch_parse_def take_bytes_append length_be_encode
        sum_bind_simps prod.case be_u32_roundtrip)
qed (auto simp: trn_cell_conflux_switch_encode_def simp del: be_encode.simps)

section \<open>Building and parsing cells\<close>

text \<open>\<^verbatim>\<open>RELAY_PAYLOAD_SIZE_MAX\<close> is \<open>CELL_PAYLOAD_SIZE - RELAY_HEADER_SIZE_V0\<close>.\<close>

definition RELAY_PAYLOAD_SIZE_MAX :: nat where "RELAY_PAYLOAD_SIZE_MAX = 509 - 11"

record conflux_cell_link_t =
  link_version :: u8
  link_desired_ux :: u8
  link_nonce :: nonce
  link_last_seqno_sent :: u64
  link_last_seqno_recv :: u64

definition conflux_cell_new_link :: "nonce \<Rightarrow> u64 \<Rightarrow> u64 \<Rightarrow> u8 \<Rightarrow> conflux_cell_link_t" where
  "conflux_cell_new_link nonce last_seqno_sent last_seqno_recv ux =
     \<lparr>link_version = 1, link_desired_ux = ux, link_nonce = nonce,
      link_last_seqno_sent = last_seqno_sent, link_last_seqno_recv = last_seqno_recv\<rparr>"

text \<open>
  \<^verbatim>\<open>build_link_cell\<close>: an option for the asserts, inside it the codec result.  A failing payload
  encoding has a negative encoded length, which the second assert catches.
\<close>

definition build_link_cell :: "conflux_cell_link_t \<Rightarrow> (trunnel_error + u8 list) option" where
  "build_link_cell link = do {
     tor_assert (length (link_nonce link) = 32);
     let payload = \<lparr>trn_nonce = link_nonce link, trn_last_seqno_sent = link_last_seqno_sent link,
                    trn_last_seqno_recv = link_last_seqno_recv link, trn_desired_ux = link_desired_ux link\<rparr>;
     tor_assert (ux_ok (trn_desired_ux payload));
     (case trn_link_payload_v1_encode 49 payload of
        Inl e \<Rightarrow> None
      | Inr bytes \<Rightarrow> Some (trn_cell_conflux_link_encode RELAY_PAYLOAD_SIZE_MAX
                       \<lparr>trn_version = 1, trn_payload = bytes\<rparr>))
   }"

definition conflux_cell_parse_link_v1 :: "trn_cell_conflux_link_t \<Rightarrow> conflux_cell_link_t option" where
  "conflux_cell_parse_link_v1 trn_link =
     (case trn_link_payload_v1_parse (trn_payload trn_link) of
        Inl _ \<Rightarrow> None
      | Inr payload \<Rightarrow> Some \<lparr>link_version = trn_version trn_link, link_desired_ux = trn_desired_ux payload,
          link_nonce = trn_nonce payload, link_last_seqno_sent = trn_last_seqno_sent payload,
          link_last_seqno_recv = trn_last_seqno_recv payload\<rparr>)"

text \<open>\<^term>\<open>None\<close> is the NULL that the code returns for a cell it cannot parse.\<close>

definition conflux_cell_parse_link :: "relay_msg_t \<Rightarrow> conflux_cell_link_t option" where
  "conflux_cell_parse_link msg =
     (case trn_cell_conflux_link_parse (msg_payload msg) of
        Inl _ \<Rightarrow> None
      | Inr cell \<Rightarrow> if trn_version cell = 1 then conflux_cell_parse_link_v1 cell else None)"

definition conflux_cell_parse_linked :: "relay_msg_t \<Rightarrow> conflux_cell_link_t option" where
  "conflux_cell_parse_linked msg = conflux_cell_parse_link msg"

definition conflux_cell_parse_switch :: "relay_msg_t \<Rightarrow> u32" where
  "conflux_cell_parse_switch msg =
     (case trn_cell_conflux_switch_parse (msg_payload msg) of Inl _ \<Rightarrow> 0 | Inr s \<Rightarrow> s)"

section \<open>Sending cells\<close>

text \<open>
  The sending functions return the C result and the calls they make.  \<open>sent\<close> is the outcome of
  \<^verbatim>\<open>relay_send_command_from_edge\<close> (false when it returned a negative value).
\<close>

abbreviation "RELAY_COMMAND_CONFLUX_LINK \<equiv> 19 :: int"
abbreviation "RELAY_COMMAND_CONFLUX_LINKED \<equiv> 20 :: int"
abbreviation "RELAY_COMMAND_CONFLUX_LINKED_ACK \<equiv> 21 :: int"
abbreviation "RELAY_COMMAND_CONFLUX_SWITCH \<equiv> 22 :: int"

definition last_hop_id :: "circuit_t \<Rightarrow> nat option" where
  "last_hop_id circ = (if is_origin circ then map_option cp_id (cpath_last circ) else None)"

definition conflux_cell_send_link ::
  "bool \<Rightarrow> conflux_cell_link_t \<Rightarrow> circ_id \<Rightarrow> circuit_t \<Rightarrow> (bool \<times> action list) option" where
  "conflux_cell_send_link sent link c circ = do {
     r \<leftarrow> build_link_cell link;
     Some (case r of
             Inl _ \<Rightarrow> (False, [Mark_for_close c END_CIRC_REASON_INTERNAL])
           | Inr payload \<Rightarrow> (sent, [Relay_send c RELAY_COMMAND_CONFLUX_LINK payload (last_hop_id circ)]))
   }"

definition conflux_cell_send_linked ::
  "bool \<Rightarrow> conflux_cell_link_t \<Rightarrow> circ_id \<Rightarrow> (bool \<times> action list) option" where
  "conflux_cell_send_linked sent link c = do {
     r \<leftarrow> build_link_cell link;
     Some (case r of
             Inl _ \<Rightarrow> (False, [Mark_for_close c END_CIRC_REASON_INTERNAL])
           | Inr payload \<Rightarrow> (sent, [Relay_send c RELAY_COMMAND_CONFLUX_LINKED payload None]))
   }"

definition conflux_cell_send_linked_ack ::
  "bool \<Rightarrow> circ_id \<Rightarrow> circuit_t \<Rightarrow> bool \<times> action list" where
  "conflux_cell_send_linked_ack sent c circ =
     (case trn_cell_conflux_linked_ack_encode RELAY_PAYLOAD_SIZE_MAX [] of
        Inl _ \<Rightarrow> (False, [Mark_for_close c END_CIRC_REASON_INTERNAL])
      | Inr payload \<Rightarrow> (sent, [Relay_send c RELAY_COMMAND_CONFLUX_LINKED_ACK payload (last_hop_id circ)]))"

definition conflux_send_switch_command ::
  "bool \<Rightarrow> circ_id \<Rightarrow> circuit_t \<Rightarrow> u64 \<Rightarrow> bool \<times> action list" where
  "conflux_send_switch_command sent c circ relative_seq =
     (if relative_seq \<ge> 4294967295 then (False, [])
      else case trn_cell_conflux_switch_encode RELAY_PAYLOAD_SIZE_MAX (ucast relative_seq) of
             Inl _ \<Rightarrow> (False, [])
           | Inr payload \<Rightarrow> (sent, [Relay_send c RELAY_COMMAND_CONFLUX_SWITCH payload (last_hop_id circ)]))"

section \<open>What is sent is what is parsed\<close>

lemma switch_command_payload:
  assumes "relative_seq < 4294967295"
  shows "conflux_send_switch_command sent c circ relative_seq =
    (sent, [Relay_send c RELAY_COMMAND_CONFLUX_SWITCH (be_encode 4 (unat (ucast relative_seq :: u32))) (last_hop_id circ)])"
  using assms by (simp add: conflux_send_switch_command_def trn_cell_conflux_switch_encode_def
      RELAY_PAYLOAD_SIZE_MAX_def not_le del: be_encode.simps)

lemma parse_switch_of_encode:
  assumes "trn_cell_conflux_switch_encode n s = Inr payload" and "msg_payload msg = payload"
  shows "conflux_cell_parse_switch msg = s"
  using switch_codec.parse_encode [OF TrueI assms(1)] assms(2)
  by (simp add: conflux_cell_parse_switch_def)

text \<open>
  A SWITCH that was sent reads back, on the other side, as exactly the 64-bit difference the
  sender computed: the guard on 32 bits makes the narrowing conversion exact.
\<close>

lemma switch_relative_seq_exact:
  assumes "conflux_send_switch_command True c circ rel = (True, [Relay_send c cmd payload hop])"
    and "msg_payload msg = payload"
  shows "ucast (conflux_cell_parse_switch msg) = rel"
proof -
  have small: "rel < 4294967295"
    using assms(1) by (auto simp: conflux_send_switch_command_def split: if_splits)
  with assms have enc: "trn_cell_conflux_switch_encode RELAY_PAYLOAD_SIZE_MAX (ucast rel) = Inr payload"
    by (auto simp: conflux_send_switch_command_def split: if_splits sum.splits)
  have "unat rel < 4294967296" using small by (simp add: word_less_nat_alt)
  then have "unat (ucast rel :: u32) = unat rel"
    by (simp add: unsigned_ucast_eq take_bit_nat_eq_self)
  then have "unat (ucast (ucast rel :: u32) :: u64) = unat rel" by simp
  then have "ucast (ucast rel :: u32) = rel" by (simp add: word_unat_eq_iff)
  then show ?thesis using parse_switch_of_encode [OF enc assms(2)] by simp
qed

lemma build_link_cell_ok:
  assumes "length (link_nonce link) = 32" and "ux_ok (link_desired_ux link)"
  shows "\<exists>bytes. build_link_cell link = Some (Inr bytes) \<and> length bytes = 50"
proof -
  let ?p = "\<lparr>trn_nonce = link_nonce link, trn_last_seqno_sent = link_last_seqno_sent link,
             trn_last_seqno_recv = link_last_seqno_recv link, trn_desired_ux = link_desired_ux link\<rparr>"
  obtain pb where pb: "trn_link_payload_v1_encode 49 ?p = Inr pb" "length pb = 49"
    using payload_codec.encode_ok [of ?p 49] assms by auto
  then show ?thesis using assms
    by (auto simp: build_link_cell_def trn_cell_conflux_link_encode_def trn_cell_conflux_link_check_def
        RELAY_PAYLOAD_SIZE_MAX_def)
qed

lemma parse_link_of_build:
  assumes "build_link_cell link = Some (Inr bytes)" and "msg_payload msg = bytes"
  shows "conflux_cell_parse_link msg = Some (link\<lparr>link_version := 1\<rparr>)"
proof -
  let ?p = "\<lparr>trn_nonce = link_nonce link, trn_last_seqno_sent = link_last_seqno_sent link,
             trn_last_seqno_recv = link_last_seqno_recv link, trn_desired_ux = link_desired_ux link\<rparr>"
  from assms(1) obtain pb where nonce: "length (link_nonce link) = 32"
    and pb: "trn_link_payload_v1_encode 49 ?p = Inr pb"
    and cell: "trn_cell_conflux_link_encode RELAY_PAYLOAD_SIZE_MAX \<lparr>trn_version = 1, trn_payload = pb\<rparr> = Inr bytes"
    by (auto simp: build_link_cell_def bind_eq_Some_iff split: sum.splits)
  have "trn_link_payload_v1_parse pb = Inr ?p"
    using payload_codec.parse_encode [OF _ pb] nonce by simp
  moreover have "trn_cell_conflux_link_parse bytes = Inr \<lparr>trn_version = 1, trn_payload = pb\<rparr>"
    using link_codec.parse_encode [OF TrueI cell] .
  ultimately show ?thesis using assms(2)
    by (simp add: conflux_cell_parse_link_def conflux_cell_parse_link_v1_def)
qed

section \<open>Properties\<close>

text \<open>
  LINK and LINKED cells round-trip: a link with a 32-byte nonce and a defined user
  experience value is always encoded, in 50 bytes, and a cell with those bytes parses back to the
  same link.
\<close>

theorem link_cell_roundtrip:
  assumes "length (link_nonce link) = 32" and "ux_ok (link_desired_ux link)"
  shows "\<exists>bytes. build_link_cell link = Some (Inr bytes) \<and> length bytes = 50 \<and>
    (\<forall>msg. msg_payload msg = bytes \<longrightarrow> conflux_cell_parse_link msg = Some (link\<lparr>link_version := 1\<rparr>))"
  using build_link_cell_ok [OF assms] parse_link_of_build by blast

theorem link_cell_roundtrip_witness:
  "\<exists>bytes. build_link_cell (conflux_cell_new_link (replicate 32 7) 5 6 2) = Some (Inr bytes) \<and>
     conflux_cell_parse_link \<lparr>rm_command = RELAY_COMMAND_CONFLUX_LINK, rm_length = 50, rm_stream_id = 0,
       rm_is_relay_early = False, rm_body = bytes\<rparr> = Some (conflux_cell_new_link (replicate 32 7) 5 6 2)"
  using link_cell_roundtrip [of "conflux_cell_new_link (replicate 32 7) 5 6 2"]
  by (fastforce simp: conflux_cell_new_link_def ux_ok_def msg_payload_def)

text \<open>
  C39: A SWITCH that is sent reads back as exactly the 64-bit number the sender wanted, although
  the cell has 32 bits; a distance that does not fit is refused, and nothing is sent.
\<close>

theorem switch_cell_exact:
  assumes "conflux_send_switch_command sent c circ rel = (ok, acts)"
  shows "if rel < 4294967295
    then ok = sent \<and> (\<exists>payload. acts = [Relay_send c RELAY_COMMAND_CONFLUX_SWITCH payload (last_hop_id circ)] \<and>
           (\<forall>msg. msg_payload msg = payload \<longrightarrow> ucast (conflux_cell_parse_switch msg) = rel))
    else \<not> ok \<and> acts = []"
proof (cases "rel < 4294967295")
  case True
  then show ?thesis
    using assms switch_command_payload [OF True, of sent c circ] switch_command_payload [OF True, of True c circ]
      switch_relative_seq_exact [of c circ rel] by (auto simp del: be_encode.simps)
qed (use assms in \<open>simp add: conflux_send_switch_command_def not_less\<close>)

theorem switch_cell_exact_witness:
  "\<forall>circ. conflux_send_switch_command True 3 circ 4294967295 = (False, [])"
proof
  fix circ
  obtain ok acts where r: "conflux_send_switch_command True 3 circ 4294967295 = (ok, acts)" by fastforce
  then show "conflux_send_switch_command True 3 circ 4294967295 = (False, [])"
    using switch_cell_exact [OF r] by simp
qed

end
