(* ===== verification/Conflux.thy ===== *)
theory Conflux
  imports ConfluxParams ConfluxCell
begin

text \<open>
  \<^verbatim>\<open>core/or/conflux.c\<close>: choosing the leg to send on, sequence numbers, and the out-of-order
  queue of the receiving side.

  A set owns its legs, and each leg belongs to one circuit: a pointer to a leg is represented
  by its circuit.  \<open>circs\<close> is the memory that circuit pointers refer to.
\<close>

section \<open>State\<close>

record conflux_leg_t =
  leg_circ :: circ_id
  last_seq_recv :: u64
  last_seq_sent :: u64
  circ_rtts_usec :: u64
  linked_sent_usec :: u64

record conflux_msg_t =
  seq :: u64
  heap_idx :: int
  msg :: relay_msg_t

datatype conflux_alg_t = CONFLUX_ALG_MINRTT | CONFLUX_ALG_LOWRTT | CONFLUX_ALG_CWNDRTT

record conflux_t =
  alg :: conflux_alg_t
  legs :: "conflux_leg_t list"
  ooo_q :: "conflux_msg_t list"
  ooo_q_alloc_cost :: u64
  last_seq_delivered :: u64
  cells_until_switch :: u64
  curr_leg :: "circ_id option"
  prev_leg :: "circ_id option"
  cfx_nonce :: nonce
  in_full_teardown :: bool
  num_leg_launch :: u32
  total_streams :: u64
  bytes_sent :: u64
  bytes_recv :: u64

section \<open>Which commands are multiplexed\<close>

abbreviation "RELAY_COMMAND_DATA \<equiv> 2 :: int"

definition conflux_should_multiplex :: "int \<Rightarrow> bool" where
  "conflux_should_multiplex relay_command =
     (if relay_command \<in> {1, 2, 3, 4} then True            \<comment> \<open>BEGIN, DATA, END, CONNECTED\<close>
      else if relay_command \<in> {5, 6, 7, 8, 9, 10} then False \<comment> \<open>SENDME, EXTEND, EXTENDED, TRUNCATE, TRUNCATED, DROP\<close>
      else if relay_command \<in> {11, 12} then True            \<comment> \<open>RESOLVE, RESOLVED\<close>
      else if relay_command \<in> {13, 14, 15, 32, 33, 34, 35, 36, 37, 38, 39, 40, 41, 42} then False
      else if relay_command \<in> {43, 44} then True            \<comment> \<open>XOFF, XON\<close>
      else if relay_command \<in> {22, 19, 20, 21} then False   \<comment> \<open>SWITCH, LINK, LINKED, LINKED_ACK\<close>
      else False)"

section \<open>Legs\<close>

definition conflux_get_leg :: "conflux_t \<Rightarrow> circ_id \<Rightarrow> conflux_leg_t option" where
  "conflux_get_leg cfx circ = find (\<lambda>l. leg_circ l = circ) (legs cfx)"

text \<open>Writing through the pointer that \<^verbatim>\<open>conflux_get_leg\<close> returned.\<close>

fun update_leg :: "circ_id \<Rightarrow> (conflux_leg_t \<Rightarrow> conflux_leg_t) \<Rightarrow> conflux_leg_t list \<Rightarrow> conflux_leg_t list" where
  "update_leg c f [] = []"
| "update_leg c f (l # ls) = (if leg_circ l = c then f l # ls else l # update_leg c f ls)"

definition conflux_get_max_seq_sent :: "conflux_t \<Rightarrow> u64" where
  "conflux_get_max_seq_sent cfx =
     foldl (\<lambda>m l. if last_seq_sent l > m then last_seq_sent l else m) 0 (legs cfx)"

definition conflux_get_max_seq_recv :: "conflux_t \<Rightarrow> u64" where
  "conflux_get_max_seq_recv cfx =
     foldl (\<lambda>m l. if last_seq_recv l > m then last_seq_recv l else m) 0 (legs cfx)"

definition circuit_ccontrol :: "circuit_t \<Rightarrow> congestion_control_t option" where
  "circuit_ccontrol circ =
     (if is_origin circ
      then (case cpath_last circ of None \<Rightarrow> None | Some hop \<Rightarrow> cp_ccontrol hop)
      else c_ccontrol circ)"

definition circuit_ready_to_send :: "circuit_t \<Rightarrow> bool option" where
  "circuit_ready_to_send circ = do {
     cc \<leftarrow> circuit_ccontrol circ;
     let cc_sendable = (\<not> inflight cc \<ge> cwnd cc);
     Some (if is_origin circ then cc_sendable \<and> \<not> circuit_blocked_on_n_chan circ
           else cc_sendable \<and> \<not> circuit_blocked_on_p_chan circ)
   }"

section \<open>Scheduling algorithms\<close>

text \<open>The loop over the legs that finds the lowest measured RTT; RTT 0 is no measurement.\<close>

fun min_rtt_leg :: "conflux_leg_t list \<Rightarrow> u64 \<Rightarrow> conflux_leg_t option \<Rightarrow> u64 \<times> conflux_leg_t option" where
  "min_rtt_leg [] min_rtt best = (min_rtt, best)"
| "min_rtt_leg (l # ls) min_rtt best =
     (if circ_rtts_usec l \<noteq> 0 \<and> circ_rtts_usec l < min_rtt then min_rtt_leg ls (circ_rtts_usec l) (Some l)
      else min_rtt_leg ls min_rtt best)"

definition conflux_decide_circ_minrtt :: "(circ_id \<Rightarrow> circuit_t) \<Rightarrow> conflux_t \<Rightarrow> circ_id option option" where
  "conflux_decide_circ_minrtt circs cfx = do {
     tor_assert (legs cfx \<noteq> []);
     (case snd (min_rtt_leg (legs cfx) UINT64_MAX None) of
        None \<Rightarrow> Some None
      | Some l \<Rightarrow> do {
          ready \<leftarrow> circuit_ready_to_send (circs (leg_circ l));
          Some (if ready then Some (leg_circ l) else None)
        })
   }"

fun lowrtt_loop ::
  "(circ_id \<Rightarrow> circuit_t) \<Rightarrow> conflux_leg_t list \<Rightarrow> u64 \<Rightarrow> circ_id option \<Rightarrow> circ_id option option" where
  "lowrtt_loop circs [] low_rtt circ = Some circ"
| "lowrtt_loop circs (l # ls) low_rtt circ = do {
     ready \<leftarrow> circuit_ready_to_send (circs (leg_circ l));
     if \<not> ready then lowrtt_loop circs ls low_rtt circ
     else if circ_rtts_usec l \<noteq> 0 \<and> circ_rtts_usec l < low_rtt
     then lowrtt_loop circs ls (circ_rtts_usec l) (Some (leg_circ l))
     else lowrtt_loop circs ls low_rtt circ
   }"

definition conflux_decide_circ_lowrtt :: "(circ_id \<Rightarrow> circuit_t) \<Rightarrow> conflux_t \<Rightarrow> circ_id option option" where
  "conflux_decide_circ_lowrtt circs cfx = do {
     tor_assert (legs cfx \<noteq> []);
     lowrtt_loop circs (legs cfx) UINT64_MAX None
   }"

definition cwnd_available :: "circuit_t \<Rightarrow> u64 option" where
  "cwnd_available on_circ = do {
     cc \<leftarrow> circuit_ccontrol on_circ;
     Some (if cwnd cc < inflight cc then 0 else cwnd cc - inflight cc)
   }"

definition cwnd_sendable :: "circuit_t \<Rightarrow> u64 \<Rightarrow> u64 \<Rightarrow> u64 option" where
  "cwnd_sendable on_circ in_usec our_usec = do {
     cc \<leftarrow> circuit_ccontrol on_circ;
     cwnd_adjusted \<leftarrow> cwnd_available on_circ;
     if our_usec = 0 \<or> in_usec = 0 then Some cwnd_adjusted
     else if in_slow_start cc then Some cwnd_adjusted
     else Some (min (cwnd cc) (cwnd_adjusted * in_usec div our_usec))
   }"

definition conflux_can_switch :: "conflux_params_cache \<Rightarrow> (circ_id \<Rightarrow> circuit_t) \<Rightarrow> conflux_t \<Rightarrow> bool option" where
  "conflux_can_switch p circs cfx =
     (if cells_until_switch cfx > 0
      then (case prev_leg cfx of
              None \<Rightarrow> Some False
            | Some c \<Rightarrow> do {
                cc \<leftarrow> circuit_ccontrol (circs c);
                Some (inflight cc < ucast (sendme_inc cc)
                      \<or> 100 * inflight cc \<le> ucast (conflux_params_get_drain_pct p) * cwnd cc)
              })
      else Some True)"

text \<open>The second loop: every leg that is ready and may send replaces the previous choice.\<close>

fun cwndrtt_loop ::
  "(circ_id \<Rightarrow> circuit_t) \<Rightarrow> u64 \<Rightarrow> conflux_leg_t list \<Rightarrow> conflux_leg_t option \<Rightarrow> conflux_leg_t option option" where
  "cwndrtt_loop circs min_rtt [] leg = Some leg"
| "cwndrtt_loop circs min_rtt (l # ls) leg = do {
     ready \<leftarrow> circuit_ready_to_send (circs (leg_circ l));
     if \<not> ready then cwndrtt_loop circs min_rtt ls leg
     else if circ_rtts_usec l = 0 then cwndrtt_loop circs min_rtt ls leg
     else do {
       n \<leftarrow> cwnd_sendable (circs (leg_circ l)) min_rtt (circ_rtts_usec l);
       cwndrtt_loop circs min_rtt ls (if n > 0 then Some l else leg)
     }
   }"

definition conflux_decide_circ_cwndrtt :: "(circ_id \<Rightarrow> circuit_t) \<Rightarrow> conflux_t \<Rightarrow> circ_id option option" where
  "conflux_decide_circ_cwndrtt circs cfx = do {
     tor_assert (legs cfx \<noteq> []);
     let (min_rtt, leg) = min_rtt_leg (legs cfx) UINT64_MAX None;
     first \<leftarrow> (case leg of None \<Rightarrow> Some False | Some l \<Rightarrow> circuit_ready_to_send (circs (leg_circ l)));
     if first then Some (map_option leg_circ leg)
     else do {
       leg \<leftarrow> cwndrtt_loop circs min_rtt (legs cfx) None;
       (case leg of
          None \<Rightarrow> Some None
        | Some l \<Rightarrow> do {
            ready \<leftarrow> circuit_ready_to_send (circs (leg_circ l));
            Some (if ready then Some (leg_circ l) else None)
          })
     }
   }"

section \<open>The next circuit\<close>

fun first_leg_loop :: "conflux_leg_t list \<Rightarrow> conflux_leg_t option \<Rightarrow> conflux_leg_t option" where
  "first_leg_loop [] min_leg = min_leg"
| "first_leg_loop (l # ls) min_leg =
     (if circ_rtts_usec l > 0
         \<and> (case min_leg of None \<Rightarrow> True | Some m \<Rightarrow> circ_rtts_usec l < circ_rtts_usec m)
      then first_leg_loop ls (Some l)
      else first_leg_loop ls min_leg)"

text \<open>Without a measured leg the first one is taken; without legs the function fails.\<close>

definition conflux_pick_first_leg :: "conflux_t \<Rightarrow> conflux_t \<times> bool" where
  "conflux_pick_first_leg cfx =
     (case (case first_leg_loop (legs cfx) None of Some l \<Rightarrow> Some l | None \<Rightarrow> smartlist_get (legs cfx) 0) of
        None \<Rightarrow> (cfx, False)
      | Some l \<Rightarrow> (cfx\<lparr>cells_until_switch := 0, curr_leg := Some (leg_circ l)\<rparr>, True))"

definition conflux_decide_next_circ ::
  "conflux_params_cache \<Rightarrow> (circ_id \<Rightarrow> circuit_t) \<Rightarrow> conflux_t \<Rightarrow> (conflux_t \<times> circ_id option) option" where
  "conflux_decide_next_circ p circs cfx =
     (if in_full_teardown cfx then Some (cfx, None)
      else let (cfx, ok) = (if curr_leg cfx = None then conflux_pick_first_leg cfx else (cfx, True))
      in if \<not> ok then Some (cfx, None)
      else do {
        sw \<leftarrow> conflux_can_switch p circs cfx;
        if \<not> sw
        then (case curr_leg cfx of
                None \<Rightarrow> None
              | Some c \<Rightarrow> do {
                  ready \<leftarrow> circuit_ready_to_send (circs c);
                  Some (cfx, if ready then Some c else None)
                })
        else do {
          c \<leftarrow> (case alg cfx of
                 CONFLUX_ALG_MINRTT \<Rightarrow> conflux_decide_circ_minrtt circs cfx
               | CONFLUX_ALG_LOWRTT \<Rightarrow> conflux_decide_circ_lowrtt circs cfx
               | CONFLUX_ALG_CWNDRTT \<Rightarrow> conflux_decide_circ_cwndrtt circs cfx);
          Some (cfx, c)
        }
      })"

section \<open>Sending\<close>

text \<open>
  The switch to a new leg.  \<open>sent\<close> is the outcome of the send call.  The legs that the two
  pointers refer to must be in the set; the code dereferences both.
\<close>

definition conflux_switch_leg ::
  "bool \<Rightarrow> (circ_id \<Rightarrow> circuit_t) \<Rightarrow> conflux_t \<Rightarrow> circ_id \<Rightarrow> circ_id \<Rightarrow>
   (conflux_t \<times> circ_id option \<times> action list) option" where
  "conflux_switch_leg sent circs cfx old_circ new_circ = do {
     let cfx = cfx\<lparr>cells_until_switch := 0, prev_leg := Some old_circ, curr_leg := Some new_circ\<rparr>;
     tor_assert (legs cfx \<noteq> []);
     prev \<leftarrow> conflux_get_leg cfx old_circ;
     new \<leftarrow> conflux_get_leg cfx new_circ;
     let close = Mark_all_for_close (cfx_nonce cfx) (is_origin (circs new_circ)) END_CIRC_REASON_TORPROTOCOL;
     if last_seq_sent new > last_seq_sent prev then Some (cfx, None, [close])
     else do {
       let relative_seq = last_seq_sent prev - last_seq_sent new;
       let (ok, acts) = conflux_send_switch_command sent new_circ (circs new_circ) relative_seq;
       if \<not> ok then Some (cfx, None, acts @ [close])
       else Some (cfx\<lparr>legs := update_leg new_circ (\<lambda>l. l\<lparr>last_seq_sent := last_seq_sent prev\<rparr>) (legs cfx)\<rparr>,
                  Some new_circ, acts)
     }
   }"

definition conflux_decide_circ_for_send ::
  "conflux_params_cache \<Rightarrow> bool \<Rightarrow> (circ_id \<Rightarrow> circuit_t) \<Rightarrow> conflux_t \<Rightarrow> circ_id \<Rightarrow> int \<Rightarrow>
   (conflux_t \<times> circ_id option \<times> action list) option" where
  "conflux_decide_circ_for_send p sent circs cfx orig_circ relay_command =
     (if \<not> conflux_should_multiplex relay_command then Some (cfx, Some orig_circ, [])
      else do {
        (cfx, new_circ) \<leftarrow> conflux_decide_next_circ p circs cfx;
        (case new_circ of
           None \<Rightarrow> Some (cfx, if relay_command \<noteq> RELAY_COMMAND_DATA then curr_leg cfx else None, [])
         | Some c \<Rightarrow>
             (case curr_leg cfx of
                None \<Rightarrow> None
              | Some old \<Rightarrow>
                  (if c \<noteq> old then conflux_switch_leg sent circs cfx old c
                   else Some (cfx, Some c, []))))
      })"

definition conflux_note_cell_sent :: "conflux_t \<Rightarrow> circ_id \<Rightarrow> int \<Rightarrow> conflux_t" where
  "conflux_note_cell_sent cfx circ relay_command =
     (if \<not> conflux_should_multiplex relay_command then cfx
      else case conflux_get_leg cfx circ of
             None \<Rightarrow> cfx
           | Some _ \<Rightarrow>
               cfx\<lparr>legs := update_leg circ (\<lambda>l. l\<lparr>last_seq_sent := last_seq_sent l + 1\<rparr>) (legs cfx),
                   cells_until_switch :=
                     (if cells_until_switch cfx > 0 then cells_until_switch cfx - 1 else cells_until_switch cfx)\<rparr>)"

definition conflux_update_rtt :: "conflux_t \<Rightarrow> circ_id \<Rightarrow> u64 \<Rightarrow> conflux_t" where
  "conflux_update_rtt cfx circ rtt_usec =
     (case conflux_get_leg cfx circ of
        None \<Rightarrow> cfx
      | Some _ \<Rightarrow> cfx\<lparr>legs := update_leg circ (\<lambda>l. l\<lparr>circ_rtts_usec := rtt_usec\<rparr>) (legs cfx)\<rparr>)"

section \<open>Receiving\<close>

text \<open>
  \<^verbatim>\<open>sizeof(conflux_msg_t)\<close> is 24 and \<^verbatim>\<open>sizeof(relay_msg_t)\<close> is 16 on a 64-bit target.
\<close>

definition conflux_msg_alloc_cost :: "conflux_msg_t \<Rightarrow> u64" where
  "conflux_msg_alloc_cost m = ucast (rm_length (msg m)) + 24 + 16"

definition conflux_queue_cmp :: "conflux_msg_t \<Rightarrow> conflux_msg_t \<Rightarrow> int" where
  "conflux_queue_cmp a b = (if seq a < seq b then - 1 else if seq a > seq b then 1 else 0)"

abbreviation "msg_set_idx \<equiv> \<lambda>i m. m\<lparr>heap_idx := i\<rparr>"
abbreviation "ooo_add \<equiv> smartlist_pqueue_add conflux_queue_cmp msg_set_idx"
abbreviation "ooo_pop \<equiv> smartlist_pqueue_pop conflux_queue_cmp msg_set_idx"

definition conflux_get_destination_hop :: "circuit_t \<Rightarrow> nat option" where
  "conflux_get_destination_hop circ = (if is_origin circ then map_option cp_id (cpath_last circ) else None)"

definition conflux_validate_source_hop :: "circuit_t \<Rightarrow> nat option \<Rightarrow> bool" where
  "conflux_validate_source_hop in_circ layer_hint =
     (if conflux_get_destination_hop in_circ \<noteq> layer_hint then False
      else if layer_hint = None \<and> has_n_chan in_circ then False
      else True)"

text \<open>
  \<open>enabled\<close> is the result of \<^verbatim>\<open>conflux_is_enabled(in_circ)\<close> and \<open>cfx\<close> the object that
  \<^verbatim>\<open>in_circ->conflux\<close> points to.
\<close>

definition conflux_process_switch_command ::
  "bool \<Rightarrow> conflux_t option \<Rightarrow> circ_id \<Rightarrow> circuit_t \<Rightarrow> nat option \<Rightarrow> relay_msg_t \<Rightarrow>
   conflux_t option \<times> int \<times> action list" where
  "conflux_process_switch_command enabled cfx c in_circ layer_hint m =
     (if \<not> enabled then (cfx, - 1, [Mark_for_close c END_CIRC_REASON_TORPROTOCOL])
      else case cfx of
        None \<Rightarrow> (cfx, - 1, [Mark_for_close c END_CIRC_REASON_TORPROTOCOL])
      | Some x \<Rightarrow>
          (case conflux_get_leg x c of
             None \<Rightarrow> (cfx, - 1, [Mark_for_close c END_CIRC_REASON_INTERNAL])
           | Some _ \<Rightarrow>
               (if \<not> conflux_validate_source_hop in_circ layer_hint
                then (cfx, - 1, [Mark_for_close c END_CIRC_REASON_TORPROTOCOL])
                else let relative_seq = conflux_cell_parse_switch m;
                         x = x\<lparr>legs := update_leg c (\<lambda>l. l\<lparr>last_seq_recv := last_seq_recv l + ucast relative_seq\<rparr>) (legs x)\<rparr>
                     in (Some x, 0, if is_origin in_circ then [Read_valid_data c (unat (rm_length m))] else []))))"

text \<open>
  \<open>tot\<close> is the global \<^verbatim>\<open>total_ooo_q_bytes\<close>.  The result is true when the message itself is
  next in order.
\<close>

definition conflux_process_relay_msg ::
  "conflux_params_cache \<Rightarrow> u64 \<Rightarrow> conflux_t \<Rightarrow> circ_id \<Rightarrow> circuit_t \<Rightarrow> nat option \<Rightarrow> relay_msg_t \<Rightarrow>
   u64 \<times> conflux_t \<times> bool \<times> action list" where
  "conflux_process_relay_msg p tot cfx c in_circ layer_hint m =
     (case conflux_get_leg cfx c of
        None \<Rightarrow> (tot, cfx, False, [Mark_for_close c END_CIRC_REASON_INTERNAL])
      | Some leg \<Rightarrow>
          (if \<not> conflux_validate_source_hop in_circ layer_hint
           then (tot, cfx, False, [Mark_for_close c END_CIRC_REASON_TORPROTOCOL])
           else let s = last_seq_recv leg + 1;
                    cfx = cfx\<lparr>legs := update_leg c (\<lambda>l. l\<lparr>last_seq_recv := s\<rparr>) (legs cfx)\<rparr>
           in if s = last_seq_delivered cfx + 1
              then (tot, cfx\<lparr>last_seq_delivered := last_seq_delivered cfx + 1\<rparr>, True, [])
              else if s \<le> last_seq_delivered cfx
              then (tot, cfx, False, [Mark_for_close c END_CIRC_REASON_INTERNAL])
              else if ooo_q_alloc_cost cfx \<ge> ucast (conflux_params_get_max_oooq p)
              then (tot, cfx, False, [Mark_for_close c END_CIRC_REASON_RESOURCELIMIT])
              else let c_msg = \<lparr>seq = s, heap_idx = 0, msg = m\<rparr>;
                       cost = conflux_msg_alloc_cost c_msg
                   in (tot + cost,
                       cfx\<lparr>ooo_q := ooo_add (ooo_q cfx) c_msg, ooo_q_alloc_cost := ooo_q_alloc_cost cfx + cost\<rparr>,
                       False, [])))"

text \<open>
  \<open>marked\<close> is \<^verbatim>\<open>circ->marked_for_close\<close>.  The queue of a set is never NULL, so that test of the
  code has no counterpart here.
\<close>

definition conflux_dequeue_relay_msg ::
  "bool \<Rightarrow> u64 \<Rightarrow> conflux_t option \<Rightarrow> (u64 \<times> conflux_t option \<times> conflux_msg_t option) option" where
  "conflux_dequeue_relay_msg marked tot cfx =
     (if marked then Some (tot, cfx, None)
      else case cfx of
        None \<Rightarrow> Some (tot, cfx, None)
      | Some x \<Rightarrow>
          (case smartlist_get (ooo_q x) 0 of
             None \<Rightarrow> Some (tot, cfx, None)
           | Some t \<Rightarrow>
               (if seq t = last_seq_delivered x + 1
                then do {
                  (popped, q) \<leftarrow> ooo_pop (ooo_q x);
                  let cost = conflux_msg_alloc_cost t;
                  Some (tot - cost,
                        Some (x\<lparr>ooo_q := q, ooo_q_alloc_cost := ooo_q_alloc_cost x - cost,
                                last_seq_delivered := last_seq_delivered x + 1\<rparr>),
                        Some popped)
                }
                else Some (tot, cfx, None))))"

section \<open>Memory accounting\<close>

definition conflux_get_circ_bytes_allocation :: "conflux_t option \<Rightarrow> u64" where
  "conflux_get_circ_bytes_allocation cfx =
     (case cfx of None \<Rightarrow> 0 | Some x \<Rightarrow> of_nat (length (ooo_q x)) * 8 + ooo_q_alloc_cost x)"

definition conflux_get_total_bytes_allocation :: "u64 \<Rightarrow> u64" where
  "conflux_get_total_bytes_allocation tot = tot"

definition conflux_handle_oom :: "u64 \<Rightarrow> u64" where
  "conflux_handle_oom bytes_to_remove = 0"

definition conflux_clear_ooo_q :: "u64 \<Rightarrow> conflux_t \<Rightarrow> u64 \<times> conflux_t" where
  "conflux_clear_ooo_q tot cfx =
     (foldl (\<lambda>t m. let cost = conflux_msg_alloc_cost m in if cost > t then 0 else t - cost) tot (ooo_q cfx),
      cfx\<lparr>ooo_q := []\<rparr>)"

section \<open>The out-of-order queue is a priority queue on sequence numbers\<close>

text \<open>What a queued message is, apart from its place in the heap.\<close>

abbreviation "msg_strip \<equiv> \<lambda>m :: conflux_msg_t. (seq m, msg m)"

interpretation ooo: heap_elem conflux_queue_cmp heap_idx msg_set_idx msg_strip seq
  by unfold_locales (auto simp: conflux_queue_cmp_def)

lemma length_heapify [simp]: "length (smartlist_heapify cmp si xs i) = length xs"
proof (induction cmp si xs i rule: smartlist_heapify.induct)
  case (1 cmp si xs i)
  then show ?case by (subst smartlist_heapify.simps) simp
qed

lemma length_ooo_pop: "ooo_pop q = Some (x, q') \<Longrightarrow> length q' < length q"
  by (auto simp: smartlist_pqueue_pop_def Let_def UPDATE_IDX_def split: if_splits)

section \<open>Delivering what is in order\<close>

text \<open>
  The multiplexed branch of \<^verbatim>\<open>connection_edge_process_relay_cell\<close> (\<^verbatim>\<open>core/or/relay.c\<close>): a
  message that is next in order is handled, then the queue is emptied as far as it is in order.
  \<open>ok m\<close> says whether the stream layer accepted the message (returned a non-negative value);
  a failure ends the processing.  The result lists the messages handed to the stream layer.
  A message whose handling closes the circuit counts as a failure here: the queue of a circuit that
  is marked for close is not emptied further (\<^verbatim>\<open>conflux_dequeue_relay_msg\<close> returns NULL for it).
\<close>

function conflux_drain ::
  "(relay_msg_t \<Rightarrow> bool) \<Rightarrow> u64 \<Rightarrow> conflux_t \<Rightarrow> u64 \<times> conflux_t \<times> relay_msg_t list \<times> bool" where
  "conflux_drain ok tot cfx =
     (case conflux_dequeue_relay_msg False tot (Some cfx) of
        Some (tot', Some cfx', Some m) \<Rightarrow>
          (if ok (msg m)
           then (let (tot'', cfx'', ms, r) = conflux_drain ok tot' cfx' in (tot'', cfx'', msg m # ms, r))
           else (tot', cfx', [msg m], False))
      | _ \<Rightarrow> (tot, cfx, [], True))"
  by pat_completeness auto
termination
  by (relation "measure (\<lambda>(ok, tot, cfx). length (ooo_q cfx))")
     (auto simp: conflux_dequeue_relay_msg_def bind_eq_Some_iff Let_def length_ooo_pop
       split: option.splits if_splits)

declare conflux_drain.simps [simp del]

definition conflux_receive ::
  "(relay_msg_t \<Rightarrow> bool) \<Rightarrow> conflux_params_cache \<Rightarrow> u64 \<Rightarrow> conflux_t \<Rightarrow> circ_id \<Rightarrow> circuit_t \<Rightarrow> nat option \<Rightarrow>
   relay_msg_t \<Rightarrow> u64 \<times> conflux_t \<times> relay_msg_t list \<times> bool \<times> action list" where
  "conflux_receive ok p tot cfx c in_circ layer_hint m =
     (let (tot, cfx, in_order, acts) = conflux_process_relay_msg p tot cfx c in_circ layer_hint m
      in if \<not> in_order then (tot, cfx, [], True, acts)
         else if \<not> ok m then (tot, cfx, [m], False, acts)
         else let (tot, cfx, ms, r) = conflux_drain ok tot cfx in (tot, cfx, m # ms, r, acts))"

end
