(* ===== verification/ConfluxSend.thy ===== *)
theory ConfluxSend
  imports Conflux
begin

text \<open>
  The sending half of a conflux set: every scheduling algorithm picks a leg of the set, and
  whatever it picks, the sequence numbers of the legs stay coherent: a SWITCH carries exactly
  the number of messages the new leg has missed.
\<close>

section \<open>Legs\<close>

definition leg_ids :: "conflux_t \<Rightarrow> circ_id list" where
  "leg_ids cfx = map leg_circ (legs cfx)"

lemma map_update_leg: "(\<And>l. g (f l) = g l) \<Longrightarrow> map g (update_leg c f ls) = map g ls"
  by (induction ls) auto

lemma find_update_leg:
  "(\<And>l. leg_circ (f l) = leg_circ l) \<Longrightarrow>
   find (\<lambda>l. leg_circ l = c') (update_leg c f ls) =
     (if c' = c then map_option f (find (\<lambda>l. leg_circ l = c) ls) else find (\<lambda>l. leg_circ l = c') ls)"
  by (induction ls) auto

lemma get_leg_update [simp]:
  "(\<And>l. leg_circ (f l) = leg_circ l) \<Longrightarrow>
   conflux_get_leg (cfx\<lparr>legs := update_leg c f (legs cfx)\<rparr>) c' =
     (if c' = c then map_option f (conflux_get_leg cfx c) else conflux_get_leg cfx c')"
  by (simp add: conflux_get_leg_def find_update_leg)

lemma leg_ids_update [simp]:
  "(\<And>l. leg_circ (f l) = leg_circ l) \<Longrightarrow> leg_ids (cfx\<lparr>legs := update_leg c f (legs cfx)\<rparr>) = leg_ids cfx"
  by (simp add: leg_ids_def map_update_leg)

lemma get_leg_Some_iff: "(\<exists>l. conflux_get_leg cfx c = Some l) = (c \<in> set (leg_ids cfx))"
  by (auto simp: conflux_get_leg_def leg_ids_def find_Some_iff2 dest: find_Some_iff)
     (metis (mono_tags, lifting) find_None_iff2 image_eqI not_None_eq)

lemma get_leg_cong:
  "legs cfx' = legs cfx \<Longrightarrow> conflux_get_leg cfx' c = conflux_get_leg cfx c"
  by (simp add: conflux_get_leg_def)

lemma leg_ids_cong: "legs cfx' = legs cfx \<Longrightarrow> leg_ids cfx' = leg_ids cfx"
  by (simp add: leg_ids_def)

lemma get_leg_frame [simp]:
  "conflux_get_leg (cfx\<lparr>cells_until_switch := a\<rparr>) c = conflux_get_leg cfx c"
  "conflux_get_leg (cfx\<lparr>curr_leg := x\<rparr>) c = conflux_get_leg cfx c"
  "conflux_get_leg (cfx\<lparr>prev_leg := x\<rparr>) c = conflux_get_leg cfx c"
  "conflux_get_leg (cfx\<lparr>last_seq_delivered := a\<rparr>) c = conflux_get_leg cfx c"
  "conflux_get_leg (cfx\<lparr>ooo_q := q\<rparr>) c = conflux_get_leg cfx c"
  "conflux_get_leg (cfx\<lparr>ooo_q_alloc_cost := a\<rparr>) c = conflux_get_leg cfx c"
  by (simp_all add: conflux_get_leg_def)

lemma leg_ids_frame [simp]:
  "leg_ids (cfx\<lparr>cells_until_switch := a\<rparr>) = leg_ids cfx"
  "leg_ids (cfx\<lparr>curr_leg := x\<rparr>) = leg_ids cfx"
  "leg_ids (cfx\<lparr>prev_leg := x\<rparr>) = leg_ids cfx"
  "leg_ids (cfx\<lparr>last_seq_delivered := a\<rparr>) = leg_ids cfx"
  "leg_ids (cfx\<lparr>ooo_q := q\<rparr>) = leg_ids cfx"
  "leg_ids (cfx\<lparr>ooo_q_alloc_cost := a\<rparr>) = leg_ids cfx"
  by (simp_all add: leg_ids_def)

lemma get_leg_circ: "conflux_get_leg cfx c = Some l \<Longrightarrow> leg_circ l = c \<and> l \<in> set (legs cfx)"
  unfolding conflux_get_leg_def using find_Some_iff by fastforce

section \<open>The scheduler picks legs of the set\<close>

lemma min_rtt_leg_mem:
  "snd (min_rtt_leg ls m best) = Some l \<Longrightarrow> l \<in> set ls \<or> best = Some l"
  by (induction ls m best rule: min_rtt_leg.induct) (auto split: if_splits)

lemma lowrtt_loop_mem:
  "lowrtt_loop circs ls m best = Some (Some c) \<Longrightarrow> c \<in> leg_circ ` set ls \<or> best = Some c"
proof (induction ls arbitrary: m best)
  case (Cons l ls)
  then show ?case by (fastforce simp: bind_eq_Some_iff split: if_splits)
qed simp

lemma cwndrtt_loop_mem:
  "cwndrtt_loop circs m ls best = Some (Some l) \<Longrightarrow> l \<in> set ls \<or> best = Some l"
proof (induction ls arbitrary: best)
  case (Cons x ls)
  then show ?case by (fastforce simp: bind_eq_Some_iff split: if_splits)
qed simp

lemma decide_minrtt_mem: "conflux_decide_circ_minrtt circs cfx = Some (Some c) \<Longrightarrow> c \<in> set (leg_ids cfx)"
  using min_rtt_leg_mem [of "legs cfx" UINT64_MAX None]
  by (auto simp: conflux_decide_circ_minrtt_def bind_eq_Some_iff leg_ids_def split: option.splits if_splits)

lemma decide_lowrtt_mem: "conflux_decide_circ_lowrtt circs cfx = Some (Some c) \<Longrightarrow> c \<in> set (leg_ids cfx)"
  using lowrtt_loop_mem [of circs "legs cfx" UINT64_MAX None]
  by (auto simp: conflux_decide_circ_lowrtt_def bind_eq_Some_iff leg_ids_def)

lemma decide_cwndrtt_mem: "conflux_decide_circ_cwndrtt circs cfx = Some (Some c) \<Longrightarrow> c \<in> set (leg_ids cfx)"
  using min_rtt_leg_mem [of "legs cfx" UINT64_MAX None] cwndrtt_loop_mem [of circs _ "legs cfx" None]
  by (cases "min_rtt_leg (legs cfx) UINT64_MAX None")
     (fastforce simp: conflux_decide_circ_cwndrtt_def bind_eq_Some_iff leg_ids_def split: option.splits if_splits)

lemma first_leg_loop_mem: "first_leg_loop ls m = Some l \<Longrightarrow> l \<in> set ls \<or> m = Some l"
  by (induction ls m rule: first_leg_loop.induct) (auto split: if_splits option.splits)

lemma pick_first_leg_cases:
  assumes "conflux_pick_first_leg cfx = (cfx', ok)"
  shows "if ok then \<exists>c\<in>set (leg_ids cfx). cfx' = cfx\<lparr>cells_until_switch := 0, curr_leg := Some c\<rparr>
         else cfx' = cfx"
  using assms first_leg_loop_mem [of "legs cfx" None]
  by (auto simp: conflux_pick_first_leg_def smartlist_get_def leg_ids_def split: option.splits if_splits)

lemma decide_next_circ_cases:
  assumes "conflux_decide_next_circ p circs cfx = Some (cfx', r)"
  shows "(cfx' = cfx \<or> curr_leg cfx = None \<and>
            (\<exists>c\<in>set (leg_ids cfx). cfx' = cfx\<lparr>cells_until_switch := 0, curr_leg := Some c\<rparr>))
         \<and> (\<forall>c. r = Some c \<longrightarrow> curr_leg cfx' \<noteq> None \<and> (c \<in> set (leg_ids cfx) \<or> curr_leg cfx' = Some c))"
proof (cases "in_full_teardown cfx")
  case True
  then show ?thesis using assms by (simp add: conflux_decide_next_circ_def)
next
  case False
  obtain cfx1 ok where pick: "(if curr_leg cfx = None then conflux_pick_first_leg cfx else (cfx, True)) = (cfx1, ok)"
    by fastforce
  have c1: "cfx1 = cfx \<or> curr_leg cfx = None \<and>
      (\<exists>c\<in>set (leg_ids cfx). cfx1 = cfx\<lparr>cells_until_switch := 0, curr_leg := Some c\<rparr>)"
    using pick pick_first_leg_cases [of cfx cfx1 ok] by (auto split: if_splits)
  have ok: "ok \<Longrightarrow> curr_leg cfx1 \<noteq> None"
    using pick pick_first_leg_cases [of cfx cfx1 ok] by (auto split: if_splits)
  have ids: "set (leg_ids cfx1) = set (leg_ids cfx)" using c1 by (auto simp: leg_ids_def)
  have "cfx' = cfx1 \<and> (\<forall>c. r = Some c \<longrightarrow> ok \<and> (c \<in> set (leg_ids cfx1) \<or> curr_leg cfx1 = Some c))"
    using assms False pick decide_minrtt_mem [of circs cfx1] decide_lowrtt_mem [of circs cfx1]
      decide_cwndrtt_mem [of circs cfx1]
    by (auto simp: conflux_decide_next_circ_def bind_eq_Some_iff split: if_splits option.splits conflux_alg_t.splits)
  with c1 ok ids show ?thesis by auto
qed

section \<open>The sender\<close>

text \<open>
  After \<open>n\<close> multiplexed messages the current leg has sequence number \<open>n\<close> and no leg is ahead
  of it.
\<close>

definition sender_inv :: "nat \<Rightarrow> conflux_t \<Rightarrow> bool" where
  "sender_inv n cfx =
     (distinct (leg_ids cfx)
      \<and> (\<forall>c l. conflux_get_leg cfx c = Some l \<longrightarrow> unat (last_seq_sent l) \<le> n)
      \<and> (case curr_leg cfx of
           None \<Rightarrow> n = 0
         | Some c \<Rightarrow> \<exists>l. conflux_get_leg cfx c = Some l \<and> unat (last_seq_sent l) = n))"

lemma sender_inv_frame:
  "sender_inv n cfx \<Longrightarrow> legs cfx' = legs cfx \<Longrightarrow> curr_leg cfx' = curr_leg cfx \<Longrightarrow> sender_inv n cfx'"
  by (auto simp: sender_inv_def leg_ids_cong [of cfx' cfx] get_leg_cong [of cfx' cfx] split: option.splits)

lemma sender_inv_next:
  assumes "sender_inv n cfx" and "conflux_decide_next_circ p circs cfx = Some (cfx', r)"
  shows "sender_inv n cfx' \<and> legs cfx' = legs cfx"
proof -
  note c = decide_next_circ_cases [OF assms(2)]
  show ?thesis
  proof (cases "cfx' = cfx")
    case True
    then show ?thesis using assms(1) by simp
  next
    case False
    with c obtain k where k: "curr_leg cfx = None" "k \<in> set (leg_ids cfx)"
      "cfx' = cfx\<lparr>cells_until_switch := 0, curr_leg := Some k\<rparr>" by blast
    then obtain l where l: "conflux_get_leg cfx k = Some l" using get_leg_Some_iff [of cfx k] by blast
    have "unat (last_seq_sent l) \<le> n" "n = 0" using assms(1) l k(1) by (auto simp: sender_inv_def)
    then show ?thesis using assms(1) k l by (simp add: sender_inv_def)
  qed
qed

text \<open>The messages a list of actions puts on the wire.\<close>

definition wire_msg :: "int \<Rightarrow> u8 list \<Rightarrow> relay_msg_t" where
  "wire_msg cmd payload = \<lparr>rm_command = cmd, rm_length = of_nat (length payload), rm_stream_id = 0,
     rm_is_relay_early = False, rm_body = payload\<rparr>"

fun wires :: "action list \<Rightarrow> relay_msg_t list" where
  "wires [] = []"
| "wires (Relay_send c cmd payload hop # as) = wire_msg cmd payload # wires as"
| "wires (_ # as) = wires as"

lemma switch_wire:
  assumes "conflux_send_switch_command True c circ rel = (True, acts)"
  shows "\<exists>w. wires acts = [w] \<and> rm_command w = RELAY_COMMAND_CONFLUX_SWITCH \<and>
           ucast (conflux_cell_parse_switch w) = rel \<and> acts \<noteq> []"
proof -
  have small: "rel < 4294967295"
    using assms by (auto simp: conflux_send_switch_command_def split: if_splits)
  define payload where "payload = be_encode 4 (unat (ucast rel :: u32))"
  define w where "w = wire_msg RELAY_COMMAND_CONFLUX_SWITCH payload"
  have acts: "acts = [Relay_send c RELAY_COMMAND_CONFLUX_SWITCH payload (last_hop_id circ)]"
    using assms switch_command_payload [OF small] by (simp add: payload_def del: be_encode.simps)
  have "length payload = 4" by (simp add: payload_def del: be_encode.simps)
  then have "msg_payload w = payload" by (simp add: w_def wire_msg_def msg_payload_def)
  then have "ucast (conflux_cell_parse_switch w) = rel"
    using switch_relative_seq_exact [of c circ rel RELAY_COMMAND_CONFLUX_SWITCH payload "last_hop_id circ" w]
      assms acts by simp
  then show ?thesis by (simp add: acts w_def wire_msg_def)
qed

text \<open>
  One send: either on the current leg, with nothing extra on the wire, or on another leg after a
  SWITCH that carries exactly the number of messages the new leg has missed.
\<close>

lemma switch_leg_sends:
  assumes inv: "sender_inv n cfx" and old: "curr_leg cfx = Some old" and ne: "c \<noteq> old"
    and mem: "c \<in> set (leg_ids cfx)"
    and sw: "conflux_switch_leg True circs cfx old c = Some (cfx', Some k, acts)"
  shows "k = c \<and> leg_ids cfx' = leg_ids cfx \<and> curr_leg cfx' = Some c \<and>
    (\<exists>l. conflux_get_leg cfx c = Some l \<and>
       (\<forall>c'. conflux_get_leg cfx' c' =
          (if c' = c then Some (l\<lparr>last_seq_sent := of_nat n\<rparr>) else conflux_get_leg cfx c')) \<and>
       (\<exists>w. wires acts = [w] \<and> rm_command w = RELAY_COMMAND_CONFLUX_SWITCH \<and>
            unat (conflux_cell_parse_switch w) = n - unat (last_seq_sent l)))"
proof -
  obtain lo where lo: "conflux_get_leg cfx old = Some lo" "unat (last_seq_sent lo) = n"
    using inv old by (auto simp: sender_inv_def)
  obtain l where l: "conflux_get_leg cfx c = Some l" using mem get_leg_Some_iff [of cfx c] by blast
  have le: "unat (last_seq_sent l) \<le> n" using inv l by (auto simp: sender_inv_def)
  then have nlt: "\<not> last_seq_sent l > last_seq_sent lo" using lo by (simp add: word_less_nat_alt)
  define cfx1 where "cfx1 = cfx\<lparr>cells_until_switch := 0, prev_leg := Some old, curr_leg := Some c\<rparr>"
  obtain ok as where s: "conflux_send_switch_command True c (circs c) (last_seq_sent lo - last_seq_sent l) = (ok, as)"
    by fastforce
  have r: "ok" "k = c" "acts = as"
    "cfx' = cfx1\<lparr>legs := update_leg c (\<lambda>x. x\<lparr>last_seq_sent := last_seq_sent lo\<rparr>) (legs cfx1)\<rparr>"
    using sw nlt lo l s
    by (auto simp: conflux_switch_leg_def cfx1_def bind_eq_Some_iff Let_def split: if_splits)
  obtain w where w: "wires as = [w]" "rm_command w = RELAY_COMMAND_CONFLUX_SWITCH"
    "ucast (conflux_cell_parse_switch w) = last_seq_sent lo - last_seq_sent l"
    using switch_wire [of c "circs c" "last_seq_sent lo - last_seq_sent l" as] s r(1) by auto
  have "unat (ucast (conflux_cell_parse_switch w) :: u64) = unat (conflux_cell_parse_switch w)" by simp
  then have "unat (conflux_cell_parse_switch w) = unat (last_seq_sent lo - last_seq_sent l)"
    using w(3) by simp
  also have "\<dots> = n - unat (last_seq_sent l)"
    using le lo(2) by (simp add: unat_sub_nowrap)
  finally have rel: "unat (conflux_cell_parse_switch w) = n - unat (last_seq_sent l)" .
  have eq: "last_seq_sent lo = of_nat n" using lo(2) by (metis of_nat_unat ucast_id)
  have "conflux_get_leg cfx' c' = (if c' = c then Some (l\<lparr>last_seq_sent := of_nat n\<rparr>) else conflux_get_leg cfx c')" for c'
    using l by (simp add: r(4) eq) (simp add: cfx1_def)
  moreover have "leg_ids cfx' = leg_ids cfx" by (simp add: r(4)) (simp add: cfx1_def)
  moreover have "curr_leg cfx' = Some c" by (simp add: r(4) cfx1_def)
  ultimately show ?thesis using r w rel l by blast
qed

lemma decide_for_send_sends:
  assumes inv: "sender_inv n cfx" and mux: "conflux_should_multiplex cmd"
    and dec: "conflux_decide_circ_for_send p True circs cfx orig cmd = Some (cfx', Some c, acts)"
  shows "sender_inv n cfx' \<and> curr_leg cfx' = Some c \<and> leg_ids cfx' = leg_ids cfx \<and>
    (\<exists>l. conflux_get_leg cfx c = Some l \<and>
       (\<forall>c'. conflux_get_leg cfx' c' =
          (if c' = c then Some (l\<lparr>last_seq_sent := of_nat n\<rparr>) else conflux_get_leg cfx c')) \<and>
       (wires acts = [] \<and> unat (last_seq_sent l) = n \<or>
        (\<exists>w. wires acts = [w] \<and> rm_command w = RELAY_COMMAND_CONFLUX_SWITCH \<and>
            unat (conflux_cell_parse_switch w) = n - unat (last_seq_sent l))))"
proof -
  obtain cfx1 r where nx: "conflux_decide_next_circ p circs cfx = Some (cfx1, r)"
    using dec mux by (auto simp: conflux_decide_circ_for_send_def bind_eq_Some_iff)
  have i1: "sender_inv n cfx1" and l1: "legs cfx1 = legs cfx"
    using sender_inv_next [OF inv nx] by auto
  then have ids1: "leg_ids cfx1 = leg_ids cfx" by (simp add: leg_ids_def)
  have g1: "conflux_get_leg cfx1 k = conflux_get_leg cfx k" for k by (rule get_leg_cong [OF l1])
  consider (same) "cfx' = cfx1" "acts = []" "curr_leg cfx1 = Some c"
    | (switch) old where "r = Some c" "curr_leg cfx1 = Some old" "c \<noteq> old"
        "conflux_switch_leg True circs cfx1 old c = Some (cfx', Some c, acts)"
  proof (cases r)
    case None
    then show ?thesis using dec mux nx same
      by (auto simp: conflux_decide_circ_for_send_def split: if_splits)
  next
    case (Some d)
    obtain old where old: "curr_leg cfx1 = Some old"
      using decide_next_circ_cases [OF nx] Some by auto
    show ?thesis
    proof (cases "d = old")
      case True
      then show ?thesis using dec mux nx Some old same by (simp add: conflux_decide_circ_for_send_def)
    next
      case False
      then have sw: "conflux_switch_leg True circs cfx1 old d = Some (cfx', Some c, acts)"
        using dec mux nx Some old by (simp add: conflux_decide_circ_for_send_def)
      have "d \<in> set (leg_ids cfx1)" using decide_next_circ_cases [OF nx] Some old False ids1 by auto
      then have "c = d" using switch_leg_sends [OF i1 old False _ sw] by simp
      then show ?thesis using switch [of old] sw old False Some by simp
    qed
  qed
  then show ?thesis
  proof cases
    case same
    then obtain l where l: "conflux_get_leg cfx1 c = Some l" "unat (last_seq_sent l) = n"
      using i1 by (auto simp: sender_inv_def)
    then have "last_seq_sent l = of_nat n" by (metis of_nat_unat ucast_id)
    then have "l\<lparr>last_seq_sent := of_nat n\<rparr> = l" by simp
    then show ?thesis using same i1 ids1 l g1 by auto
  next
    case switch
    have "c \<in> set (leg_ids cfx1)"
      using decide_next_circ_cases [OF nx] switch ids1 by auto
    note s = switch_leg_sends [OF i1 switch(2,3) this switch(4)]
    then obtain l where l: "conflux_get_leg cfx1 c = Some l"
      and upd: "\<And>c'. conflux_get_leg cfx' c' =
          (if c' = c then Some (l\<lparr>last_seq_sent := of_nat n\<rparr>) else conflux_get_leg cfx1 c')" by blast
    have n: "unat (of_nat n :: u64) = n"
      using i1 switch(2) by (auto simp: sender_inv_def)
    have "sender_inv n cfx'"
      using i1 s upd n by (auto simp: sender_inv_def)
    then show ?thesis using s g1 ids1 by auto
  qed
qed

lemma note_cell_sent_inv:
  assumes "sender_inv n cfx" and "curr_leg cfx = Some c" and "conflux_should_multiplex cmd"
    and "conflux_get_leg cfx c = Some l" and "Suc n < 2 ^ 64"
  shows "sender_inv (Suc n) (conflux_note_cell_sent cfx c cmd) \<and>
    leg_ids (conflux_note_cell_sent cfx c cmd) = leg_ids cfx \<and>
    conflux_get_leg (conflux_note_cell_sent cfx c cmd) c' =
      (if c' = c then Some (l\<lparr>last_seq_sent := last_seq_sent l + 1\<rparr>) else conflux_get_leg cfx c') \<and>
    unat (last_seq_sent l + 1) = Suc n"
proof -
  have ln: "unat (last_seq_sent l) = n" using assms(1,2,4) by (auto simp: sender_inv_def)
  then have s: "unat (last_seq_sent l + 1) = Suc n" using assms(5) by (simp add: unat_Suc_nowrap)
  let ?u = "cfx\<lparr>legs := update_leg c (\<lambda>x. x\<lparr>last_seq_sent := last_seq_sent x + 1\<rparr>) (legs cfx)\<rparr>"
  let ?n = "conflux_note_cell_sent cfx c cmd"
  have lg: "legs ?n = legs ?u" "curr_leg ?n = curr_leg cfx"
    using assms(3,4) by (simp_all add: conflux_note_cell_sent_def)
  have g: "conflux_get_leg ?n k = (if k = c then Some (l\<lparr>last_seq_sent := last_seq_sent l + 1\<rparr>) else conflux_get_leg cfx k)" for k
    using get_leg_cong [OF lg(1), of k] assms(4) by simp
  have ids: "leg_ids ?n = leg_ids cfx" using lg(1) by (simp add: leg_ids_def map_update_leg)
  show ?thesis using assms(1,2) g ids lg s by (auto simp: sender_inv_def le_Suc_eq)
qed

end
