(* ===== verification/ConfluxReceive.thy ===== *)
theory ConfluxReceive
  imports ConfluxSend
begin

text \<open>
  The receiving half of a conflux set: the out-of-order queue keeps its memory account, a
  dequeue returns the message that is next in order whenever the queue holds it, and draining
  the queue delivers a stretch of consecutive messages and stops only where one is missing.
\<close>

section \<open>The queue as a bag of numbered messages\<close>

definition nset :: "conflux_msg_t list \<Rightarrow> (nat \<times> relay_msg_t) multiset" where
  "nset q = image_mset (\<lambda>m. (unat (seq m), msg m)) (mset q)"

definition msg_cost :: "relay_msg_t \<Rightarrow> nat" where
  "msg_cost m = unat (rm_length m) + 40"

definition q_cost :: "conflux_msg_t list \<Rightarrow> nat" where
  "q_cost q = (\<Sum>x\<in>#nset q. msg_cost (snd x))"

text \<open>
  The well-formedness of a queue: it is a heap, its account is the sum of what its messages
  cost, and the limit that \<^const>\<open>conflux_process_relay_msg\<close> enforces bounds it.
\<close>

definition q_wf :: "conflux_t \<Rightarrow> bool" where
  "q_wf r = (ooo.heap_invar (ooo_q r) \<and> unat (ooo_q_alloc_cost r) = q_cost (ooo_q r) \<and> q_cost (ooo_q r) < 2 ^ 33)"

lemma nset_strip: "nset q = image_mset (map_prod unat id) (image_mset msg_strip (mset q))"
  by (simp add: nset_def multiset.map_comp comp_def)

lemma nset_Nil [simp]: "nset [] = {#}"
  by (simp add: nset_def)

lemma size_nset [simp]: "size (nset q) = length q"
  by (simp add: nset_def)

lemma msg_cost_pos: "40 \<le> msg_cost m" "msg_cost m < 65576"
  using unat_u16_less [of "rm_length m"] by (simp_all add: msg_cost_def)

lemma unat_alloc_cost: "unat (conflux_msg_alloc_cost m) = msg_cost (msg m)"
proof -
  have "unat (ucast (rm_length (msg m)) + 24 + 16 :: u64) = unat (ucast (rm_length (msg m)) + 40 :: u64)"
    by (simp add: add.assoc)
  also have "\<dots> = unat (rm_length (msg m)) + 40"
    using unat_u16_less [of "rm_length (msg m)"] unat_add_nowrap [of "ucast (rm_length (msg m)) :: u64" 40]
    by simp
  finally show ?thesis by (simp add: conflux_msg_alloc_cost_def msg_cost_def)
qed

lemma sum_ge_size: "(\<And>x. x \<in># M \<Longrightarrow> k \<le> f x) \<Longrightarrow> k * size M \<le> (\<Sum>x\<in>#M. f x :: nat)"
proof (induction M)
  case (add x M)
  have "k * size M \<le> (\<Sum>x\<in>#M. f x)" using add by simp
  moreover have "k \<le> f x" using add.prems by simp
  ultimately show ?case by simp
qed simp

lemma q_wf_length: "q_wf r \<Longrightarrow> length (ooo_q r) \<le> 2147483647"
  using sum_ge_size [of "nset (ooo_q r)" 40 "\<lambda>x. msg_cost (snd x)"] msg_cost_pos
  by (simp add: q_wf_def q_cost_def)

lemma q_wf_empty: "ooo_q r = [] \<Longrightarrow> ooo_q_alloc_cost r = 0 \<Longrightarrow> q_wf r"
  by (simp add: q_wf_def q_cost_def ooo.heap_invar_Nil)

lemma q_wf_frame:
  "q_wf r \<Longrightarrow> ooo_q r' = ooo_q r \<Longrightarrow> ooo_q_alloc_cost r' = ooo_q_alloc_cost r \<Longrightarrow> q_wf r'"
  by (simp add: q_wf_def)

lemma nset_add: "ooo.heap_invar q \<Longrightarrow> nset (ooo_add q m) = add_mset (unat (seq m), msg m) (nset q)"
  by (simp add: nset_strip ooo.heap.mset_add)

lemma nset_pop:
  "q_wf r \<Longrightarrow> ooo_pop (ooo_q r) = Some (m, q') \<Longrightarrow> nset (ooo_q r) = add_mset (unat (seq m), msg m) (nset q')"
  using ooo.heap.mset_pop [of "ooo_q r" m q'] q_wf_length [of r] by (simp add: q_wf_def nset_strip)

section \<open>Taking from the queue\<close>

lemma dequeue_cases:
  assumes "q_wf r"
  obtains (stop) "conflux_dequeue_relay_msg False tot (Some r) = Some (tot, Some r, None)"
      "\<forall>x\<in>#nset (ooo_q r). unat (last_seq_delivered r) < fst x \<Longrightarrow>
       \<forall>x\<in>#nset (ooo_q r). fst x \<noteq> unat (last_seq_delivered r + 1)"
  | (pop) m q' where
      "conflux_dequeue_relay_msg False tot (Some r) =
         Some (tot - conflux_msg_alloc_cost m,
               Some (r\<lparr>ooo_q := q', ooo_q_alloc_cost := ooo_q_alloc_cost r - conflux_msg_alloc_cost m,
                       last_seq_delivered := last_seq_delivered r + 1\<rparr>), Some m)"
      "seq m = last_seq_delivered r + 1"
      "nset (ooo_q r) = add_mset (unat (seq m), msg m) (nset q')"
      "q_wf (r\<lparr>ooo_q := q', ooo_q_alloc_cost := ooo_q_alloc_cost r - conflux_msg_alloc_cost m,
                       last_seq_delivered := last_seq_delivered r + 1\<rparr>)"
proof (cases "ooo_q r")
  case Nil
  then show ?thesis by (intro stop) (simp_all add: conflux_dequeue_relay_msg_def smartlist_get_def)
next
  case (Cons t ts)
  have inv: "ooo.heap_invar (ooo_q r)" using assms by (simp add: q_wf_def)
  have top: "smartlist_get (ooo_q r) 0 = Some t" using Cons by (simp add: smartlist_get_def)
  have least: "seq t \<le> seq y" if "y \<in> set (ooo_q r)" for y
    using ooo.heap.hd_least [OF inv that] Cons by simp
  show ?thesis
  proof (cases "seq t = last_seq_delivered r + 1")
    case False
    show ?thesis
    proof (rule stop)
      show "conflux_dequeue_relay_msg False tot (Some r) = Some (tot, Some r, None)"
        using top False by (simp add: conflux_dequeue_relay_msg_def)
      assume gt: "\<forall>x\<in>#nset (ooo_q r). unat (last_seq_delivered r) < fst x"
      have "unat (last_seq_delivered r) < unat (seq t)"
        using gt Cons by (simp add: nset_def)
      moreover from this have "unat (last_seq_delivered r + 1) = Suc (unat (last_seq_delivered r))"
        using unat_u64_less [of "seq t"] by (intro unat_Suc_nowrap) simp
      moreover have "unat (last_seq_delivered r + 1) \<noteq> unat (seq t)" using False by (metis word_unat_eq_iff)
      ultimately have "unat (last_seq_delivered r + 1) < unat (seq t)" by simp
      then show "\<forall>x\<in>#nset (ooo_q r). fst x \<noteq> unat (last_seq_delivered r + 1)"
        using least by (fastforce simp: nset_def word_le_nat_alt)
    qed
  next
    case True
    obtain m q' where p: "ooo_pop (ooo_q r) = Some (m, q')"
      using ooo.heap.pop_Some [OF inv] Cons by auto
    have strip: "msg_strip m = msg_strip t" using ooo.heap.pop_hd [OF p] Cons by simp
    then have cost: "conflux_msg_alloc_cost t = conflux_msg_alloc_cost m" "seq m = seq t"
      by (simp_all add: conflux_msg_alloc_cost_def)
    have n: "nset (ooo_q r) = add_mset (unat (seq m), msg m) (nset q')" by (rule nset_pop [OF assms p])
    have qc: "q_cost (ooo_q r) = msg_cost (msg m) + q_cost q'" by (simp add: q_cost_def n)
    have "ooo.heap_invar q'" using ooo.heap.invar_pop [OF inv q_wf_length [OF assms] p] .
    moreover have "unat (ooo_q_alloc_cost r - conflux_msg_alloc_cost m) = q_cost q'"
      using assms qc by (subst unat_sub_nowrap) (simp_all add: q_wf_def unat_alloc_cost)
    ultimately have "q_wf (r\<lparr>ooo_q := q', ooo_q_alloc_cost := ooo_q_alloc_cost r - conflux_msg_alloc_cost m,
                       last_seq_delivered := last_seq_delivered r + 1\<rparr>)"
      using assms qc by (simp add: q_wf_def)
    with n show ?thesis
      using pop [of m q'] top True p cost by (simp add: conflux_dequeue_relay_msg_def Let_def)
  qed
qed

section \<open>Draining\<close>

lemma drain_spec:
  assumes "q_wf r" and "nset (ooo_q r) \<subseteq># mset (enumerate (Suc (unat (last_seq_delivered r))) rest)"
    and "unat (last_seq_delivered r) + length rest < 2 ^ 64 - 1"
    and "conflux_drain (\<lambda>_. True) tot r = (tot', r', ms, ok)"
  shows "ok \<and> (\<exists>rest'. rest = ms @ rest') \<and> q_wf r' \<and> legs r' = legs r
    \<and> unat (last_seq_delivered r') = unat (last_seq_delivered r) + length ms
    \<and> nset (ooo_q r) = nset (ooo_q r') + mset (enumerate (Suc (unat (last_seq_delivered r))) ms)
    \<and> Suc (unat (last_seq_delivered r')) \<notin> fst ` set_mset (nset (ooo_q r'))
    \<and> tot' - ooo_q_alloc_cost r' = tot - ooo_q_alloc_cost r"
  using assms
proof (induction "length (ooo_q r)" arbitrary: r tot rest tot' r' ms ok rule: less_induct)
  case less
  let ?D = "unat (last_seq_delivered r)"
  have S: "unat (last_seq_delivered r + 1) = Suc ?D" using less.prems(3) by (intro unat_Suc_nowrap) simp
  have ge: "Suc ?D \<le> fst x" if "x \<in># nset (ooo_q r)" for x
    using mset_subset_eqD [OF less.prems(2) that] by (auto simp: in_set_enumerate_eq)
  from less.prems(1) show ?case
  proof (cases rule: dequeue_cases [where tot = tot])
    case stop
    then have "tot' = tot \<and> r' = r \<and> ms = [] \<and> ok"
      using less.prems(4) by (simp add: conflux_drain.simps [of _ _ r])
    then show ?thesis using less.prems(1) stop(2) ge S by fastforce
  next
    case (pop m q')
    let ?r = "r\<lparr>ooo_q := q', ooo_q_alloc_cost := ooo_q_alloc_cost r - conflux_msg_alloc_cost m,
                       last_seq_delivered := last_seq_delivered r + 1\<rparr>"
    obtain ms' where d: "conflux_drain (\<lambda>_. True) (tot - conflux_msg_alloc_cost m) ?r = (tot', r', ms', ok)"
      and ms: "ms = msg m # ms'"
      using less.prems(4) pop(1)
      by (auto simp: conflux_drain.simps [of _ _ r] split: prod.splits)
    have first: "(Suc ?D, msg m) \<in> set (enumerate (Suc ?D) rest)"
      using less.prems(2) pop(2,3) S by (metis mset_subset_eq_insertD set_mset_mset)
    then obtain rest1 where rest: "rest = msg m # rest1"
      by (cases rest) (auto simp: in_set_enumerate_eq)
    have sub: "nset q' \<subseteq># mset (enumerate (Suc (Suc ?D)) rest1)"
      using less.prems(2) pop(2,3) S rest by simp
    have len: "length (ooo_q ?r) < length (ooo_q r)"
      using arg_cong [OF pop(3), of size] by simp
    have sz: "unat (last_seq_delivered ?r) + length rest1 < 2 ^ 64 - 1"
      using less.prems(3) S rest by simp
    note ih = less.hyps [OF len pop(4) _ sz d]
    show ?thesis using ih sub S pop(2,3) ms rest by (auto simp: algebra_simps simp del: image_iff) (auto simp: image_iff)
  qed
qed

section \<open>Accepting a message\<close>

text \<open>
  A message that is ahead of the delivered ones enters the queue, unless the queue is at its
  limit.
\<close>

lemma queue_insert_wf:
  assumes "q_wf r" and "\<not> ooo_q_alloc_cost r \<ge> ucast (k :: u32)"
  shows "q_wf (r\<lparr>ooo_q := ooo_add (ooo_q r) x, ooo_q_alloc_cost := ooo_q_alloc_cost r + conflux_msg_alloc_cost x\<rparr>)"
proof -
  have lt: "unat (ooo_q_alloc_cost r) < 2 ^ 32"
    using assms(2) unat_u32_less [of k] by (simp add: word_le_nat_alt)
  have "unat (ooo_q_alloc_cost r + conflux_msg_alloc_cost x) = unat (ooo_q_alloc_cost r) + msg_cost (msg x)"
    using lt msg_cost_pos(2) [of "msg x"] by (subst unat_add_nowrap) (simp_all add: unat_alloc_cost)
  then show ?thesis
    using assms lt msg_cost_pos(2) [of "msg x"]
    by (simp add: q_wf_def q_cost_def nset_add ooo.heap.invar_add)
qed

text \<open>
  Receiving a message with number \<open>Suc k\<close> while \<open>F\<close> is still to come: together with the queue
  they are the undelivered messages \<open>rest\<close>, and so they remain after the step, less what the step
  delivers.  A refusal can only come from the source check or from the limit on the queue.
\<close>

lemma receive_spec:
  assumes wf: "q_wf r" and leg: "conflux_get_leg r c = Some l"
    and pend: "nset (ooo_q r) + {#(Suc (unat (last_seq_recv l)), w)#} + F
      = mset (enumerate (Suc (unat (last_seq_delivered r))) rest)"
    and bnd: "unat (last_seq_delivered r) + length rest < 2 ^ 64 - 1"
    and notin: "Suc (unat (last_seq_delivered r)) \<notin> fst ` set_mset (nset (ooo_q r))"
    and rcv: "conflux_receive (\<lambda>_. True) p tot r c circ hint w = (tot', r', ms, ok, acts)"
  shows "(\<forall>a\<in>set acts. a = Mark_for_close c END_CIRC_REASON_TORPROTOCOL \<or> a = Mark_for_close c END_CIRC_REASON_RESOURCELIMIT)
    \<and> (acts = [] \<longrightarrow> ok \<and> (\<exists>rest'. rest = ms @ rest' \<and> q_wf r' \<and> leg_ids r' = leg_ids r
        \<and> (\<forall>c'. conflux_get_leg r' c' =
             (if c' = c then Some (l\<lparr>last_seq_recv := last_seq_recv l + 1\<rparr>) else conflux_get_leg r c'))
        \<and> unat (last_seq_delivered r') = unat (last_seq_delivered r) + length ms
        \<and> nset (ooo_q r') + F = mset (enumerate (Suc (unat (last_seq_delivered r'))) rest')
        \<and> Suc (unat (last_seq_delivered r')) \<notin> fst ` set_mset (nset (ooo_q r'))
        \<and> tot' - ooo_q_alloc_cost r' = tot - ooo_q_alloc_cost r))"
proof -
  let ?D = "unat (last_seq_delivered r)" and ?k = "unat (last_seq_recv l)"
  have "(Suc ?k, w) \<in># nset (ooo_q r) + {#(Suc ?k, w)#} + F" by simp
  then have mem: "(Suc ?k, w) \<in> set (enumerate (Suc ?D) rest)" unfolding pend by simp
  then have k: "?D \<le> ?k" "?k < ?D + length rest" by (auto simp: in_set_enumerate_eq)
  have s: "unat (last_seq_recv l + 1) = Suc ?k" using k bnd by (intro unat_Suc_nowrap) simp
  have d: "unat (last_seq_delivered r + 1) = Suc ?D" using k bnd by (intro unat_Suc_nowrap) simp
  have eq: "(last_seq_recv l + 1 = last_seq_delivered r + 1) = (?k = ?D)"
    using s d by (metis add_right_cancel word_unat_eq_iff)
  have nle: "\<not> last_seq_recv l + 1 \<le> last_seq_delivered r" using k s by (simp add: word_le_nat_alt)
  define r1 where "r1 = r\<lparr>legs := update_leg c (\<lambda>x. x\<lparr>last_seq_recv := last_seq_recv l + 1\<rparr>) (legs r)\<rparr>"
  have r1: "leg_ids r1 = leg_ids r" "q_wf r1" "ooo_q r1 = ooo_q r"
    "last_seq_delivered r1 = last_seq_delivered r" "ooo_q_alloc_cost r1 = ooo_q_alloc_cost r"
    "conflux_get_leg r1 c' = (if c' = c then Some (l\<lparr>last_seq_recv := last_seq_recv l + 1\<rparr>) else conflux_get_leg r c')" for c'
    using wf leg by (auto simp: r1_def q_wf_def)
  consider (hop) "\<not> conflux_validate_source_hop circ hint"
    | (inorder) "conflux_validate_source_hop circ hint" "?k = ?D"
    | (limit) "conflux_validate_source_hop circ hint" "?k \<noteq> ?D" "ooo_q_alloc_cost r \<ge> ucast (conflux_params_get_max_oooq p)"
    | (queue) "conflux_validate_source_hop circ hint" "?k \<noteq> ?D" "\<not> ooo_q_alloc_cost r \<ge> ucast (conflux_params_get_max_oooq p)"
    by blast
  then show ?thesis
  proof cases
    case hop
    then show ?thesis using rcv leg by (auto simp: conflux_receive_def conflux_process_relay_msg_def)
  next
    case limit
    then have "acts = [Mark_for_close c END_CIRC_REASON_RESOURCELIMIT]"
      using rcv leg eq nle by (simp add: conflux_receive_def conflux_process_relay_msg_def Let_def)
    then show ?thesis by simp
  next
    case inorder
    let ?r = "r1\<lparr>last_seq_delivered := last_seq_delivered r + 1\<rparr>"
    obtain ms' where dr: "conflux_drain (\<lambda>_. True) tot ?r = (tot', r', ms', ok)" and ms: "ms = w # ms'" "acts = []"
      using rcv leg eq inorder
      by (auto simp: conflux_receive_def conflux_process_relay_msg_def Let_def r1_def split: prod.splits)
    obtain rest1 where rest: "rest = w # rest1"
      using mem inorder by (cases rest) (auto simp: in_set_enumerate_eq)
    have pend1: "nset (ooo_q r) + F = mset (enumerate (Suc (Suc ?D)) rest1)"
      using pend inorder rest by simp
    have q: "q_wf ?r" using r1(2) by (rule q_wf_frame) simp_all
    moreover have sub: "nset (ooo_q ?r) \<subseteq># mset (enumerate (Suc (unat (last_seq_delivered ?r))) rest1)"
      using pend1 r1(3) d by (simp add: pend1 [symmetric])
    moreover have sz: "unat (last_seq_delivered ?r) + length rest1 < 2 ^ 64 - 1" using bnd rest d by simp
    ultimately have D0: "unat (last_seq_delivered r') = Suc ?D + length ms'"
      using drain_spec [OF _ _ _ dr, of rest1] d by simp
    have D: "ok \<and> (\<exists>rest'. rest1 = ms' @ rest') \<and> q_wf r' \<and> legs r' = legs ?r
      \<and> unat (last_seq_delivered r') = Suc ?D + length ms'
      \<and> nset (ooo_q r) = nset (ooo_q r') + mset (enumerate (Suc (Suc ?D)) ms')
      \<and> Suc (unat (last_seq_delivered r')) \<notin> fst ` set_mset (nset (ooo_q r'))
      \<and> tot' - ooo_q_alloc_cost r' = tot - ooo_q_alloc_cost r"
      using drain_spec [OF q sub sz dr] D0 r1 d by simp
    then obtain rest' where rest': "rest1 = ms' @ rest'" by blast
    have lg: "legs r' = legs r1" using D by simp
    have "nset (ooo_q r') + F = mset (enumerate (Suc (unat (last_seq_delivered r'))) rest')"
      using pend1 D rest' by (simp add: enumerate_append_eq)
    then show ?thesis using D rest rest' ms leg_ids_cong [OF lg] get_leg_cong [OF lg] r1 by (auto simp: image_iff)
  next
    case queue
    let ?m = "\<lparr>seq = last_seq_recv l + 1, heap_idx = 0, msg = w\<rparr>"
    have e: "r' = r1\<lparr>ooo_q := ooo_add (ooo_q r1) ?m, ooo_q_alloc_cost := ooo_q_alloc_cost r1 + conflux_msg_alloc_cost ?m\<rparr>"
      "ms = []" "ok" "acts = []" "tot' = tot + conflux_msg_alloc_cost ?m"
      using rcv leg eq nle queue
      by (auto simp: conflux_receive_def conflux_process_relay_msg_def Let_def r1_def)
    have "q_wf r'" unfolding e(1) using queue(3) r1 by (intro queue_insert_wf) simp_all
    moreover have "nset (ooo_q r') = add_mset (Suc ?k, w) (nset (ooo_q r))"
      using r1 s by (simp add: e(1) nset_add q_wf_def)
    ultimately show ?thesis using pend notin queue(2) r1 e by (auto simp: e(1))
  qed
qed

section \<open>Properties\<close>

text \<open>
  The out-of-order queue is a correct priority queue: on a queue that passes
  \<^verbatim>\<open>smartlist_pqueue_assert_ok\<close>, a pop returns a message with the smallest sequence number,
  removes exactly that message and leaves a queue that passes the check again.
\<close>

theorem ooo_queue_pop_least:
  assumes "smartlist_pqueue_assert_ok conflux_queue_cmp heap_idx q" and "q \<noteq> []" and "length q \<le> 2147483647"
  shows "\<exists>m q'. smartlist_pqueue_pop conflux_queue_cmp msg_set_idx q = Some (m, q')
    \<and> smartlist_pqueue_assert_ok conflux_queue_cmp heap_idx q'
    \<and> nset q = add_mset (unat (seq m), msg m) (nset q') \<and> (\<forall>y\<in>set q'. seq m \<le> seq y)"
proof -
  have inv: "ooo.heap_invar q" using assms(1) by (simp add: ooo.heap_invar_assert_ok)
  obtain m q' where p: "ooo_pop q = Some (m, q')" using ooo.heap.pop_Some [OF inv assms(2)] by blast
  show ?thesis
    using p ooo.heap.invar_pop [OF inv assms(3) p] ooo.heap.mset_pop [OF inv assms(3) p]
      ooo.heap.pop_least [OF inv assms(3) p]
    by (simp add: nset_strip ooo.heap_invar_assert_ok)
qed

text \<open>
  Adding to the out-of-order queue keeps the heap check and adds exactly the one message.
\<close>

theorem ooo_queue_add:
  assumes "smartlist_pqueue_assert_ok conflux_queue_cmp heap_idx q"
  shows "smartlist_pqueue_assert_ok conflux_queue_cmp heap_idx (smartlist_pqueue_add conflux_queue_cmp msg_set_idx q m)
    \<and> nset (smartlist_pqueue_add conflux_queue_cmp msg_set_idx q m) = add_mset (unat (seq m), msg m) (nset q)"
  using assms ooo.heap.invar_add [of q m] nset_add [of q m] by (simp add: ooo.heap_invar_assert_ok)

definition sample_msg :: "u64 \<Rightarrow> conflux_msg_t" where
  "sample_msg s = \<lparr>seq = s, heap_idx = 0, msg = \<lparr>rm_command = 2, rm_length = 0, rm_stream_id = 1,
     rm_is_relay_early = False, rm_body = []\<rparr>\<rparr>"

lemma sample_queue_ok:
  "smartlist_pqueue_assert_ok conflux_queue_cmp heap_idx (ooo_add (ooo_add [] (sample_msg 9)) (sample_msg 4))"
  using ooo.heap.invar_add [OF ooo.heap.invar_add [OF ooo.heap.invar_Nil]] by (simp add: ooo.heap_invar_assert_ok)

theorem ooo_queue_pop_least_witness:
  "\<exists>m q'. smartlist_pqueue_pop conflux_queue_cmp msg_set_idx (ooo_add (ooo_add [] (sample_msg 9)) (sample_msg 4)) = Some (m, q')
     \<and> smartlist_pqueue_assert_ok conflux_queue_cmp heap_idx q' \<and> length q' = 1"
proof -
  let ?q = "ooo_add (ooo_add [] (sample_msg 9)) (sample_msg 4)"
  have "length ?q = 2"
    using ooo.heap.length_add [OF ooo.heap.invar_add [OF ooo.heap.invar_Nil], of "sample_msg 9" "sample_msg 4"]
      ooo.heap.length_add [OF ooo.heap.invar_Nil, of "sample_msg 9"] by simp
  moreover from this have ne: "?q \<noteq> []" by auto
  ultimately obtain m q' where p: "ooo_pop ?q = Some (m, q')" "smartlist_pqueue_assert_ok conflux_queue_cmp heap_idx q'"
    "nset ?q = add_mset (unat (seq m), msg m) (nset q')"
    using ooo_queue_pop_least [OF sample_queue_ok ne] by auto
  have "length q' = 1" using arg_cong [OF p(3), of size] \<open>length ?q = 2\<close> by simp
  then show ?thesis using p by blast
qed

theorem ooo_queue_add_witness:
  "smartlist_pqueue_assert_ok conflux_queue_cmp heap_idx
     (smartlist_pqueue_add conflux_queue_cmp msg_set_idx (ooo_add (ooo_add [] (sample_msg 9)) (sample_msg 4)) (sample_msg 6))"
  using ooo_queue_add [OF sample_queue_ok] by blast

text \<open>
  The memory account of the out-of-order queues: whatever message arrives, the cost recorded
  in the set stays the sum of the costs of the queued messages, the queue stays a heap, and the
  global counter \<^verbatim>\<open>total_ooo_q_bytes\<close> moves by the same amount.
\<close>

theorem conflux_queue_account:
  assumes "q_wf r" and "conflux_process_relay_msg p tot r c circ hint m = (tot', r', b, acts)"
  shows "q_wf r' \<and> tot' - ooo_q_alloc_cost r' = tot - ooo_q_alloc_cost r"
proof (cases "conflux_get_leg r c")
  case None
  then show ?thesis using assms by (simp add: conflux_process_relay_msg_def)
next
  case (Some l)
  have fr: "q_wf (r\<lparr>legs := L\<rparr>)" "q_wf (r\<lparr>legs := L, last_seq_delivered := x\<rparr>)" for L x
    using assms(1) by (simp_all add: q_wf_def)
  have "\<not> ooo_q_alloc_cost r \<ge> ucast (conflux_params_get_max_oooq p) \<Longrightarrow>
      q_wf (r\<lparr>legs := L, ooo_q := ooo_add (ooo_q r) x, ooo_q_alloc_cost := ooo_q_alloc_cost r + conflux_msg_alloc_cost x\<rparr>)" for L x
    using queue_insert_wf [OF fr(1)] by simp
  then show ?thesis
    using assms Some fr by (auto simp: conflux_process_relay_msg_def Let_def split: if_splits)
qed

theorem conflux_queue_account_witness:
  "\<forall>circ hint. \<exists>tot r b acts. conflux_process_relay_msg conflux_params_init 0
     \<lparr>alg = CONFLUX_ALG_LOWRTT,
      legs = [\<lparr>leg_circ = 1, last_seq_recv = 4, last_seq_sent = 0, circ_rtts_usec = 5, linked_sent_usec = 0\<rparr>],
      ooo_q = [], ooo_q_alloc_cost = 0, last_seq_delivered = 0, cells_until_switch = 0, curr_leg = None, prev_leg = None,
      cfx_nonce = [], in_full_teardown = False, num_leg_launch = 0, total_streams = 0, bytes_sent = 0, bytes_recv = 0\<rparr>
     1 circ hint (msg (sample_msg 1)) = (tot, r, b, acts) \<and> q_wf r"
proof (intro allI)
  fix circ hint
  let ?r = "\<lparr>alg = CONFLUX_ALG_LOWRTT,
      legs = [\<lparr>leg_circ = 1, last_seq_recv = 4, last_seq_sent = 0, circ_rtts_usec = 5, linked_sent_usec = 0\<rparr>],
      ooo_q = [], ooo_q_alloc_cost = 0, last_seq_delivered = 0, cells_until_switch = 0, curr_leg = None, prev_leg = None,
      cfx_nonce = [], in_full_teardown = False, num_leg_launch = 0, total_streams = 0, bytes_sent = 0, bytes_recv = 0\<rparr>"
  obtain tot r b acts where "conflux_process_relay_msg conflux_params_init 0 ?r 1 circ hint (msg (sample_msg 1)) = (tot, r, b, acts)"
    by (metis prod_cases4)
  moreover have "q_wf ?r" by (rule q_wf_empty) simp_all
  ultimately show "\<exists>tot r b acts. conflux_process_relay_msg conflux_params_init 0 ?r 1 circ hint (msg (sample_msg 1)) =
      (tot, r, b, acts) \<and> q_wf r"
    using conflux_queue_account by blast
qed

end
