(* ===== verification/ConfluxE2E.thy ===== *)
theory ConfluxE2E
  imports ConfluxReceive
begin

text \<open>
  The purpose of conflux: a stream of messages spread over several legs arrives in the order in
  which it was sent.  This theory proves it for the two ends of an established set.  The sender
  uses \<^const>\<open>conflux_decide_circ_for_send\<close> and \<^const>\<open>conflux_note_cell_sent\<close>, each leg is a
  FIFO channel, and the receiver uses \<^const>\<open>conflux_process_switch_command\<close> and
  \<^const>\<open>conflux_receive\<close>.  Which leg the sender may use (congestion windows, RTTs, blocked
  channels) and the order in which the channels are read are left open.
\<close>

section \<open>What is on a leg\<close>

text \<open>
  The numbers the receiver will give to the multiplexed messages on a channel, starting from the
  last number it has seen there, and the number it will have reached at the end.  SWITCH
  advances the number; other commands that are not multiplexed leave it.
\<close>

fun witems :: "nat \<Rightarrow> relay_msg_t list \<Rightarrow> (nat \<times> relay_msg_t) list" where
  "witems n [] = []"
| "witems n (w # ws) =
     (if rm_command w = RELAY_COMMAND_CONFLUX_SWITCH then witems (n + unat (conflux_cell_parse_switch w)) ws
      else if conflux_should_multiplex (rm_command w) then (Suc n, w) # witems (Suc n) ws
      else witems n ws)"

fun wend :: "nat \<Rightarrow> relay_msg_t list \<Rightarrow> nat" where
  "wend n [] = n"
| "wend n (w # ws) =
     (if rm_command w = RELAY_COMMAND_CONFLUX_SWITCH then wend (n + unat (conflux_cell_parse_switch w)) ws
      else if conflux_should_multiplex (rm_command w) then wend (Suc n) ws
      else wend n ws)"

lemma wend_append: "wend n (ws @ ws') = wend (wend n ws) ws'"
  by (induction ws arbitrary: n) auto

lemma witems_append: "witems n (ws @ ws') = witems n ws @ witems (wend n ws) ws'"
  by (induction ws arbitrary: n) auto

lemma wend_ge: "n \<le> wend n ws"
proof (induction ws arbitrary: n)
  case (Cons w ws)
  show ?case using Cons.IH [of "n + unat (conflux_cell_parse_switch w)"] Cons.IH [of "Suc n"] Cons.IH [of n]
    by simp
qed simp

lemma mux_not_switch: "conflux_should_multiplex cmd \<Longrightarrow> cmd \<noteq> RELAY_COMMAND_CONFLUX_SWITCH"
  by (auto simp: conflux_should_multiplex_def)

section \<open>The system\<close>

record e2e =
  snd_end :: conflux_t
  rcv_end :: conflux_t
  chan :: "circ_id \<Rightarrow> relay_msg_t list"
  sent :: "relay_msg_t list"
  delivered :: "relay_msg_t list"
  tot_bytes :: u64

text \<open>
  One step of the system.  \<open>circs\<close>, the state of the circuits as the sender sees it, is free in
  each step, so that congestion control may do anything between two steps.  A step in which an
  end decides to close a circuit is not listed: the set is torn down then.
\<close>

inductive e2e_step :: "conflux_params_cache \<Rightarrow> e2e \<Rightarrow> e2e \<Rightarrow> bool" for p where
  send_msg:
    "\<lbrakk>conflux_should_multiplex (rm_command m);
      conflux_decide_circ_for_send p True circs (snd_end s) orig (rm_command m) = Some (cfx, Some c, acts);
      length (sent s) < 2 ^ 64 - 2\<rbrakk> \<Longrightarrow>
     e2e_step p s (s\<lparr>snd_end := conflux_note_cell_sent cfx c (rm_command m),
                     chan := (chan s)(c := chan s c @ wires acts @ [m]),
                     sent := sent s @ [m]\<rparr>)"
| send_blocked:
    "\<lbrakk>conflux_should_multiplex cmd;
      conflux_decide_circ_for_send p True circs (snd_end s) orig cmd = Some (cfx, None, [])\<rbrakk> \<Longrightarrow>
     e2e_step p s (s\<lparr>snd_end := cfx\<rparr>)"
| send_other:
    "\<lbrakk>\<not> conflux_should_multiplex (rm_command m); rm_command m \<noteq> RELAY_COMMAND_CONFLUX_SWITCH;
      orig \<in> set (leg_ids (snd_end s));
      conflux_decide_circ_for_send p True circs (snd_end s) orig (rm_command m) = Some (cfx, Some c, acts)\<rbrakk> \<Longrightarrow>
     e2e_step p s (s\<lparr>snd_end := conflux_note_cell_sent cfx c (rm_command m),
                     chan := (chan s)(c := chan s c @ wires acts @ [m])\<rparr>)"
| recv_switch:
    "\<lbrakk>chan s c = w # ws; rm_command w = RELAY_COMMAND_CONFLUX_SWITCH;
      conflux_process_switch_command True (Some (rcv_end s)) c circ hint w = (Some r, 0, acts)\<rbrakk> \<Longrightarrow>
     e2e_step p s (s\<lparr>rcv_end := r, chan := (chan s)(c := ws)\<rparr>)"
| recv_msg:
    "\<lbrakk>chan s c = w # ws; conflux_should_multiplex (rm_command w);
      conflux_receive (\<lambda>_. True) p (tot_bytes s) (rcv_end s) c circ hint w = (t, r, ms, True, [])\<rbrakk> \<Longrightarrow>
     e2e_step p s (s\<lparr>rcv_end := r, tot_bytes := t, chan := (chan s)(c := ws), delivered := delivered s @ ms\<rparr>)"
| recv_other:
    "\<lbrakk>chan s c = w # ws; \<not> conflux_should_multiplex (rm_command w);
      rm_command w \<noteq> RELAY_COMMAND_CONFLUX_SWITCH\<rbrakk> \<Longrightarrow>
     e2e_step p s (s\<lparr>chan := (chan s)(c := ws)\<rparr>)"

text \<open>A set right after linking: the same legs at both ends, nothing sent or received.\<close>

definition e2e_init :: "e2e \<Rightarrow> bool" where
  "e2e_init s =
     (distinct (leg_ids (snd_end s)) \<and> leg_ids (rcv_end s) = leg_ids (snd_end s)
      \<and> (\<forall>l\<in>set (legs (snd_end s)). last_seq_sent l = 0) \<and> (\<forall>l\<in>set (legs (rcv_end s)). last_seq_recv l = 0)
      \<and> curr_leg (snd_end s) = None \<and> last_seq_delivered (rcv_end s) = 0
      \<and> ooo_q (rcv_end s) = [] \<and> ooo_q_alloc_cost (rcv_end s) = 0
      \<and> chan s = (\<lambda>_. []) \<and> sent s = [] \<and> delivered s = [])"

inductive e2e_reachable :: "conflux_params_cache \<Rightarrow> e2e \<Rightarrow> bool" for p where
  init: "e2e_init s \<Longrightarrow> e2e_reachable p s"
| step: "e2e_reachable p s \<Longrightarrow> e2e_step p s s' \<Longrightarrow> e2e_reachable p s'"

section \<open>The invariant\<close>

definition recv_of :: "conflux_t \<Rightarrow> circ_id \<Rightarrow> nat" where
  "recv_of r c = (case conflux_get_leg r c of None \<Rightarrow> 0 | Some l \<Rightarrow> unat (last_seq_recv l))"

definition sent_of :: "conflux_t \<Rightarrow> circ_id \<Rightarrow> nat" where
  "sent_of r c = (case conflux_get_leg r c of None \<Rightarrow> 0 | Some l \<Rightarrow> unat (last_seq_sent l))"

definition in_flight :: "conflux_t \<Rightarrow> (circ_id \<Rightarrow> relay_msg_t list) \<Rightarrow> (nat \<times> relay_msg_t) multiset" where
  "in_flight r ch = (\<Sum>c\<in>set (leg_ids r). mset (witems (recv_of r c) (ch c)))"

abbreviation "n_delivered r \<equiv> unat (last_seq_delivered r)"

definition e2e_inv :: "e2e \<Rightarrow> bool" where
  "e2e_inv s =
     (let r = rcv_end s; n = length (sent s) in
      sender_inv n (snd_end s) \<and> set (leg_ids r) = set (leg_ids (snd_end s)) \<and> distinct (leg_ids r)
      \<and> n < 2 ^ 64 - 1
      \<and> (\<forall>c. c \<notin> set (leg_ids r) \<longrightarrow> chan s c = [])
      \<and> (\<forall>c\<in>set (leg_ids r). wend (recv_of r c) (chan s c) = sent_of (snd_end s) c)
      \<and> q_wf r \<and> n_delivered r \<le> n \<and> delivered s = take (n_delivered r) (sent s)
      \<and> Suc (n_delivered r) \<notin> fst ` set_mset (nset (ooo_q r))
      \<and> nset (ooo_q r) + in_flight r (chan s) = mset (enumerate (Suc (n_delivered r)) (drop (n_delivered r) (sent s))))"

lemma sum_change:
  fixes f g :: "'a \<Rightarrow> 'b multiset"
  assumes "finite A" "c \<in> A" "\<And>x. x \<in> A \<Longrightarrow> x \<noteq> c \<Longrightarrow> f x = g x"
  shows "sum f A + g c = sum g A + f c"
  using assms by (simp add: sum.remove [of A c] ac_simps)

lemma in_flight_change:
  assumes "leg_ids r' = leg_ids r" "c \<in> set (leg_ids r)"
    "\<And>x. x \<noteq> c \<Longrightarrow> recv_of r' x = recv_of r x" "\<And>x. x \<noteq> c \<Longrightarrow> ch' x = ch x"
  shows "in_flight r' ch' + mset (witems (recv_of r c) (ch c)) = in_flight r ch + mset (witems (recv_of r' c) (ch' c))"
  unfolding in_flight_def assms(1) using assms by (intro sum_change) auto

lemma sent_of_le: "sender_inv n cfx \<Longrightarrow> sent_of cfx c \<le> n"
  by (auto simp: sent_of_def sender_inv_def split: option.splits)

lemma e2e_inv_init:
  assumes "e2e_init s"
  shows "e2e_inv s"
proof -
  have "recv_of (rcv_end s) c = 0" "sent_of (snd_end s) c = 0" for c
    using assms by (auto simp: e2e_init_def recv_of_def sent_of_def dest: get_leg_circ split: option.splits)
  moreover have "sender_inv 0 (snd_end s)"
    using assms by (auto simp: e2e_init_def sender_inv_def dest: get_leg_circ)
  ultimately show ?thesis
    using assms q_wf_empty [of "rcv_end s"] by (simp add: e2e_init_def e2e_inv_def in_flight_def)
qed

section \<open>The invariant holds in every reachable state\<close>

lemma inv_send_frame:
  assumes inv: "e2e_inv s" and c: "c \<in> set (leg_ids (rcv_end s))"
    and snd: "sender_inv (length (sent s @ xs)) cfx" "leg_ids cfx = leg_ids (snd_end s)"
      "\<And>k. k \<noteq> c \<Longrightarrow> sent_of cfx k = sent_of (snd_end s) k"
    and len: "length (sent s @ xs) < 2 ^ 64 - 1"
    and ws: "witems (sent_of (snd_end s) c) ws = enumerate (Suc (length (sent s))) xs"
      "wend (sent_of (snd_end s) c) ws = sent_of cfx c"
  shows "e2e_inv (s\<lparr>snd_end := cfx, chan := (chan s)(c := chan s c @ ws), sent := sent s @ xs\<rparr>)"
proof -
  let ?r = "rcv_end s" and ?ch = "(chan s)(c := chan s c @ ws)"
  have w: "wend (recv_of ?r c) (chan s c) = sent_of (snd_end s) c" and D: "n_delivered ?r \<le> length (sent s)"
    using inv c by (auto simp: e2e_inv_def Let_def)
  have "in_flight ?r ?ch + mset (witems (recv_of ?r c) (chan s c))
      = in_flight ?r (chan s) + mset (witems (recv_of ?r c) (?ch c))"
    using c by (intro in_flight_change) auto
  then have "in_flight ?r ?ch = in_flight ?r (chan s) + mset (enumerate (Suc (length (sent s))) xs)"
    by (simp add: witems_append w ws)
  moreover have "enumerate (Suc (n_delivered ?r)) (drop (n_delivered ?r) (sent s @ xs))
      = enumerate (Suc (n_delivered ?r)) (drop (n_delivered ?r) (sent s)) @ enumerate (Suc (length (sent s))) xs"
    using D by (simp add: enumerate_append_eq)
  ultimately show ?thesis
    using inv snd len w ws(2) c D by (auto simp: e2e_inv_def Let_def wend_append ac_simps)
qed

lemma switch_items:
  assumes "wires acts = [] \<and> k = n \<or>
      (\<exists>w. wires acts = [w] \<and> rm_command w = RELAY_COMMAND_CONFLUX_SWITCH \<and> unat (conflux_cell_parse_switch w) = n - k)"
    and "k \<le> n" and "conflux_should_multiplex (rm_command m)"
  shows "witems k (wires acts @ [m]) = [(Suc n, m)]" "wend k (wires acts @ [m]) = Suc n"
  using assms mux_not_switch [OF assms(3)] by auto

lemma step_send_msg:
  assumes inv: "e2e_inv s" and mux: "conflux_should_multiplex (rm_command m)"
    and dec: "conflux_decide_circ_for_send p True circs (snd_end s) orig (rm_command m) = Some (cfx, Some c, acts)"
    and len: "length (sent s) < 2 ^ 64 - 2"
  shows "e2e_inv (s\<lparr>snd_end := conflux_note_cell_sent cfx c (rm_command m),
                     chan := (chan s)(c := chan s c @ wires acts @ [m]), sent := sent s @ [m]\<rparr>)"
proof -
  let ?n = "length (sent s)"
  have si: "sender_inv ?n (snd_end s)" and ids: "set (leg_ids (rcv_end s)) = set (leg_ids (snd_end s))"
    using inv by (simp_all add: e2e_inv_def Let_def)
  note d = decide_for_send_sends [OF si mux dec]
  then obtain l where l: "conflux_get_leg (snd_end s) c = Some l"
    and g: "\<And>c'. conflux_get_leg cfx c' = (if c' = c then Some (l\<lparr>last_seq_sent := of_nat ?n\<rparr>) else conflux_get_leg (snd_end s) c')"
    and w: "wires acts = [] \<and> unat (last_seq_sent l) = ?n \<or>
      (\<exists>w. wires acts = [w] \<and> rm_command w = RELAY_COMMAND_CONFLUX_SWITCH \<and>
           unat (conflux_cell_parse_switch w) = ?n - unat (last_seq_sent l))" by blast
  have gc: "conflux_get_leg cfx c = Some (l\<lparr>last_seq_sent := of_nat ?n\<rparr>)" using g by simp
  note nt = note_cell_sent_inv [OF _ _ mux gc, of ?n]
  have k: "sent_of (snd_end s) c = unat (last_seq_sent l)" using l by (simp add: sent_of_def)
  then have le: "unat (last_seq_sent l) \<le> ?n" using sent_of_le [OF si, of c] by simp
  note items = switch_items [OF w le mux]
  let ?x = "conflux_note_cell_sent cfx c (rm_command m)"
  have x: "sender_inv (Suc ?n) ?x" "leg_ids ?x = leg_ids cfx" "sent_of ?x c = Suc ?n"
    "\<And>k. k \<noteq> c \<Longrightarrow> sent_of ?x k = sent_of (snd_end s) k"
    using nt d g len by (auto simp: sent_of_def)
  show ?thesis
  proof (rule inv_send_frame [OF inv])
    show "c \<in> set (leg_ids (rcv_end s))" using get_leg_Some_iff [of "snd_end s" c] l ids by blast
    show "leg_ids ?x = leg_ids (snd_end s)" using x(2) d by simp
  qed (use x items len k in simp_all)
qed

lemma decide_for_send_blocked:
  assumes "sender_inv n cfx" "conflux_should_multiplex cmd"
    "conflux_decide_circ_for_send p True circs cfx orig cmd = Some (cfx', None, [])"
  shows "sender_inv n cfx' \<and> legs cfx' = legs cfx"
proof -
  obtain cfx1 r where nx: "conflux_decide_next_circ p circs cfx = Some (cfx1, r)"
    using assms by (auto simp: conflux_decide_circ_for_send_def bind_eq_Some_iff)
  have "cfx' = cfx1"
    using assms(2,3) nx
    by (auto simp: conflux_decide_circ_for_send_def conflux_switch_leg_def bind_eq_Some_iff Let_def
        split: option.splits if_splits prod.splits)
  then show ?thesis using sender_inv_next [OF assms(1) nx] by simp
qed

lemma recv_of_update:
  assumes "leg_ids r' = leg_ids r" "c \<in> set (leg_ids r)"
  shows "(\<forall>c'. conflux_get_leg r' c' = (if c' = c then Some l else conflux_get_leg r c')) \<Longrightarrow>
    recv_of r' x = (if x = c then unat (last_seq_recv l) else recv_of r x)"
  by (simp add: recv_of_def)

lemma chan_nonempty_leg:
  assumes "e2e_inv s" "chan s c = w # ws"
  obtains l where "c \<in> set (leg_ids (rcv_end s))" "conflux_get_leg (rcv_end s) c = Some l"
    "recv_of (rcv_end s) c = unat (last_seq_recv l)"
    "wend (recv_of (rcv_end s) c) (w # ws) < 2 ^ 64 - 1"
proof -
  have c: "c \<in> set (leg_ids (rcv_end s))" using assms by (force simp: e2e_inv_def Let_def)
  then obtain l where l: "conflux_get_leg (rcv_end s) c = Some l" using get_leg_Some_iff by blast
  have "wend (recv_of (rcv_end s) c) (w # ws) = sent_of (snd_end s) c"
    using assms(1) c by (simp add: assms(2) [symmetric] e2e_inv_def Let_def del: wend.simps)
  also have "\<dots> < 2 ^ 64 - 1"
    using assms(1) sent_of_le [of "length (sent s)" "snd_end s" c] by (simp add: e2e_inv_def Let_def)
  finally show thesis using that [of l] c l by (simp add: recv_of_def)
qed

lemma step_recv_switch:
  assumes inv: "e2e_inv s" and ch: "chan s c = w # ws" and cmd: "rm_command w = RELAY_COMMAND_CONFLUX_SWITCH"
    and pr: "conflux_process_switch_command True (Some (rcv_end s)) c circ hint w = (Some r, 0, acts)"
  shows "e2e_inv (s\<lparr>rcv_end := r, chan := (chan s)(c := ws)\<rparr>)"
proof -
  let ?r = "rcv_end s"
  obtain l where l: "c \<in> set (leg_ids ?r)" "conflux_get_leg ?r c = Some l" "recv_of ?r c = unat (last_seq_recv l)"
    "wend (recv_of ?r c) (w # ws) < 2 ^ 64 - 1" using chan_nonempty_leg [OF inv ch] by blast
  let ?rel = "conflux_cell_parse_switch w"
  have r: "r = ?r\<lparr>legs := update_leg c (\<lambda>l. l\<lparr>last_seq_recv := last_seq_recv l + ucast ?rel\<rparr>) (legs ?r)\<rparr>"
    using pr l(2) by (auto simp: conflux_process_switch_command_def Let_def split: if_splits)
  have "unat (last_seq_recv l) + unat ?rel < 2 ^ 64"
    using l(3,4) cmd wend_ge [of "recv_of ?r c + unat ?rel" ws] by simp
  then have add: "unat (last_seq_recv l + ucast ?rel) = recv_of ?r c + unat ?rel"
    using l(3) by (subst unat_add_nowrap) simp_all
  have ids: "leg_ids r = leg_ids ?r" by (simp add: r)
  have rec: "recv_of r x = (if x = c then recv_of ?r c + unat ?rel else recv_of ?r x)" for x
    using l(2) add by (simp add: r recv_of_def)
  have "in_flight r ((chan s)(c := ws)) + mset (witems (recv_of ?r c) (chan s c))
      = in_flight ?r (chan s) + mset (witems (recv_of r c) (((chan s)(c := ws)) c))"
    using l ids rec by (intro in_flight_change) auto
  then have "in_flight r ((chan s)(c := ws)) = in_flight ?r (chan s)"
    using ch cmd rec by simp
  moreover have "wend (recv_of r k) (((chan s)(c := ws)) k) = wend (recv_of ?r k) (chan s k)" for k
    using ch cmd rec by simp
  ultimately show ?thesis
    using inv ids l(1) by (auto simp: e2e_inv_def Let_def r q_wf_def)
qed

lemma pending_recv:
  assumes inv: "e2e_inv s" and ch: "chan s c = w # ws" and mux: "conflux_should_multiplex (rm_command w)"
    and ids: "leg_ids r = leg_ids (rcv_end s)"
    and rec: "\<And>x. recv_of r x = (if x = c then Suc (recv_of (rcv_end s) c) else recv_of (rcv_end s) x)"
    and c: "c \<in> set (leg_ids (rcv_end s))"
  shows "in_flight (rcv_end s) (chan s) = add_mset (Suc (recv_of (rcv_end s) c), w) (in_flight r ((chan s)(c := ws)))"
proof -
  have "in_flight r ((chan s)(c := ws)) + mset (witems (recv_of (rcv_end s) c) (chan s c))
      = in_flight (rcv_end s) (chan s) + mset (witems (recv_of r c) (((chan s)(c := ws)) c))"
    using c ids rec by (intro in_flight_change) auto
  then show ?thesis using ch mux rec mux_not_switch [OF mux] by (simp add: add_mset_commute)
qed

lemma receive_in_state:
  assumes inv: "e2e_inv s" and ch: "chan s c = w # ws" and mux: "conflux_should_multiplex (rm_command w)"
    and rcv: "conflux_receive (\<lambda>_. True) p (tot_bytes s) (rcv_end s) c circ hint w = (t, r, ms, ok, acts)"
  obtains rest where "rest = drop (n_delivered (rcv_end s)) (sent s)"
    "c \<in> set (leg_ids (rcv_end s))"
    "\<forall>a\<in>set acts. a = Mark_for_close c END_CIRC_REASON_TORPROTOCOL \<or> a = Mark_for_close c END_CIRC_REASON_RESOURCELIMIT"
    "acts = [] \<Longrightarrow> ok \<and> (\<exists>rest'. rest = ms @ rest' \<and> q_wf r \<and> leg_ids r = leg_ids (rcv_end s)
        \<and> (\<forall>x. recv_of r x = (if x = c then Suc (recv_of (rcv_end s) c) else recv_of (rcv_end s) x))
        \<and> n_delivered r = n_delivered (rcv_end s) + length ms
        \<and> nset (ooo_q r) + in_flight r ((chan s)(c := ws)) = mset (enumerate (Suc (n_delivered r)) rest')
        \<and> Suc (n_delivered r) \<notin> fst ` set_mset (nset (ooo_q r)))"
proof -
  let ?r = "rcv_end s" and ?D = "n_delivered (rcv_end s)"
  define rest where "rest = drop ?D (sent s)"
  obtain l where l: "c \<in> set (leg_ids ?r)" "conflux_get_leg ?r c = Some l" "recv_of ?r c = unat (last_seq_recv l)"
    "wend (recv_of ?r c) (w # ws) < 2 ^ 64 - 1" using chan_nonempty_leg [OF inv ch] by blast
  have "Suc (unat (last_seq_recv l)) < 2 ^ 64"
    using l(3,4) mux mux_not_switch [OF mux] wend_ge [of "Suc (recv_of ?r c)" ws] by simp
  then have s: "unat (last_seq_recv l + 1) = Suc (unat (last_seq_recv l))" by (intro unat_Suc_nowrap) simp
  define r1 where "r1 = ?r\<lparr>legs := update_leg c (\<lambda>x. x\<lparr>last_seq_recv := last_seq_recv l + 1\<rparr>) (legs ?r)\<rparr>"
  define F where "F = in_flight r1 ((chan s)(c := ws))"
  have "recv_of r1 x = (if x = c then Suc (recv_of ?r c) else recv_of ?r x)" for x
    using l s by (simp add: r1_def recv_of_def)
  then have "in_flight ?r (chan s) = add_mset (Suc (recv_of ?r c), w) F"
    unfolding F_def by (intro pending_recv [OF inv ch mux]) (simp_all add: r1_def l)
  then have pend: "nset (ooo_q ?r) + {#(Suc (unat (last_seq_recv l)), w)#} + F = mset (enumerate (Suc ?D) rest)"
    using inv l(3) by (simp add: e2e_inv_def Let_def rest_def)
  have i: "q_wf ?r" "?D + length rest < 2 ^ 64 - 1" "Suc ?D \<notin> fst ` set_mset (nset (ooo_q ?r))"
    using inv by (simp_all add: e2e_inv_def Let_def rest_def)
  note R = receive_spec [OF i(1) l(2) pend i(2,3) rcv]
  have rr: "recv_of r1 x = (if x = c then Suc (recv_of ?r c) else recv_of ?r x)" for x
    using l s by (simp add: r1_def recv_of_def)
  have F: "F = in_flight r ((chan s)(c := ws)) \<and>
      (\<forall>x. recv_of r x = (if x = c then Suc (recv_of ?r c) else recv_of ?r x))"
    if "leg_ids r = leg_ids ?r" "\<forall>c'. conflux_get_leg r c' =
      (if c' = c then Some (l\<lparr>last_seq_recv := last_seq_recv l + 1\<rparr>) else conflux_get_leg ?r c')"
  proof -
    have "recv_of r x = recv_of r1 x" for x using that(2) rr l s by (simp add: recv_of_def)
    moreover have "leg_ids r1 = leg_ids ?r" by (simp add: r1_def)
    ultimately show ?thesis using that(1) rr by (simp add: F_def in_flight_def)
  qed
  show thesis
    by (rule that [OF rest_def l(1)]) (use R F in auto)
qed

lemma step_recv_msg:
  assumes inv: "e2e_inv s" and ch: "chan s c = w # ws" and mux: "conflux_should_multiplex (rm_command w)"
    and rcv: "conflux_receive (\<lambda>_. True) p (tot_bytes s) (rcv_end s) c circ hint w = (t, r, ms, True, [])"
  shows "e2e_inv (s\<lparr>rcv_end := r, tot_bytes := t, chan := (chan s)(c := ws), delivered := delivered s @ ms\<rparr>)"
proof -
  let ?D = "n_delivered (rcv_end s)"
  obtain rest' where rest: "drop ?D (sent s) = ms @ rest'" and c: "c \<in> set (leg_ids (rcv_end s))"
    and R: "q_wf r" "leg_ids r = leg_ids (rcv_end s)"
      "\<forall>x. recv_of r x = (if x = c then Suc (recv_of (rcv_end s) c) else recv_of (rcv_end s) x)"
      "n_delivered r = ?D + length ms"
      "nset (ooo_q r) + in_flight r ((chan s)(c := ws)) = mset (enumerate (Suc (n_delivered r)) rest')"
      "Suc (n_delivered r) \<notin> fst ` set_mset (nset (ooo_q r))"
    using receive_in_state [OF inv ch mux rcv] by (metis (no_types, lifting))
  have D: "?D \<le> length (sent s)" "delivered s = take ?D (sent s)"
    using inv by (simp_all add: e2e_inv_def Let_def)
  have len: "?D + length ms \<le> length (sent s)" using arg_cong [OF rest, of length] D(1) by simp
  have dr: "drop (n_delivered r) (sent s) = rest'"
    using rest R(4) by (metis add.commute append_eq_conv_conj drop_drop)
  have tk: "take (n_delivered r) (sent s) = delivered s @ ms"
    using rest R(4) D(2) by (simp add: take_add)
  have "wend (recv_of r k) (((chan s)(c := ws)) k) = wend (recv_of (rcv_end s) k) (chan s k)" for k
    using ch mux mux_not_switch [OF mux] R(3) by simp
  then show ?thesis
    using inv R c dr tk len by (auto simp: e2e_inv_def Let_def)
qed

lemma step_recv_other:
  assumes inv: "e2e_inv s" and ch: "chan s c = w # ws"
    and cmd: "\<not> conflux_should_multiplex (rm_command w)" "rm_command w \<noteq> RELAY_COMMAND_CONFLUX_SWITCH"
  shows "e2e_inv (s\<lparr>chan := (chan s)(c := ws)\<rparr>)"
proof -
  have "wend n (((chan s)(c := ws)) k) = wend n (chan s k)" "witems n (((chan s)(c := ws)) k) = witems n (chan s k)" for n k
    using ch cmd by simp_all
  then show ?thesis
    using inv ch by (auto simp: e2e_inv_def Let_def in_flight_def)
qed

lemma step_send_blocked:
  assumes inv: "e2e_inv s" and "conflux_should_multiplex cmd"
    and "conflux_decide_circ_for_send p True circs (snd_end s) orig cmd = Some (cfx, None, [])"
  shows "e2e_inv (s\<lparr>snd_end := cfx\<rparr>)"
proof -
  have "sender_inv (length (sent s)) cfx \<and> legs cfx = legs (snd_end s)"
    using assms by (intro decide_for_send_blocked) (auto simp: e2e_inv_def Let_def)
  then show ?thesis
    using inv by (auto simp: e2e_inv_def Let_def leg_ids_def sent_of_def conflux_get_leg_def)
qed

lemma step_send_other:
  assumes inv: "e2e_inv s" and cmd: "\<not> conflux_should_multiplex (rm_command m)"
      "rm_command m \<noteq> RELAY_COMMAND_CONFLUX_SWITCH"
    and orig: "orig \<in> set (leg_ids (snd_end s))"
    and dec: "conflux_decide_circ_for_send p True circs (snd_end s) orig (rm_command m) = Some (cfx, Some c, acts)"
  shows "e2e_inv (s\<lparr>snd_end := conflux_note_cell_sent cfx c (rm_command m),
                     chan := (chan s)(c := chan s c @ wires acts @ [m])\<rparr>)"
proof -
  have e: "cfx = snd_end s" "c = orig" "acts = []"
    using cmd dec by (auto simp: conflux_decide_circ_for_send_def)
  have "e2e_inv (s\<lparr>snd_end := snd_end s, chan := (chan s)(c := chan s c @ [m]), sent := sent s @ []\<rparr>)"
    using assms e by (intro inv_send_frame) (auto simp: e2e_inv_def Let_def)
  then show ?thesis using cmd e by (simp add: conflux_note_cell_sent_def)
qed

lemmas e2e_steps = step_send_msg step_send_blocked step_send_other step_recv_switch step_recv_msg step_recv_other

lemma e2e_inv_step: "e2e_step p s s' \<Longrightarrow> e2e_inv s \<Longrightarrow> e2e_inv s'"
  by (induction rule: e2e_step.induct) (blast intro: e2e_steps)+

lemma e2e_inv_reachable: "e2e_reachable p s \<Longrightarrow> e2e_inv s"
  by (induction rule: e2e_reachable.induct) (auto intro: e2e_inv_init e2e_inv_step)

section \<open>Consequences\<close>

lemma inv_delivered_prefix: "e2e_inv s \<Longrightarrow> delivered s = take (length (delivered s)) (sent s)"
  by (simp add: e2e_inv_def Let_def min_absorb2)

lemma inv_drained:
  assumes "e2e_inv s" and "\<And>c. chan s c = []"
  shows "delivered s = sent s"
proof -
  let ?D = "n_delivered (rcv_end s)"
  have D: "?D \<le> length (sent s)" "delivered s = take ?D (sent s)" "Suc ?D \<notin> fst ` set_mset (nset (ooo_q (rcv_end s)))"
    using assms by (simp_all add: e2e_inv_def Let_def)
  have "nset (ooo_q (rcv_end s)) = mset (enumerate (Suc ?D) (drop ?D (sent s)))"
    using assms by (simp add: e2e_inv_def Let_def in_flight_def)
  then have "Suc ?D \<notin> fst ` set (enumerate (Suc ?D) (drop ?D (sent s)))" using D(3) by simp
  then have "drop ?D (sent s) = []" by (cases "drop ?D (sent s)") auto
  then show ?thesis using D by simp
qed

lemma valid_hop_exists: "\<exists>circ. conflux_validate_source_hop circ None"
  by (rule exI [of _ "undefined\<lparr>is_origin := False, has_n_chan := False\<rparr>"])
     (simp add: conflux_validate_source_hop_def conflux_get_destination_hop_def)

text \<open>What the undelivered messages would cost if all of them were queued.\<close>

definition backlog :: "e2e \<Rightarrow> nat" where
  "backlog s = (\<Sum>m\<leftarrow>drop (n_delivered (rcv_end s)) (sent s). msg_cost m)"

lemma q_cost_backlog:
  assumes "e2e_inv s"
  shows "q_cost (ooo_q (rcv_end s)) \<le> backlog s"
proof -
  let ?D = "n_delivered (rcv_end s)" and ?f = "\<lambda>x. msg_cost (snd x)"
  have eq: "nset (ooo_q (rcv_end s)) + in_flight (rcv_end s) (chan s) = mset (enumerate (Suc ?D) (drop ?D (sent s)))"
    using assms by (simp add: e2e_inv_def Let_def)
  have "q_cost (ooo_q (rcv_end s)) \<le> (\<Sum>x\<in>#nset (ooo_q (rcv_end s)) + in_flight (rcv_end s) (chan s). ?f x)"
    by (simp add: q_cost_def)
  also have "\<dots> = (\<Sum>x\<leftarrow>enumerate (Suc ?D) (drop ?D (sent s)). ?f x)"
    unfolding eq by (simp flip: mset_map add: sum_mset_sum_list)
  also have "\<dots> = backlog s"
    unfolding backlog_def by (metis (no_types, lifting) map_snd_enumerate map_map comp_def map_eq_conv)
  finally show ?thesis .
qed

lemma receive_no_limit:
  assumes "conflux_validate_source_hop circ hint" "\<not> ooo_q_alloc_cost r \<ge> ucast (conflux_params_get_max_oooq p)"
    "conflux_receive ok p tot r c circ hint w = (t, r', ms, b, acts)"
  shows "set acts \<subseteq> {Mark_for_close c END_CIRC_REASON_INTERNAL}"
  using assms
  by (auto simp: conflux_receive_def conflux_process_relay_msg_def Let_def split: option.splits if_splits prod.splits)

lemma recv_progress:
  assumes inv: "e2e_inv s" and lim: "backlog s < unat (conflux_params_get_max_oooq p)" and ch: "chan s c = w # ws"
  shows "\<exists>s'. e2e_step p s s' \<and> sent s' = sent s \<and> chan s' = (chan s)(c := ws)
    \<and> set (leg_ids (rcv_end s')) = set (leg_ids (rcv_end s)) \<and> n_delivered (rcv_end s) \<le> n_delivered (rcv_end s')"
proof -
  obtain circ where hop: "conflux_validate_source_hop circ None" using valid_hop_exists by blast
  consider (switch) "rm_command w = RELAY_COMMAND_CONFLUX_SWITCH" | (mux) "conflux_should_multiplex (rm_command w)"
    | (other) "\<not> conflux_should_multiplex (rm_command w)" "rm_command w \<noteq> RELAY_COMMAND_CONFLUX_SWITCH" by blast
  then show ?thesis
  proof cases
    case switch
    obtain l where l: "conflux_get_leg (rcv_end s) c = Some l" using chan_nonempty_leg [OF inv ch] by blast
    let ?r = "(rcv_end s)\<lparr>legs := update_leg c
      (\<lambda>l. l\<lparr>last_seq_recv := last_seq_recv l + ucast (conflux_cell_parse_switch w)\<rparr>) (legs (rcv_end s))\<rparr>"
    obtain as where p: "conflux_process_switch_command True (Some (rcv_end s)) c circ None w = (Some ?r, 0, as)"
      using l hop by (auto simp: conflux_process_switch_command_def Let_def)
    show ?thesis
      by (rule exI, rule conjI, rule e2e_step.recv_switch [OF ch switch p]) simp
  next
    case other
    show ?thesis by (rule exI, rule conjI, rule e2e_step.recv_other [OF ch other]) simp
  next
    case mux
    obtain t r ms ok acts where rcv: "conflux_receive (\<lambda>_. True) p (tot_bytes s) (rcv_end s) c circ None w = (t, r, ms, ok, acts)"
      by (metis prod_cases5)
    have "unat (ooo_q_alloc_cost (rcv_end s)) < unat (conflux_params_get_max_oooq p)"
      using q_cost_backlog [OF inv] inv lim by (simp add: e2e_inv_def Let_def q_wf_def)
    then have "\<not> ooo_q_alloc_cost (rcv_end s) \<ge> ucast (conflux_params_get_max_oooq p)"
      by (simp add: word_le_nat_alt)
    note nolim = receive_no_limit [OF hop this rcv]
    obtain rest where R: "rest = drop (n_delivered (rcv_end s)) (sent s)"
      "\<forall>a\<in>set acts. a = Mark_for_close c END_CIRC_REASON_TORPROTOCOL \<or> a = Mark_for_close c END_CIRC_REASON_RESOURCELIMIT"
      "acts = [] \<Longrightarrow> ok \<and> leg_ids r = leg_ids (rcv_end s) \<and> n_delivered r = n_delivered (rcv_end s) + length ms"
      by (rule receive_in_state [OF inv ch mux rcv]) blast
    have acts: "acts = []" using nolim R(2) by (cases acts) auto
    then have ok: "ok" "leg_ids r = leg_ids (rcv_end s)" "n_delivered (rcv_end s) \<le> n_delivered r"
      using R(3) by auto
    have rcv': "conflux_receive (\<lambda>_. True) p (tot_bytes s) (rcv_end s) c circ None w = (t, r, ms, True, [])"
      using rcv acts ok by simp
    show ?thesis
      by (rule exI, rule conjI, rule e2e_step.recv_msg [OF ch mux rcv']) (simp add: ok)
  qed
qed

lemma backlog_mono:
  assumes "sent s' = sent s" "n_delivered (rcv_end s) \<le> n_delivered (rcv_end s')"
  shows "backlog s' \<le> backlog s"
proof -
  define k where "k = n_delivered (rcv_end s') - n_delivered (rcv_end s)"
  let ?xs = "drop (n_delivered (rcv_end s)) (sent s)"
  have "drop (n_delivered (rcv_end s')) (sent s') = drop k ?xs" using assms by (simp add: k_def)
  moreover have "(\<Sum>m\<leftarrow>?xs. msg_cost m) = (\<Sum>m\<leftarrow>take k ?xs. msg_cost m) + (\<Sum>m\<leftarrow>drop k ?xs. msg_cost m)"
    by (metis append_take_drop_id map_append sum_list_append)
  ultimately show ?thesis by (simp add: backlog_def)
qed

lemma recv_drains:
  assumes "e2e_inv s" and "backlog s < unat (conflux_params_get_max_oooq p)"
  shows "\<exists>s'. (e2e_step p)\<^sup>*\<^sup>* s s' \<and> sent s' = sent s \<and> delivered s' = sent s"
  using assms
proof (induction "\<Sum>c\<in>set (leg_ids (rcv_end s)). length (chan s c)" arbitrary: s rule: less_induct)
  case less
  show ?case
  proof (cases "\<exists>c. chan s c \<noteq> []")
    case False
    then show ?thesis using inv_drained [OF less.prems(1)] by blast
  next
    case True
    then obtain c w ws where ch: "chan s c = w # ws" by (metis neq_Nil_conv)
    have c: "c \<in> set (leg_ids (rcv_end s))" using chan_nonempty_leg [OF less.prems(1) ch] by blast
    obtain s1 where s1: "e2e_step p s s1" "sent s1 = sent s" "chan s1 = (chan s)(c := ws)"
      "set (leg_ids (rcv_end s1)) = set (leg_ids (rcv_end s))" "n_delivered (rcv_end s) \<le> n_delivered (rcv_end s1)"
      using recv_progress [OF less.prems ch] by blast
    have "(\<Sum>x\<in>set (leg_ids (rcv_end s1)). length (chan s1 x)) < (\<Sum>x\<in>set (leg_ids (rcv_end s)). length (chan s x))"
      unfolding s1(4) by (rule sum_strict_mono_ex1) (use c ch s1(3) in auto)
    moreover have "e2e_inv s1" using e2e_inv_step [OF s1(1) less.prems(1)] .
    moreover have "backlog s1 < unat (conflux_params_get_max_oooq p)"
      using backlog_mono [OF s1(2,5)] less.prems(2) by simp
    ultimately obtain s' where "(e2e_step p)\<^sup>*\<^sup>* s1 s'" "sent s' = sent s1" "delivered s' = sent s1"
      using less.hyps by blast
    then show ?thesis using s1 by (metis converse_rtranclp_into_rtranclp)
  qed
qed

text \<open>
  The sender closes the set only when a leg has fallen \<open>2 ^ 32 - 1\<close> messages behind, the largest
  distance a SWITCH can express.
\<close>

lemma decide_for_send_no_close:
  assumes inv: "sender_inv n cfx" and small: "n < 4294967295"
    and dec: "conflux_decide_circ_for_send p True circs cfx orig cmd = Some (cfx', r, acts)"
  shows "Mark_all_for_close nn o' rs \<notin> set acts"
proof (cases "conflux_should_multiplex cmd")
  case False
  then show ?thesis using dec by (simp add: conflux_decide_circ_for_send_def)
next
  case mux: True
  obtain cfx1 nx where nx: "conflux_decide_next_circ p circs cfx = Some (cfx1, nx)"
    using dec mux by (auto simp: conflux_decide_circ_for_send_def bind_eq_Some_iff)
  show ?thesis
  proof (cases "acts = []")
    case False
    then obtain c old where c: "nx = Some c" "curr_leg cfx1 = Some old" "c \<noteq> old"
      and sw: "conflux_switch_leg True circs cfx1 old c = Some (cfx', r, acts)"
      using dec mux nx by (auto simp: conflux_decide_circ_for_send_def split: option.splits if_splits)
    have i1: "sender_inv n cfx1" using sender_inv_next [OF inv nx] by simp
    obtain lo where lo: "conflux_get_leg cfx1 old = Some lo" "unat (last_seq_sent lo) = n"
      using i1 c(2) by (auto simp: sender_inv_def)
    obtain l where l: "conflux_get_leg cfx1 c = Some l"
      using sw by (auto simp: conflux_switch_leg_def bind_eq_Some_iff Let_def)
    have le: "unat (last_seq_sent l) \<le> n" using i1 l by (auto simp: sender_inv_def)
    have "unat (last_seq_sent lo - last_seq_sent l) < 4294967295"
      using le lo(2) small by (subst unat_sub_nowrap) simp_all
    then have "last_seq_sent lo - last_seq_sent l < 4294967295" by (simp add: word_less_nat_alt)
    then show ?thesis
      using sw lo l le switch_command_payload [of "last_seq_sent lo - last_seq_sent l" True c "circs c"]
      by (auto simp: conflux_switch_leg_def bind_eq_Some_iff Let_def word_less_nat_alt simp del: be_encode.simps)
  qed simp
qed

section \<open>An executable run\<close>

text \<open>The steps as functions, so that concrete runs can be computed.\<close>

definition run_send :: "conflux_params_cache \<Rightarrow> (circ_id \<Rightarrow> circuit_t) \<Rightarrow> relay_msg_t \<Rightarrow> e2e \<Rightarrow> e2e option" where
  "run_send p circs m s =
     (if conflux_should_multiplex (rm_command m) \<and> length (sent s) < 2 ^ 64 - 2
      then case conflux_decide_circ_for_send p True circs (snd_end s) 0 (rm_command m) of
             Some (cfx, Some c, acts) \<Rightarrow>
               Some (s\<lparr>snd_end := conflux_note_cell_sent cfx c (rm_command m),
                       chan := (chan s)(c := chan s c @ wires acts @ [m]), sent := sent s @ [m]\<rparr>)
           | _ \<Rightarrow> None
      else None)"

definition run_recv :: "conflux_params_cache \<Rightarrow> circuit_t \<Rightarrow> circ_id \<Rightarrow> e2e \<Rightarrow> e2e option" where
  "run_recv p circ c s =
     (case chan s c of
        [] \<Rightarrow> None
      | w # ws \<Rightarrow>
          (if rm_command w = RELAY_COMMAND_CONFLUX_SWITCH
           then case conflux_process_switch_command True (Some (rcv_end s)) c circ None w of
                  (Some r, rc, acts) \<Rightarrow> if rc = 0 then Some (s\<lparr>rcv_end := r, chan := (chan s)(c := ws)\<rparr>) else None
                | _ \<Rightarrow> None
           else if conflux_should_multiplex (rm_command w)
           then case conflux_receive (\<lambda>_. True) p (tot_bytes s) (rcv_end s) c circ None w of
                  (t, r, ms, ok, acts) \<Rightarrow>
                    if ok \<and> acts = []
                    then Some (s\<lparr>rcv_end := r, tot_bytes := t, chan := (chan s)(c := ws), delivered := delivered s @ ms\<rparr>)
                    else None
           else None))"

lemma run_send_step:
  assumes "run_send p circs m s = Some s'"
  shows "e2e_step p s s'"
proof -
  obtain cfx c acts where "conflux_decide_circ_for_send p True circs (snd_end s) 0 (rm_command m) = Some (cfx, Some c, acts)"
    "conflux_should_multiplex (rm_command m)" "length (sent s) < 2 ^ 64 - 2"
    "s' = s\<lparr>snd_end := conflux_note_cell_sent cfx c (rm_command m),
                       chan := (chan s)(c := chan s c @ wires acts @ [m]), sent := sent s @ [m]\<rparr>"
    using assms by (auto simp: run_send_def split: if_splits option.splits)
  then show ?thesis using e2e_step.send_msg by metis
qed

lemma run_recv_step: "run_recv p circ c s = Some s' \<Longrightarrow> e2e_step p s s'"
  by (auto simp: run_recv_def intro: e2e_step.recv_switch e2e_step.recv_msg
      split: list.splits if_splits option.splits prod.splits)

definition demo_cc :: "u64 \<Rightarrow> congestion_control_t" where
  "demo_cc infl = \<lparr>sendme_pending_timestamps = [], ewma_rtt_usec = 0, min_rtt_usec = 0, max_rtt_usec = 0, bdp = 0,
     cwnd = 124, inflight = infl, next_cc_event = 0, next_cwnd_event = 0, in_slow_start = True, cwnd_full = False,
     blocked_chan = False, cwnd_inc_pct_ss = 100, cwnd_inc = 1, cwnd_min = 124, cwnd_inc_rate = 31, sendme_inc = 31,
     cc_alg = CC_ALG_VEGAS,
     vegas_params = \<lparr>ss_cwnd_cap = 600, ss_cwnd_max = 5000, vp_gamma = 186, vp_alpha = 186, vp_beta = 248, vp_delta = 310\<rparr>\<rparr>"

definition demo_circ :: "u64 \<Rightarrow> circuit_t" where
  "demo_circ infl = exit_circ\<lparr>c_ccontrol := Some (demo_cc infl), conflux := Some 0\<rparr>"

definition demo_leg :: "circ_id \<Rightarrow> u64 \<Rightarrow> conflux_leg_t" where
  "demo_leg c rtt = \<lparr>leg_circ = c, last_seq_recv = 0, last_seq_sent = 0, circ_rtts_usec = rtt, linked_sent_usec = 0\<rparr>"

definition demo_set :: conflux_t where
  "demo_set = \<lparr>alg = CONFLUX_ALG_LOWRTT, legs = [demo_leg 1 10, demo_leg 2 20], ooo_q = [], ooo_q_alloc_cost = 0,
     last_seq_delivered = 0, cells_until_switch = 0, curr_leg = None, prev_leg = None, cfx_nonce = [],
     in_full_teardown = False, num_leg_launch = 0, total_streams = 0, bytes_sent = 0, bytes_recv = 0\<rparr>"

definition demo_start :: e2e where
  "demo_start = \<lparr>snd_end = demo_set, rcv_end = demo_set, chan = (\<lambda>_. []), sent = [], delivered = [], tot_bytes = 0\<rparr>"

definition demo_msg :: "u8 \<Rightarrow> relay_msg_t" where
  "demo_msg b = \<lparr>rm_command = RELAY_COMMAND_DATA, rm_length = 1, rm_stream_id = 7, rm_is_relay_early = False, rm_body = [b]\<rparr>"

text \<open>
  Two messages: the first goes out on leg 1; then the window of leg 1 is full and the second
  goes out on leg 2, after a SWITCH.
\<close>

definition demo_sent :: "e2e option" where
  "demo_sent = Option.bind (run_send conflux_params_init (\<lambda>_. demo_circ 0) (demo_msg 1) demo_start)
     (run_send conflux_params_init (\<lambda>c. demo_circ (if c = 1 then 124 else 0)) (demo_msg 2))"

text \<open>Leg 2 is read first, so the second message waits in the queue for the first.\<close>

definition demo_end :: "e2e option" where
  "demo_end = do {
     s \<leftarrow> demo_sent;
     s \<leftarrow> run_recv conflux_params_init (demo_circ 0) 2 s;
     s \<leftarrow> run_recv conflux_params_init (demo_circ 0) 2 s;
     run_recv conflux_params_init (demo_circ 0) 1 s
   }"

lemma demo_start_reachable: "e2e_reachable p demo_start"
  by (rule e2e_reachable.init)
     (simp add: e2e_init_def demo_start_def demo_set_def demo_leg_def leg_ids_def)

lemma demo_sent_reachable: "demo_sent = Some s \<Longrightarrow> e2e_reachable conflux_params_init s"
  unfolding demo_sent_def bind_eq_Some_iff
  by (meson demo_start_reachable e2e_reachable.step run_send_step)

lemma demo_end_reachable: "demo_end = Some s \<Longrightarrow> e2e_reachable conflux_params_init s"
  unfolding demo_end_def bind_eq_Some_iff
  by (meson demo_sent_reachable e2e_reachable.step run_recv_step)

lemmas send_evals = run_send_def demo_start_def demo_set_def demo_leg_def demo_circ_def exit_circ_def demo_cc_def demo_msg_def
  conflux_decide_circ_for_send_def conflux_should_multiplex_def conflux_decide_next_circ_def
  conflux_pick_first_leg_def conflux_can_switch_def conflux_decide_circ_lowrtt_def circuit_ready_to_send_def
  circuit_ccontrol_def UINT64_MAX_def conflux_switch_leg_def conflux_get_leg_def conflux_note_cell_sent_def
  switch_command_payload wire_msg_def Let_def

lemmas recv_evals = run_recv_def conflux_process_switch_command_def conflux_receive_def conflux_process_relay_msg_def
  conflux_drain.simps conflux_dequeue_relay_msg_def conflux_validate_source_hop_def
  conflux_get_destination_hop_def conflux_cell_parse_switch_def trn_cell_conflux_switch_parse_def
  take_bytes_def msg_payload_def smartlist_pqueue_add_def smartlist_pqueue_pop_def smartlist_add_def UPDATE_IDX_def
  pqueue_sift_up.simps smartlist_get_def conflux_params_init_def conflux_params_get_max_oooq_def
  conflux_msg_alloc_cost_def be_decode_encode

lemma demo_sent_eval:
  "\<exists>s w. demo_sent = Some s \<and> chan s 1 = [demo_msg 1] \<and> chan s 2 = [w, demo_msg 2] \<and>
     sent s = [demo_msg 1, demo_msg 2] \<and> n_delivered (rcv_end s) = 0"
  by (simp add: demo_sent_def send_evals)

lemma demo_end_eval:
  "\<exists>s. demo_end = Some s \<and> (\<forall>c. chan s c = []) \<and> sent s = [demo_msg 1, demo_msg 2] \<and> length (delivered s) = 2"
  by (simp add: demo_end_def demo_sent_def send_evals recv_evals)

section \<open>Properties\<close>

text \<open>
  C1: In every reachable state of a conflux set, what the receiving end has handed to the
  streams is a prefix of what the sending end has sent: multiplexing over several legs never
  reorders, loses (in the middle) or duplicates a message.
\<close>

theorem conflux_in_order_delivery:
  "e2e_reachable p s \<Longrightarrow> delivered s = take (length (delivered s)) (sent s)"
  by (intro inv_delivered_prefix e2e_inv_reachable)

theorem conflux_in_order_delivery_witness:
  "\<exists>s. e2e_reachable conflux_params_init s \<and> length (delivered s) = 2 \<and> delivered s = [demo_msg 1, demo_msg 2]"
proof -
  obtain s where s: "demo_end = Some s" "sent s = [demo_msg 1, demo_msg 2]" "length (delivered s) = 2"
    using demo_end_eval by blast
  have "delivered s = take (length (delivered s)) (sent s)"
    by (rule conflux_in_order_delivery [OF demo_end_reachable [OF s(1)]])
  then show ?thesis using s demo_end_reachable [OF s(1)] by (intro exI [of _ s]) simp
qed

text \<open>
  C2: No message waits in the out-of-order queue for ever: once the legs are empty, everything
  that was sent has been delivered, in order.
\<close>

theorem conflux_complete_delivery:
  "e2e_reachable p s \<Longrightarrow> \<forall>c. chan s c = [] \<Longrightarrow> delivered s = sent s"
  by (intro inv_drained e2e_inv_reachable) simp_all

theorem conflux_complete_delivery_witness:
  "\<exists>s. e2e_reachable conflux_params_init s \<and> (\<forall>c. chan s c = []) \<and> delivered s = [demo_msg 1, demo_msg 2]"
proof -
  obtain s where s: "demo_end = Some s" "\<forall>c. chan s c = []" "sent s = [demo_msg 1, demo_msg 2]"
    using demo_end_eval by blast
  then show ?thesis
    using conflux_complete_delivery [OF demo_end_reachable [OF s(1)]] demo_end_reachable [OF s(1)]
    by (intro exI [of _ s]) simp
qed

text \<open>
  C3: The receiving end can always finish: as long as the undelivered messages fit under the
  limit of the out-of-order queue, there is a run of steps after which everything that was sent
  is delivered.
\<close>

theorem conflux_eventual_delivery:
  assumes "e2e_reachable p s" and "backlog s < unat (conflux_params_get_max_oooq p)"
  shows "\<exists>s'. (e2e_step p)\<^sup>*\<^sup>* s s' \<and> sent s' = sent s \<and> delivered s' = sent s"
  using recv_drains [OF e2e_inv_reachable [OF assms(1)] assms(2)] .

theorem conflux_eventual_delivery_witness:
  "\<exists>s s'. demo_sent = Some s \<and> delivered s \<noteq> sent s \<and>
     (e2e_step conflux_params_init)\<^sup>*\<^sup>* s s' \<and> delivered s' = [demo_msg 1, demo_msg 2]"
proof -
  obtain s where s: "demo_sent = Some s" "sent s = [demo_msg 1, demo_msg 2]" "n_delivered (rcv_end s) = 0"
    using demo_sent_eval by blast
  have r: "e2e_reachable conflux_params_init s" by (rule demo_sent_reachable [OF s(1)])
  have "delivered s = []" using e2e_inv_reachable [OF r] s(3) by (simp add: e2e_inv_def Let_def)
  moreover have "backlog s < unat (conflux_params_get_max_oooq conflux_params_init)"
    using s by (simp add: backlog_def msg_cost_def demo_msg_def conflux_params_get_max_oooq_def conflux_params_init_def)
  ultimately show ?thesis using conflux_eventual_delivery [OF r] s by fastforce
qed

text \<open>
  The receiving end never closes a circuit over sequence numbers: when a message arrives in a
  reachable state, a refusal comes from the check of the source hop or from the limit on the
  out-of-order queue, never from a message numbered at or below what was delivered.
\<close>

theorem conflux_no_sequence_close:
  assumes "e2e_reachable p s" and "chan s c = w # ws" and "conflux_should_multiplex (rm_command w)"
    and "conflux_receive (\<lambda>_. True) p (tot_bytes s) (rcv_end s) c circ hint w = (t, r, ms, ok, acts)"
  shows "Mark_for_close c END_CIRC_REASON_INTERNAL \<notin> set acts"
  by (rule receive_in_state [OF e2e_inv_reachable [OF assms(1)] assms(2-4)]) auto

theorem conflux_no_sequence_close_witness:
  "\<exists>s t r ms ok acts. demo_sent = Some s \<and>
     conflux_receive (\<lambda>_. True) conflux_params_init (tot_bytes s) (rcv_end s) 1 (demo_circ 0) None (demo_msg 1) =
       (t, r, ms, ok, acts) \<and> Mark_for_close 1 END_CIRC_REASON_INTERNAL \<notin> set acts"
proof -
  obtain s where s: "demo_sent = Some s" "chan s 1 = [demo_msg 1]" using demo_sent_eval by blast
  obtain t r ms ok acts where rcv: "conflux_receive (\<lambda>_. True) conflux_params_init (tot_bytes s) (rcv_end s) 1
      (demo_circ 0) None (demo_msg 1) = (t, r, ms, ok, acts)" by (metis prod_cases5)
  have "conflux_should_multiplex (rm_command (demo_msg 1))"
    by (simp add: demo_msg_def conflux_should_multiplex_def)
  from conflux_no_sequence_close [OF demo_sent_reachable [OF s(1)] s(2) this rcv] show ?thesis
    using s rcv by blast
qed

text \<open>
  The sending end never tears the set down over incoherent sequence numbers: in a reachable
  state with fewer than \<open>2 ^ 32 - 1\<close> messages sent, choosing a leg never marks the set for close.
\<close>

theorem conflux_sender_coherent:
  assumes "e2e_reachable p s" and "length (sent s) < 4294967295"
    and "conflux_decide_circ_for_send p True circs (snd_end s) orig cmd = Some (cfx', r, acts)"
  shows "Mark_all_for_close nn o' rs \<notin> set acts"
  using e2e_inv_reachable [OF assms(1)] assms(2,3)
  by (intro decide_for_send_no_close) (simp_all add: e2e_inv_def Let_def)

theorem conflux_sender_coherent_witness:
  "\<exists>cfx' r acts. conflux_decide_circ_for_send conflux_params_init True (\<lambda>_. demo_circ 0) demo_set 1 RELAY_COMMAND_DATA =
       Some (cfx', r, acts) \<and> Mark_all_for_close [] False END_CIRC_REASON_TORPROTOCOL \<notin> set acts"
proof -
  obtain cfx' r acts where d: "conflux_decide_circ_for_send conflux_params_init True (\<lambda>_. demo_circ 0)
      (snd_end demo_start) 1 RELAY_COMMAND_DATA = Some (cfx', r, acts)"
    by (simp add: send_evals)
  from conflux_sender_coherent [OF demo_start_reachable _ this] show ?thesis
    using d by (fastforce simp: demo_start_def)
qed

end
