(* ===== verification/TokenBucket.thy ===== *)
theory TokenBucket
  imports Prelude
begin

text \<open>
  \<^verbatim>\<open>lib/evloop/token_bucket.c\<close>: the token buckets that limit the rate of a stream after an XON.
  A bucket level is a C \<^verbatim>\<open>int32_t\<close>, kept as an \<^typ>\<open>int\<close>; the conversions to \<^verbatim>\<open>size_t\<close> and
  back to 32 bits are written out.  A division by a zero rate is the value \<^term>\<open>None\<close>.
\<close>

section \<open>Buckets\<close>

record token_bucket_cfg_t =
  cfg_rate :: u32
  cfg_burst :: int

type_synonym token_bucket_raw_t = int

record token_bucket_rw_t =
  rw_cfg :: token_bucket_cfg_t
  read_bucket :: token_bucket_raw_t
  write_bucket :: token_bucket_raw_t
  last_refilled_at_timestamp :: u32

record token_bucket_ctr_t =
  ctr_cfg :: token_bucket_cfg_t
  counter :: token_bucket_raw_t
  ctr_last_refilled_at :: u32

text \<open>The conversion of a wider value to \<^verbatim>\<open>int32_t\<close>.\<close>

definition to_int32 :: "int \<Rightarrow> int" where
  "to_int32 i = sint (word_of_int i :: u32)"

definition token_bucket_cfg_init :: "u32 \<Rightarrow> u32 \<Rightarrow> token_bucket_cfg_t" where
  "token_bucket_cfg_init rate burst =
     \<lparr>cfg_rate = rate, cfg_burst = to_int32 (int (unat (if burst > 2147483647 then 2147483647 else burst)))\<rparr>"

definition token_bucket_raw_reset :: "token_bucket_cfg_t \<Rightarrow> token_bucket_raw_t" where
  "token_bucket_raw_reset cfg = cfg_burst cfg"

definition token_bucket_raw_adjust :: "token_bucket_raw_t \<Rightarrow> token_bucket_cfg_t \<Rightarrow> token_bucket_raw_t" where
  "token_bucket_raw_adjust b cfg = min b (cfg_burst cfg)"

text \<open>The product \<^verbatim>\<open>cfg->rate * elapsed\<close> and the sum are computed in 32-bit unsigned arithmetic.\<close>

definition token_bucket_raw_refill_steps ::
  "token_bucket_raw_t \<Rightarrow> token_bucket_cfg_t \<Rightarrow> u32 \<Rightarrow> (token_bucket_raw_t \<times> bool) option" where
  "token_bucket_raw_refill_steps b cfg elapsed =
     (let was_empty = (b \<le> 0);
          gap = (word_of_int (cfg_burst cfg) :: u64) - word_of_int b
      in if cfg_rate cfg = 0 then None
         else let b' = (if ucast elapsed > gap div ucast (cfg_rate cfg) then cfg_burst cfg
                        else sint ((word_of_int b :: u32) + cfg_rate cfg * elapsed))
              in Some (b', was_empty \<and> b' > 0))"

definition token_bucket_raw_dec :: "token_bucket_raw_t \<Rightarrow> int \<Rightarrow> token_bucket_raw_t \<times> bool" where
  "token_bucket_raw_dec b n =
     (if n < 0 then (b, False)
      else (to_int32 (b - n), b > 0 \<and> n \<ge> b))"

definition token_bucket_raw_get :: "token_bucket_raw_t \<Rightarrow> nat" where
  "token_bucket_raw_get b = (if b \<ge> 0 then nat b else 0)"

section \<open>Read-write buckets\<close>

text \<open>
  \<open>stamp_ticks\<close> is \<^verbatim>\<open>STAMP_TICKS_PER_SECOND\<close> of the platform (953, 976 or 1000) in
  \<^verbatim>\<open>monotime_coarse_stamp_units_to_approx_msec\<close>.
\<close>

abbreviation "TICKS_PER_STEP \<equiv> 16"

definition monotime_coarse_stamp_units_to_approx_msec :: "u64 \<Rightarrow> u64 \<Rightarrow> u64" where
  "monotime_coarse_stamp_units_to_approx_msec stamp_ticks units = units * 1000 div stamp_ticks"

definition rate_per_sec_to_rate_per_step :: "u64 \<Rightarrow> u32 \<Rightarrow> u32" where
  "rate_per_sec_to_rate_per_step stamp_ticks rate =
     (let units = ucast rate * TICKS_PER_STEP;
          val = ucast (monotime_coarse_stamp_units_to_approx_msec stamp_ticks units div 1000) :: u32
      in if val \<noteq> 0 then val else 1)"

definition token_bucket_rw_adjust :: "u64 \<Rightarrow> token_bucket_rw_t \<Rightarrow> u32 \<Rightarrow> u32 \<Rightarrow> token_bucket_rw_t" where
  "token_bucket_rw_adjust stamp_ticks b rate burst =
     (let cfg = token_bucket_cfg_init (rate_per_sec_to_rate_per_step stamp_ticks rate) burst
      in b\<lparr>rw_cfg := cfg,
           read_bucket := token_bucket_raw_adjust (read_bucket b) cfg,
           write_bucket := token_bucket_raw_adjust (write_bucket b) cfg\<rparr>)"

definition token_bucket_rw_reset :: "token_bucket_rw_t \<Rightarrow> u32 \<Rightarrow> token_bucket_rw_t" where
  "token_bucket_rw_reset b now_ts_stamp =
     b\<lparr>read_bucket := token_bucket_raw_reset (rw_cfg b),
       write_bucket := token_bucket_raw_reset (rw_cfg b),
       last_refilled_at_timestamp := now_ts_stamp\<rparr>"

definition token_bucket_rw_init :: "u64 \<Rightarrow> u32 \<Rightarrow> u32 \<Rightarrow> u32 \<Rightarrow> token_bucket_rw_t" where
  "token_bucket_rw_init stamp_ticks rate burst now_ts_stamp =
     token_bucket_rw_reset
       (token_bucket_rw_adjust stamp_ticks
          \<lparr>rw_cfg = \<lparr>cfg_rate = 0, cfg_burst = 0\<rparr>, read_bucket = 0, write_bucket = 0,
           last_refilled_at_timestamp = 0\<rparr> rate burst)
       now_ts_stamp"

abbreviation "TB_READ \<equiv> 1 :: int"
abbreviation "TB_WRITE \<equiv> 2 :: int"

definition token_bucket_rw_refill :: "token_bucket_rw_t \<Rightarrow> u32 \<Rightarrow> (token_bucket_rw_t \<times> int) option" where
  "token_bucket_rw_refill b now_ts_stamp =
     (let elapsed_ticks = now_ts_stamp - last_refilled_at_timestamp b
      in if elapsed_ticks \<le> 1073741823
         then let elapsed_steps = elapsed_ticks div TICKS_PER_STEP
              in if elapsed_steps = 0 then Some (b, 0)
                 else do {
                   (r, fr) \<leftarrow> token_bucket_raw_refill_steps (read_bucket b) (rw_cfg b) elapsed_steps;
                   (w, fw) \<leftarrow> token_bucket_raw_refill_steps (write_bucket b) (rw_cfg b) elapsed_steps;
                   let flags = (if fr then 0 OR TB_READ else 0);
                   let flags = (if fw then flags OR TB_WRITE else flags);
                   Some (b\<lparr>read_bucket := r, write_bucket := w, last_refilled_at_timestamp := now_ts_stamp\<rparr>, flags)
                 }
         else Some (b\<lparr>last_refilled_at_timestamp := now_ts_stamp\<rparr>, 0))"

definition token_bucket_rw_dec_read :: "token_bucket_rw_t \<Rightarrow> int \<Rightarrow> token_bucket_rw_t \<times> bool" where
  "token_bucket_rw_dec_read b n =
     (let (r, e) = token_bucket_raw_dec (read_bucket b) n in (b\<lparr>read_bucket := r\<rparr>, e))"

definition token_bucket_rw_dec_write :: "token_bucket_rw_t \<Rightarrow> int \<Rightarrow> token_bucket_rw_t \<times> bool" where
  "token_bucket_rw_dec_write b n =
     (let (w, e) = token_bucket_raw_dec (write_bucket b) n in (b\<lparr>write_bucket := w\<rparr>, e))"

definition token_bucket_rw_dec :: "token_bucket_rw_t \<Rightarrow> int \<Rightarrow> int \<Rightarrow> token_bucket_rw_t \<times> int" where
  "token_bucket_rw_dec b n_read n_written =
     (let (b, er) = token_bucket_rw_dec_read b n_read;
          flags = (if er then 0 OR TB_READ else 0);
          (b, ew) = token_bucket_rw_dec_write b n_written;
          flags = (if ew then flags OR TB_WRITE else flags)
      in (b, flags))"

section \<open>Counter buckets\<close>

definition token_bucket_ctr_adjust :: "token_bucket_ctr_t \<Rightarrow> u32 \<Rightarrow> u32 \<Rightarrow> token_bucket_ctr_t" where
  "token_bucket_ctr_adjust b rate burst =
     (let cfg = token_bucket_cfg_init rate burst
      in b\<lparr>ctr_cfg := cfg, counter := token_bucket_raw_adjust (counter b) cfg\<rparr>)"

definition token_bucket_ctr_reset :: "token_bucket_ctr_t \<Rightarrow> u32 \<Rightarrow> token_bucket_ctr_t" where
  "token_bucket_ctr_reset b now_ts_sec =
     b\<lparr>counter := token_bucket_raw_reset (ctr_cfg b), ctr_last_refilled_at := now_ts_sec\<rparr>"

definition token_bucket_ctr_init :: "u32 \<Rightarrow> u32 \<Rightarrow> u32 \<Rightarrow> token_bucket_ctr_t" where
  "token_bucket_ctr_init rate burst now_ts_sec =
     token_bucket_ctr_reset
       (token_bucket_ctr_adjust
          \<lparr>ctr_cfg = \<lparr>cfg_rate = 0, cfg_burst = 0\<rparr>, counter = 0, ctr_last_refilled_at = 0\<rparr> rate burst)
       now_ts_sec"

definition token_bucket_ctr_refill :: "token_bucket_ctr_t \<Rightarrow> u32 \<Rightarrow> token_bucket_ctr_t option" where
  "token_bucket_ctr_refill b now_ts_sec =
     (let elapsed_sec = now_ts_sec - ctr_last_refilled_at b
      in if elapsed_sec \<le> 1073741823
         then do {
           (c, _) \<leftarrow> token_bucket_raw_refill_steps (counter b) (ctr_cfg b) elapsed_sec;
           Some (b\<lparr>counter := c, ctr_last_refilled_at := now_ts_sec\<rparr>)
         }
         else Some (b\<lparr>ctr_last_refilled_at := now_ts_sec\<rparr>))"

section \<open>The level of a bucket\<close>

text \<open>
  The range of a configuration and of a level: the burst is positive, the level is at most the
  burst, and both fit 32 bits.
\<close>

definition cfg_ok :: "token_bucket_cfg_t \<Rightarrow> bool" where
  "cfg_ok cfg = (cfg_rate cfg \<noteq> 0 \<and> 0 \<le> cfg_burst cfg \<and> cfg_burst cfg \<le> 2147483647)"

definition level_ok :: "token_bucket_cfg_t \<Rightarrow> token_bucket_raw_t \<Rightarrow> bool" where
  "level_ok cfg b = (- 2147483648 \<le> b \<and> b \<le> cfg_burst cfg)"

lemma sint_word_of_int_u32:
  assumes "- 2147483648 \<le> i" "i < 2147483648"
  shows "sint (word_of_int i :: u32) = i"
  using assms by (simp add: signed_of_int signed_take_bit_int_eq_self)

lemma to_int32_id: "- 2147483648 \<le> i \<Longrightarrow> i < 2147483648 \<Longrightarrow> to_int32 i = i"
  by (simp add: to_int32_def sint_word_of_int_u32)

lemma unat_gap:
  assumes "cfg_ok cfg" "level_ok cfg b"
  shows "unat ((word_of_int (cfg_burst cfg) :: u64) - word_of_int b) = nat (cfg_burst cfg - b)"
proof -
  have "(word_of_int (cfg_burst cfg) :: u64) - word_of_int b = word_of_int (cfg_burst cfg - b)" by simp
  moreover have "take_bit 64 (cfg_burst cfg - b) = cfg_burst cfg - b"
    using assms by (intro take_bit_int_eq_self) (auto simp: cfg_ok_def level_ok_def)
  ultimately have "uint ((word_of_int (cfg_burst cfg) :: u64) - word_of_int b) = cfg_burst cfg - b"
    by (simp only: uint_word_of_int_eq) simp
  then show ?thesis by (simp only: unat_eq_nat_uint)
qed

text \<open>The comparison of the elapsed time with the quotient decides whether the product fits the gap.\<close>

lemma less_div_iff: "0 < (r :: nat) \<Longrightarrow> (g div r < e) = (g < e * r)"
  by (metis div_less_iff_less_mult)

lemma refill_steps_eq:
  fixes e :: u32
  assumes c: "cfg_ok cfg" and l: "level_ok cfg b"
  defines "b' \<equiv> min (cfg_burst cfg) (b + int (unat (cfg_rate cfg)) * int (unat e))"
  shows "token_bucket_raw_refill_steps b cfg e = Some (b', b \<le> 0 \<and> b' > 0)"
proof -
  let ?gap = "(word_of_int (cfg_burst cfg) :: u64) - word_of_int b"
  let ?r = "unat (cfg_rate cfg)"
  have r: "0 < ?r" using c by (simp add: cfg_ok_def unat_gt_0)
  have cond: "(ucast e > ?gap div ucast (cfg_rate cfg)) = (nat (cfg_burst cfg - b) < unat e * ?r)"
    by (simp add: word_less_nat_alt unat_div unat_gap [OF c l] less_div_iff [OF r])
  have "(if ucast e > ?gap div ucast (cfg_rate cfg) then cfg_burst cfg
         else sint ((word_of_int b :: u32) + cfg_rate cfg * e)) = b'"
  proof (cases "nat (cfg_burst cfg - b) < unat e * ?r")
    case True
    then have "cfg_burst cfg - b < int ?r * int (unat e)"
      using l by (simp add: level_ok_def zless_nat_conj nat_less_iff mult.commute)
    then show ?thesis using True by (simp add: cond b'_def)
  next
    case False
    then have le: "int ?r * int (unat e) \<le> cfg_burst cfg - b"
      using l by (simp add: level_ok_def not_less le_nat_iff mult.commute)
    have nn: "0 \<le> int ?r * int (unat e)" by (intro mult_nonneg_nonneg of_nat_0_le_iff)
    have "(word_of_int b :: u32) + cfg_rate cfg * e = word_of_int (b + int ?r * int (unat e))" by simp
    moreover have "sint (word_of_int (b + int ?r * int (unat e)) :: u32) = b + int ?r * int (unat e)"
      using le nn c l unfolding cfg_ok_def level_ok_def by (intro sint_word_of_int_u32) linarith+
    ultimately show ?thesis using False le by (simp add: cond b'_def)
  qed
  then show ?thesis using c by (simp add: token_bucket_raw_refill_steps_def cfg_ok_def Let_def)
qed

lemma refill_steps_level:
  assumes "cfg_ok cfg" "level_ok cfg b" "token_bucket_raw_refill_steps b cfg e = Some (b', f)"
  shows "level_ok cfg b' \<and> b \<le> b' \<and> b' \<le> b + int (unat (cfg_rate cfg)) * int (unat e)"
proof -
  have "b' = min (cfg_burst cfg) (b + int (unat (cfg_rate cfg)) * int (unat e))"
    using assms(3) refill_steps_eq [OF assms(1,2), of e] by simp
  moreover have "0 \<le> int (unat (cfg_rate cfg)) * int (unat e)" by (intro mult_nonneg_nonneg of_nat_0_le_iff)
  ultimately show ?thesis using assms(1,2) unfolding cfg_ok_def level_ok_def by linarith
qed

definition rw_ok :: "token_bucket_rw_t \<Rightarrow> bool" where
  "rw_ok b = (cfg_ok (rw_cfg b) \<and> level_ok (rw_cfg b) (read_bucket b) \<and> level_ok (rw_cfg b) (write_bucket b))"

text \<open>A refill keeps the bucket within its limits and gives at most the rate for every whole step.\<close>

lemma rw_refill_level:
  assumes "rw_ok b" and "last_refilled_at_timestamp b \<le> t"
  shows "\<exists>b' f. token_bucket_rw_refill b t = Some (b', f) \<and> rw_ok b' \<and> rw_cfg b' = rw_cfg b
    \<and> read_bucket b \<le> read_bucket b' \<and> last_refilled_at_timestamp b \<le> last_refilled_at_timestamp b'
    \<and> read_bucket b' \<le> read_bucket b + int (unat (cfg_rate (rw_cfg b))) *
        int ((unat (last_refilled_at_timestamp b') - unat (last_refilled_at_timestamp b)) div 16)"
proof -
  let ?d = "t - last_refilled_at_timestamp b"
  have d: "unat ?d = unat t - unat (last_refilled_at_timestamp b)"
    using assms(2) by (simp add: unat_sub_nowrap word_le_nat_alt)
  obtain r fr where r: "token_bucket_raw_refill_steps (read_bucket b) (rw_cfg b) (?d div 16) = Some (r, fr)"
    using assms(1) refill_steps_eq by (simp add: rw_ok_def)
  obtain w fw where w: "token_bucket_raw_refill_steps (write_bucket b) (rw_cfg b) (?d div 16) = Some (w, fw)"
    using assms(1) refill_steps_eq by (simp add: rw_ok_def)
  have "unat (?d div 16) = (unat t - unat (last_refilled_at_timestamp b)) div 16"
    using d by (simp add: unat_div)
  then show ?thesis
    using assms r w refill_steps_level [OF _ _ r] refill_steps_level [OF _ _ w]
    by (auto simp: token_bucket_rw_refill_def rw_ok_def Let_def)
qed

section \<open>Rate limiting\<close>

text \<open>
  A run of a bucket: refills at given times and reads.  A reader is polite when it takes no more
  than \<^const>\<open>token_bucket_raw_get\<close> reports, and the clock does not go back.
\<close>

datatype bucket_op = Refill u32 | Read int

fun rw_run :: "token_bucket_rw_t \<Rightarrow> bucket_op list \<Rightarrow> token_bucket_rw_t option" where
  "rw_run b [] = Some b"
| "rw_run b (Refill t # ops) = do { (b, _) \<leftarrow> token_bucket_rw_refill b t; rw_run b ops }"
| "rw_run b (Read n # ops) = rw_run (fst (token_bucket_rw_dec_read b n)) ops"

fun rw_polite :: "token_bucket_rw_t \<Rightarrow> bucket_op list \<Rightarrow> bool" where
  "rw_polite b [] = True"
| "rw_polite b (Refill t # ops) =
     (last_refilled_at_timestamp b \<le> t \<and>
      (case token_bucket_rw_refill b t of None \<Rightarrow> True | Some (b', _) \<Rightarrow> rw_polite b' ops))"
| "rw_polite b (Read n # ops) =
     (0 \<le> n \<and> n \<le> int (token_bucket_raw_get (read_bucket b)) \<and> rw_polite (fst (token_bucket_rw_dec_read b n)) ops)"

fun read_total :: "bucket_op list \<Rightarrow> int" where
  "read_total [] = 0"
| "read_total (Refill t # ops) = read_total ops"
| "read_total (Read n # ops) = n + read_total ops"

definition tokens_between :: "token_bucket_rw_t \<Rightarrow> token_bucket_rw_t \<Rightarrow> int" where
  "tokens_between b b' = int (unat (cfg_rate (rw_cfg b))) *
     int ((unat (last_refilled_at_timestamp b') - unat (last_refilled_at_timestamp b)) div 16)"

lemma tokens_between_trans:
  assumes "last_refilled_at_timestamp a \<le> last_refilled_at_timestamp b"
    and "last_refilled_at_timestamp b \<le> last_refilled_at_timestamp c" and "rw_cfg a = rw_cfg b"
  shows "tokens_between a b + tokens_between b c \<le> tokens_between a c"
proof -
  let ?x = "unat (last_refilled_at_timestamp b) - unat (last_refilled_at_timestamp a)"
  let ?y = "unat (last_refilled_at_timestamp c) - unat (last_refilled_at_timestamp b)"
  have "?x div 16 + ?y div 16 \<le> (?x + ?y) div 16" by simp
  moreover have "?x + ?y = unat (last_refilled_at_timestamp c) - unat (last_refilled_at_timestamp a)"
    using assms(1,2) by (simp add: word_le_nat_alt)
  ultimately have "int (?x div 16) + int (?y div 16)
      \<le> int ((unat (last_refilled_at_timestamp c) - unat (last_refilled_at_timestamp a)) div 16)"
    by simp
  from mult_left_mono [OF this, of "int (unat (cfg_rate (rw_cfg a)))"] show ?thesis
    using assms(3) by (simp add: tokens_between_def distrib_left)
qed

lemma dec_read_polite:
  assumes "rw_ok b" and "0 \<le> n" and "n \<le> int (token_bucket_raw_get (read_bucket b))"
  shows "fst (token_bucket_rw_dec_read b n) = b\<lparr>read_bucket := read_bucket b - n\<rparr>"
    and "rw_ok (b\<lparr>read_bucket := read_bucket b - n\<rparr>)" and "min 0 (read_bucket b) \<le> read_bucket b - n"
  using assms
  by (auto simp: token_bucket_rw_dec_read_def token_bucket_raw_dec_def token_bucket_raw_get_def rw_ok_def
      cfg_ok_def level_ok_def to_int32_id split: if_splits)

lemma rw_run_account:
  assumes "rw_ok b" and "rw_polite b ops"
  shows "\<exists>b'. rw_run b ops = Some b' \<and> rw_ok b' \<and> rw_cfg b' = rw_cfg b
    \<and> last_refilled_at_timestamp b \<le> last_refilled_at_timestamp b' \<and> min 0 (read_bucket b) \<le> read_bucket b'
    \<and> read_bucket b' + read_total ops \<le> read_bucket b + tokens_between b b'"
  using assms
proof (induction b ops rule: rw_run.induct)
  case (1 b)
  then show ?case by (simp add: tokens_between_def)
next
  case (2 b t ops)
  then obtain b1 f where b1: "token_bucket_rw_refill b t = Some (b1, f)" "rw_ok b1" "rw_cfg b1 = rw_cfg b"
      "read_bucket b \<le> read_bucket b1" "last_refilled_at_timestamp b \<le> last_refilled_at_timestamp b1"
      "read_bucket b1 \<le> read_bucket b + tokens_between b b1"
    using rw_refill_level [of b t] by (auto simp: tokens_between_def)
  with 2 obtain b' where b': "rw_run b1 ops = Some b'" "rw_ok b'" "rw_cfg b' = rw_cfg b1"
      "last_refilled_at_timestamp b1 \<le> last_refilled_at_timestamp b'" "min 0 (read_bucket b1) \<le> read_bucket b'"
      "read_bucket b' + read_total ops \<le> read_bucket b1 + tokens_between b1 b'"
    by fastforce
  show ?case
  proof (intro exI conjI)
    show "rw_run b (Refill t # ops) = Some b'" using b1 b' by simp
    show "rw_ok b'" "rw_cfg b' = rw_cfg b" using b1 b' by simp_all
    show "last_refilled_at_timestamp b \<le> last_refilled_at_timestamp b'" using b1(5) b'(4) by (rule order_trans)
    show "min 0 (read_bucket b) \<le> read_bucket b'" using b1(4) b'(5) by linarith
    show "read_bucket b' + read_total (Refill t # ops) \<le> read_bucket b + tokens_between b b'"
      using b1(6) b'(6) tokens_between_trans [OF b1(5) b'(4) b1(3) [symmetric]] by simp
  qed
next
  case (3 b n ops)
  then have n: "0 \<le> n" "n \<le> int (token_bucket_raw_get (read_bucket b))" by simp_all
  note d = dec_read_polite [OF 3(2) n]
  from 3 obtain b' where b': "rw_run (b\<lparr>read_bucket := read_bucket b - n\<rparr>) ops = Some b'" "rw_ok b'" "rw_cfg b' = rw_cfg b"
      "last_refilled_at_timestamp b \<le> last_refilled_at_timestamp b'" "min 0 (read_bucket b - n) \<le> read_bucket b'"
      "read_bucket b' + read_total ops \<le> read_bucket b - n + tokens_between b b'"
    using d by (auto simp: tokens_between_def)
  then show ?case using d by (intro exI [of _ b']) simp
qed

lemma cfg_init_ok: "r \<noteq> 0 \<Longrightarrow> cfg_ok (token_bucket_cfg_init r burst)"
proof -
  let ?b = "if burst > 2147483647 then 2147483647 else burst"
  have "unat ?b \<le> 2147483647" by (simp add: word_less_nat_alt)
  then have "to_int32 (int (unat ?b)) = int (unat ?b)" by (intro to_int32_id) linarith+
  then show "r \<noteq> 0 \<Longrightarrow> ?thesis" using \<open>unat ?b \<le> 2147483647\<close>
    unfolding cfg_ok_def token_bucket_cfg_init_def by (simp del: of_nat_unat)
qed

lemma rate_per_step_nz [simp]: "rate_per_sec_to_rate_per_step st rate \<noteq> 0"
  by (simp add: rate_per_sec_to_rate_per_step_def Let_def)

lemma rw_adjust_ok:
  assumes "rw_ok b"
  shows "rw_ok (token_bucket_rw_adjust st b rate burst)"
  using assms cfg_init_ok [OF rate_per_step_nz, of st rate burst]
  by (auto simp: rw_ok_def token_bucket_rw_adjust_def Let_def level_ok_def token_bucket_raw_adjust_def cfg_ok_def)

lemma rw_init_ok: "rw_ok (token_bucket_rw_init st rate burst now)"
  using cfg_init_ok [OF rate_per_step_nz, of st rate burst]
  by (auto simp: rw_ok_def token_bucket_rw_init_def token_bucket_rw_reset_def token_bucket_rw_adjust_def Let_def
      level_ok_def token_bucket_raw_reset_def cfg_ok_def)

text \<open>
  C29: The refill of a bucket, computed with an unsigned gap, a quotient and a wrapping 32-bit sum,
  is the mathematical refill: the level grows by rate times steps, up to the burst, for every
  level from \<open>INT32_MIN\<close> to the burst and every number of steps; the result tells whether the
  bucket was empty and is no longer.
\<close>

theorem token_bucket_refill_spec:
  assumes "0 < cfg_rate cfg" and "0 \<le> cfg_burst cfg" and "cfg_burst cfg \<le> INT32_MAX"
    and "INT32_MIN \<le> b" and "b \<le> cfg_burst cfg"
  shows "token_bucket_raw_refill_steps b cfg e =
    Some (min (cfg_burst cfg) (b + int (unat (cfg_rate cfg)) * int (unat e)),
          b \<le> 0 \<and> 0 < min (cfg_burst cfg) (b + int (unat (cfg_rate cfg)) * int (unat e)))"
proof -
  have "cfg_ok cfg" "level_ok cfg b"
    using assms by (auto simp: cfg_ok_def level_ok_def INT32_MAX_def INT32_MIN_def word_neq_0_conv)
  from refill_steps_eq [OF this] show ?thesis by simp
qed

theorem token_bucket_refill_spec_witness:
  "token_bucket_raw_refill_steps (- 2147483648) \<lparr>cfg_rate = 4294967295, cfg_burst = 2147483647\<rparr> 1 = Some (2147483647, True)
    \<and> token_bucket_raw_refill_steps (- 10) \<lparr>cfg_rate = 7, cfg_burst = 100\<rparr> 2 = Some (4, True)"
  using token_bucket_refill_spec [of "\<lparr>cfg_rate = 4294967295, cfg_burst = 2147483647\<rparr>" "- 2147483648" 1]
    token_bucket_refill_spec [of "\<lparr>cfg_rate = 7, cfg_burst = 100\<rparr>" "- 10" 2]
  by (simp add: INT32_MAX_def INT32_MIN_def)

text \<open>
  C28: A token bucket limits the rate: whatever the order of refills and reads, a reader that takes
  no more than the bucket reports reads at most the level it started with plus the configured rate
  for every whole step of 16 ticks that passed, and no refill ever fails.
\<close>

theorem token_bucket_rate_limit:
  assumes "rw_ok b" and "rw_polite b ops"
  shows "\<exists>b'. rw_run b ops = Some b' \<and> rw_ok b' \<and>
    read_total ops \<le> max 0 (read_bucket b) + int (unat (cfg_rate (rw_cfg b))) *
      int ((unat (last_refilled_at_timestamp b') - unat (last_refilled_at_timestamp b)) div 16)"
  using rw_run_account [OF assms] by (fastforce simp: tokens_between_def)

definition demo_bucket :: token_bucket_rw_t where
  "demo_bucket = token_bucket_rw_init 1000 1000 50 0"

definition demo_ops :: "bucket_op list" where
  "demo_ops = [Read 50, Refill 15, Refill 33, Read 32]"

theorem token_bucket_rate_limit_witness:
  "\<exists>b'. rw_run demo_bucket demo_ops = Some b' \<and> rw_ok b' \<and> read_total demo_ops = 82 \<and>
    82 \<le> 50 + 16 * int ((unat (last_refilled_at_timestamp b') - 0) div 16)"
proof -
  have ok: "rw_ok demo_bucket" by (simp add: demo_bucket_def rw_init_ok)
  have pol: "rw_polite demo_bucket demo_ops" by code_simp
  have lvl: "read_bucket demo_bucket = 50" "cfg_rate (rw_cfg demo_bucket) = 16"
    "last_refilled_at_timestamp demo_bucket = 0" "read_total demo_ops = 82" by code_simp+
  from token_bucket_rate_limit [OF ok pol] show ?thesis by (simp add: lvl)
qed

end
