(* ===== verification/ConfluxUtil.thy ===== *)
theory ConfluxUtil
  imports ConfluxSend TokenBucket
begin

text \<open>
  \<^verbatim>\<open>core/or/conflux_util.c\<close>: what the stream layer asks of a circuit that may be part of a set:
  its package window, whether data can be sent, where a cell may come from, and the fields that
  all legs of a set share.  \<open>circs\<close> is the memory that circuit pointers refer to.
\<close>

section \<open>Windows\<close>

text \<open>
  \<open>cfx\<close> is the object \<^verbatim>\<open>circ->conflux\<close> points to; the result holds it back, because choosing
  the next circuit may set its current leg.  \<open>hop\<close> is the \<^verbatim>\<open>cpath\<close> argument.
\<close>

definition circuit_get_package_window ::
  "conflux_params_cache \<Rightarrow> (circ_id \<Rightarrow> circuit_t) \<Rightarrow> conflux_t option \<Rightarrow> circ_id \<Rightarrow> crypt_path_t option \<Rightarrow>
   (conflux_t option \<times> int) option" where
  "circuit_get_package_window p circs cfx c hop =
     (if marked_for_close (circs c) \<noteq> 0 then Some (cfx, 0)
      else case cfx of
        None \<Rightarrow> Some (None, congestion_control_get_package_window (circs c) hop)
      | Some x \<Rightarrow>
          (if in_full_teardown x then Some (cfx, 0)
           else do {
             (x, next) \<leftarrow> conflux_decide_next_circ p circs x;
             (case next of
                None \<Rightarrow> Some (Some x, 0)
              | Some d \<Rightarrow>
                  (if is_origin (circs d)
                   then do {
                     last \<leftarrow> cpath_last (circs d);
                     Some (Some x, congestion_control_get_package_window (circs d) (Some last))
                   }
                   else Some (Some x, congestion_control_get_package_window (circs d) hop)))
           }))"

definition conflux_can_send ::
  "conflux_params_cache \<Rightarrow> (circ_id \<Rightarrow> circuit_t) \<Rightarrow> conflux_t \<Rightarrow> (conflux_t \<times> bool) option" where
  "conflux_can_send p circs cfx = do {
     (cfx, send_circ) \<leftarrow> conflux_decide_next_circ p circs cfx;
     Some (cfx, send_circ \<noteq> None)
   }"

section \<open>Streams and hops\<close>

text \<open>
  The part of a stream that windows, flow control and conflux use.  \<open>conn_is_ap\<close> says that the
  base connection has type \<^verbatim>\<open>CONN_TYPE_AP\<close>, \<open>has_hs_ident\<close> that \<^verbatim>\<open>hs_ident\<close> is set, and
  \<open>outbuf_len\<close> is what \<^verbatim>\<open>connection_get_outbuf_len\<close> returns.
\<close>

record edge_connection_t =
  conn_is_ap :: bool
  outbuf_len :: u64
  e_package_window :: int
  e_deliver_window :: int
  on_circuit :: "circ_id option"
  cpath_layer :: "crypt_path_t option"
  has_hs_ident :: bool
  bucket :: token_bucket_rw_t
  drain_start_usec :: u64
  xoff_grace_period_start_usec :: u64
  drained_bytes :: u32
  prev_drained_bytes :: u32
  ewma_drain_rate :: u32
  ewma_rate_last_sent :: u32
  total_bytes_xmit :: u32
  num_xoff_recv :: u8
  num_xon_recv :: u8
  xoff_sent :: bool
  xoff_received :: bool

text \<open>The last hop of a leg of an origin set; the code dereferences the path without a test.\<close>

fun leg_last_hop :: "(circ_id \<Rightarrow> circuit_t) \<Rightarrow> conflux_leg_t list \<Rightarrow> nat option \<Rightarrow> bool option" where
  "leg_last_hop circs [] hop = Some False"
| "leg_last_hop circs (l # ls) hop = do {
     last \<leftarrow> cpath_last (circs (leg_circ l));
     if Some (cp_id last) = hop then Some True else leg_last_hop circs ls hop
   }"

definition edge_uses_cpath ::
  "(circ_id \<Rightarrow> circuit_t) \<Rightarrow> (cfx_id \<Rightarrow> conflux_t) \<Rightarrow> edge_connection_t \<Rightarrow> nat option \<Rightarrow> bool option" where
  "edge_uses_cpath circs cfxs conn hop =
     (case on_circuit conn of
        None \<Rightarrow> Some False
      | Some c \<Rightarrow>
          (if is_origin (circs c)
           then (case conflux (circs c) of
                   Some x \<Rightarrow> leg_last_hop circs (legs (cfxs x)) hop
                 | None \<Rightarrow> Some (hop = map_option cp_id (cpath_layer conn)))
           else Some (hop = None)))"

text \<open>The loop over the legs of \<^verbatim>\<open>edge_get_max_rtt\<close>.\<close>

fun max_rtt_loop :: "(circ_id \<Rightarrow> circuit_t) \<Rightarrow> conflux_leg_t list \<Rightarrow> u64 \<Rightarrow> u64 option" where
  "max_rtt_loop circs [] m = Some m"
| "max_rtt_loop circs (l # ls) m = do {
     cc \<leftarrow> circuit_ccontrol (circs (leg_circ l));
     max_rtt_loop circs ls (if max_rtt_usec cc > m then max_rtt_usec cc else m)
   }"

definition edge_get_max_rtt ::
  "(circ_id \<Rightarrow> circuit_t) \<Rightarrow> (cfx_id \<Rightarrow> conflux_t) \<Rightarrow> edge_connection_t \<Rightarrow> u64 option" where
  "edge_get_max_rtt circs cfxs stream =
     (case on_circuit stream of
        None \<Rightarrow> Some 0
      | Some c \<Rightarrow>
          (case conflux (circs c) of
             Some x \<Rightarrow> max_rtt_loop circs (legs (cfxs x)) 0
           | None \<Rightarrow>
               (case c_ccontrol (circs c) of
                  Some cc \<Rightarrow> Some (max_rtt_usec cc)
                | None \<Rightarrow>
                    (case cpath_layer stream of
                       None \<Rightarrow> Some 0
                     | Some h \<Rightarrow> (case cp_ccontrol h of None \<Rightarrow> Some 0 | Some cc \<Rightarrow> Some (max_rtt_usec cc))))))"

definition relay_crypt_from_last_hop ::
  "(circ_id \<Rightarrow> circuit_t) \<Rightarrow> (cfx_id \<Rightarrow> conflux_t) \<Rightarrow> circ_id \<Rightarrow> nat \<Rightarrow> bool option" where
  "relay_crypt_from_last_hop circs cfxs c layer_hint = do {
     last \<leftarrow> cpath_last (circs c);
     (case conflux (circs c) of
        Some x \<Rightarrow> leg_last_hop circs (legs (cfxs x)) (Some layer_hint)
      | None \<Rightarrow> Some (layer_hint = cp_id last))
   }"

section \<open>Fields that the legs share\<close>

text \<open>Writing to the circuit of every leg, in order.\<close>

definition for_each_leg ::
  "conflux_t \<Rightarrow> (circuit_t \<Rightarrow> circuit_t) \<Rightarrow> (circ_id \<Rightarrow> circuit_t) \<Rightarrow> circ_id \<Rightarrow> circuit_t" where
  "for_each_leg cfx f circs = foldl (\<lambda>m l. m(leg_circ l := f (m (leg_circ l)))) circs (legs cfx)"

definition on_set ::
  "(cfx_id \<Rightarrow> conflux_t) \<Rightarrow> circ_id \<Rightarrow> (circuit_t \<Rightarrow> circuit_t) \<Rightarrow> (circ_id \<Rightarrow> circuit_t) \<Rightarrow> circ_id \<Rightarrow> circuit_t" where
  "on_set cfxs c f circs = (case conflux (circs c) of None \<Rightarrow> circs | Some x \<Rightarrow> for_each_leg (cfxs x) f circs)"

definition conflux_update_p_streams ::
  "(cfx_id \<Rightarrow> conflux_t) \<Rightarrow> circ_id \<Rightarrow> nat \<Rightarrow> (circ_id \<Rightarrow> circuit_t) \<Rightarrow> circ_id \<Rightarrow> circuit_t" where
  "conflux_update_p_streams cfxs c stream = on_set cfxs c (\<lambda>k. k\<lparr>p_streams := stream\<rparr>)"

definition conflux_update_n_streams ::
  "(cfx_id \<Rightarrow> conflux_t) \<Rightarrow> circ_id \<Rightarrow> nat \<Rightarrow> (circ_id \<Rightarrow> circuit_t) \<Rightarrow> circ_id \<Rightarrow> circuit_t" where
  "conflux_update_n_streams cfxs c stream = on_set cfxs c (\<lambda>k. k\<lparr>n_streams := stream\<rparr>)"

definition conflux_update_resolving_streams ::
  "(cfx_id \<Rightarrow> conflux_t) \<Rightarrow> circ_id \<Rightarrow> nat \<Rightarrow> (circ_id \<Rightarrow> circuit_t) \<Rightarrow> circ_id \<Rightarrow> circuit_t" where
  "conflux_update_resolving_streams cfxs c stream = on_set cfxs c (\<lambda>k. k\<lparr>resolving_streams := stream\<rparr>)"

definition conflux_update_half_streams ::
  "(cfx_id \<Rightarrow> conflux_t) \<Rightarrow> circ_id \<Rightarrow> nat \<Rightarrow> (circ_id \<Rightarrow> circuit_t) \<Rightarrow> circ_id \<Rightarrow> circuit_t" where
  "conflux_update_half_streams cfxs c half = on_set cfxs c (\<lambda>k. k\<lparr>half_streams := half\<rparr>)"

definition sync_from :: "circuit_t \<Rightarrow> circuit_t \<Rightarrow> circuit_t" where
  "sync_from ref k = k\<lparr>next_stream_id := next_stream_id ref, timestamp_dirty := timestamp_dirty ref,
     circuit_idle_timeout := circuit_idle_timeout ref, unusable_for_new_conns := unusable_for_new_conns ref\<rparr>"

definition conflux_sync_circ_fields ::
  "conflux_t \<Rightarrow> circ_id \<Rightarrow> (circ_id \<Rightarrow> circuit_t) \<Rightarrow> circ_id \<Rightarrow> circuit_t" where
  "conflux_sync_circ_fields cfx ref_circ circs =
     foldl (\<lambda>m l. if leg_circ l = ref_circ then m
                  else m(leg_circ l := sync_from (m ref_circ) (m (leg_circ l)))) circs (legs cfx)"

text \<open>Whether all the non-fatal asserts of the validation hold; without legs it aborts.\<close>

definition conflux_validate_stream_lists :: "(circ_id \<Rightarrow> circuit_t) \<Rightarrow> conflux_t \<Rightarrow> bool option" where
  "conflux_validate_stream_lists circs cfx =
     (case smartlist_get (legs cfx) 0 of
        None \<Rightarrow> None
      | Some first \<Rightarrow>
          (let f = circs (leg_circ first)
           in Some (list_all (\<lambda>l. let k = circs (leg_circ l)
                in if is_origin f
                   then p_streams k = p_streams f \<and> half_streams k = half_streams f \<and> next_stream_id k = next_stream_id f
                   else n_streams k = n_streams f \<and> resolving_streams k = resolving_streams f) (legs cfx))))"

text \<open>The count of \<^verbatim>\<open>conflux_validate_legs\<close> and whether it is within the limit.\<close>

definition conflux_validate_legs :: "conflux_params_cache \<Rightarrow> (circ_id \<Rightarrow> circuit_t) \<Rightarrow> conflux_t \<Rightarrow> bool" where
  "conflux_validate_legs p circs cfx =
     (length (filter (\<lambda>l. conflux_pending_nonce (circs (leg_circ l)) = None \<and> conflux (circs (leg_circ l)) \<noteq> None
                \<and> circ_rtts_usec l > 0) (legs cfx)) \<le> unat (conflux_params_get_num_legs_set p))"

definition conflux_get_nonce :: "(cfx_id \<Rightarrow> conflux_t) \<Rightarrow> circuit_t \<Rightarrow> nonce option" where
  "conflux_get_nonce cfxs circ =
     (case conflux_pending_nonce circ of
        Some n \<Rightarrow> Some n
      | None \<Rightarrow> (case conflux circ of Some x \<Rightarrow> Some (cfx_nonce (cfxs x)) | None \<Rightarrow> None))"

definition conflux_get_circ_rtt :: "(cfx_id \<Rightarrow> conflux_t) \<Rightarrow> (circ_id \<Rightarrow> circuit_t) \<Rightarrow> circ_id \<Rightarrow> u64" where
  "conflux_get_circ_rtt cfxs circs c =
     (case conflux (circs c) of
        None \<Rightarrow> 0
      | Some x \<Rightarrow> (case conflux_get_leg (cfxs x) c of None \<Rightarrow> 0 | Some l \<Rightarrow> circ_rtts_usec l))"

section \<open>Ready legs\<close>

text \<open>Whatever the algorithm, the leg it picks is ready to send.\<close>

lemma lowrtt_loop_ready:
  "lowrtt_loop circs ls m best = Some (Some c) \<Longrightarrow>
   (\<And>k. best = Some k \<Longrightarrow> circuit_ready_to_send (circs k) = Some True) \<Longrightarrow> circuit_ready_to_send (circs c) = Some True"
proof (induction ls arbitrary: m best)
  case (Cons l ls)
  then obtain r where r: "circuit_ready_to_send (circs (leg_circ l)) = Some r" by (auto simp: bind_eq_Some_iff)
  show ?case
  proof (cases "r \<and> circ_rtts_usec l \<noteq> 0 \<and> circ_rtts_usec l < m")
    case True
    then have "lowrtt_loop circs ls (circ_rtts_usec l) (Some (leg_circ l)) = Some (Some c)"
      using Cons.prems(1) r by simp
    then show ?thesis using r True by (intro Cons.IH) auto
  next
    case False
    then have "lowrtt_loop circs ls m best = Some (Some c)"
      using Cons.prems(1) r by (auto split: if_splits)
    then show ?thesis using Cons.prems(2) by (intro Cons.IH)
  qed
qed auto

lemma next_circ_ready:
  assumes "conflux_decide_next_circ p circs cfx = Some (cfx', Some c)"
  shows "circuit_ready_to_send (circs c) = Some True"
proof -
  have m: "conflux_decide_circ_minrtt circs x = Some (Some c) \<Longrightarrow> ?thesis" for x
    by (auto simp: conflux_decide_circ_minrtt_def bind_eq_Some_iff split: option.splits if_splits)
  have l: "conflux_decide_circ_lowrtt circs x = Some (Some c) \<Longrightarrow> ?thesis" for x
    using lowrtt_loop_ready [of circs "legs x" UINT64_MAX None c]
    by (auto simp: conflux_decide_circ_lowrtt_def bind_eq_Some_iff)
  have w: "conflux_decide_circ_cwndrtt circs x = Some (Some c) \<Longrightarrow> ?thesis" for x
    by (auto simp: conflux_decide_circ_cwndrtt_def bind_eq_Some_iff split: option.splits if_splits prod.splits)
  show ?thesis
    using assms m l w
    by (auto simp: conflux_decide_next_circ_def bind_eq_Some_iff Let_def
        split: option.splits if_splits conflux_alg_t.splits prod.splits)
qed

lemma ready_window_pos:
  assumes "circuit_ready_to_send circ = Some True" "hop = (if is_origin circ then cpath_last circ else None)"
  shows "0 < congestion_control_get_package_window circ hop"
proof -
  obtain cc where cc: "circuit_ccontrol circ = Some cc" "inflight cc < cwnd cc"
    using assms(1) by (auto simp: circuit_ready_to_send_def bind_eq_Some_iff Let_def split: if_splits)
  have "hop_ccontrol circ hop = Some cc"
    using cc(1) assms(2) by (auto simp: circuit_ccontrol_def hop_ccontrol_def split: if_splits option.splits)
  moreover have "0 < unat (cwnd cc - inflight cc)" using cc(2) by (auto simp: unat_gt_0)
  then have "0 < int (unat (cwnd cc - inflight cc))" by linarith
  ultimately show ?thesis
    using cc(2) by (auto simp: congestion_control_get_package_window_def INT32_MAX_def)
qed

section \<open>Shared fields\<close>

lemma for_each_leg_apply:
  assumes "\<And>k. f (f k) = f k"
  shows "for_each_leg cfx f circs c = (if c \<in> set (leg_ids cfx) then f (circs c) else circs c)"
proof -
  have "foldl (\<lambda>m l. m(leg_circ l := f (m (leg_circ l)))) circs ls c =
      (if c \<in> leg_circ ` set ls then f (circs c) else circs c)" for ls :: "conflux_leg_t list"
    by (induction ls arbitrary: circs) (use assms in auto)
  then show ?thesis by (simp add: for_each_leg_def leg_ids_def)
qed

lemma sync_apply:
  "conflux_sync_circ_fields cfx ref circs c =
     (if c \<in> set (leg_ids cfx) \<and> c \<noteq> ref then sync_from (circs ref) (circs c) else circs c)"
proof -
  have "foldl (\<lambda>m l. if leg_circ l = ref then m else m(leg_circ l := sync_from (m ref) (m (leg_circ l)))) circs ls c =
      (if c \<in> leg_circ ` set ls \<and> c \<noteq> ref then sync_from (circs ref) (circs c) else circs c)" for ls :: "conflux_leg_t list"
    by (induction ls arbitrary: circs) (auto simp: sync_from_def)
  then show ?thesis by (simp add: conflux_sync_circ_fields_def leg_ids_def)
qed

lemma first_leg_mem: "smartlist_get (legs cfx) 0 = Some l \<Longrightarrow> leg_circ l \<in> set (leg_ids cfx)"
  by (auto simp: smartlist_get_def leg_ids_def split: if_splits)

end
