(* ===== verification/ConfluxSched.thy ===== *)
theory ConfluxSched
  imports ConfluxUtil
begin

text \<open>
  The scheduling algorithms do what they promise: the leg they pick is ready and has the lowest
  RTT among the legs they consider, choosing a leg never aborts on a well-formed set, and the
  package window agrees with the scheduler.
\<close>

section \<open>Lowest RTT\<close>

definition measured :: "conflux_leg_t \<Rightarrow> bool" where
  "measured l = (circ_rtts_usec l \<noteq> 0 \<and> circ_rtts_usec l < UINT64_MAX)"

lemma min_rtt_leg_spec:
  "min_rtt_leg ls m best = (m', best') \<Longrightarrow> m' \<le> m \<and>
   (\<forall>k\<in>set ls. circ_rtts_usec k \<noteq> 0 \<longrightarrow> m' \<le> circ_rtts_usec k \<or> m' = m) \<and>
   (\<forall>k\<in>set ls. circ_rtts_usec k \<noteq> 0 \<longrightarrow> m \<le> circ_rtts_usec k \<or> m' < m) \<and>
   (m' < m \<longrightarrow> (\<exists>l\<in>set ls. best' = Some l \<and> circ_rtts_usec l = m' \<and> m' \<noteq> 0)) \<and> (m' = m \<longrightarrow> best' = best)"
proof (induction ls m best rule: min_rtt_leg.induct)
  case (2 l ls m best)
  show ?case
  proof (cases "circ_rtts_usec l \<noteq> 0 \<and> circ_rtts_usec l < m")
    case True
    then have e: "min_rtt_leg ls (circ_rtts_usec l) (Some l) = (m', best')" using "2.prems" by simp
    show ?thesis using "2.IH"(1) [OF True e] True by (auto simp: not_less dest: le_neq_trans)
  next
    case False
    then have e: "min_rtt_leg ls m best = (m', best')" using "2.prems" by auto
    show ?thesis using "2.IH"(2) [OF False e] False by (auto simp: not_less)
  qed
qed auto

lemma min_rtt_leg_least:
  assumes "min_rtt_leg ls UINT64_MAX None = (m, best)"
  shows "(best = None \<longrightarrow> (\<forall>k\<in>set ls. \<not> measured k)) \<and>
    (\<forall>l. best = Some l \<longrightarrow> l \<in> set ls \<and> measured l \<and> (\<forall>k\<in>set ls. circ_rtts_usec k \<noteq> 0 \<longrightarrow> circ_rtts_usec l \<le> circ_rtts_usec k))"
proof (cases "m = UINT64_MAX")
  case True
  then show ?thesis using min_rtt_leg_spec [OF assms] by (auto simp: measured_def not_less)
next
  case False
  then have "m < UINT64_MAX" using min_rtt_leg_spec [OF assms] by auto
  then show ?thesis using min_rtt_leg_spec [OF assms] by (auto simp: measured_def)
qed

lemma lowrtt_loop_spec:
  "lowrtt_loop circs ls m best = Some r \<Longrightarrow>
   (r = best \<and> (\<forall>k\<in>set ls. circuit_ready_to_send (circs (leg_circ k)) = Some True \<longrightarrow>
                   circ_rtts_usec k = 0 \<or> m \<le> circ_rtts_usec k)) \<or>
   (\<exists>l\<in>set ls. r = Some (leg_circ l) \<and> circuit_ready_to_send (circs (leg_circ l)) = Some True \<and>
      circ_rtts_usec l \<noteq> 0 \<and> circ_rtts_usec l < m \<and>
      (\<forall>k\<in>set ls. circuit_ready_to_send (circs (leg_circ k)) = Some True \<longrightarrow>
                   circ_rtts_usec k = 0 \<or> circ_rtts_usec l \<le> circ_rtts_usec k))"
proof (induction ls arbitrary: m best)
  case (Cons l ls)
  then obtain b where b: "circuit_ready_to_send (circs (leg_circ l)) = Some b" by (auto simp: bind_eq_Some_iff)
  show ?case
  proof (cases "b \<and> circ_rtts_usec l \<noteq> 0 \<and> circ_rtts_usec l < m")
    case True
    then have "lowrtt_loop circs ls (circ_rtts_usec l) (Some (leg_circ l)) = Some r" using Cons.prems b by simp
    then show ?thesis using Cons.IH [of "circ_rtts_usec l" "Some (leg_circ l)"] b True by fastforce
  next
    case False
    then have "lowrtt_loop circs ls m best = Some r" using Cons.prems b by (auto split: if_splits)
    moreover have skip: "circuit_ready_to_send (circs (leg_circ l)) = Some True \<longrightarrow> circ_rtts_usec l = 0 \<or> m \<le> circ_rtts_usec l"
      using False b by (auto simp: not_less)
    ultimately consider
      "r = best \<and> (\<forall>k\<in>set ls. circuit_ready_to_send (circs (leg_circ k)) = Some True \<longrightarrow> circ_rtts_usec k = 0 \<or> m \<le> circ_rtts_usec k)"
    | x where "x \<in> set ls" "r = Some (leg_circ x)" "circuit_ready_to_send (circs (leg_circ x)) = Some True"
        "circ_rtts_usec x \<noteq> 0" "circ_rtts_usec x < m"
        "\<forall>k\<in>set ls. circuit_ready_to_send (circs (leg_circ k)) = Some True \<longrightarrow> circ_rtts_usec k = 0 \<or> circ_rtts_usec x \<le> circ_rtts_usec k"
      using Cons.IH [of m best] by blast
    then show ?thesis
    proof cases
      case 1
      then show ?thesis using skip by simp
    next
      case (2 x)
      moreover have "circ_rtts_usec x \<le> circ_rtts_usec l" if "m \<le> circ_rtts_usec l"
        using that 2(5) by (meson less_imp_le order_trans)
      ultimately show ?thesis using skip by (intro disjI2 bexI [of _ x]) auto
    qed
  qed
qed simp

section \<open>Choosing never aborts\<close>

text \<open>
  A set the scheduler can run on: it has legs, every circuit has a congestion control object, and
  the leg pointers are legs of the set.
\<close>

definition set_wf :: "(circ_id \<Rightarrow> circuit_t) \<Rightarrow> conflux_t \<Rightarrow> bool" where
  "set_wf circs cfx =
     (legs cfx \<noteq> [] \<and> (\<forall>c\<in>set (leg_ids cfx). circuit_ccontrol (circs c) \<noteq> None)
      \<and> (\<forall>c. curr_leg cfx = Some c \<longrightarrow> c \<in> set (leg_ids cfx)) \<and> (\<forall>c. prev_leg cfx = Some c \<longrightarrow> c \<in> set (leg_ids cfx)))"

lemma ready_total: "circuit_ccontrol circ \<noteq> None \<Longrightarrow> \<exists>b. circuit_ready_to_send circ = Some b"
  by (auto simp: circuit_ready_to_send_def Let_def)

lemma set_wf_ready: "set_wf circs cfx \<Longrightarrow> c \<in> set (leg_ids cfx) \<Longrightarrow> \<exists>b. circuit_ready_to_send (circs c) = Some b"
  by (simp add: set_wf_def ready_total)

lemma lowrtt_loop_total:
  "(\<forall>l\<in>set ls. \<exists>b. circuit_ready_to_send (circs (leg_circ l)) = Some b) \<Longrightarrow> \<exists>r. lowrtt_loop circs ls m best = Some r"
  by (induction ls arbitrary: m best) fastforce+

lemma cwnd_sendable_total: "circuit_ccontrol circ \<noteq> None \<Longrightarrow> \<exists>n. cwnd_sendable circ a b = Some n"
  by (auto simp: cwnd_sendable_def cwnd_available_def)

lemma cwndrtt_loop_total:
  "(\<forall>l\<in>set ls. circuit_ccontrol (circs (leg_circ l)) \<noteq> None) \<Longrightarrow> \<exists>r. cwndrtt_loop circs m ls best = Some r"
proof (induction ls arbitrary: best)
  case (Cons l ls)
  obtain b where "circuit_ready_to_send (circs (leg_circ l)) = Some b" using Cons.prems ready_total by fastforce
  moreover obtain n where "cwnd_sendable (circs (leg_circ l)) m (circ_rtts_usec l) = Some n"
    using Cons.prems cwnd_sendable_total by fastforce
  moreover have "\<exists>r. cwndrtt_loop circs m ls best' = Some r" for best' using Cons by simp
  ultimately show ?case by simp
qed simp

lemma algorithms_total:
  assumes "set_wf circs cfx"
  shows "\<exists>r. conflux_decide_circ_minrtt circs cfx = Some r" "\<exists>r. conflux_decide_circ_lowrtt circs cfx = Some r"
    "\<exists>r. conflux_decide_circ_cwndrtt circs cfx = Some r" "\<exists>b. conflux_can_switch p circs cfx = Some b"
proof -
  have ne: "legs cfx \<noteq> []" using assms by (simp add: set_wf_def)
  have rd: "\<exists>b. circuit_ready_to_send (circs (leg_circ l)) = Some b" if "l \<in> set (legs cfx)" for l
    using set_wf_ready [OF assms] that by (auto simp: leg_ids_def)
  have cc: "circuit_ccontrol (circs (leg_circ l)) \<noteq> None" if "l \<in> set (legs cfx)" for l
    using assms that by (auto simp: set_wf_def leg_ids_def)
  obtain m best where b: "min_rtt_leg (legs cfx) UINT64_MAX None = (m, best)" by fastforce
  have bm: "l \<in> set (legs cfx)" if "best = Some l" for l using min_rtt_leg_least [OF b] that by blast
  show "\<exists>r. conflux_decide_circ_minrtt circs cfx = Some r"
    using ne rd bm by (cases best) (fastforce simp: conflux_decide_circ_minrtt_def b)+
  show "\<exists>r. conflux_decide_circ_lowrtt circs cfx = Some r"
    using ne lowrtt_loop_total rd by (simp add: conflux_decide_circ_lowrtt_def)
  obtain r where r: "cwndrtt_loop circs m (legs cfx) None = Some r" using cwndrtt_loop_total cc by blast
  have rm: "l \<in> set (legs cfx)" if "r = Some l" for l using cwndrtt_loop_mem r that by blast
  have "\<exists>f. (case best of None \<Rightarrow> Some False | Some l \<Rightarrow> circuit_ready_to_send (circs (leg_circ l))) = Some f"
    using rd bm by (cases best) auto
  moreover have "\<exists>f. (case r of None \<Rightarrow> Some None | Some l \<Rightarrow> do {
            ready \<leftarrow> circuit_ready_to_send (circs (leg_circ l));
            Some (if ready then Some (leg_circ l) else None) }) = Some f"
    using rd rm by (cases r) fastforce+
  ultimately show "\<exists>r. conflux_decide_circ_cwndrtt circs cfx = Some r"
    using ne r by (auto simp: conflux_decide_circ_cwndrtt_def b)
  show "\<exists>b. conflux_can_switch p circs cfx = Some b"
  proof (cases "prev_leg cfx")
    case (Some c)
    then obtain cc where "circuit_ccontrol (circs c) = Some cc" using assms by (auto simp: set_wf_def)
    then show ?thesis using Some by (auto simp: conflux_can_switch_def)
  qed (auto simp: conflux_can_switch_def)
qed

lemma next_circ_total:
  assumes wf: "set_wf circs cfx"
  shows "\<exists>cfx' r. conflux_decide_next_circ p circs cfx = Some (cfx', r) \<and> set_wf circs cfx'"
proof (cases "in_full_teardown cfx")
  case False
  obtain cfx1 ok where pick: "(if curr_leg cfx = None then conflux_pick_first_leg cfx else (cfx, True)) = (cfx1, ok)"
    by fastforce
  have w1: "set_wf circs cfx1 \<and> (ok \<longrightarrow> curr_leg cfx1 \<noteq> None)"
    using pick wf pick_first_leg_cases [of cfx cfx1 ok]
    by (auto simp: set_wf_def leg_ids_def split: if_splits)
  show ?thesis
  proof (cases ok)
    case True
    then obtain c where c: "curr_leg cfx1 = Some c" "c \<in> set (leg_ids cfx1)" using w1 by (auto simp: set_wf_def)
    obtain b where b: "circuit_ready_to_send (circs c) = Some b" using set_wf_ready w1 c by blast
    obtain sw where sw: "conflux_can_switch p circs cfx1 = Some sw" using algorithms_total(4) w1 by blast
    have "\<exists>r. (case alg cfx1 of CONFLUX_ALG_MINRTT \<Rightarrow> conflux_decide_circ_minrtt circs cfx1
               | CONFLUX_ALG_LOWRTT \<Rightarrow> conflux_decide_circ_lowrtt circs cfx1
               | CONFLUX_ALG_CWNDRTT \<Rightarrow> conflux_decide_circ_cwndrtt circs cfx1) = Some r"
      using algorithms_total w1 by (cases "alg cfx1") auto
    then show ?thesis
      using False pick True b c sw w1 by (cases sw) (auto simp: conflux_decide_next_circ_def)
  next
    case nok: False
    then show ?thesis using False pick w1 by (simp add: conflux_decide_next_circ_def)
  qed
qed (use wf in \<open>simp add: conflux_decide_next_circ_def\<close>)

lemma switch_leg_total:
  assumes "set_wf circs cfx" "old \<in> set (leg_ids cfx)" "c \<in> set (leg_ids cfx)"
  shows "\<exists>r. conflux_switch_leg sent circs cfx old c = Some r"
proof -
  obtain lo l where "conflux_get_leg cfx old = Some lo" "conflux_get_leg cfx c = Some l"
    using assms get_leg_Some_iff by metis
  then show ?thesis using assms(1)
    by (simp add: conflux_switch_leg_def Let_def set_wf_def split: prod.splits)
qed

lemma decide_for_send_total:
  assumes wf: "set_wf circs cfx"
  shows "\<exists>r. conflux_decide_circ_for_send p sent circs cfx orig cmd = Some r"
proof (cases "conflux_should_multiplex cmd")
  case mux: True
  obtain cfx1 r where n: "conflux_decide_next_circ p circs cfx = Some (cfx1, r)" "set_wf circs cfx1"
    using next_circ_total [OF wf] by blast
  show ?thesis
  proof (cases r)
    case (Some c)
    have mem: "curr_leg cfx1 \<noteq> None" "c \<in> set (leg_ids cfx1)"
      using decide_next_circ_cases [OF n(1)] Some n(2) by (auto simp: set_wf_def leg_ids_def)
    then obtain old where old: "curr_leg cfx1 = Some old" "old \<in> set (leg_ids cfx1)"
      using n(2) by (auto simp: set_wf_def)
    show ?thesis using mux n Some old switch_leg_total [OF n(2) old(2) mem(2)]
      by (auto simp: conflux_decide_circ_for_send_def)
  qed (use mux n in \<open>simp add: conflux_decide_circ_for_send_def\<close>)
qed (simp add: conflux_decide_circ_for_send_def)

lemma switch_leg_result:
  "conflux_switch_leg sent circs cfx old c = Some (cfx', Some k, acts) \<Longrightarrow> k = c"
  by (auto simp: conflux_switch_leg_def bind_eq_Some_iff Let_def split: if_splits prod.splits)

section \<open>Properties\<close>

text \<open>
  MinRTT: the leg it picks has the lowest measured RTT of the set and is ready to send; when
  it picks none, either no leg has a measurement or the leg with the lowest RTT is not ready.
\<close>

theorem minrtt_picks_lowest:
  assumes "conflux_decide_circ_minrtt circs cfx = Some r"
  shows "case r of
      Some c \<Rightarrow> \<exists>l\<in>set (legs cfx). leg_circ l = c \<and> circuit_ready_to_send (circs c) = Some True \<and> circ_rtts_usec l \<noteq> 0 \<and>
                 (\<forall>k\<in>set (legs cfx). circ_rtts_usec k \<noteq> 0 \<longrightarrow> circ_rtts_usec l \<le> circ_rtts_usec k)
    | None \<Rightarrow> (\<forall>k\<in>set (legs cfx). \<not> measured k) \<or>
              (\<exists>l\<in>set (legs cfx). circuit_ready_to_send (circs (leg_circ l)) = Some False \<and>
                 (\<forall>k\<in>set (legs cfx). circ_rtts_usec k \<noteq> 0 \<longrightarrow> circ_rtts_usec l \<le> circ_rtts_usec k))"
proof -
  obtain m best where b: "min_rtt_leg (legs cfx) UINT64_MAX None = (m, best)" by fastforce
  show ?thesis
  proof (cases best)
    case None
    then show ?thesis using assms b min_rtt_leg_least [OF b]
      by (auto simp: conflux_decide_circ_minrtt_def bind_eq_Some_iff)
  next
    case (Some l)
    then obtain rd where "circuit_ready_to_send (circs (leg_circ l)) = Some rd" "r = (if rd then Some (leg_circ l) else None)"
      using assms b by (auto simp: conflux_decide_circ_minrtt_def bind_eq_Some_iff)
    then show ?thesis using min_rtt_leg_least [OF b] Some by (cases rd) (auto simp: measured_def)
  qed
qed

text \<open>
  C33: LowRTT: whenever it returns, the leg it picks is ready and has the lowest measured RTT among
  the legs that are ready; when it picks none, no ready leg has a measurement.
\<close>

theorem lowrtt_picks_lowest_ready:
  assumes "conflux_decide_circ_lowrtt circs cfx = Some r"
  shows "case r of
      Some c \<Rightarrow> \<exists>l\<in>set (legs cfx). leg_circ l = c \<and> circuit_ready_to_send (circs c) = Some True \<and> circ_rtts_usec l \<noteq> 0 \<and>
                 (\<forall>k\<in>set (legs cfx). circuit_ready_to_send (circs (leg_circ k)) = Some True \<longrightarrow>
                    circ_rtts_usec k = 0 \<or> circ_rtts_usec l \<le> circ_rtts_usec k)
    | None \<Rightarrow> \<forall>k\<in>set (legs cfx). circuit_ready_to_send (circs (leg_circ k)) = Some True \<longrightarrow> \<not> measured k"
proof -
  have "lowrtt_loop circs (legs cfx) UINT64_MAX None = Some r"
    using assms by (auto simp: conflux_decide_circ_lowrtt_def bind_eq_Some_iff)
  from lowrtt_loop_spec [OF this] show ?thesis
    by (auto simp: measured_def not_less)
qed

definition sched_cc :: "u64 \<Rightarrow> congestion_control_t" where
  "sched_cc infl = \<lparr>sendme_pending_timestamps = [], ewma_rtt_usec = 0, min_rtt_usec = 0, max_rtt_usec = 0, bdp = 0,
     cwnd = 124, inflight = infl, next_cc_event = 0, next_cwnd_event = 0, in_slow_start = True, cwnd_full = False,
     blocked_chan = False, cwnd_inc_pct_ss = 100, cwnd_inc = 1, cwnd_min = 124, cwnd_inc_rate = 31, sendme_inc = 31,
     cc_alg = CC_ALG_VEGAS,
     vegas_params = \<lparr>ss_cwnd_cap = 600, ss_cwnd_max = 5000, vp_gamma = 186, vp_alpha = 186, vp_beta = 248, vp_delta = 310\<rparr>\<rparr>"

text \<open>Three exit-side circuits; the window of circuit 1 is full.\<close>

definition sched_circ :: "circ_id \<Rightarrow> circuit_t" where
  "sched_circ c = exit_circ\<lparr>c_ccontrol := Some (sched_cc (if c = 1 then 124 else 0)), conflux := Some 0\<rparr>"

definition sched_leg :: "circ_id \<Rightarrow> u64 \<Rightarrow> conflux_leg_t" where
  "sched_leg c rtt = \<lparr>leg_circ = c, last_seq_recv = 0, last_seq_sent = 0, circ_rtts_usec = rtt, linked_sent_usec = 0\<rparr>"

definition sched_set :: "conflux_alg_t \<Rightarrow> conflux_t" where
  "sched_set a = \<lparr>alg = a, legs = [sched_leg 1 10, sched_leg 2 20, sched_leg 3 30], ooo_q = [], ooo_q_alloc_cost = 0,
     last_seq_delivered = 0, cells_until_switch = 0, curr_leg = None, prev_leg = None, cfx_nonce = [],
     in_full_teardown = False, num_leg_launch = 0, total_streams = 0, bytes_sent = 0, bytes_recv = 0\<rparr>"

lemmas sched_evals = sched_cc_def sched_circ_def exit_circ_def sched_leg_def sched_set_def circuit_ready_to_send_def
  circuit_ccontrol_def Let_def UINT64_MAX_def

theorem minrtt_picks_lowest_witness:
  "conflux_decide_circ_minrtt sched_circ (sched_set CONFLUX_ALG_MINRTT) = Some None \<and>
   (\<exists>l\<in>set (legs (sched_set CONFLUX_ALG_MINRTT)). circuit_ready_to_send (sched_circ (leg_circ l)) = Some False)"
proof -
  have r: "conflux_decide_circ_minrtt sched_circ (sched_set CONFLUX_ALG_MINRTT) = Some None"
    by (simp add: conflux_decide_circ_minrtt_def sched_evals)
  have "measured (sched_leg 1 10)" by (simp add: measured_def sched_evals)
  then have "\<not> (\<forall>k\<in>set (legs (sched_set CONFLUX_ALG_MINRTT)). \<not> measured k)" by (simp add: sched_set_def)
  then show ?thesis using minrtt_picks_lowest [OF r] r by auto
qed

theorem lowrtt_picks_lowest_ready_witness:
  "conflux_decide_circ_lowrtt sched_circ (sched_set CONFLUX_ALG_LOWRTT) = Some (Some 2) \<and>
   circuit_ready_to_send (sched_circ 2) = Some True"
proof -
  have r: "conflux_decide_circ_lowrtt sched_circ (sched_set CONFLUX_ALG_LOWRTT) = Some (Some 2)"
    by (simp add: conflux_decide_circ_lowrtt_def sched_evals)
  from lowrtt_picks_lowest_ready [OF r] show ?thesis using r by auto
qed

text \<open>
  CwndRTT does not pick the lowest RTT when the leg with the lowest RTT is full: its second
  loop keeps the last leg that can send, here the one with RTT 30 although the one with RTT 20 is
  ready too.
\<close>

theorem cwndrtt_picks_last_ready:
  "conflux_decide_circ_cwndrtt sched_circ (sched_set CONFLUX_ALG_CWNDRTT) = Some (Some 3) \<and>
   circuit_ready_to_send (sched_circ 2) = Some True"
  by (simp add: conflux_decide_circ_cwndrtt_def cwnd_sendable_def cwnd_available_def sched_evals)

text \<open>
  C32: DATA never goes out on a leg that is not ready: when a circuit is chosen for a DATA
  message, its congestion window has room and its channel is not blocked.
\<close>

theorem data_only_on_ready_leg:
  assumes "conflux_decide_circ_for_send p sent circs cfx orig RELAY_COMMAND_DATA = Some (cfx', Some c, acts)"
  shows "\<exists>cc. circuit_ccontrol (circs c) = Some cc \<and> inflight cc < cwnd cc \<and>
    \<not> (if is_origin (circs c) then circuit_blocked_on_n_chan (circs c) else circuit_blocked_on_p_chan (circs c))"
proof -
  have mux: "conflux_should_multiplex RELAY_COMMAND_DATA" by (simp add: conflux_should_multiplex_def)
  obtain cfx1 r where n: "conflux_decide_next_circ p circs cfx = Some (cfx1, r)"
    using assms mux by (auto simp: conflux_decide_circ_for_send_def bind_eq_Some_iff)
  then obtain d where d: "r = Some d"
    using assms mux by (cases r) (auto simp: conflux_decide_circ_for_send_def)
  obtain old where old: "curr_leg cfx1 = Some old"
    using assms mux n d by (cases "curr_leg cfx1") (auto simp: conflux_decide_circ_for_send_def)
  have "d = c"
    using assms mux n d old switch_leg_result [of sent circs cfx1 old d cfx' c acts]
    by (cases "d = old") (simp_all add: conflux_decide_circ_for_send_def)
  then have "circuit_ready_to_send (circs c) = Some True" using next_circ_ready [of p circs cfx cfx1 d] n d by simp
  then show ?thesis by (auto simp: circuit_ready_to_send_def bind_eq_Some_iff Let_def split: if_splits)
qed

theorem data_only_on_ready_leg_witness:
  "\<exists>cfx' c acts cc. conflux_decide_circ_for_send conflux_params_init True sched_circ (sched_set CONFLUX_ALG_LOWRTT) 1
      RELAY_COMMAND_DATA = Some (cfx', Some c, acts) \<and> circuit_ccontrol (sched_circ c) = Some cc \<and> inflight cc < cwnd cc"
proof -
  have "\<exists>cfx' acts. conflux_decide_circ_for_send conflux_params_init True sched_circ (sched_set CONFLUX_ALG_LOWRTT) 1
      RELAY_COMMAND_DATA = Some (cfx', Some 2, acts)"
    by (simp add: conflux_decide_circ_for_send_def conflux_should_multiplex_def conflux_decide_next_circ_def
        conflux_pick_first_leg_def conflux_can_switch_def conflux_decide_circ_lowrtt_def conflux_switch_leg_def
        conflux_get_leg_def switch_command_payload sched_evals del: be_encode.simps)
  then show ?thesis using data_only_on_ready_leg by blast
qed

text \<open>
  Choosing a circuit never aborts: on a set with legs whose circuits have congestion control,
  and whose leg pointers are its own legs, every assertion and dereference of
  \<^verbatim>\<open>conflux_decide_circ_for_send\<close> succeeds, for every algorithm and command.
\<close>

theorem decide_circ_never_aborts:
  "set_wf circs cfx \<Longrightarrow> conflux_decide_circ_for_send p sent circs cfx orig cmd \<noteq> None"
  using decide_for_send_total [of circs cfx p sent orig cmd] by auto

theorem decide_circ_never_aborts_witness:
  "conflux_decide_circ_for_send conflux_params_init False sched_circ (sched_set CONFLUX_ALG_CWNDRTT) 1 RELAY_COMMAND_DATA \<noteq> None"
  by (rule decide_circ_never_aborts) (simp add: set_wf_def leg_ids_def sched_evals)

text \<open>
  C34: For a circuit that is not marked for close, the package window that the stream layer sees is
  positive exactly when the scheduler can send: streams are neither blocked while a leg has room nor
  read while none has.  The hop that the caller names does not matter on a client; a caller at the
  exit names none.
\<close>

theorem package_window_iff_can_send:
  assumes "marked_for_close (circs c) = 0" and "hop = None \<or> (\<forall>d. is_origin (circs d))"
    and "circuit_get_package_window p circs (Some cfx) c hop = Some (cfx', w)"
    and "conflux_can_send p circs cfx = Some (cfx'', can)"
  shows "(0 < w) = can"
proof (cases "in_full_teardown cfx")
  case True
  then show ?thesis using assms
    by (auto simp: circuit_get_package_window_def conflux_can_send_def conflux_decide_next_circ_def)
next
  case False
  obtain x nx where n: "conflux_decide_next_circ p circs cfx = Some (x, nx)" and can: "can = (nx \<noteq> None)"
    using assms(4) by (auto simp: conflux_can_send_def bind_eq_Some_iff)
  show ?thesis
  proof (cases nx)
    case None
    then show ?thesis using assms False n can by (auto simp: circuit_get_package_window_def)
  next
    case (Some d)
    have rd: "circuit_ready_to_send (circs d) = Some True" using next_circ_ready n Some by simp
    have "w = congestion_control_get_package_window (circs d) (if is_origin (circs d) then cpath_last (circs d) else None)"
      using assms(1-3) False n Some by (auto simp: circuit_get_package_window_def bind_eq_Some_iff split: if_splits)
    then show ?thesis using ready_window_pos [OF rd refl] can Some by simp
  qed
qed

theorem package_window_iff_can_send_witness:
  "\<exists>cfx'. circuit_get_package_window conflux_params_init sched_circ (Some (sched_set CONFLUX_ALG_LOWRTT)) 1 None =
      Some (cfx', 124) \<and> 0 < (124 :: int)"
proof -
  obtain cfx' where w: "circuit_get_package_window conflux_params_init sched_circ (Some (sched_set CONFLUX_ALG_LOWRTT)) 1 None =
      Some (cfx', 124)"
    by (simp add: circuit_get_package_window_def conflux_decide_next_circ_def conflux_pick_first_leg_def
        conflux_can_switch_def conflux_decide_circ_lowrtt_def congestion_control_get_package_window_def
        hop_ccontrol_def sched_evals)
  obtain cfx'' can where c: "conflux_can_send conflux_params_init sched_circ (sched_set CONFLUX_ALG_LOWRTT) = Some (cfx'', can)"
    by (simp add: conflux_can_send_def conflux_decide_next_circ_def conflux_pick_first_leg_def
        conflux_can_switch_def conflux_decide_circ_lowrtt_def sched_evals)
  have "marked_for_close (sched_circ 1) = 0" by (simp add: sched_circ_def exit_circ_def)
  from package_window_iff_can_send [OF this disjI1 [OF refl] w c] show ?thesis using w by simp
qed

text \<open>
  The lists of streams stay the same on all legs: on an origin set that passes
  \<^verbatim>\<open>conflux_validate_stream_lists\<close>, attaching a stream to any leg (\<^verbatim>\<open>conflux_update_p_streams\<close>)
  and taking over the fields of a leg (\<^verbatim>\<open>conflux_sync_circ_fields\<close>) keep the validation true.
\<close>

theorem stream_lists_stay_in_sync:
  assumes "conflux_validate_stream_lists circs (cfxs x) = Some True" and "conflux (circs c) = Some x"
    and "\<forall>k\<in>set (leg_ids (cfxs x)). is_origin (circs k)" and "ref \<in> set (leg_ids (cfxs x))"
  shows "conflux_validate_stream_lists (conflux_update_p_streams cfxs c stream circs) (cfxs x) = Some True
    \<and> conflux_validate_stream_lists (conflux_sync_circ_fields (cfxs x) ref circs) (cfxs x) = Some True"
proof -
  obtain first where f: "smartlist_get (legs (cfxs x)) 0 = Some first"
    using assms(1) by (auto simp: conflux_validate_stream_lists_def split: option.splits)
  let ?f = "leg_circ first"
  have fm: "?f \<in> set (leg_ids (cfxs x))" using first_leg_mem [OF f] .
  have agree: "p_streams (circs k) = p_streams (circs ?f) \<and> half_streams (circs k) = half_streams (circs ?f)
      \<and> next_stream_id (circs k) = next_stream_id (circs ?f)" if "k \<in> set (leg_ids (cfxs x))" for k
    using assms(1,3) f fm that by (auto simp: conflux_validate_stream_lists_def Let_def list_all_iff leg_ids_def)
  have ok: "conflux_validate_stream_lists m (cfxs x) = Some True"
    if "is_origin (m ?f)" "\<And>k. k \<in> set (leg_ids (cfxs x)) \<Longrightarrow> p_streams (m k) = p_streams (m ?f)
      \<and> half_streams (m k) = half_streams (m ?f) \<and> next_stream_id (m k) = next_stream_id (m ?f)" for m
    using that f by (simp add: conflux_validate_stream_lists_def Let_def list_all_iff leg_ids_def)
  have p: "conflux_update_p_streams cfxs c stream circs k = (circs k)\<lparr>p_streams := stream\<rparr>"
    if "k \<in> set (leg_ids (cfxs x))" for k
    using assms(2) that by (simp add: conflux_update_p_streams_def on_set_def for_each_leg_apply)
  have origin: "is_origin (circs ?f)" using assms(3) fm by blast
  have upd: "conflux_validate_stream_lists (conflux_update_p_streams cfxs c stream circs) (cfxs x) = Some True"
  proof (rule ok)
    fix k
    assume "k \<in> set (leg_ids (cfxs x))"
    then show "p_streams (conflux_update_p_streams cfxs c stream circs k) = p_streams (conflux_update_p_streams cfxs c stream circs ?f)
      \<and> half_streams (conflux_update_p_streams cfxs c stream circs k) = half_streams (conflux_update_p_streams cfxs c stream circs ?f)
      \<and> next_stream_id (conflux_update_p_streams cfxs c stream circs k) = next_stream_id (conflux_update_p_streams cfxs c stream circs ?f)"
      using agree [of k] p fm by simp
  qed (simp add: p fm origin)
  have sync: "p_streams (conflux_sync_circ_fields (cfxs x) ref circs k) = p_streams (circs k)"
    "half_streams (conflux_sync_circ_fields (cfxs x) ref circs k) = half_streams (circs k)"
    "k \<in> set (leg_ids (cfxs x)) \<Longrightarrow>
      next_stream_id (conflux_sync_circ_fields (cfxs x) ref circs k) = next_stream_id (circs ref)" for k
    by (simp_all add: sync_apply sync_from_def)
  have "conflux_validate_stream_lists (conflux_sync_circ_fields (cfxs x) ref circs) (cfxs x) = Some True"
  proof (rule ok)
    fix k
    assume "k \<in> set (leg_ids (cfxs x))"
    then show "p_streams (conflux_sync_circ_fields (cfxs x) ref circs k) = p_streams (conflux_sync_circ_fields (cfxs x) ref circs ?f)
      \<and> half_streams (conflux_sync_circ_fields (cfxs x) ref circs k) = half_streams (conflux_sync_circ_fields (cfxs x) ref circs ?f)
      \<and> next_stream_id (conflux_sync_circ_fields (cfxs x) ref circs k) = next_stream_id (conflux_sync_circ_fields (cfxs x) ref circs ?f)"
      using agree [of k] sync(3) [of k] sync(3) [OF fm] by (simp only: sync(1,2))
  qed (simp add: sync_apply sync_from_def origin)
  with upd show ?thesis by simp
qed

theorem stream_lists_stay_in_sync_witness:
  "conflux_validate_stream_lists
     (conflux_update_p_streams (\<lambda>_. sched_set CONFLUX_ALG_LOWRTT) 1 77 (\<lambda>c. (sched_circ c)\<lparr>is_origin := True\<rparr>))
     (sched_set CONFLUX_ALG_LOWRTT) = Some True"
proof -
  let ?m = "\<lambda>c. (sched_circ c)\<lparr>is_origin := True\<rparr>"
  have "conflux_validate_stream_lists ?m (sched_set CONFLUX_ALG_LOWRTT) = Some True"
    by (simp add: conflux_validate_stream_lists_def smartlist_get_def sched_evals)
  from stream_lists_stay_in_sync [of ?m "\<lambda>_. sched_set CONFLUX_ALG_LOWRTT" 0 1 1 77] this show ?thesis
    by (simp add: sched_circ_def exit_circ_def sched_set_def sched_leg_def leg_ids_def)
qed

end
