(* ===== verification/ConfluxSelect.thy ===== *)
theory ConfluxSelect
  imports ConfluxUtil
begin

text \<open>
  The choice of the set a new stream is attached to (\<^verbatim>\<open>core/or/conflux_pool.c\<close>): candidates are
  gathered from the pool of linked sets, slow sets are filtered out, and the policy of the
  configuration picks one of the rest.

  \<open>sets\<close> is the pool in the order in which its hash table is walked, \<open>acceptable\<close> the outcome of
  \<^verbatim>\<open>circuit_is_acceptable\<close> for a circuit, \<open>next\<close> the \<^verbatim>\<open>next_stream\<close> pointers of the streams (0 is
  NULL) and \<open>srt\<close> what \<^verbatim>\<open>qsort\<close> makes of a list of candidates, about which nothing is assumed but
  that it sorts.
\<close>

section \<open>Candidates\<close>

record conflux_set_candidate_t =
  ocirc :: circ_id
  best_rtt_usec :: u64
  num_streams :: u64
  cand_total_streams :: u64

record socks_request_t =
  username :: "string option"

record entry_connection_t =
  socks_request :: "socks_request_t option"

definition conflux_set_best_rtt :: "conflux_t \<Rightarrow> u64" where
  "conflux_set_best_rtt cfx =
     foldl (\<lambda>best l. if circ_rtts_usec l > 0 \<and> circ_rtts_usec l < best then circ_rtts_usec l else best) UINT64_MAX (legs cfx)"

definition conflux_cand_rtt_asc_cmp :: "conflux_set_candidate_t \<Rightarrow> conflux_set_candidate_t \<Rightarrow> int" where
  "conflux_cand_rtt_asc_cmp ca cb =
     (if best_rtt_usec ca < best_rtt_usec cb then - 1 else if best_rtt_usec ca > best_rtt_usec cb then 1 else 0)"

text \<open>The walk along a stream list; on a cyclic list it does not return.\<close>

partial_function (option) count_streams :: "(nat \<Rightarrow> nat) \<Rightarrow> nat \<Rightarrow> u64 \<Rightarrow> u64 option" where
  "count_streams next stream n = (if stream = 0 then Some n else count_streams next (next stream) (n + 1))"

definition conflux_set_stream_count :: "(nat \<Rightarrow> nat) \<Rightarrow> (circ_id \<Rightarrow> circuit_t) \<Rightarrow> conflux_t \<Rightarrow> u64 option" where
  "conflux_set_stream_count next circs cfx =
     (case smartlist_get (legs cfx) 0 of
        None \<Rightarrow> None
      | Some l \<Rightarrow> if is_origin (circs (leg_circ l)) then count_streams next (p_streams (circs (leg_circ l))) 0 else Some 0)"

definition conflux_conn_is_keepalive :: "entry_connection_t \<Rightarrow> bool" where
  "conflux_conn_is_keepalive conn =
     (case socks_request conn of None \<Rightarrow> False | Some socks \<Rightarrow> username socks = Some ''torjet-keepalive'')"

text \<open>The loop over the pool.  A set without legs fails the assertion on its first leg.\<close>

fun gather_candidates ::
  "(nat \<Rightarrow> nat) \<Rightarrow> (circ_id \<Rightarrow> bool) \<Rightarrow> (circ_id \<Rightarrow> circuit_t) \<Rightarrow> conflux_t list \<Rightarrow> conflux_set_candidate_t list option" where
  "gather_candidates next acceptable circs [] = Some []"
| "gather_candidates next acceptable circs (cfx # sets) = do {
     leg \<leftarrow> smartlist_get (legs cfx) 0;
     let circ = circs (leg_circ leg);
     if purpose circ \<noteq> CIRCUIT_PURPOSE_CONFLUX_LINKED \<or> \<not> is_origin circ \<or> \<not> acceptable (leg_circ leg)
     then gather_candidates next acceptable circs sets
     else do {
       n \<leftarrow> conflux_set_stream_count next circs cfx;
       cands \<leftarrow> gather_candidates next acceptable circs sets;
       Some (\<lparr>ocirc = leg_circ leg, best_rtt_usec = conflux_set_best_rtt cfx, num_streams = n,
              cand_total_streams = total_streams cfx\<rparr> # cands)
     }
   }"

section \<open>Filters\<close>

text \<open>
  The loop that deletes the slow candidates: \<^verbatim>\<open>SMARTLIST_DEL_CURRENT\<close> moves the last element into
  the hole and looks at the same place again.
\<close>

function del_slow :: "u64 \<Rightarrow> conflux_set_candidate_t list \<Rightarrow> nat \<Rightarrow> conflux_set_candidate_t list" where
  "del_slow rtt_max_usec cands i =
     (if i < length cands
      then if best_rtt_usec (cands ! i) \<ge> rtt_max_usec
           then del_slow rtt_max_usec (butlast (cands[i := last cands])) i
           else del_slow rtt_max_usec cands (Suc i)
      else cands)"
  by pat_completeness auto
termination by (relation "measure (\<lambda>(_, cands, i). length cands - i)") auto

declare del_slow.simps [simp del]

definition filter_rtt_max :: "or_options_t \<Rightarrow> bool \<Rightarrow> conflux_set_candidate_t list \<Rightarrow> conflux_set_candidate_t list" where
  "filter_rtt_max opts keepalive cands =
     (let rtt_max_ms = conflux_params_get_set_rtt_max opts
      in if \<not> keepalive \<and> rtt_max_ms > 0 \<and> length cands > 1
         then del_slow (word_of_int rtt_max_ms * 1000) cands 0 else cands)"

definition filter_rtt_pct ::
  "(conflux_set_candidate_t list \<Rightarrow> conflux_set_candidate_t list) \<Rightarrow> or_options_t \<Rightarrow> bool \<Rightarrow>
   conflux_set_candidate_t list \<Rightarrow> conflux_set_candidate_t list" where
  "filter_rtt_pct srt opts keepalive cands =
     (let rtt_pct = conflux_params_get_set_rtt_pct opts
      in if \<not> keepalive \<and> rtt_pct > 0 \<and> length cands > 1
         then let keep = nat (int (length cands) * rtt_pct div 100);
                  keep = (if keep = 0 then 1 else keep)
              in take keep (srt cands)
         else cands)"

section \<open>The policy\<close>

text \<open>The loop that remembers the place of the first least value below the start.\<close>

fun least_idx :: "('a \<Rightarrow> u64) \<Rightarrow> 'a list \<Rightarrow> nat \<Rightarrow> u64 \<Rightarrow> nat \<Rightarrow> nat" where
  "least_idx f [] i least picked = picked"
| "least_idx f (c # cs) i least picked =
     (if f c < least then least_idx f cs (Suc i) (f c) i else least_idx f cs (Suc i) least picked)"

text \<open>\<open>rr\<close> is the static counter of the round-robin policy.\<close>

definition conflux_pick_set_from_candidates ::
  "or_options_t \<Rightarrow> u64 \<Rightarrow> conflux_set_candidate_t list \<Rightarrow> bool \<Rightarrow> u64 \<times> circ_id option" where
  "conflux_pick_set_from_candidates opts rr cands keepalive_balance =
     (if cands = [] then (rr, None)
      else let policy = conflux_params_get_set_selection opts;
               (rr, picked) =
                 (if keepalive_balance then (rr, least_idx cand_total_streams cands 0 UINT64_MAX 0)
                  else if policy = 1 then (rr + 1, unat (rr mod of_nat (length cands)))
                  else if policy = 2 then (rr, least_idx num_streams cands 0 UINT64_MAX 0)
                  else if policy = 3 then (rr, least_idx best_rtt_usec cands 0 UINT64_MAX 0)
                  else (rr, 0))
           in (rr, Some (ocirc (cands ! picked))))"

definition conflux_get_circ_for_conn ::
  "(conflux_set_candidate_t list \<Rightarrow> conflux_set_candidate_t list) \<Rightarrow> or_options_t \<Rightarrow> (nat \<Rightarrow> nat) \<Rightarrow> (circ_id \<Rightarrow> bool) \<Rightarrow>
   (circ_id \<Rightarrow> circuit_t) \<Rightarrow> conflux_t list \<Rightarrow> entry_connection_t \<Rightarrow> u64 \<Rightarrow> (u64 \<times> circ_id option) option" where
  "conflux_get_circ_for_conn srt opts next acceptable circs sets conn rr = do {
     cands \<leftarrow> gather_candidates next acceptable circs sets;
     let keepalive = conflux_conn_is_keepalive conn;
     let cands = filter_rtt_max opts keepalive cands;
     let cands = filter_rtt_pct srt opts keepalive cands;
     Some (conflux_pick_set_from_candidates opts rr cands keepalive)
   }"

section \<open>What the loops compute\<close>

text \<open>What \<^verbatim>\<open>smartlist_sort\<close> promises: the same elements, in the order of the comparison.\<close>

definition sorts :: "('a \<Rightarrow> 'a \<Rightarrow> int) \<Rightarrow> ('a list \<Rightarrow> 'a list) \<Rightarrow> bool" where
  "sorts cmp srt = (\<forall>xs. mset (srt xs) = mset xs \<and> sorted_wrt (\<lambda>a b. cmp a b \<le> 0) (srt xs))"

lemma sorts_sort_key: "sorts conflux_cand_rtt_asc_cmp (sort_key best_rtt_usec)"
proof -
  have "sorted_wrt (\<lambda>a b. conflux_cand_rtt_asc_cmp a b \<le> 0) (sort_key best_rtt_usec xs)" for xs
    using sorted_sort_key [of best_rtt_usec xs]
    by (simp add: sorted_map) (erule sorted_wrt_mono_rel [rotated], simp add: conflux_cand_rtt_asc_cmp_def)
  then show ?thesis by (simp add: sorts_def)
qed

lemma drop_del:
  assumes "i < length xs"
  shows "mset (drop i (butlast (xs[i := last xs]))) = mset (drop (Suc i) xs)"
    and "take i (butlast (xs[i := last xs])) = take i xs"
proof -
  obtain ys z where xs: "xs = ys @ [z]" using assms by (metis append_butlast_last_id length_greater_0_conv less_zeroE list.size(3))
  show "take i (butlast (xs[i := last xs])) = take i xs"
    using assms by (cases "i = length ys") (auto simp: xs list_update_append)
  show "mset (drop i (butlast (xs[i := last xs]))) = mset (drop (Suc i) xs)"
  proof (cases "i = length ys")
    case False
    then have "i < length ys" using assms by (simp add: xs)
    then have "drop i (butlast (xs[i := last xs])) = z # drop (Suc i) ys"
      by (simp add: xs list_update_append upd_conv_take_nth_drop butlast_append)
    then show ?thesis using \<open>i < length ys\<close> by (simp add: xs)
  qed (simp add: xs)
qed

lemma del_slow_mset:
  "mset (del_slow m cs i) = mset (take i cs) + filter_mset (\<lambda>c. best_rtt_usec c < m) (mset (drop i cs))"
proof (induction m cs i rule: del_slow.induct)
  case (1 m cs i)
  show ?case
  proof (cases "i < length cs")
    case True
    have d: "drop i cs = cs ! i # drop (Suc i) cs" using True by (rule Cons_nth_drop_Suc [symmetric])
    show ?thesis
    proof (cases "m \<le> best_rtt_usec (cs ! i)")
      case slow: True
      show ?thesis using 1(1) [OF True slow] drop_del [OF True] True slow
        by (subst del_slow.simps) (simp add: d leD)
    next
      case False
      have t: "mset (take (Suc i) cs) = add_mset (cs ! i) (mset (take i cs))"
        using True by (simp add: take_Suc_conv_app_nth)
      have "del_slow m cs i = del_slow m cs (Suc i)" using True False by (subst del_slow.simps) simp
      then show ?thesis using 1(2) [OF True False] False by (simp add: d t not_le)
    qed
  qed (subst del_slow.simps, simp)
qed

corollary del_slow_set: "set (del_slow m cs 0) = {c \<in> set cs. best_rtt_usec c < m}"
proof -
  have "set_mset (mset (del_slow m cs 0)) = {c \<in> set cs. best_rtt_usec c < m}" unfolding del_slow_mset by simp
  then show ?thesis by simp
qed

lemma least_idx_spec:
  "(least_idx f cs i l p = p \<and> (\<forall>c \<in> set cs. l \<le> f c)) \<or>
   (i \<le> least_idx f cs i l p \<and> least_idx f cs i l p < i + length cs \<and> f (cs ! (least_idx f cs i l p - i)) < l
     \<and> (\<forall>c \<in> set cs. f (cs ! (least_idx f cs i l p - i)) \<le> f c))"
proof (induction cs arbitrary: i l p)
  case (Cons c cs)
  have nc: "(c # cs) ! (j - i) = cs ! (j - Suc i)" if "Suc i \<le> j" for j using that by (simp add: nth_Cons')
  show ?case
  proof (cases "f c < l")
    case True
    show ?thesis using Cons.IH [of "Suc i" "f c" i] True nc [of "least_idx f cs (Suc i) (f c) i"]
      by (auto intro: less_imp_le)
  next
    case False
    show ?thesis using Cons.IH [of "Suc i" l p] False nc [of "least_idx f cs (Suc i) l p"]
      by (auto simp: not_less)
  qed
qed simp

lemma least_idx_least:
  assumes "cs \<noteq> []"
  shows "least_idx f cs 0 UINT64_MAX 0 < length cs"
    and "c \<in> set cs \<Longrightarrow> f (cs ! least_idx f cs 0 UINT64_MAX 0) \<le> f c"
proof -
  let ?j = "least_idx f cs 0 UINT64_MAX 0"
  have top: "UINT64_MAX \<le> x \<Longrightarrow> y \<le> x" for x y :: u64
    using word_order.extremum [of x] word_order.extremum [of y] by (auto simp: UINT64_MAX_def dest: antisym)
  show "?j < length cs" using least_idx_spec [of f cs 0 UINT64_MAX 0] assms by auto
  show "c \<in> set cs \<Longrightarrow> f (cs ! ?j) \<le> f c" using least_idx_spec [of f cs 0 UINT64_MAX 0] by (auto intro: top)
qed

text \<open>The best RTT of a set: the least measured one, or the largest number when there is none.\<close>

lemma best_rtt_spec:
  "conflux_set_best_rtt cfx = Min (insert UINT64_MAX (circ_rtts_usec ` {l \<in> set (legs cfx). circ_rtts_usec l > 0}))"
proof -
  have "foldl (\<lambda>best l. if circ_rtts_usec l > 0 \<and> circ_rtts_usec l < best then circ_rtts_usec l else best) b ls =
      fold min (map circ_rtts_usec (filter (\<lambda>l. circ_rtts_usec l > 0) ls)) b" for ls b
    by (induction ls arbitrary: b) (auto simp: min_def intro: antisym)
  then show ?thesis
    using Min.set_eq_fold [of UINT64_MAX "map circ_rtts_usec (filter (\<lambda>l. circ_rtts_usec l > 0) (legs cfx))"]
    by (simp add: conflux_set_best_rtt_def)
qed

section \<open>The choice\<close>

definition first_circ :: "conflux_t \<Rightarrow> circ_id" where
  "first_circ cfx = leg_circ (hd (legs cfx))"

definition usable_set :: "(circ_id \<Rightarrow> bool) \<Rightarrow> (circ_id \<Rightarrow> circuit_t) \<Rightarrow> conflux_t \<Rightarrow> bool" where
  "usable_set acceptable circs cfx =
     (purpose (circs (first_circ cfx)) = CIRCUIT_PURPOSE_CONFLUX_LINKED \<and> is_origin (circs (first_circ cfx))
      \<and> acceptable (first_circ cfx))"

text \<open>What the walk over the pool relies on: every set has a leg and a finite list of streams.\<close>

definition pool_walkable :: "(nat \<Rightarrow> nat) \<Rightarrow> (circ_id \<Rightarrow> circuit_t) \<Rightarrow> conflux_t list \<Rightarrow> bool" where
  "pool_walkable next circs sets = list_all (\<lambda>cfx. legs cfx \<noteq> [] \<and> conflux_set_stream_count next circs cfx \<noteq> None) sets"

definition cand_of :: "(nat \<Rightarrow> nat) \<Rightarrow> (circ_id \<Rightarrow> circuit_t) \<Rightarrow> conflux_t \<Rightarrow> conflux_set_candidate_t \<Rightarrow> bool" where
  "cand_of next circs cfx c =
     (ocirc c = first_circ cfx \<and> best_rtt_usec c = conflux_set_best_rtt cfx \<and> cand_total_streams c = total_streams cfx
      \<and> conflux_set_stream_count next circs cfx = Some (num_streams c))"

lemma gather_spec:
  "pool_walkable next circs sets \<Longrightarrow>
   \<exists>cands. gather_candidates next acceptable circs sets = Some cands
     \<and> list_all2 (cand_of next circs) (filter (usable_set acceptable circs) sets) cands"
proof (induction sets)
  case (Cons cfx sets)
  then obtain cands n where c: "gather_candidates next acceptable circs sets = Some cands"
      "list_all2 (cand_of next circs) (filter (usable_set acceptable circs) sets) cands"
      "conflux_set_stream_count next circs cfx = Some n" "legs cfx \<noteq> []"
    by (auto simp: pool_walkable_def)
  have "smartlist_get (legs cfx) 0 = Some (hd (legs cfx))" using c(4) by (simp add: smartlist_get_def hd_conv_nth)
  then show ?case using c by (auto simp: usable_set_def [of _ _ cfx] first_circ_def [of cfx] cand_of_def [of _ _ cfx] Let_def)
qed simp

lemma list_all2_memD: "list_all2 P xs ys \<Longrightarrow> y \<in> set ys \<Longrightarrow> \<exists>x \<in> set xs. P x y"
  by (metis in_set_conv_nth list_all2_conv_all_nth)

lemma list_all2_memD2: "list_all2 P xs ys \<Longrightarrow> x \<in> set xs \<Longrightarrow> \<exists>y \<in> set ys. P x y"
  by (metis in_set_conv_nth list_all2_conv_all_nth)

text \<open>The threshold in microseconds does not wrap.\<close>

lemma rtt_max_unat:
  assumes "0 < m" "m \<le> INT32_MAX"
  shows "unat (word_of_int m * 1000 :: u64) = nat m * 1000"
proof -
  have "m * 1000 < 2 ^ 64" using assms by (simp add: INT32_MAX_def)
  moreover have "word_of_int m * 1000 = (word_of_int (m * 1000) :: u64)" by simp
  ultimately have "uint (word_of_int m * 1000 :: u64) = m * 1000" using assms(1) by (simp only: uint_word_of_int) simp
  then show ?thesis using assms(1) by (simp add: unat_eq_nat_uint nat_mult_distrib)
qed

definition slow_set :: "or_options_t \<Rightarrow> conflux_t \<Rightarrow> bool" where
  "slow_set opts cfx = (nat (conflux_params_get_set_rtt_max opts) * 1000 \<le> unat (conflux_set_best_rtt cfx))"

definition rtt_max_active :: "or_options_t \<Rightarrow> entry_connection_t \<Rightarrow> conflux_t list \<Rightarrow> bool" where
  "rtt_max_active opts conn usable =
     (\<not> conflux_conn_is_keepalive conn \<and> 0 < conflux_params_get_set_rtt_max opts \<and> 1 < length usable)"

text \<open>The candidates that survive the filter on the absolute RTT.\<close>

lemma filter_rtt_max_mem:
  assumes "list_all2 (cand_of next circs) us cands" and "ConfluxSetRttMax opts \<le> INT32_MAX"
    and "cand_of next circs u c" and "c \<in> set cands"
  shows "(c \<in> set (filter_rtt_max opts (conflux_conn_is_keepalive conn) cands)) =
    (\<not> (rtt_max_active opts conn us \<and> slow_set opts u))"
proof -
  have l: "length us = length cands" using assms(1) by (rule list_all2_lengthD)
  show ?thesis
  proof (cases "rtt_max_active opts conn us")
    case True
    let ?m = "conflux_params_get_set_rtt_max opts"
    have m: "0 < ?m" "?m \<le> INT32_MAX"
      using True assms(2) by (auto simp: rtt_max_active_def conflux_params_get_set_rtt_max_def INT32_MAX_def)
    have "(c \<in> set (filter_rtt_max opts (conflux_conn_is_keepalive conn) cands)) =
        (best_rtt_usec c < word_of_int ?m * 1000)"
      using True assms(4) l by (simp add: filter_rtt_max_def rtt_max_active_def Let_def del_slow_set)
    then show ?thesis
      using True assms(3) rtt_max_unat [OF m] by (simp add: slow_set_def cand_of_def word_less_nat_alt not_le)
  next
    case False
    then show ?thesis using assms(4) l by (auto simp: filter_rtt_max_def rtt_max_active_def Let_def)
  qed
qed

lemma filter_rtt_max_sub: "c \<in> set (filter_rtt_max opts k cands) \<Longrightarrow> c \<in> set cands"
  by (auto simp: filter_rtt_max_def Let_def del_slow_set split: if_splits)

lemma filter_rtt_pct_Nil:
  assumes "sorts conflux_cand_rtt_asc_cmp srt"
  shows "(filter_rtt_pct srt opts k cands = []) = (cands = [])"
proof -
  have "length (srt cands) = length cands" using assms by (metis size_mset sorts_def)
  then have "srt cands = [] \<longleftrightarrow> cands = []" by (metis length_0_conv)
  then show ?thesis by (simp add: filter_rtt_pct_def Let_def)
qed

text \<open>The place that the policy picks, and the counter afterwards.\<close>

lemma pick_spec:
  assumes "cands \<noteq> []" and "length cands < 2 ^ 64"
  obtains rr' j where "conflux_pick_set_from_candidates opts rr cands k = (rr', Some (ocirc (cands ! j)))" and "j < length cands"
    and "k \<Longrightarrow> rr' = rr \<and> (\<forall>d \<in> set cands. cand_total_streams (cands ! j) \<le> cand_total_streams d)"
    and "\<not> k \<Longrightarrow> conflux_params_get_set_selection opts = 1 \<Longrightarrow> rr' = rr + 1 \<and> j = unat rr mod length cands"
    and "\<not> k \<Longrightarrow> conflux_params_get_set_selection opts = 2 \<Longrightarrow> rr' = rr \<and> (\<forall>d \<in> set cands. num_streams (cands ! j) \<le> num_streams d)"
    and "\<not> k \<Longrightarrow> conflux_params_get_set_selection opts = 3 \<Longrightarrow> rr' = rr \<and> (\<forall>d \<in> set cands. best_rtt_usec (cands ! j) \<le> best_rtt_usec d)"
    and "\<not> k \<Longrightarrow> conflux_params_get_set_selection opts \<notin> {1, 2, 3} \<Longrightarrow> rr' = rr \<and> j = 0"
proof -
  let ?sel = "conflux_params_get_set_selection opts"
  have "unat (of_nat (length cands) :: u64) = length cands" using assms(2) by (simp add: unsigned_of_nat take_bit_nat_eq_self)
  then have u: "unat (rr mod of_nat (length cands)) = unat rr mod length cands" by (simp add: unat_mod_distrib)
  have r: "unat rr mod length cands < length cands" using assms(1) by simp
  note l = least_idx_least [OF assms(1)]
  have 0: "0 < length cands" using assms(1) by simp
  consider "k" | "\<not> k" "?sel = 1" | "\<not> k" "?sel = 2" | "\<not> k" "?sel = 3" | "\<not> k" "?sel \<notin> {1, 2, 3}" by blast
  then show thesis
  proof cases
    case 1
    show thesis by (rule that [of rr "least_idx cand_total_streams cands 0 UINT64_MAX 0"])
      (use 1 assms(1) l in \<open>auto simp: conflux_pick_set_from_candidates_def Let_def\<close>)
  next
    case 2
    show thesis by (rule that [of "rr + 1" "unat rr mod length cands"]) (use 2 assms(1) u r in \<open>auto simp: conflux_pick_set_from_candidates_def Let_def\<close>)
  next
    case 3
    show thesis by (rule that [of rr "least_idx num_streams cands 0 UINT64_MAX 0"])
      (use 3 assms(1) l in \<open>auto simp: conflux_pick_set_from_candidates_def Let_def\<close>)
  next
    case 4
    show thesis by (rule that [of rr "least_idx best_rtt_usec cands 0 UINT64_MAX 0"])
      (use 4 assms(1) l in \<open>auto simp: conflux_pick_set_from_candidates_def Let_def\<close>)
  next
    case 5
    show thesis by (rule that [of rr 0]) (use 5 assms(1) 0 in \<open>auto simp: conflux_pick_set_from_candidates_def Let_def\<close>)
  qed
qed

text \<open>What each filter keeps and what it drops, as multisets.\<close>

lemma filter_rtt_max_split:
  fixes opts k
  defines "m \<equiv> word_of_int (conflux_params_get_set_rtt_max opts) * 1000 :: u64"
    and "on \<equiv> \<not> k \<and> 0 < conflux_params_get_set_rtt_max opts"
  shows "mset (filter_rtt_max opts k cands) = filter_mset (\<lambda>c. \<not> (on \<and> 1 < length cands \<and> m \<le> best_rtt_usec c)) (mset cands)"
  by (auto simp: filter_rtt_max_def Let_def del_slow_mset assms(1,2) not_le)

lemma filter_rtt_pct_split:
  fixes opts k cands
  assumes "sorts conflux_cand_rtt_asc_cmp srt"
  defines "keep \<equiv> max 1 (nat (int (length cands) * conflux_params_get_set_rtt_pct opts div 100))"
    and "on \<equiv> \<not> k \<and> 0 < conflux_params_get_set_rtt_pct opts \<and> 1 < length cands"
  obtains ds where "mset cands = mset (filter_rtt_pct srt opts k cands) + mset ds"
    and "\<And>d c. d \<in> set ds \<Longrightarrow> c \<in> set (filter_rtt_pct srt opts k cands) \<Longrightarrow> best_rtt_usec c \<le> best_rtt_usec d"
    and "length (filter_rtt_pct srt opts k cands) = (if on then min (length cands) keep else length cands)"
    and "\<not> on \<Longrightarrow> filter_rtt_pct srt opts k cands = cands"
proof (cases on)
  case True
  have m: "mset (srt cands) = mset cands" and s: "sorted_wrt (\<lambda>a b. conflux_cand_rtt_asc_cmp a b \<le> 0) (srt cands)"
    using assms(1) by (auto simp: sorts_def)
  have len: "length (srt cands) = length cands" using m by (metis size_mset)
  have p: "filter_rtt_pct srt opts k cands = take keep (srt cands)"
    using True by (simp add: filter_rtt_pct_def Let_def on_def keep_def max_def)
  show thesis
  proof (rule that)
    show "mset cands = mset (filter_rtt_pct srt opts k cands) + mset (drop keep (srt cands))"
      using m by (metis p append_take_drop_id mset_append)
    show "best_rtt_usec c \<le> best_rtt_usec d" if "d \<in> set (drop keep (srt cands))" "c \<in> set (filter_rtt_pct srt opts k cands)" for d c
    proof -
      have "conflux_cand_rtt_asc_cmp c d \<le> 0" using that s p by (metis append_take_drop_id sorted_wrt_append)
      then show ?thesis by (auto simp: conflux_cand_rtt_asc_cmp_def split: if_splits)
    qed
  qed (use True len p in simp_all)
next
  case False
  then have "filter_rtt_pct srt opts k cands = cands" by (auto simp: filter_rtt_pct_def Let_def on_def)
  then show thesis using that [of "[]"] False by simp
qed

lemma list_all2_split:
  assumes "list_all2 R us cs" and "mset cs = mset p + mset q"
  obtains ks ds where "list_all2 R ks p" and "list_all2 R ds q" and "mset us = mset ks + mset ds"
proof -
  have "list_all2 (\<lambda>c u. R u c) cs us" using assms(1) by (simp add: list_all2_conv_all_nth)
  moreover have "mset (p @ q) = mset cs" using assms(2) by simp
  ultimately obtain ys where ys: "list_all2 (\<lambda>c u. R u c) (p @ q) ys" "mset ys = mset us"
    using list_all2_reorder_left_invariance by blast
  then obtain ks ds where "ys = ks @ ds" "list_all2 (\<lambda>c u. R u c) p ks" "list_all2 (\<lambda>c u. R u c) q ds" by (auto simp: list_all2_append1)
  then show thesis using ys(2) by (intro that [of ks ds]) (simp_all add: list_all2_conv_all_nth)
qed

lemma length_filters:
  assumes "sorts conflux_cand_rtt_asc_cmp srt"
  shows "length (filter_rtt_pct srt opts k (filter_rtt_max opts k cands)) \<le> length cands"
proof -
  have "size (mset (del_slow m cands 0)) \<le> length cands" for m
    unfolding del_slow_mset by (metis add_0 drop_0 mset.simps(1) size_filter_mset_lesseq size_mset take_0)
  then have "length (filter_rtt_max opts k cands) \<le> length cands" by (simp add: filter_rtt_max_def Let_def)
  moreover have "length (srt xs) = length xs" for xs using assms by (metis size_mset sorts_def)
  then have "length (filter_rtt_pct srt opts k xs) \<le> length xs" for xs by (simp add: filter_rtt_pct_def Let_def)
  ultimately show ?thesis using le_trans by blast
qed

text \<open>The candidates that reach the policy, and what is known of them.\<close>

lemma selection_result:
  assumes "sorts conflux_cand_rtt_asc_cmp srt" and "pool_walkable next circs sets"
    and "ConfluxSetRttMax opts \<le> INT32_MAX" and "length sets < 2 ^ 31"
  obtains cands p where "list_all2 (cand_of next circs) (filter (usable_set acceptable circs) sets) cands"
    and "p = filter_rtt_pct srt opts (conflux_conn_is_keepalive conn) (filter_rtt_max opts (conflux_conn_is_keepalive conn) cands)"
    and "conflux_get_circ_for_conn srt opts next acceptable circs sets conn rr =
      Some (conflux_pick_set_from_candidates opts rr p (conflux_conn_is_keepalive conn))"
    and "length p < 2 ^ 64"
proof -
  obtain cands where g: "gather_candidates next acceptable circs sets = Some cands"
      and l: "list_all2 (cand_of next circs) (filter (usable_set acceptable circs) sets) cands" using gather_spec [OF assms(2)] by blast
  have "length cands < 2 ^ 64"
    using list_all2_lengthD [OF l] assms(4) length_filter_le [of "usable_set acceptable circs" sets] by simp
  then show ?thesis
    using that [OF l refl] g length_filters [OF assms(1), of opts "conflux_conn_is_keepalive conn" cands]
    by (simp add: conflux_get_circ_for_conn_def Let_def)
qed

text \<open>
  When a new stream finds no set.  The choice always returns, and it returns no circuit exactly
  when no set is acceptable, or when the filter on the absolute RTT is configured, at least two
  sets are acceptable, the stream is not a keep-alive one, and every acceptable set is too slow
  (a set without a measured RTT counts as slow): the filter does empty the list then, although
  the comment above it says that it never does.
\<close>

theorem set_selection_none_iff:
  assumes "sorts conflux_cand_rtt_asc_cmp srt" and "pool_walkable next circs sets"
    and "ConfluxSetRttMax opts \<le> INT32_MAX" and "length sets < 2 ^ 31"
  shows "\<exists>rr' r. conflux_get_circ_for_conn srt opts next acceptable circs sets conn rr = Some (rr', r) \<and>
    (r = None \<longleftrightarrow>
       (\<forall>cfx \<in> set sets. \<not> usable_set acceptable circs cfx) \<or>
       (rtt_max_active opts conn (filter (usable_set acceptable circs) sets) \<and>
        (\<forall>cfx \<in> set sets. usable_set acceptable circs cfx \<longrightarrow> slow_set opts cfx)))"
proof -
  let ?us = "filter (usable_set acceptable circs) sets"
  let ?k = "conflux_conn_is_keepalive conn"
  obtain cands p where l: "list_all2 (cand_of next circs) ?us cands" and p: "p = filter_rtt_pct srt opts ?k (filter_rtt_max opts ?k cands)"
    and c: "conflux_get_circ_for_conn srt opts next acceptable circs sets conn rr = Some (conflux_pick_set_from_candidates opts rr p ?k)"
    and n: "length p < 2 ^ 64" using selection_result [OF assms] by blast
  have f: "filter_rtt_max opts ?k cands = [] \<longleftrightarrow> (\<forall>u \<in> set ?us. rtt_max_active opts conn ?us \<and> slow_set opts u)"
    using filter_rtt_max_mem [OF l assms(3)] filter_rtt_max_sub [of _ opts ?k cands] list_all2_memD [OF l] list_all2_memD2 [OF l]
    by (metis ex_in_conv set_empty2)
  obtain rr' r where r: "conflux_pick_set_from_candidates opts rr p ?k = (rr', r)" by fastforce
  have "r = None \<longleftrightarrow> p = []" using r by (auto simp: conflux_pick_set_from_candidates_def Let_def case_prod_beta split: if_splits)
  then have "r = None \<longleftrightarrow> (\<forall>u \<in> set ?us. rtt_max_active opts conn ?us \<and> slow_set opts u)"
    using filter_rtt_pct_Nil [OF assms(1)] f p by simp
  then show ?thesis using c r by auto
qed

text \<open>
  C20: A new stream finds a set whenever there is one for it.  When the stream is a keep-alive one,
  the filter on the absolute RTT is off or has at most one set to look at, or at least one
  acceptable set passes that filter, the choice returns, and it returns a circuit exactly when some
  set of the pool is acceptable: the filter on the percentage never drops the last set and every
  policy picks one.  (The sets have legs and finite stream lists, the limit on the RTT is an int, and
  the pool has fewer than \<open>2 ^ 31\<close> sets.)
\<close>

theorem set_selection_finds_set:
  assumes "sorts conflux_cand_rtt_asc_cmp srt" and "pool_walkable next circs sets"
    and "ConfluxSetRttMax opts \<le> INT32_MAX" and "length sets < 2 ^ 31"
    and "rtt_max_active opts conn (filter (usable_set acceptable circs) sets) \<Longrightarrow>
      \<exists>cfx \<in> set sets. usable_set acceptable circs cfx \<and> \<not> slow_set opts cfx"
  shows "\<exists>rr' r. conflux_get_circ_for_conn srt opts next acceptable circs sets conn rr = Some (rr', r) \<and>
    ((r \<noteq> None) = (\<exists>cfx \<in> set sets. usable_set acceptable circs cfx))"
  using set_selection_none_iff [OF assms(1-4), of acceptable conn rr] assms(5) by blast

section \<open>What the filters and the policy are for\<close>

text \<open>
  The sets that reach the policy: of the acceptable sets \<open>us\<close> the slow ones are dropped when that
  filter applies, and then as many of the slowest as the percentage says, but never the last one.
  Without filters nothing changes, not even the order.
\<close>

definition kept_number :: "or_options_t \<Rightarrow> entry_connection_t \<Rightarrow> nat \<Rightarrow> nat" where
  "kept_number opts conn n =
     (if \<not> conflux_conn_is_keepalive conn \<and> 0 < conflux_params_get_set_rtt_pct opts \<and> 1 < n
      then min n (max 1 (nat (int n * conflux_params_get_set_rtt_pct opts div 100))) else n)"

definition kept_sets :: "or_options_t \<Rightarrow> entry_connection_t \<Rightarrow> conflux_t list \<Rightarrow> conflux_t list \<Rightarrow> bool" where
  "kept_sets opts conn us ks =
     (let slow = (\<lambda>u. rtt_max_active opts conn us \<and> slow_set opts u) in
      (\<exists>ds. mset us = mset ks + mset ds \<and> (\<forall>k \<in> set ks. \<not> slow k) \<and>
         (\<forall>d \<in> set ds. slow d \<or> (\<forall>k \<in> set ks. conflux_set_best_rtt k \<le> conflux_set_best_rtt d))) \<and>
      length ks = kept_number opts conn (length (filter (\<lambda>u. \<not> slow u) us)) \<and>
      (conflux_conn_is_keepalive conn \<or> ConfluxSetRttMax opts \<le> 0 \<and> ConfluxSetRttPct opts \<le> 0 \<longrightarrow> ks = us))"

text \<open>The choice among them, for every policy: the counter moves only for the round-robin policy.\<close>

definition policy_choice ::
  "(nat \<Rightarrow> nat) \<Rightarrow> (circ_id \<Rightarrow> circuit_t) \<Rightarrow> or_options_t \<Rightarrow> entry_connection_t \<Rightarrow> conflux_t list \<Rightarrow> u64 \<Rightarrow> u64 \<Rightarrow> conflux_t \<Rightarrow> bool" where
  "policy_choice next circs opts conn ks rr rr' cfx =
     (if conflux_conn_is_keepalive conn then rr' = rr \<and> (\<forall>k \<in> set ks. total_streams cfx \<le> total_streams k)
      else if ConfluxSetSelection opts = 1 then rr' = rr + 1 \<and> cfx = ks ! (unat rr mod length ks)
      else if ConfluxSetSelection opts = 2
      then rr' = rr \<and> (\<forall>k \<in> set ks. the (conflux_set_stream_count next circs cfx) \<le> the (conflux_set_stream_count next circs k))
      else if ConfluxSetSelection opts = 3 then rr' = rr \<and> (\<forall>k \<in> set ks. conflux_set_best_rtt cfx \<le> conflux_set_best_rtt k)
      else rr' = rr \<and> cfx = hd ks)"

lemma slow_cand:
  assumes "length cands = length us" and "ConfluxSetRttMax opts \<le> INT32_MAX" and "cand_of next circs u c"
  shows "(\<not> conflux_conn_is_keepalive conn \<and> 0 < conflux_params_get_set_rtt_max opts) \<and> 1 < length cands \<and>
      word_of_int (conflux_params_get_set_rtt_max opts) * 1000 \<le> best_rtt_usec c \<longleftrightarrow> rtt_max_active opts conn us \<and> slow_set opts u"
proof (cases "rtt_max_active opts conn us")
  case True
  then have "0 < conflux_params_get_set_rtt_max opts" "conflux_params_get_set_rtt_max opts \<le> INT32_MAX"
    using assms(2) by (auto simp: rtt_max_active_def conflux_params_get_set_rtt_max_def INT32_MAX_def)
  from rtt_max_unat [OF this] show ?thesis using True assms(1,3) by (simp add: rtt_max_active_def slow_set_def cand_of_def word_le_nat_alt)
qed (use assms(1) in \<open>auto simp: rtt_max_active_def\<close>)

lemma list_all2_filter_length:
  "list_all2 R us cs \<Longrightarrow> (\<And>u c. R u c \<Longrightarrow> P u = Q c) \<Longrightarrow> length (filter P us) = length (filter Q cs)"
  by (induction rule: list_all2_induct) auto

lemma kept_sets_ok:
  fixes conn opts cands
  assumes srt: "sorts conflux_cand_rtt_asc_cmp srt" and l: "list_all2 (cand_of next circs) us cands" and m: "ConfluxSetRttMax opts \<le> INT32_MAX"
  defines "k \<equiv> conflux_conn_is_keepalive conn"
  defines "p \<equiv> filter_rtt_pct srt opts k (filter_rtt_max opts k cands)"
  obtains ks where "list_all2 (cand_of next circs) ks p" and "kept_sets opts conn us ks"
proof -
  let ?f = "filter_rtt_max opts k cands"
  let ?slow = "\<lambda>u. rtt_max_active opts conn us \<and> slow_set opts u"
  let ?s = "\<lambda>c. (\<not> k \<and> 0 < conflux_params_get_set_rtt_max opts) \<and> 1 < length cands \<and> word_of_int (conflux_params_get_set_rtt_max opts) * 1000 \<le> best_rtt_usec c"
  have sl: "?s c \<longleftrightarrow> ?slow u" if "cand_of next circs u c" for u c
    unfolding k_def by (rule slow_cand [OF list_all2_lengthD [OF l, symmetric] m that])
  have f: "mset ?f = filter_mset (\<lambda>c. \<not> ?s c) (mset cands)" using filter_rtt_max_split [of opts k cands] by simp
  let ?n = "length (filter (\<lambda>u. \<not> ?slow u) us)"
  have "?n = length (filter (\<lambda>c. \<not> ?s c) cands)" by (rule list_all2_filter_length [OF l]) (use sl in blast)
  moreover have "length ?f = length (filter (\<lambda>c. \<not> ?s c) cands)" using f by (metis mset_filter size_mset)
  ultimately have n: "length ?f = ?n" by simp
  obtain late where late: "mset ?f = mset p + mset late" "\<And>d c. d \<in> set late \<Longrightarrow> c \<in> set p \<Longrightarrow> best_rtt_usec c \<le> best_rtt_usec d"
      "length p = kept_number opts conn ?n"
  proof (rule filter_rtt_pct_split [OF srt, where cands = ?f and opts = opts and k = k], goal_cases)
    case (1 ds)
    show ?case
    proof (rule that)
      show "length p = kept_number opts conn ?n" using 1(4) unfolding kept_number_def n k_def [symmetric] p_def .
    qed (use 1(2,3) in \<open>simp_all add: p_def\<close>)
  qed
  let ?q = "late @ filter ?s cands"
  have "mset ?f + mset (filter ?s cands) = mset cands" unfolding f mset_filter by (subst add.commute) (rule multiset_partition [symmetric])
  then have c: "mset cands = mset p + mset ?q" unfolding late(1) mset_append by (simp only: add.assoc)
  define same where "same = (k \<or> ConfluxSetRttMax opts \<le> 0 \<and> ConfluxSetRttPct opts \<le> 0)"
  have same: "p = cands" if "same"
    using that by (auto simp: same_def p_def filter_rtt_pct_def filter_rtt_max_def conflux_params_get_set_rtt_max_def conflux_params_get_set_rtt_pct_def Let_def)
  obtain ks ds where kd: "list_all2 (cand_of next circs) ks p" "list_all2 (cand_of next circs) ds ?q" "mset us = mset ks + mset ds" "same \<longrightarrow> ks = us"
  proof (cases same)
    case True
    then have "?q = []" using c same by simp
    then show thesis using that [of us "[]"] l same True by simp
  next
    case False
    then show thesis using list_all2_split [OF l c] that by blast
  qed
  have ns: "\<not> ?slow u" if "u \<in> set ks" for u
  proof -
    obtain e where e: "e \<in> set p" "cand_of next circs u e" using list_all2_memD2 [OF kd(1) \<open>u \<in> set ks\<close>] by blast
    then have "e \<in># mset ?f" using late(1) by simp
    then show ?thesis using sl [OF e(2)] unfolding f by simp blast
  qed
  have dr: "?slow d \<or> (\<forall>u \<in> set ks. conflux_set_best_rtt u \<le> conflux_set_best_rtt d)" if "d \<in> set ds" for d
  proof -
    obtain e where e: "e \<in> set ?q" "cand_of next circs d e" using list_all2_memD2 [OF kd(2) \<open>d \<in> set ds\<close>] by blast
    show ?thesis
    proof (cases "?s e")
      case False
      then have "e \<in> set late" using e(1) by auto
      then show ?thesis using late(2) list_all2_memD2 [OF kd(1)] e(2) by (metis cand_of_def)
    qed (use sl [OF e(2)] in blast)
  qed
  have "length ks = kept_number opts conn ?n" using late(3) list_all2_lengthD [OF kd(1)] by (simp only:)
  then have "kept_sets opts conn us ks" unfolding kept_sets_def Let_def using kd(3) kd(4) [unfolded same_def k_def] ns dr
    by (intro conjI exI [of _ ds]) blast+
  then show thesis using that kd(1) by blast
qed

text \<open>
  C19: The set that is chosen, for every policy.  A circuit that is returned is the first one of a
  set that is acceptable and passed the filters.  A keep-alive stream goes to a set with the fewest streams so
  far; policy 1, the default, takes the sets that passed in turn, by a counter; policy 2 takes one with the
  fewest streams now, policy 3 one with the lowest RTT, which is then the lowest of all acceptable sets, and policy 0 or
  an unknown one the first set.  (The sets have legs and finite stream lists, the limit on the RTT is
  an int, and the pool has fewer than \<open>2 ^ 31\<close> sets.)
\<close>

theorem set_selection_honours_policy:
  assumes "sorts conflux_cand_rtt_asc_cmp srt" and "pool_walkable next circs sets"
    and "ConfluxSetRttMax opts \<le> INT32_MAX" and "length sets < 2 ^ 31"
    and "conflux_get_circ_for_conn srt opts next acceptable circs sets conn rr = Some (rr', Some c)"
  shows "\<exists>ks. kept_sets opts conn (filter (usable_set acceptable circs) sets) ks \<and>
    (\<exists>cfx \<in> set ks. c = first_circ cfx \<and> policy_choice next circs opts conn ks rr rr' cfx \<and>
       (\<not> conflux_conn_is_keepalive conn \<and> ConfluxSetSelection opts = 3 \<longrightarrow>
         (\<forall>y \<in> set sets. usable_set acceptable circs y \<longrightarrow> conflux_set_best_rtt cfx \<le> conflux_set_best_rtt y)))"
proof -
  let ?us = "filter (usable_set acceptable circs) sets"
  let ?k = "conflux_conn_is_keepalive conn"
  obtain cands p where l: "list_all2 (cand_of next circs) ?us cands" and p: "p = filter_rtt_pct srt opts ?k (filter_rtt_max opts ?k cands)"
    and s: "conflux_get_circ_for_conn srt opts next acceptable circs sets conn rr = Some (conflux_pick_set_from_candidates opts rr p ?k)"
    and n: "length p < 2 ^ 64" using selection_result [OF assms(1-4)] by blast
  obtain ks where ks: "list_all2 (cand_of next circs) ks p" "kept_sets opts conn ?us ks" using kept_sets_ok [OF assms(1) l assms(3)] p by blast
  have ne: "p \<noteq> []" using assms(5) s by (auto simp: conflux_pick_set_from_candidates_def)
  show ?thesis
  proof (rule pick_spec [OF ne n, of opts rr ?k], goal_cases)
    case (1 r j)
    let ?x = "ks ! j"
    have r: "r = rr'" "c = ocirc (p ! j)" using 1(1) assms(5) s by simp_all
    have x: "cand_of next circs ?x (p ! j)" using list_all2_nthD2 [OF ks(1) 1(2)] .
    have e: "\<exists>e \<in> set p. cand_of next circs u e" if "u \<in> set ks" for u using list_all2_memD2 [OF ks(1) that] .
    have sel: "conflux_params_get_set_selection opts = i \<longleftrightarrow> ConfluxSetSelection opts = i" if "0 < i" for i
      using that by (auto simp: conflux_params_get_set_selection_def)
    have len: "length ks = length p" using list_all2_lengthD [OF ks(1)] .
    have hd: "hd ks = ks ! 0" using len ne by (metis hd_conv_nth length_0_conv)
    have tot: "total_streams ?x \<le> total_streams u" if "?k" "u \<in> set ks" for u using e [OF that(2)] 1(3) [OF that(1)] x by (auto simp: cand_of_def)
    have few: "the (conflux_set_stream_count next circs ?x) \<le> the (conflux_set_stream_count next circs u)"
      if "\<not> ?k" "ConfluxSetSelection opts = 2" "u \<in> set ks" for u using e [OF that(3)] 1(5) that(1,2) sel [of 2] x by (auto simp: cand_of_def)
    have fast: "conflux_set_best_rtt ?x \<le> conflux_set_best_rtt u"
      if "\<not> ?k" "ConfluxSetSelection opts = 3" "u \<in> set ks" for u using e [OF that(3)] 1(6) that(1,2) sel [of 3] x by (auto simp: cand_of_def)
    have pc: "policy_choice next circs opts conn ks rr rr' ?x"
      using 1(3-7) r(1) tot few fast hd len sel [of 1] sel [of 2] sel [of 3] by (auto simp: policy_choice_def)
    have all: "conflux_set_best_rtt ?x \<le> conflux_set_best_rtt y" if "y \<in> set ?us" "\<not> ?k" "ConfluxSetSelection opts = 3" for y
    proof -
      obtain ds where ds: "mset ?us = mset ks + mset ds" "\<forall>u \<in> set ks. \<not> (rtt_max_active opts conn ?us \<and> slow_set opts u)"
          "\<forall>d \<in> set ds. (rtt_max_active opts conn ?us \<and> slow_set opts d) \<or> (\<forall>u \<in> set ks. conflux_set_best_rtt u \<le> conflux_set_best_rtt d)"
        using ks(2) unfolding kept_sets_def Let_def by blast
      have xk: "?x \<in> set ks" using 1(2) len by simp
      have "y \<in># mset ks + mset ds" using that(1) ds(1) by (metis set_mset_mset)
      then consider "y \<in> set ks" | "y \<in> set ds" by auto
      then show ?thesis
      proof cases
        case 1
        then show ?thesis using pc that(2,3) by (simp add: policy_choice_def)
      next
        case 2
        then show ?thesis using ds(2,3) xk by (fastforce simp: slow_set_def word_le_nat_alt)
      qed
    qed
    show ?thesis using ks(2) pc all r(2) x 1(2) len by (auto intro!: exI [of _ ks] bexI [of _ ?x] simp: cand_of_def)
  qed
qed

text \<open>
  C21: The round-robin policy is fair: while the acceptable sets stay the same, no filter is
  configured and the counter does not wrap on the way, as many successive streams as there are
  acceptable sets, none of them a keep-alive one, go to each of them once, in the order of the pool
  from the place where the counter stands.
\<close>

theorem round_robin_rotates:
  assumes "pool_walkable next circs sets" and "length sets < 2 ^ 31"
    and "\<not> conflux_conn_is_keepalive conn" and "ConfluxSetSelection opts = 1"
    and "ConfluxSetRttMax opts \<le> 0" and "ConfluxSetRttPct opts \<le> 0"
    and "us = filter (usable_set acceptable circs) sets" and "us \<noteq> []" and "unat rr + length us < 2 ^ 64"
  shows "map (\<lambda>i. conflux_get_circ_for_conn srt opts next acceptable circs sets conn (rr + of_nat i)) [0..<length us] =
    map (\<lambda>i. Some (rr + of_nat i + 1, Some (first_circ (rotate (unat rr) us ! i)))) [0..<length us]"
proof (rule map_cong [OF refl])
  fix i
  assume "i \<in> set [0..<length us]"
  then have i: "i < length us" by simp
  obtain cands where g: "gather_candidates next acceptable circs sets = Some cands"
      and l: "list_all2 (cand_of next circs) us cands" using gather_spec [OF assms(1)] assms(7) by blast
  have n: "length cands = length us" using l by (simp add: list_all2_lengthD)
  have us: "length us < 2 ^ 31" using assms(2,7) le_less_trans [OF length_filter_le] by blast
  have u: "unat (rr + of_nat i) = unat rr + i"
    using assms(9) i us by (subst unat_add_nowrap) (simp_all add: unsigned_of_nat take_bit_nat_eq_self)
  have m: "unat ((rr + of_nat i) mod of_nat (length cands) :: u64) = (unat rr + i) mod length us"
    using us by (simp add: unat_mod_distrib u n unsigned_of_nat take_bit_nat_eq_self)
  have "(unat rr + i) mod length us < length us" using assms(8) by simp
  then have "ocirc (cands ! ((unat rr + i) mod length us)) = first_circ (us ! ((unat rr + i) mod length us))"
    using l n by (metis list_all2_nthD cand_of_def)
  moreover have "cands \<noteq> []" using n assms(8) by auto
  ultimately show "conflux_get_circ_for_conn srt opts next acceptable circs sets conn (rr + of_nat i) =
      Some (rr + of_nat i + 1, Some (first_circ (rotate (unat rr) us ! i)))"
    using g assms(3-6) i m
    by (simp add: conflux_get_circ_for_conn_def filter_rtt_max_def filter_rtt_pct_def conflux_params_get_set_rtt_max_def
        conflux_params_get_set_rtt_pct_def conflux_pick_set_from_candidates_def conflux_params_get_set_selection_def
        Let_def nth_rotate)
qed

section \<open>A pool of two sets\<close>

definition sel_leg :: "circ_id \<Rightarrow> u64 \<Rightarrow> conflux_leg_t" where
  "sel_leg c rtt = \<lparr>leg_circ = c, last_seq_recv = 0, last_seq_sent = 0, circ_rtts_usec = rtt, linked_sent_usec = 0\<rparr>"

definition sel_set :: "conflux_leg_t list \<Rightarrow> u64 \<Rightarrow> conflux_t" where
  "sel_set ls n = \<lparr>alg = CONFLUX_ALG_LOWRTT, legs = ls, ooo_q = [], ooo_q_alloc_cost = 0, last_seq_delivered = 0,
     cells_until_switch = 0, curr_leg = None, prev_leg = None, cfx_nonce = replicate 32 0, in_full_teardown = False,
     num_leg_launch = 0, total_streams = n, bytes_sent = 0, bytes_recv = 0\<rparr>"

definition sel_pool :: "conflux_t list" where
  "sel_pool = [sel_set [sel_leg 1 300000, sel_leg 2 900000] 7, sel_set [sel_leg 3 200000] 9]"

definition sel_circs :: "circ_id \<Rightarrow> circuit_t" where
  "sel_circs c = exit_circ\<lparr>is_origin := True, purpose := CIRCUIT_PURPOSE_CONFLUX_LINKED, p_streams := (if c < 3 then 40 else 0)\<rparr>"

definition sel_opts :: "int \<Rightarrow> int \<Rightarrow> int \<Rightarrow> or_options_t" where
  "sel_opts policy rtt_max rtt_pct = \<lparr>ConfluxEnabled = 1, ConfluxNumLegs = 0, ConfluxNumSets = 0, ConfluxNumLinkedSets = 0,
     ConfluxSetSelection = policy, ConfluxSetRttMax = rtt_max, ConfluxSetRttPct = rtt_pct, AlwaysCongestionControl = True\<rparr>"

abbreviation "sel_conn \<equiv> \<lparr>socks_request = None\<rparr> :: entry_connection_t"

lemmas sel_simps = sel_pool_def sel_set_def sel_leg_def sel_circs_def sel_opts_def exit_circ_def
  smartlist_get_def count_streams.simps conflux_set_stream_count_def pool_walkable_def usable_set_def first_circ_def
  conflux_conn_is_keepalive_def rtt_max_active_def slow_set_def conflux_set_best_rtt_def UINT64_MAX_def
  conflux_params_get_set_rtt_max_def conflux_params_get_set_selection_def

lemma sel_walkable: "pool_walkable (\<lambda>_. 0) sel_circs sel_pool"
  by (simp add: sel_simps)

theorem set_selection_none_iff_witness:
  "\<exists>rr. conflux_get_circ_for_conn (sort_key best_rtt_usec) (sel_opts 0 100 0) (\<lambda>_. 0) (\<lambda>_. True) sel_circs sel_pool
      sel_conn 0 = Some (rr, None)"
  using set_selection_none_iff [OF sorts_sort_key sel_walkable, of "sel_opts 0 100 0" "\<lambda>_. True" sel_conn 0]
  by (auto simp: sel_simps INT32_MAX_def)

theorem set_selection_finds_set_witness:
  "\<exists>rr' r. conflux_get_circ_for_conn (sort_key best_rtt_usec) (sel_opts 1 250 50) (\<lambda>_. 0) (\<lambda>_. True) sel_circs sel_pool sel_conn 0 =
     Some (rr', r) \<and> r \<noteq> None"
proof -
  have "ConfluxSetRttMax (sel_opts 1 250 50) \<le> INT32_MAX" "length sel_pool < 2 ^ 31" by (simp_all add: sel_opts_def sel_pool_def INT32_MAX_def)
  moreover have ex: "\<exists>cfx \<in> set sel_pool. usable_set (\<lambda>_. True) sel_circs cfx \<and> \<not> slow_set (sel_opts 1 250 50) cfx" by (simp add: sel_simps)
  ultimately show ?thesis using set_selection_finds_set [OF sorts_sort_key sel_walkable, of "sel_opts 1 250 50" sel_conn "\<lambda>_. True" 0] by blast
qed

theorem set_selection_honours_policy_witness:
  "\<exists>cfx ks. kept_sets (sel_opts 1 0 50) sel_conn sel_pool ks \<and> policy_choice (\<lambda>_. 0) sel_circs (sel_opts 1 0 50) sel_conn ks 5 6 cfx \<and>
     conflux_get_circ_for_conn (sort_key best_rtt_usec) (sel_opts 1 0 50) (\<lambda>_. 0) (\<lambda>_. True) sel_circs sel_pool sel_conn 5 =
       Some (6, Some (first_circ cfx))"
proof -
  have r: "conflux_get_circ_for_conn (sort_key best_rtt_usec) (sel_opts 1 0 50) (\<lambda>_. 0) (\<lambda>_. True) sel_circs sel_pool sel_conn 5 = Some (6, Some 3)"
    by (simp add: conflux_get_circ_for_conn_def filter_rtt_max_def filter_rtt_pct_def conflux_params_get_set_rtt_pct_def
        conflux_pick_set_from_candidates_def sel_simps)
  have u: "filter (usable_set (\<lambda>_. True) sel_circs) sel_pool = sel_pool" by (simp add: sel_simps)
  have "ConfluxSetRttMax (sel_opts 1 0 50) \<le> INT32_MAX" "length sel_pool < 2 ^ 31" by (simp_all add: sel_opts_def sel_pool_def INT32_MAX_def)
  from set_selection_honours_policy [OF sorts_sort_key sel_walkable this r] show ?thesis using r unfolding u by metis
qed

theorem round_robin_rotates_witness:
  "map (\<lambda>i. conflux_get_circ_for_conn id (sel_opts 1 0 0) (\<lambda>_. 0) (\<lambda>_. True) sel_circs sel_pool sel_conn (5 + of_nat i)) [0..<2] =
     [Some (6, Some 3), Some (7, Some 1)]"
proof -
  have u: "filter (usable_set (\<lambda>_. True) sel_circs) sel_pool = sel_pool" by (simp add: sel_simps)
  have l: "length sel_pool = 2" "sel_pool \<noteq> []" by (simp_all add: sel_pool_def)
  have r: "rotate 5 sel_pool = rotate1 sel_pool" using rotate_conv_mod [of 5 sel_pool] by (simp add: l)
  have f: "first_circ (rotate1 sel_pool ! 0) = 3" "first_circ (rotate1 sel_pool ! 1) = 1"
    by (simp_all add: sel_pool_def first_circ_def sel_set_def sel_leg_def)
  show ?thesis
    using round_robin_rotates [OF sel_walkable _ _ _ _ _ refl, of sel_conn "sel_opts 1 0 0" "\<lambda>_. True" 5 id] r f
    by (simp add: u l sel_opts_def conflux_conn_is_keepalive_def sel_pool_def [symmetric] upt_rec)
qed

end
