(* ===== verification/ConfluxPool.thy ===== *)
theory ConfluxPool
  imports ConfluxUtil "HOL-Library.AList"
begin

text \<open>
  \<^verbatim>\<open>core/or/conflux_pool.c\<close>: the pools of linked and unlinked sets, what a leg goes through from its
  launch to its end, and how sets are torn down and refilled.

  Memory.  Conflux objects live in a store \<open>pl_cfxs\<close>: an address that is not in the store has been
  freed, reading or freeing it is \<^term>\<open>None\<close>, like a failing assertion.  Unlinked sets belong to the
  pool, so a pointer to one is its key, and using a key that is no longer in the pool is \<^term>\<open>None\<close>
  too.  Circuits stay in memory (\<open>pl_circs\<close>).  \<open>pl_mem_pressure\<close> is the answer of
  \<^verbatim>\<open>have_been_under_memory_pressure\<close>.

  The calls that leave this file (sending cells, closing circuits, attaching streams) are logged
  in \<open>pl_calls\<close>; what the rest of the program decides is in the record \<open>pool_env\<close>.
\<close>

section \<open>State\<close>

text \<open>\<open>lg_circ\<close> is NULL once the circuit was freed without being closed.\<close>

record leg_t =
  lg_circ :: "circ_id option"
  lg_link :: conflux_cell_link_t
  lg_linked :: bool
  lg_link_sent_usec :: u64
  lg_rtt_usec :: u64

record unlinked_circuits_t =
  ul_is_client :: bool
  is_for_linked_set :: bool
  ul_cfx :: cfx_id
  ul_legs :: "leg_t list"

datatype link_circ_err_t = ERR_LINK_CIRC_OK | ERR_LINK_CIRC_BAD_RTT | ERR_LINK_CIRC_MISSING_LEG
  | ERR_LINK_CIRC_MISSING_SET | ERR_LINK_CIRC_INVALID_LEG

text \<open>A stream in the list of its circuit; address 0 is NULL.\<close>

record stream_node = edge_connection_t +
  next_stream :: nat

record pool_t =
  pl_circs :: "circ_id \<Rightarrow> circuit_t"
  pl_cfxs :: "cfx_id \<Rightarrow> conflux_t option"
  pl_next_circ :: circ_id
  pl_next_cfx :: cfx_id
  pl_conns :: "nat \<Rightarrow> stream_node"
  client_linked_pool :: "(nonce \<times> cfx_id) list"
  client_unlinked_pool :: "(nonce \<times> unlinked_circuits_t) list"
  server_linked_pool :: "(nonce \<times> cfx_id) list"
  server_unlinked_pool :: "(nonce \<times> unlinked_circuits_t) list"
  pl_shutting_down :: bool
  pl_mem_pressure :: bool
  pl_total_ooo_q_bytes :: u64
  circuits_pending_close :: "circ_id list"
  pl_calls :: "action list"

text \<open>
  What happens when a path is chosen and the first hop contacted: no path, no channel to the first
  hop (with the reason), or a circuit with the path given.
\<close>

datatype build_outcome = No_path | First_hop_failed "crypt_path_t list" end_circ_reason | Built "crypt_path_t list"

text \<open>
  \<open>pe_new_circ\<close> has the random and timing fields of a new circuit, \<open>pe_sent\<close> is the outcome of
  sending a cell on a circuit, \<open>pe_cbt_usec\<close> the circuit build timeout in microseconds,
  \<open>pe_have_exits\<close> that the consensus has exit paths.  \<open>pe_close_delayed\<close> is the answer of the padding
  machines and of the path bias code when a circuit should be closed: the purpose under which they
  keep it open, if they do.  \<open>pe_memory\<close> is what the check of the memory finds after a cell was
  queued on a circuit: enough memory, or too little, with the circuits that the out-of-memory
  handler closes, in the order of their age.
\<close>

record pool_env =
  pe_params :: conflux_params_cache
  pe_opts :: or_options_t
  pe_cc :: cc_globals
  pe_client_ux :: u8
  pe_now :: u64
  pe_cbt_usec :: u64
  pe_have_exits :: bool
  pe_new_circ :: "circ_id \<Rightarrow> circuit_t"
  pe_build :: "circ_id \<Rightarrow> extend_info_t option \<Rightarrow> build_outcome"
  pe_close_delayed :: "circuit_t \<Rightarrow> end_circ_reason \<Rightarrow> purpose_t option"
  pe_memory :: "circ_id \<Rightarrow> (circ_id \<Rightarrow> circuit_t) \<Rightarrow> circ_id list option"
  pe_sent :: "circ_id \<Rightarrow> bool"

definition upd_circ :: "circ_id \<Rightarrow> (circuit_t \<Rightarrow> circuit_t) \<Rightarrow> pool_t \<Rightarrow> pool_t" where
  "upd_circ c f s = s\<lparr>pl_circs := (pl_circs s)(c := f (pl_circs s c))\<rparr>"

definition upd_cfx :: "cfx_id \<Rightarrow> conflux_t \<Rightarrow> pool_t \<Rightarrow> pool_t" where
  "upd_cfx x cfx s = s\<lparr>pl_cfxs := (pl_cfxs s)(x \<mapsto> cfx)\<rparr>"

definition log_calls :: "action list \<Rightarrow> pool_t \<Rightarrow> pool_t" where
  "log_calls as s = s\<lparr>pl_calls := pl_calls s @ as\<rparr>"

section \<open>Sets and legs\<close>

definition conflux_choose_algorithm :: "u8 \<Rightarrow> conflux_alg_t" where
  "conflux_choose_algorithm desired_ux =
     (if desired_ux = 0 then CONFLUX_ALG_LOWRTT
      else if desired_ux = 1 then CONFLUX_ALG_MINRTT
      else if desired_ux = 3 then CONFLUX_ALG_LOWRTT
      else if desired_ux = 4 \<or> desired_ux = 2 then CONFLUX_ALG_MINRTT
      else CONFLUX_ALG_LOWRTT)"

definition conflux_new :: conflux_t where
  "conflux_new = \<lparr>alg = CONFLUX_ALG_MINRTT, legs = [], ooo_q = [], ooo_q_alloc_cost = 0, last_seq_delivered = 0,
     cells_until_switch = 0, curr_leg = None, prev_leg = None, cfx_nonce = replicate 32 0, in_full_teardown = False,
     num_leg_launch = 0, total_streams = 0, bytes_sent = 0, bytes_recv = 0\<rparr>"

definition conflux_free :: "cfx_id \<Rightarrow> pool_t \<Rightarrow> pool_t option" where
  "conflux_free x s = do {
     cfx \<leftarrow> pl_cfxs s x;
     Some (s\<lparr>pl_cfxs := (pl_cfxs s)(x := None),
             pl_total_ooo_q_bytes := fst (conflux_clear_ooo_q (pl_total_ooo_q_bytes s) cfx)\<rparr>)
   }"

definition leg_new :: "circ_id \<Rightarrow> conflux_cell_link_t \<Rightarrow> leg_t" where
  "leg_new c link = \<lparr>lg_circ = Some c, lg_link = link, lg_linked = False, lg_link_sent_usec = 0, lg_rtt_usec = 0\<rparr>"

definition leg_free :: "leg_t \<Rightarrow> pool_t \<Rightarrow> pool_t" where
  "leg_free leg s = (case lg_circ leg of None \<Rightarrow> s | Some c \<Rightarrow> upd_circ c (\<lambda>k. k\<lparr>conflux_pending_nonce := None\<rparr>) s)"

text \<open>The pools.\<close>

definition unlinked_pool_get :: "nonce \<Rightarrow> bool \<Rightarrow> pool_t \<Rightarrow> unlinked_circuits_t option" where
  "unlinked_pool_get nonce is_client s =
     map_of (if is_client then client_unlinked_pool s else server_unlinked_pool s) nonce"

definition linked_pool_get :: "nonce \<Rightarrow> bool \<Rightarrow> pool_t \<Rightarrow> cfx_id option" where
  "linked_pool_get nonce is_client s = map_of (if is_client then client_linked_pool s else server_linked_pool s) nonce"

definition unlinked_pool_set :: "nonce \<Rightarrow> unlinked_circuits_t \<Rightarrow> bool \<Rightarrow> pool_t \<Rightarrow> pool_t" where
  "unlinked_pool_set nonce u is_client s =
     (if is_client then s\<lparr>client_unlinked_pool := AList.update nonce u (client_unlinked_pool s)\<rparr>
      else s\<lparr>server_unlinked_pool := AList.update nonce u (server_unlinked_pool s)\<rparr>)"

definition unlinked_pool_add :: "unlinked_circuits_t \<Rightarrow> bool \<Rightarrow> pool_t \<Rightarrow> pool_t option" where
  "unlinked_pool_add u is_client s = do {
     cfx \<leftarrow> pl_cfxs s (ul_cfx u);
     Some (unlinked_pool_set (cfx_nonce cfx) u is_client s)
   }"

definition unlinked_pool_del :: "unlinked_circuits_t \<Rightarrow> bool \<Rightarrow> pool_t \<Rightarrow> pool_t option" where
  "unlinked_pool_del u is_client s = do {
     cfx \<leftarrow> pl_cfxs s (ul_cfx u);
     Some (if is_client then s\<lparr>client_unlinked_pool := AList.delete (cfx_nonce cfx) (client_unlinked_pool s)\<rparr>
           else s\<lparr>server_unlinked_pool := AList.delete (cfx_nonce cfx) (server_unlinked_pool s)\<rparr>)
   }"

definition linked_pool_add :: "cfx_id \<Rightarrow> bool \<Rightarrow> pool_t \<Rightarrow> pool_t option" where
  "linked_pool_add x is_client s = do {
     cfx \<leftarrow> pl_cfxs s x;
     Some (if is_client then s\<lparr>client_linked_pool := AList.update (cfx_nonce cfx) x (client_linked_pool s)\<rparr>
           else s\<lparr>server_linked_pool := AList.update (cfx_nonce cfx) x (server_linked_pool s)\<rparr>)
   }"

definition linked_pool_del :: "nonce \<Rightarrow> bool \<Rightarrow> pool_t \<Rightarrow> pool_t" where
  "linked_pool_del nonce is_client s =
     (if is_client then s\<lparr>client_linked_pool := AList.delete nonce (client_linked_pool s)\<rparr>
      else s\<lparr>server_linked_pool := AList.delete nonce (server_linked_pool s)\<rparr>)"

text \<open>Allocating an unlinked set allocates a conflux object for it.\<close>

definition unlinked_new :: "nonce \<Rightarrow> bool \<Rightarrow> pool_t \<Rightarrow> unlinked_circuits_t \<times> pool_t" where
  "unlinked_new nonce is_client s =
     (let x = pl_next_cfx s
      in (\<lparr>ul_is_client = is_client, is_for_linked_set = False, ul_cfx = x, ul_legs = []\<rparr>,
          (upd_cfx x (conflux_new\<lparr>cfx_nonce := nonce\<rparr>) s)\<lparr>pl_next_cfx := Suc x\<rparr>))"

definition unlinked_free :: "unlinked_circuits_t \<Rightarrow> pool_t \<Rightarrow> pool_t option" where
  "unlinked_free u s = do {
     s \<leftarrow> (if is_for_linked_set u then Some s else conflux_free (ul_cfx u) s);
     Some (foldl (\<lambda>s leg. leg_free leg s) s (ul_legs u))
   }"

definition unlinked_pool_del_and_free :: "unlinked_circuits_t \<Rightarrow> bool \<Rightarrow> pool_t \<Rightarrow> pool_t option" where
  "unlinked_pool_del_and_free u is_client s = do {
     s \<leftarrow> unlinked_pool_del u is_client s;
     unlinked_free u s
   }"

definition unlinked_get_or_create :: "nonce \<Rightarrow> bool \<Rightarrow> pool_t \<Rightarrow> (unlinked_circuits_t \<times> pool_t) option" where
  "unlinked_get_or_create nonce is_client s =
     (case unlinked_pool_get nonce is_client s of
        Some u \<Rightarrow> Some (u, s)
      | None \<Rightarrow> do {
          let (u, s) = unlinked_new nonce is_client s;
          (u, s) \<leftarrow> (case linked_pool_get nonce is_client s of
                      None \<Rightarrow> Some (u, s)
                    | Some x \<Rightarrow> do {
                        s \<leftarrow> conflux_free (ul_cfx u) s;
                        Some (u\<lparr>ul_cfx := x, is_for_linked_set := True\<rparr>, s)
                      });
          s \<leftarrow> unlinked_pool_add u is_client s;
          Some (u, s)
        })"

definition leg_find :: "unlinked_circuits_t \<Rightarrow> circ_id \<Rightarrow> leg_t option" where
  "leg_find u c = find (\<lambda>leg. lg_circ leg = Some c) (ul_legs u)"

text \<open>The nonce is read from the circuit, which must have one.\<close>

definition unlinked_leg_find :: "circ_id \<Rightarrow> bool \<Rightarrow> pool_t \<Rightarrow> leg_t option option" where
  "unlinked_leg_find c is_client s = do {
     nonce \<leftarrow> conflux_pending_nonce (pl_circs s c);
     Some (case unlinked_pool_get nonce is_client s of None \<Rightarrow> None | Some u \<Rightarrow> leg_find u c)
   }"

text \<open>Writing through the pointer to the leg of a circuit.\<close>

fun update_uleg :: "circ_id \<Rightarrow> (leg_t \<Rightarrow> leg_t) \<Rightarrow> leg_t list \<Rightarrow> leg_t list" where
  "update_uleg c f [] = []"
| "update_uleg c f (l # ls) = (if lg_circ l = Some c then f l # ls else l # update_uleg c f ls)"

text \<open>Deleting the first element with a property the way \<^verbatim>\<open>smartlist_del\<close> does: the last takes its place.\<close>

fun del_first :: "('a \<Rightarrow> bool) \<Rightarrow> 'a list \<Rightarrow> 'a list" where
  "del_first P [] = []"
| "del_first P (x # xs) = (if P x then (if xs = [] then [] else last xs # butlast xs) else x # del_first P xs)"

definition unlinked_leg_del_and_free :: "nonce \<Rightarrow> bool \<Rightarrow> circ_id \<Rightarrow> pool_t \<Rightarrow> pool_t option" where
  "unlinked_leg_del_and_free nonce is_client c s = do {
     u \<leftarrow> unlinked_pool_get nonce is_client s;
     (case leg_find u c of
        None \<Rightarrow> Some s
      | Some leg \<Rightarrow>
          Some (leg_free leg (unlinked_pool_set nonce
            (u\<lparr>ul_legs := del_first (\<lambda>l. lg_circ l = Some c) (ul_legs u)\<rparr>) is_client s)))
   }"

definition validate_circ_has_no_streams :: "circ_id \<Rightarrow> pool_t \<Rightarrow> pool_t" where
  "validate_circ_has_no_streams c =
     upd_circ c (\<lambda>k. if is_origin k then k\<lparr>p_streams := 0, half_streams := 0\<rparr>
                     else k\<lparr>n_streams := 0, resolving_streams := 0\<rparr>)"

text \<open>The loop compares with the version and nonce of the first leg and validates each circuit on the way.\<close>

fun validate_legs_loop ::
  "unlinked_circuits_t \<Rightarrow> u64 \<Rightarrow> (u8 \<times> nonce) option \<Rightarrow> leg_t list \<Rightarrow> bool \<Rightarrow> pool_t \<Rightarrow> (bool \<times> pool_t) option" where
  "validate_legs_loop u delivered first [] valid s = Some (valid, s)"
| "validate_legs_loop u delivered first (leg # ls) valid s = do {
     let (first, valid) =
       (case first of
          None \<Rightarrow> (Some (link_version (lg_link leg), link_nonce (lg_link leg)), valid)
        | Some (version, nonce) \<Rightarrow>
            (first, valid \<and> link_version (lg_link leg) = version \<and> link_nonce (lg_link leg) = nonce));
     let valid = (valid \<and> \<not> link_last_seqno_sent (lg_link leg) > delivered);
     c \<leftarrow> lg_circ leg;
     validate_legs_loop u delivered first ls valid (validate_circ_has_no_streams c s)
   }"

definition validate_unlinked_legs :: "unlinked_circuits_t \<Rightarrow> pool_t \<Rightarrow> (bool \<times> pool_t) option" where
  "validate_unlinked_legs u s = do {
     cfx \<leftarrow> pl_cfxs s (ul_cfx u);
     validate_legs_loop u (last_seq_delivered cfx) None (ul_legs u) True s
   }"

definition share_streams :: "circuit_t \<Rightarrow> circuit_t \<Rightarrow> circuit_t" where
  "share_streams old k = (if is_origin old then k\<lparr>p_streams := p_streams old, half_streams := half_streams old\<rparr>
                          else k\<lparr>n_streams := n_streams old, resolving_streams := resolving_streams old\<rparr>)"

text \<open>\<^verbatim>\<open>TO_ORIGIN_CIRCUIT\<close> and \<^verbatim>\<open>TO_OR_CIRCUIT\<close> assert the kind of the new circuit.\<close>

definition cfx_sync_leg :: "conflux_t \<Rightarrow> circ_id \<Rightarrow> pool_t \<Rightarrow> pool_t option" where
  "cfx_sync_leg cfx c s = do {
     let s = validate_circ_has_no_streams c s;
     first_leg \<leftarrow> smartlist_get (legs cfx) 0;
     let old = pl_circs s (leg_circ first_leg);
     tor_assert (is_origin old = is_origin (pl_circs s c));
     let s = upd_circ c (share_streams old) s;
     let s = (if is_origin old then s\<lparr>pl_circs := conflux_sync_circ_fields cfx (leg_circ first_leg) (pl_circs s)\<rparr> else s);
     let s = (if is_origin (pl_circs s c) then upd_circ c (\<lambda>k. k\<lparr>purpose := CIRCUIT_PURPOSE_CONFLUX_LINKED\<rparr>) s else s);
     valid \<leftarrow> conflux_validate_stream_lists (pl_circs s) cfx;
     Some s
   }"

definition cfx_add_leg :: "cfx_id \<Rightarrow> leg_t \<Rightarrow> pool_t \<Rightarrow> pool_t option" where
  "cfx_add_leg x leg s = do {
     cfx \<leftarrow> pl_cfxs s x;
     c \<leftarrow> lg_circ leg;
     tor_assert (cfx_nonce cfx = link_nonce (lg_link leg));
     let cleg = \<lparr>leg_circ = c, last_seq_recv = link_last_seqno_sent (lg_link leg),
                 last_seq_sent = link_last_seqno_recv (lg_link leg), circ_rtts_usec = lg_rtt_usec leg,
                 linked_sent_usec = lg_link_sent_usec leg\<rparr>;
     let cfx = cfx\<lparr>alg := conflux_choose_algorithm (link_desired_ux (lg_link leg)), legs := smartlist_add (legs cfx) cleg\<rparr>;
     cfx_sync_leg cfx c (upd_cfx x cfx s)
   }"

text \<open>The result says whether the whole set must be torn down.\<close>

definition cfx_del_leg :: "conflux_t \<Rightarrow> circ_id \<Rightarrow> circuit_t \<Rightarrow> (conflux_t \<times> bool) option" where
  "cfx_del_leg cfx c circ =
     (case conflux_get_leg cfx c of
        None \<Rightarrow> Some (cfx, False)
      | Some leg \<Rightarrow> do {
          cc \<leftarrow> circuit_ccontrol circ;
          tor_assert (sendme_inc cc \<noteq> 0);
          let full_teardown = (inflight cc \<ge> ucast (sendme_inc cc));
          let cfx = cfx\<lparr>legs := del_first (\<lambda>l. leg_circ l = c) (legs cfx)\<rparr>;
          let full_teardown = (full_teardown \<or> (legs cfx \<noteq> [] \<and>
            (conflux_get_max_seq_sent cfx < last_seq_sent leg \<or> conflux_get_max_seq_recv cfx < last_seq_recv leg)));
          let full_teardown = (full_teardown \<or> curr_leg cfx = Some c);
          let cfx = (if curr_leg cfx = Some c then cfx\<lparr>curr_leg := None\<rparr> else cfx);
          let cfx = (if prev_leg cfx = Some c then cfx\<lparr>prev_leg := None\<rparr> else cfx);
          let cfx = (if \<not> full_teardown \<and> num_leg_launch cfx > 0 then cfx\<lparr>num_leg_launch := num_leg_launch cfx - 1\<rparr> else cfx);
          Some (cfx, full_teardown)
        })"

text \<open>The streams of a list, in order; on a cyclic list the walk does not return.\<close>

partial_function (option) stream_list :: "(nat \<Rightarrow> stream_node) \<Rightarrow> nat \<Rightarrow> nat list option" where
  "stream_list conns p =
     (if p = 0 then Some [] else do {
        ps \<leftarrow> stream_list conns (next_stream (conns p));
        Some (p # ps)
      })"

definition set_backpointers :: "circ_id \<Rightarrow> crypt_path_t option option \<Rightarrow> nat list \<Rightarrow> (nat \<Rightarrow> stream_node) \<Rightarrow> nat \<Rightarrow> stream_node" where
  "set_backpointers c layer ps conns =
     foldl (\<lambda>m p. m(p := (m p)\<lparr>on_circuit := Some c,
        cpath_layer := (case layer of None \<Rightarrow> cpath_layer (m p) | Some l \<Rightarrow> l)\<rparr>)) conns ps"

definition linked_update_stream_backpointers :: "circ_id \<Rightarrow> pool_t \<Rightarrow> pool_t option" where
  "linked_update_stream_backpointers c s =
     (if is_origin (pl_circs s c)
      then do {
        ps \<leftarrow> stream_list (pl_conns s) (p_streams (pl_circs s c));
        tor_assert (ps = [] \<or> cpath (pl_circs s c) \<noteq> []);
        Some (s\<lparr>pl_conns := set_backpointers c (Some (cpath_last (pl_circs s c))) ps (pl_conns s)\<rparr>)
      }
      else do {
        ps \<leftarrow> stream_list (pl_conns s) (n_streams (pl_circs s c));
        qs \<leftarrow> stream_list (pl_conns s) (resolving_streams (pl_circs s c));
        Some (s\<lparr>pl_conns := set_backpointers c None qs (set_backpointers c None ps (pl_conns s))\<rparr>)
      })"

definition linked_nullify_streams :: "circ_id \<Rightarrow> pool_t \<Rightarrow> pool_t" where
  "linked_nullify_streams c =
     upd_circ c (\<lambda>k. if is_origin k then k\<lparr>p_streams := 0, half_streams := 0\<rparr>
                     else k\<lparr>n_streams := 0, resolving_streams := 0\<rparr>)"

end
