(* ===== verification/ConfluxClose.thy ===== *)
theory ConfluxClose
  imports ConfluxPool
begin

text \<open>
  Closing and launching legs.  Marking a circuit for close tells the pool, which may launch a
  replacement leg (whose circuit may fail at once and be marked for close itself) or mark the
  other circuits of the set: the functions call each other through \<^verbatim>\<open>circuit_mark_for_close\<close>.
  Each is first written with that callee as a parameter \<open>mark\<close>; the recursive function closes the
  loop at the end.  It is not obvious that this recursion ends; a call that does not is \<^term>\<open>None\<close>.
\<close>

type_synonym marker = "end_circ_reason \<Rightarrow> circ_id \<Rightarrow> pool_t \<Rightarrow> pool_t option"

text \<open>Marking the circuits of a list one after the other, when \<open>P\<close> still holds for each.\<close>

fun mark_list :: "marker \<Rightarrow> (circuit_t \<Rightarrow> bool) \<Rightarrow> end_circ_reason \<Rightarrow> circ_id list \<Rightarrow> pool_t \<Rightarrow> pool_t option" where
  "mark_list mark P reason [] s = Some s"
| "mark_list mark P reason (c # cs) s = do {
     s \<leftarrow> (if P (pl_circs s c) then mark reason c s else Some s);
     mark_list mark P reason cs s
   }"

section \<open>Short memory\<close>

text \<open>
  Queueing a cell checks the memory that is in use.  When there is too little left this is noted,
  so that no leg is launched for a while, and the out-of-memory handler closes circuits, those that
  are not closed yet (when only the lower limit is reached the list is empty).
\<close>

definition cell_queues_check_size_with :: "marker \<Rightarrow> pool_env \<Rightarrow> circ_id \<Rightarrow> pool_t \<Rightarrow> pool_t option" where
  "cell_queues_check_size_with mark e c s =
     (case pe_memory e c (pl_circs s) of
        None \<Rightarrow> Some s
      | Some circlist \<Rightarrow>
          mark_list mark (\<lambda>k. marked_for_close k = 0) END_CIRC_REASON_RESOURCELIMIT circlist (s\<lparr>pl_mem_pressure := True\<rparr>))"

section \<open>Launching a leg\<close>

definition launch_leg_is_allowed :: "conflux_params_cache \<Rightarrow> conflux_t option \<Rightarrow> bool" where
  "launch_leg_is_allowed p cfx =
     (case cfx of
        None \<Rightarrow> True
      | Some x \<Rightarrow>
          (let max_num_launch = ucast (conflux_params_get_num_legs_set p) + ucast (conflux_params_get_max_unlinked_leg_retry p)
           in \<not> num_leg_launch x \<ge> max_num_launch))"

text \<open>The exit of the first leg of the set, linked or not.\<close>

definition exit_of_circ :: "circuit_t \<Rightarrow> extend_info_t option" where
  "exit_of_circ circ = do { hop \<leftarrow> cpath_last circ; cp_extend_info hop }"

definition get_exit_for_nonce :: "nonce \<Rightarrow> pool_t \<Rightarrow> extend_info_t option option" where
  "get_exit_for_nonce nonce s =
     (case linked_pool_get nonce True s of
        Some x \<Rightarrow> do {
          cfx \<leftarrow> pl_cfxs s x;
          leg \<leftarrow> smartlist_get (legs cfx) 0;
          exit \<leftarrow> exit_of_circ (pl_circs s (leg_circ leg));
          Some (Some exit)
        }
      | None \<Rightarrow>
          (case unlinked_pool_get nonce True s of
             None \<Rightarrow> Some None
           | Some u \<Rightarrow>
               (if ul_legs u = [] then Some None
                else do {
                  leg \<leftarrow> smartlist_get (ul_legs u) 0;
                  c \<leftarrow> lg_circ leg;
                  exit \<leftarrow> exit_of_circ (pl_circs s c);
                  Some (Some exit)
                })))"

text \<open>
  A new circuit is zeroed memory but for the random and timing fields that \<open>k\<close> brings.  When a path
  was found, a CREATE cell is queued for the first hop (at once or when the channel is open), and the
  out-of-memory handler may close that very circuit.
\<close>

definition origin_circuit_init :: "purpose_t \<Rightarrow> circuit_t \<Rightarrow> circuit_t" where
  "origin_circuit_init purp k = k\<lparr>is_origin := True, purpose := purp, has_n_chan := False, n_chan_cells_n := 0,
     circuit_blocked_on_n_chan := False, marked_for_close := 0, timestamp_dirty := 0, c_ccontrol := None, conflux := None,
     conflux_pending_nonce := None, cpath := [], unusable_for_new_conns := False, p_streams := 0, half_streams := 0,
     sendme_last_digests := []\<rparr>"

definition circuit_establish_circuit_conflux_with ::
  "marker \<Rightarrow> pool_env \<Rightarrow> nonce \<Rightarrow> extend_info_t option \<Rightarrow> pool_t \<Rightarrow> (circ_id option \<times> pool_t) option" where
  "circuit_establish_circuit_conflux_with mark e conflux_nonce exit_ei s = do {
     let c = pl_next_circ s;
     let k = (origin_circuit_init CIRCUIT_PURPOSE_CONFLUX_UNLINKED (pe_new_circ e c))\<lparr>conflux_pending_nonce := Some conflux_nonce\<rparr>;
     let s = (upd_circ c (\<lambda>_. k) s)\<lparr>pl_next_circ := Suc c\<rparr>;
     (case pe_build e c exit_ei of
        No_path \<Rightarrow> do {
          s \<leftarrow> mark END_CIRC_REASON_NOPATH c s;
          Some (None, s)
        }
      | First_hop_failed path reason \<Rightarrow> do {
          s \<leftarrow> mark reason c (upd_circ c (\<lambda>k. k\<lparr>cpath := path\<rparr>) s);
          Some (None, s)
        }
      | Built path \<Rightarrow> do {
          s \<leftarrow> cell_queues_check_size_with mark e c (upd_circ c (\<lambda>k. k\<lparr>cpath := path\<rparr>) s);
          Some (if marked_for_close (pl_circs s c) \<noteq> 0 then None else Some c, s)
        })
   }"

text \<open>
  After the circuit was built, the set is used through the pointer from before: if the set is not
  in the pool any more, it was freed.  (It cannot have been replaced by another set: only a launch
  creates sets here, and none happens after the out-of-memory handler ran.)
\<close>

definition conflux_launch_leg_with :: "marker \<Rightarrow> pool_env \<Rightarrow> nonce \<Rightarrow> pool_t \<Rightarrow> (bool \<times> pool_t) option" where
  "conflux_launch_leg_with mark e nonce s = do {
     (u, s) \<leftarrow> unlinked_get_or_create nonce True s;
     cfx \<leftarrow> pl_cfxs s (ul_cfx u);
     if \<not> launch_leg_is_allowed (pe_params e) (Some cfx) then Some (False, s)
     else do {
       exit \<leftarrow> get_exit_for_nonce nonce s;
       let s = upd_cfx (ul_cfx u) (cfx\<lparr>num_leg_launch := num_leg_launch cfx + 1\<rparr>) s;
       (circ, s) \<leftarrow> circuit_establish_circuit_conflux_with mark e nonce exit s;
       (case circ of
          None \<Rightarrow> Some (False, s)
        | Some c \<Rightarrow>
            (if marked_for_close (pl_circs s c) \<noteq> 0 then Some (False, s)
             else if conflux_pending_nonce (pl_circs s c) = None then Some (False, s)
             else do {
               u \<leftarrow> unlinked_pool_get nonce True s;
               cfx \<leftarrow> pl_cfxs s (ul_cfx u);
               let leg = leg_new c (conflux_cell_new_link nonce (conflux_get_max_seq_sent cfx) (last_seq_delivered cfx)
                                      (pe_client_ux e));
               Some (True, unlinked_pool_set nonce (u\<lparr>ul_legs := smartlist_add (ul_legs u) leg\<rparr>) True s)
             }))
     }
   }"

section \<open>Closing\<close>

text \<open>The circuits of the legs, none of which may have lost its circuit.\<close>

fun leg_circs :: "leg_t list \<Rightarrow> circ_id list option" where
  "leg_circs [] = Some []"
| "leg_circs (l # ls) = do { c \<leftarrow> lg_circ l; cs \<leftarrow> leg_circs ls; Some (c # cs) }"

definition unlinked_close_or_free_with :: "marker \<Rightarrow> unlinked_circuits_t \<Rightarrow> pool_t \<Rightarrow> pool_t option" where
  "unlinked_close_or_free_with mark u s =
     (if ul_legs u \<noteq> []
      then do {
        cs \<leftarrow> leg_circs (ul_legs u);
        mark_list mark (\<lambda>k. marked_for_close k = 0) END_CIRC_REASON_INTERNAL cs s
      }
      else unlinked_pool_del_and_free u (ul_is_client u) s)"

definition conflux_mark_all_for_close_with ::
  "marker \<Rightarrow> nonce \<Rightarrow> bool \<Rightarrow> end_circ_reason \<Rightarrow> pool_t \<Rightarrow> pool_t option" where
  "conflux_mark_all_for_close_with mark nonce is_client reason s = do {
     s \<leftarrow> (case unlinked_pool_get nonce is_client s of
            None \<Rightarrow> Some s
          | Some u \<Rightarrow> unlinked_close_or_free_with mark u s);
     (case linked_pool_get nonce is_client s of
        None \<Rightarrow> Some s
      | Some x \<Rightarrow> do {
          cfx \<leftarrow> pl_cfxs s x;
          if in_full_teardown cfx then Some s
          else mark_list mark (\<lambda>_. True) reason (map leg_circ (legs cfx)) (upd_cfx x (cfx\<lparr>in_full_teardown := True\<rparr>) s)
        })
   }"

definition unlinked_circuit_closed_with :: "marker \<Rightarrow> pool_env \<Rightarrow> circ_id \<Rightarrow> pool_t \<Rightarrow> pool_t option" where
  "unlinked_circuit_closed_with mark e c s = do {
     nonce \<leftarrow> conflux_pending_nonce (pl_circs s c);
     let is_client = is_origin (pl_circs s c);
     (case unlinked_pool_get nonce is_client s of
        None \<Rightarrow> Some s
      | Some _ \<Rightarrow> do {
          s \<leftarrow> unlinked_leg_del_and_free nonce is_client c s;
          u \<leftarrow> unlinked_pool_get nonce is_client s;
          s \<leftarrow> (if ul_legs u = [] then unlinked_pool_del_and_free u is_client s
                else if \<not> pl_shutting_down s \<and> \<not> pl_mem_pressure s \<and> is_origin (pl_circs s c)
                then map_option snd (conflux_launch_leg_with mark e nonce s)
                else Some s);
          Some (validate_circ_has_no_streams c s)
        })
   }"

text \<open>
  The parts of \<^verbatim>\<open>linked_circuit_closed\<close>: taking the leg out of its set; detaching the circuit, or
  handing the conflux object over to an unlinked set that shares it; refilling or rebuilding.
\<close>

definition linked_leg_out :: "cfx_id \<Rightarrow> circ_id \<Rightarrow> pool_t \<Rightarrow> (bool \<times> pool_t) option" where
  "linked_leg_out x c s = do {
     cfx \<leftarrow> pl_cfxs s x;
     let is_client = is_origin (pl_circs s c);
     (cfx, full_teardown) \<leftarrow> cfx_del_leg cfx c (pl_circs s c);
     let s = upd_cfx x cfx s;
     (case legs cfx of
        [] \<Rightarrow> Some (full_teardown, linked_pool_del (cfx_nonce cfx) is_client s)
      | leg # _ \<Rightarrow> do {
          s \<leftarrow> linked_update_stream_backpointers (leg_circ leg) s;
          Some (full_teardown, linked_nullify_streams c s)
        })
   }"

definition linked_detach :: "cfx_id \<Rightarrow> nonce \<Rightarrow> bool \<Rightarrow> circ_id \<Rightarrow> pool_t \<Rightarrow> pool_t option" where
  "linked_detach x nonce is_client c s = do {
     cfx \<leftarrow> pl_cfxs s x;
     Some (if legs cfx \<noteq> [] then upd_circ c (\<lambda>k. k\<lparr>conflux := None\<rparr>) s
           else case unlinked_pool_get nonce is_client s of
             None \<Rightarrow> s
           | Some u \<Rightarrow>
               (if ul_cfx u = x
                then upd_circ c (\<lambda>k. k\<lparr>conflux := None\<rparr>) (unlinked_pool_set nonce (u\<lparr>is_for_linked_set := False\<rparr>) is_client s)
                else s))
   }"

definition linked_refill_with :: "marker \<Rightarrow> pool_env \<Rightarrow> nonce \<Rightarrow> bool \<Rightarrow> circ_id \<Rightarrow> pool_t \<Rightarrow> pool_t option" where
  "linked_refill_with mark e nonce is_client c s =
     (if pl_shutting_down s \<or> pl_mem_pressure s \<or> \<not> is_origin (pl_circs s c) then Some s
      else case linked_pool_get nonce is_client s of
        Some y \<Rightarrow> do {
          cfx \<leftarrow> pl_cfxs s y;
          if legs cfx \<noteq> [] \<and> \<not> in_full_teardown cfx then map_option snd (conflux_launch_leg_with mark e nonce s)
          else Some s
        }
      | None \<Rightarrow>
          (case conflux (pl_circs s c) of
             None \<Rightarrow> Some s
           | Some y \<Rightarrow> do {
               cfx \<leftarrow> pl_cfxs s y;
               if in_full_teardown cfx then Some s
               else do {
                 (u, s) \<leftarrow> unlinked_get_or_create nonce is_client s;
                 s \<leftarrow> (if ul_legs u = []
                       then do {
                         s \<leftarrow> conflux_free (ul_cfx u) s;
                         Some (unlinked_pool_set nonce (u\<lparr>ul_cfx := y, is_for_linked_set := False\<rparr>) is_client s)
                       }
                       else Some s);
                 let s = upd_circ c (\<lambda>k. k\<lparr>conflux := None\<rparr>) s;
                 map_option snd (conflux_launch_leg_with mark e nonce s)
               }
             }))"

definition linked_circuit_closed_with :: "marker \<Rightarrow> pool_env \<Rightarrow> circ_id \<Rightarrow> pool_t \<Rightarrow> pool_t option" where
  "linked_circuit_closed_with mark e c s = do {
     x \<leftarrow> conflux (pl_circs s c);
     let is_client = is_origin (pl_circs s c);
     (full_teardown, s) \<leftarrow> linked_leg_out x c s;
     cfx \<leftarrow> pl_cfxs s x;
     let nonce = cfx_nonce cfx;
     s \<leftarrow> linked_detach x nonce is_client c s;
     s \<leftarrow> (if full_teardown then conflux_mark_all_for_close_with mark nonce is_client END_CIRC_REASON_FINISHED s else Some s);
     linked_refill_with mark e nonce is_client c s
   }"

definition conflux_circuit_has_closed_with :: "marker \<Rightarrow> pool_env \<Rightarrow> circ_id \<Rightarrow> pool_t \<Rightarrow> pool_t option" where
  "conflux_circuit_has_closed_with mark e c s =
     (if conflux_pending_nonce (pl_circs s c) \<noteq> None then unlinked_circuit_closed_with mark e c s
      else if conflux (pl_circs s c) \<noteq> None then linked_circuit_closed_with mark e c s
      else Some s)"

definition CIRCUIT_IS_CONFLUX :: "circuit_t \<Rightarrow> bool" where
  "CIRCUIT_IS_CONFLUX circ = (conflux_pending_nonce circ \<noteq> None \<or> conflux circ \<noteq> None)"

text \<open>The purposes of relayed circuits are the numbers up to 4.\<close>

definition CIRCUIT_PURPOSE_IS_ORIGIN :: "purpose_t \<Rightarrow> bool" where
  "CIRCUIT_PURPOSE_IS_ORIGIN p = (case p of CIRCUIT_PURPOSE_OTHER n \<Rightarrow> n > 4 | _ \<Rightarrow> True)"

text \<open>A conflux circuit that gets another purpose leaves its set.  Left out: onion services and events.\<close>

definition circuit_change_purpose_with :: "marker \<Rightarrow> pool_env \<Rightarrow> circ_id \<Rightarrow> purpose_t \<Rightarrow> pool_t \<Rightarrow> pool_t option" where
  "circuit_change_purpose_with mark e c new_purpose s = do {
     tor_assert (is_origin (pl_circs s c) = CIRCUIT_PURPOSE_IS_ORIGIN new_purpose);
     if purpose (pl_circs s c) = new_purpose then Some s
     else do {
       s \<leftarrow> (if CIRCUIT_IS_CONFLUX (pl_circs s c) \<and> new_purpose \<noteq> CIRCUIT_PURPOSE_CONFLUX_LINKED
             then conflux_circuit_has_closed_with mark e c s else Some s);
       Some (upd_circ c (\<lambda>k. k\<lparr>purpose := new_purpose\<rparr>) s)
     }
   }"

text \<open>
  The padding machines and the path bias code may keep the circuit open under another purpose
  (\<open>pe_close_delayed\<close>).  The line number stored in \<^verbatim>\<open>marked_for_close\<close> is 1 here.  Left out: the
  counters of protocol violations and closed windows, the bytes reported to the bandwidth history,
  the reasons stored for the controller, the time at which a padded circuit counts as dirty, and
  rendezvous splices and onion services, which are never conflux circuits.
\<close>

definition circuit_mark_for_close_with :: "marker \<Rightarrow> pool_env \<Rightarrow> end_circ_reason \<Rightarrow> circ_id \<Rightarrow> pool_t \<Rightarrow> pool_t option" where
  "circuit_mark_for_close_with mark e reason c s =
     (case pe_close_delayed e (pl_circs s c) reason of
        Some new_purpose \<Rightarrow> circuit_change_purpose_with mark e c new_purpose s
      | None \<Rightarrow>
          (if marked_for_close (pl_circs s c) \<noteq> 0 then Some s
           else do {
             let s = log_calls [Mark_for_close c reason] (upd_circ c (\<lambda>k. k\<lparr>marked_for_close := 1\<rparr>) s);
             s \<leftarrow> (if CIRCUIT_IS_CONFLUX (pl_circs s c) then conflux_circuit_has_closed_with mark e c s else Some s);
             Some (s\<lparr>circuits_pending_close := smartlist_add (circuits_pending_close s) c\<rparr>)
           }))"

section \<open>The recursion\<close>

text \<open>Every function above is monotone in its callee.\<close>

named_theorems marker_mono \<open>monotonicity in the marking function\<close>

lemma mono_map_option [marker_mono]:
  assumes "mono_option B"
  shows "mono_option (\<lambda>f. map_option g (B f))"
proof -
  have "map_option g m = Option.bind m (\<lambda>y. Some (g y))" for m by (cases m) auto
  then show ?thesis using assms by (auto intro!: bind_mono option.const_mono)
qed

lemma mono_if [marker_mono]: "mono_option F \<Longrightarrow> mono_option G \<Longrightarrow> mono_option (\<lambda>f. if b then F f else G f)"
  by (cases b) auto

lemma mono_case_option [marker_mono]:
  "mono_option F \<Longrightarrow> (\<And>x. mono_option (\<lambda>f. G x f)) \<Longrightarrow> mono_option (\<lambda>f. case m of None \<Rightarrow> F f | Some x \<Rightarrow> G x f)"
  by (cases m) auto

lemma mono_case_prod [marker_mono]: "(\<And>x y. mono_option (\<lambda>f. G x y f)) \<Longrightarrow> mono_option (\<lambda>f. case p of (x, y) \<Rightarrow> G x y f)"
  by (cases p) auto

lemma mono_case_build [marker_mono]:
  "mono_option F \<Longrightarrow> (\<And>p r. mono_option (\<lambda>f. G p r f)) \<Longrightarrow> (\<And>p. mono_option (\<lambda>f. H p f)) \<Longrightarrow>
   mono_option (\<lambda>f. case b of No_path \<Rightarrow> F f | First_hop_failed p r \<Rightarrow> G p r f | Built p \<Rightarrow> H p f)"
  by (cases b) auto

lemmas [marker_mono] = bind_mono option.const_mono

lemma mono_mark_list [marker_mono]:
  assumes "\<And>r c s. mono_option (\<lambda>f. mark f r c s)"
  shows "mono_option (\<lambda>f. mark_list (mark f) P reason cs s)"
  by (induction cs arbitrary: s) (auto intro!: marker_mono assms)

lemma mono_check_size [marker_mono]:
  "(\<And>r c s. mono_option (\<lambda>f. mark f r c s)) \<Longrightarrow> mono_option (\<lambda>f. cell_queues_check_size_with (mark f) e c s)"
  unfolding cell_queues_check_size_with_def by (intro marker_mono)

lemma mono_establish [marker_mono]:
  "(\<And>r c s. mono_option (\<lambda>f. mark f r c s)) \<Longrightarrow> mono_option (\<lambda>f. circuit_establish_circuit_conflux_with (mark f) e n x s)"
  unfolding circuit_establish_circuit_conflux_with_def Let_def by (intro marker_mono)

lemma mono_launch [marker_mono]:
  "(\<And>r c s. mono_option (\<lambda>f. mark f r c s)) \<Longrightarrow> mono_option (\<lambda>f. conflux_launch_leg_with (mark f) e n s)"
  unfolding conflux_launch_leg_with_def Let_def by (intro marker_mono)

lemma mono_close_or_free [marker_mono]:
  "(\<And>r c s. mono_option (\<lambda>f. mark f r c s)) \<Longrightarrow> mono_option (\<lambda>f. unlinked_close_or_free_with (mark f) u s)"
  unfolding unlinked_close_or_free_with_def Let_def by (intro marker_mono)

lemma mono_mark_all [marker_mono]:
  "(\<And>r c s. mono_option (\<lambda>f. mark f r c s)) \<Longrightarrow> mono_option (\<lambda>f. conflux_mark_all_for_close_with (mark f) n b r s)"
  unfolding conflux_mark_all_for_close_with_def Let_def by (intro marker_mono)

lemma mono_unlinked_closed [marker_mono]:
  "(\<And>r c s. mono_option (\<lambda>f. mark f r c s)) \<Longrightarrow> mono_option (\<lambda>f. unlinked_circuit_closed_with (mark f) e c s)"
  unfolding unlinked_circuit_closed_with_def Let_def by (intro marker_mono)

lemma mono_refill [marker_mono]:
  "(\<And>r c s. mono_option (\<lambda>f. mark f r c s)) \<Longrightarrow> mono_option (\<lambda>f. linked_refill_with (mark f) e n b c s)"
  unfolding linked_refill_with_def Let_def by (intro marker_mono)

lemma mono_linked_closed [marker_mono]:
  "(\<And>r c s. mono_option (\<lambda>f. mark f r c s)) \<Longrightarrow> mono_option (\<lambda>f. linked_circuit_closed_with (mark f) e c s)"
  unfolding linked_circuit_closed_with_def Let_def by (intro marker_mono)

lemma mono_has_closed [marker_mono]:
  "(\<And>r c s. mono_option (\<lambda>f. mark f r c s)) \<Longrightarrow> mono_option (\<lambda>f. conflux_circuit_has_closed_with (mark f) e c s)"
  unfolding conflux_circuit_has_closed_with_def Let_def by (intro marker_mono)

lemma mono_change_purpose [marker_mono]:
  "(\<And>r c s. mono_option (\<lambda>f. mark f r c s)) \<Longrightarrow> mono_option (\<lambda>f. circuit_change_purpose_with (mark f) e c p s)"
  unfolding circuit_change_purpose_with_def Let_def by (intro marker_mono)

lemma mono_circuit_mark [partial_function_mono]:
  "(\<And>r c s. mono_option (\<lambda>f. mark f r c s)) \<Longrightarrow> mono_option (\<lambda>f. circuit_mark_for_close_with (mark f) e r c s)"
  unfolding circuit_mark_for_close_with_def Let_def by (intro marker_mono)

partial_function (option) circuit_mark_for_close :: "pool_env \<Rightarrow> marker" where
  "circuit_mark_for_close e reason c s = circuit_mark_for_close_with (circuit_mark_for_close e) e reason c s"

definition cell_queues_check_size :: "pool_env \<Rightarrow> circ_id \<Rightarrow> pool_t \<Rightarrow> pool_t option" where
  "cell_queues_check_size e = cell_queues_check_size_with (circuit_mark_for_close e) e"

definition circuit_change_purpose :: "pool_env \<Rightarrow> circ_id \<Rightarrow> purpose_t \<Rightarrow> pool_t \<Rightarrow> pool_t option" where
  "circuit_change_purpose e = circuit_change_purpose_with (circuit_mark_for_close e) e"

definition conflux_launch_leg :: "pool_env \<Rightarrow> nonce \<Rightarrow> pool_t \<Rightarrow> (bool \<times> pool_t) option" where
  "conflux_launch_leg e = conflux_launch_leg_with (circuit_mark_for_close e) e"

definition conflux_mark_all_for_close :: "pool_env \<Rightarrow> nonce \<Rightarrow> bool \<Rightarrow> end_circ_reason \<Rightarrow> pool_t \<Rightarrow> pool_t option" where
  "conflux_mark_all_for_close e = conflux_mark_all_for_close_with (circuit_mark_for_close e)"

end
