(* ===== verification/ConfluxLink.thy ===== *)
theory ConfluxLink
  imports ConfluxClose
begin

text \<open>
  The rest of \<^verbatim>\<open>core/or/conflux_pool.c\<close>: the LINK, LINKED and LINKED_ACK handshake that turns the
  legs of an unlinked set into a linked set, the launch of new sets, the lists of relays that a new
  leg must avoid, and what happens when circuits are freed.

  A pointer to an unlinked set is its key in the pool.  A cell is sent through \<^verbatim>\<open>relay.c\<close>, which
  refuses it on a circuit that is marked for close and closes the circuit when the cell cannot be
  packaged (\<open>pe_sent\<close> is false).  Queueing it may run the out-of-memory handler.
\<close>

section \<open>Calls that leave the pool\<close>

definition relay_sent :: "pool_env \<Rightarrow> circ_id \<Rightarrow> pool_t \<Rightarrow> bool" where
  "relay_sent e c s = (marked_for_close (pl_circs s c) = 0 \<and> pe_sent e c)"

fun do_call :: "pool_env \<Rightarrow> action \<Rightarrow> pool_t \<Rightarrow> pool_t option" where
  "do_call e (Mark_for_close c reason) s = circuit_mark_for_close e reason c s"
| "do_call e (Relay_send c command payload hop) s =
     (if marked_for_close (pl_circs s c) \<noteq> 0 then Some s
      else if \<not> pe_sent e c then circuit_mark_for_close e END_CIRC_REASON_INTERNAL c s
      else cell_queues_check_size e c (log_calls [Relay_send c command payload hop] s))"
| "do_call e a s = Some (log_calls [a] s)"

fun do_calls :: "pool_env \<Rightarrow> action list \<Rightarrow> pool_t \<Rightarrow> pool_t option" where
  "do_calls e [] s = Some s"
| "do_calls e (a # as) s = do { s \<leftarrow> do_call e a s; do_calls e as s }"

section \<open>Finalizing a set\<close>

text \<open>
  The loop removes each leg from the list while it walks it, and the last leg takes the place of
  the removed one: after the first leg come the others from the end.
\<close>

function finalize_loop :: "cfx_id \<Rightarrow> leg_t list \<Rightarrow> pool_t \<Rightarrow> pool_t option" where
  "finalize_loop x [] s = Some s"
| "finalize_loop x (leg # ls) s = do {
     s \<leftarrow> cfx_add_leg x leg s;
     c \<leftarrow> lg_circ leg;
     finalize_loop x (if ls = [] then [] else last ls # butlast ls)
       (leg_free leg (upd_circ c (\<lambda>k. k\<lparr>conflux := Some x\<rparr>) s))
   }"
  by pat_completeness auto
termination
  by (relation "measure (\<lambda>(x, ls, s). length ls)") auto

definition try_finalize_set :: "pool_env \<Rightarrow> nonce \<Rightarrow> bool \<Rightarrow> pool_t \<Rightarrow> (link_circ_err_t \<times> pool_t) option" where
  "try_finalize_set e nonce is_client s = do {
     u \<leftarrow> unlinked_pool_get nonce is_client s;
     cfx \<leftarrow> pl_cfxs s (ul_cfx u);
     if ul_legs u = [] then Some (ERR_LINK_CIRC_MISSING_LEG, s)
     else if length (ul_legs u) + length (legs cfx) > unat (conflux_params_get_max_legs_set (pe_params e))
     then Some (ERR_LINK_CIRC_INVALID_LEG, s)
     else do {
       (valid, s) \<leftarrow> validate_unlinked_legs u s;
       if \<not> valid
       then do {
         s \<leftarrow> conflux_mark_all_for_close e (cfx_nonce cfx) (ul_is_client u) END_CIRC_REASON_TORPROTOCOL s;
         Some (ERR_LINK_CIRC_INVALID_LEG, s)
       }
       else if \<not> list_all lg_linked (ul_legs u) then Some (ERR_LINK_CIRC_OK, s)
       else do {
         s \<leftarrow> finalize_loop (ul_cfx u) (ul_legs u) s;
         s \<leftarrow> linked_pool_add (ul_cfx u) (ul_is_client u) s;
         s \<leftarrow> unlinked_pool_del u (ul_is_client u) s;
         cfx \<leftarrow> pl_cfxs s (ul_cfx u);
         Some (ERR_LINK_CIRC_OK, upd_cfx (ul_cfx u) (cfx\<lparr>num_leg_launch := 0\<rparr>) s)
       }
     }
   }"

section \<open>Round trip times\<close>

text \<open>\<^verbatim>\<open>UINT64_MAX\<close> stands for a failed measurement.\<close>

definition set_uleg :: "nonce \<Rightarrow> bool \<Rightarrow> circ_id \<Rightarrow> (leg_t \<Rightarrow> leg_t) \<Rightarrow> pool_t \<Rightarrow> pool_t" where
  "set_uleg nonce is_client c f s =
     (case unlinked_pool_get nonce is_client s of
        None \<Rightarrow> s
      | Some u \<Rightarrow> unlinked_pool_set nonce (u\<lparr>ul_legs := update_uleg c f (ul_legs u)\<rparr>) is_client s)"

definition record_rtt_client :: "pool_env \<Rightarrow> circ_id \<Rightarrow> pool_t \<Rightarrow> (u64 \<times> pool_t) option" where
  "record_rtt_client e c s = do {
     nonce \<leftarrow> conflux_pending_nonce (pl_circs s c);
     tor_assert (is_origin (pl_circs s c));
     leg \<leftarrow> unlinked_leg_find c True s;
     Some (case leg of
             None \<Rightarrow> (- 1, s)
           | Some l \<Rightarrow>
               (let rtt = (if lg_link_sent_usec l = 0 then - 1 else pe_now e - lg_link_sent_usec l)
                in (rtt, set_uleg nonce True c (\<lambda>l. l\<lparr>lg_rtt_usec := rtt\<rparr>) s)))
   }"

definition record_rtt_exit :: "pool_env \<Rightarrow> circ_id \<Rightarrow> pool_t \<Rightarrow> (u64 \<times> pool_t) option" where
  "record_rtt_exit e c s = do {
     x \<leftarrow> conflux (pl_circs s c);
     tor_assert (\<not> is_origin (pl_circs s c));
     cfx \<leftarrow> pl_cfxs s x;
     Some (case conflux_get_leg cfx c of
             None \<Rightarrow> (- 1, s)
           | Some leg \<Rightarrow>
               (let rtt = (if linked_sent_usec leg = 0 \<or> pe_now e - linked_sent_usec leg = 0 then - 1
                           else pe_now e - linked_sent_usec leg)
                in (rtt, upd_cfx x (cfx\<lparr>legs := update_leg c (\<lambda>l. l\<lparr>circ_rtts_usec := rtt\<rparr>) (legs cfx)\<rparr>) s)))
   }"

definition record_rtt :: "pool_env \<Rightarrow> circ_id \<Rightarrow> bool \<Rightarrow> pool_t \<Rightarrow> (bool \<times> pool_t) option" where
  "record_rtt e c is_client s =
     (if is_client
      then do {
        (rtt_usec, s) \<leftarrow> record_rtt_client e c s;
        Some (\<not> rtt_usec = - 1 \<and> \<not> rtt_usec \<ge> pe_cbt_usec e, s)
      }
      else do {
        (rtt_usec, s) \<leftarrow> record_rtt_exit e c s;
        Some (True, s)
      })"

section \<open>The handshake\<close>

definition link_circuit :: "pool_env \<Rightarrow> circ_id \<Rightarrow> pool_t \<Rightarrow> (link_circ_err_t \<times> pool_t) option" where
  "link_circuit e c s = do {
     let is_client = is_origin (pl_circs s c);
     nonce \<leftarrow> conflux_pending_nonce (pl_circs s c);
     (case unlinked_pool_get nonce is_client s of
        None \<Rightarrow> Some (ERR_LINK_CIRC_MISSING_SET, s)
      | Some u \<Rightarrow>
          (case leg_find u c of
             None \<Rightarrow> Some (ERR_LINK_CIRC_MISSING_LEG, s)
           | Some leg \<Rightarrow> try_finalize_set e nonce is_client (set_uleg nonce is_client c (\<lambda>l. l\<lparr>lg_linked := True\<rparr>) s)))
   }"

definition circ_enabled :: "pool_env \<Rightarrow> circ_id \<Rightarrow> pool_t \<Rightarrow> bool option" where
  "circ_enabled e c s = conflux_is_enabled (pe_opts e) (pe_cc e) (pe_params e) (Some (pl_circs s c))"

text \<open>The leg is written to after the cell was sent; it must not have been freed in between.\<close>

definition conflux_circuit_has_opened :: "pool_env \<Rightarrow> circ_id \<Rightarrow> pool_t \<Rightarrow> pool_t option" where
  "conflux_circuit_has_opened e c s = do {
     enabled \<leftarrow> circ_enabled e c s;
     if \<not> enabled then circuit_mark_for_close e END_CIRC_REASON_TORPROTOCOL c s
     else (case conflux_pending_nonce (pl_circs s c) of
             None \<Rightarrow> Some (validate_circ_has_no_streams c s)
           | Some nonce \<Rightarrow> do {
               leg \<leftarrow> unlinked_leg_find c True s;
               (case leg of
                  None \<Rightarrow> Some (validate_circ_has_no_streams c s)
                | Some l \<Rightarrow> do {
                    (ok, calls) \<leftarrow> conflux_cell_send_link (relay_sent e c s) (lg_link l) c (pl_circs s c);
                    s \<leftarrow> do_calls e calls s;
                    s \<leftarrow> (if ok then do {
                            u \<leftarrow> unlinked_pool_get nonce True s;
                            leg \<leftarrow> leg_find u c;
                            Some (set_uleg nonce True c (\<lambda>l. l\<lparr>lg_link_sent_usec := pe_now e\<rparr>) s)
                          }
                          else Some s);
                    Some (validate_circ_has_no_streams c s)
                  })
             })
   }"

abbreviation "DEFAULT_EXIT_UX \<equiv> 1 :: u8"

definition conflux_process_link :: "pool_env \<Rightarrow> circ_id \<Rightarrow> relay_msg_t \<Rightarrow> pool_t \<Rightarrow> pool_t option" where
  "conflux_process_link e c m s = do {
     enabled \<leftarrow> circ_enabled e c s;
     let circ = pl_circs s c;
     let close = circuit_mark_for_close e END_CIRC_REASON_TORPROTOCOL c;
     if \<not> enabled then close s
     else if is_origin circ then close s
     else if \<not> conflux_validate_source_hop circ None then close s
     else if conflux_pending_nonce circ \<noteq> None then close s
     else if conflux circ \<noteq> None then close s
     else if n_streams circ \<noteq> 0 \<or> resolving_streams circ \<noteq> 0 then close s
     else (case conflux_cell_parse_link m of
             None \<Rightarrow> close s
           | Some link \<Rightarrow> do {
               (u, s) \<leftarrow> unlinked_get_or_create (link_nonce link) False s;
               let leg = (leg_new c link)\<lparr>lg_link_sent_usec := pe_now e\<rparr>;
               let s = unlinked_pool_set (link_nonce link) (u\<lparr>ul_legs := smartlist_add (ul_legs u) leg\<rparr>) False s;
               let s = upd_circ c (\<lambda>k. k\<lparr>conflux_pending_nonce := Some (link_nonce link)\<rparr>) s;
               cfx \<leftarrow> pl_cfxs s (ul_cfx u);
               let last_seq_sent = conflux_get_max_seq_sent cfx;
               let last_seq_recv = last_seq_delivered cfx;
               (err, s) \<leftarrow> link_circuit e c s;
               if err \<noteq> ERR_LINK_CIRC_OK then close s
               else do {
                 (ok, calls) \<leftarrow> conflux_cell_send_linked (relay_sent e c s)
                    (conflux_cell_new_link (link_nonce link) last_seq_sent last_seq_recv DEFAULT_EXIT_UX) c;
                 do_calls e calls s
               }
             })
   }"

definition conflux_process_linked :: "pool_env \<Rightarrow> circ_id \<Rightarrow> nat option \<Rightarrow> relay_msg_t \<Rightarrow> pool_t \<Rightarrow> pool_t option" where
  "conflux_process_linked e c layer_hint m s = do {
     enabled \<leftarrow> circ_enabled e c s;
     let circ = pl_circs s c;
     let close = circuit_mark_for_close e END_CIRC_REASON_TORPROTOCOL c;
     if \<not> enabled then close s
     else if \<not> is_origin circ then close s
     else (case conflux_pending_nonce circ of
         None \<Rightarrow> close s
       | Some nonce \<Rightarrow>
          (if conflux circ \<noteq> None then close s
           else if \<not> conflux_validate_source_hop circ layer_hint then close s
           else (case conflux_cell_parse_link m of
               None \<Rightarrow> close s
             | Some link \<Rightarrow>
                (if link_nonce link \<noteq> nonce then close s
                 else do {
                   leg \<leftarrow> unlinked_leg_find c True s;
                   (case leg of
                      None \<Rightarrow> close s
                    | Some _ \<Rightarrow> do {
                        let s = set_uleg nonce True c (\<lambda>l. l\<lparr>lg_link := link\<rparr>) s;
                        (ok, s) \<leftarrow> record_rtt e c True s;
                        if \<not> ok then close s
                        else do {
                          (err, s) \<leftarrow> link_circuit e c s;
                          if err = ERR_LINK_CIRC_BAD_RTT \<or> err = ERR_LINK_CIRC_MISSING_LEG then close s
                          else do {
                            let (ok, calls) = conflux_cell_send_linked_ack (relay_sent e c s) c (pl_circs s c);
                            s \<leftarrow> do_calls e calls s;
                            if \<not> ok then Some s
                            else Some (log_calls ((if conflux (pl_circs s c) \<noteq> None then [Attach_pending] else [])
                                     @ [Read_valid_data c (unat (rm_length m))]) s)
                          }
                        }
                      })
                 }))))
   }"

definition conflux_process_linked_ack :: "pool_env \<Rightarrow> circ_id \<Rightarrow> pool_t \<Rightarrow> pool_t option" where
  "conflux_process_linked_ack e c s = do {
     enabled \<leftarrow> circ_enabled e c s;
     let circ = pl_circs s c;
     let close = circuit_mark_for_close e END_CIRC_REASON_TORPROTOCOL c;
     if \<not> enabled then close s
     else if is_origin circ then close s
     else if \<not> conflux_validate_source_hop circ None then close s
     else if conflux circ = None then close s
     else do {
       (ok, s) \<leftarrow> record_rtt e c False s;
       if \<not> ok then close s else Some s
     }
   }"

section \<open>New sets\<close>

fun launch_legs :: "pool_env \<Rightarrow> nonce \<Rightarrow> nat \<Rightarrow> pool_t \<Rightarrow> (bool \<times> pool_t) option" where
  "launch_legs e nonce 0 s = Some (True, s)"
| "launch_legs e nonce (Suc i) s = do {
     (ok, s) \<leftarrow> conflux_launch_leg e nonce s;
     if \<not> ok then Some (False, s) else launch_legs e nonce i s
   }"

text \<open>The random nonce of a new set is an argument.\<close>

definition launch_new_set :: "pool_env \<Rightarrow> nonce \<Rightarrow> nat \<Rightarrow> pool_t \<Rightarrow> (bool \<times> pool_t) option" where
  "launch_new_set e nonce num_legs s = launch_legs e nonce num_legs s"

fun launch_sets :: "pool_env \<Rightarrow> (nat \<Rightarrow> nonce) \<Rightarrow> nat \<Rightarrow> nat \<Rightarrow> pool_t \<Rightarrow> pool_t option" where
  "launch_sets e rand i 0 s = Some s"
| "launch_sets e rand i (Suc n) s = do {
     (ok, s) \<leftarrow> launch_new_set e (rand i) (unat (conflux_params_get_num_legs_set (pe_params e))) s;
     if \<not> ok then Some s else launch_sets e rand (Suc i) n s
   }"

definition conflux_predict_new :: "pool_env \<Rightarrow> (nat \<Rightarrow> nonce) \<Rightarrow> pool_t \<Rightarrow> pool_t option" where
  "conflux_predict_new e rand s = do {
     enabled \<leftarrow> conflux_is_enabled (pe_opts e) (pe_cc e) (pe_params e) None;
     if \<not> enabled \<or> \<not> pe_have_exits e then Some s
     else if length (client_linked_pool s) \<ge> unat (conflux_params_get_max_linked_set (pe_params e)) then Some s
     else do {
       let num_linked = length (client_linked_pool s);
       let num_unlinked = length (client_unlinked_pool s);
       let num_set = num_unlinked + num_linked;
       let max_prebuilt = unat (conflux_params_get_max_prebuilt (pe_params e));
       if num_set \<ge> max_prebuilt then Some s
       else launch_sets e rand 0 (max_prebuilt - num_set) s
     }
   }"

text \<open>
  The control command \<^verbatim>\<open>CONFLUX ADD\<close>: \<open>matches\<close> compares a nonce with the argument of the command,
  \<open>cs\<close> is the global list of circuits.
\<close>

definition circ_nonce :: "circ_id \<Rightarrow> pool_t \<Rightarrow> nonce option" where
  "circ_nonce c s =
     (case conflux_pending_nonce (pl_circs s c) of
        Some n \<Rightarrow> Some n
      | None \<Rightarrow> do { x \<leftarrow> conflux (pl_circs s c); cfx \<leftarrow> pl_cfxs s x; Some (cfx_nonce cfx) })"

fun find_conflux_nonce :: "(nonce \<Rightarrow> bool) \<Rightarrow> circ_id list \<Rightarrow> pool_t \<Rightarrow> nonce option option" where
  "find_conflux_nonce matches [] s = Some None"
| "find_conflux_nonce matches (c # cs) s =
     (if \<not> is_origin (pl_circs s c) \<or> marked_for_close (pl_circs s c) \<noteq> 0 then find_conflux_nonce matches cs s
      else if \<not> CIRCUIT_IS_CONFLUX (pl_circs s c) then find_conflux_nonce matches cs s
      else do {
        cand_nonce \<leftarrow> circ_nonce c s;
        if matches cand_nonce then Some (Some cand_nonce) else find_conflux_nonce matches cs s
      })"

definition control_conflux_add :: "pool_env \<Rightarrow> (nonce \<Rightarrow> bool) \<Rightarrow> circ_id list \<Rightarrow> pool_t \<Rightarrow> (bool \<times> pool_t) option" where
  "control_conflux_add e matches cs s = do {
     nonce \<leftarrow> find_conflux_nonce matches cs s;
     (case nonce of
        None \<Rightarrow> Some (False, s)
      | Some n \<Rightarrow> conflux_launch_leg e n s)
   }"

section \<open>Relays to avoid\<close>

text \<open>The hop at a position of the path of each leg; the code dereferences it without a test.\<close>

fun leg_hops :: "nat \<Rightarrow> circuit_t list \<Rightarrow> extend_info_t list option" where
  "leg_hops i [] = Some []"
| "leg_hops i (k # ks) = do {
     tor_assert (is_origin k);
     tor_assert (cpath k \<noteq> []);
     ei \<leftarrow> cp_extend_info (cpath k ! (i mod length (cpath k)));
     eis \<leftarrow> leg_hops i ks;
     Some (ei # eis)
   }"

definition excluded_hops :: "nat \<Rightarrow> circ_id \<Rightarrow> pool_t \<Rightarrow> extend_info_t list option" where
  "excluded_hops i c s = do {
     tor_assert (conflux (pl_circs s c) = None);
     nonce \<leftarrow> conflux_pending_nonce (pl_circs s c);
     linked \<leftarrow> (case linked_pool_get nonce True s of
                  None \<Rightarrow> Some []
                | Some x \<Rightarrow> do {
                    cfx \<leftarrow> pl_cfxs s x;
                    leg_hops i (map (\<lambda>l. pl_circs s (leg_circ l)) (legs cfx))
                  });
     unlinked \<leftarrow> (case unlinked_pool_get nonce True s of
                  None \<Rightarrow> Some []
                | Some u \<Rightarrow> do {
                    tor_assert (ul_is_client u);
                    cs \<leftarrow> leg_circs (ul_legs u);
                    leg_hops i (map (pl_circs s) cs)
                  });
     Some (linked @ unlinked)
   }"

text \<open>
  \<open>UseBridges\<close> and \<open>can_exclude\<close> are the option and \<^verbatim>\<open>conflux_can_exclude_used_bridges()\<close>; the second
  hop is \<^verbatim>\<open>cpath->next\<close>, which is the first one again on a path of one hop; \<open>node_by_id\<close> is the
  lookup in the node list.
\<close>

definition conflux_add_guards_to_exclude_list ::
  "bool \<Rightarrow> bool \<Rightarrow> circ_id \<Rightarrow> pool_t \<Rightarrow> u8 list list \<Rightarrow> u8 list list option" where
  "conflux_add_guards_to_exclude_list UseBridges can_exclude c s excluded =
     (if \<not> CIRCUIT_IS_CONFLUX (pl_circs s c) then Some excluded
      else if conflux (pl_circs s c) = None \<and> UseBridges \<and> \<not> can_exclude then Some excluded
      else do {
        eis \<leftarrow> excluded_hops 0 c s;
        Some (excluded @ map identity_digest eis)
      })"

definition conflux_add_middles_to_exclude_list ::
  "(u8 list \<Rightarrow> 'node option) \<Rightarrow> circ_id \<Rightarrow> pool_t \<Rightarrow> 'node list \<Rightarrow> 'node list option" where
  "conflux_add_middles_to_exclude_list node_by_id c s excluded =
     (if \<not> CIRCUIT_IS_CONFLUX (pl_circs s c) then Some excluded
      else do {
        eis \<leftarrow> excluded_hops 1 c s;
        Some (excluded @ List.map_filter (\<lambda>ei. node_by_id (identity_digest ei)) eis)
      })"

section \<open>Freeing circuits\<close>

definition linked_circuit_free :: "circ_id \<Rightarrow> bool \<Rightarrow> pool_t \<Rightarrow> pool_t option" where
  "linked_circuit_free c is_client s = do {
     x \<leftarrow> conflux (pl_circs s c);
     cfx \<leftarrow> pl_cfxs s x;
     tor_assert (is_client \<longrightarrow> purpose (pl_circs s c) = CIRCUIT_PURPOSE_CONFLUX_LINKED);
     (cfx, full_teardown) \<leftarrow> cfx_del_leg cfx c (pl_circs s c);
     let cfx = (if full_teardown then cfx\<lparr>in_full_teardown := True\<rparr> else cfx);
     let s = upd_cfx x cfx s;
     if legs cfx \<noteq> [] then Some (linked_nullify_streams c s)
     else do {
       let s = linked_pool_del (cfx_nonce cfx) is_client s;
       (case unlinked_pool_get (cfx_nonce cfx) is_client s of
          Some u \<Rightarrow> do {
            tor_assert (is_for_linked_set u);
            Some (unlinked_pool_set (cfx_nonce cfx) (u\<lparr>is_for_linked_set := False\<rparr>) is_client s)
          }
        | None \<Rightarrow> conflux_free x s)
     }
   }"

definition unlinked_circuit_free :: "circ_id \<Rightarrow> bool \<Rightarrow> pool_t \<Rightarrow> pool_t option" where
  "unlinked_circuit_free c is_client s = do {
     nonce \<leftarrow> conflux_pending_nonce (pl_circs s c);
     tor_assert (is_client \<longrightarrow> purpose (pl_circs s c) = CIRCUIT_PURPOSE_CONFLUX_UNLINKED);
     leg \<leftarrow> unlinked_leg_find c is_client s;
     let s = (if leg = None then s else set_uleg nonce is_client c (\<lambda>l. l\<lparr>lg_circ := None\<rparr>) s);
     Some (upd_circ c (\<lambda>k. k\<lparr>conflux_pending_nonce := None\<rparr>) s)
   }"

definition conflux_circuit_about_to_free :: "circ_id \<Rightarrow> pool_t \<Rightarrow> pool_t option" where
  "conflux_circuit_about_to_free c s = do {
     let is_client = is_origin (pl_circs s c);
     s \<leftarrow> (if conflux (pl_circs s c) \<noteq> None then linked_circuit_free c is_client s
           else if conflux_pending_nonce (pl_circs s c) \<noteq> None then unlinked_circuit_free c is_client s
           else Some s);
     Some (upd_circ c (\<lambda>k. k\<lparr>conflux := None, conflux_pending_nonce := None\<rparr>) s)
   }"

section \<open>Start and end\<close>

text \<open>
  The four pool pointers are NULL (\<^term>\<open>None\<close>) when the program starts; a pool that already exists
  is left as it is.
\<close>

definition or_new_map :: "('k \<times> 'v) list option \<Rightarrow> ('k \<times> 'v) list" where
  "or_new_map m = (case m of None \<Rightarrow> [] | Some xs \<Rightarrow> xs)"

definition conflux_pool_init ::
  "(nonce \<times> cfx_id) list option \<Rightarrow> (nonce \<times> unlinked_circuits_t) list option \<Rightarrow>
   (nonce \<times> cfx_id) list option \<Rightarrow> (nonce \<times> unlinked_circuits_t) list option \<Rightarrow> pool_t \<Rightarrow> pool_t" where
  "conflux_pool_init client_linked client_unlinked server_linked server_unlinked s =
     s\<lparr>client_linked_pool := or_new_map client_linked, client_unlinked_pool := or_new_map client_unlinked,
       server_linked_pool := or_new_map server_linked, server_unlinked_pool := or_new_map server_unlinked\<rparr>"

definition conflux_notify_shutdown :: "pool_t \<Rightarrow> pool_t" where
  "conflux_notify_shutdown s = s\<lparr>pl_shutting_down := True\<rparr>"

text \<open>A map is freed entry by entry, and then empty.\<close>

fun free_sets :: "(nonce \<times> cfx_id) list \<Rightarrow> pool_t \<Rightarrow> pool_t option" where
  "free_sets [] s = Some s"
| "free_sets ((n, x) # xs) s = do { s \<leftarrow> conflux_free x s; free_sets xs s }"

fun free_unlinked :: "(nonce \<times> unlinked_circuits_t) list \<Rightarrow> pool_t \<Rightarrow> pool_t option" where
  "free_unlinked [] s = Some s"
| "free_unlinked ((n, u) # us) s = do { s \<leftarrow> unlinked_pool_del_and_free u (ul_is_client u) s; free_unlinked us s }"

definition conflux_pool_free_all :: "pool_t \<Rightarrow> pool_t option" where
  "conflux_pool_free_all s = do {
     s \<leftarrow> free_sets (AList.clearjunk (client_linked_pool s)) s;
     let s = s\<lparr>client_linked_pool := []\<rparr>;
     s \<leftarrow> free_sets (AList.clearjunk (server_linked_pool s)) s;
     let s = s\<lparr>server_linked_pool := []\<rparr>;
     s \<leftarrow> free_unlinked (AList.clearjunk (client_unlinked_pool s)) s;
     let s = s\<lparr>client_unlinked_pool := []\<rparr>;
     s \<leftarrow> free_unlinked (AList.clearjunk (server_unlinked_pool s)) s;
     Some (s\<lparr>server_unlinked_pool := []\<rparr>)
   }"

end
