(* ===== verification/ConfluxPoolInv.thy ===== *)
theory ConfluxPoolInv
  imports ConfluxClose
begin

text \<open>
  The consistency of the pools, and that closing a circuit always returns and keeps it.  The proof
  is by induction on a measure that bounds the nesting of the calls: it weighs the legs of the
  linked sets, the launches that the sets have left, and the circuits that are not closed yet.
\<close>

section \<open>Views of the state\<close>

lemma unlinked_get_set [simp]:
  "unlinked_pool_get n b (unlinked_pool_set n' u b' s) = (if n = n' \<and> b = b' then Some u else unlinked_pool_get n b s)"
  by (simp add: unlinked_pool_get_def unlinked_pool_set_def AList.update_conv')

lemma linked_get_del [simp]:
  "linked_pool_get n b (linked_pool_del n' b' s) = (if n = n' \<and> b = b' then None else linked_pool_get n b s)"
  by (simp add: linked_pool_get_def linked_pool_del_def AList.delete_conv')

lemma view_unlinked_set [simp]:
  "linked_pool_get n b (unlinked_pool_set n' u b' s) = linked_pool_get n b s"
  "pl_circs (unlinked_pool_set n' u b' s) = pl_circs s" "pl_cfxs (unlinked_pool_set n' u b' s) = pl_cfxs s"
  "pl_next_circ (unlinked_pool_set n' u b' s) = pl_next_circ s" "pl_next_cfx (unlinked_pool_set n' u b' s) = pl_next_cfx s"
  "pl_conns (unlinked_pool_set n' u b' s) = pl_conns s" "pl_shutting_down (unlinked_pool_set n' u b' s) = pl_shutting_down s" "pl_mem_pressure (unlinked_pool_set n' u b' s) = pl_mem_pressure s"
  by (simp_all add: linked_pool_get_def unlinked_pool_set_def)

lemma view_linked_del [simp]:
  "unlinked_pool_get n b (linked_pool_del n' b' s) = unlinked_pool_get n b s"
  "pl_circs (linked_pool_del n' b' s) = pl_circs s" "pl_cfxs (linked_pool_del n' b' s) = pl_cfxs s"
  "pl_next_circ (linked_pool_del n' b' s) = pl_next_circ s" "pl_next_cfx (linked_pool_del n' b' s) = pl_next_cfx s"
  "pl_conns (linked_pool_del n' b' s) = pl_conns s" "pl_shutting_down (linked_pool_del n' b' s) = pl_shutting_down s" "pl_mem_pressure (linked_pool_del n' b' s) = pl_mem_pressure s"
  by (simp_all add: unlinked_pool_get_def linked_pool_del_def)

lemma view_upd_circ [simp]:
  "unlinked_pool_get n b (upd_circ c f s) = unlinked_pool_get n b s" "linked_pool_get n b (upd_circ c f s) = linked_pool_get n b s"
  "pl_circs (upd_circ c f s) = (pl_circs s)(c := f (pl_circs s c))" "pl_cfxs (upd_circ c f s) = pl_cfxs s"
  "pl_next_circ (upd_circ c f s) = pl_next_circ s" "pl_next_cfx (upd_circ c f s) = pl_next_cfx s"
  "pl_conns (upd_circ c f s) = pl_conns s" "pl_shutting_down (upd_circ c f s) = pl_shutting_down s" "pl_mem_pressure (upd_circ c f s) = pl_mem_pressure s"
  by (simp_all add: unlinked_pool_get_def linked_pool_get_def upd_circ_def)

lemma view_upd_cfx [simp]:
  "unlinked_pool_get n b (upd_cfx x f s) = unlinked_pool_get n b s" "linked_pool_get n b (upd_cfx x f s) = linked_pool_get n b s"
  "pl_circs (upd_cfx x f s) = pl_circs s" "pl_cfxs (upd_cfx x f s) = (pl_cfxs s)(x \<mapsto> f)"
  "pl_next_circ (upd_cfx x f s) = pl_next_circ s" "pl_next_cfx (upd_cfx x f s) = pl_next_cfx s"
  "pl_conns (upd_cfx x f s) = pl_conns s" "pl_shutting_down (upd_cfx x f s) = pl_shutting_down s" "pl_mem_pressure (upd_cfx x f s) = pl_mem_pressure s"
  by (simp_all add: unlinked_pool_get_def linked_pool_get_def upd_cfx_def)

lemma view_fields [simp]:
  "unlinked_pool_get n b (log_calls as s) = unlinked_pool_get n b s" "linked_pool_get n b (log_calls as s) = linked_pool_get n b s"
  "pl_circs (log_calls as s) = pl_circs s" "pl_cfxs (log_calls as s) = pl_cfxs s"
  "pl_next_circ (log_calls as s) = pl_next_circ s" "pl_next_cfx (log_calls as s) = pl_next_cfx s"
  "pl_conns (log_calls as s) = pl_conns s" "pl_shutting_down (log_calls as s) = pl_shutting_down s" "pl_mem_pressure (log_calls as s) = pl_mem_pressure s"
  "unlinked_pool_get n b (s\<lparr>circuits_pending_close := l\<rparr>) = unlinked_pool_get n b s"
  "linked_pool_get n b (s\<lparr>circuits_pending_close := l\<rparr>) = linked_pool_get n b s"
  "unlinked_pool_get n b (s\<lparr>pl_next_circ := m\<rparr>) = unlinked_pool_get n b s" "linked_pool_get n b (s\<lparr>pl_next_circ := m\<rparr>) = linked_pool_get n b s"
  "unlinked_pool_get n b (s\<lparr>pl_next_cfx := m\<rparr>) = unlinked_pool_get n b s" "linked_pool_get n b (s\<lparr>pl_next_cfx := m\<rparr>) = linked_pool_get n b s"
  "unlinked_pool_get n b (s\<lparr>pl_conns := k\<rparr>) = unlinked_pool_get n b s" "linked_pool_get n b (s\<lparr>pl_conns := k\<rparr>) = linked_pool_get n b s"
  "unlinked_pool_get n b (s\<lparr>pl_cfxs := h, pl_total_ooo_q_bytes := t\<rparr>) = unlinked_pool_get n b s"
  "linked_pool_get n b (s\<lparr>pl_cfxs := h, pl_total_ooo_q_bytes := t\<rparr>) = linked_pool_get n b s"
  "unlinked_pool_get n b (s\<lparr>pl_mem_pressure := q\<rparr>) = unlinked_pool_get n b s"
  "linked_pool_get n b (s\<lparr>pl_mem_pressure := q\<rparr>) = linked_pool_get n b s"
  by (simp_all add: unlinked_pool_get_def linked_pool_get_def log_calls_def)

section \<open>Consistency\<close>

abbreviation "lnk s b n \<equiv> linked_pool_get n b s"
abbreviation "unl s b n \<equiv> unlinked_pool_get n b s"

text \<open>What a circuit must have to be a leg: the right side, an exit (for a client), and congestion control when linked.\<close>

definition leg_circ_ok :: "bool \<Rightarrow> circuit_t \<Rightarrow> bool" where
  "leg_circ_ok b k = (is_origin k = b \<and> (b \<longrightarrow> exit_of_circ k \<noteq> None))"

definition cc_ready :: "circuit_t \<Rightarrow> bool" where
  "cc_ready k = (case circuit_ccontrol k of None \<Rightarrow> False | Some cc \<Rightarrow> sendme_inc cc \<noteq> 0)"

definition linked_ok :: "(circ_id \<Rightarrow> circuit_t) \<Rightarrow> bool \<Rightarrow> cfx_id \<Rightarrow> conflux_t \<Rightarrow> bool" where
  "linked_ok C b x cfx = (legs cfx \<noteq> [] \<and> distinct (leg_ids cfx) \<and>
     (\<forall>c \<in> set (leg_ids cfx). conflux (C c) = Some x \<and> conflux_pending_nonce (C c) = None \<and> leg_circ_ok b (C c) \<and> cc_ready (C c)))"

definition unlinked_ok :: "(circ_id \<Rightarrow> circuit_t) \<Rightarrow> bool \<Rightarrow> nonce \<Rightarrow> leg_t list \<Rightarrow> bool" where
  "unlinked_ok C b n ls = (distinct (map lg_circ ls) \<and>
     (\<forall>l \<in> set ls. \<exists>c. lg_circ l = Some c \<and> conflux_pending_nonce (C c) = Some n \<and> conflux (C c) = None \<and> leg_circ_ok b (C c) \<and>
        link_nonce (lg_link l) = n \<and> (lg_linked l \<longrightarrow> cc_ready (C c))))"

text \<open>The object of an unlinked set: that of the linked set \<open>l\<close> with the same nonce, or its own, without legs.\<close>

definition unlinked_obj :: "cfx_id option \<Rightarrow> nonce \<Rightarrow> unlinked_circuits_t \<Rightarrow> conflux_t option \<Rightarrow> bool" where
  "unlinked_obj l n u f = (\<exists>cfx. f = Some cfx \<and> cfx_nonce cfx = n \<and>
     (if is_for_linked_set u then l = Some (ul_cfx u) else l = None \<and> legs cfx = []))"

text \<open>A circuit that still owns the object of a set it was the last leg of.\<close>

definition dying_ok :: "pool_t \<Rightarrow> circ_id \<Rightarrow> cfx_id \<Rightarrow> conflux_t \<Rightarrow> bool" where
  "dying_ok s c x cfx = (marked_for_close (pl_circs s c) \<noteq> 0 \<and> legs cfx = [] \<and>
     lnk s (is_origin (pl_circs s c)) (cfx_nonce cfx) = None \<and> unl s (is_origin (pl_circs s c)) (cfx_nonce cfx) = None \<and>
     (\<forall>b n u. unl s b n = Some u \<longrightarrow> ul_cfx u \<noteq> x) \<and> (\<forall>c'. conflux (pl_circs s c') = Some x \<longrightarrow> c' = c))"

text \<open>The purpose of a client circuit tells what it is to conflux; a linked circuit is not waiting to be linked.\<close>

definition purpose_ok :: "circuit_t \<Rightarrow> bool" where
  "purpose_ok k = ((conflux k \<noteq> None \<longrightarrow> conflux_pending_nonce k = None \<and> (is_origin k \<longrightarrow> purpose k = CIRCUIT_PURPOSE_CONFLUX_LINKED)) \<and>
     (conflux_pending_nonce k \<noteq> None \<and> is_origin k \<longrightarrow> purpose k = CIRCUIT_PURPOSE_CONFLUX_UNLINKED))"

definition pool_inv :: "pool_t \<Rightarrow> bool" where
  "pool_inv s =
     ((\<forall>b n x. lnk s b n = Some x \<longrightarrow> (\<exists>cfx. pl_cfxs s x = Some cfx \<and> cfx_nonce cfx = n \<and> linked_ok (pl_circs s) b x cfx)) \<and>
      (\<forall>b n u. unl s b n = Some u \<longrightarrow> ul_is_client u = b \<and> unlinked_ok (pl_circs s) b n (ul_legs u) \<and>
         unlinked_obj (lnk s b n) n u (pl_cfxs s (ul_cfx u))) \<and>
      (\<forall>n u u'. unl s True n = Some u \<and> unl s False n = Some u' \<longrightarrow> ul_cfx u \<noteq> ul_cfx u') \<and>
      (\<forall>c x. conflux (pl_circs s c) = Some x \<longrightarrow> (\<exists>cfx. pl_cfxs s x = Some cfx \<and>
         (c \<in> set (leg_ids cfx) \<and> lnk s (is_origin (pl_circs s c)) (cfx_nonce cfx) = Some x \<or> dying_ok s c x cfx))) \<and>
      (\<forall>x. pl_cfxs s x \<noteq> None \<longrightarrow> x < pl_next_cfx s) \<and>
      (\<forall>c. pl_next_circ s \<le> c \<longrightarrow> conflux (pl_circs s c) = None \<and> conflux_pending_nonce (pl_circs s c) = None) \<and>
      (\<forall>p. stream_list (pl_conns s) p \<noteq> None) \<and>
      (\<forall>c. purpose_ok (pl_circs s c)))"

lemma pool_invD:
  assumes "pool_inv s"
  shows "lnk s b n = Some x \<Longrightarrow> \<exists>cfx. pl_cfxs s x = Some cfx \<and> cfx_nonce cfx = n \<and> linked_ok (pl_circs s) b x cfx"
    and "unl s b n = Some u \<Longrightarrow> ul_is_client u = b"
    and "unl s b n = Some u \<Longrightarrow> unlinked_ok (pl_circs s) b n (ul_legs u)"
    and "unl s b n = Some u \<Longrightarrow> unlinked_obj (lnk s b n) n u (pl_cfxs s (ul_cfx u))"
    and "unl s True n = Some u \<Longrightarrow> unl s False n = Some u' \<Longrightarrow> ul_cfx u \<noteq> ul_cfx u'"
    and "conflux (pl_circs s c) = Some x \<Longrightarrow> \<exists>cfx. pl_cfxs s x = Some cfx \<and>
         (c \<in> set (leg_ids cfx) \<and> lnk s (is_origin (pl_circs s c)) (cfx_nonce cfx) = Some x \<or> dying_ok s c x cfx)"
    and "pl_cfxs s x = Some cfx \<Longrightarrow> x < pl_next_cfx s"
    and "pl_next_circ s \<le> c \<Longrightarrow> conflux (pl_circs s c) = None"
    and "pl_next_circ s \<le> c \<Longrightarrow> conflux_pending_nonce (pl_circs s c) = None"
    and "\<exists>ps. stream_list (pl_conns s) p = Some ps"
    and "purpose_ok (pl_circs s c)"
  using assms unfolding pool_inv_def by blast+

lemma dying_key:
  assumes "dying_ok s d x cfx"
  shows "unl s b n = Some u \<Longrightarrow> \<not> (cfx_nonce cfx = n \<and> is_origin (pl_circs s d) = b)"
    and "lnk s b n = Some y \<Longrightarrow> \<not> (cfx_nonce cfx = n \<and> is_origin (pl_circs s d) = b)"
proof -
  have N: "unl s (is_origin (pl_circs s d)) (cfx_nonce cfx) = None" "lnk s (is_origin (pl_circs s d)) (cfx_nonce cfx) = None"
    using assms by (simp_all add: dying_ok_def)
  show "unl s b n = Some u \<Longrightarrow> \<not> (cfx_nonce cfx = n \<and> is_origin (pl_circs s d) = b)"
    by (rule notI, elim conjE) (use N(1) in simp)
  show "lnk s b n = Some y \<Longrightarrow> \<not> (cfx_nonce cfx = n \<and> is_origin (pl_circs s d) = b)"
    by (rule notI, elim conjE) (use N(2) in simp)
qed

text \<open>The two sides never share an object.\<close>

lemma unl_side:
  assumes "pool_inv s" "unl s b n = Some u" "unl s b' n = Some u'" "ul_cfx u = ul_cfx u'"
  shows "b = b'"
proof (rule ccontr)
  assume "b \<noteq> b'"
  then consider "b = True" "b' = False" | "b = False" "b' = True" by auto
  then show False using pool_invD(5) [OF assms(1)] assms(2-4) by cases metis+
qed

text \<open>Changes that the consistency does not see.\<close>

definition same_circ :: "circuit_t \<Rightarrow> circuit_t \<Rightarrow> bool" where
  "same_circ k k' = (conflux k' = conflux k \<and> conflux_pending_nonce k' = conflux_pending_nonce k \<and> is_origin k' = is_origin k \<and>
     cpath k' = cpath k \<and> c_ccontrol k' = c_ccontrol k \<and> marked_for_close k' = marked_for_close k \<and> purpose k' = purpose k)"

definition same_cfx :: "conflux_t \<Rightarrow> conflux_t \<Rightarrow> bool" where
  "same_cfx f f' = (leg_ids f' = leg_ids f \<and> cfx_nonce f' = cfx_nonce f)"

definition live_circ :: "circuit_t \<Rightarrow> circuit_t \<Rightarrow> bool" where
  "live_circ k k' = (conflux k' = conflux k \<and> conflux_pending_nonce k' = conflux_pending_nonce k \<and>
     (CIRCUIT_IS_CONFLUX k \<longrightarrow> is_origin k' = is_origin k \<and> purpose k' = purpose k \<and> (exit_of_circ k \<noteq> None \<longrightarrow> exit_of_circ k' \<noteq> None) \<and>
        (cc_ready k \<longrightarrow> cc_ready k') \<and> (marked_for_close k \<noteq> 0 \<longrightarrow> marked_for_close k' \<noteq> 0)))"

lemma leg_ids_fields [simp]:
  "leg_ids (f\<lparr>num_leg_launch := k\<rparr>) = leg_ids f" "leg_ids (f\<lparr>in_full_teardown := t\<rparr>) = leg_ids f"
  by (simp_all add: leg_ids_def)

lemma same_cfx_refl [simp]: "same_cfx f f"
  by (simp add: same_cfx_def)

lemma same_circ_ok:
  assumes "same_circ k k'"
  shows "leg_circ_ok b k' = leg_circ_ok b k" "cc_ready k' = cc_ready k"
  using assms by (auto simp: same_circ_def leg_circ_ok_def exit_of_circ_def cpath_last_def cc_ready_def circuit_ccontrol_def)

lemma same_circ_live: "same_circ k k' \<Longrightarrow> live_circ k k'"
  using same_circ_ok [of k k'] by (auto simp: same_circ_def live_circ_def exit_of_circ_def cpath_last_def)

lemma leg_ids_empty: "leg_ids f' = leg_ids f \<Longrightarrow> (legs f' = []) = (legs f = [])"
  by (metis leg_ids_def map_is_Nil_conv)

lemma pool_inv_env:
  assumes "pool_inv s"
    and p: "\<And>b n. lnk s' b n = lnk s b n" "\<And>b n. unl s' b n = unl s b n"
    and c: "\<And>c. live_circ (pl_circs s c) (pl_circs s' c)"
    and x: "\<And>x. rel_option same_cfx (pl_cfxs s x) (pl_cfxs s' x)"
    and n: "pl_next_circ s \<le> pl_next_circ s'" "pl_next_cfx s \<le> pl_next_cfx s'"
    and k: "\<And>p. stream_list (pl_conns s') p \<noteq> None"
  shows "pool_inv s'"
proof -
  have cs: "conflux (pl_circs s' c) = conflux (pl_circs s c)" "conflux_pending_nonce (pl_circs s' c) = conflux_pending_nonce (pl_circs s c)" for c
    using c [of c] unfolding live_circ_def by blast+
  have ok: "is_origin (pl_circs s' c) = is_origin (pl_circs s c)" "marked_for_close (pl_circs s c) \<noteq> 0 \<Longrightarrow> marked_for_close (pl_circs s' c) \<noteq> 0"
      "leg_circ_ok b (pl_circs s c) \<Longrightarrow> leg_circ_ok b (pl_circs s' c)" "cc_ready (pl_circs s c) \<Longrightarrow> cc_ready (pl_circs s' c)"
    if "conflux (pl_circs s c) = Some x \<or> conflux_pending_nonce (pl_circs s c) = Some n" for b c x n
    using c [of c] that unfolding live_circ_def leg_circ_ok_def CIRCUIT_IS_CONFLUX_def by (metis option.distinct(1))+
  have xs: "\<exists>f'. pl_cfxs s' x = Some f' \<and> (legs f' = [] \<longleftrightarrow> legs f = []) \<and> cfx_nonce f' = cfx_nonce f \<and> leg_ids f' = leg_ids f" if h: "pl_cfxs s x = Some f" for x f
  proof -
    obtain f' where "pl_cfxs s' x = Some f'" "same_cfx f f'" using x [of x] h by (cases "pl_cfxs s' x") auto
    then show ?thesis unfolding same_cfx_def using leg_ids_empty by blast
  qed
  have xn: "pl_cfxs s' x \<noteq> None \<Longrightarrow> pl_cfxs s x \<noteq> None" for x using x [of x] by (cases "pl_cfxs s x") auto
  have lo: "linked_ok (pl_circs s') b x f'" if "linked_ok (pl_circs s) b x f" "legs f' = [] \<longleftrightarrow> legs f = []" "leg_ids f' = leg_ids f" for b x f f'
  proof -
    have "leg_circ_ok b (pl_circs s' d) \<and> cc_ready (pl_circs s' d)" if "d \<in> set (leg_ids f)" for d
      using \<open>linked_ok (pl_circs s) b x f\<close> that ok(3,4) [of d x] by (simp add: linked_ok_def)
    then show ?thesis using that by (simp add: linked_ok_def cs)
  qed
  have uo: "unlinked_ok (pl_circs s') b n ls" if h: "unlinked_ok (pl_circs s) b n ls" for b n ls
    unfolding unlinked_ok_def
  proof (intro conjI ballI)
    show "distinct (map lg_circ ls)" using h by (simp add: unlinked_ok_def)
    fix l
    assume "l \<in> set ls"
    then obtain d where d: "lg_circ l = Some d" "conflux_pending_nonce (pl_circs s d) = Some n" "conflux (pl_circs s d) = None"
      "leg_circ_ok b (pl_circs s d)" "link_nonce (lg_link l) = n" "lg_linked l \<longrightarrow> cc_ready (pl_circs s d)"
      using h unfolding unlinked_ok_def by blast
    then show "\<exists>c. lg_circ l = Some c \<and> conflux_pending_nonce (pl_circs s' c) = Some n \<and> conflux (pl_circs s' c) = None \<and>
        leg_circ_ok b (pl_circs s' c) \<and> link_nonce (lg_link l) = n \<and> (lg_linked l \<longrightarrow> cc_ready (pl_circs s' c))"
      using ok(3,4) [of d _ n] by (simp add: cs)
  qed
  have do: "dying_ok s' c x f'" if "dying_ok s c x f" "conflux (pl_circs s c) = Some x" "legs f' = [] \<longleftrightarrow> legs f = []" "cfx_nonce f' = cfx_nonce f" for c x f f'
  proof -
    note o = ok(1) [OF disjI1 [OF that(2)]]
    have "marked_for_close (pl_circs s c) \<noteq> 0" using that(1) unfolding dying_ok_def by (rule conjunct1)
    then have "marked_for_close (pl_circs s' c) \<noteq> 0" by (rule ok(2) [OF disjI1 [OF that(2)]])
    then show ?thesis using that(1,3,4) unfolding dying_ok_def cs p o by simp
  qed
  note D = pool_invD [OF assms(1)]
  show ?thesis
    unfolding pool_inv_def p cs
  proof (intro conjI allI impI)
    show "\<exists>cfx. pl_cfxs s' x = Some cfx \<and> cfx_nonce cfx = n \<and> linked_ok (pl_circs s') b x cfx" if "lnk s b n = Some x" for b n x
      using D(1) [OF that] xs lo by metis
    show "unlinked_obj (lnk s b n) n u (pl_cfxs s' (ul_cfx u))" if "unl s b n = Some u" for b n u
      using D(4) [OF that] xs unfolding unlinked_obj_def by (metis (no_types, opaque_lifting))
    show "\<exists>cfx. pl_cfxs s' x = Some cfx \<and> (c \<in> set (leg_ids cfx) \<and> lnk s (is_origin (pl_circs s' c)) (cfx_nonce cfx) = Some x \<or>
        dying_ok s' c x cfx)" if h: "conflux (pl_circs s c) = Some x" for c x
    proof -
      obtain f where f: "pl_cfxs s x = Some f" "c \<in> set (leg_ids f) \<and> lnk s (is_origin (pl_circs s c)) (cfx_nonce f) = Some x \<or> dying_ok s c x f"
        using D(6) [OF h] by blast
      obtain f' where f': "pl_cfxs s' x = Some f'" "(legs f' = []) = (legs f = [])" "cfx_nonce f' = cfx_nonce f" "leg_ids f' = leg_ids f" using xs [OF f(1)] by blast
      show ?thesis unfolding ok(1) [OF disjI1 [OF h]] using f(2) f' do [OF _ h f'(2,3)] by auto
    qed
    show "x < pl_next_cfx s'" if "pl_cfxs s' x \<noteq> None" for x using xn [OF that] D(7) n(2) by fastforce
    show "purpose_ok (pl_circs s' c)" for c
      using D(11) [of c] c [of c] by (auto simp: purpose_ok_def live_circ_def CIRCUIT_IS_CONFLUX_def)
  qed (use D k n(1) uo in auto)
qed

lemma pool_inv_frame:
  assumes "pool_inv s"
    and "\<And>b n. lnk s' b n = lnk s b n" "\<And>b n. unl s' b n = unl s b n"
    and "\<And>c. same_circ (pl_circs s c) (pl_circs s' c)"
    and "\<And>x. rel_option same_cfx (pl_cfxs s x) (pl_cfxs s' x)"
    and "pl_next_circ s' = pl_next_circ s" "pl_next_cfx s \<le> pl_next_cfx s'"
    and "\<And>p. stream_list (pl_conns s') p \<noteq> None"
  shows "pool_inv s'"
  using assms same_circ_live by (intro pool_inv_env [of s s']) auto

lemma pool_invI [wf_intros]:
  assumes "\<And>b n x. lnk s b n = Some x \<Longrightarrow> \<exists>cfx. pl_cfxs s x = Some cfx \<and> cfx_nonce cfx = n \<and> linked_ok (pl_circs s) b x cfx"
    and "\<And>b n u. unl s b n = Some u \<Longrightarrow> ul_is_client u = b"
    and "\<And>b n u. unl s b n = Some u \<Longrightarrow> unlinked_ok (pl_circs s) b n (ul_legs u)"
    and "\<And>b n u. unl s b n = Some u \<Longrightarrow> unlinked_obj (lnk s b n) n u (pl_cfxs s (ul_cfx u))"
    and "\<And>n u u'. unl s True n = Some u \<Longrightarrow> unl s False n = Some u' \<Longrightarrow> ul_cfx u \<noteq> ul_cfx u'"
    and "\<And>c x. conflux (pl_circs s c) = Some x \<Longrightarrow> \<exists>cfx. pl_cfxs s x = Some cfx \<and>
         (c \<in> set (leg_ids cfx) \<and> lnk s (is_origin (pl_circs s c)) (cfx_nonce cfx) = Some x \<or> dying_ok s c x cfx)"
    and "\<And>x cfx. pl_cfxs s x = Some cfx \<Longrightarrow> x < pl_next_cfx s"
    and "\<And>c. pl_next_circ s \<le> c \<Longrightarrow> conflux (pl_circs s c) = None \<and> conflux_pending_nonce (pl_circs s c) = None"
    and "\<And>p. \<exists>ps. stream_list (pl_conns s) p = Some ps"
    and "\<And>c. purpose_ok (pl_circs s c)"
  shows "pool_inv s"
  unfolding pool_inv_def using assms by (safe; metis option.distinct(1) option.exhaust)

section \<open>The measure\<close>

definition max_launch :: "pool_env \<Rightarrow> nat" where
  "max_launch e = unat (conflux_params_get_num_legs_set (pe_params e)) + unat (conflux_params_get_max_unlinked_leg_retry (pe_params e))"

definition set_weight :: "nat \<Rightarrow> conflux_t option \<Rightarrow> nat" where
  "set_weight m f = (case f of None \<Rightarrow> 0 | Some cfx \<Rightarrow> 2 * length (legs cfx) + 2 * (m - unat (num_leg_launch cfx)))"

definition unmarked :: "pool_t \<Rightarrow> circ_id set" where
  "unmarked s = {c. c < pl_next_circ s \<and> marked_for_close (pl_circs s c) = 0}"

definition close_measure :: "nat \<Rightarrow> pool_t \<Rightarrow> nat" where
  "close_measure m s = (\<Sum>x<pl_next_cfx s. set_weight m (pl_cfxs s x)) + card (unmarked s)"

lemma finite_unmarked [simp]: "finite (unmarked s)"
  by (simp add: unmarked_def)

lemma sum_upd:
  assumes "x < (n :: nat)"
  shows "(\<Sum>y<n. g ((X(x := v)) y)) + g (X x) = (\<Sum>y<n. g (X y)) + (g v :: nat)"
proof -
  have "(\<Sum>y<n. g ((X(x := v)) y)) = g v + (\<Sum>y\<in>{..<n} - {x}. g ((X(x := v)) y))"
    using assms by (subst sum.remove [of _ x]) auto
  moreover have "(\<Sum>y\<in>{..<n} - {x}. g ((X(x := v)) y)) = (\<Sum>y\<in>{..<n} - {x}. g (X y))" by (rule sum.cong) auto
  moreover have "(\<Sum>y<n. g (X y)) = g (X x) + (\<Sum>y\<in>{..<n} - {x}. g (X y))" using assms by (subst sum.remove [of _ x]) auto
  ultimately show ?thesis by linarith
qed

text \<open>What a nested call leaves behind.\<close>

definition pool_rel :: "pool_t \<Rightarrow> pool_t \<Rightarrow> bool" where
  "pool_rel s s' = (pl_next_circ s \<le> pl_next_circ s' \<and> pl_next_cfx s \<le> pl_next_cfx s' \<and>
     (\<forall>c. conflux (pl_circs s' c) = conflux (pl_circs s c) \<or> conflux (pl_circs s' c) = None) \<and>
     (\<forall>c < pl_next_circ s. is_origin (pl_circs s' c) = is_origin (pl_circs s c) \<and> cpath (pl_circs s' c) = cpath (pl_circs s c) \<and>
        (conflux_pending_nonce (pl_circs s' c) = conflux_pending_nonce (pl_circs s c) \<or> conflux_pending_nonce (pl_circs s' c) = None) \<and>
        (marked_for_close (pl_circs s c) \<noteq> 0 \<longrightarrow> marked_for_close (pl_circs s' c) \<noteq> 0)) \<and>
     (\<forall>x f'. x < pl_next_cfx s \<and> pl_cfxs s' x = Some f' \<longrightarrow> (\<exists>f. pl_cfxs s x = Some f \<and> cfx_nonce f' = cfx_nonce f)))"

text \<open>The legs that should have left their set because their circuit is closed.\<close>

definition is_leg :: "pool_t \<Rightarrow> circ_id \<Rightarrow> bool" where
  "is_leg s d = ((\<exists>b n x f. lnk s b n = Some x \<and> pl_cfxs s x = Some f \<and> d \<in> set (leg_ids f)) \<or>
     (\<exists>b n u l. unl s b n = Some u \<and> l \<in> set (ul_legs u) \<and> lg_circ l = Some d))"

definition closed_legs :: "pool_t \<Rightarrow> circ_id set" where
  "closed_legs s = {d. marked_for_close (pl_circs s d) \<noteq> 0 \<and> is_leg s d}"

definition pool_step :: "nat \<Rightarrow> pool_t \<Rightarrow> pool_t \<Rightarrow> bool" where
  "pool_step m s s' = (pool_inv s' \<and> close_measure m s' \<le> close_measure m s \<and> pool_rel s s' \<and> closed_legs s' \<subseteq> closed_legs s)"

lemma is_leg_subset:
  assumes "\<And>b n x f d. lnk s' b n = Some x \<Longrightarrow> pl_cfxs s' x = Some f \<Longrightarrow> d \<in> set (leg_ids f) \<Longrightarrow> is_leg s d"
    and "\<And>b n u l d. unl s' b n = Some u \<Longrightarrow> l \<in> set (ul_legs u) \<Longrightarrow> lg_circ l = Some d \<Longrightarrow> is_leg s d"
  shows "is_leg s' d \<Longrightarrow> is_leg s d"
  using assms unfolding is_leg_def [of s'] by blast

lemma is_legI:
  "lnk s b n = Some x \<Longrightarrow> pl_cfxs s x = Some f \<Longrightarrow> d \<in> set (leg_ids f) \<Longrightarrow> is_leg s d"
  "unl s b n = Some u \<Longrightarrow> l \<in> set (ul_legs u) \<Longrightarrow> lg_circ l = Some d \<Longrightarrow> is_leg s d"
  unfolding is_leg_def by blast+

lemma closed_legs_subset:
  assumes "\<And>d. is_leg s' d \<Longrightarrow> is_leg s d" and "\<And>d. is_leg s d \<Longrightarrow> marked_for_close (pl_circs s' d) = marked_for_close (pl_circs s d)"
  shows "closed_legs s' \<subseteq> closed_legs s"
  using assms by (auto simp: closed_legs_def)

lemma pool_rel_refl [simp]: "pool_rel s s" by (simp add: pool_rel_def)

lemma pool_rel_trans [trans]: "pool_rel s s' \<Longrightarrow> pool_rel s' s'' \<Longrightarrow> pool_rel s s''"
  unfolding pool_rel_def by (smt (verit, ccfv_threshold) le_trans order_less_le_trans)

lemma pool_step_refl: "pool_inv s \<Longrightarrow> pool_step m s s" by (simp add: pool_step_def)

lemma pool_step_trans [trans]: "pool_step m s s' \<Longrightarrow> pool_step m s' s'' \<Longrightarrow> pool_step m s s''"
  unfolding pool_step_def by (meson le_trans pool_rel_trans subset_trans)

lemma pool_step_inv: "pool_step m s s' \<Longrightarrow> pool_inv s'" by (simp add: pool_step_def)

text \<open>A step that the consistency does not see.\<close>

lemma pool_step_frame:
  assumes "pool_inv s"
    and "\<And>b n. lnk s' b n = lnk s b n" "\<And>b n. unl s' b n = unl s b n"
    and c: "\<And>c. same_circ (pl_circs s c) (pl_circs s' c)"
    and x: "\<And>x. rel_option (\<lambda>f f'. same_cfx f f' \<and> num_leg_launch f \<le> num_leg_launch f') (pl_cfxs s x) (pl_cfxs s' x)"
    and n: "pl_next_circ s' = pl_next_circ s" "pl_next_cfx s' = pl_next_cfx s"
    and "\<And>p. stream_list (pl_conns s') p \<noteq> None"
  shows "pool_step m s s'"
proof -
  have "rel_option same_cfx (pl_cfxs s x) (pl_cfxs s' x)" for x by (rule option.rel_mono_strong [OF x]) auto
  then have inv: "pool_inv s'" using assms by (intro pool_inv_frame [of s s']) auto
  have "set_weight m (pl_cfxs s' x) \<le> set_weight m (pl_cfxs s x)" for x
    using x [of x] by (cases "pl_cfxs s x"; cases "pl_cfxs s' x")
      (auto simp: set_weight_def same_cfx_def leg_ids_def word_le_nat_alt diff_le_mono2 dest!: arg_cong [where f = length])
  then have "(\<Sum>x<pl_next_cfx s'. set_weight m (pl_cfxs s' x)) \<le> (\<Sum>x<pl_next_cfx s. set_weight m (pl_cfxs s x))"
    unfolding n(2) by (intro sum_mono) simp
  moreover have "unmarked s' \<subseteq> unmarked s" using c n(1) by (auto simp: unmarked_def same_circ_def)
  then have "card (unmarked s') \<le> card (unmarked s)" by (simp add: card_mono)
  moreover have "\<exists>f. pl_cfxs s x = Some f \<and> cfx_nonce f' = cfx_nonce f" if "pl_cfxs s' x = Some f'" for x f'
    using x [of x] that by (cases "pl_cfxs s x") (auto simp: same_cfx_def)
  then have "pool_rel s s'" using c n by (auto simp: pool_rel_def same_circ_def)
  moreover have "closed_legs s' \<subseteq> closed_legs s"
  proof (rule closed_legs_subset)
    have ids: "\<exists>f. pl_cfxs s x = Some f \<and> leg_ids f' = leg_ids f" if "pl_cfxs s' x = Some f'" for x f'
      using x [of x] that by (cases "pl_cfxs s x") (auto simp: same_cfx_def)
    show "is_leg s d" if "is_leg s' d" for d
      by (rule is_leg_subset [OF _ _ that]) (use ids assms(2,3) is_legI in \<open>metis+\<close>)
  qed (use c in \<open>simp add: same_circ_def\<close>)
  ultimately show ?thesis using inv by (simp add: pool_step_def close_measure_def)
qed

lemma streams_inv: "pool_inv s \<Longrightarrow> stream_list (pl_conns s) p \<noteq> None"
  using pool_invD(10) by fastforce

lemma step_circ_frame:
  assumes "pool_inv s" and "\<And>k. same_circ k (f k)"
  shows "pool_step m s (upd_circ c f s)"
  using assms streams_inv [OF assms(1)]
  by (intro pool_step_frame) (auto simp: same_circ_def same_cfx_def option.rel_refl)

lemma step_no_streams: "pool_inv s \<Longrightarrow> pool_step m s (validate_circ_has_no_streams c s)"
  unfolding validate_circ_has_no_streams_def by (rule step_circ_frame) (auto simp: same_circ_def)

lemma step_nullify: "pool_inv s \<Longrightarrow> pool_step m s (linked_nullify_streams c s)"
  unfolding linked_nullify_streams_def by (rule step_circ_frame) (auto simp: same_circ_def)

lemma step_cfx_frame:
  assumes "pool_inv s" and "pl_cfxs s x = Some f" and "same_cfx f f'" and "num_leg_launch f \<le> num_leg_launch f'"
  shows "pool_step m s (upd_cfx x f' s)"
  using assms streams_inv [OF assms(1)]
  by (intro pool_step_frame) (auto simp: same_circ_def same_cfx_def option.rel_refl)

text \<open>Marking a circuit that is not closed yet uses up one unit of the measure.\<close>

lemma mark_measure:
  assumes "pool_inv s" and "marked_for_close (pl_circs s c) = 0" and "c < pl_next_circ s"
  shows "close_measure m (upd_circ c (\<lambda>k. k\<lparr>marked_for_close := 1\<rparr>) s) < close_measure m s"
proof -
  let ?s = "upd_circ c (\<lambda>k. k\<lparr>marked_for_close := 1\<rparr>) s"
  have "unmarked ?s = unmarked s - {c}" by (auto simp: unmarked_def)
  moreover have "c \<in> unmarked s" using assms(2,3) by (simp add: unmarked_def)
  ultimately have "card (unmarked ?s) < card (unmarked s)" using finite_unmarked by (metis card_Diff1_less)
  then show ?thesis by (simp add: close_measure_def)
qed

section \<open>New circuits\<close>

text \<open>No leg is a circuit that does not exist yet.\<close>

lemma new_circ_not_leg:
  assumes "pool_inv s"
  shows "lnk s b n = Some x \<Longrightarrow> pl_cfxs s x = Some cfx \<Longrightarrow> pl_next_circ s \<notin> set (leg_ids cfx)"
    and "unl s b n = Some u \<Longrightarrow> l \<in> set (ul_legs u) \<Longrightarrow> lg_circ l \<noteq> Some (pl_next_circ s)"
  using pool_invD(1) [OF assms, of n b x] pool_invD(3) [OF assms, of n b u] pool_invD(8,9) [OF assms, of "pl_next_circ s"]
  by (auto simp: linked_ok_def unlinked_ok_def)

lemma inv_new_circ:
  assumes "pool_inv s" and "conflux k = None" and "purpose_ok k"
  shows "pool_inv ((upd_circ (pl_next_circ s) (\<lambda>_. k) s)\<lparr>pl_next_circ := Suc (pl_next_circ s)\<rparr>)" (is "pool_inv ?s")
proof -
  let ?c = "pl_next_circ s"
  note D = pool_invD [OF assms(1)] and N = new_circ_not_leg [OF assms(1)]
  have lo: "linked_ok (pl_circs ?s) b x cfx" if "linked_ok (pl_circs s) b x cfx" "?c \<notin> set (leg_ids cfx)" for b x cfx
    using that unfolding linked_ok_def by auto
  have uo: "unlinked_ok (pl_circs ?s) b n ls" if "unlinked_ok (pl_circs s) b n ls" "\<And>l. l \<in> set ls \<Longrightarrow> lg_circ l \<noteq> Some ?c" for b n ls
    using that unfolding unlinked_ok_def by (auto, metis)
  have do: "dying_ok ?s c x cfx" if "dying_ok s c x cfx" "c \<noteq> ?c" for c x cfx
    using that assms(2) by (auto simp: dying_ok_def)
  show ?thesis
  proof (rule pool_invI)
    show "\<exists>cfx. pl_cfxs ?s x = Some cfx \<and> cfx_nonce cfx = n \<and> linked_ok (pl_circs ?s) b x cfx" if "lnk ?s b n = Some x" for b n x
      using D(1) [of n b x] N(1) [of n b x] lo that by auto
    show "unlinked_ok (pl_circs ?s) b n (ul_legs u)" if "unl ?s b n = Some u" for b n u
      using D(3) [of n b u] N(2) [of n b u] uo that by auto
    show "\<exists>cfx. pl_cfxs ?s x = Some cfx \<and> (c \<in> set (leg_ids cfx) \<and> lnk ?s (is_origin (pl_circs ?s c)) (cfx_nonce cfx) = Some x \<or>
        dying_ok ?s c x cfx)" if "conflux (pl_circs ?s c) = Some x" for c x
      using D(6) [of c x] do that assms(2) by (cases "c = ?c") auto
  qed (use D assms(3) in \<open>auto\<close>)
qed

lemma measure_new_circ:
  "close_measure m ((upd_circ (pl_next_circ s) (\<lambda>_. k) s)\<lparr>pl_next_circ := Suc (pl_next_circ s)\<rparr>) \<le> Suc (close_measure m s)"
proof -
  let ?s = "(upd_circ (pl_next_circ s) (\<lambda>_. k) s)\<lparr>pl_next_circ := Suc (pl_next_circ s)\<rparr>"
  have "unmarked ?s \<subseteq> insert (pl_next_circ s) (unmarked s)" by (auto simp: unmarked_def)
  then have "card (unmarked ?s) \<le> card (insert (pl_next_circ s) (unmarked s))" by (intro card_mono) auto
  also have "\<dots> \<le> Suc (card (unmarked s))" by (simp add: card_insert_if)
  finally show ?thesis by (simp add: close_measure_def)
qed

lemma legs_new_circ:
  assumes "pool_inv s"
  shows "closed_legs ((upd_circ (pl_next_circ s) (\<lambda>_. k) s)\<lparr>pl_next_circ := Suc (pl_next_circ s)\<rparr>) \<subseteq> closed_legs s" (is "closed_legs ?s \<subseteq> _")
proof (rule closed_legs_subset)
  show "is_leg s d" if "is_leg ?s d" for d by (rule is_leg_subset [OF _ _ that]) (auto intro: is_legI)
  show "marked_for_close (pl_circs ?s d) = marked_for_close (pl_circs s d)" if "is_leg s d" for d
    using that new_circ_not_leg [OF assms] by (auto simp: is_leg_def)
qed

lemma rel_new_circ: "conflux k = None \<Longrightarrow> pool_rel s ((upd_circ (pl_next_circ s) (\<lambda>_. k) s)\<lparr>pl_next_circ := Suc (pl_next_circ s)\<rparr>)"
  by (auto simp: pool_rel_def)

section \<open>Legs that leave a list\<close>

lemma del_first_mset: "find P xs = Some x \<Longrightarrow> mset xs = add_mset x (mset (del_first P xs))"
proof (induction xs)
  case (Cons y ys)
  have "ys \<noteq> [] \<Longrightarrow> mset ys = add_mset (last ys) (mset (butlast ys))"
    by (metis append_butlast_last_id mset.simps(2) mset_append union_mset_add_mset_right mset.simps(1) add.right_neutral)
  then show ?case using Cons by (auto split: if_splits)
qed simp

lemma del_first_props:
  assumes "find P xs = Some x"
  shows "set (del_first P xs) \<subseteq> set xs" and "length xs = Suc (length (del_first P xs))"
    and "distinct (map f xs) \<Longrightarrow> distinct (map f (del_first P xs)) \<and> f x \<notin> f ` set (del_first P xs)"
    and "set xs = insert x (set (del_first P xs))"
proof -
  note m = del_first_mset [OF assms]
  have i: "set xs = insert x (set (del_first P xs))" using arg_cong [OF m, of set_mset] by simp
  then show "set (del_first P xs) \<subseteq> set xs" "set xs = insert x (set (del_first P xs))" by auto
  show "length xs = Suc (length (del_first P xs))" using arg_cong [OF m, of size] by simp
  assume d: "distinct (map f xs)"
  have "mset (map f xs) = add_mset (f x) (mset (map f (del_first P xs)))" using m by simp
  then have "distinct (f x # map f (del_first P xs))" using d by (metis mset.simps(2) mset_eq_imp_distinct_iff)
  then show "distinct (map f (del_first P xs)) \<and> f x \<notin> f ` set (del_first P xs)" by simp
qed

lemma leg_find_props: "leg_find u c = Some l \<Longrightarrow> l \<in> set (ul_legs u) \<and> lg_circ l = Some c"
  unfolding leg_find_def by (rule find_Some_iff)

text \<open>A circuit with a pending nonce is a leg of no linked set, and of one unlinked set at most.\<close>

lemma pending_unique:
  assumes "pool_inv s" and "conflux_pending_nonce (pl_circs s c) = Some n"
  shows "lnk s b' n' = Some x \<Longrightarrow> pl_cfxs s x = Some cfx \<Longrightarrow> c \<notin> set (leg_ids cfx)"
    and "unl s b' n' = Some u \<Longrightarrow> l \<in> set (ul_legs u) \<Longrightarrow> lg_circ l = Some c \<Longrightarrow> n' = n \<and> b' = is_origin (pl_circs s c)"
  using pool_invD(1) [OF assms(1), of n' b' x] pool_invD(3) [OF assms(1), of n' b' u] assms(2)
  by (auto simp: linked_ok_def unlinked_ok_def leg_circ_ok_def)

text \<open>Replacing one unlinked set by another one, while other legs see no change.\<close>

lemma inv_unl_upd:
  assumes inv: "pool_inv s"
    and v: "\<And>b' n'. unl s' b' n' = (if b' = b \<and> n' = n then Some u' else unl s b' n')" "\<And>b' n'. lnk s' b' n' = lnk s b' n'"
      "pl_cfxs s' = pl_cfxs s" "pl_next_circ s' = pl_next_circ s" "pl_next_cfx s \<le> pl_next_cfx s'" "pl_conns s' = pl_conns s"
    and c: "\<And>d. conflux (pl_circs s' d) = conflux (pl_circs s d) \<and> is_origin (pl_circs s' d) = is_origin (pl_circs s d)
        \<and> (marked_for_close (pl_circs s d) \<noteq> 0 \<longrightarrow> marked_for_close (pl_circs s' d) \<noteq> 0)"
      "\<And>d. pl_next_circ s \<le> d \<Longrightarrow> conflux_pending_nonce (pl_circs s' d) = None"
    and lc: "\<And>b' n' x cfx d. lnk s b' n' = Some x \<Longrightarrow> pl_cfxs s x = Some cfx \<Longrightarrow> d \<in> set (leg_ids cfx) \<Longrightarrow> pl_circs s' d = pl_circs s d"
    and uc: "\<And>b' n' w l d. unl s b' n' = Some w \<Longrightarrow> \<not> (b' = b \<and> n' = n) \<Longrightarrow> l \<in> set (ul_legs w) \<Longrightarrow> lg_circ l = Some d
        \<Longrightarrow> pl_circs s' d = pl_circs s d"
    and u': "ul_is_client u' = b" "unlinked_ok (pl_circs s') b n (ul_legs u')" "unlinked_obj (lnk s b n) n u' (pl_cfxs s (ul_cfx u'))"
    and side: "\<And>w. unl s (\<not> b) n = Some w \<Longrightarrow> ul_cfx w \<noteq> ul_cfx u'"
    and pk: "\<And>d. purpose_ok (pl_circs s' d)"
    and dying: "\<And>d x cfx. conflux (pl_circs s d) = Some x \<Longrightarrow> pl_cfxs s x = Some cfx \<Longrightarrow> dying_ok s d x cfx \<Longrightarrow>
        x \<noteq> ul_cfx u' \<and> \<not> (is_origin (pl_circs s d) = b \<and> cfx_nonce cfx = n)"
  shows "pool_inv s'"
proof -
  note D = pool_invD [OF inv]
  have E: "b' = b \<and> n' = n \<and> w = u' \<or> \<not> (b' = b \<and> n' = n) \<and> unl s b' n' = Some w" if "unl s' b' n' = Some w" for b' n' w
    using that by (cases "b' = b \<and> n' = n") (auto simp: v)
  show ?thesis
  proof (rule pool_invI)
    show "\<exists>cfx. pl_cfxs s' x = Some cfx \<and> cfx_nonce cfx = n' \<and> linked_ok (pl_circs s') b' x cfx" if "lnk s' b' n' = Some x" for b' n' x
    proof -
      have L: "lnk s b' n' = Some x" using that by (simp add: v)
      then obtain cfx where x: "pl_cfxs s x = Some cfx" "cfx_nonce cfx = n'" "linked_ok (pl_circs s) b' x cfx" using D(1) by blast
      then have "linked_ok (pl_circs s') b' x cfx" using lc [OF L x(1)] by (simp add: linked_ok_def)
      then show ?thesis using x by (simp add: v)
    qed
    fix b' n' w
    assume w: "unl s' b' n' = Some w"
    show "ul_is_client w = b'" using E [OF w] D(2) [of n' b' w] u'(1) by auto
    show "unlinked_obj (lnk s' b' n') n' w (pl_cfxs s' (ul_cfx w))" using E [OF w] D(4) [of n' b' w] u'(3) v by auto
    show "unlinked_ok (pl_circs s') b' n' (ul_legs w)"
    proof (cases "b' = b \<and> n' = n")
      case False
      then have U: "unl s b' n' = Some w" using E [OF w] by blast
      have "pl_circs s' d = pl_circs s d" if "l \<in> set (ul_legs w)" "lg_circ l = Some d" for l d using uc [OF U False that] .
      then show ?thesis using D(3) [OF U] unfolding unlinked_ok_def by metis
    qed (use E [OF w] u'(2) in auto)
  next
    fix n' w w'
    assume w: "unl s' True n' = Some w" "unl s' False n' = Some w'"
    show "ul_cfx w \<noteq> ul_cfx w'"
    proof
      assume e: "ul_cfx w = ul_cfx w'"
      consider "unl s True n' = Some w" "unl s False n' = Some w'" | "b = True" "n' = n" "w = u'" "unl s False n' = Some w'"
        | "b = False" "n' = n" "w' = u'" "unl s True n' = Some w" using E [OF w(1)] E [OF w(2)] by auto
      then show False using D(5) [of n' w w'] side e by cases auto
    qed
  next
    fix d x
    assume "conflux (pl_circs s' d) = Some x"
    then have d: "conflux (pl_circs s d) = Some x" using c(1) by simp
    have "dying_ok s' d x cfx" if dy: "dying_ok s d x cfx" and X: "pl_cfxs s x = Some cfx" for cfx
    proof -
      note K = dying [OF d X dy]
      have "ul_cfx w \<noteq> x" if "unl s' b' n' = Some w" for b' n' w using E [OF that] K dy by (auto simp: dying_ok_def)
      moreover have "unl s' (is_origin (pl_circs s d)) (cfx_nonce cfx) = None" using K dy by (simp add: v dying_ok_def)
      ultimately show ?thesis using dy c(1) by (simp add: dying_ok_def v)
    qed
    then show "\<exists>cfx. pl_cfxs s' x = Some cfx \<and> (d \<in> set (leg_ids cfx) \<and> lnk s' (is_origin (pl_circs s' d)) (cfx_nonce cfx) = Some x \<or>
        dying_ok s' d x cfx)" using D(6) [OF d] c(1) v by auto
  next
    show "x < pl_next_cfx s'" if "pl_cfxs s' x = Some f" for x f using D(7) [of x] v(3,5) that by fastforce
    show "conflux (pl_circs s' d) = None \<and> conflux_pending_nonce (pl_circs s' d) = None" if "pl_next_circ s' \<le> d" for d
      using D(8) [of d] c v(4) that by simp
    show "\<exists>ps. stream_list (pl_conns s') p = Some ps" for p using D(10) v(6) by simp
    show "purpose_ok (pl_circs s' d)" for d by (rule pk)
  qed
qed

text \<open>The last two conditions hold when the new set has the object of the old one.\<close>

lemma unl_upd_same_obj:
  assumes "pool_inv s" and u: "unl s b n = Some u"
  shows "unl s (\<not> b) n = Some w \<Longrightarrow> ul_cfx w \<noteq> ul_cfx u"
    and "dying_ok s d x cfx \<Longrightarrow> x \<noteq> ul_cfx u \<and> \<not> (is_origin (pl_circs s d) = b \<and> cfx_nonce cfx = n)"
proof -
  show "unl s (\<not> b) n = Some w \<Longrightarrow> ul_cfx w \<noteq> ul_cfx u" using unl_side [OF assms(1) u, of "\<not> b" w] by auto
  show "x \<noteq> ul_cfx u \<and> \<not> (is_origin (pl_circs s d) = b \<and> cfx_nonce cfx = n)" if "dying_ok s d x cfx"
    using dying_key(1) [OF that u] that u by (auto simp: dying_ok_def)
qed

lemma inv_leg_del:
  assumes "pool_inv s" and u: "unl s b n = Some u" and l: "leg_find u c = Some l"
  defines "u' \<equiv> u\<lparr>ul_legs := del_first (\<lambda>l. lg_circ l = Some c) (ul_legs u)\<rparr>"
  shows "pool_inv (leg_free l (unlinked_pool_set n u' b s))"
proof -
  note D = pool_invD [OF assms(1)]
  have lc: "lg_circ l = Some c" "l \<in> set (ul_legs u)" using leg_find_props [OF l] by auto
  have k: "conflux_pending_nonce (pl_circs s c) = Some n" "conflux (pl_circs s c) = None" "is_origin (pl_circs s c) = b"
    using D(3) [OF u] lc by (auto simp: unlinked_ok_def leg_circ_ok_def)
  note P = pending_unique [OF assms(1) k(1)]
  have f: "find (\<lambda>l. lg_circ l = Some c) (ul_legs u) = Some l" using l by (simp add: leg_find_def)
  have dl: "distinct (map lg_circ (ul_legs u'))" "Some c \<notin> lg_circ ` set (ul_legs u')" "set (ul_legs u') \<subseteq> set (ul_legs u)"
    using del_first_props(3) [OF f, of lg_circ] del_first_props(1) [OF f] D(3) [OF u] lc(1)
    by (simp_all add: u'_def unlinked_ok_def)
  have u': "ul_cfx u' = ul_cfx u" "is_for_linked_set u' = is_for_linked_set u" "ul_is_client u' = ul_is_client u" by (simp_all add: u'_def)
  have s: "leg_free l (unlinked_pool_set n u' b s) = upd_circ c (\<lambda>k. k\<lparr>conflux_pending_nonce := None\<rparr>) (unlinked_pool_set n u' b s)"
    using lc by (simp add: leg_free_def)
  show ?thesis
    unfolding s
  proof (rule inv_unl_upd [OF assms(1), of _ b n u'])
    let ?C = "pl_circs (upd_circ c (\<lambda>k. k\<lparr>conflux_pending_nonce := None\<rparr>) (unlinked_pool_set n u' b s))"
    have same: "?C d = pl_circs s d" if "d \<noteq> c" for d using that by simp
    show "unlinked_ok ?C b n (ul_legs u')"
      unfolding unlinked_ok_def
    proof (intro conjI ballI dl(1))
      fix l'
      assume l': "l' \<in> set (ul_legs u')"
      then obtain d where d: "lg_circ l' = Some d" "conflux_pending_nonce (pl_circs s d) = Some n" "conflux (pl_circs s d) = None"
        "leg_circ_ok b (pl_circs s d)" "link_nonce (lg_link l') = n" "lg_linked l' \<longrightarrow> cc_ready (pl_circs s d)" using D(3) [OF u] dl(3) unfolding unlinked_ok_def by blast
      then have "d \<noteq> c" using dl(2) l' by (metis imageI)
      then show "\<exists>c. lg_circ l' = Some c \<and> conflux_pending_nonce (?C c) = Some n \<and> conflux (?C c) = None \<and> leg_circ_ok b (?C c) \<and>
          link_nonce (lg_link l') = n \<and> (lg_linked l' \<longrightarrow> cc_ready (?C c))"
        using d by simp
    qed
    show "?C d = pl_circs s d" if "lnk s b' n' = Some x" "pl_cfxs s x = Some cfx" "d \<in> set (leg_ids cfx)" for b' n' x cfx d
      using P(1) [OF that(1,2)] that(3) by (intro same) auto
    show "?C d = pl_circs s d" if "unl s b' n' = Some w" "\<not> (b' = b \<and> n' = n)" "l' \<in> set (ul_legs w)" "lg_circ l' = Some d" for b' n' w l' d
      using P(2) [OF that(1,3)] that(2,4) k(3) by (intro same) auto
    show "purpose_ok (?C d)" for d using D(11) [of d] k(2) by (auto simp: purpose_ok_def)
  qed (use D(2,4) [OF u] D(9) unl_upd_same_obj [OF assms(1) u] u' in \<open>auto simp: unlinked_obj_def\<close>)
qed

text \<open>Deleting a leg changes neither the measure nor what a caller relies on.\<close>

lemma step_leg_del:
  assumes "pool_inv s" and "unl s b n = Some u"
  shows "\<exists>s' u'. unlinked_leg_del_and_free n b c s = Some s' \<and> pool_step m s s' \<and> unl s' b n = Some u' \<and>
    (\<forall>l \<in> set (ul_legs u'). lg_circ l \<noteq> Some c) \<and> (leg_find u c \<noteq> None \<longrightarrow> conflux_pending_nonce (pl_circs s' c) = None)"
proof (cases "leg_find u c")
  case None
  then have "\<forall>l \<in> set (ul_legs u). lg_circ l \<noteq> Some c" by (auto simp: leg_find_def find_None_iff)
  then show ?thesis using None assms by (simp add: unlinked_leg_del_and_free_def pool_step_refl)
next
  case (Some l)
  let ?u = "u\<lparr>ul_legs := del_first (\<lambda>l. lg_circ l = Some c) (ul_legs u)\<rparr>"
  let ?s = "leg_free l (unlinked_pool_set n ?u b s)"
  have s: "?s = upd_circ c (\<lambda>k. k\<lparr>conflux_pending_nonce := None\<rparr>) (unlinked_pool_set n ?u b s)"
    using leg_find_props [OF Some] by (simp add: leg_free_def)
  have "unmarked ?s = unmarked s" by (auto simp: unmarked_def s)
  then have "close_measure m ?s = close_measure m s" by (simp add: close_measure_def s)
  moreover have "pool_rel s ?s" by (auto simp: pool_rel_def s)
  moreover note P = del_first_props [of "\<lambda>l. lg_circ l = Some c" "ul_legs u" l]
  have f: "find (\<lambda>l. lg_circ l = Some c) (ul_legs u) = Some l" using Some by (simp add: leg_find_def)
  have "closed_legs ?s \<subseteq> closed_legs s"
  proof (rule closed_legs_subset)
    show "is_leg s d" if "is_leg ?s d" for d
    proof (rule is_leg_subset [OF _ _ that])
      show "is_leg s d'" if "unl ?s b' n' = Some w" "l' \<in> set (ul_legs w)" "lg_circ l' = Some d'" for b' n' w l' d'
        using that P(1) [OF f] is_legI(2) [OF assms(2), of l' d'] is_legI(2) [of n' b' s w l' d'] by (auto simp: s split: if_splits)
    qed (auto simp: s intro: is_legI)
  qed (simp add: s)
  ultimately have "pool_step m s ?s" using inv_leg_del [OF assms Some] by (simp add: pool_step_def)
  moreover have "unl ?s b n = Some ?u" by (simp add: s)
  moreover have "\<forall>l \<in> set (ul_legs ?u). lg_circ l \<noteq> Some c"
    using P(3) [OF f, of lg_circ] pool_invD(3) [OF assms] leg_find_props [OF Some] by (force simp: unlinked_ok_def)
  moreover have "conflux_pending_nonce (pl_circs ?s c) = None" by (simp add: s)
  ultimately show ?thesis using assms(2) Some by (simp add: unlinked_leg_del_and_free_def)
qed

section \<open>Freeing objects\<close>

lemma measure_free:
  assumes "x < pl_next_cfx s" and "pl_cfxs s' = (pl_cfxs s)(x := None)" and "pl_next_cfx s' = pl_next_cfx s"
    and "unmarked s' = unmarked s"
  shows "close_measure m s' \<le> close_measure m s"
  using sum_upd [OF assms(1), of "set_weight m" "pl_cfxs s" None] assms(2-4) by (simp add: close_measure_def set_weight_def)

text \<open>An unlinked set with an object of its own is the only one that refers to it.\<close>

lemma own_object:
  assumes "pool_inv s" and u: "unl s b n = Some u" and "\<not> is_for_linked_set u"
  shows "lnk s b' n' \<noteq> Some (ul_cfx u)" and "unl s b' n' = Some v \<Longrightarrow> ul_cfx v = ul_cfx u \<Longrightarrow> b' = b \<and> n' = n"
    and "conflux (pl_circs s c) \<noteq> Some (ul_cfx u)"
proof -
  note D = pool_invD [OF assms(1)]
  obtain cfx where cfx: "pl_cfxs s (ul_cfx u) = Some cfx" "cfx_nonce cfx = n" "legs cfx = []"
    using D(4) [OF u] assms(3) by (auto simp: unlinked_obj_def)
  show nl: "lnk s b' n' \<noteq> Some (ul_cfx u)" for b' n' using D(1) [of n' b' "ul_cfx u"] cfx by (auto simp: linked_ok_def)
  show "b' = b \<and> n' = n" if v: "unl s b' n' = Some v" "ul_cfx v = ul_cfx u"
  proof -
    have n: "n' = n" using D(4) [OF v(1)] cfx(1,2) v(2) by (auto simp: unlinked_obj_def)
    then show ?thesis using unl_side [OF assms(1) v(1) _ v(2)] u by simp
  qed
  show "conflux (pl_circs s c) \<noteq> Some (ul_cfx u)"
    using D(6) [of c "ul_cfx u"] cfx nl u by (auto simp: dying_ok_def leg_ids_def)
qed

lemma pool_del_view:
  assumes "pl_cfxs s (ul_cfx u) = Some cfx" "cfx_nonce cfx = n" and "ul_legs u = []"
  shows "\<exists>s'. unlinked_pool_del_and_free u b s = Some s' \<and>
    (\<forall>b' n'. unl s' b' n' = (if b' = b \<and> n' = n then None else unl s b' n')) \<and> (\<forall>b' n'. lnk s' b' n' = lnk s b' n') \<and>
    pl_circs s' = pl_circs s \<and> pl_cfxs s' = (if is_for_linked_set u then pl_cfxs s else (pl_cfxs s)(ul_cfx u := None)) \<and>
    pl_next_circ s' = pl_next_circ s \<and> pl_next_cfx s' = pl_next_cfx s \<and> pl_conns s' = pl_conns s"
  using assms
  by (cases b; simp add: unlinked_pool_del_and_free_def unlinked_pool_del_def unlinked_free_def conflux_free_def
      unlinked_pool_get_def linked_pool_get_def AList.delete_conv')

lemma step_pool_del:
  assumes "pool_inv s" and u: "unl s b n = Some u" and "ul_legs u = []"
  shows "\<exists>s'. unlinked_pool_del_and_free u b s = Some s' \<and> pool_step m s s'"
proof -
  note D = pool_invD [OF assms(1)] and O = own_object [OF assms(1) u]
  obtain cfx where cfx: "pl_cfxs s (ul_cfx u) = Some cfx" "cfx_nonce cfx = n" using D(4) [OF u] by (auto simp: unlinked_obj_def)
  obtain s' where s': "unlinked_pool_del_and_free u b s = Some s'"
    and v: "\<And>b' n'. unl s' b' n' = (if b' = b \<and> n' = n then None else unl s b' n')" "\<And>b' n'. lnk s' b' n' = lnk s b' n'"
      "pl_circs s' = pl_circs s" "pl_next_circ s' = pl_next_circ s" "pl_next_cfx s' = pl_next_cfx s" "pl_conns s' = pl_conns s"
    and X: "pl_cfxs s' = (if is_for_linked_set u then pl_cfxs s else (pl_cfxs s)(ul_cfx u := None))"
    using pool_del_view [OF cfx assms(3), of b] by blast
  have keep: "pl_cfxs s' x = pl_cfxs s x" if "x \<noteq> ul_cfx u \<or> is_for_linked_set u" for x using that X by auto
  have kl: "lnk s b' n' = Some x \<Longrightarrow> pl_cfxs s' x = pl_cfxs s x" for b' n' x using O(1) keep by metis
  have "pool_inv s'"
  proof (rule pool_invI)
    show "\<exists>cfx. pl_cfxs s' x = Some cfx \<and> cfx_nonce cfx = n' \<and> linked_ok (pl_circs s') b' x cfx" if "lnk s' b' n' = Some x" for b' n' x
      using D(1) [of n' b' x] kl [of n' b' x] that by (simp add: v)
    show "unlinked_obj (lnk s' b' n') n' w (pl_cfxs s' (ul_cfx w))" if "unl s' b' n' = Some w" for b' n' w
    proof -
      have w: "unl s b' n' = Some w" "\<not> (b' = b \<and> n' = n)" using that by (auto simp: v split: if_splits)
      then have "pl_cfxs s' (ul_cfx w) = pl_cfxs s (ul_cfx w)" using O(2) [OF _ w(1)] keep by blast
      then show ?thesis using D(4) [OF w(1)] by (simp add: v)
    qed
    show "\<exists>cfx. pl_cfxs s' x = Some cfx \<and> (c \<in> set (leg_ids cfx) \<and> lnk s' (is_origin (pl_circs s' c)) (cfx_nonce cfx) = Some x \<or>
        dying_ok s' c x cfx)" if "conflux (pl_circs s' c) = Some x" for c x
    proof -
      have c: "conflux (pl_circs s c) = Some x" using that by (simp add: v)
      then have "pl_cfxs s' x = pl_cfxs s x" using O(3) keep by metis
      moreover have "dying_ok s' c x f" if "dying_ok s c x f" for f using that by (auto simp: dying_ok_def v)
      ultimately show ?thesis using D(6) [OF c] by (auto simp: v)
    qed
    show "x < pl_next_cfx s'" if "pl_cfxs s' x = Some f" for x f using D(7) [of x] that by (auto simp: v X split: if_splits)
  qed (use D(2,3,5,8,9,10,11) in \<open>auto simp: v split: if_splits\<close>)
  moreover have "unmarked s' = unmarked s" by (simp add: unmarked_def v)
  then have "close_measure m s' \<le> close_measure m s"
    using measure_free [of "ul_cfx u" s s' m] D(7) [OF cfx(1)] X v(5) by (cases "is_for_linked_set u") (auto simp: close_measure_def)
  moreover have "pool_rel s s'" by (auto simp: pool_rel_def v X)
  moreover have "closed_legs s' \<subseteq> closed_legs s"
  proof (rule closed_legs_subset)
    show "is_leg s d" if "is_leg s' d" for d
      by (rule is_leg_subset [OF _ _ that]) (auto simp: v X split: if_splits intro: is_legI)
  qed (simp add: v)
  ultimately show ?thesis using s' by (simp add: pool_step_def)
qed

section \<open>Launching\<close>

lemma legs_nonempty: "pool_inv s \<Longrightarrow> lnk s b n = Some x \<Longrightarrow> pl_cfxs s x = Some cfx \<Longrightarrow> legs cfx \<noteq> []"
  using pool_invD(1) [of s n b x] by (auto simp: linked_ok_def)

text \<open>A recovery set for a linked set: the object allocated for it is freed again.\<close>

lemma create_for_linked:
  assumes "pool_inv s" and "unl s b n = None" and L: "lnk s b n = Some x"
  defines "u \<equiv> \<lparr>ul_is_client = b, is_for_linked_set = True, ul_cfx = x, ul_legs = []\<rparr>"
  shows "\<exists>s'. unlinked_get_or_create n b s = Some (u, s') \<and> pool_step m s s' \<and> unl s' b n = Some u"
proof -
  note D = pool_invD [OF assms(1)]
  obtain cfx where cfx: "pl_cfxs s x = Some cfx" "cfx_nonce cfx = n" using D(1) [OF L] by blast
  have lx: "legs cfx \<noteq> []" using legs_nonempty [OF assms(1) L cfx(1)] .
  let ?x = "pl_next_cfx s"
  have fresh: "pl_cfxs s ?x = None" using D(7) [of ?x] by (cases "pl_cfxs s ?x") auto
  have X: "(pl_cfxs s)(?x := None) = pl_cfxs s" using fresh by (metis fun_upd_triv)
  have ne: "x \<noteq> ?x" using cfx(1) fresh by auto
  obtain s' where s': "unlinked_get_or_create n b s = Some (u, s')"
    and v: "\<And>b' n'. unl s' b' n' = (if b' = b \<and> n' = n then Some u else unl s b' n')" "\<And>b' n'. lnk s' b' n' = lnk s b' n'"
      "pl_cfxs s' = pl_cfxs s" "pl_circs s' = pl_circs s" "pl_next_circ s' = pl_next_circ s" "pl_next_cfx s' = Suc ?x" "pl_conns s' = pl_conns s"
  proof -
    let ?t = "(upd_cfx ?x (conflux_new\<lparr>cfx_nonce := n\<rparr>) s)\<lparr>pl_next_cfx := Suc ?x\<rparr>"
    let ?f = "?t\<lparr>pl_cfxs := (pl_cfxs ?t)(?x := None), pl_total_ooo_q_bytes := fst (conflux_clear_ooo_q (pl_total_ooo_q_bytes ?t) (conflux_new\<lparr>cfx_nonce := n\<rparr>))\<rparr>"
    have "unlinked_get_or_create n b s = Some (u, unlinked_pool_set n u b ?f)"
      using assms(2) L cfx ne by (simp add: unlinked_get_or_create_def unlinked_new_def Let_def conflux_free_def unlinked_pool_add_def u_def)
    then show ?thesis by (rule that) (simp_all add: X)
  qed
  have "pool_inv s'"
  proof (rule inv_unl_upd [OF assms(1) v(1,2,3,5)])
    show "unlinked_obj (lnk s b n) n u (pl_cfxs s (ul_cfx u))" using L cfx by (simp add: unlinked_obj_def u_def)
    show "ul_cfx w \<noteq> ul_cfx u" if w: "unl s (\<not> b) n = Some w" for w
    proof
      assume e: "ul_cfx w = ul_cfx u"
      then have "is_for_linked_set w" using D(4) [OF w] cfx lx by (auto simp: unlinked_obj_def u_def split: if_splits)
      then have "lnk s (\<not> b) n = Some x" using D(4) [OF w] e by (auto simp: unlinked_obj_def u_def)
      then show False using D(1) [OF L] D(1) [of n "\<not> b" x] by (auto simp: linked_ok_def leg_circ_ok_def leg_ids_def neq_Nil_conv)
    qed
    show "y \<noteq> ul_cfx u \<and> \<not> (is_origin (pl_circs s d) = b \<and> cfx_nonce f = n)" if "pl_cfxs s y = Some f" "dying_ok s d y f" for d y f
      using dying_key(2) [OF that(2) L] that lx cfx(1) by (auto simp: u_def dying_ok_def)
  qed (use v D(9,11) in \<open>auto simp: u_def unlinked_ok_def\<close>)
  moreover have "close_measure m s' = close_measure m s" by (simp add: close_measure_def unmarked_def v fresh set_weight_def)
  moreover have "pool_rel s s'" by (auto simp: pool_rel_def v)
  moreover have "closed_legs s' \<subseteq> closed_legs s"
  proof (rule closed_legs_subset)
    show "is_leg s d" if "is_leg s' d" for d
      by (rule is_leg_subset [OF _ _ that]) (auto simp: v u_def split: if_splits intro: is_legI)
  qed (simp add: v)
  ultimately show ?thesis using s' v(1) by (auto simp: pool_step_def)
qed

lemma step_get_or_create:
  assumes "pool_inv s" and "unl s b n \<noteq> None \<or> lnk s b n \<noteq> None"
  shows "\<exists>u s'. unlinked_get_or_create n b s = Some (u, s') \<and> pool_step m s s' \<and> unl s' b n = Some u"
proof (cases "unl s b n")
  case None
  then show ?thesis using create_for_linked [OF assms(1) None, of _ m] assms(2) by blast
next
  case (Some u)
  then show ?thesis using pool_step_refl [OF assms(1)] by (simp add: unlinked_get_or_create_def)
qed

lemma exit_found:
  assumes "pool_inv s"
  shows "get_exit_for_nonce n s \<noteq> None"
proof (cases "lnk s True n")
  case (Some x)
  then obtain cfx where c: "pl_cfxs s x = Some cfx" "linked_ok (pl_circs s) True x cfx" using pool_invD(1) [OF assms] by blast
  then obtain l ls where l: "legs cfx = l # ls" by (auto simp: linked_ok_def neq_Nil_conv)
  then have "exit_of_circ (pl_circs s (leg_circ l)) \<noteq> None" using c(2) by (auto simp: linked_ok_def leg_ids_def leg_circ_ok_def)
  then show ?thesis using Some c(1) l by (auto simp: get_exit_for_nonce_def smartlist_get_def)
next
  case None
  show ?thesis
  proof (cases "unl s True n")
    case (Some u)
    show ?thesis
    proof (cases "ul_legs u")
      case (Cons l ls)
      then obtain c where "lg_circ l = Some c" "exit_of_circ (pl_circs s c) \<noteq> None"
        using pool_invD(3) [OF assms Some] by (auto simp: unlinked_ok_def leg_circ_ok_def)
      then show ?thesis using None Some Cons by (auto simp: get_exit_for_nonce_def smartlist_get_def)
    qed (use None Some in \<open>simp add: get_exit_for_nonce_def\<close>)
  qed (use None in \<open>simp add: get_exit_for_nonce_def\<close>)
qed

text \<open>A circuit that was built is a new leg of the set.\<close>

lemma inv_add_leg:
  assumes "pool_inv s" and u: "unl s b n = Some u" and k: "conflux_pending_nonce (pl_circs s c) = Some n"
    "conflux (pl_circs s c) = None" "leg_circ_ok b (pl_circs s c)" and "Some c \<notin> lg_circ ` set (ul_legs u)" and "lg_circ l = Some c"
    and "link_nonce (lg_link l) = n" "\<not> lg_linked l"
  shows "pool_inv (unlinked_pool_set n (u\<lparr>ul_legs := smartlist_add (ul_legs u) l\<rparr>) b s)"
proof (rule inv_unl_upd [OF assms(1), of _ b n "u\<lparr>ul_legs := smartlist_add (ul_legs u) l\<rparr>"])
  note D = pool_invD [OF assms(1)]
  show "unlinked_ok (pl_circs (unlinked_pool_set n (u\<lparr>ul_legs := smartlist_add (ul_legs u) l\<rparr>) b s)) b n
      (ul_legs (u\<lparr>ul_legs := smartlist_add (ul_legs u) l\<rparr>))"
    using D(3) [OF u] k assms(6-) by (auto simp: unlinked_ok_def smartlist_add_def)
qed (use pool_invD(2,4) [OF assms(1) u] pool_invD(9,11) [OF assms(1)] unl_upd_same_obj [OF assms(1) u] in \<open>auto simp: unlinked_obj_def\<close>)

section \<open>What the pool relies on\<close>

text \<open>A path that was built has an exit.\<close>

definition builds_paths :: "pool_env \<Rightarrow> bool" where
  "builds_paths e = (\<forall>c exit path. pe_build e c exit = Built path \<longrightarrow> path \<noteq> [] \<and> cp_extend_info (last path) \<noteq> None)"

text \<open>
  Padding machines that manage the life of a circuit and the path bias code only keep circuits open
  that have nothing to do with conflux, as client circuits with the purpose of a client circuit.
\<close>

definition delays_others :: "pool_env \<Rightarrow> bool" where
  "delays_others e = (\<forall>k r p. pe_close_delayed e k r = Some p \<longrightarrow> \<not> CIRCUIT_IS_CONFLUX k \<and> is_origin k = CIRCUIT_PURPOSE_IS_ORIGIN p)"

text \<open>The client circuits of the set with a nonce, linked or not.\<close>

definition same_set :: "pool_t \<Rightarrow> nonce \<Rightarrow> circ_id \<Rightarrow> bool" where
  "same_set s n d = (is_origin (pl_circs s d) \<and> (conflux_pending_nonce (pl_circs s d) = Some n \<or>
     (\<exists>x f. conflux (pl_circs s d) = Some x \<and> pl_cfxs s x = Some f \<and> cfx_nonce f = n)))"

text \<open>
  When the out-of-memory handler runs while the CREATE cell of a new leg is queued, it closes that
  very circuit or leaves the other circuits of its set alone.
\<close>

definition oom_spares_set :: "pool_env \<Rightarrow> bool" where
  "oom_spares_set e = (\<forall>s c n circlist. conflux_pending_nonce (pl_circs s c) = Some n \<and> \<not> is_leg s c \<and>
     pe_memory e c (pl_circs s) = Some circlist \<longrightarrow> c \<in> set circlist \<or> (\<forall>d \<in> set circlist. \<not> same_set s n d))"

definition env_ok :: "pool_env \<Rightarrow> bool" where
  "env_ok e = (builds_paths e \<and> delays_others e \<and> oom_spares_set e)"

lemma env_okD:
  assumes "env_ok e"
  shows "pe_build e c exit = Built path \<Longrightarrow> path \<noteq> [] \<and> cp_extend_info (last path) \<noteq> None"
    and "CIRCUIT_IS_CONFLUX k \<Longrightarrow> pe_close_delayed e k r = None"
    and "pe_close_delayed e k r = Some p \<Longrightarrow> is_origin k = CIRCUIT_PURPOSE_IS_ORIGIN p"
    and "conflux_pending_nonce (pl_circs s c) = Some n \<Longrightarrow> \<not> is_leg s c \<Longrightarrow> pe_memory e c (pl_circs s) = Some circlist \<Longrightarrow>
         c \<notin> set circlist \<Longrightarrow> d \<in> set circlist \<Longrightarrow> \<not> same_set s n d"
  using assms unfolding env_ok_def builds_paths_def delays_others_def oom_spares_set_def by (blast, fastforce, blast, metis)

section \<open>Marking\<close>

text \<open>What a close leaves alone of another client set, when memory is short so that no leg is launched.\<close>

definition kept :: "nonce \<Rightarrow> pool_t \<Rightarrow> pool_t \<Rightarrow> bool" where
  "kept n s s' = (pl_mem_pressure s' \<and> unl s' True n = unl s True n \<and> pl_next_circ s' = pl_next_circ s)"

lemma kept_refl: "pl_mem_pressure s \<Longrightarrow> kept n s s" and kept_trans: "kept n s s' \<Longrightarrow> kept n s' s'' \<Longrightarrow> kept n s s''"
  and keptD: "kept n s s' \<Longrightarrow> pl_mem_pressure s'" "kept n s s' \<Longrightarrow> unl s' True n = unl s True n"
  by (simp_all add: kept_def)

text \<open>A marking function that returns and keeps the pools consistent, below a bound.\<close>

definition marks_below :: "nat \<Rightarrow> nat \<Rightarrow> marker \<Rightarrow> bool" where
  "marks_below m k mark = (\<forall>r c s. pool_inv s \<and> close_measure m s < k \<longrightarrow> (\<exists>s'. mark r c s = Some s' \<and> pool_step m s s' \<and>
     (c < pl_next_circ s \<and> CIRCUIT_IS_CONFLUX (pl_circs s c) \<longrightarrow> marked_for_close (pl_circs s' c) \<noteq> 0) \<and>
     (\<forall>n. pl_mem_pressure s \<and> \<not> same_set s n c \<longrightarrow> kept n s s')))"

lemma marks_belowE:
  assumes "marks_below m k mark" "pool_inv s" "close_measure m s < k"
  obtains s' where "mark r c s = Some s'" "pool_step m s s'"
    "c < pl_next_circ s \<Longrightarrow> CIRCUIT_IS_CONFLUX (pl_circs s c) \<Longrightarrow> marked_for_close (pl_circs s' c) \<noteq> 0"
    "\<And>n. pl_mem_pressure s \<Longrightarrow> \<not> same_set s n c \<Longrightarrow> kept n s s'"
  using assms unfolding marks_below_def by blast

lemma pool_step_le: "pool_step m s s' \<Longrightarrow> close_measure m s' \<le> close_measure m s" by (simp add: pool_step_def)

lemma step_marked: "pool_step m s s' \<Longrightarrow> c < pl_next_circ s \<Longrightarrow> marked_for_close (pl_circs s c) \<noteq> 0 \<Longrightarrow> marked_for_close (pl_circs s' c) \<noteq> 0"
  by (simp add: pool_step_def pool_rel_def)

text \<open>No circuit joins a set while memory is short.\<close>

lemma same_set_step:
  assumes inv: "pool_inv s" and st: "pool_step m s s'" and nx: "pl_next_circ s' = pl_next_circ s" and h: "same_set s' n d"
  shows "same_set s n d"
proof -
  note D = pool_invD [OF inv]
  have R: "pool_rel s s'" and inv': "pool_inv s'" using st by (simp_all add: pool_step_def)
  have lt: "d < pl_next_circ s"
    using h pool_invD(8,9) [OF inv', of d] nx by (cases "d < pl_next_circ s") (auto simp: same_set_def)
  then have o: "is_origin (pl_circs s d)" using R h by (simp add: pool_rel_def same_set_def)
  from h consider "conflux_pending_nonce (pl_circs s' d) = Some n" | x f' where "conflux (pl_circs s' d) = Some x" "pl_cfxs s' x = Some f'" "cfx_nonce f' = n"
    by (auto simp: same_set_def)
  then show ?thesis
  proof cases
    case 1
    then have "conflux_pending_nonce (pl_circs s d) = Some n" using R lt by (auto simp: pool_rel_def)
    then show ?thesis using o by (simp add: same_set_def)
  next
    case 2
    have x: "conflux (pl_circs s d) = Some x" using R 2(1) by (auto simp: pool_rel_def) (metis option.distinct(1))
    then have "x < pl_next_cfx s" using D(6) D(7) by blast
    then obtain f where "pl_cfxs s x = Some f" "cfx_nonce f' = cfx_nonce f" using R 2(2) unfolding pool_rel_def by blast
    then show ?thesis using x o 2(3) by (auto simp: same_set_def)
  qed
qed

lemma mark_list_ok:
  assumes "marks_below m k mark"
  shows "pool_inv s \<Longrightarrow> close_measure m s < k \<Longrightarrow> \<exists>s'. mark_list mark P r cs s = Some s' \<and> pool_step m s s' \<and>
    (\<forall>n. pl_mem_pressure s \<and> (\<forall>c \<in> set cs. \<not> same_set s n c) \<longrightarrow> kept n s s')"
proof (induction cs arbitrary: s)
  case Nil
  then show ?case by (simp add: pool_step_refl kept_refl)
next
  case (Cons c cs)
  obtain s1 where s1: "(if P (pl_circs s c) then mark r c s else Some s) = Some s1" "pool_step m s s1"
      "\<And>n. pl_mem_pressure s \<Longrightarrow> \<not> same_set s n c \<Longrightarrow> kept n s s1"
  proof (cases "P (pl_circs s c)")
    case True
    then show thesis using marks_belowE [OF assms Cons.prems, of r c] that by metis
  next
    case False
    then show thesis using that [of s] pool_step_refl [OF Cons.prems(1)] by (simp add: kept_refl)
  qed
  obtain s2 where s2: "mark_list mark P r cs s1 = Some s2" "pool_step m s1 s2"
      "\<And>n. pl_mem_pressure s1 \<Longrightarrow> \<forall>c \<in> set cs. \<not> same_set s1 n c \<Longrightarrow> kept n s1 s2"
    using Cons.IH [OF pool_step_inv [OF s1(2)]] pool_step_le [OF s1(2)] Cons.prems(2) by fastforce
  have "kept n s s2" if "pl_mem_pressure s" "\<forall>c \<in> set (c # cs). \<not> same_set s n c" for n
  proof -
    have k1: "kept n s s1" using s1(3) that by simp
    moreover have "\<forall>c \<in> set cs. \<not> same_set s1 n c" using same_set_step [OF Cons.prems(1) s1(2)] that(2) k1 by (auto simp: kept_def)
    ultimately show ?thesis using s2(3) keptD(1) [OF k1] kept_trans by blast
  qed
  then show ?case using s1(1) s2(1) pool_step_trans [OF s1(2) s2(2)] by auto
qed

text \<open>A circuit on the list of the out-of-memory handler is closed afterwards, or is no conflux circuit any more.\<close>

lemma mark_list_drops:
  assumes "marks_below m k mark"
  shows "pool_inv s \<Longrightarrow> close_measure m s < k \<Longrightarrow> c \<in> set cs \<Longrightarrow> c < pl_next_circ s \<Longrightarrow>
    mark_list mark (\<lambda>k. marked_for_close k = 0) r cs s = Some s' \<Longrightarrow>
    marked_for_close (pl_circs s' c) \<noteq> 0 \<or> conflux_pending_nonce (pl_circs s' c) = None"
proof (induction cs arbitrary: s)
  case (Cons d cs)
  let ?P = "\<lambda>k. marked_for_close k = 0"
  let ?go = "\<lambda>s1. (if ?P (pl_circs s d) then mark r d s else Some s) = Some s1"
  obtain s1 where s1: "?go s1" "pool_step m s s1" "d < pl_next_circ s \<Longrightarrow> CIRCUIT_IS_CONFLUX (pl_circs s d) \<Longrightarrow> marked_for_close (pl_circs s1 d) \<noteq> 0"
  proof (cases "?P (pl_circs s d)")
    case True
    then show thesis using marks_belowE [OF assms Cons.prems(1,2), of r d] that by metis
  next
    case False
    then show thesis using that [of s] pool_step_refl [OF Cons.prems(1)] by simp
  qed
  have s2: "mark_list mark ?P r cs s1 = Some s'" using Cons.prems(5) s1(1) by (cases "?P (pl_circs s d)") auto
  have n1: "pl_next_circ s \<le> pl_next_circ s1" using s1(2) by (simp add: pool_step_def pool_rel_def)
  have inv1: "pool_inv s1" and k1: "close_measure m s1 < k" using s1(2) pool_step_le [OF s1(2)] Cons.prems(2) by (auto simp: pool_step_def)
  show ?case
  proof (cases "c \<in> set cs")
    case True
    then show ?thesis using Cons.IH [OF inv1 k1 True _ s2] Cons.prems(4) n1 by simp
  next
    case False
    then have "d = c" using Cons.prems(3) by simp
    then have c1: "marked_for_close (pl_circs s1 c) \<noteq> 0 \<or> conflux_pending_nonce (pl_circs s1 c) = None"
      using s1(2,3) Cons.prems(4) by (cases "conflux_pending_nonce (pl_circs s c)") (auto simp: CIRCUIT_IS_CONFLUX_def pool_step_def pool_rel_def)
    have "pool_rel s1 s'" using mark_list_ok [OF assms inv1 k1, of ?P r cs] s2 by (auto simp: pool_step_def)
    moreover have "c < pl_next_circ s1" using Cons.prems(4) n1 by simp
    ultimately show ?thesis using c1 unfolding pool_rel_def by metis
  qed
qed simp

section \<open>Launching a leg\<close>

lemma step_cfx_upd_measure:
  assumes "pool_inv s" and "pl_cfxs s x = Some f"
  shows "close_measure m (upd_cfx x f' s) + set_weight m (Some f) = close_measure m s + set_weight m (Some f')"
  using sum_upd [of x "pl_next_cfx s" "set_weight m" "pl_cfxs s" "Some f'"] pool_invD(7) [OF assms] assms(2)
  by (simp add: close_measure_def unmarked_def)

text \<open>An allowed launch uses up two units of the measure.\<close>

lemma step_count_launch:
  assumes "pool_inv s" and f: "pl_cfxs s x = Some f" and a: "launch_leg_is_allowed (pe_params e) (Some f)"
  defines "s' \<equiv> upd_cfx x (f\<lparr>num_leg_launch := num_leg_launch f + 1\<rparr>) s"
  shows "pool_step (max_launch e) s s'" and "close_measure (max_launch e) s' + 2 \<le> close_measure (max_launch e) s"
proof -
  let ?p = "pe_params e"
  let ?m = "ucast (conflux_params_get_num_legs_set ?p) + ucast (conflux_params_get_max_unlinked_leg_retry ?p) :: u32"
  have "unat ?m = max_launch e"
    using unat_u8_less [of "conflux_params_get_num_legs_set ?p"] unat_u8_less [of "conflux_params_get_max_unlinked_leg_retry ?p"]
    by (subst unat_add_nowrap) (simp_all add: max_launch_def unat_ucast_up)
  then have lt: "unat (num_leg_launch f) < max_launch e" using a by (simp add: launch_leg_is_allowed_def Let_def word_less_nat_alt not_le)
  have "max_launch e < 1000"
    using unat_u8_less [of "conflux_params_get_num_legs_set ?p"] unat_u8_less [of "conflux_params_get_max_unlinked_leg_retry ?p"]
    by (simp add: max_launch_def)
  then have u: "unat (num_leg_launch f + 1) = Suc (unat (num_leg_launch f))" using lt by (intro unat_Suc_nowrap) simp
  show "pool_step (max_launch e) s s'"
    unfolding s'_def using f by (intro step_cfx_frame [OF assms(1)]) (auto simp: same_cfx_def word_le_nat_alt u)
  show "close_measure (max_launch e) s' + 2 \<le> close_measure (max_launch e) s"
    using step_cfx_upd_measure [OF assms(1) f, of "max_launch e" "f\<lparr>num_leg_launch := num_leg_launch f + 1\<rparr>"] lt
    by (simp add: s'_def set_weight_def u)
qed

lemma new_circ_upd: "upd_circ c f ((upd_circ c (\<lambda>_. k) s)\<lparr>pl_next_circ := n\<rparr>) = (upd_circ c (\<lambda>_. f k) s)\<lparr>pl_next_circ := n\<rparr>"
  by (simp add: upd_circ_def)

abbreviation "fresh_circ s k \<equiv> (upd_circ (pl_next_circ s) (\<lambda>_. k) s)\<lparr>pl_next_circ := Suc (pl_next_circ s)\<rparr>"

lemma mem_pressure_step: "pool_inv s \<Longrightarrow> pool_step m s (s\<lparr>pl_mem_pressure := b\<rparr>)"
  using streams_inv by (intro pool_step_frame) (auto simp: same_circ_def same_cfx_def option.rel_refl)

text \<open>Checking the memory after the CREATE cell of a new circuit was queued.\<close>

lemma check_size_ok:
  assumes inv: "pool_inv s" and m: "marks_below m k mark" and k: "close_measure m s < k" and e: "env_ok e"
    and n: "conflux_pending_nonce (pl_circs s c) = Some n" and l: "\<not> is_leg s c" and c: "c < pl_next_circ s"
  shows "\<exists>s'. cell_queues_check_size_with mark e c s = Some s' \<and> pool_step m s s' \<and>
    (marked_for_close (pl_circs s' c) \<noteq> 0 \<or> conflux_pending_nonce (pl_circs s' c) = None \<or> unl s' True n = unl s True n)"
proof (cases "pe_memory e c (pl_circs s)")
  case None
  then show ?thesis using pool_step_refl [OF inv] by (simp add: cell_queues_check_size_with_def)
next
  case (Some circlist)
  let ?s = "s\<lparr>pl_mem_pressure := True\<rparr>" and ?P = "\<lambda>k. marked_for_close k = 0"
  have st: "pool_step m s ?s" by (rule mem_pressure_step [OF inv])
  have k': "close_measure m ?s < k" using pool_step_le [OF st] k by simp
  obtain s' where s': "mark_list mark ?P END_CIRC_REASON_RESOURCELIMIT circlist ?s = Some s'" "pool_step m ?s s'"
      "\<And>n. \<forall>c \<in> set circlist. \<not> same_set ?s n c \<Longrightarrow> kept n ?s s'"
    using mark_list_ok [OF m pool_step_inv [OF st] k'] by fastforce
  have "marked_for_close (pl_circs s' c) \<noteq> 0 \<or> conflux_pending_nonce (pl_circs s' c) = None \<or> unl s' True n = unl s True n"
  proof (cases "c \<in> set circlist")
    case True
    then show ?thesis using mark_list_drops [OF m pool_step_inv [OF st] k' True _ s'(1)] c by simp
  next
    case False
    then have "\<forall>d \<in> set circlist. \<not> same_set ?s n d" using env_okD(4) [OF e n l Some] by (simp add: same_set_def)
    then show ?thesis using keptD(2) [OF s'(3)] by simp
  qed
  then show ?thesis using Some s'(1) pool_step_trans [OF st s'(2)] by (simp add: cell_queues_check_size_with_def)
qed

text \<open>The circuit that is built, or the failed one, on which the marking function was called.\<close>

lemma establish_ok:
  assumes "pool_inv s" and m: "marks_below m k mark" and "Suc (close_measure m s) < k" and b: "env_ok e"
  obtains (failed) s' kc where "circuit_establish_circuit_conflux_with mark e n exit s = Some (None, s')" "conflux kc = None" "purpose_ok kc"
      "pool_step m (fresh_circ s kc) s'"
  | (built) s' kc where "circuit_establish_circuit_conflux_with mark e n exit s = Some (Some (pl_next_circ s), s')"
      "conflux kc = None" "purpose_ok kc" "conflux_pending_nonce kc = Some n" "leg_circ_ok True kc" "pool_step m (fresh_circ s kc) s'"
      "marked_for_close (pl_circs s' (pl_next_circ s)) = 0"
      "conflux_pending_nonce (pl_circs s' (pl_next_circ s)) = None \<or> unl s' True n = unl s True n"
proof -
  let ?c = "pl_next_circ s"
  define kc where "kc = (origin_circuit_init CIRCUIT_PURPOSE_CONFLUX_UNLINKED (pe_new_circ e ?c))\<lparr>conflux_pending_nonce := Some n\<rparr>"
  have kc: "conflux (kc\<lparr>cpath := path\<rparr>) = None" "conflux_pending_nonce (kc\<lparr>cpath := path\<rparr>) = Some n" "is_origin (kc\<lparr>cpath := path\<rparr>)"
    "purpose_ok (kc\<lparr>cpath := path\<rparr>)" for path by (simp_all add: kc_def origin_circuit_init_def purpose_ok_def)
  have kc0: "kc = kc\<lparr>cpath := []\<rparr>" by (simp add: kc_def origin_circuit_init_def)
  have inv: "pool_inv (fresh_circ s (kc\<lparr>cpath := path\<rparr>))" and km: "close_measure m (fresh_circ s (kc\<lparr>cpath := path\<rparr>)) < k" for path
    using inv_new_circ [OF assms(1) kc(1,4)] measure_new_circ [of m s "kc\<lparr>cpath := path\<rparr>"] assms(3) by (simp, linarith)
  have call: "\<exists>s'. mark r ?c (fresh_circ s (kc\<lparr>cpath := path\<rparr>)) = Some s' \<and> pool_step m (fresh_circ s (kc\<lparr>cpath := path\<rparr>)) s'" for r path
    by (rule marks_belowE [OF m inv km]) blast
  note E = circuit_establish_circuit_conflux_with_def Let_def kc_def [symmetric] new_circ_upd
  show thesis
  proof (cases "pe_build e ?c exit")
    case No_path
    obtain s' where "mark END_CIRC_REASON_NOPATH ?c (fresh_circ s kc) = Some s'" "pool_step m (fresh_circ s kc) s'"
      using call [of END_CIRC_REASON_NOPATH "[]"] by (subst (asm) (1 2) kc0 [symmetric]) blast
    then show thesis using failed [of s' kc] No_path kc(1,4) [of "[]"] by (simp add: E kc0 [symmetric])
  next
    case (First_hop_failed path r)
    obtain s' where "mark r ?c (fresh_circ s (kc\<lparr>cpath := path\<rparr>)) = Some s'" "pool_step m (fresh_circ s (kc\<lparr>cpath := path\<rparr>)) s'"
      using call by blast
    then show thesis using failed [of s' "kc\<lparr>cpath := path\<rparr>"] First_hop_failed kc(1,4) [of path] by (simp add: E)
  next
    case (Built path)
    let ?k = "kc\<lparr>cpath := path\<rparr>"
    have "leg_circ_ok True ?k" using env_okD(1) [OF b Built] kc(3) by (auto simp: leg_circ_ok_def exit_of_circ_def cpath_last_def)
    moreover have "\<not> is_leg (fresh_circ s ?k) ?c" using new_circ_not_leg [OF assms(1)] by (auto simp: is_leg_def)
    then obtain s' where s': "cell_queues_check_size_with mark e ?c (fresh_circ s ?k) = Some s'" "pool_step m (fresh_circ s ?k) s'"
        "marked_for_close (pl_circs s' ?c) \<noteq> 0 \<or> conflux_pending_nonce (pl_circs s' ?c) = None \<or> unl s' True n = unl s True n"
      using check_size_ok [OF inv [of path] m km b, of ?c n] kc(2) [of path] by auto
    moreover have "circuit_establish_circuit_conflux_with mark e n exit s = Some (if marked_for_close (pl_circs s' ?c) \<noteq> 0 then None else Some ?c, s')"
      using Built s'(1) by (simp add: E)
    ultimately show thesis using failed [of s' ?k] built [of s' ?k] kc(1,2,4) [of path] by (cases "marked_for_close (pl_circs s' ?c) = 0") auto
  qed
qed

lemma step_unl_only:
  assumes "pool_inv (unlinked_pool_set n u b s)"
    and "\<And>l d. l \<in> set (ul_legs u) \<Longrightarrow> lg_circ l = Some d \<Longrightarrow> is_leg s d \<or> marked_for_close (pl_circs s d) = 0"
  shows "pool_step m s (unlinked_pool_set n u b s)"
proof -
  have "closed_legs (unlinked_pool_set n u b s) \<subseteq> closed_legs s"
  proof
    fix d
    assume "d \<in> closed_legs (unlinked_pool_set n u b s)"
    then have d: "marked_for_close (pl_circs s d) \<noteq> 0" "is_leg (unlinked_pool_set n u b s) d" by (auto simp: closed_legs_def)
    then have "is_leg s d" using assms(2) [of _ d] unfolding is_leg_def [of "unlinked_pool_set n u b s"]
      by (auto split: if_splits intro: is_legI)
    then show "d \<in> closed_legs s" using d(1) by (simp add: closed_legs_def)
  qed
  then show ?thesis using assms(1) by (auto simp: pool_step_def close_measure_def unmarked_def pool_rel_def)
qed

lemma launch_ok:
  assumes inv: "pool_inv s" and m: "marks_below (max_launch e) k mark" and k: "close_measure (max_launch e) s < k"
    and b: "env_ok e" and n: "unl s True n \<noteq> None \<or> lnk s True n \<noteq> None"
  shows "\<exists>r s'. conflux_launch_leg_with mark e n s = Some (r, s') \<and> pool_step (max_launch e) s s'"
proof -
  let ?m = "max_launch e"
  obtain u s1 where g: "unlinked_get_or_create n True s = Some (u, s1)" "pool_step ?m s s1" "unl s1 True n = Some u"
    using step_get_or_create [OF inv n, of ?m] by blast
  note inv1 = pool_step_inv [OF g(2)]
  obtain f where f: "pl_cfxs s1 (ul_cfx u) = Some f" using pool_invD(4) [OF inv1 g(3)] by (auto simp: unlinked_obj_def)
  show ?thesis
  proof (cases "launch_leg_is_allowed (pe_params e) (Some f)")
    case False
    then have "conflux_launch_leg_with mark e n s = Some (False, s1)" using g f by (simp add: conflux_launch_leg_with_def)
    then show ?thesis using g(2) by blast
  next
    case True
    obtain exit where exit: "get_exit_for_nonce n s1 = Some exit" using exit_found [OF inv1, of n] by blast
    define s2 where "s2 = upd_cfx (ul_cfx u) (f\<lparr>num_leg_launch := num_leg_launch f + 1\<rparr>) s1"
    note c = step_count_launch [OF inv1 f True, folded s2_def]
    note inv2 = pool_step_inv [OF c(1)]
    have u2: "unl s2 True n = Some u" using g(3) by (simp add: s2_def)
    have ms: "close_measure ?m s2 + 2 \<le> close_measure ?m s" using c(2) g(2) by (simp add: pool_step_def)
    then have k2: "Suc (close_measure ?m s2) < k" using k by simp
    have to2: "pool_step ?m s s2" using g(2) c(1) by (rule pool_step_trans)
    have to3: "pool_step ?m s (fresh_circ s2 kc)" if "conflux kc = None" "purpose_ok kc" for kc
      using inv_new_circ [OF inv2 that] measure_new_circ [of ?m s2 kc] ms to2 rel_new_circ [of kc s2] legs_new_circ [OF inv2, of kc] that
      by (auto simp: pool_step_def intro: pool_rel_trans)
    note L = conflux_launch_leg_with_def Let_def s2_def [symmetric]
    show ?thesis
    proof (rule establish_ok [OF inv2 m k2 b, of n exit], goal_cases failed built)
      case (failed s' kc)
      then have "conflux_launch_leg_with mark e n s = Some (False, s')" using g(1) f True exit by (simp add: L)
      then show ?thesis using pool_step_trans [OF to3 [OF failed(2,3)] failed(4)] by blast
    next
      case (built s' kc)
      let ?c = "pl_next_circ s2"
      have st: "pool_step ?m s s'" using pool_step_trans [OF to3 [OF built(2,3)] built(6)] .
      note inv3 = pool_step_inv [OF built(6)]
      show ?thesis
      proof (cases "conflux_pending_nonce (pl_circs s' ?c) = None")
        case True
        then have "conflux_launch_leg_with mark e n s = Some (False, s')" using g(1) f \<open>launch_leg_is_allowed _ _\<close> exit built(1,7) by (simp add: L)
        then show ?thesis using st by blast
      next
        case pend: False
        then have u3: "unl s' True n = Some u" using built(8) u2 by auto
        have k3: "conflux_pending_nonce (pl_circs s' ?c) = Some n" "conflux (pl_circs s' ?c) = None" "leg_circ_ok True (pl_circs s' ?c)"
        proof -
          have R: "pool_rel (fresh_circ s2 kc) s'" using built(6) by (simp add: pool_step_def)
          show "conflux_pending_nonce (pl_circs s' ?c) = Some n" using R pend built(4) by (auto simp: pool_rel_def)
          show "conflux (pl_circs s' ?c) = None" using pool_invD(11) [OF inv3, of ?c] pend by (auto simp: purpose_ok_def)
          have "is_origin (pl_circs s' ?c) = is_origin kc" "cpath (pl_circs s' ?c) = cpath kc" using R by (simp_all add: pool_rel_def)
          then show "leg_circ_ok True (pl_circs s' ?c)" using built(5) by (auto simp: leg_circ_ok_def exit_of_circ_def cpath_last_def split: if_splits)
        qed
        obtain f3 where f3: "pl_cfxs s' (ul_cfx u) = Some f3" using pool_invD(4) [OF inv3 u3] by (auto simp: unlinked_obj_def)
        let ?l = "leg_new ?c (conflux_cell_new_link n (conflux_get_max_seq_sent f3) (last_seq_delivered f3) (pe_client_ux e))"
        let ?s4 = "unlinked_pool_set n (u\<lparr>ul_legs := smartlist_add (ul_legs u) ?l\<rparr>) True s'"
        have "Some ?c \<notin> lg_circ ` set (ul_legs u)" using new_circ_not_leg(2) [OF inv2 u2] by (metis imageE)
        then have "pool_inv ?s4" using u3 k3 by (intro inv_add_leg [OF inv3]) (auto simp: leg_new_def conflux_cell_new_link_def)
        moreover have "conflux_launch_leg_with mark e n s = Some (True, ?s4)"
          using g(1) f \<open>launch_leg_is_allowed _ _\<close> exit built(1,7) u3 f3 k3(1) by (simp add: L)
        moreover have "is_leg s' d \<or> marked_for_close (pl_circs s' d) = 0"
          if "l \<in> set (ul_legs (u\<lparr>ul_legs := smartlist_add (ul_legs u) ?l\<rparr>))" "lg_circ l = Some d" for l d
          using that built(7) u3 is_legI(2) [of n True s' u l d] by (auto simp: smartlist_add_def leg_new_def)
        ultimately show ?thesis using pool_step_trans [OF st step_unl_only] by blast
      qed
    qed
  qed
qed

end
