(* ===== verification/ConfluxTeardown.thy ===== *)
theory ConfluxTeardown
  imports ConfluxPoolInv
begin

text \<open>
  Legs of linked sets that close, and the theorem on closing: whatever is torn down, launched or
  rebuilt on the way, marking a circuit for close returns, without a failing assertion or an access
  to freed memory, and leaves the pools consistent.
\<close>

section \<open>A leg leaves its set\<close>

lemma lnk_key:
  assumes "pool_inv s" "lnk s b n = Some x" "lnk s b' n' = Some x"
  shows "b' = b" "n' = n"
  using pool_invD(1) [OF assms(1,2)] pool_invD(1) [OF assms(1,3)]
  by (auto simp: linked_ok_def leg_circ_ok_def leg_ids_def neq_Nil_conv)

text \<open>An unlinked set that refers to the object of a linked set is the recovery set of that linked set.\<close>

lemma unl_of_linked:
  assumes inv: "pool_inv s" and L: "lnk s b n = Some x" and u: "unl s b' n' = Some u" and e: "ul_cfx u = x"
  shows "b' = b \<and> n' = n \<and> is_for_linked_set u"
proof -
  have f: "is_for_linked_set u" using own_object(1) [OF inv u] L e by blast
  then have "lnk s b' n' = Some x" using pool_invD(4) [OF inv u] e by (simp add: unlinked_obj_def) blast
  then show ?thesis using lnk_key [OF inv L] f by blast
qed

lemma cfx_del_leg_spec:
  assumes "c \<in> set (leg_ids f)" and "cc_ready k" and "distinct (leg_ids f)"
  shows "\<exists>f' ft. cfx_del_leg f c k = Some (f', ft) \<and> cfx_nonce f' = cfx_nonce f \<and> distinct (leg_ids f') \<and>
    set (leg_ids f') = set (leg_ids f) - {c} \<and> set_weight m (Some f') \<le> set_weight m (Some f)"
proof -
  obtain l where l: "find (\<lambda>l. leg_circ l = c) (legs f) = Some l"
    using assms(1) find_None_notin [of "\<lambda>l. leg_circ l = c" "legs f"] by (cases "find (\<lambda>l. leg_circ l = c) (legs f)") (auto simp: leg_ids_def)
  have lc: "leg_circ l = c" using find_Some_iff [OF l] by simp
  note P = del_first_props [OF l]
  let ?ls = "del_first (\<lambda>l. leg_circ l = c) (legs f)"
  have ids: "distinct (map leg_circ ?ls)" "leg_circ ` set ?ls = set (leg_ids f) - {c}"
    using P(3) [of leg_circ] P(4) assms(3) lc by (auto simp: leg_ids_def)
  obtain cc where cc: "circuit_ccontrol k = Some cc" "sendme_inc cc \<noteq> 0" using assms(2) by (auto simp: cc_ready_def split: option.splits)
  have w: "m - unat (num_leg_launch f - 1) \<le> Suc (m - unat (num_leg_launch f))" if "num_leg_launch f > 0"
    using that by (simp add: unat_sub_nowrap word_less_nat_alt)
  show ?thesis
    using l cc ids P(2) w by (auto simp: cfx_del_leg_def conflux_get_leg_def Let_def leg_ids_def set_weight_def)
qed

lemma stream_list_cong:
  "stream_list conns p = Some ps \<Longrightarrow> (\<And>p. next_stream (conns' p) = next_stream (conns p)) \<Longrightarrow> stream_list conns' p = Some ps"
proof (induction ps arbitrary: p)
  case Nil
  then show ?case by (subst (asm) stream_list.simps, subst stream_list.simps) (auto simp: bind_eq_Some_iff split: if_splits)
next
  case (Cons q qs)
  have p: "p \<noteq> 0" "q = p" "stream_list conns (next_stream (conns p)) = Some qs"
    using Cons.prems(1) by (subst (asm) stream_list.simps, auto simp: bind_eq_Some_iff split: if_splits)+
  then show ?case using Cons.IH [OF p(3) Cons.prems(2)] Cons.prems(2) by (subst stream_list.simps) simp
qed

lemma set_backpointers_next [simp]: "next_stream (set_backpointers c layer ps conns p) = next_stream (conns p)"
  unfolding set_backpointers_def by (induction ps arbitrary: conns) auto

lemma backpointers_ok:
  assumes D: "\<And>p. \<exists>ps. stream_list (pl_conns s) p = Some ps" and "is_origin (pl_circs s c) \<Longrightarrow> cpath (pl_circs s c) \<noteq> []"
  shows "\<exists>conns. linked_update_stream_backpointers c s = Some (s\<lparr>pl_conns := conns\<rparr>) \<and> (\<forall>p. stream_list conns p \<noteq> None)"
proof -
  have k: "stream_list conns p \<noteq> None" if "\<And>p. next_stream (conns p) = next_stream (pl_conns s p)" for conns p
    using D [of p] stream_list_cong [of "pl_conns s" p _ conns] that by auto
  obtain p1 p2 p3 where "stream_list (pl_conns s) (p_streams (pl_circs s c)) = Some p1"
      "stream_list (pl_conns s) (n_streams (pl_circs s c)) = Some p2" "stream_list (pl_conns s) (resolving_streams (pl_circs s c)) = Some p3"
    using D by metis
  then show ?thesis using assms(2) k by (auto simp: linked_update_stream_backpointers_def)
qed

section \<open>The three ends of a linked leg\<close>

text \<open>What is known of the leg: its circuit, its object and the set it belongs to.\<close>

definition leg_of :: "pool_t \<Rightarrow> bool \<Rightarrow> nonce \<Rightarrow> cfx_id \<Rightarrow> conflux_t \<Rightarrow> circ_id \<Rightarrow> bool" where
  "leg_of s b n x f c = (lnk s b n = Some x \<and> pl_cfxs s x = Some f \<and> c \<in> set (leg_ids f))"

lemma leg_ofD:
  assumes "pool_inv s" "leg_of s b n x f c"
  shows "cfx_nonce f = n" "conflux (pl_circs s c) = Some x" "is_origin (pl_circs s c) = b" "linked_ok (pl_circs s) b x f"
    "conflux (pl_circs s d) = Some x \<Longrightarrow> d \<in> set (leg_ids f)"
    "lnk s b' n' = Some y \<Longrightarrow> pl_cfxs s y = Some g \<Longrightarrow> y \<noteq> x \<Longrightarrow> c \<notin> set (leg_ids g)"
    "unl s b' n' = Some u \<Longrightarrow> l \<in> set (ul_legs u) \<Longrightarrow> lg_circ l \<noteq> Some c"
proof -
  have L: "lnk s b n = Some x" "pl_cfxs s x = Some f" "c \<in> set (leg_ids f)" using assms(2) by (auto simp: leg_of_def)
  show "cfx_nonce f = n" and ok: "linked_ok (pl_circs s) b x f" using pool_invD(1) [OF assms(1) L(1)] L(2) by auto
  show c: "conflux (pl_circs s c) = Some x" "is_origin (pl_circs s c) = b" using ok L(3) by (auto simp: linked_ok_def leg_circ_ok_def)
  show "conflux (pl_circs s d) = Some x \<Longrightarrow> d \<in> set (leg_ids f)"
    using pool_invD(6) [OF assms(1), of d x] L(2) ok by (auto simp: dying_ok_def linked_ok_def)
  show "lnk s b' n' = Some y \<Longrightarrow> pl_cfxs s y = Some g \<Longrightarrow> y \<noteq> x \<Longrightarrow> c \<notin> set (leg_ids g)"
    using pool_invD(1) [OF assms(1), of n' b' y] c(1) by (auto simp: linked_ok_def)
  show "unl s b' n' = Some u \<Longrightarrow> l \<in> set (ul_legs u) \<Longrightarrow> lg_circ l \<noteq> Some c"
    using pool_invD(3) [OF assms(1), of n' b' u] c(1) by (auto simp: unlinked_ok_def)
qed

text \<open>The set survives and the circuit is detached.\<close>

lemma inv_leg_detached:
  assumes inv: "pool_inv s" and lo: "leg_of s b n x f c"
    and f': "cfx_nonce f' = n" "legs f' \<noteq> []" "distinct (leg_ids f')" "set (leg_ids f') = set (leg_ids f) - {c}"
    and v: "\<And>b' n'. unl s' b' n' = unl s b' n'" "\<And>b' n'. lnk s' b' n' = lnk s b' n'" "pl_cfxs s' = (pl_cfxs s)(x \<mapsto> f')"
      "pl_next_circ s' = pl_next_circ s" "pl_next_cfx s' = pl_next_cfx s" "\<And>p. stream_list (pl_conns s') p \<noteq> None"
    and c: "\<And>d. d \<noteq> c \<Longrightarrow> pl_circs s' d = pl_circs s d" "conflux (pl_circs s' c) = None"
      "conflux_pending_nonce (pl_circs s' c) = conflux_pending_nonce (pl_circs s c)"
  shows "pool_inv s'"
proof -
  note D = pool_invD [OF inv] and K = leg_ofD [OF inv lo]
  have L: "lnk s b n = Some x" "pl_cfxs s x = Some f" "c \<in> set (leg_ids f)" using lo by (auto simp: leg_of_def)
  have fne: "legs f \<noteq> []" using K(4) by (simp add: linked_ok_def)
  show ?thesis
  proof (rule pool_invI)
    fix b' n' y
    assume "lnk s' b' n' = Some y"
    then have y: "lnk s b' n' = Some y" by (simp add: v)
    show "\<exists>g. pl_cfxs s' y = Some g \<and> cfx_nonce g = n' \<and> linked_ok (pl_circs s') b' y g"
    proof (cases "y = x")
      case True
      then have "b' = b" "n' = n" using lnk_key [OF inv L(1)] y by auto
      moreover have "linked_ok (pl_circs s') b x f'" using K(4) f' c(1) by (auto simp: linked_ok_def)
      ultimately show ?thesis using True f'(1) by (simp add: v)
    next
      case False
      obtain g where g: "pl_cfxs s y = Some g" "cfx_nonce g = n'" "linked_ok (pl_circs s) b' y g" using D(1) [OF y] by blast
      then have "linked_ok (pl_circs s') b' y g" using K(6) [OF y g(1) False] c(1) unfolding linked_ok_def by metis
      then show ?thesis using False g by (simp add: v)
    qed
  next
    fix b' n' u
    assume "unl s' b' n' = Some u"
    then have u: "unl s b' n' = Some u" by (simp add: v)
    show "ul_is_client u = b'" using D(2) [OF u] .
    show "unlinked_ok (pl_circs s') b' n' (ul_legs u)" using D(3) [OF u] K(7) [OF u] c(1) unfolding unlinked_ok_def by metis
    show "unlinked_obj (lnk s' b' n') n' u (pl_cfxs s' (ul_cfx u))"
      using D(4) [OF u] f'(1) L(2) fne K(1) by (auto simp: v unlinked_obj_def split: if_splits)
  next
    fix d y
    assume d': "conflux (pl_circs s' d) = Some y"
    then have "d \<noteq> c" using c(2) by auto
    then have d: "conflux (pl_circs s d) = Some y" "pl_circs s' d = pl_circs s d" using d' c(1) by auto
    show "\<exists>g. pl_cfxs s' y = Some g \<and> (d \<in> set (leg_ids g) \<and> lnk s' (is_origin (pl_circs s' d)) (cfx_nonce g) = Some y \<or> dying_ok s' d y g)"
    proof (cases "y = x")
      case True
      then have "d \<in> set (leg_ids f')" using K(5) d(1) f'(4) \<open>d \<noteq> c\<close> by auto
      moreover have "is_origin (pl_circs s d) = b" using K(4,5) d(1) True by (auto simp: linked_ok_def leg_circ_ok_def)
      ultimately show ?thesis using True L(1) f'(1) d(2) by (auto simp: v)
    next
      case False
      have "dying_ok s' d y g" if "dying_ok s d y g" for g
      proof -
        have "conflux (pl_circs s' e) = Some y \<Longrightarrow> e = d" for e using that c(1,2) by (cases "e = c") (auto simp: dying_ok_def)
        then show ?thesis using that d(2) by (simp add: dying_ok_def v)
      qed
      then show ?thesis using D(6) [OF d(1)] False d(2) by (auto simp: v)
    qed
  next
    show "x' < pl_next_cfx s'" if "pl_cfxs s' x' = Some g" for x' g using D(7) [of x'] D(7) [OF L(2)] that v(5) by (auto simp: v split: if_splits)
    show "conflux (pl_circs s' d) = None \<and> conflux_pending_nonce (pl_circs s' d) = None" if "pl_next_circ s' \<le> d" for d
      using D(8,9) [of d] that c v(4) by (cases "d = c") auto
    show "\<exists>ps. stream_list (pl_conns s') p = Some ps" for p using v(6) [of p] by auto
    show "ul_cfx w \<noteq> ul_cfx w'" if "unl s' True n' = Some w" "unl s' False n' = Some w'" for n' w w' using D(5) that by (simp add: v)
    show "purpose_ok (pl_circs s' d)" for d using D(11) [of d] c K(2) by (cases "d = c") (auto simp: purpose_ok_def)
  qed
qed

text \<open>
  It was the last leg.  Without a recovery set the circuit keeps the object; a recovery set becomes
  its owner and the circuit is detached.
\<close>

lemma inv_leg_last:
  assumes inv: "pool_inv s" and lo: "leg_of s b n x f c" and f': "cfx_nonce f' = n" "legs f' = []" and one: "set (leg_ids f) = {c}"
    and v: "\<And>b' n'. lnk s' b' n' = (if b' = b \<and> n' = n then None else lnk s b' n')" "pl_cfxs s' = (pl_cfxs s)(x \<mapsto> f')"
      "pl_next_circ s' = pl_next_circ s" "pl_next_cfx s' = pl_next_cfx s" "pl_conns s' = pl_conns s"
    and c: "\<And>d. d \<noteq> c \<Longrightarrow> pl_circs s' d = pl_circs s d"
      "conflux_pending_nonce (pl_circs s' c) = conflux_pending_nonce (pl_circs s c)"
    and u: "unl s b n = None \<and> (\<forall>b' n'. unl s' b' n' = unl s b' n') \<and> pl_circs s' c = pl_circs s c \<and> marked_for_close (pl_circs s c) \<noteq> 0
      \<or> (\<exists>u. unl s b n = Some u \<and> conflux (pl_circs s' c) = None \<and>
           (\<forall>b' n'. unl s' b' n' = (if b' = b \<and> n' = n then Some (u\<lparr>is_for_linked_set := False\<rparr>) else unl s b' n')))"
  shows "pool_inv s'"
proof -
  note D = pool_invD [OF inv] and K = leg_ofD [OF inv lo]
  have L: "lnk s b n = Some x" "pl_cfxs s x = Some f" "c \<in> set (leg_ids f)" using lo by (auto simp: leg_of_def)
  note S = unl_of_linked [OF inv L(1)]
  have E: "\<exists>w. unl s b' n' = Some w \<and> ul_cfx w = ul_cfx w' \<and> ul_legs w = ul_legs w' \<and> ul_is_client w = ul_is_client w' \<and>
      (if b' = b \<and> n' = n then \<not> is_for_linked_set w' \<and> ul_cfx w = x else w = w')" if w': "unl s' b' n' = Some w'" for b' n' w'
  proof (cases "b' = b \<and> n' = n")
    case True
    then obtain w where "unl s b n = Some w" "w' = w\<lparr>is_for_linked_set := False\<rparr>" using u w' by auto
    then show ?thesis using True D(4) [of n b w] L(1) by (auto simp: unlinked_obj_def split: if_splits)
  qed (use u w' in auto)
  have no: "ul_cfx w' \<noteq> x" if "unl s' b' n' = Some w'" "\<not> (b' = b \<and> n' = n)" for b' n' w'
    using E [OF that(1)] S that(2) by metis
  show ?thesis
  proof (rule pool_invI)
    fix b' n' y
    assume "lnk s' b' n' = Some y"
    then have y: "lnk s b' n' = Some y" "\<not> (b' = b \<and> n' = n)" by (auto simp: v split: if_splits)
    have ne: "y \<noteq> x" using lnk_key [OF inv L(1)] y by blast
    obtain g where g: "pl_cfxs s y = Some g" "cfx_nonce g = n'" "linked_ok (pl_circs s) b' y g" using D(1) [OF y(1)] by blast
    then have "linked_ok (pl_circs s') b' y g" using K(6) [OF y(1) g(1) ne] c(1) unfolding linked_ok_def by metis
    then show "\<exists>g. pl_cfxs s' y = Some g \<and> cfx_nonce g = n' \<and> linked_ok (pl_circs s') b' y g" using ne g by (simp add: v)
  next
    fix b' n' w'
    assume w': "unl s' b' n' = Some w'"
    obtain w where w: "unl s b' n' = Some w" "ul_cfx w = ul_cfx w'" "ul_legs w = ul_legs w'" "ul_is_client w = ul_is_client w'"
      "if b' = b \<and> n' = n then \<not> is_for_linked_set w' \<and> ul_cfx w = x else w = w'" using E [OF w'] by blast
    show "ul_is_client w' = b'" using D(2) [OF w(1)] w(4) by simp
    show "unlinked_ok (pl_circs s') b' n' (ul_legs w')" using D(3) [OF w(1)] K(7) [OF w(1)] c(1) w(3) unfolding unlinked_ok_def by metis
    show "unlinked_obj (lnk s' b' n') n' w' (pl_cfxs s' (ul_cfx w'))"
    proof (cases "b' = b \<and> n' = n")
      case True
      then show ?thesis using w(2,5) f' by (auto simp: v unlinked_obj_def)
    next
      case False
      then have "w = w'" using w(5) by simp
      then show ?thesis using D(4) [OF w(1)] no [OF w' False] False by (simp add: v) blast
    qed
  next
    fix d y
    assume d': "conflux (pl_circs s' d) = Some y"
    show "\<exists>g. pl_cfxs s' y = Some g \<and> (d \<in> set (leg_ids g) \<and> lnk s' (is_origin (pl_circs s' d)) (cfx_nonce g) = Some y \<or> dying_ok s' d y g)"
    proof (cases "d = c")
      case True
      then have uc: "unl s b n = None" "\<And>b' n'. unl s' b' n' = unl s b' n'" "pl_circs s' c = pl_circs s c" "marked_for_close (pl_circs s c) \<noteq> 0"
        using u d' by auto
      have y: "y = x" using d' True uc(3) K(2) by simp
      have "e = c" if "conflux (pl_circs s' e) = Some x" for e using that K(5) [of e] one c(1) by (cases "e = c") auto
      moreover have "ul_cfx w \<noteq> x" if "unl s' b' n' = Some w" for b' n' w
        using no [OF that] that uc(1,2) by (cases "b' = b \<and> n' = n") auto
      ultimately have "dying_ok s' c x f'" using uc K(3) f' by (simp add: dying_ok_def v)
      then show ?thesis using True y by (auto simp: v)
    next
      case False
      then have d: "conflux (pl_circs s d) = Some y" "pl_circs s' d = pl_circs s d" using d' c(1) by auto
      have ne: "y \<noteq> x" using K(5) [of d] d(1) one False by auto
      obtain g where g: "pl_cfxs s y = Some g" "d \<in> set (leg_ids g) \<and> lnk s (is_origin (pl_circs s d)) (cfx_nonce g) = Some y \<or> dying_ok s d y g"
        using D(6) [OF d(1)] by blast
      have "lnk s' (is_origin (pl_circs s d)) (cfx_nonce g) = Some y" if "lnk s (is_origin (pl_circs s d)) (cfx_nonce g) = Some y"
        using that ne L(1) by (cases "is_origin (pl_circs s d) = b \<and> cfx_nonce g = n") (simp_all add: v)
      moreover have "dying_ok s' d y g" if dy: "dying_ok s d y g"
      proof -
        have "conflux (pl_circs s' e) = Some y \<Longrightarrow> e = d" for e using dy c(1) u K(2) ne by (cases "e = c") (auto simp: dying_ok_def)
        moreover have "ul_cfx w' \<noteq> y" if "unl s' b' n' = Some w'" for b' n' w' using E [OF that] dy by (metis dying_ok_def)
        moreover have "unl s' (is_origin (pl_circs s d)) (cfx_nonce g) = None"
          using dying_key(2) [OF dy L(1)] dy u by (auto simp: dying_ok_def)
        ultimately show ?thesis using dy d(2) dying_key(2) [OF dy L(1)] by (simp add: dying_ok_def v)
      qed
      ultimately show ?thesis using g ne d(2) by (auto simp: v)
    qed
  next
    show "x' < pl_next_cfx s'" if "pl_cfxs s' x' = Some g" for x' g using D(7) [of x'] D(7) [OF L(2)] that v(4) by (auto simp: v split: if_splits)
    show "conflux (pl_circs s' d) = None \<and> conflux_pending_nonce (pl_circs s' d) = None" if "pl_next_circ s' \<le> d" for d
    proof -
      have "d \<noteq> c" using D(8) [of c] K(2) that v(3) by auto
      then show ?thesis using D(8,9) [of d] that c v(3) by simp
    qed
    show "\<exists>ps. stream_list (pl_conns s') p = Some ps" for p using D(10) v(5) by simp
    show "ul_cfx w \<noteq> ul_cfx w'" if w: "unl s' True n' = Some w" "unl s' False n' = Some w'" for n' w w'
      using E [OF w(1)] E [OF w(2)] D(5) by metis
    show "purpose_ok (pl_circs s' d)" for d
    proof (cases "d = c")
      case True
      then show ?thesis using D(11) [of c] c(2) u K(2) by (auto simp: purpose_ok_def)
    qed (use D(11) [of d] c(1) in simp)
  qed
qed

lemma step_linked_out:
  assumes inv: "pool_inv s" and lo: "leg_of s b n x f c"
    and mk: "marked_for_close (pl_circs s c) \<noteq> 0 \<or> set (leg_ids f) \<noteq> {c} \<or> unl s b n \<noteq> None"
  shows "\<exists>ft s1 f1 s2. linked_leg_out x c s = Some (ft, s1) \<and> pl_cfxs s1 x = Some f1 \<and> cfx_nonce f1 = n \<and>
    linked_detach x n b c s1 = Some s2 \<and> pool_step m s s2 \<and> \<not> is_leg s2 c \<and>
    (set (leg_ids f) \<noteq> {c} \<or> unl s b n \<noteq> None \<longrightarrow> conflux (pl_circs s2 c) = None)"
proof -
  note D = pool_invD [OF inv] and K = leg_ofD [OF inv lo]
  have L: "lnk s b n = Some x" "pl_cfxs s x = Some f" "c \<in> set (leg_ids f)" using lo by (auto simp: leg_of_def)
  obtain f' ft where f': "cfx_del_leg f c (pl_circs s c) = Some (f', ft)" "cfx_nonce f' = n" "distinct (leg_ids f')"
      "set (leg_ids f') = set (leg_ids f) - {c}" "set_weight m (Some f') \<le> set_weight m (Some f)"
    using cfx_del_leg_spec [OF L(3), of "pl_circs s c" m] K(1,4) L(3) unfolding linked_ok_def by blast
  let ?s = "upd_cfx x f' s"
  have ms: "close_measure m s' \<le> close_measure m s" if "pl_cfxs s' = (pl_cfxs s)(x \<mapsto> f')" "pl_next_cfx s' = pl_next_cfx s" "unmarked s' = unmarked s" for s'
  proof -
    have "close_measure m s' = close_measure m ?s" using that by (simp add: close_measure_def unmarked_def)
    then show ?thesis using step_cfx_upd_measure [OF inv L(2), of m f'] f'(5) by simp
  qed
  have rl: "pool_rel s s'" if "pl_cfxs s' = (pl_cfxs s)(x \<mapsto> f')" "pl_next_cfx s' = pl_next_cfx s" "pl_next_circ s' = pl_next_circ s"
      "\<And>d. d \<noteq> c \<Longrightarrow> pl_circs s' d = pl_circs s d" "is_origin (pl_circs s' c) = b"
      "conflux (pl_circs s' c) = None \<or> pl_circs s' c = pl_circs s c" "marked_for_close (pl_circs s' c) = marked_for_close (pl_circs s c)"
      "cpath (pl_circs s' c) = cpath (pl_circs s c)" "conflux_pending_nonce (pl_circs s' c) = conflux_pending_nonce (pl_circs s c)" for s'
  proof -
    have "is_origin (pl_circs s' d) = is_origin (pl_circs s d) \<and> (conflux (pl_circs s' d) = conflux (pl_circs s d) \<or> conflux (pl_circs s' d) = None)
        \<and> marked_for_close (pl_circs s' d) = marked_for_close (pl_circs s d) \<and> cpath (pl_circs s' d) = cpath (pl_circs s d)
        \<and> conflux_pending_nonce (pl_circs s' d) = conflux_pending_nonce (pl_circs s d)" for d using that(4-9) K(3) by (cases "d = c") auto
    moreover have "\<exists>g. pl_cfxs s y = Some g \<and> cfx_nonce g' = cfx_nonce g" if "pl_cfxs s' y = Some g'" for y g'
      using that \<open>pl_cfxs s' = (pl_cfxs s)(x \<mapsto> f')\<close> K(1) L(2) f'(2) by (auto split: if_splits)
    ultimately show ?thesis using that(2,3) by (simp add: pool_rel_def)
  qed
  have cl: "closed_legs s' \<subseteq> closed_legs s \<and> \<not> is_leg s' c" if "\<And>b' n' y. lnk s' b' n' = Some y \<Longrightarrow> lnk s b' n' = Some y" "pl_cfxs s' = (pl_cfxs s)(x \<mapsto> f')"
      "\<And>b' n' w'. unl s' b' n' = Some w' \<Longrightarrow> \<exists>w. unl s b' n' = Some w \<and> ul_legs w' = ul_legs w"
      "\<And>d. marked_for_close (pl_circs s' d) = marked_for_close (pl_circs s d)" for s'
  proof
    have ll: "is_leg s d \<and> d \<noteq> c" if h: "lnk s' b' n' = Some y" "pl_cfxs s' y = Some g" "d \<in> set (leg_ids g)" for b' n' y g d
    proof (cases "y = x")
      case True
      then show ?thesis using h that(2) \<open>pl_cfxs s' = (pl_cfxs s)(x \<mapsto> f')\<close> f'(4) is_legI(1) [OF L(1,2), of d] by auto
    next
      case False
      then have g: "pl_cfxs s y = Some g" using h(2) \<open>pl_cfxs s' = (pl_cfxs s)(x \<mapsto> f')\<close> by simp
      have y: "lnk s b' n' = Some y" using \<open>\<And>b' n' y. lnk s' b' n' = Some y \<Longrightarrow> lnk s b' n' = Some y\<close> h(1) .
      show ?thesis using K(6) [OF y g False] is_legI(1) [OF y g h(3)] h(3) by auto
    qed
    have uu: "is_leg s d \<and> d \<noteq> c" if "unl s' b' n' = Some w'" "l \<in> set (ul_legs w')" "lg_circ l = Some d" for b' n' w' l d
      using \<open>\<And>b' n' w'. unl s' b' n' = Some w' \<Longrightarrow> \<exists>w. unl s b' n' = Some w \<and> ul_legs w' = ul_legs w\<close> [OF that(1)] that(2,3) K(7) is_legI(2) by metis
    show "closed_legs s' \<subseteq> closed_legs s" using ll uu that(4) by (intro closed_legs_subset) (auto elim: is_leg_subset [rotated 2])
    show "\<not> is_leg s' c" using ll uu unfolding is_leg_def [of s'] by blast
  qed
  show ?thesis
  proof (cases "legs f'")
    case Nil
    have one: "set (leg_ids f) = {c}" using f'(4) L(3) Nil by (auto simp: leg_ids_def)
    let ?s1 = "linked_pool_del n b ?s"
    have o: "linked_leg_out x c s = Some (ft, ?s1)" using L(2) f' Nil K(3) by (simp add: linked_leg_out_def Let_def)
    show ?thesis
    proof (cases "unl s b n")
      case None
      have "linked_detach x n b c ?s1 = Some ?s1" using Nil None by (simp add: linked_detach_def)
      moreover have "pool_inv ?s1" by (rule inv_leg_last [OF inv lo f'(2) Nil one]) (use None mk one in \<open>auto\<close>)
      moreover have "pool_rel s ?s1" by (rule rl) (simp_all add: K(3))
      moreover have "close_measure m ?s1 \<le> close_measure m s" by (rule ms) (simp_all add: unmarked_def)
      moreover have "closed_legs ?s1 \<subseteq> closed_legs s \<and> \<not> is_leg ?s1 c" by (rule cl) (auto split: if_splits)
      ultimately show ?thesis using o f'(2) None one by (intro exI [of _ ft] exI [of _ ?s1] exI [of _ f'] exI [of _ ?s1]) (simp add: pool_step_def)
    next
      case (Some u)
      have ux: "ul_cfx u = x" using D(4) [OF Some] L(1) by (auto simp: unlinked_obj_def split: if_splits)
      let ?s2 = "upd_circ c (\<lambda>k. k\<lparr>conflux := None\<rparr>) (unlinked_pool_set n (u\<lparr>is_for_linked_set := False\<rparr>) b ?s1)"
      have "linked_detach x n b c ?s1 = Some ?s2" using Nil Some ux by (simp add: linked_detach_def)
      moreover have "pool_inv ?s2"
      proof (rule inv_leg_last [OF inv lo f'(2) Nil one])
        show "unl s b n = None \<and> (\<forall>b' n'. unl ?s2 b' n' = unl s b' n') \<and> pl_circs ?s2 c = pl_circs s c \<and> marked_for_close (pl_circs s c) \<noteq> 0
          \<or> (\<exists>u. unl s b n = Some u \<and> conflux (pl_circs ?s2 c) = None \<and>
           (\<forall>b' n'. unl ?s2 b' n' = (if b' = b \<and> n' = n then Some (u\<lparr>is_for_linked_set := False\<rparr>) else unl s b' n')))"
          using Some by (intro disjI2 exI [of _ u]) (simp add: conj_commute)
      qed (simp_all add: conj_commute)
      moreover have "pool_rel s ?s2" by (rule rl) (simp_all add: K(3))
      moreover have "close_measure m ?s2 \<le> close_measure m s" by (rule ms) (auto simp: unmarked_def)
      moreover have "closed_legs ?s2 \<subseteq> closed_legs s \<and> \<not> is_leg ?s2 c" by (rule cl) (use Some in \<open>auto split: if_splits\<close>)
      ultimately show ?thesis using o f'(2) by (intro exI [of _ ft] exI [of _ ?s1] exI [of _ f'] exI [of _ ?s2]) (simp add: pool_step_def)
    qed
  next
    case (Cons l ls)
    let ?d = "leg_circ l"
    have "?d \<in> set (leg_ids f)" using Cons f'(4) by (auto simp: leg_ids_def)
    then have "is_origin (pl_circs s ?d) \<Longrightarrow> cpath (pl_circs s ?d) \<noteq> []"
      using K(4) by (auto simp: linked_ok_def leg_circ_ok_def exit_of_circ_def cpath_last_def bind_eq_Some_iff split: if_splits)
    then obtain conns where cn: "linked_update_stream_backpointers ?d ?s = Some (?s\<lparr>pl_conns := conns\<rparr>)" "\<And>p. stream_list conns p \<noteq> None"
      using backpointers_ok [of ?s ?d] D(10) by auto
    let ?s1 = "linked_nullify_streams c (?s\<lparr>pl_conns := conns\<rparr>)"
    let ?s2 = "upd_circ c (\<lambda>k. k\<lparr>conflux := None\<rparr>) ?s1"
    have o: "linked_leg_out x c s = Some (ft, ?s1)" using L(2) f' Cons cn(1) by (simp add: linked_leg_out_def Let_def)
    have d: "linked_detach x n b c ?s1 = Some ?s2" using Cons by (simp add: linked_detach_def linked_nullify_streams_def)
    have "pool_inv ?s2"
      by (rule inv_leg_detached [OF inv lo f'(2) _ f'(3,4)]) (use Cons cn(2) in \<open>auto simp: linked_nullify_streams_def\<close>)
    moreover have "pool_rel s ?s2" by (rule rl) (simp_all add: K(3) linked_nullify_streams_def)
    moreover have "close_measure m ?s2 \<le> close_measure m s" by (rule ms) (auto simp: unmarked_def linked_nullify_streams_def)
    moreover have "closed_legs ?s2 \<subseteq> closed_legs s \<and> \<not> is_leg ?s2 c" by (rule cl) (auto simp: linked_nullify_streams_def)
    ultimately have "pool_step m s ?s2" "\<not> is_leg ?s2 c" by (simp_all add: pool_step_def)
    then show ?thesis using o d f'(2) by (intro exI [of _ ft] exI [of _ ?s1] exI [of _ f'] exI [of _ ?s2]) (simp add: linked_nullify_streams_def)
  qed
qed

section \<open>Marking the circuits of a set\<close>

lemma leg_circs_ok: "unlinked_ok C b n ls \<Longrightarrow> \<exists>cs. leg_circs ls = Some cs \<and> Some ` set cs = lg_circ ` set ls"
  by (induction ls) (auto simp: unlinked_ok_def)

text \<open>The legs of a set are circuits of that set only.\<close>

lemma legs_same_set:
  assumes "pool_inv s" and "\<not> (b \<and> n' = n)"
  shows "unl s b n' = Some u \<Longrightarrow> l \<in> set (ul_legs u) \<Longrightarrow> lg_circ l = Some d \<Longrightarrow> \<not> same_set s n d"
    and "lnk s b n' = Some x \<Longrightarrow> pl_cfxs s x = Some f \<Longrightarrow> d \<in> set (leg_ids f) \<Longrightarrow> \<not> same_set s n d"
  using pool_invD(3) [OF assms(1), of n' b u] pool_invD(1) [OF assms(1), of n' b x] assms(2)
  by (auto simp: unlinked_ok_def linked_ok_def leg_circ_ok_def same_set_def)

lemma kept_pool_del:
  assumes "pool_inv s" "unl s b n' = Some u" "ul_legs u = []" "unlinked_pool_del_and_free u b s = Some s'" "pl_mem_pressure s" "\<not> (b \<and> n' = n)"
  shows "kept n s s'"
  using pool_invD(4) [OF assms(1,2)] assms(3-) by (cases b)
    (auto simp: unlinked_pool_del_and_free_def unlinked_pool_del_def unlinked_free_def conflux_free_def unlinked_pool_get_def AList.delete_conv'
       kept_def unlinked_obj_def split: if_splits)

lemma close_or_free_ok:
  assumes inv: "pool_inv s" and m: "marks_below m k mark" and k: "close_measure m s < k" and u: "unl s b n = Some u"
  shows "\<exists>s'. unlinked_close_or_free_with mark u s = Some s' \<and> pool_step m s s' \<and>
    (\<forall>n'. pl_mem_pressure s \<and> \<not> (b \<and> n = n') \<longrightarrow> kept n' s s')"
proof (cases "ul_legs u = []")
  case True
  obtain s' where "unlinked_pool_del_and_free u b s = Some s'" "pool_step m s s'" using step_pool_del [OF inv u True] by blast
  then show ?thesis using True kept_pool_del [OF inv u True] pool_invD(2) [OF inv u] by (auto simp: unlinked_close_or_free_with_def)
next
  case False
  obtain cs where cs: "leg_circs (ul_legs u) = Some cs" "Some ` set cs = lg_circ ` set (ul_legs u)" using leg_circs_ok pool_invD(3) [OF inv u] by blast
  then have "\<not> same_set s n' d" if "\<not> (b \<and> n = n')" "d \<in> set cs" for n' d
    using legs_same_set(1) [OF inv that(1) u] that(2) by (metis imageE imageI)
  then show ?thesis using mark_list_ok [OF m inv k, of "\<lambda>k. marked_for_close k = 0" END_CIRC_REASON_INTERNAL cs] cs(1) False
    by (auto simp: unlinked_close_or_free_with_def)
qed

lemma mark_all_ok:
  assumes inv: "pool_inv s" and m: "marks_below m k mark" and k: "close_measure m s < k"
  shows "\<exists>s'. conflux_mark_all_for_close_with mark n b r s = Some s' \<and> pool_step m s s' \<and>
    (\<forall>n'. pl_mem_pressure s \<and> \<not> (b \<and> n = n') \<longrightarrow> kept n' s s')"
proof -
  obtain s1 where s1: "(case unl s b n of None \<Rightarrow> Some s | Some u \<Rightarrow> unlinked_close_or_free_with mark u s) = Some s1" "pool_step m s s1"
      "\<And>n'. pl_mem_pressure s \<Longrightarrow> \<not> (b \<and> n = n') \<Longrightarrow> kept n' s s1"
    using close_or_free_ok [OF inv m k, of n b] pool_step_refl [OF inv] kept_refl by (cases "unl s b n") fastforce+
  note inv1 = pool_step_inv [OF s1(2)] and t = pool_step_trans [OF s1(2)]
  show ?thesis
  proof (cases "lnk s1 b n")
    case None
    then show ?thesis using s1 by (simp add: conflux_mark_all_for_close_with_def)
  next
    case (Some x)
    then obtain f where f: "pl_cfxs s1 x = Some f" using pool_invD(1) [OF inv1] by blast
    let ?s = "upd_cfx x (f\<lparr>in_full_teardown := True\<rparr>) s1"
    have st: "pool_step m s1 ?s" by (rule step_cfx_frame [OF inv1 f]) (simp_all add: same_cfx_def)
    obtain s' where s': "mark_list mark (\<lambda>_. True) r (map leg_circ (legs f)) ?s = Some s'" "pool_step m ?s s'"
        "\<And>n'. pl_mem_pressure ?s \<Longrightarrow> \<forall>c \<in> set (map leg_circ (legs f)). \<not> same_set ?s n' c \<Longrightarrow> kept n' ?s s'"
      using mark_list_ok [OF m pool_step_inv [OF st], of "\<lambda>_. True" r "map leg_circ (legs f)"] pool_step_le [OF t [OF st]] k by auto
    have "kept n' s s'" if "pl_mem_pressure s" "\<not> (b \<and> n = n')" for n'
    proof -
      have k1: "kept n' s s1" using s1(3) that by simp
      have "\<forall>c \<in> set (map leg_circ (legs f)). \<not> same_set ?s n' c"
        using legs_same_set(2) [OF pool_step_inv [OF st] that(2), of x "f\<lparr>in_full_teardown := True\<rparr>"] Some by (simp add: leg_ids_def)
      then have "kept n' ?s s'" using s'(3) keptD(1) [OF k1] by simp
      moreover have "kept n' s1 ?s" using keptD(1) [OF k1] by (simp add: kept_def)
      ultimately show ?thesis using k1 kept_trans by blast
    qed
    then show ?thesis using s1 f Some s'(1) t [OF pool_step_trans [OF st s'(2)]] by (auto simp: conflux_mark_all_for_close_with_def)
  qed
qed

section \<open>A leg that closes\<close>

lemma pool_rel_origin: "pool_step m s s' \<Longrightarrow> c < pl_next_circ s \<Longrightarrow> is_origin (pl_circs s' c) = is_origin (pl_circs s c)"
  by (simp add: pool_step_def pool_rel_def)

text \<open>A circuit whose leg was deleted is a leg of no other set.\<close>

lemma leg_gone:
  assumes inv: "pool_inv s" and n: "conflux_pending_nonce (pl_circs s c) = Some n"
    and d: "unlinked_leg_del_and_free n (is_origin (pl_circs s c)) c s = Some s1" and u: "unl s (is_origin (pl_circs s c)) n = Some u"
  shows "lnk s1 b' n' = Some x \<Longrightarrow> pl_cfxs s1 x = Some f \<Longrightarrow> c \<notin> set (leg_ids f)"
    and "unl s1 b' n' = Some w \<Longrightarrow> l \<in> set (ul_legs w) \<Longrightarrow> lg_circ l = Some c \<Longrightarrow> b' = is_origin (pl_circs s c) \<and> n' = n"
proof -
  let ?b = "is_origin (pl_circs s c)"
  have v: "lnk s1 b' n' = lnk s b' n' \<and> pl_cfxs s1 = pl_cfxs s \<and> (\<not> (b' = ?b \<and> n' = n) \<longrightarrow> unl s1 b' n' = unl s b' n')"
  proof (cases "leg_find u c")
    case (Some l)
    then show ?thesis using d u leg_find_props [OF Some] by (auto simp: unlinked_leg_del_and_free_def leg_free_def)
  qed (use d u in \<open>simp add: unlinked_leg_del_and_free_def\<close>)
  then show "lnk s1 b' n' = Some x \<Longrightarrow> pl_cfxs s1 x = Some f \<Longrightarrow> c \<notin> set (leg_ids f)" using pending_unique(1) [OF inv n] by simp
  assume w: "unl s1 b' n' = Some w" "l \<in> set (ul_legs w)" "lg_circ l = Some c"
  show "b' = ?b \<and> n' = n"
  proof (rule ccontr)
    assume ne: "\<not> (b' = ?b \<and> n' = n)"
    then have "unl s b' n' = Some w" using v w(1) by simp
    from pending_unique(2) [OF inv n this w(2,3)] show False using ne by blast
  qed
qed

lemma kept_leg_del:
  assumes "unlinked_leg_del_and_free n' b c s = Some s'" "pl_mem_pressure s" "\<not> (b \<and> n' = n)"
  shows "kept n s s'"
proof -
  obtain u where u: "unl s b n' = Some u" using assms(1) by (auto simp: unlinked_leg_del_and_free_def bind_eq_Some_iff)
  show ?thesis
    using assms u by (cases "leg_find u c") (auto simp: unlinked_leg_del_and_free_def leg_free_def kept_def split: option.splits)
qed

lemma unlinked_closed_ok:
  assumes inv: "pool_inv s" and m: "marks_below (max_launch e) k mark" and k: "close_measure (max_launch e) s < k"
    and b: "env_ok e" and n: "conflux_pending_nonce (pl_circs s c) = Some n"
  shows "\<exists>s'. unlinked_circuit_closed_with mark e c s = Some s' \<and> pool_step (max_launch e) s s' \<and> c \<notin> closed_legs s' \<and>
    (is_leg s c \<longrightarrow> \<not> CIRCUIT_IS_CONFLUX (pl_circs s' c)) \<and>
    (\<forall>n'. pl_mem_pressure s \<and> \<not> same_set s n' c \<longrightarrow> kept n' s s')"
proof -
  let ?m = "max_launch e" and ?b = "is_origin (pl_circs s c)"
  have c: "c < pl_next_circ s" using pool_invD(9) [OF inv, of c] n by fastforce
  show ?thesis
  proof (cases "unl s ?b n")
    case None
    have "\<not> is_leg s c"
    proof
      assume "is_leg s c"
      then obtain b' n' w l where w: "unl s b' n' = Some w" "l \<in> set (ul_legs w)" "lg_circ l = Some c"
        using pending_unique(1) [OF inv n] by (auto simp: is_leg_def)
      then have "b' = ?b" "n' = n" using pending_unique(2) [OF inv n w] by blast+
      then show False using w(1) None by simp
    qed
    then show ?thesis using None n pool_step_refl [OF inv] kept_refl by (simp add: unlinked_circuit_closed_with_def closed_legs_def)
  next
    case (Some u)
    obtain s1 u1 where s1: "unlinked_leg_del_and_free n ?b c s = Some s1" "pool_step ?m s s1" "unl s1 ?b n = Some u1"
        "\<And>l. l \<in> set (ul_legs u1) \<Longrightarrow> lg_circ l \<noteq> Some c" "leg_find u c \<noteq> None \<Longrightarrow> conflux_pending_nonce (pl_circs s1 c) = None"
      using step_leg_del [OF inv Some, of c ?m] by blast
    note inv1 = pool_step_inv [OF s1(2)]
    have "close_measure ?m s1 < k" using pool_step_le [OF s1(2)] k by simp
    note L = launch_ok [OF inv1 m this b, of n]
    let ?go = "\<not> pl_shutting_down s1 \<and> \<not> pl_mem_pressure s1 \<and> is_origin (pl_circs s1 c)"
    obtain s2 where s2: "(if ul_legs u1 = [] then unlinked_pool_del_and_free u1 ?b s1
        else if ?go then map_option snd (conflux_launch_leg_with mark e n s1) else Some s1) = Some s2" "pool_step ?m s1 s2"
        "\<And>n'. pl_mem_pressure s1 \<Longrightarrow> \<not> (?b \<and> n = n') \<Longrightarrow> kept n' s1 s2"
    proof -
      consider "ul_legs u1 = []" | "ul_legs u1 \<noteq> []" "?go" | "ul_legs u1 \<noteq> []" "\<not> ?go" by blast
      then show thesis
      proof cases
        case 1
        then show thesis using step_pool_del [OF inv1 s1(3), of ?m] kept_pool_del [OF inv1 s1(3)] that by auto
      next
        case 2
        then have "?b" using pool_rel_origin [OF s1(2) c] by simp
        then obtain rr s2 where "conflux_launch_leg_with mark e n s1 = Some (rr, s2)" "pool_step ?m s1 s2" using L s1(3) by auto
        then show thesis using 2 that by simp
      next
        case 3
        then show thesis using that [of s1] pool_step_refl [OF inv1] kept_refl by auto
      qed
    qed
    have "\<not> is_leg s1 c"
    proof
      assume "is_leg s1 c"
      then obtain b' n' w l where w: "unl s1 b' n' = Some w" "l \<in> set (ul_legs w)" "lg_circ l = Some c"
        using leg_gone [OF inv n s1(1) Some] by (auto simp: is_leg_def)
      then have "b' = ?b \<and> n' = n" using leg_gone(2) [OF inv n s1(1) Some w] by blast
      then show False using w s1(3,4) by auto
    qed
    then have "c \<notin> closed_legs s1" by (simp add: closed_legs_def)
    moreover have st: "pool_step ?m s1 (validate_circ_has_no_streams c s2)" using pool_step_trans [OF s2(2) step_no_streams [OF pool_step_inv [OF s2(2)]]] .
    moreover have "pool_step ?m s (validate_circ_has_no_streams c s2)" using pool_step_trans [OF s1(2) st] .
    ultimately have "pool_step ?m s (validate_circ_has_no_streams c s2)" "c \<notin> closed_legs (validate_circ_has_no_streams c s2)"
      by (auto simp: pool_step_def)
    moreover have "\<not> CIRCUIT_IS_CONFLUX (pl_circs (validate_circ_has_no_streams c s2) c)" if leg: "is_leg s c"
    proof -
      obtain b' n' w l where w: "unl s b' n' = Some w" "l \<in> set (ul_legs w)" "lg_circ l = Some c"
        using leg pending_unique(1) [OF inv n] by (auto simp: is_leg_def)
      then have "b' = ?b \<and> n' = n" using pending_unique(2) [OF inv n w] by blast
      then have "leg_find u c \<noteq> None" using w Some by (auto simp: leg_find_def find_None_iff)
      then have "conflux_pending_nonce (pl_circs s1 c) = None" by (rule s1(5))
      moreover have "conflux (pl_circs s c) = None" using pool_invD(11) [OF inv, of c] n by (auto simp: purpose_ok_def)
      ultimately show ?thesis using s1(2) st c unfolding CIRCUIT_IS_CONFLUX_def pool_step_def pool_rel_def by (metis order_less_le_trans)
    qed
    moreover have "kept n' s (validate_circ_has_no_streams c s2)" if "pl_mem_pressure s" "\<not> same_set s n' c" for n'
    proof -
      have far: "\<not> (?b \<and> n = n')" using that(2) n by (simp add: same_set_def)
      have "kept n' s s1" using kept_leg_del [OF s1(1) that(1) far] .
      moreover have "kept n' s1 s2" using s2(3) keptD(1) [OF calculation] far by blast
      ultimately have "kept n' s s2" by (rule kept_trans)
      then show ?thesis by (simp add: kept_def validate_circ_has_no_streams_def)
    qed
    ultimately show ?thesis using n Some s1 s2 by (simp add: unlinked_circuit_closed_with_def Let_def)
  qed
qed

text \<open>
  The circuit that was the last leg gives the object to a new unlinked set; no other circuit still
  owns an object of this nonce.
\<close>

lemma inv_detach_dying:
  assumes inv: "pool_inv s" and y: "conflux (pl_circs s c) = Some y" "pl_cfxs s y = Some f" "dying_ok s c y f"
  shows "pool_inv (upd_circ c (\<lambda>k. k\<lparr>conflux := None\<rparr>) s)" (is "pool_inv ?s")
proof -
  note D = pool_invD [OF inv]
  have f: "leg_ids f = []" using y(3) by (simp add: dying_ok_def leg_ids_def)
  have lo: "linked_ok (pl_circs ?s) b x g" if L: "pl_cfxs s x = Some g" "linked_ok (pl_circs s) b x g" for b x g
  proof -
    have "c \<notin> set (leg_ids g)" using L y(1,2) f by (auto simp: linked_ok_def)
    then show ?thesis using L(2) unfolding linked_ok_def by auto
  qed
  have uo: "unlinked_ok (pl_circs ?s) b n ls" if "unlinked_ok (pl_circs s) b n ls" for b n ls
    using that y(1) unfolding unlinked_ok_def by fastforce
  have do: "dying_ok ?s d x g" if "dying_ok s d x g" "d \<noteq> c" for d x g using that by (auto simp: dying_ok_def)
  show ?thesis
  proof (rule pool_invI)
    show "\<exists>g. pl_cfxs ?s x = Some g \<and> cfx_nonce g = n \<and> linked_ok (pl_circs ?s) b x g" if "lnk ?s b n = Some x" for b n x
      using D(1) [of n b x] that lo by auto
    show "unlinked_ok (pl_circs ?s) b n (ul_legs u)" if "unl ?s b n = Some u" for b n u using D(3) [of n b u] that uo by simp
    show "\<exists>g. pl_cfxs ?s x = Some g \<and> (d \<in> set (leg_ids g) \<and> lnk ?s (is_origin (pl_circs ?s d)) (cfx_nonce g) = Some x \<or> dying_ok ?s d x g)"
      if "conflux (pl_circs ?s d) = Some x" for d x using D(6) [of d x] that do by (cases "d = c") auto
    show "purpose_ok (pl_circs ?s d)" for d using D(11) [of d] y(1) by (cases "d = c") (auto simp: purpose_ok_def)
  qed (use D in \<open>auto\<close>)
qed

lemma step_adopt:
  assumes inv: "pool_inv s" and y: "conflux (pl_circs s c) = Some y" "pl_cfxs s y = Some f" "dying_ok s c y f" "cfx_nonce f = n" "is_origin (pl_circs s c) = b"
    and one: "\<And>d z g. conflux (pl_circs s d) = Some z \<Longrightarrow> pl_cfxs s z = Some g \<Longrightarrow> cfx_nonce g = n \<Longrightarrow> is_origin (pl_circs s d) = b \<Longrightarrow> z = y"
  shows "\<exists>u s1 s2. unlinked_get_or_create n b s = Some (u, s1) \<and> ul_legs u = [] \<and> conflux_free (ul_cfx u) s1 = Some s2 \<and>
    (\<forall>s3. s3 = upd_circ c (\<lambda>k. k\<lparr>conflux := None\<rparr>) (unlinked_pool_set n (u\<lparr>ul_cfx := y, is_for_linked_set := False\<rparr>) b s2) \<longrightarrow>
       pool_step m s s3 \<and> unl s3 b n \<noteq> None)"
proof -
  note D = pool_invD [OF inv]
  have N: "lnk s b n = None" "unl s b n = None" using y(3,4,5) by (auto simp: dying_ok_def)
  let ?x = "pl_next_cfx s"
  let ?u = "\<lparr>ul_is_client = b, is_for_linked_set = False, ul_cfx = ?x, ul_legs = []\<rparr>"
  let ?s1 = "unlinked_pool_set n ?u b ((upd_cfx ?x (conflux_new\<lparr>cfx_nonce := n\<rparr>) s)\<lparr>pl_next_cfx := Suc ?x\<rparr>)"
  have X: "pl_cfxs s ?x = None" using D(7) [of ?x] by (cases "pl_cfxs s ?x") auto
  have g: "unlinked_get_or_create n b s = Some (?u, ?s1)"
    using N by (simp add: unlinked_get_or_create_def unlinked_new_def Let_def unlinked_pool_add_def)
  obtain s2 where s2: "conflux_free ?x ?s1 = Some s2" and v: "\<And>b' n'. unl s2 b' n' = (if b' = b \<and> n' = n then Some ?u else unl s b' n')"
      "\<And>b' n'. lnk s2 b' n' = lnk s b' n'" "pl_cfxs s2 = pl_cfxs s" "pl_circs s2 = pl_circs s" "pl_next_circ s2 = pl_next_circ s"
      "pl_next_cfx s2 = Suc ?x" "pl_conns s2 = pl_conns s"
    using X by (auto simp: conflux_free_def conj_commute fun_upd_idem)
  define s3 where "s3 = upd_circ c (\<lambda>k. k\<lparr>conflux := None\<rparr>) (unlinked_pool_set n (?u\<lparr>ul_cfx := y, is_for_linked_set := False\<rparr>) b s2)"
  let ?s = "upd_circ c (\<lambda>k. k\<lparr>conflux := None\<rparr>) s"
  have "pool_inv s3"
  proof (rule inv_unl_upd [OF inv_detach_dying [OF inv y(1-3)]])
    show "unl s3 b' n' = (if b' = b \<and> n' = n then Some (?u\<lparr>ul_cfx := y, is_for_linked_set := False\<rparr>) else unl ?s b' n')" for b' n'
      by (auto simp: s3_def v)
    show "ul_cfx w \<noteq> ul_cfx (?u\<lparr>ul_cfx := y, is_for_linked_set := False\<rparr>)" if "unl ?s (\<not> b) n = Some w" for w
      using y(3) that by (auto simp: dying_ok_def)
    show "unlinked_obj (lnk ?s b n) n (?u\<lparr>ul_cfx := y, is_for_linked_set := False\<rparr>) (pl_cfxs ?s (ul_cfx (?u\<lparr>ul_cfx := y, is_for_linked_set := False\<rparr>)))"
      using N y(2-4) by (simp add: unlinked_obj_def dying_ok_def)
    show "z \<noteq> ul_cfx (?u\<lparr>ul_cfx := y, is_for_linked_set := False\<rparr>) \<and> \<not> (is_origin (pl_circs ?s d) = b \<and> cfx_nonce g = n)"
      if "conflux (pl_circs ?s d) = Some z" "pl_cfxs ?s z = Some g" for d z g
    proof -
      have "d \<noteq> c" "conflux (pl_circs s d) = Some z" "pl_cfxs s z = Some g" using that by (auto split: if_splits)
      moreover from this have "z \<noteq> y" using y(3) by (auto simp: dying_ok_def)
      ultimately show ?thesis using one by auto
    qed
    show "purpose_ok (pl_circs s3 d)" for d using D(11) [of d] y(1) by (cases "d = c") (auto simp: purpose_ok_def s3_def v)
  qed (use D(8,9) in \<open>auto simp: s3_def v unlinked_ok_def\<close>)
  moreover have "unmarked s3 = unmarked s" by (auto simp: unmarked_def s3_def v)
  then have "close_measure m s3 \<le> close_measure m s" using X by (simp add: close_measure_def s3_def v set_weight_def)
  moreover have "pool_rel s s3" by (auto simp: pool_rel_def s3_def v)
  moreover have "closed_legs s3 \<subseteq> closed_legs s"
  proof (rule closed_legs_subset)
    show "is_leg s d" if "is_leg s3 d" for d
      by (rule is_leg_subset [OF _ _ that]) (auto simp: s3_def v split: if_splits intro: is_legI)
  qed (simp add: s3_def v)
  ultimately show ?thesis using g s2 by (intro exI [of _ ?u] exI [of _ ?s1] exI [of _ s2]) (simp add: pool_step_def s3_def)
qed

lemma refill_ok:
  assumes inv: "pool_inv s" and m: "marks_below (max_launch e) k mark" and k: "close_measure (max_launch e) s < k"
    and p: "env_ok e" and c: "is_origin (pl_circs s c) = b"
    and y: "\<And>d y f. conflux (pl_circs s d) = Some y \<Longrightarrow> pl_cfxs s y = Some f \<Longrightarrow> cfx_nonce f = n \<Longrightarrow> is_origin (pl_circs s d) = b \<Longrightarrow> y = x"
    "\<And>y f. conflux (pl_circs s c) = Some y \<Longrightarrow> pl_cfxs s y = Some f \<Longrightarrow> y = x \<and> cfx_nonce f = n"
  shows "\<exists>s'. linked_refill_with mark e n b c s = Some s' \<and> pool_step (max_launch e) s s'"
proof (cases "pl_shutting_down s \<or> pl_mem_pressure s \<or> \<not> is_origin (pl_circs s c)")
  case True
  then show ?thesis using pool_step_refl [OF inv] by (auto simp: linked_refill_with_def)
next
  case go: False
  then have b: "b" using c by simp
  note D = pool_invD [OF inv] and L = launch_ok [OF inv m k p]
  show ?thesis
  proof (cases "lnk s b n")
    case (Some z)
    then obtain f where f: "pl_cfxs s z = Some f" using D(1) by blast
    obtain rr s' where "conflux_launch_leg_with mark e n s = Some (rr, s')" "pool_step (max_launch e) s s'" using L [of n] b Some by auto
    then show ?thesis using go Some f pool_step_refl [OF inv] by (auto simp: linked_refill_with_def)
  next
    case None
    show ?thesis
    proof (cases "conflux (pl_circs s c)")
      case None': None
      then show ?thesis using go None pool_step_refl [OF inv] by (auto simp: linked_refill_with_def)
    next
      case (Some z)
      obtain f where f: "pl_cfxs s z = Some f"
          and "c \<in> set (leg_ids f) \<and> lnk s (is_origin (pl_circs s c)) (cfx_nonce f) = Some z \<or> dying_ok s c z f" using D(6) [OF Some] by blast
      moreover have nx: "z = x" "cfx_nonce f = n" using y(2) [OF Some f] by blast+
      ultimately have dy: "dying_ok s c z f" using None unfolding c by simp
      obtain u s1 s2 s3 where S: "unlinked_get_or_create n b s = Some (u, s1)" "ul_legs u = []" "conflux_free (ul_cfx u) s1 = Some s2"
          "s3 = upd_circ c (\<lambda>k. k\<lparr>conflux := None\<rparr>) (unlinked_pool_set n (u\<lparr>ul_cfx := z, is_for_linked_set := False\<rparr>) b s2)"
          "pool_step (max_launch e) s s3" "unl s3 b n \<noteq> None"
        using step_adopt [OF inv Some f dy nx(2) c, of "max_launch e"] y(1) nx(1) by blast
      obtain rr s' where "conflux_launch_leg_with mark e n s3 = Some (rr, s')" "pool_step (max_launch e) s3 s'"
        using launch_ok [OF pool_step_inv [OF S(5)] m _ p, of n] pool_step_le [OF S(5)] k b S(6) by auto
      then have "linked_refill_with mark e n b c s = Some (if in_full_teardown f then s else s')" "pool_step (max_launch e) s s'"
        using go None Some f S(1-3) pool_step_trans [OF S(5)] by (simp_all add: linked_refill_with_def Let_def S(4))
      then show ?thesis using pool_step_refl [OF inv] by (cases "in_full_teardown f") simp_all
    qed
  qed
qed

lemma kept_leg_out:
  assumes "linked_leg_out x c s = Some (ft, s')" "pl_mem_pressure s"
  shows "kept n s s'"
proof -
  have bp: "\<exists>conns. t' = t\<lparr>pl_conns := conns\<rparr>" if "linked_update_stream_backpointers d t = Some t'" for d t t'
    using that by (auto simp: linked_update_stream_backpointers_def bind_eq_Some_iff split: if_split_asm)
  obtain f f' ft' where f: "pl_cfxs s x = Some f" "cfx_del_leg f c (pl_circs s c) = Some (f', ft')"
    using assms(1) by (auto simp: linked_leg_out_def Let_def bind_eq_Some_iff)
  show ?thesis
  proof (cases "legs f'")
    case Nil
    then show ?thesis using assms f by (auto simp: linked_leg_out_def Let_def kept_def)
  next
    case (Cons l ls)
    then obtain t where "linked_update_stream_backpointers (leg_circ l) (upd_cfx x f' s) = Some t" "s' = linked_nullify_streams c t"
      using assms(1) f by (auto simp: linked_leg_out_def Let_def bind_eq_Some_iff)
    then show ?thesis using bp [of "leg_circ l" "upd_cfx x f' s" t] assms(2) by (auto simp: linked_nullify_streams_def kept_def)
  qed
qed

lemma kept_detach: "linked_detach x n' b c s = Some s' \<Longrightarrow> pl_mem_pressure s \<Longrightarrow> \<not> (b \<and> n' = n) \<Longrightarrow> kept n s s'"
  by (auto simp: linked_detach_def kept_def bind_eq_Some_iff split: if_splits option.splits)

lemma linked_closed_ok:
  assumes inv: "pool_inv s" and m: "marks_below (max_launch e) k mark" and k: "close_measure (max_launch e) s < k"
    and p: "env_ok e" and lo: "leg_of s b n x f c"
    and mk: "marked_for_close (pl_circs s c) \<noteq> 0 \<or> set (leg_ids f) \<noteq> {c} \<or> unl s b n \<noteq> None"
  shows "\<exists>s'. linked_circuit_closed_with mark e c s = Some s' \<and> pool_step (max_launch e) s s' \<and> c \<notin> closed_legs s' \<and>
    (set (leg_ids f) \<noteq> {c} \<or> unl s b n \<noteq> None \<longrightarrow> \<not> CIRCUIT_IS_CONFLUX (pl_circs s' c)) \<and>
    (\<forall>n'. pl_mem_pressure s \<and> \<not> same_set s n' c \<longrightarrow> kept n' s s')"
proof -
  let ?m = "max_launch e"
  note D = pool_invD [OF inv] and K = leg_ofD [OF inv lo]
  have L: "lnk s b n = Some x" "pl_cfxs s x = Some f" using lo by (auto simp: leg_of_def)
  have c: "c < pl_next_circ s" using D(8) [of c] K(2) by fastforce
  obtain ft s1 f1 s2 where S: "linked_leg_out x c s = Some (ft, s1)" "pl_cfxs s1 x = Some f1" "cfx_nonce f1 = n"
      "linked_detach x n b c s1 = Some s2" "pool_step ?m s s2" "\<not> is_leg s2 c"
      "set (leg_ids f) \<noteq> {c} \<or> unl s b n \<noteq> None \<longrightarrow> conflux (pl_circs s2 c) = None" using step_linked_out [OF inv lo mk, of ?m] by blast
  obtain s3 where s3: "(if ft then conflux_mark_all_for_close_with mark n b END_CIRC_REASON_FINISHED s2 else Some s2) = Some s3" "pool_step ?m s2 s3"
      "\<And>n'. pl_mem_pressure s2 \<Longrightarrow> \<not> (b \<and> n = n') \<Longrightarrow> kept n' s2 s3"
    using mark_all_ok [OF pool_step_inv [OF S(5)] m, of n b END_CIRC_REASON_FINISHED] pool_step_le [OF S(5)] k pool_step_refl [OF pool_step_inv [OF S(5)]] kept_refl
    by (cases ft) auto
  note st = pool_step_trans [OF S(5) s3(2)]
  have old: "conflux (pl_circs s d) = Some y \<and> d < pl_next_circ s \<and> (\<exists>g. pl_cfxs s y = Some g \<and> cfx_nonce g' = cfx_nonce g)"
    if d: "conflux (pl_circs s3 d) = Some y" "pl_cfxs s3 y = Some g'" for d y g'
  proof -
    have d1: "conflux (pl_circs s d) = Some y" using st d(1) by (auto simp: pool_step_def pool_rel_def) (metis option.distinct(1))
    moreover have "y < pl_next_cfx s" using D(6) [OF d1] D(7) by blast
    moreover have "d < pl_next_circ s" using D(8) [of d] d1 by fastforce
    ultimately show ?thesis using st d(2) by (simp add: pool_step_def pool_rel_def)
  qed
  have o3: "is_origin (pl_circs s3 d) = is_origin (pl_circs s d)" if "d < pl_next_circ s" for d using pool_rel_origin [OF st that] .
  obtain s4 where s4: "linked_refill_with mark e n b c s3 = Some s4" "pool_step ?m s3 s4"
  proof -
    have "\<exists>s'. linked_refill_with mark e n b c s3 = Some s' \<and> pool_step ?m s3 s'"
    proof (rule refill_ok [OF pool_step_inv [OF s3(2)] m _ p])
      show "close_measure ?m s3 < k" using pool_step_le [OF st] k by simp
      show "is_origin (pl_circs s3 c) = b" using o3 [OF c] K(3) by simp
      show "y = x" if h: "conflux (pl_circs s3 d) = Some y" "pl_cfxs s3 y = Some g" "cfx_nonce g = n" "is_origin (pl_circs s3 d) = b" for d y g
      proof -
        obtain g0 where g0: "conflux (pl_circs s d) = Some y" "pl_cfxs s y = Some g0" "cfx_nonce g0 = n" "is_origin (pl_circs s d) = b"
          using old [OF h(1,2)] o3 h(3,4) by auto
        have "\<not> dying_ok s d y g0" using dying_key(2) [OF _ L(1)] g0(3,4) by blast
        then have "lnk s (is_origin (pl_circs s d)) (cfx_nonce g0) = Some y" using D(6) [OF g0(1)] g0(2) by force
        then show ?thesis using L(1) g0(3,4) by simp
      qed
      show "y = x \<and> cfx_nonce g = n" if "conflux (pl_circs s3 c) = Some y" "pl_cfxs s3 y = Some g" for y g
        using old [OF that] K(1,2) L(2) by auto
    qed
    then show thesis using that by blast
  qed
  have "c \<notin> closed_legs s2" using S(6) by (simp add: closed_legs_def)
  then have "c \<notin> closed_legs s4" using pool_step_trans [OF s3(2) s4(2)] by (auto simp: pool_step_def)
  moreover have "\<not> CIRCUIT_IS_CONFLUX (pl_circs s4 c)" if "set (leg_ids f) \<noteq> {c} \<or> unl s b n \<noteq> None"
  proof -
    have "conflux_pending_nonce (pl_circs s c) = None" using D(11) [of c] K(2) by (simp add: purpose_ok_def)
    moreover have "conflux (pl_circs s2 c) = None" using S(7) that by blast
    ultimately show ?thesis using pool_step_trans [OF st s4(2)] pool_step_trans [OF s3(2) s4(2)] c
      unfolding CIRCUIT_IS_CONFLUX_def pool_step_def pool_rel_def by metis
  qed
  moreover have "kept n' s s4" if "pl_mem_pressure s" "\<not> same_set s n' c" for n'
  proof -
    have far: "\<not> (b \<and> n = n')" using that(2) K(1-3) L(2) by (auto simp: same_set_def)
    have k2: "kept n' s s2" using kept_leg_out [OF S(1) that(1)] kept_detach [OF S(4) _ far] keptD(1) kept_trans by blast
    then have k3: "kept n' s s3" using s3(3) keptD(1) far kept_trans by blast
    then have "s4 = s3" using s4(1) keptD(1) by (simp add: linked_refill_with_def)
    then show ?thesis using k3 by simp
  qed
  ultimately show ?thesis using S s3(1) s4(1) K(2,3) pool_step_trans [OF st s4(2)] by (cases ft) (simp_all add: linked_circuit_closed_with_def Let_def)
qed

text \<open>A circuit that has nothing to do with conflux may get any purpose.\<close>

lemma step_purpose:
  assumes inv: "pool_inv s" and c: "\<not> CIRCUIT_IS_CONFLUX (pl_circs s c)"
  shows "pool_step m s (upd_circ c (\<lambda>k. k\<lparr>purpose := p\<rparr>) s)" (is "pool_step m s ?s")
proof -
  have "pool_inv ?s" using streams_inv [OF inv] c
    by (intro pool_inv_env [OF inv]) (auto simp: live_circ_def exit_of_circ_def cpath_last_def cc_ready_def circuit_ccontrol_def option.rel_refl)
  moreover have "unmarked ?s = unmarked s" by (auto simp: unmarked_def)
  then have "close_measure m ?s = close_measure m s" by (simp add: close_measure_def)
  moreover have "pool_rel s ?s" by (auto simp: pool_rel_def)
  moreover have "closed_legs ?s = closed_legs s" by (auto simp: closed_legs_def is_leg_def)
  ultimately show ?thesis by (simp add: pool_step_def)
qed

text \<open>The pool hears that a circuit is gone, which is marked or leaves other legs behind.\<close>

lemma has_closed_ok:
  assumes inv: "pool_inv s" and m: "marks_below (max_launch e) k mark" and k: "close_measure (max_launch e) s < k" and p: "env_ok e"
    and mk: "marked_for_close (pl_circs s c) \<noteq> 0 \<or> (\<forall>b n x f. leg_of s b n x f c \<longrightarrow> set (leg_ids f) \<noteq> {c} \<or> unl s b n \<noteq> None)"
    and live: "\<And>x f. conflux (pl_circs s c) = Some x \<Longrightarrow> pl_cfxs s x = Some f \<Longrightarrow> \<not> dying_ok s c x f"
  shows "\<exists>s'. conflux_circuit_has_closed_with mark e c s = Some s' \<and> pool_step (max_launch e) s s' \<and> c \<notin> closed_legs s' \<and>
    (is_leg s c \<and> marked_for_close (pl_circs s c) = 0 \<longrightarrow> \<not> CIRCUIT_IS_CONFLUX (pl_circs s' c)) \<and>
    (\<forall>n. pl_mem_pressure s \<and> \<not> same_set s n c \<longrightarrow> kept n s s')"
proof (cases "conflux_pending_nonce (pl_circs s c)")
  case (Some n)
  then show ?thesis using unlinked_closed_ok [OF inv m k p Some] by (simp add: conflux_circuit_has_closed_with_def) blast
next
  case None
  show ?thesis
  proof (cases "conflux (pl_circs s c)")
    case None': None
    have "\<not> is_leg s c" using pool_invD(1,3) [OF inv] None None' by (fastforce simp: is_leg_def linked_ok_def unlinked_ok_def)
    then show ?thesis using None None' pool_step_refl [OF inv] kept_refl by (simp add: conflux_circuit_has_closed_with_def closed_legs_def)
  next
    case (Some x)
    then obtain f where f: "pl_cfxs s x = Some f" "leg_of s (is_origin (pl_circs s c)) (cfx_nonce f) x f c"
      using pool_invD(6) [OF inv Some] live by (auto simp: leg_of_def)
    then show ?thesis using linked_closed_ok [OF inv m k p f(2)] mk None Some unfolding conflux_circuit_has_closed_with_def by auto
  qed
qed

text \<open>One level of the recursion uses up one unit of the measure.\<close>

lemma mark_step:
  assumes m: "marks_below (max_launch e) k mark" and p: "env_ok e"
    and inv: "pool_inv s" and k: "close_measure (max_launch e) s < Suc k"
  shows "\<exists>s'. circuit_mark_for_close_with mark e r c s = Some s' \<and> pool_step (max_launch e) s s' \<and>
    (pe_close_delayed e (pl_circs s c) r \<noteq> None \<or> pl_next_circ s \<le> c \<or> marked_for_close (pl_circs s' c) \<noteq> 0) \<and>
    (\<forall>n. pl_mem_pressure s \<and> \<not> same_set s n c \<longrightarrow> kept n s s')"
proof -
  let ?m = "max_launch e"
  let ?s1 = "log_calls [Mark_for_close c r] (upd_circ c (\<lambda>k. k\<lparr>marked_for_close := 1\<rparr>) s)"
  let ?s2 = "\<lambda>s2. s2\<lparr>circuits_pending_close := smartlist_add (circuits_pending_close s2) c\<rparr>"
  note M = circuit_mark_for_close_with_def
  consider (delayed) new where "pe_close_delayed e (pl_circs s c) r = Some new"
    | (closed) "pe_close_delayed e (pl_circs s c) r = None" "marked_for_close (pl_circs s c) \<noteq> 0"
    | (close) "pe_close_delayed e (pl_circs s c) r = None" "marked_for_close (pl_circs s c) = 0" by fastforce
  then show ?thesis
  proof cases
    case delayed
    have n: "\<not> CIRCUIT_IS_CONFLUX (pl_circs s c)" using env_okD(2) [OF p, of "pl_circs s c" r] delayed by auto
    show ?thesis
      using delayed n env_okD(3) [OF p delayed] pool_step_refl [OF inv] step_purpose [OF inv n, of ?m new]
      by (cases "purpose (pl_circs s c) = new") (simp_all add: M circuit_change_purpose_with_def kept_def)
  next
    case closed
    then show ?thesis using pool_step_refl [OF inv] kept_refl by (simp add: M)
  next
    case close
    have inv1: "pool_inv ?s1" using streams_inv [OF inv]
      by (intro pool_inv_env [OF inv]) (auto simp: live_circ_def exit_of_circ_def cpath_last_def cc_ready_def circuit_ccontrol_def option.rel_refl)
    have r1: "pool_rel s ?s1" by (auto simp: pool_rel_def)
    have leg1: "is_leg ?s1 d = is_leg s d" for d by (simp add: is_leg_def)
    have end1: "pool_step ?m t (?s2 t)" if "pool_inv t" for t
      using streams_inv [OF that] by (intro pool_step_frame [OF that]) (auto simp: same_circ_def same_cfx_def option.rel_refl)
    have ms1: "close_measure ?m ?s1 \<le> close_measure ?m s"
    proof -
      have "unmarked ?s1 \<subseteq> unmarked s" by (auto simp: unmarked_def)
      then show ?thesis by (simp add: close_measure_def card_mono)
    qed
    obtain s2 where s2: "(if CIRCUIT_IS_CONFLUX (pl_circs ?s1 c) then conflux_circuit_has_closed_with mark e c ?s1 else Some ?s1) = Some s2"
      "pool_step ?m ?s1 s2" "c \<notin> closed_legs s2" "\<And>n. pl_mem_pressure ?s1 \<Longrightarrow> \<not> same_set ?s1 n c \<Longrightarrow> kept n ?s1 s2"
    proof (cases "CIRCUIT_IS_CONFLUX (pl_circs ?s1 c)")
      case False
      then have "\<not> is_leg s c" using pool_invD(1,3) [OF inv] by (fastforce simp: is_leg_def CIRCUIT_IS_CONFLUX_def linked_ok_def unlinked_ok_def)
      then have "c \<notin> closed_legs ?s1" using leg1 by (simp add: closed_legs_def)
      then show ?thesis using that False pool_step_refl [OF inv1] kept_refl by simp
    next
      case cfx: True
      then have "c < pl_next_circ s" using pool_invD(8,9) [OF inv, of c] by (fastforce simp: CIRCUIT_IS_CONFLUX_def)
      then have "close_measure ?m (upd_circ c (\<lambda>k. k\<lparr>marked_for_close := 1\<rparr>) s) < close_measure ?m s" using close by (intro mark_measure [OF inv]) auto
      then have k1: "close_measure ?m ?s1 < k" using k by (simp add: close_measure_def unmarked_def)
      have live: "\<not> dying_ok ?s1 c x f" if "conflux (pl_circs ?s1 c) = Some x" "pl_cfxs ?s1 x = Some f" for x f
        using pool_invD(6) [OF inv, of c x] that close(2) legs_nonempty [OF inv, of "cfx_nonce f" "is_origin (pl_circs s c)" x f]
        by (auto simp: dying_ok_def)
      have "\<exists>s2. conflux_circuit_has_closed_with mark e c ?s1 = Some s2 \<and> pool_step ?m ?s1 s2 \<and> c \<notin> closed_legs s2 \<and>
          (\<forall>n. pl_mem_pressure ?s1 \<and> \<not> same_set ?s1 n c \<longrightarrow> kept n ?s1 s2)"
        using has_closed_ok [OF inv1 m k1 p _ live] by fastforce
      then show ?thesis using that cfx by auto
    qed
    have "closed_legs ?s1 \<subseteq> insert c (closed_legs s)" by (auto simp: closed_legs_def leg1)
    then have st: "pool_step ?m s s2" using s2(2,3) ms1 pool_rel_trans [OF r1] by (auto simp: pool_step_def)
    have "circuit_mark_for_close_with mark e r c s = Some (?s2 s2)" using close s2(1) by (simp add: M Let_def)
    moreover have "pl_next_circ s \<le> c \<or> marked_for_close (pl_circs (?s2 s2) c) \<noteq> 0"
      using s2(2) by (auto simp: pool_step_def pool_rel_def)
    moreover have "kept n s (?s2 s2)" if "pl_mem_pressure s" "\<not> same_set s n c" for n
      using s2(4) [of n] that by (simp add: kept_def same_set_def)
    ultimately show ?thesis using pool_step_trans [OF st end1 [OF pool_step_inv [OF s2(2)]]] by blast
  qed
qed

lemma marks_below_Suc:
  assumes "marks_below (max_launch e) k mark" "env_ok e"
  shows "marks_below (max_launch e) (Suc k) (circuit_mark_for_close_with mark e)"
  unfolding marks_below_def
proof (intro allI impI, elim conjE)
  fix r c s
  assume h: "pool_inv s" "close_measure (max_launch e) s < Suc k"
  show "\<exists>s'. circuit_mark_for_close_with mark e r c s = Some s' \<and> pool_step (max_launch e) s s' \<and>
     (c < pl_next_circ s \<and> CIRCUIT_IS_CONFLUX (pl_circs s c) \<longrightarrow> marked_for_close (pl_circs s' c) \<noteq> 0) \<and>
     (\<forall>n. pl_mem_pressure s \<and> \<not> same_set s n c \<longrightarrow> kept n s s')"
    using mark_step [OF assms h, of r c] env_okD(2) [OF assms(2), of "pl_circs s c" r] by (fastforce simp: not_le)
qed

lemma marks_below_all: "env_ok e \<Longrightarrow> marks_below (max_launch e) k (circuit_mark_for_close e)"
proof (induction k)
  case (Suc k)
  have "circuit_mark_for_close e = circuit_mark_for_close_with (circuit_mark_for_close e) e"
    by (intro ext) (rule circuit_mark_for_close.simps)
  then show ?case using marks_below_Suc [OF Suc.IH [OF Suc.prems] Suc.prems] by simp
qed (simp add: marks_below_def)

section \<open>Closing returns\<close>

lemma close_ok:
  assumes "pool_inv s" and "env_ok e"
  shows "\<exists>s'. circuit_mark_for_close e r c s = Some s' \<and> pool_step (max_launch e) s s' \<and>
    (pe_close_delayed e (pl_circs s c) r \<noteq> None \<or> pl_next_circ s \<le> c \<or> marked_for_close (pl_circs s' c) \<noteq> 0)"
  using mark_step [OF marks_below_all [OF assms(2)] assms(2,1) lessI, of r c] by (simp flip: circuit_mark_for_close.simps) blast

lemma mark_list_closes:
  assumes "env_ok e" and "\<And>k r. pe_close_delayed e k r = None"
  shows "pool_inv s \<Longrightarrow> \<forall>c \<in> set cs. c < pl_next_circ s \<Longrightarrow>
    \<exists>s'. mark_list (circuit_mark_for_close e) (\<lambda>_. True) r cs s = Some s' \<and> pool_step (max_launch e) s s' \<and>
      (\<forall>c \<in> set cs. marked_for_close (pl_circs s' c) \<noteq> 0)"
proof (induction cs arbitrary: s)
  case Nil
  then show ?case by (simp add: pool_step_refl)
next
  case (Cons c cs)
  let ?m = "max_launch e"
  obtain s1 where s1: "circuit_mark_for_close e r c s = Some s1" "pool_step ?m s s1" "marked_for_close (pl_circs s1 c) \<noteq> 0"
    using close_ok [OF Cons.prems(1) assms(1), of r c] assms(2) Cons.prems(2) by auto
  have n1: "pl_next_circ s \<le> pl_next_circ s1" using s1(2) by (simp add: pool_step_def pool_rel_def)
  obtain s2 where s2: "mark_list (circuit_mark_for_close e) (\<lambda>_. True) r cs s1 = Some s2" "pool_step ?m s1 s2"
      "\<forall>c \<in> set cs. marked_for_close (pl_circs s2 c) \<noteq> 0"
    using Cons.IH [OF pool_step_inv [OF s1(2)]] Cons.prems(2) n1 by fastforce
  have "marked_for_close (pl_circs s2 c) \<noteq> 0" using step_marked [OF s2(2) _ s1(3)] Cons.prems(2) n1 by simp
  then show ?case using s1(1) s2 pool_step_trans [OF s1(2) s2(2)] by auto
qed

text \<open>A client set with two legs that are circuits 0 and 1; circuits 2 and on fail at the first hop.\<close>

definition pool_hop :: crypt_path_t where
  "pool_hop = \<lparr>cp_id = 7, cp_extend_info = Some \<lparr>identity_digest = [1]\<rparr>, pvt_crypto = \<lparr>rc_kind = RCK_TOR1, rc_tag = replicate 20 0\<rparr>,
     cp_package_window = 1000, cp_deliver_window = 1000,
     cp_ccontrol = Some \<lparr>sendme_pending_timestamps = [], ewma_rtt_usec = 0, min_rtt_usec = 0, max_rtt_usec = 0, bdp = 0,
       cwnd = 124, inflight = 0, next_cc_event = 0, next_cwnd_event = 0, in_slow_start = True, cwnd_full = False,
       blocked_chan = False, cwnd_inc_pct_ss = 100, cwnd_inc = 1, cwnd_min = 124, cwnd_inc_rate = 31, sendme_inc = 31,
       cc_alg = CC_ALG_VEGAS,
       vegas_params = \<lparr>ss_cwnd_cap = 600, ss_cwnd_max = 5000, vp_gamma = 186, vp_alpha = 186, vp_beta = 248, vp_delta = 310\<rparr>\<rparr>\<rparr>"

definition pool_leg :: "circ_id \<Rightarrow> conflux_leg_t" where
  "pool_leg c = \<lparr>leg_circ = c, last_seq_recv = 5, last_seq_sent = 3, circ_rtts_usec = 10, linked_sent_usec = 0\<rparr>"

definition pool_stream :: stream_node where
  "pool_stream = \<lparr>conn_is_ap = True, outbuf_len = 0, e_package_window = 500, e_deliver_window = 500, on_circuit = None,
     cpath_layer = None, has_hs_ident = False, bucket = token_bucket_rw_init 1000 1000 1000 0, drain_start_usec = 0,
     xoff_grace_period_start_usec = 0, drained_bytes = 0, prev_drained_bytes = 0, ewma_drain_rate = 0, ewma_rate_last_sent = 0,
     total_bytes_xmit = 0, num_xoff_recv = 0, num_xon_recv = 0, xoff_sent = False, xoff_received = False, next_stream = 0\<rparr>"

definition pool_opts :: or_options_t where
  "pool_opts = \<lparr>ConfluxEnabled = 1, ConfluxNumLegs = 0, ConfluxNumSets = 0, ConfluxNumLinkedSets = 0, ConfluxSetSelection = 0,
     ConfluxSetRttMax = 0, ConfluxSetRttPct = 0, AlwaysCongestionControl = True\<rparr>"

definition demo_pool :: "circ_id list \<Rightarrow> pool_t" where
  "demo_pool cs = \<lparr>pl_circs = (\<lambda>c. if c \<in> set cs then exit_circ\<lparr>is_origin := True, purpose := CIRCUIT_PURPOSE_CONFLUX_LINKED, conflux := Some 0, cpath := [pool_hop]\<rparr> else exit_circ),
     pl_cfxs = [0 \<mapsto> conflux_new\<lparr>cfx_nonce := [9], legs := map pool_leg cs, last_seq_delivered := 5\<rparr>],
     pl_next_circ = 2, pl_next_cfx = 1, pl_conns = (\<lambda>_. pool_stream),
     client_linked_pool = [([9], 0)], client_unlinked_pool = [], server_linked_pool = [], server_unlinked_pool = [],
     pl_shutting_down = False, pl_mem_pressure = False, pl_total_ooo_q_bytes = 0, circuits_pending_close = [], pl_calls = []\<rparr>"

definition demo_env :: "(circ_id \<Rightarrow> build_outcome) \<Rightarrow> pool_env" where
  "demo_env build = \<lparr>pe_params = conflux_params_init, pe_opts = pool_opts, pe_cc = demo_globals, pe_client_ux = 1, pe_now = 0, pe_cbt_usec = 60000000,
     pe_have_exits = True, pe_new_circ = (\<lambda>_. exit_circ), pe_build = (\<lambda>c _. build c),
     pe_close_delayed = (\<lambda>_ _. None), pe_memory = (\<lambda>_ _. None), pe_sent = (\<lambda>_. True)\<rparr>"

lemma demo_pool_inv:
  assumes "cs \<noteq> []" "distinct cs" "set cs \<subseteq> {0, 1}"
  shows "pool_inv (demo_pool cs)"
proof -
  have sl: "stream_list (pl_conns (demo_pool cs)) p \<noteq> None" for p
    by (subst stream_list.simps) (simp add: stream_list.simps [of _ 0] demo_pool_def pool_stream_def)
  have ids: "leg_ids (conflux_new\<lparr>cfx_nonce := n, legs := map pool_leg cs, last_seq_delivered := d\<rparr>) = cs"
      "leg_ids (conflux_new\<lparr>cfx_nonce := n, legs := map pool_leg cs\<rparr>) = cs" for n d
    by (simp_all add: leg_ids_def pool_leg_def o_def)
  show ?thesis
    by (rule pool_invI)
      (use assms sl in \<open>auto simp: demo_pool_def linked_pool_get_def unlinked_pool_get_def linked_ok_def ids leg_circ_ok_def cc_ready_def
         circuit_ccontrol_def exit_circ_def pool_hop_def exit_of_circ_def cpath_last_def purpose_ok_def split: if_splits\<close>)
qed

lemma demo_env_ok: "(\<And>c path. build c = Built path \<Longrightarrow> path \<noteq> [] \<and> cp_extend_info (last path) \<noteq> None) \<Longrightarrow> env_ok (demo_env build)"
  by (auto simp: env_ok_def builds_paths_def delays_others_def oom_spares_set_def demo_env_def)





text \<open>
  C7: tearing down a set reaches every leg.  From consistent pools, when the environment is as
  \<^term>\<open>env_ok\<close> says, no close is delayed, the set has no recovery set and is not already being torn down, \<^verbatim>\<open>conflux_mark_all_for_close\<close>
  returns with consistent pools and every circuit that was a leg of the set is marked for close.
\<close>

theorem full_teardown_closes_legs:
  assumes "pool_inv s" and "env_ok e" and "\<And>k r. pe_close_delayed e k r = None"
    and "linked_pool_get nonce b s = Some x" and "unlinked_pool_get nonce b s = None"
    and "pl_cfxs s x = Some cfx" and "\<not> in_full_teardown cfx"
  shows "\<exists>s'. conflux_mark_all_for_close e nonce b reason s = Some s' \<and> pool_inv s' \<and>
    (\<forall>c \<in> set (leg_ids cfx). marked_for_close (pl_circs s' c) \<noteq> 0)"
proof -
  let ?s = "upd_cfx x (cfx\<lparr>in_full_teardown := True\<rparr>) s"
  have st: "pool_step (max_launch e) s ?s" by (rule step_cfx_frame [OF assms(1,6)]) (simp_all add: same_cfx_def)
  have "c < pl_next_circ ?s" if "c \<in> set (leg_ids cfx)" for c
    using pool_invD(1) [OF assms(1,4)] pool_invD(8) [OF assms(1), of c] assms(6) that by (fastforce simp: linked_ok_def)
  then show ?thesis
    using mark_list_closes [OF assms(2,3) pool_step_inv [OF st], of "leg_ids cfx" reason] assms(4-7)
    by (auto simp: conflux_mark_all_for_close_def conflux_mark_all_for_close_with_def leg_ids_def pool_step_def)
qed

theorem full_teardown_closes_legs_witness:
  "\<exists>s'. conflux_mark_all_for_close (demo_env (\<lambda>_. First_hop_failed [] END_CIRC_REASON_CHANNEL_CLOSED)) [9] True END_CIRC_REASON_FINISHED
      (demo_pool [0, 1]) = Some s' \<and> pool_inv s' \<and> marked_for_close (pl_circs s' 0) \<noteq> 0 \<and> marked_for_close (pl_circs s' 1) \<noteq> 0"
  using full_teardown_closes_legs [OF demo_pool_inv [of "[0, 1]"] demo_env_ok [of "\<lambda>_. First_hop_failed [] END_CIRC_REASON_CHANNEL_CLOSED"], of "[9]" True 0
      "conflux_new\<lparr>cfx_nonce := [9], legs := map pool_leg [0, 1], last_seq_delivered := 5\<rparr>" END_CIRC_REASON_FINISHED]
  by (simp add: demo_pool_def demo_env_def linked_pool_get_def unlinked_pool_get_def leg_ids_def pool_leg_def conflux_new_def)

end
