(* ===== verification/ConfluxLinkInv.thy ===== *)
theory ConfluxLinkInv
  imports ConfluxLink ConfluxTeardown
begin

text \<open>
  The handshake keeps the pools consistent: finalizing a set moves its legs, linking and measuring
  only touch the leg, and whatever fails closes the circuit, which \<^theory_text>\<open>ConfluxTeardown\<close> covers.
\<close>

section \<open>Adding a leg to a set\<close>

text \<open>What nobody but the pool changes of a circuit.\<close>

definition core_same :: "circuit_t \<Rightarrow> circuit_t \<Rightarrow> bool" where
  "core_same k k' = (is_origin k' = is_origin k \<and> cpath k' = cpath k \<and> c_ccontrol k' = c_ccontrol k \<and> marked_for_close k' = marked_for_close k)"

definition circ_same :: "circuit_t \<Rightarrow> circuit_t \<Rightarrow> bool" where
  "circ_same k k' = (core_same k k' \<and> conflux k' = conflux k \<and> conflux_pending_nonce k' = conflux_pending_nonce k)"

lemma core_same_ok: "core_same k k' \<Longrightarrow> leg_circ_ok b k' = leg_circ_ok b k \<and> cc_ready k' = cc_ready k"
  by (auto simp: core_same_def leg_circ_ok_def exit_of_circ_def cpath_last_def cc_ready_def circuit_ccontrol_def)

lemma circ_same_refl [simp]: "circ_same k k" and circ_same_trans: "circ_same k k' \<Longrightarrow> circ_same k' k'' \<Longrightarrow> circ_same k k''"
  and core_same_refl [simp]: "core_same k k" and core_same_trans: "core_same k k' \<Longrightarrow> core_same k' k'' \<Longrightarrow> core_same k k''"
  by (simp_all add: circ_same_def core_same_def)

lemma circ_same_origin: "circ_same k k' \<Longrightarrow> is_origin k' = is_origin k"
  by (simp add: circ_same_def core_same_def)

lemma sync_same: "circ_same (C d) (conflux_sync_circ_fields f r C d) \<and> purpose (conflux_sync_circ_fields f r C d) = purpose (C d)"
proof -
  have "circ_same (C d) (foldl (\<lambda>m l. if leg_circ l = r then m else m(leg_circ l := sync_from (m r) (m (leg_circ l)))) C ls d) \<and>
      purpose (foldl (\<lambda>m l. if leg_circ l = r then m else m(leg_circ l := sync_from (m r) (m (leg_circ l)))) C ls d) = purpose (C d)" for ls
  proof (induction ls rule: rev_induct)
    case (snoc l ls)
    then show ?case by (auto simp: circ_same_def core_same_def sync_from_def)
  qed simp
  then show ?thesis by (simp add: conflux_sync_circ_fields_def)
qed

definition new_leg :: "circ_id \<Rightarrow> leg_t \<Rightarrow> conflux_leg_t" where
  "new_leg c leg = \<lparr>leg_circ = c, last_seq_recv = link_last_seqno_sent (lg_link leg), last_seq_sent = link_last_seqno_recv (lg_link leg),
     circ_rtts_usec = lg_rtt_usec leg, linked_sent_usec = lg_link_sent_usec leg\<rparr>"

definition same_pools :: "pool_t \<Rightarrow> pool_t \<Rightarrow> bool" where
  "same_pools s s' = ((\<forall>b n. lnk s' b n = lnk s b n) \<and> (\<forall>b n. unl s' b n = unl s b n) \<and> pl_next_circ s' = pl_next_circ s \<and>
     pl_next_cfx s' = pl_next_cfx s \<and> pl_conns s' = pl_conns s)"

lemma same_pools_trans: "same_pools s s' \<Longrightarrow> same_pools s' s'' \<Longrightarrow> same_pools s s''" and same_pools_refl [simp]: "same_pools s s"
  by (simp_all add: same_pools_def)

lemma same_pools_upd [simp]: "same_pools s (upd_circ c f s)" "same_pools s (upd_cfx x g s)"
  by (simp_all add: same_pools_def)

lemma cfx_add_leg_ok:
  assumes f: "pl_cfxs s x = Some f" and c: "lg_circ leg = Some c" "cfx_nonce f = link_nonce (lg_link leg)"
    and b: "\<And>d. d \<in> insert c (set (leg_ids f)) \<Longrightarrow> is_origin (pl_circs s d) = b"
  shows "\<exists>s' a. cfx_add_leg x leg s = Some s' \<and> same_pools s s' \<and> pl_cfxs s' = (pl_cfxs s)(x \<mapsto> f\<lparr>alg := a, legs := legs f @ [new_leg c leg]\<rparr>) \<and>
    (\<forall>d. circ_same (pl_circs s d) (pl_circs s' d)) \<and>
    (\<forall>d. purpose (pl_circs s' d) = (if d = c \<and> b then CIRCUIT_PURPOSE_CONFLUX_LINKED else purpose (pl_circs s d)))"
proof -
  define f' where "f' = f\<lparr>alg := conflux_choose_algorithm (link_desired_ux (lg_link leg)), legs := legs f @ [new_leg c leg]\<rparr>"
  define d where "d = leg_circ (hd (legs f'))"
  have get: "smartlist_get (legs f') 0 = Some (hd (legs f'))" by (simp add: smartlist_get_def f'_def hd_conv_nth)
  have d: "is_origin (pl_circs s d) = b" "is_origin (pl_circs s c) = b"
    using b [of d] b [of c] by (cases "legs f"; simp add: d_def f'_def new_leg_def leg_ids_def)+
  define s1 where "s1 = validate_circ_has_no_streams c (upd_cfx x f' s)"
  define s2 where "s2 = upd_circ c (share_streams (pl_circs s1 d)) s1"
  define s3 where "s3 = (if b then s2\<lparr>pl_circs := conflux_sync_circ_fields f' d (pl_circs s2)\<rparr> else s2)"
  define s4 where "s4 = (if b then upd_circ c (\<lambda>k. k\<lparr>purpose := CIRCUIT_PURPOSE_CONFLUX_LINKED\<rparr>) s3 else s3)"
  have v1: "circ_same (pl_circs s i) (pl_circs s1 i)" for i by (simp add: s1_def validate_circ_has_no_streams_def circ_same_def core_same_def)
  have v2: "circ_same (pl_circs s1 i) (pl_circs s2 i)" for i by (simp add: s2_def share_streams_def circ_same_def core_same_def)
  have v3: "circ_same (pl_circs s2 i) (pl_circs s3 i)" for i using sync_same by (simp add: s3_def)
  have v4: "circ_same (pl_circs s3 i) (pl_circs s4 i)" for i by (simp add: s4_def circ_same_def core_same_def)
  have all: "circ_same (pl_circs s i) (pl_circs s4 i)" for i
    by (rule circ_same_trans [OF circ_same_trans [OF circ_same_trans [OF v1 v2] v3] v4])
  have o: "is_origin (pl_circs s1 d) = b" "is_origin (pl_circs s1 c) = b" "is_origin (pl_circs s3 c) = b"
    by (simp_all only: circ_same_origin [OF v1] circ_same_origin [OF v2] circ_same_origin [OF v3] d)
  have pools: "same_pools s s4" "pl_cfxs s4 = (pl_cfxs s)(x \<mapsto> f')"
    by (simp_all add: s4_def s3_def s2_def s1_def validate_circ_has_no_streams_def same_pools_def unlinked_pool_get_def linked_pool_get_def upd_circ_def upd_cfx_def)
  have "cfx_add_leg x leg s = cfx_sync_leg f' c (upd_cfx x f' s)"
    using f c by (simp add: cfx_add_leg_def Let_def new_leg_def smartlist_add_def f'_def)
  also have "\<dots> = Some s4"
    by (simp add: cfx_sync_leg_def get s1_def [symmetric] d_def [symmetric] o(1,2) Let_def s2_def [symmetric]
        conflux_validate_stream_lists_def) (use o(3) in \<open>auto simp: s3_def s4_def\<close>)
  finally have "cfx_add_leg x leg s = Some s4" .
  moreover have "purpose (pl_circs s4 d) = (if d = c \<and> b then CIRCUIT_PURPOSE_CONFLUX_LINKED else purpose (pl_circs s d))" for d
    using sync_same [of "pl_circs s2" d f'] by (simp add: s4_def s3_def s2_def s1_def share_streams_def validate_circ_has_no_streams_def)
  ultimately show ?thesis using all pools by (auto simp: f'_def)
qed

section \<open>Finalizing\<close>

fun fin_order :: "leg_t list \<Rightarrow> leg_t list" where
  "fin_order [] = []"
| "fin_order (l # ls) = l # rev ls"

lemma fin_order_Cons: "fin_order (l # ls) = l # fin_order (if ls = [] then [] else last ls # butlast ls)"
  by (cases ls rule: rev_cases) simp_all

lemma set_fin_order [simp]: "set (fin_order ls) = set ls" "length (fin_order ls) = length ls" "distinct (map g (fin_order ls)) = distinct (map g ls)"
  by (cases ls; simp flip: rev_map)+

lemma rotate_last: "ls \<noteq> [] \<Longrightarrow> set (last ls # butlast ls) = set ls"
  by (cases ls rule: rev_cases) auto

lemma finalize_loop_ok:
  "\<lbrakk>pl_cfxs s x = Some f; \<And>d. d \<in> set (leg_ids f) \<Longrightarrow> is_origin (pl_circs s d) = b;
    \<And>l. l \<in> set ls \<Longrightarrow> \<exists>c. lg_circ l = Some c \<and> is_origin (pl_circs s c) = b \<and> link_nonce (lg_link l) = cfx_nonce f\<rbrakk> \<Longrightarrow>
   \<exists>s' a. finalize_loop x ls s = Some s' \<and> same_pools s s' \<and>
     pl_cfxs s' = (pl_cfxs s)(x \<mapsto> f\<lparr>alg := a, legs := legs f @ map (\<lambda>l. new_leg (the (lg_circ l)) l) (fin_order ls)\<rparr>) \<and>
     (\<forall>d. if Some d \<in> lg_circ ` set ls
          then core_same (pl_circs s d) (pl_circs s' d) \<and> conflux (pl_circs s' d) = Some x \<and> conflux_pending_nonce (pl_circs s' d) = None
          else circ_same (pl_circs s d) (pl_circs s' d)) \<and>
     (\<forall>d. purpose (pl_circs s' d) = (if b \<and> Some d \<in> lg_circ ` set ls then CIRCUIT_PURPOSE_CONFLUX_LINKED else purpose (pl_circs s d)))"
proof (induction x ls s arbitrary: f rule: finalize_loop.induct)
  case (1 x s)
  then show ?case by (intro exI [of _ s] exI [of _ "alg f"]) (auto simp: fun_upd_idem)
next
  case (2 x leg ls s)
  obtain c where c: "lg_circ leg = Some c" "is_origin (pl_circs s c) = b" "link_nonce (lg_link leg) = cfx_nonce f" using "2.prems"(3) by auto
  have o: "is_origin (pl_circs s d) = b" if "d \<in> insert c (set (leg_ids f))" for d using that c(2) "2.prems"(2) by blast
  obtain s1 a where s1: "cfx_add_leg x leg s = Some s1" "same_pools s s1" "pl_cfxs s1 = (pl_cfxs s)(x \<mapsto> f\<lparr>alg := a, legs := legs f @ [new_leg c leg]\<rparr>)"
      "\<And>d. circ_same (pl_circs s d) (pl_circs s1 d)"
      "\<And>d. purpose (pl_circs s1 d) = (if d = c \<and> b then CIRCUIT_PURPOSE_CONFLUX_LINKED else purpose (pl_circs s d))"
    using cfx_add_leg_ok [OF "2.prems"(1) c(1) c(3) [symmetric] o] by blast
  let ?ls = "if ls = [] then [] else last ls # butlast ls"
  let ?s2 = "leg_free leg (upd_circ c (\<lambda>k. k\<lparr>conflux := Some x\<rparr>) s1)"
  let ?f = "f\<lparr>alg := a, legs := legs f @ [new_leg c leg]\<rparr>"
  have set: "set ?ls = set ls" using rotate_last by auto
  have o2: "is_origin (pl_circs ?s2 d) = is_origin (pl_circs s d)" for d
    using circ_same_origin [OF s1(4)] c(1) by (cases "d = c") (simp_all add: leg_free_def)
  have p: "pl_cfxs ?s2 x = Some ?f" using s1(3) c(1) by (simp add: leg_free_def)
  have "is_origin (pl_circs ?s2 d) = b" if "d \<in> set (leg_ids ?f)" for d using o [of d] that o2 by (auto simp: leg_ids_def new_leg_def)
  moreover have "\<exists>c. lg_circ l = Some c \<and> is_origin (pl_circs ?s2 c) = b \<and> link_nonce (lg_link l) = cfx_nonce ?f" if "l \<in> set ?ls" for l
    using "2.prems"(3) [of l] that set o2 by auto
  ultimately obtain s3 a' where s3: "finalize_loop x ?ls ?s2 = Some s3" "same_pools ?s2 s3"
      "pl_cfxs s3 = (pl_cfxs ?s2)(x \<mapsto> ?f\<lparr>alg := a', legs := legs ?f @ map (\<lambda>l. new_leg (the (lg_circ l)) l) (fin_order ?ls)\<rparr>)"
      "\<And>d. if Some d \<in> lg_circ ` set ls
          then core_same (pl_circs ?s2 d) (pl_circs s3 d) \<and> conflux (pl_circs s3 d) = Some x \<and> conflux_pending_nonce (pl_circs s3 d) = None
          else circ_same (pl_circs ?s2 d) (pl_circs s3 d)"
      "\<And>d. purpose (pl_circs s3 d) = (if b \<and> Some d \<in> lg_circ ` set ls then CIRCUIT_PURPOSE_CONFLUX_LINKED else purpose (pl_circs ?s2 d))"
    using "2.IH" [OF s1(1) c(1) p] unfolding set by blast
  have "finalize_loop x (leg # ls) s = Some s3" using s1(1) c(1) s3(1) by simp
  moreover have "same_pools s s3" using s1(2) s3(2) c(1) by (simp add: same_pools_def leg_free_def)
  moreover have "pl_cfxs s3 = (pl_cfxs s)(x \<mapsto> f\<lparr>alg := a', legs := legs f @ map (\<lambda>l. new_leg (the (lg_circ l)) l) (fin_order (leg # ls))\<rparr>)"
    unfolding fin_order_Cons using s1(3) s3(3) c(1) by (simp add: leg_free_def)
  moreover have "if Some d \<in> lg_circ ` set (leg # ls)
      then core_same (pl_circs s d) (pl_circs s3 d) \<and> conflux (pl_circs s3 d) = Some x \<and> conflux_pending_nonce (pl_circs s3 d) = None
      else circ_same (pl_circs s d) (pl_circs s3 d)" for d
    using s1(4) [of d] s3(4) [of d] c(1) by (cases "d = c") (auto simp: leg_free_def circ_same_def core_same_def split: if_splits)
  moreover have "purpose (pl_circs s3 d) = (if b \<and> Some d \<in> lg_circ ` set (leg # ls) then CIRCUIT_PURPOSE_CONFLUX_LINKED else purpose (pl_circs s d))" for d
    using s1(5) [of d] s3(5) [of d] c(1) by (cases "d = c") (simp_all add: leg_free_def)
  ultimately show ?case by blast
qed

text \<open>The legs of an unlinked set become legs of its object, which moves to the linked pool.\<close>

lemma inv_finalized:
  assumes inv: "pool_inv s" and u: "unl s b n = Some u" and f: "pl_cfxs s (ul_cfx u) = Some f"
    and ls: "ul_legs u \<noteq> []" "\<And>l. l \<in> set (ul_legs u) \<Longrightarrow> lg_linked l"
    and f': "cfx_nonce f' = n" "leg_ids f' = leg_ids f @ map (\<lambda>l. the (lg_circ l)) (fin_order (ul_legs u))"
    and v: "\<And>b' n'. lnk s' b' n' = (if b' = b \<and> n' = n then Some (ul_cfx u) else lnk s b' n')"
      "\<And>b' n'. unl s' b' n' = (if b' = b \<and> n' = n then None else unl s b' n')" "pl_cfxs s' = (pl_cfxs s)(ul_cfx u \<mapsto> f')"
      "pl_next_circ s' = pl_next_circ s" "pl_next_cfx s' = pl_next_cfx s" "pl_conns s' = pl_conns s"
    and c: "\<And>d. Some d \<in> lg_circ ` set (ul_legs u) \<Longrightarrow> core_same (pl_circs s d) (pl_circs s' d) \<and> conflux (pl_circs s' d) = Some (ul_cfx u) \<and>
        conflux_pending_nonce (pl_circs s' d) = None" "\<And>d. Some d \<notin> lg_circ ` set (ul_legs u) \<Longrightarrow> circ_same (pl_circs s d) (pl_circs s' d)"
    and pk: "\<And>d. purpose_ok (pl_circs s' d)"
  shows "pool_inv s'"
proof -
  note D = pool_invD [OF inv]
  let ?x = "ul_cfx u" and ?L = "\<lambda>d. Some d \<in> lg_circ ` set (ul_legs u)"
  have leg: "conflux_pending_nonce (pl_circs s d) = Some n \<and> conflux (pl_circs s d) = None \<and> leg_circ_ok b (pl_circs s d) \<and> cc_ready (pl_circs s d)" if "?L d" for d
    using D(3) [OF u] ls(2) that by (force simp: unlinked_ok_def)
  have core: "core_same (pl_circs s d) (pl_circs s' d)" for d using c(1) [of d] c(2) [of d] by (cases "?L d") (simp_all add: circ_same_def)
  have orig: "is_origin (pl_circs s' d) = is_origin (pl_circs s d)" "marked_for_close (pl_circs s' d) = marked_for_close (pl_circs s d)" for d
    using core [of d] by (simp_all add: core_same_def)
  have ids: "set (leg_ids f') = set (leg_ids f) \<union> {d. ?L d}"
  proof -
    have "(\<lambda>l. the (lg_circ l)) ` set (ul_legs u) = {d. ?L d}" using D(3) [OF u] by (force simp: unlinked_ok_def image_iff)
    then show ?thesis using f'(2) by simp
  qed
  have obj: "cfx_nonce f = n" "if is_for_linked_set u then lnk s b n = Some ?x else lnk s b n = None \<and> legs f = []"
    using D(4) [OF u] f by (simp_all add: unlinked_obj_def)
  have old: "linked_ok (pl_circs s) b ?x f" if "legs f \<noteq> []" using obj that D(1) [of n b ?x] f by (auto split: if_splits)
  have other: "y \<noteq> ?x" if "lnk s b' n' = Some y" "\<not> (b' = b \<and> n' = n)" for b' n' y
    using obj(2) that lnk_key [OF inv] own_object(1) [OF inv u] by (metis (full_types))
  have other': "ul_cfx w \<noteq> ?x" if "unl s b' n' = Some w" "\<not> (b' = b \<and> n' = n)" for b' n' w
    using obj(2) that unl_of_linked [OF inv] own_object(2) [OF inv u] by (metis (full_types))
  have dy: "dying_ok s' d y g" if g: "dying_ok s d y g" "conflux (pl_circs s d) = Some y" for d y g
  proof -
    have "y \<noteq> ?x" using g(1) u by (auto simp: dying_ok_def)
    then have "conflux (pl_circs s' e) = Some y \<Longrightarrow> e = d" for e using g(1) c(1) [of e] c(2) [of e] by (cases "?L e") (auto simp: dying_ok_def circ_same_def)
    moreover have "lnk s' (is_origin (pl_circs s d)) (cfx_nonce g) = None" "unl s' (is_origin (pl_circs s d)) (cfx_nonce g) = None"
      using g(1) dying_key(1) [OF g(1) u] unfolding v by (auto simp: dying_ok_def)
    ultimately show ?thesis using g(1) v(2) by (auto simp: dying_ok_def orig)
  qed
  show ?thesis
  proof (rule pool_invI)
    fix b' n' y
    assume y: "lnk s' b' n' = Some y"
    show "\<exists>g. pl_cfxs s' y = Some g \<and> cfx_nonce g = n' \<and> linked_ok (pl_circs s') b' y g"
    proof (cases "b' = b \<and> n' = n")
      case True
      have "legs f' \<noteq> []" using f'(2) ls(1) by (cases "ul_legs u") (auto simp: leg_ids_def)
      moreover have "distinct (map (\<lambda>l. the (lg_circ l)) (ul_legs u))"
        using D(3) [OF u] by (auto simp: unlinked_ok_def distinct_map inj_on_def) (metis option.sel)
      then have "distinct (leg_ids f')" using leg old f'(2) D(3) [OF u] by (fastforce simp: leg_ids_def linked_ok_def unlinked_ok_def)
      moreover have "conflux (pl_circs s' d) = Some ?x \<and> conflux_pending_nonce (pl_circs s' d) = None \<and> leg_circ_ok b (pl_circs s' d) \<and> cc_ready (pl_circs s' d)"
        if "d \<in> set (leg_ids f')" for d
      proof (cases "?L d")
        case True
        then show ?thesis using c(1) leg core_same_ok [OF core] by simp
      next
        case False
        then have d: "d \<in> set (leg_ids f)" using that ids by simp
        then have "legs f \<noteq> []" by (auto simp: leg_ids_def)
        then have "linked_ok (pl_circs s) b ?x f" by (rule old)
        then show ?thesis using c(2) [OF False] d core_same_ok [OF core] by (simp add: linked_ok_def circ_same_def)
      qed
      ultimately show ?thesis using True y f'(1) by (simp add: v linked_ok_def)
    next
      case False
      then have y': "lnk s b' n' = Some y" using y by (auto simp: v split: if_splits)
      obtain g where g: "pl_cfxs s y = Some g" "cfx_nonce g = n'" "linked_ok (pl_circs s) b' y g" using D(1) [OF y'] by blast
      have "\<not> ?L d" if "d \<in> set (leg_ids g)" for d using leg [of d] that g(3) by (auto simp: linked_ok_def)
      then have "linked_ok (pl_circs s') b' y g" using g(3) c(2) core_same_ok [OF core] by (simp add: linked_ok_def circ_same_def)
      then show ?thesis using g other [OF y' False] by (simp add: v)
    qed
  next
    fix b' n' w
    assume "unl s' b' n' = Some w"
    then have w: "unl s b' n' = Some w" "\<not> (b' = b \<and> n' = n)" by (auto simp: v split: if_splits)
    show "ul_is_client w = b'" using D(2) [OF w(1)] .
    have nl: "\<not> ?L d" if h: "l \<in> set (ul_legs w)" "lg_circ l = Some d" for l d
    proof
      assume "?L d"
      then have k: "conflux_pending_nonce (pl_circs s d) = Some n" "is_origin (pl_circs s d) = b" using leg by (auto simp: leg_circ_ok_def)
      show False using pending_unique(2) [OF inv k(1) w(1) h] k(2) w(2) by simp
    qed
    show "unlinked_ok (pl_circs s') b' n' (ul_legs w)"
      unfolding unlinked_ok_def
    proof (intro conjI ballI)
      show "distinct (map lg_circ (ul_legs w))" using D(3) [OF w(1)] by (simp add: unlinked_ok_def)
      fix l
      assume l: "l \<in> set (ul_legs w)"
      then obtain d where d: "lg_circ l = Some d" "conflux_pending_nonce (pl_circs s d) = Some n'" "conflux (pl_circs s d) = None"
        "leg_circ_ok b' (pl_circs s d)" "link_nonce (lg_link l) = n'" "lg_linked l \<longrightarrow> cc_ready (pl_circs s d)"
        using D(3) [OF w(1)] unfolding unlinked_ok_def by blast
      show "\<exists>c. lg_circ l = Some c \<and> conflux_pending_nonce (pl_circs s' c) = Some n' \<and> conflux (pl_circs s' c) = None \<and>
          leg_circ_ok b' (pl_circs s' c) \<and> link_nonce (lg_link l) = n' \<and> (lg_linked l \<longrightarrow> cc_ready (pl_circs s' c))"
        using c(2) [OF nl [OF l d(1)]] d core_same_ok [OF core] by (simp add: circ_same_def)
    qed
    show "unlinked_obj (lnk s' b' n') n' w (pl_cfxs s' (ul_cfx w))"
      using D(4) [OF w(1)] other' [OF w] w(2) by (auto simp: v unlinked_obj_def split: if_splits)
  next
    fix d y
    assume y: "conflux (pl_circs s' d) = Some y"
    show "\<exists>g. pl_cfxs s' y = Some g \<and> (d \<in> set (leg_ids g) \<and> lnk s' (is_origin (pl_circs s' d)) (cfx_nonce g) = Some y \<or> dying_ok s' d y g)"
    proof (cases "?L d")
      case True
      then have "y = ?x" "d \<in> set (leg_ids f')" "is_origin (pl_circs s d) = b" using y c(1) ids leg by (auto simp: leg_circ_ok_def)
      then show ?thesis using f'(1) by (simp add: v orig)
    next
      case False
      then have d: "conflux (pl_circs s d) = Some y" using y c(2) by (simp add: circ_same_def)
      obtain g where g: "pl_cfxs s y = Some g" "d \<in> set (leg_ids g) \<and> lnk s (is_origin (pl_circs s d)) (cfx_nonce g) = Some y \<or> dying_ok s d y g"
        using D(6) [OF d] by blast
      show ?thesis
      proof (cases "dying_ok s d y g")
        case True
        then have "y \<noteq> ?x" using u by (auto simp: dying_ok_def)
        then show ?thesis using g(1) dy [OF True d] by (simp add: v)
      next
        case False
        then have l: "d \<in> set (leg_ids g)" "lnk s (is_origin (pl_circs s d)) (cfx_nonce g) = Some y" using g(2) by auto
        show ?thesis
        proof (cases "y = ?x")
          case True
          then have "g = f" "is_origin (pl_circs s d) = b" using g(1) f l obj other [OF l(2)] by auto
          then show ?thesis using True l(1) ids f'(1) by (simp add: v orig)
        next
          case False
          have "y = ?x" if h: "is_origin (pl_circs s d) = b" "cfx_nonce g = n"
            using l(2) obj(2) unfolding h by (cases "is_for_linked_set u") simp_all
          then have "\<not> (is_origin (pl_circs s d) = b \<and> cfx_nonce g = n)" using False by blast
          then have "lnk s' (is_origin (pl_circs s d)) (cfx_nonce g) = Some y" unfolding v using l(2) by auto
          then show ?thesis using False g(1) l(1) by (simp add: v(3) orig)
        qed
      qed
    qed
  next
    show "x' < pl_next_cfx s'" if "pl_cfxs s' x' = Some g" for x' g using D(7) [of x'] D(7) [OF f] that v(5) by (auto simp: v split: if_splits)
    show "conflux (pl_circs s' d) = None \<and> conflux_pending_nonce (pl_circs s' d) = None" if "pl_next_circ s' \<le> d" for d
    proof -
      have "\<not> ?L d" using leg [of d] D(9) [of d] that v(4) by auto
      then show ?thesis using D(8,9) [of d] that c(2) v(4) by (simp add: circ_same_def)
    qed
    show "\<exists>ps. stream_list (pl_conns s') p = Some ps" for p using D(10) v(6) by simp
    show "ul_cfx w \<noteq> ul_cfx w'" if "unl s' True n' = Some w" "unl s' False n' = Some w'" for n' w w' using D(5) [of n' w w'] that by (simp add: v split: if_splits)
    show "purpose_ok (pl_circs s' d)" for d by (rule pk)
  qed
qed

lemma linked_add_view:
  assumes "pl_cfxs s x = Some f"
  shows "\<exists>s'. linked_pool_add x b s = Some s' \<and> (\<forall>b' n'. lnk s' b' n' = (if b' = b \<and> n' = cfx_nonce f then Some x else lnk s b' n')) \<and>
    (\<forall>b' n'. unl s' b' n' = unl s b' n') \<and> pl_cfxs s' = pl_cfxs s \<and> pl_circs s' = pl_circs s \<and> pl_next_circ s' = pl_next_circ s \<and>
    pl_next_cfx s' = pl_next_cfx s \<and> pl_conns s' = pl_conns s"
  using assms by (cases b) (auto simp: linked_pool_add_def linked_pool_get_def unlinked_pool_get_def AList.update_conv')

lemma unlinked_del_view:
  assumes "pl_cfxs s (ul_cfx u) = Some f"
  shows "\<exists>s'. unlinked_pool_del u b s = Some s' \<and> (\<forall>b' n'. unl s' b' n' = (if b' = b \<and> n' = cfx_nonce f then None else unl s b' n')) \<and>
    (\<forall>b' n'. lnk s' b' n' = lnk s b' n') \<and> pl_cfxs s' = pl_cfxs s \<and> pl_circs s' = pl_circs s \<and> pl_next_circ s' = pl_next_circ s \<and>
    pl_next_cfx s' = pl_next_cfx s \<and> pl_conns s' = pl_conns s"
  using assms by (cases b) (auto simp: unlinked_pool_del_def linked_pool_get_def unlinked_pool_get_def AList.delete_conv')

lemma validate_legs_ok:
  assumes "\<And>l. l \<in> set ls \<Longrightarrow> lg_circ l \<noteq> None" and "pool_inv s"
  shows "\<exists>v s'. validate_legs_loop u d first ls valid s = Some (v, s') \<and> pool_step m s s' \<and> same_pools s s' \<and> pl_cfxs s' = pl_cfxs s \<and>
    (\<forall>i. circ_same (pl_circs s i) (pl_circs s' i)) \<and> (v \<longrightarrow> valid \<and> (\<forall>l \<in> set ls. link_last_seqno_sent (lg_link l) \<le> d))"
  using assms
proof (induction ls arbitrary: first valid s)
  case Nil
  then show ?case by (auto simp: pool_step_refl)
next
  case (Cons l ls)
  obtain c where c: "lg_circ l = Some c" using Cons.prems(1) by fastforce
  let ?s = "validate_circ_has_no_streams c s"
  have st: "pool_step m s ?s" "same_pools s ?s" "pl_cfxs ?s = pl_cfxs s" "circ_same (pl_circs s i) (pl_circs ?s i)" for i
    using step_no_streams [OF Cons.prems(2)] by (auto simp: validate_circ_has_no_streams_def circ_same_def core_same_def)
  obtain first' valid' where fv: "(case first of
          None \<Rightarrow> (Some (link_version (lg_link l), link_nonce (lg_link l)), valid)
        | Some (version, nonce) \<Rightarrow>
            (first, valid \<and> link_version (lg_link l) = version \<and> link_nonce (lg_link l) = nonce)) = (first', valid')" "valid' \<longrightarrow> valid"
    by (cases first) auto
  obtain v s' where s': "validate_legs_loop u d first' ls (valid' \<and> \<not> link_last_seqno_sent (lg_link l) > d) ?s = Some (v, s')" "pool_step m ?s s'"
      "same_pools ?s s'" "pl_cfxs s' = pl_cfxs ?s" "\<And>i. circ_same (pl_circs ?s i) (pl_circs s' i)"
      "v \<longrightarrow> (valid' \<and> \<not> link_last_seqno_sent (lg_link l) > d) \<and> (\<forall>l \<in> set ls. link_last_seqno_sent (lg_link l) \<le> d)"
    using Cons.IH [OF Cons.prems(1) pool_step_inv [OF st(1)]] by fastforce
  have "validate_legs_loop u d first (l # ls) valid s = Some (v, s')" using c s'(1) fv(1) by (simp add: Let_def)
  moreover have "circ_same (pl_circs s i) (pl_circs s' i)" for i by (rule circ_same_trans [OF st(4) s'(5)])
  ultimately show ?case using pool_step_trans [OF st(1) s'(2)] same_pools_trans [OF st(2) s'(3)] s'(4,6) st(3) fv(2) by (auto simp: not_less)
qed

lemma mark_all_returns: "pool_inv s \<Longrightarrow> env_ok e \<Longrightarrow> \<exists>s'. conflux_mark_all_for_close e n b r s = Some s' \<and> pool_step (max_launch e) s s'"
  unfolding conflux_mark_all_for_close_def using mark_all_ok [OF _ marks_below_all lessI] by blast

lemma try_finalize_ok:
  assumes inv: "pool_inv s" and p: "env_ok e" and u: "unl s b n = Some u" and f: "pl_cfxs s (ul_cfx u) = Some f"
  obtains (waiting) err s' where "try_finalize_set e n b s = Some (err, s')" "pool_step (max_launch e) s s'"
      "\<not> (\<forall>l \<in> set (ul_legs u). lg_linked l) \<or> err \<noteq> ERR_LINK_CIRC_OK"
  | (linked) s' a where "try_finalize_set e n b s = Some (ERR_LINK_CIRC_OK, s')" "pool_inv s'"
      "ul_legs u \<noteq> []" "\<forall>l \<in> set (ul_legs u). lg_linked l \<and> link_last_seqno_sent (lg_link l) \<le> last_seq_delivered f"
      "length (ul_legs u) + length (legs f) \<le> unat (conflux_params_get_max_legs_set (pe_params e))"
      "lnk s' b n = Some (ul_cfx u)" "unl s' b n = None"
      "pl_cfxs s' (ul_cfx u) = Some (f\<lparr>alg := a, legs := legs f @ map (\<lambda>l. new_leg (the (lg_circ l)) l) (fin_order (ul_legs u)), num_leg_launch := 0\<rparr>)"
      "\<And>d. is_origin (pl_circs s' d) = is_origin (pl_circs s d) \<and> marked_for_close (pl_circs s' d) = marked_for_close (pl_circs s d)"
      "pl_next_circ s' = pl_next_circ s" "closed_legs s' \<subseteq> closed_legs s"
proof -
  note D = pool_invD [OF inv]
  have ub: "ul_is_client u = b" using D(2) [OF u] .
  have nn: "cfx_nonce f = n" using D(4) [OF u] f by (simp add: unlinked_obj_def)
  have circ: "\<exists>c. lg_circ l = Some c \<and> is_origin (pl_circs s c) = b \<and> link_nonce (lg_link l) = n" if "l \<in> set (ul_legs u)" for l
    using D(3) [OF u] that by (force simp: unlinked_ok_def leg_circ_ok_def)
  show thesis
  proof (cases "ul_legs u = [] \<or> length (ul_legs u) + length (legs f) > unat (conflux_params_get_max_legs_set (pe_params e))")
    case True
    then obtain err where "try_finalize_set e n b s = Some (err, s)" "err \<noteq> ERR_LINK_CIRC_OK" using u f by (cases "ul_legs u = []") (auto simp: try_finalize_set_def)
    then show thesis using waiting pool_step_refl [OF inv] by blast
  next
    case few: False
    have nz: "lg_circ l \<noteq> None" if "l \<in> set (ul_legs u)" for l using circ [OF that] by auto
    obtain v s1 where s1: "validate_unlinked_legs u s = Some (v, s1)" "pool_step (max_launch e) s s1" "same_pools s s1" "pl_cfxs s1 = pl_cfxs s"
        "\<And>i. circ_same (pl_circs s i) (pl_circs s1 i)" "v \<longrightarrow> (\<forall>l \<in> set (ul_legs u). link_last_seqno_sent (lg_link l) \<le> last_seq_delivered f)"
      using validate_legs_ok [of "ul_legs u" s u "last_seq_delivered f" None True "max_launch e"] nz inv f
      unfolding validate_unlinked_legs_def by auto
    note inv1 = pool_step_inv [OF s1(2)]
    have T: "try_finalize_set e n b s = (if \<not> v then do { s \<leftarrow> conflux_mark_all_for_close e n b END_CIRC_REASON_TORPROTOCOL s1; Some (ERR_LINK_CIRC_INVALID_LEG, s) }
        else if \<not> list_all lg_linked (ul_legs u) then Some (ERR_LINK_CIRC_OK, s1)
        else do { s \<leftarrow> finalize_loop (ul_cfx u) (ul_legs u) s1; s \<leftarrow> linked_pool_add (ul_cfx u) b s; s \<leftarrow> unlinked_pool_del u b s;
          cfx \<leftarrow> pl_cfxs s (ul_cfx u); Some (ERR_LINK_CIRC_OK, upd_cfx (ul_cfx u) (cfx\<lparr>num_leg_launch := 0\<rparr>) s) })"
      using few u f s1(1) ub nn by (simp add: try_finalize_set_def)
    consider "\<not> v" | "v" "\<not> list_all lg_linked (ul_legs u)" | "v" "list_all lg_linked (ul_legs u)" by blast
    then show thesis
    proof cases
      case 1
      obtain s2 where "conflux_mark_all_for_close e n b END_CIRC_REASON_TORPROTOCOL s1 = Some s2" "pool_step (max_launch e) s1 s2"
        using mark_all_returns [OF inv1 p] by blast
      then show thesis using waiting [of ERR_LINK_CIRC_INVALID_LEG s2] T 1 pool_step_trans [OF s1(2)] by simp
    next
      case 2
      then show thesis using waiting [of ERR_LINK_CIRC_OK s1] T s1(2) by (auto simp: list_all_iff)
    next
      case 3
      have u1: "unl s1 b n = Some u" "pl_cfxs s1 (ul_cfx u) = Some f" using s1(3,4) u f by (simp_all add: same_pools_def)
      have o1: "is_origin (pl_circs s1 d) = is_origin (pl_circs s d)" for d by (rule circ_same_origin [OF s1(5)])
      have fo: "is_origin (pl_circs s1 d) = b" if "d \<in> set (leg_ids f)" for d
      proof -
        have "legs f \<noteq> []" using that by (auto simp: leg_ids_def)
        then have "linked_ok (pl_circs s) b (ul_cfx u) f" using D(4) [OF u] D(1) [of n b "ul_cfx u"] f by (auto simp: unlinked_obj_def split: if_splits)
        then show ?thesis using that o1 by (simp add: linked_ok_def leg_circ_ok_def)
      qed
      have circ1: "\<exists>c. lg_circ l = Some c \<and> is_origin (pl_circs s1 c) = b \<and> link_nonce (lg_link l) = cfx_nonce f" if "l \<in> set (ul_legs u)" for l
        unfolding o1 nn by (rule circ [OF that])
      obtain s2 a where s2: "finalize_loop (ul_cfx u) (ul_legs u) s1 = Some s2" "same_pools s1 s2"
          "pl_cfxs s2 = (pl_cfxs s1)(ul_cfx u \<mapsto> f\<lparr>alg := a, legs := legs f @ map (\<lambda>l. new_leg (the (lg_circ l)) l) (fin_order (ul_legs u))\<rparr>)"
          and k2: "\<And>d. if Some d \<in> lg_circ ` set (ul_legs u)
            then core_same (pl_circs s1 d) (pl_circs s2 d) \<and> conflux (pl_circs s2 d) = Some (ul_cfx u) \<and> conflux_pending_nonce (pl_circs s2 d) = None
            else circ_same (pl_circs s1 d) (pl_circs s2 d)"
          and p2: "\<And>d. purpose (pl_circs s2 d) = (if b \<and> Some d \<in> lg_circ ` set (ul_legs u) then CIRCUIT_PURPOSE_CONFLUX_LINKED else purpose (pl_circs s1 d))"
        using finalize_loop_ok [OF u1(2) fo circ1] by blast
      let ?f = "f\<lparr>alg := a, legs := legs f @ map (\<lambda>l. new_leg (the (lg_circ l)) l) (fin_order (ul_legs u))\<rparr>"
      obtain s3 where s3: "linked_pool_add (ul_cfx u) b s2 = Some s3" "\<And>b' n'. lnk s3 b' n' = (if b' = b \<and> n' = n then Some (ul_cfx u) else lnk s b' n')"
          "\<And>b' n'. unl s3 b' n' = unl s b' n'" "pl_cfxs s3 = pl_cfxs s2" "pl_circs s3 = pl_circs s2" "pl_next_circ s3 = pl_next_circ s"
          "pl_next_cfx s3 = pl_next_cfx s" "pl_conns s3 = pl_conns s"
        using linked_add_view [of s2 "ul_cfx u" ?f b] s1(3) s2(2,3) nn by (auto simp: same_pools_def)
      obtain s4 where s4: "unlinked_pool_del u b s3 = Some s4" "\<And>b' n'. unl s4 b' n' = (if b' = b \<and> n' = n then None else unl s b' n')"
          "\<And>b' n'. lnk s4 b' n' = lnk s3 b' n'" "pl_cfxs s4 = pl_cfxs s2" "pl_circs s4 = pl_circs s2" "pl_next_circ s4 = pl_next_circ s"
          "pl_next_cfx s4 = pl_next_cfx s" "pl_conns s4 = pl_conns s"
        using unlinked_del_view [of s3 u ?f b] s3 s2(3) nn by auto
      let ?s5 = "upd_cfx (ul_cfx u) (?f\<lparr>num_leg_launch := 0\<rparr>) s4"
      have res: "try_finalize_set e n b s = Some (ERR_LINK_CIRC_OK, ?s5)" using T 3 s2(1,3) s3(1) s4(1,4) by simp
      have ids: "leg_ids (?f\<lparr>num_leg_launch := 0\<rparr>) = leg_ids f @ map (\<lambda>l. the (lg_circ l)) (fin_order (ul_legs u))" by (simp add: leg_ids_def new_leg_def)
      have inv5: "pool_inv ?s5"
      proof (rule inv_finalized [OF inv1 u1(1,2) _ _ _ ids])
        show "circ_same (pl_circs s1 d) (pl_circs ?s5 d)" if "Some d \<notin> lg_circ ` set (ul_legs u)" for d using k2 [of d] that s4(5) by simp
        show "core_same (pl_circs s1 d) (pl_circs ?s5 d) \<and> conflux (pl_circs ?s5 d) = Some (ul_cfx u) \<and> conflux_pending_nonce (pl_circs ?s5 d) = None"
          if "Some d \<in> lg_circ ` set (ul_legs u)" for d using k2 [of d] that s4(5) by simp
        show "purpose_ok (pl_circs ?s5 d)" for d
        proof (cases "Some d \<in> lg_circ ` set (ul_legs u)")
          case True
          then have "is_origin (pl_circs s1 d) = b" using circ1 by fastforce
          then show ?thesis using k2 [of d] p2 [of d] True s4(5) by (simp add: purpose_ok_def core_same_def)
        next
          case False
          then show ?thesis using k2 [of d] p2 [of d] s4(5) pool_invD(11) [OF inv1, of d] by (simp add: purpose_ok_def circ_same_def core_same_def)
        qed
      qed (use few 3 nn s1(3,4) s2(3) s3 s4 in \<open>auto simp: list_all_iff same_pools_def\<close>)
      show thesis
      proof (rule linked [where a = a, OF res inv5])
        show "is_origin (pl_circs ?s5 d) = is_origin (pl_circs s d) \<and> marked_for_close (pl_circs ?s5 d) = marked_for_close (pl_circs s d)" for d
          using k2 [of d] s1(5) [of d] s4(5) by (cases "Some d \<in> lg_circ ` set (ul_legs u)") (simp_all add: circ_same_def core_same_def)
        then show "closed_legs ?s5 \<subseteq> closed_legs s"
        proof (intro closed_legs_subset)
          show "is_leg s d" if "is_leg ?s5 d" for d
          proof (rule is_leg_subset [OF _ _ that])
            fix b' n' y g d
            assume h: "lnk ?s5 b' n' = Some y" "pl_cfxs ?s5 y = Some g" "d \<in> set (leg_ids g)"
            show "is_leg s d"
            proof (cases "y = ul_cfx u")
              case True
              then consider "d \<in> set (leg_ids f)" | l where "l \<in> set (ul_legs u)" "d = the (lg_circ l)" using h(2,3) ids by auto
              then show ?thesis
              proof cases
                case 1
                then have "legs f \<noteq> []" by (auto simp: leg_ids_def)
                then have "lnk s b n = Some (ul_cfx u)" using D(4) [OF u] f by (auto simp: unlinked_obj_def split: if_splits)
                then show ?thesis using is_legI(1) [OF _ f 1] by blast
              next
                case 2
                then show ?thesis using circ [OF 2(1)] is_legI(2) [OF u 2(1), of d] by auto
              qed
            next
              case False
              then have "lnk s b' n' = Some y" "pl_cfxs s y = Some g" using h(1,2) s4(3,4) s3(2) s2(3) s1(4) by (auto split: if_splits)
              then show ?thesis using is_legI(1) h(3) by blast
            qed
          qed (use s4(2) is_legI(2) in \<open>auto split: if_splits\<close>)
        qed simp
      qed (use few 3 s1(6) s3(2) s4 in \<open>auto simp: list_all_iff\<close>)
    qed
  qed
qed

end
