(* ===== verification/ConfluxHandshake.thy ===== *)
theory ConfluxHandshake
  imports ConfluxLinkInv
begin

text \<open>
  The messages of the handshake, the launch of new sets and the freeing of circuits, each with the
  proof that it returns and keeps the pools consistent, and the system they form together.
\<close>

section \<open>Small steps\<close>

text \<open>The pools stay consistent, and no closed circuit becomes or stays a leg that was not one before.\<close>

definition keeps :: "pool_t \<Rightarrow> pool_t \<Rightarrow> bool" where
  "keeps s s' = (pool_inv s' \<and> closed_legs s' \<subseteq> closed_legs s)"

lemma keeps_refl: "pool_inv s \<Longrightarrow> keeps s s" and keeps_trans [trans]: "keeps s s' \<Longrightarrow> keeps s' s'' \<Longrightarrow> keeps s s''"
  and keeps_inv: "keeps s s' \<Longrightarrow> pool_inv s'" and step_keeps: "pool_step m s s' \<Longrightarrow> keeps s s'"
  by (auto simp: keeps_def pool_step_def)

lemma close_keeps: "pool_inv s \<Longrightarrow> env_ok e \<Longrightarrow> \<exists>s'. circuit_mark_for_close e r c s = Some s' \<and> keeps s s'"
  using close_ok [of s e r c] step_keeps by blast

lemma log_keeps: "pool_inv s \<Longrightarrow> keeps s (log_calls as s)"
  using streams_inv by (rule_tac step_keeps, intro pool_step_frame) (auto simp: same_circ_def same_cfx_def option.rel_refl)

text \<open>The out-of-memory handler, on any circuits.\<close>

lemma check_size_keeps:
  assumes "pool_inv s" "env_ok e"
  shows "\<exists>s'. cell_queues_check_size e c s = Some s' \<and> keeps s s' \<and>
    (\<forall>n. (\<forall>circlist d. pe_memory e c (pl_circs s) = Some circlist \<and> d \<in> set circlist \<longrightarrow> \<not> same_set s n d) \<longrightarrow> unl s' True n = unl s True n)"
proof (cases "pe_memory e c (pl_circs s)")
  case None
  then show ?thesis using keeps_refl [OF assms(1)] by (simp add: cell_queues_check_size_def cell_queues_check_size_with_def)
next
  case (Some circlist)
  let ?s = "s\<lparr>pl_mem_pressure := True\<rparr>"
  note st = mem_pressure_step [OF assms(1), of "max_launch e" True]
  obtain s' where s': "mark_list (circuit_mark_for_close e) (\<lambda>k. marked_for_close k = 0) END_CIRC_REASON_RESOURCELIMIT circlist ?s = Some s'"
      "pool_step (max_launch e) ?s s'" "\<And>n. \<forall>d \<in> set circlist. \<not> same_set ?s n d \<Longrightarrow> kept n ?s s'"
    using mark_list_ok [OF marks_below_all [OF assms(2)] pool_step_inv [OF st] lessI] by fastforce
  have "unl s' True n = unl s True n" if "\<forall>d \<in> set circlist. \<not> same_set s n d" for n
    using keptD(2) [OF s'(3)] that by (simp add: same_set_def)
  then show ?thesis using Some s'(1) step_keeps [OF pool_step_trans [OF st s'(2)]]
    by (simp add: cell_queues_check_size_def cell_queues_check_size_with_def)
qed

lemma do_call_keeps:
  assumes "pool_inv s" "env_ok e"
  shows "\<exists>s'. do_call e a s = Some s' \<and> keeps s s'"
proof (cases a)
  case (Relay_send c command payload hop)
  obtain s' where "cell_queues_check_size e c (log_calls [a] s) = Some s'" "keeps s s'"
    using check_size_keeps [OF keeps_inv [OF log_keeps [OF assms(1)]] assms(2)] keeps_trans [OF log_keeps [OF assms(1)]] by blast
  then show ?thesis using Relay_send close_keeps [OF assms] keeps_refl [OF assms(1)] by simp
qed (use close_keeps [OF assms] log_keeps [OF assms(1)] in auto)

lemma do_calls_keeps: "pool_inv s \<Longrightarrow> env_ok e \<Longrightarrow> \<exists>s'. do_calls e as s = Some s' \<and> keeps s s'"
proof (induction as arbitrary: s)
  case (Cons a as)
  obtain s1 where s1: "do_call e a s = Some s1" "keeps s s1" using do_call_keeps [OF Cons.prems] by blast
  then show ?case using Cons.IH [OF keeps_inv [OF s1(2)] Cons.prems(2)] keeps_trans [OF s1(2)] by auto
qed (simp add: keeps_refl)

lemma update_uleg_circs: "(\<And>l. lg_circ (g l) = lg_circ l) \<Longrightarrow> map lg_circ (update_uleg c g ls) = map lg_circ ls"
  by (induction ls) auto

lemma update_uleg_set: "l' \<in> set (update_uleg c g ls) \<Longrightarrow> l' \<in> set ls \<or> (\<exists>l \<in> set ls. lg_circ l = Some c \<and> l' = g l)"
  by (induction ls) (auto split: if_splits)

text \<open>Writing to the leg of a circuit.\<close>

lemma step_set_uleg:
  assumes inv: "pool_inv s" and u: "unl s b n = Some u" and g: "\<And>l. lg_circ (g l) = lg_circ l" "\<And>l. link_nonce (lg_link l) = n \<Longrightarrow> link_nonce (lg_link (g l)) = n"
    "\<And>l. lg_linked (g l) \<Longrightarrow> lg_linked l \<or> cc_ready (pl_circs s c)"
  shows "pool_step m s (set_uleg n b c g s)" and "unl (set_uleg n b c g s) b n = Some (u\<lparr>ul_legs := update_uleg c g (ul_legs u)\<rparr>)"
    "pl_circs (set_uleg n b c g s) = pl_circs s" "pl_cfxs (set_uleg n b c g s) = pl_cfxs s" "pl_next_circ (set_uleg n b c g s) = pl_next_circ s"
proof -
  note D = pool_invD [OF inv]
  let ?u = "u\<lparr>ul_legs := update_uleg c g (ul_legs u)\<rparr>"
  let ?s = "unlinked_pool_set n ?u b s"
  have s: "set_uleg n b c g s = ?s" using u by (simp add: set_uleg_def)
  have ok: "unlinked_ok (pl_circs s) b n (update_uleg c g (ul_legs u))"
    unfolding unlinked_ok_def
  proof (intro conjI ballI)
    show "distinct (map lg_circ (update_uleg c g (ul_legs u)))" using D(3) [OF u] by (simp add: update_uleg_circs [OF g(1)] unlinked_ok_def)
    fix l'
    assume "l' \<in> set (update_uleg c g (ul_legs u))"
    then obtain l where l: "l \<in> set (ul_legs u)" "l' = l \<or> lg_circ l = Some c \<and> l' = g l" using update_uleg_set by blast
    obtain d where d: "lg_circ l = Some d" "conflux_pending_nonce (pl_circs s d) = Some n" "conflux (pl_circs s d) = None"
        "leg_circ_ok b (pl_circs s d)" "link_nonce (lg_link l) = n" "lg_linked l \<longrightarrow> cc_ready (pl_circs s d)"
      using D(3) [OF u] l(1) unfolding unlinked_ok_def by blast
    have "lg_circ l' = Some d" "link_nonce (lg_link l') = n" "lg_linked l' \<Longrightarrow> cc_ready (pl_circs s d)"
      using l(2) d(1,5,6) g(1) [of l] g(2) [of l] g(3) [of l] by auto
    then show "\<exists>c. lg_circ l' = Some c \<and> conflux_pending_nonce (pl_circs s c) = Some n \<and> conflux (pl_circs s c) = None \<and>
        leg_circ_ok b (pl_circs s c) \<and> link_nonce (lg_link l') = n \<and> (lg_linked l' \<longrightarrow> cc_ready (pl_circs s c))"
      using d by blast
  qed
  have "pool_inv ?s"
    by (rule inv_unl_upd [OF inv, of _ b n ?u])
      (use ok D(2,4) [OF u] D(9,11) unl_upd_same_obj [OF inv u] in \<open>auto simp: unlinked_obj_def\<close>)
  moreover have "is_leg s d" if l': "l' \<in> set (ul_legs ?u)" "lg_circ l' = Some d" for l' d
  proof -
    obtain l where "l \<in> set (ul_legs u)" "l' = l \<or> l' = g l" using update_uleg_set [of l' c g "ul_legs u"] l'(1) by auto
    then show ?thesis using is_legI(2) [OF u, of l d] l'(2) g(1) [of l] by auto
  qed
  ultimately show "pool_step m s (set_uleg n b c g s)" unfolding s by (intro step_unl_only) blast+
  show "unl (set_uleg n b c g s) b n = Some ?u" "pl_circs (set_uleg n b c g s) = pl_circs s" "pl_cfxs (set_uleg n b c g s) = pl_cfxs s"
    "pl_next_circ (set_uleg n b c g s) = pl_next_circ s" by (simp_all add: s)
qed

text \<open>A new object that nothing refers to yet.\<close>

lemma inv_new_cfx:
  assumes inv: "pool_inv s"
  shows "pool_inv ((upd_cfx (pl_next_cfx s) f s)\<lparr>pl_next_cfx := Suc (pl_next_cfx s)\<rparr>)" (is "pool_inv ?s")
proof -
  note D = pool_invD [OF inv]
  have old: "pl_cfxs ?s x = pl_cfxs s x" if "pl_cfxs s x = Some g" for x g using D(7) [OF that] by auto
  have do: "dying_ok ?s c x g" if "dying_ok s c x g" for c x g using that by (simp add: dying_ok_def)
  show ?thesis
  proof (rule pool_invI)
    show "\<exists>g. pl_cfxs ?s x = Some g \<and> cfx_nonce g = n \<and> linked_ok (pl_circs ?s) b x g" if "lnk ?s b n = Some x" for b n x
      using D(1) [of n b x] that old by fastforce
    show "unlinked_obj (lnk ?s b n) n u (pl_cfxs ?s (ul_cfx u))" if "unl ?s b n = Some u" for b n u
      using D(4) [of n b u] that old [of "ul_cfx u"] by (auto simp: unlinked_obj_def)
    show "\<exists>g. pl_cfxs ?s x = Some g \<and> (c \<in> set (leg_ids g) \<and> lnk ?s (is_origin (pl_circs ?s c)) (cfx_nonce g) = Some x \<or> dying_ok ?s c x g)"
      if "conflux (pl_circs ?s c) = Some x" for c x
      using D(6) [of c x] that old do by (fastforce)
    show "x < pl_next_cfx ?s" if "pl_cfxs ?s x = Some g" for x g using that D(7) [of x] by (auto split: if_splits intro: less_SucI)
  qed (use D in \<open>auto\<close>)
qed

text \<open>No circuit that waits to be freed still owns an object with this nonce.\<close>

definition nonce_free :: "pool_t \<Rightarrow> bool \<Rightarrow> nonce \<Rightarrow> bool" where
  "nonce_free s b n = (\<forall>d x f. conflux (pl_circs s d) = Some x \<and> pl_cfxs s x = Some f \<and> is_origin (pl_circs s d) = b \<and> cfx_nonce f = n \<longrightarrow>
     legs f \<noteq> [])"

lemma get_or_create_ok:
  assumes inv: "pool_inv s" and nf: "nonce_free s b n"
  shows "\<exists>u s'. unlinked_get_or_create n b s = Some (u, s') \<and> keeps s s' \<and> unl s' b n = Some u \<and> pl_circs s' = pl_circs s \<and> pl_next_circ s' = pl_next_circ s"
proof (cases "unl s b n = None \<and> lnk s b n = None")
  case False
  show ?thesis
  proof (cases "unl s b n")
    case (Some u)
    then show ?thesis using keeps_refl [OF inv] by (simp add: unlinked_get_or_create_def)
  next
    case None
    then obtain x where x: "lnk s b n = Some x" using False by auto
    obtain f where f: "pl_cfxs s x = Some f" using pool_invD(1) [OF inv x] by blast
    obtain u s' where s': "unlinked_get_or_create n b s = Some (u, s')" "pool_step 0 s s'" "unl s' b n = Some u"
      using step_get_or_create [OF inv, of n b 0] False by auto
    then show ?thesis using None x f step_keeps [OF s'(2)]
      by (auto simp: unlinked_get_or_create_def unlinked_new_def Let_def conflux_free_def unlinked_pool_add_def bind_eq_Some_iff split: if_splits)
  qed
next
  case True
  let ?x = "pl_next_cfx s"
  let ?u = "\<lparr>ul_is_client = b, is_for_linked_set = False, ul_cfx = ?x, ul_legs = []\<rparr>"
  let ?s1 = "(upd_cfx ?x (conflux_new\<lparr>cfx_nonce := n\<rparr>) s)\<lparr>pl_next_cfx := Suc ?x\<rparr>"
  let ?s2 = "unlinked_pool_set n ?u b ?s1"
  note D = pool_invD [OF inv]
  have g: "unlinked_get_or_create n b s = Some (?u, ?s2)"
    using True by (simp add: unlinked_get_or_create_def unlinked_new_def Let_def unlinked_pool_add_def)
  have X: "pl_cfxs s ?x = None" using D(7) [of ?x] by (cases "pl_cfxs s ?x") auto
  have "pool_inv ?s2"
  proof (rule inv_unl_upd [OF inv_new_cfx [OF inv], of ?s2 b n ?u])
    show "unlinked_obj (lnk ?s1 b n) n ?u (pl_cfxs ?s1 (ul_cfx ?u))" using True by (simp add: unlinked_obj_def conflux_new_def)
    show "ul_cfx w \<noteq> ul_cfx ?u" if "unl ?s1 (\<not> b) n = Some w" for w using D(4) [of n "\<not> b" w] that X by (auto simp: unlinked_obj_def)
    show "x \<noteq> ul_cfx ?u \<and> \<not> (is_origin (pl_circs ?s1 d) = b \<and> cfx_nonce f = n)"
      if h: "conflux (pl_circs ?s1 d) = Some x" "pl_cfxs ?s1 x = Some f" "dying_ok ?s1 d x f" for d x f
    proof -
      have d: "conflux (pl_circs s d) = Some x" using h(1) by simp
      have "x \<noteq> ?x" using D(6) [OF d] X by auto
      then have "pl_cfxs s x = Some f" "legs f = []" using h(2,3) by (auto simp: dying_ok_def)
      then show ?thesis using nf d \<open>x \<noteq> ?x\<close> unfolding nonce_free_def by auto
    qed
  qed (use D(9,11) in \<open>auto simp: unlinked_ok_def\<close>)
  moreover have "closed_legs ?s2 \<subseteq> closed_legs s"
  proof (rule closed_legs_subset)
    have ne: "x \<noteq> ?x" if "lnk s b' n' = Some x" for b' n' x using D(1) [OF that] X by auto
    show "is_leg s d" if "is_leg ?s2 d" for d
      by (rule is_leg_subset [OF _ _ that]) (auto split: if_splits intro: is_legI dest: ne)
  qed simp
  ultimately show ?thesis using g by (auto simp: keeps_def)
qed

section \<open>Linking a circuit\<close>

lemma link_circuit_ok:
  assumes inv: "pool_inv s" and p: "env_ok e" and n: "conflux_pending_nonce (pl_circs s c) = Some n" and cc: "cc_ready (pl_circs s c)"
  shows "\<exists>err s'. link_circuit e c s = Some (err, s') \<and> keeps s s'"
proof -
  let ?b = "is_origin (pl_circs s c)"
  show ?thesis
  proof (cases "unl s ?b n")
    case None
    then show ?thesis using n keeps_refl [OF inv] by (simp add: link_circuit_def)
  next
    case (Some u)
    show ?thesis
    proof (cases "leg_find u c")
      case None
      then show ?thesis using n keeps_refl [OF inv] Some by (simp add: link_circuit_def)
    next
      case (Some l)
      let ?g = "\<lambda>l. l\<lparr>lg_linked := True\<rparr>"
      let ?s = "set_uleg n ?b c ?g s"
      have S: "pool_step 0 s ?s" "unl ?s ?b n = Some (u\<lparr>ul_legs := update_uleg c ?g (ul_legs u)\<rparr>)" "pl_cfxs ?s = pl_cfxs s"
        using step_set_uleg [OF inv \<open>unl s ?b n = Some u\<close>, of ?g c] cc by auto
      obtain f where f: "pl_cfxs ?s (ul_cfx (u\<lparr>ul_legs := update_uleg c ?g (ul_legs u)\<rparr>)) = Some f"
        using pool_invD(4) [OF inv \<open>unl s ?b n = Some u\<close>] S(3) by (auto simp: unlinked_obj_def)
      have "link_circuit e c s = try_finalize_set e n ?b ?s" using n Some \<open>unl s ?b n = Some u\<close> by (simp add: link_circuit_def Let_def)
      then show ?thesis
        using keeps_trans [OF step_keeps [OF S(1)]]
        by (cases rule: try_finalize_ok [OF pool_step_inv [OF S(1)] p S(2) f]) (auto simp: keeps_def pool_step_def)
    qed
  qed
qed

text \<open>What the rest of the program guarantees of a circuit that carries conflux cells.\<close>

definition circ_sane :: "circuit_t \<Rightarrow> bool" where
  "circ_sane k = ((is_origin k \<longrightarrow> cpath k \<noteq> []) \<and> (\<forall>cc. circuit_ccontrol k = Some cc \<longrightarrow> sendme_inc cc \<noteq> 0))"

lemma enabled_ok:
  assumes "circ_sane (pl_circs s c)"
  obtains en where "circ_enabled e c s = Some en" "en \<Longrightarrow> cc_ready (pl_circs s c)"
proof -
  have "\<exists>en. circ_enabled e c s = Some en \<and> (en \<longrightarrow> circuit_ccontrol (pl_circs s c) \<noteq> None)"
    using assms by (cases "is_origin (pl_circs s c)")
      (auto simp: circ_enabled_def conflux_is_enabled_def circ_sane_def cpath_last_def circuit_ccontrol_def split: if_splits)
  then show thesis using that assms by (auto simp: cc_ready_def circ_sane_def)
qed

lemma parse_link_nonce: "conflux_cell_parse_link m = Some link \<Longrightarrow> length (link_nonce link) = 32"
  by (auto simp: conflux_cell_parse_link_def conflux_cell_parse_link_v1_def trn_link_payload_v1_parse_def take_bytes_def split: sum.splits if_splits)

lemma unlinked_ok_snoc:
  assumes "unlinked_ok C b n ls" and "Some c \<notin> lg_circ ` set ls" and "\<And>d. d \<noteq> c \<Longrightarrow> C' d = C d" and "lg_circ l = Some c" "link_nonce (lg_link l) = n" "\<not> lg_linked l"
    and "conflux_pending_nonce (C' c) = Some n" "conflux (C' c) = None" "leg_circ_ok b (C' c)"
  shows "unlinked_ok C' b n (ls @ [l])"
  unfolding unlinked_ok_def
proof (intro conjI ballI)
  show "distinct (map lg_circ (ls @ [l]))" using assms(1,2,4) by (auto simp: unlinked_ok_def)
  fix l'
  assume "l' \<in> set (ls @ [l])"
  then consider "l' = l" | "l' \<in> set ls" by auto
  then show "\<exists>c. lg_circ l' = Some c \<and> conflux_pending_nonce (C' c) = Some n \<and> conflux (C' c) = None \<and> leg_circ_ok b (C' c) \<and>
      link_nonce (lg_link l') = n \<and> (lg_linked l' \<longrightarrow> cc_ready (C' c))"
  proof cases
    case 1
    then show ?thesis using assms by blast
  next
    case 2
    then obtain d where d: "lg_circ l' = Some d" "conflux_pending_nonce (C d) = Some n \<and> conflux (C d) = None \<and> leg_circ_ok b (C d) \<and>
        link_nonce (lg_link l') = n \<and> (lg_linked l' \<longrightarrow> cc_ready (C d))" using assms(1) unfolding unlinked_ok_def by blast
    then have "d \<noteq> c" using assms(2) 2 by (metis imageI)
    then show ?thesis using d assms(3) by auto
  qed
qed

lemma process_link_ok:
  assumes inv: "pool_inv s" and p: "env_ok e" and c: "c < pl_next_circ s" and k: "circ_sane (pl_circs s c)"
    and nf: "\<And>link. conflux_cell_parse_link m = Some link \<Longrightarrow> nonce_free s False (link_nonce link)" and mk: "marked_for_close (pl_circs s c) = 0"
  shows "\<exists>s'. conflux_process_link e c m s = Some s' \<and> keeps s s'"
proof -
  obtain en where en: "circ_enabled e c s = Some en" "en \<Longrightarrow> cc_ready (pl_circs s c)" using enabled_ok [OF k] by blast
  let ?k = "pl_circs s c"
  note close = close_keeps [OF _ p, of _ END_CIRC_REASON_TORPROTOCOL c]
  show ?thesis
  proof (cases "\<not> en \<or> is_origin ?k \<or> \<not> conflux_validate_source_hop ?k None \<or> conflux_pending_nonce ?k \<noteq> None \<or> conflux ?k \<noteq> None \<or>
      n_streams ?k \<noteq> 0 \<or> resolving_streams ?k \<noteq> 0 \<or> conflux_cell_parse_link m = None")
    case True
    then have "conflux_process_link e c m s = circuit_mark_for_close e END_CIRC_REASON_TORPROTOCOL c s"
      using en(1) by (auto simp: conflux_process_link_def Let_def)
    then show ?thesis using close [OF inv] by simp
  next
    case False
    then obtain link where go: "en" "\<not> is_origin ?k" "conflux_validate_source_hop ?k None" "conflux_pending_nonce ?k = None" "conflux ?k = None"
      "n_streams ?k = 0" "resolving_streams ?k = 0" "conflux_cell_parse_link m = Some link" by auto
    let ?n = "link_nonce link"
    obtain u s1 where s1: "unlinked_get_or_create ?n False s = Some (u, s1)" "pool_inv s1" "unl s1 False ?n = Some u" "pl_circs s1 = pl_circs s"
        "pl_next_circ s1 = pl_next_circ s" and kp1: "keeps s s1" using get_or_create_ok [OF inv nf [OF go(8)]] keeps_inv by blast
    note D = pool_invD [OF s1(2)]
    let ?l = "(leg_new c link)\<lparr>lg_link_sent_usec := pe_now e\<rparr>"
    let ?u = "u\<lparr>ul_legs := smartlist_add (ul_legs u) ?l\<rparr>"
    let ?s2 = "upd_circ c (\<lambda>k. k\<lparr>conflux_pending_nonce := Some ?n\<rparr>) (unlinked_pool_set ?n ?u False s1)"
    have nl: "Some c \<notin> lg_circ ` set (ul_legs w)" if "unl s1 b' n' = Some w" for b' n' w
      using D(3) [OF that] go(4) s1(4) by (force simp: unlinked_ok_def)
    have inv2: "pool_inv ?s2"
    proof (rule inv_unl_upd [OF s1(2), of ?s2 False ?n ?u])
      show "unlinked_ok (pl_circs ?s2) False ?n (ul_legs ?u)"
        using D(3) [OF s1(3)] nl [OF s1(3)] go(2,5) s1(4)
        by (simp add: smartlist_add_def) (rule unlinked_ok_snoc, auto simp: leg_new_def leg_circ_ok_def)
      show "pl_circs ?s2 d = pl_circs s1 d" if "lnk s1 b' n' = Some x" "pl_cfxs s1 x = Some g" "d \<in> set (leg_ids g)" for b' n' x g d
        using D(1) [OF that(1)] that(2,3) go(5) s1(4) by (auto simp: linked_ok_def)
      show "pl_circs ?s2 d = pl_circs s1 d" if "unl s1 b' n' = Some w" "l \<in> set (ul_legs w)" "lg_circ l = Some d" for b' n' w l d
        using nl [OF that(1)] that(2,3) by (force simp: image_iff)
      show "conflux_pending_nonce (pl_circs ?s2 d) = None" if "pl_next_circ s1 \<le> d" for d using D(9) [OF that] c that s1(5) by auto
      show "purpose_ok (pl_circs ?s2 d)" for d using D(11) [of d] go(2,5) s1(4) by (cases "d = c") (simp_all add: purpose_ok_def)
    qed (use D(2,4) [OF s1(3)] unl_upd_same_obj [OF s1(2,3)] in \<open>auto simp: unlinked_obj_def\<close>)
    have "closed_legs ?s2 \<subseteq> closed_legs s1"
    proof
      fix d
      assume "d \<in> closed_legs ?s2"
      then have d: "marked_for_close (pl_circs s1 d) \<noteq> 0" "is_leg ?s2 d" by (auto simp: closed_legs_def split: if_splits)
      then have "d \<noteq> c" using mk s1(4) by auto
      then have "is_leg s1 d" using d(2) unfolding is_leg_def [of ?s2]
        by (auto simp: smartlist_add_def leg_new_def split: if_splits intro: is_legI is_legI(2) [OF s1(3)])
      then show "d \<in> closed_legs s1" using d(1) by (simp add: closed_legs_def)
    qed
    then have kp2: "keeps s ?s2" using kp1 inv2 by (auto simp: keeps_def)
    obtain f where f: "pl_cfxs s1 (ul_cfx u) = Some f" using D(4) [OF s1(3)] by (auto simp: unlinked_obj_def)
    have "cc_ready (pl_circs ?s2 c)"
      using en(2) go(1) s1(4) core_same_ok [of "pl_circs s c" "(pl_circs s c)\<lparr>conflux_pending_nonce := Some ?n\<rparr>"] by (simp add: core_same_def)
    then obtain err s3 where s3: "link_circuit e c ?s2 = Some (err, s3)" "pool_inv s3" and kp3: "keeps s s3"
      using link_circuit_ok [OF inv2 p, of c ?n] keeps_trans [OF kp2] keeps_inv by auto
    show ?thesis
    proof (cases "err = ERR_LINK_CIRC_OK")
      case False
      then have "conflux_process_link e c m s = circuit_mark_for_close e END_CIRC_REASON_TORPROTOCOL c s3"
        using en(1) go s1(1) f s3(1) by (simp add: conflux_process_link_def Let_def)
      then show ?thesis using close [OF s3(2)] keeps_trans [OF kp3] by auto
    next
      case True
      obtain ok calls where cs: "conflux_cell_send_linked (relay_sent e c s3) (conflux_cell_new_link ?n (conflux_get_max_seq_sent f) (last_seq_delivered f) DEFAULT_EXIT_UX) c
          = Some (ok, calls)"
        using parse_link_nonce [OF go(8)] build_link_cell_ok [of "conflux_cell_new_link ?n (conflux_get_max_seq_sent f) (last_seq_delivered f) DEFAULT_EXIT_UX"]
        by (auto simp: conflux_cell_send_linked_def conflux_cell_new_link_def ux_ok_def)
      obtain s4 where "do_calls e calls s3 = Some s4" "keeps s s4" using do_calls_keeps [OF s3(2) p] keeps_trans [OF kp3] by blast
      then show ?thesis using en(1) go s1(1) f s3(1) True cs by (simp add: conflux_process_link_def Let_def)
    qed
  qed
qed

lemma record_rtt_client_ok:
  assumes inv: "pool_inv s" and n: "conflux_pending_nonce (pl_circs s c) = Some n" and o: "is_origin (pl_circs s c)"
  shows "\<exists>ok s'. record_rtt e c True s = Some (ok, s') \<and> keeps s s' \<and> pl_circs s' = pl_circs s"
proof (cases "unl s True n")
  case None
  then show ?thesis using n o keeps_refl [OF inv] by (auto simp: record_rtt_def record_rtt_client_def unlinked_leg_find_def)
next
  case (Some u)
  have "keeps s (set_uleg n True c (\<lambda>l. l\<lparr>lg_rtt_usec := r\<rparr>) s) \<and> pl_circs (set_uleg n True c (\<lambda>l. l\<lparr>lg_rtt_usec := r\<rparr>) s) = pl_circs s" for r
    using step_set_uleg [OF inv Some, of "\<lambda>l. l\<lparr>lg_rtt_usec := r\<rparr>" c] step_keeps by auto
  then show ?thesis using n o keeps_refl [OF inv] Some by (cases "leg_find u c") (auto simp: record_rtt_def record_rtt_client_def unlinked_leg_find_def Let_def)
qed

lemma process_linked_ok:
  assumes inv: "pool_inv s" and p: "env_ok e" and k: "circ_sane (pl_circs s c)"
  shows "\<exists>s'. conflux_process_linked e c layer_hint m s = Some s' \<and> keeps s s'"
proof -
  obtain en where en: "circ_enabled e c s = Some en" "en \<Longrightarrow> cc_ready (pl_circs s c)" using enabled_ok [OF k] by blast
  let ?k = "pl_circs s c"
  note close = close_keeps [OF _ p, of _ END_CIRC_REASON_TORPROTOCOL c]
  show ?thesis
  proof (cases "en \<and> is_origin ?k \<and> (\<exists>n u l link. conflux_pending_nonce ?k = Some n \<and> conflux ?k = None \<and> conflux_validate_source_hop ?k layer_hint \<and>
      conflux_cell_parse_link m = Some link \<and> link_nonce link = n \<and> unl s True n = Some u \<and> leg_find u c = Some l)")
    case False
    then have "conflux_process_linked e c layer_hint m s = circuit_mark_for_close e END_CIRC_REASON_TORPROTOCOL c s"
      using en(1) by (cases "conflux_pending_nonce ?k"; cases "conflux_cell_parse_link m")
        (auto simp: conflux_process_linked_def Let_def unlinked_leg_find_def split: option.splits)
    then show ?thesis using close [OF inv] by simp
  next
    case True
    then obtain n u l link where go: "en" "is_origin ?k" "conflux_pending_nonce ?k = Some n" "conflux ?k = None" "conflux_validate_source_hop ?k layer_hint"
      "conflux_cell_parse_link m = Some link" "link_nonce link = n" "unl s True n = Some u" "leg_find u c = Some l" by blast
    let ?g = "\<lambda>l. l\<lparr>lg_link := link\<rparr>"
    let ?s1 = "set_uleg n True c ?g s"
    have s1: "keeps s ?s1" "pl_circs ?s1 = pl_circs s"
      using step_set_uleg [OF inv go(8), of ?g c] go(7) step_keeps by auto
    obtain ok s2 where s2: "record_rtt e c True ?s1 = Some (ok, s2)" "pool_inv s2" "pl_circs s2 = pl_circs s" and kp2: "keeps s s2"
      using record_rtt_client_ok [OF keeps_inv [OF s1(1)], of c n e] go(2,3) s1(2) keeps_inv keeps_trans [OF s1(1)] by auto
    obtain err s3 where s3: "link_circuit e c s2 = Some (err, s3)" "pool_inv s3" and kp3: "keeps s s3"
      using link_circuit_ok [OF s2(2) p, of c n] go(1,3) en(2) s2(3) keeps_inv keeps_trans [OF kp2] by auto
    obtain ok' calls where cs: "conflux_cell_send_linked_ack (relay_sent e c s3) c (pl_circs s3 c) = (ok', calls)" by fastforce
    obtain s4 where s4: "do_calls e calls s3 = Some s4" "pool_inv s4" and kp4: "keeps s s4"
      using do_calls_keeps [OF s3(2) p] keeps_inv keeps_trans [OF kp3] by blast
    have eq: "conflux_process_linked e c layer_hint m s =
        (if \<not> ok then circuit_mark_for_close e END_CIRC_REASON_TORPROTOCOL c s2
         else if err = ERR_LINK_CIRC_BAD_RTT \<or> err = ERR_LINK_CIRC_MISSING_LEG then circuit_mark_for_close e END_CIRC_REASON_TORPROTOCOL c s3
         else if \<not> ok' then Some s4
         else Some (log_calls ((if conflux (pl_circs s4 c) \<noteq> None then [Attach_pending] else []) @ [Read_valid_data c (unat (rm_length m))]) s4))"
      using en(1) go s2(1) s3(1) cs s4(1) by (simp add: conflux_process_linked_def Let_def unlinked_leg_find_def)
    show ?thesis unfolding eq
      using close [OF s2(2)] keeps_trans [OF kp2] close [OF s3(2)] keeps_trans [OF kp3] kp4 keeps_trans [OF kp4 log_keeps [OF s4(2)]] by auto
  qed
qed

lemma process_linked_ack_ok:
  assumes inv: "pool_inv s" and p: "env_ok e" and k: "circ_sane (pl_circs s c)"
  shows "\<exists>s'. conflux_process_linked_ack e c s = Some s' \<and> keeps s s'"
proof -
  obtain en where en: "circ_enabled e c s = Some en" using enabled_ok [OF k] by blast
  let ?k = "pl_circs s c"
  note close = close_keeps [OF inv p, of END_CIRC_REASON_TORPROTOCOL c]
  show ?thesis
  proof (cases "en \<and> \<not> is_origin ?k \<and> conflux_validate_source_hop ?k None \<and> conflux ?k \<noteq> None")
    case False
    then show ?thesis using en close by (auto simp: conflux_process_linked_ack_def Let_def)
  next
    case True
    then obtain x where x: "conflux ?k = Some x" by blast
    obtain f where f: "pl_cfxs s x = Some f" using pool_invD(6) [OF inv x] by blast
    have st: "pool_step 0 s (upd_cfx x (f\<lparr>legs := update_leg c (\<lambda>l. l\<lparr>circ_rtts_usec := r\<rparr>) (legs f)\<rparr>) s)" for r
      by (rule step_cfx_frame [OF inv f]) (simp_all add: same_cfx_def leg_ids_def map_update_leg)
    have "\<exists>s'. record_rtt e c False s = Some (True, s') \<and> keeps s s'"
      using x f True keeps_refl [OF inv] step_keeps [OF st] by (cases "conflux_get_leg f c") (simp_all add: record_rtt_def record_rtt_exit_def Let_def)
    then show ?thesis using en True by (auto simp: conflux_process_linked_ack_def Let_def)
  qed
qed

lemma has_opened_ok:
  assumes inv: "pool_inv s" and p: "env_ok e" and k: "circ_sane (pl_circs s c)"
    and l: "\<And>n u l. conflux_pending_nonce (pl_circs s c) = Some n \<Longrightarrow> unl s True n = Some u \<Longrightarrow> leg_find u c = Some l \<Longrightarrow>
      length n = 32 \<and> ux_ok (link_desired_ux (lg_link l)) \<and>
      (\<forall>circlist d. pe_memory e c (pl_circs s) = Some circlist \<and> d \<in> set circlist \<longrightarrow> \<not> same_set s n d)"
  shows "\<exists>s'. conflux_circuit_has_opened e c s = Some s' \<and> keeps s s'"
proof -
  obtain en where en: "circ_enabled e c s = Some en" using enabled_ok [OF k] by blast
  let ?k = "pl_circs s c"
  have val: "keeps s (validate_circ_has_no_streams c t)" if "keeps s t" for t
    using keeps_trans [OF that step_keeps [OF step_no_streams [OF keeps_inv [OF that]]]] .
  show ?thesis
  proof (cases "en \<and> (\<exists>n u l. conflux_pending_nonce ?k = Some n \<and> unl s True n = Some u \<and> leg_find u c = Some l)")
    case False
    then have "conflux_circuit_has_opened e c s = (if en then Some (validate_circ_has_no_streams c s) else circuit_mark_for_close e END_CIRC_REASON_TORPROTOCOL c s)"
      using en by (auto simp: conflux_circuit_has_opened_def unlinked_leg_find_def split: option.splits)
    then show ?thesis using val [OF keeps_refl [OF inv]] close_keeps [OF inv p] by auto
  next
    case True
    then obtain n u l where go: "en" "conflux_pending_nonce ?k = Some n" "unl s True n = Some u" "leg_find u c = Some l" by blast
    have "link_nonce (lg_link l) = n" using pool_invD(3) [OF inv go(3)] leg_find_props [OF go(4)] by (auto simp: unlinked_ok_def)
    then obtain ok calls where cs: "conflux_cell_send_link (relay_sent e c s) (lg_link l) c ?k = Some (ok, calls)"
      using build_link_cell_ok [of "lg_link l"] assms(4) [OF go(2-4)] by (auto simp: conflux_cell_send_link_def)
    obtain s1 where s1: "do_calls e calls s = Some s1" "keeps s s1" "ok \<Longrightarrow> unl s1 True n = Some u"
    proof (cases ok)
      case False
      then show thesis using do_calls_keeps [OF inv p, of calls] that by blast
    next
      case True
      obtain r where r: "build_link_cell (lg_link l) = Some r" using cs by (auto simp: conflux_cell_send_link_def bind_eq_Some_iff)
      then obtain a hop where a: "calls = [Relay_send c RELAY_COMMAND_CONFLUX_LINK a hop]" "relay_sent e c s"
        using cs True by (cases r) (auto simp: conflux_cell_send_link_def)
      let ?s = "log_calls calls s"
      obtain s1 where "cell_queues_check_size e c ?s = Some s1" "keeps ?s s1" "unl s1 True n = unl ?s True n"
        using check_size_keeps [OF keeps_inv [OF log_keeps [OF inv, of calls]] p, of c] assms(4) [OF go(2-4)] by (auto simp: same_set_def)
      then show thesis using that [of s1] a go(3) keeps_trans [OF log_keeps [OF inv]] by (auto simp: relay_sent_def)
    qed
    let ?g = "\<lambda>l. l\<lparr>lg_link_sent_usec := pe_now e\<rparr>"
    have "keeps s (set_uleg n True c ?g s1)" if ok
      using keeps_trans [OF s1(2) step_keeps [OF step_set_uleg(1) [OF keeps_inv [OF s1(2)] s1(3) [OF that], of ?g c]]] by simp
    moreover have "conflux_circuit_has_opened e c s = Some (validate_circ_has_no_streams c (if ok then set_uleg n True c ?g s1 else s1))"
      using en go cs s1(1,3) by (simp add: conflux_circuit_has_opened_def unlinked_leg_find_def Let_def)
    ultimately show ?thesis using val s1(2) by auto
  qed
qed

section \<open>New sets\<close>

definition nonce_unused :: "pool_t \<Rightarrow> bool \<Rightarrow> nonce \<Rightarrow> bool" where
  "nonce_unused s b n = (\<forall>d x f. conflux (pl_circs s d) = Some x \<and> pl_cfxs s x = Some f \<and> is_origin (pl_circs s d) = b \<longrightarrow> cfx_nonce f \<noteq> n)"

lemma unused_free: "nonce_unused s b n \<Longrightarrow> nonce_free s b n"
  unfolding nonce_unused_def nonce_free_def by blast

lemma unused_step:
  assumes inv: "pool_inv s" and st: "pool_step m s s'" and un: "nonce_unused s b n"
  shows "nonce_unused s' b n"
  unfolding nonce_unused_def
proof (intro allI impI, elim conjE)
  note D = pool_invD [OF inv]
  fix d x f'
  assume h: "conflux (pl_circs s' d) = Some x" "pl_cfxs s' x = Some f'" "is_origin (pl_circs s' d) = b"
  have d: "conflux (pl_circs s d) = Some x" using st h(1) by (auto simp: pool_step_def pool_rel_def) (metis option.distinct(1))
  have lt: "x < pl_next_cfx s" "d < pl_next_circ s" using D(6) [OF d] D(7) D(8) [of d] d by (blast, fastforce)
  then obtain f where "pl_cfxs s x = Some f" "cfx_nonce f' = cfx_nonce f" using st h(2) unfolding pool_step_def pool_rel_def by blast
  then show "cfx_nonce f' \<noteq> n" using un d pool_rel_origin [OF st lt(2)] h(3) unfolding nonce_unused_def by metis
qed

lemma launch_leg_ok:
  assumes inv: "pool_inv s" and p: "env_ok e" and un: "nonce_unused s True n"
  shows "\<exists>r s'. conflux_launch_leg e n s = Some (r, s') \<and> keeps s s' \<and> (\<forall>n'. nonce_unused s True n' \<longrightarrow> nonce_unused s' True n')"
proof -
  obtain u s1 where s1: "unlinked_get_or_create n True s = Some (u, s1)" "pool_inv s1" "unl s1 True n = Some u" "pl_circs s1 = pl_circs s" and kp: "keeps s s1"
    using get_or_create_ok [OF inv unused_free [OF un]] keeps_inv by blast
  have cf: "pl_cfxs s1 x = pl_cfxs s x" if "pl_cfxs s x = Some g" for x g
  proof (cases "unl s True n")
    case None
    have "x \<noteq> pl_next_cfx s" using pool_invD(7) [OF inv that] by simp
    then show ?thesis using s1(1) None
      by (auto simp: unlinked_get_or_create_def unlinked_new_def Let_def conflux_free_def unlinked_pool_add_def bind_eq_Some_iff split: option.splits)
  qed (use s1(1) in \<open>simp add: unlinked_get_or_create_def\<close>)
  have un1: "nonce_unused s1 True n'" if "nonce_unused s True n'" for n'
    using that pool_invD(6) [OF inv] cf unfolding nonce_unused_def s1(4) by (metis option.inject)
  have "unlinked_get_or_create n True s1 = Some (u, s1)" using s1(3) by (simp add: unlinked_get_or_create_def)
  then have eq: "conflux_launch_leg e n s = conflux_launch_leg e n s1"
    using s1(1) unfolding conflux_launch_leg_def conflux_launch_leg_with_def by simp
  obtain r s' where "conflux_launch_leg e n s1 = Some (r, s')" "pool_step (max_launch e) s1 s'"
    using launch_ok [OF s1(2) marks_below_all [OF p] lessI p, of n] s1(3) unfolding conflux_launch_leg_def by auto
  then show ?thesis using eq un1 unused_step [OF s1(2)] keeps_trans [OF kp step_keeps] by auto
qed

text \<open>A leg for a set that exists, as the controller asks for it.\<close>

lemma launch_existing_ok:
  assumes "pool_inv s" "env_ok e" "unl s True n \<noteq> None \<or> lnk s True n \<noteq> None"
  shows "\<exists>r s'. conflux_launch_leg e n s = Some (r, s') \<and> keeps s s'"
  using launch_ok [OF assms(1) marks_below_all [OF assms(2)] lessI assms(2,3)] step_keeps unfolding conflux_launch_leg_def by blast

lemma find_nonce_ok:
  assumes inv: "pool_inv s"
  shows "(\<And>c. c \<in> set cs \<Longrightarrow> is_origin (pl_circs s c) \<Longrightarrow> marked_for_close (pl_circs s c) = 0 \<Longrightarrow> conflux_pending_nonce (pl_circs s c) \<noteq> None \<Longrightarrow> is_leg s c) \<Longrightarrow>
    \<exists>r. find_conflux_nonce matches cs s = Some r \<and> (\<forall>n. r = Some n \<longrightarrow> unl s True n \<noteq> None \<or> lnk s True n \<noteq> None)"
proof (induction cs)
  case (Cons c cs)
  let ?k = "pl_circs s c"
  obtain r where r: "find_conflux_nonce matches cs s = Some r" "\<And>n. r = Some n \<Longrightarrow> unl s True n \<noteq> None \<or> lnk s True n \<noteq> None"
    using Cons.IH Cons.prems by fastforce
  show ?case
  proof (cases "is_origin ?k \<and> marked_for_close ?k = 0 \<and> CIRCUIT_IS_CONFLUX ?k")
    case False
    then show ?thesis using r by auto
  next
    case True
    have "\<exists>n. circ_nonce c s = Some n \<and> (unl s True n \<noteq> None \<or> lnk s True n \<noteq> None)"
    proof (cases "conflux_pending_nonce ?k")
      case (Some n)
      then have "is_leg s c" using Cons.prems True by auto
      then obtain b' n' w l where w: "unl s b' n' = Some w" "l \<in> set (ul_legs w)" "lg_circ l = Some c"
        using pending_unique(1) [OF inv Some] by (auto simp: is_leg_def)
      then have "unl s True n \<noteq> None" using pending_unique(2) [OF inv Some w] True by auto
      then show ?thesis using Some by (simp add: circ_nonce_def)
    next
      case None
      then obtain x where x: "conflux ?k = Some x" using True by (auto simp: CIRCUIT_IS_CONFLUX_def)
      then obtain f where "pl_cfxs s x = Some f" "lnk s True (cfx_nonce f) = Some x"
        using pool_invD(6) [OF inv x] True by (auto simp: dying_ok_def)
      then show ?thesis using None x by (simp add: circ_nonce_def)
    qed
    then show ?thesis using True r by auto
  qed
qed simp

lemma launch_legs_ok:
  "pool_inv s \<Longrightarrow> env_ok e \<Longrightarrow> nonce_unused s True n \<Longrightarrow>
   \<exists>r s'. launch_legs e n k s = Some (r, s') \<and> keeps s s' \<and> (\<forall>n'. nonce_unused s True n' \<longrightarrow> nonce_unused s' True n')"
proof (induction k arbitrary: s)
  case (Suc k)
  obtain r s1 where s1: "conflux_launch_leg e n s = Some (r, s1)" "keeps s s1" "\<And>n'. nonce_unused s True n' \<Longrightarrow> nonce_unused s1 True n'"
    using launch_leg_ok [OF Suc.prems] by blast
  obtain r' s2 where "launch_legs e n k s1 = Some (r', s2)" "keeps s s2" "\<And>n'. nonce_unused s1 True n' \<Longrightarrow> nonce_unused s2 True n'"
    using Suc.IH [OF keeps_inv [OF s1(2)] Suc.prems(2) s1(3) [OF Suc.prems(3)]] keeps_trans [OF s1(2)] by blast
  then show ?case using s1 by auto
qed (auto simp: keeps_refl)

lemma launch_sets_ok:
  "pool_inv s \<Longrightarrow> env_ok e \<Longrightarrow> (\<And>i. nonce_unused s True (rand i)) \<Longrightarrow> \<exists>s'. launch_sets e rand i k s = Some s' \<and> keeps s s'"
proof (induction k arbitrary: s i)
  case (Suc k)
  let ?l = "unat (conflux_params_get_num_legs_set (pe_params e))"
  obtain r s1 where s1: "launch_new_set e (rand i) ?l s = Some (r, s1)" "keeps s s1" "\<And>n'. nonce_unused s True n' \<Longrightarrow> nonce_unused s1 True n'"
    using launch_legs_ok [OF Suc.prems(1,2,3), of i ?l] unfolding launch_new_set_def by blast
  then show ?case using Suc.IH [OF keeps_inv [OF s1(2)], of "Suc i"] Suc.prems(2,3) keeps_trans [OF s1(2)] by auto
qed (simp add: keeps_refl)

lemma predict_new_ok:
  assumes "pool_inv s" "env_ok e" "\<And>i. nonce_unused s True (rand i)"
  shows "\<exists>s'. conflux_predict_new e rand s = Some s' \<and> keeps s s'"
  using launch_sets_ok [OF assms] keeps_refl [OF assms(1)] by (auto simp: conflux_predict_new_def conflux_is_enabled_def Let_def)

section \<open>Freeing\<close>

text \<open>A circuit that is a leg of no set goes, and with it an object that only it refers to.\<close>

lemma keeps_drop:
  assumes inv: "pool_inv s" and nl: "\<not> is_leg s c"
    and v: "\<And>b n. lnk s' b n = lnk s b n" "\<And>b n. unl s' b n = unl s b n" "pl_next_circ s' = pl_next_circ s" "pl_next_cfx s' = pl_next_cfx s" "pl_conns s' = pl_conns s"
    and x: "\<And>y. pl_cfxs s' y = pl_cfxs s y \<or> pl_cfxs s' y = None \<and> (\<forall>b n. lnk s b n \<noteq> Some y) \<and> (\<forall>b n u. unl s b n = Some u \<longrightarrow> ul_cfx u \<noteq> y) \<and>
        (\<forall>d. d \<noteq> c \<longrightarrow> conflux (pl_circs s d) \<noteq> Some y)"
    and c: "\<And>d. d \<noteq> c \<Longrightarrow> pl_circs s' d = pl_circs s d" "conflux (pl_circs s' c) = None" "conflux_pending_nonce (pl_circs s' c) = None"
  shows "keeps s s'"
proof -
  note D = pool_invD [OF inv]
  have lk: "pl_cfxs s' y = pl_cfxs s y" if "lnk s b n = Some y" for b n y using x [of y] that by blast
  have uk: "pl_cfxs s' (ul_cfx u) = pl_cfxs s (ul_cfx u)" if "unl s b n = Some u" for b n u using x [of "ul_cfx u"] that by blast
  have ck: "pl_cfxs s' y = pl_cfxs s y" if "conflux (pl_circs s d) = Some y" "d \<noteq> c" for d y using x [of y] that by blast
  have "pool_inv s'"
  proof (rule pool_invI)
    fix b n y
    assume "lnk s' b n = Some y"
    then have y: "lnk s b n = Some y" by (simp add: v)
    obtain g where g: "pl_cfxs s y = Some g" "cfx_nonce g = n" "linked_ok (pl_circs s) b y g" using D(1) [OF y] by blast
    have "d \<noteq> c" if "d \<in> set (leg_ids g)" for d using is_legI(1) [OF y g(1) that] nl by auto
    then have "linked_ok (pl_circs s') b y g" using g(3) c(1) unfolding linked_ok_def by metis
    then show "\<exists>g. pl_cfxs s' y = Some g \<and> cfx_nonce g = n \<and> linked_ok (pl_circs s') b y g" using g lk [OF y] by auto
  next
    fix b n u
    assume "unl s' b n = Some u"
    then have u: "unl s b n = Some u" by (simp add: v)
    show "ul_is_client u = b" using D(2) [OF u] .
    have "d \<noteq> c" if "l \<in> set (ul_legs u)" "lg_circ l = Some d" for l d using is_legI(2) [OF u that] nl by auto
    then show "unlinked_ok (pl_circs s') b n (ul_legs u)" using D(3) [OF u] c(1) unfolding unlinked_ok_def by metis
    show "unlinked_obj (lnk s' b n) n u (pl_cfxs s' (ul_cfx u))" using D(4) [OF u] uk [OF u] by (simp add: v)
  next
    fix d y
    assume d': "conflux (pl_circs s' d) = Some y"
    then have "d \<noteq> c" using c(2) by auto
    then have d: "conflux (pl_circs s d) = Some y" "pl_circs s' d = pl_circs s d" using d' c(1) by auto
    have "dying_ok s' d y g" if "dying_ok s d y g" for g
    proof -
      have "conflux (pl_circs s' i) = Some y \<Longrightarrow> i = d" for i using that c(1,2) by (cases "i = c") (auto simp: dying_ok_def)
      then show ?thesis using that d(2) by (simp add: dying_ok_def v)
    qed
    then show "\<exists>g. pl_cfxs s' y = Some g \<and> (d \<in> set (leg_ids g) \<and> lnk s' (is_origin (pl_circs s' d)) (cfx_nonce g) = Some y \<or> dying_ok s' d y g)"
      using D(6) [OF d(1)] ck [OF d(1) \<open>d \<noteq> c\<close>] d(2) by (auto simp: v)
  next
    show "y < pl_next_cfx s'" if "pl_cfxs s' y = Some g" for y g using x [of y] that D(7) [of y g] v(4) by auto
    show "conflux (pl_circs s' d) = None \<and> conflux_pending_nonce (pl_circs s' d) = None" if "pl_next_circ s' \<le> d" for d
      using D(8,9) [of d] that c v(3) by (cases "d = c") auto
    show "\<exists>ps. stream_list (pl_conns s') p = Some ps" for p using D(10) v(5) by simp
    show "ul_cfx w \<noteq> ul_cfx w'" if "unl s' True n = Some w" "unl s' False n = Some w'" for n w w' using D(5) that by (simp add: v)
    show "purpose_ok (pl_circs s' d)" for d using D(11) [of d] c by (cases "d = c") (simp_all add: purpose_ok_def)
  qed
  moreover have "closed_legs s' \<subseteq> closed_legs s"
  proof (rule closed_legs_subset)
    show "is_leg s d" if "is_leg s' d" for d
      by (rule is_leg_subset [OF _ _ that]) (use v lk is_legI in \<open>metis+\<close>)
    show "marked_for_close (pl_circs s' d) = marked_for_close (pl_circs s d)" if "is_leg s d" for d using that nl c(1) by (cases "d = c") auto
  qed
  ultimately show ?thesis by (simp add: keeps_def)
qed

lemma free_ok:
  assumes inv: "pool_inv s" and nl: "\<not> is_leg s c"
  shows "\<exists>s'. conflux_circuit_about_to_free c s = Some s' \<and> keeps s s' \<and> \<not> CIRCUIT_IS_CONFLUX (pl_circs s' c) \<and>
    (\<forall>x. conflux (pl_circs s c) = Some x \<longrightarrow> pl_cfxs s' x = None)"
proof (cases "conflux (pl_circs s c)")
  case (Some x)
  obtain f where f: "pl_cfxs s x = Some f" "dying_ok s c x f" using pool_invD(6) [OF inv Some] is_legI(1) nl by blast
  let ?b = "is_origin (pl_circs s c)"
  have e: "legs f = []" "lnk s ?b (cfx_nonce f) = None" "unl s ?b (cfx_nonce f) = None" using f(2) by (simp_all add: dying_ok_def)
  let ?s1 = "linked_pool_del (cfx_nonce f) ?b (upd_cfx x f s)"
  obtain s2 where s2: "conflux_free x ?s1 = Some s2" "\<And>b n. lnk s2 b n = lnk ?s1 b n" "\<And>b n. unl s2 b n = unl s b n" "pl_cfxs s2 = (pl_cfxs s)(x := None)"
      "pl_circs s2 = pl_circs s" "pl_next_circ s2 = pl_next_circ s" "pl_next_cfx s2 = pl_next_cfx s" "pl_conns s2 = pl_conns s"
    by (simp add: conflux_free_def)
  let ?s3 = "upd_circ c (\<lambda>k. k\<lparr>conflux := None, conflux_pending_nonce := None\<rparr>) s2"
  have "linked_circuit_free c ?b s = Some s2"
    using Some f(1) e pool_invD(11) [OF inv, of c, unfolded purpose_ok_def] s2(1) by (simp add: linked_circuit_free_def cfx_del_leg_def conflux_get_leg_def Let_def)
  then have r: "conflux_circuit_about_to_free c s = Some ?s3" using Some by (simp add: conflux_circuit_about_to_free_def Let_def)
  have lx: "lnk s b n \<noteq> Some x" for b n using pool_invD(1) [OF inv, of n b x] f(1) e(1) by (auto simp: linked_ok_def)
  have "keeps s ?s3"
  proof (rule keeps_drop [OF inv nl])
    show "lnk ?s3 b n = lnk s b n" for b n using s2(2) e(2) by simp
    show "pl_cfxs ?s3 y = pl_cfxs s y \<or> pl_cfxs ?s3 y = None \<and> (\<forall>b n. lnk s b n \<noteq> Some y) \<and> (\<forall>b n u. unl s b n = Some u \<longrightarrow> ul_cfx u \<noteq> y) \<and>
        (\<forall>d. d \<noteq> c \<longrightarrow> conflux (pl_circs s d) \<noteq> Some y)" for y
      using s2(4) lx f(2) by (cases "y = x") (auto simp: dying_ok_def)
  qed (use s2 in simp_all)
  then show ?thesis using r Some s2(4) by (simp add: CIRCUIT_IS_CONFLUX_def)
next
  case None
  have nf: "unlinked_leg_find c (is_origin (pl_circs s c)) s = Some None" if "conflux_pending_nonce (pl_circs s c) = Some n" for n
    using that nl leg_find_props is_legI(2) by (auto simp: unlinked_leg_find_def split: option.splits) (metis not_None_eq)
  obtain s' where r: "conflux_circuit_about_to_free c s = Some s'" "\<And>b n. lnk s' b n = lnk s b n" "\<And>b n. unl s' b n = unl s b n"
      "pl_next_circ s' = pl_next_circ s" "pl_next_cfx s' = pl_next_cfx s" "pl_conns s' = pl_conns s" "pl_cfxs s' = pl_cfxs s"
      "\<And>d. d \<noteq> c \<Longrightarrow> pl_circs s' d = pl_circs s d" "conflux (pl_circs s' c) = None" "conflux_pending_nonce (pl_circs s' c) = None"
    using None nf pool_invD(11) [OF inv, of c, unfolded purpose_ok_def] by (cases "conflux_pending_nonce (pl_circs s c)") (auto simp: conflux_circuit_about_to_free_def unlinked_circuit_free_def Let_def)
  then show ?thesis using keeps_drop [OF inv nl, of s'] None by (auto simp: CIRCUIT_IS_CONFLUX_def)
qed

section \<open>Changing a purpose\<close>

lemma change_purpose_ok:
  assumes inv: "pool_inv s" and p: "env_ok e" and o: "is_origin (pl_circs s c) = CIRCUIT_PURPOSE_IS_ORIGIN new"
    and k: "CIRCUIT_IS_CONFLUX (pl_circs s c) \<Longrightarrow> purpose (pl_circs s c) \<noteq> new \<Longrightarrow> new \<noteq> CIRCUIT_PURPOSE_CONFLUX_LINKED \<and> marked_for_close (pl_circs s c) = 0 \<and>
      is_leg s c \<and> (\<forall>b n x f. leg_of s b n x f c \<longrightarrow> set (leg_ids f) \<noteq> {c} \<or> unl s b n \<noteq> None)"
  shows "\<exists>s'. circuit_change_purpose e c new s = Some s' \<and> keeps s s'"
proof (cases "purpose (pl_circs s c) = new \<or> \<not> CIRCUIT_IS_CONFLUX (pl_circs s c)")
  case True
  then show ?thesis using o keeps_refl [OF inv] step_keeps [OF step_purpose [OF inv]]
    by (cases "purpose (pl_circs s c) = new") (auto simp: circuit_change_purpose_def circuit_change_purpose_with_def)
next
  case False
  have live: "\<not> dying_ok s c x f" for x f using k False by (simp add: dying_ok_def)
  obtain s1 where s1: "conflux_circuit_has_closed_with (circuit_mark_for_close e) e c s = Some s1" "pool_step (max_launch e) s s1"
      "\<not> CIRCUIT_IS_CONFLUX (pl_circs s1 c)"
    using has_closed_ok [OF inv marks_below_all [OF p] lessI p _ live] k False by blast
  then show ?thesis using False k o step_keeps [OF pool_step_trans [OF s1(2) step_purpose [OF pool_step_inv [OF s1(2)] s1(3)]]]
    by (auto simp: circuit_change_purpose_def circuit_change_purpose_with_def)
qed

section \<open>Freeing the pools\<close>

lemma free_unlinked_ok:
  "pool_inv s \<Longrightarrow> distinct (map fst us) \<Longrightarrow> (\<And>n u. (n, u) \<in> set us \<Longrightarrow> unl s b n = Some u \<and> ul_legs u = []) \<Longrightarrow>
   \<exists>s'. free_unlinked us s = Some s' \<and> pool_step 0 s s' \<and>
     (\<forall>b' n'. unl s' b' n' = (if b' = b \<and> n' \<in> fst ` set us then None else unl s b' n')) \<and> (\<forall>b' n'. lnk s' b' n' = lnk s b' n')"
proof (induction us arbitrary: s)
  case Nil
  then show ?case by (simp add: pool_step_refl)
next
  case (Cons nu us)
  obtain n u where nu: "nu = (n, u)" by fastforce
  have u: "unl s b n = Some u" "ul_legs u = []" using Cons.prems(3) nu by auto
  obtain f where f: "pl_cfxs s (ul_cfx u) = Some f" "cfx_nonce f = n" using pool_invD(4) [OF Cons.prems(1) u(1)] by (auto simp: unlinked_obj_def)
  obtain s1 where s1: "unlinked_pool_del_and_free u b s = Some s1" "pool_step 0 s s1"
      "\<And>b' n'. unl s1 b' n' = (if b' = b \<and> n' = n then None else unl s b' n')" "\<And>b' n'. lnk s1 b' n' = lnk s b' n'"
    using step_pool_del [OF Cons.prems(1) u, of 0] pool_del_view [OF f u(2), of b] by auto
  have "n \<notin> fst ` set us" using Cons.prems(2) nu by auto
  then obtain s2 where "free_unlinked us s1 = Some s2" "pool_step 0 s1 s2"
      "\<And>b' n'. unl s2 b' n' = (if b' = b \<and> n' \<in> fst ` set us then None else unl s1 b' n')" "\<And>b' n'. lnk s2 b' n' = lnk s1 b' n'"
    using Cons.IH [OF pool_step_inv [OF s1(2)]] Cons.prems(2,3) nu s1(3) by (smt (verit) distinct.simps(2) fst_conv image_eqI list.set_intros(2) list.simps(9))
  then show ?case using nu s1 pool_invD(2) [OF Cons.prems(1) u(1)] pool_step_trans [OF s1(2)] by auto
qed

lemma map_of_empty: "(\<And>k. map_of xs k = None) \<Longrightarrow> xs = []"
  by (cases xs) (auto split: if_splits, metis option.distinct(1))

text \<open>When no circuit is part of conflux any more, only unlinked sets without legs can be left.\<close>

lemma pool_free_all_ok:
  assumes inv: "pool_inv s" and c: "\<And>c. \<not> CIRCUIT_IS_CONFLUX (pl_circs s c)"
  shows "\<exists>s'. conflux_pool_free_all s = Some s' \<and> keeps s s'"
proof -
  note D = pool_invD [OF inv]
  have l: "lnk s b n = None" for b n
  proof (cases "lnk s b n")
    case (Some x)
    then show ?thesis using D(1) [OF Some] c by (auto simp: linked_ok_def leg_ids_def CIRCUIT_IS_CONFLUX_def neq_Nil_conv)
  qed
  have u: "ul_legs u = []" if "unl s b n = Some u" for b n u
    using D(3) [OF that] c by (cases "ul_legs u") (auto simp: unlinked_ok_def CIRCUIT_IS_CONFLUX_def)
  have e: "client_linked_pool s = []" "server_linked_pool s = []"
    by (rule map_of_empty; use l [of _ True] l [of _ False] in \<open>simp add: linked_pool_get_def\<close>)+
  have cj: "unl t b n = Some w" if "(n, w) \<in> set (AList.clearjunk (if b then client_unlinked_pool t else server_unlinked_pool t))" for t b n w
    using map_of_is_SomeI [OF distinct_clearjunk that] by (simp add: unlinked_pool_get_def map_of_clearjunk)
  have ck: "fst ` set (AList.clearjunk xs) = dom (map_of xs)" for xs :: "(nonce \<times> unlinked_circuits_t) list"
    by (metis dom_map_of_conv_image_fst map_of_clearjunk)
  obtain s1 where s1: "free_unlinked (AList.clearjunk (client_unlinked_pool s)) s = Some s1" "pool_step 0 s s1"
      "\<And>b' n'. unl s1 b' n' = (if b' \<and> n' \<in> dom (map_of (client_unlinked_pool s)) then None else unl s b' n')"
    using free_unlinked_ok [OF inv distinct_clearjunk [of "client_unlinked_pool s"], where b = True] cj [where b = True and t = s] u ck by fastforce
  have "unl s1 True n = None" for n using s1(3) [of n True] by (auto simp: unlinked_pool_get_def domIff)
  then have e1: "client_unlinked_pool s1 = []" by (intro map_of_empty) (simp add: unlinked_pool_get_def)
  have u1: "ul_legs w = []" if "unl s1 b n = Some w" for b n w using s1(3) u that by (auto split: if_splits)
  obtain s2 where s2: "free_unlinked (AList.clearjunk (server_unlinked_pool s1)) s1 = Some s2" "pool_step 0 s1 s2"
      "\<And>b' n'. unl s2 b' n' = (if \<not> b' \<and> n' \<in> dom (map_of (server_unlinked_pool s1)) then None else unl s1 b' n')"
    using free_unlinked_ok [OF pool_step_inv [OF s1(2)] distinct_clearjunk [of "server_unlinked_pool s1"], where b = False] cj [where b = False and t = s1] u1 ck by fastforce
  have "unl s2 False n = None" for n using s2(3) [of n False] by (auto simp: unlinked_pool_get_def domIff)
  then have e2: "server_unlinked_pool s2 = []" by (intro map_of_empty) (simp add: unlinked_pool_get_def)
  have t: "s\<lparr>client_linked_pool := [], server_linked_pool := []\<rparr> = s" "s1\<lparr>client_unlinked_pool := []\<rparr> = s1" "s2\<lparr>server_unlinked_pool := []\<rparr> = s2"
    using e e1 e2 by (cases s, simp, cases s1, simp, cases s2, simp)
  have "conflux_pool_free_all s = Some s2" by (simp add: conflux_pool_free_all_def e t s1(1) s2(1))
  then show ?thesis using step_keeps [OF pool_step_trans [OF s1(2) s2(2)]] by blast
qed

end
