(* ===== verification/ConfluxSystem.thy ===== *)
theory ConfluxSystem
  imports ConfluxHandshake
begin

text \<open>
  The conflux pools at work: every call that the rest of the program makes into
  \<^verbatim>\<open>conflux_pool.c\<close>, in any order, with arbitrary changes to circuits and sets in between that
  leave the pools alone.  The relation covers both ends: client circuits and circuits of an exit.
\<close>

datatype pool_call =
    Close_circuit end_circ_reason circ_id
  | Close_set nonce bool end_circ_reason
  | Predict_new "nat \<Rightarrow> nonce"
  | Circuit_opened circ_id
  | Link_cell circ_id relay_msg_t
  | Linked_cell circ_id "nat option" relay_msg_t
  | Linked_ack_cell circ_id
  | Control_add "nonce \<Rightarrow> bool" "circ_id list"
  | Change_purpose circ_id purpose_t
  | Free_circuit circ_id
  | Shutdown
  | Free_pools

fun run_call :: "pool_env \<Rightarrow> pool_call \<Rightarrow> pool_t \<Rightarrow> pool_t option" where
  "run_call e (Close_circuit reason c) s = circuit_mark_for_close e reason c s"
| "run_call e (Close_set nonce is_client reason) s = conflux_mark_all_for_close e nonce is_client reason s"
| "run_call e (Predict_new rand) s = conflux_predict_new e rand s"
| "run_call e (Circuit_opened c) s = conflux_circuit_has_opened e c s"
| "run_call e (Link_cell c m) s = conflux_process_link e c m s"
| "run_call e (Linked_cell c hop m) s = conflux_process_linked e c hop m s"
| "run_call e (Linked_ack_cell c) s = conflux_process_linked_ack e c s"
| "run_call e (Control_add matches cs) s = map_option snd (control_conflux_add e matches cs s)"
| "run_call e (Change_purpose c new_purpose) s = circuit_change_purpose e c new_purpose s"
| "run_call e (Free_circuit c) s = conflux_circuit_about_to_free c s"
| "run_call e Shutdown s = Some (conflux_notify_shutdown s)"
| "run_call e Free_pools s = conflux_pool_free_all s"

text \<open>
  When the program makes the call:
  \<^item> a cell is processed on a circuit with a path and a congestion control object that was initialized;
  \<^item> the nonces of new sets are new;
  \<^item> when the LINK cell of a circuit that opened is queued, the out-of-memory handler spares its set;
  \<^item> a LINK cell comes on a circuit that is open, and does not reuse the nonce of a set whose last
    circuit is closed and about to be freed;
  \<^item> the circuits among which \<^verbatim>\<open>CONFLUX ADD\<close> looks for the set are legs, when they are open and wait to
    be linked;
  \<^item> a purpose is of the kind of its circuit, a conflux circuit never gets \<^verbatim>\<open>CONFLUX_LINKED\<close> from
    outside, and one that loses its purpose is a leg that is not closed and not the last one of its
    set;
  \<^item> a circuit is freed when it is marked for close;
  \<^item> the pools are freed when no circuit is part of conflux any more.
\<close>

fun call_ok :: "pool_env \<Rightarrow> pool_call \<Rightarrow> pool_t \<Rightarrow> bool" where
  "call_ok e (Close_circuit reason c) s = True"
| "call_ok e (Close_set nonce is_client reason) s = True"
| "call_ok e (Predict_new rand) s = (\<forall>i. nonce_unused s True (rand i))"
| "call_ok e (Circuit_opened c) s = (circ_sane (pl_circs s c) \<and>
     (\<forall>n u l. conflux_pending_nonce (pl_circs s c) = Some n \<and> unl s True n = Some u \<and> leg_find u c = Some l \<longrightarrow>
        length n = 32 \<and> ux_ok (link_desired_ux (lg_link l)) \<and>
        (\<forall>circlist d. pe_memory e c (pl_circs s) = Some circlist \<and> d \<in> set circlist \<longrightarrow> \<not> same_set s n d)))"
| "call_ok e (Link_cell c m) s = (circ_sane (pl_circs s c) \<and> c < pl_next_circ s \<and> marked_for_close (pl_circs s c) = 0 \<and>
     (\<forall>link. conflux_cell_parse_link m = Some link \<longrightarrow> nonce_free s False (link_nonce link)))"
| "call_ok e (Linked_cell c hop m) s = circ_sane (pl_circs s c)"
| "call_ok e (Linked_ack_cell c) s = circ_sane (pl_circs s c)"
| "call_ok e (Control_add matches cs) s = (\<forall>c \<in> set cs. is_origin (pl_circs s c) \<and> marked_for_close (pl_circs s c) = 0 \<and>
     conflux_pending_nonce (pl_circs s c) \<noteq> None \<longrightarrow> is_leg s c)"
| "call_ok e (Change_purpose c new) s = (is_origin (pl_circs s c) = CIRCUIT_PURPOSE_IS_ORIGIN new \<and>
     (CIRCUIT_IS_CONFLUX (pl_circs s c) \<and> purpose (pl_circs s c) \<noteq> new \<longrightarrow>
        new \<noteq> CIRCUIT_PURPOSE_CONFLUX_LINKED \<and> marked_for_close (pl_circs s c) = 0 \<and> is_leg s c \<and>
        (\<forall>b n x f. leg_of s b n x f c \<longrightarrow> set (leg_ids f) \<noteq> {c} \<or> unl s b n \<noteq> None)))"
| "call_ok e (Free_circuit c) s = (marked_for_close (pl_circs s c) \<noteq> 0)"
| "call_ok e Shutdown s = True"
| "call_ok e Free_pools s = (\<forall>c. \<not> CIRCUIT_IS_CONFLUX (pl_circs s c))"

text \<open>What the rest of the program may change: cells, streams, new circuits, but not the pools.\<close>

definition other_change :: "pool_t \<Rightarrow> pool_t \<Rightarrow> bool" where
  "other_change s s' = ((\<forall>b n. lnk s' b n = lnk s b n) \<and> (\<forall>b n. unl s' b n = unl s b n) \<and>
     (\<forall>c. live_circ (pl_circs s c) (pl_circs s' c) \<and> (c < pl_next_circ s \<longrightarrow> marked_for_close (pl_circs s' c) = marked_for_close (pl_circs s c))) \<and>
     (\<forall>x. rel_option same_cfx (pl_cfxs s x) (pl_cfxs s' x)) \<and>
     pl_next_circ s \<le> pl_next_circ s' \<and> pl_next_cfx s \<le> pl_next_cfx s' \<and> (\<forall>p. stream_list (pl_conns s') p \<noteq> None))"

inductive pool_next :: "pool_t \<Rightarrow> pool_t \<Rightarrow> bool" where
  call: "env_ok e \<Longrightarrow> call_ok e a s \<Longrightarrow> run_call e a s = Some s' \<Longrightarrow> pool_next s s'"
| other: "other_change s s' \<Longrightarrow> pool_next s s'"



inductive_cases pool_nextE [elim!]: "pool_next s s'"





section \<open>Properties\<close>





text \<open>
  C6: a set becomes usable only as a whole and without losing data.  From consistent pools, in an
  environment as \<^term>\<open>env_ok\<close> says, finalizing an unlinked set returns with consistent pools.  When it
  reports success and every leg has answered, the set is in the linked pool and no longer in the
  unlinked one, its legs are the old ones followed by the new ones, the limit on legs is respected,
  the launch budget is reset, and no new leg starts at a sequence number that the other end already
  used beyond what was delivered here.
\<close>

theorem finalize_links_set:
  assumes "pool_inv s" and "env_ok e" and "unlinked_pool_get nonce b s = Some u" and "pl_cfxs s (ul_cfx u) = Some cfx"
  shows "\<exists>err s'. try_finalize_set e nonce b s = Some (err, s') \<and> pool_inv s' \<and>
    (err = ERR_LINK_CIRC_OK \<and> list_all lg_linked (ul_legs u) \<longrightarrow>
       linked_pool_get nonce b s' = Some (ul_cfx u) \<and> unlinked_pool_get nonce b s' = None \<and>
       (\<exists>cfx' new. pl_cfxs s' (ul_cfx u) = Some cfx' \<and> legs cfx' = legs cfx @ new \<and>
          mset (map (\<lambda>l. Some (leg_circ l)) new) = mset (map lg_circ (ul_legs u)) \<and>
          length (legs cfx') \<le> unat (conflux_params_get_max_legs_set (pe_params e)) \<and>
          num_leg_launch cfx' = 0 \<and> last_seq_delivered cfx' = last_seq_delivered cfx \<and>
          (\<forall>l \<in> set new. last_seq_recv l \<le> last_seq_delivered cfx')))"
proof (rule try_finalize_ok [OF assms], goal_cases waiting linked)
  case (waiting err s')
  then show ?thesis by (auto simp: pool_step_def list_all_iff)
next
  case (linked s' a)
  let ?new = "map (\<lambda>l. new_leg (the (lg_circ l)) l) (fin_order (ul_legs u))"
  let ?f = "cfx\<lparr>alg := a, legs := legs cfx @ ?new, num_leg_launch := 0\<rparr>"
  have "lg_circ l \<noteq> None" if "l \<in> set (ul_legs u)" for l using pool_invD(3) [OF assms(1,3)] that by (auto simp: unlinked_ok_def)
  then have "map (\<lambda>l. Some (leg_circ l)) ?new = map lg_circ (fin_order (ul_legs u))" by (auto simp: new_leg_def)
  moreover have "mset (fin_order (ul_legs u)) = mset (ul_legs u)" by (cases "ul_legs u") simp_all
  ultimately have "mset (map (\<lambda>l. Some (leg_circ l)) ?new) = mset (map lg_circ (ul_legs u))" by (metis mset_map)
  then have "pl_cfxs s' (ul_cfx u) = Some ?f \<and> legs ?f = legs cfx @ ?new \<and> mset (map (\<lambda>l. Some (leg_circ l)) ?new) = mset (map lg_circ (ul_legs u)) \<and>
      length (legs ?f) \<le> unat (conflux_params_get_max_legs_set (pe_params e)) \<and> num_leg_launch ?f = 0 \<and> last_seq_delivered ?f = last_seq_delivered cfx \<and>
      (\<forall>l \<in> set ?new. last_seq_recv l \<le> last_seq_delivered ?f)"
    using linked by (simp add: new_leg_def)
  then show ?thesis using linked(1,2,6,7) by blast
qed

text \<open>A client set of one leg whose LINKED cell has arrived.\<close>

definition handshake_set :: unlinked_circuits_t where
  "handshake_set = \<lparr>ul_is_client = True, is_for_linked_set = False, ul_cfx = 0,
     ul_legs = [(leg_new 0 (conflux_cell_new_link [9] 0 0 1))\<lparr>lg_linked := True\<rparr>]\<rparr>"

definition handshake_pool :: pool_t where
  "handshake_pool = (demo_pool [0])\<lparr>
     pl_circs := (\<lambda>c. if c = 0 then exit_circ\<lparr>is_origin := True, purpose := CIRCUIT_PURPOSE_CONFLUX_UNLINKED, conflux_pending_nonce := Some [9], cpath := [pool_hop]\<rparr>
                       else exit_circ),
     pl_cfxs := [0 \<mapsto> conflux_new\<lparr>cfx_nonce := [9]\<rparr>], client_linked_pool := [], client_unlinked_pool := [([9], handshake_set)]\<rparr>"

lemma handshake_pool_inv: "pool_inv handshake_pool"
proof (rule pool_invI)
  show "\<exists>ps. stream_list (pl_conns handshake_pool) p = Some ps" for p
    by (subst stream_list.simps) (simp add: stream_list.simps [of _ 0] handshake_pool_def demo_pool_def pool_stream_def)
qed (auto simp: handshake_pool_def handshake_set_def demo_pool_def linked_pool_get_def unlinked_pool_get_def unlinked_ok_def unlinked_obj_def leg_circ_ok_def cc_ready_def
       circuit_ccontrol_def exit_circ_def pool_hop_def exit_of_circ_def cpath_last_def leg_new_def conflux_cell_new_link_def conflux_new_def purpose_ok_def split: if_splits)

theorem finalize_links_set_witness:
  "list_all lg_linked (ul_legs handshake_set) \<and> (\<exists>err s'. try_finalize_set (demo_env (\<lambda>_. No_path)) [9] True handshake_pool = Some (err, s') \<and> pool_inv s' \<and>
     (err = ERR_LINK_CIRC_OK \<longrightarrow> linked_pool_get [9] True s' = Some 0))"
proof -
  have l: "list_all lg_linked (ul_legs handshake_set)" by (simp add: handshake_set_def)
  have "env_ok (demo_env (\<lambda>_. No_path))" by (rule demo_env_ok) simp
  moreover have "unl handshake_pool True [9] = Some handshake_set" by (simp add: handshake_pool_def unlinked_pool_get_def)
  moreover have x: "ul_cfx handshake_set = 0" by (simp add: handshake_set_def)
  then have "pl_cfxs handshake_pool (ul_cfx handshake_set) = Some (conflux_new\<lparr>cfx_nonce := [9]\<rparr>)" by (simp add: handshake_pool_def)
  ultimately show ?thesis using finalize_links_set [OF handshake_pool_inv] l x by fastforce
qed

section \<open>Boundaries of the properties\<close>

text \<open>The definitions that evaluate a call on a concrete pool.\<close>

lemmas pool_eval = circuit_mark_for_close_with_def conflux_circuit_has_closed_with_def linked_circuit_closed_with_def linked_leg_out_def cfx_del_leg_def
  linked_detach_def conflux_mark_all_for_close_with_def unlinked_close_or_free_with_def linked_refill_with_def unlinked_get_or_create_def unlinked_new_def
  conflux_launch_leg_with_def circuit_establish_circuit_conflux_with_def cell_queues_check_size_with_def get_exit_for_nonce_def exit_of_circ_def
  CIRCUIT_IS_CONFLUX_def upd_circ_def upd_cfx_def log_calls_def linked_pool_get_def unlinked_pool_get_def linked_pool_del_def unlinked_pool_add_def
  unlinked_pool_del_and_free_def unlinked_pool_del_def unlinked_free_def unlinked_pool_set_def conflux_free_def conflux_clear_ooo_q_def
  launch_leg_is_allowed_def conflux_params_get_num_legs_set_def conflux_params_get_max_unlinked_leg_retry_def origin_circuit_init_def
  leg_new_def smartlist_add_def smartlist_get_def circuit_ccontrol_def cpath_last_def conflux_get_leg_def conflux_get_max_seq_sent_def conflux_get_max_seq_recv_def Let_def

lemmas demo_eval = demo_pool_def demo_env_def pool_leg_def conflux_new_def exit_circ_def pool_hop_def conflux_params_init_def

text \<open>
  A launch that the budget denies reports failure, but the empty unlinked set that was created for
  it stays in the pool.
\<close>

theorem launch_denied_leaves_empty_set:
  assumes "pool_inv s" and "linked_pool_get nonce True s = Some x" and "unlinked_pool_get nonce True s = None"
    and "pl_cfxs s x = Some cfx" and "\<not> launch_leg_is_allowed (pe_params e) (Some cfx)"
  shows "\<exists>s' u. conflux_launch_leg e nonce s = Some (False, s') \<and> unlinked_pool_get nonce True s' = Some u \<and> ul_legs u = []"
proof -
  obtain s' where s': "unlinked_get_or_create nonce True s = Some (\<lparr>ul_is_client = True, is_for_linked_set = True, ul_cfx = x, ul_legs = []\<rparr>, s')"
      "pool_step 0 s s'" "unl s' True nonce = Some \<lparr>ul_is_client = True, is_for_linked_set = True, ul_cfx = x, ul_legs = []\<rparr>"
    using create_for_linked [OF assms(1,3,2), of 0] by blast
  have "x \<noteq> pl_next_cfx s" using pool_invD(7) [OF assms(1,4)] by simp
  then have "pl_cfxs s' x = Some cfx" using s'(1) assms(2-4)
    by (auto simp: unlinked_get_or_create_def unlinked_new_def Let_def conflux_free_def unlinked_pool_add_def bind_eq_Some_iff)
  then show ?thesis using s'(1,3) assms(5) by (simp add: conflux_launch_leg_def conflux_launch_leg_with_def)
qed

text \<open>
  Closing the only leg of a client set that has delivered data rebuilds the set around the same
  object.  The exit has lost its side of the set, so its LINKED cell starts at sequence number 0;
  the first message on the new leg is then older than what was delivered, and closes the circuit.
\<close>

lemma stale_message_closes:
  assumes "last_seq_recv l = 0" "0 < last_seq_delivered f" "conflux_validate_source_hop k hint"
  shows "snd (snd (snd (conflux_process_relay_msg p tot (f\<lparr>legs := [l]\<rparr>) (leg_circ l) k hint m))) = [Mark_for_close (leg_circ l) END_CIRC_REASON_INTERNAL]"
proof -
  have "(1 :: u64) \<noteq> last_seq_delivered f + 1" "(1 :: u64) \<le> last_seq_delivered f" using assms(2) by (auto simp: word_gt_0 word_le_nat_alt unat_gt_0 Suc_le_eq)
  then show ?thesis using assms by (auto simp: conflux_process_relay_msg_def conflux_get_leg_def Let_def)
qed

theorem sole_leg_rebuild_rejects_data:
  "\<exists>s' u f. circuit_mark_for_close (demo_env (\<lambda>_. Built [pool_hop])) END_CIRC_REASON_FINISHED 0 (demo_pool [0]) = Some s' \<and>
     unlinked_pool_get [9] True s' = Some u \<and> map lg_circ (ul_legs u) = [Some 2] \<and> pl_cfxs s' (ul_cfx u) = Some f \<and>
     (\<forall>l k hint p tot m. link_last_seqno_sent (lg_link l) = 0 \<and> conflux_validate_source_hop k hint \<longrightarrow>
        snd (snd (snd (conflux_process_relay_msg p tot (f\<lparr>legs := [new_leg 2 l]\<rparr>) 2 k hint m))) = [Mark_for_close 2 END_CIRC_REASON_INTERNAL])"
proof -
  let ?e = "demo_env (\<lambda>_. Built [pool_hop])"
  have "\<exists>s' u f. circuit_mark_for_close ?e END_CIRC_REASON_FINISHED 0 (demo_pool [0]) = Some s' \<and>
     unlinked_pool_get [9] True s' = Some u \<and> map lg_circ (ul_legs u) = [Some 2] \<and> pl_cfxs s' (ul_cfx u) = Some f \<and> last_seq_delivered f = 5"
    by (subst circuit_mark_for_close.simps)
      (simp add: pool_eval demo_eval)
  then show ?thesis using stale_message_closes [of "new_leg 2 l" for l] by (fastforce simp: new_leg_def)
qed

text \<open>
  The reason why \<open>call_ok\<close> asks for a nonce that no closed circuit still owns: when a new set was
  linked under the nonce of a set whose last circuit waits to be freed, freeing that circuit takes
  the new set out of the pool, although the set and its circuits are alive.
\<close>

theorem late_free_drops_newer_set:
  assumes "conflux (pl_circs s c) = Some x" and "pl_cfxs s x = Some f" and "legs f = []" and "\<not> is_origin (pl_circs s c)"
    and "unlinked_pool_get (cfx_nonce f) False s = None"
    and "linked_pool_get (cfx_nonce f) False s = Some y" and "y \<noteq> x" and "pl_cfxs s y = Some g"
  shows "\<exists>s'. conflux_circuit_about_to_free c s = Some s' \<and> linked_pool_get (cfx_nonce f) False s' = None \<and> pl_cfxs s' y = Some g"
  using assms by (simp add: conflux_circuit_about_to_free_def linked_circuit_free_def cfx_del_leg_def conflux_get_leg_def linked_pool_del_def
      linked_pool_get_def unlinked_pool_get_def conflux_free_def upd_circ_def upd_cfx_def Let_def delete_conv' split: option.splits)

text \<open>
  The reason for the condition on the out-of-memory handler in \<^term>\<open>env_ok\<close>: when it runs while a leg
  is launched and closes the current leg of the set, but not the new circuit, the teardown of the
  set frees the unlinked set that \<^verbatim>\<open>conflux_launch_leg\<close> still uses.
\<close>

theorem oom_during_launch_uses_freed_set:
  fixes e s
  defines "e \<equiv> (demo_env (\<lambda>_. Built [pool_hop]))\<lparr>pe_memory := (\<lambda>_ _. Some [1])\<rparr>"
    and "s \<equiv> (demo_pool [1])\<lparr>pl_cfxs := [0 \<mapsto> conflux_new\<lparr>cfx_nonce := [9], legs := [pool_leg 1], curr_leg := Some 1\<rparr>]\<rparr>"
  shows "conflux_launch_leg e [9] s = None"
  unfolding conflux_launch_leg_def
  by (simp add: e_def s_def pool_eval demo_eval, subst circuit_mark_for_close.simps, simp add: pool_eval demo_eval)

text \<open>
  The same for the LINK cell of a circuit that has opened: when the out-of-memory handler closes
  that circuit, its leg is freed, and \<^verbatim>\<open>conflux_circuit_has_opened\<close> writes to it afterwards.
\<close>

theorem oom_on_link_cell_uses_freed_leg:
  assumes "circ_enabled e c s = Some True" and "conflux_pending_nonce (pl_circs s c) = Some n" and "is_origin (pl_circs s c)"
    and "unlinked_pool_get n True s = Some u" and "ul_legs u = [l]" and "lg_circ l = Some c" and "build_link_cell (lg_link l) = Some (Inr payload)"
    and "pl_cfxs s (ul_cfx u) = Some cfx" and "cfx_nonce cfx = n" and "marked_for_close (pl_circs s c) = 0"
    and "pe_sent e c" and "pe_memory e c (pl_circs s) = Some [c]" and "\<And>k r. pe_close_delayed e k r = None"
  shows "conflux_circuit_has_opened e c s = None"
proof -
  let ?s = "(log_calls [Relay_send c RELAY_COMMAND_CONFLUX_LINK payload (last_hop_id (pl_circs s c))] s)\<lparr>pl_mem_pressure := True\<rparr>"
  have "\<exists>s'. circuit_mark_for_close e END_CIRC_REASON_RESOURCELIMIT c ?s = Some s' \<and> unl s' True n = None"
    using assms by (subst circuit_mark_for_close.simps)
      (auto simp: circuit_mark_for_close_with_def conflux_circuit_has_closed_with_def unlinked_circuit_closed_with_def CIRCUIT_IS_CONFLUX_def
         unlinked_leg_del_and_free_def leg_find_def leg_free_def unlinked_pool_del_and_free_def unlinked_pool_del_def unlinked_free_def conflux_free_def
         validate_circ_has_no_streams_def unlinked_pool_get_def unlinked_pool_set_def upd_circ_def log_calls_def Let_def AList.delete_conv' AList.update_conv')
  then show ?thesis using assms
    by (auto simp: conflux_circuit_has_opened_def unlinked_leg_find_def leg_find_def conflux_cell_send_link_def relay_sent_def
        cell_queues_check_size_def cell_queues_check_size_with_def)
qed

text \<open>
  The reason for the condition on changes of a purpose: a sole leg that gets another purpose while
  memory is short keeps its conflux object, and freeing the circuit later fails an assertion.
\<close>

theorem repurposed_sole_leg_aborts_free:
  "\<exists>s'. circuit_change_purpose (demo_env (\<lambda>_. No_path)) 0 (CIRCUIT_PURPOSE_OTHER 5) ((demo_pool [0])\<lparr>pl_mem_pressure := True\<rparr>) = Some s' \<and>
    conflux_circuit_about_to_free 0 s' = None"
  by (simp add: circuit_change_purpose_def circuit_change_purpose_with_def CIRCUIT_PURPOSE_IS_ORIGIN_def conflux_circuit_about_to_free_def
      linked_circuit_free_def pool_eval demo_eval)

end
