(* ===== verification/Vegas.thy ===== *)
theory Vegas
  imports CongestionControl
begin

text \<open>
  \<^verbatim>\<open>core/or/congestion_control_vegas.c\<close>: the TOR_VEGAS algorithm.  Path parameters, limited
  slow start, the steady-state window update and the whole SENDME handler, followed by the
  set-up of a congestion control object from \<^verbatim>\<open>congestion_control_common.c\<close>, which needs the
  Vegas parameters.
\<close>

section \<open>Parameters\<close>

text \<open>\<^verbatim>\<open>TLS_RECORD_MAX_CELLS\<close> is \<open>(16 * 1024) / CELL_MAX_NETWORK_SIZE\<close>, that is 31.\<close>

definition TLS_RECORD_MAX_CELLS :: int where "TLS_RECORD_MAX_CELLS = (16 * 1024) div 514"
definition OUTBUF_CELLS :: int where "OUTBUF_CELLS = 2 * TLS_RECORD_MAX_CELLS"

text \<open>
  The defaults and parameter names of a path: suffix, alpha, beta, gamma, delta and slow-start
  cap.
\<close>

fun vegas_path_defaults :: "cc_path_t \<Rightarrow> string \<times> int \<times> int \<times> int \<times> int \<times> int" where
  "vegas_path_defaults CC_PATH_SBWS =
     (''sbws'', 2 * OUTBUF_CELLS - TLS_RECORD_MAX_CELLS, 2 * OUTBUF_CELLS + TLS_RECORD_MAX_CELLS,
      2 * OUTBUF_CELLS, 4 * OUTBUF_CELLS, 400)"
| "vegas_path_defaults CC_PATH_EXIT =
     (''exit'', 3 * OUTBUF_CELLS, 4 * OUTBUF_CELLS, 3 * OUTBUF_CELLS, 5 * OUTBUF_CELLS, 600)"
| "vegas_path_defaults CC_PATH_ONION_SOS =
     (''exit'', 3 * OUTBUF_CELLS, 4 * OUTBUF_CELLS, 3 * OUTBUF_CELLS, 5 * OUTBUF_CELLS, 600)"
| "vegas_path_defaults CC_PATH_ONION =
     (''onion'', 3 * OUTBUF_CELLS, 6 * OUTBUF_CELLS, 4 * OUTBUF_CELLS, 7 * OUTBUF_CELLS, 475)"
| "vegas_path_defaults CC_PATH_ONION_VG =
     (''onion'', 3 * OUTBUF_CELLS, 6 * OUTBUF_CELLS, 4 * OUTBUF_CELLS, 7 * OUTBUF_CELLS, 475)"

definition congestion_control_vegas_set_params ::
  "networkstatus option \<Rightarrow> cc_globals \<Rightarrow> congestion_control_t \<Rightarrow> cc_path_t \<Rightarrow>
   (cc_globals \<times> congestion_control_t) option" where
  "congestion_control_vegas_set_params latest g cc path = do {
     tor_assert (cc_alg cc = CC_ALG_VEGAS);
     let (suffix, alpha, beta, gamma, delta, sscap) = vegas_path_defaults path;
     cap \<leftarrow> networkstatus_get_param latest None (''cc_sscap_'' @ suffix) sscap 100 INT32_MAX;
     ssm \<leftarrow> networkstatus_get_param latest None ''cc_ss_max'' 5000 500 INT32_MAX;
     al \<leftarrow> networkstatus_get_param latest None (''cc_vegas_alpha_'' @ suffix) alpha 0 1000;
     be \<leftarrow> networkstatus_get_param latest None (''cc_vegas_beta_'' @ suffix) beta 0 1000;
     ga \<leftarrow> networkstatus_get_param latest None (''cc_vegas_gamma_'' @ suffix) gamma 0 1000;
     de \<leftarrow> networkstatus_get_param latest None (''cc_vegas_delta_'' @ suffix) delta 0 INT32_MAX;
     mp \<leftarrow> networkstatus_get_param latest None ''cc_cwnd_full_minpct'' 25 0 100;
     gp \<leftarrow> networkstatus_get_param latest None ''cc_cwnd_full_gap'' 4 0 32767;
     pc \<leftarrow> networkstatus_get_param latest None ''cc_cwnd_full_per_cwnd'' 1 0 1;
     Some (g\<lparr>cc_vegas_cwnd_full_minpct := mp, cc_vegas_cwnd_full_gap := gp, cc_cwnd_full_per_cwnd := pc\<rparr>,
           cc\<lparr>vegas_params := \<lparr>ss_cwnd_cap = word_of_int cap, ss_cwnd_max = word_of_int ssm,
                vp_gamma = word_of_int ga, vp_alpha = word_of_int al, vp_beta = word_of_int be,
                vp_delta = word_of_int de\<rparr>\<rparr>)
   }"

section \<open>Slow start\<close>

definition vegas_bdp :: "congestion_control_t \<Rightarrow> u64" where
  "vegas_bdp cc = bdp cc"

text \<open>
  The log function computes a bandwidth estimate as one of its arguments.  The arguments of
  \<^verbatim>\<open>log_info\<close> are evaluated whether or not the message is printed, so the division happens
  on every call.
\<close>

definition congestion_control_vegas_log :: "congestion_control_t \<Rightarrow> unit option" where
  "congestion_control_vegas_log cc = do {
     _ \<leftarrow> udiv64 (cwnd cc * 514 * 1000) (max (min_rtt_usec cc) (ewma_rtt_usec cc));
     Some ()
   }"

definition rfc3742_ss_inc :: "congestion_control_t \<Rightarrow> u64 option" where
  "rfc3742_ss_inc cc =
     (if cwnd cc \<le> ucast (ss_cwnd_cap (vegas_params cc))
      then Some ((ucast (cwnd_inc_pct_ss cc) * ucast (sendme_inc cc) + 50) div 100)
      else do {
        q \<leftarrow> udiv64 (ucast (sendme_inc cc) * ucast (ss_cwnd_cap (vegas_params cc)) + cwnd cc)
                    (2 * cwnd cc);
        Some (max q 1)
      })"

definition congestion_control_vegas_exit_slow_start ::
  "circuit_t \<Rightarrow> cc_globals \<Rightarrow> congestion_control_t \<Rightarrow> (cc_globals \<times> congestion_control_t) option" where
  "congestion_control_vegas_exit_slow_start circ g cc = do {
     congestion_control_vegas_log cc;
     let cc = cc\<lparr>in_slow_start := False\<rparr>;
     congestion_control_vegas_log cc;
     inc \<leftarrow> rfc3742_ss_inc cc;
     let g = emit (Exit_ss_inc inc) (emit (Exit_ss_bdp (vegas_bdp cc)) (emit (Exit_ss_cwnd (cwnd cc)) g));
     let g = g\<lparr>vegas_circ_exited_ss := vegas_circ_exited_ss g + 1\<rparr>;
     Some (if is_origin circ then emit Circ_bandwidth_event g else g, cc)
   }"

section \<open>Is the window in use?\<close>

definition cwnd_became_full :: "cc_globals \<Rightarrow> congestion_control_t \<Rightarrow> bool" where
  "cwnd_became_full g cc =
     (inflight cc + word_of_int (cc_vegas_cwnd_full_gap g * int (unat (sendme_inc cc))) \<ge> cwnd cc)"

definition cwnd_became_nonfull :: "cc_globals \<Rightarrow> congestion_control_t \<Rightarrow> bool" where
  "cwnd_became_nonfull g cc =
     (100 * inflight cc < word_of_int (cc_vegas_cwnd_full_minpct g) * cwnd cc)"

definition cwnd_full_reset :: "cc_globals \<Rightarrow> congestion_control_t \<Rightarrow> bool option" where
  "cwnd_full_reset g cc =
     (if cc_cwnd_full_per_cwnd g \<noteq> 0
      then do { n \<leftarrow> SENDME_PER_CWND cc; Some (ucast (next_cwnd_event cc) = n) }
      else do { n \<leftarrow> CWND_UPDATE_RATE cc; Some (ucast (next_cc_event cc) = n) })"

section \<open>The SENDME handler\<close>

text \<open>The queue use: how far the window is above the bandwidth-delay product.\<close>

definition vegas_queue_use :: "congestion_control_t \<Rightarrow> u64" where
  "vegas_queue_use cc = (if vegas_bdp cc > cwnd cc then 0 else cwnd cc - vegas_bdp cc)"

definition vegas_update_full :: "cc_globals \<Rightarrow> congestion_control_t \<Rightarrow> congestion_control_t" where
  "vegas_update_full g cc =
     (if cwnd_became_full g cc then cc\<lparr>cwnd_full := True\<rparr>
      else if cwnd_became_nonfull g cc then cc\<lparr>cwnd_full := False\<rparr>
      else cc)"

definition cwnd_drop :: "u64 \<Rightarrow> u64 \<Rightarrow> u64" where
  "cwnd_drop old new = (if old > new then old - new else 0)"

text \<open>One slow-start increase, when the queue is short, the channel free and the window in use.\<close>

definition vegas_ss_increase ::
  "circuit_t \<Rightarrow> cc_globals \<Rightarrow> congestion_control_t \<Rightarrow> (cc_globals \<times> congestion_control_t) option" where
  "vegas_ss_increase circ g cc = do {
     inc \<leftarrow> rfc3742_ss_inc cc;
     let cc = cc\<lparr>cwnd := cwnd cc + inc\<rparr>;
     n \<leftarrow> SENDME_PER_CWND cc;
     if inc * n \<le> of_nat (unat (CWND_INC cc) * unat (cwnd_inc_rate cc))
     then do {
       (g, cc) \<leftarrow> congestion_control_vegas_exit_slow_start circ g cc;
       let g = g\<lparr>vegas_below_ss_inc_floor := vegas_below_ss_inc_floor g + 1\<rparr>;
       Some (emit (Ss_csig_blocked 0) g, cc)
     }
     else Some (g, cc)
   }"

definition vegas_ss_window ::
  "circuit_t \<Rightarrow> u64 \<Rightarrow> cc_globals \<Rightarrow> congestion_control_t \<Rightarrow> (cc_globals \<times> congestion_control_t) option" where
  "vegas_ss_window circ queue_use g cc =
     (if queue_use < ucast (vp_gamma (vegas_params cc)) \<and> \<not> blocked_chan cc
      then (if cwnd_full cc then vegas_ss_increase circ g cc else Some (g, cc))
      else let old_cwnd = cwnd cc;
               cc = cc\<lparr>cwnd := vegas_bdp cc + ucast (vp_gamma (vegas_params cc))\<rparr>;
               g = (if blocked_chan cc then emit (Ss_csig_blocked 100) g
                    else emit (Gamma_drop (cwnd_drop old_cwnd (cwnd cc))) (emit (Ss_csig_blocked 0) g))
           in congestion_control_vegas_exit_slow_start circ g cc)"

definition vegas_slow_start ::
  "circuit_t \<Rightarrow> u64 \<Rightarrow> cc_globals \<Rightarrow> congestion_control_t \<Rightarrow> (cc_globals \<times> congestion_control_t) option" where
  "vegas_slow_start circ queue_use g cc = do {
     (g, cc) \<leftarrow> vegas_ss_window circ queue_use g cc;
     (g, cc) \<leftarrow>
       (if cwnd cc \<ge> ucast (ss_cwnd_max (vegas_params cc))
        then do {
          let cc = cc\<lparr>cwnd := ucast (ss_cwnd_max (vegas_params cc))\<rparr>;
          (g, cc) \<leftarrow> congestion_control_vegas_exit_slow_start circ g cc;
          Some (g\<lparr>vegas_above_ss_cwnd_max := vegas_above_ss_cwnd_max g + 1\<rparr>, cc)
        }
        else Some (g, cc));
     Some (emit (Ss_queue queue_use) g, cc)
   }"

text \<open>The three congestion signals after slow start, before the lower bound is applied.\<close>

definition vegas_steady_signal ::
  "u64 \<Rightarrow> cc_globals \<Rightarrow> congestion_control_t \<Rightarrow> cc_globals \<times> congestion_control_t" where
  "vegas_steady_signal queue_use g cc =
     (if queue_use > ucast (vp_delta (vegas_params cc))
      then let new_cwnd = vegas_bdp cc + ucast (vp_delta (vegas_params cc)) - ucast (CWND_INC cc);
               g = emit (Delta_drop (cwnd_drop (cwnd cc) new_cwnd)) g;
               g = g\<lparr>vegas_above_delta := vegas_above_delta g + 1\<rparr>
           in (emit (Csig_delta 100) (emit (Csig_beta 0) (emit (Csig_alpha 0) g)), cc\<lparr>cwnd := new_cwnd\<rparr>)
      else if queue_use > ucast (vp_beta (vegas_params cc)) \<or> blocked_chan cc
      then let g = emit (Csig_blocked (if blocked_chan cc then 100 else 0)) g
           in (emit (Csig_delta 0) (emit (Csig_beta 100) (emit (Csig_alpha 0) g)),
               cc\<lparr>cwnd := cwnd cc - ucast (CWND_INC cc)\<rparr>)
      else if cwnd_full cc \<and> queue_use < ucast (vp_alpha (vegas_params cc))
      then (emit (Csig_delta 0) (emit (Csig_beta 0) (emit (Csig_alpha 100) g)),
            cc\<lparr>cwnd := cwnd cc + ucast (CWND_INC cc)\<rparr>)
      else (emit (Csig_delta 0) (emit (Csig_beta 0) (emit (Csig_alpha 0) g)), cc))"

definition vegas_steady_state ::
  "u64 \<Rightarrow> cc_globals \<Rightarrow> congestion_control_t \<Rightarrow> (cc_globals \<times> congestion_control_t) option" where
  "vegas_steady_state queue_use g cc = do {
     let (g, cc) = vegas_steady_signal queue_use g cc;
     let cc = cc\<lparr>cwnd := max (cwnd cc) (ucast (cwnd_min cc))\<rparr>;
     congestion_control_vegas_log cc;
     Some (emit (Bdp (vegas_bdp cc)) (emit (Queue queue_use) g), cc)
   }"

text \<open>
  The end of the handler.  Both event counters are 16 bits wide, the rates 64.
\<close>

definition vegas_finish :: "cc_globals \<Rightarrow> congestion_control_t \<Rightarrow> congestion_control_t option" where
  "vegas_finish g cc = do {
     cc \<leftarrow> (if next_cwnd_event cc = 0
            then do { n \<leftarrow> SENDME_PER_CWND cc; Some (cc\<lparr>next_cwnd_event := ucast n\<rparr>) }
            else Some cc);
     cc \<leftarrow> (if next_cc_event cc = 0
            then do { n \<leftarrow> CWND_UPDATE_RATE cc; Some (cc\<lparr>next_cc_event := ucast n\<rparr>) }
            else Some cc);
     r \<leftarrow> cwnd_full_reset g cc;
     let cc = (if r then cc\<lparr>cwnd_full := False\<rparr> else cc);
     Some (cc\<lparr>inflight := inflight cc - ucast (sendme_inc cc)\<rparr>)
   }"

definition vegas_tick :: "congestion_control_t \<Rightarrow> congestion_control_t" where
  "vegas_tick cc =
     cc\<lparr>next_cc_event := (if next_cc_event cc \<noteq> 0 then next_cc_event cc - 1 else next_cc_event cc),
        next_cwnd_event := (if next_cwnd_event cc \<noteq> 0 then next_cwnd_event cc - 1 else next_cwnd_event cc)\<rparr>"

definition congestion_control_vegas_process_sendme ::
  "u64 \<Rightarrow> cc_globals \<Rightarrow> congestion_control_t \<Rightarrow> circuit_t \<Rightarrow> (cc_globals \<times> congestion_control_t) option" where
  "congestion_control_vegas_process_sendme now_usec g cc circ = do {
     tor_assert (cc_alg cc = CC_ALG_VEGAS);
     let cc = vegas_tick cc;
     (g, cc, updated) \<leftarrow> congestion_control_update_circuit_estimates now_usec g cc circ;
     if \<not> updated then Some (g, cc\<lparr>inflight := inflight cc - ucast (sendme_inc cc)\<rparr>)
     else do {
       let queue_use = vegas_queue_use cc;
       let cc = vegas_update_full g cc;
       (g, cc) \<leftarrow> (if in_slow_start cc then vegas_slow_start circ queue_use g cc
                  else if next_cc_event cc = 0 then vegas_steady_state queue_use g cc
                  else Some (g, cc));
       cc \<leftarrow> vegas_finish g cc;
       Some (g, cc)
     }
   }"

section \<open>Creating a congestion control object\<close>

record circuit_params_t =
  cc_enabled :: bool
  sendme_inc_cells :: u8

text \<open>A zeroed \<^verbatim>\<open>congestion_control_t\<close>; the enumerator 0 is \<^const>\<open>CC_ALG_SENDME\<close>.\<close>

definition cc_zero :: congestion_control_t where
  "cc_zero = \<lparr>sendme_pending_timestamps = [], ewma_rtt_usec = 0, min_rtt_usec = 0, max_rtt_usec = 0,
     bdp = 0, cwnd = 0, inflight = 0, next_cc_event = 0, next_cwnd_event = 0, in_slow_start = False,
     cwnd_full = False, blocked_chan = False, cwnd_inc_pct_ss = 0, cwnd_inc = 0, cwnd_min = 0,
     cwnd_inc_rate = 0, sendme_inc = 0, cc_alg = CC_ALG_SENDME,
     vegas_params = \<lparr>ss_cwnd_cap = 0, ss_cwnd_max = 0, vp_gamma = 0, vp_alpha = 0, vp_beta = 0,
       vp_delta = 0\<rparr>\<rparr>"

definition congestion_control_init_params ::
  "networkstatus option \<Rightarrow> bool \<Rightarrow> cc_globals \<Rightarrow> congestion_control_t \<Rightarrow> circuit_params_t \<Rightarrow> cc_path_t \<Rightarrow>
   (cc_globals \<times> congestion_control_t) option" where
  "congestion_control_init_params latest always g cc params path = do {
     let cc = cc\<lparr>sendme_inc := sendme_inc_cells params\<rparr>;
     w \<leftarrow> networkstatus_get_param latest None ''cc_cwnd_init'' (4 * TLS_RECORD_MAX_CELLS) TLS_RECORD_MAX_CELLS 10000;
     ps \<leftarrow> networkstatus_get_param latest None ''cc_cwnd_inc_pct_ss'' 100 1 500;
     ci \<leftarrow> networkstatus_get_param latest None ''cc_cwnd_inc'' 1 1 1000;
     cr \<leftarrow> networkstatus_get_param latest None ''cc_cwnd_inc_rate'' TLS_RECORD_MAX_CELLS 1 250;
     mn \<leftarrow> networkstatus_get_param latest None ''cc_cwnd_min'' (4 * TLS_RECORD_MAX_CELLS) TLS_RECORD_MAX_CELLS 1000;
     let cc = cc\<lparr>cwnd := word_of_int w, cwnd_inc_pct_ss := word_of_int ps, cwnd_inc := word_of_int ci,
                 cwnd_inc_rate := word_of_int cr, cwnd_min := word_of_int mn,
                 cc_alg := (if g_cc_alg g = CC_ALG_SENDME \<and> always then CC_ALG_VEGAS else g_cc_alg g)\<rparr>;
     if cc_alg cc = CC_ALG_VEGAS then congestion_control_vegas_set_params latest g cc path
     else Some (g, cc)
   }"

definition congestion_control_init ::
  "networkstatus option \<Rightarrow> bool \<Rightarrow> cc_globals \<Rightarrow> congestion_control_t \<Rightarrow> circuit_params_t \<Rightarrow> cc_path_t \<Rightarrow>
   (cc_globals \<times> congestion_control_t) option" where
  "congestion_control_init latest always g cc params path = do {
     let cc = cc\<lparr>sendme_pending_timestamps := [], in_slow_start := True\<rparr>;
     (g, cc) \<leftarrow> congestion_control_init_params latest always g cc params path;
     n \<leftarrow> CWND_UPDATE_RATE cc;
     Some (g, cc\<lparr>next_cc_event := ucast n\<rparr>)
   }"

definition congestion_control_new ::
  "networkstatus option \<Rightarrow> bool \<Rightarrow> cc_globals \<Rightarrow> circuit_params_t \<Rightarrow> cc_path_t \<Rightarrow>
   (cc_globals \<times> congestion_control_t) option" where
  "congestion_control_new latest always g params path = do {
     (g, cc) \<leftarrow> congestion_control_init latest always g cc_zero params path;
     Some (g\<lparr>cc_stats_circs_created := cc_stats_circs_created g + 1\<rparr>, cc)
   }"

section \<open>Averages stay between their inputs\<close>

lemma n_count_ewma_bounds:
  assumes "unat cur < 2 ^ 54" "unat prev < 2 ^ 54" "prev \<noteq> 0" "2 \<le> unat N" "unat N < 256"
  shows "\<exists>e. n_count_ewma cur prev N = Some e \<and>
    min (unat cur) (unat prev) \<le> unat e \<and> unat e \<le> max (unat cur) (unat prev)"
proof -
  let ?c = "unat cur" and ?p = "unat prev" and ?n = "unat N"
  have n1: "unat (N + 1) = ?n + 1" using assms(5) by (simp add: unat_Suc_nowrap)
  have n2: "unat (N - 1) = ?n - 1" using assms(4) by (subst unat_sub_nowrap) simp_all
  have le: "(?n - 1) * ?p \<le> 255 * 2 ^ 54" using assms(2,5) by (intro mult_le_mono) auto
  have m: "unat ((N - 1) * prev) = (?n - 1) * ?p"
    using le n2 by (subst unat_mult_nowrap) simp_all
  have c2: "unat (2 * cur) = 2 * ?c" using assms(1) by (subst unat_mult_nowrap) simp_all
  have s: "unat (2 * cur + (N - 1) * prev) = 2 * ?c + (?n - 1) * ?p"
    using assms(1) le by (subst unat_add_nowrap) (simp_all add: m c2)
  have "N + 1 \<noteq> 0" using n1 by (metis add_is_0 unat_eq_zero zero_neq_one)
  then obtain e where e: "n_count_ewma cur prev N = Some e" "unat e = (2 * ?c + (?n - 1) * ?p) div (?n + 1)"
    using assms(3) by (simp add: n_count_ewma_def unat_div s n1)
  have ar: "(?n + 1) * x = 2 * x + (?n - 1) * x" for x
    using assms(4) by (cases "unat N") (auto simp: algebra_simps)
  have "(?n + 1) * min ?c ?p \<le> 2 * ?c + (?n - 1) * ?p"
    unfolding ar by (intro add_mono mult_le_mono) auto
  then have "min ?c ?p \<le> unat e"
    unfolding e(2) by (metis div_le_mono nonzero_mult_div_cancel_left add_is_0 zero_neq_one)
  moreover have "2 * ?c + (?n - 1) * ?p \<le> (?n + 1) * max ?c ?p"
    unfolding ar by (intro add_mono mult_le_mono) auto
  then have "unat e \<le> max ?c ?p"
    unfolding e(2) by (metis div_le_mono nonzero_mult_div_cancel_left add_is_0 zero_neq_one)
  ultimately show ?thesis using e(1) by blast
qed

lemma percent_max_mix_bounds:
  assumes "unat a < 2 ^ 54" "unat b < 2 ^ 54"
  shows "min (unat a) (unat b) \<le> unat (percent_max_mix a b pct) + 1
    \<and> unat (percent_max_mix a b pct) \<le> max (unat a) (unat b)"
proof (cases "pct > 100")
  case True
  then show ?thesis by (simp add: percent_max_mix_def Let_def unat_max_eq)
next
  case False
  let ?x = "max (unat a) (unat b)" and ?n = "min (unat a) (unat b)" and ?p = "unat pct"
  have p: "?p \<le> 100" using False by (simp add: word_less_nat_alt)
  have q: "unat (100 - ucast pct :: u64) = 100 - ?p" using p by (subst unat_sub_nowrap) simp_all
  have lex: "?p * ?x \<le> 100 * 2 ^ 54" "(100 - ?p) * ?n \<le> 100 * 2 ^ 54"
    using assms p by (intro mult_le_mono; simp)+
  have mx: "unat (ucast pct * max a b) = ?p * ?x"
    using lex by (subst unat_mult_nowrap) (simp_all add: unat_max_eq)
  have mn: "unat ((100 - ucast pct) * min a b) = (100 - ?p) * ?n"
    using lex q by (subst unat_mult_nowrap) (simp_all add: unat_min_eq)
  have dx: "unat (ucast pct * max a b div 100) = ?p * ?x div 100" by (simp add: unat_div mx)
  have dn: "unat ((100 - ucast pct) * min a b div 100) = (100 - ?p) * ?n div 100" by (simp add: unat_div mn)
  have "?p * ?x div 100 \<le> 2 ^ 54" "(100 - ?p) * ?n div 100 \<le> 2 ^ 54" using lex by (simp_all add: div_le_mono)
  then have r: "unat (percent_max_mix a b pct) = ?p * ?x div 100 + (100 - ?p) * ?n div 100"
    using False by (simp add: percent_max_mix_def Let_def dx dn unat_add_nowrap)
  have split: "100 * ?n = ?p * ?n + (100 - ?p) * ?n" "100 * ?x = ?p * ?x + (100 - ?p) * ?x"
    using p by (simp_all flip: add_mult_distrib)
  have "?p * ?n \<le> ?p * ?x" "(100 - ?p) * ?n \<le> (100 - ?p) * ?x" by (intro mult_le_mono; simp)+
  then have "100 * ?n \<le> ?p * ?x + (100 - ?p) * ?n" "?p * ?x + (100 - ?p) * ?n \<le> 100 * ?x" using split by simp_all
  then show ?thesis unfolding r by linarith
qed

section \<open>The estimators\<close>

text \<open>
  The RTT sample of the SENDME being processed, and the bound under which the 64-bit products of
  the estimators do not wrap: RTTs below \<open>2 ^ 30\<close> microseconds, about 18 minutes.
\<close>

definition rtt_sample :: "u64 \<Rightarrow> congestion_control_t \<Rightarrow> u64" where
  "rtt_sample now_usec cc = now_usec - fst (dequeue_timestamp (sendme_pending_timestamps cc))"

definition rtt_ok :: "u64 \<Rightarrow> bool" where
  "rtt_ok r = (unat r < 2 ^ 30)"

text \<open>
  The invariant of a congestion control object: the divisors are not zero, the window is one that
  \<^verbatim>\<open>cc_cwnd_max\<close> allows, the RTTs are sane.
\<close>

definition vegas_wf :: "congestion_control_t \<Rightarrow> bool" where
  "vegas_wf cc =
     (cc_alg cc = CC_ALG_VEGAS \<and> sendme_inc cc \<noteq> 0 \<and> cwnd_inc_rate cc \<noteq> 0 \<and> unat (cwnd cc) < 2 ^ 32
      \<and> rtt_ok (ewma_rtt_usec cc) \<and> rtt_ok (min_rtt_usec cc))"

lemma rate_nonzero:
  assumes "sendme_inc cc \<noteq> 0" "cwnd_inc_rate cc \<noteq> 0"
  shows "(of_nat (unat (cwnd_inc_rate cc) * unat (sendme_inc cc)) :: u64) \<noteq> 0"
proof -
  let ?n = "unat (cwnd_inc_rate cc) * unat (sendme_inc cc)"
  have "?n \<le> 255 * 255" using unat_u8_less [of "cwnd_inc_rate cc"] unat_u8_less [of "sendme_inc cc"]
    by (intro mult_le_mono) auto
  then have "unat (of_nat ?n :: u64) = ?n" by (simp add: unat_mult_nowrap)
  moreover have "?n \<noteq> 0" using assms by (simp add: unat_eq_zero)
  ultimately show ?thesis by (metis unat_0)
qed

lemma CWND_UPDATE_RATE_total:
  "sendme_inc cc \<noteq> 0 \<Longrightarrow> cwnd_inc_rate cc \<noteq> 0 \<Longrightarrow> \<exists>n. CWND_UPDATE_RATE cc = Some n"
  using rate_nonzero [of cc] by (simp add: CWND_UPDATE_RATE_def Let_def)

lemma SENDME_PER_CWND_total: "sendme_inc cc \<noteq> 0 \<Longrightarrow> \<exists>n. SENDME_PER_CWND cc = Some n"
  by (simp add: SENDME_PER_CWND_def udiv64_def) (metis unat_eq_zero unat_ucast_u8_u64)

lemma n_ewma_count_total:
  assumes "sendme_inc cc \<noteq> 0" "cwnd_inc_rate cc \<noteq> 0"
  shows "\<exists>n. n_ewma_count g cc = Some n \<and> 2 \<le> unat n \<and> unat n < 256"
proof -
  have u: "unat (ucast (x :: u8) :: u64) < 256" for x using unat_u8_less [of x] by simp
  show ?thesis
    using CWND_UPDATE_RATE_total [OF assms] u [of "n_ewma_ss g"] u [of "n_ewma_max g"]
    by (auto simp: n_ewma_count_def unat_max_eq unat_min_eq)
qed

lemma update_min_rtt_frame:
  "update_min_rtt g cc = (g', cc') \<Longrightarrow> \<exists>m n. cc' = cc\<lparr>min_rtt_usec := m\<rparr> \<and> g' = g\<lparr>num_rtt_reset := n\<rparr>"
  by (intro exI [of _ "min_rtt_usec cc'"] exI [of _ "num_rtt_reset g'"])
     (auto simp: update_min_rtt_def split: if_splits)

lemma update_min_rtt_ok:
  assumes "update_min_rtt g cc = (g', cc')" "rtt_ok (ewma_rtt_usec cc)" "rtt_ok (min_rtt_usec cc)"
  shows "rtt_ok (min_rtt_usec cc')"
  using assms percent_max_mix_bounds [of "ewma_rtt_usec cc" "min_rtt_usec cc" "rtt_reset_pct g"]
  by (auto simp: update_min_rtt_def rtt_ok_def split: if_splits)

text \<open>
  The RTT update never aborts and keeps the RTTs sane; once an RTT has been measured the average
  stays positive, and everything but the RTT fields is left alone.
\<close>

lemma update_circuit_rtt_spec:
  assumes nz: "sendme_inc cc \<noteq> 0" "cwnd_inc_rate cc \<noteq> 0"
    and ok: "rtt_ok (ewma_rtt_usec cc)" "rtt_ok (min_rtt_usec cc)" "rtt_ok (rtt_sample now cc)"
  obtains g' r ts e mx mn where "congestion_control_update_circuit_rtt now g cc =
      Some (g', cc\<lparr>sendme_pending_timestamps := ts, ewma_rtt_usec := e, max_rtt_usec := mx, min_rtt_usec := mn\<rparr>, r)"
    "rtt_ok e" "rtt_ok mn" "ewma_rtt_usec cc \<noteq> 0 \<or> r \<noteq> 0 \<Longrightarrow> e \<noteq> 0" "cwnd_max g' = cwnd_max g"
proof -
  obtain ts where dq: "dequeue_timestamp (sendme_pending_timestamps cc) = (now - rtt_sample now cc, ts)"
    by (cases "dequeue_timestamp (sendme_pending_timestamps cc)") (simp add: rtt_sample_def)
  define r where "r = rtt_sample now cc"
  define c1 where "c1 = cc\<lparr>sendme_pending_timestamps := ts\<rparr>"
  obtain bad br where st: "time_delta_stalled_or_jumped (is_monotime_clock_broken g) c1 (ewma_rtt_usec cc) r = (bad, br)"
    by fastforce
  have c1: "sendme_inc c1 \<noteq> 0" "cwnd_inc_rate c1 \<noteq> 0" "ewma_rtt_usec c1 = ewma_rtt_usec cc"
    using nz by (simp_all add: c1_def)
  show thesis
  proof (cases bad)
    case True
    then have "congestion_control_update_circuit_rtt now g cc =
        Some (g\<lparr>is_monotime_clock_broken := br, num_clock_stalls := num_clock_stalls g + 1\<rparr>,
              cc\<lparr>sendme_pending_timestamps := ts, ewma_rtt_usec := ewma_rtt_usec cc,
                 max_rtt_usec := max_rtt_usec cc, min_rtt_usec := min_rtt_usec cc\<rparr>, 0)"
      using dq st by (simp add: congestion_control_update_circuit_rtt_def Let_def c1_def r_def)
    then show ?thesis by (rule that) (use ok in simp_all)
  next
    case False
    then have r0: "r \<noteq> 0" using st by (auto simp: time_delta_stalled_or_jumped_def)
    define g1 where "g1 = g\<lparr>is_monotime_clock_broken := br\<rparr>"
    obtain n where n: "n_ewma_count g1 c1 = Some n" "2 \<le> unat n" "unat n < 256"
      using n_ewma_count_total [OF c1(1,2)] by blast
    have "\<exists>e. n_count_ewma r (ewma_rtt_usec cc) n = Some e \<and> e \<noteq> 0 \<and> rtt_ok e"
    proof (cases "ewma_rtt_usec cc = 0")
      case True
      then show ?thesis using r0 ok(3) by (simp add: n_count_ewma_def r_def)
    next
      case False
      have lt: "unat r < 2 ^ 30" "unat (ewma_rtt_usec cc) < 2 ^ 30" using ok by (simp_all add: rtt_ok_def r_def)
      then obtain e where e: "n_count_ewma r (ewma_rtt_usec cc) n = Some e"
        "min (unat r) (unat (ewma_rtt_usec cc)) \<le> unat e" "unat e \<le> max (unat r) (unat (ewma_rtt_usec cc))"
        using n_count_ewma_bounds [OF _ _ False n(2,3), of r] by fastforce
      have "0 < unat r" "0 < unat (ewma_rtt_usec cc)" using r0 False by (simp_all add: unat_gt_0)
      then have "0 < unat e" "unat e < 2 ^ 30" using e lt by linarith+
      then show ?thesis using e(1) by (auto simp: rtt_ok_def)
    qed
    then obtain e where e: "n_count_ewma r (ewma_rtt_usec cc) n = Some e" "e \<noteq> 0" "rtt_ok e" by blast
    define mx where "mx = (if r > max_rtt_usec cc then r else max_rtt_usec cc)"
    define c2 where "c2 = cc\<lparr>sendme_pending_timestamps := ts, ewma_rtt_usec := e, max_rtt_usec := mx\<rparr>"
    have c2: "(let c = c1\<lparr>ewma_rtt_usec := e\<rparr> in if r > max_rtt_usec c then c\<lparr>max_rtt_usec := r\<rparr> else c) = c2"
      by (simp add: c2_def c1_def mx_def)
    obtain g3 c3 where u: "update_min_rtt g1 c2 = (g3, c3)" by fastforce
    obtain mn where c3: "c3 = c2\<lparr>min_rtt_usec := mn\<rparr>" "cwnd_max g3 = cwnd_max g1"
      using update_min_rtt_frame [OF u] that by auto
    have eq: "congestion_control_update_circuit_rtt now g cc = Some (g3, c3, r)"
      using dq st False n e u c1(3) c2 unfolding g1_def r_def c1_def
      by (auto simp: congestion_control_update_circuit_rtt_def Let_def split: if_splits)
    have "rtt_ok (min_rtt_usec c3)" using update_min_rtt_ok [OF u] e(3) ok(2) by (simp add: c2_def)
    then have mn: "rtt_ok mn" by (simp add: c3)
    show ?thesis
      by (rule that [where g' = g3 and ts = ts and e = e and mx = mx and mn = mn and r = r]) (use eq mn e c3 in \<open>simp_all add: c2_def g1_def\<close>)
  qed
qed

lemma update_circuit_bdp_spec:
  assumes "ewma_rtt_usec cc \<noteq> 0" "unat (cwnd cc) < 2 ^ 32" "rtt_ok (min_rtt_usec cc)"
  obtains b n k where "congestion_control_update_circuit_bdp cc circ r =
      Some (cc\<lparr>bdp := b, next_cc_event := n, blocked_chan := k\<rparr>, circ_blocked circ \<or> r \<noteq> 0)"
    "unat b < 2 ^ 62"
proof -
  let ?b = "cwnd cc * min_rtt_usec cc div ewma_rtt_usec cc"
  have m: "unat (cwnd cc) * unat (min_rtt_usec cc) < 2 ^ 62"
  proof -
    have "unat (cwnd cc) * unat (min_rtt_usec cc) \<le> 2 ^ 32 * unat (min_rtt_usec cc)" using assms(2) by simp
    also have "\<dots> < 2 ^ 32 * 2 ^ 30" using assms(3) by (simp add: rtt_ok_def)
    finally show ?thesis by simp
  qed
  then have "unat (cwnd cc * min_rtt_usec cc) < 2 ^ 62" by (simp add: unat_mult_nowrap)
  then have b: "unat ?b < 2 ^ 62" by (simp add: unat_div) (meson div_le_dividend order_le_less_trans)
  show thesis
    by (rule that [where b = ?b and n = "if circ_blocked circ = blocked_chan cc then next_cc_event cc else 0"
          and k = "circ_blocked circ"])
       (use assms b in \<open>simp_all add: congestion_control_update_circuit_bdp_def Let_def\<close>)
qed

section \<open>The window updates\<close>

text \<open>What an update step needs: divisors, an RTT, and windows whose doubling does not wrap.\<close>

definition vegas_ready :: "congestion_control_t \<Rightarrow> bool" where
  "vegas_ready cc = (sendme_inc cc \<noteq> 0 \<and> cwnd_inc_rate cc \<noteq> 0 \<and> ewma_rtt_usec cc \<noteq> 0
     \<and> unat (cwnd cc) < 2 ^ 32 \<and> unat (bdp cc) < 2 ^ 62)"

lemma vegas_log_total: "ewma_rtt_usec cc \<noteq> 0 \<Longrightarrow> congestion_control_vegas_log cc = Some ()"
  by (auto simp: congestion_control_vegas_log_def udiv64_def max_def)

lemma double_nonzero: "unat (w :: u64) < 2 ^ 63 \<Longrightarrow> w \<noteq> 0 \<Longrightarrow> 2 * w \<noteq> 0"
proof -
  assume w: "unat w < 2 ^ 63" "w \<noteq> 0"
  then have "unat (2 * w) = 2 * unat w" by (subst unat_mult_nowrap) simp_all
  then show ?thesis using w(2) by (metis mult_is_0 unat_eq_zero zero_neq_numeral)
qed

lemma rfc3742_total:
  assumes "unat (cwnd cc) < 2 ^ 63"
  shows "\<exists>inc. rfc3742_ss_inc cc = Some inc \<and> unat inc < 2 ^ 40"
proof (cases "cwnd cc \<le> ucast (ss_cwnd_cap (vegas_params cc))")
  case True
  let ?a = "ucast (cwnd_inc_pct_ss cc) * ucast (sendme_inc cc) :: u64"
  have le: "unat (cwnd_inc_pct_ss cc) * unat (sendme_inc cc) \<le> 65535 * 255"
    using unat_u16_less [of "cwnd_inc_pct_ss cc"] unat_u8_less [of "sendme_inc cc"] by (intro mult_le_mono) auto
  then have "unat ?a = unat (cwnd_inc_pct_ss cc) * unat (sendme_inc cc)" by (subst unat_mult_nowrap) simp_all
  then have "unat (?a + 50) \<le> 65535 * 255 + 50" using le by (subst unat_add_nowrap) simp_all
  then have "unat ((?a + 50) div 100) < 2 ^ 40" by (simp add: unat_div)
  then show ?thesis using True by (simp add: rfc3742_ss_inc_def)
next
  case False
  let ?cap = "ucast (ss_cwnd_cap (vegas_params cc)) :: u64"
  let ?num = "ucast (sendme_inc cc) * ?cap + cwnd cc"
  have gt: "unat (ss_cwnd_cap (vegas_params cc)) < unat (cwnd cc)" using False by (simp add: word_le_nat_alt)
  then have nz: "2 * cwnd cc \<noteq> 0" using assms by (intro double_nonzero) (auto simp: unat_gt_0)
  have d: "unat (2 * cwnd cc) = 2 * unat (cwnd cc)" using assms by (subst unat_mult_nowrap) simp_all
  have le: "unat (sendme_inc cc) * unat (ss_cwnd_cap (vegas_params cc)) \<le> 255 * 2 ^ 32"
    using unat_u8_less [of "sendme_inc cc"] unat_u32_less [of "ss_cwnd_cap (vegas_params cc)"]
    by (intro mult_le_mono) auto
  then have "unat (ucast (sendme_inc cc) * ?cap) = unat (sendme_inc cc) * unat (ss_cwnd_cap (vegas_params cc))"
    by (subst unat_mult_nowrap) simp_all
  then have n: "unat ?num = unat (sendme_inc cc) * unat (ss_cwnd_cap (vegas_params cc)) + unat (cwnd cc)"
    using le assms by (subst unat_add_nowrap) simp_all
  have "unat ?num \<le> 255 * unat (cwnd cc) + unat (cwnd cc)"
    unfolding n using unat_u8_less [of "sendme_inc cc"] gt by (intro add_mono mult_le_mono) auto
  then have "unat ?num div (2 * unat (cwnd cc)) \<le> 128 * (2 * unat (cwnd cc)) div (2 * unat (cwnd cc))"
    by (intro div_le_mono) simp
  also have "\<dots> = 128" using gt by (intro nonzero_mult_div_cancel_right) simp
  finally have "unat (?num div (2 * cwnd cc)) \<le> 128" by (simp only: unat_div d)
  then show ?thesis using False nz by (simp add: rfc3742_ss_inc_def unat_max_eq)
qed

lemma exit_slow_start_total:
  assumes "ewma_rtt_usec cc \<noteq> 0" "unat (cwnd cc) < 2 ^ 63"
  shows "\<exists>g'. congestion_control_vegas_exit_slow_start circ g cc = Some (g', cc\<lparr>in_slow_start := False\<rparr>)
    \<and> cwnd_max g' = cwnd_max g"
  using assms rfc3742_total [of "cc\<lparr>in_slow_start := False\<rparr>"] vegas_log_total [of cc]
    vegas_log_total [of "cc\<lparr>in_slow_start := False\<rparr>"]
  by (auto simp: congestion_control_vegas_exit_slow_start_def Let_def emit_def)

text \<open>
  The frame of the window updates: they change the window, the slow-start flag and nothing else.
\<close>

definition window_frame :: "congestion_control_t \<Rightarrow> congestion_control_t \<Rightarrow> bool" where
  "window_frame cc cc' = (\<exists>w b. cc' = cc\<lparr>cwnd := w, in_slow_start := b\<rparr> \<and> (b \<longrightarrow> in_slow_start cc))"

lemma window_frameI: "(b \<Longrightarrow> in_slow_start cc) \<Longrightarrow> window_frame cc (cc\<lparr>cwnd := w, in_slow_start := b\<rparr>)"
  unfolding window_frame_def by blast

lemma window_frame_cwnd [intro]: "window_frame cc (cc\<lparr>cwnd := w\<rparr>)"
  using window_frameI [of "in_slow_start cc" cc w] by simp

lemma window_frame_refl [intro]: "window_frame cc cc"
  using window_frameI [of "in_slow_start cc" cc "cwnd cc"] by simp

lemma window_frame_exit [intro]: "window_frame cc (cc\<lparr>in_slow_start := False\<rparr>)"
  "window_frame cc (cc\<lparr>cwnd := w, in_slow_start := False\<rparr>)"
  using window_frameI [of False cc "cwnd cc"] window_frameI [of False cc w] by simp_all

lemma window_frame_trans: "window_frame a b \<Longrightarrow> window_frame b c \<Longrightarrow> window_frame a c"
proof -
  assume "window_frame a b" "window_frame b c"
  then obtain w k w' k' where "b = a\<lparr>cwnd := w, in_slow_start := k\<rparr>" "k \<longrightarrow> in_slow_start a"
    "c = b\<lparr>cwnd := w', in_slow_start := k'\<rparr>" "k' \<longrightarrow> in_slow_start b"
    unfolding window_frame_def by blast
  then have "c = a\<lparr>cwnd := w', in_slow_start := k'\<rparr>" "k' \<Longrightarrow> in_slow_start a" by simp_all
  then show ?thesis using window_frameI [of k' a w'] by simp
qed

lemma window_frame_fields:
  assumes "window_frame cc cc'"
  shows "vegas_params cc' = vegas_params cc" "ewma_rtt_usec cc' = ewma_rtt_usec cc" "min_rtt_usec cc' = min_rtt_usec cc"
    "sendme_inc cc' = sendme_inc cc" "cwnd_inc_rate cc' = cwnd_inc_rate cc" "cc_alg cc' = cc_alg cc"
    "inflight cc' = inflight cc" "cwnd_min cc' = cwnd_min cc" "in_slow_start cc' \<longrightarrow> in_slow_start cc"
    "sendme_pending_timestamps cc' = sendme_pending_timestamps cc"
  using assms by (auto simp: window_frame_def)

lemma vegas_ss_increase_total:
  assumes r: "vegas_ready cc"
  shows "\<exists>g' cc'. vegas_ss_increase circ g cc = Some (g', cc') \<and> window_frame cc cc' \<and> unat (cwnd cc') < 2 ^ 63
    \<and> cwnd_max g' = cwnd_max g"
proof -
  obtain inc where inc: "rfc3742_ss_inc cc = Some inc" "unat inc < 2 ^ 40"
    using rfc3742_total [of cc] r by (auto simp: vegas_ready_def)
  let ?c = "cc\<lparr>cwnd := cwnd cc + inc\<rparr>"
  have w: "unat (cwnd cc + inc) < 2 ^ 63"
    using r inc(2) by (subst unat_add_nowrap) (simp_all add: vegas_ready_def)
  obtain n where n: "SENDME_PER_CWND ?c = Some n"
    using SENDME_PER_CWND_total [of ?c] r by (auto simp: vegas_ready_def)
  obtain g2 where g2: "congestion_control_vegas_exit_slow_start circ g ?c = Some (g2, ?c\<lparr>in_slow_start := False\<rparr>)"
    "cwnd_max g2 = cwnd_max g"
    using exit_slow_start_total [of ?c circ g] r w by (auto simp: vegas_ready_def)
  show ?thesis using inc n g2 w
    by (simp add: vegas_ss_increase_def Let_def emit_def window_frame_cwnd window_frame_exit)
qed

lemma vegas_ss_window_total:
  assumes r: "vegas_ready cc"
  shows "\<exists>g' cc'. vegas_ss_window circ q g cc = Some (g', cc') \<and> window_frame cc cc' \<and> unat (cwnd cc') < 2 ^ 63
    \<and> cwnd_max g' = cwnd_max g"
proof (cases "q < ucast (vp_gamma (vegas_params cc)) \<and> \<not> blocked_chan cc")
  case True
  then show ?thesis using vegas_ss_increase_total [OF r] r
    by (auto simp: vegas_ss_window_def vegas_ready_def)
next
  case False
  let ?c = "cc\<lparr>cwnd := vegas_bdp cc + ucast (vp_gamma (vegas_params cc))\<rparr>"
  define g1 where "g1 = (if blocked_chan cc then emit (Ss_csig_blocked 100) g
    else emit (Gamma_drop (cwnd_drop (cwnd cc) (cwnd ?c))) (emit (Ss_csig_blocked 0) g))"
  have w: "unat (cwnd ?c) < 2 ^ 63"
    using r unat_u16_less [of "vp_gamma (vegas_params cc)"]
    by (simp add: vegas_ready_def vegas_bdp_def) (subst unat_add_nowrap; simp)
  obtain g2 where g2: "congestion_control_vegas_exit_slow_start circ g1 ?c = Some (g2, ?c\<lparr>in_slow_start := False\<rparr>)"
    "cwnd_max g2 = cwnd_max g1"
    using exit_slow_start_total [of ?c circ g1] r w by (auto simp: vegas_ready_def)
  have "vegas_ss_window circ q g cc = congestion_control_vegas_exit_slow_start circ g1 ?c"
    using False by (auto simp: vegas_ss_window_def g1_def Let_def)
  moreover have "cwnd_max g1 = cwnd_max g" by (simp add: g1_def emit_def)
  ultimately show ?thesis using g2 w by (simp add: window_frame_exit)
qed

lemma vegas_slow_start_total:
  assumes r: "vegas_ready cc"
  shows "\<exists>g' cc'. vegas_slow_start circ q g cc = Some (g', cc') \<and> window_frame cc cc' \<and>
    unat (cwnd cc') \<le> unat (ss_cwnd_max (vegas_params cc)) \<and>
    (in_slow_start cc' \<longrightarrow> unat (cwnd cc') < unat (ss_cwnd_max (vegas_params cc))) \<and> cwnd_max g' = cwnd_max g"
proof -
  obtain g1 c1 where f: "vegas_ss_window circ q g cc = Some (g1, c1)" "window_frame cc c1" "cwnd_max g1 = cwnd_max g"
    using vegas_ss_window_total [OF r] by blast
  note p = window_frame_fields [OF f(2)]
  let ?m = "ucast (ss_cwnd_max (vegas_params cc)) :: u64"
  let ?c = "c1\<lparr>cwnd := ?m\<rparr>"
  have "unat ?m < 2 ^ 63" using unat_u32_less [of "ss_cwnd_max (vegas_params cc)"] by simp
  then obtain g2 where g2: "congestion_control_vegas_exit_slow_start circ g1 ?c = Some (g2, ?c\<lparr>in_slow_start := False\<rparr>)"
    "cwnd_max g2 = cwnd_max g1"
    using exit_slow_start_total [of ?c circ g1] r p by (auto simp: vegas_ready_def)
  have fr: "window_frame cc (?c\<lparr>in_slow_start := False\<rparr>)"
    using window_frame_trans [OF f(2) window_frame_exit(2)] by simp
  show ?thesis
    using f g2 fr p by (simp add: vegas_slow_start_def Let_def emit_def word_le_nat_alt not_le)
qed

lemma vegas_steady_state_total:
  assumes "ewma_rtt_usec cc \<noteq> 0"
  shows "\<exists>g' cc'. vegas_steady_state q g cc = Some (g', cc') \<and> window_frame cc cc'
    \<and> unat (cwnd_min cc) \<le> unat (cwnd cc') \<and> cwnd_max g' = cwnd_max g"
proof -
  obtain g1 c1 where s: "vegas_steady_signal q g cc = (g1, c1)" by fastforce
  have c1: "window_frame cc c1" "cwnd_max g1 = cwnd_max g"
    using s by (auto simp: vegas_steady_signal_def Let_def emit_def split: if_splits)
  note p = window_frame_fields [OF c1(1)]
  let ?c = "c1\<lparr>cwnd := max (cwnd c1) (ucast (cwnd_min c1))\<rparr>"
  have "congestion_control_vegas_log ?c = Some ()" using assms p by (intro vegas_log_total) simp
  moreover have "window_frame cc ?c" using window_frame_trans [OF c1(1) window_frame_cwnd] .
  ultimately show ?thesis
    using s c1(2) p by (simp add: vegas_steady_state_def Let_def emit_def unat_max_eq)
qed

lemma vegas_finish_total:
  assumes "sendme_inc cc \<noteq> 0" "cwnd_inc_rate cc \<noteq> 0"
  shows "\<exists>n m f. vegas_finish g cc =
    Some (cc\<lparr>next_cwnd_event := n, next_cc_event := m, cwnd_full := f, inflight := inflight cc - ucast (sendme_inc cc)\<rparr>)"
proof -
  obtain q where q: "SENDME_PER_CWND cc = Some q" using SENDME_PER_CWND_total [OF assms(1)] by blast
  define n where "n = (if next_cwnd_event cc = 0 then ucast q else next_cwnd_event cc)"
  have n: "(if next_cwnd_event cc = 0 then do { n \<leftarrow> SENDME_PER_CWND cc; Some (cc\<lparr>next_cwnd_event := ucast n\<rparr>) }
      else Some cc) = Some (cc\<lparr>next_cwnd_event := n\<rparr>)"
    by (simp add: n_def q)
  let ?c = "cc\<lparr>next_cwnd_event := n\<rparr>"
  obtain k where k: "CWND_UPDATE_RATE ?c = Some k" using CWND_UPDATE_RATE_total [of ?c] assms by auto
  define m where "m = (if next_cc_event cc = 0 then ucast k else next_cc_event cc)"
  have m: "(if next_cc_event ?c = 0 then do { n \<leftarrow> CWND_UPDATE_RATE ?c; Some (?c\<lparr>next_cc_event := ucast n\<rparr>) }
      else Some ?c) = Some (?c\<lparr>next_cc_event := m\<rparr>)"
    by (simp add: m_def k)
  let ?d = "?c\<lparr>next_cc_event := m\<rparr>"
  have "\<exists>r. cwnd_full_reset g ?d = Some r"
    using CWND_UPDATE_RATE_total [of ?d] SENDME_PER_CWND_total [of ?d] assms by (auto simp: cwnd_full_reset_def)
  then obtain r where r: "cwnd_full_reset g ?d = Some r" by blast
  have "vegas_finish g cc = Some ((if r then ?d\<lparr>cwnd_full := False\<rparr> else ?d)\<lparr>inflight := inflight cc - ucast (sendme_inc cc)\<rparr>)"
    by (simp only: vegas_finish_def n m r Option.bind.simps Let_def) simp
  then show ?thesis
    by (intro exI [of _ n] exI [of _ m] exI [of _ "if r then False else cwnd_full cc"]) simp
qed

section \<open>The SENDME handler as a whole\<close>

text \<open>
  The fields a SENDME leaves alone, and the one it always advances.  A circuit never goes back
  to slow start.
\<close>

definition sendme_frame :: "congestion_control_t \<Rightarrow> congestion_control_t \<Rightarrow> bool" where
  "sendme_frame cc cc' =
     (inflight cc' = inflight cc - ucast (sendme_inc cc) \<and> sendme_inc cc' = sendme_inc cc
      \<and> cwnd_inc_rate cc' = cwnd_inc_rate cc \<and> cc_alg cc' = cc_alg cc \<and> cwnd_min cc' = cwnd_min cc
      \<and> vegas_params cc' = vegas_params cc \<and> (in_slow_start cc' \<longrightarrow> in_slow_start cc))"

definition vegas_step ::
  "circuit_t \<Rightarrow> cc_globals \<Rightarrow> congestion_control_t \<Rightarrow> (cc_globals \<times> congestion_control_t) option" where
  "vegas_step circ g cc = do {
     let queue_use = vegas_queue_use cc;
     let cc = vegas_update_full g cc;
     (g, cc) \<leftarrow> (if in_slow_start cc then vegas_slow_start circ queue_use g cc
                else if next_cc_event cc = 0 then vegas_steady_state queue_use g cc
                else Some (g, cc));
     cc \<leftarrow> vegas_finish g cc;
     Some (g, cc)
   }"

lemma vegas_step_total:
  assumes "vegas_ready cc"
  shows "\<exists>g' cc'. vegas_step circ g cc = Some (g', cc') \<and> sendme_frame cc cc'
    \<and> ewma_rtt_usec cc' = ewma_rtt_usec cc \<and> min_rtt_usec cc' = min_rtt_usec cc \<and> cwnd_max g' = cwnd_max g"
proof -
  obtain f where f: "vegas_update_full g cc = cc\<lparr>cwnd_full := f\<rparr>"
  proof
    show "vegas_update_full g cc = cc\<lparr>cwnd_full := cwnd_full (vegas_update_full g cc)\<rparr>"
      by (simp add: vegas_update_full_def)
  qed
  let ?c = "cc\<lparr>cwnd_full := f\<rparr>"
  have r: "vegas_ready ?c" "ewma_rtt_usec ?c \<noteq> 0" using assms by (simp_all add: vegas_ready_def)
  have "\<exists>g1 c1. (if in_slow_start ?c then vegas_slow_start circ (vegas_queue_use cc) g ?c
                else if next_cc_event ?c = 0 then vegas_steady_state (vegas_queue_use cc) g ?c
                else Some (g, ?c)) = Some (g1, c1) \<and> window_frame ?c c1 \<and> cwnd_max g1 = cwnd_max g"
    using vegas_slow_start_total [OF r(1), of circ "vegas_queue_use cc" g]
      vegas_steady_state_total [OF r(2), of "vegas_queue_use cc" g] window_frame_refl [of ?c] by (auto simp del: congestion_control_t.simps)
  then obtain g1 c1 where c1: "(if in_slow_start ?c then vegas_slow_start circ (vegas_queue_use cc) g ?c
                else if next_cc_event ?c = 0 then vegas_steady_state (vegas_queue_use cc) g ?c
                else Some (g, ?c)) = Some (g1, c1)" "window_frame ?c c1" "cwnd_max g1 = cwnd_max g" by blast
  note p = window_frame_fields [OF c1(2)]
  obtain n m k where fin: "vegas_finish g1 c1 =
      Some (c1\<lparr>next_cwnd_event := n, next_cc_event := m, cwnd_full := k, inflight := inflight c1 - ucast (sendme_inc c1)\<rparr>)"
    using vegas_finish_total [of c1 g1] p assms by (auto simp: vegas_ready_def)
  show ?thesis
    unfolding vegas_step_def Let_def f c1(1) using fin p c1(3) by (simp add: sendme_frame_def)
qed

lemma process_sendme_step:
  assumes "congestion_control_update_circuit_estimates now g (vegas_tick cc) circ = Some (g1, c1, True)"
    "cc_alg cc = CC_ALG_VEGAS"
  shows "congestion_control_vegas_process_sendme now g cc circ = vegas_step circ g1 c1"
  using assms by (simp add: congestion_control_vegas_process_sendme_def vegas_step_def Let_def)

lemma process_sendme_total:
  assumes wf: "vegas_wf cc" and sample: "rtt_ok (rtt_sample now cc)"
    and clock: "ewma_rtt_usec cc \<noteq> 0 \<or> \<not> circ_blocked circ"
  shows "\<exists>g' cc'. congestion_control_vegas_process_sendme now g cc circ = Some (g', cc') \<and> sendme_frame cc cc'
    \<and> rtt_ok (ewma_rtt_usec cc') \<and> rtt_ok (min_rtt_usec cc')
    \<and> (ewma_rtt_usec cc \<noteq> 0 \<longrightarrow> ewma_rtt_usec cc' \<noteq> 0) \<and> cwnd_max g' = cwnd_max g"
proof -
  let ?t = "vegas_tick cc"
  have t: "sendme_inc ?t \<noteq> 0" "cwnd_inc_rate ?t \<noteq> 0" "rtt_ok (ewma_rtt_usec ?t)" "rtt_ok (min_rtt_usec ?t)"
    "rtt_ok (rtt_sample now ?t)" "ewma_rtt_usec ?t = ewma_rtt_usec cc" "cc_alg ?t = CC_ALG_VEGAS"
    "cwnd ?t = cwnd cc" "sendme_frame (?t\<lparr>inflight := inflight ?t + ucast (sendme_inc ?t)\<rparr>) ?t"
    using wf sample by (simp_all add: vegas_wf_def vegas_tick_def rtt_sample_def sendme_frame_def)
  obtain g1 r ts e mx mn where u: "congestion_control_update_circuit_rtt now g ?t =
      Some (g1, ?t\<lparr>sendme_pending_timestamps := ts, ewma_rtt_usec := e, max_rtt_usec := mx, min_rtt_usec := mn\<rparr>, r)"
    "rtt_ok e" "rtt_ok mn" "ewma_rtt_usec ?t \<noteq> 0 \<or> r \<noteq> 0 \<Longrightarrow> e \<noteq> 0" "cwnd_max g1 = cwnd_max g"
    by (rule update_circuit_rtt_spec [OF t(1-5), of g]) (rule that)
  let ?c = "?t\<lparr>sendme_pending_timestamps := ts, ewma_rtt_usec := e, max_rtt_usec := mx, min_rtt_usec := mn\<rparr>"
  show ?thesis
  proof (cases "e = 0")
    case True
    then have nb: "\<not> circ_blocked circ" using u(4) t(6) clock by auto
    have "congestion_control_update_circuit_estimates now g ?t circ = Some (g1, bdp_without_rtt circ ?c, False)"
      using u(1) True nb by (simp add: congestion_control_update_circuit_estimates_def congestion_control_update_circuit_bdp_def)
    then have "congestion_control_vegas_process_sendme now g cc circ =
        Some (g1, (bdp_without_rtt circ ?c)\<lparr>inflight := inflight (bdp_without_rtt circ ?c) - ucast (sendme_inc (bdp_without_rtt circ ?c))\<rparr>)"
      using wf by (simp add: congestion_control_vegas_process_sendme_def vegas_wf_def)
    then show ?thesis using u True nb t(6)
      by (auto simp: sendme_frame_def bdp_without_rtt_def vegas_tick_def)
  next
    case False
    obtain b n k where d: "congestion_control_update_circuit_bdp ?c circ r =
        Some (?c\<lparr>bdp := b, next_cc_event := n, blocked_chan := k\<rparr>, circ_blocked circ \<or> r \<noteq> 0)" "unat b < 2 ^ 62"
      by (rule update_circuit_bdp_spec [of ?c circ r]) (use False u(3) wf t(8) in \<open>simp_all add: vegas_wf_def\<close>)
    let ?d = "?c\<lparr>bdp := b, next_cc_event := n, blocked_chan := k\<rparr>"
    have est: "congestion_control_update_circuit_estimates now g ?t circ = Some (g1, ?d, circ_blocked circ \<or> r \<noteq> 0)"
      using u(1) d(1) by (simp add: congestion_control_update_circuit_estimates_def)
    have "vegas_ready ?d" using False d(2) wf by (simp add: vegas_ready_def vegas_wf_def vegas_tick_def)
    then obtain g2 c2 where s: "vegas_step circ g1 ?d = Some (g2, c2)" "sendme_frame ?d c2"
      "ewma_rtt_usec c2 = e" "min_rtt_usec c2 = mn" "cwnd_max g2 = cwnd_max g1"
      using vegas_step_total [of ?d circ g1] by auto
    have fr: "sendme_frame ?d c2 = sendme_frame cc c2" by (simp add: sendme_frame_def vegas_tick_def)
    show ?thesis
    proof (cases "circ_blocked circ \<or> r \<noteq> 0")
      case True
      then have "congestion_control_vegas_process_sendme now g cc circ = Some (g2, c2)"
        using process_sendme_step est s(1) wf by (simp add: vegas_wf_def)
      then show ?thesis using s fr u False by auto
    next
      case nu: False
      then have "congestion_control_vegas_process_sendme now g cc circ =
          Some (g1, ?d\<lparr>inflight := inflight ?d - ucast (sendme_inc ?d)\<rparr>)"
        using est wf by (simp add: congestion_control_vegas_process_sendme_def vegas_wf_def)
      then show ?thesis using u False by (auto simp: sendme_frame_def vegas_tick_def)
    qed
  qed
qed

section \<open>Properties\<close>

definition steady_globals :: cc_globals where
  "steady_globals = \<lparr>cwnd_max = 2147483647, cell_queue_high = 256, cell_queue_low = 10, or_conn_highwater = 32768,
     or_conn_lowwater = 16384, cc_sendme_inc = 31, g_cc_alg = CC_ALG_VEGAS, n_ewma_cwnd_pct = 50, n_ewma_max = 10,
     n_ewma_ss = 2, bwe_sendme_min = 5, rtt_reset_pct = 100, is_monotime_clock_broken = False, num_rtt_reset = 0,
     num_clock_stalls = 0, cc_stats_circs_created = 0, cc_vegas_cwnd_full_gap = 4, cc_vegas_cwnd_full_minpct = 25,
     cc_cwnd_full_per_cwnd = 1, vegas_above_delta = 0, vegas_above_ss_cwnd_max = 0, vegas_below_ss_inc_floor = 0,
     vegas_circ_exited_ss = 0, cc_events = []\<rparr>"

definition steady_cc :: "u16 \<Rightarrow> congestion_control_t" where
  "steady_cc inc = cc_zero\<lparr>ewma_rtt_usec := 90000, min_rtt_usec := 80000, bdp := 300, cwnd := 200, cwnd_inc := inc, cwnd_min := 31,
     cwnd_inc_rate := 31, sendme_inc := 31, cc_alg := CC_ALG_VEGAS, blocked_chan := True,
     vegas_params := \<lparr>ss_cwnd_cap = 600, ss_cwnd_max = 5000, vp_gamma = 186, vp_alpha = 186, vp_beta = 248, vp_delta = 310\<rparr>\<rparr>"

text \<open>A circuit in slow start with a full window and an open channel.\<close>

definition slow_start_cc :: congestion_control_t where
  "slow_start_cc = (steady_cc 1)\<lparr>in_slow_start := True, blocked_chan := False, cwnd_full := True, cwnd_inc_pct_ss := 100\<rparr>"

text \<open>
  The decrease of the window by an increment can wrap: the consensus may set the increment up to
  1000 and the minimum window down to 31, and then a congestion signal turns a window of 200
  cells into one of almost \<open>2 ^ 64\<close> (only \<^verbatim>\<open>cc_cwnd_max\<close> stops it).
\<close>

theorem vegas_decrease_wraps:
  "map_option (\<lambda>(g, cc). unat (cwnd cc)) (vegas_steady_state 0 steady_globals (steady_cc 1000)) = Some (2 ^ 64 - 800)"
  by (simp add: vegas_steady_state_def vegas_steady_signal_def steady_cc_def cc_zero_def steady_globals_def Let_def emit_def
      CWND_INC_def congestion_control_vegas_log_def udiv64_def max_def)

text \<open>
  C31: Slow start is bounded.  In a state where an RTT has been measured, the SENDME increment and
  the update rate are not zero, the window is below \<open>2 ^ 32\<close> and the BDP below \<open>2 ^ 62\<close>
  (\<^term>\<open>vegas_ready\<close>), one slow-start step succeeds, leaves a window of at most \<^verbatim>\<open>ss_cwnd_max\<close>, and stays in slow start only below that bound.
\<close>

theorem vegas_slow_start_bounded:
  assumes "vegas_ready cc"
  shows "\<exists>g' cc'. vegas_slow_start circ q g cc = Some (g', cc') \<and>
    unat (cwnd cc') \<le> unat (ss_cwnd_max (vegas_params cc)) \<and>
    (in_slow_start cc' \<longrightarrow> unat (cwnd cc') < unat (ss_cwnd_max (vegas_params cc)) \<and> in_slow_start cc)"
  using vegas_slow_start_total [OF assms, of circ q g] window_frame_fields(9) by blast

theorem vegas_slow_start_bounded_witness:
  "\<forall>circ. \<exists>g' cc'. vegas_slow_start circ 0 steady_globals slow_start_cc = Some (g', cc') \<and> in_slow_start slow_start_cc \<and> unat (cwnd cc') \<le> 5000"
proof
  fix circ
  have "vegas_ready slow_start_cc" by (simp add: vegas_ready_def slow_start_cc_def steady_cc_def cc_zero_def)
  from vegas_slow_start_bounded [OF this, of circ 0 steady_globals]
  show "\<exists>g' cc'. vegas_slow_start circ 0 steady_globals slow_start_cc = Some (g', cc') \<and> in_slow_start slow_start_cc \<and> unat (cwnd cc') \<le> 5000"
    by (auto simp: slow_start_cc_def steady_cc_def)
qed

text \<open>
  The EWMA of the RTT lies between its two inputs, without wrapping, for RTTs below
  \<open>2 ^ 54\<close> microseconds and every count the code can use.
\<close>

theorem ewma_between_inputs:
  assumes "unat cur < 2 ^ 54" and "unat prev < 2 ^ 54" and "prev \<noteq> 0" and "2 \<le> unat N" and "unat N < 256"
  shows "\<exists>e. n_count_ewma cur prev N = Some e \<and>
    min (unat cur) (unat prev) \<le> unat e \<and> unat e \<le> max (unat cur) (unat prev)"
  using n_count_ewma_bounds [OF assms] .

theorem ewma_between_inputs_witness:
  "\<exists>e. n_count_ewma 120000 80000 10 = Some e \<and> 80000 \<le> unat e \<and> unat e \<le> 120000"
  using ewma_between_inputs [of 120000 80000 10] by simp

end
