(* ===== verification/CcDispatch.thy ===== *)
theory CcDispatch
  imports Vegas Conflux
begin

text \<open>
  The entry point of congestion control (\<^verbatim>\<open>congestion_control_dispatch_cc_alg\<close>), the part of the
  circuit handshake that negotiates it, and the invariant that a congestion control object keeps
  over its whole life.
\<close>

section \<open>Processing a SENDME\<close>

text \<open>\<open>cfx\<close> is the object that \<^verbatim>\<open>circ->conflux\<close> points to, if any.\<close>

definition congestion_control_dispatch_cc_alg ::
  "u64 \<Rightarrow> cc_globals \<Rightarrow> congestion_control_t \<Rightarrow> circ_id \<Rightarrow> circuit_t \<Rightarrow> conflux_t option \<Rightarrow>
   (cc_globals \<times> congestion_control_t \<times> conflux_t option) option" where
  "congestion_control_dispatch_cc_alg now_usec g cc c circ cfx = do {
     (g, cc) \<leftarrow> congestion_control_vegas_process_sendme now_usec g cc circ;
     let cc = (if cwnd cc > ucast (cwnd_max g) then cc\<lparr>cwnd := ucast (cwnd_max g)\<rparr> else cc);
     let cfx = (case cfx of
                  None \<Rightarrow> None
                | Some x \<Rightarrow> Some (if ewma_rtt_usec cc \<noteq> 0 then conflux_update_rtt x c (ewma_rtt_usec cc) else x));
     Some (g, cc, cfx)
   }"

section \<open>Negotiation\<close>

text \<open>
  An extension of the handshake is the list of its fields, each a type and a byte string; the
  generated parser of the congestion control field reads one byte and is truncated without it.
\<close>

type_synonym trn_extension = "(u8 \<times> u8 list) list"

abbreviation "TRUNNEL_EXT_TYPE_CC_FIELD_REQUEST \<equiv> 1 :: u8"
abbreviation "TRUNNEL_EXT_TYPE_CC_FIELD_RESPONSE \<equiv> 2 :: u8"

definition trn_extension_find :: "trn_extension \<Rightarrow> u8 \<Rightarrow> u8 list option" where
  "trn_extension_find ext type = map_option snd (find (\<lambda>f. fst f = type) ext)"

definition congestion_control_build_ext_request :: "bool \<Rightarrow> cc_globals \<Rightarrow> trn_extension \<Rightarrow> trn_extension" where
  "congestion_control_build_ext_request always g ext =
     (if congestion_control_enabled always g then ext @ [(TRUNNEL_EXT_TYPE_CC_FIELD_REQUEST, [])] else ext)"

definition congestion_control_parse_ext_request :: "trn_extension \<Rightarrow> bool" where
  "congestion_control_parse_ext_request ext = (trn_extension_find ext TRUNNEL_EXT_TYPE_CC_FIELD_REQUEST \<noteq> None)"

text \<open>The response, before its byte encoding: one field with the SENDME increment, or no field.\<close>

definition congestion_control_build_ext_response :: "circuit_params_t \<Rightarrow> circuit_params_t \<Rightarrow> trn_extension" where
  "congestion_control_build_ext_response our_params circ_params =
     (if cc_enabled circ_params
      then [(TRUNNEL_EXT_TYPE_CC_FIELD_RESPONSE, [sendme_inc_cells our_params])] else [])"

text \<open>The result is the C return value and the parameters.\<close>

definition congestion_control_parse_ext_response ::
  "cc_globals \<Rightarrow> trn_extension \<Rightarrow> circuit_params_t \<Rightarrow> int \<times> circuit_params_t" where
  "congestion_control_parse_ext_response g ext params =
     (case trn_extension_find ext TRUNNEL_EXT_TYPE_CC_FIELD_RESPONSE of
        None \<Rightarrow> (0, params)
      | Some [] \<Rightarrow> (- 2, params)
      | Some (inc # _) \<Rightarrow>
          (if \<not> congestion_control_validate_sendme_increment g inc then (- 1, params)
           else (1, params\<lparr>sendme_inc_cells := inc\<rparr>)))"

section \<open>Dispatch keeps the invariant\<close>

lemma dispatch_wf:
  assumes wf: "vegas_wf cc" and sample: "rtt_ok (rtt_sample now cc)"
    and clock: "ewma_rtt_usec cc \<noteq> 0 \<or> \<not> circ_blocked circ"
  shows "\<exists>g' cc' cfx'. congestion_control_dispatch_cc_alg now g cc c circ cfx = Some (g', cc', cfx') \<and> vegas_wf cc'
    \<and> unat (cwnd cc') \<le> unat (cwnd_max g) \<and> sendme_frame cc cc' \<and> (ewma_rtt_usec cc \<noteq> 0 \<longrightarrow> ewma_rtt_usec cc' \<noteq> 0)"
proof -
  obtain g1 c1 where p: "congestion_control_vegas_process_sendme now g cc circ = Some (g1, c1)" "sendme_frame cc c1"
    "rtt_ok (ewma_rtt_usec c1)" "rtt_ok (min_rtt_usec c1)" "ewma_rtt_usec cc \<noteq> 0 \<longrightarrow> ewma_rtt_usec c1 \<noteq> 0"
    "cwnd_max g1 = cwnd_max g"
    using process_sendme_total [OF assms, of g] by blast
  let ?c = "if cwnd c1 > ucast (cwnd_max g) then c1\<lparr>cwnd := ucast (cwnd_max g)\<rparr> else c1"
  have le: "unat (cwnd ?c) \<le> unat (cwnd_max g)" by (simp add: word_less_nat_alt)
  moreover have "unat (cwnd ?c) < 2 ^ 32" using le unat_u32_less [of "cwnd_max g"] by simp
  then have "vegas_wf ?c" using wf p by (simp add: vegas_wf_def sendme_frame_def)
  moreover have "sendme_frame cc ?c" using p(2) by (simp add: sendme_frame_def)
  moreover have "ewma_rtt_usec ?c = ewma_rtt_usec c1" by simp
  ultimately show ?thesis
    using p(1,5,6) by (simp add: congestion_control_dispatch_cc_alg_def Let_def split: if_splits)
qed

lemma ext_response_roundtrip:
  assumes "cc_enabled circ_params"
  shows "congestion_control_parse_ext_response g (congestion_control_build_ext_response ours circ_params) params =
    (if congestion_control_validate_sendme_increment g (sendme_inc_cells ours)
     then (1, params\<lparr>sendme_inc_cells := sendme_inc_cells ours\<rparr>) else (- 1, params))"
  using assms by (simp add: congestion_control_parse_ext_response_def congestion_control_build_ext_response_def
      trn_extension_find_def)

section \<open>Properties\<close>

text \<open>A circuit of an exit, with 31 cells in flight that were sent at time 1000.\<close>

definition sample_cc :: congestion_control_t where
  "sample_cc = \<lparr>sendme_pending_timestamps = [1000], ewma_rtt_usec = 90000, min_rtt_usec = 80000, max_rtt_usec = 100000,
     bdp = 0, cwnd = 124, inflight = 124, next_cc_event = 1, next_cwnd_event = 1, in_slow_start = True,
     cwnd_full = False, blocked_chan = False, cwnd_inc_pct_ss = 100, cwnd_inc = 1, cwnd_min = 124, cwnd_inc_rate = 31,
     sendme_inc = 31, cc_alg = CC_ALG_VEGAS,
     vegas_params = \<lparr>ss_cwnd_cap = 600, ss_cwnd_max = 5000, vp_gamma = 186, vp_alpha = 186, vp_beta = 248, vp_delta = 310\<rparr>\<rparr>"

definition sample_circ :: "bool \<Rightarrow> circuit_t" where
  "sample_circ blocked = exit_circ\<lparr>circuit_blocked_on_p_chan := blocked\<rparr>"

lemma sample_wf: "vegas_wf sample_cc" "rtt_ok (rtt_sample 101000 sample_cc)"
  by (simp_all add: vegas_wf_def rtt_ok_def sample_cc_def rtt_sample_def dequeue_timestamp_def smartlist_get_def)

text \<open>
  C22: As long as RTTs are below 18 minutes (\<^term>\<open>rtt_ok\<close>), and an RTT has been measured or the channel is
  not blocked, processing a SENDME does not abort (no failing assert, no division by zero) and
  keeps the invariant of the congestion control object: the window never exceeds \<^verbatim>\<open>cc_cwnd_max\<close>,
  one SENDME increment leaves the in-flight count, the configured parameters do not change, slow
  start is never re-entered, and an RTT estimate once made is never lost.
\<close>

theorem cc_dispatch_total_invariant:
  assumes "vegas_wf cc" and "rtt_ok (rtt_sample now cc)" and "ewma_rtt_usec cc \<noteq> 0 \<or> \<not> circ_blocked circ"
  shows "\<exists>g' cc' cfx'. congestion_control_dispatch_cc_alg now g cc c circ cfx = Some (g', cc', cfx')
    \<and> vegas_wf cc' \<and> unat (cwnd cc') \<le> unat (cwnd_max g)
    \<and> inflight cc' = inflight cc - ucast (sendme_inc cc)
    \<and> sendme_inc cc' = sendme_inc cc \<and> cwnd_min cc' = cwnd_min cc \<and> vegas_params cc' = vegas_params cc
    \<and> (in_slow_start cc' \<longrightarrow> in_slow_start cc) \<and> (ewma_rtt_usec cc \<noteq> 0 \<longrightarrow> ewma_rtt_usec cc' \<noteq> 0)"
  using dispatch_wf [OF assms, of g c cfx] unfolding sendme_frame_def by blast

theorem cc_dispatch_total_invariant_witness:
  "\<exists>g' cc' cfx'. congestion_control_dispatch_cc_alg 101000 demo_globals sample_cc 1 (sample_circ True) None = Some (g', cc', cfx')
    \<and> vegas_wf cc' \<and> inflight cc' = 93"
proof -
  have "ewma_rtt_usec sample_cc \<noteq> 0 \<or> \<not> circ_blocked (sample_circ True)" by (simp add: sample_cc_def)
  from cc_dispatch_total_invariant [OF sample_wf this, of demo_globals 1 None] show ?thesis
    by (auto simp: sample_cc_def)
qed

text \<open>
  The hypothesis on a blocked channel is needed: when the clock has stalled for the
  whole life of a circuit, a blocked channel ends slow start and the log message of
  \<^verbatim>\<open>congestion_control_vegas_exit_slow_start\<close> divides by the RTT estimate, which is zero.
\<close>

theorem vegas_stalled_clock_divides_by_zero:
  "congestion_control_vegas_process_sendme 1000 demo_globals
     (sample_cc\<lparr>ewma_rtt_usec := 0, min_rtt_usec := 0\<rparr>) (sample_circ True) = None"
  by (simp add: congestion_control_vegas_process_sendme_def vegas_tick_def sample_cc_def sample_circ_def exit_circ_def demo_globals_def
      congestion_control_update_circuit_estimates_def congestion_control_update_circuit_rtt_def
      dequeue_timestamp_def smartlist_get_def time_delta_stalled_or_jumped_def Let_def
      congestion_control_update_circuit_bdp_def bdp_without_rtt_def circ_blocked_def circ_chan_q_def
      vegas_update_full_def cwnd_became_full_def vegas_slow_start_def vegas_ss_window_def
      vegas_queue_use_def vegas_bdp_def congestion_control_vegas_exit_slow_start_def
      congestion_control_vegas_log_def udiv64_def)

text \<open>
  The SENDME increment that the handshake negotiates: a relay's own response is accepted
  exactly when it is not zero and within one of the client's consensus value, and then it becomes
  the increment of the circuit.
\<close>

theorem cc_negotiation_roundtrip:
  assumes "cc_enabled circ_params"
  shows "congestion_control_parse_ext_response g (congestion_control_build_ext_response ours circ_params) params =
    (if sendme_inc_cells ours \<noteq> 0 \<and> \<bar>int (unat (sendme_inc_cells ours)) - int (unat (cc_sendme_inc g))\<bar> \<le> 1
     then (1, params\<lparr>sendme_inc_cells := sendme_inc_cells ours\<rparr>) else (- 1, params))"
  using ext_response_roundtrip [OF assms, of g ours params]
  by (auto simp: congestion_control_validate_sendme_increment_def)

theorem cc_negotiation_roundtrip_witness:
  "congestion_control_parse_ext_response demo_globals
     (congestion_control_build_ext_response \<lparr>cc_enabled = True, sendme_inc_cells = 32\<rparr> \<lparr>cc_enabled = True, sendme_inc_cells = 31\<rparr>)
     \<lparr>cc_enabled = True, sendme_inc_cells = 31\<rparr> = (1, \<lparr>cc_enabled = True, sendme_inc_cells = 32\<rparr>)"
  using cc_negotiation_roundtrip [of "\<lparr>cc_enabled = True, sendme_inc_cells = 31\<rparr>" demo_globals
      "\<lparr>cc_enabled = True, sendme_inc_cells = 32\<rparr>" "\<lparr>cc_enabled = True, sendme_inc_cells = 31\<rparr>"]
  by (simp add: demo_globals_def)

lemma net_param_total:
  "lo < hi \<Longrightarrow> lo \<le> d \<Longrightarrow> d \<le> hi \<Longrightarrow> \<exists>v. networkstatus_get_param latest ns name d lo hi = Some v"
  using np.get_in_range [of lo hi d latest ns name] by blast

lemma vegas_set_params_total:
  assumes "cc_alg cc = CC_ALG_VEGAS"
  shows "\<exists>g' vp. congestion_control_vegas_set_params latest g cc path = Some (g', cc\<lparr>vegas_params := vp\<rparr>)"
proof -
  obtain suffix al be ga de cap where d: "vegas_path_defaults path = (suffix, al, be, ga, de, cap)"
    by (metis prod_cases6)
  have r: "0 \<le> al \<and> al \<le> 1000" "0 \<le> be \<and> be \<le> 1000" "0 \<le> ga \<and> ga \<le> 1000" "0 \<le> de \<and> de \<le> INT32_MAX"
    "100 \<le> cap \<and> cap \<le> INT32_MAX"
    using d by (cases path; simp add: OUTBUF_CELLS_def TLS_RECORD_MAX_CELLS_def INT32_MAX_def)+
  have i: "(0 :: int) < INT32_MAX" "(100 :: int) < INT32_MAX" "(500 :: int) < INT32_MAX" "(5000 :: int) \<le> INT32_MAX"
    by (simp_all add: INT32_MAX_def)
  have "\<exists>v. networkstatus_get_param latest None (''cc_sscap_'' @ suffix) cap 100 INT32_MAX = Some v"
    "\<exists>v. networkstatus_get_param latest None ''cc_ss_max'' 5000 500 INT32_MAX = Some v"
    "\<exists>v. networkstatus_get_param latest None (''cc_vegas_alpha_'' @ suffix) al 0 1000 = Some v"
    "\<exists>v. networkstatus_get_param latest None (''cc_vegas_beta_'' @ suffix) be 0 1000 = Some v"
    "\<exists>v. networkstatus_get_param latest None (''cc_vegas_gamma_'' @ suffix) ga 0 1000 = Some v"
    "\<exists>v. networkstatus_get_param latest None (''cc_vegas_delta_'' @ suffix) de 0 INT32_MAX = Some v"
    "\<exists>v. networkstatus_get_param latest None ''cc_cwnd_full_minpct'' 25 0 100 = Some v"
    "\<exists>v. networkstatus_get_param latest None ''cc_cwnd_full_gap'' 4 0 32767 = Some v"
    "\<exists>v. networkstatus_get_param latest None ''cc_cwnd_full_per_cwnd'' 1 0 1 = Some v"
    using r i by (simp_all add: net_param_total)
  then show ?thesis
    unfolding congestion_control_vegas_set_params_def d using assms by (auto simp: Let_def simp del: append.simps)
qed

lemma cc_new_vegas:
  assumes alg: "g_cc_alg g = CC_ALG_VEGAS \<or> g_cc_alg g = CC_ALG_SENDME \<and> always" and inc: "sendme_inc_cells params \<noteq> 0"
  shows "\<exists>g' cc. congestion_control_new latest always g params path = Some (g', cc) \<and> vegas_wf cc
    \<and> in_slow_start cc \<and> inflight cc = 0 \<and> sendme_inc cc = sendme_inc_cells params
    \<and> 31 \<le> unat (cwnd cc) \<and> unat (cwnd cc) \<le> 10000 \<and> 31 \<le> unat (cwnd_min cc)"
proof -
  have t: "TLS_RECORD_MAX_CELLS = 31" by (simp add: TLS_RECORD_MAX_CELLS_def)
  note get = np.get_in_range [where latest = latest and ns = None]
  obtain w where w: "networkstatus_get_param latest None ''cc_cwnd_init'' 124 31 10000 = Some w" "31 \<le> w" "w \<le> 10000"
    using get [of 31 10000 124] by auto
  obtain ps where ps: "networkstatus_get_param latest None ''cc_cwnd_inc_pct_ss'' 100 1 500 = Some ps"
    using get [of 1 500 100] by auto
  obtain ci where ci: "networkstatus_get_param latest None ''cc_cwnd_inc'' 1 1 1000 = Some ci"
    using get [of 1 1000 1] by auto
  obtain cr where cr: "networkstatus_get_param latest None ''cc_cwnd_inc_rate'' 31 1 250 = Some cr" "1 \<le> cr" "cr \<le> 250"
    using get [of 1 250 31] by auto
  obtain mn where mn: "networkstatus_get_param latest None ''cc_cwnd_min'' 124 31 1000 = Some mn" "31 \<le> mn" "mn \<le> 1000"
    using get [of 31 1000 124] by auto
  have uw: "unat (word_of_int w :: u64) = nat w" "unat (word_of_int cr :: u8) = nat cr" "unat (word_of_int mn :: u16) = nat mn"
    using np.nat_of_get [OF _ _ _ _ _ w(1), where ?'w = 64] np.nat_of_get [OF _ _ _ _ _ cr(1), where ?'w = 8]
      np.nat_of_get [OF _ _ _ _ _ mn(1), where ?'w = 16] by simp_all
  have cr0: "(word_of_int cr :: u8) \<noteq> 0"
  proof
    assume "(word_of_int cr :: u8) = 0"
    then have "nat cr = 0" using uw(2) by (metis unat_0)
    then show False using cr(2) by simp
  qed
  define c0 where "c0 = cc_zero\<lparr>sendme_pending_timestamps := [], in_slow_start := True, sendme_inc := sendme_inc_cells params,
     cwnd := word_of_int w, cwnd_inc_pct_ss := word_of_int ps, cwnd_inc := word_of_int ci,
     cwnd_inc_rate := word_of_int cr, cwnd_min := word_of_int mn, cc_alg := CC_ALG_VEGAS\<rparr>"
  obtain g1 vp where sp: "congestion_control_vegas_set_params latest g c0 path = Some (g1, c0\<lparr>vegas_params := vp\<rparr>)"
    using vegas_set_params_total [of c0 latest g path] by (auto simp: c0_def)
  have "(if g_cc_alg g = CC_ALG_SENDME \<and> always then CC_ALG_VEGAS else g_cc_alg g) = CC_ALG_VEGAS" using alg by auto
  then have ip: "congestion_control_init_params latest always g
      (cc_zero\<lparr>sendme_pending_timestamps := [], in_slow_start := True\<rparr>) params path = Some (g1, c0\<lparr>vegas_params := vp\<rparr>)"
    using sp by (simp add: congestion_control_init_params_def t w(1) ps ci cr(1) mn(1) Let_def c0_def)
  have "\<exists>g'. congestion_control_new latest always g params path = Some (g', c0\<lparr>vegas_params := vp, next_cc_event := 1\<rparr>)"
    by (simp add: congestion_control_new_def congestion_control_init_def Let_def ip CWND_UPDATE_RATE_def c0_def)
  then show ?thesis
    using inc cr0 uw w mn
    by (fastforce simp: vegas_wf_def c0_def cc_zero_def rtt_ok_def nat_less_iff)
qed

text \<open>
  C30: A new congestion control object satisfies the invariant that C6 needs, whatever the
  consensus says: with Vegas selected and a negotiated increment that is not zero, creation never
  fails, starts in slow start with nothing in flight, a window between 31 and 10000 cells and
  divisors that are not zero.
\<close>

theorem cc_new_establishes_invariant:
  assumes "g_cc_alg g = CC_ALG_VEGAS \<or> g_cc_alg g = CC_ALG_SENDME \<and> always" and "sendme_inc_cells params \<noteq> 0"
  shows "\<exists>g' cc. congestion_control_new latest always g params path = Some (g', cc) \<and> vegas_wf cc
    \<and> in_slow_start cc \<and> inflight cc = 0 \<and> sendme_inc cc = sendme_inc_cells params
    \<and> 31 \<le> unat (cwnd cc) \<and> unat (cwnd cc) \<le> 10000 \<and> 31 \<le> unat (cwnd_min cc)"
  using cc_new_vegas [OF assms] .

theorem cc_new_establishes_invariant_witness:
  "\<exists>g' cc. congestion_control_new None False demo_globals \<lparr>cc_enabled = True, sendme_inc_cells = 31\<rparr> CC_PATH_EXIT = Some (g', cc)
    \<and> vegas_wf cc"
  using cc_new_establishes_invariant [of demo_globals False "\<lparr>cc_enabled = True, sendme_inc_cells = 31\<rparr>" None CC_PATH_EXIT]
  by (auto simp: demo_globals_def)

end
