(* ===== verification/FlowControl.thy ===== *)
theory FlowControl
  imports ConfluxUtil
begin

text \<open>
  \<^verbatim>\<open>core/or/congestion_control_flow.c\<close>: the XON and XOFF messages by which the two ends of a
  stream stop and resume each other, the drain rate an XON announces, and the client's checks that
  the other end does not send more of them than the data sent can explain.
\<close>

section \<open>The cells\<close>

record xon_cell_t =
  xon_version :: u8
  kbps_ewma :: u32

definition xoff_cell_encode :: "nat \<Rightarrow> u8 \<Rightarrow> trunnel_error + u8 list" where
  "xoff_cell_encode avail version =
     (if \<not> version = 0 then Inl Trunnel_fail
      else if avail < 1 then Inl Trunnel_truncated
      else Inr [version])"

definition xoff_cell_parse :: "u8 list \<Rightarrow> trunnel_error + u8" where
  "xoff_cell_parse input =
     sum_bind (take_bytes 1 input) (\<lambda>(v, rest). if \<not> hd v = 0 then Inl Trunnel_fail else Inr (hd v))"

definition xon_cell_encode :: "nat \<Rightarrow> xon_cell_t \<Rightarrow> trunnel_error + u8 list" where
  "xon_cell_encode avail obj =
     (if \<not> xon_version obj = 0 then Inl Trunnel_fail
      else if avail < 1 then Inl Trunnel_truncated
      else if avail - 1 < 4 then Inl Trunnel_truncated
      else Inr (xon_version obj # be_encode 4 (unat (kbps_ewma obj))))"

definition xon_cell_parse :: "u8 list \<Rightarrow> trunnel_error + xon_cell_t" where
  "xon_cell_parse input =
     sum_bind (take_bytes 1 input) (\<lambda>(v, r1).
       if \<not> hd v = 0 then Inl Trunnel_fail
       else sum_bind (take_bytes 4 r1) (\<lambda>(k, r2).
         Inr \<lparr>xon_version = hd v, kbps_ewma = of_nat (be_decode k)\<rparr>))"

interpretation xoff_codec: codec "\<lambda>_. True" "\<lambda>v. v = 0" xoff_cell_encode xoff_cell_parse "\<lambda>_. 1"
  by unfold_locales (auto simp: xoff_cell_encode_def xoff_cell_parse_def take_bytes_def split: if_splits)

interpretation xon_codec: codec "\<lambda>_. True" "\<lambda>x. xon_version x = 0" xon_cell_encode xon_cell_parse "\<lambda>_. 5"
proof (unfold_locales, goal_cases)
  case (4 x avail bs)
  then have v: "xon_version x = 0" and bs: "bs = [0] @ be_encode 4 (unat (kbps_ewma x)) @ []"
    by (simp_all add: xon_cell_encode_def split: if_splits del: be_encode.simps)
  show ?case
    using v by (simp only: bs xon_cell_parse_def take_bytes_append length_be_encode sum_bind_simps prod.case
        be_u32_roundtrip list.sel list.size) simp
qed (auto simp: xon_cell_encode_def simp del: be_encode.simps)

section \<open>State\<close>

record flow_globals =
  xoff_client :: u32
  xoff_exit :: u32
  xon_change_pct :: u32
  xon_ewma_cnt :: u32
  xon_rate_bytes :: u32
  flow_num_xoff_sent :: u64
  flow_num_xon_sent :: u64

datatype stream_event = STREAM_EVENT_XOFF_SENT | STREAM_EVENT_XOFF_RECV | STREAM_EVENT_XON_SENT | STREAM_EVENT_XON_RECV

text \<open>
  What a handler does to the rest of the program: the messages that
  \<^verbatim>\<open>connection_edge_send_command\<close> accepted, reading from the stream's socket stopped and
  started, control events, and the samples of the two running averages.
\<close>

datatype flow_action =
    Edge_send int "u8 list"
  | Stop_reading
  | Start_reading
  | Stream_status stream_event
  | Xoff_outbuf_sample u64
  | Xon_outbuf_sample u64

abbreviation "RELAY_COMMAND_XOFF \<equiv> 43 :: int"
abbreviation "RELAY_COMMAND_XON \<equiv> 44 :: int"
abbreviation "CELL_PAYLOAD_SIZE \<equiv> 509 :: nat"
abbreviation "RELAY_PAYLOAD_SIZE_MIN \<equiv> 488"
abbreviation "XOFF_GRACE_PERIOD_USEC \<equiv> 5000"
abbreviation "XON_COUNT_SCALE_AT \<equiv> 200"
abbreviation "XOFF_COUNT_SCALE_AT \<equiv> 200"
abbreviation "TOTAL_XMIT_SCALE_AT \<equiv> 10485760"

definition flow_control_new_consensus_params ::
  "networkstatus option \<Rightarrow> networkstatus option \<Rightarrow> flow_globals \<Rightarrow> flow_globals option" where
  "flow_control_new_consensus_params latest ns f = do {
     xc \<leftarrow> networkstatus_get_param latest ns ''cc_xoff_client'' 500 1 10000;
     xe \<leftarrow> networkstatus_get_param latest ns ''cc_xoff_exit'' 500 1 10000;
     cp \<leftarrow> networkstatus_get_param latest ns ''cc_xon_change_pct'' 25 1 99;
     xr \<leftarrow> networkstatus_get_param latest ns ''cc_xon_rate'' 500 1 5000;
     ec \<leftarrow> networkstatus_get_param latest ns ''cc_xon_ewma_cnt'' 2 2 100;
     Some (f\<lparr>xoff_client := word_of_int (xc * RELAY_PAYLOAD_SIZE_MIN),
             xoff_exit := word_of_int (xe * RELAY_PAYLOAD_SIZE_MIN),
             xon_change_pct := word_of_int cp,
             xon_rate_bytes := word_of_int (xr * int RELAY_PAYLOAD_SIZE_MAX),
             xon_ewma_cnt := word_of_int ec\<rparr>)
   }"

section \<open>Which streams use flow control\<close>

definition edge_uses_flow_control :: "(circ_id \<Rightarrow> circuit_t) \<Rightarrow> edge_connection_t \<Rightarrow> bool" where
  "edge_uses_flow_control circs stream =
     ((case on_circuit stream of None \<Rightarrow> False | Some c \<Rightarrow> c_ccontrol (circs c) \<noteq> None)
      \<or> (case cpath_layer stream of None \<Rightarrow> False | Some h \<Rightarrow> cp_ccontrol h \<noteq> None))"

text \<open>A connection that is no edge connection is \<^term>\<open>None\<close>.\<close>

definition conn_uses_flow_control :: "(circ_id \<Rightarrow> circuit_t) \<Rightarrow> edge_connection_t option \<Rightarrow> bool" where
  "conn_uses_flow_control circs conn =
     (case conn of None \<Rightarrow> False | Some edge \<Rightarrow> edge_uses_flow_control circs edge)"

section \<open>Sending XON and XOFF\<close>

text \<open>\<open>ok\<close>: \<^verbatim>\<open>connection_edge_send_command\<close> returned 0.\<close>

definition ap_event :: "edge_connection_t \<Rightarrow> stream_event \<Rightarrow> flow_action list" where
  "ap_event stream e = (if conn_is_ap stream then [Stream_status e] else [])"

definition circuit_send_stream_xoff ::
  "bool \<Rightarrow> flow_globals \<Rightarrow> edge_connection_t \<Rightarrow> flow_globals \<times> edge_connection_t \<times> flow_action list" where
  "circuit_send_stream_xoff ok f stream =
     (case xoff_cell_encode CELL_PAYLOAD_SIZE 0 of
        Inl _ \<Rightarrow> (f, stream, [])
      | Inr payload \<Rightarrow>
          (if ok then (f\<lparr>flow_num_xoff_sent := flow_num_xoff_sent f + 1\<rparr>, stream\<lparr>xoff_sent := True\<rparr>,
                       Edge_send RELAY_COMMAND_XOFF payload # ap_event stream STREAM_EVENT_XOFF_SENT)
           else (f, stream, [])))"

definition compute_drain_rate :: "cc_globals \<Rightarrow> u64 \<Rightarrow> edge_connection_t \<Rightarrow> u32" where
  "compute_drain_rate g now stream =
     (if \<not> is_monotime_clock_reliable g then 0
      else let delta = now - drain_start_usec stream
      in if delta = 0 then 0
         else if prev_drained_bytes stream > 2147483
                 \<or> ucast (prev_drained_bytes stream) div delta > (2147483 :: u64) then 2147483647
         else ucast (max 1 (ucast (prev_drained_bytes stream * 1000) div delta :: u64)))"

definition circuit_send_stream_xon ::
  "bool \<Rightarrow> flow_globals \<Rightarrow> edge_connection_t \<Rightarrow> flow_globals \<times> edge_connection_t \<times> flow_action list" where
  "circuit_send_stream_xon ok f stream =
     (case xon_cell_encode CELL_PAYLOAD_SIZE \<lparr>xon_version = 0, kbps_ewma = ewma_drain_rate stream\<rparr> of
        Inl _ \<Rightarrow> (f, stream, [])
      | Inr payload \<Rightarrow>
          (let stream = stream\<lparr>ewma_rate_last_sent := ewma_drain_rate stream\<rparr>
           in if ok then (f\<lparr>flow_num_xon_sent := flow_num_xon_sent f + 1\<rparr>, stream\<lparr>xoff_sent := False\<rparr>,
                          Edge_send RELAY_COMMAND_XON payload # ap_event stream STREAM_EVENT_XON_SENT)
              else (f, stream, [])))"

section \<open>Receiving XON and XOFF\<close>

definition scale_counts :: "edge_connection_t \<Rightarrow> edge_connection_t" where
  "scale_counts conn = conn\<lparr>total_bytes_xmit := total_bytes_xmit conn div 2,
                            num_xoff_recv := num_xoff_recv conn div 2,
                            num_xon_recv := num_xon_recv conn div 2\<rparr>"

text \<open>
  \<open>hop\<close> names the hop a message came from.  \<^term>\<open>None\<close> as a result is an abort in
  \<^const>\<open>edge_uses_cpath\<close>.  The stream argument is never NULL: the code logs a bug there.
\<close>

definition circuit_process_stream_xoff ::
  "flow_globals \<Rightarrow> (circ_id \<Rightarrow> circuit_t) \<Rightarrow> (cfx_id \<Rightarrow> conflux_t) \<Rightarrow> edge_connection_t \<Rightarrow> nat option \<Rightarrow>
   (edge_connection_t \<times> bool \<times> flow_action list) option" where
  "circuit_process_stream_xoff f circs cfxs conn hop = do {
     uses \<leftarrow> edge_uses_cpath circs cfxs conn hop;
     if \<not> uses then Some (conn, False, [])
     else if \<not> edge_uses_flow_control circs conn then Some (conn, False, [])
     else if xoff_received conn then Some (conn, False, [])
     else do {
       let conn = (if num_xoff_recv conn = XOFF_COUNT_SCALE_AT then scale_counts conn else conn);
       let conn = conn\<lparr>num_xoff_recv := num_xoff_recv conn + 1\<rparr>;
       let retval = (if conn_is_ap conn \<or> has_hs_ident conn
                     then let limit = (if has_hs_ident conn then xoff_client f else xoff_exit f)
                          in \<not> total_bytes_xmit conn < limit * ucast (num_xoff_recv conn)
                     else True);
       Some (conn\<lparr>xoff_received := True\<rparr>, retval, Stop_reading # ap_event conn STREAM_EVENT_XOFF_RECV)
     }
   }"

definition circuit_process_stream_xon ::
  "u64 \<Rightarrow> flow_globals \<Rightarrow> (circ_id \<Rightarrow> circuit_t) \<Rightarrow> (cfx_id \<Rightarrow> conflux_t) \<Rightarrow> edge_connection_t \<Rightarrow> nat option \<Rightarrow>
   relay_msg_t \<Rightarrow> (edge_connection_t \<times> bool \<times> flow_action list) option" where
  "circuit_process_stream_xon stamp_ticks f circs cfxs conn hop m = do {
     uses \<leftarrow> edge_uses_cpath circs cfxs conn hop;
     if \<not> uses then Some (conn, False, [])
     else if \<not> edge_uses_flow_control circs conn then Some (conn, False, [])
     else case xon_cell_parse (msg_payload m) of
       Inl _ \<Rightarrow> Some (conn, False, [])
     | Inr xon \<Rightarrow> do {
         let conn = (if num_xon_recv conn = XON_COUNT_SCALE_AT then scale_counts conn else conn);
         let conn = conn\<lparr>num_xon_recv := num_xon_recv conn + 1\<rparr>;
         let retval = (if conn_is_ap conn \<or> has_hs_ident conn
                       then let limit = (if has_hs_ident conn then min (xoff_client f) (xon_rate_bytes f)
                                         else min (xoff_exit f) (xon_rate_bytes f))
                            in \<not> total_bytes_xmit conn < limit * ucast (num_xon_recv conn)
                       else True);
         let rate = (ucast (kbps_ewma xon) * 1000 :: u64);
         let rate = (if rate = 0 \<or> 2147483647 < rate then 2147483647 else rate);
         let conn = conn\<lparr>bucket := token_bucket_rw_adjust stamp_ticks (bucket conn) (ucast rate) (ucast rate)\<rparr>;
         let (conn, acts) = (if xoff_received conn then (conn\<lparr>xoff_received := False\<rparr>, [Start_reading])
                             else (conn, []));
         Some (conn, retval, acts @ ap_event conn STREAM_EVENT_XON_RECV)
       }
   }"

section \<open>Deciding to send\<close>

definition stream_drain_rate_changed :: "cc_globals \<Rightarrow> flow_globals \<Rightarrow> edge_connection_t \<Rightarrow> bool" where
  "stream_drain_rate_changed g f stream =
     (if \<not> is_monotime_clock_reliable g then False
      else if ewma_rate_last_sent stream = 0 then False
      else if ucast (ewma_drain_rate stream)
              > (100 + ucast (xon_change_pct f)) * ucast (ewma_rate_last_sent stream) div (100 :: u64) then True
      else if ucast (ewma_drain_rate stream)
              < (100 - ucast (xon_change_pct f)) * ucast (ewma_rate_last_sent stream) div (100 :: u64) then True
      else False)"

text \<open>
  The parts of \<^verbatim>\<open>flow_control_decide_xon\<close> in order.  It reads the clock at up to three places:
  \<open>t1\<close>, \<open>t2\<close>, \<open>t3\<close> are the values it gets.  First the byte count and the drain timer.
\<close>

definition xon_count_drained ::
  "cc_globals \<Rightarrow> u64 \<Rightarrow> u64 \<Rightarrow> edge_connection_t \<Rightarrow> u64 \<Rightarrow> edge_connection_t" where
  "xon_count_drained g t1 t2 stream n_written =
     (let stream =
            (if ucast (drained_bytes stream) \<ge> (4294967295 :: u64) - n_written
             then stream\<lparr>drained_bytes := drained_bytes stream div 2,
                         drain_start_usec :=
                           (if drain_start_usec stream \<noteq> 0 then t1 - (t1 - drain_start_usec stream) div 2
                            else drain_start_usec stream)\<rparr>
             else stream);
          stream = stream\<lparr>drained_bytes := ucast (ucast (drained_bytes stream) + n_written :: u64)\<rparr>
      in if \<not> is_monotime_clock_reliable g then stream\<lparr>drain_start_usec := 0, drained_bytes := 0\<rparr>
         else if drain_start_usec stream = 0 \<and> outbuf_len stream > 0
         then stream\<lparr>drain_start_usec := t2, drained_bytes := 0\<rparr>
         else stream)"

text \<open>Then the drain rate, once enough bytes were drained while data was queued.\<close>

definition xon_update_rate ::
  "cc_globals \<Rightarrow> flow_globals \<Rightarrow> u64 \<Rightarrow> edge_connection_t \<Rightarrow> edge_connection_t option" where
  "xon_update_rate g f t3 stream =
     (if drain_start_usec stream \<noteq> 0 \<and> drained_bytes stream > xon_rate_bytes f
      then do {
        let stream = (if prev_drained_bytes stream = 0
                      then stream\<lparr>prev_drained_bytes := drained_bytes stream\<rparr> else stream);
        let drain_rate = compute_drain_rate g t3 stream;
        let stream = stream\<lparr>prev_drained_bytes := drained_bytes stream\<rparr>;
        if drain_rate \<noteq> 0
        then do {
          e \<leftarrow> n_count_ewma (ucast drain_rate) (ucast (ewma_drain_rate stream)) (ucast (xon_ewma_cnt f));
          Some (stream\<lparr>ewma_drain_rate := ucast e, drained_bytes := 0, drain_start_usec := 0\<rparr>)
        }
        else Some stream
      }
      else Some stream)"

text \<open>Then the message: a rate change while no XOFF is outstanding, or the end of an XOFF.\<close>

definition xon_consider_sending ::
  "bool \<Rightarrow> cc_globals \<Rightarrow> flow_globals \<Rightarrow> edge_connection_t \<Rightarrow> flow_globals \<times> edge_connection_t \<times> flow_action list" where
  "xon_consider_sending ok g f stream =
     (if \<not> xoff_sent stream
      then (if stream_drain_rate_changed g f stream
            then let (f, stream', acts) = circuit_send_stream_xon ok f stream
                 in (f, stream', Xon_outbuf_sample (outbuf_len stream) # acts)
            else (f, stream, []))
      else if outbuf_len stream = 0 then circuit_send_stream_xon ok f stream
      else (f, stream, []))"

text \<open>And the doubling of the rate when the queue stays empty.\<close>

definition xon_queue_empty :: "flow_globals \<Rightarrow> edge_connection_t \<Rightarrow> edge_connection_t" where
  "xon_queue_empty f stream =
     (if outbuf_len stream = 0
      then let stream = stream\<lparr>drain_start_usec := 0\<rparr>
           in if drained_bytes stream \<ge> xon_rate_bytes f \<and> ewma_rate_last_sent stream \<noteq> 0
              then stream\<lparr>ewma_drain_rate := min 2147483647 (2 * ewma_drain_rate stream),
                          prev_drained_bytes := drained_bytes stream, drained_bytes := 0\<rparr>
              else stream
      else stream)"

definition flow_control_decide_xon ::
  "bool \<Rightarrow> cc_globals \<Rightarrow> u64 \<Rightarrow> u64 \<Rightarrow> u64 \<Rightarrow> flow_globals \<Rightarrow> edge_connection_t \<Rightarrow> u64 \<Rightarrow>
   (flow_globals \<times> edge_connection_t \<times> flow_action list) option" where
  "flow_control_decide_xon ok g t1 t2 t3 f stream n_written = do {
     stream \<leftarrow> xon_update_rate g f t3 (xon_count_drained g t1 t2 stream n_written);
     let (f, stream, acts) = xon_consider_sending ok g f stream;
     Some (f, xon_queue_empty f stream, acts)
   }"

text \<open>
  \<open>now\<close> is the clock of \<^verbatim>\<open>flow_control_decide_xoff\<close> itself, \<open>ok1\<close> and \<open>ok2\<close> the outcomes of
  sending an XOFF and an XON.  The integer is the return value.
\<close>

definition xoff_consider_sending ::
  "bool \<Rightarrow> u64 \<Rightarrow> flow_globals \<Rightarrow> edge_connection_t \<Rightarrow> flow_globals \<times> edge_connection_t \<times> flow_action list" where
  "xoff_consider_sending ok now f stream =
     (let buffer_limit_xoff = (if conn_is_ap stream \<or> has_hs_ident stream then xoff_client f else xoff_exit f)
      in if outbuf_len stream > ucast buffer_limit_xoff
         then (if xoff_sent stream then (f, stream, [])
               else if xoff_grace_period_start_usec stream = 0
               then (f, stream\<lparr>xoff_grace_period_start_usec := now\<rparr>, [])
               else if now > xoff_grace_period_start_usec stream + XOFF_GRACE_PERIOD_USEC
               then let (f, stream', acts) = circuit_send_stream_xoff ok f stream
                    in (f, stream'\<lparr>ewma_drain_rate := 0, xoff_grace_period_start_usec := 0\<rparr>,
                        Xoff_outbuf_sample (outbuf_len stream) # acts)
               else (f, stream, []))
         else (f, stream\<lparr>xoff_grace_period_start_usec := 0\<rparr>, []))"

definition flow_control_decide_xoff ::
  "bool \<Rightarrow> bool \<Rightarrow> (circ_id \<Rightarrow> circuit_t) \<Rightarrow> cc_globals \<Rightarrow> u64 \<Rightarrow> u64 \<Rightarrow> u64 \<Rightarrow> u64 \<Rightarrow> flow_globals \<Rightarrow> edge_connection_t \<Rightarrow>
   (int \<times> flow_globals \<times> edge_connection_t \<times> flow_action list) option" where
  "flow_control_decide_xoff ok1 ok2 circs g now t1 t2 t3 f stream =
     (if \<not> edge_uses_flow_control circs stream then Some (- 1, f, stream, [])
      else let (f, stream, acts) = xoff_consider_sending ok1 now f stream
      in if outbuf_len stream > 32 * RELAY_PAYLOAD_SIZE_MIN
         then do {
           (f, stream, acts2) \<leftarrow> flow_control_decide_xon ok2 g t1 t2 t3 f stream 0;
           Some (0, f, stream, acts @ acts2)
         }
         else Some (0, f, stream, acts))"

definition flow_control_note_sent_data :: "edge_connection_t \<Rightarrow> u64 \<Rightarrow> edge_connection_t" where
  "flow_control_note_sent_data stream len =
     (let stream = (if ucast (total_bytes_xmit stream) \<ge> (TOTAL_XMIT_SCALE_AT :: u64) - len
                    then scale_counts stream else stream)
      in stream\<lparr>total_bytes_xmit := ucast (ucast (total_bytes_xmit stream) + len :: u64)\<rparr>)"

end
