(* ===== verification/FlowInv.thy ===== *)
theory FlowInv
  imports FlowControl Vegas
begin

text \<open>
  Properties of XON/XOFF flow control: the range of every counter, agreement of the two ends of a
  stream, and when a message is sent.
\<close>

section \<open>Ranges\<close>

definition flow_ok :: "flow_globals \<Rightarrow> bool" where
  "flow_ok f = (unat (xoff_client f) \<in> {488..4880000} \<and> unat (xoff_exit f) \<in> {488..4880000}
     \<and> unat (xon_rate_bytes f) \<in> {498..2490000} \<and> unat (xon_change_pct f) \<in> {1..99}
     \<and> unat (xon_ewma_cnt f) \<in> {2..100})"

definition stream_ok :: "edge_connection_t \<Rightarrow> bool" where
  "stream_ok s = (unat (ewma_drain_rate s) \<le> 2147483647 \<and> unat (ewma_rate_last_sent s) \<le> 2147483647
     \<and> unat (total_bytes_xmit s) < 10485760 \<and> unat (num_xoff_recv s) \<le> 200 \<and> unat (num_xon_recv s) \<le> 200
     \<and> rw_ok (bucket s))"

lemma unat_of_scaled_param:
  assumes "networkstatus_get_param latest ns name d lo hi = Some v" and "lo < hi" "lo \<le> d" "d \<le> hi"
    and "0 \<le> lo" "0 \<le> k" "hi * k < 4294967296"
  shows "unat (word_of_int (v * k) :: u32) = nat (v * k)" "nat (lo * k) \<le> nat (v * k)" "nat (v * k) \<le> nat (hi * k)"
proof -
  have v: "lo \<le> v" "v \<le> hi" using assms np.get_lower np.get_upper by blast+
  then have k: "lo * k \<le> v * k" "v * k \<le> hi * k" "0 \<le> lo * k" using assms by (simp_all add: mult_right_mono)
  then have "take_bit 32 (v * k) = v * k" using assms(7) by (intro take_bit_int_eq_self) simp_all
  then have "uint (word_of_int (v * k) :: u32) = v * k" by (simp only: uint_word_of_int_eq) simp
  then show "unat (word_of_int (v * k) :: u32) = nat (v * k)" by (simp only: unat_eq_nat_uint)
  show "nat (lo * k) \<le> nat (v * k)" "nat (v * k) \<le> nat (hi * k)" using k by simp_all
qed

lemma flow_params_ok:
  "\<exists>f'. flow_control_new_consensus_params latest ns f = Some f' \<and> flow_ok f'"
proof -
  let ?get = "networkstatus_get_param latest ns"
  obtain xc where xc: "?get ''cc_xoff_client'' 500 1 10000 = Some xc" using np.get_in_range [of 1 10000 500] by force
  obtain xe where xe: "?get ''cc_xoff_exit'' 500 1 10000 = Some xe" using np.get_in_range [of 1 10000 500] by force
  obtain cp where cp: "?get ''cc_xon_change_pct'' 25 1 99 = Some cp" using np.get_in_range [of 1 99 25] by force
  obtain xr where xr: "?get ''cc_xon_rate'' 500 1 5000 = Some xr" using np.get_in_range [of 1 5000 500] by force
  obtain ec where ec: "?get ''cc_xon_ewma_cnt'' 2 2 100 = Some ec" using np.get_in_range [of 2 100 2] by force
  note u = unat_of_scaled_param [OF xc, of 488] unat_of_scaled_param [OF xe, of 488]
    unat_of_scaled_param [OF cp, of 1] unat_of_scaled_param [OF xr, of 498] unat_of_scaled_param [OF ec, of 1]
  show ?thesis
    using u by (simp add: flow_control_new_consensus_params_def xc xe cp xr ec flow_ok_def RELAY_PAYLOAD_SIZE_MAX_def)
qed

lemma u64_div_le: "unat (a div b :: u64) \<le> unat a"
  by (simp add: unat_div)

lemma drain_rate_le: "unat (compute_drain_rate g now s) \<le> 2147483647"
proof -
  let ?b = "prev_drained_bytes s" and ?d = "now - drain_start_usec s"
  have "unat (max 1 (ucast (?b * 1000) div ?d :: u64)) \<le> 2147483647" if "\<not> ?b > 2147483"
  proof -
    have "unat ?b \<le> 2147483" using that by (simp add: word_less_nat_alt)
    then have "unat (?b * 1000) \<le> 2147483000" by (subst unat_mult_nowrap) simp_all
    then show ?thesis using u64_div_le [of "ucast (?b * 1000)" ?d] by (simp add: unat_max_eq)
  qed
  moreover have "unat (ucast w :: u32) \<le> 2147483647" if "unat (w :: u64) \<le> 2147483647" for w
    using that by (simp add: unsigned_ucast_eq take_bit_nat_eq_self)
  ultimately show ?thesis by (simp add: compute_drain_rate_def Let_def)
qed

lemma ewma_u32:
  assumes "unat (a :: u32) \<le> 2147483647" "unat (b :: u32) \<le> 2147483647" "unat (n :: u32) \<in> {2..100}"
  shows "\<exists>e. n_count_ewma (ucast a) (ucast b) (ucast n) = Some e \<and> unat (ucast e :: u32) \<le> 2147483647"
proof -
  have "\<exists>e. n_count_ewma (ucast a) (ucast b) (ucast n) = Some e \<and> unat e \<le> 2147483647"
  proof (cases "b = 0")
    case True
    then show ?thesis using assms by (simp add: n_count_ewma_def)
  next
    case False
    then have "ucast b \<noteq> (0 :: u64)" by (metis unat_ucast_u32_u64 unat_eq_zero)
    then show ?thesis
      using assms n_count_ewma_bounds [of "ucast a" "ucast b" "ucast n"] by fastforce
  qed
  then show ?thesis by (auto simp: unsigned_ucast_eq take_bit_nat_eq_self)
qed

text \<open>What the drain measurement leaves alone.\<close>

definition drain_frame :: "edge_connection_t \<Rightarrow> edge_connection_t \<Rightarrow> bool" where
  "drain_frame s s' = (outbuf_len s' = outbuf_len s \<and> xoff_sent s' = xoff_sent s \<and> xoff_received s' = xoff_received s
     \<and> total_bytes_xmit s' = total_bytes_xmit s \<and> num_xoff_recv s' = num_xoff_recv s
     \<and> num_xon_recv s' = num_xon_recv s \<and> bucket s' = bucket s \<and> ewma_rate_last_sent s' = ewma_rate_last_sent s
     \<and> on_circuit s' = on_circuit s \<and> cpath_layer s' = cpath_layer s \<and> conn_is_ap s' = conn_is_ap s)"

lemma drain_frame_refl [simp]: "drain_frame s s"
  by (simp add: drain_frame_def)

lemma drain_frame_trans: "drain_frame a b \<Longrightarrow> drain_frame b c \<Longrightarrow> drain_frame a c"
  by (simp add: drain_frame_def)

lemma xon_count_frame:
  "drain_frame s (xon_count_drained g t1 t2 s n)"
  "ewma_drain_rate (xon_count_drained g t1 t2 s n) = ewma_drain_rate s"
  by (simp_all add: xon_count_drained_def Let_def drain_frame_def)

lemma xon_update_frame:
  assumes "flow_ok f" "unat (ewma_drain_rate s) \<le> 2147483647"
  shows "\<exists>s'. xon_update_rate g f t3 s = Some s' \<and> drain_frame s s' \<and> unat (ewma_drain_rate s') \<le> 2147483647"
proof -
  have n: "unat (xon_ewma_cnt f) \<in> {2..100}" using assms(1) by (simp add: flow_ok_def)
  define s1 where "s1 = (if prev_drained_bytes s = 0 then s\<lparr>prev_drained_bytes := drained_bytes s\<rparr> else s)"
  have s1: "ewma_drain_rate s1 = ewma_drain_rate s" "drain_frame s s1" by (simp_all add: s1_def drain_frame_def)
  obtain e where e: "n_count_ewma (ucast (compute_drain_rate g t3 s1)) (ucast (ewma_drain_rate s)) (ucast (xon_ewma_cnt f)) = Some e"
      "unat (ucast e :: u32) \<le> 2147483647"
    using ewma_u32 [OF drain_rate_le assms(2) n] by blast
  show ?thesis
    using assms(2) e s1
    unfolding xon_update_rate_def s1_def [symmetric] by (simp add: Let_def drain_frame_def)
qed

lemma xon_queue_empty_frame:
  assumes "unat (ewma_drain_rate s) \<le> 2147483647"
  shows "drain_frame s (xon_queue_empty f s)" "unat (ewma_drain_rate (xon_queue_empty f s)) \<le> 2147483647"
  using assms by (simp_all add: xon_queue_empty_def Let_def drain_frame_def unat_min_eq)

section \<open>The order of the messages\<close>

text \<open>
  The receiver's reading of a sequence of commands: an XOFF is an error while an XOFF is in force,
  an XON is always allowed.
\<close>

fun xoff_run :: "bool \<Rightarrow> int list \<Rightarrow> bool option" where
  "xoff_run st [] = Some st"
| "xoff_run st (c # cs) =
     (if c = RELAY_COMMAND_XOFF then (if st then None else xoff_run True cs)
      else if c = RELAY_COMMAND_XON then xoff_run False cs else None)"

lemma xoff_run_append: "xoff_run st (as @ bs) = Option.bind (xoff_run st as) (\<lambda>st. xoff_run st bs)"
  by (induction as arbitrary: st) auto

fun sent_msgs :: "flow_action list \<Rightarrow> (int \<times> u8 list) list" where
  "sent_msgs [] = []"
| "sent_msgs (Edge_send c p # acts) = (c, p) # sent_msgs acts"
| "sent_msgs (_ # acts) = sent_msgs acts"

lemma sent_msgs_append [simp]: "sent_msgs (as @ bs) = sent_msgs as @ sent_msgs bs"
  by (induction as rule: sent_msgs.induct) simp_all

lemma sent_msgs_ap_event [simp]: "sent_msgs (ap_event s e) = []"
  by (simp add: ap_event_def)

text \<open>A message as it is put on the wire: a version byte, and the rate in an XON.\<close>

definition flow_msg_ok :: "int \<times> u8 list \<Rightarrow> bool" where
  "flow_msg_ok m = (case m of (c, p) \<Rightarrow>
     (c = RELAY_COMMAND_XOFF \<and> xoff_cell_parse p = Inr 0)
     \<or> (c = RELAY_COMMAND_XON \<and> (\<exists>r. xon_cell_parse p = Inr \<lparr>xon_version = 0, kbps_ewma = r\<rparr> \<and> length p = 5
         \<and> unat r \<le> 2147483647)))"

text \<open>What a sending step guarantees.\<close>

definition flow_out ::
  "flow_globals \<Rightarrow> edge_connection_t \<Rightarrow> flow_globals \<Rightarrow> edge_connection_t \<Rightarrow> flow_action list \<Rightarrow> bool" where
  "flow_out f s f' s' acts = ((flow_ok f \<longrightarrow> flow_ok f') \<and> (stream_ok s \<longrightarrow> stream_ok s')
     \<and> xoff_run (xoff_sent s) (map fst (sent_msgs acts)) = Some (xoff_sent s')
     \<and> list_all flow_msg_ok (sent_msgs acts) \<and> outbuf_len s' = outbuf_len s
     \<and> on_circuit s' = on_circuit s \<and> cpath_layer s' = cpath_layer s)"

lemma send_xon_out:
  assumes "stream_ok s" and "circuit_send_stream_xon ok f s = (f', s', acts)"
  shows "flow_out f s f' s' acts" "ok \<Longrightarrow> \<not> xoff_sent s'" "drained_bytes s' = drained_bytes s"
proof -
  let ?x = "\<lparr>xon_version = 0, kbps_ewma = ewma_drain_rate s\<rparr>"
  obtain p where p: "xon_cell_encode CELL_PAYLOAD_SIZE ?x = Inr p" "length p = 5"
    using xon_codec.encode_ok [of ?x CELL_PAYLOAD_SIZE] by auto
  have "xon_cell_parse p = Inr ?x" using xon_codec.parse_encode [OF _ p(1)] by simp
  then show "flow_out f s f' s' acts" "ok \<Longrightarrow> \<not> xoff_sent s'" "drained_bytes s' = drained_bytes s"
    using assms p by (auto simp: circuit_send_stream_xon_def Let_def flow_out_def stream_ok_def flow_ok_def
        flow_msg_ok_def split: if_splits)
qed

lemma send_xoff_out:
  assumes "\<not> xoff_sent s" and "circuit_send_stream_xoff ok f s = (f', s', acts)"
  shows "flow_out f s f' s' acts"
  using assms by (auto simp: circuit_send_stream_xoff_def xoff_cell_encode_def xoff_cell_parse_def take_bytes_def
      flow_out_def stream_ok_def flow_ok_def flow_msg_ok_def split: if_splits)

lemma xon_consider_out:
  assumes "stream_ok s" and "xon_consider_sending ok g f s = (f', s', acts)"
  shows "flow_out f s f' s' acts"
  using assms send_xon_out(1) [OF assms(1), of ok f]
  by (auto simp: xon_consider_sending_def flow_out_def split: if_splits prod.splits)

lemma xoff_consider_out:
  assumes "xoff_consider_sending ok now f s = (f', s', acts)"
  shows "flow_out f s f' s' acts"
  using assms send_xoff_out [of s ok f]
  by (auto simp: xoff_consider_sending_def Let_def flow_out_def stream_ok_def split: if_splits prod.splits)

lemma flow_out_frame:
  assumes "flow_out f s f' s1 acts" "drain_frame s1 s'" "unat (ewma_drain_rate s') \<le> 2147483647"
  shows "flow_out f s f' s' acts"
  using assms by (auto simp: flow_out_def drain_frame_def stream_ok_def)

lemma frame_flow_out:
  assumes "drain_frame s s1" "unat (ewma_drain_rate s1) \<le> 2147483647" "flow_out f s1 f' s' acts"
  shows "flow_out f s f' s' acts"
  using assms by (auto simp: flow_out_def drain_frame_def stream_ok_def)

lemma decide_xon_out:
  assumes "flow_ok f" "stream_ok s"
  shows "\<exists>f' s' acts. flow_control_decide_xon ok g t1 t2 t3 f s n = Some (f', s', acts) \<and> flow_out f s f' s' acts"
proof -
  let ?s1 = "xon_count_drained g t1 t2 s n"
  have e1: "unat (ewma_drain_rate ?s1) \<le> 2147483647" using assms(2) by (simp add: xon_count_frame stream_ok_def)
  obtain s2 where s2: "xon_update_rate g f t3 ?s1 = Some s2" "drain_frame ?s1 s2" "unat (ewma_drain_rate s2) \<le> 2147483647"
    using xon_update_frame [OF assms(1) e1] by blast
  have d: "drain_frame s s2" using xon_count_frame(1) s2(2) by (rule drain_frame_trans)
  then have ok2: "stream_ok s2" using assms(2) s2(3) by (simp add: stream_ok_def drain_frame_def)
  obtain f' s3 acts where s3: "xon_consider_sending ok g f s2 = (f', s3, acts)" by (cases "xon_consider_sending ok g f s2") auto
  have o3: "flow_out f s2 f' s3 acts" using xon_consider_out [OF ok2 s3] .
  then have "stream_ok s3" using ok2 by (simp add: flow_out_def)
  then have e3: "unat (ewma_drain_rate s3) \<le> 2147483647" by (simp add: stream_ok_def)
  have "flow_out f s f' (xon_queue_empty f' s3) acts"
    using flow_out_frame [OF frame_flow_out [OF d s2(3) o3] xon_queue_empty_frame [OF e3]] .
  then show ?thesis by (simp add: flow_control_decide_xon_def s2(1) s3)
qed

lemma flow_out_trans:
  assumes "flow_out f s f1 s1 a1" "flow_out f1 s1 f' s' a2"
  shows "flow_out f s f' s' (a1 @ a2)"
  using assms by (auto simp: flow_out_def xoff_run_append)

lemma decide_xoff_out:
  assumes "flow_ok f" "stream_ok s"
  shows "\<exists>r f' s' acts. flow_control_decide_xoff ok1 ok2 circs g now t1 t2 t3 f s = Some (r, f', s', acts)
    \<and> flow_out f s f' s' acts"
proof (cases "edge_uses_flow_control circs s")
  case False
  then show ?thesis by (simp add: flow_control_decide_xoff_def flow_out_def)
next
  case True
  obtain f1 s1 a1 where s1: "xoff_consider_sending ok1 now f s = (f1, s1, a1)" by (cases "xoff_consider_sending ok1 now f s") auto
  have o1: "flow_out f s f1 s1 a1" using xoff_consider_out [OF s1] .
  then have "flow_ok f1" "stream_ok s1" using assms by (simp_all add: flow_out_def)
  from decide_xon_out [OF this, of ok2 g t1 t2 t3 0] obtain f' s' a2 where
    s': "flow_control_decide_xon ok2 g t1 t2 t3 f1 s1 0 = Some (f', s', a2)" "flow_out f1 s1 f' s' a2" by blast
  show ?thesis using True o1 flow_out_trans [OF o1 s'(2)] by (simp add: flow_control_decide_xoff_def s1 s'(1))
qed

section \<open>The receiving side\<close>

lemma half_u8: "unat (n :: u8) \<le> 200 \<Longrightarrow> unat (n div 2) \<le> 100" and half_u32: "unat (t div 2 :: u32) = unat t div 2"
  by (simp_all add: unat_div)

lemma scale_counts_ok: "stream_ok s \<Longrightarrow> stream_ok (scale_counts s)"
  using half_u8 [of "num_xoff_recv s"] half_u8 [of "num_xon_recv s"]
  by (auto simp: stream_ok_def scale_counts_def half_u32)

lemma bump_u8: "unat (n :: u8) \<le> 200 \<Longrightarrow> n \<noteq> 200 \<Longrightarrow> unat (n + 1) \<le> 200"
proof -
  assume n: "unat n \<le> 200" "n \<noteq> 200"
  then have "unat n \<noteq> 200" by (auto simp: word_unat_eq_iff)
  with n show "unat (n + 1) \<le> 200" by (simp add: unat_Suc_nowrap)
qed

text \<open>The circuit side of a stream that the handlers of XON and XOFF check first.\<close>

definition rcv_ready ::
  "(circ_id \<Rightarrow> circuit_t) \<Rightarrow> (cfx_id \<Rightarrow> conflux_t) \<Rightarrow> nat option \<Rightarrow> edge_connection_t \<Rightarrow> bool" where
  "rcv_ready circs cfxs hop s = (edge_uses_cpath circs cfxs s hop = Some True \<and> edge_uses_flow_control circs s)"

lemma rcv_ready_cong:
  "on_circuit s' = on_circuit s \<Longrightarrow> cpath_layer s' = cpath_layer s \<Longrightarrow> rcv_ready circs cfxs hop s' = rcv_ready circs cfxs hop s"
  by (simp only: rcv_ready_def edge_uses_cpath_def edge_uses_flow_control_def)

lemma bump_xoff_ok:
  assumes "stream_ok s"
  defines "s1 \<equiv> if num_xoff_recv s = 200 then scale_counts s else s"
  shows "stream_ok (s1\<lparr>num_xoff_recv := num_xoff_recv s1 + 1\<rparr>)"
proof -
  have "stream_ok s1" using assms scale_counts_ok by (simp add: s1_def)
  moreover have "unat (num_xoff_recv s1 + 1) \<le> 200"
    using assms bump_u8 [of "num_xoff_recv s"] by (simp add: s1_def stream_ok_def scale_counts_def)
  ultimately show ?thesis by (simp add: stream_ok_def)
qed

lemma bump_xon_ok:
  assumes "stream_ok s"
  defines "s1 \<equiv> if num_xon_recv s = 200 then scale_counts s else s"
  shows "stream_ok (s1\<lparr>num_xon_recv := num_xon_recv s1 + 1\<rparr>)"
proof -
  have "stream_ok s1" using assms scale_counts_ok by (simp add: s1_def)
  moreover have "unat (num_xon_recv s1 + 1) \<le> 200"
    using assms bump_u8 [of "num_xon_recv s"] by (simp add: s1_def stream_ok_def scale_counts_def)
  ultimately show ?thesis by (simp add: stream_ok_def)
qed

lemma scale_counts_frame [simp]:
  "xoff_received (scale_counts s) = xoff_received s" "xoff_sent (scale_counts s) = xoff_sent s"
  "on_circuit (scale_counts s) = on_circuit s" "cpath_layer (scale_counts s) = cpath_layer s"
  "bucket (scale_counts s) = bucket s"
  by (simp_all add: scale_counts_def)

lemma process_xoff_accepts:
  assumes "stream_ok s" "rcv_ready circs cfxs hop s" "\<not> xoff_received s"
  shows "\<exists>s' r acts. circuit_process_stream_xoff f circs cfxs s hop = Some (s', r, Stop_reading # acts)
    \<and> stream_ok s' \<and> rcv_ready circs cfxs hop s' \<and> xoff_received s'"
proof -
  let ?s1 = "if num_xoff_recv s = 200 then scale_counts s else s"
  let ?s2 = "?s1\<lparr>num_xoff_recv := num_xoff_recv ?s1 + 1\<rparr>"
  have "stream_ok (?s2\<lparr>xoff_received := True\<rparr>)"
    using bump_xoff_ok [OF assms(1)] by (simp add: stream_ok_def)
  moreover have "rcv_ready circs cfxs hop (?s2\<lparr>xoff_received := True\<rparr>)"
    using assms(2) by (subst rcv_ready_cong [of _ s]) simp_all
  ultimately show ?thesis
    using assms(2,3) by (simp add: circuit_process_stream_xoff_def rcv_ready_def Let_def)
qed

lemma process_xon_accepts:
  assumes "stream_ok s" "rcv_ready circs cfxs hop s" "xon_cell_parse (msg_payload m) = Inr x"
  shows "\<exists>s' r acts. circuit_process_stream_xon st f circs cfxs s hop m = Some (s', r, acts)
    \<and> stream_ok s' \<and> rcv_ready circs cfxs hop s' \<and> \<not> xoff_received s'
    \<and> (xoff_received s \<longrightarrow> Start_reading \<in> set acts)"
proof -
  define s1 where "s1 = (if num_xon_recv s = 200 then scale_counts s else s)"
  define s2 where "s2 = s1\<lparr>num_xon_recv := num_xon_recv s1 + 1\<rparr>"
  define w where "w = (ucast (kbps_ewma x) * 1000 :: u64)"
  define r where "r = (ucast (if w = 0 \<or> 2147483647 < w then 2147483647 else w) :: u32)"
  define s3 where "s3 = s2\<lparr>bucket := token_bucket_rw_adjust st (bucket s2) r r\<rparr>"
  have f1: "xoff_received s1 = xoff_received s" "on_circuit s1 = on_circuit s" "cpath_layer s1 = cpath_layer s"
    by (simp_all add: s1_def)
  then have f3: "xoff_received s3 = xoff_received s" "on_circuit s3 = on_circuit s" "cpath_layer s3 = cpath_layer s"
    by (simp_all add: s3_def s2_def)
  have "stream_ok s2" using bump_xon_ok [OF assms(1)] by (simp add: s2_def s1_def)
  then have ok: "stream_ok s3" by (simp add: s3_def stream_ok_def rw_adjust_ok)
  have rdy: "rcv_ready circs cfxs hop s3" using assms(2) f3 by (subst rcv_ready_cong [of _ s])
  have "\<exists>v. circuit_process_stream_xon st f circs cfxs s hop m =
      Some (if xoff_received s then s3\<lparr>xoff_received := False\<rparr> else s3, v,
        (if xoff_received s then [Start_reading] else []) @ ap_event s3 STREAM_EVENT_XON_RECV)"
    using assms(2,3) f1(1) f3(1) unfolding circuit_process_stream_xon_def rcv_ready_def
    by (simp add: Let_def ap_event_def flip: s1_def s2_def w_def r_def s3_def)
  then show ?thesis
    using ok rdy f3(1) rcv_ready_cong [of "s3\<lparr>xoff_received := False\<rparr>" s3] by (fastforce simp: stream_ok_def)
qed

lemma note_sent_ok:
  assumes "stream_ok s" "unat len \<le> 498"
  shows "stream_ok (flow_control_note_sent_data s len)"
proof -
  let ?s1 = "if ucast (total_bytes_xmit s) \<ge> (TOTAL_XMIT_SCALE_AT :: u64) - len then scale_counts s else s"
  have d: "unat ((TOTAL_XMIT_SCALE_AT :: u64) - len) = 10485760 - unat len" using assms(2) by (subst unat_sub_nowrap) simp_all
  have "unat (total_bytes_xmit ?s1) + unat len < 10485760"
    using assms d by (auto simp: word_le_nat_alt stream_ok_def scale_counts_def half_u32)
  then have "unat (ucast (ucast (total_bytes_xmit ?s1) + len :: u64) :: u32) < 10485760"
    by (simp add: unsigned_ucast_eq unat_add_nowrap take_bit_nat_eq_self)
  moreover have "stream_ok ?s1" using assms scale_counts_ok by simp
  ultimately show ?thesis by (simp add: flow_control_note_sent_data_def Let_def stream_ok_def)
qed

section \<open>The two ends of a stream\<close>

text \<open>
  One direction of flow control.  \<open>tx\<close> buffers data for its socket and sends XON and XOFF;
  \<open>rx\<close> is the other end of the stream, which obeys them; \<open>wire\<close> holds the messages under way, in
  order, since both commands are multiplexed and conflux delivers in order.
\<close>

record flow_sys =
  tx_flow :: flow_globals
  tx :: edge_connection_t
  wire :: "(int \<times> u8 list) list"
  rx :: edge_connection_t

definition xon_msg :: "u8 list \<Rightarrow> relay_msg_t" where
  "xon_msg p = \<lparr>rm_command = RELAY_COMMAND_XON, rm_length = of_nat (length p), rm_stream_id = 1,
                rm_is_relay_early = False, rm_body = p\<rparr>"

inductive flow_step ::
  "flow_globals \<Rightarrow> (circ_id \<Rightarrow> circuit_t) \<Rightarrow> (cfx_id \<Rightarrow> conflux_t) \<Rightarrow> nat option \<Rightarrow> flow_sys \<Rightarrow> flow_sys \<Rightarrow> bool"
  for rf rcircs rcfxs hop where
  outbuf: "flow_step rf rcircs rcfxs hop y (y\<lparr>tx := (tx y)\<lparr>outbuf_len := n\<rparr>\<rparr>)"
| data: "flow_control_decide_xoff ok1 ok2 circs g now t1 t2 t3 (tx_flow y) (tx y) = Some (r, f', s', acts) \<Longrightarrow>
    flow_step rf rcircs rcfxs hop y (y\<lparr>tx_flow := f', tx := s', wire := wire y @ sent_msgs acts\<rparr>)"
| drain: "flow_control_decide_xon ok g t1 t2 t3 (tx_flow y) (tx y) n = Some (f', s', acts) \<Longrightarrow>
    flow_step rf rcircs rcfxs hop y (y\<lparr>tx_flow := f', tx := s', wire := wire y @ sent_msgs acts\<rparr>)"
| package: "unat len \<le> 498 \<Longrightarrow>
    flow_step rf rcircs rcfxs hop y (y\<lparr>rx := flow_control_note_sent_data (rx y) len\<rparr>)"
| xoff: "wire y = (RELAY_COMMAND_XOFF, p) # ws \<Longrightarrow>
    circuit_process_stream_xoff rf rcircs rcfxs (rx y) hop = Some (s', r, acts) \<Longrightarrow>
    flow_step rf rcircs rcfxs hop y (y\<lparr>wire := ws, rx := s'\<rparr>)"
| xon: "wire y = (RELAY_COMMAND_XON, p) # ws \<Longrightarrow>
    circuit_process_stream_xon st rf rcircs rcfxs (rx y) hop (xon_msg p) = Some (s', r, acts) \<Longrightarrow>
    flow_step rf rcircs rcfxs hop y (y\<lparr>wire := ws, rx := s'\<rparr>)"

inductive flow_reachable ::
  "flow_globals \<Rightarrow> (circ_id \<Rightarrow> circuit_t) \<Rightarrow> (cfx_id \<Rightarrow> conflux_t) \<Rightarrow> nat option \<Rightarrow> flow_sys \<Rightarrow> flow_sys \<Rightarrow> bool"
  for rf rcircs rcfxs hop y0 where
  start: "flow_reachable rf rcircs rcfxs hop y0 y0"
| next_step: "flow_reachable rf rcircs rcfxs hop y0 y \<Longrightarrow> flow_step rf rcircs rcfxs hop y y' \<Longrightarrow>
    flow_reachable rf rcircs rcfxs hop y0 y'"

definition flow_inv :: "(circ_id \<Rightarrow> circuit_t) \<Rightarrow> (cfx_id \<Rightarrow> conflux_t) \<Rightarrow> nat option \<Rightarrow> flow_sys \<Rightarrow> bool" where
  "flow_inv rcircs rcfxs hop y = (flow_ok (tx_flow y) \<and> stream_ok (tx y) \<and> stream_ok (rx y)
     \<and> rcv_ready rcircs rcfxs hop (rx y) \<and> list_all flow_msg_ok (wire y)
     \<and> xoff_run (xoff_received (rx y)) (map fst (wire y)) = Some (xoff_sent (tx y)))"

definition flow_start :: "(circ_id \<Rightarrow> circuit_t) \<Rightarrow> (cfx_id \<Rightarrow> conflux_t) \<Rightarrow> nat option \<Rightarrow> flow_sys \<Rightarrow> bool" where
  "flow_start rcircs rcfxs hop y = (flow_ok (tx_flow y) \<and> stream_ok (tx y) \<and> stream_ok (rx y)
     \<and> rcv_ready rcircs rcfxs hop (rx y) \<and> wire y = [] \<and> \<not> xoff_sent (tx y) \<and> \<not> xoff_received (rx y))"

lemma send_keeps_inv:
  assumes "flow_inv rcircs rcfxs hop y" "flow_out (tx_flow y) (tx y) f' s' acts"
  shows "flow_inv rcircs rcfxs hop (y\<lparr>tx_flow := f', tx := s', wire := wire y @ sent_msgs acts\<rparr>)"
  using assms by (auto simp: flow_inv_def flow_out_def xoff_run_append)

lemma note_sent_frame:
  "xoff_received (flow_control_note_sent_data s len) = xoff_received s"
  "on_circuit (flow_control_note_sent_data s len) = on_circuit s"
  "cpath_layer (flow_control_note_sent_data s len) = cpath_layer s"
  by (simp_all add: flow_control_note_sent_data_def Let_def)

text \<open>The message at the head of the wire, read by the receiver.\<close>

lemma wire_xoff:
  assumes "flow_inv rcircs rcfxs hop y" "wire y = (RELAY_COMMAND_XOFF, p) # ws"
  shows "\<exists>s' r acts. circuit_process_stream_xoff rf rcircs rcfxs (rx y) hop = Some (s', r, Stop_reading # acts)
    \<and> flow_inv rcircs rcfxs hop (y\<lparr>wire := ws, rx := s'\<rparr>)"
proof -
  have "\<not> xoff_received (rx y)" and w: "xoff_run True (map fst ws) = Some (xoff_sent (tx y))"
    using assms by (auto simp: flow_inv_def split: if_splits)
  then show ?thesis
    using process_xoff_accepts [of "rx y" rcircs rcfxs hop rf] assms by (fastforce simp: flow_inv_def)
qed

lemma msg_payload_xon: "length p = 5 \<Longrightarrow> msg_payload (xon_msg p) = p"
  by (simp add: msg_payload_def xon_msg_def)

lemma wire_xon:
  assumes "flow_inv rcircs rcfxs hop y" "wire y = (RELAY_COMMAND_XON, p) # ws"
  shows "\<exists>s' r acts. circuit_process_stream_xon st rf rcircs rcfxs (rx y) hop (xon_msg p) = Some (s', r, acts)
    \<and> flow_inv rcircs rcfxs hop (y\<lparr>wire := ws, rx := s'\<rparr>) \<and> \<not> xoff_received s'"
proof -
  obtain x where x: "xon_cell_parse p = Inr x" "length p = 5" using assms by (auto simp: flow_inv_def flow_msg_ok_def)
  have w: "xoff_run False (map fst ws) = Some (xoff_sent (tx y))" using assms by (auto simp: flow_inv_def)
  show ?thesis
    using process_xon_accepts [of "rx y" rcircs rcfxs hop "xon_msg p" x st rf] assms w x
    by (fastforce simp: flow_inv_def msg_payload_xon)
qed

lemma flow_step_inv:
  assumes "flow_step rf rcircs rcfxs hop y y'" "flow_inv rcircs rcfxs hop y"
  shows "flow_inv rcircs rcfxs hop y'"
  using assms(1)
proof cases
  case (outbuf n)
  then show ?thesis using assms(2) by (simp add: flow_inv_def stream_ok_def)
next
  case (data ok1 ok2 circs g now t1 t2 t3 r f' s' acts)
  then show ?thesis
    using assms(2) send_keeps_inv [OF assms(2)] decide_xoff_out [of "tx_flow y" "tx y" ok1 ok2 circs g now t1 t2 t3]
    by (auto simp: flow_inv_def)
next
  case (drain ok g t1 t2 t3 n f' s' acts)
  then show ?thesis
    using assms(2) send_keeps_inv [OF assms(2)] decide_xon_out [of "tx_flow y" "tx y" ok g t1 t2 t3 n]
    by (auto simp: flow_inv_def)
next
  case (package len)
  then show ?thesis
    using assms(2) note_sent_ok [of "rx y" len] rcv_ready_cong [OF note_sent_frame(2,3), of rcircs rcfxs hop "rx y" len]
    by (simp add: flow_inv_def note_sent_frame)
next
  case (xoff p ws s' r acts)
  then show ?thesis using wire_xoff [OF assms(2) xoff(2), of rf] by auto
next
  case (xon p ws st s' r acts)
  then show ?thesis using wire_xon [OF assms(2) xon(2), of st rf] by auto
qed

lemma flow_reachable_inv:
  assumes "flow_reachable rf rcircs rcfxs hop y0 y" "flow_start rcircs rcfxs hop y0"
  shows "flow_inv rcircs rcfxs hop y"
  using assms
proof induction
  case start
  then show ?case by (simp add: flow_start_def flow_inv_def)
next
  case (next_step y y')
  then show ?case using flow_step_inv by blast
qed

section \<open>Properties\<close>

lemma decide_xon_lifts:
  assumes "flow_ok f" "stream_ok s" "xoff_sent s" "outbuf_len s = 0"
  shows "\<exists>f' s' acts. flow_control_decide_xon True g t1 t2 t3 f s n = Some (f', s', acts) \<and> \<not> xoff_sent s'"
proof -
  let ?s1 = "xon_count_drained g t1 t2 s n"
  have e1: "unat (ewma_drain_rate ?s1) \<le> 2147483647" using assms(2) by (simp add: xon_count_frame stream_ok_def)
  obtain s2 where s2: "xon_update_rate g f t3 ?s1 = Some s2" "drain_frame ?s1 s2" "unat (ewma_drain_rate s2) \<le> 2147483647"
    using xon_update_frame [OF assms(1) e1] by blast
  have d: "drain_frame s s2" using xon_count_frame(1) s2(2) by (rule drain_frame_trans)
  then have ok2: "stream_ok s2" "xoff_sent s2" "outbuf_len s2 = 0"
    using assms s2(3) by (simp_all add: stream_ok_def drain_frame_def)
  obtain f' s3 acts where s3: "circuit_send_stream_xon True f s2 = (f', s3, acts)"
    by (cases "circuit_send_stream_xon True f s2") auto
  have "\<not> xoff_sent s3" "stream_ok s3" using send_xon_out [OF ok2(1) s3] ok2(1) by (simp_all add: flow_out_def)
  then have "\<not> xoff_sent (xon_queue_empty f' s3)"
    using xon_queue_empty_frame(1) [of s3 f'] by (simp add: stream_ok_def drain_frame_def)
  then show ?thesis using ok2 s3 by (simp add: flow_control_decide_xon_def s2(1) xon_consider_sending_def)
qed

lemma wire_delivers:
  assumes "flow_inv rcircs rcfxs hop y"
  shows "\<exists>y'. (flow_step rf rcircs rcfxs hop)\<^sup>*\<^sup>* y y' \<and> wire y' = [] \<and> tx y' = tx y \<and> flow_inv rcircs rcfxs hop y'"
  using assms
proof (induction "wire y" arbitrary: y)
  case Nil
  then show ?case by (intro exI [of _ y]) simp
next
  case (Cons m ws)
  obtain c p where m: "m = (c, p)" by (cases m)
  have "c = RELAY_COMMAND_XOFF \<or> c = RELAY_COMMAND_XON"
    using Cons by (auto simp: m flow_inv_def flow_msg_ok_def dest: sym)
  then obtain s' where s': "flow_step rf rcircs rcfxs hop y (y\<lparr>wire := ws, rx := s'\<rparr>)"
      "flow_inv rcircs rcfxs hop (y\<lparr>wire := ws, rx := s'\<rparr>)"
    using wire_xoff [OF Cons(3), of p ws rf] wire_xon [OF Cons(3), of p ws 1000 rf] Cons(2)
    by (auto simp: m dest!: sym [of "_ # _"] intro: flow_step.intros)
  with Cons(1) [of "y\<lparr>wire := ws, rx := s'\<rparr>"] show ?case
    by (auto intro: converse_rtranclp_into_rtranclp)
qed

text \<open>
  C26: The two ends of a stream agree on flow control.  In every reachable state an XOFF that
  arrives is accepted (never refused as a second one) and stops reading, an XON that arrives parses
  and is accepted, and once nothing is under way the receiver has stopped exactly when the sender
  has an XOFF outstanding.
\<close>

theorem flow_control_endpoints_agree:
  assumes "flow_reachable rf rcircs rcfxs hop y0 y" and "flow_start rcircs rcfxs hop y0"
  shows "(\<forall>p ws. wire y = (RELAY_COMMAND_XOFF, p) # ws \<longrightarrow>
           (\<exists>s' r acts. circuit_process_stream_xoff rf rcircs rcfxs (rx y) hop = Some (s', r, Stop_reading # acts)
              \<and> xoff_received s'))
    \<and> (\<forall>p ws. wire y = (RELAY_COMMAND_XON, p) # ws \<longrightarrow>
           (\<exists>s' r acts. circuit_process_stream_xon st rf rcircs rcfxs (rx y) hop (xon_msg p) = Some (s', r, acts)
              \<and> \<not> xoff_received s'))
    \<and> (wire y = [] \<longrightarrow> xoff_received (rx y) = xoff_sent (tx y))"
proof (intro conjI allI impI)
  note inv = flow_reachable_inv [OF assms]
  {
    fix p ws assume w: "wire y = (RELAY_COMMAND_XOFF, p) # ws"
    then have "\<not> xoff_received (rx y)" using inv by (auto simp: flow_inv_def split: if_splits)
    then show "\<exists>s' r acts. circuit_process_stream_xoff rf rcircs rcfxs (rx y) hop = Some (s', r, Stop_reading # acts)
        \<and> xoff_received s'"
      using inv process_xoff_accepts [of "rx y" rcircs rcfxs hop rf] by (auto simp: flow_inv_def)
  next
    fix p ws assume "wire y = (RELAY_COMMAND_XON, p) # ws"
    from wire_xon [OF inv this] show "\<exists>s' r acts.
        circuit_process_stream_xon st rf rcircs rcfxs (rx y) hop (xon_msg p) = Some (s', r, acts) \<and> \<not> xoff_received s'"
      by blast
  next
    assume "wire y = []"
    then show "xoff_received (rx y) = xoff_sent (tx y)" using inv by (auto simp: flow_inv_def)
  }
qed

text \<open>
  C27: An XOFF is always lifted: from every reachable state of a stream there is a run in which the
  sender's buffer drains, every message is delivered and the receiver reads again.
\<close>

theorem xoff_always_lifted:
  assumes "flow_reachable rf rcircs rcfxs hop y0 y" and "flow_start rcircs rcfxs hop y0"
  shows "\<exists>y'. (flow_step rf rcircs rcfxs hop)\<^sup>*\<^sup>* y y' \<and> wire y' = [] \<and> \<not> xoff_sent (tx y') \<and> \<not> xoff_received (rx y')"
proof -
  note inv = flow_reachable_inv [OF assms]
  let ?y1 = "y\<lparr>tx := (tx y)\<lparr>outbuf_len := 0\<rparr>\<rparr>"
  have s1: "flow_step rf rcircs rcfxs hop y ?y1" by (rule flow_step.outbuf)
  then have inv1: "flow_inv rcircs rcfxs hop ?y1" using inv flow_step_inv by blast
  have "\<exists>y2. (flow_step rf rcircs rcfxs hop)\<^sup>*\<^sup>* ?y1 y2 \<and> \<not> xoff_sent (tx y2) \<and> flow_inv rcircs rcfxs hop y2"
  proof (cases "xoff_sent (tx y)")
    case True
    then obtain f' s' acts where d: "flow_control_decide_xon True undefined 0 0 0 (tx_flow ?y1) (tx ?y1) 0 = Some (f', s', acts)"
        "\<not> xoff_sent s'"
      using decide_xon_lifts [of "tx_flow ?y1" "tx ?y1" undefined 0 0 0 0] inv1 by (auto simp: flow_inv_def)
    note st = flow_step.drain [OF d(1), of rf rcircs rcfxs hop]
    from flow_step_inv [OF st inv1] st d(2) show ?thesis by (intro exI conjI) (rule r_into_rtranclp, assumption, simp_all)
  next
    case False
    then show ?thesis using inv1 by (intro exI [of _ ?y1]) simp
  qed
  then obtain y2 where y2: "(flow_step rf rcircs rcfxs hop)\<^sup>*\<^sup>* ?y1 y2" "\<not> xoff_sent (tx y2)" "flow_inv rcircs rcfxs hop y2" by blast
  from wire_delivers [OF y2(3), of rf] obtain y' where
    y': "(flow_step rf rcircs rcfxs hop)\<^sup>*\<^sup>* y2 y'" "wire y' = []" "tx y' = tx y2" "flow_inv rcircs rcfxs hop y'" by blast
  have "(flow_step rf rcircs rcfxs hop)\<^sup>*\<^sup>* y y'" using s1 y2(1) y'(1) by (meson converse_rtranclp_into_rtranclp rtranclp_trans)
  moreover have "\<not> xoff_received (rx y')" using y'(2-4) y2(2) by (auto simp: flow_inv_def)
  ultimately show ?thesis using y' y2(2) by auto
qed

text \<open>
  The client's check against fake XOFF messages is exact: with the limits of any consensus the
  product of limit and count does not wrap, so a valid XOFF is refused as protocol data exactly
  when the bytes sent cannot explain the number of XOFFs counted.
\<close>

theorem xoff_dropmark_check_exact:
  assumes "flow_control_new_consensus_params latest ns f0 = Some f" and "stream_ok s"
    and "circuit_process_stream_xoff f circs cfxs s hop = Some (s', r, Stop_reading # acts)"
    and "conn_is_ap s" and "\<not> has_hs_ident s"
  shows "r = (unat (xoff_exit f) * unat (num_xoff_recv s') \<le> unat (total_bytes_xmit s')) \<and> stream_ok s'"
proof -
  define s1 where "s1 = (if num_xoff_recv s = 200 then scale_counts s else s)"
  define s2 where "s2 = s1\<lparr>num_xoff_recv := num_xoff_recv s1 + 1\<rparr>"
  have "conn_is_ap s1 = conn_is_ap s" "has_hs_ident s1 = has_hs_ident s" by (simp_all add: s1_def scale_counts_def)
  then have k: "conn_is_ap s1" "\<not> has_hs_ident s1" "conn_is_ap s2" "\<not> has_hs_ident s2" using assms(4,5) by (simp_all add: s2_def)
  have f: "unat (xoff_exit f) \<le> 4880000" using flow_params_ok [of latest ns f0] assms(1) by (auto simp: flow_ok_def)
  have ok: "stream_ok s2" using bump_xoff_ok [OF assms(2)] by (simp add: s2_def s1_def)
  have pre: "edge_uses_cpath circs cfxs s hop = Some True" "edge_uses_flow_control circs s" "\<not> xoff_received s"
    using assms(3) unfolding circuit_process_stream_xoff_def by (auto simp: bind_eq_Some_iff Let_def split: if_splits)
  have "circuit_process_stream_xoff f circs cfxs s hop =
      Some (s2\<lparr>xoff_received := True\<rparr>, \<not> total_bytes_xmit s2 < xoff_exit f * ucast (num_xoff_recv s2),
        Stop_reading # ap_event s2 STREAM_EVENT_XOFF_RECV)"
    using pre k unfolding circuit_process_stream_xoff_def by (simp add: Let_def flip: s1_def s2_def)
  then have s': "s' = s2\<lparr>xoff_received := True\<rparr>" and r: "r = (\<not> total_bytes_xmit s2 < xoff_exit f * ucast (num_xoff_recv s2))"
    using assms(3) by simp_all
  have u: "unat (ucast (num_xoff_recv s2) :: u32) = unat (num_xoff_recv s2)" by (simp add: unat_ucast_up)
  have "unat (xoff_exit f) * unat (num_xoff_recv s2) \<le> 4880000 * 200"
    using f ok by (intro mult_le_mono) (simp_all add: stream_ok_def)
  then have "unat (xoff_exit f * ucast (num_xoff_recv s2)) = unat (xoff_exit f) * unat (num_xoff_recv s2)"
    by (subst unat_mult_nowrap) (simp_all add: u)
  then show ?thesis using s' r ok by (simp add: word_less_nat_alt not_less stream_ok_def)
qed

section \<open>A stream at work\<close>

definition demo_edge :: "bool \<Rightarrow> edge_connection_t" where
  "demo_edge ap = \<lparr>conn_is_ap = ap, outbuf_len = 0, e_package_window = 500, e_deliver_window = 500,
     on_circuit = Some 1, cpath_layer = None, has_hs_ident = False,
     bucket = token_bucket_rw_init 1000 1000 1000 0, drain_start_usec = 0, xoff_grace_period_start_usec = 0,
     drained_bytes = 0, prev_drained_bytes = 0, ewma_drain_rate = 0, ewma_rate_last_sent = 0, total_bytes_xmit = 0,
     num_xoff_recv = 0, num_xon_recv = 0, xoff_sent = False, xoff_received = False\<rparr>"

definition demo_edge_circ :: circuit_t where
  "demo_edge_circ = exit_circ\<lparr>c_ccontrol := Some cc_zero\<rparr>"

definition demo_flow :: flow_globals where
  "demo_flow = \<lparr>xoff_client = 244000, xoff_exit = 244000, xon_change_pct = 25, xon_ewma_cnt = 2,
     xon_rate_bytes = 249000, flow_num_xoff_sent = 0, flow_num_xon_sent = 0\<rparr>"

text \<open>The sender has buffered too much for longer than the grace period and sends an XOFF.\<close>

definition demo_flow_sys :: flow_sys where
  "demo_flow_sys = \<lparr>tx_flow = demo_flow,
     tx = (demo_edge True)\<lparr>outbuf_len := 300000, xoff_grace_period_start_usec := 1\<rparr>, wire = [], rx = demo_edge False\<rparr>"

lemma demo_edge_ok: "stream_ok (demo_edge ap)"
  by (simp add: demo_edge_def stream_ok_def rw_init_ok)

lemma demo_flow_start: "flow_start (\<lambda>_. demo_edge_circ) (\<lambda>_. undefined) None demo_flow_sys"
  using demo_edge_ok [of True] demo_edge_ok [of False]
  by (simp add: flow_start_def demo_flow_sys_def stream_ok_def flow_ok_def demo_flow_def rcv_ready_def edge_uses_cpath_def
      edge_uses_flow_control_def demo_edge_circ_def exit_circ_def) (simp add: demo_edge_def)

lemma demo_flow_xoff:
  "\<exists>f' s' acts. flow_control_decide_xoff True True (\<lambda>_. demo_edge_circ) demo_globals 5002 0 0 0 demo_flow (tx demo_flow_sys) = Some (0, f', s', acts)
    \<and> sent_msgs acts = [(RELAY_COMMAND_XOFF, [0])]"
  by (simp add: flow_control_decide_xoff_def demo_flow_sys_def edge_uses_flow_control_def demo_edge_def demo_edge_circ_def exit_circ_def
      xoff_consider_sending_def demo_flow_def circuit_send_stream_xoff_def xoff_cell_encode_def ap_event_def
      flow_control_decide_xon_def xon_update_rate_def xon_count_drained_def Let_def is_monotime_clock_reliable_def demo_globals_def
      xon_consider_sending_def xon_queue_empty_def)

theorem flow_control_endpoints_agree_witness:
  "\<exists>y s' r acts. flow_reachable demo_flow (\<lambda>_. demo_edge_circ) (\<lambda>_. undefined) None demo_flow_sys y
    \<and> wire y = [(RELAY_COMMAND_XOFF, [0])]
    \<and> circuit_process_stream_xoff demo_flow (\<lambda>_. demo_edge_circ) (\<lambda>_. undefined) (rx y) None = Some (s', r, Stop_reading # acts)
    \<and> xoff_received s'"
proof -
  obtain f' s' acts where x: "flow_control_decide_xoff True True (\<lambda>_. demo_edge_circ) demo_globals 5002 0 0 0
      (tx_flow demo_flow_sys) (tx demo_flow_sys) = Some (0, f', s', acts)" "sent_msgs acts = [(RELAY_COMMAND_XOFF, [0])]"
    using demo_flow_xoff by (auto simp: demo_flow_sys_def)
  let ?y = "demo_flow_sys\<lparr>tx_flow := f', tx := s', wire := wire demo_flow_sys @ sent_msgs acts\<rparr>"
  have r: "flow_reachable demo_flow (\<lambda>_. demo_edge_circ) (\<lambda>_. undefined) None demo_flow_sys ?y"
    by (rule flow_reachable.next_step [OF flow_reachable.start flow_step.data [OF x(1)]])
  have w: "wire ?y = [(RELAY_COMMAND_XOFF, [0])]" by (simp add: x(2) demo_flow_sys_def)
  from flow_control_endpoints_agree [OF r demo_flow_start, of 1000] r w show ?thesis by blast
qed

theorem xoff_always_lifted_witness:
  "\<exists>y y'. flow_reachable demo_flow (\<lambda>_. demo_edge_circ) (\<lambda>_. undefined) None demo_flow_sys y \<and> xoff_sent (tx y)
    \<and> (flow_step demo_flow (\<lambda>_. demo_edge_circ) (\<lambda>_. undefined) None)\<^sup>*\<^sup>* y y' \<and> wire y' = [] \<and> \<not> xoff_received (rx y')"
proof -
  obtain f' s' acts where x: "flow_control_decide_xoff True True (\<lambda>_. demo_edge_circ) demo_globals 5002 0 0 0
      (tx_flow demo_flow_sys) (tx demo_flow_sys) = Some (0, f', s', acts)" "sent_msgs acts = [(RELAY_COMMAND_XOFF, [0])]"
    using demo_flow_xoff by (auto simp: demo_flow_sys_def)
  let ?y = "demo_flow_sys\<lparr>tx_flow := f', tx := s', wire := wire demo_flow_sys @ sent_msgs acts\<rparr>"
  have r: "flow_reachable demo_flow (\<lambda>_. demo_edge_circ) (\<lambda>_. undefined) None demo_flow_sys ?y"
    by (rule flow_reachable.next_step [OF flow_reachable.start flow_step.data [OF x(1)]])
  have "xoff_sent (tx ?y)"
    using flow_reachable_inv [OF r demo_flow_start] x(2) by (simp add: flow_inv_def demo_flow_sys_def demo_edge_def)
  with xoff_always_lifted [OF r demo_flow_start] r show ?thesis by blast
qed

theorem xoff_dropmark_check_exact_witness:
  "\<exists>f s' acts. flow_control_new_consensus_params None None demo_flow = Some f
    \<and> circuit_process_stream_xoff f (\<lambda>_. demo_edge_circ) (\<lambda>_. undefined) (demo_edge True) None = Some (s', False, Stop_reading # acts)
    \<and> unat (num_xoff_recv s') = 1"
proof -
  let ?f = "demo_flow"
  have f: "flow_control_new_consensus_params None None demo_flow = Some ?f"
    by (simp add: flow_control_new_consensus_params_def networkstatus_get_param_def demo_flow_def RELAY_PAYLOAD_SIZE_MAX_def)
  have rdy: "rcv_ready (\<lambda>_. demo_edge_circ) (\<lambda>_. undefined) None (demo_edge True)"
    by (simp add: rcv_ready_def edge_uses_cpath_def edge_uses_flow_control_def demo_edge_circ_def exit_circ_def demo_edge_def)
  obtain s' r acts where x: "circuit_process_stream_xoff ?f (\<lambda>_. demo_edge_circ) (\<lambda>_. undefined) (demo_edge True) None
      = Some (s', r, Stop_reading # acts)"
    using process_xoff_accepts [OF demo_edge_ok rdy, of ?f] by (auto simp: demo_edge_def)
  then have n: "unat (num_xoff_recv s') = 1" "unat (total_bytes_xmit s') = 0"
    using rdy by (auto simp: circuit_process_stream_xoff_def rcv_ready_def demo_edge_def Let_def scale_counts_def)
  have "r = False"
    using xoff_dropmark_check_exact [OF f demo_edge_ok x] n by (simp add: demo_edge_def demo_flow_def)
  with f x n show ?thesis by blast
qed

end
