(* ===== verification/Sendme.thy ===== *)
theory Sendme
  imports FlowControl CcDispatch
begin

text \<open>
  \<^verbatim>\<open>core/or/sendme.c\<close>: circuit-level and stream-level SENDMEs.  A SENDME acknowledges a fixed
  number of DATA cells; version 1 proves that its sender has seen the last of them by carrying that
  cell's tag.  The codec is \<^verbatim>\<open>trunnel/sendme_cell.c\<close>.
\<close>

section \<open>The cell\<close>

record sendme_cell_t =
  sm_version :: u8
  sm_data_len :: u16
  sm_digest :: "u8 list"

definition sendme_cell_check :: "sendme_cell_t \<Rightarrow> bool" where
  "sendme_cell_check obj = ((sm_version obj = 0 \<or> sm_version obj = 1) \<and> (sm_data_len obj = 16 \<or> sm_data_len obj = 20))"

text \<open>The encoder writes the length of what follows over the length field it has written.\<close>

definition sendme_cell_encode :: "nat \<Rightarrow> sendme_cell_t \<Rightarrow> trunnel_error + u8 list" where
  "sendme_cell_encode avail obj =
     (if \<not> sendme_cell_check obj then Inl Trunnel_fail
      else if avail < 1 then Inl Trunnel_truncated
      else if avail - 1 < 2 then Inl Trunnel_truncated
      else let body = (if sm_version obj = 0 then [] else sm_digest obj)
      in if avail - 3 < length body then Inl Trunnel_truncated
         else if length body > 65535 then Inl Trunnel_fail
         else Inr (sm_version obj # be_encode 2 (length body) @ body))"

definition sendme_cell_parse :: "u8 list \<Rightarrow> trunnel_error + sendme_cell_t" where
  "sendme_cell_parse input =
     sum_bind (take_bytes 1 input) (\<lambda>(v, r1).
       if \<not> (hd v = 0 \<or> hd v = 1) then Inl Trunnel_fail
       else sum_bind (take_bytes 2 r1) (\<lambda>(l, r2).
         let data_len = of_nat (be_decode l) :: u16
         in if \<not> (data_len = 16 \<or> data_len = 20) then Inl Trunnel_fail
            else sum_bind (take_bytes (unat data_len) r2) (\<lambda>(d, r3).
              Inr \<lparr>sm_version = hd v, sm_data_len = data_len, sm_digest = (if hd v = 0 then [] else d)\<rparr>)))"

section \<open>Versions and tags\<close>

abbreviation "SENDME_TAG_LEN_TOR1 \<equiv> 20 :: nat"
abbreviation "SENDME_TAG_LEN_CGO \<equiv> 16 :: nat"
abbreviation "SENDME_MAX_SUPPORTED_VERSION \<equiv> 1 :: int"
abbreviation "CIRCWINDOW_START \<equiv> 1000 :: int"
abbreviation "CIRCWINDOW_START_MAX \<equiv> 1000 :: int"
abbreviation "CIRCWINDOW_INCREMENT \<equiv> 100 :: int"
abbreviation "STREAMWINDOW_START \<equiv> 500 :: int"
abbreviation "STREAMWINDOW_START_MAX \<equiv> 500 :: int"
abbreviation "STREAMWINDOW_INCREMENT \<equiv> 50 :: int"
abbreviation "RELAY_COMMAND_SENDME \<equiv> 5 :: int"

definition tag_len_ok :: "nat \<Rightarrow> bool" where
  "tag_len_ok tag_len = (tag_len = SENDME_TAG_LEN_CGO \<or> tag_len = SENDME_TAG_LEN_TOR1)"

definition get_emit_min_version :: "networkstatus option \<Rightarrow> int option" where
  "get_emit_min_version latest = networkstatus_get_param latest None ''sendme_emit_min_version'' 1 0 255"

definition get_accept_min_version :: "networkstatus option \<Rightarrow> int option" where
  "get_accept_min_version latest = networkstatus_get_param latest None ''sendme_accept_min_version'' 0 0 255"

definition relay_crypto_sendme_tag_len :: "relay_crypto_t \<Rightarrow> nat" where
  "relay_crypto_sendme_tag_len rc = (case rc_kind rc of RCK_TOR1 \<Rightarrow> SENDME_TAG_LEN_TOR1 | RCK_CGO \<Rightarrow> SENDME_TAG_LEN_CGO)"

text \<open>The tag as a pointer into the crypto object, with its length.\<close>

definition relay_crypto_get_sendme_tag :: "relay_crypto_t \<Rightarrow> u8 list \<times> nat" where
  "relay_crypto_get_sendme_tag rc = (rc_tag rc, relay_crypto_sendme_tag_len rc)"

definition pop_first_cell_digest :: "circuit_t \<Rightarrow> circuit_t \<times> u8 list option" where
  "pop_first_cell_digest circ =
     (case smartlist_get (sendme_last_digests circ) 0 of
        None \<Rightarrow> (circ, None)
      | Some d \<Rightarrow> (circ\<lparr>sendme_last_digests := the (smartlist_del_keeporder (sendme_last_digests circ) 0)\<rparr>, Some d))"

text \<open>\<^verbatim>\<open>tor_memneq\<close> compares the first \<open>tag_len\<close> bytes.\<close>

definition v1_tag_matches :: "u8 list \<Rightarrow> u8 list \<Rightarrow> nat \<Rightarrow> bool" where
  "v1_tag_matches circ_digest cell_tag tag_len = (take tag_len circ_digest = take tag_len cell_tag)"

definition cell_v1_is_valid :: "sendme_cell_t \<Rightarrow> u8 list \<Rightarrow> nat \<Rightarrow> bool" where
  "cell_v1_is_valid cell circ_digest circ_digest_len =
     (let tag_len = unat (sm_data_len cell)
      in if \<not> tag_len_ok tag_len then False
         else if length (sm_digest cell) < tag_len then False
         else if tag_len \<noteq> circ_digest_len then False
         else v1_tag_matches circ_digest (sm_digest cell) tag_len)"

definition cell_version_can_be_handled :: "networkstatus option \<Rightarrow> u8 \<Rightarrow> bool option" where
  "cell_version_can_be_handled latest cell_version = do {
     accept_version \<leftarrow> get_accept_min_version latest;
     Some (if accept_version > SENDME_MAX_SUPPORTED_VERSION then False
           else if int (unat cell_version) < accept_version then False
           else if int (unat cell_version) > SENDME_MAX_SUPPORTED_VERSION then False
           else True)
   }"

section \<open>Hops\<close>

text \<open>
  A \<^verbatim>\<open>layer_hint\<close> is NULL (\<^term>\<open>None\<close>) or the identity of a hop of the circuit; reading through
  an identity that the path does not have is \<^term>\<open>None\<close>.
\<close>

definition hop_at :: "circuit_t \<Rightarrow> nat \<Rightarrow> crypt_path_t option" where
  "hop_at circ i = find (\<lambda>h. cp_id h = i) (cpath circ)"

definition hop_upd :: "nat \<Rightarrow> (crypt_path_t \<Rightarrow> crypt_path_t) \<Rightarrow> circuit_t \<Rightarrow> circuit_t" where
  "hop_upd i f circ = circ\<lparr>cpath := map (\<lambda>h. if cp_id h = i then f h else h) (cpath circ)\<rparr>"

definition hop_of :: "circuit_t \<Rightarrow> nat option \<Rightarrow> crypt_path_t option option" where
  "hop_of circ layer_hint =
     (case layer_hint of None \<Rightarrow> Some None | Some i \<Rightarrow> (case hop_at circ i of None \<Rightarrow> None | Some h \<Rightarrow> Some (Some h)))"

section \<open>Validation\<close>

definition sendme_is_valid ::
  "networkstatus option \<Rightarrow> circuit_t \<Rightarrow> nat option \<Rightarrow> u8 list \<Rightarrow> (circuit_t \<times> bool) option" where
  "sendme_is_valid latest circ layer_hint payload = do {
     hop \<leftarrow> hop_of circ layer_hint;
     (case (if payload = [] then Inr (0, None)
            else case sendme_cell_parse payload of Inl e \<Rightarrow> Inl e | Inr cell \<Rightarrow> Inr (sm_version cell, Some cell)) of
        Inl _ \<Rightarrow> Some (circ, False)
      | Inr (cell_version, cell) \<Rightarrow> do {
          let legacy = (\<not> is_origin circ \<and> used_legacy_circuit_handshake circ \<and> cell_version = 0);
          handled \<leftarrow> (if legacy then Some True else cell_version_can_be_handled latest cell_version);
          let circ = (if legacy then circ\<lparr>used_obsolete_sendme := True\<rparr> else circ);
          if \<not> handled then Some (circ, False)
          else case (case hop of
                       Some h \<Rightarrow> Some (relay_crypto_sendme_tag_len (pvt_crypto h))
                     | None \<Rightarrow> (if \<not> is_origin circ then Some (relay_crypto_sendme_tag_len (crypto circ)) else None)) of
            None \<Rightarrow> Some (circ, False)
          | Some circ_expects_tag_len \<Rightarrow>
              (case pop_first_cell_digest circ of
                 (circ, None) \<Rightarrow> Some (circ, False)
               | (circ, Some circ_digest) \<Rightarrow>
                   (case cell of
                      None \<Rightarrow> Some (circ, True)
                    | Some c \<Rightarrow>
                        (if cell_version = 1 then Some (circ, cell_v1_is_valid c circ_digest circ_expects_tag_len)
                         else Some (circ, True))))
        })
   }"

section \<open>Emission\<close>

definition build_cell_payload_v1 :: "u8 list \<Rightarrow> nat \<Rightarrow> (trunnel_error + u8 list) option" where
  "build_cell_payload_v1 cell_tag tag_len = do {
     tor_assert (tag_len_ok tag_len);
     Some (sendme_cell_encode RELAY_PAYLOAD_SIZE_MAX
             \<lparr>sm_version = 1, sm_data_len = of_nat tag_len, sm_digest = take tag_len cell_tag\<rparr>)
   }"

text \<open>\<open>sent\<close> is the outcome of \<^verbatim>\<open>relay_send_command_from_edge\<close>; the result says whether to go on.\<close>

definition send_circuit_level_sendme ::
  "networkstatus option \<Rightarrow> bool \<Rightarrow> circ_id \<Rightarrow> nat option \<Rightarrow> u8 list \<Rightarrow> nat \<Rightarrow> (bool \<times> action list) option" where
  "send_circuit_level_sendme latest sent c layer_hint cell_tag tag_len = do {
     v \<leftarrow> get_emit_min_version latest;
     let emit_version = (word_of_int v :: u8);
     payload \<leftarrow> (if emit_version = 1 then build_cell_payload_v1 cell_tag tag_len else Some (Inr []));
     (case payload of
        Inl _ \<Rightarrow> Some (False, [])
      | Inr p \<Rightarrow> Some (sent, [Relay_send c RELAY_COMMAND_SENDME p layer_hint]))
   }"

definition record_cell_digest_on_circ :: "circuit_t \<Rightarrow> u8 list \<Rightarrow> nat \<Rightarrow> circuit_t option" where
  "record_cell_digest_on_circ circ sendme_tag tag_len =
     (if tag_len = SENDME_TAG_LEN_CGO
      then Some (circ\<lparr>sendme_last_digests := smartlist_add (sendme_last_digests circ)
             (take tag_len sendme_tag @ replicate (SENDME_TAG_LEN_TOR1 - tag_len) 0)\<rparr>)
      else if tag_len = SENDME_TAG_LEN_TOR1
      then Some (circ\<lparr>sendme_last_digests := smartlist_add (sendme_last_digests circ) (take SENDME_TAG_LEN_TOR1 sendme_tag)\<rparr>)
      else None)"

section \<open>Streams\<close>

text \<open>
  The loop of \<^verbatim>\<open>sendme_connection_edge_consider_sending\<close>: \<open>ok k\<close> is the outcome of its \<open>k\<close>-th
  send.  The result is the new window and the number of SENDMEs handed to the circuit.
\<close>

function stream_sendme_loop :: "(nat \<Rightarrow> bool) \<Rightarrow> nat \<Rightarrow> int \<Rightarrow> int \<times> nat" where
  "stream_sendme_loop ok k window =
     (if window \<le> STREAMWINDOW_START - STREAMWINDOW_INCREMENT
      then let window = window + STREAMWINDOW_INCREMENT
           in if ok k then stream_sendme_loop ok (Suc k) window else (window, Suc k)
      else (window, k))"
  by pat_completeness auto
termination by (relation "measure (\<lambda>(ok, k, w). nat (500 - w))") auto

declare stream_sendme_loop.simps [simp del]

definition connection_outbuf_too_full :: "edge_connection_t \<Rightarrow> bool" where
  "connection_outbuf_too_full conn = (outbuf_len conn > 10 * 509)"

definition sendme_connection_edge_consider_sending ::
  "(nat \<Rightarrow> bool) \<Rightarrow> (circ_id \<Rightarrow> circuit_t) \<Rightarrow> edge_connection_t \<Rightarrow> edge_connection_t \<times> nat" where
  "sendme_connection_edge_consider_sending ok circs conn =
     (if edge_uses_flow_control circs conn then (conn, 0)
      else if connection_outbuf_too_full conn then (conn, 0)
      else if on_circuit conn = None then (conn, 0)
      else let (w, n) = stream_sendme_loop ok 0 (e_deliver_window conn) in (conn\<lparr>e_deliver_window := w\<rparr>, n))"

text \<open>A negative return value, the reason to close the circuit with, is \<open>Some\<close> of that reason; 0 is \<^term>\<open>None\<close>.\<close>

definition sendme_process_stream_level ::
  "(circ_id \<Rightarrow> circuit_t) \<Rightarrow> edge_connection_t \<Rightarrow> circ_id \<Rightarrow> u16 \<Rightarrow>
   edge_connection_t \<times> end_circ_reason option \<times> action list" where
  "sendme_process_stream_level circs conn c cell_body_len =
     (if edge_uses_flow_control circs conn then (conn, Some END_CIRC_REASON_TORPROTOCOL, [])
      else if e_package_window conn + STREAMWINDOW_INCREMENT > STREAMWINDOW_START_MAX
      then (conn, Some END_CIRC_REASON_TORPROTOCOL, [])
      else (conn\<lparr>e_package_window := e_package_window conn + STREAMWINDOW_INCREMENT\<rparr>, None,
            if is_origin (circs c) then [Read_valid_data c (unat cell_body_len)] else []))"

definition sendme_stream_data_received ::
  "bool \<Rightarrow> bool \<Rightarrow> (circ_id \<Rightarrow> circuit_t) \<Rightarrow> cc_globals \<Rightarrow> u64 \<Rightarrow> u64 \<Rightarrow> u64 \<Rightarrow> u64 \<Rightarrow> flow_globals \<Rightarrow> edge_connection_t \<Rightarrow>
   (int \<times> flow_globals \<times> edge_connection_t \<times> flow_action list) option" where
  "sendme_stream_data_received ok1 ok2 circs g now t1 t2 t3 f conn =
     (if edge_uses_flow_control circs conn then flow_control_decide_xoff ok1 ok2 circs g now t1 t2 t3 f conn
      else Some (e_deliver_window conn - 1, f, conn\<lparr>e_deliver_window := e_deliver_window conn - 1\<rparr>, []))"

definition sendme_note_stream_data_packaged ::
  "(circ_id \<Rightarrow> circuit_t) \<Rightarrow> edge_connection_t \<Rightarrow> u64 \<Rightarrow> edge_connection_t \<times> int" where
  "sendme_note_stream_data_packaged circs conn len =
     (if edge_uses_flow_control circs conn
      then let conn = flow_control_note_sent_data conn len in (conn, if xoff_received conn then - 1 else 1)
      else (conn\<lparr>e_package_window := e_package_window conn - 1\<rparr>, e_package_window conn - 1))"

section \<open>Circuits: sending SENDMEs\<close>

text \<open>\<^verbatim>\<open>TO_OR_CIRCUIT\<close> asserts that the circuit is not an origin circuit.\<close>

definition deliver_window_of :: "circuit_t \<Rightarrow> nat option \<Rightarrow> int option" where
  "deliver_window_of circ layer_hint =
     (case layer_hint of None \<Rightarrow> Some (deliver_window circ) | Some i \<Rightarrow> map_option cp_deliver_window (hop_at circ i))"

definition bump_deliver_window :: "int \<Rightarrow> circuit_t \<Rightarrow> nat option \<Rightarrow> circuit_t" where
  "bump_deliver_window n circ layer_hint =
     (case layer_hint of
        None \<Rightarrow> circ\<lparr>deliver_window := deliver_window circ + n\<rparr>
      | Some i \<Rightarrow> hop_upd i (\<lambda>h. h\<lparr>cp_deliver_window := cp_deliver_window h + n\<rparr>) circ)"

definition sendme_tag_of :: "circuit_t \<Rightarrow> nat option \<Rightarrow> (u8 list \<times> nat) option" where
  "sendme_tag_of circ layer_hint =
     (case layer_hint of
        None \<Rightarrow> (if is_origin circ then None else Some (relay_crypto_get_sendme_tag (crypto circ)))
      | Some i \<Rightarrow> map_option (\<lambda>h. relay_crypto_get_sendme_tag (pvt_crypto h)) (hop_at circ i))"

text \<open>
  The loop of \<^verbatim>\<open>sendme_circuit_consider_sending\<close>.  With an increment of 0 it would not end, and
  then its value is \<^term>\<open>None\<close>.
\<close>

partial_function (option) circuit_sendme_loop ::
  "networkstatus option \<Rightarrow> (nat \<Rightarrow> bool) \<Rightarrow> nat \<Rightarrow> int \<Rightarrow> circ_id \<Rightarrow> circuit_t \<Rightarrow> nat option \<Rightarrow> action list \<Rightarrow>
   (circuit_t \<times> action list) option" where
  "circuit_sendme_loop latest ok k inc c circ layer_hint acts =
     Option.bind (deliver_window_of circ layer_hint) (\<lambda>w.
       if w \<le> CIRCWINDOW_START - inc
       then Option.bind (sendme_tag_of circ layer_hint) (\<lambda>(tag, tag_len).
              Option.bind (send_circuit_level_sendme latest (ok k) c layer_hint tag tag_len) (\<lambda>(go, a).
                if go then circuit_sendme_loop latest ok (Suc k) inc c (bump_deliver_window inc circ layer_hint) layer_hint (acts @ a)
                else Some (bump_deliver_window inc circ layer_hint, acts @ a)))
       else Some (circ, acts))"

definition sendme_circuit_consider_sending ::
  "networkstatus option \<Rightarrow> (nat \<Rightarrow> bool) \<Rightarrow> circ_id \<Rightarrow> circuit_t \<Rightarrow> nat option \<Rightarrow> (circuit_t \<times> action list) option" where
  "sendme_circuit_consider_sending latest ok c circ layer_hint = do {
     hop \<leftarrow> hop_of circ layer_hint;
     circuit_sendme_loop latest ok 0 (sendme_get_inc_count circ hop) c circ layer_hint []
   }"

definition sendme_circuit_data_received :: "circuit_t \<Rightarrow> nat option \<Rightarrow> (circuit_t \<times> int) option" where
  "sendme_circuit_data_received circ layer_hint =
     (if is_origin circ
      then (case layer_hint of
              None \<Rightarrow> None
            | Some i \<Rightarrow> map_option (\<lambda>h. (hop_upd i (\<lambda>h. h\<lparr>cp_deliver_window := cp_deliver_window h - 1\<rparr>) circ,
                                        cp_deliver_window h - 1)) (hop_at circ i))
      else do {
        tor_assert (layer_hint = None);
        Some (circ\<lparr>deliver_window := deliver_window circ - 1\<rparr>, deliver_window circ - 1)
      })"

section \<open>Circuits: receiving SENDMEs\<close>

definition sendme_process_circuit_level_impl ::
  "circuit_t \<Rightarrow> nat option \<Rightarrow> (circuit_t \<times> end_circ_reason option) option" where
  "sendme_process_circuit_level_impl circ layer_hint =
     (if is_origin circ
      then (case layer_hint of
              None \<Rightarrow> Some (circ, Some END_CIRC_REASON_TORPROTOCOL)
            | Some i \<Rightarrow> do {
                h \<leftarrow> hop_at circ i;
                if cp_package_window h + CIRCWINDOW_INCREMENT > CIRCWINDOW_START_MAX
                then Some (circ, Some END_CIRC_REASON_TORPROTOCOL)
                else Some (hop_upd i (\<lambda>h. h\<lparr>cp_package_window := cp_package_window h + CIRCWINDOW_INCREMENT\<rparr>) circ, None)
              })
      else if package_window circ + CIRCWINDOW_INCREMENT > CIRCWINDOW_START_MAX
      then Some (circ, Some END_CIRC_REASON_TORPROTOCOL)
      else Some (circ\<lparr>package_window := package_window circ + CIRCWINDOW_INCREMENT\<rparr>, None))"

definition set_ccontrol :: "circuit_t \<Rightarrow> nat option \<Rightarrow> congestion_control_t \<Rightarrow> circuit_t" where
  "set_ccontrol circ layer_hint cc =
     (case layer_hint of
        None \<Rightarrow> circ\<lparr>c_ccontrol := Some cc\<rparr>
      | Some i \<Rightarrow> hop_upd i (\<lambda>h. h\<lparr>cp_ccontrol := Some cc\<rparr>) circ)"

definition sendme_process_circuit_level ::
  "networkstatus option \<Rightarrow> u64 \<Rightarrow> cc_globals \<Rightarrow> circ_id \<Rightarrow> circuit_t \<Rightarrow> conflux_t option \<Rightarrow> nat option \<Rightarrow> u8 list \<Rightarrow>
   (cc_globals \<times> circuit_t \<times> conflux_t option \<times> end_circ_reason option \<times> action list) option" where
  "sendme_process_circuit_level latest now g c circ cfx layer_hint payload = do {
     (circ, valid) \<leftarrow> sendme_is_valid latest circ layer_hint payload;
     if \<not> valid then Some (g, circ, cfx, Some END_CIRC_REASON_TORPROTOCOL, [])
     else do {
       let acts = (if is_origin circ then [Read_valid_data c (length payload)] else []);
       hop \<leftarrow> hop_of circ layer_hint;
       (case hop_ccontrol circ hop of
          None \<Rightarrow> do {
            (circ, r) \<leftarrow> sendme_process_circuit_level_impl circ layer_hint;
            Some (g, circ, cfx, r, acts)
          }
        | Some cc \<Rightarrow> do {
            (g, cc, cfx) \<leftarrow> congestion_control_dispatch_cc_alg now g cc c circ cfx;
            Some (g, set_ccontrol circ layer_hint cc, cfx, None, acts)
          })
     }
   }"

section \<open>Circuits: sending data\<close>

definition sendme_note_circuit_data_packaged :: "u64 \<Rightarrow> circuit_t \<Rightarrow> nat option \<Rightarrow> (circuit_t \<times> int) option" where
  "sendme_note_circuit_data_packaged now circ layer_hint = do {
     hop \<leftarrow> hop_of circ layer_hint;
     circ \<leftarrow>
       (case hop_ccontrol circ hop of
          Some cc \<Rightarrow> do {
            cc \<leftarrow> congestion_control_note_cell_sent now cc circ hop;
            Some (set_ccontrol circ layer_hint cc)
          }
        | None \<Rightarrow>
            (if is_origin circ
             then (case layer_hint of
                     None \<Rightarrow> None
                   | Some i \<Rightarrow> Some (hop_upd i (\<lambda>h. h\<lparr>cp_package_window := cp_package_window h - 1\<rparr>) circ))
             else do {
               tor_assert (layer_hint = None);
               Some (circ\<lparr>package_window := package_window circ - 1\<rparr>)
             }));
     hop \<leftarrow> hop_of circ layer_hint;
     Some (circ, congestion_control_get_package_window circ hop)
   }"

definition sendme_record_cell_digest_on_circ :: "circuit_t \<Rightarrow> nat option \<Rightarrow> circuit_t option" where
  "sendme_record_cell_digest_on_circ circ layer_hint = do {
     hop \<leftarrow> hop_of circ layer_hint;
     b \<leftarrow> circuit_sent_cell_for_sendme circ hop;
     if \<not> b then Some circ
     else do {
       (tag, tag_len) \<leftarrow> sendme_tag_of circ layer_hint;
       record_cell_digest_on_circ circ tag tag_len
     }
   }"

end
