(* ===== verification/SendmeE2E.thy ===== *)
theory SendmeE2E
  imports Sendme
begin

text \<open>
  Properties of SENDMEs: what a valid one proves, and the window protocol between a sender and a
  receiver of DATA cells, with fixed windows and with congestion control.
\<close>

section \<open>What a SENDME does to the count of cells in flight\<close>

definition count_frame :: "congestion_control_t \<Rightarrow> congestion_control_t \<Rightarrow> bool" where
  "count_frame cc cc' = (inflight cc' = inflight cc \<and> sendme_inc cc' = sendme_inc cc)"

lemma count_frame_rtt:
  "congestion_control_update_circuit_rtt now g cc = Some (g', cc', r) \<Longrightarrow> count_frame cc cc'"
  by (auto simp: congestion_control_update_circuit_rtt_def Let_def bind_eq_Some_iff count_frame_def update_min_rtt_def
      split: prod.splits if_splits)

lemma count_frame_bdp:
  "congestion_control_update_circuit_bdp cc circ r = Some (cc', u) \<Longrightarrow> count_frame cc cc'"
  by (auto simp: congestion_control_update_circuit_bdp_def bdp_without_rtt_def Let_def bind_eq_Some_iff count_frame_def
      split: if_splits)

lemma count_frame_exit:
  "congestion_control_vegas_exit_slow_start circ g cc = Some (g', cc') \<Longrightarrow> count_frame cc cc'"
  by (auto simp: congestion_control_vegas_exit_slow_start_def Let_def bind_eq_Some_iff count_frame_def)

lemma count_frame_ss:
  "vegas_slow_start circ q g cc = Some (g', cc') \<Longrightarrow> count_frame cc cc'"
  by (auto simp: vegas_slow_start_def vegas_ss_window_def vegas_ss_increase_def Let_def bind_eq_Some_iff count_frame_def
      dest!: count_frame_exit split: if_splits)

lemma count_frame_steady:
  "vegas_steady_state q g cc = Some (g', cc') \<Longrightarrow> count_frame cc cc'"
  by (auto simp: vegas_steady_state_def vegas_steady_signal_def Let_def bind_eq_Some_iff count_frame_def split: if_splits)

lemma finish_counts:
  assumes "vegas_finish g cc = Some cc'"
  shows "inflight cc' = inflight cc - ucast (sendme_inc cc) \<and> sendme_inc cc' = sendme_inc cc"
proof -
  from assms obtain c1 c2 r where
    c1: "(if next_cwnd_event cc = 0 then do { n \<leftarrow> SENDME_PER_CWND cc; Some (cc\<lparr>next_cwnd_event := ucast n\<rparr>) }
          else Some cc) = Some c1" and
    c2: "(if next_cc_event c1 = 0 then do { n \<leftarrow> CWND_UPDATE_RATE c1; Some (c1\<lparr>next_cc_event := ucast n\<rparr>) }
          else Some c1) = Some c2" and
    r: "cc' = (if r then c2\<lparr>cwnd_full := False\<rparr> else c2)\<lparr>inflight := inflight (if r then c2\<lparr>cwnd_full := False\<rparr> else c2)
          - ucast (sendme_inc (if r then c2\<lparr>cwnd_full := False\<rparr> else c2))\<rparr>"
    unfolding vegas_finish_def Let_def by (auto simp only: bind_eq_Some_iff option.inject)
  have "count_frame cc c1" using c1 by (auto simp: bind_eq_Some_iff count_frame_def split: if_splits)
  moreover have "count_frame c1 c2" using c2 by (auto simp: bind_eq_Some_iff count_frame_def split: if_splits)
  ultimately show ?thesis using r by (cases r) (simp_all add: count_frame_def)
qed

lemma process_counts:
  assumes "congestion_control_vegas_process_sendme now g cc circ = Some (g', cc')"
  shows "inflight cc' = inflight cc - ucast (sendme_inc cc) \<and> sendme_inc cc' = sendme_inc cc"
proof -
  from assms obtain g1 c1 u where e: "congestion_control_update_circuit_estimates now g (vegas_tick cc) circ = Some (g1, c1, u)"
    by (auto simp: congestion_control_vegas_process_sendme_def bind_eq_Some_iff)
  then have c1: "count_frame cc c1"
    by (auto simp: congestion_control_update_circuit_estimates_def bind_eq_Some_iff count_frame_def vegas_tick_def
        dest!: count_frame_rtt count_frame_bdp)
  show ?thesis
  proof (cases u)
    case False
    then show ?thesis using assms e c1 by (auto simp: congestion_control_vegas_process_sendme_def count_frame_def bind_eq_Some_iff)
  next
    case True
    then have "vegas_step circ g1 c1 = Some (g', cc')"
      using assms process_sendme_step [of now g cc circ g1 c1] e
      by (auto simp: congestion_control_vegas_process_sendme_def bind_eq_Some_iff)
    then show ?thesis using c1
      by (auto simp: vegas_step_def Let_def bind_eq_Some_iff vegas_update_full_def count_frame_def
          dest!: count_frame_ss count_frame_steady finish_counts split: if_splits)
  qed
qed

lemma dispatch_counts:
  assumes "congestion_control_dispatch_cc_alg now g cc c circ cfx = Some (g', cc', cfx')"
  shows "inflight cc' = inflight cc - ucast (sendme_inc cc) \<and> sendme_inc cc' = sendme_inc cc"
  using assms
  by (auto simp: congestion_control_dispatch_cc_alg_def Let_def bind_eq_Some_iff dest!: process_counts split: if_splits)

section \<open>The version 1 cell\<close>

definition sm_payload :: "u8 list \<Rightarrow> u8 list" where
  "sm_payload t = 1 # be_encode 2 (length t) @ t"

text \<open>A recorded tag is stored in 20 bytes.\<close>

definition stored_tag :: "u8 list \<Rightarrow> u8 list" where
  "stored_tag t = t @ replicate (20 - length t) 0"

lemma sm_payload_ne [simp]: "sm_payload t \<noteq> []"
  by (simp add: sm_payload_def)

lemma of_nat_tag_len: "tag_len_ok n \<Longrightarrow> unat (of_nat n :: u16) = n" "tag_len_ok n \<Longrightarrow> (of_nat n :: u16) = 16 \<or> (of_nat n :: u16) = 20"
  by (auto simp: tag_len_ok_def)

lemma build_payload:
  "tag_len_ok (length t) \<Longrightarrow> build_cell_payload_v1 t (length t) = Some (Inr (sm_payload t))"
  using of_nat_tag_len(2) [of "length t"]
  by (auto simp: build_cell_payload_v1_def sendme_cell_encode_def sendme_cell_check_def sm_payload_def Let_def
      RELAY_PAYLOAD_SIZE_MAX_def tag_len_ok_def simp del: be_encode.simps)

lemma be2_roundtrip: "tag_len_ok n \<Longrightarrow> be_decode (be_encode 2 n) = n"
  by (auto simp: be_decode_encode tag_len_ok_def simp del: be_encode.simps)

lemma parse_payload:
  assumes "tag_len_ok (length t)"
  shows "sendme_cell_parse (sm_payload t) = Inr \<lparr>sm_version = 1, sm_data_len = of_nat (length t), sm_digest = t\<rparr>"
proof -
  have t1: "take_bytes 1 (1 # xs) = Inr ([1], xs)" for xs :: "u8 list" by (simp add: take_bytes_def)
  have t2: "take_bytes 2 (be_encode 2 (length t) @ t) = Inr (be_encode 2 (length t), t)"
    by (rule take_bytes_append) (rule length_be_encode)
  have t3: "take_bytes (length t) t = Inr (t, [])" by (simp add: take_bytes_def)
  show ?thesis
    using of_nat_tag_len(2) [OF assms]
    by (simp add: sendme_cell_parse_def sm_payload_def t1 t2 t3 be2_roundtrip [OF assms] of_nat_tag_len(1) [OF assms] Let_def
        del: be_encode.simps One_nat_def)
qed

section \<open>What a valid SENDME proves\<close>

lemma pop_Cons: "sendme_last_digests s = d # ds \<Longrightarrow> pop_first_cell_digest s = (s\<lparr>sendme_last_digests := ds\<rparr>, Some d)"
  by (simp add: pop_first_cell_digest_def smartlist_get_def smartlist_del_keeporder_def)

lemma pop_Nil: "sendme_last_digests s = [] \<Longrightarrow> pop_first_cell_digest s = (s, None)"
  by (simp add: pop_first_cell_digest_def smartlist_get_def)

lemma sendme_v1_accepted:
  assumes "\<not> is_origin s" "sendme_last_digests s = stored_tag t # ds" "relay_crypto_sendme_tag_len (crypto s) = length t"
    and "get_accept_min_version latest = Some v" "v \<le> 1"
  shows "sendme_is_valid latest s None (sm_payload t) = Some (s\<lparr>sendme_last_digests := ds\<rparr>, True)"
proof -
  have ok: "tag_len_ok (length t)" using assms(3) [symmetric] by (simp add: tag_len_ok_def relay_crypto_sendme_tag_len_def split: relay_crypto_kind.splits)
  have "cell_version_can_be_handled latest 1 = Some True"
    using assms(4,5) by (simp add: cell_version_can_be_handled_def)
  moreover have "cell_v1_is_valid \<lparr>sm_version = 1, sm_data_len = of_nat (length t), sm_digest = t\<rparr> (stored_tag t) (length t)"
    using of_nat_tag_len(1) [OF ok] ok by (simp add: cell_v1_is_valid_def Let_def v1_tag_matches_def stored_tag_def)
  ultimately show ?thesis
    using assms(1-3) by (simp add: sendme_is_valid_def hop_of_def parse_payload [OF ok] pop_Cons Let_def)
qed

lemma parse_version1:
  assumes "sendme_cell_parse p = Inr cell" "sm_version cell = 1"
  shows "\<exists>rest. p = 1 # be_encode 2 (unat (sm_data_len cell)) @ sm_digest cell @ rest \<and> length (sm_digest cell) = unat (sm_data_len cell)"
proof -
  from assms obtain r1 where p1: "p = 1 # r1"
    by (cases p) (auto simp: sendme_cell_parse_def take_bytes_def sum_bind_def Let_def split: sum.splits if_splits prod.splits)
  with assms obtain l r2 where l: "r1 = l @ r2" "length l = 2" "sm_data_len cell = of_nat (be_decode l)"
      "length r2 \<ge> unat (sm_data_len cell)" "sm_digest cell = take (unat (sm_data_len cell)) r2"
    by (auto simp: sendme_cell_parse_def take_bytes_def sum_bind_def Let_def split: if_splits
        intro!: that [of "take 2 r1" "drop 2 r1"])
  have "be_decode l < 65536" using be_decode_less [of l] l(2) by simp
  then have u: "unat (sm_data_len cell) = be_decode l" using l(3) by (simp add: unat_of_nat)
  have "be_encode 2 (be_decode l) = l"
  proof -
    obtain x y where xy: "l = [x, y]" using l(2) by (auto simp: numeral_2_eq_2 length_Suc_conv)
    have "unat y < 256" by (rule unat_u8_less)
    then have "(unat x * 256 + unat y) div 256 = unat x" by simp
    moreover have "of_nat (unat x * 256 + unat y) = y"
    proof -
      have "unat (of_nat (unat x * 256 + unat y) :: u8) = (unat x * 256 + unat y) mod 256" by (simp only: unat_of_nat) simp
      then show ?thesis using \<open>unat y < 256\<close> by (simp only: word_unat_eq_iff) simp
    qed
    ultimately show ?thesis by (simp add: xy numeral_2_eq_2 del: of_nat_add of_nat_mult)
  qed
  then show ?thesis using p1 l u by (intro exI [of _ "drop (unat (sm_data_len cell)) r2"]) simp
qed

section \<open>The sending side\<close>

definition unacked :: "circuit_t \<Rightarrow> nat" where
  "unacked s = (case c_ccontrol s of None \<Rightarrow> nat (1000 - package_window s) | Some cc \<Rightarrow> unat (inflight cc))"

definition sm_inc :: "circuit_t \<Rightarrow> nat" where
  "sm_inc s = (case c_ccontrol s of None \<Rightarrow> 100 | Some cc \<Rightarrow> unat (sendme_inc cc))"

definition tx_ok :: "circuit_t \<Rightarrow> bool" where
  "tx_ok s = (\<not> is_origin s \<and> 2 \<le> sm_inc s \<and> (c_ccontrol s = None \<longrightarrow> 0 \<le> package_window s \<and> package_window s \<le> 1000))"

lemma mod_sub_100:
  assumes "0 \<le> w" "w \<le> (1000 :: int)"
  shows "((w - 1) mod 100 = 0) = ((nat (1000 - w) + 1) mod 100 = 0)"
proof -
  obtain n where n: "w = int n" using assms(1) by (rule nonneg_int_cases)
  with assms(2) have m: "nat (1000 - w) = 1000 - n" "n \<le> 1000" by auto
  have "int ((1000 - n + 1) mod 100) = (1001 - int n) mod 100" using m(2) by (simp add: zmod_int of_nat_diff)
  moreover have "((1001 - int n) mod 100 = 0) = ((int n - 1) mod 100 = 0)" by presburger
  moreover have "((1000 - n + 1) mod 100 = 0) = (int ((1000 - n + 1) mod 100) = 0)" by (rule of_nat_eq_0_iff [symmetric])
  ultimately show ?thesis unfolding m(1) unfolding n by argo
qed

lemma tx_frame [simp]:
  "tx_ok (s\<lparr>crypto := k\<rparr>) = tx_ok s" "unacked (s\<lparr>crypto := k\<rparr>) = unacked s" "sm_inc (s\<lparr>crypto := k\<rparr>) = sm_inc s"
  "tx_ok (s\<lparr>sendme_last_digests := ds\<rparr>) = tx_ok s" "unacked (s\<lparr>sendme_last_digests := ds\<rparr>) = unacked s"
  "sm_inc (s\<lparr>sendme_last_digests := ds\<rparr>) = sm_inc s"
  by (simp_all add: tx_ok_def unacked_def sm_inc_def split: option.split)

lemma package_window_frame [simp]:
  "congestion_control_get_package_window (s\<lparr>crypto := k\<rparr>) None = congestion_control_get_package_window s None"
  "congestion_control_get_package_window (s\<lparr>sendme_last_digests := ds\<rparr>) None = congestion_control_get_package_window s None"
  by (simp_all add: congestion_control_get_package_window_def hop_ccontrol_def hop_window_def split: option.split)

lemma expects_sendme:
  assumes "tx_ok s" and "c_ccontrol s \<noteq> None \<longrightarrow> unacked s + 1 < 2 ^ 64"
  shows "circuit_sent_cell_for_sendme s None = Some ((unacked s + 1) mod sm_inc s = 0)"
proof (cases "c_ccontrol s")
  case None
  then have w: "0 \<le> package_window s" "package_window s \<le> 1000" using assms by (simp_all add: tx_ok_def)
  show ?thesis
    using None mod_sub_100 [OF w]
    by (auto simp: circuit_sent_cell_for_sendme_def hop_ccontrol_def hop_window_def Let_def unacked_def sm_inc_def)
next
  case (Some cc)
  then have i: "2 \<le> unat (sendme_inc cc)" and w: "unat (inflight cc) + 1 < 2 ^ 64"
    using assms by (simp_all add: tx_ok_def sm_inc_def unacked_def)
  then have nz: "ucast (sendme_inc cc) \<noteq> (0 :: u64)" by (metis unat_ucast_u8_u64 unat_0 not_numeral_le_zero)
  have "((inflight cc + 1) mod ucast (sendme_inc cc) = 0) = ((unat (inflight cc) + 1) mod unat (sendme_inc cc) = 0)"
    using w by (simp add: word_unat_eq_iff unat_mod unat_Suc_nowrap)
  moreover have "(0 + 1 :: nat) mod unat (sendme_inc cc) \<noteq> 0" using i by simp
  ultimately show ?thesis
    using Some nz by (auto simp: circuit_sent_cell_for_sendme_def hop_ccontrol_def umod64_def unacked_def sm_inc_def)
qed

lemma note_packaged:
  assumes "tx_ok s" "0 < congestion_control_get_package_window s None"
  shows "\<exists>s' w. sendme_note_circuit_data_packaged now s None = Some (s', w) \<and> 0 \<le> w \<and> tx_ok s' \<and> unacked s' = unacked s + 1
    \<and> sm_inc s' = sm_inc s \<and> sendme_last_digests s' = sendme_last_digests s \<and> crypto s' = crypto s
    \<and> (c_ccontrol s' = None) = (c_ccontrol s = None)"
proof (cases "c_ccontrol s")
  case None
  then show ?thesis using assms
    by (auto simp: sendme_note_circuit_data_packaged_def hop_of_def hop_ccontrol_def congestion_control_get_package_window_def
        hop_window_def tx_ok_def unacked_def sm_inc_def)
next
  case (Some cc)
  then have lt: "inflight cc < cwnd cc"
    using assms(2) by (cases "inflight cc = cwnd cc")
      (auto simp: congestion_control_get_package_window_def hop_ccontrol_def split: if_splits)
  then have u: "unat (inflight cc) + 1 < 2 ^ 64" "unat (inflight cc + 1) = unat (inflight cc) + 1"
    using unat_u64_less [of "cwnd cc"] by (simp_all add: word_less_nat_alt unat_Suc_nowrap)
  obtain b where b: "circuit_sent_cell_for_sendme s None = Some b"
    using expects_sendme [OF assms(1)] Some u by (auto simp: unacked_def)
  have "congestion_control_get_package_window (s\<lparr>c_ccontrol := Some cc'\<rparr>) None \<ge> 0" for cc'
    by (simp add: congestion_control_get_package_window_def hop_ccontrol_def INT32_MAX_def)
  then show ?thesis using Some b u assms(1)
    by (auto simp: sendme_note_circuit_data_packaged_def hop_of_def hop_ccontrol_def congestion_control_note_cell_sent_def
        set_ccontrol_def Let_def tx_ok_def unacked_def sm_inc_def)
qed

lemma record_digest:
  assumes "tx_ok s" "c_ccontrol s \<noteq> None \<longrightarrow> unacked s + 1 < 2 ^ 64"
    and "rc_tag (crypto s) = t" "relay_crypto_sendme_tag_len (crypto s) = length t"
  shows "sendme_record_cell_digest_on_circ s None =
    Some (s\<lparr>sendme_last_digests := sendme_last_digests s @ (if (unacked s + 1) mod sm_inc s = 0 then [stored_tag t] else [])\<rparr>)"
proof -
  have "length t = 16 \<or> length t = 20"
    using assms(4) by (auto simp: relay_crypto_sendme_tag_len_def split: relay_crypto_kind.splits)
  then show ?thesis
    using expects_sendme [OF assms(1,2)] assms(1,3,4)
    by (auto simp: sendme_record_cell_digest_on_circ_def hop_of_def sendme_tag_of_def relay_crypto_get_sendme_tag_def tx_ok_def
        record_cell_digest_on_circ_def stored_tag_def smartlist_add_def)
qed

lemma process_ack:
  assumes "tx_ok s" "sendme_last_digests s = stored_tag t # ds" "relay_crypto_sendme_tag_len (crypto s) = length t"
    and "get_accept_min_version latest = Some v" "v \<le> 1" "sm_inc s \<le> unacked s"
    and p: "sendme_process_circuit_level latest now g c s cfx None (sm_payload t) = Some (g', s', cfx', r, acts)"
  shows "r = None \<and> tx_ok s' \<and> unacked s' = unacked s - sm_inc s \<and> sm_inc s' = sm_inc s \<and> sendme_last_digests s' = ds
    \<and> crypto s' = crypto s \<and> (c_ccontrol s' = None) = (c_ccontrol s = None)"
proof -
  have no: "\<not> is_origin s" using assms(1) by (simp add: tx_ok_def)
  note v = sendme_v1_accepted [OF no assms(2-5)]
  show ?thesis
  proof (cases "c_ccontrol s")
    case None
    then have "package_window s \<le> 900" "0 \<le> package_window s" using assms(1,6) by (auto simp: unacked_def sm_inc_def tx_ok_def)
    then show ?thesis using p v None no
      by (auto simp: sendme_process_circuit_level_def hop_of_def hop_ccontrol_def sendme_process_circuit_level_impl_def tx_ok_def
          unacked_def sm_inc_def)
  next
    case (Some cc)
    from p v Some no obtain cc' where cc': "\<exists>circ. congestion_control_dispatch_cc_alg now g cc c circ cfx = Some (g', cc', cfx')"
        "s' = s\<lparr>sendme_last_digests := ds, c_ccontrol := Some cc'\<rparr>" "r = None"
      by (auto simp: sendme_process_circuit_level_def hop_of_def hop_ccontrol_def bind_eq_Some_iff set_ccontrol_def)
    have k: "inflight cc' = inflight cc - ucast (sendme_inc cc)" "sendme_inc cc' = sendme_inc cc"
      using cc'(1) dispatch_counts by blast+
    have "unat (inflight cc') = unat (inflight cc) - unat (sendme_inc cc)"
      unfolding k(1) using assms(6) Some by (subst unat_sub_nowrap) (simp_all add: unacked_def sm_inc_def)
    then show ?thesis using Some cc' k assms(1) by (auto simp: tx_ok_def unacked_def sm_inc_def)
  qed
qed

section \<open>The receiving side\<close>

lemma find_map_hop:
  "(\<And>h. cp_id (f h) = cp_id h) \<Longrightarrow>
   find (\<lambda>h. cp_id h = i) (map (\<lambda>h. if cp_id h = i then f h else h) xs) = map_option f (find (\<lambda>h. cp_id h = i) xs)"
  by (induction xs) auto

lemma hop_at_upd: "(\<And>h. cp_id (f h) = cp_id h) \<Longrightarrow> hop_at (hop_upd i f circ) i = map_option f (hop_at circ i)"
  by (simp add: hop_at_def hop_upd_def find_map_hop)

lemma hop_upd_frame [simp]: "is_origin (hop_upd i f circ) = is_origin circ"
  by (simp add: hop_upd_def)

text \<open>The receiver's view of a hop: it acknowledges every \<open>inc\<close> cells with the tag of the last.\<close>

definition hop_inc :: "crypt_path_t \<Rightarrow> nat" where
  "hop_inc h = (case cp_ccontrol h of None \<Rightarrow> 100 | Some cc \<Rightarrow> unat (sendme_inc cc))"

lemma hop_inc_count: "sendme_get_inc_count circ (Some h) = int (hop_inc h)"
  by (simp add: sendme_get_inc_count_def hop_ccontrol_def hop_inc_def split: option.splits)

definition tag_sized :: "relay_crypto_t \<Rightarrow> bool" where
  "tag_sized rc = (length (rc_tag rc) = relay_crypto_sendme_tag_len rc)"

lemma tag_sized_ok: "tag_sized rc \<Longrightarrow> tag_len_ok (length (rc_tag rc))"
  by (auto simp: tag_sized_def tag_len_ok_def relay_crypto_sendme_tag_len_def split: relay_crypto_kind.splits)

lemma send_sendme_v1:
  assumes "get_emit_min_version latest = Some 1" "tag_sized rc"
  shows "send_circuit_level_sendme latest sent c lh (fst (relay_crypto_get_sendme_tag rc)) (snd (relay_crypto_get_sendme_tag rc))
    = Some (sent, [Relay_send c RELAY_COMMAND_SENDME (sm_payload (rc_tag rc)) lh])"
  using assms build_payload [OF tag_sized_ok [OF assms(2)]]
  by (simp add: send_circuit_level_sendme_def relay_crypto_get_sendme_tag_def tag_sized_def)

text \<open>The emission loop on the level of windows: how many SENDMEs bring the window above the mark.\<close>

lemma sendme_loop_step:
  assumes "hop_at circ i = Some h" "get_emit_min_version latest = Some 1" "tag_sized (pvt_crypto h)"
  shows "circuit_sendme_loop latest ok k inc c circ (Some i) acts =
    (if cp_deliver_window h \<le> 1000 - inc
     then let circ' = hop_upd i (\<lambda>h. h\<lparr>cp_deliver_window := cp_deliver_window h + inc\<rparr>) circ;
              acts' = acts @ [Relay_send c RELAY_COMMAND_SENDME (sm_payload (rc_tag (pvt_crypto h))) (Some i)]
          in if ok k then circuit_sendme_loop latest ok (Suc k) inc c circ' (Some i) acts' else Some (circ', acts')
     else Some (circ, acts))"
  using assms send_sendme_v1 [OF assms(2,3), of "ok k" c "Some i"]
  by (subst circuit_sendme_loop.simps)
     (simp add: deliver_window_of_def sendme_tag_of_def bump_deliver_window_def split_beta Let_def)

lemma sendme_loop_terminates:
  assumes "hop_at circ i = Some h" "get_emit_min_version latest = Some 1" "tag_sized (pvt_crypto h)" "0 < inc"
  shows "\<exists>circ' acts'. circuit_sendme_loop latest ok k inc c circ (Some i) acts = Some (circ', acts')"
  using assms
proof (induction "nat (1001 - inc - cp_deliver_window h)" arbitrary: circ h k acts rule: less_induct)
  case less
  let ?f = "\<lambda>h :: crypt_path_t. h\<lparr>cp_deliver_window := cp_deliver_window h + inc\<rparr>"
  have u: "hop_at (hop_upd i ?f circ) i = Some (?f h)" using less.prems by (simp add: hop_at_upd)
  show ?case
  proof (cases "cp_deliver_window h \<le> 1000 - inc \<and> ok k")
    case True
    then have "nat (1001 - inc - cp_deliver_window (?f h)) < nat (1001 - inc - cp_deliver_window h)"
      using less.prems(4) by simp
    from less.hyps [OF this u] less.prems show ?thesis
      using True by (subst sendme_loop_step) (simp_all add: Let_def)
  next
    case False
    then show ?thesis using less.prems by (subst sendme_loop_step) (auto simp: Let_def)
  qed
qed

lemma consider_sending_one:
  assumes "hop_at circ i = Some h" "get_emit_min_version latest = Some 1" "tag_sized (pvt_crypto h)"
    and "0 < hop_inc h" "1000 - 2 * int (hop_inc h) < cp_deliver_window h" and n: "n = int (hop_inc h)"
  shows "sendme_circuit_consider_sending latest (\<lambda>_. True) c circ (Some i) =
    Some (if cp_deliver_window h \<le> 1000 - int (hop_inc h)
          then (hop_upd i (\<lambda>h. h\<lparr>cp_deliver_window := cp_deliver_window h + n\<rparr>) circ,
                [Relay_send c RELAY_COMMAND_SENDME (sm_payload (rc_tag (pvt_crypto h))) (Some i)])
          else (circ, []))"
proof -
  let ?n = "int (hop_inc h)" and ?f = "\<lambda>h' :: crypt_path_t. h'\<lparr>cp_deliver_window := cp_deliver_window h' + int (hop_inc h)\<rparr>"
  have u: "hop_at (hop_upd i ?f circ) i = Some (?f h)" using assms by (simp add: hop_at_upd)
  show ?thesis
  proof (cases "cp_deliver_window h \<le> 1000 - ?n")
    case False
    then show ?thesis using assms
      by (simp add: sendme_circuit_consider_sending_def hop_of_def hop_inc_count sendme_loop_step)
  next
    case True
    have "circuit_sendme_loop latest (\<lambda>_. True) 0 ?n c circ (Some i) [] =
        circuit_sendme_loop latest (\<lambda>_. True) 1 ?n c (hop_upd i ?f circ) (Some i)
          [Relay_send c RELAY_COMMAND_SENDME (sm_payload (rc_tag (pvt_crypto h))) (Some i)]"
      unfolding sendme_loop_step [OF assms(1-3), of _ 0] using True by (simp add: Let_def)
    also have "\<dots> = Some (hop_upd i ?f circ, [Relay_send c RELAY_COMMAND_SENDME (sm_payload (rc_tag (pvt_crypto h))) (Some i)])"
      using assms(3,5) by (subst sendme_loop_step [OF u assms(2)]) (simp_all add: tag_sized_def)
    finally show ?thesis using True assms(1) unfolding n
      by (simp add: sendme_circuit_consider_sending_def hop_of_def hop_inc_count)
  qed
qed

section \<open>The two ends of a circuit\<close>

text \<open>
  \<open>sm_tx\<close> is the circuit at the exit, which sends DATA cells; \<open>sm_rx\<close> is the client's circuit,
  whose hop \<open>i\<close> is that exit.  A cell under way is represented by the tag that encrypting it
  computes at one end and decrypting it at the other.  \<open>sm_sent\<close> and \<open>sm_acked\<close> are history: the
  tags of all cells sent and the number of SENDMEs processed.
\<close>

record sm_sys =
  sm_tx :: circuit_t
  sm_fwd :: "u8 list list"
  sm_back :: "u8 list list"
  sm_rx :: circuit_t
  sm_sent :: "u8 list list"
  sm_acked :: nat

definition with_tag :: "u8 list \<Rightarrow> relay_crypto_t \<Rightarrow> relay_crypto_t" where
  "with_tag t rc = rc\<lparr>rc_tag := t\<rparr>"

fun sendme_payloads :: "action list \<Rightarrow> u8 list list" where
  "sendme_payloads [] = []"
| "sendme_payloads (Relay_send _ _ p _ # acts) = p # sendme_payloads acts"
| "sendme_payloads (_ # acts) = sendme_payloads acts"

inductive sm_step :: "networkstatus option \<Rightarrow> networkstatus option \<Rightarrow> nat \<Rightarrow> sm_sys \<Rightarrow> sm_sys \<Rightarrow> bool" for ltx lrx i where
  send: "length t = relay_crypto_sendme_tag_len (crypto (sm_tx y)) \<Longrightarrow>
    0 < congestion_control_get_package_window (sm_tx y) None \<Longrightarrow>
    sendme_record_cell_digest_on_circ ((sm_tx y)\<lparr>crypto := with_tag t (crypto (sm_tx y))\<rparr>) None = Some tx1 \<Longrightarrow>
    sendme_note_circuit_data_packaged now tx1 None = Some (tx2, w) \<Longrightarrow>
    sm_step ltx lrx i y (y\<lparr>sm_tx := tx2, sm_fwd := sm_fwd y @ [t], sm_sent := sm_sent y @ [t]\<rparr>)"
| recv: "sm_fwd y = t # ts \<Longrightarrow>
    sendme_circuit_data_received (hop_upd i (\<lambda>h. h\<lparr>pvt_crypto := with_tag t (pvt_crypto h)\<rparr>) (sm_rx y)) (Some i) = Some (rx1, w) \<Longrightarrow>
    0 \<le> w \<Longrightarrow> sendme_circuit_consider_sending lrx (\<lambda>_. True) c rx1 (Some i) = Some (rx2, acts) \<Longrightarrow>
    sm_step ltx lrx i y (y\<lparr>sm_rx := rx2, sm_fwd := ts, sm_back := sm_back y @ sendme_payloads acts\<rparr>)"
| ack: "sm_back y = p # ps \<Longrightarrow>
    sendme_process_circuit_level ltx now g c (sm_tx y) cfx None p = Some (g', tx', cfx', None, acts) \<Longrightarrow>
    sm_step ltx lrx i y (y\<lparr>sm_tx := tx', sm_back := ps, sm_acked := Suc (sm_acked y)\<rparr>)"

inductive sm_reachable :: "networkstatus option \<Rightarrow> networkstatus option \<Rightarrow> nat \<Rightarrow> sm_sys \<Rightarrow> sm_sys \<Rightarrow> bool"
  for ltx lrx i y0 where
  start: "sm_reachable ltx lrx i y0 y0"
| next_step: "sm_reachable ltx lrx i y0 y \<Longrightarrow> sm_step ltx lrx i y y' \<Longrightarrow> sm_reachable ltx lrx i y0 y'"

text \<open>The tags of the cells that complete an increment: cells \<open>n*lo + n\<close> to \<open>n*hi\<close>, counted from 1.\<close>

definition marks :: "nat \<Rightarrow> 'a list \<Rightarrow> nat \<Rightarrow> nat \<Rightarrow> 'a list" where
  "marks n xs lo hi = map (\<lambda>k. xs ! (n * k + n - 1)) [lo..<hi]"

lemma marks_Cons: "lo < hi \<Longrightarrow> marks n xs lo hi = xs ! (n * lo + n - 1) # marks n xs (Suc lo) hi"
  by (simp add: marks_def upt_conv_Cons)

lemma Suc_div_if: "Suc m div n = (if Suc m mod n = 0 then Suc (m div n) else m div n)" for m n :: nat
  by (simp add: div_Suc)

lemma marks_cong: "(\<And>k. lo \<le> k \<Longrightarrow> k < hi \<Longrightarrow> xs ! (n * k + n - 1) = ys ! (n * k + n - 1)) \<Longrightarrow> marks n xs lo hi = marks n ys lo hi"
  by (simp add: marks_def)

lemma mark_index: "0 < n \<Longrightarrow> k < m div n \<Longrightarrow> n * k + n - 1 < m" for n k m :: nat
proof -
  assume "0 < n" "k < m div n"
  then have "n * Suc k \<le> n * (m div n)" by (intro mult_le_mono) simp_all
  also have "\<dots> \<le> m" by simp
  finally show ?thesis using \<open>0 < n\<close> by simp
qed

lemma marks_prefix:
  "0 < n \<Longrightarrow> hi \<le> length xs div n \<Longrightarrow> marks n (xs @ ys) lo hi = marks n xs lo hi"
  by (rule marks_cong) (use mark_index [of n _ "length xs"] in \<open>auto simp: nth_append\<close>)

text \<open>One more cell adds a mark when it completes an increment.\<close>

lemma marks_Suc:
  assumes "0 < n" "lo \<le> r div n"
  shows "marks n xs lo (Suc r div n) = marks n xs lo (r div n) @ (if Suc r mod n = 0 then [xs ! r] else [])"
proof (cases "Suc r mod n = 0")
  case False
  then show ?thesis by (simp add: Suc_div_if)
next
  case True
  then have d: "Suc r div n = Suc (r div n)" by (simp add: Suc_div_if)
  have "n * (Suc r div n) = Suc r" using True by (simp add: mod_eq_0_iff_dvd)
  then have "n * (r div n) + n - 1 = r" unfolding d by simp
  then show ?thesis using True d assms(2) by (simp add: marks_def)
qed

lemma marks_append:
  assumes "0 < n" "lo \<le> length xs div n"
  shows "marks n (xs @ [t]) lo (Suc (length xs) div n) =
    marks n xs lo (length xs div n) @ (if Suc (length xs) mod n = 0 then [t] else [])"
  using marks_Suc [OF assms, of "xs @ [t]"] marks_prefix [OF assms(1) order_refl, of xs "[t]" lo] by simp

section \<open>The invariant\<close>

definition sm_received :: "sm_sys \<Rightarrow> nat" where
  "sm_received y = length (sm_sent y) - length (sm_fwd y)"

definition rx_ok :: "circuit_t \<Rightarrow> nat \<Rightarrow> nat \<Rightarrow> relay_crypto_kind \<Rightarrow> nat \<Rightarrow> bool" where
  "rx_ok rx i n k r = (is_origin rx \<and> (\<exists>h. hop_at rx i = Some h \<and> hop_inc h = n \<and> rc_kind (pvt_crypto h) = k
     \<and> cp_deliver_window h = 1000 - int (r mod n)))"

definition sm_inv :: "nat \<Rightarrow> sm_sys \<Rightarrow> bool" where
  "sm_inv i y = (let n = sm_inc (sm_tx y); r = sm_received y in
     tx_ok (sm_tx y) \<and> n \<le> 1000 \<and> rx_ok (sm_rx y) i n (rc_kind (crypto (sm_tx y))) r
     \<and> length (sm_fwd y) \<le> length (sm_sent y) \<and> sm_fwd y = drop r (sm_sent y)
     \<and> sm_acked y \<le> r div n \<and> unacked (sm_tx y) + n * sm_acked y = length (sm_sent y)
     \<and> sendme_last_digests (sm_tx y) = map stored_tag (marks n (sm_sent y) (sm_acked y) (length (sm_sent y) div n))
     \<and> sm_back y = map sm_payload (marks n (sm_sent y) (sm_acked y) (r div n))
     \<and> list_all (\<lambda>t. length t = relay_crypto_sendme_tag_len (crypto (sm_tx y))) (sm_sent y))"

lemma tag_len_kind: "rc_kind a = rc_kind b \<Longrightarrow> relay_crypto_sendme_tag_len a = relay_crypto_sendme_tag_len b"
  by (simp add: relay_crypto_sendme_tag_len_def)

lemma with_tag_simps [simp]: "rc_kind (with_tag t rc) = rc_kind rc" "rc_tag (with_tag t rc) = t"
  "relay_crypto_sendme_tag_len (with_tag t rc) = relay_crypto_sendme_tag_len rc"
  by (simp_all add: with_tag_def relay_crypto_sendme_tag_len_def)

text \<open>The receiver takes one cell: it acknowledges when the cell completes an increment.\<close>

lemma rx_cell:
  assumes "rx_ok rx i n k r" "2 \<le> n" "n \<le> 1000" "get_emit_min_version lrx = Some 1"
    and "length t = (case k of RCK_TOR1 \<Rightarrow> 20 | RCK_CGO \<Rightarrow> 16)"
  shows "\<exists>rx1 w rx2. sendme_circuit_data_received (hop_upd i (\<lambda>h. h\<lparr>pvt_crypto := with_tag t (pvt_crypto h)\<rparr>) rx) (Some i) = Some (rx1, w)
    \<and> 0 \<le> w \<and> (\<forall>c. \<exists>acts. sendme_circuit_consider_sending lrx (\<lambda>_. True) c rx1 (Some i) = Some (rx2, acts)
        \<and> sendme_payloads acts = (if Suc r mod n = 0 then [sm_payload t] else []))
    \<and> rx_ok rx2 i n k (Suc r)"
proof -
  obtain h where h: "is_origin rx" "hop_at rx i = Some h" "hop_inc h = n" "rc_kind (pvt_crypto h) = k"
    "cp_deliver_window h = 1000 - int (r mod n)" using assms(1) by (auto simp: rx_ok_def)
  let ?rx0 = "hop_upd i (\<lambda>h. h\<lparr>pvt_crypto := with_tag t (pvt_crypto h)\<rparr>) rx"
  let ?rx1 = "hop_upd i (\<lambda>h. h\<lparr>cp_deliver_window := cp_deliver_window h - 1\<rparr>) ?rx0"
  let ?h1 = "h\<lparr>pvt_crypto := with_tag t (pvt_crypto h), cp_deliver_window := cp_deliver_window h - 1\<rparr>"
  have h0: "hop_at ?rx0 i = Some (h\<lparr>pvt_crypto := with_tag t (pvt_crypto h)\<rparr>)" using h by (simp add: hop_at_upd)
  have h1: "hop_at ?rx1 i = Some ?h1" using h(2) by (simp add: hop_at_upd)
  have m: "r mod n < n" using assms(2) by simp
  then have mi: "2 * int n - 1 > int (r mod n)" using assms(2) by linarith
  have d: "sendme_circuit_data_received ?rx0 (Some i) = Some (?rx1, 1000 - int (r mod n) - 1)"
    using h h0 by (simp add: sendme_circuit_data_received_def)
  have w: "0 \<le> 1000 - int (r mod n) - 1" using m assms(3) by linarith
  have ts: "tag_sized (pvt_crypto ?h1)"
    using assms(5) h(4) by (simp add: tag_sized_def relay_crypto_sendme_tag_len_def)
  have i1: "hop_inc ?h1 = n" using h(3) by (simp add: hop_inc_def)
  have full: "(cp_deliver_window ?h1 \<le> 1000 - int n) = (Suc r mod n = 0)"
    using m h(5) by (auto simp: mod_Suc)
  let ?rx2 = "if Suc r mod n = 0 then hop_upd i (\<lambda>h. h\<lparr>cp_deliver_window := cp_deliver_window h + int n\<rparr>) ?rx1 else ?rx1"
  have win: "1000 - 2 * int (hop_inc ?h1) < cp_deliver_window ?h1" "0 < hop_inc ?h1" "int n = int (hop_inc ?h1)"
    using m h(5) assms(2) i1 mi by simp_all
  have "\<exists>acts. sendme_circuit_consider_sending lrx (\<lambda>_. True) c ?rx1 (Some i) = Some (?rx2, acts)
      \<and> sendme_payloads acts = (if Suc r mod n = 0 then [sm_payload t] else [])" for c
    using consider_sending_one [OF h1 assms(4) ts win(2,1,3), of c] full i1 by (cases "Suc r mod n = 0") simp_all
  moreover have "rx_ok ?rx2 i n k (Suc r)"
    using h h1 m i1 by (auto simp: rx_ok_def hop_at_upd hop_inc_def mod_Suc)
  ultimately show ?thesis using d w by blast
qed

lemma can_send_nowrap:
  assumes "0 < congestion_control_get_package_window s None"
  shows "c_ccontrol s \<noteq> None \<longrightarrow> unacked s + 1 < 2 ^ 64"
proof (cases "c_ccontrol s")
  case (Some cc)
  then have "inflight cc < cwnd cc"
    using assms by (cases "inflight cc = cwnd cc")
      (auto simp: congestion_control_get_package_window_def hop_ccontrol_def split: if_splits)
  then show ?thesis using Some unat_u64_less [of "cwnd cc"] by (simp add: unacked_def word_less_nat_alt)
qed simp

lemma mod_add_mult_self: "u + n * a = (l :: nat) \<Longrightarrow> (u + 1) mod n = Suc l mod n"
  by (metis Suc_eq_plus1 add_Suc mod_mult_self2)

text \<open>The sender packages one cell.\<close>

lemma sm_send:
  assumes inv: "sm_inv i y" and t: "length t = relay_crypto_sendme_tag_len (crypto (sm_tx y))"
    and w: "0 < congestion_control_get_package_window (sm_tx y) None"
  shows "\<exists>tx1. sendme_record_cell_digest_on_circ ((sm_tx y)\<lparr>crypto := with_tag t (crypto (sm_tx y))\<rparr>) None = Some tx1
    \<and> (\<forall>now. \<exists>tx2 w. sendme_note_circuit_data_packaged now tx1 None = Some (tx2, w) \<and> 0 \<le> w
        \<and> sm_inv i (y\<lparr>sm_tx := tx2, sm_fwd := sm_fwd y @ [t], sm_sent := sm_sent y @ [t]\<rparr>)
        \<and> (c_ccontrol tx2 = None) = (c_ccontrol (sm_tx y) = None))"
proof -
  let ?tx = "sm_tx y" and ?n = "sm_inc (sm_tx y)" and ?l = "length (sm_sent y)"
  let ?ua = "?tx\<lparr>crypto := with_tag t (crypto ?tx)\<rparr>"
  have f0: "tx_ok ?ua" "unacked ?ua = unacked ?tx" "sm_inc ?ua = ?n" "c_ccontrol ?ua = c_ccontrol ?tx"
    using inv by (simp_all add: sm_inv_def Let_def)
  have n: "2 \<le> ?n" using inv by (simp add: sm_inv_def Let_def tx_ok_def)
  have un: "(unacked ?tx + 1) mod ?n = Suc ?l mod ?n"
    by (rule mod_add_mult_self [of _ _ "sm_acked y"]) (use inv in \<open>simp add: sm_inv_def Let_def\<close>)
  let ?ub = "?ua\<lparr>sendme_last_digests := sendme_last_digests ?tx @ (if Suc ?l mod ?n = 0 then [stored_tag t] else [])\<rparr>"
  have r: "sendme_record_cell_digest_on_circ ?ua None = Some ?ub"
    using record_digest [OF f0(1), of t] can_send_nowrap [OF w] t un by (simp add: f0(2-4))
  have f1: "tx_ok ?ub" "unacked ?ub = unacked ?tx" "sm_inc ?ub = ?n"
    using f0(1) by simp_all
  have w1: "0 < congestion_control_get_package_window ?ub None"
    using w by simp
  have recvd: "sm_received (y\<lparr>sm_tx := tx2, sm_fwd := sm_fwd y @ [t], sm_sent := sm_sent y @ [t]\<rparr>) = sm_received y" for tx2
    by (simp add: sm_received_def)
  have le: "sm_received y div ?n \<le> ?l div ?n" "sm_acked y \<le> sm_received y div ?n"
    using inv by (simp_all add: sm_received_def div_le_mono sm_inv_def Let_def)
  have mk: "marks ?n (sm_sent y @ [t]) (sm_acked y) (sm_received y div ?n) = marks ?n (sm_sent y) (sm_acked y) (sm_received y div ?n)"
    "marks ?n (sm_sent y @ [t]) (sm_acked y) (Suc ?l div ?n) =
      marks ?n (sm_sent y) (sm_acked y) (?l div ?n) @ (if Suc ?l mod ?n = 0 then [t] else [])"
    using n le by (simp_all add: marks_prefix marks_append)
  have "\<exists>tx2 w. sendme_note_circuit_data_packaged now ?ub None = Some (tx2, w) \<and> 0 \<le> w
        \<and> sm_inv i (y\<lparr>sm_tx := tx2, sm_fwd := sm_fwd y @ [t], sm_sent := sm_sent y @ [t]\<rparr>)
        \<and> (c_ccontrol tx2 = None) = (c_ccontrol ?tx = None)" for now
  proof -
    obtain tx2 w2 where p: "sendme_note_circuit_data_packaged now ?ub None = Some (tx2, w2)" "0 \<le> w2" "tx_ok tx2"
        "unacked tx2 = unacked ?tx + 1" "sm_inc tx2 = ?n" "sendme_last_digests tx2 = sendme_last_digests ?ub" "crypto tx2 = with_tag t (crypto ?tx)"
        "(c_ccontrol tx2 = None) = (c_ccontrol ?tx = None)"
      using note_packaged [OF f1(1) w1, of now] by (auto simp: f1)
    have "sm_inv i (y\<lparr>sm_tx := tx2, sm_fwd := sm_fwd y @ [t], sm_sent := sm_sent y @ [t]\<rparr>)"
      unfolding sm_inv_def recvd using inv t mk le p(3-7)
      by (auto simp: sm_inv_def Let_def sm_received_def)
    then show ?thesis using p(1,2,8) by (intro exI [of _ tx2] exI [of _ w2] conjI)
  qed
  then show ?thesis using r by blast
qed

lemma sm_recv:
  assumes inv: "sm_inv i y" and f: "sm_fwd y = t # ts" and e: "get_emit_min_version lrx = Some 1"
  shows "\<exists>rx1 w rx2. sendme_circuit_data_received (hop_upd i (\<lambda>h. h\<lparr>pvt_crypto := with_tag t (pvt_crypto h)\<rparr>) (sm_rx y)) (Some i) = Some (rx1, w)
    \<and> 0 \<le> w \<and> (\<forall>c. \<exists>acts. sendme_circuit_consider_sending lrx (\<lambda>_. True) c rx1 (Some i) = Some (rx2, acts)
        \<and> sm_inv i (y\<lparr>sm_rx := rx2, sm_fwd := ts, sm_back := sm_back y @ sendme_payloads acts\<rparr>))"
proof -
  let ?n = "sm_inc (sm_tx y)" and ?r = "sm_received y" and ?k = "rc_kind (crypto (sm_tx y))"
  have n: "2 \<le> ?n" "?n \<le> 1000" and ok: "rx_ok (sm_rx y) i ?n ?k ?r" using inv by (simp_all add: sm_inv_def Let_def tx_ok_def)
  have dr: "drop ?r (sm_sent y) = t # ts" using inv f by (simp add: sm_inv_def Let_def)
  then have lt: "?r < length (sm_sent y)" and t: "sm_sent y ! ?r = t" and ts: "ts = drop (Suc ?r) (sm_sent y)"
    by (metis drop_all list.distinct(1) not_le, metis drop_eq_Nil hd_drop_conv_nth list.distinct(1) list.sel(1) not_le, metis drop_Suc list.sel(3) tl_drop)
  have "t \<in> set (sm_sent y)" using lt t by auto
  then have tl: "length t = (case ?k of RCK_TOR1 \<Rightarrow> 20 | RCK_CGO \<Rightarrow> 16)"
    using inv by (simp add: sm_inv_def Let_def list_all_iff relay_crypto_sendme_tag_len_def)
  obtain rx1 w rx2 where x: "sendme_circuit_data_received (hop_upd i (\<lambda>h. h\<lparr>pvt_crypto := with_tag t (pvt_crypto h)\<rparr>) (sm_rx y)) (Some i) = Some (rx1, w)"
      "0 \<le> w" "\<And>c. \<exists>acts. sendme_circuit_consider_sending lrx (\<lambda>_. True) c rx1 (Some i) = Some (rx2, acts)
        \<and> sendme_payloads acts = (if Suc ?r mod ?n = 0 then [sm_payload t] else [])" "rx_ok rx2 i ?n ?k (Suc ?r)"
    using rx_cell [OF ok n e tl] by blast
  have rc: "sm_received (y\<lparr>sm_rx := rx2, sm_fwd := ts, sm_back := b\<rparr>) = Suc ?r" for b
    using f lt ts by (simp add: sm_received_def)
  have ak: "sm_acked y \<le> ?r div ?n" using inv by (simp add: sm_inv_def Let_def)
  have mk: "marks ?n (sm_sent y) (sm_acked y) (Suc ?r div ?n) =
      marks ?n (sm_sent y) (sm_acked y) (?r div ?n) @ (if Suc ?r mod ?n = 0 then [t] else [])"
    using marks_Suc [OF _ ak, of "sm_sent y"] n t by simp
  have "sm_inv i (y\<lparr>sm_rx := rx2, sm_fwd := ts, sm_back := sm_back y @ (if Suc ?r mod ?n = 0 then [sm_payload t] else [])\<rparr>)"
    unfolding sm_inv_def rc using inv x(4) mk ts f le_trans [OF ak div_le_mono [of ?r "Suc ?r" ?n]]
    by (simp add: sm_inv_def Let_def)
  then have "\<exists>acts. sendme_circuit_consider_sending lrx (\<lambda>_. True) c rx1 (Some i) = Some (rx2, acts)
      \<and> sm_inv i (y\<lparr>sm_rx := rx2, sm_fwd := ts, sm_back := sm_back y @ sendme_payloads acts\<rparr>)" for c
    using x(3) [of c] by (elim exE conjE) (intro exI conjI, assumption, simp only:)
  then show ?thesis using x(1,2) by blast
qed

text \<open>The SENDME at the head of the way back carries the tag that the sender expects next.\<close>

lemma sm_head:
  assumes inv: "sm_inv i y" and b: "sm_back y = p # ps"
  shows "\<exists>t ds. p = sm_payload t \<and> sendme_last_digests (sm_tx y) = stored_tag t # ds
    \<and> length t = relay_crypto_sendme_tag_len (crypto (sm_tx y)) \<and> sm_inc (sm_tx y) \<le> unacked (sm_tx y)
    \<and> ds = map stored_tag (marks (sm_inc (sm_tx y)) (sm_sent y) (Suc (sm_acked y)) (length (sm_sent y) div sm_inc (sm_tx y)))
    \<and> ps = map sm_payload (marks (sm_inc (sm_tx y)) (sm_sent y) (Suc (sm_acked y)) (sm_received y div sm_inc (sm_tx y)))
    \<and> Suc (sm_acked y) \<le> sm_received y div sm_inc (sm_tx y)"
proof -
  let ?n = "sm_inc (sm_tx y)" and ?r = "sm_received y" and ?a = "sm_acked y" and ?l = "length (sm_sent y)"
  let ?t = "sm_sent y ! (?n * ?a + ?n - 1)"
  have n: "0 < ?n" using inv by (simp add: sm_inv_def Let_def tx_ok_def)
  have bk: "sm_back y = map sm_payload (marks ?n (sm_sent y) ?a (?r div ?n))" using inv by (simp add: sm_inv_def Let_def)
  have a: "?a < ?r div ?n" using b bk by (cases "?a < ?r div ?n") (simp_all add: marks_def)
  have rl: "?r div ?n \<le> ?l div ?n" by (simp add: sm_received_def div_le_mono)
  have idx: "?n * ?a + ?n - 1 < ?l" using mark_index [OF n] a rl by (meson less_le_trans)
  have "?n * ?a + ?n \<le> ?l" using idx n by simp
  then have un: "?n \<le> unacked (sm_tx y)" using inv by (simp add: sm_inv_def Let_def)
  have "?t \<in> set (sm_sent y)" using idx by simp
  then have "length ?t = relay_crypto_sendme_tag_len (crypto (sm_tx y))"
    using inv by (simp add: sm_inv_def Let_def list_all_iff)
  moreover have "sendme_last_digests (sm_tx y) = map stored_tag (marks ?n (sm_sent y) ?a (?l div ?n))"
    using inv by (simp add: sm_inv_def Let_def)
  ultimately show ?thesis using a rl b bk un by (intro exI [of _ ?t]) (simp add: marks_Cons)
qed

lemma sm_ack:
  assumes inv: "sm_inv i y" and b: "sm_back y = p # ps" and v: "get_accept_min_version ltx = Some v" "v \<le> 1"
    and pr: "sendme_process_circuit_level ltx now g c (sm_tx y) cfx None p = Some (g', tx', cfx', r, acts)"
  shows "r = None \<and> sm_inv i (y\<lparr>sm_tx := tx', sm_back := ps, sm_acked := Suc (sm_acked y)\<rparr>)"
proof -
  obtain t ds where h: "p = sm_payload t" "sendme_last_digests (sm_tx y) = stored_tag t # ds"
    "relay_crypto_sendme_tag_len (crypto (sm_tx y)) = length t" "sm_inc (sm_tx y) \<le> unacked (sm_tx y)"
    "ds = map stored_tag (marks (sm_inc (sm_tx y)) (sm_sent y) (Suc (sm_acked y)) (length (sm_sent y) div sm_inc (sm_tx y)))"
    "ps = map sm_payload (marks (sm_inc (sm_tx y)) (sm_sent y) (Suc (sm_acked y)) (sm_received y div sm_inc (sm_tx y)))"
    "Suc (sm_acked y) \<le> sm_received y div sm_inc (sm_tx y)"
    using sm_head [OF inv b] by metis
  have ok: "tx_ok (sm_tx y)" using inv by (simp add: sm_inv_def Let_def)
  have q: "r = None" "tx_ok tx'" "unacked tx' = unacked (sm_tx y) - sm_inc (sm_tx y)" "sm_inc tx' = sm_inc (sm_tx y)"
    "sendme_last_digests tx' = ds" "crypto tx' = crypto (sm_tx y)"
    using process_ack [OF ok h(2,3) v h(4) pr [unfolded h(1)]] by simp_all
  have rc: "sm_received (y\<lparr>sm_tx := tx', sm_back := ps, sm_acked := a\<rparr>) = sm_received y" for a by (simp add: sm_received_def)
  have "sm_inv i (y\<lparr>sm_tx := tx', sm_back := ps, sm_acked := Suc (sm_acked y)\<rparr>)"
    unfolding sm_inv_def rc using inv q(2-6) h(4-7) by (simp add: sm_inv_def Let_def)
  then show ?thesis using q(1) by simp
qed

definition sm_start :: "nat \<Rightarrow> sm_sys \<Rightarrow> bool" where
  "sm_start i y = (tx_ok (sm_tx y) \<and> sm_inc (sm_tx y) \<le> 1000 \<and> unacked (sm_tx y) = 0 \<and> sendme_last_digests (sm_tx y) = []
     \<and> rx_ok (sm_rx y) i (sm_inc (sm_tx y)) (rc_kind (crypto (sm_tx y))) 0
     \<and> sm_fwd y = [] \<and> sm_back y = [] \<and> sm_sent y = [] \<and> sm_acked y = 0)"

lemma sm_reachable_inv:
  assumes "sm_reachable ltx lrx i y0 y" "sm_start i y0"
    and e: "get_emit_min_version lrx = Some 1" and v: "get_accept_min_version ltx = Some v" "v \<le> 1"
  shows "sm_inv i y"
  using assms(1,2)
proof induction
  case start
  then show ?case by (simp add: sm_start_def sm_inv_def sm_received_def marks_def Let_def)
next
  case (next_step y y')
  then have inv: "sm_inv i y" by simp
  from next_step.hyps(2) show ?case
  proof cases
    case (send t tx1 now tx2 w)
    then show ?thesis using sm_send [OF inv send(2,3)] by (metis option.inject prod.inject)
  next
    case (recv t ts rx1 w c rx2 acts)
    then show ?thesis using sm_recv [OF inv recv(2) e] by (metis option.inject prod.inject)
  next
    case (ack p ps now g c cfx g' tx' cfx' acts)
    then show ?thesis using sm_ack [OF inv ack(2) v ack(3)] by simp
  qed
qed

section \<open>Properties\<close>

lemma sm_fwd_bound:
  assumes "sm_inv i y" "c_ccontrol (sm_tx y) = None"
  shows "unacked (sm_tx y) \<le> 1000" "length (sm_fwd y) \<le> 1000" "length (sendme_last_digests (sm_tx y)) \<le> 10"
proof -
  let ?l = "length (sm_sent y)" and ?a = "sm_acked y"
  have n: "sm_inc (sm_tx y) = 100" using assms(2) by (simp add: sm_inc_def)
  have i: "unacked (sm_tx y) + 100 * ?a = ?l" "?a \<le> sm_received y div 100" "length (sm_fwd y) \<le> ?l"
    "length (sendme_last_digests (sm_tx y)) = ?l div 100 - ?a"
    using assms(1) n by (simp_all add: sm_inv_def Let_def marks_def)
  have "0 \<le> package_window (sm_tx y)" using assms by (simp add: sm_inv_def Let_def tx_ok_def)
  then show u: "unacked (sm_tx y) \<le> 1000" using assms(2) by (simp add: unacked_def nat_le_iff)
  have "100 * ?a \<le> sm_received y" using i(2) by (metis dual_order.trans mult_le_mono2 times_div_less_eq_dividend)
  then show "length (sm_fwd y) \<le> 1000" using i(1,3) u by (simp add: sm_received_def)
  have "?l div 100 \<le> (1000 + 100 * ?a) div 100" using i(1) u by (intro div_le_mono) simp
  then show "length (sendme_last_digests (sm_tx y)) \<le> 10" using i(4) by simp
qed

lemma process_fixed_window:
  assumes "sm_inv i y" "c_ccontrol (sm_tx y) = None" "sm_back y = p # ps" "get_accept_min_version ltx = Some v" "v \<le> 1"
  shows "\<exists>tx' acts. sendme_process_circuit_level ltx now g c (sm_tx y) cfx None p = Some (g, tx', cfx, None, acts)"
proof -
  obtain t ds where h: "p = sm_payload t" "sendme_last_digests (sm_tx y) = stored_tag t # ds"
    "relay_crypto_sendme_tag_len (crypto (sm_tx y)) = length t" "sm_inc (sm_tx y) \<le> unacked (sm_tx y)"
    using sm_head [OF assms(1,3)] by metis
  have no: "\<not> is_origin (sm_tx y)" using assms(1) by (simp add: sm_inv_def Let_def tx_ok_def)
  have "package_window (sm_tx y) \<le> 900" using h(4) assms(2) by (simp add: unacked_def sm_inc_def)
  then show ?thesis
    using sendme_v1_accepted [OF no h(2,3) assms(4,5)] no assms(2)
    by (simp add: sendme_process_circuit_level_def hop_of_def hop_ccontrol_def sendme_process_circuit_level_impl_def h(1))
qed

text \<open>
  C23: The window protocol does not close an honest circuit.  The setting: DATA cells from a relay to
  the hop of a client and SENDMEs back, one direction only; the receiver emits version 1 and the
  sender accepts it; the circuit starts with windows of 1000 cells or with a congestion control
  object whose increment is 2 or more.  Whatever the interleaving of cells and SENDMEs: the
  receiver's window never drops below zero, every SENDME that comes back carries the tag the sender
  expects next and is valid, and with fixed windows it is processed without error, no more than
  1000 cells are under way and no more than 10 tags are kept.
\<close>

theorem sendme_window_protocol:
  assumes "sm_reachable ltx lrx i y0 y" and "sm_start i y0"
    and "get_emit_min_version lrx = Some 1" and "get_accept_min_version ltx = Some v" and "v \<le> 1"
  shows "(\<forall>t ts. sm_fwd y = t # ts \<longrightarrow>
           (\<exists>rx1 w. sendme_circuit_data_received (hop_upd i (\<lambda>h. h\<lparr>pvt_crypto := with_tag t (pvt_crypto h)\<rparr>) (sm_rx y)) (Some i)
              = Some (rx1, w) \<and> 0 \<le> w))
    \<and> (\<forall>p ps. sm_back y = p # ps \<longrightarrow> (\<exists>tx'. sendme_is_valid ltx (sm_tx y) None p = Some (tx', True)))
    \<and> (c_ccontrol (sm_tx y) = None \<longrightarrow> 0 \<le> package_window (sm_tx y) \<and> length (sm_fwd y) \<le> 1000
         \<and> length (sendme_last_digests (sm_tx y)) \<le> 10
         \<and> (\<forall>p ps now g c cfx. sm_back y = p # ps \<longrightarrow>
              (\<exists>tx' acts. sendme_process_circuit_level ltx now g c (sm_tx y) cfx None p = Some (g, tx', cfx, None, acts))))"
proof -
  note inv = sm_reachable_inv [OF assms]
  have no: "\<not> is_origin (sm_tx y)" using inv by (simp add: sm_inv_def Let_def tx_ok_def)
  have rcv: "\<exists>rx1 w. sendme_circuit_data_received (hop_upd i (\<lambda>h. h\<lparr>pvt_crypto := with_tag t (pvt_crypto h)\<rparr>) (sm_rx y)) (Some i)
      = Some (rx1, w) \<and> 0 \<le> w" if "sm_fwd y = t # ts" for t ts
    using sm_recv [OF inv that assms(3)] by blast
  have val: "\<exists>tx'. sendme_is_valid ltx (sm_tx y) None p = Some (tx', True)" if b: "sm_back y = p # ps" for p ps
  proof -
    obtain t ds where h: "p = sm_payload t" "sendme_last_digests (sm_tx y) = stored_tag t # ds"
      "relay_crypto_sendme_tag_len (crypto (sm_tx y)) = length t" using sm_head [OF inv b] by metis
    from sendme_v1_accepted [OF no h(2,3) assms(4,5)] show ?thesis unfolding h(1) by blast
  qed
  have win: "c_ccontrol (sm_tx y) = None \<Longrightarrow> 0 \<le> package_window (sm_tx y)" using inv by (simp add: sm_inv_def Let_def tx_ok_def)
  show ?thesis using rcv val win sm_fwd_bound [OF inv] process_fixed_window [OF inv _ _ assms(4,5)] by blast
qed

text \<open>
  C24: The sender is never stuck: when its fixed window is used up, cells or SENDMEs are still under
  way, so that the window will open again.
\<close>

theorem sendme_window_reopens:
  assumes "sm_reachable ltx lrx i y0 y" and "sm_start i y0"
    and "get_emit_min_version lrx = Some 1" and "get_accept_min_version ltx = Some v" and "v \<le> 1"
    and "c_ccontrol (sm_tx y) = None" and "package_window (sm_tx y) = 0"
  shows "sm_fwd y \<noteq> [] \<or> sm_back y \<noteq> []"
proof (cases "sm_fwd y = []")
  case True
  note inv = sm_reachable_inv [OF assms(1-5)]
  let ?l = "length (sm_sent y)"
  have n: "sm_inc (sm_tx y) = 100" "unacked (sm_tx y) = 1000" using assms(6,7) by (simp_all add: sm_inc_def unacked_def)
  have r: "sm_received y = ?l" using True by (simp add: sm_received_def)
  have "?l = 1000 + 100 * sm_acked y" using inv n by (simp add: sm_inv_def Let_def)
  then have "sm_acked y < ?l div 100" by simp
  then have "sm_back y \<noteq> []" using inv n r by (simp add: sm_inv_def Let_def marks_def)
  then show ?thesis by simp
qed simp

text \<open>
  C25: What a SENDME proves: with a consensus that asks for version 1, on a circuit of a client or on
  one of a relay that was not made by the legacy handshake (CREATE_FAST; there version 0 without a
  tag is still accepted), a SENDME that is accepted begins with the version, the length and
  exactly the tag that was recorded first, which is then no longer expected.  The length is the one
  of the cryptography of the hop the SENDME comes from, or of the relay's circuit; the tags that
  were recorded have 20 bytes.
\<close>

theorem sendme_valid_authenticates:
  assumes "sendme_is_valid latest s layer_hint payload = Some (s', True)" and "get_accept_min_version latest = Some 1"
    and "is_origin s \<or> \<not> used_legacy_circuit_handshake s" and "list_all (\<lambda>d. length d = 20) (sendme_last_digests s)"
  shows "\<exists>hop n d ds rest. hop_of s layer_hint = Some hop \<and>
    n = relay_crypto_sendme_tag_len (case hop of Some h \<Rightarrow> pvt_crypto h | None \<Rightarrow> crypto s)
    \<and> sendme_last_digests s = d # ds \<and> sendme_last_digests s' = ds \<and> payload = 1 # be_encode 2 n @ take n d @ rest"
proof -
  obtain hop where h: "hop_of s layer_hint = Some hop" using assms(1) by (cases "hop_of s layer_hint") (simp_all add: sendme_is_valid_def)
  let ?n = "relay_crypto_sendme_tag_len (case hop of Some h \<Rightarrow> pvt_crypto h | None \<Rightarrow> crypto s)"
  have h0: "cell_version_can_be_handled latest 0 = Some False" using assms(2) by (simp add: cell_version_can_be_handled_def)
  obtain cell where cell: "sendme_cell_parse payload = Inr cell" "payload \<noteq> []"
    using assms(1,3) h0 by (cases "payload = []") (auto simp: sendme_is_valid_def h Let_def split: sum.splits)
  have "sm_version cell = 1 \<or> sm_version cell = 0"
    using cell(1) by (auto simp: sendme_cell_parse_def take_bytes_def sum_bind_def Let_def split: if_splits sum.splits prod.splits)
  then have v1: "sm_version cell = 1" using assms(1,3) h0 cell by (auto simp: sendme_is_valid_def h Let_def)
  have h1: "cell_version_can_be_handled latest 1 = Some True" using assms(2) by (simp add: cell_version_can_be_handled_def)
  have no: "hop \<noteq> None \<or> \<not> is_origin s" using assms(1) v1 cell h1 by (auto simp: sendme_is_valid_def h Let_def)
  obtain d ds where d: "sendme_last_digests s = d # ds"
    using assms(1) v1 cell h1 no by (cases "sendme_last_digests s") (auto simp: sendme_is_valid_def h Let_def pop_Nil split: option.splits if_splits)
  then have ok: "cell_v1_is_valid cell d ?n" "sendme_last_digests s' = ds"
    using assms(1) v1 cell h1 no by (auto simp: sendme_is_valid_def h Let_def pop_Cons split: option.splits if_splits)
  obtain rest where p: "payload = 1 # be_encode 2 (unat (sm_data_len cell)) @ sm_digest cell @ rest"
      "length (sm_digest cell) = unat (sm_data_len cell)" using parse_version1 [OF cell(1) v1] by blast
  have "unat (sm_data_len cell) = ?n" "take ?n d = sm_digest cell"
    using ok(1) p(2) by (simp_all add: cell_v1_is_valid_def v1_tag_matches_def Let_def split: if_splits)
  then show ?thesis using d ok(2) p h by auto
qed

text \<open>
  The loop that emits SENDMEs ends for every positive increment, whatever the window and the
  outcome of each send.
\<close>

theorem sendme_loop_ends:
  assumes "hop_at circ i = Some h" and "get_emit_min_version latest = Some 1"
    and "length (rc_tag (pvt_crypto h)) = relay_crypto_sendme_tag_len (pvt_crypto h)"
    and "0 < sendme_get_inc_count circ (Some h)"
  shows "\<exists>circ' acts. sendme_circuit_consider_sending latest ok c circ (Some i) = Some (circ', acts)"
  using sendme_loop_terminates [OF assms(1,2) _ assms(4), of ok 0 c "[]"] assms(1,3)
  by (simp add: sendme_circuit_consider_sending_def hop_of_def tag_sized_def)

section \<open>A circuit at work\<close>

definition demo_hop :: crypt_path_t where
  "demo_hop = \<lparr>cp_id = 7, cp_extend_info = None, pvt_crypto = \<lparr>rc_kind = RCK_TOR1, rc_tag = replicate 20 0\<rparr>, cp_package_window = 1000,
     cp_deliver_window = 1000, cp_ccontrol = None\<rparr>"

definition demo_sm :: sm_sys where
  "demo_sm = \<lparr>sm_tx = exit_circ, sm_fwd = [], sm_back = [], sm_rx = exit_circ\<lparr>is_origin := True, cpath := [demo_hop]\<rparr>,
     sm_sent = [], sm_acked = 0\<rparr>"

lemma demo_sm_start: "sm_start 7 demo_sm"
  by (simp add: sm_start_def demo_sm_def tx_ok_def sm_inc_def unacked_def exit_circ_def rx_ok_def hop_at_def demo_hop_def hop_inc_def)

lemma default_versions: "get_emit_min_version None = Some 1" "get_accept_min_version None = Some 0"
  by (simp_all add: get_emit_min_version_def get_accept_min_version_def networkstatus_get_param_def)

lemmas demo_inv = sm_reachable_inv [OF _ demo_sm_start default_versions(1,2) zero_le_one]

lemma demo_fill:
  "k \<le> 1000 \<Longrightarrow> \<exists>y. sm_reachable None None 7 demo_sm y \<and> c_ccontrol (sm_tx y) = None \<and> sm_acked y = 0
     \<and> length (sm_sent y) = k \<and> length (sm_fwd y) = k \<and> package_window (sm_tx y) = 1000 - int k"
proof (induction k)
  case 0
  have "sm_reachable None None 7 demo_sm demo_sm" by (rule sm_reachable.start)
  then show ?case by (intro exI [of _ demo_sm]) (simp add: demo_sm_def exit_circ_def)
next
  case (Suc k)
  then obtain y where y: "sm_reachable None None 7 demo_sm y" "c_ccontrol (sm_tx y) = None" "sm_acked y = 0"
    "length (sm_sent y) = k" "length (sm_fwd y) = k" "package_window (sm_tx y) = 1000 - int k" by auto
  let ?t = "replicate (relay_crypto_sendme_tag_len (crypto (sm_tx y))) 1 :: u8 list"
  have w: "0 < congestion_control_get_package_window (sm_tx y) None"
    using y(2,6) Suc.prems by (simp add: congestion_control_get_package_window_def hop_ccontrol_def hop_window_def)
  have tl: "length ?t = relay_crypto_sendme_tag_len (crypto (sm_tx y))" by simp
  from sm_send [OF demo_inv [OF y(1)] tl w] obtain tx1 tx2 w2 where
    s: "sendme_record_cell_digest_on_circ ((sm_tx y)\<lparr>crypto := with_tag ?t (crypto (sm_tx y))\<rparr>) None = Some tx1"
    "sendme_note_circuit_data_packaged 0 tx1 None = Some (tx2, w2)" "c_ccontrol tx2 = None" using y(2) by blast
  let ?y = "y\<lparr>sm_tx := tx2, sm_fwd := sm_fwd y @ [?t], sm_sent := sm_sent y @ [?t]\<rparr>"
  have r: "sm_reachable None None 7 demo_sm ?y" by (rule sm_reachable.next_step [OF y(1) sm_step.send [OF tl w s(1,2)]])
  have "unacked tx2 = Suc k" "tx_ok tx2" using demo_inv [OF r] y(3,4) by (simp_all add: sm_inv_def Let_def)
  then have "package_window tx2 = 1000 - int (Suc k)" using s(3) by (simp add: unacked_def tx_ok_def)
  then show ?case using r s(3) y by (intro exI [of _ ?y]) simp
qed

lemma demo_drain:
  "sm_reachable None None 7 demo_sm y \<Longrightarrow> \<exists>y'. sm_reachable None None 7 demo_sm y' \<and> sm_fwd y' = [] \<and> sm_tx y' = sm_tx y"
proof (induction "sm_fwd y" arbitrary: y)
  case Nil
  then show ?case by (intro exI [of _ y]) simp
next
  case (Cons t ts)
  from sm_recv [OF demo_inv [OF Cons(3)] Cons(2) [symmetric] default_versions(1)] obtain rx1 w rx2 acts where
    r: "sendme_circuit_data_received (hop_upd 7 (\<lambda>h. h\<lparr>pvt_crypto := with_tag t (pvt_crypto h)\<rparr>) (sm_rx y)) (Some 7) = Some (rx1, w)"
    "0 \<le> w" "sendme_circuit_consider_sending None (\<lambda>_. True) 0 rx1 (Some 7) = Some (rx2, acts)" by blast
  note st = sm_reachable.next_step [OF Cons(3) sm_step.recv [OF Cons(2) [symmetric] r]]
  show ?case using Cons(1) [OF _ st] by simp
qed

theorem sendme_window_protocol_witness:
  "\<exists>y p ps tx'. sm_reachable None None 7 demo_sm y \<and> sm_back y = p # ps
     \<and> sendme_is_valid None (sm_tx y) None p = Some (tx', True) \<and> package_window (sm_tx y) = 0"
proof -
  obtain y0 where y0: "sm_reachable None None 7 demo_sm y0" "package_window (sm_tx y0) = 0" "c_ccontrol (sm_tx y0) = None"
    using demo_fill [of 1000] by auto
  obtain y where y: "sm_reachable None None 7 demo_sm y" "sm_fwd y = []" "sm_tx y = sm_tx y0" using demo_drain [OF y0(1)] by blast
  have inv: "sm_inv 7 y" using demo_inv [OF y(1)] .
  have "sm_back y \<noteq> []"
  proof -
    have "length (sm_sent y) = 1000 + 100 * sm_acked y" "sm_received y = length (sm_sent y)"
      using inv y y0 by (simp_all add: sm_inv_def Let_def sm_inc_def unacked_def sm_received_def)
    then show ?thesis using inv y y0 by (simp add: sm_inv_def Let_def sm_inc_def marks_def)
  qed
  then obtain p ps where p: "sm_back y = p # ps" by (cases "sm_back y") auto
  from sendme_window_protocol [OF y(1) demo_sm_start default_versions(1,2) zero_le_one] p y y0 show ?thesis by auto
qed

theorem sendme_window_reopens_witness:
  "\<exists>y. sm_reachable None None 7 demo_sm y \<and> package_window (sm_tx y) = 0 \<and> (sm_fwd y \<noteq> [] \<or> sm_back y \<noteq> [])"
proof -
  obtain y where y: "sm_reachable None None 7 demo_sm y" "package_window (sm_tx y) = 0" "c_ccontrol (sm_tx y) = None"
    using demo_fill [of 1000] by auto
  from sendme_window_reopens [OF y(1) demo_sm_start default_versions(1,2) zero_le_one y(3,2)] y show ?thesis by blast
qed

definition strict_consensus :: networkstatus where
  "strict_consensus = \<lparr>net_params = Some [''sendme_accept_min_version=1''], routerstatus_list = []\<rparr>"

lemma strict_accept: "get_accept_min_version (Some strict_consensus) = Some 1"
  by code_simp

theorem sendme_valid_authenticates_witness:
  "\<exists>d ds rest. [stored_tag (replicate 20 5)] = d # ds \<and> sm_payload (replicate 20 5) = 1 # be_encode 2 20 @ take 20 d @ rest"
proof -
  let ?s = "exit_circ\<lparr>sendme_last_digests := [stored_tag (replicate 20 5)]\<rparr>"
  have v: "sendme_is_valid (Some strict_consensus) ?s None (sm_payload (replicate 20 5)) = Some (?s\<lparr>sendme_last_digests := []\<rparr>, True)"
    by (rule sendme_v1_accepted [OF _ _ _ strict_accept]) (simp_all add: exit_circ_def relay_crypto_sendme_tag_len_def)
  from sendme_valid_authenticates [OF v strict_accept] show ?thesis
    by (simp add: hop_of_def exit_circ_def relay_crypto_sendme_tag_len_def stored_tag_def del: be_encode.simps)
qed

theorem sendme_loop_ends_witness:
  "\<exists>circ' acts. sendme_circuit_consider_sending None (\<lambda>k. k < 2) 1
     (exit_circ\<lparr>is_origin := True, cpath := [demo_hop\<lparr>cp_deliver_window := 200\<rparr>]\<rparr>) (Some 7) = Some (circ', acts)"
  by (rule sendme_loop_ends [of _ _ "demo_hop\<lparr>cp_deliver_window := 200\<rparr>", OF _ default_versions(1)])
     (simp_all add: hop_at_def demo_hop_def relay_crypto_sendme_tag_len_def sendme_get_inc_count_def hop_ccontrol_def)

section \<open>The smallest increment\<close>

text \<open>A circuit with congestion control and an increment of 1, which the consensus may ask for.\<close>

definition inc1_cc :: congestion_control_t where
  "inc1_cc = cc_zero\<lparr>sendme_inc := 1, cwnd := 124\<rparr>"

definition inc1_tx :: circuit_t where
  "inc1_tx = exit_circ\<lparr>c_ccontrol := Some inc1_cc\<rparr>"

definition inc1_rx :: circuit_t where
  "inc1_rx = exit_circ\<lparr>is_origin := True, cpath := [demo_hop\<lparr>cp_ccontrol := Some inc1_cc, cp_deliver_window := 999\<rparr>]\<rparr>"

text \<open>
  With a SENDME increment of 1 (the lower limit of the consensus parameter) the first cell
  closes the circuit: the sender records no tag for it, because nothing was in flight before it;
  the receiver acknowledges it; and the sender refuses the acknowledgement for lack of a tag.
\<close>

theorem sendme_inc_one_closes_circuit:
  "sendme_record_cell_digest_on_circ inc1_tx None = Some inc1_tx
    \<and> (\<exists>rx acts. sendme_circuit_consider_sending None (\<lambda>_. True) 1 inc1_rx (Some 7) = Some (rx, acts)
         \<and> sendme_payloads acts = [sm_payload (replicate 20 0)])
    \<and> (\<forall>g now cfx. sendme_process_circuit_level None now g 1 inc1_tx cfx None (sm_payload (replicate 20 0))
         = Some (g, inc1_tx, cfx, Some END_CIRC_REASON_TORPROTOCOL, []))"
proof (intro conjI allI)
  show "sendme_record_cell_digest_on_circ inc1_tx None = Some inc1_tx"
    by (simp add: sendme_record_cell_digest_on_circ_def hop_of_def circuit_sent_cell_for_sendme_def hop_ccontrol_def inc1_tx_def
        inc1_cc_def cc_zero_def)
  let ?h = "demo_hop\<lparr>cp_ccontrol := Some inc1_cc, cp_deliver_window := 999\<rparr>"
  have h: "hop_at inc1_rx 7 = Some ?h" "tag_sized (pvt_crypto ?h)" "hop_inc ?h = 1"
    by (simp_all add: hop_at_def inc1_rx_def tag_sized_def demo_hop_def relay_crypto_sendme_tag_len_def hop_inc_def inc1_cc_def)
  have w: "0 < hop_inc ?h" "1000 - 2 * int (hop_inc ?h) < cp_deliver_window ?h" "1 = int (hop_inc ?h)"
    by (simp_all add: h(3))
  have tg: "rc_tag (pvt_crypto demo_hop) = replicate 20 0" by (simp add: demo_hop_def)
  show "\<exists>rx acts. sendme_circuit_consider_sending None (\<lambda>_. True) 1 inc1_rx (Some 7) = Some (rx, acts)
      \<and> sendme_payloads acts = [sm_payload (replicate 20 0)]"
    using consider_sending_one [OF h(1) default_versions(1) h(2) w, of 1] by (simp add: h(3) tg)
  fix g now cfx
  have "tag_len_ok (length (replicate 20 0 :: u8 list))" by (simp add: tag_len_ok_def)
  from parse_payload [OF this] show "sendme_process_circuit_level None now g 1 inc1_tx cfx None (sm_payload (replicate 20 0))
      = Some (g, inc1_tx, cfx, Some END_CIRC_REASON_TORPROTOCOL, [])"
    by (simp add: sendme_process_circuit_level_def sendme_is_valid_def hop_of_def cell_version_can_be_handled_def
        default_versions inc1_tx_def exit_circ_def relay_crypto_sendme_tag_len_def pop_Nil Let_def)
qed

section \<open>Streams\<close>

lemma stream_loop_spec:
  "w \<le> 500 \<Longrightarrow> \<exists>n. stream_sendme_loop (\<lambda>_. True) k w = (w + 50 * int n, k + n) \<and> 450 < w + 50 * int n \<and> w + 50 * int n \<le> 500"
proof (induction "nat (500 - w)" arbitrary: k w rule: less_induct)
  case less
  show ?case
  proof (cases "w \<le> 450")
    case False
    then show ?thesis using less.prems by (intro exI [of _ 0]) (simp add: stream_sendme_loop.simps)
  next
    case True
    then obtain n where n: "stream_sendme_loop (\<lambda>_. True) (Suc k) (w + 50) = (w + 50 + 50 * int n, Suc k + n)"
        "450 < w + 50 + 50 * int n" "w + 50 + 50 * int n \<le> 500"
      using less.hyps [of "w + 50" "Suc k"] by auto
    then show ?thesis using True by (intro exI [of _ "Suc n"]) (subst stream_sendme_loop.simps, simp)
  qed
qed

text \<open>
  Stream-level SENDMEs restore the stream's window: with an empty buffer and working sends the
  delivery window ends above 450 and at most 500, having moved by 50 for each SENDME sent; and a
  stream SENDME is accepted exactly while it keeps the package window at or below 500.
\<close>

theorem stream_sendme_windows:
  assumes "\<not> edge_uses_flow_control circs conn" and "\<not> connection_outbuf_too_full conn" and "on_circuit conn = Some d"
    and "e_deliver_window conn \<le> 500"
  shows "(\<exists>n. sendme_connection_edge_consider_sending (\<lambda>_. True) circs conn = (conn\<lparr>e_deliver_window := e_deliver_window conn + 50 * int n\<rparr>, n)
      \<and> 450 < e_deliver_window conn + 50 * int n \<and> e_deliver_window conn + 50 * int n \<le> 500)
    \<and> (fst (snd (sendme_process_stream_level circs conn c len)) = None) = (e_package_window conn \<le> 450)"
proof -
  obtain n where n: "stream_sendme_loop (\<lambda>_. True) 0 (e_deliver_window conn) = (e_deliver_window conn + 50 * int n, n)"
    "450 < e_deliver_window conn + 50 * int n" "e_deliver_window conn + 50 * int n \<le> 500"
    using stream_loop_spec [OF assms(4), of 0] by auto
  then have "\<exists>n. sendme_connection_edge_consider_sending (\<lambda>_. True) circs conn = (conn\<lparr>e_deliver_window := e_deliver_window conn + 50 * int n\<rparr>, n)
      \<and> 450 < e_deliver_window conn + 50 * int n \<and> e_deliver_window conn + 50 * int n \<le> 500"
    using assms by (intro exI [of _ n]) (simp add: sendme_connection_edge_consider_sending_def)
  moreover have "(fst (snd (sendme_process_stream_level circs conn c len)) = None) = (e_package_window conn \<le> 450)"
    using assms(1) by (simp add: sendme_process_stream_level_def)
  ultimately show ?thesis by blast
qed

definition demo_stream :: edge_connection_t where
  "demo_stream = \<lparr>conn_is_ap = True, outbuf_len = 0, e_package_window = 500, e_deliver_window = 300,
     on_circuit = Some 1, cpath_layer = None, has_hs_ident = False,
     bucket = token_bucket_rw_init 1000 1000 1000 0, drain_start_usec = 0, xoff_grace_period_start_usec = 0,
     drained_bytes = 0, prev_drained_bytes = 0, ewma_drain_rate = 0, ewma_rate_last_sent = 0, total_bytes_xmit = 0,
     num_xoff_recv = 0, num_xon_recv = 0, xoff_sent = False, xoff_received = False\<rparr>"

theorem stream_sendme_windows_witness:
  "\<exists>n. sendme_connection_edge_consider_sending (\<lambda>_. True) (\<lambda>_. exit_circ) demo_stream =
      (demo_stream\<lparr>e_deliver_window := 300 + 50 * int n\<rparr>, n) \<and> 450 < 300 + 50 * int n
    \<and> fst (snd (sendme_process_stream_level (\<lambda>_. exit_circ) demo_stream 1 0)) \<noteq> None"
proof -
  have h: "\<not> edge_uses_flow_control (\<lambda>_. exit_circ) demo_stream" "\<not> connection_outbuf_too_full demo_stream"
    "on_circuit demo_stream = Some 1" "e_deliver_window demo_stream \<le> 500" "e_deliver_window demo_stream = 300"
    "e_package_window demo_stream = 500"
    by (simp_all add: edge_uses_flow_control_def demo_stream_def exit_circ_def connection_outbuf_too_full_def)
  from stream_sendme_windows [OF h(1-4), of 1 0] show ?thesis unfolding h(5,6) by auto
qed

end
