(* ===== verification/RelayMsg.thy ===== *)
theory RelayMsg
  imports FlowControl Sendme
begin

text \<open>
  Relay messages in cells (\<^verbatim>\<open>core/or/relay_msg.c\<close>, \<^verbatim>\<open>core/or/relay_msg.h\<close>), the packing of cells for
  the network (\<^verbatim>\<open>core/or/connection_or.c\<close>), and the parsers of \<^verbatim>\<open>core/or/relay.c\<close> for the answers to
  BEGIN and RESOLVE.

  A payload is a list of bytes, and a pointer into it an offset.  \<open>rng\<close> are the random bytes of the
  padding: \<open>rng n\<close> is what \<^verbatim>\<open>crypto_fast_rng_getbytes\<close> writes for a request of \<open>n\<close> bytes.
\<close>

section \<open>Buffers\<close>

text \<open>Writing bytes at an offset and reading them back.\<close>

definition put_bytes :: "nat \<Rightarrow> u8 list \<Rightarrow> u8 list \<Rightarrow> u8 list" where
  "put_bytes off bs p = take off p @ bs @ drop (off + length bs) p"

definition get_bytes :: "nat \<Rightarrow> nat \<Rightarrow> u8 list \<Rightarrow> u8 list" where
  "get_bytes off n p = take n (drop off p)"

lemma length_put_bytes [simp]: "off + length bs \<le> length p \<Longrightarrow> length (put_bytes off bs p) = length p"
  by (simp add: put_bytes_def)

lemma get_put_same [simp]: "off + length bs \<le> length p \<Longrightarrow> n = length bs \<Longrightarrow> get_bytes off n (put_bytes off bs p) = bs"
  by (simp add: put_bytes_def get_bytes_def)

lemma get_put_before [simp]:
  assumes "off + length bs \<le> length p" and "off' + n \<le> off"
  shows "get_bytes off' n (put_bytes off bs p) = get_bytes off' n p"
  using assms by (simp add: put_bytes_def get_bytes_def take_drop min_def)

lemma get_put_after [simp]:
  assumes "off + length bs \<le> length p" and "off + length bs \<le> off'"
  shows "get_bytes off' n (put_bytes off bs p) = get_bytes off' n p"
proof -
  have "drop off' (put_bytes off bs p) = drop off' p"
    using assms by (simp add: put_bytes_def drop_append)
  then show ?thesis by (simp add: get_bytes_def)
qed

lemma get_bytes_replicate [simp]: "get_bytes off n (replicate k x) = replicate (min n (k - off)) x"
  by (simp add: get_bytes_def)

lemma get_bytes_0 [simp]: "get_bytes off 0 p = []"
  by (simp add: get_bytes_def)

lemma nth_get_bytes: "i < length p \<Longrightarrow> p ! i = hd (get_bytes i 1 p)"
  by (simp add: get_bytes_def hd_drop_conv_nth)

lemma length_get_bytes [simp]: "length (get_bytes off n p) = min n (length p - off)"
  by (simp add: get_bytes_def)

lemma be_u16_roundtrip: "of_nat (be_decode (be_encode 2 (unat (w :: u16)))) = w"
  using unat_u16_less [of w] by (simp add: be_decode_encode del: be_encode.simps)

section \<open>Relay messages\<close>

datatype relay_cell_fmt_t = RELAY_CELL_FORMAT_V0 | RELAY_CELL_FORMAT_V1

record cell_t =
  cell_circ_id :: u32
  cell_command :: u8
  cell_payload :: "u8 list"

abbreviation "CELL_DESTROY \<equiv> 4 :: u8"
abbreviation "CELL_RELAY \<equiv> 3 :: u8"
abbreviation "CELL_RELAY_EARLY \<equiv> 9 :: u8"
abbreviation "CELL_MAX_NETWORK_SIZE \<equiv> 514 :: nat"
abbreviation "RELAY_HEADER_SIZE_V0 \<equiv> 11 :: nat"
abbreviation "RELAY_HEADER_SIZE_V1_NO_STREAM_ID \<equiv> 19 :: nat"
abbreviation "RELAY_HEADER_SIZE_V1_WITH_STREAM_ID \<equiv> 21 :: nat"

abbreviation "RELAY_COMMAND_BEGIN \<equiv> 1 :: int"
abbreviation "RELAY_COMMAND_END \<equiv> 3 :: int"
abbreviation "RELAY_COMMAND_CONNECTED \<equiv> 4 :: int"
abbreviation "RELAY_COMMAND_RESOLVE \<equiv> 11 :: int"
abbreviation "RELAY_COMMAND_RESOLVED \<equiv> 12 :: int"
abbreviation "RELAY_COMMAND_BEGIN_DIR \<equiv> 13 :: int"

text \<open>The commands are not contiguous: 1 to 15, the conflux ones, the onion service ones, padding, flow control.\<close>

definition is_known_relay_command :: "int \<Rightarrow> bool" where
  "is_known_relay_command cmd = (1 \<le> cmd \<and> cmd \<le> 15 \<or> 19 \<le> cmd \<and> cmd \<le> 22 \<or> 32 \<le> cmd \<and> cmd \<le> 44)"

definition relay_cmd_expects_streamid_in_v1 :: "int \<Rightarrow> bool" where
  "relay_cmd_expects_streamid_in_v1 relay_command =
     (relay_command = RELAY_COMMAND_BEGIN \<or> relay_command = RELAY_COMMAND_BEGIN_DIR \<or>
      relay_command = RELAY_COMMAND_CONNECTED \<or> relay_command = RELAY_COMMAND_DATA \<or>
      relay_command = RELAY_COMMAND_END \<or> relay_command = RELAY_COMMAND_RESOLVE \<or>
      relay_command = RELAY_COMMAND_RESOLVED \<or> relay_command = RELAY_COMMAND_XOFF \<or>
      relay_command = RELAY_COMMAND_XON)"

definition relay_cell_max_payload_size :: "relay_cell_fmt_t \<Rightarrow> int \<Rightarrow> nat" where
  "relay_cell_max_payload_size format relay_command =
     (case format of
        RELAY_CELL_FORMAT_V0 \<Rightarrow> CELL_PAYLOAD_SIZE - RELAY_HEADER_SIZE_V0
      | RELAY_CELL_FORMAT_V1 \<Rightarrow>
          if relay_cmd_expects_streamid_in_v1 relay_command then CELL_PAYLOAD_SIZE - RELAY_HEADER_SIZE_V1_WITH_STREAM_ID
          else CELL_PAYLOAD_SIZE - RELAY_HEADER_SIZE_V1_NO_STREAM_ID)"

text \<open>A copy owns exactly the bytes that the length covers.\<close>

definition relay_msg_copy :: "relay_msg_t \<Rightarrow> relay_msg_t option" where
  "relay_msg_copy m = do {
     tor_assert (unat (rm_length m) \<le> CELL_PAYLOAD_SIZE - RELAY_HEADER_SIZE_V0);
     Some (m\<lparr>rm_body := msg_payload m\<rparr>)
   }"

definition relay_cell_pad :: "(nat \<Rightarrow> u8 list) \<Rightarrow> u8 list \<Rightarrow> nat \<Rightarrow> u8 list" where
  "relay_cell_pad rng payload end_of_message =
     (let skip = 4
      in if end_of_message + skip \<ge> CELL_PAYLOAD_SIZE then payload
         else put_bytes (end_of_message + skip) (rng (CELL_PAYLOAD_SIZE - (end_of_message + skip))) payload)"

text \<open>\<^term>\<open>None\<close> is the return value \<open>-1\<close>; the caller then drops the cell.\<close>

definition encode_v0_cell :: "(nat \<Rightarrow> u8 list) \<Rightarrow> relay_msg_t \<Rightarrow> cell_t \<Rightarrow> cell_t option" where
  "encode_v0_cell rng m cell_out =
     (if unat (rm_length m) > relay_cell_max_payload_size RELAY_CELL_FORMAT_V0 (rm_command m) then None
      else let out = cell_payload cell_out;
               out = put_bytes 0 [word_of_int (rm_command m)] out;
               out = put_bytes 3 (be_encode 2 (unat (rm_stream_id m))) out;
               out = put_bytes 9 (be_encode 2 (unat (rm_length m))) out;
               out = put_bytes RELAY_HEADER_SIZE_V0 (msg_payload m) out
           in Some (cell_out\<lparr>cell_payload := relay_cell_pad rng out (RELAY_HEADER_SIZE_V0 + unat (rm_length m))\<rparr>))"

definition encode_v1_cell :: "(nat \<Rightarrow> u8 list) \<Rightarrow> relay_msg_t \<Rightarrow> cell_t \<Rightarrow> cell_t option" where
  "encode_v1_cell rng m cell_out =
     (let expects_streamid = relay_cmd_expects_streamid_in_v1 (rm_command m)
      in if unat (rm_length m) > relay_cell_max_payload_size RELAY_CELL_FORMAT_V1 (rm_command m) then None
         else let out = cell_payload cell_out;
                  out = put_bytes 16 [word_of_int (rm_command m)] out;
                  out = put_bytes 17 (be_encode 2 (unat (rm_length m))) out
              in if expects_streamid
                 then (if rm_stream_id m = 0 then None
                       else let out = put_bytes 19 (be_encode 2 (unat (rm_stream_id m))) out;
                                out = put_bytes 21 (msg_payload m) out
                            in Some (cell_out\<lparr>cell_payload := relay_cell_pad rng out (21 + unat (rm_length m))\<rparr>))
                 else (if rm_stream_id m \<noteq> 0 then None
                       else let out = put_bytes 19 (msg_payload m) out
                            in Some (cell_out\<lparr>cell_payload := relay_cell_pad rng out (19 + unat (rm_length m))\<rparr>)))"

definition relay_msg_encode_cell :: "(nat \<Rightarrow> u8 list) \<Rightarrow> relay_cell_fmt_t \<Rightarrow> relay_msg_t \<Rightarrow> cell_t option" where
  "relay_msg_encode_cell rng format m =
     (let cell_out = \<lparr>cell_circ_id = 0, cell_command = (if rm_is_relay_early m then CELL_RELAY_EARLY else CELL_RELAY),
                      cell_payload = replicate CELL_PAYLOAD_SIZE 0\<rparr>
      in case format of
           RELAY_CELL_FORMAT_V0 \<Rightarrow> encode_v0_cell rng m cell_out
         | RELAY_CELL_FORMAT_V1 \<Rightarrow> encode_v1_cell rng m cell_out)"

text \<open>The body of a decoded message points into the cell: it reaches to the end of the payload.\<close>

definition decode_v0_cell :: "cell_t \<Rightarrow> relay_msg_t option" where
  "decode_v0_cell cell =
     (let body = cell_payload cell;
          len = of_nat (be_decode (get_bytes 9 2 body)) :: u16
      in if unat len > CELL_PAYLOAD_SIZE - RELAY_HEADER_SIZE_V0 then None
         else Some \<lparr>rm_command = uint (body ! 0), rm_length = len,
                    rm_stream_id = of_nat (be_decode (get_bytes 3 2 body)),
                    rm_is_relay_early = (cell_command cell = CELL_RELAY_EARLY), rm_body = drop 11 body\<rparr>)"

definition decode_v1_cell :: "cell_t \<Rightarrow> relay_msg_t option" where
  "decode_v1_cell cell =
     (let body = cell_payload cell;
          cmd = uint (body ! 16)
      in if \<not> is_known_relay_command cmd then None
         else let len = of_nat (be_decode (get_bytes 17 2 body)) :: u16;
                  (stream_id, payload_offset) =
                    (if relay_cmd_expects_streamid_in_v1 cmd then (of_nat (be_decode (get_bytes 19 2 body)), 21) else (0, 19))
              in if unat len > CELL_PAYLOAD_SIZE - payload_offset then None
                 else Some \<lparr>rm_command = cmd, rm_length = len, rm_stream_id = stream_id,
                            rm_is_relay_early = (cell_command cell = CELL_RELAY_EARLY), rm_body = drop payload_offset body\<rparr>)"

definition relay_msg_decode_cell :: "relay_cell_fmt_t \<Rightarrow> cell_t \<Rightarrow> relay_msg_t option" where
  "relay_msg_decode_cell format cell =
     (case format of RELAY_CELL_FORMAT_V0 \<Rightarrow> decode_v0_cell cell | RELAY_CELL_FORMAT_V1 \<Rightarrow> decode_v1_cell cell)"

section \<open>Round trip\<close>

text \<open>
  A message that the code may pass: the command is a byte, the body holds what the length says.  It
  fits a format when it is not too long, and in version 1 has a stream exactly when its command
  belongs to one.
\<close>

definition msg_ok :: "relay_msg_t \<Rightarrow> bool" where
  "msg_ok m = (0 \<le> rm_command m \<and> rm_command m < 256 \<and> unat (rm_length m) \<le> length (rm_body m))"

definition msg_fits :: "relay_cell_fmt_t \<Rightarrow> relay_msg_t \<Rightarrow> bool" where
  "msg_fits format m = (unat (rm_length m) \<le> relay_cell_max_payload_size format (rm_command m) \<and>
     (format = RELAY_CELL_FORMAT_V1 \<longrightarrow> (rm_stream_id m \<noteq> 0) = relay_cmd_expects_streamid_in_v1 (rm_command m)))"

text \<open>Where the body starts, and which bytes are left to the cryptography.\<close>

definition body_offset :: "relay_cell_fmt_t \<Rightarrow> int \<Rightarrow> nat" where
  "body_offset format cmd =
     (case format of RELAY_CELL_FORMAT_V0 \<Rightarrow> 11 | RELAY_CELL_FORMAT_V1 \<Rightarrow> if relay_cmd_expects_streamid_in_v1 cmd then 21 else 19)"

definition crypto_fields :: "relay_cell_fmt_t \<Rightarrow> u8 list \<Rightarrow> u8 list" where
  "crypto_fields format p =
     (case format of RELAY_CELL_FORMAT_V0 \<Rightarrow> get_bytes 1 2 p @ get_bytes 5 4 p | RELAY_CELL_FORMAT_V1 \<Rightarrow> get_bytes 0 16 p)"

definition rng_ok :: "(nat \<Rightarrow> u8 list) \<Rightarrow> bool" where
  "rng_ok rng = (\<forall>n. length (rng n) = n)"

lemma max_payload_offset: "relay_cell_max_payload_size format cmd = CELL_PAYLOAD_SIZE - body_offset format cmd"
  by (simp add: relay_cell_max_payload_size_def body_offset_def split: relay_cell_fmt_t.split)

lemma body_offset_less: "body_offset format cmd \<le> 21"
  by (simp add: body_offset_def split: relay_cell_fmt_t.split)

lemma length_msg_payload [simp]: "msg_ok m \<Longrightarrow> length (msg_payload m) = unat (rm_length m)"
  by (simp add: msg_ok_def msg_payload_def)

lemma pad_props:
  assumes "rng_ok rng" and "length p = CELL_PAYLOAD_SIZE"
  shows "length (relay_cell_pad rng p e) = CELL_PAYLOAD_SIZE"
    and "off + n \<le> e + 4 \<Longrightarrow> get_bytes off n (relay_cell_pad rng p e) = get_bytes off n p"
    and "get_bytes (e + 4) (CELL_PAYLOAD_SIZE - (e + 4)) (relay_cell_pad rng p e) = rng (CELL_PAYLOAD_SIZE - (e + 4))"
  using assms length_0_conv [of "rng 0"] by (auto simp: relay_cell_pad_def Let_def rng_ok_def)

text \<open>What the encoder writes.\<close>

definition encoded :: "(nat \<Rightarrow> u8 list) \<Rightarrow> relay_cell_fmt_t \<Rightarrow> relay_msg_t \<Rightarrow> u8 list \<Rightarrow> bool" where
  "encoded rng format m p = (let e = body_offset format (rm_command m) + unat (rm_length m) in
     length p = CELL_PAYLOAD_SIZE \<and> get_bytes (body_offset format (rm_command m)) (unat (rm_length m)) p = msg_payload m \<and>
     (\<forall>b \<in> set (crypto_fields format p). b = 0) \<and> (\<forall>b \<in> set (get_bytes e 4 p). b = 0) \<and>
     get_bytes (e + 4) (CELL_PAYLOAD_SIZE - (e + 4)) p = rng (CELL_PAYLOAD_SIZE - (e + 4)) \<and>
     (case format of
        RELAY_CELL_FORMAT_V0 \<Rightarrow> get_bytes 0 1 p = [word_of_int (rm_command m)] \<and>
          get_bytes 3 2 p = be_encode 2 (unat (rm_stream_id m)) \<and> get_bytes 9 2 p = be_encode 2 (unat (rm_length m))
      | RELAY_CELL_FORMAT_V1 \<Rightarrow> get_bytes 16 1 p = [word_of_int (rm_command m)] \<and> get_bytes 17 2 p = be_encode 2 (unat (rm_length m)) \<and>
          (relay_cmd_expects_streamid_in_v1 (rm_command m) \<longrightarrow> get_bytes 19 2 p = be_encode 2 (unat (rm_stream_id m)))))"

lemma encode_v0_ok:
  assumes "msg_ok m" and "rng_ok rng" and "cell_payload c = replicate CELL_PAYLOAD_SIZE 0" and "msg_fits RELAY_CELL_FORMAT_V0 m"
  shows "\<exists>p. encode_v0_cell rng m c = Some (c\<lparr>cell_payload := p\<rparr>) \<and> encoded rng RELAY_CELL_FORMAT_V0 m p"
proof -
  let ?l = "unat (rm_length m)"
  have l: "?l \<le> 498" using assms(4) by (simp add: msg_fits_def relay_cell_max_payload_size_def)
  let ?q = "put_bytes 11 (msg_payload m) (put_bytes 9 (be_encode 2 ?l) (put_bytes 3 (be_encode 2 (unat (rm_stream_id m)))
      (put_bytes 0 [word_of_int (rm_command m)] (replicate CELL_PAYLOAD_SIZE 0))))"
  let ?p = "relay_cell_pad rng ?q (11 + ?l)"
  have q: "length ?q = CELL_PAYLOAD_SIZE" using l assms(1) by (simp del: be_encode.simps)
  note pad = pad_props [OF assms(2) q, where e = "11 + ?l"]
  have "encoded rng RELAY_CELL_FORMAT_V0 m ?p" using l assms(1) pad
    by (simp add: encoded_def body_offset_def crypto_fields_def Let_def del: be_encode.simps)
  then show ?thesis using l assms(3)
    by (auto simp: encode_v0_cell_def relay_cell_max_payload_size_def Let_def simp del: be_encode.simps)
qed

lemma encode_v1_ok:
  assumes "msg_ok m" and "rng_ok rng" and "cell_payload c = replicate CELL_PAYLOAD_SIZE 0" and "msg_fits RELAY_CELL_FORMAT_V1 m"
  shows "\<exists>p. encode_v1_cell rng m c = Some (c\<lparr>cell_payload := p\<rparr>) \<and> encoded rng RELAY_CELL_FORMAT_V1 m p"
proof (cases "relay_cmd_expects_streamid_in_v1 (rm_command m)")
  case True
  let ?l = "unat (rm_length m)"
  have l: "?l \<le> 488" using assms(4) True by (simp add: msg_fits_def relay_cell_max_payload_size_def)
  let ?q = "put_bytes 21 (msg_payload m) (put_bytes 19 (be_encode 2 (unat (rm_stream_id m))) (put_bytes 17 (be_encode 2 ?l)
      (put_bytes 16 [word_of_int (rm_command m)] (replicate CELL_PAYLOAD_SIZE 0))))"
  let ?p = "relay_cell_pad rng ?q (21 + ?l)"
  have q: "length ?q = CELL_PAYLOAD_SIZE" using l assms(1) by (simp del: be_encode.simps)
  note pad = pad_props [OF assms(2) q, where e = "21 + ?l"]
  have "encoded rng RELAY_CELL_FORMAT_V1 m ?p" using l assms(1) True pad
    by (simp add: encoded_def body_offset_def crypto_fields_def Let_def del: be_encode.simps)
  then show ?thesis using l assms(3,4) True
    by (auto simp: encode_v1_cell_def relay_cell_max_payload_size_def msg_fits_def Let_def simp del: be_encode.simps)
next
  case False
  let ?l = "unat (rm_length m)"
  have l: "?l \<le> 490" using assms(4) False by (simp add: msg_fits_def relay_cell_max_payload_size_def)
  let ?q = "put_bytes 19 (msg_payload m) (put_bytes 17 (be_encode 2 ?l)
      (put_bytes 16 [word_of_int (rm_command m)] (replicate CELL_PAYLOAD_SIZE 0)))"
  let ?p = "relay_cell_pad rng ?q (19 + ?l)"
  have q: "length ?q = CELL_PAYLOAD_SIZE" using l assms(1) by (simp del: be_encode.simps)
  note pad = pad_props [OF assms(2) q, where e = "19 + ?l"]
  have "encoded rng RELAY_CELL_FORMAT_V1 m ?p" using l assms(1) False pad
    by (simp add: encoded_def body_offset_def crypto_fields_def Let_def del: be_encode.simps)
  then show ?thesis using l assms(3,4) False
    by (auto simp: encode_v1_cell_def relay_cell_max_payload_size_def msg_fits_def Let_def simp del: be_encode.simps)
qed

lemma encode_cell_result:
  assumes "msg_ok m" and "rng_ok rng"
  shows "relay_msg_encode_cell rng format m = None \<longleftrightarrow> \<not> msg_fits format m"
    and "relay_msg_encode_cell rng format m = Some c \<Longrightarrow>
      encoded rng format m (cell_payload c) \<and> cell_command c = (if rm_is_relay_early m then CELL_RELAY_EARLY else CELL_RELAY)"
proof -
  have "relay_msg_encode_cell rng format m = None" if "\<not> msg_fits format m"
    using that by (cases format) (auto simp: relay_msg_encode_cell_def encode_v0_cell_def encode_v1_cell_def msg_fits_def Let_def)
  moreover have "\<exists>c. relay_msg_encode_cell rng format m = Some c \<and> encoded rng format m (cell_payload c) \<and>
      cell_command c = (if rm_is_relay_early m then CELL_RELAY_EARLY else CELL_RELAY)" if "msg_fits format m"
  proof -
    let ?c = "\<lparr>cell_circ_id = 0, cell_command = (if rm_is_relay_early m then CELL_RELAY_EARLY else CELL_RELAY),
                cell_payload = replicate CELL_PAYLOAD_SIZE 0\<rparr>"
    have "\<exists>p. relay_msg_encode_cell rng format m = Some (?c\<lparr>cell_payload := p\<rparr>) \<and> encoded rng format m p"
      using encode_v0_ok [OF assms, of ?c] encode_v1_ok [OF assms, of ?c] that
      by (cases format) (simp_all add: relay_msg_encode_cell_def Let_def)
    then show ?thesis by auto
  qed
  ultimately show "relay_msg_encode_cell rng format m = None \<longleftrightarrow> \<not> msg_fits format m"
    and "relay_msg_encode_cell rng format m = Some c \<Longrightarrow>
      encoded rng format m (cell_payload c) \<and> cell_command c = (if rm_is_relay_early m then CELL_RELAY_EARLY else CELL_RELAY)"
    by fastforce+
qed

lemma command_byte: "msg_ok m \<Longrightarrow> uint (word_of_int (rm_command m) :: u8) = rm_command m"
  by (simp add: msg_ok_def uint_word_of_int take_bit_int_eq_self_iff)

lemma decode_encoded:
  assumes "msg_ok m" and "msg_fits format m" and "encoded rng format m (cell_payload c)"
    and "format = RELAY_CELL_FORMAT_V1 \<Longrightarrow> is_known_relay_command (rm_command m)"
  shows "relay_msg_decode_cell format c = Some \<lparr>rm_command = rm_command m, rm_length = rm_length m, rm_stream_id = rm_stream_id m,
    rm_is_relay_early = (cell_command c = CELL_RELAY_EARLY), rm_body = drop (body_offset format (rm_command m)) (cell_payload c)\<rparr>"
proof (cases format)
  case RELAY_CELL_FORMAT_V0
  moreover have "cell_payload c ! 0 = word_of_int (rm_command m)"
    using assms(3) RELAY_CELL_FORMAT_V0 by (simp add: encoded_def nth_get_bytes Let_def)
  ultimately show ?thesis using assms
    by (simp add: relay_msg_decode_cell_def decode_v0_cell_def encoded_def body_offset_def be_u16_roundtrip command_byte msg_fits_def
        relay_cell_max_payload_size_def Let_def del: be_encode.simps)
next
  case RELAY_CELL_FORMAT_V1
  moreover have "cell_payload c ! 16 = word_of_int (rm_command m)"
    using assms(3) RELAY_CELL_FORMAT_V1 by (simp add: encoded_def nth_get_bytes Let_def)
  ultimately show ?thesis using assms
    by (cases "relay_cmd_expects_streamid_in_v1 (rm_command m)")
      (simp_all add: relay_msg_decode_cell_def decode_v1_cell_def encoded_def body_offset_def be_u16_roundtrip command_byte msg_fits_def
        relay_cell_max_payload_size_def Let_def del: be_encode.simps)
qed

text \<open>
  C35: Relay messages survive the wire.  In both cell formats a message is refused exactly when it is
  too long for the format or, in version 1, when the presence of a stream does not match its
  command; otherwise the cell it becomes decodes to a message with the same command, length,
  stream, kind and body (in version 1 for every known command).
\<close>

theorem relay_cell_roundtrip:
  assumes "msg_ok m" and "rng_ok rng" and "format = RELAY_CELL_FORMAT_V1 \<longrightarrow> is_known_relay_command (rm_command m)"
  shows "case relay_msg_encode_cell rng format m of
      None \<Rightarrow> \<not> msg_fits format m
    | Some c \<Rightarrow> msg_fits format m \<and> (\<exists>m'. relay_msg_decode_cell format c = Some m' \<and> rm_command m' = rm_command m \<and>
        rm_length m' = rm_length m \<and> rm_stream_id m' = rm_stream_id m \<and> rm_is_relay_early m' = rm_is_relay_early m \<and>
        msg_payload m' = msg_payload m)"
proof (cases "relay_msg_encode_cell rng format m")
  case None
  then have "\<not> msg_fits format m" using encode_cell_result(1) [OF assms(1,2)] by blast
  then show ?thesis using None by simp
next
  case (Some c)
  have f: "msg_fits format m" using encode_cell_result(1) [OF assms(1,2)] Some by (metis option.distinct(1))
  have e: "encoded rng format m (cell_payload c)" "cell_command c = (if rm_is_relay_early m then CELL_RELAY_EARLY else CELL_RELAY)"
    using encode_cell_result(2) [OF assms(1,2) Some] by auto
  have "take (unat (rm_length m)) (drop (body_offset format (rm_command m)) (cell_payload c)) = msg_payload m"
    using e(1) by (simp add: encoded_def get_bytes_def Let_def)
  then show ?thesis using Some f e(2) decode_encoded [OF assms(1) f e(1)] assms(3) by (simp add: msg_payload_def)
qed

definition data_msg :: relay_msg_t where
  "data_msg = \<lparr>rm_command = RELAY_COMMAND_DATA, rm_length = 3, rm_stream_id = 7, rm_is_relay_early = False, rm_body = [1, 2, 3, 4]\<rparr>"

theorem relay_cell_roundtrip_witness:
  "\<exists>c m'. relay_msg_encode_cell (\<lambda>n. replicate n 5) RELAY_CELL_FORMAT_V1 data_msg = Some c \<and>
     relay_msg_decode_cell RELAY_CELL_FORMAT_V1 c = Some m' \<and> rm_stream_id m' = 7 \<and> msg_payload m' = [1, 2, 3]"
proof -
  have m: "msg_ok data_msg" "rng_ok (\<lambda>n. replicate n 5)" by (simp_all add: msg_ok_def data_msg_def rng_ok_def)
  have "msg_fits RELAY_CELL_FORMAT_V1 data_msg"
    by (simp add: msg_fits_def data_msg_def relay_cell_max_payload_size_def relay_cmd_expects_streamid_in_v1_def)
  then show ?thesis using relay_cell_roundtrip [OF m, of RELAY_CELL_FORMAT_V1]
    by (auto simp: is_known_relay_command_def data_msg_def msg_payload_def split: option.splits)
qed

text \<open>
  C36: No decoded message reaches outside its cell.  Whatever 509 bytes arrive, decoding returns a
  message whose length is within the limit for its command and within the bytes of the body, or
  refuses the cell; a version 1 message has a known command and a stream only if its command
  belongs to one.
\<close>

theorem relay_decode_in_bounds:
  assumes "length (cell_payload c) = CELL_PAYLOAD_SIZE" and "relay_msg_decode_cell format c = Some m"
  shows "msg_ok m \<and> unat (rm_length m) \<le> relay_cell_max_payload_size format (rm_command m) \<and>
    (format = RELAY_CELL_FORMAT_V1 \<longrightarrow> is_known_relay_command (rm_command m) \<and>
       (rm_stream_id m \<noteq> 0 \<longrightarrow> relay_cmd_expects_streamid_in_v1 (rm_command m)))"
  using assms unsigned_less [of "cell_payload c ! 0", where ?'a = int] unsigned_less [of "cell_payload c ! 16", where ?'a = int]
  by (auto simp: relay_msg_decode_cell_def decode_v0_cell_def decode_v1_cell_def msg_ok_def relay_cell_max_payload_size_def Let_def
      split: relay_cell_fmt_t.splits if_splits)

text \<open>
  An encoded cell leaks nothing and leaves the cryptography its fields.  The bytes of the
  digest (or tag) are zero, four zero bytes follow the message, and everything after them is
  random: whatever is not the message.
\<close>

theorem relay_cell_padding:
  assumes "msg_ok m" and "rng_ok rng" and "relay_msg_encode_cell rng format m = Some c"
  shows "(\<forall>b \<in> set (crypto_fields format (cell_payload c)). b = 0) \<and>
    (let e = body_offset format (rm_command m) + unat (rm_length m)
     in (\<forall>b \<in> set (get_bytes e 4 (cell_payload c)). b = 0) \<and>
        drop (e + 4) (cell_payload c) = rng (CELL_PAYLOAD_SIZE - (e + 4)))"
proof -
  have e: "encoded rng format m (cell_payload c)" using encode_cell_result(2) [OF assms] by simp
  then have "length (cell_payload c) = CELL_PAYLOAD_SIZE" by (simp add: encoded_def Let_def)
  then show ?thesis using e by (simp add: encoded_def get_bytes_def Let_def)
qed

theorem relay_cell_padding_witness:
  "\<exists>c. relay_msg_encode_cell (\<lambda>n. replicate n 5) RELAY_CELL_FORMAT_V1 data_msg = Some c \<and>
     drop 28 (cell_payload c) = replicate 481 5"
proof -
  have m: "msg_ok data_msg" "rng_ok (\<lambda>n. replicate n 5)" by (simp_all add: msg_ok_def data_msg_def rng_ok_def)
  have "msg_fits RELAY_CELL_FORMAT_V1 data_msg"
    by (simp add: msg_fits_def data_msg_def relay_cell_max_payload_size_def relay_cmd_expects_streamid_in_v1_def)
  then obtain c where c: "relay_msg_encode_cell (\<lambda>n. replicate n 5) RELAY_CELL_FORMAT_V1 data_msg = Some c"
    using encode_cell_result(1) [OF m] by (metis not_None_eq)
  then show ?thesis using relay_cell_padding [OF m c]
    by (simp add: body_offset_def data_msg_def relay_cmd_expects_streamid_in_v1_def)
qed

theorem relay_decode_in_bounds_witness:
  "case relay_msg_decode_cell RELAY_CELL_FORMAT_V0 \<lparr>cell_circ_id = 0, cell_command = CELL_RELAY, cell_payload = 2 # replicate 508 0\<rparr> of
     None \<Rightarrow> False | Some m \<Rightarrow> msg_ok m"
proof -
  let ?c = "\<lparr>cell_circ_id = 0, cell_command = CELL_RELAY, cell_payload = 2 # replicate 508 0\<rparr>"
  have "be_decode (get_bytes 9 2 (2 # replicate 508 0)) = 0" by (simp add: get_bytes_def numeral_2_eq_2)
  then obtain m where m: "relay_msg_decode_cell RELAY_CELL_FORMAT_V0 ?c = Some m"
    by (simp add: relay_msg_decode_cell_def decode_v0_cell_def Let_def)
  moreover have "msg_ok m" using relay_decode_in_bounds [OF _ m] by simp
  ultimately show ?thesis by simp
qed

section \<open>Cells on the network\<close>

text \<open>The body of a packed cell always has 514 bytes; with narrow circuit ids the last two are zero.\<close>

definition cell_pack :: "cell_t \<Rightarrow> bool \<Rightarrow> u8 list" where
  "cell_pack src wide_circ_ids =
     (if wide_circ_ids then be_encode 4 (unat (cell_circ_id src)) @ cell_command src # cell_payload src
      else be_encode 2 (unat (ucast (cell_circ_id src) :: u16)) @ cell_command src # cell_payload src @ [0, 0])"

definition cell_unpack :: "u8 list \<Rightarrow> bool \<Rightarrow> cell_t" where
  "cell_unpack src wide_circ_ids =
     (let (circ_id, src) = (if wide_circ_ids then (of_nat (be_decode (take 4 src)), drop 4 src)
                            else (of_nat (be_decode (take 2 src)), drop 2 src))
      in \<lparr>cell_circ_id = circ_id, cell_command = src ! 0, cell_payload = get_bytes 1 CELL_PAYLOAD_SIZE src\<rparr>)"

definition packed_cell_get_command :: "u8 list \<Rightarrow> bool \<Rightarrow> u8" where
  "packed_cell_get_command body wide_circ_ids = (if wide_circ_ids then body ! 4 else body ! 2)"

definition packed_cell_get_circid :: "u8 list \<Rightarrow> bool \<Rightarrow> u32" where
  "packed_cell_get_circid body wide_circ_ids =
     (if wide_circ_ids then of_nat (be_decode (take 4 body)) else of_nat (be_decode (take 2 body)))"

definition destroy_cell_to_packed_cell :: "u32 \<Rightarrow> u8 \<Rightarrow> bool \<Rightarrow> u8 list" where
  "destroy_cell_to_packed_cell circid reason wide_circ_ids =
     cell_pack \<lparr>cell_circ_id = circid, cell_command = CELL_DESTROY, cell_payload = reason # replicate 508 0\<rparr> wide_circ_ids"

lemma ucast_u16_u32_id: "unat (w :: u32) < 65536 \<Longrightarrow> unat (ucast w :: u16) = unat w"
  by (simp add: unsigned_ucast_eq take_bit_nat_eq_self)

text \<open>
  Packing a cell for the network and unpacking it gives the cell back, when its circuit id fits
  the width that the link uses, and the packed bytes are as many as the network expects; the
  accessors of packed cells read the same circuit id and command.
\<close>

theorem cell_pack_roundtrip:
  assumes "length (cell_payload c) = CELL_PAYLOAD_SIZE" and "wide \<or> unat (cell_circ_id c) < 65536"
  shows "length (cell_pack c wide) = CELL_MAX_NETWORK_SIZE \<and> cell_unpack (cell_pack c wide) wide = c \<and>
    packed_cell_get_circid (cell_pack c wide) wide = cell_circ_id c \<and>
    packed_cell_get_command (cell_pack c wide) wide = cell_command c"
proof (cases wide)
  case True
  then show ?thesis using assms(1)
    by (simp add: cell_pack_def cell_unpack_def packed_cell_get_circid_def packed_cell_get_command_def be_u32_roundtrip get_bytes_def
        nth_append del: be_encode.simps)
next
  case False
  have "(of_nat (be_decode (be_encode 2 (unat (cell_circ_id c)))) :: u32) = cell_circ_id c"
    using assms(2) False by (simp add: be_decode_encode del: be_encode.simps)
  then show ?thesis using assms False
    by (simp add: cell_pack_def cell_unpack_def packed_cell_get_circid_def packed_cell_get_command_def ucast_u16_u32_id get_bytes_def
        nth_append del: be_encode.simps)
qed

theorem cell_pack_roundtrip_witness:
  "cell_unpack (cell_pack \<lparr>cell_circ_id = 515, cell_command = CELL_RELAY, cell_payload = replicate 509 1\<rparr> False) False =
     \<lparr>cell_circ_id = 515, cell_command = CELL_RELAY, cell_payload = replicate 509 1\<rparr>"
  using cell_pack_roundtrip [of "\<lparr>cell_circ_id = 515, cell_command = CELL_RELAY, cell_payload = replicate 509 1\<rparr>" False] by simp

section \<open>Addresses in messages\<close>

datatype tor_addr_t = AF_UNSPEC | AF_INET u32 | AF_INET6 "u8 list"

text \<open>
  Reading memory: \<^term>\<open>None\<close> is a read outside the bytes that exist.  In the parsers below
  \<^term>\<open>Some None\<close> is the return value \<open>-1\<close>.
\<close>

definition read8 :: "u8 list \<Rightarrow> nat \<Rightarrow> u8 option" where
  "read8 p i = (if i < length p then Some (p ! i) else None)"

definition read_bytes :: "u8 list \<Rightarrow> nat \<Rightarrow> nat \<Rightarrow> u8 list option" where
  "read_bytes p i n = (if i + n \<le> length p then Some (get_bytes i n p) else None)"

definition read32 :: "u8 list \<Rightarrow> nat \<Rightarrow> u32 option" where
  "read32 p i = map_option (\<lambda>bs. of_nat (be_decode bs)) (read_bytes p i 4)"

abbreviation "RESOLVED_TYPE_HOSTNAME \<equiv> 0 :: u8"
abbreviation "RESOLVED_TYPE_IPV4 \<equiv> 4 :: u8"
abbreviation "RESOLVED_TYPE_IPV6 \<equiv> 6 :: u8"
abbreviation "RESOLVED_TYPE_ERROR_TRANSIENT \<equiv> 240 :: u8"
abbreviation "RESOLVED_TYPE_ERROR \<equiv> 241 :: u8"

definition append_address_to_payload :: "tor_addr_t \<Rightarrow> u8 list option" where
  "append_address_to_payload addr =
     (case addr of
        AF_INET a \<Rightarrow> Some (RESOLVED_TYPE_IPV4 # 4 # be_encode 4 (unat a))
      | AF_INET6 bs \<Rightarrow> Some (RESOLVED_TYPE_IPV6 # 16 # bs)
      | AF_UNSPEC \<Rightarrow> None)"

text \<open>The result is the address and the offset of the next byte.\<close>

definition decode_address_from_payload :: "u8 list \<Rightarrow> nat \<Rightarrow> (tor_addr_t \<times> nat) option option" where
  "decode_address_from_payload payload payload_len =
     (if payload_len < 2 then Some None
      else do {
        len \<leftarrow> read8 payload 1;
        if payload_len < 2 + unat len then Some None
        else do {
          type \<leftarrow> read8 payload 0;
          if type = RESOLVED_TYPE_IPV4
          then (if len \<noteq> 4 then Some None
                else do { a \<leftarrow> read32 payload 2; Some (Some (AF_INET a, 2 + unat len)) })
          else if type = RESOLVED_TYPE_IPV6
          then (if len \<noteq> 16 then Some None
                else do { bs \<leftarrow> read_bytes payload 2 16; Some (Some (AF_INET6 bs, 2 + unat len)) })
          else Some (Some (AF_UNSPEC, 2 + unat len))
        }
      })"

definition connected_cell_parse :: "relay_msg_t \<Rightarrow> (tor_addr_t \<times> int) option option" where
  "connected_cell_parse m =
     (let payload = rm_body m; len = unat (rm_length m)
      in if len = 0 then Some (Some (AF_UNSPEC, - 1))
         else if len < 4 then Some None
         else do {
           bytes \<leftarrow> read32 payload 0;
           if bytes \<noteq> 0
           then (if len \<ge> 8
                 then do {
                   ttl \<leftarrow> read32 payload 4;
                   Some (Some (AF_INET bytes, if uint ttl \<le> INT32_MAX then uint ttl else - 1))
                 }
                 else Some (Some (AF_INET bytes, - 1)))
           else if len < 25 then Some None
           else do {
             six \<leftarrow> read8 payload 4;
             if six \<noteq> 6 then Some None
             else do {
               bs \<leftarrow> read_bytes payload 5 16;
               ttl \<leftarrow> read32 payload 21;
               Some (Some (AF_INET6 bs, if uint ttl \<le> INT32_MAX then uint ttl else - 1))
             }
           }
         })"

record address_ttl_t =
  at_addr :: tor_addr_t
  at_hostname :: "u8 list option"
  at_ttl :: int

text \<open>One answer of a RESOLVED message: the new offset, the error code and the addresses.\<close>

definition resolved_answer ::
  "u8 list \<Rightarrow> nat \<Rightarrow> nat \<Rightarrow> u8 \<Rightarrow> address_ttl_t list \<Rightarrow> (nat \<times> u8 \<times> address_ttl_t list) option option" where
  "resolved_answer body cp remaining errcode addrs =
     (if remaining < 2 then Some None
      else do {
        answer_type \<leftarrow> read8 body cp;
        len \<leftarrow> read8 body (cp + 1);
        let answer_len = unat len;
        let cp = cp + 2;
        if remaining < 2 + answer_len + 4 then Some None
        else if answer_type = RESOLVED_TYPE_IPV4
        then (if answer_len \<noteq> 4 then Some None
              else do {
                a \<leftarrow> read32 body cp;
                ttl \<leftarrow> read32 body (cp + 4);
                Some (Some (cp + 8, errcode, addrs @ [\<lparr>at_addr = AF_INET a, at_hostname = None, at_ttl = sint ttl\<rparr>]))
              })
        else if answer_type = RESOLVED_TYPE_IPV6
        then (if answer_len \<noteq> 16 then Some None
              else do {
                bs \<leftarrow> read_bytes body cp 16;
                ttl \<leftarrow> read32 body (cp + 16);
                Some (Some (cp + 20, errcode, addrs @ [\<lparr>at_addr = AF_INET6 bs, at_hostname = None, at_ttl = sint ttl\<rparr>]))
              })
        else if answer_type = RESOLVED_TYPE_HOSTNAME
        then (if answer_len = 0 then Some None
              else do {
                name \<leftarrow> read_bytes body cp answer_len;
                ttl \<leftarrow> read32 body (cp + answer_len);
                Some (Some (cp + answer_len + 4, errcode, addrs @ [\<lparr>at_addr = AF_UNSPEC, at_hostname = Some name, at_ttl = sint ttl\<rparr>]))
              })
        else if answer_type = RESOLVED_TYPE_ERROR_TRANSIENT \<or> answer_type = RESOLVED_TYPE_ERROR
        then Some (Some (cp + (answer_len + 4), answer_type, addrs))
        else Some (Some (cp + (answer_len + 4), errcode, addrs))
      })"

lemma resolved_answer_cases:
  assumes "cp + remaining \<le> length body"
  shows "resolved_answer body cp remaining errcode addrs = Some None \<or>
    (\<exists>cp' e as. resolved_answer body cp remaining errcode addrs = Some (Some (cp', e, as)) \<and> cp < cp' \<and> cp' \<le> cp + remaining)"
  using assms by (auto simp: resolved_answer_def read8_def read32_def read_bytes_def Let_def)

lemma resolved_answer_advances:
  "resolved_answer body cp remaining errcode addrs = Some (Some (cp', e, as)) \<Longrightarrow> cp < cp' \<and> 0 < remaining"
  by (auto simp: resolved_answer_def bind_eq_Some_iff Let_def split: if_splits)

function resolved_loop :: "u8 list \<Rightarrow> nat \<Rightarrow> nat \<Rightarrow> u8 \<Rightarrow> address_ttl_t list \<Rightarrow> (u8 \<times> address_ttl_t list) option option" where
  "resolved_loop body cp remaining errcode addrs =
     (if remaining = 0 then Some (Some (errcode, addrs))
      else case resolved_answer body cp remaining errcode addrs of
        None \<Rightarrow> None
      | Some None \<Rightarrow> Some None
      | Some (Some (cp', errcode, addrs)) \<Rightarrow>
          (if remaining \<ge> cp' - cp then resolved_loop body cp' (remaining - (cp' - cp)) errcode addrs else None))"
  by pat_completeness auto
termination
  by (relation "measure (\<lambda>(body, cp, remaining, errcode, addrs). remaining)") (auto dest: resolved_answer_advances)

declare resolved_loop.simps [simp del]

definition resolved_cell_parse :: "relay_msg_t \<Rightarrow> (u8 \<times> address_ttl_t list) option option" where
  "resolved_cell_parse m =
     (if unat (rm_length m) > CELL_PAYLOAD_SIZE - RELAY_HEADER_SIZE_V0 then Some None
      else case resolved_loop (rm_body m) 0 (unat (rm_length m)) 0 [] of
        None \<Rightarrow> None
      | Some None \<Rightarrow> Some None
      | Some (Some (errcode, addrs)) \<Rightarrow> Some (Some (if errcode \<noteq> 0 \<and> addrs = [] then errcode else 0, addrs)))"

lemma resolved_loop_safe: "cp + remaining \<le> length body \<Longrightarrow> resolved_loop body cp remaining errcode addrs \<noteq> None"
proof (induction body cp remaining errcode addrs rule: resolved_loop.induct)
  case (1 body cp remaining errcode addrs)
  show ?case
  proof (cases "remaining = 0")
    case False
    consider "resolved_answer body cp remaining errcode addrs = Some None"
      | cp' e as where "resolved_answer body cp remaining errcode addrs = Some (Some (cp', e, as))" "cp < cp'" "cp' \<le> cp + remaining"
      using resolved_answer_cases [OF 1(2)] by blast
    then show ?thesis
    proof cases
      case 2
      then have "resolved_loop body cp' (remaining - (cp' - cp)) e as \<noteq> None"
        using 1(1) [OF False 2(1) refl refl refl] 1(2) by linarith
      then show ?thesis using 2 False by (subst resolved_loop.simps) auto
    qed (simp add: False resolved_loop.simps)
  qed (simp add: resolved_loop.simps)
qed

text \<open>
  C37: The parsers of the answers from an exit are memory safe.  On every message whose body holds
  as many bytes as its length says, the parsers of CONNECTED and RESOLVED messages and of
  addresses end, read no byte beyond the length and fail no assertion; the answer is a value or a
  parse error.
\<close>

theorem answer_parsers_safe:
  assumes "unat (rm_length m) = length (rm_body m)"
  shows "(\<exists>r. connected_cell_parse m = Some r) \<and> (\<exists>r. resolved_cell_parse m = Some r) \<and>
    (\<exists>r. decode_address_from_payload (rm_body m) (unat (rm_length m)) = Some r)"
proof (intro conjI)
  show "\<exists>r. connected_cell_parse m = Some r" using assms
    by (auto simp: connected_cell_parse_def read8_def read32_def read_bytes_def Let_def)
  show "\<exists>r. resolved_cell_parse m = Some r"
    using resolved_loop_safe [of 0 "unat (rm_length m)" "rm_body m" 0 "[]"] assms
    by (auto simp: resolved_cell_parse_def split: option.splits)
  show "\<exists>r. decode_address_from_payload (rm_body m) (unat (rm_length m)) = Some r" using assms
    by (auto simp: decode_address_from_payload_def read8_def read32_def read_bytes_def Let_def)
qed

text \<open>The answers [4, 4, 127, 0, 0, 1] with a time to live of 60, then a truncated one.\<close>

theorem answer_parsers_safe_witness:
  "\<exists>r. resolved_cell_parse \<lparr>rm_command = RELAY_COMMAND_RESOLVED, rm_length = 12, rm_stream_id = 1, rm_is_relay_early = False,
     rm_body = [4, 4, 127, 0, 0, 1, 0, 0, 0, 60, 4, 4]\<rparr> = Some r"
  using answer_parsers_safe [of "\<lparr>rm_command = RELAY_COMMAND_RESOLVED, rm_length = 12, rm_stream_id = 1, rm_is_relay_early = False,
     rm_body = [4, 4, 127, 0, 0, 1, 0, 0, 0, 60, 4, 4]\<rparr>"] by simp

lemma address_roundtrip:
  assumes "append_address_to_payload addr = Some bs" and "\<And>x. addr = AF_INET6 x \<Longrightarrow> length x = 16"
  shows "decode_address_from_payload (bs @ rest) (length (bs @ rest)) = Some (Some (addr, length bs))"
proof (cases addr)
  case (AF_INET a)
  have "get_bytes 2 4 (4 # 4 # be_encode 4 (unat a) @ rest) = be_encode 4 (unat a)" by (simp add: get_bytes_def numeral_2_eq_2 del: be_encode.simps)
  then show ?thesis using assms AF_INET
    by (auto simp: append_address_to_payload_def decode_address_from_payload_def read8_def read32_def read_bytes_def be_u32_roundtrip
        simp del: be_encode.simps)
next
  case (AF_INET6 x)
  have "get_bytes 2 16 (6 # 16 # x @ rest) = x" using assms(2) [OF AF_INET6] by (simp add: get_bytes_def numeral_2_eq_2)
  then show ?thesis using assms AF_INET6
    by (auto simp: append_address_to_payload_def decode_address_from_payload_def read8_def read32_def read_bytes_def)
qed (use assms in \<open>simp add: append_address_to_payload_def\<close>)

end
