(* ===== verification/RelayPackage.thy ===== *)
theory RelayPackage
  imports RelayMsg
begin

text \<open>
  Packaging stream data into DATA cells (\<^verbatim>\<open>core/or/relay.c\<close>): how many bytes go into the next cell,
  and how the padding keeps SENDMEs unpredictable.  A SENDME proves that its sender saw the cells
  it acknowledges, by a tag that depends on them; so from time to time a cell must contain bytes
  that only the two ends can know, and the random padding provides them.
\<close>

section \<open>Bytes for the next cell\<close>

text \<open>The two fields of \<^verbatim>\<open>circuit_t\<close> for this.\<close>

record sendme_randomness_t =
  have_sent_sufficiently_random_cell :: bool
  send_randomness_after_n_cells :: u16

text \<open>\<open>rnd\<close> is the result of \<^verbatim>\<open>crypto_fast_rng_get_uint\<close> with limit 50.\<close>

definition circuit_reset_sendme_randomness :: "u16 \<Rightarrow> sendme_randomness_t" where
  "circuit_reset_sendme_randomness rnd = \<lparr>have_sent_sufficiently_random_cell = False, send_randomness_after_n_cells = 50 + rnd\<rparr>"

abbreviation "RELAY_CELL_PADDING_GAP \<equiv> 4 :: nat"

text \<open>The result is the number of bytes to package; 0 is none now.\<close>

definition connection_edge_get_inbuf_bytes_to_package ::
  "u16 \<Rightarrow> relay_cell_fmt_t \<Rightarrow> nat \<Rightarrow> bool \<Rightarrow> sendme_randomness_t \<Rightarrow> nat \<times> sendme_randomness_t" where
  "connection_edge_get_inbuf_bytes_to_package rnd cell_format n_available package_partial circ =
     (if n_available = 0 then (0, circ)
      else
        let force_random_bytes = (send_randomness_after_n_cells circ = 0 \<and> \<not> have_sent_sufficiently_random_cell circ);
            target_length = relay_cell_max_payload_size cell_format RELAY_COMMAND_DATA;
            target_length_with_random = target_length - RELAY_CELL_PADDING_GAP - 16;
            target_length = (if force_random_bytes then target_length_with_random else target_length)
        in if \<not> n_available \<ge> target_length \<and> \<not> package_partial then (0, circ)
           else
             let package_length = (if n_available \<ge> target_length then target_length else n_available);
                 circ = (if package_length \<le> target_length_with_random
                         then circ\<lparr>have_sent_sufficiently_random_cell := True\<rparr> else circ);
                 circ = (if send_randomness_after_n_cells circ = 0 then circuit_reset_sendme_randomness rnd else circ)
             in (package_length, circ\<lparr>send_randomness_after_n_cells := send_randomness_after_n_cells circ - 1\<rparr>))"

text \<open>A run: the data that is there at each call, and the lengths of the cells that were packaged.\<close>

fun package_run :: "relay_cell_fmt_t \<Rightarrow> sendme_randomness_t \<Rightarrow> (u16 \<times> nat \<times> bool) list \<Rightarrow> nat list" where
  "package_run format circ [] = []"
| "package_run format circ ((rnd, n, partial) # ops) =
     (let (len, circ) = connection_edge_get_inbuf_bytes_to_package rnd format n partial circ
      in if len = 0 then package_run format circ ops else len # package_run format circ ops)"

section \<open>Unpredictable cells\<close>

text \<open>How many random bytes the encoder puts into a DATA cell with \<open>len\<close> bytes of data.\<close>

definition random_bytes :: "relay_cell_fmt_t \<Rightarrow> nat \<Rightarrow> nat" where
  "random_bytes format len = CELL_PAYLOAD_SIZE - (body_offset format RELAY_COMMAND_DATA + len + 4)"

lemma random_bytes_encoded:
  assumes "msg_ok m" and "rng_ok rng" and "rm_command m = RELAY_COMMAND_DATA" and "relay_msg_encode_cell rng format m = Some c"
  shows "length (drop (body_offset format RELAY_COMMAND_DATA + unat (rm_length m) + 4) (cell_payload c)) = random_bytes format (unat (rm_length m))"
proof -
  have "encoded rng format m (cell_payload c)" using encode_cell_result(2) [OF assms(1,2,4)] by simp
  then show ?thesis by (simp add: encoded_def random_bytes_def Let_def)
qed

lemma data_target: "relay_cell_max_payload_size format RELAY_COMMAND_DATA = CELL_PAYLOAD_SIZE - body_offset format RELAY_COMMAND_DATA"
  "body_offset format RELAY_COMMAND_DATA \<le> 21"
  by (simp_all add: max_payload_offset body_offset_less)

text \<open>The counter never gets far, and tells when the last unpredictable cell was sent (\<open>c\<close> cells ago).\<close>

definition rand_inv :: "nat \<Rightarrow> sendme_randomness_t \<Rightarrow> bool" where
  "rand_inv c circ = (unat (send_randomness_after_n_cells circ) \<le> 99 \<and>
     c + unat (send_randomness_after_n_cells circ) \<le> (if have_sent_sufficiently_random_cell circ then 98 else 197))"

lemma unat_reset: "rnd < 50 \<Longrightarrow> unat (send_randomness_after_n_cells (circuit_reset_sendme_randomness rnd)) = 50 + unat rnd"
  by (simp add: circuit_reset_sendme_randomness_def unat_simps word_less_nat_alt)

lemma unat_pred: "w \<noteq> 0 \<Longrightarrow> unat (w - 1 :: u16) = unat w - 1"
  by (simp add: unat_sub_nowrap unat_gt_0 Suc_le_eq)

lemma package_step:
  assumes "rand_inv c circ" and "rnd < 50" and "connection_edge_get_inbuf_bytes_to_package rnd format n partial circ = (len, circ')"
  shows "if len = 0 then circ' = circ
    else len \<le> relay_cell_max_payload_size format RELAY_COMMAND_DATA \<and> len \<le> n \<and>
      (if 16 \<le> random_bytes format len then rand_inv 0 circ' else rand_inv (Suc c) circ')"
proof (cases "len = 0")
  case False
  let ?max = "relay_cell_max_payload_size format RELAY_COMMAND_DATA"
  let ?w = "send_randomness_after_n_cells circ"
  have max: "?max \<ge> 488" using data_target [of format] by simp
  have r: "16 \<le> random_bytes format len \<longleftrightarrow> len \<le> ?max - 20" using data_target [of format] by (simp add: random_bytes_def) linarith
  have reset: "unat (50 + rnd :: u16) = 50 + unat rnd" "unat rnd < 50" using unat_reset [OF assms(2)] assms(2)
    by (simp_all add: circuit_reset_sendme_randomness_def word_less_nat_alt)
  then have nz: "(50 + rnd :: u16) \<noteq> 0" by (metis add_is_0 unat_eq_zero zero_neq_numeral)
  show ?thesis
  proof (cases "?w = 0")
    case True
    then have "len \<le> ?max \<and> len \<le> n \<and> circ' = (circuit_reset_sendme_randomness rnd)\<lparr>send_randomness_after_n_cells := 50 + rnd - 1\<rparr>"
      and h: "have_sent_sufficiently_random_cell circ \<or> len \<le> ?max - 20"
      using assms(3) False max
      by (auto simp: connection_edge_get_inbuf_bytes_to_package_def circuit_reset_sendme_randomness_def Let_def split: if_splits)
    then show ?thesis using False r assms(1) True reset unat_pred [OF nz]
      by (auto simp: rand_inv_def circuit_reset_sendme_randomness_def)
  next
    case w: False
    then have "len \<le> ?max \<and> len \<le> n \<and> circ' = circ\<lparr>have_sent_sufficiently_random_cell := (have_sent_sufficiently_random_cell circ \<or> len \<le> ?max - 20),
        send_randomness_after_n_cells := ?w - 1\<rparr>"
      using assms(3) False by (auto simp: connection_edge_get_inbuf_bytes_to_package_def Let_def split: if_splits)
    moreover have "unat ?w \<noteq> 0" using w by (simp add: unat_eq_zero)
    ultimately show ?thesis using False r assms(1) unat_pred [OF w]
      by (auto simp: rand_inv_def split: if_splits)
  qed
qed (use assms(3) data_target [of format] in \<open>auto simp: connection_edge_get_inbuf_bytes_to_package_def Let_def split: if_splits\<close>)

lemma run_gap:
  assumes "rand_inv c circ" and "\<forall>op \<in> set ops. fst op < 50" and "package_run format circ ops = xs @ ys @ zs"
    and "\<forall>len \<in> set ys. random_bytes format len < 16"
  shows "length ys + (if xs = [] then c else 0) \<le> 197"
  using assms
proof (induction ops arbitrary: c circ xs ys)
  case Nil
  then show ?case by (auto simp: rand_inv_def split: if_splits)
next
  case (Cons op ops)
  obtain rnd n partial where op: "op = (rnd, n, partial)" by (cases op)
  obtain len circ' where s: "connection_edge_get_inbuf_bytes_to_package rnd format n partial circ = (len, circ')" by fastforce
  have rnd: "rnd < 50" "\<forall>op \<in> set ops. fst op < 50" using Cons.prems(2) op by auto
  note st = package_step [OF Cons.prems(1) rnd(1) s]
  have run: "(if len = 0 then package_run format circ' ops else len # package_run format circ' ops) = xs @ ys @ zs"
    using Cons.prems(3) op s by simp
  have c: "c \<le> 197" using Cons.prems(1) by (auto simp: rand_inv_def split: if_splits)
  consider "len = 0" | x xs' where "len \<noteq> 0" "xs = x # xs'" | "len \<noteq> 0" "xs = []" "ys = []" | y ys' where "len \<noteq> 0" "xs = []" "ys = y # ys'"
    by (metis neq_Nil_conv)
  then show ?case
  proof cases
    case 1
    then show ?thesis using Cons.IH [of c circ' xs ys] Cons.prems rnd(2) st run by simp
  next
    case 2
    then obtain k where "rand_inv k circ'" using st by (auto split: if_splits)
    then show ?thesis using Cons.IH [of k circ' xs' ys] Cons.prems(4) rnd(2) run 2 by (auto split: if_splits)
  next
    case 4
    then have "rand_inv (Suc c) circ'" using st run Cons.prems(4) by (auto split: if_splits)
    then show ?thesis using Cons.IH [of "Suc c" circ' "[]" ys'] Cons.prems(4) rnd(2) run 4 by auto
  qed (use c in simp)
qed

lemma run_len: "len \<in> set (package_run format circ ops) \<Longrightarrow> len \<le> relay_cell_max_payload_size format RELAY_COMMAND_DATA"
proof (induction ops arbitrary: circ)
  case (Cons op ops)
  obtain rnd n partial where op: "op = (rnd, n, partial)" by (cases op)
  have "fst (connection_edge_get_inbuf_bytes_to_package rnd format n partial circ) \<le> relay_cell_max_payload_size format RELAY_COMMAND_DATA"
    by (auto simp: connection_edge_get_inbuf_bytes_to_package_def Let_def)
  then show ?case using Cons op by (auto simp: case_prod_beta Let_def split: if_splits)
qed simp

text \<open>
  C38: SENDMEs stay unpredictable.  Whatever data arrives on the streams of a circuit, any 198 DATA
  cells packaged in a row contain one with at least 16 bytes of random padding; and no cell gets
  more data than its format has room for.
\<close>

theorem sendme_randomness:
  assumes "rnd0 < 50" and "\<forall>op \<in> set ops. fst op < 50"
    and "package_run format (circuit_reset_sendme_randomness rnd0) ops = xs @ ys @ zs" and "length ys \<ge> 198"
  shows "(\<exists>len \<in> set ys. random_bytes format len \<ge> 16) \<and> (\<forall>len \<in> set ys. len \<le> relay_cell_max_payload_size format RELAY_COMMAND_DATA)"
proof (intro conjI ballI)
  show "len \<le> relay_cell_max_payload_size format RELAY_COMMAND_DATA" if "len \<in> set ys" for len
    using that assms(3) run_len [of len format "circuit_reset_sendme_randomness rnd0" ops] by simp
  show "\<exists>len \<in> set ys. random_bytes format len \<ge> 16"
  proof (rule ccontr)
    assume "\<not> ?thesis"
    then have "\<forall>len \<in> set ys. random_bytes format len < 16" by auto
    moreover have "rand_inv 0 (circuit_reset_sendme_randomness rnd0)"
      using assms(1) unat_reset [OF assms(1)] by (simp add: rand_inv_def word_less_nat_alt circuit_reset_sendme_randomness_def)
    ultimately show False using run_gap [OF _ assms(2,3)] assms(4) by fastforce
  qed
qed

theorem sendme_randomness_witness:
  "\<exists>len \<in> set (package_run RELAY_CELL_FORMAT_V0 (circuit_reset_sendme_randomness 0) (replicate 198 (0, 1000, False))). random_bytes RELAY_CELL_FORMAT_V0 len \<ge> 16"
proof -
  let ?op = "(0 :: u16, 1000 :: nat, False)"
  have "length (package_run RELAY_CELL_FORMAT_V0 circ (replicate k ?op)) = k" for k circ
  proof (induction k arbitrary: circ)
    case (Suc k)
    have "fst (connection_edge_get_inbuf_bytes_to_package 0 RELAY_CELL_FORMAT_V0 1000 False circ) \<noteq> 0"
      by (simp add: connection_edge_get_inbuf_bytes_to_package_def relay_cell_max_payload_size_def Let_def)
    then show ?case using Suc by (simp add: case_prod_beta Let_def)
  qed simp
  then show ?thesis
    using sendme_randomness [of 0 "replicate 198 ?op" RELAY_CELL_FORMAT_V0 "[]" _ "[]"] by simp
qed

end
