(* ===== verification/CellQueue.thy ===== *)
theory CellQueue
  imports RelayMsg
begin

text \<open>
  The queues of cells of \<^verbatim>\<open>core/or/relay.c\<close>: the queue of packed cells that each circuit has per
  direction, and the queue of DESTROY cells that each circuit multiplexer has.  A queue is the linked
  list of its items and the count that the code keeps beside it.  \<open>total_cells_allocated\<close> is the
  program-wide count of packed cells in memory, threaded through the operations that allocate and
  release cells.
\<close>

section \<open>The two kinds of queue\<close>

record packed_cell_t =
  body :: "u8 list"
  inserted_timestamp :: u32

record destroy_cell_t =
  dc_circid :: u32
  dc_inserted_timestamp :: u32
  dc_reason :: u8

record cell_queue_t =
  cq_head :: "packed_cell_t list"
  cq_n :: int

record destroy_cell_queue_t =
  dq_head :: "destroy_cell_t list"
  dq_n :: int

definition packed_cell_copy :: "cell_t \<Rightarrow> bool \<Rightarrow> u64 \<Rightarrow> packed_cell_t \<times> u64" where
  "packed_cell_copy cell wide_circ_ids tot = (\<lparr>body = cell_pack cell wide_circ_ids, inserted_timestamp = 0\<rparr>, tot + 1)"

definition cell_queue_append :: "cell_queue_t \<Rightarrow> packed_cell_t \<Rightarrow> cell_queue_t" where
  "cell_queue_append queue cell = queue\<lparr>cq_head := cq_head queue @ [cell], cq_n := cq_n queue + 1\<rparr>"

text \<open>The circuit, the direction and \<open>use_stats\<close> are arguments that the code ignores; \<open>stamp\<close> is the
  time that \<^verbatim>\<open>monotime_coarse_get_stamp\<close> answers.\<close>

definition cell_queue_append_packed_copy :: "u32 \<Rightarrow> u64 \<Rightarrow> cell_queue_t \<Rightarrow> cell_t \<Rightarrow> bool \<Rightarrow> cell_queue_t \<times> u64" where
  "cell_queue_append_packed_copy stamp tot queue cell wide_circ_ids =
     (let (copy, tot) = packed_cell_copy cell wide_circ_ids tot
      in (cell_queue_append queue (copy\<lparr>inserted_timestamp := stamp\<rparr>), tot))"

definition cell_queue_init :: cell_queue_t where
  "cell_queue_init = \<lparr>cq_head = [], cq_n = 0\<rparr>"

text \<open>The loop of \<^verbatim>\<open>cell_queue_clear\<close> releases the cells from the head on.\<close>

fun free_cells :: "packed_cell_t list \<Rightarrow> u64 \<Rightarrow> u64" where
  "free_cells [] tot = tot"
| "free_cells (cell # rest) tot = free_cells rest (tot - 1)"

definition cell_queue_clear :: "u64 \<Rightarrow> cell_queue_t \<Rightarrow> cell_queue_t \<times> u64" where
  "cell_queue_clear tot queue = (\<lparr>cq_head = [], cq_n = 0\<rparr>, free_cells (cq_head queue) tot)"

definition cell_queue_pop :: "cell_queue_t \<Rightarrow> packed_cell_t option \<times> cell_queue_t" where
  "cell_queue_pop queue =
     (case cq_head queue of
        [] \<Rightarrow> (None, queue)
      | cell # rest \<Rightarrow> (Some cell, queue\<lparr>cq_head := rest, cq_n := cq_n queue - 1\<rparr>))"

definition destroy_cell_queue_init :: destroy_cell_queue_t where
  "destroy_cell_queue_init = \<lparr>dq_head = [], dq_n = 0\<rparr>"

definition destroy_cell_queue_clear :: "destroy_cell_queue_t \<Rightarrow> destroy_cell_queue_t" where
  "destroy_cell_queue_clear queue = \<lparr>dq_head = [], dq_n = 0\<rparr>"

definition destroy_cell_queue_pop :: "destroy_cell_queue_t \<Rightarrow> destroy_cell_t option \<times> destroy_cell_queue_t" where
  "destroy_cell_queue_pop queue =
     (case dq_head queue of
        [] \<Rightarrow> (None, queue)
      | cell # rest \<Rightarrow> (Some cell, queue\<lparr>dq_head := rest, dq_n := dq_n queue - 1\<rparr>))"

definition destroy_cell_queue_append :: "u32 \<Rightarrow> destroy_cell_queue_t \<Rightarrow> u32 \<Rightarrow> u8 \<Rightarrow> destroy_cell_queue_t" where
  "destroy_cell_queue_append stamp queue circid reason =
     queue\<lparr>dq_head := dq_head queue @ [\<lparr>dc_circid = circid, dc_inserted_timestamp = stamp, dc_reason = reason\<rparr>],
           dq_n := dq_n queue + 1\<rparr>"

section \<open>What a counted queue promises\<close>

text \<open>
  Both queues keep their count equal to the number of their items, give the items back in the order
  in which they were appended, and say that they are empty exactly when the count is zero.
\<close>

locale counted_queue =
  fixes append :: "'q \<Rightarrow> 'c \<Rightarrow> 'q"
    and pop :: "'q \<Rightarrow> 'c option \<times> 'q"
    and empty :: 'q
    and items :: "'q \<Rightarrow> 'c list"
    and count :: "'q \<Rightarrow> int"
  assumes items_empty: "items empty = []"
    and count_empty: "count empty = 0"
    and items_append: "items (append q c) = items q @ [c]"
    and count_append: "count (append q c) = count q + 1"
    and pop_Nil: "items q = [] \<Longrightarrow> pop q = (None, q)"
    and pop_Cons: "items q = c # cs \<Longrightarrow> \<exists>q'. pop q = (Some c, q') \<and> items q' = cs \<and> count q' = count q - 1"
begin

definition counted :: "'q \<Rightarrow> bool" where
  "counted q = (count q = int (length (items q)))"

lemma counted_empty: "counted empty"
  by (simp add: counted_def items_empty count_empty)

lemma counted_append: "counted q \<Longrightarrow> counted (append q c)"
  by (simp add: counted_def items_append count_append)

lemma counted_pop:
  assumes "counted q"
  shows "counted (snd (pop q))"
proof (cases "items q")
  case Nil
  then show ?thesis using assms by (simp add: pop_Nil)
next
  case (Cons c cs)
  obtain q' where "pop q = (Some c, q')" "items q' = cs" "count q' = count q - 1" using pop_Cons [OF Cons] by blast
  then show ?thesis using assms Cons by (simp add: counted_def)
qed

lemma pop_Some_iff: "counted q \<Longrightarrow> (\<exists>c q'. pop q = (Some c, q')) = (0 < count q)"
  using pop_Cons [of q] pop_Nil [of q] by (cases "items q") (auto simp: counted_def)

lemma pop_Some: "pop q = (Some c, q') \<Longrightarrow> items q = c # items q' \<and> count q' = count q - 1"
  using pop_Cons [of q] pop_Nil [of q] by (cases "items q") auto

text \<open>Any interleaving of appends (\<open>Inl\<close>) and pops (\<open>Inr\<close>): what has been popped, then what is
  still queued, is what was queued at first, then what has been appended.\<close>

fun run :: "('c + unit) list \<Rightarrow> 'q \<Rightarrow> 'c list \<times> 'q" where
  "run [] q = ([], q)"
| "run (Inl c # ops) q = run ops (append q c)"
| "run (Inr u # ops) q =
     (case pop q of
        (None, q') \<Rightarrow> run ops q'
      | (Some c, q') \<Rightarrow> let (cs, q'') = run ops q' in (c # cs, q''))"

lemma run_fifo: "run ops q = (out, q') \<Longrightarrow> out @ items q' = items q @ [c. Inl c \<leftarrow> ops]"
proof (induction ops q arbitrary: out rule: run.induct)
  case (2 c ops q)
  then show ?case by (simp add: items_append)
next
  case (3 u ops q)
  show ?case
  proof (cases "items q")
    case Nil
    then show ?thesis using 3 by (simp add: pop_Nil)
  next
    case (Cons c cs)
    then obtain q1 where q1: "pop q = (Some c, q1)" "items q1 = cs" using pop_Cons by blast
    obtain cs' q2 where r: "run ops q1 = (cs', q2)" by (cases "run ops q1")
    then have "out = c # cs'" "q2 = q'" using 3(3) q1 by simp_all
    then show ?thesis using 3(2) [OF q1(1) [symmetric] refl, of cs'] q1 r Cons by simp
  qed
qed simp

end

interpretation cq: counted_queue cell_queue_append cell_queue_pop cell_queue_init cq_head cq_n
  by unfold_locales (auto simp: cell_queue_init_def cell_queue_append_def cell_queue_pop_def)

interpretation dq: counted_queue "\<lambda>q (stamp, circid, reason). destroy_cell_queue_append stamp q circid reason"
  "\<lambda>q. map_prod (map_option (\<lambda>c. (dc_inserted_timestamp c, dc_circid c, dc_reason c))) id (destroy_cell_queue_pop q)"
  destroy_cell_queue_init "\<lambda>q. map (\<lambda>c. (dc_inserted_timestamp c, dc_circid c, dc_reason c)) (dq_head q)" dq_n
  by unfold_locales (auto simp: destroy_cell_queue_init_def destroy_cell_queue_append_def destroy_cell_queue_pop_def split: list.splits)

lemma free_cells_length: "free_cells cs tot = tot - of_nat (length cs)"
  by (induction cs arbitrary: tot) simp_all

end
