(* ===== verification/CircuitMux.thy ===== *)
theory CircuitMux
  imports CellQueue
begin

text \<open>
  \<^verbatim>\<open>core/or/circuitmux.c\<close>: the multiplexer of a channel.  It knows, for every circuit attached to the
  channel, how many cells wait in the circuit's queue, counts circuits, active circuits and cells,
  holds the DESTROY cells that wait to be sent, and asks a policy which active circuit may send next.

  A channel is named by its \<^verbatim>\<open>global_identifier\<close>.  A circuit is a record that carries its own address;
  the fields of \<^verbatim>\<open>or_circuit_t\<close> are used only when \<open>or_magic\<close> says that the circuit is one.  The hash
  table from (channel id, circuit id) to \<^verbatim>\<open>circuit_muxinfo_t\<close> is the list of its entries in the
  order of iteration.  The method table \<^verbatim>\<open>circuitmux_policy_t\<close> is a record of optional functions (a
  NULL method is \<^term>\<open>None\<close>); the program has one such table, so the multiplexer only records whether it
  is installed.  A method works on the globals of the policy (type \<open>'g\<close>) and on the policy data of
  the multiplexer (type \<open>'p\<close>), in which the policy data of the single circuits live at addresses.
\<close>

section \<open>Circuits, policies and multiplexers\<close>

datatype cell_direction_t = CELL_DIRECTION_IN | CELL_DIRECTION_OUT

record mux_circuit_t =
  circ_addr :: nat
  n_chan :: "u64 option"
  n_circ_id :: u32
  n_chan_cells :: cell_queue_t
  circuit_blocked_on_n_chan :: bool
  circuit_blocked_on_p_chan :: bool
  mc_marked_for_close :: bool
  or_magic :: bool
  p_chan :: "u64 option"
  p_circ_id :: u32
  p_chan_cells :: cell_queue_t

type_synonym ('g, 'p) policy_state = "'g \<times> 'p option"

record ('g, 'p) circuitmux_policy_t =
  alloc_cmux_data :: "('g \<Rightarrow> ('g, 'p) policy_state) option"
  free_cmux_data :: "(('g, 'p) policy_state \<Rightarrow> 'g) option"
  alloc_circ_data :: "(('g, 'p) policy_state \<Rightarrow> nat \<Rightarrow> cell_direction_t \<Rightarrow> u32 \<Rightarrow> (('g, 'p) policy_state \<times> nat option) option) option"
  free_circ_data :: "(('g, 'p) policy_state \<Rightarrow> nat \<Rightarrow> nat option \<Rightarrow> ('g, 'p) policy_state option) option"
  notify_circ_active :: "(('g, 'p) policy_state \<Rightarrow> nat \<Rightarrow> nat option \<Rightarrow> ('g, 'p) policy_state option) option"
  notify_circ_inactive :: "(('g, 'p) policy_state \<Rightarrow> nat \<Rightarrow> nat option \<Rightarrow> ('g, 'p) policy_state option) option"
  notify_set_n_cells :: "(('g, 'p) policy_state \<Rightarrow> nat \<Rightarrow> nat option \<Rightarrow> u32 \<Rightarrow> ('g, 'p) policy_state option) option"
  notify_xmit_cells :: "(('g, 'p) policy_state \<Rightarrow> nat \<Rightarrow> nat option \<Rightarrow> u32 \<Rightarrow> ('g, 'p) policy_state option) option"
  pick_active_circuit :: "(('g, 'p) policy_state \<Rightarrow> nat option option) option"
  cmp_cmux :: "('p option \<Rightarrow> 'p option \<Rightarrow> int option) option"

record circuit_muxinfo_t =
  cell_count :: u32
  mi_direction :: cell_direction_t
  mi_policy_data :: "nat option"

type_synonym chanid_circid = "u64 \<times> u32"

record 'p circuitmux_t =
  n_circuits :: u32
  n_active_circuits :: u32
  n_cells :: u32
  chanid_circid_map :: "(chanid_circid \<times> circuit_muxinfo_t) list"
  destroy_cell_queue :: destroy_cell_queue_t
  last_cell_was_destroy :: bool
  destroy_ctr :: int
  cm_policy :: bool
  cm_policy_data :: "'p option"

text \<open>The globals of the policy together with one multiplexer.\<close>

type_synonym ('g, 'p) mux_state = "'g \<times> 'p circuitmux_t"

definition HT_FIND :: "'p circuitmux_t \<Rightarrow> chanid_circid \<Rightarrow> circuit_muxinfo_t option" where
  "HT_FIND cmux k = map_of (chanid_circid_map cmux) k"

definition set_muxinfo :: "chanid_circid \<Rightarrow> (circuit_muxinfo_t \<Rightarrow> circuit_muxinfo_t) \<Rightarrow> 'p circuitmux_t \<Rightarrow> 'p circuitmux_t" where
  "set_muxinfo k f cmux =
     cmux\<lparr>chanid_circid_map := map (\<lambda>(k', e). (k', if k' = k then f e else e)) (chanid_circid_map cmux)\<rparr>"

definition HT_INSERT :: "'p circuitmux_t \<Rightarrow> chanid_circid \<Rightarrow> circuit_muxinfo_t \<Rightarrow> 'p circuitmux_t" where
  "HT_INSERT cmux k e = cmux\<lparr>chanid_circid_map := (k, e) # chanid_circid_map cmux\<rparr>"

definition HT_REMOVE :: "'p circuitmux_t \<Rightarrow> chanid_circid \<Rightarrow> 'p circuitmux_t" where
  "HT_REMOVE cmux k = cmux\<lparr>chanid_circid_map := filter (\<lambda>(k', e). k' \<noteq> k) (chanid_circid_map cmux)\<rparr>"

text \<open>A method call: the method changes the globals and the policy data of the multiplexer.\<close>

definition call_policy ::
  "(('g, 'p) policy_state \<Rightarrow> ('g, 'p) policy_state option) \<Rightarrow> ('g, 'p) mux_state \<Rightarrow> ('g, 'p) mux_state option" where
  "call_policy f s =
     do { (g, pd) \<leftarrow> f (fst s, cm_policy_data (snd s)); Some (g, (snd s)\<lparr>cm_policy_data := pd\<rparr>) }"

section \<open>Allocation and queries\<close>

definition circuitmux_alloc :: "'p circuitmux_t" where
  "circuitmux_alloc = \<lparr>n_circuits = 0, n_active_circuits = 0, n_cells = 0, chanid_circid_map = [],
     destroy_cell_queue = destroy_cell_queue_init, last_cell_was_destroy = False, destroy_ctr = 0,
     cm_policy = False, cm_policy_data = None\<rparr>"

text \<open>The entry of a circuit, as the key that finds it; NULL is \<^term>\<open>Some None\<close>.\<close>

definition circuitmux_find_map_entry :: "'p circuitmux_t \<Rightarrow> mux_circuit_t \<Rightarrow> chanid_circid option option" where
  "circuitmux_find_map_entry cmux circ =
     (let search = (\<lambda>chan id. case chan of None \<Rightarrow> None
                     | Some c \<Rightarrow> map_option (\<lambda>e. ((c, id), e)) (HT_FIND cmux (c, id)))
      in case search (n_chan circ) (n_circ_id circ) of
           Some (k, e) \<Rightarrow> do { tor_assert (mi_direction e = CELL_DIRECTION_OUT); Some (Some k) }
         | None \<Rightarrow>
             if or_magic circ
             then case search (p_chan circ) (p_circ_id circ) of
                    Some (k, e) \<Rightarrow> do { tor_assert (mi_direction e = CELL_DIRECTION_IN); Some (Some k) }
                  | None \<Rightarrow> Some None
             else Some None)"

definition circuitmux_attached_circuit_direction :: "'p circuitmux_t \<Rightarrow> mux_circuit_t \<Rightarrow> cell_direction_t option" where
  "circuitmux_attached_circuit_direction cmux circ =
     do { hashent \<leftarrow> circuitmux_find_map_entry cmux circ;
          k \<leftarrow> hashent;
          map_option mi_direction (HT_FIND cmux k) }"

definition circuitmux_is_circuit_attached :: "'p circuitmux_t \<Rightarrow> mux_circuit_t \<Rightarrow> bool option" where
  "circuitmux_is_circuit_attached cmux circ =
     do { hashent \<leftarrow> circuitmux_find_map_entry cmux circ; Some (hashent \<noteq> None) }"

definition circuitmux_num_cells_for_circuit :: "'p circuitmux_t \<Rightarrow> mux_circuit_t \<Rightarrow> u32 option" where
  "circuitmux_num_cells_for_circuit cmux circ =
     do { hashent \<leftarrow> circuitmux_find_map_entry cmux circ;
          case hashent of None \<Rightarrow> Some 0 | Some k \<Rightarrow> map_option cell_count (HT_FIND cmux k) }"

definition circuitmux_is_circuit_active :: "'p circuitmux_t \<Rightarrow> mux_circuit_t \<Rightarrow> bool option" where
  "circuitmux_is_circuit_active cmux circ =
     do { hashent \<leftarrow> circuitmux_find_map_entry cmux circ;
          case hashent of None \<Rightarrow> Some False | Some k \<Rightarrow> map_option (\<lambda>e. cell_count e > 0) (HT_FIND cmux k) }"

definition circuitmux_num_cells :: "'p circuitmux_t \<Rightarrow> u32" where
  "circuitmux_num_cells cmux = n_cells cmux + of_int (dq_n (destroy_cell_queue cmux))"

definition circuitmux_num_active_circuits :: "'p circuitmux_t \<Rightarrow> u32" where
  "circuitmux_num_active_circuits cmux = n_active_circuits cmux"

definition circuitmux_num_circuits :: "'p circuitmux_t \<Rightarrow> u32" where
  "circuitmux_num_circuits cmux = n_circuits cmux"

section \<open>Activity\<close>

definition notify_entry ::
  "(('g, 'p) policy_state \<Rightarrow> nat \<Rightarrow> nat option \<Rightarrow> ('g, 'p) policy_state option) option \<Rightarrow>
   ('g, 'p) mux_state \<Rightarrow> mux_circuit_t \<Rightarrow> ('g, 'p) mux_state option" where
  "notify_entry method s circ =
     (case method of
        None \<Rightarrow> Some s
      | Some f \<Rightarrow>
          do { hashent \<leftarrow> circuitmux_find_map_entry (snd s) circ;
               k \<leftarrow> hashent;
               e \<leftarrow> HT_FIND (snd s) k;
               call_policy (\<lambda>p. f p (circ_addr circ) (mi_policy_data e)) s })"

definition circuitmux_make_circuit_active ::
  "('g, 'p) circuitmux_policy_t \<Rightarrow> ('g, 'p) mux_state \<Rightarrow> mux_circuit_t \<Rightarrow> ('g, 'p) mux_state option" where
  "circuitmux_make_circuit_active pol s circ =
     do { tor_assert (cm_policy (snd s)); notify_entry (notify_circ_active pol) s circ }"

definition circuitmux_make_circuit_inactive ::
  "('g, 'p) circuitmux_policy_t \<Rightarrow> ('g, 'p) mux_state \<Rightarrow> mux_circuit_t \<Rightarrow> ('g, 'p) mux_state option" where
  "circuitmux_make_circuit_inactive pol s circ =
     do { tor_assert (cm_policy (snd s)); notify_entry (notify_circ_inactive pol) s circ }"

section \<open>Attaching and detaching\<close>

text \<open>The channel, cell count and circuit id of a direction; reading the inbound ones of a circuit
  that is not an \<^verbatim>\<open>or_circuit_t\<close> aborts.\<close>

definition circ_direction :: "mux_circuit_t \<Rightarrow> cell_direction_t \<Rightarrow> (u64 option \<times> u32 \<times> u32) option" where
  "circ_direction circ direction =
     (case direction of
        CELL_DIRECTION_OUT \<Rightarrow> Some (n_chan circ, of_int (cq_n (n_chan_cells circ)), n_circ_id circ)
      | CELL_DIRECTION_IN \<Rightarrow>
          do { tor_assert (or_magic circ);
               Some (p_chan circ, of_int (cq_n (p_chan_cells circ)), p_circ_id circ) })"

text \<open>The method table must be there when \<^verbatim>\<open>cmux->policy\<close> is followed, so a call without an
  installed policy is a NULL dereference, read as an abort.\<close>

definition circuitmux_attach_circuit ::
  "('g, 'p) circuitmux_policy_t \<Rightarrow> ('g, 'p) mux_state \<Rightarrow> mux_circuit_t \<Rightarrow> cell_direction_t \<Rightarrow> ('g, 'p) mux_state option" where
  "circuitmux_attach_circuit pol s circ direction =
     do { (chan, cnt, circ_id) \<leftarrow> circ_direction circ direction;
          channel_id \<leftarrow> chan;
          tor_assert (circ_id \<noteq> 0);
          let k = (channel_id, circ_id);
          case HT_FIND (snd s) k of
            Some e \<Rightarrow>
              do { tor_assert (mi_direction e = direction);
                   s \<leftarrow> (if cell_count e > 0 \<and> cnt = 0
                         then circuitmux_make_circuit_inactive pol
                                (fst s, (snd s)\<lparr>n_active_circuits := n_active_circuits (snd s) - 1\<rparr>) circ
                         else if cell_count e = 0 \<and> cnt > 0
                         then circuitmux_make_circuit_active pol
                                (fst s, (snd s)\<lparr>n_active_circuits := n_active_circuits (snd s) + 1\<rparr>) circ
                         else Some s);
                   Some (fst s, set_muxinfo k (cell_count_update (\<lambda>_. cnt))
                                  ((snd s)\<lparr>n_cells := n_cells (snd s) - cell_count e + cnt\<rparr>)) }
          | None \<Rightarrow>
              do { tor_assert (cm_policy (snd s));
                   (s, data) \<leftarrow>
                     (case alloc_circ_data pol of
                        None \<Rightarrow> Some (s, None)
                      | Some f \<Rightarrow>
                          do { tor_assert (free_circ_data pol \<noteq> None);
                               ((g, pd), d) \<leftarrow> f (fst s, cm_policy_data (snd s)) (circ_addr circ) direction cnt;
                               tor_assert (d \<noteq> None);
                               Some ((g, (snd s)\<lparr>cm_policy_data := pd\<rparr>), d) });
                   let cmux = HT_INSERT (snd s) k \<lparr>cell_count = cnt, mi_direction = direction, mi_policy_data = data\<rparr>;
                   let cmux = cmux\<lparr>n_circuits := n_circuits cmux + 1\<rparr>;
                   s \<leftarrow> (if cnt > 0
                         then circuitmux_make_circuit_active pol
                                (fst s, cmux\<lparr>n_active_circuits := n_active_circuits cmux + 1\<rparr>) circ
                         else Some (fst s, cmux));
                   Some (fst s, (snd s)\<lparr>n_cells := n_cells (snd s) + cnt\<rparr>) } }"

text \<open>Releasing the policy data of an entry, when it has any.\<close>

definition free_entry_data ::
  "('g, 'p) circuitmux_policy_t \<Rightarrow> ('g, 'p) mux_state \<Rightarrow> nat \<Rightarrow> chanid_circid \<Rightarrow> circuit_muxinfo_t \<Rightarrow> ('g, 'p) mux_state option" where
  "free_entry_data pol s circ k e =
     (case mi_policy_data e of
        None \<Rightarrow> Some s
      | Some d \<Rightarrow>
          do { tor_assert (cm_policy (snd s));
               f \<leftarrow> free_circ_data pol;
               (g, cmux) \<leftarrow> call_policy (\<lambda>p. f p circ (Some d)) s;
               Some (g, set_muxinfo k (mi_policy_data_update (\<lambda>_. None)) cmux) })"

definition circuitmux_detach_circuit ::
  "('g, 'p) circuitmux_policy_t \<Rightarrow> ('g, 'p) mux_state \<Rightarrow> mux_circuit_t \<Rightarrow> ('g, 'p) mux_state option" where
  "circuitmux_detach_circuit pol s circ =
     (let found_n = (case n_chan circ of None \<Rightarrow> None
            | Some c \<Rightarrow> map_option (\<lambda>e. ((c, n_circ_id circ), e)) (HT_FIND (snd s) (c, n_circ_id circ)));
          dir_n = (if n_chan circ \<noteq> None then Some CELL_DIRECTION_OUT else None);
          (found, last_searched_direction) =
            (if found_n = None \<and> or_magic circ
             then case p_chan circ of
                    None \<Rightarrow> (None, dir_n)
                  | Some c \<Rightarrow> (map_option (\<lambda>e. ((c, p_circ_id circ), e)) (HT_FIND (snd s) (c, p_circ_id circ)),
                               Some CELL_DIRECTION_IN)
             else (found_n, dir_n))
      in do { tor_assert (last_searched_direction \<noteq> None);
              case found of
                None \<Rightarrow> Some s
              | Some (k, e) \<Rightarrow>
                  do { let cmux = (snd s)\<lparr>n_circuits := n_circuits (snd s) - 1\<rparr>;
                       s \<leftarrow> (if cell_count e > 0
                             then circuitmux_make_circuit_inactive pol
                                    (fst s, cmux\<lparr>n_active_circuits := n_active_circuits cmux - 1\<rparr>) circ
                             else Some (fst s, cmux));
                       let s = (fst s, (snd s)\<lparr>n_cells := n_cells (snd s) - cell_count e\<rparr>);
                       s \<leftarrow> free_entry_data pol s (circ_addr circ) k e;
                       tor_assert (last_searched_direction = Some (mi_direction e));
                       Some (fst s, HT_REMOVE (snd s) k) } })"

section \<open>Counting cells and choosing a circuit\<close>

definition circuitmux_set_num_cells ::
  "('g, 'p) circuitmux_policy_t \<Rightarrow> ('g, 'p) mux_state \<Rightarrow> mux_circuit_t \<Rightarrow> u32 \<Rightarrow> ('g, 'p) mux_state option" where
  "circuitmux_set_num_cells pol s circ cnt =
     do { hashent \<leftarrow> circuitmux_find_map_entry (snd s) circ;
          k \<leftarrow> hashent;
          e \<leftarrow> HT_FIND (snd s) k;
          let s = (fst s, (snd s)\<lparr>n_cells := n_cells (snd s) - cell_count e + cnt\<rparr>);
          tor_assert (cm_policy (snd s));
          s \<leftarrow> (case notify_set_n_cells pol of
                  None \<Rightarrow> Some s
                | Some f \<Rightarrow> call_policy (\<lambda>p. f p (circ_addr circ) (mi_policy_data e) cnt) s);
          if cell_count e > 0 \<and> cnt = 0
          then circuitmux_make_circuit_inactive pol
                 (fst s, set_muxinfo k (cell_count_update (\<lambda>_. cnt))
                           ((snd s)\<lparr>n_active_circuits := n_active_circuits (snd s) - 1\<rparr>)) circ
          else if cell_count e = 0 \<and> cnt > 0
          then circuitmux_make_circuit_active pol
                 (fst s, set_muxinfo k (cell_count_update (\<lambda>_. cnt))
                           ((snd s)\<lparr>n_active_circuits := n_active_circuits (snd s) + 1\<rparr>)) circ
          else Some (fst s, set_muxinfo k (cell_count_update (\<lambda>_. cnt)) (snd s)) }"

definition circuitmux_clear_num_cells ::
  "('g, 'p) circuitmux_policy_t \<Rightarrow> ('g, 'p) mux_state \<Rightarrow> mux_circuit_t \<Rightarrow> ('g, 'p) mux_state option" where
  "circuitmux_clear_num_cells pol s circ = circuitmux_set_num_cells pol s circ 0"

text \<open>What to send next: the DESTROY queue, a circuit, or nothing.\<close>

datatype next_to_send = Send_destroy | Send_circuit "nat option"

definition circuitmux_get_first_active_circuit ::
  "('g, 'p) circuitmux_policy_t \<Rightarrow> ('g, 'p) mux_state \<Rightarrow> (next_to_send \<times> 'p circuitmux_t) option" where
  "circuitmux_get_first_active_circuit pol s =
     (let cmux = snd s
      in do { tor_assert (cm_policy cmux);
              pick \<leftarrow> pick_active_circuit pol;
              if dq_n (destroy_cell_queue cmux) \<noteq> 0 \<and> (\<not> last_cell_was_destroy cmux \<or> n_active_circuits cmux = 0)
              then Some (Send_destroy, cmux\<lparr>last_cell_was_destroy := True\<rparr>)
              else if n_active_circuits cmux > 0
              then do { tor_assert (n_cells cmux > 0);
                        circ \<leftarrow> pick (fst s, cm_policy_data cmux);
                        Some (Send_circuit circ, cmux\<lparr>last_cell_was_destroy := False\<rparr>) }
              else do { tor_assert (n_cells cmux = 0);
                        tor_assert (dq_n (destroy_cell_queue cmux) = 0);
                        Some (Send_circuit None, cmux) } })"

definition circuitmux_notify_xmit_cells ::
  "('g, 'p) circuitmux_policy_t \<Rightarrow> ('g, 'p) mux_state \<Rightarrow> mux_circuit_t \<Rightarrow> u32 \<Rightarrow> ('g, 'p) mux_state option" where
  "circuitmux_notify_xmit_cells pol s circ sent =
     (if sent = 0 then Some s
      else do { hashent \<leftarrow> circuitmux_find_map_entry (snd s) circ;
                k \<leftarrow> hashent;
                e \<leftarrow> HT_FIND (snd s) k;
                tor_assert (sent \<le> cell_count e);
                let s = (fst s, set_muxinfo k (cell_count_update (\<lambda>c. c - sent))
                                  ((snd s)\<lparr>n_cells := n_cells (snd s) - sent\<rparr>));
                tor_assert (cm_policy (snd s));
                s \<leftarrow> (case notify_xmit_cells pol of
                        None \<Rightarrow> Some s
                      | Some f \<Rightarrow> call_policy (\<lambda>p. f p (circ_addr circ) (mi_policy_data e) sent) s);
                if cell_count e - sent = 0
                then circuitmux_make_circuit_inactive pol
                       (fst s, (snd s)\<lparr>n_active_circuits := n_active_circuits (snd s) - 1\<rparr>) circ
                else Some s })"

text \<open>The two counters of DESTROY cells: that of the multiplexer and the program-wide one.\<close>

definition circuitmux_notify_xmit_destroy :: "int \<Rightarrow> 'p circuitmux_t \<Rightarrow> int \<times> 'p circuitmux_t" where
  "circuitmux_notify_xmit_destroy global_destroy_ctr cmux =
     (global_destroy_ctr - 1, cmux\<lparr>destroy_ctr := destroy_ctr cmux - 1\<rparr>)"

section \<open>Taking a multiplexer down, changing its policy\<close>

text \<open>
  The loop of \<^verbatim>\<open>circuitmux_detach_all_circuits\<close>, over the entries of the table: \<open>lookup\<close> is the
  circuit that \<^verbatim>\<open>channel_find_by_global_id\<close> and \<^verbatim>\<open>circuit_get_by_circid_channel_even_if_marked\<close>
  find for an entry.  An entry whose circuit is not found keeps its policy data and then fails the
  assertion that there is none.
\<close>

fun detach_all_loop ::
  "('g, 'p) circuitmux_policy_t \<Rightarrow> (u64 \<Rightarrow> u32 \<Rightarrow> mux_circuit_t option) \<Rightarrow> (chanid_circid \<times> circuit_muxinfo_t) list \<Rightarrow>
   ('g, 'p) mux_state \<Rightarrow> nat list \<Rightarrow> (('g, 'p) mux_state \<times> nat list) option" where
  "detach_all_loop pol lookup [] s detached_out = Some (s, detached_out)"
| "detach_all_loop pol lookup ((k, e) # rest) s detached_out =
     do { (s, detached_out, data) \<leftarrow>
            (case lookup (fst k) (snd k) of
               None \<Rightarrow> Some (s, detached_out, mi_policy_data e)
             | Some circ \<Rightarrow>
                 do { (s, detached_out) \<leftarrow>
                        (if mi_direction e = CELL_DIRECTION_OUT \<or> or_magic circ
                         then do { s \<leftarrow> (if cell_count e > 0 then circuitmux_make_circuit_inactive pol s circ else Some s);
                                   Some (s, smartlist_add detached_out (circ_addr circ)) }
                         else Some (s, detached_out));
                      s \<leftarrow> free_entry_data pol s (circ_addr circ) k e;
                      Some (s, detached_out, None) });
          tor_assert (data = None);
          detach_all_loop pol lookup rest (fst s, HT_REMOVE (snd s) k) detached_out }"

definition circuitmux_detach_all_circuits ::
  "('g, 'p) circuitmux_policy_t \<Rightarrow> (u64 \<Rightarrow> u32 \<Rightarrow> mux_circuit_t option) \<Rightarrow> ('g, 'p) mux_state \<Rightarrow>
   (('g, 'p) mux_state \<times> nat list) option" where
  "circuitmux_detach_all_circuits pol lookup s =
     do { (s, detached_out) \<leftarrow> detach_all_loop pol lookup (chanid_circid_map (snd s)) s [];
          Some ((fst s, (snd s)\<lparr>n_circuits := 0, n_active_circuits := 0, n_cells := 0\<rparr>), detached_out) }"

text \<open>\<^verbatim>\<open>circuitmux_free_\<close> gives the globals back and the program-wide DESTROY counter.\<close>

definition circuitmux_free :: "('g, 'p) circuitmux_policy_t \<Rightarrow> int \<Rightarrow> ('g, 'p) mux_state \<Rightarrow> ('g \<times> int) option" where
  "circuitmux_free pol global_destroy_ctr s =
     (let cmux = snd s
      in do { tor_assert (n_circuits cmux = 0);
              tor_assert (n_active_circuits cmux = 0);
              g \<leftarrow> (case free_cmux_data pol of
                      Some f \<Rightarrow> if cm_policy cmux
                                then Some (if cm_policy_data cmux = None then fst s else f (fst s, cm_policy_data cmux))
                                else do { tor_assert (cm_policy_data cmux = None); Some (fst s) }
                    | None \<Rightarrow> do { tor_assert (cm_policy_data cmux = None); Some (fst s) });
              Some (g, if dq_n (destroy_cell_queue cmux) > 0
                       then global_destroy_ctr - dq_n (destroy_cell_queue cmux) else global_destroy_ctr) })"

text \<open>
  The loop of \<^verbatim>\<open>circuitmux_set_policy\<close>.  \<open>old_data\<close> is the policy data of the old policy, which the
  multiplexer no longer points to; \<open>to_new\<close> says that the new policy is the table, otherwise the old
  one was.
\<close>

fun set_policy_loop ::
  "('g, 'p) circuitmux_policy_t \<Rightarrow> (u64 \<Rightarrow> u32 \<Rightarrow> mux_circuit_t option) \<Rightarrow> bool \<Rightarrow> (chanid_circid \<times> circuit_muxinfo_t) list \<Rightarrow>
   'p option \<Rightarrow> ('g, 'p) mux_state \<Rightarrow> ('p option \<times> ('g, 'p) mux_state) option" where
  "set_policy_loop pol lookup to_new [] old_data s = Some (old_data, s)"
| "set_policy_loop pol lookup to_new ((k, e) # rest) old_data s =
     do { circ \<leftarrow> lookup (fst k) (snd k);
          (g, old_data) \<leftarrow>
            (case notify_circ_inactive pol of
               Some f \<Rightarrow> if \<not> to_new \<and> cell_count e > 0
                         then f (fst s, old_data) (circ_addr circ) (mi_policy_data e) else Some (fst s, old_data)
             | None \<Rightarrow> Some (fst s, old_data));
          (g, old_data) \<leftarrow>
            (case mi_policy_data e of
               None \<Rightarrow> Some (g, old_data)
             | Some d \<Rightarrow> do { tor_assert (\<not> to_new); f \<leftarrow> free_circ_data pol; f (g, old_data) (circ_addr circ) (Some d) });
          ((g, pd), data) \<leftarrow>
            (case alloc_circ_data pol of
               Some f \<Rightarrow> if to_new
                         then do { tor_assert (free_circ_data pol \<noteq> None);
                                   f (g, cm_policy_data (snd s)) (circ_addr circ) (mi_direction e) (cell_count e) }
                         else Some ((g, cm_policy_data (snd s)), None)
             | None \<Rightarrow> Some ((g, cm_policy_data (snd s)), None));
          (g, pd) \<leftarrow>
            (case notify_circ_active pol of
               Some f \<Rightarrow> if to_new \<and> cell_count e > 0 then f (g, pd) (circ_addr circ) data else Some (g, pd)
             | None \<Rightarrow> Some (g, pd));
          set_policy_loop pol lookup to_new rest old_data
            (g, set_muxinfo k (mi_policy_data_update (\<lambda>_. data)) ((snd s)\<lparr>cm_policy_data := pd\<rparr>)) }"

definition circuitmux_set_policy ::
  "('g, 'p) circuitmux_policy_t \<Rightarrow> (u64 \<Rightarrow> u32 \<Rightarrow> mux_circuit_t option) \<Rightarrow> ('g, 'p) mux_state \<Rightarrow> bool \<Rightarrow> ('g, 'p) mux_state option" where
  "circuitmux_set_policy pol lookup s to_new =
     (let old_pol = cm_policy (snd s); old_data = cm_policy_data (snd s)
      in if old_pol = to_new then Some s
         else do { (g, new_data) \<leftarrow>
                     (case alloc_cmux_data pol of
                        Some f \<Rightarrow> if to_new
                                  then do { tor_assert (free_cmux_data pol \<noteq> None);
                                            let (g, pd) = f (fst s);
                                            tor_assert (pd \<noteq> None);
                                            Some (g, pd) }
                                  else Some (fst s, None)
                      | None \<Rightarrow> Some (fst s, None));
                   let cmux = (snd s)\<lparr>cm_policy := to_new, cm_policy_data := new_data\<rparr>;
                   (old_data, s) \<leftarrow> set_policy_loop pol lookup to_new (chanid_circid_map cmux) old_data (g, cmux);
                   if old_data = None then Some s
                   else do { tor_assert old_pol;
                             f \<leftarrow> free_cmux_data pol;
                             Some (f (fst s, old_data), snd s) } })"

definition circuitmux_clear_policy ::
  "('g, 'p) circuitmux_policy_t \<Rightarrow> (u64 \<Rightarrow> u32 \<Rightarrow> mux_circuit_t option) \<Rightarrow> ('g, 'p) mux_state \<Rightarrow> ('g, 'p) mux_state option" where
  "circuitmux_clear_policy pol lookup s = circuitmux_set_policy pol lookup s False"

text \<open>Two multiplexers compare by the policy, when both have one; \<open>same\<close> says that they are the same
  object.\<close>

definition circuitmux_compare_muxes ::
  "('g, 'p) circuitmux_policy_t \<Rightarrow> bool \<Rightarrow> 'p circuitmux_t \<Rightarrow> 'p circuitmux_t \<Rightarrow> int option" where
  "circuitmux_compare_muxes pol same cmux_1 cmux_2 =
     (if same then Some 0
      else if cm_policy cmux_1 \<and> cm_policy cmux_2
      then case cmp_cmux pol of Some f \<Rightarrow> f (cm_policy_data cmux_1) (cm_policy_data cmux_2) | None \<Rightarrow> Some 0
      else Some 0)"

end
