(* ===== verification/CircuitMuxInv.thy ===== *)
theory CircuitMuxInv
  imports CircuitMux
begin

text \<open>
  The contract between a circuit multiplexer and its policy, as a locale, and what every operation of
  the multiplexer does under that contract: it never aborts, it keeps the invariant that ties the
  counters, the table of circuits and the policy data together, and it changes the cell counts of the
  circuits exactly as the abstract multiplexer does, which is a map from circuits to cell counts.
\<close>

section \<open>The invariant\<close>

text \<open>The circuit at address \<open>a\<close> is the one that the entry \<open>(k, e)\<close> of the multiplexer of channel
  \<open>ch\<close> describes.  A circuit uses a channel in one direction only.\<close>

definition entry_circ :: "(nat \<Rightarrow> mux_circuit_t option) \<Rightarrow> u64 \<Rightarrow> chanid_circid \<Rightarrow> circuit_muxinfo_t \<Rightarrow> nat \<Rightarrow> bool" where
  "entry_circ circs ch k e a =
     (case circs a of
        None \<Rightarrow> False
      | Some c \<Rightarrow> circ_addr c = a \<and> fst k = ch \<and>
          (case mi_direction e of
             CELL_DIRECTION_OUT \<Rightarrow> n_chan c = Some ch \<and> n_circ_id c = snd k
           | CELL_DIRECTION_IN \<Rightarrow> or_magic c \<and> p_chan c = Some ch \<and> p_circ_id c = snd k \<and> n_chan c \<noteq> Some ch))"

type_synonym mux_table = "(chanid_circid \<times> circuit_muxinfo_t) list"

definition active_entries :: "mux_table \<Rightarrow> mux_table" where
  "active_entries M = filter (\<lambda>(k, e). cell_count e > 0) M"

definition entry_data :: "mux_table \<Rightarrow> nat option list" where
  "entry_data M = map (mi_policy_data \<circ> snd) M"

definition total_cells :: "mux_table \<Rightarrow> nat" where
  "total_cells M = sum_list (map (unat \<circ> cell_count \<circ> snd) M)"

definition entry_ok :: "(nat \<Rightarrow> mux_circuit_t option) \<Rightarrow> u64 \<Rightarrow> (nat \<Rightarrow> nat option) \<Rightarrow> chanid_circid \<Rightarrow> circuit_muxinfo_t \<Rightarrow> bool" where
  "entry_ok circs ch owner k e = (\<exists>d a. mi_policy_data e = Some d \<and> owner d = Some a \<and> entry_circ circs ch k e a)"

text \<open>The table and the policy data: the policy data of the circuits are allocated, one per entry and
  no other, each for the circuit of its entry, and those of the active entries are active.\<close>

definition table_ok ::
  "(nat \<Rightarrow> mux_circuit_t option) \<Rightarrow> u64 \<Rightarrow> mux_table \<Rightarrow> (nat \<Rightarrow> nat option) \<Rightarrow> nat set \<Rightarrow> bool" where
  "table_ok circs ch M owner act =
     (distinct (map fst M) \<and> distinct (entry_data M) \<and> Some ` dom owner = set (entry_data M) \<and>
      Some ` act = set (entry_data (active_entries M)) \<and>
      (\<forall>(k, e) \<in> set M. entry_ok circs ch owner k e))"

definition counters_ok :: "'p circuitmux_t \<Rightarrow> bool" where
  "counters_ok cmux =
     (n_circuits cmux = of_nat (length (chanid_circid_map cmux)) \<and>
      n_active_circuits cmux = of_nat (length (active_entries (chanid_circid_map cmux))) \<and>
      n_cells cmux = of_nat (total_cells (chanid_circid_map cmux)))"

definition mux_ok ::
  "('g \<Rightarrow> bool) \<Rightarrow> ('p \<Rightarrow> bool) \<Rightarrow> ('p \<Rightarrow> nat set) \<Rightarrow> ('p \<Rightarrow> nat \<Rightarrow> nat option) \<Rightarrow>
   (nat \<Rightarrow> mux_circuit_t option) \<Rightarrow> u64 \<Rightarrow> ('g, 'p) mux_state \<Rightarrow> bool" where
  "mux_ok good pwf act owner circs ch s =
     (good (fst s) \<and> cm_policy (snd s) \<and> counters_ok (snd s) \<and>
      (case cm_policy_data (snd s) of
         None \<Rightarrow> False
       | Some p \<Rightarrow> pwf p \<and> table_ok circs ch (chanid_circid_map (snd s)) (owner p) (act p)))"

text \<open>The abstract multiplexer: how many cells wait on which circuit.\<close>

definition mux_abs :: "'p circuitmux_t \<Rightarrow> chanid_circid \<Rightarrow> u32 option" where
  "mux_abs cmux k = map_option cell_count (HT_FIND cmux k)"

text \<open>What the operations on circuits leave alone: the DESTROY cells.\<close>

definition same_destroys :: "'p circuitmux_t \<Rightarrow> 'p circuitmux_t \<Rightarrow> bool" where
  "same_destroys cmux cmux' =
     (destroy_cell_queue cmux' = destroy_cell_queue cmux \<and> destroy_ctr cmux' = destroy_ctr cmux \<and>
      last_cell_was_destroy cmux' = last_cell_was_destroy cmux)"

lemma same_destroys_refl [simp]: "same_destroys m m"
  by (simp add: same_destroys_def)

section \<open>Tables\<close>

lemma table_split:
  assumes "distinct (map fst M)" and "map_of M k = Some e"
  obtains M1 M2 where "M = M1 @ (k, e) # M2" and "k \<notin> fst ` set M1" and "k \<notin> fst ` set M2"
proof -
  obtain M1 M2 where M: "M = M1 @ (k, e) # M2" using assms(2) by (meson map_of_SomeD split_list)
  then show thesis using assms(1) that by auto
qed

lemma map_of_split [simp]: "k \<notin> fst ` set M1 \<Longrightarrow> map_of (M1 @ (k, e) # M2) k = Some e"
  by (simp add: map_add_def map_of_eq_None_iff [THEN iffD2])

lemma map_keyed [simp]: "k \<notin> fst ` set M \<Longrightarrow> map (\<lambda>(k', e). (k', if k' = k then f e else e)) M = M"
  by (induction M) auto

lemma filter_keyed [simp]: "k \<notin> fst ` set M \<Longrightarrow> filter (\<lambda>(k', e). k' \<noteq> k) M = M"
  by (induction M) auto

lemma set_muxinfo_split:
  "k \<notin> fst ` set M1 \<Longrightarrow> k \<notin> fst ` set M2 \<Longrightarrow> chanid_circid_map cmux = M1 @ (k, e) # M2 \<Longrightarrow>
   set_muxinfo k f cmux = cmux\<lparr>chanid_circid_map := M1 @ (k, f e) # M2\<rparr>"
  by (simp add: set_muxinfo_def)

lemma HT_REMOVE_split:
  "k \<notin> fst ` set M1 \<Longrightarrow> k \<notin> fst ` set M2 \<Longrightarrow> chanid_circid_map cmux = M1 @ (k, e) # M2 \<Longrightarrow>
   HT_REMOVE cmux k = cmux\<lparr>chanid_circid_map := M1 @ M2\<rparr>"
  by (simp add: HT_REMOVE_def)

lemma map_of_append_fun: "map_of (M1 @ (k, e) # M2) = ((map_of M2)(k \<mapsto> e)) ++ map_of M1"
  by simp

lemma entry_data_simps [simp]:
  "entry_data [] = []" "entry_data (x # M) = mi_policy_data (snd x) # entry_data M"
  "entry_data (M1 @ M2) = entry_data M1 @ entry_data M2"
  by (simp_all add: entry_data_def)

lemma active_entries_simps [simp]:
  "active_entries [] = []"
  "active_entries ((k, e) # M) = (if cell_count e > 0 then (k, e) # active_entries M else active_entries M)"
  "active_entries (M1 @ M2) = active_entries M1 @ active_entries M2"
  by (simp_all add: active_entries_def)

lemma total_cells_simps [simp]:
  "total_cells [] = 0" "total_cells ((k, e) # M) = unat (cell_count e) + total_cells M"
  "total_cells (M1 @ M2) = total_cells M1 + total_cells M2"
  by (simp_all add: total_cells_def)

lemma active_entries_sub: "set (entry_data (active_entries M)) \<subseteq> set (entry_data M)"
  by (auto simp: active_entries_def entry_data_def)

lemma length_active_le: "length (active_entries M) \<le> length M"
  by (simp add: active_entries_def)

lemma u32_positive: "(0 < (w :: u32)) = (0 < unat w)"
  by (simp add: word_gt_0 unat_gt_0)

lemma active_le_total: "length (active_entries M) \<le> total_cells M"
proof (induction M)
  case (Cons x M)
  then show ?case by (cases x) (auto simp: u32_positive)
qed simp

lemma total_cells_zero: "active_entries M = [] \<Longrightarrow> total_cells M = 0"
proof (induction M)
  case (Cons x M)
  then show ?case by (cases x) (auto simp: u32_positive split: if_splits)
qed simp

lemma find_map_entry:
  assumes "distinct (map fst M)" and "chanid_circid_map cmux = M" and "\<forall>k\<in>fst ` set M. fst k = ch"
    and "(k, e) \<in> set M" and "entry_circ circs ch k e a" and "circs a = Some c"
  shows "circuitmux_find_map_entry cmux c = Some (Some k) \<and> HT_FIND cmux k = Some e"
proof -
  have e: "map_of M k = Some e" using assms(1,4) by (simp add: map_of_is_SomeI)
  have k: "k = (ch, snd k)" using assms(5,6) by (simp add: entry_circ_def prod_eq_iff)
  have none: "map_of M (c', i) = None" if "c' \<noteq> ch" for c' i
    using assms(3) that by (force simp: map_of_eq_None_iff)
  show ?thesis
  proof (cases "mi_direction e")
    case CELL_DIRECTION_OUT
    then show ?thesis using assms(2,5,6) e k
      by (simp add: circuitmux_find_map_entry_def entry_circ_def HT_FIND_def)
  next
    case CELL_DIRECTION_IN
    then show ?thesis using assms(2,5,6) e k none
      by (cases "n_chan c") (auto simp: circuitmux_find_map_entry_def entry_circ_def HT_FIND_def)
  qed
qed

lemma table_keys: "table_ok circs ch M owner act \<Longrightarrow> k \<in> fst ` set M \<Longrightarrow> fst k = ch"
  by (fastforce simp: table_ok_def entry_ok_def entry_circ_def split: option.splits)

lemma table_entry:
  assumes "table_ok circs ch M owner act" and "(k, e) \<in> set M"
  obtains d a c where "mi_policy_data e = Some d" "owner d = Some a" "entry_circ circs ch k e a" "circs a = Some c" "circ_addr c = a"
proof -
  have "entry_ok circs ch owner k e" using assms by (auto simp: table_ok_def)
  then show thesis using that by (auto simp: entry_ok_def entry_circ_def split: option.splits)
qed

lemma entry_circ_cong: "mi_direction e' = mi_direction e \<Longrightarrow> entry_circ circs ch k e' a = entry_circ circs ch k e a"
  by (auto simp: entry_circ_def split: option.splits)

lemma table_replace:
  assumes t: "table_ok circs ch (M1 @ (k, e) # M2) owner act"
    and e': "mi_policy_data e' = mi_policy_data e" "mi_direction e' = mi_direction e" and d: "mi_policy_data e = Some d"
  shows "table_ok circs ch (M1 @ (k, e') # M2) owner (if cell_count e' > 0 then insert d act else act - {d})"
proof -
  have "Some d \<notin> set (entry_data (active_entries M1))" "Some d \<notin> set (entry_data (active_entries M2))"
    using t d active_entries_sub [of M1] active_entries_sub [of M2] by (auto simp: table_ok_def)
  moreover have "Some ` (act - {d}) = Some ` act - {Some d}" by auto
  ultimately have "Some ` (if cell_count e' > 0 then insert d act else act - {d}) =
      set (entry_data (active_entries (M1 @ (k, e') # M2)))"
    using t e' d by (auto simp: table_ok_def)
  then show ?thesis using t e' d
    unfolding table_ok_def by (simp del: active_entries_simps add: entry_ok_def entry_circ_cong [OF e'(2)])
qed

lemma table_remove:
  assumes t: "table_ok circs ch (M1 @ (k, e) # M2) owner act" and d: "mi_policy_data e = Some d"
  shows "table_ok circs ch (M1 @ M2) (owner(d := None)) (act - {d})"
proof -
  have n: "Some d \<notin> set (entry_data (M1 @ M2))" using t d by (auto simp: table_ok_def)
  have dom: "Some ` dom owner = insert (Some d) (set (entry_data (M1 @ M2)))" using t d by (simp add: table_ok_def)
  have "Some ` dom (owner(d := None)) = Some ` dom owner - {Some d}" by auto
  then have "Some ` dom (owner(d := None)) = set (entry_data (M1 @ M2))" using n by (simp add: dom)
  moreover have "Some ` (act - {d}) = set (entry_data (active_entries (M1 @ M2)))"
  proof -
    have "Some ` (act - {d}) = Some ` act - {Some d}" by auto
    moreover have "Some d \<notin> set (entry_data (active_entries (M1 @ M2)))" using n active_entries_sub by blast
    ultimately show ?thesis using t d by (auto simp: table_ok_def)
  qed
  moreover have "entry_ok circs ch (owner(d := None)) k' e'"
    if m: "(k', e') \<in> set (M1 @ M2)" for k' e'
  proof -
    have "mi_policy_data e' \<noteq> Some d" using n m by (force simp: entry_data_def)
    moreover obtain d' a where "mi_policy_data e' = Some d'" "owner d' = Some a" "entry_circ circs ch k' e' a"
      using table_entry [OF t] m by (metis Un_iff list.set_intros(2) set_append)
    ultimately show ?thesis by (auto simp: entry_ok_def)
  qed
  ultimately show ?thesis using t unfolding table_ok_def by auto
qed

lemma table_insert:
  assumes t: "table_ok circs ch M owner act" and k: "k \<notin> fst ` set M" and d: "mi_policy_data e = Some d" "owner d = None"
    and a: "entry_circ circs ch k e a"
  shows "table_ok circs ch ((k, e) # M) (owner(d \<mapsto> a)) (if cell_count e > 0 then insert d act else act)"
proof -
  have n: "Some d \<notin> set (entry_data M)" using t d by (auto simp: table_ok_def)
  have "entry_ok circs ch (owner(d \<mapsto> a)) k' e'"
    if m: "(k', e') \<in> set M" for k' e'
  proof -
    have "mi_policy_data e' \<noteq> Some d" using n m by (force simp: entry_data_def)
    moreover obtain d' a' where "mi_policy_data e' = Some d'" "owner d' = Some a'" "entry_circ circs ch k' e' a'"
      using table_entry [OF t m] by metis
    ultimately show ?thesis by (auto simp: entry_ok_def)
  qed
  moreover have "entry_ok circs ch (owner(d \<mapsto> a)) k e" using d a by (auto simp: entry_ok_def)
  ultimately show ?thesis using t k d n by (auto simp: table_ok_def)
qed

section \<open>The contract of a policy\<close>

text \<open>
  What a multiplexer relies on.  \<open>pwf\<close> is the policy's own invariant of its data, \<open>good\<close> that of its
  globals; \<open>owner\<close> says for which circuit the data at an address were allocated, \<open>act\<close> which data are
  active, and \<open>first\<close> which of them is the policy's choice.  A circuit is activated and deactivated in
  turn, its data are released when it is not active, and cells are reported as sent only for the
  circuit that is the choice.
\<close>

locale cmux_policy =
  fixes pol :: "('g, 'p) circuitmux_policy_t"
    and good :: "'g \<Rightarrow> bool"
    and pwf :: "'p \<Rightarrow> bool"
    and act :: "'p \<Rightarrow> nat set"
    and owner :: "'p \<Rightarrow> nat \<Rightarrow> nat option"
    and first :: "'p \<Rightarrow> nat option"
  assumes allocates: "good g \<Longrightarrow> \<exists>f g' p. alloc_cmux_data pol = Some f \<and> free_cmux_data pol \<noteq> None \<and> f g = (g', Some p) \<and>
       good g' \<and> pwf p \<and> act p = {} \<and> owner p = Map.empty"
    and allocates_circ: "pwf p \<Longrightarrow> good g \<Longrightarrow> \<exists>f p' d. alloc_circ_data pol = Some f \<and> free_circ_data pol \<noteq> None \<and>
       f (g, Some p) c dir n = Some ((g, Some p'), Some d) \<and> pwf p' \<and> owner p d = None \<and>
       owner p' = (owner p)(d \<mapsto> c) \<and> act p' = act p"
    and frees_circ: "pwf p \<Longrightarrow> owner p d \<noteq> None \<Longrightarrow> d \<notin> act p \<Longrightarrow> \<exists>f p'. free_circ_data pol = Some f \<and>
       f (g, Some p) c (Some d) = Some (g, Some p') \<and> pwf p' \<and> owner p' = (owner p)(d := None) \<and> act p' = act p"
    and activates: "pwf p \<Longrightarrow> owner p d \<noteq> None \<Longrightarrow> d \<notin> act p \<Longrightarrow> \<exists>f p'. notify_circ_active pol = Some f \<and>
       f (g, Some p) c (Some d) = Some (g, Some p') \<and> pwf p' \<and> owner p' = owner p \<and> act p' = insert d (act p)"
    and deactivates: "pwf p \<Longrightarrow> d \<in> act p \<Longrightarrow> \<exists>f p'. notify_circ_inactive pol = Some f \<and>
       f (g, Some p) c (Some d) = Some (g, Some p') \<and> pwf p' \<and> owner p' = owner p \<and> act p' = act p - {d}"
    and counts: "notify_set_n_cells pol = Some f \<Longrightarrow> pwf p \<Longrightarrow> \<exists>p'. f (g, Some p) c (Some d) n = Some (g, Some p') \<and>
       pwf p' \<and> owner p' = owner p \<and> act p' = act p"
    and transmits: "pwf p \<Longrightarrow> good g \<Longrightarrow> first p = Some d \<Longrightarrow> 0 < n \<Longrightarrow> \<exists>f g' p'. notify_xmit_cells pol = Some f \<and>
       f (g, Some p) c (Some d) n = Some (g', Some p') \<and> good g' \<and> pwf p' \<and> owner p' = owner p \<and> act p' = act p"
    and picks: "pwf p \<Longrightarrow> \<exists>f. pick_active_circuit pol = Some f \<and>
       f (g, Some p) = Some (case first p of None \<Rightarrow> None | Some d \<Rightarrow> owner p d)"
    and first_active: "pwf p \<Longrightarrow> act p \<noteq> {} \<Longrightarrow> \<exists>d. first p = Some d \<and> d \<in> act p"
begin

abbreviation ok :: "(nat \<Rightarrow> mux_circuit_t option) \<Rightarrow> u64 \<Rightarrow> ('g, 'p) mux_state \<Rightarrow> bool" where
  "ok \<equiv> mux_ok good pwf act owner"

lemma okD:
  assumes "ok circs ch (g, m)"
  obtains p where "good g" "cm_policy m" "counters_ok m" "cm_policy_data m = Some p" "pwf p"
    "table_ok circs ch (chanid_circid_map m) (owner p) (act p)"
  using assms that by (auto simp: mux_ok_def split: option.splits)

lemma find_entry:
  assumes "table_ok circs ch (chanid_circid_map m) ow ac" and "(k, e) \<in> set (chanid_circid_map m)"
    and "entry_circ circs ch k e a" and "circs a = Some c"
  shows "circuitmux_find_map_entry m c = Some (Some k)" and "HT_FIND m k = Some e"
  using find_map_entry [OF _ refl _ assms(2,3,4)] assms(1) table_keys [OF assms(1)] by (auto simp: table_ok_def)

lemma make_active:
  assumes "cm_policy m" "cm_policy_data m = Some p" "pwf p" "circuitmux_find_map_entry m c = Some (Some k)"
    "HT_FIND m k = Some e" "mi_policy_data e = Some d" "owner p d \<noteq> None" "d \<notin> act p"
  shows "\<exists>p'. circuitmux_make_circuit_active pol (g, m) c = Some (g, m\<lparr>cm_policy_data := Some p'\<rparr>) \<and>
    pwf p' \<and> owner p' = owner p \<and> act p' = insert d (act p)"
  using activates [OF assms(3,7,8), of g "circ_addr c"] assms
  by (auto simp: circuitmux_make_circuit_active_def notify_entry_def call_policy_def)

lemma make_inactive:
  assumes "cm_policy m" "cm_policy_data m = Some p" "pwf p" "circuitmux_find_map_entry m c = Some (Some k)"
    "HT_FIND m k = Some e" "mi_policy_data e = Some d" "d \<in> act p"
  shows "\<exists>p'. circuitmux_make_circuit_inactive pol (g, m) c = Some (g, m\<lparr>cm_policy_data := Some p'\<rparr>) \<and>
    pwf p' \<and> owner p' = owner p \<and> act p' = act p - {d}"
  using deactivates [OF assms(3,7), of g "circ_addr c"] assms
  by (auto simp: circuitmux_make_circuit_inactive_def notify_entry_def call_policy_def)

text \<open>The data of an entry are active exactly when cells wait.\<close>

lemma active_iff:
  assumes "table_ok circs ch M ow ac" "(k, e) \<in> set M" "mi_policy_data e = Some d"
  shows "(d \<in> ac) = (cell_count e > 0)"
proof -
  obtain M1 M2 where M: "M = M1 @ (k, e) # M2" using assms(2) by (meson split_list)
  have "Some d \<notin> set (entry_data (M1 @ M2))" using assms(1,3) M by (auto simp: table_ok_def)
  then have "Some d \<notin> set (entry_data (active_entries (M1 @ M2)))" using active_entries_sub by blast
  moreover have "(d \<in> ac) = (Some d \<in> set (entry_data (active_entries M)))"
    using assms(1) by (metis (no_types, lifting) image_iff option.inject table_ok_def)
  ultimately show ?thesis using M assms(3) by simp
qed

end

lemma counters_replace:
  assumes "counters_ok m" "chanid_circid_map m = M1 @ (k, e) # M2" "chanid_circid_map m' = M1 @ (k, e') # M2"
    "n_circuits m' = n_circuits m" "n_cells m' = n_cells m - cell_count e + cell_count e'"
    "n_active_circuits m' = n_active_circuits m + of_bool (cell_count e' > 0) - of_bool (cell_count e > 0)"
  shows "counters_ok m'"
  using assms by (auto simp: counters_ok_def)

lemma HT_FIND_replace:
  "chanid_circid_map m = M1 @ (k, e) # M2 \<Longrightarrow> k \<notin> fst ` set M1 \<Longrightarrow> chanid_circid_map m' = M1 @ (k, e') # M2 \<Longrightarrow>
   HT_FIND m' = (HT_FIND m)(k \<mapsto> e')"
  by (rule ext) (auto simp: HT_FIND_def map_add_def map_of_eq_None_iff [THEN iffD2] split: option.splits)

lemma set_num_cells_eq:
  assumes "circuitmux_find_map_entry m c = Some (Some k)" "HT_FIND m k = Some e" "cm_policy m"
    and "(case notify_set_n_cells pol of None \<Rightarrow> Some (g, m\<lparr>n_cells := n_cells m - cell_count e + n\<rparr>)
          | Some f \<Rightarrow> call_policy (\<lambda>p. f p (circ_addr c) (mi_policy_data e) n) (g, m\<lparr>n_cells := n_cells m - cell_count e + n\<rparr>)) =
          Some (g, m1)"
  shows "circuitmux_set_num_cells pol (g, m) c n =
     (if cell_count e > 0 \<and> n = 0
      then circuitmux_make_circuit_inactive pol
             (g, set_muxinfo k (cell_count_update (\<lambda>_. n)) (m1\<lparr>n_active_circuits := n_active_circuits m1 - 1\<rparr>)) c
      else if cell_count e = 0 \<and> n > 0
      then circuitmux_make_circuit_active pol
             (g, set_muxinfo k (cell_count_update (\<lambda>_. n)) (m1\<lparr>n_active_circuits := n_active_circuits m1 + 1\<rparr>)) c
      else Some (g, set_muxinfo k (cell_count_update (\<lambda>_. n)) m1))"
  using assms by (cases "notify_set_n_cells pol") (auto simp: circuitmux_set_num_cells_def Let_def)

context cmux_policy
begin

lemma okI:
  "good g \<Longrightarrow> cm_policy m \<Longrightarrow> counters_ok m \<Longrightarrow> cm_policy_data m = Some p \<Longrightarrow> pwf p \<Longrightarrow>
   table_ok circs ch (chanid_circid_map m) (owner p) (act p) \<Longrightarrow> ok circs ch (g, m)"
  by (simp add: mux_ok_def)

text \<open>An entry of the table, with the table split around it.\<close>

lemma entry_split:
  assumes "ok circs ch (g, m)" "HT_FIND m k = Some e"
  obtains M1 M2 p d where "chanid_circid_map m = M1 @ (k, e) # M2" "k \<notin> fst ` set M1" "k \<notin> fst ` set M2"
    "good g" "cm_policy m" "counters_ok m" "cm_policy_data m = Some p" "pwf p"
    "table_ok circs ch (M1 @ (k, e) # M2) (owner p) (act p)" "mi_policy_data e = Some d" "owner p d \<noteq> None"
    "(d \<in> act p) = (cell_count e > 0)"
proof -
  obtain p where p: "good g" "cm_policy m" "counters_ok m" "cm_policy_data m = Some p" "pwf p"
    and t: "table_ok circs ch (chanid_circid_map m) (owner p) (act p)"
    using okD [OF assms(1)] by blast
  obtain M1 M2 where M: "chanid_circid_map m = M1 @ (k, e) # M2" "k \<notin> fst ` set M1" "k \<notin> fst ` set M2"
    by (rule table_split) (use assms(2) t in \<open>auto simp: HT_FIND_def table_ok_def\<close>)
  then have ke: "(k, e) \<in> set (chanid_circid_map m)" by simp
  obtain d where "mi_policy_data e = Some d" "owner p d \<noteq> None" using table_entry [OF t ke] by (metis option.distinct(1))
  then show thesis using that p t M active_iff [OF t ke] by metis
qed

lemma set_num_cells:
  assumes ok: "ok circs ch (g, m)" and e: "HT_FIND m k = Some e" and c: "entry_circ circs ch k e a" "circs a = Some c"
  shows "\<exists>m'. circuitmux_set_num_cells pol (g, m) c n = Some (g, m') \<and> ok circs ch (g, m') \<and>
    HT_FIND m' = (HT_FIND m)(k \<mapsto> e\<lparr>cell_count := n\<rparr>) \<and> same_destroys m m'"
proof -
  obtain M1 M2 p d where M: "chanid_circid_map m = M1 @ (k, e) # M2" "k \<notin> fst ` set M1" "k \<notin> fst ` set M2"
    and p: "good g" "cm_policy m" "counters_ok m" "cm_policy_data m = Some p" "pwf p"
    and t: "table_ok circs ch (M1 @ (k, e) # M2) (owner p) (act p)"
    and d: "mi_policy_data e = Some d" "owner p d \<noteq> None" "(d \<in> act p) = (cell_count e > 0)"
    using entry_split [OF ok e] by metis
  define e' where "e' = e\<lparr>cell_count := n\<rparr>"
  define m1 where "m1 = m\<lparr>n_cells := n_cells m - cell_count e + n\<rparr>"
  obtain p1 where n: "(case notify_set_n_cells pol of None \<Rightarrow> Some (g, m1)
        | Some f \<Rightarrow> call_policy (\<lambda>p. f p (circ_addr c) (mi_policy_data e) n) (g, m1)) = Some (g, m1\<lparr>cm_policy_data := Some p1\<rparr>)"
    and p1: "pwf p1" "owner p1 = owner p" "act p1 = act p"
  proof (cases "notify_set_n_cells pol")
    case None
    then show thesis using that [of p] p by (simp add: m1_def)
  next
    case (Some f)
    then show thesis using that counts [OF Some p(5), of g "circ_addr c" d n] p d by (auto simp: call_policy_def m1_def)
  qed
  have t': "table_ok circs ch (M1 @ (k, e') # M2) (owner p) (if n > 0 then insert d (act p) else act p - {d})"
    using table_replace [OF t, of e' d] d by (simp add: e'_def)
  define m2 where "m2 = set_muxinfo k (cell_count_update (\<lambda>_. n)) (m1\<lparr>cm_policy_data := Some p1,
      n_active_circuits := n_active_circuits m + of_bool (n > 0) - of_bool (cell_count e > 0)\<rparr>)"
  have m2: "chanid_circid_map m2 = M1 @ (k, e') # M2" "cm_policy m2" "cm_policy_data m2 = Some p1"
    "n_circuits m2 = n_circuits m" "n_cells m2 = n_cells m - cell_count e + n" "same_destroys m m2"
    "n_active_circuits m2 = n_active_circuits m + of_bool (n > 0) - of_bool (cell_count e > 0)"
    using M p by (simp_all add: m2_def set_muxinfo_split [OF M(2,3)] e'_def m1_def same_destroys_def)
  have cnt: "counters_ok m2" by (rule counters_replace [OF p(3) M(1) m2(1)]) (use m2 in \<open>simp_all add: e'_def\<close>)
  have fnd: "circuitmux_find_map_entry m2 c = Some (Some k)" "HT_FIND m2 k = Some e'"
    using find_entry [of circs ch m2 "owner p" _ k e' a c] t' m2(1) c entry_circ_cong [of e' e] by (auto simp: e'_def)
  have fm: "circuitmux_find_map_entry m c = Some (Some k)"
    using find_entry(1) [of circs ch m "owner p" _ k e a c] t M(1) c by auto
  note eq = set_num_cells_eq [OF fm e p(2) n [unfolded m1_def]]
  have mk: "\<exists>p3. circuitmux_set_num_cells pol (g, m) c n = Some (g, m2\<lparr>cm_policy_data := Some p3\<rparr>) \<and> pwf p3 \<and>
      owner p3 = owner p \<and> act p3 = (if n > 0 then insert d (act p) else act p - {d})"
  proof -
    consider (off) "cell_count e > 0" "n = 0" | (on) "cell_count e = 0" "n > 0" | (same) "(cell_count e > 0) = (n > 0)"
      by (auto simp: word_gt_0)
    then show ?thesis
    proof cases
      case off
      then have "circuitmux_set_num_cells pol (g, m) c n = circuitmux_make_circuit_inactive pol (g, m2) c"
        by (subst eq) (simp add: m2_def m1_def)
      then show ?thesis using make_inactive [OF m2(2,3) p1(1) fnd, of d g] d off p1 by (simp add: e'_def)
    next
      case on
      then have "circuitmux_set_num_cells pol (g, m) c n = circuitmux_make_circuit_active pol (g, m2) c"
        by (subst eq) (simp add: m2_def m1_def)
      then show ?thesis using make_active [OF m2(2,3) p1(1) fnd, of d g] d on p1 by (simp add: e'_def)
    next
      case same
      then have "circuitmux_set_num_cells pol (g, m) c n = Some (g, m2\<lparr>cm_policy_data := Some p1\<rparr>)"
        by (subst eq) (auto simp: m2_def m1_def word_gt_0 set_muxinfo_def)
      then show ?thesis using p1 d same by auto
    qed
  qed
  then obtain p3 where r: "circuitmux_set_num_cells pol (g, m) c n = Some (g, m2\<lparr>cm_policy_data := Some p3\<rparr>)" "pwf p3"
      "owner p3 = owner p" "act p3 = (if n > 0 then insert d (act p) else act p - {d})" by blast
  have "ok circs ch (g, m2\<lparr>cm_policy_data := Some p3\<rparr>)"
    by (rule okI [of _ _ p3]) (use p m2 cnt r t' in \<open>simp_all add: counters_ok_def\<close>)
  moreover have "HT_FIND (m2\<lparr>cm_policy_data := Some p3\<rparr>) = (HT_FIND m)(k \<mapsto> e')"
    by (rule HT_FIND_replace [OF M(1,2)]) (simp add: m2(1))
  ultimately show ?thesis using r m2(6) by (auto simp: e'_def same_destroys_def)
qed

end

lemma u32_minus_zero: "(w :: u32) - n = 0 \<longleftrightarrow> w = n"
  by auto

lemma xmit_cells_eq:
  assumes "circuitmux_find_map_entry m c = Some (Some k)" "HT_FIND m k = Some e" "cm_policy m" "0 < n" "n \<le> cell_count e"
    "notify_xmit_cells pol = Some f"
    "f (g, cm_policy_data m) (circ_addr c) (mi_policy_data e) n = Some (g', pd)"
  shows "circuitmux_notify_xmit_cells pol (g, m) c n =
     (let m1 = (set_muxinfo k (cell_count_update (\<lambda>c. c - n)) (m\<lparr>n_cells := n_cells m - n\<rparr>))\<lparr>cm_policy_data := pd\<rparr>
      in if cell_count e = n
         then circuitmux_make_circuit_inactive pol (g', m1\<lparr>n_active_circuits := n_active_circuits m1 - 1\<rparr>) c
         else Some (g', m1))"
proof -
  have "n \<noteq> 0" using assms(4) by auto
  moreover have "cm_policy_data (set_muxinfo k h (m\<lparr>n_cells := x\<rparr>)) = cm_policy_data m"
    "cm_policy (set_muxinfo k h (m\<lparr>n_cells := x\<rparr>)) = cm_policy m" for h x
    by (simp_all add: set_muxinfo_def)
  ultimately show ?thesis
    using assms by (simp add: circuitmux_notify_xmit_cells_def Let_def call_policy_def u32_minus_zero)
qed

lemma counters_insert:
  assumes "counters_ok m" "chanid_circid_map m' = (k, e) # chanid_circid_map m"
    "n_circuits m' = n_circuits m + 1" "n_cells m' = n_cells m + cell_count e"
    "n_active_circuits m' = n_active_circuits m + of_bool (cell_count e > 0)"
  shows "counters_ok m'"
  using assms by (simp add: counters_ok_def)

lemma counters_remove:
  assumes "counters_ok m" "chanid_circid_map m = M1 @ (k, e) # M2" "chanid_circid_map m' = M1 @ M2"
    "n_circuits m' = n_circuits m - 1" "n_cells m' = n_cells m - cell_count e"
    "n_active_circuits m' = n_active_circuits m - of_bool (cell_count e > 0)"
  shows "counters_ok m'"
  using assms by (auto simp: counters_ok_def)

context cmux_policy
begin

lemma notify_xmit_cells:
  assumes ok: "ok circs ch (g, m)" and e: "HT_FIND m k = Some e" and c: "entry_circ circs ch k e a" "circs a = Some c"
    and n: "0 < n" "n \<le> cell_count e" and f: "cm_policy_data m = Some q" "first q = mi_policy_data e"
  shows "\<exists>g' m'. circuitmux_notify_xmit_cells pol (g, m) c n = Some (g', m') \<and> ok circs ch (g', m') \<and>
    HT_FIND m' = (HT_FIND m)(k \<mapsto> e\<lparr>cell_count := cell_count e - n\<rparr>) \<and> same_destroys m m'"
proof -
  obtain M1 M2 p d where M: "chanid_circid_map m = M1 @ (k, e) # M2" "k \<notin> fst ` set M1" "k \<notin> fst ` set M2"
    and p: "good g" "cm_policy m" "counters_ok m" "cm_policy_data m = Some p" "pwf p"
    and t: "table_ok circs ch (M1 @ (k, e) # M2) (owner p) (act p)"
    and d: "mi_policy_data e = Some d" "owner p d \<noteq> None" "(d \<in> act p) = (cell_count e > 0)"
    using entry_split [OF ok e] by metis
  have pos: "cell_count e > 0" using n by (rule less_le_trans)
  define e' where "e' = e\<lparr>cell_count := cell_count e - n\<rparr>"
  have "first p = Some d" using f p d by simp
  then obtain fx g' p1 where fx: "notify_xmit_cells pol = Some fx" "fx (g, Some p) (circ_addr c) (Some d) n = Some (g', Some p1)"
    and p1: "good g'" "pwf p1" "owner p1 = owner p" "act p1 = act p"
    using transmits [OF p(5,1) _ n(1), of d "circ_addr c"] by blast
  define m2 where "m2 = (set_muxinfo k (cell_count_update (\<lambda>c. c - n)) (m\<lparr>n_cells := n_cells m - n\<rparr>))
      \<lparr>cm_policy_data := Some p1, n_active_circuits := n_active_circuits m - of_bool (cell_count e = n)\<rparr>"
  have m2: "chanid_circid_map m2 = M1 @ (k, e') # M2" "cm_policy m2" "cm_policy_data m2 = Some p1"
    "n_circuits m2 = n_circuits m" "n_cells m2 = n_cells m - n" "same_destroys m m2"
    "n_active_circuits m2 = n_active_circuits m - of_bool (cell_count e = n)"
    using M p by (simp_all add: m2_def set_muxinfo_split [OF M(2,3)] e'_def same_destroys_def)
  have z: "(0 < cell_count e') = (cell_count e \<noteq> n)" by (simp add: e'_def word_gt_0)
  have cnt: "counters_ok m2" by (rule counters_replace [OF p(3) M(1) m2(1)]) (use m2 pos z in \<open>auto simp: e'_def\<close>)
  have t': "table_ok circs ch (M1 @ (k, e') # M2) (owner p) (if cell_count e = n then act p - {d} else act p)"
    using table_replace [OF t, of e' d] d z pos by (auto simp: e'_def insert_absorb split: if_splits)
  have fnd: "circuitmux_find_map_entry m2 c = Some (Some k)" "HT_FIND m2 k = Some e'"
    using find_entry [of circs ch m2 "owner p" _ k e' a c] t' m2(1) c entry_circ_cong [of e' e] by (auto simp: e'_def)
  have fm: "circuitmux_find_map_entry m c = Some (Some k)"
    using find_entry(1) [of circs ch m "owner p" _ k e a c] t M(1) c by auto
  have eq: "circuitmux_notify_xmit_cells pol (g, m) c n =
      (if cell_count e = n then circuitmux_make_circuit_inactive pol (g', m2) c else Some (g', m2))"
    using xmit_cells_eq [OF fm e p(2) n fx(1)] fx(2) p(4) d(1) by (auto simp: m2_def Let_def set_muxinfo_def)
  have "\<exists>p3. circuitmux_notify_xmit_cells pol (g, m) c n = Some (g', m2\<lparr>cm_policy_data := Some p3\<rparr>) \<and> pwf p3 \<and>
      owner p3 = owner p \<and> act p3 = (if cell_count e = n then act p - {d} else act p)"
  proof (cases "cell_count e = n")
    case True
    then show ?thesis using make_inactive [OF m2(2,3) p1(2) fnd, of d g'] d pos p1 eq by (simp add: e'_def)
  next
    case False
    have "m2\<lparr>cm_policy_data := Some p1\<rparr> = m2" using m2(3) by (cases m2) simp
    then show ?thesis using False p1 eq by (intro exI [of _ p1]) simp
  qed
  then obtain p3 where r: "circuitmux_notify_xmit_cells pol (g, m) c n = Some (g', m2\<lparr>cm_policy_data := Some p3\<rparr>)" "pwf p3"
      "owner p3 = owner p" "act p3 = (if cell_count e = n then act p - {d} else act p)" by blast
  have "ok circs ch (g', m2\<lparr>cm_policy_data := Some p3\<rparr>)"
    by (rule okI [of _ _ p3]) (use p1 m2 cnt r t' in \<open>simp_all add: counters_ok_def\<close>)
  moreover have "HT_FIND (m2\<lparr>cm_policy_data := Some p3\<rparr>) = (HT_FIND m)(k \<mapsto> e')"
    by (rule HT_FIND_replace [OF M(1,2)]) (simp add: m2(1))
  ultimately show ?thesis using r m2(6) by (auto simp: e'_def same_destroys_def)
qed

text \<open>The choice: DESTROY cells first unless the last cell was one, otherwise the circuit the policy
  prefers, and nothing only when nothing waits.\<close>

lemma get_first_active_circuit:
  assumes ok: "ok circs ch (g, m)" and small: "total_cells (chanid_circid_map m) < 2 ^ 32"
  shows "\<exists>r. circuitmux_get_first_active_circuit pol (g, m) =
      Some (r, case r of Send_circuit None \<Rightarrow> m | _ \<Rightarrow> m\<lparr>last_cell_was_destroy := (r = Send_destroy)\<rparr>) \<and>
    (case r of
       Send_destroy \<Rightarrow> dq_n (destroy_cell_queue m) \<noteq> 0
     | Send_circuit None \<Rightarrow> active_entries (chanid_circid_map m) = [] \<and> dq_n (destroy_cell_queue m) = 0
     | Send_circuit (Some a) \<Rightarrow> (\<exists>k e p. HT_FIND m k = Some e \<and> cell_count e > 0 \<and> cm_policy_data m = Some p \<and>
         first p = mi_policy_data e \<and> entry_circ circs ch k e a))"
proof -
  obtain p where p: "good g" "cm_policy m" "counters_ok m" "cm_policy_data m = Some p" "pwf p"
    and t: "table_ok circs ch (chanid_circid_map m) (owner p) (act p)"
    using okD [OF ok] by blast
  obtain f where f: "pick_active_circuit pol = Some f" "f (g, Some p) = Some (case first p of None \<Rightarrow> None | Some d \<Rightarrow> owner p d)"
    using picks [OF p(5)] by blast
  let ?M = "chanid_circid_map m"
  have u: "unat (n_active_circuits m) = length (active_entries ?M)" "unat (n_cells m) = total_cells ?M"
    using p(3) active_le_total [of ?M] small by (simp_all add: counters_ok_def unat_of_nat take_bit_nat_eq_self)
  show ?thesis
  proof (cases "dq_n (destroy_cell_queue m) \<noteq> 0 \<and> (\<not> last_cell_was_destroy m \<or> n_active_circuits m = 0)")
    case True
    then show ?thesis using p f by (intro exI [of _ Send_destroy]) (simp add: circuitmux_get_first_active_circuit_def Let_def)
  next
    case dest: False
    show ?thesis
    proof (cases "active_entries ?M = []")
      case True
      then have "n_active_circuits m = 0" "n_cells m = 0" using u total_cells_zero [OF True] by (simp_all add: unat_eq_zero)
      then show ?thesis using dest True p f
        by (intro exI [of _ "Send_circuit None"]) (simp add: circuitmux_get_first_active_circuit_def Let_def)
    next
      case False
      then have l: "0 < length (active_entries ?M)" by simp
      then have "0 < total_cells ?M" using active_le_total [of ?M] by linarith
      then have pos: "n_active_circuits m > 0" "n_cells m > 0" using u l by (simp_all add: u32_positive)
      have "act p \<noteq> {}" using t False by (auto simp: table_ok_def entry_data_def)
      then obtain d where d: "first p = Some d" "d \<in> act p" using first_active [OF p(5)] by blast
      then have "Some d \<in> set (entry_data (active_entries ?M))" using t by (auto simp: table_ok_def)
      then obtain k e where ke: "(k, e) \<in> set ?M" "cell_count e > 0" "mi_policy_data e = Some d"
        by (auto simp: entry_data_def active_entries_def)
      obtain a where a: "owner p d = Some a" "entry_circ circs ch k e a" using table_entry [OF t ke(1)] ke(3) by (metis option.inject)
      have "HT_FIND m k = Some e" using t ke(1) by (simp add: HT_FIND_def table_ok_def)
      moreover have "circuitmux_get_first_active_circuit pol (g, m) = Some (Send_circuit (Some a), m\<lparr>last_cell_was_destroy := False\<rparr>)"
        using dest pos p f d a by (auto simp: circuitmux_get_first_active_circuit_def Let_def)
      moreover have "first p = mi_policy_data e" using d ke by simp
      ultimately show ?thesis using p(4) ke(2) a(2) 
        by (intro exI [of _ "Send_circuit (Some a)"]) (simp del: split_paired_Ex; blast)
    qed
  qed
qed

end

text \<open>How \<^verbatim>\<open>circuitmux_detach_circuit\<close> finds the entry of an attached circuit, and what it does then.\<close>

lemma detach_eq:
  assumes t: "table_ok circs ch (chanid_circid_map m) ow ac" and ke: "(k, e) \<in> set (chanid_circid_map m)"
    and c: "entry_circ circs ch k e a" "circs a = Some c"
  shows "circuitmux_detach_circuit pol (g, m) c =
     (let m1 = m\<lparr>n_circuits := n_circuits m - 1\<rparr>
      in do { s \<leftarrow> (if cell_count e > 0
                    then circuitmux_make_circuit_inactive pol (g, m1\<lparr>n_active_circuits := n_active_circuits m1 - 1\<rparr>) c
                    else Some (g, m1));
              s \<leftarrow> free_entry_data pol (fst s, (snd s)\<lparr>n_cells := n_cells (snd s) - cell_count e\<rparr>) (circ_addr c) k e;
              Some (fst s, HT_REMOVE (snd s) k) })"
proof -
  have e: "HT_FIND m k = Some e" using t ke by (simp add: HT_FIND_def table_ok_def)
  have k: "k = (ch, snd k)" using c by (simp add: entry_circ_def prod_eq_iff)
  have none: "HT_FIND m (c', i) = None" if "c' \<noteq> ch" for c' i
    using table_keys [OF t] that by (force simp: HT_FIND_def map_of_eq_None_iff)
  show ?thesis
  proof (cases "mi_direction e")
    case CELL_DIRECTION_OUT
    then have "n_chan c = Some ch" "n_circ_id c = snd k" using c by (simp_all add: entry_circ_def)
    then show ?thesis using e k CELL_DIRECTION_OUT by (simp add: circuitmux_detach_circuit_def Let_def)
  next
    case CELL_DIRECTION_IN
    then have "or_magic c" "p_chan c = Some ch" "p_circ_id c = snd k" "n_chan c \<noteq> Some ch" using c by (simp_all add: entry_circ_def)
    then show ?thesis using e k CELL_DIRECTION_IN none
      by (cases "n_chan c") (auto simp: circuitmux_detach_circuit_def Let_def)
  qed
qed

lemma HT_FIND_remove:
  "chanid_circid_map m = M1 @ (k, e) # M2 \<Longrightarrow> k \<notin> fst ` set M1 \<Longrightarrow> k \<notin> fst ` set M2 \<Longrightarrow> chanid_circid_map m' = M1 @ M2 \<Longrightarrow>
   HT_FIND m' = (HT_FIND m)(k := None)"
  by (rule ext) (auto simp: HT_FIND_def map_add_def map_of_eq_None_iff [THEN iffD2] split: option.splits)

lemma attach_eq:
  assumes "circ_direction c dir = Some (Some ch, n, cid)" "cid \<noteq> 0" "HT_FIND m (ch, cid) = None" "cm_policy m"
    "alloc_circ_data pol = Some f" "free_circ_data pol \<noteq> None"
    "f (g, cm_policy_data m) (circ_addr c) dir n = Some ((g', pd), Some d)"
  shows "circuitmux_attach_circuit pol (g, m) c dir =
     (let m1 = m\<lparr>cm_policy_data := pd,
            chanid_circid_map := ((ch, cid), \<lparr>cell_count = n, mi_direction = dir, mi_policy_data = Some d\<rparr>) # chanid_circid_map m,
            n_circuits := n_circuits m + 1\<rparr>
      in do { s \<leftarrow> (if n > 0
                    then circuitmux_make_circuit_active pol (g', m1\<lparr>n_active_circuits := n_active_circuits m1 + 1\<rparr>) c
                    else Some (g', m1));
              Some (fst s, (snd s)\<lparr>n_cells := n_cells (snd s) + n\<rparr>) })"
  using assms by (simp add: circuitmux_attach_circuit_def Let_def HT_INSERT_def)

context cmux_policy
begin

lemma free_data:
  assumes "cm_policy m" "cm_policy_data m = Some p" "pwf p" "mi_policy_data e = Some d" "owner p d \<noteq> None" "d \<notin> act p"
  shows "\<exists>p'. free_entry_data pol (g, m) a k e =
      Some (g, set_muxinfo k (mi_policy_data_update (\<lambda>_. None)) (m\<lparr>cm_policy_data := Some p'\<rparr>)) \<and>
    pwf p' \<and> owner p' = (owner p)(d := None) \<and> act p' = act p"
  using frees_circ [OF assms(3,5,6), of g a] assms by (auto simp: free_entry_data_def call_policy_def)

lemma attach_circuit:
  assumes ok: "ok circs ch (g, m)" and c: "circ_direction c dir = Some (Some ch, n, cid)" "cid \<noteq> 0" "circs a = Some c"
    and new: "HT_FIND m (ch, cid) = None"
    and ec: "\<And>x y. entry_circ circs ch (ch, cid) \<lparr>cell_count = x, mi_direction = dir, mi_policy_data = y\<rparr> a"
  shows "\<exists>m' e. circuitmux_attach_circuit pol (g, m) c dir = Some (g, m') \<and> ok circs ch (g, m') \<and>
    HT_FIND m' = (HT_FIND m)((ch, cid) \<mapsto> e) \<and> cell_count e = n \<and> mi_direction e = dir \<and> same_destroys m m'"
proof -
  obtain p where p: "good g" "cm_policy m" "counters_ok m" "cm_policy_data m = Some p" "pwf p"
    and t: "table_ok circs ch (chanid_circid_map m) (owner p) (act p)"
    using okD [OF ok] by blast
  have addr: "circ_addr c = a" using ec [of 0 None] c(3) by (simp add: entry_circ_def)
  obtain f p1 d where f: "alloc_circ_data pol = Some f" "free_circ_data pol \<noteq> None" "f (g, Some p) a dir n = Some ((g, Some p1), Some d)"
    and p1: "pwf p1" "owner p d = None" "owner p1 = (owner p)(d \<mapsto> a)" "act p1 = act p"
    using allocates_circ [OF p(5,1), of a dir n] by blast
  define e where "e = \<lparr>cell_count = n, mi_direction = dir, mi_policy_data = Some d\<rparr>"
  have k: "(ch, cid) \<notin> fst ` set (chanid_circid_map m)" using new by (simp add: HT_FIND_def map_of_eq_None_iff)
  have t': "table_ok circs ch (((ch, cid), e) # chanid_circid_map m) ((owner p)(d \<mapsto> a)) (if n > 0 then insert d (act p) else act p)"
    using table_insert [OF t k _ p1(2), of e a] ec by (simp add: e_def)
  define m1 where "m1 = m\<lparr>cm_policy_data := Some p1, chanid_circid_map := ((ch, cid), e) # chanid_circid_map m,
      n_circuits := n_circuits m + 1, n_active_circuits := n_active_circuits m + of_bool (n > 0)\<rparr>"
  have m1: "cm_policy m1" "cm_policy_data m1 = Some p1" "chanid_circid_map m1 = ((ch, cid), e) # chanid_circid_map m"
    using p by (simp_all add: m1_def)
  have fnd: "circuitmux_find_map_entry m1 c = Some (Some (ch, cid))" "HT_FIND m1 (ch, cid) = Some e"
    using find_entry [of circs ch m1 _ _ "(ch, cid)" e a c] t' m1(3) c(3) ec by (auto simp: e_def)
  have "Some d \<notin> Some ` dom (owner p)" using p1(2) by auto
  then have act: "d \<notin> act p" using t active_entries_sub [of "chanid_circid_map m"] by (auto simp: table_ok_def)
  have "\<exists>p3. circuitmux_attach_circuit pol (g, m) c dir = Some (g, m1\<lparr>cm_policy_data := Some p3, n_cells := n_cells m + n\<rparr>) \<and>
      pwf p3 \<and> owner p3 = owner p1 \<and> act p3 = (if n > 0 then insert d (act p) else act p)"
  proof (cases "n > 0")
    case True
    obtain p3 where "circuitmux_make_circuit_active pol (g, m1) c = Some (g, m1\<lparr>cm_policy_data := Some p3\<rparr>)"
      "pwf p3" "owner p3 = owner p1" "act p3 = insert d (act p)"
      using make_active [OF m1(1,2) p1(1) fnd, of d g] p1 act by (auto simp: e_def)
    then show ?thesis using attach_eq [OF c(1,2) new p(2) f(1,2), of g g "Some p1" d] f(3) p(4) addr True
      by (intro exI [of _ p3]) (simp add: Let_def e_def m1_def)
  next
    case False
    then show ?thesis using attach_eq [OF c(1,2) new p(2) f(1,2), of g g "Some p1" d] f(3) p(4) addr p1
      by (intro exI [of _ p1]) (simp add: Let_def e_def m1_def)
  qed
  then obtain p3 where r: "circuitmux_attach_circuit pol (g, m) c dir = Some (g, m1\<lparr>cm_policy_data := Some p3, n_cells := n_cells m + n\<rparr>)"
      "pwf p3" "owner p3 = owner p1" "act p3 = (if n > 0 then insert d (act p) else act p)" by blast
  let ?m = "m1\<lparr>cm_policy_data := Some p3, n_cells := n_cells m + n\<rparr>"
  have "counters_ok ?m" by (rule counters_insert [OF p(3), where k = "(ch, cid)" and e = e]) (simp_all add: m1_def, simp_all add: e_def)
  then have "ok circs ch (g, ?m)" by (intro okI [of _ _ p3]) (use p m1 r p1 t' in simp_all)
  moreover have "HT_FIND ?m = (HT_FIND m)((ch, cid) \<mapsto> e)" by (rule ext) (simp add: HT_FIND_def m1(3))
  ultimately show ?thesis using r by (auto simp: e_def same_destroys_def m1_def)
qed

lemma detach_circuit:
  assumes ok: "ok circs ch (g, m)" and e: "HT_FIND m k = Some e" and c: "entry_circ circs ch k e a" "circs a = Some c"
  shows "\<exists>m'. circuitmux_detach_circuit pol (g, m) c = Some (g, m') \<and> ok circs ch (g, m') \<and>
    HT_FIND m' = (HT_FIND m)(k := None) \<and> same_destroys m m'"
proof -
  obtain M1 M2 p d where M: "chanid_circid_map m = M1 @ (k, e) # M2" "k \<notin> fst ` set M1" "k \<notin> fst ` set M2"
    and p: "good g" "cm_policy m" "counters_ok m" "cm_policy_data m = Some p" "pwf p"
    and t: "table_ok circs ch (M1 @ (k, e) # M2) (owner p) (act p)"
    and d: "mi_policy_data e = Some d" "owner p d \<noteq> None" "(d \<in> act p) = (cell_count e > 0)"
    using entry_split [OF ok e] by metis
  have t': "table_ok circs ch (M1 @ M2) ((owner p)(d := None)) (act p - {d})" by (rule table_remove [OF t d(1)])
  define m1 where "m1 = m\<lparr>n_circuits := n_circuits m - 1, n_active_circuits := n_active_circuits m - of_bool (cell_count e > 0)\<rparr>"
  have m1: "cm_policy m1" "cm_policy_data m1 = Some p" "chanid_circid_map m1 = M1 @ (k, e) # M2" using p M by (simp_all add: m1_def)
  have fnd: "circuitmux_find_map_entry m1 c = Some (Some k)" "HT_FIND m1 k = Some e"
    using find_entry [of circs ch m1 "owner p" "act p" k e a c] t m1(3) c by auto
  have "\<exists>p1. (if cell_count e > 0 then circuitmux_make_circuit_inactive pol (g, m1) c else Some (g, m1)) =
      Some (g, m1\<lparr>cm_policy_data := Some p1\<rparr>) \<and> pwf p1 \<and> owner p1 = owner p \<and> act p1 = act p - {d}"
  proof (cases "cell_count e > 0")
    case True
    then show ?thesis using make_inactive [OF m1(1,2) p(5) fnd, of d g] d by simp
  next
    case False
    have "m1\<lparr>cm_policy_data := Some p\<rparr> = m1" using m1(2) by (cases m1) simp
    then show ?thesis using False p d by (intro exI [of _ p]) auto
  qed
  then obtain p1 where p1: "(if cell_count e > 0 then circuitmux_make_circuit_inactive pol (g, m1) c else Some (g, m1)) =
      Some (g, m1\<lparr>cm_policy_data := Some p1\<rparr>)" "pwf p1" "owner p1 = owner p" "act p1 = act p - {d}" by blast
  define m2 where "m2 = m1\<lparr>cm_policy_data := Some p1, n_cells := n_cells m - cell_count e\<rparr>"
  obtain p2 where p2: "free_entry_data pol (g, m2) (circ_addr c) k e =
      Some (g, set_muxinfo k (mi_policy_data_update (\<lambda>_. None)) (m2\<lparr>cm_policy_data := Some p2\<rparr>))"
    "pwf p2" "owner p2 = (owner p)(d := None)" "act p2 = act p - {d}"
    using free_data [of m2 p1 e d g "circ_addr c" k] p1 d m1 by (auto simp: m2_def)
  define m3 where "m3 = m2\<lparr>cm_policy_data := Some p2, chanid_circid_map := M1 @ M2\<rparr>"
  have rm: "HT_REMOVE (set_muxinfo k (mi_policy_data_update (\<lambda>_. None)) (m2\<lparr>cm_policy_data := Some p2\<rparr>)) k = m3"
    using M by (simp add: set_muxinfo_split [OF M(2,3)] HT_REMOVE_def m3_def m2_def m1_def)
  have "circuitmux_detach_circuit pol (g, m) c =
      do { s \<leftarrow> (if cell_count e > 0 then circuitmux_make_circuit_inactive pol (g, m1) c else Some (g, m1));
           s \<leftarrow> free_entry_data pol (fst s, (snd s)\<lparr>n_cells := n_cells (snd s) - cell_count e\<rparr>) (circ_addr c) k e;
           Some (fst s, HT_REMOVE (snd s) k) }"
    using detach_eq [of circs ch m "owner p" "act p" k e a c pol g] t M(1) c by (simp add: Let_def m1_def)
  also have "\<dots> = Some (g, m3)"
    unfolding p1(1) using p2(1) rm by (simp add: m2_def m1_def)
  finally have "circuitmux_detach_circuit pol (g, m) c = Some (g, m3)" .
  moreover have "counters_ok m3"
    by (rule counters_remove [OF p(3) M(1)]) (simp_all add: m3_def m2_def m1_def)
  then have "ok circs ch (g, m3)" by (intro okI [of _ _ p2]) (use p p2 t' m1(1) in \<open>simp_all add: m3_def m2_def\<close>)
  moreover have "HT_FIND m3 = (HT_FIND m)(k := None)" by (rule HT_FIND_remove [OF M]) (simp add: m3_def)
  ultimately show ?thesis by (auto simp: same_destroys_def m3_def m2_def m1_def)
qed

end

section \<open>Taking a multiplexer down\<close>

text \<open>The lookups of circuits find, for every entry of the table, the circuit it describes.\<close>

definition lookup_ok :: "(nat \<Rightarrow> mux_circuit_t option) \<Rightarrow> u64 \<Rightarrow> (u64 \<Rightarrow> u32 \<Rightarrow> mux_circuit_t option) \<Rightarrow> mux_table \<Rightarrow> bool" where
  "lookup_ok circs ch lookup M =
     list_all (\<lambda>(k, e). case lookup (fst k) (snd k) of None \<Rightarrow> False
                | Some c \<Rightarrow> circs (circ_addr c) = Some c \<and> entry_circ circs ch k e (circ_addr c)) M"

context cmux_policy
begin

lemma detach_all_step:
  assumes m: "chanid_circid_map m = (k, e) # M" "cm_policy m" "cm_policy_data m = Some p" "pwf p"
    and t: "table_ok circs ch ((k, e) # M) (owner p) (act p)" and c: "circs (circ_addr c) = Some c" "entry_circ circs ch k e (circ_addr c)"
  shows "\<exists>m' p'. do { s \<leftarrow> (if cell_count e > 0 then circuitmux_make_circuit_inactive pol (g, m) c else Some (g, m));
                      free_entry_data pol s (circ_addr c) k e } = Some (g, m') \<and>
    cm_policy m' \<and> cm_policy_data m' = Some p' \<and> pwf p' \<and> chanid_circid_map (HT_REMOVE m' k) = M \<and>
    table_ok circs ch M (owner p') (act p') \<and> same_destroys m m'"
proof -
  have fnd: "circuitmux_find_map_entry m c = Some (Some k)" "HT_FIND m k = Some e"
    using find_entry [of circs ch m "owner p" "act p" k e "circ_addr c" c] t m(1) c by auto
  obtain d where d: "mi_policy_data e = Some d" "owner p d \<noteq> None" using table_entry [OF t, of k e] by force
  have da: "(d \<in> act p) = (cell_count e > 0)" by (rule active_iff [OF t _ d(1), of k]) simp
  have "\<exists>p1. (if cell_count e > 0 then circuitmux_make_circuit_inactive pol (g, m) c else Some (g, m)) =
      Some (g, m\<lparr>cm_policy_data := Some p1\<rparr>) \<and> pwf p1 \<and> owner p1 = owner p \<and> act p1 = act p - {d}"
  proof (cases "cell_count e > 0")
    case True
    then show ?thesis using make_inactive [OF m(2-4) fnd d(1), of g] da by simp
  next
    case False
    have "m\<lparr>cm_policy_data := Some p\<rparr> = m" using m(3) by (cases m) simp
    then show ?thesis using False m(4) da by (intro exI [of _ p]) auto
  qed
  then obtain p1 where p1: "(if cell_count e > 0 then circuitmux_make_circuit_inactive pol (g, m) c else Some (g, m)) =
      Some (g, m\<lparr>cm_policy_data := Some p1\<rparr>)" "pwf p1" "owner p1 = owner p" "act p1 = act p - {d}" by blast
  obtain p2 where p2: "free_entry_data pol (g, m\<lparr>cm_policy_data := Some p1\<rparr>) (circ_addr c) k e =
      Some (g, set_muxinfo k (mi_policy_data_update (\<lambda>_. None)) (m\<lparr>cm_policy_data := Some p2\<rparr>))"
    "pwf p2" "owner p2 = (owner p)(d := None)" "act p2 = act p - {d}"
    using free_data [of "m\<lparr>cm_policy_data := Some p1\<rparr>" p1 e d g "circ_addr c" k] p1 d m by auto
  have k: "k \<notin> fst ` set M" using t by (simp add: table_ok_def)
  let ?m = "set_muxinfo k (mi_policy_data_update (\<lambda>_. None)) (m\<lparr>cm_policy_data := Some p2\<rparr>)"
  have "chanid_circid_map (HT_REMOVE ?m k) = M" "cm_policy ?m" "cm_policy_data ?m = Some p2" "same_destroys m ?m"
    using m k by (simp_all add: HT_REMOVE_def set_muxinfo_def same_destroys_def)
  moreover have "table_ok circs ch M (owner p2) (act p2)" using table_remove [of circs ch "[]" k e M] t d p2 by simp
  ultimately show ?thesis using p1(1) p2(1,2) by auto
qed

lemma detach_all_loop:
  assumes "chanid_circid_map m = M" "cm_policy m" "cm_policy_data m = Some p" "pwf p"
    "table_ok circs ch M (owner p) (act p)" "lookup_ok circs ch lookup M"
  shows "\<exists>m' p'. detach_all_loop pol lookup M (g, m) out =
      Some ((g, m'), out @ map (\<lambda>(k, e). circ_addr (the (lookup (fst k) (snd k)))) M) \<and>
    chanid_circid_map m' = [] \<and> cm_policy m' \<and> cm_policy_data m' = Some p' \<and> pwf p' \<and>
    table_ok circs ch [] (owner p') (act p') \<and> same_destroys m m'"
  using assms
proof (induction M arbitrary: m p out)
  case Nil
  then show ?case by auto
next
  case (Cons x M)
  obtain k e where x: "x = (k, e)" by (cases x)
  obtain c where c: "lookup (fst k) (snd k) = Some c" "circs (circ_addr c) = Some c" "entry_circ circs ch k e (circ_addr c)"
    using Cons.prems(6) x by (auto simp: lookup_ok_def split: option.splits)
  have dir: "mi_direction e = CELL_DIRECTION_OUT \<or> or_magic c" using c(2,3) by (cases "mi_direction e") (auto simp: entry_circ_def)
  obtain m1 p1 where s: "do { s \<leftarrow> (if cell_count e > 0 then circuitmux_make_circuit_inactive pol (g, m) c else Some (g, m));
                      free_entry_data pol s (circ_addr c) k e } = Some (g, m1)"
    and m1: "cm_policy m1" "cm_policy_data m1 = Some p1" "pwf p1" "chanid_circid_map (HT_REMOVE m1 k) = M"
      "table_ok circs ch M (owner p1) (act p1)" "same_destroys m m1"
    using detach_all_step [of m k e M p circs ch c g] Cons.prems c x by blast
  have "detach_all_loop pol lookup (x # M) (g, m) out = detach_all_loop pol lookup M (g, HT_REMOVE m1 k) (out @ [circ_addr c])"
    using s dir c(1) x by (auto simp: smartlist_add_def bind_eq_Some_iff)
  moreover have "cm_policy (HT_REMOVE m1 k)" "cm_policy_data (HT_REMOVE m1 k) = Some p1" "same_destroys m (HT_REMOVE m1 k)"
    using m1 by (simp_all add: HT_REMOVE_def same_destroys_def)
  moreover have "lookup_ok circs ch lookup M" using Cons.prems(6) by (simp add: lookup_ok_def)
  ultimately show ?case
    using Cons.IH [of "HT_REMOVE m1 k" p1 "out @ [circ_addr c]"] m1 c(1) x by (auto simp: same_destroys_def)
qed

lemma detach_all_circuits:
  assumes "ok circs ch (g, m)" and "lookup_ok circs ch lookup (chanid_circid_map m)"
  shows "\<exists>m'. circuitmux_detach_all_circuits pol lookup (g, m) =
      Some ((g, m'), map (\<lambda>(k, e). circ_addr (the (lookup (fst k) (snd k)))) (chanid_circid_map m)) \<and>
    ok circs ch (g, m') \<and> chanid_circid_map m' = [] \<and> same_destroys m m'"
proof -
  obtain p where p: "good g" "cm_policy m" "counters_ok m" "cm_policy_data m = Some p" "pwf p"
    and t: "table_ok circs ch (chanid_circid_map m) (owner p) (act p)"
    using okD [OF assms(1)] by blast
  obtain m' p' where "detach_all_loop pol lookup (chanid_circid_map m) (g, m) [] =
      Some ((g, m'), map (\<lambda>(k, e). circ_addr (the (lookup (fst k) (snd k)))) (chanid_circid_map m))"
    "chanid_circid_map m' = []" "cm_policy m'" "cm_policy_data m' = Some p'" "pwf p'"
    "table_ok circs ch [] (owner p') (act p')" "same_destroys m m'"
    using detach_all_loop [OF refl p(2,4,5) t assms(2), of g "[]"] by auto
  then show ?thesis using p(1) by (auto simp: circuitmux_detach_all_circuits_def mux_ok_def counters_ok_def same_destroys_def)
qed

text \<open>A new multiplexer with the policy installed, and the end of its life: without circuits it can be
  freed.\<close>

lemma alloc_set_policy:
  assumes "good g"
  shows "\<exists>g' m. circuitmux_set_policy pol lookup (g, circuitmux_alloc) True = Some (g', m) \<and> ok circs ch (g', m) \<and>
    chanid_circid_map m = [] \<and> dq_n (destroy_cell_queue m) = 0 \<and> dq_head (destroy_cell_queue m) = []"
proof -
  obtain f g' p where f: "alloc_cmux_data pol = Some f" "free_cmux_data pol \<noteq> None" "f g = (g', Some p)"
    and p: "good g'" "pwf p" "act p = {}" "owner p = Map.empty"
    using allocates [OF assms] by blast
  show ?thesis using f p
    by (auto simp: circuitmux_set_policy_def circuitmux_alloc_def mux_ok_def counters_ok_def table_ok_def destroy_cell_queue_init_def)
qed

lemma clear_and_free:
  assumes "ok circs ch (g, m)" and "chanid_circid_map m = []"
  shows "\<exists>g' m'. circuitmux_clear_policy pol lookup (g, m) = Some (g', m') \<and>
    circuitmux_free pol ctr (g', m') =
      Some (g', if dq_n (destroy_cell_queue m) > 0 then ctr - dq_n (destroy_cell_queue m) else ctr)"
proof -
  obtain p where p: "good g" "cm_policy m" "counters_ok m" "cm_policy_data m = Some p" "pwf p"
    using okD [OF assms(1)] by blast
  obtain f where f: "free_cmux_data pol = Some f" using allocates [OF p(1)] by blast
  show ?thesis using p f assms(2)
    by (cases "alloc_cmux_data pol")
      (auto simp: circuitmux_clear_policy_def circuitmux_set_policy_def circuitmux_free_def counters_ok_def)
qed

end

end
