(* ===== verification/CircuitMuxEwma.thy ===== *)
theory CircuitMuxEwma
  imports CircuitMuxInv Smartlist NetParams "HOL-Library.Signed_Division"
begin

text \<open>
  \<^verbatim>\<open>core/or/circuitmux_ewma.c\<close>: the policy of every circuit multiplexer.  It prefers the active
  circuit that has sent the fewest cells lately, measured by an exponentially weighted average, and
  keeps the active circuits in a priority queue.

  The averages are C doubles.  Their arithmetic is a parameter: a record of the operations that the
  code uses on the type \<open>'d\<close>.  The priority queue is an array of pointers to \<^verbatim>\<open>cell_ewma_t\<close>; the
  objects live in \<open>circ_datas\<close>, the memory of the policy's circuit data, at addresses that
  \<^verbatim>\<open>tor_malloc_zero\<close> draws from \<open>next_addr\<close>.  The heap operations of \<^verbatim>\<open>smartlist.c\<close> run on the objects
  that the pointers reach and write their positions back.  Time is the coarse clock in milliseconds;
  \<open>clock\<close> is what it answers when it is read.
\<close>

section \<open>Numbers, time and data\<close>

record 'd double_ops =
  d_less :: "'d \<Rightarrow> 'd \<Rightarrow> bool"
  d_leq :: "'d \<Rightarrow> 'd \<Rightarrow> bool"
  d_add :: "'d \<Rightarrow> 'd \<Rightarrow> 'd"
  d_mult :: "'d \<Rightarrow> 'd \<Rightarrow> 'd"
  d_div :: "'d \<Rightarrow> 'd \<Rightarrow> 'd"
  d_neg :: "'d \<Rightarrow> 'd"
  d_pow :: "'d \<Rightarrow> 'd \<Rightarrow> 'd"
  d_exp :: "'d \<Rightarrow> 'd"
  d_of_int :: "int \<Rightarrow> 'd"

text \<open>The static variables of the file, and the clock.\<close>

record 'd ewma_globals =
  ewma_tick_len :: int
  ewma_scale_factor :: 'd
  ewma_ticks_initialized :: bool
  start_of_current_tick :: int
  current_tick_num :: u32
  clock :: int

record 'd cell_ewma_t =
  last_adjusted_tick :: u32
  ewma_cell_count :: 'd
  is_for_p_chan :: bool
  heap_index :: int

record 'd ewma_policy_circ_data_t =
  cell_ewma :: "'d cell_ewma_t"
  cd_circ :: nat

record 'd ewma_policy_data_t =
  active_circuit_pqueue :: "nat list"
  last_recalibrated :: u32
  circ_datas :: "nat \<Rightarrow> 'd ewma_policy_circ_data_t option"
  next_addr :: nat

type_synonym 'd ewma_state = "('d ewma_globals, 'd ewma_policy_data_t) policy_state"

abbreviation "EWMA_TICK_LEN_DEFAULT \<equiv> 10 :: int"
abbreviation "EWMA_TICK_LEN_MIN \<equiv> 1 :: int"
abbreviation "EWMA_TICK_LEN_MAX \<equiv> 600 :: int"
abbreviation "CMUX_PRIORITY_HALFLIFE_MSEC_DEFAULT \<equiv> 30000 :: int"
abbreviation "CMUX_PRIORITY_HALFLIFE_MSEC_MIN \<equiv> 1 :: int"
abbreviation "CMUX_PRIORITY_HALFLIFE_MSEC_MAX \<equiv> 2147483647 :: int"

text \<open>\<^verbatim>\<open>monotime_coarse_diff_msec32\<close>: the difference as a 32-bit signed number.\<close>

definition monotime_coarse_diff_msec32 :: "int \<Rightarrow> int \<Rightarrow> int" where
  "monotime_coarse_diff_msec32 start stop = sint (word_of_int (stop - start) :: 32 word)"

definition cell_ewma_get_tick :: "'d ewma_globals \<Rightarrow> u32" where
  "cell_ewma_get_tick g =
     (let msec_diff = monotime_coarse_diff_msec32 (start_of_current_tick g) (clock g)
      in current_tick_num g + of_int (msec_diff sdiv (1000 * ewma_tick_len g)))"

text \<open>\<open>rnd\<close> is the random number that \<^verbatim>\<open>crypto_rand\<close> fills in.\<close>

definition cell_ewma_initialize_ticks :: "u32 \<Rightarrow> 'd ewma_globals \<Rightarrow> 'd ewma_globals" where
  "cell_ewma_initialize_ticks rnd g =
     (if ewma_ticks_initialized g then g
      else g\<lparr>start_of_current_tick := clock g, current_tick_num := rnd, ewma_ticks_initialized := True\<rparr>)"

definition cell_ewma_get_current_tick_and_fraction ::
  "'d double_ops \<Rightarrow> u32 \<Rightarrow> 'd ewma_globals \<Rightarrow> u32 \<times> 'd \<times> 'd ewma_globals" where
  "cell_ewma_get_current_tick_and_fraction ops rnd g =
     (let g = (if \<not> ewma_ticks_initialized g then cell_ewma_initialize_ticks rnd g else g);
          msec_diff = monotime_coarse_diff_msec32 (start_of_current_tick g) (clock g);
          len = 1000 * ewma_tick_len g;
          (g, msec_diff) =
            (if msec_diff > len
             then let ticks_difference = of_int (msec_diff sdiv len) :: u32
                  in (g\<lparr>start_of_current_tick := start_of_current_tick g + uint (ticks_difference * 1000 * of_int (ewma_tick_len g)),
                        current_tick_num := current_tick_num g + ticks_difference\<rparr>, msec_diff smod len)
             else (g, msec_diff))
      in (current_tick_num g, d_div ops (d_of_int ops msec_diff) (d_mult ops (d_of_int ops 1000) (d_of_int ops (ewma_tick_len g))), g))"

text \<open>\<open>opt\<close> is the option \<^verbatim>\<open>CircuitPriorityHalflife\<close>, \<open>eps\<close> the constant \<open>EPSILON\<close>; the message about the
  source is for the log only.\<close>

definition get_circuit_priority_halflife ::
  "'d double_ops \<Rightarrow> 'd \<Rightarrow> 'd option \<Rightarrow> networkstatus option \<Rightarrow> networkstatus option \<Rightarrow> 'd option" where
  "get_circuit_priority_halflife ops eps opt latest consensus =
     (let halflife_default = d_div ops (d_of_int ops CMUX_PRIORITY_HALFLIFE_MSEC_DEFAULT) (d_of_int ops 1000)
      in do { halflife \<leftarrow>
                (if (case opt of None \<Rightarrow> False | Some h \<Rightarrow> d_leq ops (d_neg ops eps) h) then opt
                 else map_option (\<lambda>ms. d_div ops (d_of_int ops ms) (d_of_int ops 1000))
                       (networkstatus_get_param latest consensus ''CircuitPriorityHalflifeMsec''
                          CMUX_PRIORITY_HALFLIFE_MSEC_DEFAULT CMUX_PRIORITY_HALFLIFE_MSEC_MIN CMUX_PRIORITY_HALFLIFE_MSEC_MAX));
              Some (if d_less ops halflife eps then halflife_default else halflife) })"

definition cmux_ewma_set_options ::
  "'d double_ops \<Rightarrow> 'd \<Rightarrow> 'd \<Rightarrow> u32 \<Rightarrow> 'd option \<Rightarrow> networkstatus option \<Rightarrow> networkstatus option \<Rightarrow> 'd ewma_globals \<Rightarrow> 'd ewma_globals option" where
  "cmux_ewma_set_options ops eps log_onehalf rnd opt latest consensus g =
     (let g = cell_ewma_initialize_ticks rnd g
      in do { halflife \<leftarrow> get_circuit_priority_halflife ops eps opt latest consensus;
              len \<leftarrow> networkstatus_get_param latest consensus ''CircuitPriorityTickSecs''
                       EWMA_TICK_LEN_DEFAULT EWMA_TICK_LEN_MIN EWMA_TICK_LEN_MAX;
              let halflife = d_div ops halflife (d_of_int ops len);
              Some (g\<lparr>ewma_tick_len := len, ewma_scale_factor := d_exp ops (d_div ops log_onehalf halflife)\<rparr>) })"

section \<open>The queue of active circuits\<close>

definition compare_cell_ewma_counts :: "'d double_ops \<Rightarrow> 'd cell_ewma_t \<Rightarrow> 'd cell_ewma_t \<Rightarrow> int" where
  "compare_cell_ewma_counts ops e1 e2 =
     (if d_less ops (ewma_cell_count e1) (ewma_cell_count e2) then - 1
      else if d_less ops (ewma_cell_count e2) (ewma_cell_count e1) then 1 else 0)"

text \<open>What the pointers of the queue reach, each with its address, and the way back: the queue and the
  objects after an operation of \<^verbatim>\<open>smartlist.c\<close>.\<close>

type_synonym 'd heap_item = "nat \<times> 'd cell_ewma_t"

abbreviation "item_get \<equiv> \<lambda>x :: 'd heap_item. heap_index (snd x)"
abbreviation "item_set \<equiv> \<lambda>i (x :: 'd heap_item). (fst x, (snd x)\<lparr>heap_index := i\<rparr>)"
abbreviation "item_cmp \<equiv> \<lambda>ops (x :: 'd heap_item) (y :: 'd heap_item). compare_cell_ewma_counts ops (snd x) (snd y)"

definition deref :: "'d ewma_policy_data_t \<Rightarrow> nat \<Rightarrow> 'd heap_item" where
  "deref pol d = (d, cell_ewma (the (circ_datas pol d)))"

definition put_cell_ewma :: "nat \<Rightarrow> 'd cell_ewma_t \<Rightarrow> 'd ewma_policy_data_t \<Rightarrow> 'd ewma_policy_data_t" where
  "put_cell_ewma d e pol =
     pol\<lparr>circ_datas := (circ_datas pol)(d := map_option (cell_ewma_update (\<lambda>_. e)) (circ_datas pol d))\<rparr>"

definition store_items :: "'d heap_item list \<Rightarrow> 'd ewma_policy_data_t \<Rightarrow> 'd ewma_policy_data_t" where
  "store_items xs pol =
     pol\<lparr>active_circuit_pqueue := map fst xs,
         circ_datas := (\<lambda>d. case map_of xs d of None \<Rightarrow> circ_datas pol d
                          | Some e \<Rightarrow> map_option (cell_ewma_update (\<lambda>_. e)) (circ_datas pol d))\<rparr>"

definition get_scale_factor :: "'d double_ops \<Rightarrow> 'd ewma_globals \<Rightarrow> u32 \<Rightarrow> u32 \<Rightarrow> 'd" where
  "get_scale_factor ops g from_tick to_tick = d_pow ops (ewma_scale_factor g) (d_of_int ops (sint (to_tick - from_tick)))"

definition scale_single_cell_ewma :: "'d double_ops \<Rightarrow> 'd ewma_globals \<Rightarrow> 'd cell_ewma_t \<Rightarrow> u32 \<Rightarrow> 'd cell_ewma_t" where
  "scale_single_cell_ewma ops g ewma cur_tick =
     ewma\<lparr>ewma_cell_count := d_mult ops (ewma_cell_count ewma) (get_scale_factor ops g (last_adjusted_tick ewma) cur_tick),
          last_adjusted_tick := cur_tick\<rparr>"

text \<open>The loop of \<^verbatim>\<open>scale_active_circuits\<close> over the pointers of the queue.\<close>

fun scale_loop :: "'d double_ops \<Rightarrow> 'd \<Rightarrow> u32 \<Rightarrow> nat list \<Rightarrow> 'd ewma_policy_data_t \<Rightarrow> 'd ewma_policy_data_t option" where
  "scale_loop ops factor cur_tick [] pol = Some pol"
| "scale_loop ops factor cur_tick (d # ds) pol =
     do { cdata \<leftarrow> circ_datas pol d;
          let e = cell_ewma cdata;
          tor_assert (last_adjusted_tick e = last_recalibrated pol);
          scale_loop ops factor cur_tick ds
            (put_cell_ewma d (e\<lparr>ewma_cell_count := d_mult ops (ewma_cell_count e) factor, last_adjusted_tick := cur_tick\<rparr>) pol) }"

definition scale_active_circuits ::
  "'d double_ops \<Rightarrow> 'd ewma_globals \<Rightarrow> 'd ewma_policy_data_t \<Rightarrow> u32 \<Rightarrow> 'd ewma_policy_data_t option" where
  "scale_active_circuits ops g pol cur_tick =
     do { let factor = get_scale_factor ops g (last_recalibrated pol) cur_tick;
          pol \<leftarrow> scale_loop ops factor cur_tick (active_circuit_pqueue pol) pol;
          Some (pol\<lparr>last_recalibrated := cur_tick\<rparr>) }"

definition add_cell_ewma :: "'d double_ops \<Rightarrow> 'd ewma_globals \<Rightarrow> 'd ewma_policy_data_t \<Rightarrow> nat \<Rightarrow> 'd ewma_policy_data_t option" where
  "add_cell_ewma ops g pol d =
     do { cdata \<leftarrow> circ_datas pol d;
          tor_assert (heap_index (cell_ewma cdata) = - 1);
          let ewma = scale_single_cell_ewma ops g (cell_ewma cdata) (last_recalibrated pol);
          Some (store_items (smartlist_pqueue_add (item_cmp ops) item_set (map (deref pol) (active_circuit_pqueue pol)) (d, ewma)) pol) }"

definition remove_cell_ewma :: "'d double_ops \<Rightarrow> 'd ewma_policy_data_t \<Rightarrow> nat \<Rightarrow> 'd ewma_policy_data_t option" where
  "remove_cell_ewma ops pol d =
     do { cdata \<leftarrow> circ_datas pol d;
          tor_assert (heap_index (cell_ewma cdata) \<noteq> - 1);
          xs \<leftarrow> smartlist_pqueue_remove (item_cmp ops) item_get item_set (map (deref pol) (active_circuit_pqueue pol)) (deref pol d);
          Some (put_cell_ewma d ((cell_ewma cdata)\<lparr>heap_index := - 1\<rparr>) (store_items xs pol)) }"

definition pop_first_cell_ewma :: "'d double_ops \<Rightarrow> 'd ewma_policy_data_t \<Rightarrow> (nat \<times> 'd ewma_policy_data_t) option" where
  "pop_first_cell_ewma ops pol =
     do { ((d, e), xs) \<leftarrow> smartlist_pqueue_pop (item_cmp ops) item_set (map (deref pol) (active_circuit_pqueue pol));
          Some (d, put_cell_ewma d e (store_items xs pol)) }"

section \<open>The methods of the policy\<close>

definition ewma_alloc_cmux_data :: "'d ewma_globals \<Rightarrow> 'd ewma_state" where
  "ewma_alloc_cmux_data g =
     (g, Some \<lparr>active_circuit_pqueue = [], last_recalibrated = cell_ewma_get_tick g, circ_datas = Map.empty, next_addr = 0\<rparr>)"

definition ewma_free_cmux_data :: "'d ewma_state \<Rightarrow> 'd ewma_globals" where
  "ewma_free_cmux_data s = fst s"

definition ewma_alloc_circ_data ::
  "'d double_ops \<Rightarrow> 'd ewma_state \<Rightarrow> nat \<Rightarrow> cell_direction_t \<Rightarrow> u32 \<Rightarrow> ('d ewma_state \<times> nat option) option" where
  "ewma_alloc_circ_data ops s circ direction cnt =
     do { pol \<leftarrow> snd s;
          let d = next_addr pol;
          let cdata = \<lparr>cell_ewma = \<lparr>last_adjusted_tick = cell_ewma_get_tick (fst s), ewma_cell_count = d_of_int ops 0,
                                    is_for_p_chan = (direction = CELL_DIRECTION_IN), heap_index = - 1\<rparr>,
                       cd_circ = circ\<rparr>;
          Some ((fst s, Some (pol\<lparr>circ_datas := (circ_datas pol)(d \<mapsto> cdata), next_addr := Suc d\<rparr>)), Some d) }"

definition ewma_free_circ_data :: "'d ewma_state \<Rightarrow> nat \<Rightarrow> nat option \<Rightarrow> 'd ewma_state option" where
  "ewma_free_circ_data s circ cdata =
     do { pol \<leftarrow> snd s;
          case cdata of
            None \<Rightarrow> Some s
          | Some d \<Rightarrow> Some (fst s, Some (pol\<lparr>circ_datas := (circ_datas pol)(d := None)\<rparr>)) }"

definition ewma_notify_circ_active :: "'d double_ops \<Rightarrow> 'd ewma_state \<Rightarrow> nat \<Rightarrow> nat option \<Rightarrow> 'd ewma_state option" where
  "ewma_notify_circ_active ops s circ cdata =
     do { pol \<leftarrow> snd s; d \<leftarrow> cdata; pol \<leftarrow> add_cell_ewma ops (fst s) pol d; Some (fst s, Some pol) }"

definition ewma_notify_circ_inactive :: "'d double_ops \<Rightarrow> 'd ewma_state \<Rightarrow> nat \<Rightarrow> nat option \<Rightarrow> 'd ewma_state option" where
  "ewma_notify_circ_inactive ops s circ cdata =
     do { pol \<leftarrow> snd s; d \<leftarrow> cdata; pol \<leftarrow> remove_cell_ewma ops pol d; Some (fst s, Some pol) }"

definition ewma_notify_xmit_cells :: "'d double_ops \<Rightarrow> u32 \<Rightarrow> 'd ewma_state \<Rightarrow> nat \<Rightarrow> nat option \<Rightarrow> u32 \<Rightarrow> 'd ewma_state option" where
  "ewma_notify_xmit_cells ops rnd s circ cdata sent =
     do { pol \<leftarrow> snd s;
          d \<leftarrow> cdata;
          tor_assert (sent > 0);
          let (tick, fractional_tick, g) = cell_ewma_get_current_tick_and_fraction ops rnd (fst s);
          pol \<leftarrow> (if tick \<noteq> last_recalibrated pol then scale_active_circuits ops g pol tick else Some pol);
          let ewma_increment = d_mult ops (d_of_int ops (uint sent)) (d_pow ops (ewma_scale_factor g) (d_neg ops fractional_tick));
          cd \<leftarrow> circ_datas pol d;
          let e = cell_ewma cd;
          let pol = put_cell_ewma d (e\<lparr>ewma_cell_count := d_add ops (ewma_cell_count e) ewma_increment\<rparr>) pol;
          (tmp, pol) \<leftarrow> pop_first_cell_ewma ops pol;
          tor_assert (tmp = d);
          pol \<leftarrow> add_cell_ewma ops g pol d;
          Some (g, Some pol) }"

definition cell_ewma_to_circuit :: "'d ewma_policy_data_t \<Rightarrow> nat \<Rightarrow> nat option" where
  "cell_ewma_to_circuit pol d = map_option cd_circ (circ_datas pol d)"

definition ewma_pick_active_circuit :: "'d ewma_state \<Rightarrow> nat option option" where
  "ewma_pick_active_circuit s =
     do { pol \<leftarrow> snd s;
          case active_circuit_pqueue pol of
            [] \<Rightarrow> Some None
          | d # _ \<Rightarrow> do { circ \<leftarrow> cell_ewma_to_circuit pol d; Some (Some circ) } }"

text \<open>The comparison of two multiplexers, which are different objects (\<^verbatim>\<open>circuitmux_compare_muxes\<close>).\<close>

definition ewma_cmp_cmux :: "'d double_ops \<Rightarrow> 'd ewma_policy_data_t option \<Rightarrow> 'd ewma_policy_data_t option \<Rightarrow> int option" where
  "ewma_cmp_cmux ops pol_data_1 pol_data_2 =
     do { p1 \<leftarrow> pol_data_1;
          p2 \<leftarrow> pol_data_2;
          Some (case (active_circuit_pqueue p1, active_circuit_pqueue p2) of
                  (d1 # _, d2 # _) \<Rightarrow> compare_cell_ewma_counts ops (snd (deref p1 d1)) (snd (deref p2 d2))
                | (_ # _, []) \<Rightarrow> - 1
                | ([], _ # _) \<Rightarrow> 1
                | ([], []) \<Rightarrow> 0) }"

definition ewma_policy :: "'d double_ops \<Rightarrow> u32 \<Rightarrow> ('d ewma_globals, 'd ewma_policy_data_t) circuitmux_policy_t" where
  "ewma_policy ops rnd =
     \<lparr>alloc_cmux_data = Some ewma_alloc_cmux_data,
      free_cmux_data = Some ewma_free_cmux_data,
      alloc_circ_data = Some (ewma_alloc_circ_data ops),
      free_circ_data = Some ewma_free_circ_data,
      notify_circ_active = Some (ewma_notify_circ_active ops),
      notify_circ_inactive = Some (ewma_notify_circ_inactive ops),
      notify_set_n_cells = None,
      notify_xmit_cells = Some (ewma_notify_xmit_cells ops rnd),
      pick_active_circuit = Some ewma_pick_active_circuit,
      cmp_cmux = Some (ewma_cmp_cmux ops)\<rparr>"

section \<open>The invariant of the policy data\<close>

text \<open>
  The pointers of the queue are different and valid, every object of the queue knows its position and
  was last adjusted when the queue was, and the objects outside the queue have position \<open>-1\<close>.  Nothing
  is said about the order of the queue or about the numbers in it.
\<close>

definition ewma_wf :: "'d ewma_policy_data_t \<Rightarrow> bool" where
  "ewma_wf pol =
     (distinct (active_circuit_pqueue pol) \<and>
      (\<forall>d \<in> set (active_circuit_pqueue pol). circ_datas pol d \<noteq> None \<and>
         last_adjusted_tick (snd (deref pol d)) = last_recalibrated pol) \<and>
      (\<forall>i < length (active_circuit_pqueue pol). heap_index (snd (deref pol (active_circuit_pqueue pol ! i))) = int i) \<and>
      (\<forall>d. circ_datas pol d \<noteq> None \<longrightarrow> d \<notin> set (active_circuit_pqueue pol) \<longrightarrow> heap_index (snd (deref pol d)) = - 1) \<and>
      (\<forall>d. circ_datas pol d \<noteq> None \<longrightarrow> d < next_addr pol))"

definition ewma_owner :: "'d ewma_policy_data_t \<Rightarrow> nat \<Rightarrow> nat option" where
  "ewma_owner pol d = map_option cd_circ (circ_datas pol d)"

definition ewma_act :: "'d ewma_policy_data_t \<Rightarrow> nat set" where
  "ewma_act pol = set (active_circuit_pqueue pol)"

definition ewma_first :: "'d ewma_policy_data_t \<Rightarrow> nat option" where
  "ewma_first pol = (case active_circuit_pqueue pol of [] \<Rightarrow> None | d # _ \<Rightarrow> Some d)"

definition ewma_good :: "'d ewma_globals \<Rightarrow> bool" where
  "ewma_good g = (ewma_ticks_initialized g \<and> EWMA_TICK_LEN_MIN \<le> ewma_tick_len g \<and> ewma_tick_len g \<le> EWMA_TICK_LEN_MAX)"

text \<open>An item of the heap apart from its position: the address, and the object with the index blanked.\<close>

abbreviation "item_strip \<equiv> \<lambda>x :: 'd heap_item. (fst x, (snd x)\<lparr>heap_index := 0\<rparr>)"

interpretation item: idx_elem item_get item_set item_strip
  by unfold_locales simp_all

lemma map_strip_fst:
  assumes "image_mset item_strip (mset xs) = image_mset item_strip (mset ys)"
  shows "mset (map fst xs) = mset (map fst ys)"
proof -
  have f: "image_mset fst (image_mset item_strip M) = image_mset fst M" for M by (induction M) auto
  show ?thesis using f [of "mset xs"] f [of "mset ys"] assms by simp
qed

lemma deref_item:
  assumes "distinct (map fst xs)" "\<forall>d \<in> fst ` set xs. circ_datas pol d \<noteq> None" "x \<in> set xs"
  shows "deref (store_items xs pol) (fst x) = x"
proof -
  have "map_of xs (fst x) = Some (snd x)" using assms(1,3) by simp
  moreover obtain cd where "circ_datas pol (fst x) = Some cd" using assms(2,3) by (metis image_eqI not_None_eq)
  ultimately show ?thesis by (simp add: deref_def store_items_def)
qed

lemma deref_store_other: "d \<notin> fst ` set xs \<Longrightarrow> deref (store_items xs pol) d = deref pol d"
  by (simp add: deref_def store_items_def map_of_eq_None_iff [THEN iffD2])

lemma store_items_simps [simp]:
  "active_circuit_pqueue (store_items xs pol) = map fst xs"
  "last_recalibrated (store_items xs pol) = last_recalibrated pol"
  "next_addr (store_items xs pol) = next_addr pol"
  "ewma_owner (store_items xs pol) = ewma_owner pol"
  "(circ_datas (store_items xs pol) d = None) = (circ_datas pol d = None)"
  by (auto simp: store_items_def ewma_owner_def fun_eq_iff option.map_comp comp_def split: option.splits)

lemma put_cell_ewma_simps [simp]:
  "active_circuit_pqueue (put_cell_ewma d e pol) = active_circuit_pqueue pol"
  "last_recalibrated (put_cell_ewma d e pol) = last_recalibrated pol"
  "next_addr (put_cell_ewma d e pol) = next_addr pol"
  "ewma_owner (put_cell_ewma d e pol) = ewma_owner pol"
  "(circ_datas (put_cell_ewma d e pol) d' = None) = (circ_datas pol d' = None)"
  "circ_datas pol d \<noteq> None \<Longrightarrow> deref (put_cell_ewma d e pol) d = (d, e)"
  "d' \<noteq> d \<Longrightarrow> deref (put_cell_ewma d e pol) d' = deref pol d'"
  by (auto simp: put_cell_ewma_def ewma_owner_def deref_def fun_eq_iff option.map_comp comp_def)

lemma fst_deref [simp]: "fst (deref pol d) = d"
  by (simp add: deref_def)

lemma map_fst_deref [simp]: "map (fst \<circ> deref pol) ds = ds"
  by (simp add: comp_def)

lemma ewma_wf_idx: "ewma_wf pol \<Longrightarrow> item.idx_ok (map (deref pol) (active_circuit_pqueue pol))"
  by (simp add: ewma_wf_def item.idx_ok_def)

text \<open>After a heap operation: items \<open>xs\<close> whose content is that of \<open>ys\<close>, stored back.\<close>

lemma ewma_wf_store:
  assumes wf: "\<forall>d. circ_datas pol d \<noteq> None \<longrightarrow> d < next_addr pol" and ok: "item.idx_ok xs"
    and ms: "image_mset item_strip (mset xs) = image_mset item_strip (mset ys)"
    and ys: "distinct (map fst ys)" "\<forall>x \<in> set ys. circ_datas pol (fst x) \<noteq> None \<and> last_adjusted_tick (snd x) = last_recalibrated pol"
    and other: "\<forall>d. circ_datas pol d \<noteq> None \<longrightarrow> d \<notin> fst ` set ys \<longrightarrow> heap_index (snd (deref pol d)) = - 1"
  shows "ewma_wf (store_items xs pol)" and "set (map fst xs) = set (map fst ys)"
proof -
  have m: "mset (map fst xs) = mset (map fst ys)" using ms by (rule map_strip_fst)
  show st: "set (map fst xs) = set (map fst ys)" using m by (metis set_mset_mset)
  have dx: "distinct (map fst xs)" using m ys(1) by (metis mset_eq_imp_distinct_iff)
  have lt: "last_adjusted_tick (snd x) = last_recalibrated pol" if "x \<in> set xs" for x
  proof -
    have "item_strip x \<in># image_mset item_strip (mset ys)" using that by (simp add: ms [symmetric])
    then obtain y where "y \<in> set ys" "item_strip x = item_strip y" by auto
    then show ?thesis using ys(2) by (metis (no_types, lifting) cell_ewma_t.select_convs(1) cell_ewma_t.surjective cell_ewma_t.update_convs(4) snd_conv)
  qed
  have al: "\<forall>d \<in> fst ` set xs. circ_datas pol d \<noteq> None" using st ys(2) by auto
  note de = deref_item [OF dx al]
  have "heap_index (snd (deref (store_items xs pol) (fst (xs ! i)))) = int i" if "i < length xs" for i
    using de [of "xs ! i"] that ok by (simp add: item.idx_ok_def)
  moreover have "heap_index (snd (deref (store_items xs pol) d)) = - 1" if "circ_datas pol d \<noteq> None" "d \<notin> fst ` set xs" for d
    using deref_store_other [OF that(2)] other st that by simp
  moreover have "last_adjusted_tick (snd (deref (store_items xs pol) d)) = last_recalibrated pol" if "d \<in> fst ` set xs" for d
    using that de lt by auto
  ultimately show "ewma_wf (store_items xs pol)" using wf dx al by (auto simp: ewma_wf_def)
qed

section \<open>The operations keep it\<close>

lemma add_cell_ewma_ok:
  assumes wf: "ewma_wf pol" and d: "ewma_owner pol d \<noteq> None" "d \<notin> ewma_act pol"
  shows "\<exists>pol'. add_cell_ewma ops g pol d = Some pol' \<and> ewma_wf pol' \<and> ewma_owner pol' = ewma_owner pol \<and>
    ewma_act pol' = insert d (ewma_act pol)"
proof -
  obtain cd where cd: "circ_datas pol d = Some cd" using d(1) by (auto simp: ewma_owner_def)
  have hi: "heap_index (cell_ewma cd) = - 1" using wf cd d(2) by (auto simp: ewma_wf_def ewma_act_def deref_def)
  define e where "e = scale_single_cell_ewma ops g (cell_ewma cd) (last_recalibrated pol)"
  let ?xs = "smartlist_pqueue_add (item_cmp ops) item_set (map (deref pol) (active_circuit_pqueue pol)) (d, e)"
  let ?ys = "(d, e) # map (deref pol) (active_circuit_pqueue pol)"
  note ad = item.add_items [OF ewma_wf_idx [OF wf], of "item_cmp ops" "(d, e)"]
  have lt: "last_adjusted_tick e = last_recalibrated pol" by (simp add: e_def scale_single_cell_ewma_def)
  have st: "ewma_wf (store_items ?xs pol)" "set (map fst ?xs) = set (map fst ?ys)"
    by (rule ewma_wf_store [OF _ ad(1), of pol ?ys];
        use wf ad(2) lt cd d(2) in \<open>auto simp: ewma_wf_def ewma_act_def image_image\<close>)+
  have "add_cell_ewma ops g pol d = Some (store_items ?xs pol)" using cd hi by (simp add: add_cell_ewma_def e_def Let_def)
  moreover have "ewma_act (store_items ?xs pol) = insert d (ewma_act pol)" using st(2) by (simp add: ewma_act_def image_image)
  ultimately show ?thesis using st(1) by simp
qed

lemma put_store_commute:
  "d \<notin> fst ` set xs \<Longrightarrow> put_cell_ewma d e (store_items xs pol) = store_items xs (put_cell_ewma d e pol)"
  by (auto simp: put_cell_ewma_def store_items_def map_of_eq_None_iff [THEN iffD2] fun_eq_iff split: option.splits)

text \<open>An item taken out of the queue, its position set to \<open>-1\<close>.\<close>

lemma taken_ok:
  assumes wf: "ewma_wf pol" and d: "d \<in> set (active_circuit_pqueue pol)" and ok: "item.idx_ok xs"
    and ms: "add_mset (item_strip (deref pol d)) (image_mset item_strip (mset xs)) =
      image_mset item_strip (mset (map (deref pol) (active_circuit_pqueue pol)))"
    and e: "heap_index e = - 1"
  shows "ewma_wf (put_cell_ewma d e (store_items xs pol))" and "set (map fst xs) = ewma_act pol - {d}"
proof -
  let ?pq = "active_circuit_pqueue pol" and ?pol = "put_cell_ewma d e pol"
  let ?ys = "map (deref pol) (remove1 d ?pq)"
  have dist: "distinct ?pq" using wf by (simp add: ewma_wf_def)
  have "mset ?pq = add_mset d (mset (remove1 d ?pq))" using d by simp
  then have "image_mset item_strip (mset (map (deref pol) ?pq)) =
      add_mset (item_strip (deref pol d)) (image_mset item_strip (mset ?ys))" by (simp only: mset_map image_mset_add_mset)
  then have my: "image_mset item_strip (mset xs) = image_mset item_strip (mset ?ys)" using ms by simp
  have "\<forall>d'. circ_datas ?pol d' \<noteq> None \<longrightarrow> d' < next_addr ?pol" using wf by (simp add: ewma_wf_def)
  moreover have "distinct (map fst ?ys)" using dist by simp
  moreover have "\<forall>x \<in> set ?ys. circ_datas ?pol (fst x) \<noteq> None \<and> last_adjusted_tick (snd x) = last_recalibrated ?pol"
    using wf dist by (auto simp: ewma_wf_def)
  moreover have "\<forall>d'. circ_datas ?pol d' \<noteq> None \<longrightarrow> d' \<notin> fst ` set ?ys \<longrightarrow> heap_index (snd (deref ?pol d')) = - 1"
  proof (intro allI impI)
    fix d' assume a: "circ_datas ?pol d' \<noteq> None" "d' \<notin> fst ` set ?ys"
    show "heap_index (snd (deref ?pol d')) = - 1"
    proof (cases "d' = d")
      case True
      then show ?thesis using a e by simp
    next
      case False
      then have "d' \<notin> set ?pq" using a(2) dist by (simp add: image_image)
      then show ?thesis using False a(1) wf by (simp add: ewma_wf_def)
    qed
  qed
  ultimately have st: "ewma_wf (store_items xs ?pol)" "set (map fst xs) = set (map fst ?ys)"
    using ewma_wf_store [OF _ ok my] by blast+
  show s: "set (map fst xs) = ewma_act pol - {d}" using st(2) dist by (simp add: ewma_act_def image_image)
  have "d \<notin> fst ` set xs" using s by auto
  then show "ewma_wf (put_cell_ewma d e (store_items xs pol))" using st(1) put_store_commute [of d xs e pol] by simp
qed

lemma remove_cell_ewma_ok:
  assumes wf: "ewma_wf pol" and d: "d \<in> ewma_act pol"
  shows "\<exists>pol'. remove_cell_ewma ops pol d = Some pol' \<and> ewma_wf pol' \<and> ewma_owner pol' = ewma_owner pol \<and>
    ewma_act pol' = ewma_act pol - {d}"
proof -
  have dm: "d \<in> set (active_circuit_pqueue pol)" using d by (simp add: ewma_act_def)
  obtain cd where cd: "circ_datas pol d = Some cd" using wf dm by (auto simp: ewma_wf_def)
  obtain i where "i < length (active_circuit_pqueue pol)" "active_circuit_pqueue pol ! i = d" using dm by (auto simp: in_set_conv_nth)
  then have "heap_index (cell_ewma cd) = int i" using wf cd by (auto simp: ewma_wf_def deref_def)
  then have hi: "heap_index (cell_ewma cd) \<noteq> - 1" by simp
  obtain xs where xs: "smartlist_pqueue_remove (item_cmp ops) item_get item_set (map (deref pol) (active_circuit_pqueue pol)) (deref pol d) = Some xs"
    "item.idx_ok xs" "add_mset (item_strip (deref pol d)) (image_mset item_strip (mset xs)) =
      image_mset item_strip (mset (map (deref pol) (active_circuit_pqueue pol)))"
    using item.remove_items [OF ewma_wf_idx [OF wf], of "deref pol d" "item_cmp ops"] dm by auto
  note t = taken_ok [OF wf dm xs(2,3), of "(cell_ewma cd)\<lparr>heap_index := - 1\<rparr>"]
  show ?thesis using cd hi xs(1) t by (simp add: remove_cell_ewma_def ewma_act_def)
qed

lemma pop_first_cell_ewma_ok:
  assumes wf: "ewma_wf pol" and pq: "active_circuit_pqueue pol = d # ds"
  shows "\<exists>pol'. pop_first_cell_ewma ops pol = Some (d, pol') \<and> ewma_wf pol' \<and> ewma_owner pol' = ewma_owner pol \<and>
    ewma_act pol' = ewma_act pol - {d} \<and> last_recalibrated pol' = last_recalibrated pol"
proof -
  have dm: "d \<in> set (active_circuit_pqueue pol)" using pq by simp
  obtain xs where xs: "smartlist_pqueue_pop (item_cmp ops) item_set (map (deref pol) (active_circuit_pqueue pol)) =
      Some (item_set (- 1) (deref pol d), xs)"
    "item.idx_ok xs" "add_mset (item_strip (deref pol d)) (image_mset item_strip (mset xs)) =
      image_mset item_strip (mset (map (deref pol) (active_circuit_pqueue pol)))"
    using item.pop_items [OF ewma_wf_idx [OF wf], of "item_cmp ops"] pq by auto
  note t = taken_ok [OF wf dm xs(2,3), of "(snd (deref pol d))\<lparr>heap_index := - 1\<rparr>"]
  show ?thesis using xs(1) t by (simp add: pop_first_cell_ewma_def ewma_act_def)
qed

lemma snd_deref: "circ_datas pol d = Some cd \<Longrightarrow> snd (deref pol d) = cell_ewma cd"
  by (simp add: deref_def)

abbreviation rescaled :: "'d double_ops \<Rightarrow> 'd \<Rightarrow> u32 \<Rightarrow> 'd cell_ewma_t \<Rightarrow> 'd cell_ewma_t" where
  "rescaled ops factor tick e \<equiv> e\<lparr>ewma_cell_count := d_mult ops (ewma_cell_count e) factor, last_adjusted_tick := tick\<rparr>"

lemma scale_loop_ok:
  assumes "distinct ds" "\<forall>d \<in> set ds. circ_datas pol d \<noteq> None \<and> last_adjusted_tick (snd (deref pol d)) = last_recalibrated pol"
  shows "\<exists>pol'. scale_loop ops f t ds pol = Some pol' \<and> active_circuit_pqueue pol' = active_circuit_pqueue pol \<and>
    last_recalibrated pol' = last_recalibrated pol \<and> next_addr pol' = next_addr pol \<and> ewma_owner pol' = ewma_owner pol \<and>
    (\<forall>d. (circ_datas pol' d = None) = (circ_datas pol d = None)) \<and>
    (\<forall>d. snd (deref pol' d) = (if d \<in> set ds then rescaled ops f t (snd (deref pol d)) else snd (deref pol d)))"
  using assms
proof (induction ds arbitrary: pol)
  case Nil
  then show ?case by simp
next
  case (Cons d ds)
  obtain cd where cd: "circ_datas pol d = Some cd" using Cons.prems(2) by auto
  let ?pol = "put_cell_ewma d (rescaled ops f t (cell_ewma cd)) pol"
  have "\<forall>d' \<in> set ds. circ_datas ?pol d' \<noteq> None \<and> last_adjusted_tick (snd (deref ?pol d')) = last_recalibrated ?pol"
  proof
    fix d' assume "d' \<in> set ds"
    moreover from this have "d' \<noteq> d" using Cons.prems(1) by auto
    ultimately show "circ_datas ?pol d' \<noteq> None \<and> last_adjusted_tick (snd (deref ?pol d')) = last_recalibrated ?pol"
      using Cons.prems(2) by simp
  qed
  then obtain pol' where p: "scale_loop ops f t ds ?pol = Some pol'" "active_circuit_pqueue pol' = active_circuit_pqueue pol"
    "last_recalibrated pol' = last_recalibrated pol" "next_addr pol' = next_addr pol" "ewma_owner pol' = ewma_owner pol"
    "\<forall>d. (circ_datas pol' d = None) = (circ_datas pol d = None)"
    "\<forall>d. snd (deref pol' d) = (if d \<in> set ds then rescaled ops f t (snd (deref ?pol d)) else snd (deref ?pol d))"
    using Cons.IH [of ?pol] Cons.prems(1) by (auto simp del: split_paired_Ex)
  have "snd (deref pol' d') = (if d' \<in> set (d # ds) then rescaled ops f t (snd (deref pol d')) else snd (deref pol d'))" for d'
    using p(7) Cons.prems(1) cd snd_deref [OF cd] by (cases "d' = d") auto
  moreover have "scale_loop ops f t (d # ds) pol = Some pol'"
    using p(1) cd Cons.prems(2) snd_deref [OF cd] by (simp add: Let_def)
  ultimately show ?case using p by blast
qed

lemma scale_active_circuits_ok:
  assumes wf: "ewma_wf pol"
  shows "\<exists>pol'. scale_active_circuits ops g pol t = Some pol' \<and> ewma_wf pol' \<and> ewma_owner pol' = ewma_owner pol \<and>
    active_circuit_pqueue pol' = active_circuit_pqueue pol \<and> last_recalibrated pol' = t \<and>
    (\<forall>d \<in> set (active_circuit_pqueue pol). snd (deref pol' d) =
       rescaled ops (get_scale_factor ops g (last_recalibrated pol) t) t (snd (deref pol d)))"
proof -
  let ?f = "get_scale_factor ops g (last_recalibrated pol) t" and ?pq = "active_circuit_pqueue pol"
  obtain p where p: "scale_loop ops ?f t ?pq pol = Some p" "active_circuit_pqueue p = ?pq"
    "next_addr p = next_addr pol" "ewma_owner p = ewma_owner pol" "\<forall>d. (circ_datas p d = None) = (circ_datas pol d = None)"
    "\<forall>d. snd (deref p d) = (if d \<in> set ?pq then rescaled ops ?f t (snd (deref pol d)) else snd (deref pol d))"
    using scale_loop_ok [of ?pq pol ops ?f t] wf by (auto simp: ewma_wf_def)
  define p' where "p' = p\<lparr>last_recalibrated := t\<rparr>"
  have p': "deref p' = deref p" "circ_datas p' = circ_datas p" "ewma_owner p' = ewma_owner p"
    "active_circuit_pqueue p' = ?pq" "last_recalibrated p' = t" "next_addr p' = next_addr pol"
    using p(2,3) by (simp_all add: p'_def deref_def ewma_owner_def fun_eq_iff)
  have "ewma_wf p'" using wf p(5,6) unfolding ewma_wf_def p' by (auto simp: in_set_conv_nth)
  moreover have "scale_active_circuits ops g pol t = Some p'" using p(1) by (simp add: scale_active_circuits_def p'_def Let_def)
  ultimately show ?thesis using p p' by auto
qed

lemma ewma_wf_put:
  assumes "ewma_wf pol" "circ_datas pol d \<noteq> None" "heap_index e = heap_index (snd (deref pol d))"
    "last_adjusted_tick e = last_adjusted_tick (snd (deref pol d))"
  shows "ewma_wf (put_cell_ewma d e pol)"
proof -
  have "heap_index (snd (deref (put_cell_ewma d e pol) d')) = heap_index (snd (deref pol d'))"
    "last_adjusted_tick (snd (deref (put_cell_ewma d e pol) d')) = last_adjusted_tick (snd (deref pol d'))" for d'
    using assms by (cases "d' = d"; simp)+
  then show ?thesis using assms(1) unfolding ewma_wf_def by simp
qed

lemma get_current_tick_good:
  "ewma_good g \<Longrightarrow> cell_ewma_get_current_tick_and_fraction ops rnd g = (t, fr, g') \<Longrightarrow> ewma_good g'"
  by (auto simp: cell_ewma_get_current_tick_and_fraction_def ewma_good_def Let_def split: if_splits)

lemma ewma_notify_xmit_cells_ok:
  assumes wf: "ewma_wf pol" and g: "ewma_good g" and d: "ewma_first pol = Some d" and n: "0 < n"
  shows "\<exists>g' pol'. ewma_notify_xmit_cells ops rnd (g, Some pol) c (Some d) n = Some (g', Some pol') \<and> ewma_good g' \<and>
    ewma_wf pol' \<and> ewma_owner pol' = ewma_owner pol \<and> ewma_act pol' = ewma_act pol"
proof -
  obtain t fr g' where tick: "cell_ewma_get_current_tick_and_fraction ops rnd g = (t, fr, g')" by (metis prod_cases3)
  obtain ds where pq: "active_circuit_pqueue pol = d # ds" using d by (auto simp: ewma_first_def split: list.splits)
  have "\<exists>p1. (if t \<noteq> last_recalibrated pol then scale_active_circuits ops g' pol t else Some pol) = Some p1 \<and> ewma_wf p1 \<and>
      ewma_owner p1 = ewma_owner pol \<and> active_circuit_pqueue p1 = active_circuit_pqueue pol"
    using scale_active_circuits_ok [OF wf, of ops g' t] wf by auto
  then obtain p1 where p1: "(if t \<noteq> last_recalibrated pol then scale_active_circuits ops g' pol t else Some pol) = Some p1"
    "ewma_wf p1" "ewma_owner p1 = ewma_owner pol" "active_circuit_pqueue p1 = d # ds" using pq by auto
  obtain cd where cd: "circ_datas p1 d = Some cd" using p1(2,4) by (auto simp: ewma_wf_def)
  define p2 where "p2 = put_cell_ewma d ((cell_ewma cd)\<lparr>ewma_cell_count := d_add ops (ewma_cell_count (cell_ewma cd))
      (d_mult ops (d_of_int ops (uint n)) (d_pow ops (ewma_scale_factor g') (d_neg ops fr)))\<rparr>) p1"
  have wf2: "ewma_wf p2" unfolding p2_def by (rule ewma_wf_put [OF p1(2)]) (simp_all add: cd snd_deref [OF cd])
  have p2: "active_circuit_pqueue p2 = d # ds" "ewma_owner p2 = ewma_owner pol" using p1 by (simp_all add: p2_def)
  obtain p3 where p3: "pop_first_cell_ewma ops p2 = Some (d, p3)" "ewma_wf p3" "ewma_owner p3 = ewma_owner pol"
    "ewma_act p3 = ewma_act p2 - {d}" using pop_first_cell_ewma_ok [OF wf2 p2(1)] p2(2) by metis
  have own: "ewma_owner p3 d \<noteq> None" using p3(3) p1(3) cd by (metis ewma_owner_def option.map_disc_iff option.distinct(1))
  obtain p4 where p4: "add_cell_ewma ops g' p3 d = Some p4" "ewma_wf p4" "ewma_owner p4 = ewma_owner pol"
    "ewma_act p4 = insert d (ewma_act p3)" using add_cell_ewma_ok [OF p3(2) own, of ops g'] p3 by auto
  have "ewma_act p4 = ewma_act pol" using p4(4) p3(4) p2(1) pq by (auto simp: ewma_act_def)
  moreover have "ewma_notify_xmit_cells ops rnd (g, Some pol) c (Some d) n = Some (g', Some p4)"
    using tick n p1(1) cd p3(1) p4(1) by (simp add: ewma_notify_xmit_cells_def Let_def p2_def)
  ultimately show ?thesis using p4 get_current_tick_good [OF g tick] by blast
qed

lemma ewma_owner_upd:
  "ewma_owner (p\<lparr>circ_datas := (circ_datas p)(d \<mapsto> cd), next_addr := n\<rparr>) = (ewma_owner p)(d \<mapsto> cd_circ cd)"
  "ewma_owner (p\<lparr>circ_datas := (circ_datas p)(d := None)\<rparr>) = (ewma_owner p)(d := None)"
  by (auto simp: fun_eq_iff ewma_owner_def)

text \<open>
  The policy meets the contract of the multiplexer, whatever the arithmetic of doubles does: even with
  NaN counts no assertion fails.
\<close>

interpretation ewma: cmux_policy "ewma_policy ops rnd" ewma_good ewma_wf ewma_act ewma_owner ewma_first for ops rnd
proof (unfold_locales, goal_cases)
  case (1 g)
  have "ewma_owner \<lparr>active_circuit_pqueue = [], last_recalibrated = t, circ_datas = Map.empty, next_addr = 0\<rparr> = Map.empty" for t
    by (rule ext) (simp add: ewma_owner_def)
  then show ?case using 1 by (simp add: ewma_policy_def ewma_alloc_cmux_data_def ewma_wf_def ewma_act_def)
next
  case (2 p g c dir n)
  then have d: "circ_datas p (next_addr p) = None" by (auto simp: ewma_wf_def)
  then have n: "active_circuit_pqueue p ! i \<noteq> next_addr p" if "i < length (active_circuit_pqueue p)" for i
    using 2 that by (metis ewma_wf_def nth_mem)
  have "ewma_wf (p\<lparr>circ_datas := (circ_datas p)(next_addr p \<mapsto> cd), next_addr := Suc (next_addr p)\<rparr>)"
    if "heap_index (cell_ewma cd) = - 1" for cd
    using 2 d n that by (auto simp: ewma_wf_def deref_def less_Suc_eq)
  moreover have "ewma_owner p (next_addr p) = None" using d by (simp add: ewma_owner_def)
  ultimately show ?case
    by (simp add: ewma_policy_def ewma_alloc_circ_data_def Let_def ewma_owner_upd ewma_act_def)
next
  case (3 p d g c)
  then have "ewma_wf (p\<lparr>circ_datas := (circ_datas p)(d := None)\<rparr>)"
    by (auto simp: ewma_wf_def deref_def ewma_act_def)
  then show ?case by (simp add: ewma_policy_def ewma_free_circ_data_def ewma_owner_upd ewma_act_def)
next
  case (4 p d g c)
  then show ?case using add_cell_ewma_ok [of p d ops g] by (auto simp: ewma_policy_def ewma_notify_circ_active_def)
next
  case (5 p d g c)
  then show ?case using remove_cell_ewma_ok [of p d ops] by (auto simp: ewma_policy_def ewma_notify_circ_inactive_def)
next
  case (6 f p g c d n)
  then show ?case by (simp add: ewma_policy_def)
next
  case (7 p g d n c)
  then show ?case using ewma_notify_xmit_cells_ok [of p g d n ops rnd c] by (auto simp: ewma_policy_def)
next
  case (8 p g)
  then show ?case by (auto simp: ewma_policy_def ewma_pick_active_circuit_def ewma_first_def cell_ewma_to_circuit_def ewma_owner_def
      ewma_wf_def split: list.splits)
next
  case (9 p)
  then show ?case by (auto simp: ewma_first_def ewma_act_def split: list.splits)
qed

end
