(* ===== verification/CircuitMuxFair.thy ===== *)
theory CircuitMuxFair
  imports CircuitMuxEwma
begin

text \<open>
  Fair service: when doubles are compared as a linear order, the policy serves an active circuit that
  has sent the fewest cells lately, and activating circuits and reporting transmissions keep the queue
  in the order this needs.  Taking a circuit out of the middle of the queue does not keep it.
\<close>

section \<open>The order of the queue\<close>

abbreviation ewma_items :: "'d ewma_policy_data_t \<Rightarrow> 'd heap_item list" where
  "ewma_items pol \<equiv> map (deref pol) (active_circuit_pqueue pol)"

abbreviation ewma_count :: "'d ewma_policy_data_t \<Rightarrow> nat \<Rightarrow> 'd" where
  "ewma_count pol d \<equiv> ewma_cell_count (snd (deref pol d))"

definition ewma_ordered :: "'d double_ops \<Rightarrow> 'd ewma_policy_data_t \<Rightarrow> bool" where
  "ewma_ordered ops pol = smartlist_pqueue_assert_ok (item_cmp ops) item_get (ewma_items pol)"

interpretation fair: heap_elem "item_cmp (ops\<lparr>d_less := (<)\<rparr>)" item_get item_set item_strip "\<lambda>x. ewma_cell_count (snd x)"
  for ops :: "('d :: linorder) double_ops"
proof (unfold_locales, goal_cases)
  case (3 x y)
  then show ?case by (metis cell_ewma_t.select_convs(2) cell_ewma_t.surjective cell_ewma_t.update_convs(4) snd_conv)
qed (auto simp: compare_cell_ewma_counts_def)

lemma linear_ops: "d_less ops = (<) \<Longrightarrow> ops\<lparr>d_less := (<)\<rparr> = ops"
  by (cases ops) simp

lemma ordered_invar:
  fixes ops :: "('d :: linorder) double_ops"
  assumes "d_less ops = (<)"
  shows "ewma_ordered ops pol = fair.heap_invar (ewma_items pol)"
  using fair.heap_invar_assert_ok [of "ewma_items pol" ops] linear_ops [OF assms] by (simp add: ewma_ordered_def)

lemma stored_items:
  assumes "distinct (map fst xs)" "\<forall>d \<in> fst ` set xs. circ_datas pol d \<noteq> None"
  shows "ewma_items (store_items xs pol) = xs"
  using deref_item [OF assms] by (simp add: comp_def map_idI)

section \<open>The operations keep it\<close>

lemma add_keeps_order:
  fixes ops :: "('d :: linorder) double_ops"
  assumes l: "d_less ops = (<)" and wf: "ewma_wf pol" and ord: "ewma_ordered ops pol"
    and d: "ewma_owner pol d \<noteq> None" "d \<notin> ewma_act pol" and a: "add_cell_ewma ops g pol d = Some pol'"
  shows "ewma_ordered ops pol'"
proof -
  obtain cd where cd: "circ_datas pol d = Some cd" using d(1) by (auto simp: ewma_owner_def)
  define e where "e = scale_single_cell_ewma ops g (cell_ewma cd) (last_recalibrated pol)"
  define xs where "xs = smartlist_pqueue_add (item_cmp ops) item_set (ewma_items pol) (d, e)"
  have pol': "pol' = store_items xs pol"
    using a cd by (auto simp: add_cell_ewma_def e_def xs_def Let_def bind_eq_Some_iff)
  have "mset (map fst xs) = mset (d # active_circuit_pqueue pol)"
    using map_strip_fst [of xs "(d, e) # ewma_items pol"] item.add_items(2) [OF ewma_wf_idx [OF wf], of "item_cmp ops" "(d, e)"]
    by (simp add: xs_def)
  moreover have "distinct (d # active_circuit_pqueue pol)" using wf d(2) by (simp add: ewma_wf_def ewma_act_def)
  ultimately have dist: "distinct (map fst xs)" and st: "set (map fst xs) = insert d (ewma_act pol)"
    by (metis mset_eq_imp_distinct_iff, metis ewma_act_def list.simps(15) set_mset_mset)
  have "\<forall>d' \<in> fst ` set xs. circ_datas pol d' \<noteq> None" using st cd wf by (auto simp: ewma_wf_def ewma_act_def)
  then have "ewma_items pol' = xs" using stored_items [OF dist] by (simp add: pol')
  moreover have "fair.heap_invar xs"
    using fair.pqueue_add_invar [of "ewma_items pol" ops "(d, e)"] ord linear_ops [OF l] by (simp add: xs_def ordered_invar [OF l])
  ultimately show ?thesis by (simp add: ordered_invar [OF l])
qed

text \<open>Taking out the first item does not look at it, so its count may have changed before.\<close>

lemma pop_rest:
  assumes "smartlist_pqueue_pop cmp si (x # xs) = Some (z, ys)"
  shows "smartlist_pqueue_pop cmp si (x' # xs) = Some (si (- 1) x', ys)"
  using assms by (auto simp: smartlist_pqueue_pop_def Let_def nth_Cons' split: if_splits)

lemma pop_keeps_order:
  fixes ops :: "('d :: linorder) double_ops"
  assumes l: "d_less ops = (<)" and wf: "ewma_wf pol" and ord: "ewma_ordered ops pol" and pq: "active_circuit_pqueue pol = d # ds"
    and len: "int (length (active_circuit_pqueue pol)) \<le> INT32_MAX" and e: "heap_index e = heap_index (snd (deref pol d))"
    and p: "pop_first_cell_ewma ops (put_cell_ewma d e pol) = Some (d, pol')"
  shows "ewma_ordered ops pol'"
proof -
  have al: "circ_datas pol d \<noteq> None" and dist: "distinct (d # ds)" using wf pq by (simp_all add: ewma_wf_def)
  define rest where "rest = map (deref pol) ds"
  have same: "deref (put_cell_ewma d e pol) x = deref pol x" if "x \<in> set ds" for x
    by (rule put_cell_ewma_simps(7)) (use that dist in auto)
  have it: "ewma_items pol = deref pol d # rest" "ewma_items (put_cell_ewma d e pol) = (d, e) # rest"
    using pq al same by (simp_all add: rest_def)
  obtain xs where xs: "smartlist_pqueue_pop (item_cmp ops) item_set (ewma_items pol) = Some (item_set (- 1) (deref pol d), xs)"
      "add_mset (item_strip (deref pol d)) (image_mset item_strip (mset xs)) = image_mset item_strip (mset (ewma_items pol))"
    using item.pop_items [OF ewma_wf_idx [OF wf], of "item_cmp ops"] pq by auto
  have inv: "fair.heap_invar xs"
    using fair.pqueue_pop_invar [of "ewma_items pol" ops] xs(1) ord len linear_ops [OF l]
    by (simp add: ordered_invar [OF l] INT32_MAX_def)
  have pol': "pol' = put_cell_ewma d (e\<lparr>heap_index := - 1\<rparr>) (store_items xs (put_cell_ewma d e pol))"
    using p pop_rest [OF xs(1) [unfolded it(1)], of "(d, e)"] it(2) by (simp add: pop_first_cell_ewma_def)
  have "image_mset item_strip (mset xs) = image_mset item_strip (mset rest)" using xs(2) it(1) by simp
  then have m: "mset (map fst xs) = mset ds" using map_strip_fst [of xs rest] by (simp add: rest_def)
  then have dx: "distinct (map fst xs)" and sx: "set (map fst xs) = set ds"
    using dist by (metis distinct.simps(2) mset_eq_imp_distinct_iff, metis set_mset_mset)
  have dn: "d \<notin> fst ` set xs" using sx dist by auto
  have "\<forall>d' \<in> fst ` set xs. circ_datas (put_cell_ewma d (e\<lparr>heap_index := - 1\<rparr>) (put_cell_ewma d e pol)) d' \<noteq> None"
    using sx wf pq by (auto simp: ewma_wf_def)
  then have "ewma_items pol' = xs" unfolding pol' put_store_commute [OF dn] by (rule stored_items [OF dx])
  then show ?thesis using inv by (simp add: ordered_invar [OF l])
qed

text \<open>Scaling by a factor that respects the order.\<close>

lemma scale_keeps_order:
  fixes ops :: "('d :: linorder) double_ops"
  assumes l: "d_less ops = (<)" and wf: "ewma_wf pol" and ord: "ewma_ordered ops pol"
    and mono: "\<And>x y t. x \<le> y \<Longrightarrow> d_mult ops x (d_pow ops (ewma_scale_factor g) t) \<le> d_mult ops y (d_pow ops (ewma_scale_factor g) t)"
    and s: "scale_active_circuits ops g pol t = Some pol'"
  shows "ewma_ordered ops pol'"
proof -
  define f where "f = get_scale_factor ops g (last_recalibrated pol) t"
  have f: "x \<le> y \<Longrightarrow> d_mult ops x f \<le> d_mult ops y f" for x y by (simp add: f_def get_scale_factor_def mono)
  have p: "ewma_wf pol'" "active_circuit_pqueue pol' = active_circuit_pqueue pol"
    "\<forall>d \<in> set (active_circuit_pqueue pol). snd (deref pol' d) = rescaled ops f t (snd (deref pol d))"
    using scale_active_circuits_ok [OF wf, of ops g t] s by (auto simp: f_def)
  then have "map (\<lambda>x. ewma_cell_count (snd x)) (ewma_items pol') =
      map (\<lambda>k. d_mult ops k f) (map (\<lambda>x. ewma_cell_count (snd x)) (ewma_items pol))" by simp
  moreover have "heap_ordered (map (\<lambda>k. d_mult ops k f) ks)" if "heap_ordered ks" for ks
    using that f by (auto simp: heap_ordered_def PARENT_def)
  moreover have "heap_ordered (map (\<lambda>x. ewma_cell_count (snd x)) (ewma_items pol))"
    using ord by (simp add: ordered_invar [OF l] fair.heap_invar_def)
  ultimately have "heap_ordered (map (\<lambda>x. ewma_cell_count (snd x)) (ewma_items pol'))" by metis
  then show ?thesis using ewma_wf_idx [OF p(1)] by (simp add: ordered_invar [OF l] fair.heap_invar_def)
qed

section \<open>Fair service\<close>

lemma tick_scale_factor:
  "cell_ewma_get_current_tick_and_fraction ops rnd g = (t, fr, g') \<Longrightarrow> ewma_scale_factor g' = ewma_scale_factor g"
  by (auto simp: cell_ewma_get_current_tick_and_fraction_def cell_ewma_initialize_ticks_def Let_def split: if_splits)

lemma xmit_keeps_order:
  fixes ops :: "('d :: linorder) double_ops"
  assumes l: "d_less ops = (<)" and wf: "ewma_wf pol" and ord: "ewma_ordered ops pol" and pq: "active_circuit_pqueue pol = d # ds"
    and len: "int (length (active_circuit_pqueue pol)) \<le> INT32_MAX"
    and mono: "\<And>x y t. x \<le> y \<Longrightarrow> d_mult ops x (d_pow ops (ewma_scale_factor g) t) \<le> d_mult ops y (d_pow ops (ewma_scale_factor g) t)"
    and x: "ewma_notify_xmit_cells ops rnd (g, Some pol) c (Some d) n = Some (g', Some pol')"
  shows "ewma_ordered ops pol'"
proof -
  obtain t fr h where tick: "cell_ewma_get_current_tick_and_fraction ops rnd g = (t, fr, h)" by (metis prod_cases3)
  obtain p1 cd p3 where p1: "(if t \<noteq> last_recalibrated pol then scale_active_circuits ops h pol t else Some pol) = Some p1"
    and cd: "circ_datas p1 d = Some cd"
    and p3: "pop_first_cell_ewma ops (put_cell_ewma d ((cell_ewma cd)\<lparr>ewma_cell_count := d_add ops (ewma_cell_count (cell_ewma cd))
        (d_mult ops (d_of_int ops (uint n)) (d_pow ops (ewma_scale_factor h) (d_neg ops fr)))\<rparr>) p1) = Some (d, p3)"
    and p4: "add_cell_ewma ops h p3 d = Some pol'"
    using x tick by (auto simp: ewma_notify_xmit_cells_def Let_def bind_eq_Some_iff tor_assert_def split: if_splits)
  have w1: "ewma_wf p1 \<and> ewma_ordered ops p1 \<and> active_circuit_pqueue p1 = d # ds"
    using p1 wf ord pq scale_active_circuits_ok [OF wf, of ops h t] scale_keeps_order [OF l wf ord, of h t p1] mono tick_scale_factor [OF tick]
    by (auto split: if_splits)
  define e where "e = (cell_ewma cd)\<lparr>ewma_cell_count := d_add ops (ewma_cell_count (cell_ewma cd))
        (d_mult ops (d_of_int ops (uint n)) (d_pow ops (ewma_scale_factor h) (d_neg ops fr)))\<rparr>"
  have e: "heap_index e = heap_index (snd (deref p1 d))" "last_adjusted_tick e = last_adjusted_tick (snd (deref p1 d))"
    by (simp_all add: e_def snd_deref [OF cd])
  have wf2: "ewma_wf (put_cell_ewma d e p1)" by (rule ewma_wf_put) (use w1 cd e in auto)
  have o3: "ewma_ordered ops p3"
    by (rule pop_keeps_order [OF l, of p1 d ds e]) (use w1 len pq e p3 in \<open>simp_all add: e_def\<close>)
  have "\<exists>q. pop_first_cell_ewma ops (put_cell_ewma d e p1) = Some (d, q) \<and> ewma_wf q \<and>
      ewma_owner q = ewma_owner (put_cell_ewma d e p1) \<and> ewma_act q = ewma_act (put_cell_ewma d e p1) - {d}"
    using pop_first_cell_ewma_ok [OF wf2, of d ds ops] w1 by auto
  then have w3: "ewma_wf p3" "ewma_owner p3 d \<noteq> None" "d \<notin> ewma_act p3"
    using p3 cd by (auto simp: e_def [symmetric] ewma_owner_def)
  show ?thesis by (rule add_keeps_order [OF l w3(1) o3 w3(2,3) p4])
qed

section \<open>A queue of seven circuits\<close>

text \<open>Seven active circuits with the counts 1, 10, 2, 11, 12, 3 and 4, in the order of the queue.\<close>

definition int_ops :: "int double_ops" where
  "int_ops = \<lparr>d_less = (<), d_leq = (\<le>), d_add = (+), d_mult = (*), d_div = (div), d_neg = uminus,
     d_pow = (\<lambda>x y. 1), d_exp = (\<lambda>x. 1), d_of_int = (\<lambda>x. x)\<rparr>"

definition seven_data :: "nat \<Rightarrow> int ewma_policy_circ_data_t option" where
  "seven_data = map_of (map (\<lambda>(d, c). (d, \<lparr>cell_ewma = \<lparr>last_adjusted_tick = 0, ewma_cell_count = c, is_for_p_chan = False,
     heap_index = int d\<rparr>, cd_circ = d + 100\<rparr>)) [(0, 1), (1, 10), (2, 2), (3, 11), (4, 12), (5, 3), (6, 4)])"

definition seven :: "int ewma_policy_data_t" where
  "seven = \<lparr>active_circuit_pqueue = [0, 1, 2, 3, 4, 5, 6], last_recalibrated = 0, circ_datas = seven_data, next_addr = 7\<rparr>"

definition seven_g :: "int ewma_globals" where
  "seven_g = \<lparr>ewma_tick_len = 10, ewma_scale_factor = 1, ewma_ticks_initialized = True, start_of_current_tick = 0,
     current_tick_num = 0, clock = 0\<rparr>"

lemma seven_simps: "active_circuit_pqueue seven = [0, 1, 2, 3, 4, 5, 6]" "last_recalibrated seven = 0" "circ_datas seven = seven_data"
    "next_addr seven = 7"
  by (simp_all add: seven_def)

lemma seven_items: "ewma_items seven = map (\<lambda>(d, c). (d, \<lparr>last_adjusted_tick = 0, ewma_cell_count = c, is_for_p_chan = False,
    heap_index = int d\<rparr>)) [(0, 1), (1, 10), (2, 2), (3, 11), (4, 12), (5, 3), (6, 4)]"
  by (simp add: seven_simps seven_data_def deref_def)

lemma seven_ordered: "ewma_ordered int_ops seven"
  unfolding ewma_ordered_def seven_items
  by (simp add: smartlist_pqueue_assert_ok_def PARENT_def upt_rec compare_cell_ewma_counts_def int_ops_def)

lemma seven_wf: "ewma_wf seven"
proof -
  have "\<forall>i < 7. [0, 1, 2, 3, 4, 5, 6 :: nat] ! i = i" by (simp add: All_less_Suc numeral_eq_Suc)
  then have "heap_index (snd (deref seven (active_circuit_pqueue seven ! i))) = int i" if "i < 7" for i
    using that by (auto simp: seven_simps seven_data_def deref_def)
  then show ?thesis by (auto simp: ewma_wf_def seven_simps) (auto simp: seven_simps deref_def seven_data_def split: if_splits)
qed

section \<open>The theorems\<close>

text \<open>
  C14: Fair service as long as the priority queue is in heap order (\<^term>\<open>ewma_ordered\<close>): when it is, and the
  counts of cells are numbers that are compared as a linear order, and the scale factor respects that
  order, the policy picks an active circuit with the least recent traffic, and reporting the cells
  that were sent for it succeeds and keeps the heap order, so that the next pick is again one with
  the least traffic.  Serving circuits keeps the heap order; a circuit that becomes inactive can
  destroy it, as the theorem at the end of this theory shows.
\<close>

theorem ewma_serves_least:
  fixes ops :: "('d :: linorder) double_ops"
  assumes l: "d_less ops = (<)"
    and mono: "\<forall>x y t. x \<le> y \<longrightarrow> d_mult ops x (d_pow ops (ewma_scale_factor g) t) \<le> d_mult ops y (d_pow ops (ewma_scale_factor g) t)"
    and wf: "ewma_wf pol" "ewma_good g" and ord: "ewma_ordered ops pol"
    and len: "int (length (active_circuit_pqueue pol)) \<le> INT32_MAX" and act: "active_circuit_pqueue pol \<noteq> []" and n: "0 < n"
  shows "\<exists>d a g' pol'. ewma_pick_active_circuit (g, Some pol) = Some (Some a) \<and> ewma_owner pol d = Some a \<and> d \<in> ewma_act pol \<and>
    (\<forall>d' \<in> ewma_act pol. ewma_count pol d \<le> ewma_count pol d') \<and>
    ewma_notify_xmit_cells ops rnd (g, Some pol) a (Some d) n = Some (g', Some pol') \<and>
    ewma_ordered ops pol' \<and> ewma_wf pol' \<and> ewma_act pol' = ewma_act pol"
proof -
  obtain d ds where pq: "active_circuit_pqueue pol = d # ds" using act by (cases "active_circuit_pqueue pol") auto
  then have f: "ewma_first pol = Some d" by (simp add: ewma_first_def)
  obtain cd where cd: "circ_datas pol d = Some cd" using wf pq by (auto simp: ewma_wf_def)
  obtain g' pol' where x: "ewma_notify_xmit_cells ops rnd (g, Some pol) (cd_circ cd) (Some d) n = Some (g', Some pol')"
    "ewma_wf pol'" "ewma_act pol' = ewma_act pol"
    using ewma_notify_xmit_cells_ok [OF wf f n] by blast
  have "ewma_count pol d \<le> ewma_count pol d'" if "d' \<in> ewma_act pol" for d'
    using fair.heap_hd_least [of "ewma_items pol" "deref pol d'"] ord that pq by (auto simp: ordered_invar [OF l] ewma_act_def)
  moreover have "ewma_ordered ops pol'" by (rule xmit_keeps_order [OF l wf(1) ord pq len _ x(1)]) (use mono in auto)
  moreover have "ewma_pick_active_circuit (g, Some pol) = Some (Some (cd_circ cd))" "ewma_owner pol d = Some (cd_circ cd)" "d \<in> ewma_act pol"
    using pq cd by (simp_all add: ewma_pick_active_circuit_def cell_ewma_to_circuit_def ewma_owner_def ewma_act_def)
  ultimately show ?thesis using x by blast
qed

theorem ewma_serves_least_witness:
  "\<exists>d a g' pol'. ewma_pick_active_circuit (seven_g, Some seven) = Some (Some a) \<and> (\<forall>d' \<in> ewma_act seven. ewma_count seven d \<le> ewma_count seven d') \<and>
     ewma_notify_xmit_cells int_ops 0 (seven_g, Some seven) a (Some d) 1 = Some (g', Some pol') \<and> ewma_ordered int_ops pol'"
proof -
  have "d_less int_ops = (<)" "ewma_good seven_g" "int (length (active_circuit_pqueue seven)) \<le> INT32_MAX" "active_circuit_pqueue seven \<noteq> []"
    "\<forall>x y t. x \<le> y \<longrightarrow> d_mult int_ops x (d_pow int_ops (ewma_scale_factor seven_g) t) \<le> d_mult int_ops y (d_pow int_ops (ewma_scale_factor seven_g) t)"
    by (simp_all add: int_ops_def seven_g_def ewma_good_def seven_def INT32_MAX_def)
  from ewma_serves_least [OF this(1,5) seven_wf this(2) seven_ordered this(3,4), of 1 0] show ?thesis by (simp del: split_paired_Ex) blast
qed

text \<open>
  When a circuit has no more cells it is taken out of the queue, in general from the middle, and
  \<^verbatim>\<open>smartlist_pqueue_remove\<close> puts the last item into the hole and only sifts it down.  Here the circuit
  with count 11 leaves, and the one with count 4 comes to stand below the one with count 10: once the
  circuits with counts 1, 2 and 3 have been served beyond 10, that one is served before the one with
  count 4.  No assertion notices; the counts are served in order again only after later operations
  happen to repair the queue.
\<close>

theorem ewma_inactive_loses_order:
  "ewma_wf seven \<and> ewma_ordered int_ops seven \<and>
   (\<exists>pol. ewma_notify_circ_inactive int_ops (seven_g, Some seven) 103 (Some 3) = Some (seven_g, Some pol) \<and> ewma_wf pol \<and>
     \<not> ewma_ordered int_ops pol)"
proof -
  have "deref seven 3 = (3, \<lparr>last_adjusted_tick = 0, ewma_cell_count = 11, is_for_p_chan = False, heap_index = 3\<rparr>)"
    by (simp add: seven_simps seven_data_def deref_def)
  then have "smartlist_pqueue_remove (item_cmp int_ops) item_get item_set (ewma_items seven) (deref seven 3) =
     Some (map (\<lambda>(d, i, c). (d, \<lparr>last_adjusted_tick = 0, ewma_cell_count = c, is_for_p_chan = False, heap_index = i\<rparr>))
       [(0, 0, 1), (1, 1, 10), (2, 2, 2), (6, 3, 4), (4, 4, 12), (5, 5, 3)])"
    unfolding seven_items
    by (simp add: smartlist_pqueue_remove_def smartlist_heapify.simps UPDATE_IDX_def IDX_MAY_HAVE_CHILDREN_def LEFT_CHILD_def
        best_child_def Let_def compare_cell_ewma_counts_def int_ops_def)
  then have "map_option (ewma_ordered int_ops) (remove_cell_ewma int_ops seven 3) = Some False"
    by (simp add: remove_cell_ewma_def seven_simps(3) seven_data_def ewma_ordered_def smartlist_pqueue_assert_ok_def PARENT_def upt_rec
        compare_cell_ewma_counts_def int_ops_def deref_def store_items_def put_cell_ewma_def)
  moreover obtain pol where "remove_cell_ewma int_ops seven 3 = Some pol" "ewma_wf pol"
    using remove_cell_ewma_ok [OF seven_wf, of 3 int_ops] by (auto simp: ewma_act_def seven_simps)
  ultimately show ?thesis using seven_wf seven_ordered by (simp add: ewma_notify_circ_inactive_def)
qed

end
