(* ===== verification/ChannelFlush.thy ===== *)
theory ChannelFlush
  imports CircuitMuxEwma
begin

text \<open>
  The way of a cell through a channel: \<^verbatim>\<open>append_cell_to_circuit_queue\<close> of \<^verbatim>\<open>relay.c\<close> puts it into the
  queue of its circuit and tells the multiplexer, \<^verbatim>\<open>channel_flush_from_first_active_circuit\<close> takes cells
  from the queues in the order the multiplexer chooses and writes them to the channel, and
  \<^verbatim>\<open>channel_send_destroy\<close> of \<^verbatim>\<open>channel.c\<close> queues DESTROY cells beside them.

  The state is one channel with its multiplexer, the circuits by address, the table
  \<^verbatim>\<open>chan_circid_map\<close> of \<^verbatim>\<open>circuitlist.c\<close> that finds the circuit of a (channel, circuit id) pair, the
  streams of each circuit, and the program-wide counters.  The lower layer of the channel (the TLS
  connection) is a parameter: it accepts a cell or fails.  Calls into the parts of the program that are
  not part of this state (the scheduler, the DoS defence, the pending DESTROYs of \<^verbatim>\<open>circuitlist.c\<close>, the
  closing of circuits and of the lower layer) are recorded in the order they are made.  Statistics
  (\<^verbatim>\<open>CellStatistics\<close>, the directory-request states, padding counts), the time stamps of a
  transmission and logging are left out.
\<close>

section \<open>State\<close>

datatype channel_state_t =
  CHANNEL_STATE_CLOSED | CHANNEL_STATE_OPENING | CHANNEL_STATE_OPEN | CHANNEL_STATE_MAINT |
  CHANNEL_STATE_CLOSING | CHANNEL_STATE_ERROR

text \<open>\<open>ch_out\<close> is what the lower layer has been given.\<close>

record 'd channel_t =
  global_identifier :: u64
  ch_state :: channel_state_t
  wide_circ_ids :: bool
  cmux :: "'d ewma_policy_data_t circuitmux_t"
  n_cells_xmitted :: u64
  n_bytes_xmitted :: u64
  ch_out :: "u8 list list"

record mux_edge =
  me_stream_id :: u16
  me_read_event :: bool
  me_xoff_received :: bool
  me_marked_for_close :: bool
  me_reading :: bool

datatype relay_call =
    Call_channel_close
  | Call_channel_note_destroy_pending u32
  | Call_channel_note_destroy_not_pending u32
  | Call_circuit_mark_for_close nat
  | Call_dos_note_circ_max_outq "u64 option"
  | Call_scheduler_channel_has_waiting_cells u64

record 'd relay_world =
  chan :: "'d channel_t"
  circs :: "nat \<Rightarrow> mux_circuit_t option"
  chan_circid_map :: "chanid_circid \<Rightarrow> nat option"
  edge_streams :: "nat \<Rightarrow> mux_edge list"
  ewma_g :: "'d ewma_globals"
  total_cells_allocated :: u64
  global_destroy_ctr :: int
  max_circuit_cell_queue_size :: int
  max_circuit_cell_queue_size_out :: int
  stats_n_circ_max_cell_reached :: u64
  stats_n_circ_max_cell_outq_reached :: u64
  calls :: "relay_call list"

text \<open>
  What the code asks the rest of the program: the arithmetic of doubles and a random number for the
  policy, whether the lower layer takes a cell and whether it has queued writes, the two watermarks of
  the congestion control, whether a circuit is part of a conflux set and the set can send, and the
  coarse time stamp.
\<close>

record 'd relay_env =
  fe_ops :: "'d double_ops"
  fe_rnd :: u32
  fe_write :: "'d channel_t \<Rightarrow> u8 list \<Rightarrow> bool"
  fe_queued_writes :: "'d channel_t \<Rightarrow> bool"
  cell_queue_highwatermark :: int
  cell_queue_lowwatermark :: int
  fe_conflux_can_send :: "nat \<Rightarrow> bool option"
  fe_stamp :: u32

abbreviation "mux_policy env \<equiv> ewma_policy (fe_ops env) (fe_rnd env)"

abbreviation mux_of :: "'d relay_world \<Rightarrow> ('d ewma_globals, 'd ewma_policy_data_t) mux_state" where
  "mux_of w \<equiv> (ewma_g w, cmux (chan w))"

definition set_mux :: "('d ewma_globals, 'd ewma_policy_data_t) mux_state \<Rightarrow> 'd relay_world \<Rightarrow> 'd relay_world" where
  "set_mux s w = w\<lparr>ewma_g := fst s, chan := (chan w)\<lparr>cmux := snd s\<rparr>\<rparr>"

definition set_circ :: "nat \<Rightarrow> mux_circuit_t \<Rightarrow> 'd relay_world \<Rightarrow> 'd relay_world" where
  "set_circ a c w = w\<lparr>circs := (circs w)(a \<mapsto> c)\<rparr>"

definition note_call :: "relay_call \<Rightarrow> 'd relay_world \<Rightarrow> 'd relay_world" where
  "note_call c w = w\<lparr>calls := calls w @ [c]\<rparr>"

section \<open>Channels\<close>

definition CHANNEL_CONDEMNED :: "'d channel_t \<Rightarrow> bool" where
  "CHANNEL_CONDEMNED ch = (ch_state ch \<in> {CHANNEL_STATE_CLOSING, CHANNEL_STATE_CLOSED, CHANNEL_STATE_ERROR})"

definition CHANNEL_CAN_HANDLE_CELLS :: "'d channel_t \<Rightarrow> bool" where
  "CHANNEL_CAN_HANDLE_CELLS ch = (ch_state ch \<in> {CHANNEL_STATE_OPENING, CHANNEL_STATE_OPEN, CHANNEL_STATE_MAINT})"

definition channel_mark_for_close :: "'d relay_world \<Rightarrow> 'd relay_world" where
  "channel_mark_for_close w =
     (if CHANNEL_CONDEMNED (chan w) then w
      else note_call Call_channel_close (w\<lparr>chan := (chan w)\<lparr>ch_state := CHANNEL_STATE_CLOSING\<rparr>\<rparr>))"

definition packed_cell_is_destroy :: "'d channel_t \<Rightarrow> u8 list \<Rightarrow> u32 option" where
  "packed_cell_is_destroy ch cell =
     (if wide_circ_ids ch
      then if cell ! 4 = CELL_DESTROY then Some (of_nat (be_decode (take 4 cell))) else None
      else if cell ! 2 = CELL_DESTROY then Some (of_nat (be_decode (take 2 cell))) else None)"

text \<open>The size of a cell on the network: 514 bytes with wide circuit ids, 512 without.\<close>

definition get_cell_network_size :: "bool \<Rightarrow> u64" where
  "get_cell_network_size wide = (if wide then 514 else 512)"

definition write_packed_cell :: "'d relay_env \<Rightarrow> 'd relay_world \<Rightarrow> u8 list \<Rightarrow> (bool \<times> 'd relay_world) option" where
  "write_packed_cell env w cell =
     do { tor_assert (CHANNEL_CAN_HANDLE_CELLS (chan w));
          let w = (case packed_cell_is_destroy (chan w) cell of None \<Rightarrow> w
                   | Some circ_id \<Rightarrow> note_call (Call_channel_note_destroy_not_pending circ_id) w);
          let cell_bytes = get_cell_network_size (wide_circ_ids (chan w));
          if ch_state (chan w) \<noteq> CHANNEL_STATE_OPEN then Some (False, w)
          else if \<not> fe_write env (chan w) cell then Some (False, w)
          else Some (True, w\<lparr>chan := (chan w)\<lparr>n_cells_xmitted := n_cells_xmitted (chan w) + 1,
                                               n_bytes_xmitted := n_bytes_xmitted (chan w) + cell_bytes,
                                               ch_out := ch_out (chan w) @ [cell]\<rparr>\<rparr>) }"

text \<open>The cell is freed in any case, so the count of allocated cells drops by one.\<close>

definition channel_write_packed_cell :: "'d relay_env \<Rightarrow> 'd relay_world \<Rightarrow> u8 list \<Rightarrow> (bool \<times> 'd relay_world) option" where
  "channel_write_packed_cell env w cell =
     do { (ok, w) \<leftarrow> (if ch_state (chan w) = CHANNEL_STATE_CLOSING then Some (False, w) else write_packed_cell env w cell);
          Some (ok, w\<lparr>total_cells_allocated := total_cells_allocated w - 1\<rparr>) }"

section \<open>Blocking streams\<close>

text \<open>Reading from the edge streams of a circuit stops or starts; \<open>0\<close> stands for all streams.\<close>

definition block_edge :: "bool \<Rightarrow> u16 \<Rightarrow> mux_edge \<Rightarrow> mux_edge" where
  "block_edge block stream_id edge =
     (if stream_id \<noteq> 0 \<and> me_stream_id edge \<noteq> stream_id then edge
      else if \<not> me_read_event edge \<or> me_xoff_received edge \<or> me_marked_for_close edge then edge
      else edge\<lparr>me_reading := \<not> block\<rparr>)"

definition set_block_state_for_streams :: "'d relay_env \<Rightarrow> nat \<Rightarrow> bool \<Rightarrow> u16 \<Rightarrow> 'd relay_world \<Rightarrow> 'd relay_world" where
  "set_block_state_for_streams env a block stream_id w =
     (let skip = (case fe_conflux_can_send env a of None \<Rightarrow> False | Some can_send \<Rightarrow> block = can_send)
      in if skip then w
         else w\<lparr>edge_streams := (edge_streams w)(a := map (block_edge block stream_id) (edge_streams w a))\<rparr>)"

text \<open>
  The stream list of a circuit is that of an origin circuit towards \<^verbatim>\<open>n_chan\<close>, or that of an
  \<^verbatim>\<open>or_circuit_t\<close> towards \<^verbatim>\<open>p_chan\<close>; the other combinations have no streams.
\<close>

definition set_circuit_blocked_on_chan :: "'d relay_env \<Rightarrow> nat \<Rightarrow> bool \<Rightarrow> 'd relay_world \<Rightarrow> 'd relay_world option" where
  "set_circuit_blocked_on_chan env a block w =
     do { c \<leftarrow> circs w a;
          if n_chan c = Some (global_identifier (chan w))
          then let w = set_circ a (c\<lparr>circuit_blocked_on_n_chan := block\<rparr>) w
               in Some (if or_magic c then w else set_block_state_for_streams env a block 0 w)
          else do { let w = set_circ a (c\<lparr>circuit_blocked_on_p_chan := block\<rparr>) w;
                    tor_assert (or_magic c);
                    Some (set_block_state_for_streams env a block 0 w) } }"

section \<open>Flushing\<close>

text \<open>The queue of a circuit towards the channel, and the circuit with that queue changed.\<close>

definition chan_queue :: "u64 \<Rightarrow> mux_circuit_t \<Rightarrow> (cell_queue_t \<times> bool) option" where
  "chan_queue ch c =
     (if n_chan c = Some ch then Some (n_chan_cells c, circuit_blocked_on_n_chan c)
      else do { tor_assert (or_magic c);
                tor_assert (p_chan c = Some ch);
                Some (p_chan_cells c, circuit_blocked_on_p_chan c) })"

definition put_queue :: "u64 \<Rightarrow> cell_queue_t \<Rightarrow> mux_circuit_t \<Rightarrow> mux_circuit_t" where
  "put_queue ch q c = (if n_chan c = Some ch then c\<lparr>n_chan_cells := q\<rparr> else c\<lparr>p_chan_cells := q\<rparr>)"

text \<open>
  One turn of the loop: \<^term>\<open>Some None\<close> is the \<^verbatim>\<open>break\<close>, otherwise the number of cells flushed in this
  turn (one or none) and the new state.
\<close>

definition flush_destroy :: "'d relay_env \<Rightarrow> 'd relay_world \<Rightarrow> (int \<times> 'd relay_world) option" where
  "flush_destroy env w =
     do { let mux = cmux (chan w);
          tor_assert (dq_n (destroy_cell_queue mux) > 0);
          let (dcell, queue) = destroy_cell_queue_pop (destroy_cell_queue mux);
          let w = set_mux (ewma_g w, mux\<lparr>destroy_cell_queue := queue\<rparr>) w;
          dcell \<leftarrow> dcell;
          let cell = destroy_cell_to_packed_cell (dc_circid dcell) (dc_reason dcell) (wide_circ_ids (chan w));
          (ok, w) \<leftarrow> channel_write_packed_cell env (w\<lparr>total_cells_allocated := total_cells_allocated w + 1\<rparr>) cell;
          if \<not> ok then Some (0, channel_mark_for_close w)
          else let (ctr, mux) = circuitmux_notify_xmit_destroy (global_destroy_ctr w) (cmux (chan w))
               in Some (1, set_mux (ewma_g w, mux) (w\<lparr>global_destroy_ctr := ctr\<rparr>)) }"

definition flush_circuit :: "'d relay_env \<Rightarrow> nat \<Rightarrow> 'd relay_world \<Rightarrow> (int \<times> 'd relay_world) option" where
  "flush_circuit env a w =
     do { c \<leftarrow> circs w a;
          let ch = global_identifier (chan w);
          (queue, circ_blocked) \<leftarrow> chan_queue ch c;
          if cq_n queue = 0
          then do { s \<leftarrow> circuitmux_set_num_cells (mux_policy env) (mux_of w) c 0;
                    let w = set_mux s w;
                    Some (0, if mc_marked_for_close c then w
                             else note_call (Call_circuit_mark_for_close a) (set_circ a (c\<lparr>mc_marked_for_close := True\<rparr>) w)) }
          else do { tor_assert (cq_n queue > 0);
                    let (cell, queue) = cell_queue_pop queue;
                    cell \<leftarrow> cell;
                    let c = put_queue ch queue c;
                    let w = set_circ a c w;
                    (ok, w) \<leftarrow> channel_write_packed_cell env w (body cell);
                    if \<not> ok then Some (0, channel_mark_for_close w)
                    else do { s \<leftarrow> circuitmux_notify_xmit_cells (mux_policy env) (mux_of w) c 1;
                              s \<leftarrow> circuitmux_set_num_cells (mux_policy env) s c (of_int (cq_n queue));
                              let w = set_mux s w;
                              w \<leftarrow> (if circ_blocked \<and> cq_n queue \<le> cell_queue_lowwatermark env
                                    then set_circuit_blocked_on_chan env a False w else Some w);
                              Some (1, w) } } }"

definition flush_turn :: "'d relay_env \<Rightarrow> 'd relay_world \<Rightarrow> (int \<times> 'd relay_world) option option" where
  "flush_turn env w =
     do { (choice, mux) \<leftarrow> circuitmux_get_first_active_circuit (mux_policy env) (mux_of w);
          let w = set_mux (ewma_g w, mux) w;
          case choice of
            Send_destroy \<Rightarrow> map_option Some (flush_destroy env w)
          | Send_circuit None \<Rightarrow> Some None
          | Send_circuit (Some a) \<Rightarrow> map_option Some (flush_circuit env a w) }"

text \<open>The loop, with a bound on the number of turns; running out of turns is \<^term>\<open>None\<close>.\<close>

fun flush_loop :: "'d relay_env \<Rightarrow> nat \<Rightarrow> int \<Rightarrow> int \<Rightarrow> 'd relay_world \<Rightarrow> (int \<times> 'd relay_world) option" where
  "flush_loop env 0 maxc n_flushed w = None"
| "flush_loop env (Suc fuel) maxc n_flushed w =
     (if n_flushed < maxc
      then do { r \<leftarrow> flush_turn env w;
                case r of
                  None \<Rightarrow> Some (n_flushed, w)
                | Some (k, w) \<Rightarrow> flush_loop env fuel maxc (n_flushed + k) w }
      else Some (n_flushed, w))"

text \<open>Every turn takes a cell out of a queue or lowers the multiplexer's counts, so twice the number of
  cells the multiplexer knows of, and the DESTROY cells, bound the turns.\<close>

definition flush_fuel :: "'d relay_world \<Rightarrow> nat" where
  "flush_fuel w =
     Suc (2 * total_cells (chanid_circid_map (cmux (chan w))) + length (dq_head (destroy_cell_queue (cmux (chan w)))))"

definition channel_flush_from_first_active_circuit ::
  "'d relay_env \<Rightarrow> 'd relay_world \<Rightarrow> int \<Rightarrow> (int \<times> 'd relay_world) option" where
  "channel_flush_from_first_active_circuit env w maxc = flush_loop env (flush_fuel w) maxc 0 w"

abbreviation "MAX_CELLS_TO_GET_FROM_CIRCUITS_FOR_UNLIMITED \<equiv> 256 :: int"

definition channel_flush_some_cells :: "'d relay_env \<Rightarrow> 'd relay_world \<Rightarrow> int \<Rightarrow> (int \<times> 'd relay_world) option" where
  "channel_flush_some_cells env w num_cells =
     (let unlimited = (num_cells < 0)
      in if \<not> unlimited \<and> num_cells \<le> 0 then Some (0, w)
         else if ch_state (chan w) = CHANNEL_STATE_OPEN \<and> circuitmux_num_cells (cmux (chan w)) > 0
         then channel_flush_from_first_active_circuit env w
                (if unlimited then MAX_CELLS_TO_GET_FROM_CIRCUITS_FOR_UNLIMITED
                 else if num_cells > MAX_CELLS_TO_GET_FROM_CIRCUITS_FOR_UNLIMITED
                 then MAX_CELLS_TO_GET_FROM_CIRCUITS_FOR_UNLIMITED else num_cells)
         else Some (0, w))"

definition channel_more_to_flush :: "'d relay_world \<Rightarrow> bool" where
  "channel_more_to_flush w = (circuitmux_num_cells (cmux (chan w)) > 0)"

section \<open>Queueing\<close>

definition update_circuit_on_cmux :: "'d relay_env \<Rightarrow> nat \<Rightarrow> cell_direction_t \<Rightarrow> 'd relay_world \<Rightarrow> 'd relay_world option" where
  "update_circuit_on_cmux env a direction w =
     do { c \<leftarrow> circs w a;
          (ch, cnt, id) \<leftarrow> circ_direction c direction;
          tor_assert (ch = Some (global_identifier (chan w)));
          attached \<leftarrow> circuitmux_is_circuit_attached (cmux (chan w)) c;
          if \<not> attached then Some w
          else do { dir \<leftarrow> circuitmux_attached_circuit_direction (cmux (chan w)) c;
                    tor_assert (dir = direction);
                    s \<leftarrow> circuitmux_set_num_cells (mux_policy env) (mux_of w) c cnt;
                    Some (set_mux s w) } }"

text \<open>
  \<open>oom\<close> is \<^verbatim>\<open>cell_queues_check_size\<close>: it may run the handler for memory pressure, which changes the
  state, and says whether it did.  The result is the return value \<open>1\<close>, \<open>0\<close> or \<open>-1\<close> and the state.
\<close>

definition append_cell_to_circuit_queue ::
  "'d relay_env \<Rightarrow> ('d relay_world \<Rightarrow> bool \<times> 'd relay_world) \<Rightarrow> nat \<Rightarrow> cell_t \<Rightarrow> cell_direction_t \<Rightarrow> u16 \<Rightarrow> 'd relay_world \<Rightarrow>
   (int \<times> 'd relay_world) option" where
  "append_cell_to_circuit_queue env oom a cell direction fromstream w =
     do { c \<leftarrow> circs w a;
          if mc_marked_for_close c then Some (0, w)
          else do {
            (queue, circ_blocked, max_queue_size, put) \<leftarrow>
              (case direction of
                 CELL_DIRECTION_OUT \<Rightarrow>
                   Some (n_chan_cells c, circuit_blocked_on_n_chan c, max_circuit_cell_queue_size_out w, (\<lambda>q c. c\<lparr>n_chan_cells := q\<rparr>))
               | CELL_DIRECTION_IN \<Rightarrow>
                   do { tor_assert (or_magic c);
                        Some (p_chan_cells c, circuit_blocked_on_p_chan c, max_circuit_cell_queue_size w, (\<lambda>q c. c\<lparr>p_chan_cells := q\<rparr>)) });
            if cq_n queue \<ge> max_queue_size
            then let w = (if direction = CELL_DIRECTION_OUT \<and> or_magic c
                          then note_call (Call_dos_note_circ_max_outq (p_chan c))
                                 (w\<lparr>stats_n_circ_max_cell_outq_reached := stats_n_circ_max_cell_outq_reached w + 1\<rparr>)
                          else w)
                 in Some (- 1, w\<lparr>stats_n_circ_max_cell_reached := stats_n_circ_max_cell_reached w + 1\<rparr>)
            else do {
              let (queue, tot) = cell_queue_append_packed_copy (fe_stamp env) (total_cells_allocated w) queue cell (wide_circ_ids (chan w));
              let w = set_circ a (put queue c) (w\<lparr>total_cells_allocated := tot\<rparr>);
              let (ran, w) = oom w;
              c \<leftarrow> circs w a;
              if ran \<and> mc_marked_for_close c then Some (0, w)
              else do {
                let n = (case direction of CELL_DIRECTION_OUT \<Rightarrow> cq_n (n_chan_cells c) | CELL_DIRECTION_IN \<Rightarrow> cq_n (p_chan_cells c));
                w \<leftarrow> (if \<not> circ_blocked \<and> n \<ge> cell_queue_highwatermark env
                      then set_circuit_blocked_on_chan env a True w else Some w);
                let w = (if circ_blocked \<and> fromstream \<noteq> 0 \<and> (direction = CELL_DIRECTION_IN \<or> \<not> or_magic c)
                         then set_block_state_for_streams env a True fromstream w else w);
                w \<leftarrow> update_circuit_on_cmux env a direction w;
                Some (1, note_call (Call_scheduler_channel_has_waiting_cells (global_identifier (chan w))) w) } } } }"

definition circuit_clear_cell_queue :: "'d relay_env \<Rightarrow> nat \<Rightarrow> 'd relay_world \<Rightarrow> 'd relay_world option" where
  "circuit_clear_cell_queue env a w =
     do { c \<leftarrow> circs w a;
          let ch = global_identifier (chan w);
          (queue, b) \<leftarrow> chan_queue ch c;
          let direction = (if n_chan c = Some ch then CELL_DIRECTION_OUT else CELL_DIRECTION_IN);
          let (queue, tot) = cell_queue_clear (total_cells_allocated w) queue;
          let w = set_circ a (put_queue ch queue c) (w\<lparr>total_cells_allocated := tot\<rparr>);
          attached \<leftarrow> circuitmux_is_circuit_attached (cmux (chan w)) (put_queue ch queue c);
          if attached then update_circuit_on_cmux env a direction w else Some w }"

text \<open>\<^verbatim>\<open>circuitmux_append_destroy_cell\<close> flushes at once when the lower layer has nothing to write.\<close>

definition circuitmux_append_destroy_cell :: "'d relay_env \<Rightarrow> 'd relay_world \<Rightarrow> u32 \<Rightarrow> u8 \<Rightarrow> 'd relay_world option" where
  "circuitmux_append_destroy_cell env w circ_id reason =
     (let mux = cmux (chan w);
          mux = mux\<lparr>destroy_cell_queue := destroy_cell_queue_append (fe_stamp env) (destroy_cell_queue mux) circ_id reason,
                    destroy_ctr := destroy_ctr mux + 1\<rparr>;
          w = set_mux (ewma_g w, mux) (w\<lparr>global_destroy_ctr := global_destroy_ctr w + 1\<rparr>)
      in if \<not> fe_queued_writes env (chan w)
         then map_option snd (channel_flush_from_first_active_circuit env w 1)
         else Some w)"

text \<open>\<^verbatim>\<open>channel_send_destroy\<close> refuses the circuit id \<open>0\<close> and channels that are closing or closed.\<close>

definition channel_send_destroy :: "'d relay_env \<Rightarrow> u32 \<Rightarrow> 'd relay_world \<Rightarrow> u8 \<Rightarrow> 'd relay_world option" where
  "channel_send_destroy env circ_id w reason =
     (if circ_id = 0 then Some w
      else if \<not> CHANNEL_CONDEMNED (chan w) then circuitmux_append_destroy_cell env (note_call (Call_channel_note_destroy_pending circ_id) w) circ_id reason
      else Some w)"

section \<open>The maximum of a queue\<close>

abbreviation "RELAY_CIRC_CELL_QUEUE_SIZE_MIN \<equiv> 50 :: int"
abbreviation "RELAY_CIRC_CELL_QUEUE_SIZE_DEFAULT \<equiv> 2500 :: int"

definition get_param_max_circuit_cell_queue_size :: "networkstatus option \<Rightarrow> networkstatus option \<Rightarrow> int option" where
  "get_param_max_circuit_cell_queue_size latest ns =
     networkstatus_get_param latest ns ''circ_max_cell_queue_size'' RELAY_CIRC_CELL_QUEUE_SIZE_DEFAULT
       RELAY_CIRC_CELL_QUEUE_SIZE_MIN INT32_MAX"

definition get_param_max_circuit_cell_queue_size_out :: "networkstatus option \<Rightarrow> networkstatus option \<Rightarrow> int option" where
  "get_param_max_circuit_cell_queue_size_out latest ns =
     do { d \<leftarrow> get_param_max_circuit_cell_queue_size latest ns;
          networkstatus_get_param latest ns ''circ_max_cell_queue_size_out'' d RELAY_CIRC_CELL_QUEUE_SIZE_MIN INT32_MAX }"

definition relay_consensus_has_changed :: "networkstatus option \<Rightarrow> networkstatus \<Rightarrow> 'd relay_world \<Rightarrow> 'd relay_world option" where
  "relay_consensus_has_changed latest ns w =
     do { m \<leftarrow> get_param_max_circuit_cell_queue_size latest (Some ns);
          out \<leftarrow> get_param_max_circuit_cell_queue_size_out latest (Some ns);
          Some (w\<lparr>max_circuit_cell_queue_size := m, max_circuit_cell_queue_size_out := out\<rparr>) }"

end
