(* ===== verification/ChannelFlushInv.thy ===== *)
theory ChannelFlushInv
  imports ChannelFlush
begin

text \<open>
  Flushing is correct: the loop never reaches a failing assertion and ends, it sends no more cells than
  it may, and when the lower layer takes every cell it is an abstract scheduler that sends the head of
  some queue at every step and stops early only when all queues are empty.
\<close>

section \<open>The invariant of a channel\<close>

abbreviation "ch_of w \<equiv> global_identifier (chan w)"

definition queue_ok :: "cell_queue_t \<Rightarrow> bool" where
  "queue_ok q = (cq_n q = int (length (cq_head q)))"

text \<open>A circuit knows its address, counts its queues right, and is the one that the table of circuits
  finds for its id on the channel.\<close>

definition circ_ok :: "u64 \<Rightarrow> (chanid_circid \<Rightarrow> nat option) \<Rightarrow> nat \<Rightarrow> mux_circuit_t \<Rightarrow> bool" where
  "circ_ok ch cmap a c =
     (circ_addr c = a \<and> queue_ok (n_chan_cells c) \<and> queue_ok (p_chan_cells c) \<and>
      (n_chan c = Some ch \<longrightarrow> cmap (ch, n_circ_id c) = Some a) \<and>
      (or_magic c \<longrightarrow> p_chan c = Some ch \<longrightarrow> n_chan c \<noteq> Some ch \<longrightarrow> cmap (ch, p_circ_id c) = Some a))"

text \<open>The cells that wait on the circuit of a table entry.\<close>

definition key_queue :: "'d relay_world \<Rightarrow> chanid_circid \<Rightarrow> packed_cell_t list" where
  "key_queue w k =
     (case Option.bind (chan_circid_map w k) (circs w) of
        None \<Rightarrow> []
      | Some c \<Rightarrow> (case chan_queue (ch_of w) c of None \<Rightarrow> [] | Some (q, b) \<Rightarrow> cq_head q))"

definition world_ok :: "'d relay_world \<Rightarrow> bool" where
  "world_ok w =
     (mux_ok ewma_good ewma_wf ewma_act ewma_owner (circs w) (ch_of w) (mux_of w) \<and>
      (\<forall>a c. circs w a = Some c \<longrightarrow> circ_ok (ch_of w) (chan_circid_map w) a c) \<and>
      dq_n (destroy_cell_queue (cmux (chan w))) = int (length (dq_head (destroy_cell_queue (cmux (chan w))))) \<and>
      (\<forall>k e. HT_FIND (cmux (chan w)) k = Some e \<longrightarrow> length (key_queue w k) \<le> unat (cell_count e)) \<and>
      total_cells (chanid_circid_map (cmux (chan w))) < 2 ^ 32)"

text \<open>A channel that is closed or failed must not be written to.\<close>

definition chan_live :: "'d channel_t \<Rightarrow> bool" where
  "chan_live ch = (ch_state ch \<noteq> CHANNEL_STATE_CLOSED \<and> ch_state ch \<noteq> CHANNEL_STATE_ERROR)"

section \<open>Sums over the table\<close>

definition mux_total :: "'p circuitmux_t \<Rightarrow> nat" where
  "mux_total m = (\<Sum>k \<in> dom (HT_FIND m). unat (cell_count (the (HT_FIND m k))))"

lemma finite_dom_HT [simp]: "finite (dom (HT_FIND m))"
  by (simp add: HT_FIND_def finite_dom_map_of dom_def [symmetric] cong: Collect_cong)

lemma total_cells_sum: "distinct (map fst M) \<Longrightarrow> total_cells M = (\<Sum>k \<in> dom (map_of M). unat (cell_count (the (map_of M k))))"
proof (induction M)
  case (Cons x M)
  obtain k e where x: "x = (k, e)" by (cases x)
  then have k: "k \<notin> dom (map_of M)" using Cons.prems by (simp add: dom_map_of_conv_image_fst)
  let ?f = "\<lambda>M k. unat (cell_count (the (map_of M k)))"
  have "sum (?f (x # M)) (dom (map_of (x # M))) = sum (?f (x # M)) (insert k (dom (map_of M)))"
    by (rule arg_cong [where f = "sum _"]) (auto simp: x)
  also have "\<dots> = unat (cell_count e) + sum (?f (x # M)) (dom (map_of M))" using k x by (simp add: finite_dom_map_of)
  also have "sum (?f (x # M)) (dom (map_of M)) = sum (?f M) (dom (map_of M))"
    by (rule sum.cong) (use k x in auto)
  finally show ?case using Cons x by simp
qed simp

lemma mux_total_eq: "mux_ok good pwf act owner cs ch (g, m) \<Longrightarrow> total_cells (chanid_circid_map m) = mux_total m"
  using total_cells_sum [of "chanid_circid_map m"]
  by (auto simp: mux_ok_def table_ok_def mux_total_def HT_FIND_def dom_def split: option.splits)

lemma sum_fun_upd:
  fixes f :: "'a \<Rightarrow> nat"
  assumes "finite A" "k \<in> A" "\<And>k'. k' \<in> A \<Longrightarrow> k' \<noteq> k \<Longrightarrow> g k' = f k'"
  shows "sum g A + f k = sum f A + g k"
proof -
  have "sum g (A - {k}) = sum f (A - {k})" by (rule sum.cong) (use assms(3) in auto)
  then show ?thesis using sum.remove [OF assms(1,2), of f] sum.remove [OF assms(1,2), of g] by simp
qed

lemma mux_total_upd:
  assumes "HT_FIND m k = Some e" "HT_FIND m' = (HT_FIND m)(k \<mapsto> e')"
  shows "mux_total m' + unat (cell_count e) = mux_total m + unat (cell_count e')"
proof -
  have d: "dom (HT_FIND m') = dom (HT_FIND m)" "k \<in> dom (HT_FIND m)" using assms by auto
  show ?thesis
    using sum_fun_upd [of "dom (HT_FIND m)" k "\<lambda>k. unat (cell_count (the (HT_FIND m' k)))" "\<lambda>k. unat (cell_count (the (HT_FIND m k)))"]
      assms d by (simp add: mux_total_def)
qed

text \<open>The measure of the loop: cells the multiplexer counts, cells queued, DESTROY cells queued.\<close>

definition queued :: "'d relay_world \<Rightarrow> nat" where
  "queued w = (\<Sum>k \<in> dom (HT_FIND (cmux (chan w))). length (key_queue w k))"

definition flush_measure :: "'d relay_world \<Rightarrow> nat" where
  "flush_measure w = mux_total (cmux (chan w)) + queued w + length (dq_head (destroy_cell_queue (cmux (chan w))))"

lemma flush_measure_fuel:
  assumes "world_ok w"
  shows "flush_measure w < flush_fuel w"
proof -
  have t: "total_cells (chanid_circid_map (cmux (chan w))) = mux_total (cmux (chan w))"
    using assms mux_total_eq by (fastforce simp: world_ok_def)
  have "queued w \<le> mux_total (cmux (chan w))"
    unfolding queued_def mux_total_def by (rule sum_mono) (use assms in \<open>auto simp: world_ok_def\<close>)
  then show ?thesis by (simp add: flush_measure_def flush_fuel_def t)
qed

section \<open>Circuits that keep their place\<close>

definition same_place :: "mux_circuit_t \<Rightarrow> mux_circuit_t \<Rightarrow> bool" where
  "same_place c c' =
     (circ_addr c' = circ_addr c \<and> n_chan c' = n_chan c \<and> n_circ_id c' = n_circ_id c \<and> or_magic c' = or_magic c \<and>
      p_chan c' = p_chan c \<and> p_circ_id c' = p_circ_id c)"

lemma entry_circ_same_place:
  assumes "cs a = Some c" "same_place c c'"
  shows "entry_circ (cs(a \<mapsto> c')) ch k e b = entry_circ cs ch k e b"
proof (cases "b = a")
  case True
  then show ?thesis using assms by (cases "mi_direction e") (auto simp: entry_circ_def same_place_def)
next
  case False
  then show ?thesis by (simp add: entry_circ_def)
qed

lemma mux_ok_same_place:
  "cs a = Some c \<Longrightarrow> same_place c c' \<Longrightarrow> mux_ok good pwf act owner cs ch s \<Longrightarrow> mux_ok good pwf act owner (cs(a \<mapsto> c')) ch s"
  by (simp add: mux_ok_def table_ok_def entry_ok_def entry_circ_same_place cong: option.case_cong)

lemma circ_ok_same_place:
  "circ_ok ch cmap a c \<Longrightarrow> same_place c c' \<Longrightarrow> queue_ok (n_chan_cells c') \<Longrightarrow> queue_ok (p_chan_cells c') \<Longrightarrow> circ_ok ch cmap a c'"
  by (simp add: circ_ok_def same_place_def)

lemma mux_ok_last_cell [simp]:
  "mux_ok good pwf act owner cs ch (g, m\<lparr>last_cell_was_destroy := b\<rparr>) = mux_ok good pwf act owner cs ch (g, m)"
  "mux_ok good pwf act owner cs ch (g, m\<lparr>destroy_cell_queue := q\<rparr>) = mux_ok good pwf act owner cs ch (g, m)"
  "mux_ok good pwf act owner cs ch (g, m\<lparr>destroy_ctr := n\<rparr>) = mux_ok good pwf act owner cs ch (g, m)"
  by (simp_all add: mux_ok_def counters_ok_def cong: option.case_cong)

lemma HT_FIND_simps [simp]:
  "HT_FIND (m\<lparr>last_cell_was_destroy := b\<rparr>) = HT_FIND m"
  "HT_FIND (m\<lparr>destroy_cell_queue := q\<rparr>) = HT_FIND m"
  "HT_FIND (m\<lparr>destroy_ctr := n\<rparr>) = HT_FIND m"
  by (simp_all add: HT_FIND_def fun_eq_iff)

lemma entry_place:
  assumes "world_ok w" "entry_circ (circs w) (ch_of w) k e a" "circs w a = Some c"
  shows "chan_circid_map w k = Some a"
    and "\<exists>q b. chan_queue (ch_of w) c = Some (q, b) \<and> queue_ok q"
proof -
  have ok: "circ_ok (ch_of w) (chan_circid_map w) a c" using assms(1,3) by (simp add: world_ok_def)
  have k: "k = (ch_of w, snd k)" using assms(2,3) by (simp add: entry_circ_def prod_eq_iff)
  show "chan_circid_map w k = Some a"
    using assms(2,3) ok by (subst k, cases "mi_direction e") (auto simp: entry_circ_def circ_ok_def)
  show "\<exists>q b. chan_queue (ch_of w) c = Some (q, b) \<and> queue_ok q"
    using assms(2,3) ok by (cases "mi_direction e") (auto simp: entry_circ_def circ_ok_def chan_queue_def)
qed

section \<open>The abstract scheduler\<close>

text \<open>
  Queues of cells by circuit, a queue of DESTROY cells, and what has been sent: a step sends the head
  of one of the queues.
\<close>

type_synonym mux_queues = "(chanid_circid \<Rightarrow> packed_cell_t list) \<times> destroy_cell_t list \<times> u8 list list"

inductive send_one :: "bool \<Rightarrow> mux_queues \<Rightarrow> mux_queues \<Rightarrow> bool" for wide where
  send_relay: "qs k = c # cs \<Longrightarrow> send_one wide (qs, ds, out) (qs(k := cs), ds, out @ [body c])"
| send_destroy: "send_one wide (qs, d # ds, out)
    (qs, ds, out @ [destroy_cell_to_packed_cell (dc_circid d) (dc_reason d) wide])"

definition world_abs :: "'d relay_world \<Rightarrow> mux_queues" where
  "world_abs w =
     ((\<lambda>k. if HT_FIND (cmux (chan w)) k = None then [] else key_queue w k),
      dq_head (destroy_cell_queue (cmux (chan w))), ch_out (chan w))"

definition takes_all :: "'d relay_env \<Rightarrow> bool" where
  "takes_all env = (\<forall>ch cell. fe_write env ch cell)"

text \<open>What flushing one channel leaves alone of the circuits: their places, and their queues towards
  other channels.\<close>

definition other_queues :: "u64 \<Rightarrow> mux_circuit_t \<Rightarrow> mux_circuit_t \<Rightarrow> bool" where
  "other_queues ch c c' = (\<forall>ch'. ch' \<noteq> ch \<longrightarrow> map_option fst (chan_queue ch' c') = map_option fst (chan_queue ch' c))"

definition flush_frame :: "'d relay_world \<Rightarrow> 'd relay_world \<Rightarrow> bool" where
  "flush_frame w w' =
     (ch_of w' = ch_of w \<and> chan_circid_map w' = chan_circid_map w \<and>
      (\<forall>a. case circs w a of None \<Rightarrow> circs w' a = None
           | Some c \<Rightarrow> \<exists>c'. circs w' a = Some c' \<and> same_place c c' \<and> other_queues (ch_of w) c c'))"

lemma same_place_refl [simp]: "same_place c c"
  by (simp add: same_place_def)

lemma other_queues_refl [simp]: "other_queues ch c c"
  by (simp add: other_queues_def)

lemma flush_frame_same:
  "circs w' = circs w \<Longrightarrow> chan_circid_map w' = chan_circid_map w \<Longrightarrow> ch_of w' = ch_of w \<Longrightarrow> flush_frame w w'"
  by (auto simp: flush_frame_def split: option.split)

lemma flush_frame_upd:
  "circs w a = Some c \<Longrightarrow> circs w' = (circs w)(a \<mapsto> c') \<Longrightarrow> chan_circid_map w' = chan_circid_map w \<Longrightarrow> ch_of w' = ch_of w \<Longrightarrow>
   same_place c c' \<Longrightarrow> other_queues (ch_of w) c c' \<Longrightarrow> flush_frame w w'"
  by (auto simp: flush_frame_def split: option.split)

lemma flush_frameD:
  assumes "flush_frame w w'"
  shows "circs w a = None \<Longrightarrow> circs w' a = None"
    and "circs w a = Some c \<Longrightarrow> \<exists>c'. circs w' a = Some c' \<and> same_place c c' \<and> other_queues (ch_of w) c c'"
proof -
  have "case circs w a of None \<Rightarrow> circs w' a = None
     | Some c \<Rightarrow> \<exists>c'. circs w' a = Some c' \<and> same_place c c' \<and> other_queues (ch_of w) c c'"
    using assms by (simp add: flush_frame_def)
  then show "circs w a = None \<Longrightarrow> circs w' a = None"
    and "circs w a = Some c \<Longrightarrow> \<exists>c'. circs w' a = Some c' \<and> same_place c c' \<and> other_queues (ch_of w) c c'" by simp_all
qed

lemma flush_frame_trans:
  assumes "flush_frame w w1" "flush_frame w1 w2"
  shows "flush_frame w w2"
proof -
  have "case circs w a of None \<Rightarrow> circs w2 a = None
     | Some c \<Rightarrow> \<exists>c'. circs w2 a = Some c' \<and> same_place c c' \<and> other_queues (ch_of w) c c'" for a
  proof (cases "circs w a")
    case None
    then show ?thesis using flush_frameD [OF assms(1)] flush_frameD [OF assms(2)] by simp
  next
    case (Some c)
    then obtain c1 where c1: "circs w1 a = Some c1" "same_place c c1" "other_queues (ch_of w) c c1"
      using flush_frameD(2) [OF assms(1)] by blast
    then obtain c2 where "circs w2 a = Some c2" "same_place c1 c2" "other_queues (ch_of w1) c1 c2"
      using flush_frameD(2) [OF assms(2)] by blast
    then show ?thesis using Some c1 assms(1) by (simp add: flush_frame_def same_place_def other_queues_def)
  qed
  then show ?thesis using assms by (simp add: flush_frame_def)
qed

lemma other_queues_put:
  "chan_queue ch c = Some (q, b) \<Longrightarrow> other_queues ch c (put_queue ch q' c)"
  by (auto simp: other_queues_def chan_queue_def put_queue_def bind_eq_Some_iff tor_assert_def split: if_splits)

lemma other_queues_same:
  "same_place c c' \<Longrightarrow> n_chan_cells c' = n_chan_cells c \<Longrightarrow> p_chan_cells c' = p_chan_cells c \<Longrightarrow> other_queues ch c c'"
  by (auto simp: other_queues_def chan_queue_def same_place_def tor_assert_def)

lemma other_queues_trans: "other_queues ch c c1 \<Longrightarrow> other_queues ch c1 c2 \<Longrightarrow> other_queues ch c c2"
  by (simp add: other_queues_def)

text \<open>What a turn of the loop does, for the proofs below.\<close>

definition turn_ok :: "'d relay_env \<Rightarrow> 'd relay_world \<Rightarrow> int \<Rightarrow> 'd relay_world \<Rightarrow> bool" where
  "turn_ok env w n w' =
     ((n = 0 \<or> n = 1) \<and> world_ok w' \<and> chan_live (chan w') \<and> flush_measure w' < flush_measure w \<and> flush_frame w w' \<and>
      wide_circ_ids (chan w') = wide_circ_ids (chan w) \<and>
      (takes_all env \<longrightarrow> ch_state (chan w) = CHANNEL_STATE_OPEN \<longrightarrow>
         ch_state (chan w') = CHANNEL_STATE_OPEN \<and>
         (if n = 1 then send_one (wide_circ_ids (chan w)) (world_abs w) (world_abs w') else world_abs w' = world_abs w)))"

text \<open>What writing a cell leaves alone, whether the cell is taken or not.\<close>

definition same_circs :: "'d relay_world \<Rightarrow> 'd relay_world \<Rightarrow> bool" where
  "same_circs w w' = (circs w' = circs w \<and> chan_circid_map w' = chan_circid_map w \<and> ewma_g w' = ewma_g w)"

lemma note_call_simps [simp]:
  "circs (note_call x w) = circs w" "chan_circid_map (note_call x w) = chan_circid_map w" "chan (note_call x w) = chan w"
  "ewma_g (note_call x w) = ewma_g w"
  by (simp_all add: note_call_def)

lemma write_cases:
  assumes "chan_live (chan w)"
  obtains (fails) w' where "channel_write_packed_cell env w cell = Some (False, w')" "same_circs w w'" "chan w' = chan w"
      "\<not> (takes_all env \<and> ch_state (chan w) = CHANNEL_STATE_OPEN)"
  | (sent) n b w' where "channel_write_packed_cell env w cell = Some (True, w')" "same_circs w w'"
      "chan w' = (chan w)\<lparr>n_cells_xmitted := n, n_bytes_xmitted := b, ch_out := ch_out (chan w) @ [cell]\<rparr>"
      "ch_state (chan w) = CHANNEL_STATE_OPEN"
proof -
  define w1 where "w1 = (case packed_cell_is_destroy (chan w) cell of None \<Rightarrow> w
      | Some circ_id \<Rightarrow> note_call (Call_channel_note_destroy_not_pending circ_id) w)"
  have w1: "same_circs w w1" "chan w1 = chan w" by (simp_all add: w1_def same_circs_def split: option.split)
  show thesis
  proof (cases "ch_state (chan w) = CHANNEL_STATE_OPEN \<and> fe_write env (chan w) cell")
    case True
    define ch where "ch = (chan w)\<lparr>n_cells_xmitted := n_cells_xmitted (chan w) + 1,
        n_bytes_xmitted := n_bytes_xmitted (chan w) + get_cell_network_size (wide_circ_ids (chan w)), ch_out := ch_out (chan w) @ [cell]\<rparr>"
    have "channel_write_packed_cell env w cell = Some (True, w1\<lparr>chan := ch, total_cells_allocated := total_cells_allocated w1 - 1\<rparr>)"
      using True w1(2) by (simp add: channel_write_packed_cell_def write_packed_cell_def CHANNEL_CAN_HANDLE_CELLS_def Let_def
          flip: w1_def add: ch_def)
    then show thesis by (rule sent) (use w1 True in \<open>simp_all add: same_circs_def ch_def\<close>)
  next
    case False
    have "\<exists>v. (v = w \<or> v = w1) \<and> channel_write_packed_cell env w cell = Some (False, v\<lparr>total_cells_allocated := total_cells_allocated v - 1\<rparr>)"
      using False assms w1(2)
      by (cases "ch_state (chan w)")
        (auto simp: channel_write_packed_cell_def write_packed_cell_def CHANNEL_CAN_HANDLE_CELLS_def chan_live_def Let_def w1_def [symmetric])
    then obtain v where v: "v = w \<or> v = w1"
      "channel_write_packed_cell env w cell = Some (False, v\<lparr>total_cells_allocated := total_cells_allocated v - 1\<rparr>)" by blast
    show thesis by (rule fails [OF v(2)]) (use False w1 v(1) in \<open>auto simp: takes_all_def same_circs_def\<close>)
  qed
qed

lemma mark_for_close_simps [simp]:
  "circs (channel_mark_for_close w) = circs w"
  "chan_circid_map (channel_mark_for_close w) = chan_circid_map w"
  "ewma_g (channel_mark_for_close w) = ewma_g w"
  "ch_of (channel_mark_for_close w) = ch_of w"
  "cmux (chan (channel_mark_for_close w)) = cmux (chan w)"
  "wide_circ_ids (chan (channel_mark_for_close w)) = wide_circ_ids (chan w)"
  "chan_live (chan w) \<Longrightarrow> chan_live (chan (channel_mark_for_close w))"
  by (simp_all add: channel_mark_for_close_def chan_live_def)

text \<open>The fields of the state that the invariant, the queues and the measure look at.\<close>

lemma world_cong:
  assumes "circs w' = circs w" "chan_circid_map w' = chan_circid_map w" "ch_of w' = ch_of w"
  shows "key_queue w' = key_queue w"
  by (rule ext) (simp add: key_queue_def assms cong: option.case_cong)

lemma flush_destroy_ok:
  assumes ok: "world_ok w" and live: "chan_live (chan w)" and d: "dq_head (destroy_cell_queue (cmux (chan w))) = d # ds"
  shows "\<exists>n w'. flush_destroy env w = Some (n, w') \<and> turn_ok env w n w'"
proof -
  define q where "q = (destroy_cell_queue (cmux (chan w)))\<lparr>dq_head := ds, dq_n := dq_n (destroy_cell_queue (cmux (chan w))) - 1\<rparr>"
  define w1 where "w1 = (set_mux (ewma_g w, (cmux (chan w))\<lparr>destroy_cell_queue := q\<rparr>) w)
      \<lparr>total_cells_allocated := total_cells_allocated w + 1\<rparr>"
  let ?cell = "destroy_cell_to_packed_cell (dc_circid d) (dc_reason d) (wide_circ_ids (chan w))"
  have n: "dq_n (destroy_cell_queue (cmux (chan w))) = int (Suc (length ds))" using ok d by (simp add: world_ok_def)
  have run: "flush_destroy env w =
      do { (ok, w) \<leftarrow> channel_write_packed_cell env w1 ?cell;
           if \<not> ok then Some (0, channel_mark_for_close w)
           else let (ctr, mux) = circuitmux_notify_xmit_destroy (global_destroy_ctr w) (cmux (chan w))
                in Some (1, set_mux (ewma_g w, mux) (w\<lparr>global_destroy_ctr := ctr\<rparr>)) }"
    using n d by (simp add: flush_destroy_def destroy_cell_queue_pop_def q_def w1_def set_mux_def Let_def)
  have w1: "circs w1 = circs w" "chan_circid_map w1 = chan_circid_map w" "ch_of w1 = ch_of w" "ewma_g w1 = ewma_g w"
    "cmux (chan w1) = (cmux (chan w))\<lparr>destroy_cell_queue := q\<rparr>" "wide_circ_ids (chan w1) = wide_circ_ids (chan w)"
    "ch_state (chan w1) = ch_state (chan w)" "ch_out (chan w1) = ch_out (chan w)"
    by (simp_all add: w1_def set_mux_def)
  have post: "world_ok w' \<and> flush_measure w' < flush_measure w"
    if "circs w' = circs w" "chan_circid_map w' = chan_circid_map w" "ch_of w' = ch_of w" "ewma_g w' = ewma_g w"
      "cmux (chan w') = (cmux (chan w))\<lparr>destroy_cell_queue := q, destroy_ctr := i\<rparr>" for w' i
    using ok n d world_cong [OF that(1-3)] that
    by (auto simp: world_ok_def flush_measure_def queued_def mux_total_def q_def)
  have live1: "chan_live (chan w1)" using live by (simp add: chan_live_def w1)
  from live1 show ?thesis
  proof (cases rule: write_cases [of w1 env ?cell])
    case (fails v)
    let ?w = "channel_mark_for_close v"
    have v: "circs v = circs w" "chan_circid_map v = chan_circid_map w" "ewma_g v = ewma_g w" "chan v = chan w1"
      using fails(2,3) by (simp_all add: same_circs_def w1)
    have "flush_destroy env w = Some (0, ?w)" unfolding run using fails(1) by simp
    moreover have "world_ok ?w \<and> flush_measure ?w < flush_measure w"
      by (rule post [of _ "destroy_ctr (cmux (chan w))"]) (simp_all add: w1 v)
    moreover have "\<not> (takes_all env \<and> ch_state (chan w) = CHANNEL_STATE_OPEN)" using fails(4) w1(7) by simp
    moreover have "flush_frame w ?w" by (rule flush_frame_same) (simp_all add: v w1)
    ultimately show ?thesis using live1 by (auto simp: turn_ok_def w1 v)
  next
    case (sent m b v)
    define w2 where "w2 = set_mux (ewma_g v, (cmux (chan v))\<lparr>destroy_ctr := destroy_ctr (cmux (chan v)) - 1\<rparr>)
      (v\<lparr>global_destroy_ctr := global_destroy_ctr v - 1\<rparr>)"
    have w2: "circs w2 = circs w" "chan_circid_map w2 = chan_circid_map w" "ch_of w2 = ch_of w" "ewma_g w2 = ewma_g w"
      "cmux (chan w2) = (cmux (chan w))\<lparr>destroy_cell_queue := q, destroy_ctr := destroy_ctr (cmux (chan w)) - 1\<rparr>"
      "wide_circ_ids (chan w2) = wide_circ_ids (chan w)" "ch_state (chan w2) = CHANNEL_STATE_OPEN" "ch_out (chan w2) = ch_out (chan w) @ [?cell]"
      using sent(2-4) by (simp_all add: w2_def set_mux_def same_circs_def w1)
    have "flush_destroy env w = Some (1, w2)" unfolding run using sent(1)
      by (simp add: circuitmux_notify_xmit_destroy_def w2_def)
    moreover have "send_one (wide_circ_ids (chan w)) (world_abs w) (world_abs w2)"
      unfolding world_abs_def d w2 world_cong [OF w2(1-3)] by (simp add: q_def send_destroy)
    moreover have "flush_frame w w2" by (rule flush_frame_same [OF w2(1-3)])
    ultimately show ?thesis using post [OF w2(1-5)] w2 by (auto simp: turn_ok_def chan_live_def)
  qed
qed

section \<open>A turn on a circuit\<close>

lemma entry_circ_key:
  "entry_circ cs ch k e a \<Longrightarrow> entry_circ cs ch k' e' a \<Longrightarrow> k = k'"
  by (cases "mi_direction e"; cases "mi_direction e'") (auto simp: entry_circ_def prod_eq_iff split: option.splits)

lemma other_key:
  assumes ok: "world_ok w" and ec: "entry_circ (circs w) (ch_of w) k e a" and k': "HT_FIND (cmux (chan w)) k' = Some e'" "k' \<noteq> k"
  shows "\<exists>a'. chan_circid_map w k' = Some a' \<and> a' \<noteq> a"
proof -
  obtain ow ac where "table_ok (circs w) (ch_of w) (CircuitMux.chanid_circid_map (cmux (chan w))) ow ac"
    using ok by (auto simp: world_ok_def mux_ok_def split: option.splits)
  moreover have "(k', e') \<in> set (CircuitMux.chanid_circid_map (cmux (chan w)))" using k'(1) by (simp add: HT_FIND_def map_of_SomeD)
  ultimately obtain d a' c' where "entry_circ (circs w) (ch_of w) k' e' a'" "circs w a' = Some c'" by (rule table_entry)
  moreover from this have "chan_circid_map w k' = Some a'" using entry_place(1) [OF ok] by blast
  ultimately show ?thesis using entry_circ_key [OF ec] k'(2) by metis
qed

text \<open>A step that changes one circuit's queue and its count: the invariant is kept when the count covers
  the queue and the sum of the counts fits, and the measure changes by what the two change.\<close>

lemma world_put:
  assumes ok: "world_ok w" and e: "HT_FIND (cmux (chan w)) k = Some e" and ec: "entry_circ (circs w) (ch_of w) k e a"
    and c: "circs w a = Some c" "chan_queue (ch_of w) c = Some (q, b)"
    and w': "circs w' = (circs w)(a \<mapsto> c')" "chan_circid_map w' = chan_circid_map w" "ch_of w' = ch_of w"
    and c': "same_place c c'" "queue_ok (n_chan_cells c')" "queue_ok (p_chan_cells c')" "chan_queue (ch_of w) c' = Some (q', b')"
    and m': "mux_ok ewma_good ewma_wf ewma_act ewma_owner (circs w') (ch_of w) (mux_of w')"
      "HT_FIND (cmux (chan w')) = (HT_FIND (cmux (chan w)))(k \<mapsto> e')"
      "destroy_cell_queue (cmux (chan w')) = destroy_cell_queue (cmux (chan w))"
    and le: "length (cq_head q') \<le> unat (cell_count e')"
      "total_cells (CircuitMux.chanid_circid_map (cmux (chan w))) + unat (cell_count e') < 2 ^ 32 + unat (cell_count e)"
  shows "world_ok w'"
    and "flush_measure w' + (unat (cell_count e) + length (cq_head q)) = flush_measure w + (unat (cell_count e') + length (cq_head q'))"
    and "fst (world_abs w') = (fst (world_abs w))(k := cq_head q')" and "fst (world_abs w) k = cq_head q"
proof -
  have ka: "chan_circid_map w k = Some a" by (rule entry_place(1) [OF ok ec c(1)])
  have kq: "key_queue w k = cq_head q" "key_queue w' k = cq_head q'"
    using ka c c' w' by (simp_all add: key_queue_def)
  have kq': "key_queue w' k' = key_queue w k'" if "HT_FIND (cmux (chan w)) k' \<noteq> None" "k' \<noteq> k" for k'
  proof -
    obtain a' where "chan_circid_map w k' = Some a'" "a' \<noteq> a" using other_key [OF ok ec] \<open>k' \<noteq> k\<close> \<open>HT_FIND _ k' \<noteq> None\<close> by blast
    then show ?thesis using w' by (simp add: key_queue_def cong: option.case_cong)
  qed
  have D: "dom (HT_FIND (cmux (chan w'))) = dom (HT_FIND (cmux (chan w)))" "k \<in> dom (HT_FIND (cmux (chan w)))" using m'(2) e by auto
  have T: "mux_total (cmux (chan w')) + unat (cell_count e) = mux_total (cmux (chan w)) + unat (cell_count e')"
    by (rule mux_total_upd [OF e m'(2)])
  have "queued w' + length (cq_head q) = queued w + length (cq_head q')"
    unfolding queued_def D(1) kq [symmetric]
    by (rule sum_fun_upd [of _ k "\<lambda>k. length (key_queue w' k)" "\<lambda>k. length (key_queue w k)"]) (use D kq' in \<open>simp_all add: domIff\<close>)
  then show "flush_measure w' + (unat (cell_count e) + length (cq_head q)) = flush_measure w + (unat (cell_count e') + length (cq_head q'))"
    using T m'(3) by (simp add: flush_measure_def)
  show "fst (world_abs w) k = cq_head q" using e kq by (simp add: world_abs_def)
  show "fst (world_abs w') = (fst (world_abs w))(k := cq_head q')"
    using m'(2) kq kq' by (auto simp: world_abs_def fun_eq_iff)
  have "total_cells (CircuitMux.chanid_circid_map (cmux (chan w'))) = mux_total (cmux (chan w'))"
    "total_cells (CircuitMux.chanid_circid_map (cmux (chan w))) = mux_total (cmux (chan w))"
    using mux_total_eq m'(1) ok by (fastforce simp: world_ok_def)+
  then have "total_cells (CircuitMux.chanid_circid_map (cmux (chan w'))) < 2 ^ 32" using T le(2) by simp
  moreover have "circ_ok (ch_of w) (chan_circid_map w) a c" using ok c(1) by (simp add: world_ok_def)
  then have "circ_ok (ch_of w) (chan_circid_map w) a c'" using c'(1-3) by (rule circ_ok_same_place)
  then have "\<forall>x y. circs w' x = Some y \<longrightarrow> circ_ok (ch_of w') (chan_circid_map w') x y" using ok w' by (simp add: world_ok_def)
  moreover have "\<forall>k' e''. HT_FIND (cmux (chan w')) k' = Some e'' \<longrightarrow> length (key_queue w' k') \<le> unat (cell_count e'')"
    using ok m'(2) kq kq' le(1) by (auto simp: world_ok_def)
  ultimately show "world_ok w'" using ok m' w'(3) by (simp add: world_ok_def)
qed

lemma world_step:
  assumes ok: "world_ok w" and e: "HT_FIND (cmux (chan w)) k = Some e" and ec: "entry_circ (circs w) (ch_of w) k e a"
    and c: "circs w a = Some c" "chan_queue (ch_of w) c = Some (q, b)"
    and w': "circs w' = (circs w)(a \<mapsto> c')" "chan_circid_map w' = chan_circid_map w" "ch_of w' = ch_of w"
    and c': "same_place c c'" "queue_ok (n_chan_cells c')" "queue_ok (p_chan_cells c')" "chan_queue (ch_of w) c' = Some (q', b')"
    and m': "mux_ok ewma_good ewma_wf ewma_act ewma_owner (circs w') (ch_of w) (mux_of w')"
      "HT_FIND (cmux (chan w')) = (HT_FIND (cmux (chan w)))(k \<mapsto> e')"
      "destroy_cell_queue (cmux (chan w')) = destroy_cell_queue (cmux (chan w))"
    and le: "length (cq_head q') \<le> unat (cell_count e')" "unat (cell_count e') \<le> unat (cell_count e)"
    and less: "unat (cell_count e') + length (cq_head q') < unat (cell_count e) + length (cq_head q)"
  shows "world_ok w'" and "flush_measure w' < flush_measure w"
    and "fst (world_abs w') = (fst (world_abs w))(k := cq_head q')" and "fst (world_abs w) k = cq_head q"
proof -
  have "total_cells (CircuitMux.chanid_circid_map (cmux (chan w))) + unat (cell_count e') < 2 ^ 32 + unat (cell_count e)"
    using ok le(2) by (simp add: world_ok_def)
  note p = world_put [OF ok e ec c w' c' m' le(1) this]
  show "world_ok w'" "flush_measure w' < flush_measure w" using p(1,2) less by simp_all
  show "fst (world_abs w') = (fst (world_abs w))(k := cq_head q')" "fst (world_abs w) k = cq_head q" by (fact p)+
qed

lemma blocked_ok:
  assumes "circs w a = Some c" "chan_queue (ch_of w) c = Some x"
  shows "\<exists>w' c'. set_circuit_blocked_on_chan env a bl w = Some w' \<and> circs w' = (circs w)(a \<mapsto> c') \<and> chan w' = chan w \<and>
    chan_circid_map w' = chan_circid_map w \<and> ewma_g w' = ewma_g w \<and> same_place c c' \<and>
    n_chan_cells c' = n_chan_cells c \<and> p_chan_cells c' = p_chan_cells c"
  using assms
  by (auto simp: set_circuit_blocked_on_chan_def set_circ_def set_block_state_for_streams_def same_place_def Let_def
      chan_queue_def bind_eq_Some_iff split: if_splits)

lemma chan_queue_same_place:
  "chan_queue ch c = Some (q, b) \<Longrightarrow> same_place c c' \<Longrightarrow> n_chan_cells c' = n_chan_cells c \<Longrightarrow> p_chan_cells c' = p_chan_cells c \<Longrightarrow>
   \<exists>b'. chan_queue ch c' = Some (q, b')"
  by (auto simp: chan_queue_def same_place_def bind_eq_Some_iff split: if_splits)

lemma put_queue_ok:
  assumes "chan_queue ch c = Some (q, b)" "queue_ok q'" "queue_ok (n_chan_cells c)" "queue_ok (p_chan_cells c)"
  shows "same_place c (put_queue ch q' c)" and "chan_queue ch (put_queue ch q' c) = Some (q', b)"
    and "queue_ok (n_chan_cells (put_queue ch q' c))" and "queue_ok (p_chan_cells (put_queue ch q' c))"
  using assms by (auto simp: put_queue_def chan_queue_def same_place_def bind_eq_Some_iff split: if_splits)

text \<open>A circuit the multiplexer counts cells for although its queue is empty: the count is corrected and
  the circuit closed.\<close>

lemma flush_circuit_empty:
  assumes ok: "world_ok w" and live: "chan_live (chan w)" and e: "HT_FIND (cmux (chan w)) k = Some e" "cell_count e > 0"
    and ec: "entry_circ (circs w) (ch_of w) k e a" and c: "circs w a = Some c" "chan_queue (ch_of w) c = Some (q, b)" "cq_head q = []"
  shows "\<exists>w'. flush_circuit env a w = Some (0, w') \<and> turn_ok env w 0 w'"
proof -
  have mok: "mux_ok ewma_good ewma_wf ewma_act ewma_owner (circs w) (ch_of w) (mux_of w)" using ok by (simp add: world_ok_def)
  have cok: "circ_ok (ch_of w) (chan_circid_map w) a c" using ok c(1) by (simp add: world_ok_def)
  have qn: "cq_n q = 0" using entry_place(2) [OF ok ec c(1)] c by (auto simp: queue_ok_def)
  obtain m' where m': "circuitmux_set_num_cells (mux_policy env) (mux_of w) c 0 = Some (ewma_g w, m')"
    "mux_ok ewma_good ewma_wf ewma_act ewma_owner (circs w) (ch_of w) (ewma_g w, m')"
    "HT_FIND m' = (HT_FIND (cmux (chan w)))(k \<mapsto> e\<lparr>cell_count := 0\<rparr>)" "same_destroys (cmux (chan w)) m'"
    using ewma.set_num_cells [OF mok e(1) ec c(1), of "fe_ops env" "fe_rnd env" 0] by auto
  define c' where "c' = c\<lparr>mc_marked_for_close := True\<rparr>"
  define w' where "w' = (if mc_marked_for_close c then set_mux (ewma_g w, m') w
      else note_call (Call_circuit_mark_for_close a) (set_circ a c' (set_mux (ewma_g w, m') w)))"
  have "mc_marked_for_close c \<Longrightarrow> c' = c" by (simp add: c'_def)
  then have w': "circs w' = (circs w)(a \<mapsto> c')" "chan_circid_map w' = chan_circid_map w" "ch_of w' = ch_of w" "cmux (chan w') = m'"
    "ewma_g w' = ewma_g w" "ch_state (chan w') = ch_state (chan w)" "ch_out (chan w') = ch_out (chan w)"
    "wide_circ_ids (chan w') = wide_circ_ids (chan w)"
    using c(1) by (auto simp: w'_def set_circ_def set_mux_def fun_upd_idem)
  have sp: "same_place c c'" by (simp add: c'_def same_place_def)
  have cq': "queue_ok (n_chan_cells c')" "queue_ok (p_chan_cells c')" "chan_queue (ch_of w) c' = Some (q, b)"
    using cok c(2) by (auto simp: c'_def circ_ok_def chan_queue_def bind_eq_Some_iff split: if_splits)
  have mok': "mux_ok ewma_good ewma_wf ewma_act ewma_owner (circs w') (ch_of w) (mux_of w')"
    using mux_ok_same_place [of "circs w" a, OF c(1) sp m'(2)] by (simp add: w')
  have dsame: "destroy_cell_queue (cmux (chan w')) = destroy_cell_queue (cmux (chan w))" using m'(4) by (simp add: w' same_destroys_def)
  have pos: "0 < unat (cell_count e)" using e(2) by (simp add: u32_positive)
  note st = world_step [OF ok e(1) ec c(1,2) w'(1-3) sp cq' mok' _ dsame, of "e\<lparr>cell_count := 0\<rparr>"]
  have st: "world_ok w'" "flush_measure w' < flush_measure w" "fst (world_abs w') = (fst (world_abs w))(k := [])" "fst (world_abs w) k = []"
    using st m'(3) c(3) pos by (simp_all add: w')
  have "world_abs w' = world_abs w"
    using st(3,4) dsame w'(7) by (auto simp: world_abs_def prod_eq_iff fun_eq_iff)
  moreover have "flush_circuit env a w = Some (0, w')" using c(1,2) qn m'(1) by (simp add: flush_circuit_def w'_def c'_def)
  moreover have "other_queues (ch_of w) c c'" by (rule other_queues_same [OF sp]) (simp_all add: c'_def)
  then have "flush_frame w w'" by (rule flush_frame_upd [OF c(1) w'(1-3) sp])
  ultimately show ?thesis using st live by (auto simp: turn_ok_def w' chan_live_def)
qed

text \<open>A circuit with cells: its first cell leaves the queue; when the lower layer takes it, the
  multiplexer is told and its count is set to what is left.\<close>

lemma flush_circuit_cell:
  assumes ok: "world_ok w" and live: "chan_live (chan w)" and e: "HT_FIND (cmux (chan w)) k = Some e" "cell_count e > 0"
    and f: "cm_policy_data (cmux (chan w)) = Some p" "ewma_first p = mi_policy_data e"
    and ec: "entry_circ (circs w) (ch_of w) k e a" and c: "circs w a = Some c" "chan_queue (ch_of w) c = Some (q, b)" "cq_head q = cell # rest"
  shows "\<exists>n w'. flush_circuit env a w = Some (n, w') \<and> turn_ok env w n w'"
proof -
  have mok: "mux_ok ewma_good ewma_wf ewma_act ewma_owner (circs w) (ch_of w) (mux_of w)" using ok by (simp add: world_ok_def)
  have cok: "circ_ok (ch_of w) (chan_circid_map w) a c" using ok c(1) by (simp add: world_ok_def)
  have qn: "cq_n q = int (Suc (length rest))" using entry_place(2) [OF ok ec c(1)] c by (auto simp: queue_ok_def)
  have kq: "key_queue w k = cq_head q" using entry_place(1) [OF ok ec c(1)] c by (simp add: key_queue_def)
  have cover: "length (cq_head q) \<le> unat (cell_count e)" using ok e(1) kq unfolding world_ok_def by metis
  define q1 where "q1 = q\<lparr>cq_head := rest, cq_n := cq_n q - 1\<rparr>"
  define c1 where "c1 = put_queue (ch_of w) q1 c"
  define w1 where "w1 = set_circ a c1 w"
  have q1: "queue_ok q1" "cq_head q1 = rest" "cq_n q1 = int (length rest)" using qn by (simp_all add: q1_def queue_ok_def)
  have c1: "same_place c c1" "chan_queue (ch_of w) c1 = Some (q1, b)" "queue_ok (n_chan_cells c1)" "queue_ok (p_chan_cells c1)"
    using put_queue_ok [OF c(2) q1(1)] cok by (simp_all add: c1_def circ_ok_def)
  have oq: "other_queues (ch_of w) c c1" unfolding c1_def by (rule other_queues_put [OF c(2)])
  have w1: "circs w1 = (circs w)(a \<mapsto> c1)" "chan_circid_map w1 = chan_circid_map w" "chan w1 = chan w" "ewma_g w1 = ewma_g w"
    by (simp_all add: w1_def set_circ_def)
  have mok1: "mux_ok ewma_good ewma_wf ewma_act ewma_owner (circs w1) (ch_of w) (mux_of w)"
    using mux_ok_same_place [of "circs w" a, OF c(1) c1(1) mok] by (simp add: w1)
  have ec1: "entry_circ (circs w1) (ch_of w) k e a" using ec entry_circ_same_place [of "circs w" a c c1] c(1) c1(1) by (simp add: w1)
  have run: "flush_circuit env a w =
      do { (ok, w) \<leftarrow> channel_write_packed_cell env w1 (body cell);
           if \<not> ok then Some (0, channel_mark_for_close w)
           else do { s \<leftarrow> circuitmux_notify_xmit_cells (mux_policy env) (mux_of w) c1 1;
                     s \<leftarrow> circuitmux_set_num_cells (mux_policy env) s c1 (of_int (cq_n q1));
                     w \<leftarrow> (if b \<and> cq_n q1 \<le> cell_queue_lowwatermark env
                           then set_circuit_blocked_on_chan env a False (set_mux s w) else Some (set_mux s w));
                     Some (1, w) } }"
  proof -
    have "cell_queue_pop q = (Some cell, q1)" using c(3) by (simp add: cell_queue_pop_def q1_def)
    then show ?thesis using c(1,2) qn
      unfolding flush_circuit_def Let_def by (simp flip: c1_def add: w1_def cong: if_cong)
  qed
  have live1: "chan_live (chan w1)" using live by (simp add: w1)
  from live1 show ?thesis
  proof (cases rule: write_cases [of w1 env "body cell"])
    case (fails v)
    define w' where "w' = channel_mark_for_close v"
    have w': "circs w' = (circs w)(a \<mapsto> c1)" "chan_circid_map w' = chan_circid_map w" "ch_of w' = ch_of w"
      "cmux (chan w') = cmux (chan w)" "ewma_g w' = ewma_g w" "wide_circ_ids (chan w') = wide_circ_ids (chan w)" "chan_live (chan w')"
      using fails(2,3) live by (simp_all add: w'_def w1 same_circs_def)
    have "flush_circuit env a w = Some (0, w')" unfolding run using fails(1) by (simp add: w'_def)
    moreover have "world_ok w'" "flush_measure w' < flush_measure w"
      using world_step(1,2) [OF ok e(1) ec c(1,2) w'(1-3) c1(1,3,4,2), of e] mok1 cover c(3) q1(2) e(1) w' w1(1)
      by (simp_all add: fun_upd_idem)
    moreover have "\<not> (takes_all env \<and> ch_state (chan w) = CHANNEL_STATE_OPEN)" using fails(4) w1(3) by simp
    moreover have "flush_frame w w'" by (rule flush_frame_upd [OF c(1) w'(1-3) c1(1) oq])
    ultimately show ?thesis using w' by (auto simp: turn_ok_def)
  next
    case (sent n m w2)
    have w2: "circs w2 = circs w1" "chan_circid_map w2 = chan_circid_map w" "ch_of w2 = ch_of w" "mux_of w2 = mux_of w"
      "ch_state (chan w2) = CHANNEL_STATE_OPEN" "ch_out (chan w2) = ch_out (chan w) @ [body cell]"
      "wide_circ_ids (chan w2) = wide_circ_ids (chan w)"
      using sent(2-4) by (simp_all add: same_circs_def w1)
    have le1: "(1 :: u32) \<le> cell_count e" using e(2) by (simp add: word_le_nat_alt u32_positive Suc_le_eq)
    define e1 where "e1 = e\<lparr>cell_count := cell_count e - 1\<rparr>"
    obtain g1 m1 where m1: "circuitmux_notify_xmit_cells (mux_policy env) (mux_of w) c1 1 = Some (g1, m1)"
      "mux_ok ewma_good ewma_wf ewma_act ewma_owner (circs w1) (ch_of w) (g1, m1)"
      "HT_FIND m1 = (HT_FIND (cmux (chan w)))(k \<mapsto> e1)" "same_destroys (cmux (chan w)) m1"
      using ewma.notify_xmit_cells [OF mok1 e(1) ec1 _ _ le1 f, of c1 "fe_ops env" "fe_rnd env"] w1(1) by (auto simp: e1_def)
    have ee: "HT_FIND m1 k = Some e1" "entry_circ (circs w1) (ch_of w) k e1 a" "circs w1 a = Some c1"
      using m1(3) ec1 entry_circ_cong [of e1 e] w1(1) by (simp_all add: e1_def)
    define e2 where "e2 = e\<lparr>cell_count := of_nat (length rest)\<rparr>"
    obtain m2 where m2: "circuitmux_set_num_cells (mux_policy env) (g1, m1) c1 (of_int (cq_n q1)) = Some (g1, m2)"
      "mux_ok ewma_good ewma_wf ewma_act ewma_owner (circs w1) (ch_of w) (g1, m2)"
      "HT_FIND m2 = (HT_FIND (cmux (chan w)))(k \<mapsto> e2)" "same_destroys m1 m2"
      using ewma.set_num_cells [OF m1(2) ee, of "fe_ops env" "fe_rnd env" "of_int (cq_n q1)"] m1(3) q1(3)
      by (auto simp: e1_def e2_def)
    define w3 where "w3 = set_mux (g1, m2) w2"
    have w3: "circs w3 = (circs w)(a \<mapsto> c1)" "chan_circid_map w3 = chan_circid_map w" "ch_of w3 = ch_of w" "cmux (chan w3) = m2" "ewma_g w3 = g1"
      "ch_state (chan w3) = CHANNEL_STATE_OPEN" "ch_out (chan w3) = ch_out (chan w) @ [body cell]"
      "wide_circ_ids (chan w3) = wide_circ_ids (chan w)"
      using w2 w1 by (simp_all add: w3_def set_mux_def)
    have "\<exists>w4 c4. (if b \<and> cq_n q1 \<le> cell_queue_lowwatermark env then set_circuit_blocked_on_chan env a False w3 else Some w3) = Some w4 \<and>
        circs w4 = (circs w)(a \<mapsto> c4) \<and> chan w4 = chan w3 \<and> chan_circid_map w4 = chan_circid_map w \<and> ewma_g w4 = g1 \<and>
        same_place c1 c4 \<and> n_chan_cells c4 = n_chan_cells c1 \<and> p_chan_cells c4 = p_chan_cells c1"
    proof (cases "b \<and> cq_n q1 \<le> cell_queue_lowwatermark env")
      case True
      then show ?thesis using blocked_ok [of w3 a c1 "(q1, b)" env False] w3 c1(2) by auto
    next
      case False
      then show ?thesis using w3 by (auto simp: same_place_def)
    qed
    then obtain w4 c4 where w4: "(if b \<and> cq_n q1 \<le> cell_queue_lowwatermark env then set_circuit_blocked_on_chan env a False w3 else Some w3) = Some w4"
        "circs w4 = (circs w)(a \<mapsto> c4)" "chan w4 = chan w3" "chan_circid_map w4 = chan_circid_map w" "ewma_g w4 = g1"
      and c4: "same_place c1 c4" "n_chan_cells c4 = n_chan_cells c1" "p_chan_cells c4 = p_chan_cells c1" by blast
    obtain b4 where b4: "chan_queue (ch_of w) c4 = Some (q1, b4)" using chan_queue_same_place [OF c1(2) c4] by blast
    have sp: "same_place c c4" using c1(1) c4(1) by (simp add: same_place_def)
    have "flush_circuit env a w = Some (1, w4)"
      unfolding run using sent(1) m1(1) m2(1) w4(1) w2(4) by (auto simp: w3_def [symmetric] split: if_splits)
    moreover have un: "unat (of_nat (length rest) :: u32) = length rest"
      using cover c(3) unat_u32_less [of "cell_count e"] by (simp add: unsigned_of_nat take_bit_nat_eq_self)
    have mok4: "mux_ok ewma_good ewma_wf ewma_act ewma_owner (circs w4) (ch_of w) (mux_of w4)"
      using mux_ok_same_place [of "circs w1" a, OF ee(3) c4(1) m2(2)] w4 w3 w1(1) by simp
    have dsame: "destroy_cell_queue (cmux (chan w4)) = destroy_cell_queue (cmux (chan w))"
      using m1(4) m2(4) w4(3) w3(4) by (simp add: same_destroys_def)
    note st = world_step [OF ok e(1) ec c(1,2) w4(2,4) _ sp _ _ b4 mok4 _ dsame, of e2]
    have st: "world_ok w4" "flush_measure w4 < flush_measure w" "fst (world_abs w4) = (fst (world_abs w))(k := rest)"
      "fst (world_abs w) k = cell # rest"
      using st w4(3) w3 c1 c4 m2(3) un cover c(3) q1(2) by (simp_all add: e2_def)
    have "send_one (wide_circ_ids (chan w)) (world_abs w) (world_abs w4)"
    proof -
      have "world_abs w = (fst (world_abs w), dq_head (destroy_cell_queue (cmux (chan w))), ch_out (chan w))" by (simp add: world_abs_def)
      moreover have "world_abs w4 = ((fst (world_abs w))(k := rest), dq_head (destroy_cell_queue (cmux (chan w))), ch_out (chan w) @ [body cell])"
        using st(3) dsame w4(3) w3(7) by (simp add: world_abs_def)
      ultimately show ?thesis using send_relay [of "fst (world_abs w)" k cell rest] st(4) by metis
    qed
    moreover have "flush_frame w w4"
      by (rule flush_frame_upd [OF c(1) w4(2,4) _ sp other_queues_trans [OF oq other_queues_same [OF c4]]]) (simp add: w4(3) w3(3))
    ultimately show ?thesis using st w4(3) w3 by (auto simp: turn_ok_def chan_live_def)
  qed
qed

section \<open>The loop\<close>

lemma world_ok_last_cell:
  "world_ok (set_mux (ewma_g w, (cmux (chan w))\<lparr>last_cell_was_destroy := bl\<rparr>) w) = world_ok w"
  "flush_measure (set_mux (ewma_g w, (cmux (chan w))\<lparr>last_cell_was_destroy := bl\<rparr>) w) = flush_measure w"
  "world_abs (set_mux (ewma_g w, (cmux (chan w))\<lparr>last_cell_was_destroy := bl\<rparr>) w) = world_abs w"
proof -
  let ?w = "set_mux (ewma_g w, (cmux (chan w))\<lparr>last_cell_was_destroy := bl\<rparr>) w"
  have k: "key_queue ?w = key_queue w" by (rule world_cong) (simp_all add: set_mux_def)
  show "world_ok ?w = world_ok w" unfolding world_ok_def k by (simp add: set_mux_def)
  show "flush_measure ?w = flush_measure w" unfolding flush_measure_def queued_def k by (simp add: set_mux_def mux_total_def)
  show "world_abs ?w = world_abs w" unfolding world_abs_def k by (simp add: set_mux_def)
qed

text \<open>Nothing is left: no cells counted, none queued.\<close>

definition drained :: "'d relay_world \<Rightarrow> bool" where
  "drained w = (world_abs w = ((\<lambda>_. []), [], ch_out (chan w)) \<and> circuitmux_num_cells (cmux (chan w)) = 0)"

lemma drainedI:
  assumes "world_ok w" "active_entries (CircuitMux.chanid_circid_map (cmux (chan w))) = []"
    "dq_n (destroy_cell_queue (cmux (chan w))) = 0"
  shows "drained w"
proof -
  have "key_queue w k = []" if "HT_FIND (cmux (chan w)) k = Some e" for k e
  proof -
    have "(k, e) \<in> set (CircuitMux.chanid_circid_map (cmux (chan w)))" using that by (simp add: HT_FIND_def map_of_SomeD)
    then have "cell_count e = 0" using assms(2) by (auto simp: active_entries_def filter_empty_conv word_gt_0)
    moreover have "length (key_queue w k) \<le> unat (cell_count e)" using assms(1) that unfolding world_ok_def by metis
    ultimately show ?thesis by simp
  qed
  moreover have "dq_head (destroy_cell_queue (cmux (chan w))) = []" using assms(1,3) by (simp add: world_ok_def)
  moreover have "n_cells (cmux (chan w)) = 0"
    using assms(1,2) total_cells_zero by (auto simp: world_ok_def mux_ok_def counters_ok_def)
  ultimately show ?thesis using assms(3) by (auto simp: drained_def world_abs_def fun_eq_iff circuitmux_num_cells_def)
qed

lemma flush_turn_ok:
  assumes ok: "world_ok w" and live: "chan_live (chan w)"
  shows "flush_turn env w = Some None \<and> drained w \<or> (\<exists>n w'. flush_turn env w = Some (Some (n, w')) \<and> turn_ok env w n w')"
proof -
  have mok: "mux_ok ewma_good ewma_wf ewma_act ewma_owner (circs w) (ch_of w) (mux_of w)"
    and small: "total_cells (CircuitMux.chanid_circid_map (cmux (chan w))) < 2 ^ 32" using ok by (simp_all add: world_ok_def)
  obtain r where r: "circuitmux_get_first_active_circuit (mux_policy env) (mux_of w) =
      Some (r, case r of Send_circuit None \<Rightarrow> cmux (chan w) | _ \<Rightarrow> (cmux (chan w))\<lparr>last_cell_was_destroy := (r = Send_destroy)\<rparr>)"
    and R: "case r of
       Send_destroy \<Rightarrow> dq_n (destroy_cell_queue (cmux (chan w))) \<noteq> 0
     | Send_circuit None \<Rightarrow> active_entries (CircuitMux.chanid_circid_map (cmux (chan w))) = [] \<and> dq_n (destroy_cell_queue (cmux (chan w))) = 0
     | Send_circuit (Some a) \<Rightarrow> (\<exists>k e p. HT_FIND (cmux (chan w)) k = Some e \<and> cell_count e > 0 \<and> cm_policy_data (cmux (chan w)) = Some p \<and>
         ewma_first p = mi_policy_data e \<and> entry_circ (circs w) (ch_of w) k e a)"
    using ewma.get_first_active_circuit [OF mok small, of "fe_ops env" "fe_rnd env"] by blast
  let ?w = "set_mux (ewma_g w, (cmux (chan w))\<lparr>last_cell_was_destroy := (r = Send_destroy)\<rparr>) w"
  have w: "world_ok ?w" "chan_live (chan ?w)"
    using ok live by (simp add: world_ok_last_cell, simp add: chan_live_def set_mux_def)
  have tr: "turn_ok env w n w'" if "turn_ok env ?w n w'" for n w'
  proof -
    have fr: "flush_frame ?w w' = flush_frame w w'" by (simp add: flush_frame_def set_mux_def cong: option.case_cong)
    have f: "ch_state (chan ?w) = ch_state (chan w)" "wide_circ_ids (chan ?w) = wide_circ_ids (chan w)"
      "chan_live (chan ?w) = chan_live (chan w)" "ch_of ?w = ch_of w" by (simp_all add: set_mux_def chan_live_def)
    have "turn_ok env ?w n w' = turn_ok env w n w'" unfolding turn_ok_def world_ok_last_cell by (simp only: f fr)
    then show ?thesis using that by simp
  qed
  show ?thesis
  proof (cases r)
    case Send_destroy
    then obtain d ds where "dq_head (destroy_cell_queue (cmux (chan ?w))) = d # ds"
      using R ok by (cases "dq_head (destroy_cell_queue (cmux (chan w)))") (auto simp: world_ok_def set_mux_def)
    then obtain n w' where "flush_destroy env ?w = Some (n, w')" "turn_ok env ?w n w'" using flush_destroy_ok [OF w] by blast
    then show ?thesis using r Send_destroy tr by (auto simp: flush_turn_def)
  next
    case (Send_circuit x)
    show ?thesis
    proof (cases x)
      case None
      then show ?thesis using r R Send_circuit drainedI [OF ok] by (simp add: flush_turn_def)
    next
      case (Some a)
      then obtain k e p where e: "HT_FIND (cmux (chan ?w)) k = Some e" "cell_count e > 0" "cm_policy_data (cmux (chan ?w)) = Some p"
          "ewma_first p = mi_policy_data e" "entry_circ (circs ?w) (ch_of ?w) k e a"
        using R Send_circuit by (auto simp: set_mux_def)
      obtain c where c: "circs ?w a = Some c" using e(5) by (auto simp: entry_circ_def split: option.splits)
      obtain q b where q: "chan_queue (ch_of ?w) c = Some (q, b)" using entry_place(2) [OF w(1) e(5) c] by blast
      have "\<exists>n w'. flush_circuit env a ?w = Some (n, w') \<and> turn_ok env ?w n w'"
      proof (cases "cq_head q")
        case Nil
        then show ?thesis using flush_circuit_empty [OF w e(1,2,5) c q] by blast
      next
        case (Cons cell rest)
        then show ?thesis using flush_circuit_cell [OF w e(1-5) c q] by blast
      qed
      then show ?thesis using r Send_circuit Some tr by (auto simp: flush_turn_def)
    qed
  qed
qed

lemma flush_loop_ok:
  assumes "world_ok w" "chan_live (chan w)" "flush_measure w < fuel" "n0 \<le> maxc"
  shows "\<exists>n w'. flush_loop env fuel maxc n0 w = Some (n, w') \<and> n0 \<le> n \<and> n \<le> maxc \<and> world_ok w' \<and> chan_live (chan w') \<and>
    (n < maxc \<longrightarrow> drained w') \<and> flush_frame w w' \<and> int (flush_measure w') + (n - n0) \<le> int (flush_measure w) \<and>
    (takes_all env \<longrightarrow> ch_state (chan w) = CHANNEL_STATE_OPEN \<longrightarrow>
       ch_state (chan w') = CHANNEL_STATE_OPEN \<and>
       (send_one (wide_circ_ids (chan w)) ^^ nat (n - n0)) (world_abs w) (world_abs w'))"
  using assms
proof (induction fuel arbitrary: n0 w)
  case 0
  then show ?case by simp
next
  case (Suc fuel)
  show ?case
  proof (cases "n0 < maxc")
    case False
    then show ?thesis using Suc.prems flush_frame_same [of w w] by auto
  next
    case True
    from flush_turn_ok [OF Suc.prems(1,2), of env] show ?thesis
    proof (elim disjE conjE exE)
      assume "flush_turn env w = Some None" "drained w"
      then show ?thesis using True Suc.prems flush_frame_same [of w w] by auto
    next
      fix k w1 assume t: "flush_turn env w = Some (Some (k, w1))" "turn_ok env w k w1"
      have k: "k = 0 \<or> k = 1" and w1: "world_ok w1" "chan_live (chan w1)" "flush_measure w1 < fuel" "n0 + k \<le> maxc"
        and m1: "flush_measure w1 < flush_measure w" and f1: "flush_frame w w1"
        using t(2) Suc.prems(3) True by (auto simp: turn_ok_def)
      obtain n w' where r: "flush_loop env fuel maxc (n0 + k) w1 = Some (n, w')" "n0 + k \<le> n" "n \<le> maxc" "world_ok w'" "chan_live (chan w')"
        "n < maxc \<longrightarrow> drained w'" "flush_frame w1 w'" "int (flush_measure w') + (n - (n0 + k)) \<le> int (flush_measure w1)"
        and s: "takes_all env \<longrightarrow> ch_state (chan w1) = CHANNEL_STATE_OPEN \<longrightarrow> ch_state (chan w') = CHANNEL_STATE_OPEN \<and>
          (send_one (wide_circ_ids (chan w1)) ^^ nat (n - (n0 + k))) (world_abs w1) (world_abs w')"
        using Suc.IH [OF w1] by blast
      have "ch_state (chan w') = CHANNEL_STATE_OPEN \<and> (send_one (wide_circ_ids (chan w)) ^^ nat (n - n0)) (world_abs w) (world_abs w')"
        if a: "takes_all env" "ch_state (chan w) = CHANNEL_STATE_OPEN"
      proof -
        have w1s: "ch_state (chan w1) = CHANNEL_STATE_OPEN" "wide_circ_ids (chan w1) = wide_circ_ids (chan w)"
          "if k = 1 then send_one (wide_circ_ids (chan w)) (world_abs w) (world_abs w1) else world_abs w1 = world_abs w"
          using t(2) a by (simp_all add: turn_ok_def)
        show ?thesis
        proof (cases "k = 1")
          case True
          then have m: "nat (n - n0) = Suc (nat (n - (n0 + k)))" using r(2) by simp
          have one: "send_one (wide_circ_ids (chan w)) (world_abs w) (world_abs w1)" using w1s(3) True by simp
          have "ch_state (chan w') = CHANNEL_STATE_OPEN"
            "(send_one (wide_circ_ids (chan w)) ^^ nat (n - (n0 + k))) (world_abs w1) (world_abs w')"
            using s a w1s(1,2) by simp_all
          then show ?thesis using relpowp_Suc_I2 [where P = "send_one (wide_circ_ids (chan w))", OF one] unfolding m by blast
        next
          case False
          then show ?thesis using s a w1s k by auto
        qed
      qed
      moreover have "flush_frame w w'" by (rule flush_frame_trans [OF f1 r(7)])
      ultimately show ?thesis using r t(1) True k m1 by (intro exI [of _ n] exI [of _ w']) auto
    qed
  qed
qed

text \<open>The loop as the code runs it, with the fuel of the model.\<close>

lemma channel_flush_ok:
  assumes "world_ok w" and "chan_live (chan w)" and "0 \<le> maxc"
  shows "\<exists>n w'. channel_flush_from_first_active_circuit env w maxc = Some (n, w') \<and> 0 \<le> n \<and> n \<le> maxc \<and>
    world_ok w' \<and> chan_live (chan w') \<and> (n < maxc \<longrightarrow> drained w') \<and>
    flush_frame w w' \<and> int (flush_measure w') + n \<le> int (flush_measure w) \<and>
    (takes_all env \<longrightarrow> ch_state (chan w) = CHANNEL_STATE_OPEN \<longrightarrow>
       ch_state (chan w') = CHANNEL_STATE_OPEN \<and> (send_one (wide_circ_ids (chan w)) ^^ nat n) (world_abs w) (world_abs w'))"
  using flush_loop_ok [OF assms(1,2) flush_measure_fuel [OF assms(1)] assms(3), of env]
  unfolding channel_flush_from_first_active_circuit_def by simp

end
