(* ===== verification/ChannelQueue.thy ===== *)
theory ChannelQueue
  imports ChannelFlushInv
begin

text \<open>
  The theorems about a channel: queueing a cell puts it at the end of the queue of its circuit and
  counts it in the multiplexer, a full queue refuses it, clearing a queue tells the multiplexer, and
  flushing is total and refines the abstract scheduler.
\<close>

section \<open>Telling the multiplexer\<close>

text \<open>The queue of a circuit towards the channel is that of the direction in which it is attached.\<close>

lemma entry_direction:
  assumes "entry_circ cs ch k e a" "cs a = Some c"
  shows "circ_direction c (mi_direction e) = Some (Some ch, of_int (cq_n (fst (the (chan_queue ch c)))), snd k)"
    and "put_queue ch q c = (case mi_direction e of CELL_DIRECTION_OUT \<Rightarrow> c\<lparr>n_chan_cells := q\<rparr> | CELL_DIRECTION_IN \<Rightarrow> c\<lparr>p_chan_cells := q\<rparr>)"
    and "mi_direction e = CELL_DIRECTION_OUT \<Longrightarrow> chan_queue ch c = Some (n_chan_cells c, circuit_blocked_on_n_chan c)"
    and "mi_direction e = CELL_DIRECTION_IN \<Longrightarrow> or_magic c \<and> chan_queue ch c = Some (p_chan_cells c, circuit_blocked_on_p_chan c)"
    and "(mi_direction e = CELL_DIRECTION_OUT) = (n_chan c = Some ch)"
  using assms by (cases "mi_direction e"; simp add: entry_circ_def circ_direction_def chan_queue_def put_queue_def)+

lemma update_circuit_on_cmux_ok:
  assumes mok: "mux_ok ewma_good ewma_wf ewma_act ewma_owner (circs w) (ch_of w) (mux_of w)"
    and e: "HT_FIND (cmux (chan w)) k = Some e" and ec: "entry_circ (circs w) (ch_of w) k e a"
    and c: "circs w a = Some c" "chan_queue (ch_of w) c = Some (q, b)"
  shows "\<exists>m'. update_circuit_on_cmux env a (mi_direction e) w = Some (set_mux (ewma_g w, m') w) \<and>
    circuitmux_is_circuit_attached (cmux (chan w)) c = Some True \<and>
    mux_ok ewma_good ewma_wf ewma_act ewma_owner (circs w) (ch_of w) (ewma_g w, m') \<and>
    HT_FIND m' = (HT_FIND (cmux (chan w)))(k \<mapsto> e\<lparr>cell_count := of_int (cq_n q)\<rparr>) \<and> same_destroys (cmux (chan w)) m'"
proof -
  obtain ow ac where t: "table_ok (circs w) (ch_of w) (CircuitMux.chanid_circid_map (cmux (chan w))) ow ac"
    using mok by (auto simp: mux_ok_def split: option.splits)
  have "(k, e) \<in> set (CircuitMux.chanid_circid_map (cmux (chan w)))" using e by (simp add: HT_FIND_def map_of_SomeD)
  then have f: "circuitmux_find_map_entry (cmux (chan w)) c = Some (Some k)" using ewma.find_entry(1) [OF t _ ec c(1)] by blast
  obtain m' where m': "circuitmux_set_num_cells (mux_policy env) (mux_of w) c (of_int (cq_n q)) = Some (ewma_g w, m')"
    "mux_ok ewma_good ewma_wf ewma_act ewma_owner (circs w) (ch_of w) (ewma_g w, m')"
    "HT_FIND m' = (HT_FIND (cmux (chan w)))(k \<mapsto> e\<lparr>cell_count := of_int (cq_n q)\<rparr>)" "same_destroys (cmux (chan w)) m'"
    using ewma.set_num_cells [OF mok e ec c(1), of "fe_ops env" "fe_rnd env" "of_int (cq_n q)"] by blast
  have "update_circuit_on_cmux env a (mi_direction e) w = Some (set_mux (ewma_g w, m') w)"
    using entry_direction(1) [OF ec c(1)] c m'(1) f e
    by (cases k) (simp add: update_circuit_on_cmux_def circuitmux_is_circuit_attached_def circuitmux_attached_circuit_direction_def)
  then show ?thesis using m' f by (auto simp: circuitmux_is_circuit_attached_def)
qed

text \<open>A circuit gets a new queue and the multiplexer is told: the abstract queue of its key is the new one.\<close>

lemma requeue:
  assumes ok: "world_ok w" and e: "HT_FIND (cmux (chan w)) k = Some e" and ec: "entry_circ (circs w) (ch_of w) k e a"
    and c: "circs w a = Some c" "chan_queue (ch_of w) c = Some (q, b)"
    and w1: "circs w1 = (circs w)(a \<mapsto> c1)" "chan_circid_map w1 = chan_circid_map w" "chan w1 = chan w" "ewma_g w1 = ewma_g w"
    and c1: "same_place c c1" "queue_ok (n_chan_cells c1)" "queue_ok (p_chan_cells c1)" "chan_queue (ch_of w) c1 = Some (q1, b1)"
    and small: "length (cq_head q1) < 2 ^ 32"
      "total_cells (CircuitMux.chanid_circid_map (cmux (chan w))) + length (cq_head q1) < 2 ^ 32 + length (cq_head q)"
  shows "\<exists>m'. update_circuit_on_cmux env a (mi_direction e) w1 = Some (set_mux (ewma_g w, m') w1) \<and>
    circuitmux_is_circuit_attached (cmux (chan w)) c1 = Some True \<and>
    world_ok (set_mux (ewma_g w, m') w1) \<and>
    world_abs (set_mux (ewma_g w, m') w1) = ((fst (world_abs w))(k := cq_head q1), snd (world_abs w)) \<and> fst (world_abs w) k = cq_head q \<and>
    HT_FIND m' = (HT_FIND (cmux (chan w)))(k \<mapsto> e\<lparr>cell_count := of_nat (length (cq_head q1))\<rparr>)"
proof -
  have "mux_ok ewma_good ewma_wf ewma_act ewma_owner (circs w) (ch_of w) (mux_of w)" using ok by (simp add: world_ok_def)
  then have mok: "mux_ok ewma_good ewma_wf ewma_act ewma_owner (circs w1) (ch_of w1) (mux_of w1)"
    using mux_ok_same_place [of "circs w" a, OF c(1) c1(1)] unfolding w1 by blast
  have ec1: "entry_circ (circs w1) (ch_of w1) k e a" using ec entry_circ_same_place [of "circs w" a c c1] c(1) c1(1) by (simp add: w1)
  have "queue_ok q1" using c1 by (auto simp: chan_queue_def bind_eq_Some_iff split: if_splits)
  then have n: "cq_n q1 = int (length (cq_head q1))" by (simp add: queue_ok_def)
  have kq: "key_queue w k = cq_head q" using entry_place(1) [OF ok ec c(1)] c by (simp add: key_queue_def)
  have cover: "length (cq_head q) \<le> unat (cell_count e)" using ok e kq unfolding world_ok_def by metis
  obtain m' where m': "update_circuit_on_cmux env a (mi_direction e) w1 = Some (set_mux (ewma_g w, m') w1)"
    "circuitmux_is_circuit_attached (cmux (chan w)) c1 = Some True"
    "mux_ok ewma_good ewma_wf ewma_act ewma_owner (circs w1) (ch_of w) (ewma_g w, m')"
    "HT_FIND m' = (HT_FIND (cmux (chan w)))(k \<mapsto> e\<lparr>cell_count := of_nat (length (cq_head q1))\<rparr>)" "same_destroys (cmux (chan w)) m'"
    using update_circuit_on_cmux_ok [OF mok _ ec1, of c1 q1 b1 env] e w1 c1(4) n by auto
  let ?w = "set_mux (ewma_g w, m') w1" and ?e = "e\<lparr>cell_count := of_nat (length (cq_head q1))\<rparr>"
  have w2: "circs ?w = (circs w)(a \<mapsto> c1)" "chan_circid_map ?w = chan_circid_map w" "ch_of ?w = ch_of w" "cmux (chan ?w) = m'"
    "ewma_g ?w = ewma_g w" "ch_out (chan ?w) = ch_out (chan w)" by (simp_all add: set_mux_def w1)
  have un: "unat (cell_count ?e) = length (cq_head q1)" using small(1) by (simp add: unsigned_of_nat take_bit_nat_eq_self)
  have mok2: "mux_ok ewma_good ewma_wf ewma_act ewma_owner (circs ?w) (ch_of w) (mux_of ?w)" using m'(3) by (simp add: w2 w1)
  have ds: "destroy_cell_queue (cmux (chan ?w)) = destroy_cell_queue (cmux (chan w))" using m'(5) by (simp add: w2 same_destroys_def)
  have le: "length (cq_head q1) \<le> unat (cell_count ?e)"
    "total_cells (CircuitMux.chanid_circid_map (cmux (chan w))) + unat (cell_count ?e) < 2 ^ 32 + unat (cell_count e)"
    using un small(2) cover by linarith+
  note p = world_put [OF ok e ec c w2(1-3) c1 mok2 _ ds le]
  have "HT_FIND (cmux (chan ?w)) = (HT_FIND (cmux (chan w)))(k \<mapsto> ?e)" using m'(4) by (simp add: w2)
  note p = p [OF this]
  have "snd (world_abs ?w) = snd (world_abs w)" using ds w2(6) by (simp add: world_abs_def)
  then have "world_abs ?w = ((fst (world_abs w))(k := cq_head q1), snd (world_abs w))" using p(3) by (metis prod.collapse)
  then show ?thesis using m'(1,2,4) p(1,4) by blast
qed

section \<open>Queueing\<close>

lemma world_note: "world_ok (note_call x w) = world_ok w" "world_abs (note_call x w) = world_abs w"
proof -
  have k: "key_queue (note_call x w) = key_queue w" by (rule world_cong) simp_all
  show "world_ok (note_call x w) = world_ok w" "world_abs (note_call x w) = world_abs w"
    unfolding world_ok_def world_abs_def k by simp_all
qed

text \<open>The maximum that applies to the queue of a direction.\<close>

definition queue_max :: "'d relay_world \<Rightarrow> cell_direction_t \<Rightarrow> int" where
  "queue_max w dir = (case dir of CELL_DIRECTION_OUT \<Rightarrow> max_circuit_cell_queue_size_out w | CELL_DIRECTION_IN \<Rightarrow> max_circuit_cell_queue_size w)"

text \<open>The packed copy that is queued, and the run up to the multiplexer when memory is not short.\<close>

abbreviation queued_copy :: "'d relay_env \<Rightarrow> 'd relay_world \<Rightarrow> cell_t \<Rightarrow> packed_cell_t" where
  "queued_copy env w cell \<equiv> \<lparr>body = cell_pack cell (wide_circ_ids (chan w)), inserted_timestamp = fe_stamp env\<rparr>"

abbreviation quiet :: "('d relay_world \<Rightarrow> bool \<times> 'd relay_world) \<Rightarrow> bool" where
  "quiet oom \<equiv> \<forall>v. oom v = (False, v)"

lemma append_run:
  assumes c: "circs w a = Some c" "chan_queue (ch_of w) c = Some (q, b)" "\<not> mc_marked_for_close c"
    and ec: "entry_circ (circs w) (ch_of w) k e a" and oom: "quiet oom" and max: "cq_n q < queue_max w (mi_direction e)"
    and q1: "q1 = q\<lparr>cq_head := cq_head q @ [queued_copy env w cell], cq_n := cq_n q + 1\<rparr>"
    and w1: "w1 = set_circ a (put_queue (ch_of w) q1 c) (w\<lparr>total_cells_allocated := total_cells_allocated w + 1\<rparr>)"
  shows "append_cell_to_circuit_queue env oom a cell (mi_direction e) fromstream w =
    do { v \<leftarrow> (if \<not> b \<and> cq_n q1 \<ge> cell_queue_highwatermark env then set_circuit_blocked_on_chan env a True w1 else Some w1);
         let v = (if b \<and> fromstream \<noteq> 0 \<and> (mi_direction e = CELL_DIRECTION_IN \<or> \<not> or_magic c)
                  then set_block_state_for_streams env a True fromstream v else v);
         v \<leftarrow> update_circuit_on_cmux env a (mi_direction e) v;
         Some (1, note_call (Call_scheduler_channel_has_waiting_cells (ch_of v)) v) }"
proof (cases "mi_direction e")
  case CELL_DIRECTION_OUT
  then show ?thesis using c max oom entry_direction(2,3) [OF ec c(1)] unfolding w1 q1
    by (simp add: append_cell_to_circuit_queue_def queue_max_def cell_queue_append_packed_copy_def packed_cell_copy_def
        cell_queue_append_def Let_def set_circ_def)
next
  case CELL_DIRECTION_IN
  then show ?thesis using c max oom entry_direction(2,4) [OF ec c(1)] unfolding w1 q1
    by (simp add: append_cell_to_circuit_queue_def queue_max_def cell_queue_append_packed_copy_def packed_cell_copy_def
        cell_queue_append_def Let_def set_circ_def)
qed

section \<open>A channel with one circuit\<close>

text \<open>The witnesses run the code on channel 7 with one circuit of id 5 that has one cell queued, one
  DESTROY cell beside it, and whole numbers in the place of doubles.\<close>

definition demo_ops :: "int double_ops" where
  "demo_ops = \<lparr>d_less = (<), d_leq = (\<le>), d_add = (+), d_mult = (*), d_div = (div), d_neg = uminus,
     d_pow = (\<lambda>x y. x ^ nat y), d_exp = (\<lambda>x. 1), d_of_int = (\<lambda>x. x)\<rparr>"

definition demo_env :: "int relay_env" where
  "demo_env = \<lparr>fe_ops = demo_ops, fe_rnd = 0, fe_write = (\<lambda>_ _. True), fe_queued_writes = (\<lambda>_. True),
     cell_queue_highwatermark = 256, cell_queue_lowwatermark = 10, fe_conflux_can_send = (\<lambda>_. None), fe_stamp = 3\<rparr>"

definition demo_circ :: mux_circuit_t where
  "demo_circ = \<lparr>circ_addr = 0, n_chan = Some 7, n_circ_id = 5,
     n_chan_cells = \<lparr>cq_head = [\<lparr>body = [0, 0, 0, 5, 3, 1], inserted_timestamp = 0\<rparr>], cq_n = 1\<rparr>,
     circuit_blocked_on_n_chan = False, circuit_blocked_on_p_chan = False, mc_marked_for_close = False,
     or_magic = False, p_chan = None, p_circ_id = 0, p_chan_cells = \<lparr>cq_head = [], cq_n = 0\<rparr>\<rparr>"

definition demo_policy :: "int ewma_policy_data_t" where
  "demo_policy = \<lparr>active_circuit_pqueue = [0], last_recalibrated = 0,
     circ_datas = [0 \<mapsto> \<lparr>cell_ewma = \<lparr>last_adjusted_tick = 0, ewma_cell_count = 0, is_for_p_chan = False, heap_index = 0\<rparr>, cd_circ = 0\<rparr>],
     next_addr = 1\<rparr>"

definition demo_mux :: "int ewma_policy_data_t circuitmux_t" where
  "demo_mux = \<lparr>n_circuits = 1, n_active_circuits = 1, n_cells = 1,
     chanid_circid_map = [((7, 5), \<lparr>cell_count = 1, mi_direction = CELL_DIRECTION_OUT, mi_policy_data = Some 0\<rparr>)],
     destroy_cell_queue = \<lparr>dq_head = [\<lparr>dc_circid = 9, dc_inserted_timestamp = 0, dc_reason = 1\<rparr>], dq_n = 1\<rparr>,
     last_cell_was_destroy = False, destroy_ctr = 1, cm_policy = True, cm_policy_data = Some demo_policy\<rparr>"

definition demo_world :: "int relay_world" where
  "demo_world = \<lparr>chan = \<lparr>global_identifier = 7, ch_state = CHANNEL_STATE_OPEN, wide_circ_ids = True, cmux = demo_mux,
       n_cells_xmitted = 0, n_bytes_xmitted = 0, ch_out = []\<rparr>,
     circs = [0 \<mapsto> demo_circ], chan_circid_map = [(7, 5) \<mapsto> 0], edge_streams = (\<lambda>_. []),
     ewma_g = \<lparr>ewma_tick_len = 10, ewma_scale_factor = 1, ewma_ticks_initialized = True, start_of_current_tick = 0,
       current_tick_num = 0, clock = 0\<rparr>,
     total_cells_allocated = 1, global_destroy_ctr = 1, max_circuit_cell_queue_size = 50, max_circuit_cell_queue_size_out = 50,
     stats_n_circ_max_cell_reached = 0, stats_n_circ_max_cell_outq_reached = 0, calls = []\<rparr>"

abbreviation "demo_entry \<equiv> \<lparr>cell_count = 1, mi_direction = CELL_DIRECTION_OUT, mi_policy_data = Some 0\<rparr>"

lemma demo_entry:
  "HT_FIND (cmux (chan demo_world)) (7, 5) = Some demo_entry" "entry_circ (circs demo_world) (ch_of demo_world) (7, 5) demo_entry 0"
  "circs demo_world 0 = Some demo_circ" "chan_queue (ch_of demo_world) demo_circ = Some (n_chan_cells demo_circ, False)"
  by (simp_all add: demo_world_def demo_mux_def demo_circ_def HT_FIND_def entry_circ_def chan_queue_def)

lemma demo_mux_ok: "mux_ok ewma_good ewma_wf ewma_act ewma_owner (circs demo_world) 7 (ewma_g demo_world, demo_mux)"
proof -
  have "ewma_wf demo_policy" by (simp add: ewma_wf_def demo_policy_def deref_def)
  moreover have "Some ` dom (ewma_owner demo_policy) = {Some 0}"
    by (auto simp: ewma_owner_def demo_policy_def split: if_splits)
  moreover have "ewma_owner demo_policy 0 = Some 0" "ewma_act demo_policy = {0}"
    by (simp_all add: ewma_owner_def demo_policy_def ewma_act_def)
  ultimately show ?thesis
    using demo_entry by (simp add: mux_ok_def ewma_good_def counters_ok_def table_ok_def entry_ok_def demo_mux_def demo_world_def entry_data_def)
qed

lemma demo_world_ok: "world_ok demo_world"
proof -
  have mok: "mux_ok ewma_good ewma_wf ewma_act ewma_owner (circs demo_world) (ch_of demo_world) (mux_of demo_world)"
    using demo_mux_ok by (simp add: demo_world_def)
  have "circ_ok (ch_of demo_world) (chan_circid_map demo_world) 0 demo_circ"
    by (simp add: circ_ok_def demo_world_def demo_circ_def queue_ok_def)
  moreover have "circs demo_world a = Some c \<longleftrightarrow> a = 0 \<and> c = demo_circ" for a c by (auto simp: demo_world_def)
  moreover have "HT_FIND (cmux (chan demo_world)) k = Some e \<longleftrightarrow> k = (7, 5) \<and> e = demo_entry" for k e
    by (auto simp: demo_world_def demo_mux_def HT_FIND_def split: if_splits)
  moreover have "length (key_queue demo_world (7, 5)) = 1"
    by (simp add: key_queue_def demo_world_def chan_queue_def demo_circ_def)
  moreover have "dq_n (destroy_cell_queue (cmux (chan demo_world))) = 1" "length (dq_head (destroy_cell_queue (cmux (chan demo_world)))) = 1"
    "total_cells (CircuitMux.chanid_circid_map (cmux (chan demo_world))) = 1"
    by (simp_all add: demo_world_def demo_mux_def)
  ultimately show ?thesis unfolding world_ok_def using mok by simp
qed

section \<open>The theorems\<close>

text \<open>
  C15: Queueing a cell on a circuit that is attached to the channel, while memory is not short and the
  queue has room, succeeds: the packed cell is the new last cell of the circuit's queue, the
  multiplexer counts it, the channel is reported to the scheduler, and no other queue changes; in
  particular no assertion fails, whichever streams are blocked on the way.
\<close>

theorem append_cell_queues:
  assumes ok: "world_ok w" and e: "HT_FIND (cmux (chan w)) k = Some e" and ec: "entry_circ (circs w) (ch_of w) k e a"
    and c: "circs w a = Some c" "chan_queue (ch_of w) c = Some (q, b)" "\<not> mc_marked_for_close c"
    and oom: "quiet oom" and room: "cq_n q < queue_max w (mi_direction e)" "queue_max w (mi_direction e) \<le> INT32_MAX"
      "total_cells (CircuitMux.chanid_circid_map (cmux (chan w))) + 1 < 2 ^ 32"
  shows "\<exists>w'. append_cell_to_circuit_queue env oom a cell (mi_direction e) fromstream w = Some (1, w') \<and> world_ok w' \<and>
    world_abs w' = ((fst (world_abs w))(k := cq_head q @ [queued_copy env w cell]), snd (world_abs w)) \<and>
    fst (world_abs w) k = cq_head q \<and> ch_state (chan w') = ch_state (chan w) \<and>
    last (calls w') = Call_scheduler_channel_has_waiting_cells (ch_of w)"
proof -
  define q1 where "q1 = q\<lparr>cq_head := cq_head q @ [queued_copy env w cell], cq_n := cq_n q + 1\<rparr>"
  define c1 where "c1 = put_queue (ch_of w) q1 c"
  define w1 where "w1 = set_circ a c1 (w\<lparr>total_cells_allocated := total_cells_allocated w + 1\<rparr>)"
  have cok: "circ_ok (ch_of w) (chan_circid_map w) a c" using ok c(1) by (simp add: world_ok_def)
  have qn: "cq_n q = int (length (cq_head q))" using entry_place(2) [OF ok ec c(1)] c by (auto simp: queue_ok_def)
  have q1: "queue_ok q1" "cq_head q1 = cq_head q @ [queued_copy env w cell]" using qn by (simp_all add: q1_def queue_ok_def)
  have c1: "same_place c c1" "chan_queue (ch_of w) c1 = Some (q1, b)" "queue_ok (n_chan_cells c1)" "queue_ok (p_chan_cells c1)"
    using put_queue_ok [OF c(2) q1(1)] cok by (simp_all add: c1_def circ_ok_def)
  have w1: "circs w1 = (circs w)(a \<mapsto> c1)" "chan_circid_map w1 = chan_circid_map w" "chan w1 = chan w" "ewma_g w1 = ewma_g w"
    by (simp_all add: w1_def set_circ_def)
  have "\<exists>v c2. (if \<not> b \<and> cq_n q1 \<ge> cell_queue_highwatermark env then set_circuit_blocked_on_chan env a True w1 else Some w1) = Some v \<and>
      circs v = (circs w)(a \<mapsto> c2) \<and> chan v = chan w \<and> chan_circid_map v = chan_circid_map w \<and> ewma_g v = ewma_g w \<and>
      same_place c1 c2 \<and> n_chan_cells c2 = n_chan_cells c1 \<and> p_chan_cells c2 = p_chan_cells c1"
  proof (cases "\<not> b \<and> cq_n q1 \<ge> cell_queue_highwatermark env")
    case True
    then show ?thesis using blocked_ok [of w1 a c1 "(q1, b)" env True] w1 c1(2) by auto
  next
    case False
    then show ?thesis using w1 by (auto simp: same_place_def)
  qed
  then obtain v c2 where v: "(if \<not> b \<and> cq_n q1 \<ge> cell_queue_highwatermark env then set_circuit_blocked_on_chan env a True w1 else Some w1) = Some v"
      "circs v = (circs w)(a \<mapsto> c2)" "chan v = chan w" "chan_circid_map v = chan_circid_map w" "ewma_g v = ewma_g w"
    and c2: "same_place c1 c2" "n_chan_cells c2 = n_chan_cells c1" "p_chan_cells c2 = p_chan_cells c1" by blast
  define u where "u = (if b \<and> fromstream \<noteq> 0 \<and> (mi_direction e = CELL_DIRECTION_IN \<or> \<not> or_magic c)
      then set_block_state_for_streams env a True fromstream v else v)"
  have u: "circs u = (circs w)(a \<mapsto> c2)" "chan_circid_map u = chan_circid_map w" "chan u = chan w" "ewma_g u = ewma_g w"
    using v by (simp_all add: u_def set_block_state_for_streams_def Let_def split: option.split)
  obtain b2 where b2: "chan_queue (ch_of w) c2 = Some (q1, b2)" using chan_queue_same_place [OF c1(2) c2] by blast
  have sp: "same_place c c2" using c1(1) c2(1) by (simp add: same_place_def)
  have c2q: "queue_ok (n_chan_cells c2)" "queue_ok (p_chan_cells c2)" using c1(3,4) c2(2,3) by simp_all
  have small: "length (cq_head q1) < 2 ^ 32"
    "total_cells (CircuitMux.chanid_circid_map (cmux (chan w))) + length (cq_head q1) < 2 ^ 32 + length (cq_head q)"
    using qn q1(2) room by (simp_all add: INT32_MAX_def)
  obtain m' where m': "update_circuit_on_cmux env a (mi_direction e) u = Some (set_mux (ewma_g w, m') u)"
    "world_ok (set_mux (ewma_g w, m') u)"
    "world_abs (set_mux (ewma_g w, m') u) = ((fst (world_abs w))(k := cq_head q1), snd (world_abs w))" "fst (world_abs w) k = cq_head q"
    using requeue [OF ok e ec c(1,2) u sp c2q b2 small, of env] by blast
  define w' where "w' = note_call (Call_scheduler_channel_has_waiting_cells (ch_of w)) (set_mux (ewma_g w, m') u)"
  have "append_cell_to_circuit_queue env oom a cell (mi_direction e) fromstream w = Some (1, w')"
    using append_run [OF c ec oom room(1) q1_def w1_def [unfolded c1_def], of fromstream] v(1) m'(1) u(3)
    by (simp add: w'_def u_def [symmetric] Let_def) (simp add: set_mux_def)
  moreover have "world_ok w'" "world_abs w' = world_abs (set_mux (ewma_g w, m') u)"
    using m'(2) by (simp_all add: w'_def world_note)
  moreover have "ch_state (chan w') = ch_state (chan w)" using u(3) by (simp add: w'_def set_mux_def)
  moreover have "last (calls w') = Call_scheduler_channel_has_waiting_cells (ch_of w)" by (simp add: w'_def note_call_def)
  ultimately show ?thesis using m'(3,4) q1(2) by auto
qed

theorem append_cell_queues_witness:
  "\<exists>w'. append_cell_to_circuit_queue demo_env (\<lambda>v. (False, v)) 0 \<lparr>cell_circ_id = 5, cell_command = 3, cell_payload = [8, 9]\<rparr>
       CELL_DIRECTION_OUT 0 demo_world = Some (1, w') \<and> world_ok w' \<and>
     fst (world_abs w') (7, 5) = [\<lparr>body = [0, 0, 0, 5, 3, 1], inserted_timestamp = 0\<rparr>, 
       \<lparr>body = cell_pack \<lparr>cell_circ_id = 5, cell_command = 3, cell_payload = [8, 9]\<rparr> True, inserted_timestamp = 3\<rparr>]"
proof -
  have "wide_circ_ids (chan demo_world)" by (simp add: demo_world_def)
  moreover have "fe_stamp demo_env = 3" "cq_head (n_chan_cells demo_circ) = [\<lparr>body = [0, 0, 0, 5, 3, 1], inserted_timestamp = 0\<rparr>]"
    by (simp_all add: demo_env_def demo_circ_def)
  moreover have "quiet (\<lambda>v :: int relay_world. (False, v))" "\<not> mc_marked_for_close demo_circ"
    "cq_n (n_chan_cells demo_circ) < queue_max demo_world (mi_direction demo_entry)"
    "queue_max demo_world (mi_direction demo_entry) \<le> INT32_MAX"
    "total_cells (CircuitMux.chanid_circid_map (cmux (chan demo_world))) + 1 < 2 ^ 32"
    by (simp_all add: demo_world_def demo_circ_def demo_mux_def queue_max_def INT32_MAX_def)
  note append_cell_queues [OF demo_world_ok demo_entry this(2,1,3-5), where env = demo_env and fromstream = 0
      and cell = "\<lparr>cell_circ_id = 5, cell_command = 3, cell_payload = [8, 9]\<rparr>"]
  ultimately show ?thesis by auto
qed

text \<open>
  Clearing the queue of an attached circuit empties that queue, sets the multiplexer's count of the
  circuit to zero, so that the circuit is no longer picked, and leaves every other queue alone.
\<close>

theorem clear_queue_tells_mux:
  assumes ok: "world_ok w" and e: "HT_FIND (cmux (chan w)) k = Some e" and ec: "entry_circ (circs w) (ch_of w) k e a"
    and c: "circs w a = Some c"
  shows "\<exists>w'. circuit_clear_cell_queue env a w = Some w' \<and> world_ok w' \<and>
    world_abs w' = ((fst (world_abs w))(k := []), snd (world_abs w)) \<and> mux_abs (cmux (chan w')) k = Some 0"
proof -
  obtain q b where q: "chan_queue (ch_of w) c = Some (q, b)" using entry_place(2) [OF ok ec c] by blast
  define q1 where "q1 = \<lparr>cq_head = [] :: packed_cell_t list, cq_n = 0\<rparr>"
  define c1 where "c1 = put_queue (ch_of w) q1 c"
  define w1 where "w1 = set_circ a c1 (w\<lparr>total_cells_allocated := free_cells (cq_head q) (total_cells_allocated w)\<rparr>)"
  have cok: "circ_ok (ch_of w) (chan_circid_map w) a c" using ok c(1) by (simp add: world_ok_def)
  have q1: "queue_ok q1" by (simp add: q1_def queue_ok_def)
  have c1: "same_place c c1" "chan_queue (ch_of w) c1 = Some (q1, b)" "queue_ok (n_chan_cells c1)" "queue_ok (p_chan_cells c1)"
    using put_queue_ok [OF q q1] cok by (simp_all add: c1_def circ_ok_def)
  have w1: "circs w1 = (circs w)(a \<mapsto> c1)" "chan_circid_map w1 = chan_circid_map w" "chan w1 = chan w" "ewma_g w1 = ewma_g w"
    by (simp_all add: w1_def set_circ_def)
  have small: "length (cq_head q1) < 2 ^ 32"
    "total_cells (CircuitMux.chanid_circid_map (cmux (chan w))) + length (cq_head q1) < 2 ^ 32 + length (cq_head q)"
    using ok by (simp_all add: q1_def world_ok_def)
  obtain m' where m': "update_circuit_on_cmux env a (mi_direction e) w1 = Some (set_mux (ewma_g w, m') w1)"
    "circuitmux_is_circuit_attached (cmux (chan w)) c1 = Some True" "world_ok (set_mux (ewma_g w, m') w1)"
    "world_abs (set_mux (ewma_g w, m') w1) = ((fst (world_abs w))(k := cq_head q1), snd (world_abs w))"
    "HT_FIND m' = (HT_FIND (cmux (chan w)))(k \<mapsto> e\<lparr>cell_count := of_nat (length (cq_head q1))\<rparr>)"
    using requeue [OF ok e ec c q w1 c1(1,3,4,2) small, of env] by blast
  have dir: "(if n_chan c = Some (ch_of w) then CELL_DIRECTION_OUT else CELL_DIRECTION_IN) = mi_direction e"
    using entry_direction(5) [OF ec c] by (cases "mi_direction e") auto
  have "circuit_clear_cell_queue env a w = Some (set_mux (ewma_g w, m') w1)"
    using c q m'(1,2) dir w1(3) by (simp add: circuit_clear_cell_queue_def cell_queue_clear_def Let_def q1_def [symmetric]
        c1_def [symmetric] w1_def [symmetric])
  then show ?thesis using m' by (auto simp: q1_def mux_abs_def set_mux_def)
qed

theorem clear_queue_tells_mux_witness:
  "\<exists>w'. circuit_clear_cell_queue demo_env 0 demo_world = Some w' \<and> world_ok w' \<and> fst (world_abs w') (7, 5) = [] \<and>
     mux_abs (cmux (chan w')) (7, 5) = Some 0"
  using clear_queue_tells_mux [OF demo_world_ok demo_entry(1-3), of demo_env] by auto

text \<open>
  C13: Flushing a channel that is not closed never reaches a failing assertion and returns: at most
  \<open>max\<close> cells are flushed, the invariant of the channel is kept, and fewer than \<open>max\<close> are flushed only
  when no cell is left in any queue of the channel; whatever the lower layer answers and whatever the
  arithmetic on doubles does.
\<close>

theorem channel_flush_total:
  assumes "world_ok w" and "chan_live (chan w)" and "0 \<le> maxc"
  shows "\<exists>n w'. channel_flush_from_first_active_circuit env w maxc = Some (n, w') \<and> 0 \<le> n \<and> n \<le> maxc \<and>
    world_ok w' \<and> chan_live (chan w') \<and> (n < maxc \<longrightarrow> drained w')"
  using channel_flush_ok [OF assms, of env] by blast

theorem channel_flush_total_witness:
  "\<exists>n w'. channel_flush_from_first_active_circuit demo_env demo_world 5 = Some (n, w') \<and> n \<le> 5 \<and> world_ok w' \<and>
      (n < 5 \<longrightarrow> drained w')"
proof -
  have "chan_live (chan demo_world)" by (simp add: chan_live_def demo_world_def)
  then show ?thesis using channel_flush_total [OF demo_world_ok, of 5 demo_env] by auto
qed

text \<open>
  C8: On an open channel whose lower layer takes every cell, flushing \<open>n\<close> cells is \<open>n\<close> steps of the
  abstract scheduler: each step writes the first cell of the queue of one circuit, or the first DESTROY
  cell, so that cells of one circuit never overtake each other and none is lost or sent twice.
\<close>

theorem channel_flush_refines_scheduler:
  assumes "world_ok w" and "ch_state (chan w) = CHANNEL_STATE_OPEN" and "takes_all env" and "0 \<le> maxc"
  shows "\<exists>n w'. channel_flush_from_first_active_circuit env w maxc = Some (n, w') \<and>
    (send_one (wide_circ_ids (chan w)) ^^ nat n) (world_abs w) (world_abs w') \<and>
    ch_state (chan w') = CHANNEL_STATE_OPEN \<and> (n < maxc \<longrightarrow> drained w')"
proof -
  have "chan_live (chan w)" using assms(2) by (simp add: chan_live_def)
  then show ?thesis using channel_flush_ok [OF assms(1) _ assms(4), of env] assms(2,3) by blast
qed

theorem channel_flush_refines_scheduler_witness:
  "\<exists>n w'. channel_flush_from_first_active_circuit demo_env demo_world 5 = Some (n, w') \<and>
     (send_one True ^^ nat n) (world_abs demo_world) (world_abs w') \<and> (n < 5 \<longrightarrow> drained w')"
proof -
  have "ch_state (chan demo_world) = CHANNEL_STATE_OPEN" "wide_circ_ids (chan demo_world) = True" "takes_all demo_env"
    by (simp_all add: demo_world_def takes_all_def demo_env_def)
  then show ?thesis using channel_flush_refines_scheduler [OF demo_world_ok, of demo_env 5] by auto
qed

end
