(* ===== verification/CircuitMuxSpec.thy ===== *)
theory CircuitMuxSpec
  imports ChannelQueue
begin

text \<open>
  The abstract multiplexer: a map from the attached circuits to the number of cells that wait on each,
  and the number of DESTROY cells.  The multiplexer with its policy implements it, and a multiplexer
  that is no longer used can be taken down.
\<close>

section \<open>Calls\<close>

text \<open>In which direction a circuit uses the channel \<open>ch\<close>, and under which key.  Circuits have different
  keys on a channel, and each knows its own address.\<close>

definition circ_key :: "u64 \<Rightarrow> mux_circuit_t \<Rightarrow> (cell_direction_t \<times> chanid_circid) option" where
  "circ_key ch c =
     (if n_chan c = Some ch then Some (CELL_DIRECTION_OUT, (ch, n_circ_id c))
      else if or_magic c \<and> p_chan c = Some ch then Some (CELL_DIRECTION_IN, (ch, p_circ_id c)) else None)"

definition circs_ok :: "u64 \<Rightarrow> (nat \<Rightarrow> mux_circuit_t option) \<Rightarrow> bool" where
  "circs_ok ch cs =
     ((\<forall>a c. cs a = Some c \<longrightarrow> circ_addr c = a) \<and>
      (\<forall>a a' c c' d d' k. cs a = Some c \<longrightarrow> cs a' = Some c' \<longrightarrow> circ_key ch c = Some (d, k) \<longrightarrow> circ_key ch c' = Some (d', k) \<longrightarrow> a = a'))"

text \<open>The calls: attaching, detaching, a new number of cells, and one turn of service, which sends one
  cell of the circuit that the multiplexer chooses.\<close>

datatype mux_op = Op_attach nat | Op_detach nat | Op_set nat u32 | Op_serve

fun mux_exec ::
  "('g, 'p) circuitmux_policy_t \<Rightarrow> (nat \<Rightarrow> mux_circuit_t option) \<Rightarrow> u64 \<Rightarrow> mux_op \<Rightarrow> ('g, 'p) mux_state \<Rightarrow> ('g, 'p) mux_state option" where
  "mux_exec pol cs ch (Op_attach a) s = do { c \<leftarrow> cs a; (dir, k) \<leftarrow> circ_key ch c; circuitmux_attach_circuit pol s c dir }"
| "mux_exec pol cs ch (Op_detach a) s = do { c \<leftarrow> cs a; circuitmux_detach_circuit pol s c }"
| "mux_exec pol cs ch (Op_set a n) s = do { c \<leftarrow> cs a; circuitmux_set_num_cells pol s c n }"
| "mux_exec pol cs ch Op_serve s =
     do { (r, m) \<leftarrow> circuitmux_get_first_active_circuit pol s;
          case r of
            Send_circuit (Some a) \<Rightarrow> do { c \<leftarrow> cs a; circuitmux_notify_xmit_cells pol (fst s, m) c 1 }
          | _ \<Rightarrow> Some (fst s, m) }"

type_synonym mux_counts = "(chanid_circid \<Rightarrow> u32 option) \<times> int"

text \<open>What the calls may do to the counts; a call without a step is a misuse.  A turn of service lowers
  the count of one circuit that has cells, or leaves the counts alone: for a DESTROY cell, or when
  nothing waits.\<close>

inductive mux_spec :: "(nat \<Rightarrow> mux_circuit_t option) \<Rightarrow> u64 \<Rightarrow> mux_op \<Rightarrow> mux_counts \<Rightarrow> mux_counts \<Rightarrow> bool" for cs ch where
  attach: "cs a = Some c \<Longrightarrow> circ_key ch c = Some (dir, k) \<Longrightarrow> circ_direction c dir = Some (Some ch, n, snd k) \<Longrightarrow>
    snd k \<noteq> 0 \<Longrightarrow> A k = None \<Longrightarrow> mux_spec cs ch (Op_attach a) (A, D) (A(k \<mapsto> n), D)"
| detach: "cs a = Some c \<Longrightarrow> circ_key ch c = Some (dir, k) \<Longrightarrow> A k = Some n \<Longrightarrow> mux_spec cs ch (Op_detach a) (A, D) (A(k := None), D)"
| set_count: "cs a = Some c \<Longrightarrow> circ_key ch c = Some (dir, k) \<Longrightarrow> A k = Some m \<Longrightarrow> mux_spec cs ch (Op_set a n) (A, D) (A(k \<mapsto> n), D)"
| serve: "A k = Some m \<Longrightarrow> 0 < m \<Longrightarrow> mux_spec cs ch Op_serve (A, D) (A(k \<mapsto> m - 1), D)"
| serve_destroy: "D \<noteq> 0 \<Longrightarrow> mux_spec cs ch Op_serve (A, D) (A, D)"
| idle: "\<forall>k m. A k = Some m \<longrightarrow> m = 0 \<Longrightarrow> mux_spec cs ch Op_serve (A, 0) (A, 0)"

inductive_cases spec_attachE: "mux_spec cs ch (Op_attach a) s s'"
inductive_cases spec_detachE: "mux_spec cs ch (Op_detach a) s s'"
inductive_cases spec_setE: "mux_spec cs ch (Op_set a n) s s'"

definition mux_counts :: "'p circuitmux_t \<Rightarrow> mux_counts" where
  "mux_counts m = (mux_abs m, dq_n (destroy_cell_queue m))"

lemma entry_circ_iff:
  "entry_circ cs ch k e a \<longleftrightarrow> (\<exists>c. cs a = Some c \<and> circ_addr c = a \<and> circ_key ch c = Some (mi_direction e, k))"
  by (cases "mi_direction e"; cases k) (auto simp: entry_circ_def circ_key_def split: option.splits)

lemma mux_abs_last_cell [simp]: "mux_abs (m\<lparr>last_cell_was_destroy := b\<rparr>) = mux_abs m"
  by (simp add: mux_abs_def fun_eq_iff)

lemma mux_counts_upd:
  assumes "same_destroys m m'" "HT_FIND m' = (HT_FIND m)(k := x)"
  shows "mux_counts m' = ((mux_abs m)(k := map_option cell_count x), dq_n (destroy_cell_queue m))"
  using assms by (auto simp: mux_counts_def mux_abs_def same_destroys_def fun_eq_iff)

context cmux_policy
begin

text \<open>An attached circuit is the circuit of its entry.\<close>

lemma attached_entry:
  assumes cs: "circs_ok ch cs" and ok: "ok cs ch (g, m)" and a: "cs a = Some c" "circ_key ch c = Some (dir, k)" "mux_abs m k = Some n"
  obtains e where "HT_FIND m k = Some e" "cell_count e = n" "entry_circ cs ch k e a"
proof -
  obtain e where e: "HT_FIND m k = Some e" "cell_count e = n" using a(3) by (auto simp: mux_abs_def)
  obtain ow ac where t: "table_ok cs ch (chanid_circid_map m) ow ac" using okD [OF ok] by metis
  have "(k, e) \<in> set (chanid_circid_map m)" using e(1) by (simp add: HT_FIND_def map_of_SomeD)
  then obtain a' where a': "entry_circ cs ch k e a'" using table_entry [OF t] by metis
  then obtain c' where "cs a' = Some c'" "circ_key ch c' = Some (mi_direction e, k)" by (auto simp: entry_circ_iff)
  then have "a' = a" using cs a(1,2) unfolding circs_ok_def by blast
  then show thesis using that e a' by blast
qed

lemma serve_step:
  assumes ok: "ok cs ch (g, m)" and small: "total_cells (chanid_circid_map m) < 2 ^ 32"
  shows "\<exists>s'. mux_exec pol cs ch Op_serve (g, m) = Some s' \<and> ok cs ch s' \<and> mux_spec cs ch Op_serve (mux_counts m) (mux_counts (snd s'))"
proof -
  obtain r where r: "circuitmux_get_first_active_circuit pol (g, m) =
      Some (r, case r of Send_circuit None \<Rightarrow> m | _ \<Rightarrow> m\<lparr>last_cell_was_destroy := (r = Send_destroy)\<rparr>)"
    and R: "case r of
       Send_destroy \<Rightarrow> dq_n (destroy_cell_queue m) \<noteq> 0
     | Send_circuit None \<Rightarrow> active_entries (chanid_circid_map m) = [] \<and> dq_n (destroy_cell_queue m) = 0
     | Send_circuit (Some a) \<Rightarrow> (\<exists>k e p. HT_FIND m k = Some e \<and> cell_count e > 0 \<and> cm_policy_data m = Some p \<and>
         first p = mi_policy_data e \<and> entry_circ cs ch k e a)"
    using get_first_active_circuit [OF ok small] by blast
  show ?thesis
  proof (cases r)
    case Send_destroy
    then show ?thesis using r R ok by (simp add: mux_counts_def serve_destroy)
  next
    case (Send_circuit x)
    show ?thesis
    proof (cases x)
      case None
      have "mux_abs m k = Some n \<Longrightarrow> n = 0" for k n
        using R Send_circuit None
        by (auto simp: mux_abs_def HT_FIND_def active_entries_def filter_empty_conv word_gt_0 dest: map_of_SomeD)
      then show ?thesis using r R ok Send_circuit None by (simp add: mux_counts_def idle)
    next
      case (Some a)
      let ?m = "m\<lparr>last_cell_was_destroy := False\<rparr>"
      obtain k e p where e: "HT_FIND ?m k = Some e" "0 < cell_count e" "cm_policy_data ?m = Some p" "first p = mi_policy_data e"
          "entry_circ cs ch k e a" using R Send_circuit Some by auto
      obtain c where c: "cs a = Some c" using e(5) by (auto simp: entry_circ_iff)
      have ok': "ok cs ch (g, ?m)" using ok by simp
      have le: "(1 :: u32) \<le> cell_count e" using e(2) by (simp add: word_le_nat_alt u32_positive Suc_le_eq)
      obtain g' m' where x: "circuitmux_notify_xmit_cells pol (g, ?m) c 1 = Some (g', m')" "ok cs ch (g', m')"
        "HT_FIND m' = (HT_FIND ?m)(k \<mapsto> e\<lparr>cell_count := cell_count e - 1\<rparr>)" "same_destroys ?m m'"
        using notify_xmit_cells [OF ok' e(1,5) c _ le e(3,4)] by auto
      have "mux_counts m' = ((mux_abs m)(k \<mapsto> cell_count e - 1), dq_n (destroy_cell_queue m))"
        using mux_counts_upd [OF x(4,3)] by (simp add: mux_abs_def fun_eq_iff)
      moreover have "mux_abs m k = Some (cell_count e)" using e(1) by (simp add: mux_abs_def)
      ultimately have "mux_spec cs ch Op_serve (mux_counts m) (mux_counts m')" using e(2) by (simp add: mux_counts_def serve)
      moreover have "mux_exec pol cs ch Op_serve (g, m) = Some (g', m')" using r Send_circuit Some c x(1) by simp
      ultimately show ?thesis using x(2) by auto
    qed
  qed
qed

lemma exec_refines:
  assumes cs: "circs_ok ch cs" and ok: "ok cs ch (g, m)" and small: "total_cells (chanid_circid_map m) < 2 ^ 32"
    and sp: "mux_spec cs ch oper (mux_counts m) A'"
  shows "\<exists>s'. mux_exec pol cs ch oper (g, m) = Some s' \<and> ok cs ch s' \<and> mux_spec cs ch oper (mux_counts m) (mux_counts (snd s'))"
proof (cases oper)
  case (Op_attach a)
  from sp [unfolded Op_attach mux_counts_def] obtain c dir k n where c: "cs a = Some c" "circ_key ch c = Some (dir, k)"
    "circ_direction c dir = Some (Some ch, n, snd k)" "snd k \<noteq> 0" "mux_abs m k = None" by (auto elim!: spec_attachE)
  have k: "k = (ch, snd k)" using c(2) by (auto simp: circ_key_def split: if_splits)
  have new: "HT_FIND m (ch, snd k) = None" using c(5) k by (auto simp: mux_abs_def)
  have "entry_circ cs ch (ch, snd k) \<lparr>cell_count = x, mi_direction = dir, mi_policy_data = y\<rparr> a" for x y
    using c(1,2) k cs by (simp add: entry_circ_iff circs_ok_def)
  then obtain m' e where m': "circuitmux_attach_circuit pol (g, m) c dir = Some (g, m')" "ok cs ch (g, m')"
    "HT_FIND m' = (HT_FIND m)(k \<mapsto> e)" "cell_count e = n" "same_destroys m m'"
    using attach_circuit [OF ok c(3,4,1) new] k by auto
  have "mux_spec cs ch oper (mux_counts m) (mux_counts m')"
    unfolding mux_counts_upd [OF m'(5,3)] Op_attach using attach [where cs = cs and A = "mux_abs m", OF c] m'(4) by (simp add: mux_counts_def)
  then show ?thesis using m'(1,2) c Op_attach by auto
next
  case (Op_detach a)
  from sp [unfolded Op_detach mux_counts_def] obtain c dir k n where c: "cs a = Some c" "circ_key ch c = Some (dir, k)"
    "mux_abs m k = Some n" by (auto elim!: spec_detachE)
  obtain e where e: "HT_FIND m k = Some e" "entry_circ cs ch k e a" using attached_entry [OF cs ok c] by metis
  obtain m' where m': "circuitmux_detach_circuit pol (g, m) c = Some (g, m')" "ok cs ch (g, m')"
    "HT_FIND m' = (HT_FIND m)(k := None)" "same_destroys m m'" using detach_circuit [OF ok e c(1)] by blast
  have "mux_spec cs ch oper (mux_counts m) (mux_counts m')"
    unfolding mux_counts_upd [OF m'(4,3)] Op_detach using detach [where cs = cs and A = "mux_abs m", OF c] by (simp add: mux_counts_def)
  then show ?thesis using m'(1,2) c Op_detach by auto
next
  case (Op_set a n)
  from sp [unfolded Op_set mux_counts_def] obtain c dir k x where c: "cs a = Some c" "circ_key ch c = Some (dir, k)"
    "mux_abs m k = Some x" by (auto elim!: spec_setE)
  obtain e where e: "HT_FIND m k = Some e" "entry_circ cs ch k e a" using attached_entry [OF cs ok c] by metis
  obtain m' where m': "circuitmux_set_num_cells pol (g, m) c n = Some (g, m')" "ok cs ch (g, m')"
    "HT_FIND m' = (HT_FIND m)(k \<mapsto> e\<lparr>cell_count := n\<rparr>)" "same_destroys m m'" using set_num_cells [OF ok e c(1)] by blast
  have "mux_spec cs ch oper (mux_counts m) (mux_counts m')"
    unfolding mux_counts_upd [OF m'(4,3)] Op_set using set_count [where cs = cs and A = "mux_abs m", OF c] by (simp add: mux_counts_def)
  then show ?thesis using m'(1,2) c Op_set by auto
next
  case Op_serve
  then show ?thesis using serve_step [OF ok small] by simp
qed

end

section \<open>The multiplexer of the program\<close>

text \<open>
  C12: The circuit multiplexer with the EWMA policy implements the abstract map from circuits to cell
  counts: every call that the map allows (attach a circuit that is not attached, detach one that is, set
  a count, serve one cell) returns without a failing assertion, keeps the invariant of the counters, the
  table and the policy's queue, and changes the counts of cells exactly as the map says; in
  particular a turn of service takes one cell from a circuit that has cells, and finds nothing to serve
  only when nothing waits.
\<close>

theorem mux_refines_counts:
  assumes "circs_ok ch cs" and "mux_ok ewma_good ewma_wf ewma_act ewma_owner cs ch (g, m)"
    and "total_cells (CircuitMux.chanid_circid_map m) < 2 ^ 32" and "mux_spec cs ch oper (mux_counts m) A'"
  shows "\<exists>s'. mux_exec (ewma_policy ops rnd) cs ch oper (g, m) = Some s' \<and>
    mux_ok ewma_good ewma_wf ewma_act ewma_owner cs ch s' \<and> mux_spec cs ch oper (mux_counts m) (mux_counts (snd s'))"
  by (rule ewma.exec_refines [OF assms])

theorem mux_refines_counts_witness:
  "\<exists>s'. mux_exec (ewma_policy demo_ops 0) (circs demo_world) 7 (Op_set 0 9) (mux_of demo_world) = Some s' \<and>
     mux_ok ewma_good ewma_wf ewma_act ewma_owner (circs demo_world) 7 s' \<and> mux_abs (snd s') (7, 5) = Some 9"
proof -
  have cs: "circs_ok 7 (circs demo_world)" by (auto simp: circs_ok_def demo_world_def demo_circ_def split: if_splits)
  have mok: "mux_ok ewma_good ewma_wf ewma_act ewma_owner (circs demo_world) 7 (ewma_g demo_world, cmux (chan demo_world))"
    using demo_mux_ok by (simp add: demo_world_def)
  have sm: "total_cells (CircuitMux.chanid_circid_map (cmux (chan demo_world))) < 2 ^ 32" by (simp add: demo_world_def demo_mux_def)
  have key: "circ_key 7 demo_circ = Some (CELL_DIRECTION_OUT, (7, 5))" by (simp add: circ_key_def demo_circ_def)
  have "mux_abs (cmux (chan demo_world)) (7, 5) = Some 1" using demo_entry(1) by (simp add: mux_abs_def)
  note set_count [where cs = "circs demo_world" and A = "mux_abs (cmux (chan demo_world))", OF demo_entry(3) key this,
      of 9 "dq_n (destroy_cell_queue (cmux (chan demo_world)))"]
  from mux_refines_counts [OF cs mok sm this [folded mux_counts_def], of demo_ops 0] show ?thesis
    using demo_entry(3) key by (auto simp: mux_counts_def elim!: spec_setE)
qed

text \<open>
  C16: A multiplexer can always be taken down: when the tables of circuits and channels still know the
  circuits of its entries, detaching all circuits reports each of them once and empties the table, and
  then clearing the policy and freeing the multiplexer reach no failing assertion; the DESTROY cells
  that were still queued are taken off the global counter.
\<close>

theorem mux_teardown:
  assumes "mux_ok ewma_good ewma_wf ewma_act ewma_owner cs ch (g, m)" and "lookup_ok cs ch lookup (CircuitMux.chanid_circid_map m)"
  shows "\<exists>g' m' m''. circuitmux_detach_all_circuits (ewma_policy ops rnd) lookup (g, m) =
      Some ((g, m'), map (\<lambda>(k, e). circ_addr (the (lookup (fst k) (snd k)))) (CircuitMux.chanid_circid_map m)) \<and>
    CircuitMux.chanid_circid_map m' = [] \<and> circuitmux_clear_policy (ewma_policy ops rnd) lookup (g, m') = Some (g', m'') \<and>
    circuitmux_free (ewma_policy ops rnd) ctr (g', m'') =
      Some (g', if dq_n (destroy_cell_queue m) > 0 then ctr - dq_n (destroy_cell_queue m) else ctr)"
proof -
  obtain m' where m': "circuitmux_detach_all_circuits (ewma_policy ops rnd) lookup (g, m) =
      Some ((g, m'), map (\<lambda>(k, e). circ_addr (the (lookup (fst k) (snd k)))) (CircuitMux.chanid_circid_map m))"
    "mux_ok ewma_good ewma_wf ewma_act ewma_owner cs ch (g, m')" "CircuitMux.chanid_circid_map m' = []" "same_destroys m m'"
    using ewma.detach_all_circuits [OF assms] by blast
  have "destroy_cell_queue m' = destroy_cell_queue m" using m'(4) by (simp add: same_destroys_def)
  from ewma.clear_and_free [OF m'(2,3), of ops rnd lookup ctr, unfolded this] show ?thesis using m'(1,3) by blast
qed

theorem mux_teardown_witness:
  "\<exists>m'. circuitmux_detach_all_circuits (ewma_policy demo_ops 0) (\<lambda>ch i. Some demo_circ) (mux_of demo_world) =
     Some ((ewma_g demo_world, m'), [0]) \<and> CircuitMux.chanid_circid_map m' = []"
proof -
  have mok: "mux_ok ewma_good ewma_wf ewma_act ewma_owner (circs demo_world) 7 (mux_of demo_world)"
    using demo_mux_ok by (simp add: demo_world_def)
  have tab: "CircuitMux.chanid_circid_map (cmux (chan demo_world)) = [((7, 5), demo_entry)]" by (simp add: demo_world_def demo_mux_def)
  have "circ_addr demo_circ = 0" "ch_of demo_world = 7" by (simp_all add: demo_circ_def demo_world_def)
  then have "lookup_ok (circs demo_world) 7 (\<lambda>ch i. Some demo_circ) (CircuitMux.chanid_circid_map (cmux (chan demo_world)))"
    using demo_entry(2,3) by (simp add: lookup_ok_def tab)
  from mux_teardown [OF mok this, of demo_ops 0] show ?thesis by (auto simp: tab \<open>circ_addr demo_circ = 0\<close>)
qed

text \<open>
  \<^verbatim>\<open>circuitmux_detach_all_circuits\<close> says that it complains and moves on when it does not find the channel
  or the circuit of an entry; with a policy that keeps data for every circuit it aborts, since the data
  of such an entry are not released and the assertion after the complaint fails.
\<close>

theorem detach_all_unknown_aborts:
  assumes "CircuitMux.chanid_circid_map m = (k, e) # M" and "lookup (fst k) (snd k) = None" and "mi_policy_data e \<noteq> None"
  shows "circuitmux_detach_all_circuits pol lookup (g, m) = None"
  using assms by (cases k) (auto simp: circuitmux_detach_all_circuits_def tor_assert_def)

end
