(* ===== verification/Scheduler.thy ===== *)
theory Scheduler
  imports Smartlist NetParams "HOL-Library.Signed_Division"
begin

text \<open>
  The channel scheduler: \<^verbatim>\<open>core/or/scheduler.c\<close> with its two implementations
  \<^verbatim>\<open>core/or/scheduler_vanilla.c\<close> and \<^verbatim>\<open>core/or/scheduler_kist.c\<close>.  It keeps, for every channel, whether the
  channel has cells and whether it can write, and a priority queue of the channels for which both hold.

  A channel is named by its \<^verbatim>\<open>global_identifier\<close>.  The scheduler reaches the channels through the functions
  of \<open>chan_ops\<close>, which work on the rest of the program's state, of type \<open>'w\<close>; \<open>SchedulerNet\<close> gives them on
  the channels of \<open>ChannelFlush\<close>.  The two fields of \<^verbatim>\<open>channel_t\<close> that belong to the scheduler,
  \<^verbatim>\<open>scheduler_state\<close> and \<^verbatim>\<open>sched_heap_idx\<close>, are part of the scheduler's state here.  The answers of the
  operating system (room in the lower layer, what the kernel says about a socket) are functions of
  \<open>chan_ops\<close> too; \<open>now_ms\<close> is the clock in milliseconds.
\<close>

section \<open>State\<close>

datatype scheduler_state_t =
  SCHED_CHAN_IDLE | SCHED_CHAN_WAITING_FOR_CELLS | SCHED_CHAN_WAITING_TO_WRITE | SCHED_CHAN_PENDING

datatype scheduler_types_t = SCHEDULER_NONE | SCHEDULER_VANILLA | SCHEDULER_KIST | SCHEDULER_KIST_LITE

text \<open>The two scheduler objects; the type of the KIST object is a variable.\<close>

datatype scheduler_obj = Vanilla_scheduler | Kist_scheduler

record socket_table_ent_t =
  written :: u64
  limit :: u64
  se_cwnd :: u32
  se_unacked :: u32
  se_mss :: u32
  se_notsent :: u32

text \<open>
  \<open>op_flush\<close> is \<^verbatim>\<open>channel_flush_some_cells\<close>, \<open>op_more\<close> \<^verbatim>\<open>channel_more_to_flush\<close>, \<open>op_open\<close>
  \<^verbatim>\<open>CHANNEL_IS_OPEN\<close>, \<open>op_compare\<close> \<^verbatim>\<open>scheduler_compare_channels\<close>.  \<open>op_num_writeable\<close> is the method of the lower
  layer, \<open>op_wide\<close> \<^verbatim>\<open>wide_circ_ids\<close>, \<open>op_outbuf_len\<close> the length of the output buffer.
  \<open>op_handle_write\<close> is \<^verbatim>\<open>connection_handle_write\<close>, with whether it reports room
  (\<^verbatim>\<open>connection_or_flushed_some\<close>).  \<open>op_getsockopt\<close> answers the congestion window, the unacknowledged
  packets and the segment size, \<open>op_ioctl\<close> the bytes not sent; an error says whether it is
  \<^verbatim>\<open>EINVAL\<close>.  \<open>op_scale\<close> multiplies by the buffer factor, a double, and clamps to 64 bits.
\<close>

record 'w chan_ops =
  op_flush :: "u64 \<Rightarrow> int \<Rightarrow> 'w \<Rightarrow> (int \<times> 'w) option"
  op_more :: "u64 \<Rightarrow> 'w \<Rightarrow> bool"
  op_open :: "u64 \<Rightarrow> 'w \<Rightarrow> bool"
  op_compare :: "'w \<Rightarrow> u64 \<Rightarrow> u64 \<Rightarrow> int"
  op_num_writeable :: "u64 \<Rightarrow> 'w \<Rightarrow> int"
  op_wide :: "u64 \<Rightarrow> 'w \<Rightarrow> bool"
  op_outbuf_len :: "u64 \<Rightarrow> 'w \<Rightarrow> int"
  op_handle_write :: "u64 \<Rightarrow> 'w \<Rightarrow> bool \<times> 'w"
  op_kist_support :: bool
  op_getsockopt :: "u64 \<Rightarrow> 'w \<Rightarrow> bool + (u32 \<times> u32 \<times> u32)"
  op_ioctl :: "u64 \<Rightarrow> 'w \<Rightarrow> bool + u32"
  op_scale :: "int \<Rightarrow> int"

record sched_options =
  SchedulerTypes :: "scheduler_types_t list"
  KISTSchedRunInterval :: int
  server_mode :: bool
  sched_consensus :: "networkstatus option"

text \<open>\<open>pending_exists\<close> and \<open>run_sched_ev\<close> say whether the list and the event have been created, \<open>ev_armed\<close>
  whether the event is active or will be within \<open>next_run\<close> microseconds.\<close>

record 'w sched_t =
  the_scheduler :: "scheduler_obj option"
  kist_type :: scheduler_types_t
  channels_pending :: "u64 list"
  pending_exists :: bool
  scheduler_state :: "u64 \<Rightarrow> scheduler_state_t"
  sched_heap_idx :: "u64 \<Rightarrow> int"
  run_sched_ev :: bool
  ev_armed :: bool
  next_run :: int
  socket_table :: "u64 \<Rightarrow> socket_table_ent_t option"
  kist_lite_mode :: bool
  kist_no_kernel_support :: bool
  sched_run_interval :: int
  scheduler_last_run :: int
  now_ms :: int
  net :: 'w

abbreviation "KIST_SCHED_RUN_INTERVAL_DEFAULT \<equiv> 2 :: int"
abbreviation "KIST_SCHED_RUN_INTERVAL_MIN \<equiv> 2 :: int"
abbreviation "KIST_SCHED_RUN_INTERVAL_MAX \<equiv> 100 :: int"
abbreviation "CELL_MAX_NETWORK_SIZE \<equiv> 514 :: int"
abbreviation "TLS_PER_CELL_OVERHEAD \<equiv> 29 :: int"
abbreviation "MAX_FLUSH_CELLS \<equiv> 1000 :: int"

section \<open>The list of pending channels\<close>

text \<open>The pointers of the list, each with the index that its channel stores, and the way back.\<close>

abbreviation "pend_get \<equiv> \<lambda>x :: u64 \<times> int. snd x"
abbreviation "pend_set \<equiv> \<lambda>i (x :: u64 \<times> int). (fst x, i)"

definition pend_items :: "'w sched_t \<Rightarrow> (u64 \<times> int) list" where
  "pend_items s = map (\<lambda>c. (c, sched_heap_idx s c)) (channels_pending s)"

definition pend_store :: "(u64 \<times> int) list \<Rightarrow> 'w sched_t \<Rightarrow> 'w sched_t" where
  "pend_store xs s =
     s\<lparr>channels_pending := map fst xs,
       sched_heap_idx := (\<lambda>c. case map_of xs c of None \<Rightarrow> sched_heap_idx s c | Some i \<Rightarrow> i)\<rparr>"

definition set_heap_idx :: "u64 \<Rightarrow> int \<Rightarrow> 'w sched_t \<Rightarrow> 'w sched_t" where
  "set_heap_idx c i s = s\<lparr>sched_heap_idx := (sched_heap_idx s)(c := i)\<rparr>"

definition pend_cmp :: "'w chan_ops \<Rightarrow> 'w sched_t \<Rightarrow> u64 \<times> int \<Rightarrow> u64 \<times> int \<Rightarrow> int" where
  "pend_cmp ops s x y = op_compare ops (net s) (fst x) (fst y)"

definition pend_add :: "'w chan_ops \<Rightarrow> u64 \<Rightarrow> 'w sched_t \<Rightarrow> 'w sched_t" where
  "pend_add ops c s = pend_store (smartlist_pqueue_add (pend_cmp ops s) pend_set (pend_items s) (c, sched_heap_idx s c)) s"

definition pend_pop :: "'w chan_ops \<Rightarrow> 'w sched_t \<Rightarrow> (u64 \<times> 'w sched_t) option" where
  "pend_pop ops s =
     do { ((c, i), xs) \<leftarrow> smartlist_pqueue_pop (pend_cmp ops s) pend_set (pend_items s);
          Some (c, set_heap_idx c i (pend_store xs s)) }"

definition pend_remove :: "'w chan_ops \<Rightarrow> u64 \<Rightarrow> 'w sched_t \<Rightarrow> 'w sched_t option" where
  "pend_remove ops c s =
     do { xs \<leftarrow> smartlist_pqueue_remove (pend_cmp ops s) pend_get pend_set (pend_items s) (c, sched_heap_idx s c);
          Some (set_heap_idx c (- 1) (pend_store xs s)) }"

section \<open>scheduler.c\<close>

definition scheduler_set_channel_state :: "u64 \<Rightarrow> scheduler_state_t \<Rightarrow> 'w sched_t \<Rightarrow> 'w sched_t" where
  "scheduler_set_channel_state c st s = s\<lparr>scheduler_state := (scheduler_state s)(c := st)\<rparr>"

definition scheduler_ev_add :: "int \<Rightarrow> 'w sched_t \<Rightarrow> 'w sched_t option" where
  "scheduler_ev_add usec s = do { tor_assert (run_sched_ev s); Some (s\<lparr>ev_armed := True, next_run := usec\<rparr>) }"

definition scheduler_ev_active :: "'w sched_t \<Rightarrow> 'w sched_t option" where
  "scheduler_ev_active s = do { tor_assert (run_sched_ev s); Some (s\<lparr>ev_armed := True, next_run := 0\<rparr>) }"

definition have_work :: "'w sched_t \<Rightarrow> bool" where
  "have_work s = (pending_exists s \<and> channels_pending s \<noteq> [])"

definition vanilla_scheduler_schedule :: "'w sched_t \<Rightarrow> 'w sched_t option" where
  "vanilla_scheduler_schedule s = (if \<not> have_work s then Some s else scheduler_ev_active s)"

definition kist_scheduler_schedule :: "'w sched_t \<Rightarrow> 'w sched_t option" where
  "kist_scheduler_schedule s =
     (if \<not> have_work s then Some s
      else let diff = now_ms s - scheduler_last_run s;
               diff = (if diff < 0 then 0 else diff)
           in if diff < sched_run_interval s then scheduler_ev_add ((sched_run_interval s - diff) * 1000) s
              else scheduler_ev_active s)"

text \<open>The method \<^verbatim>\<open>schedule\<close> of the scheduler that is set.\<close>

definition sched_schedule :: "'w sched_t \<Rightarrow> 'w sched_t option" where
  "sched_schedule s =
     do { obj \<leftarrow> the_scheduler s;
          case obj of Vanilla_scheduler \<Rightarrow> vanilla_scheduler_schedule s | Kist_scheduler \<Rightarrow> kist_scheduler_schedule s }"

definition scheduler_channel_doesnt_want_writes :: "'w chan_ops \<Rightarrow> u64 \<Rightarrow> 'w sched_t \<Rightarrow> 'w sched_t option" where
  "scheduler_channel_doesnt_want_writes ops c s =
     (if \<not> pending_exists s then Some s
      else if scheduler_state s c = SCHED_CHAN_PENDING
      then do { s \<leftarrow> pend_remove ops c s; Some (scheduler_set_channel_state c SCHED_CHAN_WAITING_TO_WRITE s) }
      else if scheduler_state s c = SCHED_CHAN_WAITING_FOR_CELLS
      then Some (scheduler_set_channel_state c SCHED_CHAN_IDLE s)
      else Some s)"

text \<open>A channel becomes pending: it is added to the list unless it has an index already, which is a bug
  that is reported.\<close>

definition make_pending :: "'w chan_ops \<Rightarrow> u64 \<Rightarrow> 'w sched_t \<Rightarrow> 'w sched_t" where
  "make_pending ops c s =
     (let s = scheduler_set_channel_state c SCHED_CHAN_PENDING s
      in if sched_heap_idx s c \<noteq> - 1 then s else pend_add ops c s)"

definition scheduler_channel_has_waiting_cells :: "'w chan_ops \<Rightarrow> u64 \<Rightarrow> 'w sched_t \<Rightarrow> 'w sched_t option" where
  "scheduler_channel_has_waiting_cells ops c s =
     (if \<not> pending_exists s then Some s
      else if scheduler_state s c = SCHED_CHAN_WAITING_FOR_CELLS then sched_schedule (make_pending ops c s)
      else if scheduler_state s c = SCHED_CHAN_IDLE
      then Some (scheduler_set_channel_state c SCHED_CHAN_WAITING_TO_WRITE s)
      else Some s)"

definition scheduler_channel_wants_writes :: "'w chan_ops \<Rightarrow> u64 \<Rightarrow> 'w sched_t \<Rightarrow> 'w sched_t option" where
  "scheduler_channel_wants_writes ops c s =
     (if \<not> pending_exists s then Some s
      else if scheduler_state s c = SCHED_CHAN_WAITING_TO_WRITE then sched_schedule (make_pending ops c s)
      else if scheduler_state s c = SCHED_CHAN_IDLE
      then Some (scheduler_set_channel_state c SCHED_CHAN_WAITING_FOR_CELLS s)
      else Some s)"

text \<open>The method \<^verbatim>\<open>on_channel_free\<close>, which KIST has: \<^verbatim>\<open>free_socket_info_by_chan\<close>.\<close>

definition kist_on_channel_free_fn :: "u64 \<Rightarrow> 'w sched_t \<Rightarrow> 'w sched_t" where
  "kist_on_channel_free_fn c s = s\<lparr>socket_table := (socket_table s)(c := None)\<rparr>"

definition scheduler_release_channel :: "'w chan_ops \<Rightarrow> u64 \<Rightarrow> 'w sched_t \<Rightarrow> 'w sched_t option" where
  "scheduler_release_channel ops c s =
     (if \<not> pending_exists s then Some s
      else do { s \<leftarrow> (if sched_heap_idx s c \<noteq> - 1 then pend_remove ops c s else Some s);
                obj \<leftarrow> the_scheduler s;
                let s = (case obj of Vanilla_scheduler \<Rightarrow> s | Kist_scheduler \<Rightarrow> kist_on_channel_free_fn c s);
                Some (scheduler_set_channel_state c SCHED_CHAN_IDLE s) })"

section \<open>Flushing from the scheduler\<close>

text \<open>When a write fails, flushing closes the channel, and the change of its state releases it
  (\<^verbatim>\<open>channel_change_state_\<close>).\<close>

definition sched_flush :: "'w chan_ops \<Rightarrow> u64 \<Rightarrow> int \<Rightarrow> 'w sched_t \<Rightarrow> (int \<times> 'w sched_t) option" where
  "sched_flush ops c k s =
     do { (n, w) \<leftarrow> op_flush ops c k (net s);
          s' \<leftarrow> (if op_open ops c (net s) \<and> \<not> op_open ops c w then scheduler_release_channel ops c (s\<lparr>net := w\<rparr>)
                 else Some (s\<lparr>net := w\<rparr>));
          Some (n, s') }"

definition channel_num_cells_writeable :: "'w chan_ops \<Rightarrow> u64 \<Rightarrow> 'w sched_t \<Rightarrow> int" where
  "channel_num_cells_writeable ops c s =
     (if op_open ops c (net s)
      then let result = op_num_writeable ops c (net s) in if result < 0 then 0 else result
      else 0)"

section \<open>scheduler_vanilla.c\<close>

function vanilla_flush :: "'w chan_ops \<Rightarrow> u64 \<Rightarrow> int \<Rightarrow> int \<Rightarrow> 'w sched_t \<Rightarrow> (int \<times> 'w sched_t) option" where
  "vanilla_flush ops c n_cells flushed s =
     (if flushed < n_cells
      then do { (flushed_this_time, s') \<leftarrow> sched_flush ops c (min MAX_FLUSH_CELLS (n_cells - flushed)) s;
                if flushed_this_time \<le> 0 then Some (flushed, s')
                else vanilla_flush ops c n_cells (flushed + flushed_this_time) s' }
      else Some (flushed, s))"
  by pat_completeness auto
termination
  by (relation "measure (\<lambda>(ops, c, n_cells, flushed, s). nat (n_cells - flushed))") auto

declare vanilla_flush.simps [simp del]

text \<open>The turn of the loop for one channel: the state, and the channels to add again at the end.\<close>

definition vanilla_turn :: "'w chan_ops \<Rightarrow> 'w sched_t \<times> u64 list \<Rightarrow> ('w sched_t \<times> u64 list) option" where
  "vanilla_turn ops r =
     do { (c, s) \<leftarrow> pend_pop ops (fst r);
          let n_cells = channel_num_cells_writeable ops c s;
          if n_cells > 0
          then do { (flushed, s) \<leftarrow> vanilla_flush ops c n_cells 0 s;
                    if flushed < n_cells then Some (scheduler_set_channel_state c SCHED_CHAN_WAITING_FOR_CELLS s, snd r)
                    else if op_more ops c (net s)
                    then if channel_num_cells_writeable ops c s > 0 then Some (s, smartlist_add (snd r) c)
                         else Some (scheduler_set_channel_state c SCHED_CHAN_WAITING_TO_WRITE s, snd r)
                    else if channel_num_cells_writeable ops c s > 0
                    then Some (scheduler_set_channel_state c SCHED_CHAN_WAITING_FOR_CELLS s, snd r)
                    else Some (scheduler_set_channel_state c SCHED_CHAN_IDLE s, snd r) }
          else Some (scheduler_set_channel_state c SCHED_CHAN_WAITING_TO_WRITE s, snd r) }"

partial_function (option) vanilla_loop :: "'w chan_ops \<Rightarrow> 'w sched_t \<times> u64 list \<Rightarrow> ('w sched_t \<times> u64 list) option" where
  "vanilla_loop ops r =
     (if channels_pending (fst r) = [] then Some r
      else do { r \<leftarrow> vanilla_turn ops r; vanilla_loop ops r })"

definition vanilla_readd :: "'w chan_ops \<Rightarrow> u64 list \<Rightarrow> 'w sched_t \<Rightarrow> 'w sched_t" where
  "vanilla_readd ops to_readd s =
     fold (\<lambda>c s. pend_add ops c (scheduler_set_channel_state c SCHED_CHAN_PENDING s)) to_readd s"

definition vanilla_scheduler_run :: "'w chan_ops \<Rightarrow> 'w sched_t \<Rightarrow> 'w sched_t option" where
  "vanilla_scheduler_run ops s =
     do { (s, to_readd) \<leftarrow> vanilla_loop ops (s, []);
          Some (vanilla_readd ops to_readd s) }"

section \<open>scheduler_kist.c\<close>

definition init_socket_info :: "u64 \<Rightarrow> 'w sched_t \<Rightarrow> 'w sched_t" where
  "init_socket_info c s =
     (let ent = (case socket_table s c of
                   None \<Rightarrow> \<lparr>written = 0, limit = 0, se_cwnd = 0, se_unacked = 0, se_mss = 0, se_notsent = 0\<rparr>
                 | Some ent \<Rightarrow> ent)
      in s\<lparr>socket_table := (socket_table s)(c \<mapsto> ent\<lparr>written := 0\<rparr>)\<rparr>)"

text \<open>Without support by the kernel the limit is what the lower layer takes.\<close>

definition socket_fallback :: "'w chan_ops \<Rightarrow> u64 \<Rightarrow> socket_table_ent_t \<Rightarrow> 'w sched_t \<Rightarrow> socket_table_ent_t" where
  "socket_fallback ops c ent s =
     ent\<lparr>se_cwnd := 0, se_unacked := 0, se_mss := 0, se_notsent := 0,
         limit := of_int (channel_num_cells_writeable ops c s *
           ((if op_wide ops c (net s) then CELL_MAX_NETWORK_SIZE else CELL_MAX_NETWORK_SIZE - 2) + TLS_PER_CELL_OVERHEAD))\<rparr>"

definition kist_limit :: "u32 \<Rightarrow> u32 \<Rightarrow> u32 \<Rightarrow> int \<Rightarrow> u64" where
  "kist_limit cwnd unacked mss extra_space =
     (let tcp_space = (if cwnd \<ge> unacked then uint (cwnd - unacked) * uint mss else 0)
      in if tcp_space + extra_space < 0 then 0 else of_int (tcp_space + extra_space))"

definition update_socket_info_impl ::
  "'w chan_ops \<Rightarrow> u64 \<Rightarrow> socket_table_ent_t \<Rightarrow> 'w sched_t \<Rightarrow> socket_table_ent_t \<times> 'w sched_t" where
  "update_socket_info_impl ops c ent s =
     (if \<not> op_kist_support ops \<or> kist_no_kernel_support s \<or> kist_lite_mode s then (socket_fallback ops c ent s, s)
      else case op_getsockopt ops c (net s) of
        Inl einval \<Rightarrow> (socket_fallback ops c ent s, s\<lparr>kist_no_kernel_support := (einval \<or> kist_no_kernel_support s)\<rparr>)
      | Inr (cwnd, unacked, mss) \<Rightarrow>
          (case op_ioctl ops c (net s) of
             Inl einval \<Rightarrow> (socket_fallback ops c ent s, s\<lparr>kist_no_kernel_support := (einval \<or> kist_no_kernel_support s)\<rparr>)
           | Inr notsent \<Rightarrow>
               (let extra_space = op_scale ops (uint cwnd * uint mss) - uint notsent - op_outbuf_len ops c (net s)
                in (ent\<lparr>se_notsent := notsent, se_cwnd := cwnd, se_unacked := unacked, se_mss := mss,
                        limit := kist_limit cwnd unacked mss extra_space\<rparr>, s))))"

definition update_socket_info :: "'w chan_ops \<Rightarrow> u64 \<Rightarrow> 'w sched_t \<Rightarrow> 'w sched_t" where
  "update_socket_info ops c s =
     (case socket_table s c of
        None \<Rightarrow> s
      | Some ent \<Rightarrow>
          (let (ent, s) = update_socket_info_impl ops c ent s
           in s\<lparr>socket_table := (socket_table s)(c \<mapsto> ent)\<rparr>))"

definition socket_can_write :: "'w sched_t \<Rightarrow> u64 \<Rightarrow> bool" where
  "socket_can_write s c =
     (case socket_table s c of
        None \<Rightarrow> True
      | Some ent \<Rightarrow> sint (limit ent - written ent) sdiv (CELL_MAX_NETWORK_SIZE + TLS_PER_CELL_OVERHEAD) > 0)"

definition update_socket_written :: "u64 \<Rightarrow> u64 \<Rightarrow> 'w sched_t \<Rightarrow> 'w sched_t" where
  "update_socket_written c bytes s =
     (case socket_table s c of
        None \<Rightarrow> s
      | Some ent \<Rightarrow> s\<lparr>socket_table := (socket_table s)(c \<mapsto> ent\<lparr>written := written ent + bytes\<rparr>)\<rparr>)"

text \<open>The table of output buffers is the list of its channels in the order of iteration.\<close>

definition outbuf_table_add :: "u64 list \<Rightarrow> u64 \<Rightarrow> u64 list" where
  "outbuf_table_add table c = (if c \<in> set table then table else c # table)"

definition outbuf_table_remove :: "u64 list \<Rightarrow> u64 \<Rightarrow> u64 list" where
  "outbuf_table_remove table c = filter (\<lambda>x. x \<noteq> c) table"

definition channel_should_write_to_kernel :: "'w chan_ops \<Rightarrow> u64 list \<Rightarrow> u64 \<Rightarrow> 'w sched_t \<Rightarrow> bool \<times> u64 list" where
  "channel_should_write_to_kernel ops table c s =
     (op_outbuf_len ops c (net s) > CELL_MAX_NETWORK_SIZE * 8, outbuf_table_add table c)"

text \<open>Writing to the kernel may close the channel, or report room in its output buffer.\<close>

definition channel_write_to_kernel :: "'w chan_ops \<Rightarrow> u64 \<Rightarrow> 'w sched_t \<Rightarrow> 'w sched_t option" where
  "channel_write_to_kernel ops c s =
     (if op_outbuf_len ops c (net s) = 0 then Some s
      else let (room, w) = op_handle_write ops c (net s); s' = s\<lparr>net := w\<rparr>
           in if op_open ops c (net s) \<and> \<not> op_open ops c w then scheduler_release_channel ops c s'
              else if room then scheduler_channel_wants_writes ops c s'
              else Some s')"

text \<open>The variables of the loop: the state, the channel served last, the channels to add again, and the
  table of output buffers.\<close>

record 'w kist_vars =
  kv_s :: "'w sched_t"
  prev_chan :: "u64 option"
  to_readd :: "u64 list"
  outbuf_table :: "u64 list"

definition kist_switch :: "'w chan_ops \<Rightarrow> u64 \<Rightarrow> 'w kist_vars \<Rightarrow> 'w kist_vars option" where
  "kist_switch ops c v =
     (let v = v\<lparr>outbuf_table := outbuf_table_add (outbuf_table v) c\<rparr>
      in case prev_chan v of
           None \<Rightarrow> Some (v\<lparr>prev_chan := Some c\<rparr>)
         | Some prev \<Rightarrow>
             (if prev = c then Some v
              else let (write, table) = channel_should_write_to_kernel ops (outbuf_table v) prev (kv_s v);
                       v = v\<lparr>outbuf_table := table, prev_chan := Some c\<rparr>
                   in if write
                      then do { s \<leftarrow> channel_write_to_kernel ops prev (kv_s v);
                                Some (v\<lparr>kv_s := s, outbuf_table := outbuf_table_remove table prev\<rparr>) }
                      else Some v))"

text \<open>What becomes of the channel after it was served.\<close>

definition kist_decide :: "'w chan_ops \<Rightarrow> u64 \<Rightarrow> 'w kist_vars \<Rightarrow> 'w kist_vars" where
  "kist_decide ops c v =
     (let s = kv_s v
      in if \<not> op_more ops c (net s) then v\<lparr>kv_s := scheduler_set_channel_state c SCHED_CHAN_WAITING_FOR_CELLS s\<rparr>
         else if \<not> socket_can_write s c then v\<lparr>to_readd := smartlist_add (to_readd v) c\<rparr>
         else v\<lparr>kv_s := make_pending ops c s\<rparr>)"

definition kist_turn :: "'w chan_ops \<Rightarrow> 'w kist_vars \<Rightarrow> 'w kist_vars option" where
  "kist_turn ops v =
     do { (c, s) \<leftarrow> pend_pop ops (kv_s v);
          v \<leftarrow> kist_switch ops c (v\<lparr>kv_s := s\<rparr>);
          if socket_can_write (kv_s v) c
          then do { (flush_result, s) \<leftarrow> sched_flush ops c 1 (kv_s v);
                    if \<not> op_open ops c (net s) then Some (v\<lparr>kv_s := scheduler_set_channel_state c SCHED_CHAN_IDLE s\<rparr>)
                    else if flush_result > 0
                    then Some (kist_decide ops c
                           (v\<lparr>kv_s := update_socket_written c (of_int (flush_result * (CELL_MAX_NETWORK_SIZE + TLS_PER_CELL_OVERHEAD))) s\<rparr>))
                    else Some (v\<lparr>kv_s := scheduler_set_channel_state c SCHED_CHAN_WAITING_FOR_CELLS s\<rparr>) }
          else Some (kist_decide ops c v) }"

partial_function (option) kist_loop :: "'w chan_ops \<Rightarrow> 'w kist_vars \<Rightarrow> 'w kist_vars option" where
  "kist_loop ops v =
     (if channels_pending (kv_s v) = [] then Some v
      else do { v \<leftarrow> kist_turn ops v; kist_loop ops v })"

fun write_all_to_kernel :: "'w chan_ops \<Rightarrow> u64 list \<Rightarrow> 'w sched_t \<Rightarrow> 'w sched_t option" where
  "write_all_to_kernel ops [] s = Some s"
| "write_all_to_kernel ops (c # cs) s = do { s \<leftarrow> channel_write_to_kernel ops c s; write_all_to_kernel ops cs s }"

definition kist_readd :: "'w chan_ops \<Rightarrow> u64 list \<Rightarrow> 'w sched_t \<Rightarrow> 'w sched_t" where
  "kist_readd ops cs s =
     fold (\<lambda>c s. let s = scheduler_set_channel_state c SCHED_CHAN_PENDING s
                 in if c \<in> set (channels_pending s) \<or> sched_heap_idx s c \<noteq> - 1 then s else pend_add ops c s) cs s"

definition kist_collect :: "'w chan_ops \<Rightarrow> 'w sched_t \<Rightarrow> 'w sched_t" where
  "kist_collect ops s = fold (\<lambda>c s. update_socket_info ops c (init_socket_info c s)) (channels_pending s) s"

definition kist_scheduler_run :: "'w chan_ops \<Rightarrow> 'w sched_t \<Rightarrow> 'w sched_t option" where
  "kist_scheduler_run ops s =
     do { v \<leftarrow> kist_loop ops \<lparr>kv_s = kist_collect ops s, prev_chan = None, to_readd = [], outbuf_table = []\<rparr>;
          s \<leftarrow> write_all_to_kernel ops (outbuf_table v) (kv_s v);
          let s = kist_readd ops (to_readd v) s;
          Some (s\<lparr>scheduler_last_run := now_ms s\<rparr>) }"

section \<open>Choosing a scheduler\<close>

definition kist_scheduler_run_interval :: "sched_options \<Rightarrow> int option" where
  "kist_scheduler_run_interval opt =
     (if KISTSchedRunInterval opt \<noteq> 0 then Some (KISTSchedRunInterval opt)
      else networkstatus_get_param (sched_consensus opt) None
             (if server_mode opt then ''KISTSchedRunInterval'' else ''KISTSchedRunIntervalClient'')
             KIST_SCHED_RUN_INTERVAL_DEFAULT KIST_SCHED_RUN_INTERVAL_MIN KIST_SCHED_RUN_INTERVAL_MAX)"

definition set_scheduler_run_interval :: "sched_options \<Rightarrow> 'w sched_t \<Rightarrow> 'w sched_t option" where
  "set_scheduler_run_interval opt s = do { i \<leftarrow> kist_scheduler_run_interval opt; Some (s\<lparr>sched_run_interval := i\<rparr>) }"

definition scheduler_can_use_kist :: "'w chan_ops \<Rightarrow> sched_options \<Rightarrow> 'w sched_t \<Rightarrow> bool option" where
  "scheduler_can_use_kist ops opt s =
     (if \<not> op_kist_support ops \<or> kist_no_kernel_support s then Some False
      else do { i \<leftarrow> kist_scheduler_run_interval opt; Some (i > 0) })"

text \<open>The first type of the list that can be used; when there is none the program exits.\<close>

fun select_scheduler :: "'w chan_ops \<Rightarrow> sched_options \<Rightarrow> scheduler_types_t list \<Rightarrow> 'w sched_t \<Rightarrow> 'w sched_t option" where
  "select_scheduler ops opt [] s = None"
| "select_scheduler ops opt (SCHEDULER_VANILLA # ts) s = Some (s\<lparr>the_scheduler := Some Vanilla_scheduler\<rparr>)"
| "select_scheduler ops opt (SCHEDULER_KIST # ts) s =
     do { can \<leftarrow> scheduler_can_use_kist ops opt s;
          if can
          then Some (s\<lparr>the_scheduler := Some Kist_scheduler, kist_lite_mode := False, kist_type := SCHEDULER_KIST\<rparr>)
          else select_scheduler ops opt ts s }"
| "select_scheduler ops opt (SCHEDULER_KIST_LITE # ts) s =
     Some (s\<lparr>the_scheduler := Some Kist_scheduler, kist_lite_mode := True, kist_type := SCHEDULER_KIST_LITE\<rparr>)"
| "select_scheduler ops opt (SCHEDULER_NONE # ts) s = None"

definition kist_free_all :: "'w sched_t \<Rightarrow> 'w sched_t" where
  "kist_free_all s = s\<lparr>socket_table := (\<lambda>_. None)\<rparr>"

definition kist_scheduler_init :: "sched_options \<Rightarrow> 'w sched_t \<Rightarrow> 'w sched_t option" where
  "kist_scheduler_init opt s =
     do { s \<leftarrow> set_scheduler_run_interval opt (s\<lparr>scheduler_last_run := now_ms s\<rparr>);
          Some (if sched_run_interval s = 0 then s\<lparr>sched_run_interval := KIST_SCHED_RUN_INTERVAL_DEFAULT\<rparr> else s) }"

definition set_scheduler :: "'w chan_ops \<Rightarrow> sched_options \<Rightarrow> 'w sched_t \<Rightarrow> 'w sched_t option" where
  "set_scheduler ops opt s =
     (let old = the_scheduler s
      in do { s \<leftarrow> select_scheduler ops opt (SchedulerTypes opt) s;
              if old = the_scheduler s then Some s
              else let s = (if old = Some Kist_scheduler then kist_free_all s else s)
                   in if the_scheduler s = Some Kist_scheduler then kist_scheduler_init opt s else Some s })"

definition scheduler_conf_changed :: "'w chan_ops \<Rightarrow> sched_options \<Rightarrow> 'w sched_t \<Rightarrow> 'w sched_t option" where
  "scheduler_conf_changed ops opt s =
     do { s \<leftarrow> set_scheduler ops opt s;
          if the_scheduler s = Some Kist_scheduler then set_scheduler_run_interval opt s else Some s }"

definition scheduler_notify_networkstatus_changed :: "'w chan_ops \<Rightarrow> sched_options \<Rightarrow> 'w sched_t \<Rightarrow> 'w sched_t option" where
  "scheduler_notify_networkstatus_changed ops opt s =
     do { s \<leftarrow> set_scheduler ops opt s;
          if the_scheduler s = Some Kist_scheduler then set_scheduler_run_interval opt s else Some s }"

definition scheduler_init :: "'w chan_ops \<Rightarrow> sched_options \<Rightarrow> 'w sched_t \<Rightarrow> 'w sched_t option" where
  "scheduler_init ops opt s =
     set_scheduler ops opt (s\<lparr>run_sched_ev := True, ev_armed := False, channels_pending := [], pending_exists := True\<rparr>)"

definition scheduler_free_all :: "'w sched_t \<Rightarrow> 'w sched_t" where
  "scheduler_free_all s =
     (let s = s\<lparr>run_sched_ev := False, ev_armed := False, channels_pending := [], pending_exists := False\<rparr>;
          s = (if the_scheduler s = Some Kist_scheduler then kist_free_all s else s)
      in s\<lparr>the_scheduler := None\<rparr>)"

text \<open>The callback of the event: the event is no longer armed when it runs.\<close>

definition scheduler_evt_callback :: "'w chan_ops \<Rightarrow> 'w sched_t \<Rightarrow> 'w sched_t option" where
  "scheduler_evt_callback ops s =
     do { obj \<leftarrow> the_scheduler s;
          s \<leftarrow> (case obj of Vanilla_scheduler \<Rightarrow> vanilla_scheduler_run ops (s\<lparr>ev_armed := False\<rparr>)
                | Kist_scheduler \<Rightarrow> kist_scheduler_run ops (s\<lparr>ev_armed := False\<rparr>));
          sched_schedule s }"

end
