(* ===== verification/SchedulerInv.thy ===== *)
theory SchedulerInv
  imports Scheduler
begin

text \<open>
  What the scheduler promises, whatever the channels are, as long as they keep the contract of the locale
  \<open>sched_channels\<close>: the list of pending channels and the states of the channels agree, the event is armed
  when a channel is pending, both implementations end, and no open channel with cells is forgotten.
\<close>

section \<open>The list of pending channels\<close>

interpretation pend: idx_elem pend_get pend_set fst
  by unfold_locales simp_all

definition pend_ok :: "u64 list \<Rightarrow> (u64 \<Rightarrow> int) \<Rightarrow> bool" where
  "pend_ok p h = (distinct p \<and> (\<forall>i < length p. h (p ! i) = int i) \<and> (\<forall>c. c \<notin> set p \<longrightarrow> h c = - 1))"

lemma pend_ok_in: "pend_ok p h \<Longrightarrow> (h c \<noteq> - 1) = (c \<in> set p)"
  by (force simp: pend_ok_def in_set_conv_nth)

lemma pend_items_ok: "pend_ok (channels_pending s) (sched_heap_idx s) \<Longrightarrow> pend.idx_ok (pend_items s)"
  by (simp add: pend_ok_def pend.idx_ok_def pend_items_def)

lemma pend_items_simps [simp]: "map fst (pend_items s) = channels_pending s" "length (pend_items s) = length (channels_pending s)"
  "pend_items s = [] \<longleftrightarrow> channels_pending s = []"
  by (simp_all add: pend_items_def comp_def)

lemma pend_store_ok:
  assumes ok: "pend.idx_ok xs" and m: "mset (map fst xs) = mset p" "distinct p" and h: "\<forall>c. c \<notin> set p \<longrightarrow> h c = - 1"
  shows "pend_ok (map fst xs) (\<lambda>c. case map_of xs c of None \<Rightarrow> h c | Some i \<Rightarrow> i)"
proof -
  have d: "distinct (map fst xs)" and st: "fst ` set xs = set p"
    using m by (metis mset_eq_imp_distinct_iff, metis list.set_map set_mset_mset)
  have "map_of xs (fst (xs ! i)) = Some (int i)" if "i < length xs" for i
  proof -
    have "snd (xs ! i) = int i" using ok that by (simp add: pend.idx_ok_def)
    then show ?thesis using d that by (metis map_of_is_SomeI nth_mem prod.collapse)
  qed
  moreover have "map_of xs c = None" if "c \<notin> fst ` set xs" for c using that by (simp add: map_of_eq_None_iff)
  ultimately show ?thesis using d st h by (simp add: pend_ok_def del: map_of_eq_Some_iff)
qed

lemma pend_add_ok:
  assumes ok: "pend_ok (channels_pending s) (sched_heap_idx s)" and c: "c \<notin> set (channels_pending s)"
  shows "\<exists>p h. pend_add ops c s = s\<lparr>channels_pending := p, sched_heap_idx := h\<rparr> \<and> pend_ok p h \<and>
    set p = insert c (set (channels_pending s)) \<and> length p = Suc (length (channels_pending s))"
proof -
  define xs where "xs = smartlist_pqueue_add (pend_cmp ops s) pend_set (pend_items s) (c, sched_heap_idx s c)"
  note ad = pend.add_items [OF pend_items_ok [OF ok], of "pend_cmp ops s" "(c, sched_heap_idx s c)", folded xs_def]
  have m: "mset (map fst xs) = mset (c # channels_pending s)" using ad(2) by (simp flip: mset_map)
  have "pend_ok (map fst xs) (\<lambda>c. case map_of xs c of None \<Rightarrow> sched_heap_idx s c | Some i \<Rightarrow> i)"
    by (rule pend_store_ok [OF ad(1) m]) (use ok c in \<open>auto simp: pend_ok_def\<close>)
  moreover have "set (map fst xs) = insert c (set (channels_pending s))" "length (map fst xs) = Suc (length (channels_pending s))"
    using m by (metis list.simps(15) set_mset_mset, metis length_Cons mset_eq_length)
  ultimately show ?thesis unfolding pend_add_def xs_def [symmetric] pend_store_def by blast
qed

lemma pend_taken_ok:
  assumes ok: "pend_ok p h" and c: "c \<in> set p" and x: "pend.idx_ok xs" "mset (map fst xs) = mset (remove1 c p)"
  shows "pend_ok (map fst xs) ((\<lambda>c. case map_of xs c of None \<Rightarrow> h c | Some i \<Rightarrow> i)(c := - 1))"
    and "set (map fst xs) = set p - {c}" and "length (map fst xs) < length p"
proof -
  have d: "distinct p" using ok by (simp add: pend_ok_def)
  show st: "set (map fst xs) = set p - {c}" using x(2) d by (metis set_mset_mset set_remove1_eq)
  show "length (map fst xs) < length p"
    using x(2) c by (metis length_pos_if_in_set length_remove1 diff_less mset_eq_length zero_less_one)
  have "map_of xs c = None" using st by (auto simp: map_of_eq_None_iff)
  then have eq: "(\<lambda>c. case map_of xs c of None \<Rightarrow> h c | Some i \<Rightarrow> i)(c := - 1) = (\<lambda>c'. case map_of xs c' of None \<Rightarrow> (h(c := - 1)) c' | Some i \<Rightarrow> i)"
    by (auto simp: fun_eq_iff split: option.split)
  show "pend_ok (map fst xs) ((\<lambda>c. case map_of xs c of None \<Rightarrow> h c | Some i \<Rightarrow> i)(c := - 1))"
    unfolding eq by (rule pend_store_ok [OF x]) (use ok d in \<open>auto simp: pend_ok_def\<close>)
qed

lemma pend_pop_ok:
  assumes ok: "pend_ok (channels_pending s) (sched_heap_idx s)" and ne: "channels_pending s \<noteq> []"
  shows "\<exists>c p h. pend_pop ops s = Some (c, s\<lparr>channels_pending := p, sched_heap_idx := h\<rparr>) \<and> pend_ok p h \<and>
    c \<in> set (channels_pending s) \<and> set p = set (channels_pending s) - {c} \<and> length p < length (channels_pending s)"
proof -
  let ?c = "hd (channels_pending s)"
  have hd: "fst (hd (pend_items s)) = ?c" using ne by (cases "channels_pending s") (auto simp: pend_items_def)
  obtain xs where xs: "smartlist_pqueue_pop (pend_cmp ops s) pend_set (pend_items s) = Some (pend_set (- 1) (hd (pend_items s)), xs)"
    "pend.idx_ok xs" "add_mset (fst (hd (pend_items s))) (image_mset fst (mset xs)) = image_mset fst (mset (pend_items s))"
    using pend.pop_items [OF pend_items_ok [OF ok], of "pend_cmp ops s"] ne by auto
  have "mset (map fst xs) = mset (remove1 ?c (channels_pending s))"
    using xs(3) hd by (metis add_mset_remove_trivial mset_map mset_remove1 pend_items_simps(1))
  note t = pend_taken_ok [OF ok hd_in_set [OF ne] xs(2) this]
  have "pend_pop ops s = Some (?c, s\<lparr>channels_pending := map fst xs,
      sched_heap_idx := (\<lambda>c. case map_of xs c of None \<Rightarrow> sched_heap_idx s c | Some i \<Rightarrow> i)(?c := - 1)\<rparr>)"
    using xs(1) hd by (simp add: pend_pop_def set_heap_idx_def pend_store_def)
  then show ?thesis using t hd_in_set [OF ne] by blast
qed

lemma pend_remove_ok:
  assumes ok: "pend_ok (channels_pending s) (sched_heap_idx s)" and c: "c \<in> set (channels_pending s)"
  shows "\<exists>p h. pend_remove ops c s = Some (s\<lparr>channels_pending := p, sched_heap_idx := h\<rparr>) \<and> pend_ok p h \<and>
    set p = set (channels_pending s) - {c} \<and> length p < length (channels_pending s)"
proof -
  have "(c, sched_heap_idx s c) \<in> set (pend_items s)" using c by (auto simp: pend_items_def)
  then obtain xs where xs: "smartlist_pqueue_remove (pend_cmp ops s) pend_get pend_set (pend_items s) (c, sched_heap_idx s c) = Some xs"
    "pend.idx_ok xs" "add_mset c (image_mset fst (mset xs)) = image_mset fst (mset (pend_items s))"
    using pend.remove_items [OF pend_items_ok [OF ok], of "(c, sched_heap_idx s c)" "pend_cmp ops s"] by auto
  have "mset (map fst xs) = mset (remove1 c (channels_pending s))"
    using xs(3) by (metis add_mset_remove_trivial mset_map mset_remove1 pend_items_simps(1))
  note t = pend_taken_ok [OF ok c xs(2) this]
  have "pend_remove ops c s = Some (s\<lparr>channels_pending := map fst xs,
      sched_heap_idx := (\<lambda>c. case map_of xs c of None \<Rightarrow> sched_heap_idx s c | Some i \<Rightarrow> i)(c := - 1)\<rparr>)"
    using xs(1) by (simp add: pend_remove_def set_heap_idx_def pend_store_def)
  then show ?thesis using t by blast
qed

section \<open>The invariant\<close>

text \<open>Between two calls a channel is in the list exactly when its state says so.  While the scheduler runs,
  the channels of \<open>X\<close> are taken out of the list and keep their state until it is decided.\<close>

definition sched_core :: "u64 set \<Rightarrow> 'w sched_t \<Rightarrow> bool" where
  "sched_core X s =
     (pending_exists s \<and> run_sched_ev s \<and> the_scheduler s \<noteq> None \<and> pend_ok (channels_pending s) (sched_heap_idx s) \<and>
      (\<forall>c \<in> set (channels_pending s). scheduler_state s c = SCHED_CHAN_PENDING) \<and>
      (\<forall>c. scheduler_state s c = SCHED_CHAN_PENDING \<longrightarrow> c \<in> set (channels_pending s) \<union> X))"

abbreviation "sched_ok \<equiv> sched_core {}"

text \<open>The event is armed whenever a channel is pending.\<close>

definition armed :: "'w sched_t \<Rightarrow> bool" where
  "armed s = (channels_pending s \<noteq> [] \<longrightarrow> ev_armed s)"

text \<open>Channel \<open>c\<close> moves to state \<open>st\<close>, and into or out of the list accordingly; the rest stays.\<close>

definition moved :: "u64 \<Rightarrow> scheduler_state_t \<Rightarrow> 'w sched_t \<Rightarrow> 'w sched_t \<Rightarrow> bool" where
  "moved c st s s' =
     (\<exists>p h. s' = s\<lparr>channels_pending := p, sched_heap_idx := h, scheduler_state := (scheduler_state s)(c := st)\<rparr> \<and> pend_ok p h \<and>
        set p = (if st = SCHED_CHAN_PENDING then insert c (set (channels_pending s)) else set (channels_pending s) - {c}))"

lemma moved_core: "moved c st s s' \<Longrightarrow> sched_core X s \<Longrightarrow> sched_core (X - {c}) s'"
  by (auto simp: moved_def sched_core_def split: if_splits)

lemma core_mono: "sched_core X s \<Longrightarrow> X \<subseteq> Y \<Longrightarrow> sched_core Y s"
  by (auto simp: sched_core_def)

lemma core_card: "sched_core X s \<Longrightarrow> length (channels_pending s) = card (set (channels_pending s))"
  by (simp add: sched_core_def pend_ok_def distinct_card)

lemma set_state_moved:
  "sched_core X s \<Longrightarrow> c \<notin> set (channels_pending s) \<Longrightarrow> st \<noteq> SCHED_CHAN_PENDING \<Longrightarrow> moved c st s (scheduler_set_channel_state c st s)"
  by (auto simp: moved_def scheduler_set_channel_state_def sched_core_def intro!: exI [of _ "channels_pending s"] exI [of _ "sched_heap_idx s"])

lemma add_moved:
  assumes "sched_core X s" "c \<notin> set (channels_pending s)"
  shows "moved c SCHED_CHAN_PENDING s (pend_add ops c (scheduler_set_channel_state c SCHED_CHAN_PENDING s))"
proof -
  let ?s = "scheduler_set_channel_state c SCHED_CHAN_PENDING s"
  obtain p h where "pend_add ops c ?s = ?s\<lparr>channels_pending := p, sched_heap_idx := h\<rparr>" "pend_ok p h"
    "set p = insert c (set (channels_pending s))"
    using pend_add_ok [of ?s c ops] assms by (auto simp: scheduler_set_channel_state_def sched_core_def)
  then show ?thesis
    unfolding moved_def scheduler_set_channel_state_def by (intro exI [of _ p] exI [of _ h]) simp
qed

lemma make_pending_moved:
  assumes "sched_core X s" "c \<notin> set (channels_pending s)"
  shows "moved c SCHED_CHAN_PENDING s (make_pending ops c s)"
  using add_moved [OF assms, of ops] pend_ok_in [of "channels_pending s" "sched_heap_idx s" c] assms
  by (simp add: make_pending_def scheduler_set_channel_state_def sched_core_def)

lemma remove_moved:
  assumes "sched_core X s" "c \<in> set (channels_pending s)" "st \<noteq> SCHED_CHAN_PENDING"
  shows "\<exists>p h. pend_remove ops c s = Some (s\<lparr>channels_pending := p, sched_heap_idx := h\<rparr>) \<and>
    moved c st s (scheduler_set_channel_state c st (s\<lparr>channels_pending := p, sched_heap_idx := h\<rparr>))"
proof -
  obtain p h where "pend_remove ops c s = Some (s\<lparr>channels_pending := p, sched_heap_idx := h\<rparr>)" "pend_ok p h"
    "set p = set (channels_pending s) - {c}"
    using pend_remove_ok [of s c ops] assms by (auto simp: sched_core_def)
  then show ?thesis using assms(3) by (auto simp: moved_def scheduler_set_channel_state_def)
qed

section \<open>The calls of the rest of the program\<close>

lemma sched_schedule_ok:
  assumes "sched_core X s"
  shows "\<exists>a t. sched_schedule s = Some (s\<lparr>ev_armed := a, next_run := t\<rparr>) \<and> (channels_pending s \<noteq> [] \<longrightarrow> a) \<and> (ev_armed s \<longrightarrow> a)"
proof -
  have u: "s = s\<lparr>ev_armed := ev_armed s, next_run := next_run s\<rparr>" by simp
  obtain obj where o: "the_scheduler s = Some obj" using assms by (auto simp: sched_core_def)
  have e: "pending_exists s" "run_sched_ev s" using assms by (simp_all add: sched_core_def)
  show ?thesis
  proof (cases "have_work s")
    case False
    then have "channels_pending s = []" "sched_schedule s = Some s"
      using e o by (cases obj; simp add: have_work_def sched_schedule_def vanilla_scheduler_schedule_def kist_scheduler_schedule_def)+
    then show ?thesis using u by (metis)
  next
    case True
    then show ?thesis
      using e o by (cases obj) (auto simp: sched_schedule_def vanilla_scheduler_schedule_def kist_scheduler_schedule_def
        scheduler_ev_active_def scheduler_ev_add_def Let_def)
  qed
qed

text \<open>What the calls mean: a channel has cells or not, and can be written to or not.\<close>

datatype sched_call = Has_waiting_cells u64 | Wants_writes u64 | Doesnt_want_writes u64 | Release_channel u64

definition sched_exec :: "'w chan_ops \<Rightarrow> sched_call \<Rightarrow> 'w sched_t \<Rightarrow> 'w sched_t option" where
  "sched_exec ops x s =
     (case x of
        Has_waiting_cells c \<Rightarrow> scheduler_channel_has_waiting_cells ops c s
      | Wants_writes c \<Rightarrow> scheduler_channel_wants_writes ops c s
      | Doesnt_want_writes c \<Rightarrow> scheduler_channel_doesnt_want_writes ops c s
      | Release_channel c \<Rightarrow> scheduler_release_channel ops c s)"

fun sched_run_calls :: "'w chan_ops \<Rightarrow> sched_call list \<Rightarrow> 'w sched_t \<Rightarrow> 'w sched_t option" where
  "sched_run_calls ops [] s = Some s"
| "sched_run_calls ops (x # xs) s = do { s \<leftarrow> sched_exec ops x s; sched_run_calls ops xs s }"

type_synonym sched_spec = "(u64 \<Rightarrow> bool) \<times> (u64 \<Rightarrow> bool)"

definition spec_call :: "sched_call \<Rightarrow> sched_spec \<Rightarrow> sched_spec" where
  "spec_call x b =
     (case x of
        Has_waiting_cells c \<Rightarrow> ((fst b)(c := True), snd b)
      | Wants_writes c \<Rightarrow> (fst b, (snd b)(c := True))
      | Doesnt_want_writes c \<Rightarrow> (fst b, (snd b)(c := False))
      | Release_channel c \<Rightarrow> ((fst b)(c := False), (snd b)(c := False)))"

definition state_cells :: "scheduler_state_t \<Rightarrow> bool" where
  "state_cells st = (st = SCHED_CHAN_WAITING_TO_WRITE \<or> st = SCHED_CHAN_PENDING)"

definition state_writes :: "scheduler_state_t \<Rightarrow> bool" where
  "state_writes st = (st = SCHED_CHAN_WAITING_FOR_CELLS \<or> st = SCHED_CHAN_PENDING)"

definition sched_abs :: "'w sched_t \<Rightarrow> sched_spec" where
  "sched_abs s = (\<lambda>c. state_cells (scheduler_state s c), \<lambda>c. state_writes (scheduler_state s c))"

lemma movedD:
  assumes "moved c st s s'"
  shows "scheduler_state s' = (scheduler_state s)(c := st)" "net s' = net s" "socket_table s' = socket_table s" "ev_armed s' = ev_armed s"
    "the_scheduler s' = the_scheduler s" "kist_lite_mode s' = kist_lite_mode s" "now_ms s' = now_ms s"
    "set (channels_pending s') = (if st = SCHED_CHAN_PENDING then insert c (set (channels_pending s)) else set (channels_pending s) - {c})"
  using assms unfolding moved_def by (elim exE conjE, simp)+

lemma moved_armed:
  assumes "moved c st s s'" "st \<noteq> SCHED_CHAN_PENDING" "armed s"
  shows "armed s'"
proof -
  have "set (channels_pending s') \<subseteq> set (channels_pending s)" using movedD(8) [OF assms(1)] assms(2) by auto
  then have "channels_pending s' \<noteq> [] \<Longrightarrow> channels_pending s \<noteq> []" by auto
  then show ?thesis using assms(3) movedD(4) [OF assms(1)] by (simp add: armed_def)
qed

lemma core_armed_simp [simp]: "sched_core X (s\<lparr>ev_armed := a, next_run := t\<rparr>) = sched_core X s"
  "sched_abs (s\<lparr>ev_armed := a, next_run := t\<rparr>) = sched_abs s"
  by (simp_all add: sched_core_def sched_abs_def)

text \<open>A channel becomes pending and the scheduler is asked to run.\<close>

lemma pending_and_schedule:
  assumes ok: "sched_core X s" and c: "c \<notin> set (channels_pending s)"
  shows "\<exists>s1 a t. sched_schedule (make_pending ops c s) = Some (s1\<lparr>ev_armed := a, next_run := t\<rparr>) \<and> moved c SCHED_CHAN_PENDING s s1 \<and> a"
proof -
  have m: "moved c SCHED_CHAN_PENDING s (make_pending ops c s)" using make_pending_moved [OF ok c] .
  then have "channels_pending (make_pending ops c s) \<noteq> []" using movedD(8) [OF m] by auto
  then show ?thesis using sched_schedule_ok [OF moved_core [OF m ok]] m by blast
qed

lemma release_ok:
  assumes ok: "sched_core X s"
  shows "\<exists>s1 t. scheduler_release_channel ops c s = Some (s1\<lparr>socket_table := t\<rparr>) \<and> moved c SCHED_CHAN_IDLE s s1 \<and>
    (t = socket_table s \<or> t = (socket_table s)(c := None))"
proof -
  have e: "pending_exists s" and h: "(sched_heap_idx s c \<noteq> - 1) = (c \<in> set (channels_pending s))"
    using ok pend_ok_in by (auto simp: sched_core_def)
  obtain obj where o: "the_scheduler s = Some obj" using ok by (auto simp: sched_core_def)
  show ?thesis
  proof (cases "c \<in> set (channels_pending s)")
    case True
    obtain p h' where r: "pend_remove ops c s = Some (s\<lparr>channels_pending := p, sched_heap_idx := h'\<rparr>)"
      "moved c SCHED_CHAN_IDLE s (scheduler_set_channel_state c SCHED_CHAN_IDLE (s\<lparr>channels_pending := p, sched_heap_idx := h'\<rparr>))"
      using remove_moved [OF ok True, of SCHED_CHAN_IDLE ops] by auto
    show ?thesis
    proof (intro exI conjI)
      show "scheduler_release_channel ops c s =
          Some ((scheduler_set_channel_state c SCHED_CHAN_IDLE (s\<lparr>channels_pending := p, sched_heap_idx := h'\<rparr>))
            \<lparr>socket_table := (case obj of Vanilla_scheduler \<Rightarrow> socket_table s | Kist_scheduler \<Rightarrow> (socket_table s)(c := None))\<rparr>)"
        using r(1) e h True o by (cases obj) (auto simp: scheduler_release_channel_def scheduler_set_channel_state_def kist_on_channel_free_fn_def)
    qed (use r(2) in \<open>auto split: scheduler_obj.split\<close>)
  next
    case False
    show ?thesis
    proof (intro exI conjI)
      show "scheduler_release_channel ops c s = Some ((scheduler_set_channel_state c SCHED_CHAN_IDLE s)
            \<lparr>socket_table := (case obj of Vanilla_scheduler \<Rightarrow> socket_table s | Kist_scheduler \<Rightarrow> (socket_table s)(c := None))\<rparr>)"
        using e h False o by (cases obj) (auto simp: scheduler_release_channel_def scheduler_set_channel_state_def kist_on_channel_free_fn_def)
    qed (use set_state_moved [OF ok False] in \<open>auto split: scheduler_obj.split\<close>)
  qed
qed

lemma core_table_simp [simp]: "sched_core X (s\<lparr>socket_table := t\<rparr>) = sched_core X s" "sched_abs (s\<lparr>socket_table := t\<rparr>) = sched_abs s"
  "armed (s\<lparr>socket_table := t\<rparr>) = armed s"
  by (simp_all add: sched_core_def sched_abs_def armed_def)

text \<open>The state of the channel after a call.\<close>

definition call_chan :: "sched_call \<Rightarrow> u64" where
  "call_chan x = (case x of Has_waiting_cells c \<Rightarrow> c | Wants_writes c \<Rightarrow> c | Doesnt_want_writes c \<Rightarrow> c | Release_channel c \<Rightarrow> c)"

definition call_next :: "sched_call \<Rightarrow> scheduler_state_t \<Rightarrow> scheduler_state_t" where
  "call_next x st =
     (case x of
        Has_waiting_cells c \<Rightarrow> (case st of SCHED_CHAN_IDLE \<Rightarrow> SCHED_CHAN_WAITING_TO_WRITE | SCHED_CHAN_WAITING_FOR_CELLS \<Rightarrow> SCHED_CHAN_PENDING | _ \<Rightarrow> st)
      | Wants_writes c \<Rightarrow> (case st of SCHED_CHAN_IDLE \<Rightarrow> SCHED_CHAN_WAITING_FOR_CELLS | SCHED_CHAN_WAITING_TO_WRITE \<Rightarrow> SCHED_CHAN_PENDING | _ \<Rightarrow> st)
      | Doesnt_want_writes c \<Rightarrow> (case st of SCHED_CHAN_PENDING \<Rightarrow> SCHED_CHAN_WAITING_TO_WRITE | SCHED_CHAN_WAITING_FOR_CELLS \<Rightarrow> SCHED_CHAN_IDLE | _ \<Rightarrow> st)
      | Release_channel c \<Rightarrow> SCHED_CHAN_IDLE)"

definition call_result :: "u64 \<Rightarrow> scheduler_state_t \<Rightarrow> 'w sched_t \<Rightarrow> 'w sched_t \<Rightarrow> bool" where
  "call_result c st s s' = (sched_ok s' \<and> armed s' \<and> net s' = net s \<and> scheduler_state s' = (scheduler_state s)(c := st))"

lemma call_abs:
  assumes "scheduler_state s' = (scheduler_state s)(call_chan x := call_next x (scheduler_state s (call_chan x)))"
  shows "sched_abs s' = spec_call x (sched_abs s)"
proof -
  have "state_cells (call_next x st) = (case x of Has_waiting_cells c \<Rightarrow> True | Release_channel c \<Rightarrow> False | _ \<Rightarrow> state_cells st)"
    "state_writes (call_next x st) = (case x of Wants_writes c \<Rightarrow> True | Has_waiting_cells c \<Rightarrow> state_writes st | _ \<Rightarrow> False)" for st
    by (cases x; cases st; simp add: call_next_def state_cells_def state_writes_def)+
  then show ?thesis using assms by (cases x) (auto simp: sched_abs_def spec_call_def call_chan_def fun_eq_iff)
qed

lemma set_result:
  "sched_ok s \<Longrightarrow> armed s \<Longrightarrow> moved c st s s' \<Longrightarrow> st \<noteq> SCHED_CHAN_PENDING \<Longrightarrow> call_result c st s s'"
  using moved_core [of c st s s' "{}"] moved_armed [of c st s s'] movedD [of c st s s'] by (simp add: call_result_def)

lemma same_result: "sched_ok s \<Longrightarrow> armed s \<Longrightarrow> scheduler_state s c = st \<Longrightarrow> call_result c st s s"
  by (auto simp: call_result_def)

lemma wake_result:
  assumes ok: "sched_ok s" and c: "scheduler_state s c \<noteq> SCHED_CHAN_PENDING"
  shows "\<exists>s'. sched_schedule (make_pending ops c s) = Some s' \<and> call_result c SCHED_CHAN_PENDING s s'"
proof -
  have "c \<notin> set (channels_pending s)" using ok c by (auto simp: sched_core_def)
  then obtain s1 a t where s1: "sched_schedule (make_pending ops c s) = Some (s1\<lparr>ev_armed := a, next_run := t\<rparr>)" "moved c SCHED_CHAN_PENDING s s1" a
    using pending_and_schedule [OF ok] by blast
  have "call_result c SCHED_CHAN_PENDING s (s1\<lparr>ev_armed := a, next_run := t\<rparr>)"
    using moved_core [OF s1(2) ok] movedD [OF s1(2)] s1(3) by (simp add: call_result_def armed_def)
  then show ?thesis using s1(1) by blast
qed

lemma sched_exec_ok:
  assumes ok: "sched_ok s" and ar: "armed s"
  shows "\<exists>s'. sched_exec ops x s = Some s' \<and> call_result (call_chan x) (call_next x (scheduler_state s (call_chan x))) s s'"
proof -
  let ?c = "call_chan x"
  have e: "pending_exists s" and st: "(scheduler_state s ?c = SCHED_CHAN_PENDING) = (?c \<in> set (channels_pending s))"
    using ok by (auto simp: sched_core_def)
  note same = same_result [OF ok ar, where c = ?c] and wake = wake_result [OF ok, where c = ?c and ops = ops]
    and set = set_result [OF ok ar set_state_moved [OF ok, where c = ?c]]
  show ?thesis
  proof (cases x)
    case (Has_waiting_cells c)
    then show ?thesis
      using e st same wake set by (cases "scheduler_state s ?c") (simp_all add: sched_exec_def scheduler_channel_has_waiting_cells_def call_chan_def call_next_def)
  next
    case (Wants_writes c)
    then show ?thesis
      using e st same wake set by (cases "scheduler_state s ?c") (simp_all add: sched_exec_def scheduler_channel_wants_writes_def call_chan_def call_next_def)
  next
    case (Doesnt_want_writes c)
    have "\<exists>s'. (do { s \<leftarrow> pend_remove ops ?c s; Some (scheduler_set_channel_state ?c SCHED_CHAN_WAITING_TO_WRITE s) }) = Some s' \<and>
        call_result ?c SCHED_CHAN_WAITING_TO_WRITE s s'" if "scheduler_state s ?c = SCHED_CHAN_PENDING"
      using remove_moved [OF ok, of ?c SCHED_CHAN_WAITING_TO_WRITE ops] set_result [OF ok ar] that st by auto
    then show ?thesis
      using e st same set Doesnt_want_writes
      by (cases "scheduler_state s ?c") (simp_all add: sched_exec_def scheduler_channel_doesnt_want_writes_def call_chan_def call_next_def)
  next
    case (Release_channel c)
    obtain s1 t where r: "scheduler_release_channel ops c s = Some (s1\<lparr>socket_table := t\<rparr>)" "moved c SCHED_CHAN_IDLE s s1"
      using release_ok [OF ok] by blast
    have "call_result c SCHED_CHAN_IDLE s (s1\<lparr>socket_table := t\<rparr>)"
      using set_result [OF ok ar r(2)] by (simp add: call_result_def)
    then show ?thesis using r(1) Release_channel by (simp add: sched_exec_def call_chan_def call_next_def)
  qed
qed

section \<open>Adding channels again\<close>

definition readded :: "u64 list \<Rightarrow> 'w sched_t \<Rightarrow> 'w sched_t \<Rightarrow> bool" where
  "readded r s s' =
     (sched_ok s' \<and> set (channels_pending s') = set (channels_pending s) \<union> set r \<and> net s' = net s \<and> socket_table s' = socket_table s \<and>
      scheduler_state s' = (\<lambda>c. if c \<in> set r then SCHED_CHAN_PENDING else scheduler_state s c))"

lemma readd_ok:
  assumes "sched_core (set r) s" "distinct r" "set r \<inter> set (channels_pending s) = {}"
  shows "readded r s (vanilla_readd ops r s)" and "kist_readd ops r s = vanilla_readd ops r s"
proof -
  have "readded r s (vanilla_readd ops r s) \<and> kist_readd ops r s = vanilla_readd ops r s"
    using assms
  proof (induction r arbitrary: s)
    case Nil
    then show ?case by (simp add: readded_def vanilla_readd_def kist_readd_def)
  next
    case (Cons c r)
    let ?s = "pend_add ops c (scheduler_set_channel_state c SCHED_CHAN_PENDING s)"
    have c: "c \<notin> set (channels_pending s)" "sched_heap_idx s c = - 1"
      using Cons.prems pend_ok_in [of "channels_pending s" "sched_heap_idx s" c] by (auto simp: sched_core_def)
    have m: "moved c SCHED_CHAN_PENDING s ?s" by (rule add_moved [OF Cons.prems(1) c(1)])
    have "sched_core (set r) ?s" using core_mono [OF moved_core [OF m Cons.prems(1)]] by auto
    moreover have "set r \<inter> set (channels_pending ?s) = {}" using Cons.prems movedD(8) [OF m] by auto
    ultimately have IH: "readded r ?s (vanilla_readd ops r ?s)" "kist_readd ops r ?s = vanilla_readd ops r ?s"
      using Cons.IH [of ?s] Cons.prems(2) by simp_all
    have "vanilla_readd ops (c # r) s = vanilla_readd ops r ?s" by (simp add: vanilla_readd_def)
    moreover have "kist_readd ops (c # r) s = kist_readd ops r ?s" using c by (simp add: kist_readd_def scheduler_set_channel_state_def)
    moreover have "readded (c # r) s (vanilla_readd ops r ?s)"
      using IH(1) movedD(1,2,3,8) [OF m] by (auto simp: readded_def fun_eq_iff)
    ultimately show ?case using IH(2) by simp
  qed
  then show "readded r s (vanilla_readd ops r s)" and "kist_readd ops r s = vanilla_readd ops r s" by simp_all
qed

section \<open>The contract of the channels\<close>

text \<open>
  What the scheduler relies on.  Flushing up to \<open>k\<close> cells always returns, sends at most \<open>k\<close>, uses up a
  measure of the work that is left, and sends nothing only when nothing is left or the channel is not
  open; it leaves the other channels alone.  Writing to the kernel sends no new cells, and neither opens
  a channel.
\<close>

locale sched_channels =
  fixes ops :: "'w chan_ops" and inv :: "'w \<Rightarrow> bool" and chans :: "u64 set" and meas :: "'w \<Rightarrow> nat"
  assumes flush: "inv w \<Longrightarrow> c \<in> chans \<Longrightarrow> 0 < k \<Longrightarrow> \<exists>n w'. op_flush ops c k w = Some (n, w') \<and> inv w' \<and> 0 \<le> n \<and> n \<le> k \<and>
      int (meas w') + n \<le> int (meas w) \<and> (n = 0 \<longrightarrow> \<not> op_more ops c w' \<or> \<not> op_open ops c w') \<and>
      (\<forall>d. d \<noteq> c \<longrightarrow> op_more ops d w' = op_more ops d w \<and> op_open ops d w' = op_open ops d w)"
    and handle_write: "inv w \<Longrightarrow> c \<in> chans \<Longrightarrow> op_handle_write ops c w = (room, w') \<Longrightarrow> inv w' \<and> meas w' \<le> meas w \<and>
      (\<forall>d. op_more ops d w' = op_more ops d w \<and> (op_open ops d w' \<longrightarrow> op_open ops d w))"
begin

text \<open>A channel that nothing is to be done for.\<close>

definition at_rest :: "u64 \<Rightarrow> 'w sched_t \<Rightarrow> bool" where
  "at_rest c s = (\<not> op_more ops c (net s) \<or> \<not> op_open ops c (net s))"

text \<open>What flushing channel \<open>c\<close>, which is not in the list, leaves alone.\<close>

definition served :: "u64 \<Rightarrow> 'w sched_t \<Rightarrow> 'w sched_t \<Rightarrow> bool" where
  "served c s s' =
     (inv (net s') \<and> set (channels_pending s') = set (channels_pending s) \<and>
      (\<forall>d. d \<noteq> c \<longrightarrow> scheduler_state s' d = scheduler_state s d \<and> at_rest d s' = at_rest d s) \<and>
      (scheduler_state s' c = scheduler_state s c \<or> scheduler_state s' c = SCHED_CHAN_IDLE) \<and>
      (\<forall>d. socket_table s' d = socket_table s d \<or> socket_table s' d = None))"

lemma served_trans: "served c s s1 \<Longrightarrow> served c s1 s2 \<Longrightarrow> served c s s2"
  unfolding served_def by (elim conjE, intro conjI) (simp, simp, simp, metis, metis)

lemma core_net [simp]: "sched_core X (s\<lparr>net := w\<rparr>) = sched_core X s"
  by (simp add: sched_core_def)

lemma sched_flush_ok:
  assumes ok: "sched_core X s" and iv: "inv (net s)" and c: "c \<in> chans" "c \<notin> set (channels_pending s)" and k: "0 < k"
  shows "\<exists>n s'. sched_flush ops c k s = Some (n, s') \<and> sched_core X s' \<and> served c s s' \<and> 0 \<le> n \<and> n \<le> k \<and>
    int (meas (net s')) + n \<le> int (meas (net s)) \<and> (n = 0 \<longrightarrow> at_rest c s')"
proof -
  obtain n w where w: "op_flush ops c k (net s) = Some (n, w)" "inv w" "0 \<le> n" "n \<le> k" "int (meas w) + n \<le> int (meas (net s))"
    "n = 0 \<longrightarrow> \<not> op_more ops c w \<or> \<not> op_open ops c w"
    "\<forall>d. d \<noteq> c \<longrightarrow> op_more ops d w = op_more ops d (net s) \<and> op_open ops d w = op_open ops d (net s)"
    using flush [OF iv c(1) k] by blast
  have ok1: "sched_core X (s\<lparr>net := w\<rparr>)" using ok by simp
  show ?thesis
  proof (cases "op_open ops c (net s) \<and> \<not> op_open ops c w")
    case False
    then have "sched_flush ops c k s = Some (n, s\<lparr>net := w\<rparr>)" using w(1) by (auto simp: sched_flush_def)
    moreover have "served c s (s\<lparr>net := w\<rparr>)" using w(2,7) by (simp add: served_def at_rest_def)
    ultimately show ?thesis using ok1 w(3-6) by (simp add: at_rest_def)
  next
    case True
    obtain s1 t where r: "scheduler_release_channel ops c (s\<lparr>net := w\<rparr>) = Some (s1\<lparr>socket_table := t\<rparr>)" "moved c SCHED_CHAN_IDLE (s\<lparr>net := w\<rparr>) s1"
      "t = socket_table s \<or> t = (socket_table s)(c := None)"
      using release_ok [OF ok1, of ops c] by auto
    have "sched_core X (s1\<lparr>socket_table := t\<rparr>)" using core_mono [OF moved_core [OF r(2) ok1]] by simp
    moreover have "served c s (s1\<lparr>socket_table := t\<rparr>)"
      using movedD(1,2,3,8) [OF r(2)] r(3) w(2,7) c(2) by (auto simp: served_def at_rest_def split: if_splits)
    moreover have "net (s1\<lparr>socket_table := t\<rparr>) = w" using movedD(2) [OF r(2)] by simp
    moreover have "sched_flush ops c k s = Some (n, s1\<lparr>socket_table := t\<rparr>)" using w(1) True r(1) by (simp add: sched_flush_def)
    ultimately show ?thesis using w(3-6) by (simp add: at_rest_def)
  qed
qed

section \<open>The vanilla scheduler\<close>

lemma vanilla_flush_ok:
  assumes "sched_core X s" "inv (net s)" "c \<in> chans" "c \<notin> set (channels_pending s)" "0 \<le> flushed" "flushed \<le> n"
  shows "\<exists>f s'. vanilla_flush ops c n flushed s = Some (f, s') \<and> sched_core X s' \<and> served c s s' \<and> flushed \<le> f \<and> f \<le> n \<and>
    (f < n \<longrightarrow> at_rest c s')"
  using assms
proof (induction "nat (n - flushed)" arbitrary: flushed s rule: less_induct)
  case less
  show ?case
  proof (cases "flushed < n")
    case False
    then show ?thesis using less.prems by (subst vanilla_flush.simps) (simp add: served_def)
  next
    case True
    then have k: "0 < min MAX_FLUSH_CELLS (n - flushed)" by simp
    obtain m s1 where s1: "sched_flush ops c (min MAX_FLUSH_CELLS (n - flushed)) s = Some (m, s1)" "sched_core X s1" "served c s s1"
      "0 \<le> m" "m \<le> min MAX_FLUSH_CELLS (n - flushed)" "m = 0 \<longrightarrow> at_rest c s1"
      using sched_flush_ok [OF less.prems(1-4) k] by blast
    show ?thesis
    proof (cases "m = 0")
      case m: True
      then show ?thesis using s1 True by (subst vanilla_flush.simps) simp
    next
      case False
      then have m: "0 < m" "flushed + m \<le> n" "\<not> m \<le> 0" using s1(4,5) by simp_all
      have "inv (net s1)" "c \<notin> set (channels_pending s1)" using s1(3) less.prems(4) by (simp_all add: served_def)
      then obtain f s' where f: "vanilla_flush ops c n (flushed + m) s1 = Some (f, s')" "sched_core X s'" "served c s1 s'"
        "flushed + m \<le> f" "f \<le> n" "f < n \<longrightarrow> at_rest c s'"
        using less.hyps [of "flushed + m" s1] m True s1(2) less.prems(3,5) by auto
      then show ?thesis
        using served_trans [OF s1(3) f(3)] s1(1) m True by (subst vanilla_flush.simps) simp
    qed
  qed
qed

text \<open>The loop: \<open>P\<close> are the channels that were pending when it began, \<open>s0\<close> the state then.\<close>

definition van_inv :: "u64 set \<Rightarrow> 'w sched_t \<Rightarrow> u64 set \<Rightarrow> 'w sched_t \<times> u64 list \<Rightarrow> bool" where
  "van_inv P s0 Y r =
     (case r of (s, re) \<Rightarrow>
        sched_core (Y \<union> set re) s \<and> inv (net s) \<and> distinct re \<and> (Y \<union> set re) \<inter> set (channels_pending s) = {} \<and>
        Y \<inter> set re = {} \<and> set (channels_pending s) \<union> Y \<union> set re \<subseteq> P \<and> P \<subseteq> chans \<and>
        (\<forall>c. c \<notin> P \<longrightarrow> scheduler_state s c = scheduler_state s0 c) \<and>
        (\<forall>c \<in> P. c \<notin> set (channels_pending s) \<union> Y \<union> set re \<longrightarrow> scheduler_state s c = SCHED_CHAN_WAITING_TO_WRITE \<or> at_rest c s))"

lemma van_pop:
  assumes "van_inv P s0 {} (s, r)" "channels_pending s \<noteq> []"
  shows "\<exists>c s1. pend_pop ops s = Some (c, s1) \<and> van_inv P s0 {c} (s1, r) \<and> length (channels_pending s1) < length (channels_pending s)"
proof -
  have ok: "pend_ok (channels_pending s) (sched_heap_idx s)" using assms by (simp add: van_inv_def sched_core_def)
  obtain c p h where c: "pend_pop ops s = Some (c, s\<lparr>channels_pending := p, sched_heap_idx := h\<rparr>)" "pend_ok p h"
    "c \<in> set (channels_pending s)" "set p = set (channels_pending s) - {c}" "length p < length (channels_pending s)"
    using pend_pop_ok [OF ok assms(2)] by blast
  have "van_inv P s0 {c} (s\<lparr>channels_pending := p, sched_heap_idx := h\<rparr>, r)"
    using assms(1) c(2-4) by (auto simp: van_inv_def sched_core_def at_rest_def)
  then show ?thesis using c by fastforce
qed

lemma van_served:
  assumes "van_inv P s0 {c} (s, r)" "sched_core ({c} \<union> set r) s'" "served c s s'"
  shows "van_inv P s0 {c} (s', r)"
  using assms by (auto simp: van_inv_def served_def)

lemma van_settle:
  assumes v: "van_inv P s0 {c} (s, r)" and st: "st \<noteq> SCHED_CHAN_PENDING" "st = SCHED_CHAN_WAITING_TO_WRITE \<or> at_rest c s"
  shows "van_inv P s0 {} (scheduler_set_channel_state c st s, r)"
    and "set (channels_pending (scheduler_set_channel_state c st s)) = set (channels_pending s)"
proof -
  have m: "moved c st s (scheduler_set_channel_state c st s)"
    using set_state_moved [of "{c} \<union> set r" s c] v st(1) by (auto simp: van_inv_def)
  have "sched_core ({c} \<union> set r) s" using v by (simp add: van_inv_def)
  from moved_core [OF m this] have ok: "sched_core (set r) (scheduler_set_channel_state c st s)" by (rule core_mono) auto
  show "van_inv P s0 {} (scheduler_set_channel_state c st s, r)"
    using ok v st by (auto simp: van_inv_def scheduler_set_channel_state_def at_rest_def)
qed (simp add: scheduler_set_channel_state_def)

lemma van_keep: "van_inv P s0 {c} (s, r) \<Longrightarrow> van_inv P s0 {} (s, smartlist_add r c)"
  by (auto simp: van_inv_def smartlist_add_def)

lemma vanilla_turn_ok:
  assumes v: "van_inv P s0 {} (s, r)" and ne: "channels_pending s \<noteq> []"
  shows "\<exists>s' r'. vanilla_turn ops (s, r) = Some (s', r') \<and> van_inv P s0 {} (s', r') \<and>
    length (channels_pending s') < length (channels_pending s)"
proof -
  obtain c s1 where s1: "pend_pop ops s = Some (c, s1)" "van_inv P s0 {c} (s1, r)" "length (channels_pending s1) < length (channels_pending s)"
    using van_pop [OF v ne] by blast
  let ?n = "channel_num_cells_writeable ops c s1"
  have len: "length (channels_pending s') = length (channels_pending s1)"
    if "van_inv P s0 Y (s', r')" "set (channels_pending s') = set (channels_pending s1)" for Y s' r'
  proof -
    have "sched_core (Y \<union> set r') s'" using that(1) unfolding van_inv_def by simp
    moreover have "sched_core ({c} \<union> set r) s1" using s1(2) unfolding van_inv_def by simp
    ultimately show ?thesis using core_card [of _ s'] core_card [of _ s1] that(2) by metis
  qed
  show ?thesis
  proof (cases "?n > 0")
    case False
    then have "vanilla_turn ops (s, r) = Some (scheduler_set_channel_state c SCHED_CHAN_WAITING_TO_WRITE s1, r)"
      using s1(1) by (simp add: vanilla_turn_def)
    then show ?thesis
      using van_settle [OF s1(2), of SCHED_CHAN_WAITING_TO_WRITE] len [of "{}" "scheduler_set_channel_state c SCHED_CHAN_WAITING_TO_WRITE s1" r]
        s1(3) by simp
  next
    case True
    have "sched_core ({c} \<union> set r) s1" "inv (net s1)" "c \<in> chans" "c \<notin> set (channels_pending s1)"
      using s1(2) by (auto simp: van_inv_def)
    from vanilla_flush_ok [OF this, of 0 ?n] True
    obtain f s2 where s2: "vanilla_flush ops c ?n 0 s1 = Some (f, s2)" "sched_core ({c} \<union> set r) s2" "served c s1 s2" "f < ?n \<longrightarrow> at_rest c s2"
      by auto
    have v2: "van_inv P s0 {c} (s2, r)" by (rule van_served [OF s1(2) s2(2,3)])
    have p2: "set (channels_pending s2) = set (channels_pending s1)" using s2(3) by (simp add: served_def)
    have set: "\<exists>s' r'. Some (scheduler_set_channel_state c st s2, r) = Some (s', r') \<and> van_inv P s0 {} (s', r') \<and>
        length (channels_pending s') < length (channels_pending s)" if "st \<noteq> SCHED_CHAN_PENDING" "st = SCHED_CHAN_WAITING_TO_WRITE \<or> at_rest c s2" for st
      using van_settle [OF v2 that] len [of "{}" "scheduler_set_channel_state c st s2" r] p2 s1(3) by simp
    have keep: "van_inv P s0 {} (s2, smartlist_add r c) \<and> length (channels_pending s2) < length (channels_pending s)"
      using van_keep [OF v2] len [OF v2 p2] s1(3) by simp
    have rest: "\<not> op_more ops c (net s2) \<Longrightarrow> at_rest c s2" by (simp add: at_rest_def)
    show ?thesis
      using s1(1) s2(1,4) True set keep rest by (simp add: vanilla_turn_def)
  qed
qed

lemma vanilla_loop_ok:
  assumes "van_inv P s0 {} (s, r)"
  shows "\<exists>s' r'. vanilla_loop ops (s, r) = Some (s', r') \<and> van_inv P s0 {} (s', r') \<and> channels_pending s' = []"
  using assms
proof (induction "length (channels_pending s)" arbitrary: s r rule: less_induct)
  case less
  show ?case
  proof (cases "channels_pending s = []")
    case True
    then show ?thesis using less.prems by (subst vanilla_loop.simps) simp
  next
    case False
    then obtain s1 r1 where "vanilla_turn ops (s, r) = Some (s1, r1)" "van_inv P s0 {} (s1, r1)"
      "length (channels_pending s1) < length (channels_pending s)"
      using vanilla_turn_ok [OF less.prems] by blast
    then show ?thesis using less.hyps [of s1 r1] False by (subst vanilla_loop.simps) simp
  qed
qed

lemma vanilla_run_ok:
  assumes ok: "sched_ok s" and iv: "inv (net s)" and c: "set (channels_pending s) \<subseteq> chans"
  shows "\<exists>s'. vanilla_scheduler_run ops s = Some s' \<and> sched_ok s' \<and> inv (net s') \<and> set (channels_pending s') \<subseteq> set (channels_pending s) \<and>
    (\<forall>c. c \<notin> set (channels_pending s) \<longrightarrow> scheduler_state s' c = scheduler_state s c) \<and>
    (\<forall>c \<in> set (channels_pending s). op_more ops c (net s') \<and> op_open ops c (net s') \<longrightarrow>
       scheduler_state s' c = SCHED_CHAN_PENDING \<or> scheduler_state s' c = SCHED_CHAN_WAITING_TO_WRITE)"
proof -
  let ?P = "set (channels_pending s)"
  have "van_inv ?P s {} (s, [])" using ok iv c by (simp add: van_inv_def)
  then obtain s1 r where s1: "vanilla_loop ops (s, []) = Some (s1, r)" "van_inv ?P s {} (s1, r)" "channels_pending s1 = []"
    using vanilla_loop_ok by blast
  have r: "readded r s1 (vanilla_readd ops r s1)" using readd_ok(1) [of r s1 ops] s1(2) by (simp add: van_inv_def)
  have i1: "inv (net s1)" "set r \<subseteq> ?P" "\<forall>c. c \<notin> ?P \<longrightarrow> scheduler_state s1 c = scheduler_state s c"
    "\<forall>c \<in> ?P. c \<notin> set r \<longrightarrow> scheduler_state s1 c = SCHED_CHAN_WAITING_TO_WRITE \<or> at_rest c s1"
    using s1(2,3) by (simp_all add: van_inv_def)
  have "vanilla_scheduler_run ops s = Some (vanilla_readd ops r s1)" using s1(1) by (simp add: vanilla_scheduler_run_def)
  moreover have "sched_ok (vanilla_readd ops r s1)" "inv (net (vanilla_readd ops r s1))" "set (channels_pending (vanilla_readd ops r s1)) \<subseteq> ?P"
    using r i1(1,2) s1(3) by (simp_all add: readded_def)
  moreover have "\<forall>c. c \<notin> ?P \<longrightarrow> scheduler_state (vanilla_readd ops r s1) c = scheduler_state s c"
    using r i1(2,3) by (auto simp: readded_def)
  moreover have "\<forall>c \<in> ?P. op_more ops c (net (vanilla_readd ops r s1)) \<and> op_open ops c (net (vanilla_readd ops r s1)) \<longrightarrow>
       scheduler_state (vanilla_readd ops r s1) c = SCHED_CHAN_PENDING \<or> scheduler_state (vanilla_readd ops r s1) c = SCHED_CHAN_WAITING_TO_WRITE"
    using r i1(4) by (auto simp: readded_def at_rest_def)
  ultimately show ?thesis by blast
qed

end

end
