(* ===== verification/SchedulerKist.thy ===== *)
theory SchedulerKist
  imports SchedulerInv
begin

text \<open>
  A run of the KIST scheduler: it ends although channels go back into the list, it forgets no open
  channel with cells, and it never writes more to a socket than the limit that was computed for it.
\<close>

section \<open>The limit of a socket\<close>

definition budget_ok :: "(u64 \<Rightarrow> socket_table_ent_t option) \<Rightarrow> bool" where
  "budget_ok t = (\<forall>c ent. t c = Some ent \<longrightarrow> written ent \<le> limit ent)"

lemma sdiv_positive: "x sdiv 543 > 0 \<Longrightarrow> (543 :: int) \<le> x"
  by (cases "x < 0"; cases "x < 543") (simp_all add: signed_divide_int_def)

lemma room_for_cell:
  fixes l w :: u64
  assumes "sint (l - w) sdiv (CELL_MAX_NETWORK_SIZE + TLS_PER_CELL_OVERHEAD) > 0" and "w \<le> l"
  shows "w + 543 \<le> l"
proof -
  have s: "543 \<le> sint (l - w)" using assms(1) by (intro sdiv_positive) simp
  have "sint (l - w) < 2 ^ 63" using sint_lt [of "l - w"] by simp
  then have "uint (l - w) = sint (l - w)" using s by (simp add: uint_sint take_bit_int_eq_self)
  then have "543 \<le> uint (l - w)" using s by simp
  then have "uint w + 543 \<le> uint l" using assms(2) by (simp add: uint_minus_simple_alt)
  moreover have "uint (w + 543) = uint w + 543" using calculation uint_lt2p [of l] by (simp add: uint_word_ariths)
  ultimately show ?thesis by (simp add: word_le_def)
qed

lemma budget_written:
  assumes "budget_ok (socket_table s)" "socket_can_write s c"
  shows "budget_ok (socket_table (update_socket_written c 543 s))"
  using assms room_for_cell
  by (auto simp: budget_ok_def update_socket_written_def socket_can_write_def split: option.splits if_splits)

text \<open>Collecting the kernel's information changes nothing but the table of sockets, and starts every
  count at zero.\<close>

lemma impl_written [simp]: "written (fst (update_socket_info_impl ops c ent s)) = written ent"
  "\<exists>k. snd (update_socket_info_impl ops c ent s) = s\<lparr>kist_no_kernel_support := k\<rparr>"
  by (auto simp: update_socket_info_impl_def socket_fallback_def Let_def split: sum.split prod.split intro: exI [of _ "kist_no_kernel_support s"])

lemma collect_one:
  "\<exists>t k. update_socket_info ops c (init_socket_info c s) = s\<lparr>socket_table := t, kist_no_kernel_support := k\<rparr> \<and>
     (budget_ok (socket_table s) \<longrightarrow> budget_ok t)"
proof -
  let ?ent = "(case socket_table s c of None \<Rightarrow> \<lparr>written = 0, limit = 0, se_cwnd = 0, se_unacked = 0, se_mss = 0, se_notsent = 0\<rparr>
                 | Some ent \<Rightarrow> ent)\<lparr>written := 0\<rparr>" and ?s = "init_socket_info c s"
  have s: "?s = s\<lparr>socket_table := (socket_table s)(c \<mapsto> ?ent)\<rparr>" by (simp add: init_socket_info_def Let_def)
  obtain ent s1 where u: "update_socket_info_impl ops c ?ent ?s = (ent, s1)" by force
  obtain k where k: "s1 = ?s\<lparr>kist_no_kernel_support := k\<rparr>" using impl_written(2) [of ops c ?ent ?s] u by auto
  have w: "written ent = 0" using impl_written(1) [of ops c ?ent ?s] u by simp
  have "update_socket_info ops c ?s = s1\<lparr>socket_table := (socket_table s1)(c \<mapsto> ent)\<rparr>"
    using u by (simp add: update_socket_info_def s)
  also have "\<dots> = s\<lparr>socket_table := (socket_table s)(c \<mapsto> ent), kist_no_kernel_support := k\<rparr>" unfolding k s by simp
  finally show ?thesis using w by (auto simp: budget_ok_def split: if_splits)
qed

lemma kist_collect_ok:
  "\<exists>t k. kist_collect ops s = s\<lparr>socket_table := t, kist_no_kernel_support := k\<rparr> \<and> (budget_ok (socket_table s) \<longrightarrow> budget_ok t)"
proof -
  have "\<exists>t k. fold (\<lambda>c s. update_socket_info ops c (init_socket_info c s)) cs s = s\<lparr>socket_table := t, kist_no_kernel_support := k\<rparr> \<and>
      (budget_ok (socket_table s) \<longrightarrow> budget_ok t)" for cs
  proof (induction cs arbitrary: s)
    case Nil
    have "s = s\<lparr>socket_table := socket_table s, kist_no_kernel_support := kist_no_kernel_support s\<rparr>" by simp
    then show ?case by (metis fold_simps(1))
  next
    case (Cons c cs)
    obtain t k where 1: "update_socket_info ops c (init_socket_info c s) = s\<lparr>socket_table := t, kist_no_kernel_support := k\<rparr>"
      "budget_ok (socket_table s) \<longrightarrow> budget_ok t" using collect_one by blast
    obtain t' k' where 2: "fold (\<lambda>c s. update_socket_info ops c (init_socket_info c s)) cs (s\<lparr>socket_table := t, kist_no_kernel_support := k\<rparr>) =
        s\<lparr>socket_table := t, kist_no_kernel_support := k\<rparr>\<lparr>socket_table := t', kist_no_kernel_support := k'\<rparr>" "budget_ok t \<longrightarrow> budget_ok t'"
      using Cons.IH [of "s\<lparr>socket_table := t, kist_no_kernel_support := k\<rparr>"] by auto
    then show ?case using 1 by auto
  qed
  then show ?thesis by (simp add: kist_collect_def)
qed

lemma core_collect [simp]: "sched_core X (s\<lparr>socket_table := t, kist_no_kernel_support := k\<rparr>) = sched_core X s"
  "sched_core X (s\<lparr>scheduler_last_run := l\<rparr>) = sched_core X s"
  by (simp_all add: sched_core_def)

section \<open>The loop\<close>

context sched_channels
begin

text \<open>Writing the output buffer of a channel to the kernel, unless the channel waits to write.\<close>

definition written_out :: "u64 \<Rightarrow> 'w sched_t \<Rightarrow> 'w sched_t \<Rightarrow> bool" where
  "written_out c s s' =
     (inv (net s') \<and> meas (net s') \<le> meas (net s) \<and> (\<forall>d. at_rest d s \<longrightarrow> at_rest d s') \<and>
      set (channels_pending s') \<subseteq> set (channels_pending s) \<and>
      (\<forall>d \<in> set (channels_pending s). d \<in> set (channels_pending s') \<or> d = c \<and> at_rest c s') \<and>
      (\<forall>d. d \<noteq> c \<longrightarrow> scheduler_state s' d = scheduler_state s d) \<and> scheduler_state s' c \<noteq> SCHED_CHAN_WAITING_TO_WRITE \<and>
      (\<forall>d. socket_table s' d = socket_table s d \<or> socket_table s' d = None))"

lemma write_to_kernel_ok:
  assumes ok: "sched_core X s" and iv: "inv (net s)" and c: "c \<in> chans" "scheduler_state s c \<noteq> SCHED_CHAN_WAITING_TO_WRITE"
  shows "\<exists>s'. channel_write_to_kernel ops c s = Some s' \<and> sched_core X s' \<and> written_out c s s'"
proof (cases "op_outbuf_len ops c (net s) = 0")
  case True
  then show ?thesis using assms by (simp add: channel_write_to_kernel_def written_out_def)
next
  case False
  obtain room w where w: "op_handle_write ops c (net s) = (room, w)" by (cases "op_handle_write ops c (net s)")
  have h: "inv w" "meas w \<le> meas (net s)" "\<forall>d. op_more ops d w = op_more ops d (net s) \<and> (op_open ops d w \<longrightarrow> op_open ops d (net s))"
    using handle_write [OF iv c(1) w] by simp_all
  let ?s = "s\<lparr>net := w\<rparr>"
  have ok1: "sched_core X ?s" using ok by simp
  have same: "written_out c s ?s" using h c(2) by (auto simp: written_out_def at_rest_def)
  have mv: "sched_core X s1 \<and> written_out c s (s1\<lparr>socket_table := t\<rparr>)"
    if "moved c st ?s s1" "st \<noteq> SCHED_CHAN_PENDING" "st \<noteq> SCHED_CHAN_WAITING_TO_WRITE" "t = socket_table s \<or> t = (socket_table s)(c := None)"
      "c \<in> set (channels_pending s) \<longrightarrow> \<not> op_open ops c w" for st s1 t
    using core_mono [OF moved_core [OF that(1) ok1]] movedD(1,2,3,8) [OF that(1)] that(2-5) h
    by (auto simp: written_out_def at_rest_def split: if_splits)
  show ?thesis
  proof (cases "op_open ops c (net s) \<and> \<not> op_open ops c w")
    case True
    obtain s1 t where r: "scheduler_release_channel ops c ?s = Some (s1\<lparr>socket_table := t\<rparr>)" "moved c SCHED_CHAN_IDLE ?s s1"
      "t = socket_table s \<or> t = (socket_table s)(c := None)"
      using release_ok [OF ok1, of ops c] by auto
    then show ?thesis using mv [OF r(2) _ _ r(3)] True False w by (simp add: channel_write_to_kernel_def)
  next
    case no: False
    have wr: "channel_write_to_kernel ops c s = (if room then scheduler_channel_wants_writes ops c ?s else Some ?s)"
      using w False no by (auto simp: channel_write_to_kernel_def)
    show ?thesis
    proof (cases "room \<and> scheduler_state s c = SCHED_CHAN_IDLE")
      case True
      then have np: "c \<notin> set (channels_pending s)" using ok by (auto simp: sched_core_def)
      then have m: "moved c SCHED_CHAN_WAITING_FOR_CELLS ?s (scheduler_set_channel_state c SCHED_CHAN_WAITING_FOR_CELLS ?s)"
        using set_state_moved [OF ok1] by simp
      have "channel_write_to_kernel ops c s = Some (scheduler_set_channel_state c SCHED_CHAN_WAITING_FOR_CELLS ?s)"
        using wr True ok by (simp add: scheduler_channel_wants_writes_def sched_core_def)
      then show ?thesis using mv [OF m _ _ _, of "socket_table s"] np by (simp add: scheduler_set_channel_state_def)
    next
      case False
      then have "channel_write_to_kernel ops c s = Some ?s"
        using wr c(2) ok by (auto simp: scheduler_channel_wants_writes_def sched_core_def)
      then show ?thesis using ok1 same by simp
    qed
  qed
qed

text \<open>\<open>P\<close> are the channels that were pending when the run began, \<open>s0\<close> the state then; the channels of \<open>Y\<close> have
  been taken out and are not decided.\<close>

definition kinv :: "u64 set \<Rightarrow> 'w sched_t \<Rightarrow> u64 set \<Rightarrow> 'w kist_vars \<Rightarrow> bool" where
  "kinv P s0 Y v =
     (sched_core (Y \<union> set (to_readd v)) (kv_s v) \<and> inv (net (kv_s v)) \<and> distinct (to_readd v) \<and>
      (Y \<union> set (to_readd v)) \<inter> set (channels_pending (kv_s v)) = {} \<and> Y \<inter> set (to_readd v) = {} \<and>
      set (channels_pending (kv_s v)) \<union> Y \<union> set (to_readd v) \<subseteq> P \<and> P \<subseteq> chans \<and>
      set_option (prev_chan v) \<union> set (outbuf_table v) \<subseteq> P \<and>
      (\<forall>c. c \<notin> P \<longrightarrow> scheduler_state (kv_s v) c = scheduler_state s0 c) \<and>
      (\<forall>c \<in> P. scheduler_state (kv_s v) c \<noteq> SCHED_CHAN_WAITING_TO_WRITE \<and>
         (c \<notin> set (channels_pending (kv_s v)) \<union> Y \<union> set (to_readd v) \<longrightarrow> at_rest c (kv_s v))) \<and>
      budget_ok (socket_table (kv_s v)))"

lemma budget_less: "budget_ok t \<Longrightarrow> \<forall>d. t' d = t d \<or> t' d = None \<Longrightarrow> budget_ok t'"
  unfolding budget_ok_def by (metis option.distinct(1))

lemma kinv_written_out:
  assumes v: "kinv P s0 Y v" and w: "written_out c (kv_s v) s'" "sched_core (Y \<union> set (to_readd v)) s'" and c: "c \<in> P"
  shows "kinv P s0 Y (v\<lparr>kv_s := s'\<rparr>)"
proof -
  have b: "budget_ok (socket_table s')" using v w(1) budget_less [of "socket_table (kv_s v)"] by (simp add: kinv_def written_out_def)
  have p: "set (channels_pending s') \<subseteq> set (channels_pending (kv_s v))" using w(1) by (simp add: written_out_def)
  have st: "scheduler_state s' d = scheduler_state (kv_s v) d" if "d \<notin> P" for d using that c w(1) by (auto simp: written_out_def)
  have dec: "scheduler_state s' d \<noteq> SCHED_CHAN_WAITING_TO_WRITE \<and>
      (d \<notin> set (channels_pending s') \<union> Y \<union> set (to_readd v) \<longrightarrow> at_rest d s')" if "d \<in> P" for d
    using that v w(1) unfolding kinv_def written_out_def by (metis Un_iff)
  show ?thesis using v w b p st dec unfolding kinv_def written_out_def by auto
qed

lemma kinv_pop:
  assumes v: "kinv P s0 {} v" and ne: "channels_pending (kv_s v) \<noteq> []"
  shows "\<exists>c s. pend_pop ops (kv_s v) = Some (c, s) \<and> kinv P s0 {c} (v\<lparr>kv_s := s\<rparr>) \<and> net s = net (kv_s v) \<and>
    set (channels_pending s) = set (channels_pending (kv_s v)) - {c} \<and> c \<in> set (channels_pending (kv_s v))"
proof -
  let ?s = "kv_s v"
  have ok: "pend_ok (channels_pending ?s) (sched_heap_idx ?s)" using v by (simp add: kinv_def sched_core_def)
  obtain c p h where c: "pend_pop ops ?s = Some (c, ?s\<lparr>channels_pending := p, sched_heap_idx := h\<rparr>)" "pend_ok p h"
    "c \<in> set (channels_pending ?s)" "set p = set (channels_pending ?s) - {c}"
    using pend_pop_ok [OF ok ne] by blast
  have "sched_core ({c} \<union> set (to_readd v)) (?s\<lparr>channels_pending := p, sched_heap_idx := h\<rparr>)"
    using v c(2-4) by (auto simp: kinv_def sched_core_def)
  then have "kinv P s0 {c} (v\<lparr>kv_s := ?s\<lparr>channels_pending := p, sched_heap_idx := h\<rparr>\<rparr>)"
    using v c(3,4) by (auto simp: kinv_def at_rest_def)
  then show ?thesis using c by force
qed

text \<open>Another channel is served: the output buffer of the previous one may be written.\<close>

lemma kist_switch_ok:
  assumes v: "kinv P s0 {c} v"
  shows "\<exists>v'. kist_switch ops c v = Some v' \<and> kinv P s0 {c} v' \<and> meas (net (kv_s v')) \<le> meas (net (kv_s v)) \<and>
    set (channels_pending (kv_s v')) \<subseteq> set (channels_pending (kv_s v))"
proof -
  have c: "c \<in> P" using v by (simp add: kinv_def)
  have tab: "kinv P s0 {c} (v\<lparr>outbuf_table := t, prev_chan := p\<rparr>)" if "set_option p \<union> set t \<subseteq> P" for t p
    using v that by (simp add: kinv_def)
  let ?t = "outbuf_table_add (outbuf_table v) c"
  have t: "set ?t \<subseteq> P" using v c by (auto simp: kinv_def outbuf_table_add_def)
  show ?thesis
  proof (cases "prev_chan v")
    case None
    then show ?thesis using tab [of "Some c" ?t] t c by (simp add: kist_switch_def)
  next
    case (Some prev)
    then have pr: "prev \<in> P" using v by (simp add: kinv_def)
    show ?thesis
    proof (cases "prev = c")
      case True
      have "kinv P s0 {c} (v\<lparr>outbuf_table := ?t\<rparr>)" using v t by (simp add: kinv_def)
      then show ?thesis using Some True by (simp add: kist_switch_def)
    next
      case False
      let ?t2 = "outbuf_table_add ?t prev"
      have t2: "set ?t2 \<subseteq> P" "set (outbuf_table_remove ?t2 prev) \<subseteq> P"
        using t pr by (auto simp: outbuf_table_add_def outbuf_table_remove_def)
      have "sched_core ({c} \<union> set (to_readd v)) (kv_s v)" "inv (net (kv_s v))" "prev \<in> chans"
        "scheduler_state (kv_s v) prev \<noteq> SCHED_CHAN_WAITING_TO_WRITE" using v pr by (auto simp: kinv_def)
      from write_to_kernel_ok [OF this] obtain s1 where s1: "channel_write_to_kernel ops prev (kv_s v) = Some s1"
        "sched_core ({c} \<union> set (to_readd v)) s1" "written_out prev (kv_s v) s1" by blast
      let ?v2 = "v\<lparr>outbuf_table := ?t2, prev_chan := Some c\<rparr>"
      let ?v' = "?v2\<lparr>kv_s := s1, outbuf_table := outbuf_table_remove ?t2 prev\<rparr>"
      have w: "kinv P s0 {c} ?v'"
        using kinv_written_out [OF v s1(3,2) pr] t2(2) c by (simp add: kinv_def)
      have m: "meas (net s1) \<le> meas (net (kv_s v))" "set (channels_pending s1) \<subseteq> set (channels_pending (kv_s v))"
        using s1(3) by (simp_all add: written_out_def)
      have "kist_switch ops c v = (if op_outbuf_len ops prev (net (kv_s v)) > CELL_MAX_NETWORK_SIZE * 8 then Some ?v' else Some ?v2)"
        using Some False s1(1) by (simp add: kist_switch_def channel_should_write_to_kernel_def Let_def)
      then show ?thesis using w m tab [of "Some c" ?t2] t2(1) c by simp
    qed
  qed
qed

text \<open>The end of a turn.\<close>

lemma kinv_settle:
  assumes v: "kinv P s0 {c} v" and st: "st \<noteq> SCHED_CHAN_PENDING" "st \<noteq> SCHED_CHAN_WAITING_TO_WRITE" "at_rest c (kv_s v)"
  shows "kinv P s0 {} (v\<lparr>kv_s := scheduler_set_channel_state c st (kv_s v)\<rparr>)"
proof -
  let ?s = "scheduler_set_channel_state c st (kv_s v)"
  have ok: "sched_core ({c} \<union> set (to_readd v)) (kv_s v)" and np: "c \<notin> set (channels_pending (kv_s v))" using v by (simp_all add: kinv_def)
  have "sched_core (set (to_readd v)) ?s"
    using core_mono [OF moved_core [OF set_state_moved [OF ok np st(1)] ok]] by auto
  then show ?thesis using v st by (auto simp: kinv_def scheduler_set_channel_state_def at_rest_def)
qed

lemma kist_decide_ok:
  assumes v: "kinv P s0 {c} v"
  shows "kinv P s0 {} (kist_decide ops c v)" and "net (kv_s (kist_decide ops c v)) = net (kv_s v)"
    and "\<not> socket_can_write (kv_s v) c \<Longrightarrow> set (channels_pending (kv_s (kist_decide ops c v))) = set (channels_pending (kv_s v))"
proof -
  let ?s = "kv_s v" and ?mp = "make_pending ops c (kv_s v)"
  have ok: "sched_core ({c} \<union> set (to_readd v)) ?s" and np: "c \<notin> set (channels_pending ?s)" using v by (simp_all add: kinv_def)
  have m: "moved c SCHED_CHAN_PENDING ?s ?mp" by (rule make_pending_moved [OF ok np])
  have core: "sched_core (set (to_readd v)) ?mp" using core_mono [OF moved_core [OF m ok]] by auto
  have pend: "kinv P s0 {} (v\<lparr>kv_s := ?mp\<rparr>)"
    using v core movedD(1,2,3,8) [OF m] by (auto simp: kinv_def at_rest_def)
  have keep: "kinv P s0 {} (v\<lparr>to_readd := smartlist_add (to_readd v) c\<rparr>)" using v by (auto simp: kinv_def smartlist_add_def)
  have rest: "kinv P s0 {} (v\<lparr>kv_s := scheduler_set_channel_state c SCHED_CHAN_WAITING_FOR_CELLS ?s\<rparr>)" if "\<not> op_more ops c (net ?s)"
    using kinv_settle [OF v, of SCHED_CHAN_WAITING_FOR_CELLS] that by (simp add: at_rest_def)
  show "kinv P s0 {} (kist_decide ops c v)" using pend keep rest by (simp add: kist_decide_def Let_def)
  show "net (kv_s (kist_decide ops c v)) = net (kv_s v)"
    "\<not> socket_can_write (kv_s v) c \<Longrightarrow> set (channels_pending (kv_s (kist_decide ops c v))) = set (channels_pending (kv_s v))"
    using movedD(2) [OF m] by (auto simp: kist_decide_def Let_def scheduler_set_channel_state_def)
qed

section \<open>A run\<close>

lemma kinv_served:
  assumes v: "kinv P s0 {c} v" and sv: "sched_core ({c} \<union> set (to_readd v)) s" "served c (kv_s v) s"
  shows "kinv P s0 {c} (v\<lparr>kv_s := s\<rparr>)"
proof -
  have c: "c \<in> P" using v by (simp add: kinv_def)
  have b: "budget_ok (socket_table s)" using v sv(2) budget_less [of "socket_table (kv_s v)"] by (simp add: kinv_def served_def)
  have st: "scheduler_state s d = scheduler_state (kv_s v) d" if "d \<notin> P" for d using that c sv(2) by (auto simp: served_def)
  have dec: "scheduler_state s d \<noteq> SCHED_CHAN_WAITING_TO_WRITE \<and>
      (d \<notin> set (channels_pending s) \<union> {c} \<union> set (to_readd v) \<longrightarrow> at_rest d s)" if "d \<in> P" for d
    using that v sv(2) unfolding kinv_def served_def by (cases "d = c") auto
  show ?thesis using v sv b st dec unfolding kinv_def served_def by simp
qed

text \<open>A turn sends a cell, or leaves fewer channels in the list and no more work.\<close>

lemma kist_turn_ok:
  assumes v: "kinv P s0 {} v" and ne: "channels_pending (kv_s v) \<noteq> []"
  shows "\<exists>v'. kist_turn ops v = Some v' \<and> kinv P s0 {} v' \<and>
    (meas (net (kv_s v')) < meas (net (kv_s v)) \<or>
     meas (net (kv_s v')) \<le> meas (net (kv_s v)) \<and> set (channels_pending (kv_s v')) \<subset> set (channels_pending (kv_s v)))"
proof -
  obtain c s1 where s1: "pend_pop ops (kv_s v) = Some (c, s1)" "kinv P s0 {c} (v\<lparr>kv_s := s1\<rparr>)" "net s1 = net (kv_s v)"
    "set (channels_pending s1) = set (channels_pending (kv_s v)) - {c}" "c \<in> set (channels_pending (kv_s v))"
    using kinv_pop [OF v ne] by blast
  obtain v2 where v2: "kist_switch ops c (v\<lparr>kv_s := s1\<rparr>) = Some v2" "kinv P s0 {c} v2" "meas (net (kv_s v2)) \<le> meas (net (kv_s v))"
    "set (channels_pending (kv_s v2)) \<subseteq> set (channels_pending s1)"
    using kist_switch_ok [OF s1(2)] s1(3) by auto
  have less: "set (channels_pending s1) \<subset> set (channels_pending (kv_s v))" using s1(4,5) by auto
  note v2 = v2(1-3) subset_psubset_trans [OF v2(4) less]
  show ?thesis
  proof (cases "socket_can_write (kv_s v2) c")
    case False
    then have "kist_turn ops v = Some (kist_decide ops c v2)" using s1(1) v2(1) by (simp add: kist_turn_def)
    then show ?thesis using kist_decide_ok [OF v2(2)] False v2(3,4) by simp
  next
    case True
    have pre: "sched_core ({c} \<union> set (to_readd v2)) (kv_s v2)" "inv (net (kv_s v2))" "c \<in> chans" "c \<notin> set (channels_pending (kv_s v2))"
      using v2(2) by (auto simp: kinv_def)
    obtain n s where s: "sched_flush ops c 1 (kv_s v2) = Some (n, s)" "sched_core ({c} \<union> set (to_readd v2)) s" "served c (kv_s v2) s"
      "0 \<le> n" "n \<le> 1" "int (meas (net s)) + n \<le> int (meas (net (kv_s v2)))" "n = 0 \<longrightarrow> at_rest c s"
      using sched_flush_ok [OF pre, of 1] by auto
    let ?v = "v2\<lparr>kv_s := s\<rparr>"
    have kv: "kinv P s0 {c} ?v" by (rule kinv_served [OF v2(2) s(2,3)])
    have p: "set (channels_pending s) \<subset> set (channels_pending (kv_s v))" using s(3) v2(4) by (simp add: served_def)
    have turn: "kist_turn ops v = (if \<not> op_open ops c (net s) then Some (v2\<lparr>kv_s := scheduler_set_channel_state c SCHED_CHAN_IDLE s\<rparr>)
        else if n > 0 then Some (kist_decide ops c (v2\<lparr>kv_s := update_socket_written c (of_int (n * 543)) s\<rparr>))
        else Some (v2\<lparr>kv_s := scheduler_set_channel_state c SCHED_CHAN_WAITING_FOR_CELLS s\<rparr>))"
      using s1(1) v2(1) True s(1) by (simp add: kist_turn_def)
    have rest: "kinv P s0 {} (v2\<lparr>kv_s := scheduler_set_channel_state c st s\<rparr>) \<and>
        set (channels_pending (scheduler_set_channel_state c st s)) = set (channels_pending s) \<and> net (scheduler_set_channel_state c st s) = net s"
      if "st \<noteq> SCHED_CHAN_PENDING" "st \<noteq> SCHED_CHAN_WAITING_TO_WRITE" "at_rest c s" for st
      using kinv_settle [OF kv, of st] that by (simp add: scheduler_set_channel_state_def)
    show ?thesis
    proof (cases "n = 0 \<or> \<not> op_open ops c (net s)")
      case True
      then have "at_rest c s" using s(7) by (auto simp: at_rest_def)
      then show ?thesis
        using turn True s(4,6) rest [of SCHED_CHAN_IDLE] rest [of SCHED_CHAN_WAITING_FOR_CELLS] p v2(3)
        by (cases "op_open ops c (net s)") auto
    next
      case False
      then have n: "n = 1" using s(4,5) by simp
      have same: "socket_table s c = socket_table (kv_s v2) c \<or> socket_table s c = None" using s(3) by (simp add: served_def)
      then have "socket_can_write s c" using True by (auto simp: socket_can_write_def)
      then have b: "budget_ok (socket_table (update_socket_written c 543 s))" using budget_written [of s c] kv by (simp add: kinv_def)
      have u: "\<exists>t. update_socket_written c 543 s = s\<lparr>socket_table := t\<rparr>"
        by (auto simp: update_socket_written_def split: option.split intro: exI [of _ "socket_table s"])
      then obtain t where t: "update_socket_written c 543 s = s\<lparr>socket_table := t\<rparr>" by blast
      have kw: "kinv P s0 {c} (v2\<lparr>kv_s := s\<lparr>socket_table := t\<rparr>\<rparr>)" using kv b t by (simp add: kinv_def at_rest_def)
      have "kist_turn ops v = Some (kist_decide ops c (v2\<lparr>kv_s := s\<lparr>socket_table := t\<rparr>\<rparr>))" using turn False n t by simp
      then show ?thesis using kist_decide_ok(1,2) [OF kw] s(6) n v2(3) by simp
    qed
  qed
qed

lemma kist_loop_ok:
  assumes "kinv P s0 {} v"
  shows "\<exists>v'. kist_loop ops v = Some v' \<and> kinv P s0 {} v' \<and> channels_pending (kv_s v') = []"
proof -
  let ?r = "measures [\<lambda>v. meas (net (kv_s v)), \<lambda>v. card (set (channels_pending (kv_s v)))]"
  have "wf ?r" by simp
  then show ?thesis using assms
  proof (induction v rule: wf_induct_rule)
    case (less v)
    show ?case
    proof (cases "channels_pending (kv_s v) = []")
      case True
      then show ?thesis using less.prems by (subst kist_loop.simps) simp
    next
      case False
      then obtain v1 where v1: "kist_turn ops v = Some v1" "kinv P s0 {} v1"
        "meas (net (kv_s v1)) < meas (net (kv_s v)) \<or>
         meas (net (kv_s v1)) \<le> meas (net (kv_s v)) \<and> set (channels_pending (kv_s v1)) \<subset> set (channels_pending (kv_s v))"
        using kist_turn_ok [OF less.prems] by blast
      have "(v1, v) \<in> ?r" using v1(3) psubset_card_mono [of "set (channels_pending (kv_s v))"] by (auto simp: le_less)
      then show ?thesis using less.IH [of v1] v1(1,2) False by (subst kist_loop.simps) simp
    qed
  qed
qed

lemma write_all_ok:
  assumes "kinv P s0 {} v" "set cs \<subseteq> P"
  shows "\<exists>s. write_all_to_kernel ops cs (kv_s v) = Some s \<and> kinv P s0 {} (v\<lparr>kv_s := s\<rparr>) \<and>
    set (channels_pending s) \<subseteq> set (channels_pending (kv_s v))"
  using assms
proof (induction cs arbitrary: v)
  case (Cons c cs)
  have "sched_core ({} \<union> set (to_readd v)) (kv_s v)" "inv (net (kv_s v))" "c \<in> chans" "scheduler_state (kv_s v) c \<noteq> SCHED_CHAN_WAITING_TO_WRITE"
    using Cons.prems by (auto simp: kinv_def)
  from write_to_kernel_ok [OF this] obtain s1 where s1: "channel_write_to_kernel ops c (kv_s v) = Some s1"
    "sched_core ({} \<union> set (to_readd v)) s1" "written_out c (kv_s v) s1" by blast
  have "kinv P s0 {} (v\<lparr>kv_s := s1\<rparr>)" using kinv_written_out [OF Cons.prems(1) s1(3,2)] Cons.prems(2) by simp
  from Cons.IH [OF this] Cons.prems(2) obtain s where s: "write_all_to_kernel ops cs s1 = Some s" "kinv P s0 {} (v\<lparr>kv_s := s\<rparr>)"
    "set (channels_pending s) \<subseteq> set (channels_pending s1)" by auto
  then show ?case using s1(1,3) by (auto simp: written_out_def)
qed simp

lemma kist_run_ok:
  assumes ok: "sched_ok s" and iv: "inv (net s)" and c: "set (channels_pending s) \<subseteq> chans" and b: "budget_ok (socket_table s)"
  shows "\<exists>s'. kist_scheduler_run ops s = Some s' \<and> sched_ok s' \<and> inv (net s') \<and> budget_ok (socket_table s') \<and>
    set (channels_pending s') \<subseteq> set (channels_pending s) \<and>
    (\<forall>c. c \<notin> set (channels_pending s) \<longrightarrow> scheduler_state s' c = scheduler_state s c) \<and>
    (\<forall>c \<in> set (channels_pending s). op_more ops c (net s') \<and> op_open ops c (net s') \<longrightarrow> c \<in> set (channels_pending s'))"
proof -
  let ?P = "set (channels_pending s)"
  obtain t k where k: "kist_collect ops s = s\<lparr>socket_table := t, kist_no_kernel_support := k\<rparr>" "budget_ok t"
    using kist_collect_ok [of ops s] b by blast
  let ?v = "\<lparr>kv_s = kist_collect ops s, prev_chan = None, to_readd = [], outbuf_table = []\<rparr>"
  have "kinv ?P s {} ?v" using ok iv c k by (auto simp: kinv_def sched_core_def)
  then obtain v where v: "kist_loop ops ?v = Some v" "kinv ?P s {} v" "channels_pending (kv_s v) = []" using kist_loop_ok by blast
  have "set (outbuf_table v) \<subseteq> ?P" using v(2) by (simp add: kinv_def)
  then obtain s1 where s1: "write_all_to_kernel ops (outbuf_table v) (kv_s v) = Some s1" "kinv ?P s {} (v\<lparr>kv_s := s1\<rparr>)" "channels_pending s1 = []"
    using write_all_ok [OF v(2), of "outbuf_table v"] v(3) by auto
  let ?s2 = "kist_readd ops (to_readd v) s1"
  have r: "readded (to_readd v) s1 ?s2" using readd_ok [of "to_readd v" s1 ops] s1(2) by (simp add: kinv_def)
  have i: "inv (net s1)" "set (to_readd v) \<subseteq> ?P" "\<forall>c. c \<notin> ?P \<longrightarrow> scheduler_state s1 c = scheduler_state s c"
    "\<forall>c \<in> ?P. c \<notin> set (to_readd v) \<longrightarrow> at_rest c s1" "budget_ok (socket_table s1)"
    using s1(2,3) by (simp_all add: kinv_def)
  let ?s3 = "?s2\<lparr>scheduler_last_run := now_ms ?s2\<rparr>"
  have "kist_scheduler_run ops s = Some ?s3" using v(1) s1(1) by (simp add: kist_scheduler_run_def Let_def)
  moreover have "sched_ok ?s3" "inv (net ?s3)" "budget_ok (socket_table ?s3)" "set (channels_pending ?s3) \<subseteq> ?P"
    using r i(1,2,5) s1(3) by (simp_all add: readded_def)
  moreover have "\<forall>c. c \<notin> ?P \<longrightarrow> scheduler_state ?s3 c = scheduler_state s c" using r i(2,3) by (auto simp: readded_def)
  moreover have "\<forall>c \<in> ?P. op_more ops c (net ?s3) \<and> op_open ops c (net ?s3) \<longrightarrow> c \<in> set (channels_pending ?s3)"
    using r i(4) by (auto simp: readded_def at_rest_def)
  ultimately show ?thesis by blast
qed

end

end
