(* ===== verification/SchedulerNet.thy ===== *)
theory SchedulerNet
  imports SchedulerKist ChannelQueue
begin

text \<open>
  The scheduler on the channels of \<open>ChannelFlush\<close>: several channels share the circuits, and flushing one of
  them is \<^verbatim>\<open>channel_flush_some_cells\<close> with that channel in focus.  The lower layer is that of
  \<^verbatim>\<open>channeltls.c\<close> and \<^verbatim>\<open>connection_or.c\<close>: the output buffer of a channel holds the bytes written to the
  channel that the kernel has not taken.  What the kernel takes is a parameter.
\<close>

section \<open>Several channels\<close>

text \<open>\<open>chan\<close> of the shared state is the channel served last; \<open>kernel_taken\<close> counts the bytes the kernel took.\<close>

record 'd relay_net =
  channels :: "u64 \<Rightarrow> 'd channel_t option"
  shared :: "'d relay_world"
  kernel_taken :: "u64 \<Rightarrow> u64"

text \<open>\<open>ne_kernel\<close> is what \<^verbatim>\<open>connection_handle_write\<close> achieves: the number of bytes it wrote, or an error that
  closes the connection and its channel.\<close>

record 'd net_env =
  ne_relay :: "'d relay_env"
  ne_highwater :: u32
  ne_lowwater :: u32
  ne_kernel :: "u64 \<Rightarrow> 'd relay_net \<Rightarrow> u64 option"
  ne_kist_support :: bool
  ne_getsockopt :: "u64 \<Rightarrow> 'd relay_net \<Rightarrow> bool + (u32 \<times> u32 \<times> u32)"
  ne_ioctl :: "u64 \<Rightarrow> 'd relay_net \<Rightarrow> bool + u32"
  ne_scale :: "int \<Rightarrow> int"

definition focus :: "'d channel_t \<Rightarrow> 'd relay_net \<Rightarrow> 'd relay_world" where
  "focus ch n = (shared n)\<lparr>chan := ch\<rparr>"

definition on_channel :: "u64 \<Rightarrow> 'd relay_net \<Rightarrow> 'a \<Rightarrow> ('d channel_t \<Rightarrow> 'a) \<Rightarrow> 'a" where
  "on_channel c n x f = (case channels n c of None \<Rightarrow> x | Some ch \<Rightarrow> f ch)"

definition net_flush :: "'d net_env \<Rightarrow> u64 \<Rightarrow> int \<Rightarrow> 'd relay_net \<Rightarrow> (int \<times> 'd relay_net) option" where
  "net_flush env c k n =
     do { ch \<leftarrow> channels n c;
          (m, w) \<leftarrow> channel_flush_some_cells (ne_relay env) (focus ch n) k;
          Some (m, n\<lparr>channels := (channels n)(c \<mapsto> chan w), shared := w\<rparr>) }"

definition net_more :: "u64 \<Rightarrow> 'd relay_net \<Rightarrow> bool" where
  "net_more c n = on_channel c n False (\<lambda>ch. channel_more_to_flush (focus ch n))"

definition net_open :: "u64 \<Rightarrow> 'd relay_net \<Rightarrow> bool" where
  "net_open c n = on_channel c n False (\<lambda>ch. ch_state ch = CHANNEL_STATE_OPEN)"

text \<open>The comparison of two channels by their multiplexers; channels have the same policy or none.\<close>

definition scheduler_compare_channels :: "'d net_env \<Rightarrow> 'd relay_net \<Rightarrow> u64 \<Rightarrow> u64 \<Rightarrow> int option" where
  "scheduler_compare_channels env n c1 c2 =
     do { ch1 \<leftarrow> channels n c1;
          ch2 \<leftarrow> channels n c2;
          if c1 \<noteq> c2
          then if cm_policy (cmux ch1) = cm_policy (cmux ch2)
               then circuitmux_compare_muxes (mux_policy (ne_relay env)) False (cmux ch1) (cmux ch2)
               else Some (if \<not> cm_policy (cmux ch1) then - 1 else 1)
          else Some 0 }"

section \<open>The lower layer\<close>

definition CEIL_DIV :: "u64 \<Rightarrow> u64 \<Rightarrow> u64" where
  "CEIL_DIV a b = (a + (b - 1)) div b"

text \<open>The watermark is converted to \<^verbatim>\<open>size_t\<close>, and the quotient to \<^verbatim>\<open>ssize_t\<close>.\<close>

definition channel_tls_num_cells_writeable_method :: "u32 \<Rightarrow> bool \<Rightarrow> u64 \<Rightarrow> int" where
  "channel_tls_num_cells_writeable_method highwater wide datalen =
     (let n = sint (CEIL_DIV (ucast highwater - datalen) (get_cell_network_size wide));
          n = (if n < 0 then 0 else n)
      in if n > INT32_MAX then INT32_MAX else n)"

definition connection_or_num_cells_writeable :: "u32 \<Rightarrow> bool \<Rightarrow> u64 \<Rightarrow> int" where
  "connection_or_num_cells_writeable highwater wide datalen =
     (if datalen < ucast highwater then sint (CEIL_DIV (ucast highwater - datalen) (get_cell_network_size wide)) else 0)"

definition channel_outbuf_length :: "u64 \<Rightarrow> 'd relay_net \<Rightarrow> u64" where
  "channel_outbuf_length c n = on_channel c n 0 (\<lambda>ch. n_bytes_xmitted ch - kernel_taken n c)"

text \<open>Whether the scheduler is told that the channel can be written to.\<close>

definition connection_or_flushed_some :: "u32 \<Rightarrow> u64 \<Rightarrow> bool" where
  "connection_or_flushed_some lowwater datalen = (datalen < ucast lowwater)"

definition net_handle_write :: "'d net_env \<Rightarrow> u64 \<Rightarrow> 'd relay_net \<Rightarrow> bool \<times> 'd relay_net" where
  "net_handle_write env c n =
     on_channel c n (False, n) (\<lambda>ch.
       case ne_kernel env c n of
         None \<Rightarrow> (False, if CHANNEL_CONDEMNED ch then n else n\<lparr>channels := (channels n)(c \<mapsto> ch\<lparr>ch_state := CHANNEL_STATE_CLOSING\<rparr>)\<rparr>)
       | Some k \<Rightarrow> let n = n\<lparr>kernel_taken := (kernel_taken n)(c := kernel_taken n c + k)\<rparr>
                  in (connection_or_flushed_some (ne_lowwater env) (channel_outbuf_length c n), n))"

definition net_ops :: "'d net_env \<Rightarrow> 'd relay_net chan_ops" where
  "net_ops env =
     \<lparr>op_flush = net_flush env, op_more = net_more, op_open = net_open,
      op_compare = (\<lambda>n c1 c2. case scheduler_compare_channels env n c1 c2 of None \<Rightarrow> 0 | Some i \<Rightarrow> i),
      op_num_writeable = (\<lambda>c n. on_channel c n 0 (\<lambda>ch. channel_tls_num_cells_writeable_method (ne_highwater env) (wide_circ_ids ch) (channel_outbuf_length c n))),
      op_wide = (\<lambda>c n. on_channel c n False wide_circ_ids), op_outbuf_len = (\<lambda>c n. uint (channel_outbuf_length c n)),
      op_handle_write = net_handle_write env, op_kist_support = ne_kist_support env,
      op_getsockopt = ne_getsockopt env, op_ioctl = ne_ioctl env, op_scale = ne_scale env\<rparr>"

section \<open>Flushing one channel leaves the others alone\<close>

definition net_ok :: "u64 set \<Rightarrow> 'd relay_net \<Rightarrow> bool" where
  "net_ok chans n =
     (finite chans \<and> (\<forall>c \<in> chans. \<exists>ch. channels n c = Some ch \<and> global_identifier ch = c \<and> world_ok (focus ch n) \<and> chan_live ch))"

definition net_measure :: "u64 set \<Rightarrow> 'd relay_net \<Rightarrow> nat" where
  "net_measure chans n = (\<Sum>c \<in> chans. flush_measure (focus (the (channels n c)) n))"

lemma frame_entry_circ:
  assumes "flush_frame w w'"
  shows "entry_circ (circs w') ch k e a = entry_circ (circs w) ch k e a"
proof (cases "circs w a")
  case None
  then show ?thesis using flush_frameD(1) [OF assms] by (simp add: entry_circ_def)
next
  case (Some c)
  then obtain c' where "circs w' a = Some c'" "same_place c c'" using flush_frameD(2) [OF assms] by blast
  then show ?thesis using Some by (cases "mi_direction e") (auto simp: entry_circ_def same_place_def)
qed

lemma frame_key_queue:
  assumes f: "flush_frame w w'" and d: "global_identifier ch \<noteq> ch_of w"
  shows "key_queue (w'\<lparr>chan := ch\<rparr>) k = key_queue (w\<lparr>chan := ch\<rparr>) k"
proof (cases "Option.bind (chan_circid_map w k) (circs w)")
  case None
  then have "Option.bind (chan_circid_map w' k) (circs w') = None"
    using f flush_frameD(1) [OF f] by (cases "chan_circid_map w k") (auto simp: flush_frame_def)
  then show ?thesis using None by (simp add: key_queue_def)
next
  case (Some c)
  then obtain a where a: "chan_circid_map w k = Some a" "circs w a = Some c" by (cases "chan_circid_map w k") auto
  then obtain c' where c': "circs w' a = Some c'" "other_queues (ch_of w) c c'" using flush_frameD(2) [OF f] by blast
  have m: "map_option fst (chan_queue (global_identifier ch) c') = map_option fst (chan_queue (global_identifier ch) c)"
    using c'(2) d by (simp add: other_queues_def)
  have b: "Option.bind (chan_circid_map w' k) (circs w') = Some c'" using f a(1) c'(1) by (simp add: flush_frame_def)
  show ?thesis using m b Some
    by (cases "chan_queue (global_identifier ch) c"; cases "chan_queue (global_identifier ch) c'") (auto simp: key_queue_def)
qed

lemma frame_other_channel:
  assumes f: "flush_frame w w'" and ok: "world_ok (w\<lparr>chan := ch\<rparr>)" and ok': "world_ok w'" and d: "global_identifier ch \<noteq> ch_of w"
  shows "world_ok (w'\<lparr>chan := ch\<rparr>)" and "flush_measure (w'\<lparr>chan := ch\<rparr>) = flush_measure (w\<lparr>chan := ch\<rparr>)"
proof -
  note kq = frame_key_queue [OF f d]
  have good: "ewma_good (ewma_g w')" using ok' by (simp add: world_ok_def mux_ok_def)
  have mok: "mux_ok ewma_good ewma_wf ewma_act ewma_owner (circs w') (global_identifier ch) (ewma_g w', cmux ch)"
    using ok good by (simp add: world_ok_def mux_ok_def table_ok_def entry_ok_def frame_entry_circ [OF f] cong: option.case_cong)
  have circ: "circ_ok (global_identifier ch) (chan_circid_map w') a c'" if c': "circs w' a = Some c'" for a c'
  proof -
    obtain c where c: "circs w a = Some c" using flush_frameD(1) [OF f, of a] c' by (cases "circs w a") auto
    then have p: "same_place c c'" using flush_frameD(2) [OF f c] c' by auto
    have "circ_ok (global_identifier ch) (chan_circid_map w) a c" using ok c by (simp add: world_ok_def)
    moreover have "queue_ok (n_chan_cells c')" "queue_ok (p_chan_cells c')" using ok' c' by (auto simp: world_ok_def circ_ok_def)
    ultimately show ?thesis using circ_ok_same_place [OF _ p] f by (simp add: flush_frame_def)
  qed
  show "world_ok (w'\<lparr>chan := ch\<rparr>)" using ok mok circ by (simp add: world_ok_def kq)
  show "flush_measure (w'\<lparr>chan := ch\<rparr>) = flush_measure (w\<lparr>chan := ch\<rparr>)" by (simp add: flush_measure_def queued_def kq)
qed

lemma flush_some_ok:
  assumes ok: "world_ok w" "chan_live (chan w)" and k: "0 < k"
  shows "\<exists>m w'. channel_flush_some_cells env w k = Some (m, w') \<and> 0 \<le> m \<and> m \<le> k \<and> world_ok w' \<and> chan_live (chan w') \<and>
    flush_frame w w' \<and> int (flush_measure w') + m \<le> int (flush_measure w) \<and>
    (m = 0 \<longrightarrow> \<not> channel_more_to_flush w' \<or> ch_state (chan w') \<noteq> CHANNEL_STATE_OPEN)"
proof (cases "ch_state (chan w) = CHANNEL_STATE_OPEN \<and> circuitmux_num_cells (cmux (chan w)) > 0")
  case False
  then show ?thesis using k ok flush_frame_same [of w w] by (auto simp: channel_flush_some_cells_def channel_more_to_flush_def)
next
  case True
  define maxc where "maxc = (if k > MAX_CELLS_TO_GET_FROM_CIRCUITS_FOR_UNLIMITED then MAX_CELLS_TO_GET_FROM_CIRCUITS_FOR_UNLIMITED else k)"
  have m: "0 < maxc" "maxc \<le> k" using k by (auto simp: maxc_def)
  obtain n w' where r: "channel_flush_from_first_active_circuit env w maxc = Some (n, w')" "0 \<le> n" "n \<le> maxc" "world_ok w'" "chan_live (chan w')"
    "n < maxc \<longrightarrow> drained w'" "flush_frame w w'" "int (flush_measure w') + n \<le> int (flush_measure w)"
    using channel_flush_ok [OF ok, of maxc env] m(1) by auto
  have "channel_flush_some_cells env w k = Some (n, w')" using r(1) k True by (simp add: channel_flush_some_cells_def Let_def maxc_def)
  moreover have "n = 0 \<longrightarrow> \<not> channel_more_to_flush w'" using r(6) m(1) by (auto simp: drained_def channel_more_to_flush_def)
  ultimately show ?thesis using r m(2) by auto
qed

lemma net_flush_ok:
  assumes ok: "net_ok chans n" and c: "c \<in> chans" and k: "0 < k"
  shows "\<exists>m n'. net_flush env c k n = Some (m, n') \<and> net_ok chans n' \<and> 0 \<le> m \<and> m \<le> k \<and>
    int (net_measure chans n') + m \<le> int (net_measure chans n) \<and> (m = 0 \<longrightarrow> \<not> net_more c n' \<or> \<not> net_open c n') \<and>
    (\<forall>d. d \<noteq> c \<longrightarrow> net_more d n' = net_more d n \<and> net_open d n' = net_open d n)"
proof -
  obtain ch where ch: "channels n c = Some ch" "global_identifier ch = c" "world_ok (focus ch n)" "chan_live ch"
    using ok c by (auto simp: net_ok_def)
  have "chan_live (chan (focus ch n))" using ch(4) by (simp add: focus_def)
  from flush_some_ok [OF ch(3) this k] obtain m w where w: "channel_flush_some_cells (ne_relay env) (focus ch n) k = Some (m, w)" "0 \<le> m" "m \<le> k"
    "world_ok w" "chan_live (chan w)" "flush_frame (focus ch n) w" "int (flush_measure w) + m \<le> int (flush_measure (focus ch n))"
    "m = 0 \<longrightarrow> \<not> channel_more_to_flush w \<or> ch_state (chan w) \<noteq> CHANNEL_STATE_OPEN" by blast
  define n' where "n' = n\<lparr>channels := (channels n)(c \<mapsto> chan w), shared := w\<rparr>"
  have id: "ch_of (focus ch n) = c" "ch_of w = c" using ch(2) w(6) by (simp_all add: focus_def flush_frame_def)
  have self: "channels n' c = Some (chan w)" "focus (chan w) n' = w" by (simp_all add: n'_def focus_def)
  have others: "channels n' d = channels n d" if "d \<noteq> c" for d using that by (simp add: n'_def)
  have foc: "focus chd n' = w\<lparr>chan := chd\<rparr>" "focus chd n = (focus ch n)\<lparr>chan := chd\<rparr>" for chd by (simp_all add: focus_def n'_def)
  have oth: "world_ok (focus chd n')" "flush_measure (focus chd n') = flush_measure (focus chd n)"
    if "world_ok (focus chd n)" "global_identifier chd \<noteq> c" for chd
    using frame_other_channel [OF w(6) _ w(4), of chd] that id(1) foc(1) [of chd] foc(2) [of chd] by metis+
  have fin: "finite chans" using ok by (simp add: net_ok_def)
  have each: "\<exists>chd. channels n d = Some chd \<and> global_identifier chd = d \<and> world_ok (focus chd n) \<and> chan_live chd" if "d \<in> chans" for d
    using ok that by (simp add: net_ok_def)
  have "net_ok chans n'"
    unfolding net_ok_def
  proof (intro conjI ballI)
    show "\<exists>chd. channels n' d = Some chd \<and> global_identifier chd = d \<and> world_ok (focus chd n') \<and> chan_live chd" if "d \<in> chans" for d
    proof (cases "d = c")
      case True
      then show ?thesis using self w(4,5) id(2) by auto
    next
      case False
      then show ?thesis using each [OF that] oth(1) others by auto
    qed
  qed (rule fin)
  moreover have "int (net_measure chans n') + m \<le> int (net_measure chans n)"
  proof -
    have "net_measure chans n' + flush_measure (focus ch n) = net_measure chans n + flush_measure w"
      using sum_fun_upd [OF fin c, of "\<lambda>d. flush_measure (focus (the (channels n' d)) n')" "\<lambda>d. flush_measure (focus (the (channels n d)) n)"]
        each others oth(2) self ch(1) unfolding net_measure_def by fastforce
    then show ?thesis using w(7) by linarith
  qed
  moreover have "m = 0 \<longrightarrow> \<not> net_more c n' \<or> \<not> net_open c n'" using w(8) self by (simp add: net_more_def net_open_def on_channel_def)
  moreover have "\<forall>d. d \<noteq> c \<longrightarrow> net_more d n' = net_more d n \<and> net_open d n' = net_open d n"
    using others by (simp add: net_more_def net_open_def on_channel_def channel_more_to_flush_def focus_def cong: option.case_cong)
  moreover have "net_flush env c k n = Some (m, n')" using ch(1) w(1) by (simp add: net_flush_def n'_def)
  ultimately show ?thesis using w(2,3) by blast
qed

lemma net_write_ok:
  assumes ok: "net_ok chans n" and c: "c \<in> chans" and r: "net_handle_write env c n = (room, n')"
  shows "net_ok chans n' \<and> net_measure chans n' \<le> net_measure chans n \<and>
    (\<forall>d. net_more d n' = net_more d n \<and> (net_open d n' \<longrightarrow> net_open d n))"
proof -
  obtain ch where ch: "channels n c = Some ch" "global_identifier ch = c" "world_ok (focus ch n)" "chan_live ch"
    using ok c by (auto simp: net_ok_def)
  have taken: ?thesis if "n' = n\<lparr>kernel_taken := t\<rparr>" for t
    using ok that by (simp add: net_ok_def net_measure_def focus_def net_more_def net_open_def on_channel_def channel_more_to_flush_def cong: option.case_cong)
  have close: ?thesis if n': "n' = n\<lparr>channels := (channels n)(c \<mapsto> ch\<lparr>ch_state := CHANNEL_STATE_CLOSING\<rparr>)\<rparr>"
  proof -
    let ?ch = "ch\<lparr>ch_state := CHANNEL_STATE_CLOSING\<rparr>"
    have f: "focus ?ch n' = focus ?ch n" "\<And>chd. focus chd n' = focus chd n" by (simp_all add: n' focus_def)
    have kq: "key_queue (focus ?ch n) = key_queue (focus ch n)" by (rule world_cong) (simp_all add: focus_def)
    have w: "world_ok (focus ?ch n) = world_ok (focus ch n)" "flush_measure (focus ?ch n) = flush_measure (focus ch n)"
      by (simp_all add: world_ok_def flush_measure_def queued_def kq) (simp_all add: focus_def)
    have each: "flush_measure (focus (the (channels n' d)) n') = flush_measure (focus (the (channels n d)) n)" for d
      using w(2) ch(1) f by (simp add: n')
    have "net_ok chans n'" unfolding net_ok_def
    proof (intro conjI ballI)
      show "\<exists>chd. channels n' d = Some chd \<and> global_identifier chd = d \<and> world_ok (focus chd n') \<and> chan_live chd" if "d \<in> chans" for d
        using ok that w(1) ch f by (cases "d = c") (auto simp: n' net_ok_def chan_live_def)
    qed (use ok in \<open>simp add: net_ok_def\<close>)
    then show ?thesis
      using ch(1) by (simp add: net_measure_def each) (auto simp: n' net_more_def net_open_def on_channel_def channel_more_to_flush_def focus_def)
  qed
  show ?thesis
  proof (cases "ne_kernel env c n")
    case None
    then have "n' = (if CHANNEL_CONDEMNED ch then n\<lparr>kernel_taken := kernel_taken n\<rparr>
        else n\<lparr>channels := (channels n)(c \<mapsto> ch\<lparr>ch_state := CHANNEL_STATE_CLOSING\<rparr>)\<rparr>)"
      using r ch(1) by (simp add: net_handle_write_def on_channel_def split: if_splits)
    then show ?thesis using taken close by (cases "CHANNEL_CONDEMNED ch") presburger+
  next
    case (Some k)
    then have "n' = n\<lparr>kernel_taken := (kernel_taken n)(c := kernel_taken n c + k)\<rparr>"
      using r ch(1) by (simp add: net_handle_write_def on_channel_def Let_def)
    then show ?thesis by (rule taken)
  qed
qed

text \<open>The policies of the channels have their data, so comparing two channels reaches no failing assertion.\<close>

lemma compare_channels_defined:
  assumes "net_ok chans n" "c1 \<in> chans" "c2 \<in> chans"
  shows "\<exists>i. scheduler_compare_channels env n c1 c2 = Some i"
proof -
  have "\<exists>ch p. channels n c = Some ch \<and> cm_policy (cmux ch) \<and> cm_policy_data (cmux ch) = Some p" if "c \<in> chans" for c
    using assms(1) that by (fastforce simp: net_ok_def world_ok_def mux_ok_def focus_def split: option.splits)
  from this [OF assms(2)] this [OF assms(3)] show ?thesis
    by (auto simp: scheduler_compare_channels_def circuitmux_compare_muxes_def ewma_policy_def ewma_cmp_cmux_def)
qed

text \<open>The channels keep the contract of the scheduler.\<close>

interpretation nets: sched_channels "net_ops env" "net_ok chans" chans "net_measure chans"
  for env :: "'d net_env" and chans :: "u64 set"
proof unfold_locales
  show "\<exists>m w'. op_flush (net_ops env) c k w = Some (m, w') \<and> net_ok chans w' \<and> 0 \<le> m \<and> m \<le> k \<and>
      int (net_measure chans w') + m \<le> int (net_measure chans w) \<and> (m = 0 \<longrightarrow> \<not> op_more (net_ops env) c w' \<or> \<not> op_open (net_ops env) c w') \<and>
      (\<forall>d. d \<noteq> c \<longrightarrow> op_more (net_ops env) d w' = op_more (net_ops env) d w \<and> op_open (net_ops env) d w' = op_open (net_ops env) d w)"
    if "net_ok chans w" "c \<in> chans" "0 < k" for w c k
    using net_flush_ok [OF that, of env] by (simp add: net_ops_def)
  show "net_ok chans w' \<and> net_measure chans w' \<le> net_measure chans w \<and>
      (\<forall>d. op_more (net_ops env) d w' = op_more (net_ops env) d w \<and> (op_open (net_ops env) d w' \<longrightarrow> op_open (net_ops env) d w))"
    if "net_ok chans w" "c \<in> chans" "op_handle_write (net_ops env) c w = (room, w')" for w c room w'
    using net_write_ok [of chans w c env room w'] that by (simp add: net_ops_def)
qed

end
