(* ===== verification/SchedulerSpec.thy ===== *)
theory SchedulerSpec
  imports SchedulerNet
begin

text \<open>
  The theorems about the channel scheduler: its calls implement two flags per channel, both
  implementations serve every channel that can be served and end, KIST keeps to the limits of the
  sockets, a change of the configuration loses no channel, and what the lower layer reports about its
  room.
\<close>

section \<open>A network with one channel\<close>

definition demo_net :: "int relay_net" where
  "demo_net = \<lparr>channels = [7 \<mapsto> chan demo_world], shared = demo_world, kernel_taken = (\<lambda>_. 0)\<rparr>"

definition demo_net_env :: "int net_env" where
  "demo_net_env = \<lparr>ne_relay = demo_env, ne_highwater = 32768, ne_lowwater = 16384, ne_kernel = (\<lambda>c n. Some (channel_outbuf_length c n)),
     ne_kist_support = True, ne_getsockopt = (\<lambda>_ _. Inr (10, 2, 1448)), ne_ioctl = (\<lambda>_ _. Inr 0), ne_scale = (\<lambda>x. x)\<rparr>"

definition demo_sched :: "scheduler_obj \<Rightarrow> int relay_net sched_t" where
  "demo_sched obj =
     \<lparr>the_scheduler = Some obj, kist_type = SCHEDULER_KIST, channels_pending = [7], pending_exists = True,
      scheduler_state = (\<lambda>c. if c = 7 then SCHED_CHAN_PENDING else SCHED_CHAN_IDLE), sched_heap_idx = (\<lambda>c. if c = 7 then 0 else - 1),
      run_sched_ev = True, ev_armed = True, next_run = 0, socket_table = (\<lambda>_. None), kist_lite_mode = False,
      kist_no_kernel_support = False, sched_run_interval = 2, scheduler_last_run = 0, now_ms = 10, net = demo_net\<rparr>"

lemma demo_sched_ok: "sched_ok (demo_sched obj)" "armed (demo_sched obj)" "budget_ok (socket_table (demo_sched obj))"
  "the_scheduler (demo_sched obj) = Some obj" "set (channels_pending (demo_sched obj)) \<subseteq> {7}"
  by (simp_all add: demo_sched_def sched_core_def pend_ok_def armed_def budget_ok_def)

lemma demo_net_ok: "net_ok {7} (net (demo_sched obj))"
proof -
  have "focus (chan demo_world) demo_net = demo_world" by (simp add: focus_def demo_net_def)
  moreover have "ch_of demo_world = 7" "chan_live (chan demo_world)" by (simp_all add: demo_world_def chan_live_def)
  ultimately show ?thesis using demo_world_ok by (auto simp: net_ok_def demo_sched_def demo_net_def)
qed

section \<open>The calls\<close>

text \<open>C9: The channel scheduler implements two flags for every channel, whether it has cells and whether it can be
  written to.  In whatever order \<^verbatim>\<open>scheduler_channel_has_waiting_cells\<close>, \<^verbatim>\<open>scheduler_channel_wants_writes\<close>,
  \<^verbatim>\<open>scheduler_channel_doesnt_want_writes\<close> and \<^verbatim>\<open>scheduler_release_channel\<close> are called, no assertion fails, the list of
  pending channels with the indices stored in the channels stays consistent and holds exactly the channels with
  both flags, and the event of the scheduler is armed as long as the list is not empty.\<close>

theorem scheduler_calls_refine:
  assumes "sched_ok s" and "armed s"
  shows "\<exists>s'. sched_run_calls ops xs s = Some s' \<and> sched_ok s' \<and> armed s' \<and> net s' = net s \<and>
    sched_abs s' = fold spec_call xs (sched_abs s) \<and>
    set (channels_pending s') = {c. fst (fold spec_call xs (sched_abs s)) c \<and> snd (fold spec_call xs (sched_abs s)) c}"
proof -
  have "\<exists>s'. sched_run_calls ops xs s = Some s' \<and> sched_ok s' \<and> armed s' \<and> net s' = net s \<and> sched_abs s' = fold spec_call xs (sched_abs s)"
    using assms
  proof (induction xs arbitrary: s)
    case (Cons x xs)
    obtain s1 where s1: "sched_exec ops x s = Some s1" "call_result (call_chan x) (call_next x (scheduler_state s (call_chan x))) s s1"
      using sched_exec_ok [OF Cons.prems, of ops x] by blast
    then have "sched_ok s1" "armed s1" "net s1 = net s" "sched_abs s1 = spec_call x (sched_abs s)"
      using call_abs [of s1 s x] by (simp_all add: call_result_def)
    then show ?case using Cons.IH [of s1] s1(1) by auto
  qed simp
  then obtain s' where s': "sched_run_calls ops xs s = Some s'" "sched_ok s'" "armed s'" "net s' = net s" "sched_abs s' = fold spec_call xs (sched_abs s)"
    by blast
  have "set (channels_pending s') = {c. scheduler_state s' c = SCHED_CHAN_PENDING}" using s'(2) by (auto simp: sched_core_def)
  also have "\<dots> = {c. fst (sched_abs s') c \<and> snd (sched_abs s') c}" by (auto simp: sched_abs_def state_cells_def state_writes_def)
  finally show ?thesis using s' by metis
qed

theorem scheduler_calls_refine_witness:
  "\<exists>s'. sched_run_calls (net_ops demo_net_env) [Doesnt_want_writes 7, Has_waiting_cells 9, Wants_writes 9] (demo_sched Kist_scheduler) = Some s' \<and>
    sched_ok s' \<and> set (channels_pending s') = {9}"
proof -
  let ?xs = "[Doesnt_want_writes 7, Has_waiting_cells 9, Wants_writes 9]"
  have "{c. fst (fold spec_call ?xs (sched_abs (demo_sched Kist_scheduler))) c \<and> snd (fold spec_call ?xs (sched_abs (demo_sched Kist_scheduler))) c} = {9}"
    by (auto simp: spec_call_def sched_abs_def demo_sched_def state_cells_def state_writes_def)
  then show ?thesis
    using scheduler_calls_refine [OF demo_sched_ok(1,2) [of Kist_scheduler], of "net_ops demo_net_env" ?xs] by metis
qed

section \<open>Running\<close>

lemma reschedule:
  assumes "sched_ok s"
  shows "\<exists>a t. sched_schedule s = Some (s\<lparr>ev_armed := a, next_run := t\<rparr>) \<and> armed (s\<lparr>ev_armed := a, next_run := t\<rparr>)"
  using sched_schedule_ok [OF assms] by (auto simp: armed_def)

text \<open>C11: The event of the scheduler with the vanilla implementation: the run ends, whatever the lower layer does, keeps the
  list of pending channels consistent, arms the event again when a channel is left, and forgets no channel: one that
  was pending and is still open with cells is pending again, or waits until it can be written to.  Channels that
  were not pending are left alone.\<close>

theorem vanilla_serves_channels:
  assumes "sched_ok s" and "the_scheduler s = Some Vanilla_scheduler" and "net_ok chans (net s)" and "set (channels_pending s) \<subseteq> chans"
  shows "\<exists>s'. scheduler_evt_callback (net_ops env) s = Some s' \<and> sched_ok s' \<and> armed s' \<and> net_ok chans (net s') \<and>
    (\<forall>c. c \<notin> set (channels_pending s) \<longrightarrow> scheduler_state s' c = scheduler_state s c) \<and>
    (\<forall>c \<in> set (channels_pending s). net_more c (net s') \<and> net_open c (net s') \<longrightarrow>
       scheduler_state s' c = SCHED_CHAN_PENDING \<or> scheduler_state s' c = SCHED_CHAN_WAITING_TO_WRITE)"
proof -
  let ?s = "s\<lparr>ev_armed := False\<rparr>"
  have "sched_ok ?s" "net_ok chans (net ?s)" "set (channels_pending ?s) \<subseteq> chans" using assms by (simp_all add: sched_core_def)
  from nets.vanilla_run_ok [OF this, of env] obtain s1 where s1: "vanilla_scheduler_run (net_ops env) ?s = Some s1" "sched_ok s1" "net_ok chans (net s1)"
    "\<forall>c. c \<notin> set (channels_pending s) \<longrightarrow> scheduler_state s1 c = scheduler_state s c"
    "\<forall>c \<in> set (channels_pending s). net_more c (net s1) \<and> net_open c (net s1) \<longrightarrow>
       scheduler_state s1 c = SCHED_CHAN_PENDING \<or> scheduler_state s1 c = SCHED_CHAN_WAITING_TO_WRITE"
    by (auto simp: net_ops_def)
  obtain a t where a: "sched_schedule s1 = Some (s1\<lparr>ev_armed := a, next_run := t\<rparr>)" "armed (s1\<lparr>ev_armed := a, next_run := t\<rparr>)"
    using reschedule [OF s1(2)] by blast
  have "scheduler_evt_callback (net_ops env) s = Some (s1\<lparr>ev_armed := a, next_run := t\<rparr>)"
    using assms(2) s1(1) a(1) by (simp add: scheduler_evt_callback_def)
  then show ?thesis using s1(2-5) a(2) by simp
qed

theorem vanilla_serves_channels_witness:
  "\<exists>s'. scheduler_evt_callback (net_ops demo_net_env) (demo_sched Vanilla_scheduler) = Some s' \<and> sched_ok s' \<and> armed s' \<and> net_ok {7} (net s')"
  using vanilla_serves_channels [OF demo_sched_ok(1,4) demo_net_ok demo_sched_ok(5), of demo_net_env] by blast

text \<open>C10: The event of the scheduler with KIST, with or without support by the kernel: although channels go back into the
  list while it runs, the run ends; it keeps the list of pending channels consistent and arms the event again when a
  channel is left, and every channel that was pending and is still open with cells is pending afterwards.\<close>

theorem kist_serves_channels:
  assumes "sched_ok s" and "the_scheduler s = Some Kist_scheduler" and "net_ok chans (net s)" and "set (channels_pending s) \<subseteq> chans"
    and "budget_ok (socket_table s)"
  shows "\<exists>s'. scheduler_evt_callback (net_ops env) s = Some s' \<and> sched_ok s' \<and> armed s' \<and> net_ok chans (net s') \<and>
    budget_ok (socket_table s') \<and>
    (\<forall>c. c \<notin> set (channels_pending s) \<longrightarrow> scheduler_state s' c = scheduler_state s c) \<and>
    (\<forall>c \<in> set (channels_pending s). net_more c (net s') \<and> net_open c (net s') \<longrightarrow> c \<in> set (channels_pending s'))"
proof -
  let ?s = "s\<lparr>ev_armed := False\<rparr>"
  have "sched_ok ?s" "net_ok chans (net ?s)" "set (channels_pending ?s) \<subseteq> chans" "budget_ok (socket_table ?s)"
    using assms by (simp_all add: sched_core_def)
  from nets.kist_run_ok [OF this, of env] obtain s1 where s1: "kist_scheduler_run (net_ops env) ?s = Some s1" "sched_ok s1" "net_ok chans (net s1)"
    "budget_ok (socket_table s1)" "\<forall>c. c \<notin> set (channels_pending s) \<longrightarrow> scheduler_state s1 c = scheduler_state s c"
    "\<forall>c \<in> set (channels_pending s). net_more c (net s1) \<and> net_open c (net s1) \<longrightarrow> c \<in> set (channels_pending s1)"
    by (auto simp: net_ops_def)
  obtain a t where a: "sched_schedule s1 = Some (s1\<lparr>ev_armed := a, next_run := t\<rparr>)" "armed (s1\<lparr>ev_armed := a, next_run := t\<rparr>)"
    using reschedule [OF s1(2)] by blast
  have "scheduler_evt_callback (net_ops env) s = Some (s1\<lparr>ev_armed := a, next_run := t\<rparr>)"
    using assms(2) s1(1) a(1) by (simp add: scheduler_evt_callback_def)
  then show ?thesis using s1(2-6) a(2) by simp
qed

theorem kist_serves_channels_witness:
  "\<exists>s'. scheduler_evt_callback (net_ops demo_net_env) (demo_sched Kist_scheduler) = Some s' \<and> sched_ok s' \<and> armed s' \<and> net_ok {7} (net s') \<and>
    budget_ok (socket_table s')"
  using kist_serves_channels [OF demo_sched_ok(1,4) demo_net_ok demo_sched_ok(5,3), of demo_net_env] by blast

section \<open>Configuration\<close>

lemma interval_ok:
  "\<exists>i. kist_scheduler_run_interval opt = Some i \<and>
     (if KISTSchedRunInterval opt \<noteq> 0 then i = KISTSchedRunInterval opt
      else KIST_SCHED_RUN_INTERVAL_MIN \<le> i \<and> i \<le> KIST_SCHED_RUN_INTERVAL_MAX)"
  using np.get_in_range [of KIST_SCHED_RUN_INTERVAL_MIN KIST_SCHED_RUN_INTERVAL_MAX KIST_SCHED_RUN_INTERVAL_DEFAULT "sched_consensus opt" None
      "if server_mode opt then ''KISTSchedRunInterval'' else ''KISTSchedRunIntervalClient''"]
  by (auto simp: kist_scheduler_run_interval_def)

text \<open>What a change of the scheduler leaves alone.\<close>

definition same_channels :: "'w sched_t \<Rightarrow> 'w sched_t \<Rightarrow> bool" where
  "same_channels s s' =
     (the_scheduler s' \<noteq> None \<and> channels_pending s' = channels_pending s \<and> pending_exists s' = pending_exists s \<and>
      scheduler_state s' = scheduler_state s \<and> sched_heap_idx s' = sched_heap_idx s \<and> run_sched_ev s' = run_sched_ev s \<and>
      ev_armed s' = ev_armed s \<and> net s' = net s \<and> (\<forall>c. socket_table s' c = socket_table s c \<or> socket_table s' c = None))"

lemma select_scheduler_ok:
  assumes "SCHEDULER_NONE \<notin> set ts" and "SCHEDULER_VANILLA \<in> set ts \<or> SCHEDULER_KIST_LITE \<in> set ts"
  shows "\<exists>obj lite ty. select_scheduler ops opt ts s = Some (s\<lparr>the_scheduler := Some obj, kist_lite_mode := lite, kist_type := ty\<rparr>)"
  using assms
proof (induction ts)
  case (Cons t ts)
  obtain i where i: "kist_scheduler_run_interval opt = Some i" using interval_ok by blast
  have u: "s\<lparr>the_scheduler := Some obj\<rparr> = s\<lparr>the_scheduler := Some obj, kist_lite_mode := kist_lite_mode s, kist_type := kist_type s\<rparr>" for obj
    by simp
  show ?case
  proof (cases t)
    case SCHEDULER_VANILLA
    then show ?thesis using u by (metis select_scheduler.simps(2))
  next
    case SCHEDULER_KIST
    then show ?thesis using Cons i by (auto simp: scheduler_can_use_kist_def)
  qed (use Cons in auto)
qed simp

lemma set_scheduler_ok:
  assumes "SCHEDULER_NONE \<notin> set (SchedulerTypes opt)"
    and "SCHEDULER_VANILLA \<in> set (SchedulerTypes opt) \<or> SCHEDULER_KIST_LITE \<in> set (SchedulerTypes opt)"
  shows "\<exists>s'. set_scheduler ops opt s = Some s' \<and> same_channels s s'"
proof -
  obtain obj lite ty where sel: "select_scheduler ops opt (SchedulerTypes opt) s = Some (s\<lparr>the_scheduler := Some obj, kist_lite_mode := lite, kist_type := ty\<rparr>)"
    using select_scheduler_ok [OF assms] by blast
  obtain i where i: "kist_scheduler_run_interval opt = Some i" using interval_ok by blast
  show ?thesis
    using sel i by (cases obj) (auto simp: set_scheduler_def same_channels_def Let_def kist_free_all_def kist_scheduler_init_def set_scheduler_run_interval_def)
qed

text \<open>The start of the program: no channel is pending, and the invariant holds.\<close>

lemma scheduler_init_ok:
  assumes "SCHEDULER_NONE \<notin> set (SchedulerTypes opt)"
    and "SCHEDULER_VANILLA \<in> set (SchedulerTypes opt) \<or> SCHEDULER_KIST_LITE \<in> set (SchedulerTypes opt)"
    and "\<forall>c. scheduler_state s c = SCHED_CHAN_IDLE \<and> sched_heap_idx s c = - 1"
  shows "\<exists>s'. scheduler_init ops opt s = Some s' \<and> sched_ok s' \<and> armed s'"
  using set_scheduler_ok [OF assms(1,2), of ops "s\<lparr>run_sched_ev := True, ev_armed := False, channels_pending := [], pending_exists := True\<rparr>"] assms(3)
  by (auto simp: scheduler_init_def same_channels_def sched_core_def pend_ok_def armed_def)




text \<open>The consensus cannot turn KIST off: with no interval in the configuration the value of the consensus is
  raised to the minimum.\<close>

theorem kist_never_disabled_by_consensus:
  assumes "KISTSchedRunInterval opt = 0" and "op_kist_support ops" and "\<not> kist_no_kernel_support s"
  shows "scheduler_can_use_kist ops opt s = Some True"
    and "sched_consensus opt = None \<Longrightarrow> kist_scheduler_run_interval opt = Some 2"
proof -
  obtain i where "kist_scheduler_run_interval opt = Some i" "2 \<le> i" using interval_ok [of opt] assms(1) by auto
  then show "scheduler_can_use_kist ops opt s = Some True" using assms by (simp add: scheduler_can_use_kist_def)
  show "sched_consensus opt = None \<Longrightarrow> kist_scheduler_run_interval opt = Some 2"
    using assms(1) by (simp add: kist_scheduler_run_interval_def networkstatus_get_param_def)
qed

section \<open>Room in the lower layer\<close>

abbreviation cell_size :: "bool \<Rightarrow> int" where
  "cell_size wide \<equiv> (if wide then 514 else 512)"

lemma sint_small: "uint (x :: u64) < 2 ^ 63 \<Longrightarrow> sint x = uint x"
  by (simp add: sint_uint signed_take_bit_int_eq_self_iff order_trans [OF _ uint_ge_0])

lemma uint_highwater: "uint (ucast (h :: u32) :: u64) = uint h"
  by (simp add: unsigned_ucast_eq take_bit_int_eq_self less_trans [OF uint_lt2p])

lemma ceil_div_cells:
  "uint (CEIL_DIV (ucast highwater - datalen) (get_cell_network_size wide)) =
     (uint (highwater :: u32) - uint datalen + cell_size wide - 1) mod 2 ^ 64 div cell_size wide"
proof -
  have s: "uint (get_cell_network_size wide) = cell_size wide" by (simp add: get_cell_network_size_def)
  have "uint (x - y + k) = (uint x - uint y + uint k) mod 2 ^ 64" for x y k :: u64
    by (simp add: uint_word_ariths mod_simps)
  moreover have k: "uint (get_cell_network_size wide - 1) = cell_size wide - 1" by (simp add: get_cell_network_size_def)
  note calculation [of "ucast highwater" datalen "get_cell_network_size wide - 1"]
  then have "uint (ucast highwater - datalen + (get_cell_network_size wide - 1)) = (uint highwater - uint datalen + cell_size wide - 1) mod 2 ^ 64"
    unfolding uint_highwater k by (simp only: add_diff_eq)
  then show ?thesis unfolding CEIL_DIV_def uint_div s by simp
qed

lemma ceil_div_room:
  assumes "uint datalen < uint (highwater :: u32) + cell_size wide"
  shows "sint (CEIL_DIV (ucast highwater - datalen) (get_cell_network_size wide)) = (uint highwater - uint datalen + cell_size wide - 1) div cell_size wide"
proof -
  let ?x = "uint highwater - uint datalen + cell_size wide - 1"
  have d: "0 \<le> uint datalen" "uint highwater < 2 ^ 32" using uint_lt2p [of highwater] by simp_all
  have s: "cell_size wide \<le> 514" by simp
  have x: "0 \<le> ?x" "?x < 2 ^ 32 + 514" using assms d s by linarith+
  have b: "?x < 2 ^ 63" "?x < 2 ^ 64" by (rule less_trans [OF x(2)], simp)+
  have m: "?x mod 2 ^ 64 = ?x" by (rule mod_pos_pos_trivial [OF x(1) b(2)])
  have "?x div cell_size wide \<le> ?x" using zdiv_mono2 [OF x(1), of 1 "cell_size wide"] by (simp only: div_by_1) simp
  then have "?x div cell_size wide < 2 ^ 63" using b(1) by (rule le_less_trans)
  then show ?thesis using sint_small ceil_div_cells [of highwater datalen wide] unfolding m by metis
qed

text \<open>C18: As long as the output buffer of a channel exceeds its high watermark by less than one cell, the number of cells that
  the TLS channel reports as writeable is the exact number of cells up to the watermark, rounded up, and none when
  the watermark is reached; it agrees with what the connection reports when it opens.\<close>

theorem writeable_cells_exact:
  assumes "uint datalen < uint highwater + cell_size wide"
  shows "channel_tls_num_cells_writeable_method highwater wide datalen = connection_or_num_cells_writeable highwater wide datalen \<and>
    channel_tls_num_cells_writeable_method highwater wide datalen =
      (if uint datalen < uint highwater then (uint highwater - uint datalen + cell_size wide - 1) div cell_size wide else 0)"
proof -
  let ?x = "uint highwater - uint datalen + cell_size wide - 1"
  have q: "sint (CEIL_DIV (ucast highwater - datalen) (get_cell_network_size wide)) = ?x div cell_size wide" by (rule ceil_div_room [OF assms])
  have s: "cell_size wide \<le> 514" "512 \<le> cell_size wide" by simp_all
  have d: "0 \<le> uint datalen" "uint highwater < 2 ^ 32" using uint_lt2p [of highwater] by simp_all
  have x: "0 \<le> ?x" "?x < 2 ^ 32 + 514" using assms d s by linarith+
  have lo: "0 \<le> ?x div cell_size wide" using x(1) s by (intro pos_imp_zdiv_nonneg_iff [THEN iffD2]) linarith+
  have "?x div cell_size wide \<le> ?x div 512" using x(1) s by (intro zdiv_mono2) linarith+
  also have "\<dots> \<le> (2 ^ 32 + 514) div 512" using x(2) by (intro zdiv_mono1) linarith+
  finally have hi: "?x div cell_size wide \<le> INT32_MAX" by (simp add: INT32_MAX_def)
  have z: "?x div cell_size wide = 0" if "\<not> uint datalen < uint highwater"
    using that x(1) by (intro div_pos_pos_trivial) linarith+
  have lt: "(datalen < ucast highwater) = (uint datalen < uint highwater)" by (simp add: word_less_def uint_highwater)
  show ?thesis
    unfolding channel_tls_num_cells_writeable_method_def connection_or_num_cells_writeable_def q lt Let_def using lo hi z by auto
qed

theorem writeable_cells_exact_witness:
  "channel_tls_num_cells_writeable_method 32768 True 32000 = 2 \<and> channel_tls_num_cells_writeable_method 32768 True 33000 = 0"
  using writeable_cells_exact [of 32000 32768 True] writeable_cells_exact [of 33000 32768 True] by simp

text \<open>
  Beyond that the subtraction wraps around: the check for a negative number never applies, and a channel whose output
  buffer exceeds the watermark by a cell or more is reported to have room for as many cells as an \<^verbatim>\<open>int\<close> can count.
\<close>

theorem writeable_cells_overfull:
  assumes "uint highwater + cell_size wide \<le> uint datalen" and "uint datalen < 2 ^ 63"
  shows "channel_tls_num_cells_writeable_method highwater wide datalen = INT32_MAX"
    and "connection_or_num_cells_writeable highwater wide datalen = 0"
proof -
  let ?x = "uint highwater - uint datalen + cell_size wide - 1" and ?q = "CEIL_DIV (ucast highwater - datalen) (get_cell_network_size wide)"
  have s: "cell_size wide \<le> 514" "512 \<le> cell_size wide" and h: "0 \<le> uint highwater" by simp_all
  have p: "(2 :: int) ^ 64 = 2 * 2 ^ 63" "0 < (2 :: int) ^ 63" by simp_all
  have x: "2 ^ 63 \<le> ?x + 2 ^ 64" "?x + 2 ^ 64 < 2 ^ 64" using assms s h p by linarith+
  have "?x mod 2 ^ 64 = (?x + 2 ^ 64) mod 2 ^ 64" by (rule mod_add_self2 [symmetric])
  also have "\<dots> = ?x + 2 ^ 64" using x p(2) by (intro mod_pos_pos_trivial) linarith+
  finally have q: "uint ?q = (?x + 2 ^ 64) div cell_size wide" using ceil_div_cells [of highwater datalen wide] by metis
  have "(?x + 2 ^ 64) div cell_size wide \<le> (?x + 2 ^ 64) div 512" using x(1) s p by (intro zdiv_mono2) linarith+
  also have "\<dots> \<le> 2 ^ 64 div 512" using x(2) by (intro zdiv_mono1) linarith+
  finally have "uint ?q < 2 ^ 63" unfolding q by simp
  then have sq: "sint ?q = (?x + 2 ^ 64) div cell_size wide" using sint_small q by metis
  have "2 ^ 63 div 514 \<le> (?x + 2 ^ 64) div 514" using x(1) by (intro zdiv_mono1) linarith+
  also have "\<dots> \<le> (?x + 2 ^ 64) div cell_size wide" using x(1) s p by (intro zdiv_mono2) linarith+
  finally have "INT32_MAX < sint ?q" unfolding sq by (simp add: INT32_MAX_def)
  then show "channel_tls_num_cells_writeable_method highwater wide datalen = INT32_MAX"
    by (simp add: channel_tls_num_cells_writeable_method_def Let_def INT32_MAX_def)
  have "\<not> uint datalen < uint highwater" using assms(1) s(2) by linarith
  then show "connection_or_num_cells_writeable highwater wide datalen = 0"
    by (simp add: connection_or_num_cells_writeable_def word_less_def uint_highwater)
qed

end
