(* ===== verification/Spec2Isabelle.thy ===== *)
theory Spec2Isabelle
  imports ConfluxE2E ConfluxSched ConfluxSelect ConfluxSystem CcDispatch FlowInv SendmeE2E RelayPackage CircuitMuxFair CircuitMuxSpec SchedulerSpec
begin

text \<open>
  Verification of the data plane of TorJet, a Tor whose client side keeps many multi-path circuits
  (conflux sets) ready and spreads streams over them.  Sources are under
  \<^verbatim>\<open>src/tor-src/src\<close>; file names below are relative to it.

  \<^bold>\<open>The program and its parts.\<close>
  A stream is packaged into relay messages, each of which travels in a cell over a circuit.  Three
  mechanisms decide when and where a cell may be sent:
  \<^item> congestion control (\<^verbatim>\<open>core/or/congestion_control_common.c\<close>, \<^verbatim>\<open>congestion_control_vegas.c\<close>) keeps a
    window of cells per circuit from the SENDME acknowledgements (\<^verbatim>\<open>core/or/sendme.c\<close>), whose round
    trip times it measures;
  \<^item> flow control (\<^verbatim>\<open>core/or/congestion_control_flow.c\<close>) stops and restarts one stream with XOFF and
    XON messages, the rate of which drives a token bucket (\<^verbatim>\<open>lib/evloop/token_bucket.c\<close>);
  \<^item> conflux (\<^verbatim>\<open>core/or/conflux*.c\<close>) joins circuits to the same exit into a set: the sender picks a
    leg for each message by its round trip time, announces a change of leg with a SWITCH message,
    and the receiver puts the messages of all legs in order again.
  The conflux pool (\<^verbatim>\<open>core/or/conflux_pool.c\<close>) creates sets, links legs with the LINK, LINKED and
  LINKED_ACK messages, replaces legs that close, tears sets down, and chooses the set for a new
  stream.  Parameters come from the consensus (\<^verbatim>\<open>feature/nodelist/networkstatus.c\<close>) and the
  configuration.
  A cell that may be sent is packed into the queue of its circuit (\<^verbatim>\<open>core/or/relay.c\<close>).  Each channel has
  a circuit multiplexer (\<^verbatim>\<open>core/or/circuitmux.c\<close>) that counts the cells of the circuits attached to it and
  asks its policy (\<^verbatim>\<open>core/or/circuitmux_ewma.c\<close>) for the circuit to serve next; flushing a channel
  (\<^verbatim>\<open>channel_flush_from_first_active_circuit\<close>) writes the first cells of the circuits it is given, and
  DESTROY cells, to the lower layer.  Which channel is flushed is up to the scheduler
  (\<^verbatim>\<open>core/or/scheduler.c\<close>): it knows for every channel whether it has cells and whether it can be written
  to, and runs one of two implementations, vanilla or KIST (\<^verbatim>\<open>scheduler_vanilla.c\<close>,
  \<^verbatim>\<open>scheduler_kist.c\<close>), on the channels for which both hold.

  \<^bold>\<open>Theories.\<close>
  \<^item> \<open>Prelude\<close>: names of the C integer types, \<^verbatim>\<open>tor_assert\<close>, lemmas on words, options and lists.
  \<^item> \<open>Smartlist\<close>: \<^verbatim>\<open>lib/smartlist_core\<close>, \<^verbatim>\<open>lib/container/smartlist.c\<close>: lists and heaps with index
    fields.  The locale \<open>pqueue\<close> is the contract of a priority queue, \<open>heap_elem\<close> what elements must
    provide; the sublocale proves the contract for the heap code, and it is interpreted on the
    out-of-order queue (\<open>Conflux\<close>) and on the active circuits (\<open>CircuitMuxFair\<close>).  The weaker \<open>idx_elem\<close>
    says nothing about the order and is what the EWMA policy relies on for its safety.
  \<^item> \<open>NetParams\<close>: consensus parameters; the locale \<open>param_source\<close> is what a reader of parameters
    relies on, interpreted on both lookup functions.
  \<^item> \<open>CcState\<close>, \<open>CongestionControl\<close>, \<open>Vegas\<close>, \<open>CcDispatch\<close>: the state of circuits, hops and
    congestion control, the estimators, the TOR_VEGAS window, negotiation and the entry point.
  \<^item> \<open>Wire\<close>: byte order and the contract of a generated codec (locale \<open>codec\<close>), interpreted on every
    codec of \<open>ConfluxCell\<close> and \<open>FlowControl\<close>.
  \<^item> \<open>RelayMsg\<close>, \<open>RelayPackage\<close>: relay messages in both cell formats (\<^verbatim>\<open>core/or/relay_msg.c\<close>), packed
    cells, the parsers of answers, and how stream data is cut into cells (\<^verbatim>\<open>core/or/relay.c\<close>).
  \<^item> \<open>TokenBucket\<close>, \<open>FlowControl\<close>, \<open>FlowInv\<close>: token buckets, XON/XOFF and their properties.
  \<^item> \<open>Sendme\<close>, \<open>SendmeE2E\<close>: SENDMEs and the window protocol between two ends.
  \<^item> \<open>ConfluxCell\<close>, \<open>ConfluxParams\<close>, \<open>Conflux\<close>, \<open>ConfluxUtil\<close>: \<^verbatim>\<open>conflux_cell.c\<close>, \<^verbatim>\<open>conflux_params.c\<close>,
    \<^verbatim>\<open>conflux.c\<close> (with the delivery loop of \<^verbatim>\<open>relay.c\<close>) and \<^verbatim>\<open>conflux_util.c\<close>.
  \<^item> \<open>ConfluxSend\<close>, \<open>ConfluxReceive\<close>, \<open>ConfluxSched\<close>, \<open>ConfluxE2E\<close>: the invariants of a sender and
    of a receiver, the schedulers, and both ends with the channels between them as a step relation.
  \<^item> \<open>ConfluxSelect\<close>: the choice of a set for a stream, with its filters and policies.
  \<^item> \<open>CellQueue\<close>: the queues of cells and of DESTROY cells, both instances of the locale \<open>counted_queue\<close>.
  \<^item> \<open>CircuitMux\<close>, \<open>CircuitMuxInv\<close>: the whole of \<^verbatim>\<open>circuitmux.c\<close>, and the locale \<open>cmux_policy\<close>, the contract
    between a multiplexer and its policy, under which every operation of the multiplexer keeps its
    invariant (\<open>mux_ok\<close>) and is total.
  \<^item> \<open>CircuitMuxEwma\<close>, \<open>CircuitMuxFair\<close>, \<open>CircuitMuxSpec\<close>: the whole of \<^verbatim>\<open>circuitmux_ewma.c\<close> and that it meets
    the contract; that it serves the circuit with the least traffic; the multiplexer as an
    implementation of a map from circuits to counts, and its end.
  \<^item> \<open>ChannelFlush\<close>, \<open>ChannelFlushInv\<close>, \<open>ChannelQueue\<close>: queueing, flushing and DESTROY cells on a channel, the
    invariant that ties queues, counts and the table of circuits together (\<open>world_ok\<close>), and the
    abstract scheduler (\<open>send_one\<close>) that flushing implements.
  \<^item> \<open>Scheduler\<close>: the scheduler with both implementations; it reaches the channels through the record
    \<open>chan_ops\<close>.  \<open>SchedulerInv\<close>, \<open>SchedulerKist\<close>: its invariant (\<open>sched_core\<close>, on the heap by \<open>idx_elem\<close>), the
    abstract flags (\<open>spec_call\<close>), and both runs under the locale \<open>sched_channels\<close>, the contract of the
    channels.  \<open>SchedulerNet\<close>: several channels that share circuits, with the lower layer of
    \<^verbatim>\<open>channeltls.c\<close> and \<^verbatim>\<open>connection_or.c\<close>, and the interpretation of the contract on them.
    \<open>SchedulerSpec\<close>: the theorems.
  \<^item> \<open>ConfluxPool\<close>, \<open>ConfluxClose\<close>, \<open>ConfluxLink\<close>: the pools as state (\<open>pool_t\<close>), closing and launching
    legs, the handshake, launching sets and freeing circuits.  \<open>ConfluxClose\<close> also has
    \<^verbatim>\<open>circuit_mark_for_close\<close> (\<^verbatim>\<open>circuitlist.c\<close>), \<^verbatim>\<open>circuit_establish_circuit_conflux\<close>
    (\<^verbatim>\<open>circuitbuild.c\<close>), \<^verbatim>\<open>circuit_change_purpose\<close> (\<^verbatim>\<open>circuituse.c\<close>) and \<^verbatim>\<open>cell_queues_check_size\<close>
    (\<^verbatim>\<open>relay.c\<close>), because all of these functions call each other.
  \<^item> \<open>ConfluxPoolInv\<close>, \<open>ConfluxTeardown\<close>, \<open>ConfluxLinkInv\<close>, \<open>ConfluxHandshake\<close>, \<open>ConfluxSystem\<close>: the
    consistency of the pools (\<open>pool_inv\<close>), that every call keeps it and returns, and the system
    of all calls in any order.
  This theory adds what spans congestion control and the scheduler.

  \<^bold>\<open>Conventions.\<close>
  Functions keep their names in the code.  Unsigned integers are words of their width and wrap as in
  C; \<^verbatim>\<open>int\<close> values that stay in range are integers.  \<^term>\<open>None\<close> is a failing \<^verbatim>\<open>tor_assert\<close>, a division
  by zero, an access to freed memory or outside a buffer, or a computation that does not return,
  and where a function tests a pointer, NULL.  A pointer to an object is its number in a store,
  so aliasing is explicit where it matters (conflux objects shared by a linked and an unlinked
  set, stream lists shared by legs, the address of a hop).  Calls to the rest of the program are
  lists of actions in the order in which they happen, or, in the pool, executed and logged.
  The clock, random values, outcomes of sending, path selection and the answers of other modules
  are arguments.

  \<^bold>\<open>What is shown.\<close>
  \<^item> Conflux delivers in order and completely, can always make progress while the queue limit is not
    reached, never closes a circuit over sequence numbers between honest ends, sends data only on
    a leg with room, and its choice of a leg never aborts.
  \<^item> The pool: in every state that the admitted calls (\<open>call_ok\<close>, \<open>env_ok\<close>) reach in any order, each of
    them returns, no assertion fails, no object is used after it was freed or freed twice, and no
    closed circuit stays a leg; closing ends although it may launch and close further legs and the
    out-of-memory handler may run in the middle of a launch; a teardown reaches every leg; a set
    is linked as a whole and never with a gap in its data; streams go to the set that the policy
    asks for, and find one unless every set is too slow.
  \<^item> Congestion control keeps its invariant from creation on and does not abort while round trip times are
    below 18 minutes and known when a channel is blocked; slow start stays within its bounds.
  \<^item> SENDMEs: the window protocol does not close an honest circuit with windows of 1000 cells or increments
    from 2 on, an accepted SENDME carries the tag of the acknowledged cell (except on circuits of
    the legacy handshake), the emitting loop ends, and cells stay unpredictable to a cheater.
  \<^item> Flow control: both ends agree on whether a stream is paused, and a pause can always be lifted; token
    buckets implement their mathematical specification and bound the rate.
  \<^item> Messages: round trips of relay messages, cells, conflux cells and negotiation, and parsers that stay
    within the bytes they are given.
  \<^item> Channels: the multiplexer implements its abstract counts with any outcome of the arithmetic on doubles
    and can always be taken down; while its queue is in heap order the least busy circuit is served;
    queueing appends to one queue while memory is not short; flushing returns, sends cells of a circuit in order and
    none twice, and stops early only when nothing is left.
  \<^item> Scheduling: in whatever order it is called the scheduler keeps its list of pending channels and wakes up
    while there is one; a run ends and forgets no open channel with cells, whatever the kernel answers;
    KIST keeps to the limits of the sockets; changing the scheduler loses no channel.
  Theorems without a claim record where the code does not do what it says, among them
  \<open>sole_leg_rebuild_rejects_data\<close>, \<open>late_free_drops_newer_set\<close>, \<open>launch_denied_leaves_empty_set\<close>,
  \<open>oom_during_launch_uses_freed_set\<close>, \<open>oom_on_link_cell_uses_freed_leg\<close>, \<open>repurposed_sole_leg_aborts_free\<close>,
  \<open>set_selection_none_iff\<close>,
  \<open>pqueue_remove_breaks_heap\<close>, \<open>ewma_inactive_loses_order\<close>, \<open>detach_all_unknown_aborts\<close>, \<open>writeable_cells_overfull\<close>,
  \<open>kist_never_disabled_by_consensus\<close>, \<open>vegas_decrease_wraps\<close> and \<open>sendme_inc_one_closes_circuit\<close>.

  \<^bold>\<open>Bounds and termination.\<close>
  The loops are structural or have a measure.  The loop that flushes a channel is the only one with fuel,
  \<open>flush_fuel\<close>: twice the cells that the multiplexer counts, plus the DESTROY cells, plus one; every
  turn lowers the counts or takes a cell out of a queue (\<open>flush_measure\<close>), so it never runs out.  The loops of
  the schedulers are partial functions; they return because a turn sends a cell, which lowers the measure of
  all channels together, or takes a channel out of the list.  Walking a stream list and closing
  circuits may not return in general, so \<open>stream_list\<close>, \<open>count_streams\<close> and \<open>circuit_mark_for_close\<close>
  are partial functions into options, and that they return is proved: closing decreases
  \<open>close_measure\<close>, which weighs the circuits that are not closed, the legs of linked sets and the
  launches that each set has left (the number of legs of a set plus the retries the consensus allows).
  Sequence numbers of 64 bits are followed up to \<open>2 ^ 64 - 2\<close> messages, round trip times up to
  \<open>2 ^ 30\<close> microseconds, the window protocol as long as its counters of 64 bits do not wrap; these
  bounds are hypotheses of the theorems that need them.  \<open>call_ok\<close> says which calls into the pool are
  admitted, and \<open>env_ok\<close> what is asked of path building, delayed closes and the out-of-memory handler.
  They leave out four things that the program does not prevent, each with a theorem that shows
  what goes wrong: a LINK that reuses the nonce of a set whose last circuit waits to be freed
  (\<open>late_free_drops_newer_set\<close>), an out-of-memory handler that closes the set but not the circuit of
  a leg being launched (\<open>oom_during_launch_uses_freed_set\<close>) or the circuit whose LINK cell is being queued
  (\<open>oom_on_link_cell_uses_freed_leg\<close>), and a sole leg that gets another purpose
  (\<open>repurposed_sole_leg_aborts_free\<close>).

  \<^bold>\<open>Not modelled.\<close>
  Ciphers, TLS and path selection (their outcomes are arguments); which circuits the
  out-of-memory handler closes while a cell is queued (\<open>pe_memory\<close> in the pool, an argument of
  \<open>append_cell_to_circuit_queue\<close>), and the caches and buffers it frees besides; freeing circuits at
  exit that were not closed before; statistics of cells and directory
  requests, and the time stamps of transmissions; padding machines and path bias (only that they may
  keep a circuit open under another purpose, not the time stamp they set); running
  averages for statistics (they are doubles nothing depends on; the samples are recorded); the
  arithmetic of the doubles of the EWMA policy (an argument, \<open>double_ops\<close>); opening, registering and
  freeing channels, the TLS connection below a channel (it takes a cell or fails; what the kernel takes of
  its output buffer and says about the socket are arguments); attaching streams to circuits,
  SOCKS, buffers and sockets; directories, onion services, the control port (but \<^verbatim>\<open>CONFLUX ADD\<close>) and
  configuration parsing; and the launcher, which is not C.
\<close>

section \<open>From congestion control to the scheduler\<close>

lemma update_rtt_leg:
  "conflux_get_leg (conflux_update_rtt cfx c rtt) k =
     (if k = c then map_option (\<lambda>l. l\<lparr>circ_rtts_usec := rtt\<rparr>) (conflux_get_leg cfx c) else conflux_get_leg cfx k)"
  by (cases "conflux_get_leg cfx c") (auto simp: conflux_update_rtt_def)

lemma update_rtt_frame:
  "leg_ids (conflux_update_rtt cfx c rtt) = leg_ids cfx" "curr_leg (conflux_update_rtt cfx c rtt) = curr_leg cfx"
  by (simp_all add: conflux_update_rtt_def split: option.splits)

lemma update_rtt_sender_inv:
  assumes "sender_inv n cfx"
  shows "sender_inv n (conflux_update_rtt cfx c rtt)"
proof (cases "curr_leg cfx")
  case None
  then show ?thesis using assms
    by (auto simp: sender_inv_def update_rtt_frame update_rtt_leg split: if_splits)
next
  case (Some d)
  then show ?thesis using assms
    by (auto simp: sender_inv_def update_rtt_frame update_rtt_leg split: if_splits)
qed

text \<open>
  A SENDME feeds the scheduler: after congestion control has processed a SENDME on a leg, the
  RTT the scheduler uses for this leg is the new average, every other leg is unchanged, and the
  sequence-number invariant of the sending side still holds.
\<close>

theorem sendme_updates_leg_rtt:
  assumes "congestion_control_dispatch_cc_alg now g cc c circ (Some cfx) = Some (g', cc', cfx')"
    and "sender_inv n cfx" and "conflux_get_leg cfx c = Some l" and "ewma_rtt_usec cc' \<noteq> 0"
  shows "\<exists>x. cfx' = Some x \<and> sender_inv n x \<and> (\<forall>k. conflux_get_leg x k =
      (if k = c then Some (l\<lparr>circ_rtts_usec := ewma_rtt_usec cc'\<rparr>) else conflux_get_leg cfx k))"
proof -
  have "cfx' = Some (conflux_update_rtt cfx c (ewma_rtt_usec cc'))"
    using assms(1,4) by (auto simp: congestion_control_dispatch_cc_alg_def bind_eq_Some_iff Let_def split: if_splits)
  then show ?thesis using update_rtt_sender_inv [OF assms(2)] assms(3) by (simp add: update_rtt_leg)
qed

theorem sendme_updates_leg_rtt_witness:
  "\<exists>g' cc' x l. congestion_control_dispatch_cc_alg 101000 demo_globals sample_cc 1 (sample_circ False)
      (Some (sched_set CONFLUX_ALG_LOWRTT)) = Some (g', cc', Some x) \<and> conflux_get_leg x 1 = Some l \<and>
      circ_rtts_usec l = ewma_rtt_usec cc'"
proof -
  have nb: "ewma_rtt_usec sample_cc \<noteq> 0 \<or> \<not> circ_blocked (sample_circ False)" by (simp add: sample_cc_def)
  obtain g' cc' cfx' where d: "congestion_control_dispatch_cc_alg 101000 demo_globals sample_cc 1 (sample_circ False)
      (Some (sched_set CONFLUX_ALG_LOWRTT)) = Some (g', cc', cfx')" and e: "ewma_rtt_usec cc' \<noteq> 0"
    using dispatch_wf [OF sample_wf nb, of demo_globals 1 "Some (sched_set CONFLUX_ALG_LOWRTT)"]
    by (auto simp: sample_cc_def)
  have s: "sender_inv 0 (sched_set CONFLUX_ALG_LOWRTT)"
    by (auto simp: sender_inv_def sched_set_def sched_leg_def leg_ids_def conflux_get_leg_def split: if_splits)
  have l: "conflux_get_leg (sched_set CONFLUX_ALG_LOWRTT) 1 = Some (sched_leg 1 10)"
    by (simp add: sched_set_def sched_leg_def conflux_get_leg_def)
  from sendme_updates_leg_rtt [OF d s l e] d show ?thesis by auto
qed

end
